(* ===== verification/Prelude.thy ===== *)
theory Prelude
  imports Main "HOL-Library.Word" "HOL-Library.Sublist"
begin

text \<open>
  Shared vocabulary of the development: the fixed-width integer types of the C++ sources,
  byte strings, the exception values, big-endian numbers, and the generic list lemmas the
  component theories rely on.

  \<^item> \<open>uint8_t\<close>, \<open>uint16_t\<close>, \<open>uint32_t\<close>, \<open>uint64_t\<close> are \<open>8 word\<close> \<dots> \<open>64 word\<close>.
  \<^item> \<open>size_t\<close> counters that are bounded by the amount of memory are \<open>nat\<close>.
  \<^item> \<open>std::string\<close> and \<open>Buffer\<close> are byte lists; \<open>bytes_of\<close> turns a literal into one.
  \<^item> an exception is a value of type \<open>ndn_error\<close> in the left summand of a result.
\<close>

unbundle bit_operations_syntax

type_synonym byte = "8 word"
type_synonym u16 = "16 word"
type_synonym u32 = "32 word"
type_synonym u64 = "64 word"
type_synonym bytes = "byte list"

text \<open>The exception classes: \<open>tlv::Error\<close>, \<open>Block::Error\<close>, \<open>name::Component::Error\<close>,
  \<open>Exclude::Error\<close>, \<open>std::invalid_argument\<close> and \<open>Selectors::Error\<close>, each with its message.\<close>

datatype ndn_error =
    TlvError string
  | BlockError string
  | ComponentError string
  | ExcludeError string
  | InvalidArgument string

type_synonym 'a result = "ndn_error + 'a"

named_theorems be_simps \<open>big-endian numbers\<close>
named_theorems inv_simps \<open>component invariants, unfolded\<close>

definition bytes_of :: "string \<Rightarrow> bytes" where
  "bytes_of s = map of_char s"

section \<open>Results\<close>

primrec bind_result :: "'a result \<Rightarrow> ('a \<Rightarrow> 'b result) \<Rightarrow> 'b result" where
  "bind_result (Inl e) f = Inl e"
| "bind_result (Inr a) f = f a"

lemma bind_result_Inr [simp]:
  "bind_result r f = Inr b \<longleftrightarrow> (\<exists>a. r = Inr a \<and> f a = Inr b)"
  by (cases r) auto

section \<open>Big-endian numbers\<close>

text \<open>\<open>be_bytes k n\<close> are the \<open>k\<close> octets that \<open>htobe16\<close>, \<open>htobe32\<close> or \<open>htobe64\<close> followed by a
  raw copy of the integer's storage put on the wire; \<open>be_val\<close> reads them back (\<open>be16toh\<close> \<dots>).\<close>

primrec be_bytes :: "nat \<Rightarrow> nat \<Rightarrow> bytes" where
  "be_bytes 0 n = []"
| "be_bytes (Suc k) n = be_bytes k (n div 256) @ [of_nat (n mod 256)]"

definition be_val :: "bytes \<Rightarrow> nat" where
  "be_val bs = foldl (\<lambda>a b. a * 256 + unat b) 0 bs"

lemma length_be_bytes [simp]: "length (be_bytes k n) = k"
  by (induction k arbitrary: n) auto

lemma be_val_Nil [simp]: "be_val [] = 0"
  by (simp add: be_val_def)

lemma be_val_snoc [be_simps]: "be_val (bs @ [b]) = be_val bs * 256 + unat b"
  by (simp add: be_val_def)

lemma be_val_single [simp]: "be_val [b] = unat b"
  by (simp add: be_val_def)

lemma unat_byte_less [simp]: "unat (b :: byte) < 256"
  using unsigned_less [of b] by simp

lemma unat_u32_less [simp]: "unat (t :: u32) < 4294967296"
  using unsigned_less [of t] by simp

lemma unat_u64_less [simp]: "unat (t :: u64) < 18446744073709551616"
  using unsigned_less [of t] by simp

lemma be_bytes_Nil_iff [simp]: "be_bytes k n = [] \<longleftrightarrow> k = 0"
  by (metis length_0_conv length_be_bytes)

lemma be_val_bound: "be_val bs < 256 ^ length bs"
proof (induction bs rule: rev_induct)
  case Nil
  then show ?case by simp
next
  case (snoc b bs)
  have "be_val bs * 256 + unat b < (be_val bs + 1) * 256"
    by (simp add: unat_byte_less)
  also have "\<dots> \<le> 256 ^ length bs * 256"
    using snoc.IH by (intro mult_right_mono) auto
  finally show ?case by (simp add: be_simps mult.commute)
qed

lemma be_val_be_bytes [be_simps]: "be_val (be_bytes k n) = n mod 256 ^ k"
proof (induction k arbitrary: n)
  case 0
  then show ?case by simp
next
  case (Suc k)
  have "unat (of_nat (n mod 256) :: byte) = n mod 256"
    by (simp add: unat_of_nat)
  then show ?case
    using Suc.IH by (simp add: be_simps mod_mult2_eq)
qed

lemma be_bytes_be_val [be_simps]: "be_bytes (length bs) (be_val bs) = bs"
proof (induction bs rule: rev_induct)
  case Nil
  then show ?case by simp
next
  case (snoc b bs)
  have "(be_val bs * 256 + unat b) div 256 = be_val bs"
    and "(be_val bs * 256 + unat b) mod 256 = unat b"
    using unat_byte_less [of b] by simp_all
  then show ?case using snoc.IH by (simp add: be_simps)
qed

text \<open>Shifting an accumulator left by one octet and or-ing the next octet in, as the stream
  readers do, is the same as the multiply-add of \<open>be_val\<close>.\<close>

lemma shift_or_eq: "push_bit 8 v OR ucast (b :: byte) = v * 256 + (ucast b :: u64)"
proof -
  have "push_bit 8 v AND ucast b = (0 :: u64)"
    by (rule bit_word_eqI) (auto simp: bit_simps dest: bit_imp_le_length)
  then have "push_bit 8 v + ucast b = (push_bit 8 v OR ucast b :: u64)"
    by (rule disjunctive_add_eq_or)
  then show ?thesis by (simp add: push_bit_eq_mult)
qed

lemma of_nat_be_snoc [be_simps]:
  "(of_nat (be_val (bs @ [b])) :: u64) = of_nat (be_val bs) * 256 + ucast b"
  by (simp add: be_simps)

section \<open>Lists\<close>

lemma prefix_iff_take: "prefix xs ys \<longleftrightarrow> length xs \<le> length ys \<and> (\<forall>i < length xs. xs ! i = ys ! i)"
proof
  assume "prefix xs ys"
  then show "length xs \<le> length ys \<and> (\<forall>i < length xs. xs ! i = ys ! i)"
    by (auto simp: prefix_def nth_append)
next
  assume *: "length xs \<le> length ys \<and> (\<forall>i < length xs. xs ! i = ys ! i)"
  then have "xs = take (length xs) ys"
    by (intro nth_equalityI) auto
  then show "prefix xs ys"
    by (metis take_is_prefix)
qed

lemma map_filter_distinct_fst: "distinct (map f xs) \<Longrightarrow> distinct (map f (filter P xs))"
  by (rule distinct_map_filter)

lemma find_append: "find P (xs @ ys) = (case find P xs of None \<Rightarrow> find P ys | Some x \<Rightarrow> Some x)"
  by (induction xs) auto

lemma find_Some_set: "find P xs = Some x \<Longrightarrow> x \<in> set xs \<and> P x"
  by (auto simp: find_Some_iff)

lemma find_None_set: "find P xs = None \<longleftrightarrow> (\<forall>x \<in> set xs. \<not> P x)"
  by (auto simp: find_None_iff)

lemma sorted_dropWhile_filter:
  fixes f :: "'a \<Rightarrow> 'b :: linorder"
  assumes "sorted_wrt (\<lambda>a b. f a < f b) xs"
  shows "dropWhile (\<lambda>x. f x < k) xs = filter (\<lambda>x. k \<le> f x) xs"
    and "takeWhile (\<lambda>x. f x < k) xs = filter (\<lambda>x. f x < k) xs"
proof -
  have "dropWhile (\<lambda>x. f x < k) xs = filter (\<lambda>x. k \<le> f x) xs \<and>
      takeWhile (\<lambda>x. f x < k) xs = filter (\<lambda>x. f x < k) xs" (is "?P xs")
    using assms
  proof (induction xs)
    case (Cons x xs)
    show ?case
    proof (cases "f x < k")
      case False
      then have "\<forall>y \<in> set xs. k \<le> f y" using Cons.prems by (auto intro: order.strict_implies_order)
      then have "filter (\<lambda>x. k \<le> f x) xs = xs" "filter (\<lambda>x. f x < k) xs = []"
        by (auto simp: filter_id_conv filter_empty_conv not_less)
      then show ?thesis using False by simp
    qed (use Cons in simp)
  qed simp
  then show "dropWhile (\<lambda>x. f x < k) xs = filter (\<lambda>x. k \<le> f x) xs"
    and "takeWhile (\<lambda>x. f x < k) xs = filter (\<lambda>x. f x < k) xs" by simp_all
qed

end
