(* ===== verification/Tlv.thy ===== *)
theory Tlv
  imports Prelude
begin

text \<open>
  NDN-TLV numbers and one-level block parsing, from \<open>ndn-cxx/src/encoding/tlv.hpp\<close> and
  \<open>ndn-cxx/src/encoding/block.cpp\<close>. An input iterator pair \<open>[begin, end)\<close> is the list of octets
  still to be read; a reader returns the number and the octets after it. The readers over
  \<open>std::istream_iterator\<close>, which assemble the number octet by octet, are separate definitions.
  The lemmas show that both families of readers agree, that readers and writers are inverse to
  each other, and that parsing the concatenation of encoded blocks gives the blocks back.
\<close>

section \<open>Type codes\<close>

definition tlv_Interest :: u32 where "tlv_Interest = 5"
definition tlv_Data :: u32 where "tlv_Data = 6"
definition tlv_Name :: u32 where "tlv_Name = 7"
definition tlv_ImplicitSha256DigestComponent :: u32 where "tlv_ImplicitSha256DigestComponent = 1"
definition tlv_NameComponent :: u32 where "tlv_NameComponent = 8"
definition tlv_Selectors :: u32 where "tlv_Selectors = 9"
definition tlv_Exclude :: u32 where "tlv_Exclude = 16"
definition tlv_Any :: u32 where "tlv_Any = 19"

lemmas tlv_types [simp] =
  tlv_Interest_def tlv_Data_def tlv_Name_def tlv_ImplicitSha256DigestComponent_def
  tlv_NameComponent_def tlv_Selectors_def tlv_Exclude_def tlv_Any_def

section \<open>Readers over contiguous memory\<close>

definition readVarNumber :: "bytes \<Rightarrow> (u64 \<times> bytes) option" where
  "readVarNumber bs = (case bs of [] \<Rightarrow> None
   | firstOctet # rest \<Rightarrow>
       if firstOctet < 253 then Some (ucast firstOctet, rest)
       else if firstOctet = 253 then
         (if length rest < 2 then None
          else Some (of_nat (be_val (take 2 rest)), drop 2 rest))
       else if firstOctet = 254 then
         (if length rest < 4 then None
          else Some (of_nat (be_val (take 4 rest)), drop 4 rest))
       else
         (if length rest < 8 then None
          else Some (of_nat (be_val (take 8 rest)), drop 8 rest)))"

definition readType :: "bytes \<Rightarrow> (u32 \<times> bytes) option" where
  "readType bs = (case readVarNumber bs of
     None \<Rightarrow> None
   | Some (number, rest) \<Rightarrow>
       if number > 4294967295 then None else Some (ucast number, rest))"

definition readVarNumber_throw :: "bytes \<Rightarrow> (u64 \<times> bytes) result" where
  "readVarNumber_throw bs =
     (if bs = [] then Inl (TlvError ''Empty buffer during TLV processing'')
      else case readVarNumber bs of
        None \<Rightarrow> Inl (TlvError ''Insufficient data during TLV processing'')
      | Some r \<Rightarrow> Inr r)"

definition readType_throw :: "bytes \<Rightarrow> (u32 \<times> bytes) result" where
  "readType_throw bs = bind_result (readVarNumber_throw bs)
     (\<lambda>(type, rest).
        if type > 4294967295 then Inl (TlvError ''TLV type code exceeds allowed maximum'')
        else Inr (ucast type, rest))"

definition readNonNegativeInteger :: "nat \<Rightarrow> bytes \<Rightarrow> (u64 \<times> bytes) result" where
  "readNonNegativeInteger sz bs =
     (if sz = 1 \<or> sz = 2 \<or> sz = 4 \<or> sz = 8 then
        (if length bs < sz then Inl (TlvError ''Insufficient data during TLV processing'')
         else Inr (of_nat (be_val (take sz bs)), drop sz bs))
      else Inl (TlvError ''Invalid length for nonNegativeInteger (only 1, 2, 4, and 8 are allowed)''))"

section \<open>Readers over an input stream\<close>

text \<open>The loop shared by the stream readers: at most \<open>n\<close> octets are shifted into \<open>value\<close>;
  \<open>count\<close> tells how many there were.\<close>

fun read_octets :: "nat \<Rightarrow> nat \<Rightarrow> u64 \<Rightarrow> bytes \<Rightarrow> nat \<times> u64 \<times> bytes" where
  "read_octets n count v [] = (count, v, [])"
| "read_octets n count v (b # bs) =
     (if count < n then read_octets n (Suc count) (push_bit 8 v OR ucast b) bs
      else (count, v, b # bs))"

definition readVarNumber_stream :: "bytes \<Rightarrow> (u64 \<times> bytes) option" where
  "readVarNumber_stream bs = (case bs of [] \<Rightarrow> None
   | firstOctet # rest \<Rightarrow>
       if firstOctet < 253 then Some (ucast firstOctet, rest)
       else
         let n = (if firstOctet = 253 then 2 else if firstOctet = 254 then 4 else 8);
             (count, v, rest') = read_octets n 0 0 rest
         in if count \<noteq> n then None else Some (v, rest'))"

definition readNonNegativeInteger_stream :: "nat \<Rightarrow> bytes \<Rightarrow> (u64 \<times> bytes) result" where
  "readNonNegativeInteger_stream sz bs =
     (if sz = 1 then
        (case bs of [] \<Rightarrow> Inl (TlvError ''Insufficient data during TLV processing'')
         | b # rest \<Rightarrow> Inr (ucast b, rest))
      else if sz = 2 \<or> sz = 4 \<or> sz = 8 then
        (let (count, v, rest) = read_octets sz 0 0 bs
         in if count \<noteq> sz then Inl (TlvError ''Insufficient data during TLV processing'')
            else Inr (v, rest))
      else Inl (TlvError ''Invalid length for nonNegativeInteger (only 1, 2, 4, and 8 are allowed)''))"

section \<open>Writers\<close>

definition sizeOfVarNumber :: "u64 \<Rightarrow> nat" where
  "sizeOfVarNumber varNumber =
     (if varNumber < 253 then 1
      else if varNumber \<le> 65535 then 3
      else if varNumber \<le> 4294967295 then 5
      else 9)"

definition writeVarNumber :: "bytes \<Rightarrow> u64 \<Rightarrow> nat \<times> bytes" where
  "writeVarNumber os varNumber =
     (if varNumber < 253 then (1, os @ [ucast varNumber])
      else if varNumber \<le> 65535 then
        (3, os @ [253] @ be_bytes 2 (unat (ucast varNumber :: u16)))
      else if varNumber \<le> 4294967295 then
        (5, os @ [254] @ be_bytes 4 (unat (ucast varNumber :: u32)))
      else (9, os @ [255] @ be_bytes 8 (unat varNumber)))"

definition sizeOfNonNegativeInteger :: "u64 \<Rightarrow> nat" where
  "sizeOfNonNegativeInteger varNumber =
     (if varNumber < 253 then 1
      else if varNumber \<le> 65535 then 2
      else if varNumber \<le> 4294967295 then 4
      else 8)"

definition writeNonNegativeInteger :: "bytes \<Rightarrow> u64 \<Rightarrow> nat \<times> bytes" where
  "writeNonNegativeInteger os varNumber =
     (if varNumber < 253 then (1, os @ [ucast varNumber])
      else if varNumber \<le> 65535 then
        (2, os @ be_bytes 2 (unat (ucast varNumber :: u16)))
      else if varNumber \<le> 4294967295 then
        (4, os @ be_bytes 4 (unat (ucast varNumber :: u32)))
      else (8, os @ be_bytes 8 (unat varNumber)))"

section \<open>Blocks\<close>

text \<open>A block with its wire image: the type, the octets of its value, and the whole encoding.
  \<open>Block::parse\<close> cuts the value into such blocks without descending into them.\<close>

record block =
  blk_type :: u32
  blk_payload :: bytes
  blk_wire :: bytes

definition Block_fromBuffer :: "bytes \<Rightarrow> block option" where
  "Block_fromBuffer buffer = (case readType buffer of
     None \<Rightarrow> None
   | Some (type, rest) \<Rightarrow> (case readVarNumber rest of
       None \<Rightarrow> None
     | Some (len, rest') \<Rightarrow>
         if unat len > length rest' then None
         else Some \<lparr>blk_type = type, blk_payload = take (unat len) rest',
                    blk_wire = take (length buffer - length rest' + unat len) buffer\<rparr>))"

definition Block_ctor :: "bytes \<Rightarrow> block result" where
  "Block_ctor buffer = bind_result (readType_throw buffer) (\<lambda>(type, rest).
     bind_result (readVarNumber_throw rest) (\<lambda>(len, rest').
       if unat len \<noteq> length rest'
       then Inl (TlvError ''TLV length doesn't match buffer length'')
       else Inr \<lparr>blk_type = type, blk_payload = rest', blk_wire = buffer\<rparr>))"

lemma readVarNumber_shorter:
  "readVarNumber bs = Some (n, rest) \<Longrightarrow> length rest < length bs"
  by (auto simp: readVarNumber_def split: list.splits if_splits)

lemma readVarNumber_throw_shorter:
  "readVarNumber_throw bs = Inr (n, rest) \<Longrightarrow> length rest < length bs"
  by (auto simp: readVarNumber_throw_def split: if_splits option.splits dest: readVarNumber_shorter)

lemma readType_throw_shorter:
  "readType_throw bs = Inr (n, rest) \<Longrightarrow> length rest < length bs"
  by (auto simp: readType_throw_def split: if_splits dest: readVarNumber_throw_shorter)

text \<open>The loop of \<open>Block::parse\<close> over the octets \<open>[begin, end)\<close> of the value.\<close>

function Block_parse :: "bytes \<Rightarrow> block list result" where
  "Block_parse bs =
     (if bs = [] then Inr []
      else case readType_throw bs of
        Inl e \<Rightarrow> Inl e
      | Inr (type, rest) \<Rightarrow> (case readVarNumber_throw rest of
          Inl e \<Rightarrow> Inl e
        | Inr (len, rest') \<Rightarrow>
            if unat len > length rest'
            then Inl (TlvError ''TLV length exceeds buffer length'')
            else (case Block_parse (drop (unat len) rest') of
                Inl e \<Rightarrow> Inl e
              | Inr bks \<Rightarrow>
                  Inr (\<lparr>blk_type = type, blk_payload = take (unat len) rest',
                        blk_wire = take (length bs - length rest' + unat len) bs\<rparr> # bks))))"
  by pat_completeness auto
termination
proof (relation "measure length", goal_cases)
  case 1
  then show ?case by simp
next
  case (2 bs r type rest r' len rest')
  then show ?case
    by (auto dest!: readType_throw_shorter readVarNumber_throw_shorter)
qed

declare Block_parse.simps [simp del]

section \<open>Stream readers agree with the memory readers\<close>

lemma read_octets_eq:
  assumes "count \<le> n" and "v = of_nat a"
  shows "read_octets n count v bs =
    (count + min (n - count) (length bs),
     of_nat (foldl (\<lambda>a b. a * 256 + unat b) a (take (n - count) bs)),
     drop (n - count) bs)"
  using assms
proof (induction n count v bs arbitrary: a rule: read_octets.induct)
  case (1 n count v)
  then show ?case by simp
next
  case (2 n count v b bs)
  show ?case
  proof (cases "count < n")
    case True
    have *: "push_bit 8 v OR ucast b = (of_nat (a * 256 + unat b) :: u64)"
      using 2(3) by (simp add: shift_or_eq)
    obtain d where d: "n - count = Suc d" "n - Suc count = d"
      using True by (metis Suc_diff_Suc)
    show ?thesis
      using True 2(1)[OF True _ *] by (simp add: d)
  next
    case False
    with 2(2) have "count = n" by simp
    with 2(3) show ?thesis by simp
  qed
qed

lemma read_octets_from_0:
  "read_octets n 0 0 bs = (min n (length bs), of_nat (be_val (take n bs)), drop n bs)"
  using read_octets_eq [of 0 n 0 0 bs] by (simp add: be_val_def)

lemma readVarNumber_stream_eq: "readVarNumber_stream bs = readVarNumber bs"
proof (cases bs)
  case (Cons b rest)
  have "b < 253 \<or> b = 253 \<or> b = 254 \<or> b = 255"
    by (simp add: word_less_nat_alt word_unat_eq_iff) (use unat_byte_less [of b] in linarith)
  then show ?thesis
    by (auto simp: Cons readVarNumber_stream_def readVarNumber_def read_octets_from_0 Let_def)
qed (simp add: readVarNumber_stream_def readVarNumber_def)

lemma be_val_take_1: "bs \<noteq> [] \<Longrightarrow> be_val (take (Suc 0) bs) = unat (hd bs)"
  by (cases bs) auto

lemma readNonNegativeInteger_stream_eq:
  "readNonNegativeInteger_stream sz bs = readNonNegativeInteger sz bs"
proof (cases "sz = 1")
  case True
  then show ?thesis
    by (cases bs) (simp_all add: readNonNegativeInteger_stream_def readNonNegativeInteger_def)
next
  case False
  then show ?thesis
    by (simp add: readNonNegativeInteger_stream_def readNonNegativeInteger_def
        read_octets_from_0 Let_def)
qed

section \<open>Numbers: writing then reading\<close>

abbreviation encodeVarNumber :: "u64 \<Rightarrow> bytes" where
  "encodeVarNumber n \<equiv> snd (writeVarNumber [] n)"

lemma writeVarNumber_append: "snd (writeVarNumber os n) = os @ encodeVarNumber n"
  by (simp add: writeVarNumber_def)

lemma writeVarNumber_size:
  "fst (writeVarNumber os n) = sizeOfVarNumber n \<and> length (encodeVarNumber n) = sizeOfVarNumber n"
  by (simp add: writeVarNumber_def sizeOfVarNumber_def)

lemma length_encodeVarNumber [simp]: "length (encodeVarNumber n) = sizeOfVarNumber n"
  by (simp add: writeVarNumber_size)

lemma sizeOfVarNumber_pos [simp]: "0 < sizeOfVarNumber n"
  by (simp add: sizeOfVarNumber_def)

lemma encodeVarNumber_nonempty [simp]: "encodeVarNumber n \<noteq> []"
  using length_encodeVarNumber [of n] sizeOfVarNumber_pos [of n] by fastforce

lemma of_nat_be_val_be_bytes:
  "unat n < 256 ^ k \<Longrightarrow> (of_nat (be_val (be_bytes k (unat n))) :: u64) = n"
  by (simp add: be_simps)

lemma unat_ucast_small: "unat (n :: u64) < 2 ^ LENGTH('a :: len) \<Longrightarrow> unat (ucast n :: 'a word) = unat n"
  by (simp add: unsigned_ucast_eq take_bit_nat_eq_self)

lemma unat_ucast_byte [simp]: "unat (ucast (b :: byte) :: u64) = unat b"
proof -
  have "unat b < 2 ^ 64" using unat_byte_less [of b] by (rule less_trans) simp
  then show ?thesis by (simp add: unsigned_ucast_eq take_bit_nat_eq_self)
qed

lemma unat_ucast_u32 [simp]: "unat (ucast (t :: u32) :: u64) = unat t"
proof -
  have "unat t < 2 ^ 64" using unat_u32_less [of t] by (rule less_trans) simp
  then show ?thesis by (simp add: unsigned_ucast_eq take_bit_nat_eq_self)
qed

lemma be_bytes_low:
  assumes "unat (n :: u64) < 2 ^ LENGTH('a :: len)"
  shows "be_bytes k (unat (ucast n :: 'a word)) = be_bytes k (unat n)"
  using assms by (simp add: unat_ucast_small)

lemma encodeVarNumber_cases:
  obtains "n < 253" "encodeVarNumber n = [ucast n]" "sizeOfVarNumber n = 1"
  | "\<not> n < 253" "n \<le> 65535" "unat n < 256 ^ 2" "encodeVarNumber n = 253 # be_bytes 2 (unat n)"
      "sizeOfVarNumber n = 3"
  | "\<not> n < 253" "\<not> n \<le> 65535" "n \<le> 4294967295" "unat n < 256 ^ 4"
      "encodeVarNumber n = 254 # be_bytes 4 (unat n)" "sizeOfVarNumber n = 5"
  | "\<not> n < 253" "\<not> n \<le> 65535" "\<not> n \<le> 4294967295" "unat n < 256 ^ 8" "encodeVarNumber n = 255 # be_bytes 8 (unat n)"
      "sizeOfVarNumber n = 9"
proof -
  have 8: "unat n < 256 ^ 8"
    using unat_u64_less [of n] by simp
  have 2: "unat n < 256 ^ 2 \<and> unat n < 2 ^ LENGTH(16)" if "n \<le> 65535"
    using that by (simp add: word_le_nat_alt)
  have 4: "unat n < 256 ^ 4 \<and> unat n < 2 ^ LENGTH(32)" if "n \<le> 4294967295"
    using that by (simp add: word_le_nat_alt)
  have le: "n \<le> 65535 \<Longrightarrow> n \<le> 4294967295" "n < 253 \<Longrightarrow> n \<le> 65535"
    by (simp_all add: word_le_nat_alt word_less_nat_alt)
  consider "n < 253" | "\<not> n < 253" "n \<le> 65535"
    | "\<not> n < 253" "\<not> n \<le> 65535" "n \<le> 4294967295"
    | "\<not> n < 253" "\<not> n \<le> 65535" "\<not> n \<le> 4294967295"
    by blast
  then show thesis
  proof cases
    case 1
    then show thesis
      by (intro that(1)) (simp_all add: writeVarNumber_def sizeOfVarNumber_def)
  next
    case a: 2
    then show thesis
      using 2 by (intro that(2)) (simp_all add: writeVarNumber_def sizeOfVarNumber_def be_bytes_low
          del: be_bytes.simps)
  next
    case 3
    then show thesis
      using 4 by (intro that(3)) (simp_all add: writeVarNumber_def sizeOfVarNumber_def be_bytes_low
          del: be_bytes.simps)
  next
    case a: 4
    then show thesis
      using 8 by (intro that(4)) (simp_all add: writeVarNumber_def sizeOfVarNumber_def
          del: be_bytes.simps)
  qed
qed

lemma readVarNumber_write:
  "readVarNumber (encodeVarNumber n @ rest) = Some (n, rest)"
proof (cases n rule: encodeVarNumber_cases)
  case 1
  have "unat (ucast n :: byte) = unat n"
    using 1(1) by (simp add: unat_ucast_small word_less_nat_alt)
  then have "(ucast n :: byte) < 253" and "ucast (ucast n :: byte) = n"
    using 1(1) by (simp_all add: word_less_nat_alt word_unat_eq_iff unat_ucast_small)
  then show ?thesis
    using 1 by (simp add: readVarNumber_def)
qed (simp_all add: readVarNumber_def of_nat_be_val_be_bytes del: be_bytes.simps)

lemma ucast_u32_le: "(ucast (t :: u32) :: u64) \<le> 4294967295"
  using unat_u32_less [of t] by (simp add: word_le_nat_alt del: unat_u32_less)

lemma ucast_ucast_u32 [simp]: "ucast (ucast (t :: u32) :: u64) = t"
  by (simp add: word_unat_eq_iff unat_ucast_small)

lemma readVarNumber_throw_write [simp]:
  "readVarNumber_throw (encodeVarNumber n @ rest) = Inr (n, rest)"
  by (simp add: readVarNumber_throw_def readVarNumber_write)

lemma readType_throw_write [simp]:
  "readType_throw (encodeVarNumber (ucast t) @ rest) = Inr (t, rest)"
  using ucast_u32_le [of t] by (simp add: readType_throw_def)

lemma readType_write: "readType (encodeVarNumber (ucast t) @ rest) = Some (t, rest)"
  using ucast_u32_le [of t] by (simp add: readType_def readVarNumber_write)

lemma readNonNegativeInteger_write:
  "readNonNegativeInteger (sizeOfNonNegativeInteger n) (snd (writeNonNegativeInteger [] n) @ rest)
     = Inr (n, rest)"
proof (cases n rule: encodeVarNumber_cases)
  case 1
  have "unat (ucast n :: byte) = unat n"
    using 1(1) by (simp add: unat_ucast_small word_less_nat_alt)
  then show ?thesis
    using 1 by (simp add: readNonNegativeInteger_def sizeOfNonNegativeInteger_def
        writeNonNegativeInteger_def)
qed (auto simp: readNonNegativeInteger_def sizeOfNonNegativeInteger_def
      writeNonNegativeInteger_def of_nat_be_val_be_bytes be_bytes_low word_le_nat_alt
      simp del: be_bytes.simps)

lemma writeNonNegativeInteger_size:
  "fst (writeNonNegativeInteger os n) = sizeOfNonNegativeInteger n
   \<and> length (snd (writeNonNegativeInteger os n)) = length os + sizeOfNonNegativeInteger n"
  by (simp add: writeNonNegativeInteger_def sizeOfNonNegativeInteger_def)

lemma readVarNumber_suffix: "readVarNumber bs = Some (n, rest) \<Longrightarrow> suffix rest bs"
  by (auto simp: readVarNumber_def suffix_drop split: list.splits if_splits intro: suffix_ConsI)

lemma readVarNumber_throw_suffix: "readVarNumber_throw bs = Inr (n, rest) \<Longrightarrow> suffix rest bs"
  by (auto simp: readVarNumber_throw_def split: if_splits option.splits dest: readVarNumber_suffix)

lemma readType_throw_suffix: "readType_throw bs = Inr (n, rest) \<Longrightarrow> suffix rest bs"
  by (auto simp: readType_throw_def split: if_splits dest: readVarNumber_throw_suffix)

section \<open>Blocks: encoding then parsing\<close>

definition encodeBlock :: "u32 \<Rightarrow> bytes \<Rightarrow> bytes" where
  "encodeBlock t v = encodeVarNumber (ucast t) @ encodeVarNumber (of_nat (length v)) @ v"

lemma encodeBlock_nonempty [simp]: "encodeBlock t v \<noteq> []"
  by (simp add: encodeBlock_def)

lemma length_encodeBlock:
  "length (encodeBlock t v) = sizeOfVarNumber (ucast t) + sizeOfVarNumber (of_nat (length v)) + length v"
  by (simp add: encodeBlock_def)

lemma Block_parse_Cons:
  assumes "length v < 2 ^ 64"
  shows "Block_parse (encodeBlock t v @ rest) =
    (case Block_parse rest of Inl e \<Rightarrow> Inl e
     | Inr bks \<Rightarrow> Inr (\<lparr>blk_type = t, blk_payload = v, blk_wire = encodeBlock t v\<rparr> # bks))"
proof -
  have "unat (of_nat (length v) :: u64) = length v"
    using assms by (simp add: unat_of_nat)
  then show ?thesis
    by (subst Block_parse.simps) (simp add: encodeBlock_def split: sum.split)
qed

lemma Block_parse_Nil [simp]: "Block_parse [] = Inr []"
  by (subst Block_parse.simps) simp

lemma Block_parse_encode:
  assumes "\<forall>(t, v) \<in> set tvs. length v < 2 ^ 64"
  shows "Block_parse (concat (map (\<lambda>(t, v). encodeBlock t v) tvs)) =
    Inr (map (\<lambda>(t, v). \<lparr>blk_type = t, blk_payload = v, blk_wire = encodeBlock t v\<rparr>) tvs)"
  using assms by (induction tvs) (auto simp: Block_parse_Cons)

text \<open>Nothing is lost: a successful parse is a partition of the value into the wire images.\<close>

lemma Block_parse_partition:
  "Block_parse bs = Inr bks \<Longrightarrow> concat (map blk_wire bks) = bs"
proof (induction bs arbitrary: bks rule: Block_parse.induct)
  case (1 bs)
  show ?case
  proof (cases "bs = []")
    case True
    with 1 show ?thesis by simp
  next
    case False
    with 1(2) obtain t rest len rest' bks' where
      r: "readType_throw bs = Inr (t, rest)" "readVarNumber_throw rest = Inr (len, rest')"
        "\<not> length rest' < unat len" "Block_parse (drop (unat len) rest') = Inr bks'"
      and bks: "bks = \<lparr>blk_type = t, blk_payload = take (unat len) rest',
                  blk_wire = take (length bs - length rest' + unat len) bs\<rparr> # bks'"
      by (subst (asm) Block_parse.simps) (auto split: sum.splits prod.splits if_splits)
    have IH: "concat (map blk_wire bks') = drop (unat len) rest'"
      using 1(1)[OF False r(1) refl r(2) refl r(3,4)] .
    obtain ys where ys: "bs = ys @ rest'"
      using suffix_order.trans [OF readVarNumber_throw_suffix [OF r(2)] readType_throw_suffix [OF r(1)]]
      by (auto simp: suffix_def)
    show ?thesis
      by (simp add: bks IH ys)
  qed
qed
end
