(* ===== verification/Encoding.thy ===== *)
theory Encoding
  imports Tlv
begin

text \<open>
  The two instances of \<open>EncodingImpl<TAG>\<close>: the \<open>Encoder\<close> of \<open>ndn-cxx/src/encoding/encoder.cpp\<close>,
  which writes octets into a growing buffer from both ends, and the \<open>Estimator\<close> of
  \<open>estimator.cpp\<close>, which only counts them. The template parameter is the record \<open>encoding_impl\<close> of
  the operations the clients call; the locales state what the clients rely on (the returned
  sizes, and for the encoder the octets written), and the block helpers of
  \<open>block-helpers.cpp\<close> are proved against them once.
\<close>

section \<open>Encoder\<close>

record encoder =
  enc_buffer :: bytes
  enc_begin :: nat
  enc_end :: nat

definition Encoder_ctor :: "nat \<Rightarrow> nat \<Rightarrow> encoder" where
  "Encoder_ctor totalReserve reserveFromBack =
     (let p = totalReserve - (if reserveFromBack < totalReserve then reserveFromBack else 0)
      in \<lparr>enc_buffer = replicate totalReserve 0, enc_begin = p, enc_end = p\<rparr>)"

definition Encoder_reserve :: "nat \<Rightarrow> bool \<Rightarrow> encoder \<Rightarrow> encoder" where
  "Encoder_reserve sz0 addInFront e =
     (let n = length (enc_buffer e);
          sz = (if sz0 < n then n else sz0)
      in if addInFront then
           (let diffEnd = n - enc_end e; diffBegin = n - enc_begin e
            in \<lparr>enc_buffer = replicate (sz - n) 0 @ enc_buffer e,
                enc_begin = sz - diffBegin, enc_end = sz - diffEnd\<rparr>)
         else \<lparr>enc_buffer = enc_buffer e @ replicate (sz - n) 0,
               enc_begin = enc_begin e, enc_end = enc_end e\<rparr>)"

definition Encoder_reserveBack :: "nat \<Rightarrow> encoder \<Rightarrow> encoder" where
  "Encoder_reserveBack sz e =
     (if enc_end e + sz > length (enc_buffer e)
      then Encoder_reserve (length (enc_buffer e) * 2 + sz) False e else e)"

definition Encoder_reserveFront :: "nat \<Rightarrow> encoder \<Rightarrow> encoder" where
  "Encoder_reserveFront sz e =
     (if sz > enc_begin e
      then Encoder_reserve (length (enc_buffer e) * 2 + sz) True e else e)"

definition Encoder_prependByte :: "byte \<Rightarrow> encoder \<Rightarrow> nat \<times> encoder" where
  "Encoder_prependByte v e0 =
     (let e = Encoder_reserveFront 1 e0; b = enc_begin e - 1
      in (1, e\<lparr>enc_begin := b, enc_buffer := (enc_buffer e)[b := v]\<rparr>))"

definition Encoder_appendByte :: "byte \<Rightarrow> encoder \<Rightarrow> nat \<times> encoder" where
  "Encoder_appendByte v e0 =
     (let e = Encoder_reserveBack 1 e0
      in (1, e\<lparr>enc_buffer := (enc_buffer e)[enc_end e := v], enc_end := enc_end e + 1\<rparr>))"

definition Encoder_prependByteArray :: "bytes \<Rightarrow> encoder \<Rightarrow> nat \<times> encoder" where
  "Encoder_prependByteArray xs e0 =
     (let e = Encoder_reserveFront (length xs) e0; b = enc_begin e - length xs
      in (length xs,
          e\<lparr>enc_begin := b,
            enc_buffer := take b (enc_buffer e) @ xs @ drop (b + length xs) (enc_buffer e)\<rparr>))"

definition Encoder_appendByteArray :: "bytes \<Rightarrow> encoder \<Rightarrow> nat \<times> encoder" where
  "Encoder_appendByteArray xs e0 =
     (let e = Encoder_reserveBack (length xs) e0; b = enc_end e
      in (length xs,
          e\<lparr>enc_buffer := take b (enc_buffer e) @ xs @ drop (b + length xs) (enc_buffer e),
            enc_end := b + length xs\<rparr>))"

definition Encoder_prependVarNumber :: "u64 \<Rightarrow> encoder \<Rightarrow> nat \<times> encoder" where
  "Encoder_prependVarNumber varNumber e =
     (if varNumber < 253 then (1, snd (Encoder_prependByte (ucast varNumber) e))
      else if varNumber \<le> 65535 then
        (3, snd (Encoder_prependByte 253
              (snd (Encoder_prependByteArray (be_bytes 2 (unat (ucast varNumber :: u16))) e))))
      else if varNumber \<le> 4294967295 then
        (5, snd (Encoder_prependByte 254
              (snd (Encoder_prependByteArray (be_bytes 4 (unat (ucast varNumber :: u32))) e))))
      else
        (9, snd (Encoder_prependByte 255
              (snd (Encoder_prependByteArray (be_bytes 8 (unat varNumber)) e)))))"

definition Encoder_appendVarNumber :: "u64 \<Rightarrow> encoder \<Rightarrow> nat \<times> encoder" where
  "Encoder_appendVarNumber varNumber e =
     (if varNumber < 253 then (1, snd (Encoder_appendByte (ucast varNumber) e))
      else if varNumber \<le> 65535 then
        (3, snd (Encoder_appendByteArray (be_bytes 2 (unat (ucast varNumber :: u16)))
              (snd (Encoder_appendByte 253 e))))
      else if varNumber \<le> 4294967295 then
        (5, snd (Encoder_appendByteArray (be_bytes 4 (unat (ucast varNumber :: u32)))
              (snd (Encoder_appendByte 254 e))))
      else
        (9, snd (Encoder_appendByteArray (be_bytes 8 (unat varNumber))
              (snd (Encoder_appendByte 255 e)))))"

definition Encoder_prependNonNegativeInteger :: "u64 \<Rightarrow> encoder \<Rightarrow> nat \<times> encoder" where
  "Encoder_prependNonNegativeInteger varNumber e =
     (if varNumber \<le> 255 then Encoder_prependByte (ucast varNumber) e
      else if varNumber \<le> 65535 then
        Encoder_prependByteArray (be_bytes 2 (unat (ucast varNumber :: u16))) e
      else if varNumber \<le> 4294967295 then
        Encoder_prependByteArray (be_bytes 4 (unat (ucast varNumber :: u32))) e
      else Encoder_prependByteArray (be_bytes 8 (unat varNumber)) e)"

definition Encoder_appendNonNegativeInteger :: "u64 \<Rightarrow> encoder \<Rightarrow> nat \<times> encoder" where
  "Encoder_appendNonNegativeInteger varNumber e =
     (if varNumber \<le> 255 then Encoder_appendByte (ucast varNumber) e
      else if varNumber \<le> 65535 then
        Encoder_appendByteArray (be_bytes 2 (unat (ucast varNumber :: u16))) e
      else if varNumber \<le> 4294967295 then
        Encoder_appendByteArray (be_bytes 4 (unat (ucast varNumber :: u32))) e
      else Encoder_appendByteArray (be_bytes 8 (unat varNumber)) e)"

definition Encoder_prependByteArrayBlock :: "u32 \<Rightarrow> bytes \<Rightarrow> encoder \<Rightarrow> nat \<times> encoder" where
  "Encoder_prependByteArrayBlock type arr e =
     (let (n1, e1) = Encoder_prependByteArray arr e;
          (n2, e2) = Encoder_prependVarNumber (of_nat (length arr)) e1;
          (n3, e3) = Encoder_prependVarNumber (ucast type) e2
      in (n1 + n2 + n3, e3))"

definition Encoder_appendByteArrayBlock :: "u32 \<Rightarrow> bytes \<Rightarrow> encoder \<Rightarrow> nat \<times> encoder" where
  "Encoder_appendByteArrayBlock type arr e =
     (let (n1, e1) = Encoder_appendVarNumber (ucast type) e;
          (n2, e2) = Encoder_appendVarNumber (of_nat (length arr)) e1;
          (n3, e3) = Encoder_appendByteArray arr e2
      in (n1 + n2 + n3, e3))"

text \<open>The octets between \<open>m_begin\<close> and \<open>m_end\<close>, and \<open>Encoder::block\<close>, which re-reads them.\<close>

definition enc_content :: "encoder \<Rightarrow> bytes" where
  "enc_content e = take (enc_end e - enc_begin e) (drop (enc_begin e) (enc_buffer e))"

definition Encoder_block :: "encoder \<Rightarrow> block result" where
  "Encoder_block e = Block_ctor (enc_content e)"

section \<open>Estimator\<close>

definition Estimator_prependByteArray :: "bytes \<Rightarrow> unit \<Rightarrow> nat \<times> unit" where
  "Estimator_prependByteArray xs e = (length xs, e)"

definition Estimator_prependVarNumber :: "u64 \<Rightarrow> unit \<Rightarrow> nat \<times> unit" where
  "Estimator_prependVarNumber varNumber e =
     (if varNumber < 253 then (1, e)
      else if varNumber \<le> 65535 then (3, e)
      else if varNumber \<le> 4294967295 then (5, e)
      else (9, e))"

definition Estimator_prependNonNegativeInteger :: "u64 \<Rightarrow> unit \<Rightarrow> nat \<times> unit" where
  "Estimator_prependNonNegativeInteger varNumber e =
     (if varNumber \<le> 255 then (1, e)
      else if varNumber \<le> 65535 then (2, e)
      else if varNumber \<le> 4294967295 then (4, e)
      else (8, e))"

definition Estimator_prependByteArrayBlock :: "u32 \<Rightarrow> bytes \<Rightarrow> unit \<Rightarrow> nat \<times> unit" where
  "Estimator_prependByteArrayBlock type arr e =
     (length arr + fst (Estimator_prependVarNumber (of_nat (length arr)) e)
        + fst (Estimator_prependVarNumber (ucast type) e), e)"

section \<open>The template parameter\<close>

record 'e encoding_impl =
  prependByteArray :: "bytes \<Rightarrow> 'e \<Rightarrow> nat \<times> 'e"
  prependVarNumber :: "u64 \<Rightarrow> 'e \<Rightarrow> nat \<times> 'e"
  prependNonNegativeInteger :: "u64 \<Rightarrow> 'e \<Rightarrow> nat \<times> 'e"
  prependByteArrayBlock :: "u32 \<Rightarrow> bytes \<Rightarrow> 'e \<Rightarrow> nat \<times> 'e"

definition EncoderTag :: "encoder encoding_impl" where
  "EncoderTag = \<lparr>prependByteArray = Encoder_prependByteArray,
     prependVarNumber = Encoder_prependVarNumber,
     prependNonNegativeInteger = Encoder_prependNonNegativeInteger,
     prependByteArrayBlock = Encoder_prependByteArrayBlock\<rparr>"

definition EstimatorTag :: "unit encoding_impl" where
  "EstimatorTag = \<lparr>prependByteArray = Estimator_prependByteArray,
     prependVarNumber = Estimator_prependVarNumber,
     prependNonNegativeInteger = Estimator_prependNonNegativeInteger,
     prependByteArrayBlock = Estimator_prependByteArrayBlock\<rparr>"

definition prependNonNegativeIntegerBlock ::
    "'e encoding_impl \<Rightarrow> u32 \<Rightarrow> u64 \<Rightarrow> 'e \<Rightarrow> nat \<times> 'e" where
  "prependNonNegativeIntegerBlock impl type v e =
     (let (valueLength, e1) = prependNonNegativeInteger impl v e;
          (n2, e2) = prependVarNumber impl (of_nat valueLength) e1;
          (n3, e3) = prependVarNumber impl (ucast type) e2
      in (valueLength + n2 + n3, e3))"

definition prependEmptyBlock :: "'e encoding_impl \<Rightarrow> u32 \<Rightarrow> 'e \<Rightarrow> nat \<times> 'e" where
  "prependEmptyBlock impl type e =
     (let (n1, e1) = prependVarNumber impl 0 e;
          (n2, e2) = prependVarNumber impl (ucast type) e1
      in (n1 + n2, e2))"

text \<open>The common shape of \<open>make*Block\<close> and of every \<open>wireEncode()\<close>: estimate, allocate exactly
  that much, encode, and hand out the block.\<close>

definition encode_with :: "(unit \<Rightarrow> nat \<times> unit) \<Rightarrow> (encoder \<Rightarrow> nat \<times> encoder) \<Rightarrow> encoder" where
  "encode_with estimate encode =
     (let totalLength = fst (estimate ()) in snd (encode (Encoder_ctor totalLength 0)))"

definition makeNonNegativeIntegerBlock :: "u32 \<Rightarrow> u64 \<Rightarrow> block result" where
  "makeNonNegativeIntegerBlock type v =
     Encoder_block (encode_with (prependNonNegativeIntegerBlock EstimatorTag type v)
                                (prependNonNegativeIntegerBlock EncoderTag type v))"

definition makeEmptyBlock :: "u32 \<Rightarrow> block result" where
  "makeEmptyBlock type =
     Encoder_block (encode_with (prependEmptyBlock EstimatorTag type)
                                (prependEmptyBlock EncoderTag type))"

definition makeBinaryBlock :: "u32 \<Rightarrow> bytes \<Rightarrow> block result" where
  "makeBinaryBlock type v =
     Encoder_block (encode_with (prependByteArrayBlock EstimatorTag type v)
                                (prependByteArrayBlock EncoderTag type v))"

section \<open>Encoder invariant and contents\<close>

definition enc_inv :: "encoder \<Rightarrow> bool" where
  "enc_inv e \<longleftrightarrow> enc_begin e \<le> enc_end e \<and> enc_end e \<le> length (enc_buffer e)"

lemma enc_inv_ctor [simp]: "enc_inv (Encoder_ctor n k)"
  by (simp add: enc_inv_def Encoder_ctor_def Let_def)

lemma enc_content_ctor [simp]: "enc_content (Encoder_ctor n k) = []"
  by (simp add: enc_content_def Encoder_ctor_def Let_def)

lemma length_enc_content: "enc_inv e \<Longrightarrow> length (enc_content e) = enc_end e - enc_begin e"
  by (auto simp: enc_inv_def enc_content_def)

lemma reserveFront:
  assumes "enc_inv e"
  shows "enc_inv (Encoder_reserveFront n e)"
    and "enc_content (Encoder_reserveFront n e) = enc_content e"
    and "n \<le> enc_begin (Encoder_reserveFront n e)"
  using assms
  by (auto simp: enc_inv_def enc_content_def Encoder_reserveFront_def Encoder_reserve_def Let_def)

lemma reserveBack:
  assumes "enc_inv e"
  shows "enc_inv (Encoder_reserveBack n e)"
    and "enc_content (Encoder_reserveBack n e) = enc_content e"
    and "enc_end (Encoder_reserveBack n e) + n \<le> length (enc_buffer (Encoder_reserveBack n e))"
  using assms
  by (auto simp: enc_inv_def enc_content_def Encoder_reserveBack_def Encoder_reserve_def Let_def)

lemma prependByteArray_spec:
  assumes "enc_inv e"
  shows "enc_inv (snd (Encoder_prependByteArray xs e))"
    and "enc_content (snd (Encoder_prependByteArray xs e)) = xs @ enc_content e"
    and "fst (Encoder_prependByteArray xs e) = length xs"
proof -
  define e1 where "e1 = Encoder_reserveFront (length xs) e"
  have e1: "enc_inv e1" "enc_content e1 = enc_content e" "length xs \<le> enc_begin e1"
    using reserveFront [OF assms] by (simp_all add: e1_def)
  then have b: "enc_begin e1 - length xs \<le> length (enc_buffer e1)"
    by (auto simp: enc_inv_def)
  show "enc_inv (snd (Encoder_prependByteArray xs e))"
    using e1 b by (auto simp: Encoder_prependByteArray_def Let_def enc_inv_def min_absorb2
        simp flip: e1_def)
  show "fst (Encoder_prependByteArray xs e) = length xs"
    by (simp add: Encoder_prependByteArray_def Let_def)
  have "enc_content (snd (Encoder_prependByteArray xs e)) = xs @ enc_content e1"
  proof -
    obtain b' where b': "enc_begin e1 = b' + length xs" "b' \<le> length (enc_buffer e1)"
        "enc_begin e1 \<le> enc_end e1"
      using b e1(1,3) by (metis add.commute enc_inv_def le_add_diff_inverse)
    show ?thesis
      using b' by (simp add: Encoder_prependByteArray_def Let_def enc_content_def min_absorb2
          flip: e1_def)
  qed
  then show "enc_content (snd (Encoder_prependByteArray xs e)) = xs @ enc_content e"
    by (simp add: e1(2))
qed

lemma appendByteArray_spec:
  assumes "enc_inv e"
  shows "enc_inv (snd (Encoder_appendByteArray xs e))"
    and "enc_content (snd (Encoder_appendByteArray xs e)) = enc_content e @ xs"
    and "fst (Encoder_appendByteArray xs e) = length xs"
proof -
  define e1 where "e1 = Encoder_reserveBack (length xs) e"
  have e1: "enc_inv e1" "enc_content e1 = enc_content e"
      "enc_end e1 + length xs \<le> length (enc_buffer e1)"
    using reserveBack [OF assms] by (simp_all add: e1_def)
  show "enc_inv (snd (Encoder_appendByteArray xs e))"
    using e1 by (simp add: Encoder_appendByteArray_def Let_def enc_inv_def flip: e1_def)
  show "fst (Encoder_appendByteArray xs e) = length xs"
    by (simp add: Encoder_appendByteArray_def Let_def)
  have "enc_content (snd (Encoder_appendByteArray xs e)) = enc_content e1 @ xs"
    using e1(1,3) by (simp add: Encoder_appendByteArray_def Let_def enc_content_def enc_inv_def
        min_absorb2 take_drop flip: e1_def)
  then show "enc_content (snd (Encoder_appendByteArray xs e)) = enc_content e @ xs"
    by (simp add: e1(2))
qed

lemma prependByte_as_array: "Encoder_prependByte v e = Encoder_prependByteArray [v] e"
  if "enc_inv e"
proof -
  define e1 where "e1 = Encoder_reserveFront (Suc 0) e"
  have "enc_inv e1" "Suc 0 \<le> enc_begin e1"
    unfolding e1_def by (rule reserveFront [OF that])+
  then have "enc_begin e1 - 1 < length (enc_buffer e1)"
    by (auto simp: enc_inv_def)
  then show ?thesis
    by (simp add: Encoder_prependByte_def Encoder_prependByteArray_def Let_def enc_inv_def
        upd_conv_take_nth_drop flip: e1_def)
qed

lemma appendByte_as_array: "Encoder_appendByte v e = Encoder_appendByteArray [v] e"
  if "enc_inv e"
proof -
  define e1 where "e1 = Encoder_reserveBack (Suc 0) e"
  have "enc_inv e1" "enc_end e1 + Suc 0 \<le> length (enc_buffer e1)"
    unfolding e1_def by (rule reserveBack [OF that])+
  then show ?thesis
    by (simp add: Encoder_appendByte_def Encoder_appendByteArray_def Let_def enc_inv_def
        upd_conv_take_nth_drop flip: e1_def)
qed

lemmas byte_ops = prependByteArray_spec appendByteArray_spec prependByte_as_array appendByte_as_array

lemma prependVarNumber_spec:
  assumes "enc_inv e"
  shows "enc_inv (snd (Encoder_prependVarNumber n e))"
    and "enc_content (snd (Encoder_prependVarNumber n e)) = encodeVarNumber n @ enc_content e"
    and "fst (Encoder_prependVarNumber n e) = sizeOfVarNumber n"
  using assms
  by (simp_all add: Encoder_prependVarNumber_def writeVarNumber_def sizeOfVarNumber_def byte_ops)

lemma appendVarNumber_spec:
  assumes "enc_inv e"
  shows "enc_inv (snd (Encoder_appendVarNumber n e))"
    and "enc_content (snd (Encoder_appendVarNumber n e)) = enc_content e @ encodeVarNumber n"
    and "fst (Encoder_appendVarNumber n e) = sizeOfVarNumber n"
  using assms
  by (simp_all add: Encoder_appendVarNumber_def writeVarNumber_def sizeOfVarNumber_def byte_ops)

text \<open>The shortest big-endian form of a number, which is what the encoder writes for a
  nonNegativeInteger.\<close>

definition encodeNonNegativeInteger :: "u64 \<Rightarrow> bytes" where
  "encodeNonNegativeInteger n =
     be_bytes (if n \<le> 255 then 1 else if n \<le> 65535 then 2 else if n \<le> 4294967295 then 4 else 8)
       (unat n)"

lemma be_bytes_1: "be_bytes (Suc 0) (unat n) = [ucast (n :: u64)]"
  by (simp add: word_unat_eq_iff unsigned_ucast_eq unat_of_nat take_bit_eq_mod)

lemma unat_small:
  "(n :: u64) \<le> 65535 \<Longrightarrow> unat n < 2 ^ LENGTH(16)" "n \<le> 4294967295 \<Longrightarrow> unat n < 2 ^ LENGTH(32)"
  by (simp_all add: word_le_nat_alt)

lemma prependNonNegativeInteger_spec:
  assumes "enc_inv e"
  shows "enc_inv (snd (Encoder_prependNonNegativeInteger n e))"
    and "enc_content (snd (Encoder_prependNonNegativeInteger n e))
         = encodeNonNegativeInteger n @ enc_content e"
    and "fst (Encoder_prependNonNegativeInteger n e) = length (encodeNonNegativeInteger n)"
  using assms unat_small [of n]
  by (simp_all add: Encoder_prependNonNegativeInteger_def encodeNonNegativeInteger_def byte_ops
      be_bytes_1 be_bytes_low del: be_bytes.simps)

lemma appendNonNegativeInteger_spec:
  assumes "enc_inv e"
  shows "enc_inv (snd (Encoder_appendNonNegativeInteger n e))"
    and "enc_content (snd (Encoder_appendNonNegativeInteger n e))
         = enc_content e @ encodeNonNegativeInteger n"
    and "fst (Encoder_appendNonNegativeInteger n e) = length (encodeNonNegativeInteger n)"
  using assms unat_small [of n]
  by (simp_all add: Encoder_appendNonNegativeInteger_def encodeNonNegativeInteger_def byte_ops
      be_bytes_1 be_bytes_low del: be_bytes.simps)

lemma readNonNegativeInteger_encode:
  "readNonNegativeInteger (length (encodeNonNegativeInteger n)) (encodeNonNegativeInteger n @ rest)
     = Inr (n, rest)"
  using unat_small [of n]
  by (auto simp: readNonNegativeInteger_def encodeNonNegativeInteger_def be_simps word_le_nat_alt
      simp del: be_bytes.simps)

lemma prependByteArrayBlock_spec:
  assumes "enc_inv e"
  shows "enc_inv (snd (Encoder_prependByteArrayBlock t xs e))"
    and "enc_content (snd (Encoder_prependByteArrayBlock t xs e)) = encodeBlock t xs @ enc_content e"
    and "fst (Encoder_prependByteArrayBlock t xs e) = length (encodeBlock t xs)"
  using assms
  by (simp_all add: Encoder_prependByteArrayBlock_def Let_def case_prod_beta byte_ops
      prependVarNumber_spec encodeBlock_def)

lemma appendByteArrayBlock_spec:
  assumes "enc_inv e"
  shows "enc_inv (snd (Encoder_appendByteArrayBlock t xs e))"
    and "enc_content (snd (Encoder_appendByteArrayBlock t xs e)) = enc_content e @ encodeBlock t xs"
    and "fst (Encoder_appendByteArrayBlock t xs e) = length (encodeBlock t xs)"
  using assms
  by (simp_all add: Encoder_appendByteArrayBlock_def Let_def case_prod_beta byte_ops
      appendVarNumber_spec encodeBlock_def)

section \<open>What the clients of the template rely on\<close>

text \<open>Both tags promise the sizes; the encoder tag also promises the octets.\<close>

locale encoding_sizes =
  fixes impl :: "'e encoding_impl"
    and invar :: "'e \<Rightarrow> bool"
  assumes invar_bytes: "invar e \<Longrightarrow> invar (snd (prependByteArray impl xs e))"
    and invar_var: "invar e \<Longrightarrow> invar (snd (prependVarNumber impl n e))"
    and invar_nni: "invar e \<Longrightarrow> invar (snd (prependNonNegativeInteger impl n e))"
    and invar_blk: "invar e \<Longrightarrow> invar (snd (prependByteArrayBlock impl t xs e))"
    and size_bytes: "invar e \<Longrightarrow> fst (prependByteArray impl xs e) = length xs"
    and size_var: "invar e \<Longrightarrow> fst (prependVarNumber impl n e) = sizeOfVarNumber n"
    and size_nni:
      "invar e \<Longrightarrow> fst (prependNonNegativeInteger impl n e) = length (encodeNonNegativeInteger n)"
    and size_blk: "invar e \<Longrightarrow> fst (prependByteArrayBlock impl t xs e) = length (encodeBlock t xs)"
begin

lemmas sizes = invar_bytes invar_var invar_nni invar_blk size_bytes size_var size_nni size_blk

lemma nniBlock_size:
  assumes "invar e"
  shows "invar (snd (prependNonNegativeIntegerBlock impl t n e))"
    and "fst (prependNonNegativeIntegerBlock impl t n e)
         = length (encodeBlock t (encodeNonNegativeInteger n))"
  using assms
  by (simp_all add: prependNonNegativeIntegerBlock_def Let_def case_prod_beta sizes encodeBlock_def)

lemma emptyBlock_size:
  assumes "invar e"
  shows "invar (snd (prependEmptyBlock impl t e))"
    and "fst (prependEmptyBlock impl t e) = length (encodeBlock t [])"
  using assms
  by (simp_all add: prependEmptyBlock_def Let_def case_prod_beta sizes encodeBlock_def)

end

locale encoding_buffer = encoding_sizes impl invar
  for impl :: "'e encoding_impl" and invar :: "'e \<Rightarrow> bool" +
  fixes content :: "'e \<Rightarrow> bytes"
  assumes cont_bytes: "invar e \<Longrightarrow> content (snd (prependByteArray impl xs e)) = xs @ content e"
    and cont_var: "invar e \<Longrightarrow> content (snd (prependVarNumber impl n e)) = encodeVarNumber n @ content e"
    and cont_nni: "invar e \<Longrightarrow>
      content (snd (prependNonNegativeInteger impl n e)) = encodeNonNegativeInteger n @ content e"
    and cont_blk: "invar e \<Longrightarrow>
      content (snd (prependByteArrayBlock impl t xs e)) = encodeBlock t xs @ content e"
begin

lemmas conts = cont_bytes cont_var cont_nni cont_blk

lemma nniBlock_content:
  "invar e \<Longrightarrow> content (snd (prependNonNegativeIntegerBlock impl t n e))
     = encodeBlock t (encodeNonNegativeInteger n) @ content e"
  by (simp add: prependNonNegativeIntegerBlock_def Let_def case_prod_beta sizes conts encodeBlock_def)

lemma emptyBlock_content:
  "invar e \<Longrightarrow> content (snd (prependEmptyBlock impl t e)) = encodeBlock t [] @ content e"
  by (simp add: prependEmptyBlock_def Let_def case_prod_beta sizes conts encodeBlock_def)

end

interpretation encoder: encoding_buffer EncoderTag enc_inv enc_content
  by unfold_locales
    (simp_all add: EncoderTag_def prependByteArray_spec prependVarNumber_spec
      prependNonNegativeInteger_spec prependByteArrayBlock_spec del: length_encodeVarNumber)

interpretation estimator: encoding_sizes EstimatorTag "\<lambda>_. True"
  by unfold_locales
    (simp_all add: EstimatorTag_def Estimator_prependByteArray_def Estimator_prependVarNumber_def
      Estimator_prependNonNegativeInteger_def Estimator_prependByteArrayBlock_def
      sizeOfVarNumber_def encodeNonNegativeInteger_def encodeBlock_def del: be_bytes.simps)

section \<open>Blocks made from scratch\<close>

lemma Block_ctor_encodeBlock:
  "length v < 2 ^ 64 \<Longrightarrow> Block_ctor (encodeBlock t v)
     = Inr \<lparr>blk_type = t, blk_payload = v, blk_wire = encodeBlock t v\<rparr>"
  by (simp add: Block_ctor_def encodeBlock_def unat_of_nat)

lemma encode_with_content:
  "enc_content (encode_with est enc) = enc_content (snd (enc (Encoder_ctor (fst (est ())) 0)))"
  by (simp add: encode_with_def Let_def)

lemma makeNonNegativeIntegerBlock_eq:
  "makeNonNegativeIntegerBlock t n =
     Inr \<lparr>blk_type = t, blk_payload = encodeNonNegativeInteger n,
          blk_wire = encodeBlock t (encodeNonNegativeInteger n)\<rparr>"
  by (simp add: makeNonNegativeIntegerBlock_def Encoder_block_def encode_with_content
      encoder.nniBlock_content Block_ctor_encodeBlock encodeNonNegativeInteger_def)

lemma makeEmptyBlock_eq:
  "makeEmptyBlock t = Inr \<lparr>blk_type = t, blk_payload = [], blk_wire = encodeBlock t []\<rparr>"
  by (simp add: makeEmptyBlock_def Encoder_block_def encode_with_content
      encoder.emptyBlock_content Block_ctor_encodeBlock)

lemma makeBinaryBlock_eq:
  "length v < 2 ^ 64 \<Longrightarrow>
   makeBinaryBlock t v = Inr \<lparr>blk_type = t, blk_payload = v, blk_wire = encodeBlock t v\<rparr>"
  by (simp add: makeBinaryBlock_def Encoder_block_def encode_with_content
      encoder.cont_blk Block_ctor_encodeBlock)

text \<open>The estimate is exact: a buffer of the estimated size is filled without a reallocation.\<close>

lemma Encoder_ctor_exact:
  assumes "enc_inv e'" "length (enc_content e') = length (enc_buffer e')"
  shows "enc_content e' = enc_buffer e'"
proof -
  have "enc_end e' - enc_begin e' = length (enc_buffer e')"
    using assms length_enc_content by metis
  with assms(1) have "enc_begin e' = 0 \<and> enc_end e' = length (enc_buffer e')"
    by (auto simp: enc_inv_def)
  then show ?thesis by (simp add: enc_content_def)
qed
end
