(* ===== verification/Names.thy ===== *)
theory Names
  imports Encoding "HOL-Library.List_Lexorder"
begin

text \<open>
  Name components and names, from \<open>ndn-cxx/src/name-component.cpp\<close>, \<open>name-component.hpp\<close>,
  \<open>name.cpp\<close>, \<open>name.hpp\<close> and the string helpers of \<open>util/string-helper.cpp\<close>. A component is its
  TLV type and value; a name is the list of its components. Cached wire images are not kept: the
  encoding of a value that has none yet is what is modelled. The hex decoder of Crypto++, which
  is not part of the repository, is the parameter \<open>hexDecode\<close>.
\<close>

section \<open>Components\<close>

datatype component = Component (comp_type: u32) (comp_value: bytes)

type_synonym name = "component list"

definition SHA256_DIGEST_SIZE :: nat where "SHA256_DIGEST_SIZE = 32"

definition Component_isGeneric :: "component \<Rightarrow> bool" where
  "Component_isGeneric c \<longleftrightarrow> comp_type c = tlv_NameComponent"

definition Component_isImplicitSha256Digest :: "component \<Rightarrow> bool" where
  "Component_isImplicitSha256Digest c \<longleftrightarrow>
     comp_type c = tlv_ImplicitSha256DigestComponent \<and> length (comp_value c) = SHA256_DIGEST_SIZE"

definition Component_ofBlock :: "block \<Rightarrow> component result" where
  "Component_ofBlock wire =
     (let c = Component (blk_type wire) (blk_payload wire)
      in if \<not> Component_isGeneric c \<and> \<not> Component_isImplicitSha256Digest c
         then Inl (ComponentError ''Cannot construct name::Component from not a NameComponent or ImplicitSha256DigestComponent TLV wire block'')
         else Inr c)"

definition Component_fromImplicitSha256Digest :: "bytes \<Rightarrow> component result" where
  "Component_fromImplicitSha256Digest digest =
     (if length digest \<noteq> SHA256_DIGEST_SIZE
      then Inl (ComponentError ''Cannot create ImplicitSha256DigestComponent (input digest must be 32 octets)'')
      else Inr (Component tlv_ImplicitSha256DigestComponent digest))"

definition Component_empty :: "component \<Rightarrow> bool" where
  "Component_empty c \<longleftrightarrow> length (comp_value c) = 0"

definition Component_equals :: "component \<Rightarrow> component \<Rightarrow> bool" where
  "Component_equals a b =
     (if length (comp_value a) \<noteq> length (comp_value b) then False
      else if length (comp_value a) = 0 then True
      else comp_value a = comp_value b)"

text \<open>\<open>std::memcmp\<close> on buffers of equal length; only the sign of its result is specified.\<close>

fun memcmp :: "bytes \<Rightarrow> bytes \<Rightarrow> int" where
  "memcmp (x # xs) (y # ys) = (if x < y then -1 else if x > y then 1 else memcmp xs ys)"
| "memcmp _ _ = 0"

definition Component_compare :: "component \<Rightarrow> component \<Rightarrow> int" where
  "Component_compare a b =
     (if comp_type a < comp_type b then -1
      else if comp_type a > comp_type b then 1
      else if length (comp_value a) < length (comp_value b) then -1
      else if length (comp_value a) > length (comp_value b) then 1
      else if length (comp_value a) = 0 then 0
      else memcmp (comp_value a) (comp_value b))"

text \<open>The carry loop of \<open>Component::getSuccessor\<close>, from the last octet down.\<close>

fun getSuccessor_loop :: "bytes \<Rightarrow> nat \<Rightarrow> bool \<Rightarrow> bytes \<Rightarrow> nat \<times> bool \<times> bytes" where
  "getSuccessor_loop v 0 isOverflow acc = (0, isOverflow, acc)"
| "getSuccessor_loop v (Suc i) isOverflow acc =
     (if isOverflow then
        let newValue = v ! i + 1 in getSuccessor_loop v i (newValue = 0) (newValue # acc)
      else (Suc i, isOverflow, acc))"

definition Component_getSuccessor :: "component \<Rightarrow> component" where
  "Component_getSuccessor c =
     (let v = comp_value c;
          (i, isOverflow, acc) = getSuccessor_loop v (length v) True []
      in Component (comp_type c) (take i v @ acc @ (if isOverflow then [0] else [])))"

definition Component_wireEncode :: "'e encoding_impl \<Rightarrow> component \<Rightarrow> 'e \<Rightarrow> nat \<times> 'e" where
  "Component_wireEncode impl c e =
     (let (n1, e1) = (if length (comp_value c) > 0 then prependByteArray impl (comp_value c) e
                      else (0, e));
          (n2, e2) = prependVarNumber impl (of_nat (length (comp_value c))) e1;
          (n3, e3) = prependVarNumber impl (ucast (comp_type c)) e2
      in (n1 + n2 + n3, e3))"

subsection \<open>Numbers in components\<close>

definition SEGMENT_MARKER :: byte where "SEGMENT_MARKER = 0x00"
definition SEGMENT_OFFSET_MARKER :: byte where "SEGMENT_OFFSET_MARKER = 0xFB"
definition VERSION_MARKER :: byte where "VERSION_MARKER = 0xFD"
definition TIMESTAMP_MARKER :: byte where "TIMESTAMP_MARKER = 0xFC"
definition SEQUENCE_NUMBER_MARKER :: byte where "SEQUENCE_NUMBER_MARKER = 0xFE"

definition Component_isNumber :: "component \<Rightarrow> bool" where
  "Component_isNumber c \<longleftrightarrow> length (comp_value c) \<in> {1, 2, 4, 8}"

definition Component_isNumberWithMarker :: "byte \<Rightarrow> component \<Rightarrow> bool" where
  "Component_isNumberWithMarker marker c \<longleftrightarrow>
     \<not> Component_empty c \<and> hd (comp_value c) = marker \<and> length (comp_value c) \<in> {2, 3, 5, 9}"

definition Component_toNumber :: "component \<Rightarrow> u64 result" where
  "Component_toNumber c =
     (if \<not> Component_isNumber c
      then Inl (ComponentError ''Name component does not have nonNegativeInteger value'')
      else bind_result (readNonNegativeInteger (length (comp_value c)) (comp_value c)) (Inr \<circ> fst))"

definition Component_toNumberWithMarker :: "byte \<Rightarrow> component \<Rightarrow> u64 result" where
  "Component_toNumberWithMarker marker c =
     (if \<not> Component_isNumberWithMarker marker c
      then Inl (ComponentError ''Name component does not have the requested marker or the value is not a nonNegativeInteger'')
      else bind_result (readNonNegativeInteger (length (comp_value c) - 1) (tl (comp_value c)))
             (Inr \<circ> fst))"

definition Component_fromNumber :: "u64 \<Rightarrow> component result" where
  "Component_fromNumber n =
     bind_result (makeNonNegativeIntegerBlock tlv_NameComponent n) Component_ofBlock"

text \<open>The sequence of prepends of \<open>Component::fromNumberWithMarker\<close>, run once on the estimator and
  once on the encoder.\<close>

definition prependNumberWithMarker :: "'e encoding_impl \<Rightarrow> byte \<Rightarrow> u64 \<Rightarrow> 'e \<Rightarrow> nat \<times> 'e" where
  "prependNumberWithMarker impl marker n e =
     (let (n1, e1) = prependNonNegativeInteger impl n e;
          (n2, e2) = prependByteArray impl [marker] e1;
          valueLength = n1 + n2;
          (n3, e3) = prependVarNumber impl (of_nat valueLength) e2;
          (n4, e4) = prependVarNumber impl (ucast tlv_NameComponent) e3
      in (valueLength + n3 + n4, e4))"

definition Component_fromNumberWithMarker :: "byte \<Rightarrow> u64 \<Rightarrow> component result" where
  "Component_fromNumberWithMarker marker n =
     bind_result (Encoder_block (encode_with (prependNumberWithMarker EstimatorTag marker n)
                                             (prependNumberWithMarker EncoderTag marker n)))
       Component_ofBlock"

definition Component_fromSequenceNumber :: "u64 \<Rightarrow> component result" where
  "Component_fromSequenceNumber seqNo = Component_fromNumberWithMarker SEQUENCE_NUMBER_MARKER seqNo"

definition Component_toSequenceNumber :: "component \<Rightarrow> u64 result" where
  "Component_toSequenceNumber c = Component_toNumberWithMarker SEQUENCE_NUMBER_MARKER c"

section \<open>Names\<close>

definition Name_wireEncode :: "'e encoding_impl \<Rightarrow> name \<Rightarrow> 'e \<Rightarrow> nat \<times> 'e" where
  "Name_wireEncode impl n e =
     (let (totalLength, e1) =
            fold (\<lambda>c (len, e'). let (k, e'') = Component_wireEncode impl c e' in (len + k, e''))
              (rev n) (0, e);
          (n2, e2) = prependVarNumber impl (of_nat totalLength) e1;
          (n3, e3) = prependVarNumber impl (ucast tlv_Name) e2
      in (totalLength + n2 + n3, e3))"

definition Name_toWire :: "name \<Rightarrow> block result" where
  "Name_toWire n =
     Encoder_block (encode_with (Name_wireEncode EstimatorTag n) (Name_wireEncode EncoderTag n))"

definition Name_wireDecode :: "block \<Rightarrow> name result" where
  "Name_wireDecode wire =
     (if blk_type wire \<noteq> tlv_Name
      then Inl (TlvError ''Unexpected TLV type when decoding Name'')
      else bind_result (Block_parse (blk_payload wire))
             (\<lambda>bks. Inr (map (\<lambda>b. Component (blk_type b) (blk_payload b)) bks)))"

text \<open>\<open>at\<close> throws outside the name; \<open>get\<close> with a negative index counts from the end.\<close>

definition Name_at :: "name \<Rightarrow> int \<Rightarrow> component result" where
  "Name_at n i =
     (if (0 \<le> i \<and> nat i \<ge> length n) \<or> (i < 0 \<and> nat (- i) > length n)
      then Inl (TlvError ''Requested component does not exist (out of bounds)'')
      else Inr (if 0 \<le> i then n ! nat i else n ! nat (int (length n) + i)))"

text \<open>\<open>size_t\<close> arithmetic of \<open>getSubName\<close> and \<open>getPrefix\<close>: \<open>npos\<close> is the largest value, and the
  sums wrap.\<close>

definition npos :: nat where "npos = 2 ^ 64 - 1"

definition Name_getSubName :: "name \<Rightarrow> int \<Rightarrow> nat \<Rightarrow> name" where
  "Name_getSubName n iStartComponent nComponents =
     (let iStart0 = (if iStartComponent < 0 then int (length n) + iStartComponent
                     else iStartComponent);
          iStart = nat (max iStart0 0);
          iEnd = (if nComponents \<noteq> npos then min (length n) ((iStart + nComponents) mod 2 ^ 64)
                  else length n)
      in map (\<lambda>i. n ! i) [iStart ..< iEnd])"

definition Name_getPrefix :: "name \<Rightarrow> int \<Rightarrow> name" where
  "Name_getPrefix n nComponents =
     (if nComponents < 0
      then Name_getSubName n 0 (nat ((int (length n) + nComponents) mod 2 ^ 64))
      else Name_getSubName n 0 (nat nComponents))"

definition Name_getSuccessor :: "name \<Rightarrow> name" where
  "Name_getSuccessor n =
     (if n = [] then [Component tlv_NameComponent [0]]
      else Name_getPrefix n (-1) @ [Component_getSuccessor (last n)])"

definition Name_equals :: "name \<Rightarrow> name \<Rightarrow> bool" where
  "Name_equals a b \<longleftrightarrow>
     length a = length b \<and> (\<forall>i \<in> set [0 ..< length a]. Component_equals (a ! i) (b ! i))"

definition Name_isPrefixOf :: "name \<Rightarrow> name \<Rightarrow> bool" where
  "Name_isPrefixOf a b \<longleftrightarrow>
     length a \<le> length b \<and> (\<forall>i \<in> set [0 ..< length a]. Component_equals (a ! i) (b ! i))"

fun Name_compare_loop :: "name \<Rightarrow> nat \<Rightarrow> name \<Rightarrow> nat \<Rightarrow> nat \<Rightarrow> int option" where
  "Name_compare_loop a pos1 b pos2 0 = None"
| "Name_compare_loop a pos1 b pos2 (Suc count) =
     (let cmp = Component_compare (a ! pos1) (b ! pos2)
      in if cmp \<noteq> 0 then Some cmp else Name_compare_loop a (Suc pos1) b (Suc pos2) count)"

definition Name_compare_range :: "name \<Rightarrow> nat \<Rightarrow> nat \<Rightarrow> name \<Rightarrow> nat \<Rightarrow> nat \<Rightarrow> int" where
  "Name_compare_range a pos1 count1 b pos2 count2 =
     (let c1 = min count1 (length a - pos1); c2 = min count2 (length b - pos2)
      in case Name_compare_loop a pos1 b pos2 (min c1 c2) of
           Some cmp \<Rightarrow> cmp
         | None \<Rightarrow> int c1 - int c2)"

definition Name_compare :: "name \<Rightarrow> name \<Rightarrow> int" where
  "Name_compare a b = Name_compare_range a 0 npos b 0 npos"

section \<open>URIs\<close>

definition hexDigit :: "bool \<Rightarrow> byte \<Rightarrow> byte" where
  "hexDigit isUpperCase d =
     (if d < 10 then 48 + d else if isUpperCase then 55 + d else 87 + d)"

definition printHex :: "bool \<Rightarrow> bytes \<Rightarrow> bytes" where
  "printHex isUpperCase bs =
     concat (map (\<lambda>b. [hexDigit isUpperCase (drop_bit 4 b), hexDigit isUpperCase (b AND 15)]) bs)"

definition fromHexChar :: "byte \<Rightarrow> int" where
  "fromHexChar c =
     (if 48 \<le> c \<and> c \<le> 57 then uint c - 48
      else if 65 \<le> c \<and> c \<le> 70 then uint c - 65 + 10
      else if 97 \<le> c \<and> c \<le> 102 then uint c - 97 + 10
      else -1)"

fun unescape :: "bytes \<Rightarrow> bytes" where
  "unescape (c # c1 # c2 # rest) =
     (if c = 0x25 then
        (let hi = fromHexChar c1; lo = fromHexChar c2
         in if hi < 0 \<or> lo < 0 then c # c1 # c2 # unescape rest
            else word_of_int (push_bit 4 hi OR lo) # unescape rest)
      else c # unescape (c1 # c2 # rest))"
| "unescape rest = rest"

text \<open>\<open>boost::algorithm::trim\<close> in the classic locale.\<close>

definition isSpace :: "byte \<Rightarrow> bool" where
  "isSpace c \<longleftrightarrow> c = 32 \<or> (9 \<le> c \<and> c \<le> 13)"

definition trim :: "bytes \<Rightarrow> bytes" where
  "trim s = rev (dropWhile isSpace (rev (dropWhile isSpace s)))"

definition isUnreserved :: "byte \<Rightarrow> bool" where
  "isUnreserved x \<longleftrightarrow>
     (0x30 \<le> x \<and> x \<le> 0x39) \<or> (0x41 \<le> x \<and> x \<le> 0x5a) \<or> (0x61 \<le> x \<and> x \<le> 0x7a)
     \<or> x = 0x2b \<or> x = 0x2d \<or> x = 0x2e \<or> x = 0x5f"

definition sha256DigestUriPrefix :: bytes where
  "sha256DigestUriPrefix = bytes_of ''sha256digest=''"

definition escapeByte :: "byte \<Rightarrow> bytes" where
  "escapeByte x =
     (if isUnreserved x then [x]
      else if x < 16 then [0x25, 0x30, hexDigit True x]
      else [0x25, hexDigit True (drop_bit 4 x), hexDigit True (x AND 15)])"

definition Component_toUri :: "component \<Rightarrow> bytes" where
  "Component_toUri c =
     (if comp_type c = tlv_ImplicitSha256DigestComponent
      then sha256DigestUriPrefix @ printHex False (comp_value c)
      else
        let gotNonDot = list_ex (\<lambda>b. b \<noteq> 0x2e) (comp_value c)
        in if \<not> gotNonDot then [0x2e, 0x2e, 0x2e] @ replicate (length (comp_value c)) 0x2e
           else concat (map escapeByte (comp_value c)))"

definition fromHex :: "(bytes \<Rightarrow> bytes) \<Rightarrow> bytes \<Rightarrow> bytes option" where
  "fromHex hexDecode hexString =
     (if length hexString mod 2 \<noteq> 0 then None
      else let buffer = hexDecode hexString
           in if length buffer * 2 \<noteq> length hexString then None else Some buffer)"

definition Component_fromEscapedString :: "(bytes \<Rightarrow> bytes) \<Rightarrow> bytes \<Rightarrow> component result" where
  "Component_fromEscapedString hexDecode escaped =
     (let trimmed = trim escaped; plen = length sha256DigestUriPrefix
      in if take plen trimmed = sha256DigestUriPrefix then
           (if length trimmed \<noteq> plen + SHA256_DIGEST_SIZE * 2
            then Inl (ComponentError ''Cannot convert to ImplicitSha256DigestComponent(expected sha256 in hex encoding)'')
            else case fromHex hexDecode (drop plen trimmed) of
                None \<Rightarrow> Inl (ComponentError ''Cannot convert to a ImplicitSha256DigestComponent (invalid hex encoding)'')
              | Some digest \<Rightarrow> Component_fromImplicitSha256Digest digest)
         else
           let v = unescape trimmed
           in if list_all (\<lambda>b. b = 0x2e) v then
                (if length v \<le> 2
                 then Inl (ComponentError ''Illegal URI (name component cannot be . or ..)'')
                 else Inr (Component tlv_NameComponent (drop 3 v)))
              else Inr (Component tlv_NameComponent v))"

definition Name_toUri :: "name \<Rightarrow> bytes" where
  "Name_toUri n =
     (if n = [] then [0x2f] else concat (map (\<lambda>c. 0x2f # Component_toUri c) n))"

text \<open>The loop of \<open>Name::construct\<close> over what is left of the URI after scheme and authority.\<close>

function construct_components :: "(bytes \<Rightarrow> bytes) \<Rightarrow> bytes \<Rightarrow> name result" where
  "construct_components hexDecode uri =
     (if uri = [] then Inr []
      else let seg = takeWhile (\<lambda>b. b \<noteq> 0x2f) uri;
               rest = drop (length seg + 1) uri
           in case Component_fromEscapedString hexDecode seg of
                Inl e \<Rightarrow> Inl e
              | Inr c \<Rightarrow> (case construct_components hexDecode rest of
                    Inl e \<Rightarrow> Inl e
                  | Inr cs \<Rightarrow> Inr (c # cs)))"
  by pat_completeness auto
termination
  by (relation "measure (\<lambda>(_, uri). length uri)") auto

declare construct_components.simps [simp del]

definition stripScheme :: "bytes \<Rightarrow> bytes" where
  "stripScheme uri =
     (let iColon = length (takeWhile (\<lambda>b. b \<noteq> 0x3a) uri);
          iFirstSlash = length (takeWhile (\<lambda>b. b \<noteq> 0x2f) uri)
      in if 0x3a \<in> set uri \<and> (0x2f \<notin> set uri \<or> iColon < iFirstSlash)
         then trim (drop (iColon + 1) uri) else uri)"

definition Name_construct :: "(bytes \<Rightarrow> bytes) \<Rightarrow> bytes \<Rightarrow> name result" where
  "Name_construct hexDecode uriOrig =
     (let uri = trim uriOrig
      in if uri = [] then Inr []
         else
           let uri1 = stripScheme uri
           in if uri1 \<noteq> [] \<and> hd uri1 = 0x2f then
                (if length uri1 \<ge> 2 \<and> uri1 ! 1 = 0x2f then
                   (let after = dropWhile (\<lambda>b. b \<noteq> 0x2f) (drop 2 uri1)
                    in if after = [] then Inr []
                       else construct_components hexDecode (trim (drop 1 after)))
                 else construct_components hexDecode (trim (drop 1 uri1)))
              else construct_components hexDecode uri1)"

section \<open>The canonical order\<close>

lemma memcmp_lex:
  assumes "length xs = length ys"
  shows "memcmp xs ys < 0 \<longleftrightarrow> xs < ys"
    and "memcmp xs ys = 0 \<longleftrightarrow> xs = ys"
    and "memcmp xs ys > 0 \<longleftrightarrow> ys < xs"
  using assms
  by (induction xs ys rule: list_induct2) auto

lemma Component_compare_less:
  "Component_compare a b < 0 \<longleftrightarrow>
     comp_type a < comp_type b \<or> comp_type a = comp_type b \<and>
       (length (comp_value a) < length (comp_value b) \<or>
        length (comp_value a) = length (comp_value b) \<and> comp_value a < comp_value b)"
  by (auto simp: Component_compare_def memcmp_lex)

lemma Component_compare_eq: "Component_compare a b = 0 \<longleftrightarrow> a = b"
  by (auto simp: Component_compare_def memcmp_lex component.expand)

lemma Component_compare_greater: "Component_compare a b > 0 \<longleftrightarrow> Component_compare b a < 0"
  by (auto simp: Component_compare_def memcmp_lex)

instantiation component :: linorder
begin

definition less_component :: "component \<Rightarrow> component \<Rightarrow> bool" where
  "a < b \<longleftrightarrow> Component_compare a b < 0"

definition less_eq_component :: "component \<Rightarrow> component \<Rightarrow> bool" where
  "a \<le> b \<longleftrightarrow> Component_compare a b \<le> 0"

instance
proof
  fix x y z :: component
  have le: "a \<le> b \<longleftrightarrow> a < b \<or> a = b" for a b :: component
    using Component_compare_eq [of a b] by (auto simp: less_component_def less_eq_component_def)
  have tr: "a < b \<Longrightarrow> b < c \<Longrightarrow> a < c" for a b c :: component
    unfolding less_component_def Component_compare_less by auto
  have asym: "a < b \<Longrightarrow> \<not> b < a" for a b :: component
    using Component_compare_greater [of a b] by (simp add: less_component_def)
  have tot: "a < b \<or> a = b \<or> b < a" for a b :: component
    using Component_compare_greater [of a b] Component_compare_eq [of a b]
    by (auto simp: less_component_def)
  show "(x < y) = (x \<le> y \<and> \<not> y \<le> x)"
    using asym [of x y] by (auto simp: le)
  show "x \<le> x" by (simp add: le)
  show "x \<le> y \<Longrightarrow> y \<le> z \<Longrightarrow> x \<le> z" using tr [of x y z] by (auto simp: le)
  show "x \<le> y \<Longrightarrow> y \<le> x \<Longrightarrow> x = y" using asym [of x y] by (auto simp: le)
  show "x \<le> y \<or> y \<le> x" using tot [of x y] by (auto simp: le)
qed

end

lemma Component_compare_sign:
  "Component_compare a b < 0 \<longleftrightarrow> a < b" "Component_compare a b \<le> 0 \<longleftrightarrow> a \<le> b"
  "Component_compare a b > 0 \<longleftrightarrow> b < a" "Component_compare a b \<ge> 0 \<longleftrightarrow> b \<le> a"
  using Component_compare_greater [of a b] Component_compare_greater [of b a]
  by (simp_all add: less_component_def less_eq_component_def not_less [symmetric])

lemma Name_compare_loop_lex:
  assumes "pos1 + count \<le> length a" and "pos2 + count \<le> length b"
  shows "case Name_compare_loop a pos1 b pos2 count of
      None \<Rightarrow> take count (drop pos1 a) = take count (drop pos2 b)
    | Some r \<Rightarrow> r \<noteq> 0 \<and> (\<forall>xs ys. (r < 0 \<longleftrightarrow> take count (drop pos1 a) @ xs < take count (drop pos2 b) @ ys)
                  \<and> (r > 0 \<longleftrightarrow> take count (drop pos2 b) @ ys < take count (drop pos1 a) @ xs))"
  using assms
proof (induction a pos1 b pos2 count rule: Name_compare_loop.induct)
  case (1 a pos1 b pos2)
  then show ?case by simp
next
  case (2 a pos1 b pos2 count)
  have d: "drop pos1 a = a ! pos1 # drop (Suc pos1) a" "drop pos2 b = b ! pos2 # drop (Suc pos2) b"
    using 2(2,3) by (simp_all add: Cons_nth_drop_Suc)
  show ?case
  proof (cases "Component_compare (a ! pos1) (b ! pos2) = 0")
    case True
    then have "a ! pos1 = b ! pos2" by (simp add: Component_compare_eq)
    then show ?thesis
      using 2 True by (simp add: d Let_def split: option.splits)
  next
    case False
    then have "a ! pos1 \<noteq> b ! pos2" by (simp add: Component_compare_eq)
    with False show ?thesis
      by (auto simp: d Component_compare_sign)
  qed
qed

lemma less_append [simp]: "(xs :: 'a :: linorder list) < xs @ ys \<longleftrightarrow> ys \<noteq> []"
  by (induction xs) (cases ys; simp)+

lemma append_less_append [simp]: "(xs :: 'a :: linorder list) @ ys < xs @ zs \<longleftrightarrow> ys < zs"
  by (induction xs) auto

lemma append_le_append [simp]: "(xs :: 'a :: linorder list) @ ys \<le> xs @ zs \<longleftrightarrow> ys \<le> zs"
  by (induction xs) auto

lemma common_prefix_order:
  fixes A B :: "'a :: linorder list"
  assumes "take c A = take c B" and "c = min (length A) (length B)"
  shows "int (length A) - int (length B) < 0 \<longleftrightarrow> A < B"
    and "int (length A) - int (length B) = 0 \<longleftrightarrow> A = B"
    and "int (length A) - int (length B) > 0 \<longleftrightarrow> B < A"
proof -
  consider zs where "B = A @ zs" | zs where "A = B @ zs"
    using assms by (metis append_take_drop_id min_def take_all_iff order_refl)
  then have "(int (length A) - int (length B) < 0 \<longleftrightarrow> A < B) \<and>
      (int (length A) - int (length B) = 0 \<longleftrightarrow> A = B) \<and> (int (length A) - int (length B) > 0 \<longleftrightarrow> B < A)"
  proof cases
    case 1
    then show ?thesis
      using less_append [of A zs] order_less_not_sym [of A "A @ zs"] by (cases "zs = []") simp_all
  next
    case 2
    then show ?thesis
      using less_append [of B zs] order_less_not_sym [of B "B @ zs"] by (cases "zs = []") simp_all
  qed
  then show "int (length A) - int (length B) < 0 \<longleftrightarrow> A < B"
    and "int (length A) - int (length B) = 0 \<longleftrightarrow> A = B"
    and "int (length A) - int (length B) > 0 \<longleftrightarrow> B < A" by blast+
qed

lemma Name_compare_range_lex:
  assumes "pos1 \<le> length a" and "pos2 \<le> length b"
    and A: "A = take count1 (drop pos1 a)" and B: "B = take count2 (drop pos2 b)"
  shows "Name_compare_range a pos1 count1 b pos2 count2 < 0 \<longleftrightarrow> A < B"
    and "Name_compare_range a pos1 count1 b pos2 count2 = 0 \<longleftrightarrow> A = B"
    and "Name_compare_range a pos1 count1 b pos2 count2 > 0 \<longleftrightarrow> B < A"
proof -
  define c where "c = min (min count1 (length a - pos1)) (min count2 (length b - pos2))"
  have len: "length A = min count1 (length a - pos1)" "length B = min count2 (length b - pos2)"
    by (simp_all add: A B min.commute)
  have tk: "take c (drop pos1 a) = take c A" "take c (drop pos2 b) = take c B"
    by (simp_all add: A B c_def min.commute min.left_commute)
  have AB: "take c A @ drop c A = A" "take c B @ drop c B = B" by simp_all
  have c: "c = min (length A) (length B)" by (simp add: c_def len)
  have loop: "case Name_compare_loop a pos1 b pos2 c of
      None \<Rightarrow> take c A = take c B
    | Some r \<Rightarrow> r \<noteq> 0 \<and> (\<forall>xs ys. (r < 0 \<longleftrightarrow> take c A @ xs < take c B @ ys)
                  \<and> (r > 0 \<longleftrightarrow> take c B @ ys < take c A @ xs))"
    unfolding tk [symmetric] by (rule Name_compare_loop_lex) (use assms(1,2) len c in linarith)+
  have eq: "Name_compare_range a pos1 count1 b pos2 count2 =
      (case Name_compare_loop a pos1 b pos2 c of Some r \<Rightarrow> r | None \<Rightarrow> int (length A) - int (length B))"
    by (simp add: Name_compare_range_def Let_def c len [symmetric])
  have *: "(Name_compare_range a pos1 count1 b pos2 count2 < 0 \<longleftrightarrow> A < B) \<and>
      (Name_compare_range a pos1 count1 b pos2 count2 = 0 \<longleftrightarrow> A = B) \<and>
      (Name_compare_range a pos1 count1 b pos2 count2 > 0 \<longleftrightarrow> B < A)"
  proof (cases "Name_compare_loop a pos1 b pos2 c")
    case (Some r)
    from loop Some have r: "r \<noteq> 0"
      "\<And>xs ys. r < 0 \<longleftrightarrow> take c A @ xs < take c B @ ys"
      "\<And>xs ys. r > 0 \<longleftrightarrow> take c B @ ys < take c A @ xs" by auto
    have "r < 0 \<longleftrightarrow> A < B" "r > 0 \<longleftrightarrow> B < A"
      using r(2)[of "drop c A" "drop c B"] r(3)[of "drop c B" "drop c A"] by (simp_all add: AB)
    with r(1) Some eq show ?thesis by auto
  next
    case None
    with loop have "take c A = take c B" by simp
    from common_prefix_order [OF this c] None eq show ?thesis by simp
  qed
  then show "Name_compare_range a pos1 count1 b pos2 count2 < 0 \<longleftrightarrow> A < B"
    and "Name_compare_range a pos1 count1 b pos2 count2 = 0 \<longleftrightarrow> A = B"
    and "Name_compare_range a pos1 count1 b pos2 count2 > 0 \<longleftrightarrow> B < A" by blast+
qed

lemma Name_compare_lex:
  assumes "length a \<le> npos" and "length b \<le> npos"
  shows "Name_compare a b < 0 \<longleftrightarrow> a < b" and "Name_compare a b = 0 \<longleftrightarrow> a = b"
    and "Name_compare a b > 0 \<longleftrightarrow> b < a"
  using Name_compare_range_lex [of 0 a 0 b a npos b npos] assms
  by (simp_all add: Name_compare_def)


section \<open>Successors\<close>

lemma be_val_append1: "be_val (b # bs) = unat b * 256 ^ length bs + be_val bs"
proof (induction bs rule: rev_induct)
  case (snoc x xs)
  have "be_val (b # xs @ [x]) = be_val (b # xs) * 256 + unat x"
    using be_val_snoc [of "b # xs" x] by simp
  with snoc show ?case by (simp add: be_val_snoc algebra_simps)
qed simp

lemma digit_less: "(a :: nat) < b \<Longrightarrow> r < m \<Longrightarrow> a * m + r < b * m + s"
proof -
  assume "a < b" "r < m"
  then have "a * m + r < (a + 1) * m" by simp
  also have "\<dots> \<le> b * m" using \<open>a < b\<close> by (intro mult_right_mono) auto
  finally show ?thesis by simp
qed

lemma less_iff_be_val: "length xs = length ys \<Longrightarrow> xs < ys \<longleftrightarrow> be_val xs < be_val ys"
proof (induction xs ys rule: list_induct2)
  case (Cons x xs y ys)
  have b: "be_val xs < 256 ^ length ys" "be_val ys < 256 ^ length ys"
    using be_val_bound [of xs] be_val_bound [of ys] Cons(1) by simp_all
  consider "x < y" | "x = y" | "y < x" by fastforce
  then show ?case
  proof cases
    case 1
    with digit_less [of "unat x" "unat y", OF _ b(1)] show ?thesis
      by (simp add: be_val_append1 Cons(1) word_less_nat_alt)
  next
    case 2
    with Cons show ?thesis by (simp add: be_val_append1)
  next
    case 3
    then have "\<not> x < y" "x \<noteq> y" by auto
    with 3 digit_less [of "unat y" "unat x", OF _ b(2)] show ?thesis
      by (simp add: be_val_append1 Cons(1) word_less_nat_alt not_less less_imp_le)
  qed
qed simp

lemma getSuccessor_loop_False: "getSuccessor_loop v i False acc = (i, False, acc)"
  by (cases i) auto

lemma byte_inc: "unat ((b :: byte) + 1) = (if unat b = 255 then 0 else unat b + 1)"
proof -
  have "unat (b + 1) = (unat b + 1) mod 256" by (simp add: unat_word_ariths)
  moreover have "unat b < 256" by simp
  ultimately show ?thesis by (cases "unat b = 255") (simp_all del: unat_byte_less)
qed

lemma getSuccessor_loop_True:
  assumes "i \<le> length v"
  shows "\<exists>j ov ws. getSuccessor_loop v i True acc = (j, ov, ws @ acc) \<and> length (take j v @ ws) = i
     \<and> be_val (take j v @ ws) = (be_val (take i v) + 1) mod 256 ^ i
     \<and> (ov \<longleftrightarrow> be_val (take i v) + 1 = 256 ^ i)"
  using assms
proof (induction i arbitrary: acc)
  case 0
  show ?case
    by (rule exI [of _ 0], rule exI [of _ True]) simp
next
  case (Suc i)
  let ?nv = "v ! i + 1"
  have tk: "be_val (take (Suc i) v) = be_val (take i v) * 256 + unat (v ! i)"
    using Suc.prems by (simp add: take_Suc_conv_app_nth be_val_snoc)
  have bnd: "be_val (take i v) + 1 \<le> 256 ^ i"
    using be_val_bound [of "take i v"] Suc.prems by (simp add: min_absorb2)
  show ?case
  proof (cases "?nv = 0")
    case True
    then have 255: "unat (v ! i) = 255"
      using byte_inc [of "v ! i"] by (simp split: if_splits)
    obtain j ov ws where IH: "getSuccessor_loop v i True (?nv # acc) = (j, ov, ws @ ?nv # acc)"
      "length (take j v @ ws) = i" "be_val (take j v @ ws) = (be_val (take i v) + 1) mod 256 ^ i"
      "ov \<longleftrightarrow> be_val (take i v) + 1 = 256 ^ i"
      using Suc.IH [of "?nv # acc"] Suc.prems by auto
    have "be_val (take (Suc i) v) + 1 = (be_val (take i v) + 1) * 256"
      by (simp add: tk 255)
    moreover have "be_val (take j v @ ws @ [0]) = (be_val (take i v) + 1) mod 256 ^ i * 256"
      using be_val_snoc [of "take j v @ ws" 0] IH(3) by simp
    ultimately show ?thesis
      using True IH by (intro exI [of _ j] exI [of _ ov] exI [of _ "ws @ [0]"])
        (auto simp: mult_mod_left mult.commute [of 256])
  next
    case False
    then have nv: "unat ?nv = unat (v ! i) + 1"
      using byte_inc [of "v ! i"] by (auto simp: word_unat_eq_iff)
    then have lt: "unat (v ! i) + 1 < 256" using unat_byte_less [of ?nv] by simp
    have "be_val (take i v) * 256 + unat (v ! i) + 1 < 256 * 256 ^ i"
      using digit_less [OF _ lt, of "be_val (take i v)" "256 ^ i" 0] bnd by (simp add: mult.commute)
    then show ?thesis
      using False Suc.prems
      by (intro exI [of _ i] exI [of _ False] exI [of _ "[?nv]"])
        (auto simp: getSuccessor_loop_False be_val_snoc tk nv)
  qed
qed

lemma getSuccessor_value:
  fixes c :: component
  defines "v \<equiv> comp_value c" and "w \<equiv> comp_value (Component_getSuccessor c)"
  shows "comp_type (Component_getSuccessor c) = comp_type c"
    and "be_val v + 1 < 256 ^ length v \<Longrightarrow> length w = length v \<and> be_val w = be_val v + 1"
    and "\<not> be_val v + 1 < 256 ^ length v \<Longrightarrow> length w = length v + 1 \<and> be_val w = 0"
proof -
  obtain j ov ws where L: "getSuccessor_loop v (length v) True [] = (j, ov, ws)"
     "length (take j v @ ws) = length v"
     "be_val (take j v @ ws) = (be_val v + 1) mod 256 ^ length v"
     "ov \<longleftrightarrow> be_val v + 1 = 256 ^ length v"
    using getSuccessor_loop_True [of "length v" v "[]"] by auto
  have w: "w = take j v @ ws @ (if ov then [0] else [])"
    by (simp add: w_def Component_getSuccessor_def Let_def L(1) flip: v_def)
  show "comp_type (Component_getSuccessor c) = comp_type c"
    by (simp add: Component_getSuccessor_def Let_def case_prod_beta)
  show "be_val v + 1 < 256 ^ length v \<Longrightarrow> length w = length v \<and> be_val w = be_val v + 1"
    using L by (auto simp: w)
  show "length w = length v + 1 \<and> be_val w = 0" if "\<not> be_val v + 1 < 256 ^ length v"
  proof -
    have eq: "be_val v + 1 = 256 ^ length v"
      using that be_val_bound [of v] by linarith
    have "ov" "be_val (take j v @ ws) = 0"
      using L(3,4) by (simp_all only: eq mod_self simp_thms)
    then show ?thesis
      using L(2) be_val_snoc [of "take j v @ ws" 0] by (simp add: w)
  qed
qed

lemma component_less_iff:
  "a < b \<longleftrightarrow> comp_type a < comp_type b \<or> comp_type a = comp_type b \<and>
       (length (comp_value a) < length (comp_value b) \<or>
        length (comp_value a) = length (comp_value b) \<and> be_val (comp_value a) < be_val (comp_value b))"
  using less_iff_be_val [of "comp_value a" "comp_value b"]
  by (auto simp: less_component_def Component_compare_less)

lemma Component_getSuccessor_greater: "c < Component_getSuccessor c"
  using getSuccessor_value [of c] by (fastforce simp: component_less_iff)

lemma Component_getSuccessor_least:
  assumes "c < d"
  shows "Component_getSuccessor c \<le> d"
proof (rule ccontr)
  let ?v = "comp_value c" and ?w = "comp_value (Component_getSuccessor c)" and ?x = "comp_value d"
  assume "\<not> ?thesis"
  then have d: "d < Component_getSuccessor c" by simp
  have ts: "comp_type (Component_getSuccessor c) = comp_type c"
    by (rule getSuccessor_value)
  from assms d ts have t: "comp_type d = comp_type c"
    by (auto simp: component_less_iff)
  have cd: "length ?v < length ?x \<or> length ?v = length ?x \<and> be_val ?v < be_val ?x"
    using assms t by (simp add: component_less_iff)
  have ds: "length ?x < length ?w \<or> length ?x = length ?w \<and> be_val ?x < be_val ?w"
    using d t ts by (simp add: component_less_iff)
  show False
  proof (cases "be_val ?v + 1 < 256 ^ length ?v")
    case True
    then have "length ?w = length ?v" "be_val ?w = be_val ?v + 1"
      using getSuccessor_value(2)[of c] by auto
    with cd ds show False by linarith
  next
    case False
    then have w: "length ?w = length ?v + 1" "be_val ?w = 0"
      using getSuccessor_value(3)[of c] by auto
    with cd ds have "length ?v = length ?x" "be_val ?v < be_val ?x" by linarith+
    with False be_val_bound [of ?x] show False by simp
  qed
qed

lemma Name_getPrefix_nonneg: "length n < npos \<Longrightarrow> k \<le> length n \<Longrightarrow> Name_getPrefix n (int k) = take k n"
  by (auto simp: Name_getPrefix_def Name_getSubName_def Let_def npos_def intro!: nth_equalityI)

lemma Name_getPrefix_butlast:
  assumes "length n < npos" and "n \<noteq> []"
  shows "Name_getPrefix n (-1) = butlast n"
proof -
  have "nat ((int (length n) + -1) mod 2 ^ 64) = length n - 1"
    using assms by (cases n) (auto simp: npos_def)
  then show ?thesis
    using assms by (auto simp: Name_getPrefix_def Name_getSubName_def Let_def npos_def nth_butlast
        intro!: nth_equalityI)
qed

lemma Name_getSuccessor_snoc:
  "length p < npos - 1 \<Longrightarrow> Name_getSuccessor (p @ [c]) = p @ [Component_getSuccessor c]"
  by (simp add: Name_getSuccessor_def Name_getPrefix_butlast)

lemma prefix_range:
  "p @ [c] \<le> z \<and> z < p @ [Component_getSuccessor c] \<longleftrightarrow> prefix (p @ [c]) z"
proof (induction p arbitrary: z)
  case Nil
  show ?case
  proof (cases z)
    case (Cons y ys)
    have "c < y \<Longrightarrow> \<not> y < Component_getSuccessor c"
      using Component_getSuccessor_least [of c y] by (simp add: not_less)
    then show ?thesis
      using Component_getSuccessor_greater [of c] by (auto simp: Cons)
  qed simp
next
  case (Cons a p)
  show ?case
  proof (cases z)
    case z: (Cons y ys)
    show ?thesis
      using Cons.IH [of ys] order_less_not_sym [of a y] by (cases "a = y") (auto simp: z)
  qed simp
qed

lemma prefix_between:
  assumes "prefix p z" "p \<le> k" "k \<le> z"
  shows "prefix p (k :: name)"
proof (cases "p = []")
  case False
  then obtain p' c where "p = p' @ [c]" by (metis rev_exhaust)
  with prefix_range [of p' c z] prefix_range [of p' c k] assms show ?thesis by auto
qed simp

lemma take_le: "take n xs \<le> (xs :: 'a :: linorder list)"
  by (induction xs arbitrary: n) (simp_all add: take_Cons split: nat.splits)

section \<open>Wire round trips\<close>

definition component_wire :: "component \<Rightarrow> bytes" where
  "component_wire c = encodeBlock (comp_type c) (comp_value c)"

definition name_payload :: "name \<Rightarrow> bytes" where
  "name_payload n = concat (map component_wire n)"

context encoding_sizes begin

lemma component_size:
  assumes "invar e"
  shows "invar (snd (Component_wireEncode impl c e))"
    and "fst (Component_wireEncode impl c e) = length (component_wire c)"
  using assms
  by (simp_all add: Component_wireEncode_def Let_def case_prod_beta sizes component_wire_def encodeBlock_def)

lemma numberWithMarker_size:
  assumes "invar e"
  shows "invar (snd (prependNumberWithMarker impl m n e))"
    and "fst (prependNumberWithMarker impl m n e)
         = length (encodeBlock tlv_NameComponent (m # encodeNonNegativeInteger n))"
  using assms
  by (simp_all add: prependNumberWithMarker_def Let_def case_prod_beta sizes encodeBlock_def
      add.commute [of 1])

lemma name_fold_size:
  "invar e \<Longrightarrow> invar (snd (fold (\<lambda>c (len, e'). let (k, e'') = Component_wireEncode impl c e'
       in (len + k, e'')) cs (k0, e)))
   \<and> fst (fold (\<lambda>c (len, e'). let (k, e'') = Component_wireEncode impl c e'
       in (len + k, e'')) cs (k0, e)) = k0 + length (name_payload cs)"
proof (induction cs arbitrary: k0 e)
  case (Cons c cs)
  show ?case
    using Cons.IH [OF component_size(1)[OF Cons.prems]] component_size(2)[OF Cons.prems]
    by (simp add: case_prod_beta Let_def name_payload_def)
qed (simp add: name_payload_def)

lemma length_name_payload_rev: "length (name_payload (rev n)) = length (name_payload n)"
  by (simp add: name_payload_def length_concat rev_map [symmetric] sum_list_rev)

lemma name_size:
  assumes "invar e"
  shows "invar (snd (Name_wireEncode impl n e))"
    and "fst (Name_wireEncode impl n e) = length (encodeBlock tlv_Name (name_payload n))"
  using assms name_fold_size [OF assms, of "rev n" 0]
  by (simp_all add: Name_wireEncode_def Let_def case_prod_beta sizes encodeBlock_def
      length_name_payload_rev)

end

context encoding_buffer begin

lemma component_content:
  "invar e \<Longrightarrow> content (snd (Component_wireEncode impl c e)) = component_wire c @ content e"
  by (simp add: Component_wireEncode_def Let_def case_prod_beta sizes conts component_wire_def
      encodeBlock_def)

lemma numberWithMarker_content:
  "invar e \<Longrightarrow> content (snd (prependNumberWithMarker impl m n e))
     = encodeBlock tlv_NameComponent (m # encodeNonNegativeInteger n) @ content e"
  by (simp add: prependNumberWithMarker_def Let_def case_prod_beta sizes conts encodeBlock_def
      add.commute [of 1])

lemma name_fold_content:
  "invar e \<Longrightarrow> content (snd (fold (\<lambda>c (len, e'). let (k, e'') = Component_wireEncode impl c e'
       in (len + k, e'')) cs (k0, e))) = name_payload (rev cs) @ content e"
proof (induction cs arbitrary: k0 e)
  case (Cons c cs)
  show ?case
    using Cons.IH [OF component_size(1)[OF Cons.prems]] component_content [OF Cons.prems]
    by (simp add: case_prod_beta Let_def name_payload_def)
qed (simp add: name_payload_def)

lemma name_content:
  assumes "invar e"
  shows "content (snd (Name_wireEncode impl n e)) = encodeBlock tlv_Name (name_payload n) @ content e"
  using assms name_fold_size [OF assms, of "rev n" 0] name_fold_content [OF assms, of "rev n" 0]
  by (simp add: Name_wireEncode_def Let_def case_prod_beta sizes conts encodeBlock_def
      length_name_payload_rev)

end

lemma Name_toWire_eq:
  assumes "length (name_payload n) < 2 ^ 64"
  shows "Name_toWire n = Inr \<lparr>blk_type = tlv_Name, blk_payload = name_payload n,
           blk_wire = encodeBlock tlv_Name (name_payload n)\<rparr>"
  using assms by (simp add: Name_toWire_def Encoder_block_def encode_with_content
      encoder.name_content Block_ctor_encodeBlock)

lemma component_wire_length: "length (comp_value c) \<le> length (component_wire c)"
  by (simp add: component_wire_def length_encodeBlock)

lemma name_payload_component:
  "c \<in> set n \<Longrightarrow> length (comp_value c) \<le> length (name_payload n)"
proof (induction n)
  case (Cons d n)
  then show ?case
    using component_wire_length [of c] by (auto simp: name_payload_def)
qed simp

lemma Name_wireDecode_payload:
  assumes "length (name_payload n) < 2 ^ 64" "blk_type b = tlv_Name" "blk_payload b = name_payload n"
  shows "Name_wireDecode b = Inr n"
proof -
  have "name_payload n
        = concat (map (\<lambda>(t, v). encodeBlock t v) (map (\<lambda>c. (comp_type c, comp_value c)) n))"
    by (simp add: name_payload_def component_wire_def [abs_def] comp_def)
  moreover have "\<forall>(t, v) \<in> set (map (\<lambda>c. (comp_type c, comp_value c)) n). length v < 2 ^ 64"
    using assms(1) name_payload_component by (fastforce intro: order.strict_trans1)
  ultimately have "Block_parse (name_payload n) = Inr (map (\<lambda>(t, v).
        \<lparr>blk_type = t, blk_payload = v, blk_wire = encodeBlock t v\<rparr>)
        (map (\<lambda>c. (comp_type c, comp_value c)) n))"
    by (simp only: Block_parse_encode)
  then show ?thesis
    using assms(2,3) by (simp add: Name_wireDecode_def comp_def)
qed

lemma Component_fromNumberWithMarker_eq:
  "Component_fromNumberWithMarker m n
     = Inr (Component tlv_NameComponent (m # encodeNonNegativeInteger n))"
proof -
  have "length (m # encodeNonNegativeInteger n) < 2 ^ 64"
    by (simp add: encodeNonNegativeInteger_def)
  from Block_ctor_encodeBlock [OF this, of tlv_NameComponent] show ?thesis
    by (simp add: Component_fromNumberWithMarker_def Encoder_block_def encode_with_content
        encoder.numberWithMarker_content Component_ofBlock_def Component_isGeneric_def)
qed

lemma length_encodeNonNegativeInteger: "length (encodeNonNegativeInteger n) \<in> {1, 2, 4, 8}"
  by (simp add: encodeNonNegativeInteger_def)

lemma toNumberWithMarker_from:
  "bind_result (Component_fromNumberWithMarker m n) (Component_toNumberWithMarker m) = Inr n"
  using length_encodeNonNegativeInteger [of n] readNonNegativeInteger_encode [of n "[]"]
  by (auto simp: Component_fromNumberWithMarker_eq Component_toNumberWithMarker_def
      Component_isNumberWithMarker_def Component_empty_def)

lemma toNumber_fromNumber:
  "bind_result (Component_fromNumber n) Component_toNumber = Inr n"
  using length_encodeNonNegativeInteger [of n] readNonNegativeInteger_encode [of n "[]"]
  by (auto simp: Component_fromNumber_def makeNonNegativeIntegerBlock_eq Component_ofBlock_def
      Component_isGeneric_def Component_toNumber_def Component_isNumber_def)

section \<open>URI round trip\<close>

lemma nibble_all:
  assumes "list_all (\<lambda>n. P (of_nat n)) [0 ..< 16]" and "d < 16"
  shows "P (d :: byte)"
proof -
  from assms(1) have "\<forall>n < 16. P (of_nat n)" by (simp add: list_all_iff)
  moreover have "unat d < 16" using assms(2) by (simp add: word_less_nat_alt)
  ultimately have "P (of_nat (unat d))" by blast
  then show ?thesis by simp
qed

lemma fromHexChar_hexDigit:
  assumes "d < 16"
  shows "fromHexChar (hexDigit True d) = uint d \<and> isUnreserved (hexDigit True d)
    \<and> isUnreserved (hexDigit False d)"
  using assms
  by (rule nibble_all [of "\<lambda>d. fromHexChar (hexDigit True d) = uint d \<and> isUnreserved (hexDigit True d)
    \<and> isUnreserved (hexDigit False d)", rotated]) code_simp

lemma nibble_bounds: "drop_bit 4 (x :: byte) < 16" "x AND 15 < 16"
proof -
  have "unat (x div 16) < 16"
    using unat_byte_less [of x] by (simp add: unat_div del: unat_byte_less)
  then show "drop_bit 4 x < 16"
    by (simp add: word_less_nat_alt drop_bit_eq_div)
  have "x AND 15 \<le> 15" by (rule word_and_le1)
  then show "x AND 15 < 16" by (simp add: word_le_nat_alt word_less_nat_alt)
qed

lemma nibbles_join: "word_of_int (push_bit 4 (uint (drop_bit 4 x)) OR uint (x AND 15)) = (x :: byte)"
proof -
  have m: "x AND 15 = take_bit 4 x" by (simp add: take_bit_eq_mask mask_eq_exp_minus_1)
  show ?thesis unfolding m
    by (rule bit_word_eqI) (auto simp: bit_simps simp del: push_bit_numeral)
qed

lemma escapeByte_unreserved: "isUnreserved x \<Longrightarrow> escapeByte x = [x]"
  by (simp add: escapeByte_def)

lemma escapeByte_reserved:
  assumes "\<not> isUnreserved x"
  obtains c1 c2 where "escapeByte x = [0x25, c1, c2]" "isUnreserved c1" "isUnreserved c2"
    "fromHexChar c1 \<ge> 0" "fromHexChar c2 \<ge> 0"
    "word_of_int (push_bit 4 (fromHexChar c1) OR fromHexChar c2) = x"
proof (cases "x < 16")
  case True
  have "fromHexChar 0x30 = 0" "isUnreserved 0x30" by (simp_all add: fromHexChar_def isUnreserved_def)
  moreover have "(word_of_int (uint x) :: byte) = x" by simp
  ultimately show ?thesis
    using True assms fromHexChar_hexDigit [OF True]
    by (intro that [of "0x30" "hexDigit True x"]) (simp_all add: escapeByte_def)
next
  case False
  show ?thesis
    using False assms fromHexChar_hexDigit [OF nibble_bounds(1)[of x]]
      fromHexChar_hexDigit [OF nibble_bounds(2)[of x]] nibbles_join [of x]
    by (intro that [of "hexDigit True (drop_bit 4 x)" "hexDigit True (x AND 15)"])
      (simp_all add: escapeByte_def)
qed

lemma unescape_other: "x \<noteq> 0x25 \<Longrightarrow> unescape (x # rest) = x # unescape rest"
proof (cases rest)
  case (Cons y ys)
  then show "x \<noteq> 0x25 \<Longrightarrow> ?thesis" by (cases ys) simp_all
qed simp

lemma unescape_escapeByte: "unescape (escapeByte x @ rest) = x # unescape rest"
proof (cases "isUnreserved x")
  case True
  then have "x \<noteq> 0x25" by (auto simp: isUnreserved_def)
  then show ?thesis using True by (simp add: escapeByte_unreserved unescape_other)
next
  case False
  then show ?thesis
    by (rule escapeByte_reserved) (simp add: Let_def)
qed

lemma unescape_escape: "unescape (concat (map escapeByte v)) = v"
  by (induction v) (simp_all add: unescape_escapeByte)

text \<open>The characters a component's URI is made of; among them neither a slash nor a space.\<close>

definition uriChar :: "byte \<Rightarrow> bool" where
  "uriChar x \<longleftrightarrow> isUnreserved x \<or> x = 0x25 \<or> x = 0x3d"

lemma uriChar_not: "uriChar x \<Longrightarrow> x \<noteq> 0x2f \<and> x \<noteq> 0x3a \<and> \<not> isSpace x"
  by (auto simp: uriChar_def isUnreserved_def isSpace_def word_le_nat_alt)

lemma escapeByte_uriChar: "\<forall>y \<in> set (escapeByte x). isUnreserved y \<or> y = 0x25"
  by (cases "isUnreserved x") (auto simp: escapeByte_unreserved elim: escapeByte_reserved)

lemma printHex_uriChar: "\<forall>y \<in> set (printHex False bs). isUnreserved y"
  by (auto simp: printHex_def fromHexChar_hexDigit nibble_bounds)

lemma length_printHex: "length (printHex u bs) = 2 * length bs"
  by (induction bs) (simp_all add: printHex_def)

lemma sha256DigestUriPrefix_val:
  "sha256DigestUriPrefix = [115, 104, 97, 50, 53, 54, 100, 105, 103, 101, 115, 116, 61]"
  by (simp add: sha256DigestUriPrefix_def bytes_of_def)

lemma length_sha256DigestUriPrefix [simp]: "length sha256DigestUriPrefix = 13"
  by (simp add: sha256DigestUriPrefix_val)

lemma Component_toUri_uriChar: "\<forall>y \<in> set (Component_toUri c). uriChar y"
proof -
  have "\<forall>y \<in> set sha256DigestUriPrefix. uriChar y"
    by (simp add: sha256DigestUriPrefix_val uriChar_def isUnreserved_def)
  moreover have "uriChar 0x2e" by (simp add: uriChar_def isUnreserved_def)
  moreover have "\<forall>y \<in> set (printHex False (comp_value c)). uriChar y"
    using printHex_uriChar by (simp add: uriChar_def)
  moreover have "\<forall>y \<in> set (concat (map escapeByte (comp_value c))). uriChar y"
    using escapeByte_uriChar by (auto simp: uriChar_def)
  ultimately show ?thesis
    by (simp add: Component_toUri_def Let_def ball_Un)
qed

lemma Component_toUri_nonempty [simp]: "Component_toUri c \<noteq> []"
proof -
  have "escapeByte x \<noteq> []" for x by (simp add: escapeByte_def)
  then show ?thesis
    by (auto simp: Component_toUri_def Let_def sha256DigestUriPrefix_val list_ex_iff)
qed

lemma trim_id: "\<forall>y \<in> set s. \<not> isSpace y \<Longrightarrow> trim s = s"
proof -
  assume a: "\<forall>y \<in> set s. \<not> isSpace y"
  have d: "dropWhile isSpace t = t" if "\<forall>y \<in> set t. \<not> isSpace y" for t
    using that by (cases t) auto
  show ?thesis using a d [of s] d [of "rev s"] by (simp add: trim_def)
qed

text \<open>The components a URI can express: a generic one, or a digest of the right size.\<close>

definition uri_component :: "component \<Rightarrow> bool" where
  "uri_component c \<longleftrightarrow> Component_isGeneric c \<or> Component_isImplicitSha256Digest c"

lemma unescape_dots: "unescape (replicate k 0x2e) = replicate k 0x2e"
  by (induction k) (simp_all add: unescape_other)

lemma escape_no_digest_prefix:
  "take 13 (concat (map escapeByte v)) \<noteq> sha256DigestUriPrefix"
proof
  assume "take 13 (concat (map escapeByte v)) = sha256DigestUriPrefix"
  then have "61 \<in> set (concat (map escapeByte v))"
    by (metis in_set_takeD list.set_intros sha256DigestUriPrefix_val)
  then show False
    using escapeByte_uriChar by (fastforce simp: isUnreserved_def)
qed

lemma fromEscapedString_generic:
  assumes "comp_type c = tlv_NameComponent"
  shows "Component_fromEscapedString h (Component_toUri c) = Inr c"
proof (cases "list_ex (\<lambda>b. b \<noteq> 0x2e) (comp_value c)")
  case True
  then have uri: "Component_toUri c = concat (map escapeByte (comp_value c))"
    using assms by (simp add: Component_toUri_def Let_def)
  have "trim (Component_toUri c) = Component_toUri c"
    using Component_toUri_uriChar uriChar_not by (blast intro: trim_id)
  moreover have "\<not> list_all (\<lambda>b. b = 0x2e) (comp_value c)"
    using True by (auto simp: list_all_iff list_ex_iff)
  ultimately show ?thesis
    using assms escape_no_digest_prefix [of "comp_value c"] component.collapse [of c]
    by (simp add: Component_fromEscapedString_def Let_def uri unescape_escape)
next
  case False
  then have v: "comp_value c = replicate (length (comp_value c)) 0x2e"
    by (auto simp: list_ex_iff intro!: nth_equalityI)
  then have uri: "Component_toUri c = replicate (3 + length (comp_value c)) 0x2e"
    using assms False by (simp add: Component_toUri_def Let_def numeral_3_eq_3)
  have "trim (Component_toUri c) = Component_toUri c"
    using Component_toUri_uriChar uriChar_not by (blast intro: trim_id)
  moreover have "take 13 (replicate n 0x2e) \<noteq> sha256DigestUriPrefix" for n
    by (cases n) (simp_all add: sha256DigestUriPrefix_val)
  moreover have "Component tlv_NameComponent (replicate (length (comp_value c)) 0x2e) = c"
    using assms v by (cases c) simp
  ultimately show ?thesis
    by (simp add: Component_fromEscapedString_def Let_def uri unescape_dots list_all_iff)
qed

lemma fromEscapedString_digest:
  assumes "Component_isImplicitSha256Digest c" and "\<forall>bs. hexDecode (printHex False bs) = bs"
  shows "Component_fromEscapedString hexDecode (Component_toUri c) = Inr c"
proof -
  have uri: "Component_toUri c = sha256DigestUriPrefix @ printHex False (comp_value c)"
    and len: "length (comp_value c) = 32"
    using assms(1) by (auto simp: Component_isImplicitSha256Digest_def Component_toUri_def SHA256_DIGEST_SIZE_def)
  have tr: "trim (sha256DigestUriPrefix @ printHex False (comp_value c))
          = sha256DigestUriPrefix @ printHex False (comp_value c)"
    using Component_toUri_uriChar [of c] uriChar_not unfolding uri by (blast intro: trim_id)
  have "Component 1 (comp_value c) = c"
    using assms(1) by (cases c) (simp add: Component_isImplicitSha256Digest_def)
  then show ?thesis
    using assms(2) len
    by (simp add: Component_fromEscapedString_def Let_def uri tr length_printHex fromHex_def
        SHA256_DIGEST_SIZE_def Component_fromImplicitSha256Digest_def)
qed

lemma fromEscapedString_toUri:
  assumes "uri_component c" "\<forall>bs. hexDecode (printHex False bs) = bs"
  shows "Component_fromEscapedString hexDecode (Component_toUri c) = Inr c"
  using assms fromEscapedString_generic fromEscapedString_digest
  by (auto simp: uri_component_def Component_isGeneric_def)

lemma construct_components_Cons:
  assumes "uri_component c" "\<forall>bs. hexDecode (printHex False bs) = bs"
    and "rest = [] \<or> hd rest = 0x2f"
  shows "construct_components hexDecode (Component_toUri c @ rest) =
    (case construct_components hexDecode (drop 1 rest) of Inl e \<Rightarrow> Inl e | Inr cs \<Rightarrow> Inr (c # cs))"
proof -
  have "takeWhile (\<lambda>b. b \<noteq> 0x2f) (Component_toUri c @ rest) = Component_toUri c"
    using Component_toUri_uriChar [of c] uriChar_not assms(3)
    by (cases rest) (auto simp: takeWhile_append)
  then show ?thesis
    using fromEscapedString_toUri [OF assms(1,2)]
    by (subst construct_components.simps) (simp add: Let_def)
qed

lemma construct_components_uri:
  assumes "\<forall>c \<in> set n. uri_component c" "\<forall>bs. hexDecode (printHex False bs) = bs"
  shows "construct_components hexDecode (drop 1 (concat (map (\<lambda>c. 0x2f # Component_toUri c) n))) = Inr n"
  using assms(1)
proof (induction n)
  case Nil
  show ?case by (subst construct_components.simps) simp
next
  case (Cons c n)
  have "concat (map (\<lambda>c. 0x2f # Component_toUri c) n) = []
    \<or> hd (concat (map (\<lambda>c. 0x2f # Component_toUri c) n)) = 0x2f"
    by (cases n) simp_all
  from construct_components_Cons [OF _ assms(2) this, of c] Cons show ?case
    by simp
qed

lemma Name_construct_uri:
  assumes "\<forall>c \<in> set n. uri_component c" "\<forall>bs. hexDecode (printHex False bs) = bs"
  shows "Name_construct hexDecode (Name_toUri n) = Inr n"
proof (cases n)
  case Nil
  show ?thesis
    by (simp add: Nil Name_construct_def Name_toUri_def trim_def isSpace_def stripScheme_def Let_def
        construct_components.simps)
next
  case (Cons c cs)
  let ?u = "Name_toUri n"
  have u: "?u = concat (map (\<lambda>c. 0x2f # Component_toUri c) n)" by (simp add: Name_toUri_def Cons)
  have sl: "\<not> isSpace 0x2f" by (simp add: isSpace_def)
  have ch: "\<forall>y \<in> set ?u. \<not> isSpace y \<and> y \<noteq> 0x3a"
    using Component_toUri_uriChar uriChar_not sl by (auto simp: u)
  have t: "trim ?u = ?u" "trim (drop 1 ?u) = drop 1 ?u"
    using ch by (auto intro!: trim_id dest: in_set_dropD)
  have s: "stripScheme ?u = ?u"
    using ch by (auto simp: stripScheme_def Let_def)
  obtain x xs where x: "Component_toUri c = x # xs" by (cases "Component_toUri c") auto
  have "x \<noteq> 0x2f"
    using Component_toUri_uriChar [of c] uriChar_not by (auto simp: x)
  then have "?u \<noteq> []" "hd ?u = 0x2f" "?u ! 1 \<noteq> 0x2f"
    by (simp_all add: Name_toUri_def Cons x)
  then show ?thesis
    using construct_components_uri [OF assms] t s by (simp add: Name_construct_def Let_def u)
qed

section \<open>Equality and prefix\<close>

text \<open>\<open>Component::equals\<close> looks at the value only. On names whose components carry the type that
  their value determines, written \<open>typed \<tau>\<close>, the C++ tests are equality and the prefix order.\<close>

definition typed :: "(bytes \<Rightarrow> u32) \<Rightarrow> name \<Rightarrow> bool" where
  "typed \<tau> n \<longleftrightarrow> (\<forall>c \<in> set n. comp_type c = \<tau> (comp_value c))"

lemma Component_equals_iff [simp]: "Component_equals a b \<longleftrightarrow> comp_value a = comp_value b"
  by (auto simp: Component_equals_def)

lemma Name_equals_iff: "Name_equals a b \<longleftrightarrow> map comp_value a = map comp_value b"
  by (auto simp: Name_equals_def list_eq_iff_nth_eq [of "map comp_value a"])

lemma Name_isPrefixOf_iff: "Name_isPrefixOf a b \<longleftrightarrow> prefix (map comp_value a) (map comp_value b)"
  by (auto simp: Name_isPrefixOf_def prefix_iff_take)

lemma typed_inj:
  assumes "typed \<tau> a" "typed \<tau> b" "map comp_value a = map comp_value b"
  shows "a = b"
proof -
  have "map (\<lambda>v. Component (\<tau> v) v) (map comp_value n) = n" if "typed \<tau> n" for n
    using that by (auto simp: typed_def comp_def intro!: map_idI) (metis component.collapse)
  then show ?thesis using assms by metis
qed

lemma typed_append [simp]: "typed \<tau> (a @ b) \<longleftrightarrow> typed \<tau> a \<and> typed \<tau> b"
  by (auto simp: typed_def)

lemma typed_prefix: "typed \<tau> b \<Longrightarrow> prefix a b \<Longrightarrow> typed \<tau> a"
  by (auto simp: prefix_def)

lemma typed_take [simp]: "typed \<tau> b \<Longrightarrow> typed \<tau> (take k b)"
  by (meson take_is_prefix typed_prefix)

lemma Name_equals_typed: "typed \<tau> a \<Longrightarrow> typed \<tau> b \<Longrightarrow> Name_equals a b \<longleftrightarrow> a = b"
  using typed_inj by (auto simp: Name_equals_iff)

lemma Name_isPrefixOf_typed:
  assumes "typed \<tau> a" "typed \<tau> b"
  shows "Name_isPrefixOf a b \<longleftrightarrow> prefix a b"
proof
  assume "Name_isPrefixOf a b"
  then have le: "length a \<le> length b" and "map comp_value a = map comp_value (take (length a) b)"
    by (auto simp: Name_isPrefixOf_def intro!: nth_equalityI)
  then have "a = take (length a) b"
    using assms typed_inj [of \<tau> a "take (length a) b"] by simp
  then show "prefix a b" by (metis take_is_prefix)
qed (auto simp: Name_isPrefixOf_iff intro: map_mono_prefix)

text \<open>\<open>operator==\<close> of components ignores the TLV type that the order looks at: a generic component and a
  digest component with the same octets are equal although \<open>compare\<close> tells them apart.\<close>

lemma component_equals_untyped:
  "Component_equals (Component 1 v) (Component 8 v) \<and> Component_compare (Component 1 v) (Component 8 v) < 0"
  by (simp add: Component_compare_less)

end
