(* ===== verification/Exclude.thy ===== *)
theory Exclude
  imports Names
begin

text \<open>
  The Exclude selector, from \<open>ndn-cxx/src/exclude.cpp\<close> and \<open>exclude.hpp\<close>. The
  \<open>std::map<name::Component, bool, std::greater>\<close> is the list of its entries in iteration order,
  the greatest component first; an iterator is the suffix of the list that starts at its entry,
  or the key of that entry where entries are inserted around it.
\<close>

type_synonym exclude = "(component \<times> bool) list"

section \<open>The ordered map\<close>

text \<open>\<open>lower_bound\<close> under \<open>std::greater\<close>: the first entry whose key is not greater.\<close>

definition map_lower_bound :: "exclude \<Rightarrow> component \<Rightarrow> exclude" where
  "map_lower_bound m c = dropWhile (\<lambda>(k, _). Component_compare k c > 0) m"

text \<open>\<open>insert\<close> leaves an existing entry alone and says whether it inserted.\<close>

fun map_insert :: "component \<Rightarrow> bool \<Rightarrow> exclude \<Rightarrow> exclude \<times> bool" where
  "map_insert c b [] = ([(c, b)], True)"
| "map_insert c b ((k, a) # m) =
     (if Component_compare k c > 0 then (let (m', ok) = map_insert c b m in ((k, a) # m', ok))
      else if Component_compare k c = 0 then ((k, a) # m, False)
      else ((c, b) # (k, a) # m, True))"

text \<open>Assignment through an iterator that points at key \<open>c\<close>.\<close>

definition map_set :: "component \<Rightarrow> bool \<Rightarrow> exclude \<Rightarrow> exclude" where
  "map_set c b m = map (\<lambda>(k, a). if k = c then (k, b) else (k, a)) m"

text \<open>\<open>erase(start, stop)\<close>, the iterators given by their keys.\<close>

definition map_erase :: "component \<Rightarrow> component \<Rightarrow> exclude \<Rightarrow> exclude" where
  "map_erase start stop m =
     takeWhile (\<lambda>(k, _). Component_compare k start > 0) m
     @ dropWhile (\<lambda>(k, _). Component_compare k stop > 0) m"

section \<open>Operations\<close>

definition Exclude_empty :: "exclude \<Rightarrow> bool" where
  "Exclude_empty m \<longleftrightarrow> m = []"

definition Exclude_appendExclude :: "component \<Rightarrow> bool \<Rightarrow> exclude \<Rightarrow> exclude" where
  "Exclude_appendExclude c b m = (let (m', ok) = map_insert c b m in map_set c b m')"

definition Exclude_isExcluded :: "exclude \<Rightarrow> component \<Rightarrow> bool" where
  "Exclude_isExcluded m c =
     (case map_lower_bound m c of
        [] \<Rightarrow> False
      | (k, any) # _ \<Rightarrow> if any then True else Component_equals k c)"

definition Exclude_excludeOne :: "component \<Rightarrow> exclude \<Rightarrow> exclude" where
  "Exclude_excludeOne c m = (if \<not> Exclude_isExcluded m c then fst (map_insert c False m) else m)"

text \<open>The start of a range: an entry with ANY that covers \<open>from\<close>, or a new one at \<open>from\<close>.\<close>

definition Exclude_rangeStart :: "component \<Rightarrow> exclude \<Rightarrow> exclude \<times> component" where
  "Exclude_rangeStart from m =
     (case map_lower_bound m from of
        (k, True) # _ \<Rightarrow> (m, k)
      | _ \<Rightarrow> (let (m', inserted) = map_insert from True m
              in (if \<not> inserted then map_set from True m' else m', from)))"

definition Exclude_excludeRange :: "component \<Rightarrow> component \<Rightarrow> exclude \<Rightarrow> exclude result" where
  "Exclude_excludeRange from to m =
     (if Component_compare from to \<ge> 0 then Inl (ExcludeError ''Invalid exclude range'')
      else
        let (m1, newFrom) = Exclude_rangeStart from m
        in case map_lower_bound m1 to of
             [] \<Rightarrow> Inl (ExcludeError ''unreachable: newTo is the end iterator'')
           | (newTo, any) # _ \<Rightarrow>
               if newTo = newFrom \<or> \<not> any then
                 (let m2 = fst (map_insert to False m1)
                  in case tl (map_lower_bound m2 to) of
                       [] \<Rightarrow> Inl (ExcludeError ''unreachable: newTo is the end iterator'')
                     | (newTo', _) # _ \<Rightarrow> Inr (map_erase newTo' newFrom m2))
               else Inr (map_erase newTo newFrom m1))"

definition Exclude_excludeBefore :: "component \<Rightarrow> exclude \<Rightarrow> exclude result" where
  "Exclude_excludeBefore to m = Exclude_excludeRange (Component tlv_NameComponent []) to m"

definition Exclude_excludeAfter :: "component \<Rightarrow> exclude \<Rightarrow> exclude" where
  "Exclude_excludeAfter from m =
     (let (m1, newFrom) = Exclude_rangeStart from m
      in if fst (hd m1) \<noteq> newFrom then map_erase (fst (hd m1)) newFrom m1 else m1)"

definition Exclude_toUri :: "exclude \<Rightarrow> bytes" where
  "Exclude_toUri m =
     fst (fold (\<lambda>(k, any) (os, isFirst).
            let (os1, f1) = (if \<not> Component_empty k \<or> \<not> any
                             then (os @ (if \<not> isFirst then [0x2c] else []) @ Component_toUri k, False)
                             else (os, isFirst))
            in if any then (os1 @ (if \<not> f1 then [0x2c] else []) @ [0x2a], False) else (os1, f1))
          (rev m) ([], True))"

section \<open>Wire format\<close>

definition Exclude_entryEncode ::
    "'e encoding_impl \<Rightarrow> component \<times> bool \<Rightarrow> nat \<times> 'e \<Rightarrow> nat \<times> 'e" where
  "Exclude_entryEncode impl = (\<lambda>(k, any) (len, e).
     let (n1, e1) = (if any then prependEmptyBlock impl tlv_Any e else (0, e));
         (n2, e2) = (if \<not> Component_empty k \<or> \<not> any then Component_wireEncode impl k e1 else (0, e1))
     in (len + n1 + n2, e2))"

definition Exclude_wireEncode :: "'e encoding_impl \<Rightarrow> exclude \<Rightarrow> 'e \<Rightarrow> (nat \<times> 'e) result" where
  "Exclude_wireEncode impl m e =
     (if m = [] then Inl (ExcludeError ''Exclude filter cannot be empty'')
      else
        let (totalLength, e1) = fold (Exclude_entryEncode impl) m (0, e);
            (n1, e2) = prependVarNumber impl (of_nat totalLength) e1;
            (n2, e3) = prependVarNumber impl (ucast tlv_Exclude) e2
        in Inr (totalLength + n1 + n2, e3))"

definition Exclude_toWire :: "exclude \<Rightarrow> block result" where
  "Exclude_toWire m =
     bind_result (Exclude_wireEncode EstimatorTag m ()) (\<lambda>(estimatedSize, _).
       bind_result (Exclude_wireEncode EncoderTag m (Encoder_ctor estimatedSize 0)) (\<lambda>(_, buffer).
         Encoder_block buffer))"

definition Exclude_component :: "block \<Rightarrow> component result" where
  "Exclude_component b =
     (case Component_ofBlock b of
        Inl _ \<Rightarrow> Inl (ExcludeError ''Incorrect format of Exclude filter'')
      | Inr c \<Rightarrow> Inr c)"

fun Exclude_decodeLoop :: "block list \<Rightarrow> exclude \<Rightarrow> exclude result" where
  "Exclude_decodeLoop [] m = Inr m"
| "Exclude_decodeLoop [i] m =
     bind_result (Exclude_component i) (\<lambda>c. Inr (Exclude_appendExclude c False m))"
| "Exclude_decodeLoop (i # j # rest) m =
     bind_result (Exclude_component i) (\<lambda>c.
       if blk_type j = tlv_Any then Exclude_decodeLoop rest (Exclude_appendExclude c True m)
       else Exclude_decodeLoop (j # rest) (Exclude_appendExclude c False m))"

definition Exclude_wireDecode :: "block \<Rightarrow> exclude result" where
  "Exclude_wireDecode wire =
     (if blk_type wire \<noteq> tlv_Exclude
      then Inl (TlvError ''Unexpected TLV type when decoding Exclude'')
      else bind_result (Block_parse (blk_payload wire)) (\<lambda>els.
        case els of
          [] \<Rightarrow> Inl (ExcludeError ''Exclude element cannot be empty'')
        | i # rest \<Rightarrow>
            if blk_type i = tlv_Any
            then Exclude_decodeLoop rest (Exclude_appendExclude (Component tlv_NameComponent []) True [])
            else Exclude_decodeLoop els []))"

definition Block_equals :: "block \<Rightarrow> block \<Rightarrow> bool" where
  "Block_equals a b \<longleftrightarrow> length (blk_wire a) = length (blk_wire b) \<and> blk_wire a = blk_wire b"

definition Exclude_equals :: "exclude \<Rightarrow> exclude \<Rightarrow> bool result" where
  "Exclude_equals a b =
     (if Exclude_empty a \<and> Exclude_empty b then Inr True
      else if Exclude_empty a \<or> Exclude_empty b then Inr False
      else bind_result (Exclude_toWire a) (\<lambda>wa.
             bind_result (Exclude_toWire b) (\<lambda>wb. Inr (Block_equals wa wb))))"

section \<open>The map is ordered\<close>

definition excl_inv :: "exclude \<Rightarrow> bool" where
  [inv_simps]: "excl_inv m \<longleftrightarrow> sorted_wrt (\<lambda>a b. b < a) (map fst m)"

lemmas compare_simps = Component_compare_sign Component_compare_eq

lemma excl_inv_append:
  "excl_inv (xs @ ys) \<longleftrightarrow> excl_inv xs \<and> excl_inv ys \<and> (\<forall>x \<in> set xs. \<forall>y \<in> set ys. fst y < fst x)"
  by (auto simp: excl_inv_def sorted_wrt_append)

lemma excl_inv_Cons: "excl_inv ((k, a) # m) \<longleftrightarrow> (\<forall>y \<in> set m. fst y < k) \<and> excl_inv m"
  by (auto simp: excl_inv_def)

lemma excl_inv_Nil [simp]: "excl_inv []"
  by (simp add: excl_inv_def)

lemma excl_inv_filter: "excl_inv m \<Longrightarrow> excl_inv (filter P m)"
  by (induction m) (auto simp: excl_inv_Cons)

text \<open>Every search splits the map at the component searched for.\<close>

lemma lower_bound_split:
  assumes "excl_inv m"
  obtains xs where "m = xs @ map_lower_bound m c" "\<forall>e \<in> set xs. c < fst e"
    "\<forall>e \<in> set (map_lower_bound m c). fst e \<le> c"
proof
  let ?P = "\<lambda>(k, _). Component_compare k c > 0"
  show "m = takeWhile ?P m @ map_lower_bound m c" by (simp add: map_lower_bound_def)
  show "\<forall>e \<in> set (takeWhile ?P m). c < fst e"
    by (auto simp: compare_simps dest: set_takeWhileD)
  have "excl_inv (dropWhile ?P m)"
    using assms excl_inv_append [of "takeWhile ?P m" "dropWhile ?P m"] by simp
  then show "\<forall>e \<in> set (map_lower_bound m c). fst e \<le> c"
  proof (cases "dropWhile ?P m")
    case (Cons p ps)
    then have "\<not> ?P p" using hd_dropWhile [of ?P m] by auto
    with Cons \<open>excl_inv (dropWhile ?P m)\<close> show ?thesis
      by (cases p) (fastforce simp: map_lower_bound_def excl_inv_Cons compare_simps)
  next
    case Nil
    then show ?thesis unfolding map_lower_bound_def by (simp only: list.set ball_empty)
  qed
qed

lemma lower_bound_append:
  assumes "\<forall>e \<in> set xs. c < fst e"
  shows "map_lower_bound (xs @ ys) c = map_lower_bound ys c"
  using assms by (auto simp: map_lower_bound_def dropWhile_append compare_simps)

lemma lower_bound_hit: "k \<le> c \<Longrightarrow> map_lower_bound ((k, a) # ys) c = (k, a) # ys"
  by (simp add: map_lower_bound_def compare_simps)

lemma lower_bound_Nil [simp]: "map_lower_bound [] c = []"
  by (simp add: map_lower_bound_def)

lemma map_insert_append:
  "\<forall>e \<in> set xs. c < fst e \<Longrightarrow>
   map_insert c b (xs @ ys) = (xs @ fst (map_insert c b ys), snd (map_insert c b ys))"
  by (induction xs) (auto simp: compare_simps case_prod_beta Let_def)

lemma map_insert_here:
  "\<forall>e \<in> set ys. fst e < c \<Longrightarrow> map_insert c b ys = ((c, b) # ys, True)"
  by (cases ys) (auto simp: compare_simps order_less_not_sym)

lemma map_insert_present: "map_insert c b ((c, a) # ys) = ((c, a) # ys, False)"
  by (simp add: compare_simps)

lemma map_set_here:
  "\<forall>e \<in> set xs. fst e \<noteq> c \<Longrightarrow> \<forall>e \<in> set ys. fst e \<noteq> c \<Longrightarrow>
   map_set c b (xs @ (c, a) # ys) = xs @ (c, b) # ys"
  by (auto simp: map_set_def intro!: map_idI)

lemma map_erase_append:
  assumes "\<forall>e \<in> set xs. start < fst e" "\<forall>e \<in> set ys. stop < fst e" "stop \<le> start"
    "k = stop" "ys \<noteq> [] \<Longrightarrow> fst (hd ys) \<le> start"
  shows "map_erase start stop (xs @ ys @ (k, a) # zs) = xs @ (k, a) # zs"
proof -
  have "takeWhile (\<lambda>(k, _). Component_compare k start > 0) (xs @ ys @ (k, a) # zs) = xs"
    using assms by (cases ys) (auto simp: takeWhile_append compare_simps)
  moreover have "dropWhile (\<lambda>(k, _). Component_compare k stop > 0) (xs @ ys @ (k, a) # zs)
      = (k, a) # zs"
    using assms by (auto simp: dropWhile_append compare_simps)
  ultimately show ?thesis by (simp add: map_erase_def)
qed

section \<open>What is excluded\<close>

lemma isExcluded_append:
  "Exclude_isExcluded (xs @ ys) c =
     (if \<exists>e \<in> set xs. fst e \<le> c then Exclude_isExcluded xs c else Exclude_isExcluded ys c)"
  by (auto simp: Exclude_isExcluded_def map_lower_bound_def dropWhile_append compare_simps
      split: list.splits)

lemma isExcluded_Nil [simp]: "\<not> Exclude_isExcluded [] c"
  by (simp add: Exclude_isExcluded_def)

lemma isExcluded_Cons:
  "Exclude_isExcluded ((k, a) # ys) c =
     (if k \<le> c then a \<or> Component_equals k c else Exclude_isExcluded ys c)"
  by (auto simp: Exclude_isExcluded_def map_lower_bound_def compare_simps)

lemma isExcluded_none: "\<forall>e \<in> set m. \<not> fst e \<le> c \<Longrightarrow> \<not> Exclude_isExcluded m c"
  using isExcluded_append [of m "[]" c] by auto

lemma Component_equals_typed:
  "typed \<tau> [k, c] \<Longrightarrow> Component_equals k c \<longleftrightarrow> k = c"
  using Name_equals_typed [of \<tau> "[k]" "[c]"] by (simp add: typed_def Name_equals_iff)

text \<open>The start of a range is an entry with ANY at or before \<open>from\<close>.\<close>

lemma rangeStart_shape:
  assumes "excl_inv m"
  obtains (covered) A f C where "m = A @ (f, True) # C" "Exclude_rangeStart from m = (m, f)"
      "\<forall>e \<in> set A. from < fst e" "f \<le> from" "\<forall>e \<in> set C. fst e < f"
      "map_lower_bound m from = (f, True) # C"
  | (fresh) A B C where "m = A @ B @ C" "Exclude_rangeStart from m = (A @ (from, True) # C, from)"
      "\<forall>e \<in> set A. from < fst e" "\<forall>e \<in> set C. fst e < from"
      "B = [] \<or> B = [(from, False)]" "map_lower_bound m from = B @ C"
      "B = [] \<Longrightarrow> C \<noteq> [] \<Longrightarrow> \<not> snd (hd C)"
proof -
  from lower_bound_split [OF assms] obtain A where A: "m = A @ map_lower_bound m from"
    "\<forall>e \<in> set A. from < fst e" "\<forall>e \<in> set (map_lower_bound m from). fst e \<le> from" .
  have inv: "excl_inv (map_lower_bound m from)"
    using assms A(1) excl_inv_append by metis
  show thesis
  proof (cases "map_lower_bound m from")
    case Nil
    then have "m = A" using A(1) by simp
    moreover have "Exclude_rangeStart from m = (A @ [(from, True)], from)"
      using A(2) Nil map_insert_append [of A "from" True "[]"] \<open>m = A\<close>
      by (simp add: Exclude_rangeStart_def)
    ultimately show thesis
      using A(2) Nil by (intro fresh [of A "[]" "[]"]) simp_all
  next
    case (Cons p C)
    obtain k a where p: "p = (k, a)" by (cases p)
    have k: "k \<le> from" "\<forall>e \<in> set C. fst e < k" "excl_inv C" and m: "m = A @ (k, a) # C"
      using A inv Cons by (auto simp: p excl_inv_Cons)
    consider "a" | "\<not> a" "k = from" | "\<not> a" "k < from" using k by fastforce
    then show thesis
    proof cases
      case 1
      then show thesis
        using A(2) Cons k m by (intro covered [of A k C]) (simp_all add: Exclude_rangeStart_def p)
    next
      case 2
      have "\<forall>e \<in> set A. fst e \<noteq> from" "\<forall>e \<in> set C. fst e \<noteq> from" using A(2) k 2 by auto
      then have "Exclude_rangeStart from m = (A @ (from, True) # C, from)"
        using A(2) Cons 2 m by (simp add: Exclude_rangeStart_def p map_insert_append
            map_insert_present map_set_here del: map_insert.simps)
      then show thesis
        using A(2) Cons k m 2 by (intro fresh [of A "[(from, False)]" C]) (simp_all add: p)
    next
      case 3
      have "\<forall>e \<in> set ((k, a) # C). fst e < from" using k 3 by auto
      then have "Exclude_rangeStart from m = (A @ (from, True) # (k, a) # C, from)"
        using A(2) Cons 3 m by (simp add: Exclude_rangeStart_def p map_insert_append
            map_insert_here del: map_insert.simps)
      then show thesis
        using A(2) Cons k m 3 by (intro fresh [of A "[]" "(k, a) # C"]) (auto simp: p)
    qed
  qed
qed

lemma map_insert_split:
  assumes "excl_inv m"
  obtains A B where "m = A @ B" "fst (map_insert c b m) = A @ (c, b) # B"
      "\<forall>e \<in> set A. c < fst e" "\<forall>e \<in> set B. fst e < c"
  | A B a where "m = A @ (c, a) # B" "map_insert c b m = (m, False)"
      "\<forall>e \<in> set A. c < fst e" "\<forall>e \<in> set B. fst e < c"
proof -
  from lower_bound_split [OF assms] obtain A where A: "m = A @ map_lower_bound m c"
    "\<forall>e \<in> set A. c < fst e" "\<forall>e \<in> set (map_lower_bound m c). fst e \<le> c" .
  define L where "L = map_lower_bound m c"
  have inv: "excl_inv L"
    using assms A(1) excl_inv_append by (metis L_def)
  show thesis
  proof (cases "\<exists>a B. L = (c, a) # B")
    case True
    then obtain a B where L: "L = (c, a) # B" by blast
    show thesis
      using A inv by (intro that(2)[of A a B]) (simp_all add: L map_insert_append excl_inv_Cons
          map_insert_present flip: L_def del: map_insert.simps)
  next
    case False
    have "\<forall>e \<in> set L. fst e < c"
    proof (cases L)
      case (Cons p B)
      then show ?thesis
        using False A(3) inv by (cases p) (fastforce simp: excl_inv_Cons simp flip: L_def)
    qed simp
    then show thesis
      using A by (intro that(1)[of A L])
        (simp_all add: map_insert_append map_insert_here flip: L_def del: map_insert.simps)
  qed
qed

text \<open>What a range leaves: the entries above \<open>to\<close>, then \<open>to\<close> without ANY unless a range already
  ran over it, then the start with ANY.\<close>

lemma range_finish:
  assumes "\<forall>e \<in> set A. from < fst e" "f \<le> from" "from < to" "excl_inv (A @ (f, True) # C)"
  defines "m1 \<equiv> A @ (f, True) # C" and "A1 \<equiv> filter (\<lambda>e. to < fst e) A"
    and "A2 \<equiv> filter (\<lambda>e. fst e \<le> to) A"
  assumes st: "Exclude_rangeStart from m = (m1, f)"
  shows "Exclude_excludeRange from to m =
    Inr (A1 @ (if A2 = [] \<or> \<not> snd (hd A2) then [(to, False)] else []) @ (f, True) # C)"
proof -
  have invA: "excl_inv A" using assms(4) by (simp add: excl_inv_append)
  obtain X where X: "A = X @ map_lower_bound A to" "\<forall>e \<in> set X. to < fst e"
      "\<forall>e \<in> set (map_lower_bound A to). fst e \<le> to"
    using lower_bound_split [OF invA] .
  then have "A1 = X" "A2 = map_lower_bound A to"
    unfolding A1_def A2_def by (metis (no_types, lifting) X filter_True filter_False
        filter_append append_Nil append_Nil2 linorder_not_less)+
  then have A: "A = A1 @ A2" "\<forall>e \<in> set A1. to < fst e" "\<forall>e \<in> set A2. fst e \<le> to"
    using X by auto
  have inv: "excl_inv A2" "\<forall>e \<in> set A2. from < fst e" "\<forall>e \<in> set C. fst e < f"
    using assms(1,4) A(1) by (auto simp: excl_inv_append excl_inv_Cons)
  have f: "f < to" using assms(2,3) by simp
  have nge: "\<not> Component_compare from to \<ge> 0" using assms(3) by (simp add: compare_simps)
  show ?thesis
  proof (cases A2)
    case Nil
    have m1: "m1 = A1 @ (f, True) # C" by (simp add: m1_def A Nil)
    have ins: "fst (map_insert to False m1) = A1 @ (to, False) # (f, True) # C"
      using A f inv by (simp add: m1 map_insert_append map_insert_here del: map_insert.simps)
        (subst map_insert_here; force)
    have "map_lower_bound m1 to = (f, True) # C"
      using A f by (simp add: m1 lower_bound_append lower_bound_hit)
    moreover have "map_lower_bound (A1 @ (to, False) # (f, True) # C) to = (to, False) # (f, True) # C"
      using A f by (simp add: lower_bound_append lower_bound_hit)
    moreover have "\<forall>e \<in> set A1. f < fst e" using A(2) f by (meson order.strict_trans)
    then have "map_erase f f (A1 @ (to, False) # (f, True) # C) = A1 @ (to, False) # (f, True) # C"
      using f map_erase_append [of "A1 @ [(to, False)]" f "[]" f f True C] by simp
    ultimately show ?thesis
      using nge ins st by (simp add: Exclude_excludeRange_def Nil)
  next
    case (Cons p A2')
    obtain k a where p: "p = (k, a)" by (cases p)
    have k: "k \<le> to" "from < k" "\<forall>e \<in> set A2'. fst e < k" "\<forall>e \<in> set A2'. from < fst e"
      using A(3) inv by (auto simp: Cons p excl_inv_Cons)
    have m1: "m1 = A1 @ (k, a) # A2' @ (f, True) # C" by (simp add: m1_def A Cons p)
    have lb: "map_lower_bound m1 to = (k, a) # A2' @ (f, True) # C"
      using A k by (simp add: m1 lower_bound_append lower_bound_hit)
    have kf: "k \<noteq> f" "f < k" using k assms(2) by auto
    consider "a" | "\<not> a" "k = to" | "\<not> a" "k < to" using k by fastforce
    then show ?thesis
    proof cases
      case 1
      have "map_erase k f (A1 @ ((k, a) # A2') @ (f, True) # C) = A1 @ (f, True) # C"
        using A(2) k kf assms(2) by (intro map_erase_append) auto
      then show ?thesis
        using nge st lb kf 1 by (simp add: Exclude_excludeRange_def Cons p m1)
    next
      case 2
      have ins: "fst (map_insert to False m1) = m1"
        using A by (simp add: m1 map_insert_append 2 map_insert_present del: map_insert.simps)
      obtain k' a' R where R: "A2' @ (f, True) # C = (k', a') # R" by (cases "A2' @ (f, True) # C") auto
      have "map_erase k' f ((A1 @ [(k, a)]) @ A2' @ (f, True) # C) = (A1 @ [(k, a)]) @ (f, True) # C"
        using A(2) k kf assms(2) R 2 inv(3) f
        by (intro map_erase_append) (cases A2'; fastforce)+
      then show ?thesis
        using nge st lb kf 2 ins R by (simp add: Exclude_excludeRange_def Cons p m1)
    next
      case 3
      have ins: "fst (map_insert to False m1) = A1 @ (to, False) # (k, a) # A2' @ (f, True) # C"
        using A k kf f inv(3) 3 unfolding m1
        by (simp add: map_insert_append del: map_insert.simps) (subst map_insert_here; fastforce)
      have "map_lower_bound (A1 @ (to, False) # (k, a) # A2' @ (f, True) # C) to
          = (to, False) # (k, a) # A2' @ (f, True) # C"
        using A by (simp add: lower_bound_append lower_bound_hit)
      moreover have "map_erase k f ((A1 @ [(to, False)]) @ ((k, a) # A2') @ (f, True) # C)
          = (A1 @ [(to, False)]) @ (f, True) # C"
        using A(2) k kf assms(2) 3 by (intro map_erase_append) auto
      ultimately show ?thesis
        using nge st lb kf 3 ins by (simp add: Exclude_excludeRange_def Cons p)
    qed
  qed
qed

lemma rangeStart_inv:
  assumes "excl_inv m" "Exclude_rangeStart from m = (m1, f)"
  shows "\<exists>A C. m1 = A @ (f, True) # C \<and> (\<forall>e \<in> set A. from < fst e) \<and> f \<le> from \<and> excl_inv m1"
  using assms(1)
proof (cases rule: rangeStart_shape [of m "from"])
  case (covered A f' C)
  with assms show ?thesis by auto
next
  case (fresh A B C)
  have "excl_inv (A @ (from, True) # C)"
    using assms(1) fresh by (auto simp: excl_inv_append excl_inv_Cons)
  with fresh assms show ?thesis by auto
qed

lemma excludeRange_inv:
  assumes "excl_inv m" "Exclude_excludeRange from to m = Inr m'"
  shows "excl_inv m'"
proof -
  obtain m1 f where st: "Exclude_rangeStart from m = (m1, f)" by fastforce
  from rangeStart_inv [OF assms(1) st] obtain A C where
    A: "m1 = A @ (f, True) # C" "\<forall>e \<in> set A. from < fst e" "f \<le> from" "excl_inv m1" by blast
  have lt: "from < to"
    using assms(2) by (auto simp: Exclude_excludeRange_def compare_simps split: if_splits)
  let ?A1 = "filter (\<lambda>e. to < fst e) A"
  have "excl_inv ?A1" "\<forall>e \<in> set ?A1. \<forall>y \<in> set ((f, True) # C). fst y < fst e" "excl_inv ((f, True) # C)"
    using A(4) unfolding A(1) by (auto simp: excl_inv_append excl_inv_filter)
  moreover have "\<forall>y \<in> set ((f, True) # C). fst y < to"
    using A lt by (fastforce simp: excl_inv_append excl_inv_Cons)
  ultimately show ?thesis
    using range_finish [OF A(2,3) lt A(4)[unfolded A(1)]] st assms(2)
    by (auto simp: A(1) excl_inv_append excl_inv_Cons split: if_splits)
qed

lemma excludeOne_inv:
  assumes "excl_inv m"
  shows "excl_inv (Exclude_excludeOne c m)"
proof -
  from assms have "excl_inv (fst (map_insert c False m))"
  proof (cases rule: map_insert_split [where c = c and b = False])
    case (1 A B)
    then show ?thesis using assms unfolding 1(2) by (auto simp: excl_inv_append excl_inv_Cons)
  next
    case (2 A B a)
    then show ?thesis using assms unfolding 2(2) by simp
  qed
  then show ?thesis using assms by (simp add: Exclude_excludeOne_def)
qed

text \<open>\<open>excludeOne\<close> adds exactly its component.\<close>

lemma isExcluded_excludeOne:
  assumes "excl_inv m" "typed \<tau> (c # x # map fst m)"
  shows "Exclude_isExcluded (Exclude_excludeOne c m) x \<longleftrightarrow> Exclude_isExcluded m x \<or> x = c"
proof (cases "Exclude_isExcluded m c")
  case True
  then show ?thesis by (auto simp: Exclude_excludeOne_def)
next
  case False
  then have e: "Exclude_excludeOne c m = fst (map_insert c False m)" by (simp add: Exclude_excludeOne_def)
  have eq: "Component_equals k y \<longleftrightarrow> k = y" if "k \<in> {c, x} \<union> set (map fst m)" "y \<in> {c, x}" for k y
    using Component_equals_typed [of \<tau> k y] assms(2) that by (auto simp: typed_def)
  from assms(1) show ?thesis
  proof (cases rule: map_insert_split [where c = c and b = False])
    case (1 A B)
    have e': "Exclude_excludeOne c m = A @ (c, False) # B" using 1 e by simp
    have "\<forall>e \<in> set A. \<not> fst e \<le> c" using 1 by auto
    then have nB: "\<not> Exclude_isExcluded B c" using False 1 by (auto simp: isExcluded_append)
    show ?thesis
    proof (cases "\<exists>e \<in> set A. fst e \<le> x")
      case True
      then have "x \<noteq> c" using 1 by auto
      then show ?thesis using 1 True unfolding e' by (simp add: isExcluded_append)
    next
      case F: False
      show ?thesis
      proof (cases B)
        case Nil
        then show ?thesis using 1 F eq [of c x] isExcluded_none [OF F [simplified]] unfolding e'
          by (auto simp: isExcluded_append isExcluded_Cons)
      next
        case (Cons p ps)
        obtain k a where p: "p = (k, a)" by (cases p)
        have k: "k < c" "k \<le> c" using 1 by (auto simp: Cons p)
        moreover have "\<not> a" using nB k by (simp add: Cons p isExcluded_Cons)
        ultimately show ?thesis
          using 1 F eq [of c x] eq [of k x] unfolding e'
          by (auto simp: isExcluded_append isExcluded_Cons Cons p)
      qed
    qed
  next
    case (2 A B a)
    then have "\<forall>e \<in> set A. \<not> fst e \<le> c" by auto
    then have "Exclude_isExcluded m c" using 2 by (auto simp: isExcluded_append isExcluded_Cons)
    with False show ?thesis by simp
  qed
qed

text \<open>\<open>excludeAfter\<close> adds everything from its component on.\<close>

lemma excludeAfter_shape:
  assumes "excl_inv m" "Exclude_rangeStart from m = (A @ (f, True) # C, f)"
    "\<forall>e \<in> set A. from < fst e" "f \<le> from" "excl_inv (A @ (f, True) # C)"
  shows "Exclude_excludeAfter from m = (f, True) # C"
proof (cases A)
  case Nil
  then show ?thesis using assms(2) by (simp add: Exclude_excludeAfter_def)
next
  case (Cons p A')
  have "\<forall>e \<in> set A. f < fst e" using assms(3,4) by force
  moreover from this have "f < fst p" by (simp add: Cons)
  ultimately have "map_erase (fst p) f ([] @ A @ (f, True) # C) = [] @ (f, True) # C"
    by (intro map_erase_append) (simp_all add: Cons)
  with \<open>f < fst p\<close> show ?thesis
    using assms(2) by (simp add: Exclude_excludeAfter_def Cons)
qed

lemma isExcluded_excludeAfter:
  assumes "excl_inv m" "typed \<tau> (from # x # map fst m)"
  shows "excl_inv (Exclude_excludeAfter from m)"
    and "Exclude_isExcluded (Exclude_excludeAfter from m) x \<longleftrightarrow> Exclude_isExcluded m x \<or> from \<le> x"
proof -
  have eq: "Component_equals k x \<longleftrightarrow> k = x" if "k \<in> insert from (set (map fst m))" for k
    using Component_equals_typed [of \<tau> k x] assms(2) that by (auto simp: typed_def)
  have "excl_inv (Exclude_excludeAfter from m) \<and>
    (Exclude_isExcluded (Exclude_excludeAfter from m) x \<longleftrightarrow> Exclude_isExcluded m x \<or> from \<le> x)"
    using assms(1)
  proof (cases rule: rangeStart_shape [of m "from"])
    case (covered A f C)
    have "Exclude_excludeAfter from m = (f, True) # C"
      using covered assms(1) by (intro excludeAfter_shape) auto
    moreover have "excl_inv ((f, True) # C)" using assms(1) covered by (simp add: excl_inv_append)
    ultimately show ?thesis
      using covered by (auto simp: isExcluded_append isExcluded_Cons)
  next
    case (fresh A B C)
    have inv: "excl_inv (A @ (from, True) # C)"
      using assms(1) fresh by (auto simp: excl_inv_append excl_inv_Cons)
    have "Exclude_excludeAfter from m = (from, True) # C"
      using fresh assms(1) inv by (intro excludeAfter_shape) auto
    moreover have "excl_inv ((from, True) # C)" using inv by (simp add: excl_inv_append)
    moreover have "Exclude_isExcluded (B @ C) x = Exclude_isExcluded C x" if "\<not> from \<le> x"
      using fresh(5) that by (auto simp: isExcluded_Cons)
    ultimately show ?thesis
      using fresh by (auto simp: isExcluded_append isExcluded_Cons)
  qed
  then show "excl_inv (Exclude_excludeAfter from m)"
    and "Exclude_isExcluded (Exclude_excludeAfter from m) x \<longleftrightarrow> Exclude_isExcluded m x \<or> from \<le> x"
    by auto
qed

text \<open>A range that lies inside a single range with ANY.\<close>

definition range_covered :: "component \<Rightarrow> component \<Rightarrow> exclude \<Rightarrow> bool" where
  "range_covered from to m \<longleftrightarrow>
     (case map_lower_bound m from of (_, True) # _ \<Rightarrow> map_lower_bound m to = map_lower_bound m from
      | _ \<Rightarrow> False)"

lemma lower_bound_filter:
  assumes "excl_inv A"
  shows "map_lower_bound A to = filter (\<lambda>e. fst e \<le> to) A"
    and "A = filter (\<lambda>e. to < fst e) A @ filter (\<lambda>e. fst e \<le> to) A"
proof -
  obtain X where X: "A = X @ map_lower_bound A to" "\<forall>e \<in> set X. to < fst e"
      "\<forall>e \<in> set (map_lower_bound A to). fst e \<le> to"
    using lower_bound_split [OF assms] .
  have "filter (\<lambda>e. fst e \<le> to) X = []" "filter (\<lambda>e. to < fst e) X = X"
    "filter (\<lambda>e. fst e \<le> to) (map_lower_bound A to) = map_lower_bound A to"
    "filter (\<lambda>e. to < fst e) (map_lower_bound A to) = []"
    using X(2,3) by (auto simp: filter_empty_conv not_le not_less)
  then show "map_lower_bound A to = filter (\<lambda>e. fst e \<le> to) A"
    and "A = filter (\<lambda>e. to < fst e) A @ filter (\<lambda>e. fst e \<le> to) A"
    using X(1) by (metis append_Nil append_Nil2 filter_append)+
qed

lemma isExcluded_range:
  assumes R: "A1 @ A2 = A" "\<forall>e \<in> set A1. to < fst e" "\<forall>e \<in> set A2. from < fst e \<and> fst e \<le> to"
      "from < to"
    and T: "T = (if A2 = [] \<or> \<not> snd (hd A2) then [(to, False)] else [])"
    and f: "f \<le> from" "\<forall>e \<in> set C. fst e < f"
    and rest: "rest = (f, True) # C \<and> A2 \<noteq> [] \<or>
      f = from \<and> (rest = C \<and> (C \<noteq> [] \<longrightarrow> \<not> snd (hd C)) \<or> rest = (from, False) # C)"
    and eq: "\<And>k. k \<in> insert to (insert from (fst ` set (A @ rest))) \<Longrightarrow> Component_equals k x \<longleftrightarrow> k = x"
  shows "Exclude_isExcluded (A1 @ T @ (f, True) # C) x \<longleftrightarrow>
    Exclude_isExcluded (A1 @ A2 @ rest) x \<or> from \<le> x \<and> x \<le> to"
proof (cases "\<exists>e \<in> set A1. fst e \<le> x")
  case True
  then have "\<not> x \<le> to" using R(2) by force
  then show ?thesis using True by (simp add: isExcluded_append)
next
  case F: False
  have eqA: "Component_equals k x \<longleftrightarrow> k = x" if "(k, a) \<in> set A2 \<or> (k, a) \<in> set rest" for k a
    using eq [of k] R(1) that by force
  have eqt: "Component_equals to x \<longleftrightarrow> to = x" using eq [of to] by simp
  show ?thesis
  proof (cases "x \<le> to")
    case False
    then have x: "to < x" "from < x" "f \<le> x" using R(4) f by auto
    have r: "Exclude_isExcluded rest x = False" if "A2 = []"
    proof (cases rest)
      case (Cons p ps)
      obtain k a where p: "p = (k, a)" by (cases p)
      have "\<not> a" "k \<le> from" using rest that f by (auto simp: Cons p)
      then show ?thesis using x eqA [of k a] by (auto simp: Cons p isExcluded_Cons)
    qed simp
    show ?thesis
    proof (cases A2)
      case Nil
      then show ?thesis using F x r eqt T by (auto simp: isExcluded_append isExcluded_Cons)
    next
      case (Cons p ps)
      obtain k a where p: "p = (k, a)" by (cases p)
      have "k \<le> x" "k \<noteq> x" using R(3) x by (auto simp: Cons p)
      then show ?thesis
        using F x eqt eqA [of k a] T by (auto simp: isExcluded_append isExcluded_Cons Cons p)
    qed
  next
    case True
    show ?thesis
    proof (cases "from \<le> x")
      case True
      then have "f \<le> x" using f by simp
      then show ?thesis
        using True \<open>x \<le> to\<close> F eqt T by (auto simp: isExcluded_append isExcluded_Cons)
    next
      case False
      then have "\<forall>e \<in> set A2. \<not> fst e \<le> x" "\<not> to \<le> x" using R(3,4) by fastforce+
      moreover have "Exclude_isExcluded rest x = Exclude_isExcluded ((f, True) # C) x"
        using rest False by (auto simp: isExcluded_Cons)
      ultimately show ?thesis
        using False F T by (simp add: isExcluded_append isExcluded_Cons)
    qed
  qed
qed

lemma isExcluded_excludeRange:
  assumes "excl_inv m" "from < to" "\<not> range_covered from to m" "typed \<tau> (from # to # x # map fst m)"
  obtains m' where "Exclude_excludeRange from to m = Inr m'" "excl_inv m'"
    "Exclude_isExcluded m' x \<longleftrightarrow> Exclude_isExcluded m x \<or> from \<le> x \<and> x \<le> to"
proof -
  have eq: "Component_equals k x \<longleftrightarrow> k = x" if "k \<in> insert to (insert from (set (map fst m)))" for k
    using Component_equals_typed [of \<tau> k x] assms(4) that by (auto simp: typed_def)
  have split: "\<forall>e \<in> set A. from < fst e \<Longrightarrow> excl_inv A \<Longrightarrow>
      filter (\<lambda>e. to < fst e) A @ filter (\<lambda>e. fst e \<le> to) A = A
      \<and> (\<forall>e \<in> set (filter (\<lambda>e. fst e \<le> to) A). from < fst e \<and> fst e \<le> to)" for A
    using lower_bound_filter(2)[of A to] by auto
  note inv' = excludeRange_inv [OF assms(1)]
  from assms(1) show thesis
  proof (cases rule: rangeStart_shape [of m "from"])
    case (covered A f C)
    have inv: "excl_inv (A @ (f, True) # C)" "excl_inv A" using assms(1) covered by (auto simp: excl_inv_append)
    have "map_lower_bound m to = filter (\<lambda>e. fst e \<le> to) m"
      using lower_bound_filter(1)[OF assms(1)] .
    also have "\<dots> = filter (\<lambda>e. fst e \<le> to) A @ (f, True) # C"
      using covered(1,4,5) assms(2) by (fastforce simp: filter_id_conv)
    finally have A2: "filter (\<lambda>e. fst e \<le> to) A \<noteq> []"
      using assms(3) covered(6) by (auto simp: range_covered_def)
    have st: "Exclude_rangeStart from m = (A @ (f, True) # C, f)" using covered by simp
    note spl = split [OF covered(3) inv(2)]
    note fin = range_finish [OF covered(3,4) assms(2) inv(1) st]
    have "\<forall>e \<in> set (filter (\<lambda>e. to < fst e) A). to < fst e" by simp
    note rng = isExcluded_range [OF conjunct1 [OF spl] this conjunct2 [OF spl] assms(2) refl
        covered(4,5) disjI1 [OF conjI [OF refl A2]]]
    have "A @ (f, True) # C = m" by (simp add: covered)
    then show thesis
      using rng [of x] conjunct1 [OF spl] eq by (intro that [OF fin inv' [OF fin]]) (simp flip: append_assoc)
  next
    case (fresh A B C)
    have inv: "excl_inv (A @ (from, True) # C)" "excl_inv A"
      using assms(1) fresh by (auto simp: excl_inv_append excl_inv_Cons)
    note spl = split [OF fresh(3) inv(2)]
    note fin = range_finish [OF fresh(3) order.refl assms(2) inv(1) fresh(2)]
    have "\<forall>e \<in> set (filter (\<lambda>e. to < fst e) A). to < fst e" by simp
    note rng = isExcluded_range [OF conjunct1 [OF spl] this conjunct2 [OF spl] assms(2) refl
        order.refl fresh(4), of "B @ C" x]
    have "A @ B @ C = m" by (simp add: fresh)
    then show thesis
      using rng fresh(5,7) conjunct1 [OF spl] eq
      by (intro that [OF fin inv' [OF fin]]) (auto simp flip: append_assoc)
  qed
qed

section \<open>Wire round trip\<close>

definition any_block :: block where
  "any_block = \<lparr>blk_type = tlv_Any, blk_payload = [], blk_wire = encodeBlock tlv_Any []\<rparr>"

definition component_block :: "component \<Rightarrow> block" where
  "component_block c =
     \<lparr>blk_type = comp_type c, blk_payload = comp_value c, blk_wire = component_wire c\<rparr>"

definition entry_blocks :: "component \<times> bool \<Rightarrow> block list" where
  "entry_blocks = (\<lambda>(k, any). (if \<not> Component_empty k \<or> \<not> any then [component_block k] else [])
     @ (if any then [any_block] else []))"

definition exclude_payload :: "exclude \<Rightarrow> bytes" where
  "exclude_payload m = concat (map blk_wire (concat (map entry_blocks (rev m))))"

lemma exclude_payload_Cons:
  "exclude_payload (p # m) = exclude_payload m @ concat (map blk_wire (entry_blocks p))"
  by (simp add: exclude_payload_def)

context encoding_sizes begin

lemma excludeEntry_size:
  assumes "invar e"
  shows "invar (snd (Exclude_entryEncode impl p (len, e)))"
    and "fst (Exclude_entryEncode impl p (len, e)) = len + length (concat (map blk_wire (entry_blocks p)))"
  using assms
  by (auto simp: Exclude_entryEncode_def case_prod_beta Let_def entry_blocks_def component_size
      emptyBlock_size any_block_def component_block_def)

lemma excludeFold_size:
  "invar e \<Longrightarrow> invar (snd (fold (Exclude_entryEncode impl) m (len, e)))
   \<and> fst (fold (Exclude_entryEncode impl) m (len, e)) = len + length (exclude_payload m)"
proof (induction m arbitrary: len e)
  case (Cons p m)
  obtain len' e' where e': "Exclude_entryEncode impl p (len, e) = (len', e')" by fastforce
  show ?case
    using Cons.IH [of e' len'] excludeEntry_size [OF Cons.prems, of p len]
    by (simp add: e' exclude_payload_Cons)
qed (simp add: exclude_payload_def)

lemma exclude_size:
  assumes "invar e" "m \<noteq> []"
  obtains e' where "Exclude_wireEncode impl m e
      = Inr (length (encodeBlock tlv_Exclude (exclude_payload m)), e')" "invar e'"
  using assms excludeFold_size [OF assms(1), of m 0]
  by (simp add: Exclude_wireEncode_def Let_def case_prod_beta sizes encodeBlock_def)

end

context encoding_buffer begin

lemma excludeEntry_content:
  "invar e \<Longrightarrow> content (snd (Exclude_entryEncode impl p (len, e)))
     = concat (map blk_wire (entry_blocks p)) @ content e"
  by (auto simp: Exclude_entryEncode_def case_prod_beta Let_def entry_blocks_def component_content
      emptyBlock_content emptyBlock_size any_block_def component_block_def)

lemma excludeFold_content:
  "invar e \<Longrightarrow> content (snd (fold (Exclude_entryEncode impl) m (len, e))) = exclude_payload m @ content e"
proof (induction m arbitrary: len e)
  case (Cons p m)
  obtain len' e' where e': "Exclude_entryEncode impl p (len, e) = (len', e')" by fastforce
  show ?case
    using Cons.IH [of e' len'] excludeEntry_size [OF Cons.prems, of p len]
      excludeEntry_content [OF Cons.prems, of p len]
    by (simp add: e' exclude_payload_Cons)
qed (simp add: exclude_payload_def)

lemma exclude_content:
  assumes "invar e" "m \<noteq> []"
  shows "\<exists>n e'. Exclude_wireEncode impl m e = Inr (n, e') \<and> invar e' \<and>
    content e' = encodeBlock tlv_Exclude (exclude_payload m) @ content e"
  using assms excludeFold_size [OF assms(1), of m 0] excludeFold_content [OF assms(1), of m 0]
  by (simp add: Exclude_wireEncode_def Let_def case_prod_beta sizes conts encodeBlock_def)

end

lemma Exclude_toWire_eq:
  assumes "m \<noteq> []" "length (exclude_payload m) < 2 ^ 64"
  shows "Exclude_toWire m = Inr \<lparr>blk_type = tlv_Exclude, blk_payload = exclude_payload m,
           blk_wire = encodeBlock tlv_Exclude (exclude_payload m)\<rparr>"
proof -
  obtain e1 where e1: "Exclude_wireEncode EstimatorTag m ()
      = Inr (length (encodeBlock tlv_Exclude (exclude_payload m)), e1)"
    using estimator.exclude_size [where e = "()" and m = m] assms(1) by blast
  obtain n e2 where "Exclude_wireEncode EncoderTag m
       (Encoder_ctor (length (encodeBlock tlv_Exclude (exclude_payload m))) 0) = Inr (n, e2)"
     "enc_content e2 = encodeBlock tlv_Exclude (exclude_payload m)"
    using encoder.exclude_content [OF enc_inv_ctor assms(1)] by fastforce
  then show ?thesis
    using assms(2) e1 by (simp add: Exclude_toWire_def Encoder_block_def Block_ctor_encodeBlock
        del: tlv_types)
qed

lemma exclude_payload_parse:
  assumes "length (exclude_payload m) < 2 ^ 64"
  shows "Block_parse (exclude_payload m) = Inr (concat (map entry_blocks (rev m)))"
proof -
  let ?bs = "concat (map entry_blocks (rev m))"
  let ?tv = "map (\<lambda>b. (blk_type b, blk_payload b)) ?bs"
  have wf: "\<forall>b \<in> set ?bs. blk_wire b = encodeBlock (blk_type b) (blk_payload b)"
    by (auto simp: entry_blocks_def any_block_def component_block_def component_wire_def split: if_splits)
  have "exclude_payload m = concat (map (\<lambda>(t, v). encodeBlock t v) ?tv)"
    using wf unfolding exclude_payload_def by (intro arg_cong [where f = concat]) (auto simp: comp_def)
  moreover have "\<forall>b \<in> set bs. length (blk_wire b) \<le> length (concat (map blk_wire bs))" for bs
    by (induction bs) auto
  then have "\<forall>b \<in> set ?bs. length (blk_wire b) < 2 ^ 64"
    using assms unfolding exclude_payload_def by (meson le_less_trans)
  then have "\<forall>b \<in> set ?bs. length (blk_payload b) < 2 ^ 64"
    using wf by (fastforce simp: length_encodeBlock)
  then have "\<forall>(t, v) \<in> set ?tv. length v < 2 ^ 64" by auto
  moreover have "map (\<lambda>(t, v). \<lparr>blk_type = t, blk_payload = v, blk_wire = encodeBlock t v\<rparr>) ?tv = ?bs"
    using wf by (auto simp: comp_def intro!: map_idI)
  ultimately show ?thesis
    by (simp only: Block_parse_encode)
qed

lemma appendExclude_front:
  assumes "\<forall>e \<in> set m. fst e < c"
  shows "Exclude_appendExclude c b m = (c, b) # m"
proof -
  have "\<forall>e \<in> set m. fst e \<noteq> c" using assms by auto
  then show ?thesis
    using assms map_set_here [of "[]" c m b b]
    by (simp add: Exclude_appendExclude_def map_insert_here del: map_insert.simps)
qed

lemma Exclude_component_generic:
  "Component_isGeneric c \<Longrightarrow> Exclude_component (component_block c) = Inr c"
  by (cases c) (simp add: Exclude_component_def component_block_def Component_ofBlock_def
      Component_isGeneric_def)

lemma Exclude_decodeLoop_entries:
  assumes "excl_inv (rev es @ m0)" "\<forall>e \<in> set es. Component_isGeneric (fst e) \<and> (\<not> Component_empty (fst e) \<or> \<not> snd e)"
  shows "Exclude_decodeLoop (concat (map entry_blocks es)) m0 = Inr (rev es @ m0)"
  using assms
proof (induction es arbitrary: m0)
  case (Cons p es)
  obtain k any where p: "p = (k, any)" by (cases p)
  have g: "Component_isGeneric k" "\<not> Component_empty k \<or> \<not> any" using Cons.prems by (auto simp: p)
  have app: "Exclude_appendExclude k any m0 = (k, any) # m0"
    using Cons.prems by (intro appendExclude_front) (auto simp: p excl_inv_append excl_inv_Cons)
  have IH: "Exclude_decodeLoop (concat (map entry_blocks es)) ((k, any) # m0) = Inr (rev es @ (k, any) # m0)"
    using Cons.IH [of "(k, any) # m0"] Cons.prems by (simp add: p)
  show ?case
  proof (cases any)
    case True
    then show ?thesis
      using g IH app by (simp add: p entry_blocks_def [of] Exclude_component_generic any_block_def)
  next
    case False
    show ?thesis
    proof (cases es)
      case Nil
      then show ?thesis using g IH app False by (simp add: p entry_blocks_def Exclude_component_generic)
    next
      case (Cons q es')
      obtain k' any' where q: "q = (k', any')" by (cases q)
      have g': "Component_isGeneric k'" "\<not> Component_empty k' \<or> \<not> any'"
        using Cons.prems Cons by (auto simp: q)
      then obtain bs where bs: "concat (map entry_blocks es) = component_block k' # bs"
        by (auto simp: Cons q entry_blocks_def)
      have "blk_type (component_block k') \<noteq> tlv_Any"
        using g' by (simp add: component_block_def Component_isGeneric_def)
      then show ?thesis
        using g IH app False bs by (simp add: p entry_blocks_def [of] Exclude_component_generic)
    qed
  qed
qed simp

lemma generic_empty_least: "Component_isGeneric c \<Longrightarrow> Component tlv_NameComponent [] \<le> c"
  by (cases c) (auto simp: Component_isGeneric_def component_less_iff simp flip: not_less)

lemma Exclude_wireDecode_payload:
  assumes inv: "excl_inv m" and "m \<noteq> []" and gen: "\<forall>e \<in> set m. Component_isGeneric (fst e)"
    and "length (exclude_payload m) < 2 ^ 64" "blk_type b = tlv_Exclude" "blk_payload b = exclude_payload m"
  shows "Exclude_wireDecode b = Inr m"
proof -
  obtain m' k any where m: "m = m' @ [(k, any)]"
    using \<open>m \<noteq> []\<close> by (metis rev_exhaust surj_pair)
  have lt: "\<forall>e \<in> set m'. k < fst e" using inv by (simp add: m excl_inv_append)
  have ne: "\<not> Component_empty (fst e)" if "e \<in> set m'" for e
  proof
    assume "Component_empty (fst e)"
    then have "fst e = Component tlv_NameComponent []"
      using gen that by (cases "fst e") (auto simp: m Component_empty_def Component_isGeneric_def)
    then have "fst e \<le> k" using gen generic_empty_least [of k] by (simp add: m)
    with lt that show False by auto
  qed
  have dec: "Exclude_decodeLoop (concat (map entry_blocks (rev m'))) [(k, any)] = Inr (rev (rev m') @ [(k, any)])"
    using inv gen ne by (intro Exclude_decodeLoop_entries) (auto simp: m)
  note parse = exclude_payload_parse [OF assms(4)]
  show ?thesis
  proof (cases "Component_empty k \<and> any")
    case True
    have "k = Component tlv_NameComponent []" using True gen by (cases k) (simp add: m Component_empty_def Component_isGeneric_def)
    moreover have "Exclude_appendExclude (Component tlv_NameComponent []) True [] = [(Component tlv_NameComponent [], True)]"
      by (intro appendExclude_front) simp
    ultimately show ?thesis
      using True dec parse assms(5,6)
      by (simp add: Exclude_wireDecode_def m entry_blocks_def [of] any_block_def del: tlv_types)
  next
    case False
    have "Exclude_decodeLoop (concat (map entry_blocks (rev m))) [] = Inr (rev (rev m) @ [])"
      using inv gen ne False by (intro Exclude_decodeLoop_entries) (auto simp: m)
    moreover obtain bs where bs: "concat (map entry_blocks (rev m)) = component_block k # bs"
      using False by (auto simp: m entry_blocks_def)
    moreover have "blk_type (component_block k) \<noteq> tlv_Any"
      using gen by (simp add: m component_block_def Component_isGeneric_def)
    ultimately show ?thesis
      using parse assms(5,6) by (simp add: Exclude_wireDecode_def del: tlv_types)
  qed
qed

lemma Exclude_payload_inj:
  assumes "excl_inv a" "excl_inv b" "a \<noteq> []" "b \<noteq> []"
    "\<forall>e \<in> set (a @ b). Component_isGeneric (fst e)"
    "length (exclude_payload a) < 2 ^ 64" "exclude_payload a = exclude_payload b"
  shows "a = b"
proof -
  let ?b = "\<lparr>blk_type = tlv_Exclude, blk_payload = exclude_payload a, blk_wire = []\<rparr>"
  have "Exclude_wireDecode ?b = Inr a" "Exclude_wireDecode ?b = Inr b"
    using assms by (auto intro!: Exclude_wireDecode_payload)
  then show ?thesis by simp
qed

end
