(* ===== verification/Packets.thy ===== *)
theory Packets
  imports Exclude
begin

text \<open>
  Packets: KeyLocator (\<open>ndn-cxx/src/key-locator.cpp\<close>), Selectors (\<open>selectors.cpp\<close>) and the name
  and data matching of Interest (\<open>interest.cpp\<close>), with the parts of Data (\<open>data.cpp\<close>) they read.
  The SHA-256 function of Crypto++ is the parameter \<open>sha256\<close>. As in the other theories the value
  is encoded afresh: a cached wire image is not kept.
\<close>

definition tlv_MinSuffixComponents :: u32 where "tlv_MinSuffixComponents = 13"
definition tlv_MaxSuffixComponents :: u32 where "tlv_MaxSuffixComponents = 14"
definition tlv_ChildSelector :: u32 where "tlv_ChildSelector = 17"
definition tlv_MustBeFresh :: u32 where "tlv_MustBeFresh = 18"
definition tlv_KeyLocator :: u32 where "tlv_KeyLocator = 28"
definition tlv_KeyDigest :: u32 where "tlv_KeyDigest = 29"

lemmas packet_types [simp] = tlv_MinSuffixComponents_def tlv_MaxSuffixComponents_def
  tlv_ChildSelector_def tlv_MustBeFresh_def tlv_KeyLocator_def tlv_KeyDigest_def

definition Block_find :: "block list \<Rightarrow> u32 \<Rightarrow> block option" where
  "Block_find els t = find (\<lambda>b. blk_type b = t) els"

definition readNonNegativeInteger_block :: "block \<Rightarrow> u64 result" where
  "readNonNegativeInteger_block b =
     bind_result (readNonNegativeInteger (length (blk_payload b)) (blk_payload b)) (Inr \<circ> fst)"

section \<open>KeyLocator\<close>

text \<open>An unknown locator only comes from the wire, and keeps that image.\<close>

datatype key_locator =
    KeyLocator_None
  | KeyLocator_Name name
  | KeyLocator_KeyDigest block
  | KeyLocator_Unknown block

definition KeyLocator_empty :: "key_locator \<Rightarrow> bool" where
  "KeyLocator_empty k \<longleftrightarrow> k = KeyLocator_None"

definition KeyLocator_wireEncode :: "'e encoding_impl \<Rightarrow> key_locator \<Rightarrow> 'e \<Rightarrow> (nat \<times> 'e) result" where
  "KeyLocator_wireEncode impl k e =
     bind_result
       (case k of
          KeyLocator_None \<Rightarrow> Inr (0, e)
        | KeyLocator_Name n \<Rightarrow> Inr (Name_wireEncode impl n e)
        | KeyLocator_KeyDigest b \<Rightarrow> Inr (prependByteArray impl (blk_wire b) e)
        | KeyLocator_Unknown _ \<Rightarrow> Inl (TlvError ''Unsupported KeyLocator type''))
       (\<lambda>(totalLength, e1).
          let (n1, e2) = prependVarNumber impl (of_nat totalLength) e1;
              (n2, e3) = prependVarNumber impl (ucast tlv_KeyLocator) e2
          in Inr (totalLength + n1 + n2, e3))"

definition KeyLocator_toWire :: "key_locator \<Rightarrow> block result" where
  "KeyLocator_toWire k =
     (case k of
        KeyLocator_Unknown wire \<Rightarrow> Inr wire
      | _ \<Rightarrow> bind_result (KeyLocator_wireEncode EstimatorTag k ()) (\<lambda>(estimatedSize, _).
               bind_result (KeyLocator_wireEncode EncoderTag k (Encoder_ctor estimatedSize 0)) (\<lambda>(_, buffer).
                 Encoder_block buffer)))"

definition KeyLocator_wireDecode :: "block \<Rightarrow> key_locator result" where
  "KeyLocator_wireDecode wire =
     (if blk_type wire \<noteq> tlv_KeyLocator
      then Inl (TlvError ''Unexpected TLV type during KeyLocator decoding'')
      else bind_result (Block_parse (blk_payload wire)) (\<lambda>els.
        case els of
          [] \<Rightarrow> Inr KeyLocator_None
        | b # _ \<Rightarrow>
            if blk_type b = tlv_Name then bind_result (Name_wireDecode b) (Inr \<circ> KeyLocator_Name)
            else if blk_type b = tlv_KeyDigest then Inr (KeyLocator_KeyDigest b)
            else Inr (KeyLocator_Unknown wire)))"

section \<open>Selectors\<close>

record selectors =
  minSuffixComponents :: int
  maxSuffixComponents :: int
  publisherPublicKeyLocator :: key_locator
  sel_exclude :: exclude
  childSelector :: int
  mustBeFresh :: bool

definition Selectors_ctor :: selectors where
  "Selectors_ctor = \<lparr>minSuffixComponents = -1, maxSuffixComponents = -1,
     publisherPublicKeyLocator = KeyLocator_None, sel_exclude = [], childSelector = -1,
     mustBeFresh = False\<rparr>"

definition Selectors_empty :: "selectors \<Rightarrow> bool" where
  "Selectors_empty s \<longleftrightarrow>
     minSuffixComponents s < 0 \<and> maxSuffixComponents s < 0 \<and>
     KeyLocator_empty (publisherPublicKeyLocator s) \<and> Exclude_empty (sel_exclude s) \<and>
     childSelector s < 0 \<and> \<not> mustBeFresh s"

text \<open>One optional part: add its length, or leave the encoder alone.\<close>

definition add_part ::
    "bool \<Rightarrow> ('e \<Rightarrow> (nat \<times> 'e) result) \<Rightarrow> nat \<times> 'e \<Rightarrow> (nat \<times> 'e) result" where
  "add_part present enc = (\<lambda>(len, e).
     if present then bind_result (enc e) (\<lambda>(n, e'). Inr (len + n, e')) else Inr (len, e))"

definition Selectors_wireEncode :: "'e encoding_impl \<Rightarrow> selectors \<Rightarrow> 'e \<Rightarrow> (nat \<times> 'e) result" where
  "Selectors_wireEncode impl s e =
     bind_result (add_part (mustBeFresh s) (Inr \<circ> prependEmptyBlock impl tlv_MustBeFresh) (0, e)) (\<lambda>r1.
     bind_result (add_part (childSelector s \<ge> 0)
       (Inr \<circ> prependNonNegativeIntegerBlock impl tlv_ChildSelector (of_int (childSelector s))) r1) (\<lambda>r2.
     bind_result (add_part (\<not> Exclude_empty (sel_exclude s))
       (Exclude_wireEncode impl (sel_exclude s)) r2) (\<lambda>r3.
     bind_result (add_part (\<not> KeyLocator_empty (publisherPublicKeyLocator s))
       (KeyLocator_wireEncode impl (publisherPublicKeyLocator s)) r3) (\<lambda>r4.
     bind_result (add_part (maxSuffixComponents s \<ge> 0)
       (Inr \<circ> prependNonNegativeIntegerBlock impl tlv_MaxSuffixComponents
          (of_int (maxSuffixComponents s))) r4) (\<lambda>r5.
     bind_result (add_part (minSuffixComponents s \<ge> 0)
       (Inr \<circ> prependNonNegativeIntegerBlock impl tlv_MinSuffixComponents
          (of_int (minSuffixComponents s))) r5) (\<lambda>(totalLength, e1).
       let (n1, e2) = prependVarNumber impl (of_nat totalLength) e1;
           (n2, e3) = prependVarNumber impl (ucast tlv_Selectors) e2
       in Inr (totalLength + n1 + n2, e3)))))))"

definition Selectors_toWire :: "selectors \<Rightarrow> block result" where
  "Selectors_toWire s =
     bind_result (Selectors_wireEncode EstimatorTag s ()) (\<lambda>(estimatedSize, _).
       bind_result (Selectors_wireEncode EncoderTag s (Encoder_ctor estimatedSize 0)) (\<lambda>(_, buffer).
         Encoder_block buffer))"

text \<open>Assignment of a \<open>uint64_t\<close> to an \<open>int\<close> keeps the low 32 bits.\<close>

definition int_of_u64 :: "u64 \<Rightarrow> int" where
  "int_of_u64 v = sint (ucast v :: u32)"

definition decode_part :: "block list \<Rightarrow> u32 \<Rightarrow> (block \<Rightarrow> 'a result) \<Rightarrow> 'a \<Rightarrow> 'a result" where
  "decode_part els t dec dflt = (case Block_find els t of None \<Rightarrow> Inr dflt | Some b \<Rightarrow> dec b)"

definition decode_int :: "block \<Rightarrow> int result" where
  "decode_int b = bind_result (readNonNegativeInteger_block b) (Inr \<circ> int_of_u64)"

definition Selectors_wireDecode :: "block \<Rightarrow> selectors result" where
  "Selectors_wireDecode wire =
     (if blk_type wire \<noteq> tlv_Selectors
      then Inl (TlvError ''Unexpected TLV type when decoding Selectors'')
      else
        bind_result (Block_parse (blk_payload wire)) (\<lambda>els.
        bind_result (decode_part els tlv_MinSuffixComponents decode_int (-1)) (\<lambda>mn.
        bind_result (decode_part els tlv_MaxSuffixComponents decode_int (-1)) (\<lambda>mx.
        bind_result (decode_part els tlv_KeyLocator KeyLocator_wireDecode KeyLocator_None) (\<lambda>kl.
        bind_result (decode_part els tlv_Exclude Exclude_wireDecode []) (\<lambda>ex.
        bind_result (decode_part els tlv_ChildSelector decode_int (-1)) (\<lambda>cs.
        bind_result (decode_part els tlv_MustBeFresh (\<lambda>_. Inr True) False) (\<lambda>mf.
          Inr \<lparr>minSuffixComponents = mn, maxSuffixComponents = mx, publisherPublicKeyLocator = kl,
               sel_exclude = ex, childSelector = cs, mustBeFresh = mf\<rparr>))))))))"

definition Selectors_equals :: "selectors \<Rightarrow> selectors \<Rightarrow> bool result" where
  "Selectors_equals a b =
     bind_result (Selectors_toWire a) (\<lambda>wa.
       bind_result (Selectors_toWire b) (\<lambda>wb. Inr (Block_equals wa wb)))"

section \<open>Interest and Data\<close>

text \<open>Times are in milliseconds; a lifetime below zero stands for \<open>milliseconds::min()\<close>. Of the local
  control header the Interest has its next hop and the Data whether its caching policy is \<open>NO_CACHE\<close>.\<close>

definition DEFAULT_INTEREST_LIFETIME :: int where "DEFAULT_INTEREST_LIFETIME = 4000"

record interest =
  int_name :: name
  int_selectors :: selectors
  int_nonce :: u32
  int_lifetime :: int
  int_nextHopFaceId :: "int option"

record data =
  data_name :: name
  data_freshness :: int
  data_sigInfo :: "block list"
  data_wire :: bytes
  data_noCache :: bool

definition Data_getFullName :: "(bytes \<Rightarrow> bytes) \<Rightarrow> data \<Rightarrow> name" where
  "Data_getFullName sha256 d =
     data_name d @ [Component tlv_ImplicitSha256DigestComponent (sha256 (data_wire d))]"

definition Interest_matchesName :: "interest \<Rightarrow> name \<Rightarrow> bool" where
  "Interest_matchesName i n =
     (let m_name = int_name i; s = int_selectors i
      in if length n < length m_name then False
         else if \<not> Name_isPrefixOf m_name n then False
         else if minSuffixComponents s \<ge> 0
                 \<and> \<not> (length n - length m_name \<ge> nat (minSuffixComponents s)) then False
         else if maxSuffixComponents s \<ge> 0
                 \<and> \<not> (length n - length m_name \<le> nat (maxSuffixComponents s)) then False
         else if \<not> Exclude_empty (sel_exclude s) \<and> length n > length m_name
                 \<and> Exclude_isExcluded (sel_exclude s) (n ! length m_name) then False
         else True)"

text \<open>The last test of \<open>matchesData\<close>. \<open>wireEncode\<close> of a locator that was decoded or set through
  the interface does not throw.\<close>

definition keyLocator_ok :: "key_locator \<Rightarrow> block list \<Rightarrow> bool" where
  "keyLocator_ok kl sigInfo =
     (if \<not> KeyLocator_empty kl then
        (case Block_find sigInfo tlv_KeyLocator of
           None \<Rightarrow> False
         | Some b \<Rightarrow> (case KeyLocator_toWire kl of Inl _ \<Rightarrow> False | Inr w \<Rightarrow> Block_equals w b))
      else True)"

definition Interest_matchesData :: "(bytes \<Rightarrow> bytes) \<Rightarrow> interest \<Rightarrow> data \<Rightarrow> bool" where
  "Interest_matchesData sha256 i d =
     (let m_name = int_name i; s = int_selectors i; dataName = data_name d;
          interestNameLength = length m_name; fullNameLength = length dataName + 1;
          minSuffix = (if minSuffixComponents s \<ge> 0 then nat (minSuffixComponents s) else 0)
      in if \<not> (interestNameLength + minSuffix \<le> fullNameLength) then False
         else if maxSuffixComponents s \<ge> 0
                 \<and> \<not> (interestNameLength + nat (maxSuffixComponents s) \<ge> fullNameLength) then False
         else if \<not> (if interestNameLength = fullNameLength
                    then (if Component_isImplicitSha256Digest (last m_name)
                          then Name_equals m_name (Data_getFullName sha256 d) else False)
                    else Name_isPrefixOf m_name dataName) then False
         else if \<not> Exclude_empty (sel_exclude s) \<and> fullNameLength > interestNameLength
                 \<and> (if interestNameLength = fullNameLength - 1
                    then Exclude_isExcluded (sel_exclude s) (Data_getFullName sha256 d ! interestNameLength)
                    else Exclude_isExcluded (sel_exclude s) (dataName ! interestNameLength)) then False
         else keyLocator_ok (publisherPublicKeyLocator s) (data_sigInfo d))"

section \<open>Matching\<close>

text \<open>Matching Data is matching its full name, the implicit digest included.\<close>

lemma matchesData_matchesName:
  assumes "typed \<tau> (int_name i)" "typed \<tau> (Data_getFullName sha256 d)"
    and "length (sha256 (data_wire d)) = SHA256_DIGEST_SIZE"
  shows "Interest_matchesData sha256 i d \<longleftrightarrow>
    Interest_matchesName i (Data_getFullName sha256 d) \<and>
    keyLocator_ok (publisherPublicKeyLocator (int_selectors i)) (data_sigInfo d)"
proof -
  let ?f = "Data_getFullName sha256 d"
  have len: "length ?f = length (data_name d) + 1" by (simp add: Data_getFullName_def)
  have td: "typed \<tau> (data_name d)" using assms(2) by (simp add: Data_getFullName_def)
  note pf = Name_isPrefixOf_typed [OF assms(1,2)] and pd = Name_isPrefixOf_typed [OF assms(1) td]
    and eq = Name_equals_typed [OF assms(1,2)]
  consider (longer) "length (int_name i) > length ?f" | (same) "length (int_name i) = length ?f"
    | (shorter) "length (int_name i) < length ?f" by linarith
  then show ?thesis
  proof cases
    case longer
    then show ?thesis by (simp add: Interest_matchesData_def Interest_matchesName_def Let_def len)
  next
    case same
    have dig: "Component_isImplicitSha256Digest (last (int_name i))" if "int_name i = ?f"
      using assms(3) by (simp add: that Data_getFullName_def Component_isImplicitSha256Digest_def)
    have "prefix (int_name i) ?f \<longleftrightarrow> int_name i = ?f"
      using same by (auto simp: prefix_def)
    then show ?thesis
      using same len dig
      by (auto simp: Interest_matchesData_def Interest_matchesName_def Let_def pf eq)
  next
    case shorter
    then have pre: "prefix (int_name i) ?f \<longleftrightarrow> prefix (int_name i) (data_name d)"
      by (auto simp: Data_getFullName_def)
    have ix: "?f ! length (int_name i) = data_name d ! length (int_name i)"
      if "length (int_name i) \<noteq> length (data_name d)"
      using shorter that len by (simp add: Data_getFullName_def nth_append)
    show ?thesis
      using shorter len ix
      by (auto simp: Interest_matchesData_def Interest_matchesName_def Let_def pf pd pre)
  qed
qed

section \<open>Wire round trip of Selectors\<close>

text \<open>\<open>R e bs\<close> says that the encoder state \<open>e\<close> holds the octets \<open>bs\<close>; for the estimator it is
  trivial. A fallible routine \<open>writes\<close> \<open>bs\<close> if it succeeds, prepends \<open>bs\<close> and reports its length.\<close>

definition yields :: "('e \<Rightarrow> bytes \<Rightarrow> bool) \<Rightarrow> (nat \<times> 'e) result \<Rightarrow> nat \<Rightarrow> bytes \<Rightarrow> bool" where
  "yields R r n bs \<longleftrightarrow> (\<exists>e'. r = Inr (n, e') \<and> R e' bs)"

definition writes :: "('e \<Rightarrow> bytes \<Rightarrow> bool) \<Rightarrow> ('e \<Rightarrow> (nat \<times> 'e) result) \<Rightarrow> bytes \<Rightarrow> bool" where
  "writes R f bs \<longleftrightarrow> (\<forall>e b0. R e b0 \<longrightarrow> yields R (f e) (length bs) (bs @ b0))"

lemma writesI: "(\<And>e b0. R e b0 \<Longrightarrow> yields R (f e) (length bs) (bs @ b0)) \<Longrightarrow> writes R f bs"
  by (simp add: writes_def)

lemma writes_total:
  assumes "\<And>e b0. R e b0 \<Longrightarrow> R (snd (f e)) (bs @ b0) \<and> fst (f e) = length bs"
  shows "writes R (Inr \<circ> f) bs"
  using assms by (auto simp: writes_def yields_def) (metis prod.collapse)

lemma yields_add_part:
  assumes "present \<Longrightarrow> writes R f bs" "R e b0"
    and "\<And>e'. R e' ((if present then bs else []) @ b0) \<Longrightarrow>
           yields R (g (len + length (if present then bs else []), e')) n c"
  shows "yields R (bind_result (add_part present f (len, e)) g) n c"
  using assms by (fastforce simp: add_part_def yields_def writes_def split: if_splits)

definition keyLocator_payload :: "key_locator \<Rightarrow> bytes" where
  "keyLocator_payload k =
     (case k of KeyLocator_Name n \<Rightarrow> encodeBlock tlv_Name (name_payload n)
      | KeyLocator_KeyDigest b \<Rightarrow> blk_wire b | _ \<Rightarrow> [])"

definition keyLocator_known :: "key_locator \<Rightarrow> bool" where
  "keyLocator_known k \<longleftrightarrow> (case k of KeyLocator_Unknown _ \<Rightarrow> False | _ \<Rightarrow> True)"

text \<open>The six optional elements, in wire order: present or not, type, value.\<close>

definition selectors_parts :: "selectors \<Rightarrow> (bool \<times> u32 \<times> bytes) list" where
  "selectors_parts s =
    [(minSuffixComponents s \<ge> 0, tlv_MinSuffixComponents,
        encodeNonNegativeInteger (of_int (minSuffixComponents s))),
     (maxSuffixComponents s \<ge> 0, tlv_MaxSuffixComponents,
        encodeNonNegativeInteger (of_int (maxSuffixComponents s))),
     (\<not> KeyLocator_empty (publisherPublicKeyLocator s), tlv_KeyLocator,
        keyLocator_payload (publisherPublicKeyLocator s)),
     (\<not> Exclude_empty (sel_exclude s), tlv_Exclude, exclude_payload (sel_exclude s)),
     (childSelector s \<ge> 0, tlv_ChildSelector, encodeNonNegativeInteger (of_int (childSelector s))),
     (mustBeFresh s, tlv_MustBeFresh, [])]"

definition selectors_payload :: "selectors \<Rightarrow> bytes" where
  "selectors_payload s =
     concat (map (\<lambda>(p, t, v). if p then encodeBlock t v else []) (selectors_parts s))"

locale encoding_rel =
  fixes impl :: "'e encoding_impl" and R :: "'e \<Rightarrow> bytes \<Rightarrow> bool"
  assumes rel_bytes: "R e b0 \<Longrightarrow> R (snd (prependByteArray impl xs e)) (xs @ b0)
      \<and> fst (prependByteArray impl xs e) = length xs"
    and rel_var: "R e b0 \<Longrightarrow> R (snd (prependVarNumber impl n e)) (encodeVarNumber n @ b0)
      \<and> fst (prependVarNumber impl n e) = length (encodeVarNumber n)"
    and rel_nni: "R e b0 \<Longrightarrow>
      R (snd (prependNonNegativeInteger impl n e)) (encodeNonNegativeInteger n @ b0)
      \<and> fst (prependNonNegativeInteger impl n e) = length (encodeNonNegativeInteger n)"
    and rel_name: "R e b0 \<Longrightarrow>
      R (snd (Name_wireEncode impl nm e)) (encodeBlock tlv_Name (name_payload nm) @ b0)
      \<and> fst (Name_wireEncode impl nm e) = length (encodeBlock tlv_Name (name_payload nm))"
    and rel_exclude: "m \<noteq> [] \<Longrightarrow>
      writes R (Exclude_wireEncode impl m) (encodeBlock tlv_Exclude (exclude_payload m))"
begin

text \<open>Closing a TLV: its length, then its type.\<close>

lemma rel_frame:
  assumes "R e (v @ b0)" "len = length v"
  shows "yields R (let (n1, e2) = prependVarNumber impl (of_nat len) e;
                       (n2, e3) = prependVarNumber impl (ucast t) e2
                   in Inr (len + n1 + n2, e3)) (length (encodeBlock t v)) (encodeBlock t v @ b0)"
  using rel_var [OF assms(1), of "of_nat len"]
    rel_var [OF conjunct1 [OF rel_var [OF assms(1), of "of_nat len"]], of "ucast t"] assms(2)
  by (simp add: Let_def case_prod_beta yields_def encodeBlock_def)

lemma rel_nniBlock:
  "writes R (Inr \<circ> prependNonNegativeIntegerBlock impl t n) (encodeBlock t (encodeNonNegativeInteger n))"
proof (rule writesI)
  fix e b0 assume e: "R e b0"
  from rel_frame [OF conjunct1 [OF rel_nni [OF e, of n]] conjunct2 [OF rel_nni [OF e, of n]], of t]
  show "yields R ((Inr \<circ> prependNonNegativeIntegerBlock impl t n) e)
      (length (encodeBlock t (encodeNonNegativeInteger n))) (encodeBlock t (encodeNonNegativeInteger n) @ b0)"
    by (simp add: prependNonNegativeIntegerBlock_def Let_def case_prod_beta)
qed

lemma rel_emptyBlock: "writes R (Inr \<circ> prependEmptyBlock impl t) (encodeBlock t [])"
proof (rule writesI)
  fix e b0 assume e: "R e b0"
  from rel_frame [of e "[]" b0 0 t] e
  show "yields R ((Inr \<circ> prependEmptyBlock impl t) e) (length (encodeBlock t [])) (encodeBlock t [] @ b0)"
    by (simp add: prependEmptyBlock_def Let_def case_prod_beta)
qed

lemma rel_keyLocator:
  assumes "keyLocator_known k"
  shows "writes R (KeyLocator_wireEncode impl k) (encodeBlock tlv_KeyLocator (keyLocator_payload k))"
proof (rule writesI)
  fix e b0 assume e: "R e b0"
  let ?g = "\<lambda>(totalLength, e1). let (n1, e2) = prependVarNumber impl (of_nat totalLength) e1;
              (n2, e3) = prependVarNumber impl (ucast tlv_KeyLocator) e2
          in Inr (totalLength + n1 + n2, e3)"
  have fr: "yields R (?g (len, e1)) (length (encodeBlock tlv_KeyLocator v)) (encodeBlock tlv_KeyLocator v @ b0)"
    if "R e1 (v @ b0)" "len = length v" for e1 v len
    using rel_frame [OF that, of tlv_KeyLocator] by simp
  show "yields R (KeyLocator_wireEncode impl k e)
      (length (encodeBlock tlv_KeyLocator (keyLocator_payload k)))
      (encodeBlock tlv_KeyLocator (keyLocator_payload k) @ b0)"
  proof (cases k)
    case KeyLocator_None
    then show ?thesis using fr [of e "[]" 0] e
      by (simp add: KeyLocator_wireEncode_def keyLocator_payload_def)
  next
    case (KeyLocator_Name n)
    then show ?thesis using fr [OF conjunct1 [OF rel_name [OF e, of n]] conjunct2 [OF rel_name [OF e, of n]]]
      by (simp add: KeyLocator_wireEncode_def keyLocator_payload_def)
  next
    case (KeyLocator_KeyDigest b)
    then show ?thesis
      using fr [OF conjunct1 [OF rel_bytes [OF e, of "blk_wire b"]] conjunct2 [OF rel_bytes [OF e, of "blk_wire b"]]]
      by (simp add: KeyLocator_wireEncode_def keyLocator_payload_def)
  qed (use assms in \<open>simp add: keyLocator_known_def\<close>)
qed

lemma rel_selectors:
  assumes "keyLocator_known (publisherPublicKeyLocator s)"
  shows "writes R (Selectors_wireEncode impl s) (encodeBlock tlv_Selectors (selectors_payload s))"
proof (rule writesI)
  fix e b0 assume e: "R e b0"
  show "yields R (Selectors_wireEncode impl s e)
      (length (encodeBlock tlv_Selectors (selectors_payload s)))
      (encodeBlock tlv_Selectors (selectors_payload s) @ b0)"
    unfolding Selectors_wireEncode_def
    apply (rule yields_add_part [OF rel_emptyBlock e])
    apply (erule yields_add_part [OF rel_nniBlock])
    apply (rule yields_add_part [OF rel_exclude], simp add: Exclude_empty_def, assumption)
    apply (erule yields_add_part [OF rel_keyLocator [OF assms]])
    apply (erule yields_add_part [OF rel_nniBlock])
    apply (erule yields_add_part [OF rel_nniBlock])
    unfolding prod.case
    apply (rule rel_frame)
     apply (simp add: selectors_payload_def selectors_parts_def del: tlv_types packet_types)
    apply (simp add: selectors_payload_def selectors_parts_def del: tlv_types packet_types)
    done
qed

end

interpretation enc: encoding_rel EncoderTag "\<lambda>e bs. enc_inv e \<and> enc_content e = bs"
proof unfold_locales
  fix m :: exclude assume "m \<noteq> []"
  then show "writes (\<lambda>e bs. enc_inv e \<and> enc_content e = bs) (Exclude_wireEncode EncoderTag m)
     (encodeBlock tlv_Exclude (exclude_payload m))"
    using encoder.exclude_content [of _ m] encoder.exclude_size [of _ m]
    by (fastforce simp: writes_def yields_def)
qed (simp_all add: encoder.sizes encoder.conts encoder.name_size encoder.name_content)

interpretation est: encoding_rel EstimatorTag "\<lambda>_ _. True"
proof unfold_locales
  fix m :: exclude assume "m \<noteq> []"
  then show "writes (\<lambda>_ _. True) (Exclude_wireEncode EstimatorTag m)
     (encodeBlock tlv_Exclude (exclude_payload m))"
    using estimator.exclude_size [where m = m] by (auto simp: writes_def yields_def)
qed (simp_all add: estimator.sizes estimator.name_size)
lemma toWire_of_writes:
  assumes "writes (\<lambda>_ _. True) f bs" "writes (\<lambda>e bs. enc_inv e \<and> enc_content e = bs) g bs"
    and "bs = encodeBlock t v" "length v < 2 ^ 64"
  shows "bind_result (f ()) (\<lambda>(estimatedSize, _).
           bind_result (g (Encoder_ctor estimatedSize 0)) (\<lambda>(_, buffer). Encoder_block buffer))
         = Inr \<lparr>blk_type = t, blk_payload = v, blk_wire = encodeBlock t v\<rparr>"
proof -
  obtain u where "f () = Inr (length bs, u)" using assms(1) by (auto simp: writes_def yields_def)
  moreover obtain e' where "g (Encoder_ctor (length bs) 0) = Inr (length bs, e')" "enc_content e' = bs @ []"
    using assms(2) enc_inv_ctor [of "length bs" 0] enc_content_ctor [of "length bs" 0]
    unfolding writes_def yields_def by metis
  ultimately show ?thesis
    using assms(3,4) by (simp add: Encoder_block_def Block_ctor_encodeBlock)
qed

lemma Selectors_toWire_eq:
  assumes "keyLocator_known (publisherPublicKeyLocator s)" "length (selectors_payload s) < 2 ^ 64"
  shows "Selectors_toWire s = Inr \<lparr>blk_type = tlv_Selectors, blk_payload = selectors_payload s,
           blk_wire = encodeBlock tlv_Selectors (selectors_payload s)\<rparr>"
  unfolding Selectors_toWire_def
  by (rule toWire_of_writes [OF est.rel_selectors [OF assms(1)] enc.rel_selectors [OF assms(1)] refl assms(2)])

lemma KeyLocator_toWire_eq:
  assumes "keyLocator_known k" "length (keyLocator_payload k) < 2 ^ 64"
  shows "KeyLocator_toWire k = Inr \<lparr>blk_type = tlv_KeyLocator, blk_payload = keyLocator_payload k,
           blk_wire = encodeBlock tlv_KeyLocator (keyLocator_payload k)\<rparr>"
  using toWire_of_writes [OF est.rel_keyLocator [OF assms(1)] enc.rel_keyLocator [OF assms(1)] refl assms(2)]
    assms(1)
  by (simp add: KeyLocator_toWire_def keyLocator_known_def split: key_locator.splits)

definition mk_block :: "u32 \<times> bytes \<Rightarrow> block" where
  "mk_block = (\<lambda>(t, v). \<lparr>blk_type = t, blk_payload = v, blk_wire = encodeBlock t v\<rparr>)"

text \<open>Elements of different types, some present: each is found again exactly if it was there.\<close>

lemma parse_parts:
  assumes "length (concat (map (\<lambda>(p, t, v). if p then encodeBlock t v else []) parts)) < 2 ^ 64"
  shows "Block_parse (concat (map (\<lambda>(p, t, v). if p then encodeBlock t v else []) parts))
    = Inr (map (mk_block \<circ> snd) (filter fst parts))"
  using assms
proof (induction parts)
  case (Cons x parts)
  obtain p t v where x: "x = (p, t, v)" by (cases x)
  show ?case
    using Cons by (cases p) (auto simp: x Block_parse_Cons length_encodeBlock mk_block_def)
qed simp

lemma find_part:
  assumes "distinct (map (fst \<circ> snd) parts)" "(p, t, v) \<in> set parts"
  shows "Block_find (map (mk_block \<circ> snd) (filter fst parts)) t = (if p then Some (mk_block (t, v)) else None)"
  using assms
proof (induction parts)
  case (Cons x parts)
  obtain p' t' v' where x: "x = (p', t', v')" by (cases x)
  have none: "Block_find (map (mk_block \<circ> snd) (filter fst parts)) t = None"
    if "t \<notin> set (map (fst \<circ> snd) parts)"
    using that by (auto simp: Block_find_def find_None_iff mk_block_def image_iff)
  have skip: "Block_find (mk_block (t', v') # bs) t = (if t' = t then Some (mk_block (t', v')) else Block_find bs t)" for bs
    by (simp add: Block_find_def mk_block_def)
  show ?case
  proof (cases "t = t'")
    case True
    then have "(p, t, v) = x" using Cons.prems by (force simp: x)
    then show ?thesis using Cons.prems none True skip by (auto simp: x comp_def)
  next
    case False
    then show ?thesis using Cons skip by (auto simp: x comp_def)
  qed
qed simp

lemma decode_int_encode:
  assumes "0 \<le> i" "i < 2 ^ 31"
  shows "decode_int (mk_block (t, encodeNonNegativeInteger (of_int i))) = Inr i"
proof -
  have "sint (word_of_int i :: u32) = i"
    using assms by (simp add: signed_of_int signed_take_bit_int_eq_self)
  then show ?thesis
    using readNonNegativeInteger_encode [of "of_int i" "[]"] assms
    by (simp add: decode_int_def readNonNegativeInteger_block_def mk_block_def int_of_u64_def
        unsigned_of_int take_bit_int_eq_self)
qed

definition selector_int :: "int \<Rightarrow> bool" where
  "selector_int i \<longleftrightarrow> i = -1 \<or> 0 \<le> i \<and> i < 2 ^ 31"

definition keyLocator_wf :: "key_locator \<Rightarrow> bool" where
  "keyLocator_wf k \<longleftrightarrow> (case k of
      KeyLocator_None \<Rightarrow> True
    | KeyLocator_Name n \<Rightarrow> True
    | KeyLocator_KeyDigest b \<Rightarrow> blk_type b = tlv_KeyDigest \<and> blk_wire b = encodeBlock tlv_KeyDigest (blk_payload b)
    | KeyLocator_Unknown _ \<Rightarrow> False)"

text \<open>Selectors a program can build through the setters.\<close>

definition selectors_wf :: "selectors \<Rightarrow> bool" where
  "selectors_wf s \<longleftrightarrow>
     selector_int (minSuffixComponents s) \<and> selector_int (maxSuffixComponents s) \<and>
     selector_int (childSelector s) \<and> keyLocator_wf (publisherPublicKeyLocator s) \<and>
     excl_inv (sel_exclude s) \<and> (\<forall>e \<in> set (sel_exclude s). Component_isGeneric (fst e)) \<and>
     length (selectors_payload s) < 2 ^ 64"

lemma keyLocator_wf_known: "keyLocator_wf k \<Longrightarrow> keyLocator_known k"
  by (simp add: keyLocator_wf_def keyLocator_known_def split: key_locator.splits)

lemma KeyLocator_wireDecode_payload:
  assumes "keyLocator_wf k" "length (keyLocator_payload k) < 2 ^ 64"
  shows "KeyLocator_wireDecode (mk_block (tlv_KeyLocator, keyLocator_payload k)) = Inr k"
proof (cases k)
  case (KeyLocator_Name n)
  have len: "length (name_payload n) < 2 ^ 64"
    using assms(2) by (simp add: KeyLocator_Name keyLocator_payload_def length_encodeBlock)
  then have "Block_parse (encodeBlock tlv_Name (name_payload n)) = Inr [mk_block (tlv_Name, name_payload n)]"
    using Block_parse_Cons [of "name_payload n" tlv_Name "[]"] by (simp add: mk_block_def)
  then show ?thesis
    using Name_wireDecode_payload [OF len, of "mk_block (tlv_Name, name_payload n)"]
    by (simp add: KeyLocator_Name KeyLocator_wireDecode_def keyLocator_payload_def mk_block_def)
next
  case (KeyLocator_KeyDigest b)
  have b: "blk_type b = tlv_KeyDigest" "blk_wire b = encodeBlock tlv_KeyDigest (blk_payload b)"
    using assms(1) by (auto simp: KeyLocator_KeyDigest keyLocator_wf_def)
  have len: "length (blk_payload b) < 2 ^ 64"
    using assms(2) by (simp add: KeyLocator_KeyDigest keyLocator_payload_def b(2) length_encodeBlock)
  have "Block_parse (blk_wire b) = Inr [b]"
    using Block_parse_Cons [OF len, of tlv_KeyDigest "[]"] b by simp
  then show ?thesis
    using b(1) by (simp add: KeyLocator_KeyDigest KeyLocator_wireDecode_def keyLocator_payload_def mk_block_def)
qed (use assms in \<open>simp_all add: KeyLocator_wireDecode_def keyLocator_payload_def mk_block_def keyLocator_wf_def\<close>)

definition selectors_blocks :: "selectors \<Rightarrow> block list" where
  "selectors_blocks s = map (mk_block \<circ> snd) (filter fst (selectors_parts s))"

lemma selectors_blocks_parse:
  "length (selectors_payload s) < 2 ^ 64 \<Longrightarrow> Block_parse (selectors_payload s) = Inr (selectors_blocks s)"
  unfolding selectors_payload_def selectors_blocks_def by (rule parse_parts)

lemma selectors_blocks_part:
  assumes "(p, t, v) \<in> set (selectors_parts s)"
  shows "decode_part (selectors_blocks s) t dec dflt = (if p then dec (mk_block (t, v)) else Inr dflt)"
proof -
  have "distinct (map (fst \<circ> snd) (selectors_parts s))" by (simp add: selectors_parts_def)
  from find_part [OF this assms] show ?thesis by (simp add: decode_part_def selectors_blocks_def)
qed

lemma selectors_parts_length:
  assumes "(True, t, v) \<in> set (selectors_parts s)"
  shows "length v \<le> length (selectors_payload s)"
proof -
  have "length v \<le> length (encodeBlock t v)" by (simp add: length_encodeBlock)
  also have "\<dots> \<le> length (concat (map (\<lambda>(p, t, v). if p then encodeBlock t v else []) ps))"
    if "(True, t, v) \<in> set ps" for ps
    using that by (induction ps) auto
  finally show ?thesis using assms by (simp add: selectors_payload_def)
qed

lemma decode_selector_int:
  assumes "selector_int i"
  shows "(if i \<ge> 0 then decode_int (mk_block (t, encodeNonNegativeInteger (of_int i))) else Inr (-1)) = Inr i"
  using assms decode_int_encode [of i t] by (auto simp: selector_int_def)

lemma selectors_parts_mem:
  "(minSuffixComponents s \<ge> 0, tlv_MinSuffixComponents,
      encodeNonNegativeInteger (of_int (minSuffixComponents s))) \<in> set (selectors_parts s)"
  "(maxSuffixComponents s \<ge> 0, tlv_MaxSuffixComponents,
      encodeNonNegativeInteger (of_int (maxSuffixComponents s))) \<in> set (selectors_parts s)"
  "(\<not> KeyLocator_empty (publisherPublicKeyLocator s), tlv_KeyLocator,
      keyLocator_payload (publisherPublicKeyLocator s)) \<in> set (selectors_parts s)"
  "(\<not> Exclude_empty (sel_exclude s), tlv_Exclude, exclude_payload (sel_exclude s)) \<in> set (selectors_parts s)"
  "(childSelector s \<ge> 0, tlv_ChildSelector,
      encodeNonNegativeInteger (of_int (childSelector s))) \<in> set (selectors_parts s)"
  "(mustBeFresh s, tlv_MustBeFresh, []) \<in> set (selectors_parts s)"
  unfolding selectors_parts_def list.set by blast+

lemmas selectors_decode_parts = selectors_parts_mem [THEN selectors_blocks_part]

lemma Selectors_wireDecode_payload:
  assumes wf: "selectors_wf s" and "blk_type b = tlv_Selectors" "blk_payload b = selectors_payload s"
  shows "Selectors_wireDecode b = Inr s"
proof -
  let ?els = "selectors_blocks s"
  have len: "length (selectors_payload s) < 2 ^ 64" using wf by (simp add: selectors_wf_def)
  note parts = selectors_decode_parts [of s]
  have mn: "decode_part ?els tlv_MinSuffixComponents decode_int (-1) = Inr (minSuffixComponents s)"
    using wf by (simp only: parts(1) selectors_wf_def decode_selector_int)
  have mx: "decode_part ?els tlv_MaxSuffixComponents decode_int (-1) = Inr (maxSuffixComponents s)"
    using wf by (simp only: parts(2) selectors_wf_def decode_selector_int)
  have cs: "decode_part ?els tlv_ChildSelector decode_int (-1) = Inr (childSelector s)"
    using wf by (simp only: parts(5) selectors_wf_def decode_selector_int)
  have mf: "decode_part ?els tlv_MustBeFresh (\<lambda>_. Inr True) False = Inr (mustBeFresh s)"
    unfolding parts(6) by simp
  have kl: "decode_part ?els tlv_KeyLocator KeyLocator_wireDecode KeyLocator_None
      = Inr (publisherPublicKeyLocator s)"
  proof (cases "KeyLocator_empty (publisherPublicKeyLocator s)")
    case True
    then show ?thesis unfolding parts(3) by (simp add: KeyLocator_empty_def)
  next
    case False
    then have "length (keyLocator_payload (publisherPublicKeyLocator s)) < 2 ^ 64"
      using selectors_parts_length selectors_parts_mem(3)[of s] len by fastforce
    then show ?thesis
      using KeyLocator_wireDecode_payload wf False unfolding parts(3) by (simp add: selectors_wf_def)
  qed
  have ex: "decode_part ?els tlv_Exclude Exclude_wireDecode [] = Inr (sel_exclude s)"
  proof (cases "Exclude_empty (sel_exclude s)")
    case True
    then show ?thesis unfolding parts(4) by (simp add: Exclude_empty_def)
  next
    case False
    then have "length (exclude_payload (sel_exclude s)) < 2 ^ 64"
      using selectors_parts_length selectors_parts_mem(4)[of s] len by fastforce
    then have "Exclude_wireDecode (mk_block (tlv_Exclude, exclude_payload (sel_exclude s))) = Inr (sel_exclude s)"
      using wf False
      by (intro Exclude_wireDecode_payload) (auto simp: selectors_wf_def Exclude_empty_def mk_block_def)
    then show ?thesis using False unfolding parts(4) by simp
  qed
  show ?thesis
    using assms(2,3) selectors_blocks_parse [OF len] mn mx kl ex cs mf
    by (simp add: Selectors_wireDecode_def del: tlv_types packet_types)
qed

lemma selectors_payload_inj:
  assumes "selectors_wf a" "selectors_wf b" "selectors_payload a = selectors_payload b"
  shows "a = b"
proof -
  let ?b = "\<lparr>blk_type = tlv_Selectors, blk_payload = selectors_payload a, blk_wire = []\<rparr>"
  have "Selectors_wireDecode ?b = Inr a"
    by (rule Selectors_wireDecode_payload [OF assms(1)]) simp_all
  moreover have "Selectors_wireDecode ?b = Inr b"
    by (rule Selectors_wireDecode_payload [OF assms(2)]) (simp_all add: assms(3))
  ultimately show ?thesis by simp
qed

lemma encodeBlock_inj: "encodeBlock t v = encodeBlock t w \<Longrightarrow> length v < 2 ^ 64 \<Longrightarrow> length w < 2 ^ 64 \<Longrightarrow> v = w"
  by (metis Block_ctor_encodeBlock Inr_inject block.ext_inject)

text \<open>So \<open>operator==\<close>, which compares wire images, is equality.\<close>

lemma Selectors_equals_iff:
  assumes "selectors_wf a" "selectors_wf b"
  shows "Selectors_equals a b = Inr (a = b)"
proof -
  have k: "keyLocator_known (publisherPublicKeyLocator a)" "keyLocator_known (publisherPublicKeyLocator b)"
    and l: "length (selectors_payload a) < 2 ^ 64" "length (selectors_payload b) < 2 ^ 64"
    using assms by (auto simp: selectors_wf_def keyLocator_wf_known)
  show ?thesis
    using selectors_payload_inj [OF assms] encodeBlock_inj [OF _ l]
    by (auto simp: Selectors_equals_def Selectors_toWire_eq [OF k(1) l(1)] Selectors_toWire_eq [OF k(2) l(2)]
        Block_equals_def simp del: tlv_types)
qed

end
