(* ===== verification/TableEntries.thy ===== *)
theory TableEntries
  imports Packets "HOL-Library.Multiset"
begin

text \<open>
  The entries of the forwarding tables, without the tables: in- and out-records and PIT entries
  (\<open>NFD/daemon/table/pit-face-record.cpp\<close>, \<open>pit-in-record.cpp\<close>, \<open>pit-entry.cpp\<close>), next hops and FIB
  entries (\<open>fib-nexthop.cpp\<close>, \<open>fib-entry.cpp\<close>), measurements and strategy choice entries. A face is
  its identifier and whether it is local; time points are integers in nanoseconds and the current
  time is an argument.
\<close>

record face =
  face_id :: int
  face_isLocal :: bool

type_synonym timepoint = int

definition milliseconds :: "int \<Rightarrow> int" where "milliseconds ms = ms * 1000000"

definition TimePoint_min :: timepoint where "TimePoint_min = - (2 ^ 63)"

section \<open>Records of a PIT entry\<close>

text \<open>The items of a \<open>StrategyInfoHost\<close>, by the type identifier of the item; an item is named by a number.\<close>

type_synonym strategy_items = "(int \<times> int) list"

record face_record =
  rec_face :: face
  rec_lastNonce :: u32
  rec_lastRenewed :: timepoint
  rec_expiry :: timepoint
  rec_strategyInfo :: strategy_items

record in_record = face_record +
  rec_interest :: "interest option"

definition FaceRecord_expiry :: "timepoint \<Rightarrow> interest \<Rightarrow> timepoint" where
  "FaceRecord_expiry now i =
     (let lifetime = int_lifetime i
      in now + milliseconds (if lifetime < 0 then DEFAULT_INTEREST_LIFETIME else lifetime))"

definition OutRecord_ctor :: "face \<Rightarrow> face_record" where
  "OutRecord_ctor f = \<lparr>rec_face = f, rec_lastNonce = 0, rec_lastRenewed = TimePoint_min,
     rec_expiry = TimePoint_min, rec_strategyInfo = []\<rparr>"

definition OutRecord_update :: "timepoint \<Rightarrow> interest \<Rightarrow> face_record \<Rightarrow> face_record" where
  "OutRecord_update now i r =
     r\<lparr>rec_lastNonce := int_nonce i, rec_lastRenewed := now, rec_expiry := FaceRecord_expiry now i\<rparr>"

definition InRecord_ctor :: "face \<Rightarrow> in_record" where
  "InRecord_ctor f = \<lparr>rec_face = f, rec_lastNonce = 0, rec_lastRenewed = TimePoint_min,
     rec_expiry = TimePoint_min, rec_strategyInfo = [], rec_interest = None\<rparr>"

definition InRecord_update :: "timepoint \<Rightarrow> interest \<Rightarrow> in_record \<Rightarrow> in_record" where
  "InRecord_update now i r =
     r\<lparr>rec_lastNonce := int_nonce i, rec_lastRenewed := now, rec_expiry := FaceRecord_expiry now i,
       rec_interest := Some i\<rparr>"

section \<open>PIT entries\<close>

text \<open>A timer is the time it fires at, if it is scheduled; the straggler timer also has the arguments
  bound to its callback. The strategy information a PIT entry may carry is the suppression interval of
  \<open>RetxSuppressionExponential\<close>.\<close>

record pit_entry =
  pit_interest :: interest
  pit_inRecords :: "in_record list"
  pit_outRecords :: "face_record list"
  pit_unsatisfyTimer :: "timepoint option"
  pit_stragglerTimer :: "(timepoint \<times> bool \<times> int) option"
  pit_suppressionInterval :: "int option"

definition PitEntry_ctor :: "interest \<Rightarrow> pit_entry" where
  "PitEntry_ctor i = \<lparr>pit_interest = i, pit_inRecords = [], pit_outRecords = [],
     pit_unsatisfyTimer = None, pit_stragglerTimer = None, pit_suppressionInterval = None\<rparr>"

definition PitEntry_getName :: "pit_entry \<Rightarrow> name" where
  "PitEntry_getName e = int_name (pit_interest e)"

definition LOCALHOST_NAME :: name where
  "LOCALHOST_NAME = [Component tlv_NameComponent (bytes_of ''localhost'')]"

definition LOCALHOP_NAME :: name where
  "LOCALHOP_NAME = [Component tlv_NameComponent (bytes_of ''localhop'')]"

definition PitEntry_hasLocalInRecord :: "pit_entry \<Rightarrow> bool" where
  "PitEntry_hasLocalInRecord e \<longleftrightarrow> list_ex (\<lambda>r. face_isLocal (rec_face r)) (pit_inRecords e)"

definition PitEntry_violatesScope :: "pit_entry \<Rightarrow> face \<Rightarrow> bool" where
  "PitEntry_violatesScope e f =
     (if \<not> face_isLocal f \<and> Name_isPrefixOf LOCALHOST_NAME (PitEntry_getName e) then True
      else if \<not> face_isLocal f \<and> Name_isPrefixOf LOCALHOP_NAME (PitEntry_getName e)
              \<and> \<not> PitEntry_hasLocalInRecord e then True
      else False)"

definition PitEntry_canForwardTo :: "timepoint \<Rightarrow> pit_entry \<Rightarrow> face \<Rightarrow> bool" where
  "PitEntry_canForwardTo now e f =
     (if list_ex (\<lambda>r. rec_face r = f \<and> rec_expiry r \<ge> now) (pit_outRecords e) then False
      else if \<not> list_ex (\<lambda>r. rec_face r \<noteq> f \<and> rec_expiry r \<ge> now) (pit_inRecords e) then False
      else \<not> PitEntry_violatesScope e f)"

definition DUPLICATE_NONCE_NONE :: "32 word" where "DUPLICATE_NONCE_NONE = 0"
definition DUPLICATE_NONCE_IN_SAME :: "32 word" where "DUPLICATE_NONCE_IN_SAME = 1"
definition DUPLICATE_NONCE_IN_OTHER :: "32 word" where "DUPLICATE_NONCE_IN_OTHER = 2"
definition DUPLICATE_NONCE_OUT_SAME :: "32 word" where "DUPLICATE_NONCE_OUT_SAME = 4"
definition DUPLICATE_NONCE_OUT_OTHER :: "32 word" where "DUPLICATE_NONCE_OUT_OTHER = 8"

definition PitEntry_findNonce :: "pit_entry \<Rightarrow> u32 \<Rightarrow> face \<Rightarrow> 32 word" where
  "PitEntry_findNonce e nonce f =
     (let d1 = fold (\<lambda>r dnw. if rec_lastNonce r = nonce then
                       (if rec_face r = f then dnw OR DUPLICATE_NONCE_IN_SAME
                        else dnw OR DUPLICATE_NONCE_IN_OTHER) else dnw)
                 (pit_inRecords e) DUPLICATE_NONCE_NONE
      in fold (\<lambda>r dnw. if rec_lastNonce r = nonce then
                 (if rec_face r = f then dnw OR DUPLICATE_NONCE_OUT_SAME
                  else dnw OR DUPLICATE_NONCE_OUT_OTHER) else dnw)
           (pit_outRecords e) d1)"

text \<open>Update the first element that satisfies a predicate.\<close>

fun update_first :: "('a \<Rightarrow> bool) \<Rightarrow> ('a \<Rightarrow> 'a) \<Rightarrow> 'a list \<Rightarrow> 'a list" where
  "update_first P f [] = []"
| "update_first P f (x # xs) = (if P x then f x # xs else x # update_first P f xs)"

text \<open>Erase the first element that satisfies a predicate.\<close>

fun erase_first :: "('a \<Rightarrow> bool) \<Rightarrow> 'a list \<Rightarrow> 'a list" where
  "erase_first P [] = []"
| "erase_first P (x # xs) = (if P x then xs else x # erase_first P xs)"

definition PitEntry_insertOrUpdateInRecord ::
    "timepoint \<Rightarrow> face \<Rightarrow> interest \<Rightarrow> pit_entry \<Rightarrow> pit_entry" where
  "PitEntry_insertOrUpdateInRecord now f i e =
     (let recs = (if find (\<lambda>r. rec_face r = f) (pit_inRecords e) = None
                  then InRecord_ctor f # pit_inRecords e else pit_inRecords e)
      in e\<lparr>pit_inRecords := update_first (\<lambda>r. rec_face r = f) (InRecord_update now i) recs\<rparr>)"

definition PitEntry_getInRecord :: "pit_entry \<Rightarrow> face \<Rightarrow> in_record option" where
  "PitEntry_getInRecord e f = find (\<lambda>r. rec_face r = f) (pit_inRecords e)"

definition PitEntry_deleteInRecords :: "pit_entry \<Rightarrow> pit_entry" where
  "PitEntry_deleteInRecords e = e\<lparr>pit_inRecords := []\<rparr>"

definition PitEntry_insertOrUpdateOutRecord ::
    "timepoint \<Rightarrow> face \<Rightarrow> interest \<Rightarrow> pit_entry \<Rightarrow> pit_entry" where
  "PitEntry_insertOrUpdateOutRecord now f i e =
     (let recs = (if find (\<lambda>r. rec_face r = f) (pit_outRecords e) = None
                  then OutRecord_ctor f # pit_outRecords e else pit_outRecords e)
      in e\<lparr>pit_outRecords := update_first (\<lambda>r. rec_face r = f) (OutRecord_update now i) recs\<rparr>)"

definition PitEntry_getOutRecord :: "pit_entry \<Rightarrow> face \<Rightarrow> face_record option" where
  "PitEntry_getOutRecord e f = find (\<lambda>r. rec_face r = f) (pit_outRecords e)"

definition PitEntry_deleteOutRecord :: "face \<Rightarrow> pit_entry \<Rightarrow> pit_entry" where
  "PitEntry_deleteOutRecord f e =
     e\<lparr>pit_outRecords := erase_first (\<lambda>r. rec_face r = f) (pit_outRecords e)\<rparr>"

definition PitEntry_hasUnexpiredOutRecords :: "timepoint \<Rightarrow> pit_entry \<Rightarrow> bool" where
  "PitEntry_hasUnexpiredOutRecords now e \<longleftrightarrow> list_ex (\<lambda>r. rec_expiry r \<ge> now) (pit_outRecords e)"

section \<open>FIB entries\<close>

record nexthop =
  nh_face :: face
  nh_cost :: u64

record fib_entry =
  fib_prefix :: name
  fib_nextHops :: "nexthop list"

definition FibEntry_ctor :: "name \<Rightarrow> fib_entry" where
  "FibEntry_ctor p = \<lparr>fib_prefix = p, fib_nextHops = []\<rparr>"

definition FibEntry_hasNextHop :: "fib_entry \<Rightarrow> face \<Rightarrow> bool" where
  "FibEntry_hasNextHop e f \<longleftrightarrow> find (\<lambda>h. nh_face h = f) (fib_nextHops e) \<noteq> None"

text \<open>\<open>std::sort\<close> by cost. The order of next hops with equal cost, which \<open>std::sort\<close> leaves open,
  is the order they had.\<close>

definition FibEntry_sortNextHops :: "nexthop list \<Rightarrow> nexthop list" where
  "FibEntry_sortNextHops hs = sort_key (\<lambda>h. unat (nh_cost h)) hs"

definition FibEntry_addNextHop :: "face \<Rightarrow> u64 \<Rightarrow> fib_entry \<Rightarrow> fib_entry" where
  "FibEntry_addNextHop f cost e =
     (let hs = (if find (\<lambda>h. nh_face h = f) (fib_nextHops e) = None
                then fib_nextHops e @ [\<lparr>nh_face = f, nh_cost = 0\<rparr>] else fib_nextHops e)
      in e\<lparr>fib_nextHops := FibEntry_sortNextHops
             (update_first (\<lambda>h. nh_face h = f) (\<lambda>h. h\<lparr>nh_cost := cost\<rparr>) hs)\<rparr>)"

definition FibEntry_removeNextHop :: "face \<Rightarrow> fib_entry \<Rightarrow> fib_entry" where
  "FibEntry_removeNextHop f e =
     e\<lparr>fib_nextHops := erase_first (\<lambda>h. nh_face h = f) (fib_nextHops e)\<rparr>"

section \<open>Measurements and strategy choice entries\<close>

record measurements_entry =
  me_name :: name
  me_expiry :: timepoint
  me_strategyInfo :: strategy_items

record strategy_choice_entry =
  sc_prefix :: name
  sc_strategy :: name

section \<open>Records and next hops are unique per face\<close>

lemma find_update_first:
  assumes "\<And>x. P (f x) = P x"
  shows "find P (update_first P f xs) = map_option f (find P xs)"
  using assms by (induction xs) auto

lemma find_update_first_other:
  assumes "\<And>x. P x \<Longrightarrow> \<not> Q x \<and> \<not> Q (f x)"
  shows "find Q (update_first P f xs) = find Q xs"
  using assms by (induction xs) auto

lemma map_update_first:
  "(\<And>x. g (f x) = g x) \<Longrightarrow> map g (update_first P f xs) = map g xs"
  by (induction xs) auto

lemma length_update_first [simp]: "length (update_first P f xs) = length xs"
  by (induction xs) auto

lemma erase_first_unique:
  assumes "distinct (map k xs)"
  shows "erase_first (\<lambda>x. k x = a) xs = filter (\<lambda>x. k x \<noteq> a) xs"
  using assms by (induction xs) (auto simp: image_iff intro!: filter_True [symmetric])

lemma find_key_None: "find (\<lambda>x. k x = a) xs = None \<longleftrightarrow> a \<notin> set (map k xs)"
  by (auto simp: find_None_iff)

definition pit_entry_inv :: "pit_entry \<Rightarrow> bool" where
  [inv_simps]: "pit_entry_inv e \<longleftrightarrow>
     distinct (map rec_face (pit_inRecords e)) \<and> distinct (map rec_face (pit_outRecords e))"

lemma pit_entry_inv_ctor [simp]: "pit_entry_inv (PitEntry_ctor i)"
  by (simp add: inv_simps PitEntry_ctor_def)

lemma InRecord_update_face [simp]: "rec_face (InRecord_update now i r) = rec_face r"
  by (simp add: InRecord_update_def)

lemma OutRecord_update_face [simp]: "rec_face (OutRecord_update now i r) = rec_face r"
  by (simp add: OutRecord_update_def)

lemma InRecord_ctor_face [simp]: "rec_face (InRecord_ctor f) = f"
  by (simp add: InRecord_ctor_def)

lemma OutRecord_ctor_face [simp]: "rec_face (OutRecord_ctor f) = f"
  by (simp add: OutRecord_ctor_def)

lemma insertOrUpdateInRecord_inv:
  "pit_entry_inv e \<Longrightarrow> pit_entry_inv (PitEntry_insertOrUpdateInRecord now f i e)"
  by (auto simp: inv_simps PitEntry_insertOrUpdateInRecord_def Let_def map_update_first find_key_None)

lemma insertOrUpdateOutRecord_inv:
  "pit_entry_inv e \<Longrightarrow> pit_entry_inv (PitEntry_insertOrUpdateOutRecord now f i e)"
  by (auto simp: inv_simps PitEntry_insertOrUpdateOutRecord_def Let_def map_update_first find_key_None)

lemma deleteOutRecord_inv: "pit_entry_inv e \<Longrightarrow> pit_entry_inv (PitEntry_deleteOutRecord f e)"
  by (simp add: inv_simps PitEntry_deleteOutRecord_def erase_first_unique distinct_map_filter)

lemma deleteInRecords_inv: "pit_entry_inv e \<Longrightarrow> pit_entry_inv (PitEntry_deleteInRecords e)"
  by (simp add: inv_simps PitEntry_deleteInRecords_def)

lemmas pit_entry_inv_ops = insertOrUpdateInRecord_inv insertOrUpdateOutRecord_inv
  deleteOutRecord_inv deleteInRecords_inv

text \<open>What an in-record says after the Interest was recorded. A record that was there keeps its strategy information.\<close>

definition info_of :: "('a face_record_scheme) option \<Rightarrow> strategy_items" where
  "info_of r = (case r of None \<Rightarrow> [] | Some r \<Rightarrow> rec_strategyInfo r)"

lemma getInRecord_insertOrUpdate:
  "PitEntry_getInRecord (PitEntry_insertOrUpdateInRecord now f i e) g =
     (if g = f then Some \<lparr>rec_face = f, rec_lastNonce = int_nonce i, rec_lastRenewed = now,
        rec_expiry = FaceRecord_expiry now i, rec_strategyInfo = info_of (PitEntry_getInRecord e f), rec_interest = Some i\<rparr>
      else PitEntry_getInRecord e g)"
proof (cases "g = f")
  case True
  obtain r where r: "find (\<lambda>r. rec_face r = f) (if find (\<lambda>r. rec_face r = f) (pit_inRecords e) = None
      then InRecord_ctor f # pit_inRecords e else pit_inRecords e) = Some r" "rec_face r = f" "rec_strategyInfo r = info_of (PitEntry_getInRecord e f)"
    by (cases "find (\<lambda>r. rec_face r = f) (pit_inRecords e)")
      (auto simp: info_of_def PitEntry_getInRecord_def InRecord_ctor_def dest: find_Some_set)
  have "InRecord_update now i r = \<lparr>rec_face = f, rec_lastNonce = int_nonce i, rec_lastRenewed = now,
        rec_expiry = FaceRecord_expiry now i, rec_strategyInfo = info_of (PitEntry_getInRecord e f), rec_interest = Some i\<rparr>"
    using r(2,3) by (cases r) (simp add: InRecord_update_def)
  with r(1) have "find (\<lambda>r. rec_face r = f) (update_first (\<lambda>r. rec_face r = f) (InRecord_update now i)
      (if find (\<lambda>r. rec_face r = f) (pit_inRecords e) = None
       then InRecord_ctor f # pit_inRecords e else pit_inRecords e))
    = Some \<lparr>rec_face = f, rec_lastNonce = int_nonce i, rec_lastRenewed = now,
        rec_expiry = FaceRecord_expiry now i, rec_strategyInfo = info_of (PitEntry_getInRecord e f), rec_interest = Some i\<rparr>"
    by (subst find_update_first) simp_all
  then show ?thesis
    using True by (simp add: PitEntry_getInRecord_def PitEntry_insertOrUpdateInRecord_def Let_def)
next
  case False
  then show ?thesis
    by (auto simp: PitEntry_getInRecord_def PitEntry_insertOrUpdateInRecord_def Let_def
        intro!: find_update_first_other)
qed

lemma getOutRecord_insertOrUpdate:
  "PitEntry_getOutRecord (PitEntry_insertOrUpdateOutRecord now f i e) g =
     (if g = f then Some \<lparr>rec_face = f, rec_lastNonce = int_nonce i, rec_lastRenewed = now,
        rec_expiry = FaceRecord_expiry now i, rec_strategyInfo = info_of (PitEntry_getOutRecord e f)\<rparr>
      else PitEntry_getOutRecord e g)"
proof (cases "g = f")
  case True
  obtain r where r: "find (\<lambda>r. rec_face r = f) (if find (\<lambda>r. rec_face r = f) (pit_outRecords e) = None
      then OutRecord_ctor f # pit_outRecords e else pit_outRecords e) = Some r" "rec_face r = f" "rec_strategyInfo r = info_of (PitEntry_getOutRecord e f)"
    by (cases "find (\<lambda>r. rec_face r = f) (pit_outRecords e)")
      (auto simp: info_of_def PitEntry_getOutRecord_def OutRecord_ctor_def dest: find_Some_set)
  have "OutRecord_update now i r = \<lparr>rec_face = f, rec_lastNonce = int_nonce i, rec_lastRenewed = now,
        rec_expiry = FaceRecord_expiry now i, rec_strategyInfo = info_of (PitEntry_getOutRecord e f)\<rparr>"
    using r(2,3) by (cases r) (simp add: OutRecord_update_def)
  with r(1) have "find (\<lambda>r. rec_face r = f) (update_first (\<lambda>r. rec_face r = f) (OutRecord_update now i)
      (if find (\<lambda>r. rec_face r = f) (pit_outRecords e) = None
       then OutRecord_ctor f # pit_outRecords e else pit_outRecords e))
    = Some \<lparr>rec_face = f, rec_lastNonce = int_nonce i, rec_lastRenewed = now,
        rec_expiry = FaceRecord_expiry now i, rec_strategyInfo = info_of (PitEntry_getOutRecord e f)\<rparr>"
    by (subst find_update_first) simp_all
  then show ?thesis
    using True by (simp add: PitEntry_getOutRecord_def PitEntry_insertOrUpdateOutRecord_def Let_def)
next
  case False
  then show ?thesis
    by (auto simp: PitEntry_getOutRecord_def PitEntry_insertOrUpdateOutRecord_def Let_def
        intro!: find_update_first_other)
qed

lemma getOutRecord_delete:
  assumes "pit_entry_inv e"
  shows "PitEntry_getOutRecord (PitEntry_deleteOutRecord f e) g =
    (if g = f then None else PitEntry_getOutRecord e g)"
proof -
  have "find (\<lambda>r. rec_face r = g) (filter (\<lambda>r. rec_face r \<noteq> f) rs)
      = (if g = f then None else find (\<lambda>r. rec_face r = g) rs)" for rs :: "face_record list"
    by (induction rs) auto
  then show ?thesis
    using assms by (simp add: PitEntry_getOutRecord_def PitEntry_deleteOutRecord_def inv_simps
        erase_first_unique)
qed

section \<open>Duplicate nonces\<close>

lemma fold_flags:
  fixes a b :: "32 word"
  shows "fold (\<lambda>r d. if Q r then (if S r then d OR a else d OR b) else d) rs d =
    d OR (if \<exists>r \<in> set rs. Q r \<and> S r then a else 0) OR (if \<exists>r \<in> set rs. Q r \<and> \<not> S r then b else 0)"
  by (induction rs arbitrary: d) (auto simp: or.assoc or.commute or.left_commute)

lemma findNonce_eq:
  "PitEntry_findNonce e nonce f =
     (if \<exists>r \<in> set (pit_inRecords e). rec_lastNonce r = nonce \<and> rec_face r = f then 1 else 0) OR
     (if \<exists>r \<in> set (pit_inRecords e). rec_lastNonce r = nonce \<and> rec_face r \<noteq> f then 2 else 0) OR
     (if \<exists>r \<in> set (pit_outRecords e). rec_lastNonce r = nonce \<and> rec_face r = f then 4 else 0) OR
     (if \<exists>r \<in> set (pit_outRecords e). rec_lastNonce r = nonce \<and> rec_face r \<noteq> f then 8 else 0)"
  by (simp only: PitEntry_findNonce_def Let_def fold_flags or.left_neutral DUPLICATE_NONCE_NONE_def
      DUPLICATE_NONCE_IN_SAME_def DUPLICATE_NONCE_IN_OTHER_def DUPLICATE_NONCE_OUT_SAME_def
      DUPLICATE_NONCE_OUT_OTHER_def or.assoc)

lemma findNonce_none:
  "PitEntry_findNonce e nonce f = DUPLICATE_NONCE_NONE \<longleftrightarrow>
     (\<forall>r \<in> set (pit_inRecords e). rec_lastNonce r \<noteq> nonce) \<and>
     (\<forall>r \<in> set (pit_outRecords e). rec_lastNonce r \<noteq> nonce)"
  unfolding findNonce_eq DUPLICATE_NONCE_NONE_def by (auto split: if_splits)

section \<open>Next hops\<close>

definition fib_entry_inv :: "fib_entry \<Rightarrow> bool" where
  [inv_simps]: "fib_entry_inv e \<longleftrightarrow>
     distinct (map nh_face (fib_nextHops e)) \<and> sorted (map (\<lambda>h. unat (nh_cost h)) (fib_nextHops e))"

lemma addNextHop_inv:
  assumes "fib_entry_inv e"
  shows "fib_entry_inv (FibEntry_addNextHop f cost e)"
proof -
  let ?hs = "if find (\<lambda>h. nh_face h = f) (fib_nextHops e) = None
    then fib_nextHops e @ [\<lparr>nh_face = f, nh_cost = 0\<rparr>] else fib_nextHops e"
  let ?us = "update_first (\<lambda>h. nh_face h = f) (\<lambda>h. h\<lparr>nh_cost := cost\<rparr>) ?hs"
  have "distinct (map nh_face ?hs)"
    using assms by (auto simp: inv_simps find_key_None)
  then have d: "distinct (map nh_face ?us)" by (subst map_update_first) simp_all
  have "mset (map nh_face (sort_key (\<lambda>h. unat (nh_cost h)) us)) = mset (map nh_face us)" for us by simp
  with d have "distinct (map nh_face (sort_key (\<lambda>h. unat (nh_cost h)) ?us))"
    by (metis mset_eq_imp_distinct_iff)
  then show ?thesis
    unfolding fib_entry_inv_def FibEntry_addNextHop_def Let_def FibEntry_sortNextHops_def
    by simp
qed

lemma removeNextHop_inv: "fib_entry_inv e \<Longrightarrow> fib_entry_inv (FibEntry_removeNextHop f e)"
  by (simp add: inv_simps FibEntry_removeNextHop_def erase_first_unique distinct_map_filter sorted_filter)

lemma addNextHop_hops:
  assumes "fib_entry_inv e"
  shows "set (fib_nextHops (FibEntry_addNextHop f cost e)) =
    insert \<lparr>nh_face = f, nh_cost = cost\<rparr> {h \<in> set (fib_nextHops e). nh_face h \<noteq> f}"
proof -
  have upd: "set (update_first (\<lambda>h. nh_face h = f) (\<lambda>h. h\<lparr>nh_cost := cost\<rparr>) hs)
      = insert \<lparr>nh_face = f, nh_cost = cost\<rparr> {h \<in> set hs. nh_face h \<noteq> f}"
    if "distinct (map nh_face hs)" "f \<in> set (map nh_face hs)" for hs
    using that
  proof (induction hs)
    case (Cons h hs)
    show ?case
    proof (cases "nh_face h = f")
      case True
      then have "h\<lparr>nh_cost := cost\<rparr> = \<lparr>nh_face = f, nh_cost = cost\<rparr>" by (cases h) simp
      then show ?thesis using True Cons.prems by (auto simp: image_iff)
    qed (use Cons in auto)
  qed simp
  show ?thesis
  proof (cases "find (\<lambda>h. nh_face h = f) (fib_nextHops e)")
    case None
    then have "f \<notin> set (map nh_face (fib_nextHops e))" unfolding find_key_None .
    then show ?thesis
      using upd [of "fib_nextHops e @ [\<lparr>nh_face = f, nh_cost = 0\<rparr>]"] assms None
      by (auto simp: FibEntry_addNextHop_def FibEntry_sortNextHops_def inv_simps)
  next
    case (Some h)
    then show ?thesis
      using upd [of "fib_nextHops e"] assms find_Some_set [OF Some]
      by (auto simp: FibEntry_addNextHop_def FibEntry_sortNextHops_def inv_simps)
  qed
qed

lemma removeNextHop_hops:
  "fib_entry_inv e \<Longrightarrow> fib_nextHops (FibEntry_removeNextHop f e) = filter (\<lambda>h. nh_face h \<noteq> f) (fib_nextHops e)"
  by (simp add: FibEntry_removeNextHop_def inv_simps erase_first_unique)

end
