(* ===== verification/NameTree.thy ===== *)
theory NameTree
  imports TableEntries
begin

text \<open>
  The name tree, from \<open>NFD/daemon/table/name-tree.cpp\<close> and \<open>name-tree-entry.cpp\<close>: a hash table of
  name prefixes whose entries are linked to their parent and children and carry the entries of the
  other tables. A \<open>shared_ptr<Entry>\<close> is the prefix the entry was created for, the key of the
  store; a bucket is the list of the keys of its node chain. The hash function of
  \<open>core/city-hash.cpp\<close> is the parameter \<open>city\<close>: everything holds for each of them.
\<close>

section \<open>State\<close>

record nt_entry =
  ent_hash :: u64
  ent_parent :: "name option"
  ent_children :: "name list"
  ent_fib :: "fib_entry option"
  ent_pit :: "pit_entry list"
  ent_measurements :: "measurements_entry option"
  ent_strategy :: "strategy_choice_entry option"

record nametree =
  nt_store :: "name \<Rightarrow> nt_entry option"
  nt_buckets :: "name list list"
  nt_nItems :: nat
  nt_nBuckets :: nat
  nt_minNBuckets :: nat
  nt_enlargeThreshold :: nat
  nt_shrinkThreshold :: nat

definition NtEntry_ctor :: "u64 \<Rightarrow> nt_entry" where
  "NtEntry_ctor h = \<lparr>ent_hash = h, ent_parent = None, ent_children = [], ent_fib = None,
     ent_pit = [], ent_measurements = None, ent_strategy = None\<rparr>"

definition NtEntry_isEmpty :: "nt_entry \<Rightarrow> bool" where
  "NtEntry_isEmpty e \<longleftrightarrow>
     ent_children e = [] \<and> ent_fib e = None \<and> ent_pit e = [] \<and> ent_measurements e = None
     \<and> ent_strategy e = None"

definition nt_entry_of :: "nametree \<Rightarrow> name \<Rightarrow> nt_entry" where
  "nt_entry_of nt k = (case nt_store nt k of Some e \<Rightarrow> e | None \<Rightarrow> NtEntry_ctor 0)"

definition nt_update :: "name \<Rightarrow> (nt_entry \<Rightarrow> nt_entry) \<Rightarrow> nametree \<Rightarrow> nametree" where
  "nt_update k f nt = nt\<lparr>nt_store := (nt_store nt)(k := map_option f (nt_store nt k))\<rparr>"

section \<open>Hashing\<close>

definition computeHash :: "(bytes \<Rightarrow> u64) \<Rightarrow> name \<Rightarrow> u64" where
  "computeHash city pfx =
     fold (\<lambda>c hashValue. hashValue XOR city (component_wire c)) pfx 0"

fun hashSet_loop :: "(bytes \<Rightarrow> u64) \<Rightarrow> u64 \<Rightarrow> name \<Rightarrow> u64 list" where
  "hashSet_loop city hashValue [] = []"
| "hashSet_loop city hashValue (c # cs) =
     (let h = hashValue XOR city (component_wire c) in h # hashSet_loop city h cs)"

definition computeHashSet :: "(bytes \<Rightarrow> u64) \<Rightarrow> name \<Rightarrow> u64 list" where
  "computeHashSet city pfx = 0 # hashSet_loop city 0 pfx"

section \<open>Hash table\<close>

text \<open>The load factors are doubles. \<open>0.5 * n\<close> is exact, so its integral part is \<open>n div 2\<close>; the
  integral part of \<open>0.1 * n\<close> is \<open>n div 10\<close> for every table that fits in memory, since the error of
  the constant and of the product stays far below the distance to the next integer.\<close>

definition enlargeThreshold_for :: "nat \<Rightarrow> nat" where "enlargeThreshold_for n = n div 2"
definition shrinkThreshold_for :: "nat \<Rightarrow> nat" where "shrinkThreshold_for n = n div 10"

definition NameTree_ctor :: "nat \<Rightarrow> nametree" where
  "NameTree_ctor nBuckets =
     \<lparr>nt_store = (\<lambda>_. None), nt_buckets = replicate nBuckets [], nt_nItems = 0,
      nt_nBuckets = nBuckets, nt_minNBuckets = nBuckets,
      nt_enlargeThreshold = enlargeThreshold_for nBuckets,
      nt_shrinkThreshold = shrinkThreshold_for nBuckets\<rparr>"

text \<open>\<open>resize\<close> computes the new bucket from the low 32 bits of the hash.\<close>

definition resize_step :: "nametree \<Rightarrow> nat \<Rightarrow> name \<Rightarrow> name list list \<Rightarrow> name list list" where
  "resize_step nt newNBuckets p newBuckets =
     (let h = (ucast (ent_hash (nt_entry_of nt p)) :: u32);
          b = (unat h mod newNBuckets) mod 2 ^ 32
      in newBuckets[b := newBuckets ! b @ [p]])"

definition NameTree_resize :: "nat \<Rightarrow> nametree \<Rightarrow> nametree" where
  "NameTree_resize newNBuckets nt =
     (let newBuckets = fold (resize_step nt newNBuckets) (concat (nt_buckets nt))
                         (replicate newNBuckets [])
      in nt\<lparr>nt_buckets := newBuckets, nt_nBuckets := newNBuckets,
            nt_enlargeThreshold := enlargeThreshold_for newNBuckets,
            nt_shrinkThreshold := shrinkThreshold_for newNBuckets\<rparr>)"

definition NameTree_insert ::
    "(bytes \<Rightarrow> u64) \<Rightarrow> name \<Rightarrow> nametree \<Rightarrow> (name \<times> bool) \<times> nametree" where
  "NameTree_insert city pfx nt =
     (let hashValue = computeHash city pfx;
          loc = unat hashValue mod nt_nBuckets nt;
          chain = nt_buckets nt ! loc
      in case find (\<lambda>k. Name_equals pfx k) chain of
           Some k \<Rightarrow> ((k, False), nt)
         | None \<Rightarrow>
             ((pfx, True),
              nt\<lparr>nt_store := (nt_store nt)(pfx \<mapsto> NtEntry_ctor hashValue),
                 nt_buckets := (nt_buckets nt)[loc := chain @ [pfx]]\<rparr>))"

definition lookup_step ::
    "(bytes \<Rightarrow> u64) \<Rightarrow> name \<Rightarrow> nat \<Rightarrow> name option \<times> nametree \<Rightarrow> name option \<times> nametree" where
  "lookup_step city pfx i = (\<lambda>(parent, nt).
     let ((entry, isNew), nt1) = NameTree_insert city (Name_getPrefix pfx (int i)) nt;
         nt2 = (if isNew then
                  (let a = nt_update entry (\<lambda>e. e\<lparr>ent_parent := parent\<rparr>) (nt1\<lparr>nt_nItems := nt_nItems nt1 + 1\<rparr>)
                   in case parent of
                        None \<Rightarrow> a
                      | Some p \<Rightarrow> nt_update p (\<lambda>e. e\<lparr>ent_children := ent_children e @ [entry]\<rparr>) a)
                else nt1);
         nt3 = (if nt_nItems nt2 > nt_enlargeThreshold nt2
                then NameTree_resize (2 * nt_nBuckets nt2) nt2 else nt2)
     in (Some entry, nt3))"

definition NameTree_lookup :: "(bytes \<Rightarrow> u64) \<Rightarrow> name \<Rightarrow> nametree \<Rightarrow> name \<times> nametree" where
  "NameTree_lookup city pfx nt =
     (let (entry, nt') = fold (lookup_step city pfx) [0 ..< length pfx + 1] (None, nt)
      in (the entry, nt'))"

definition NameTree_findExactMatch :: "(bytes \<Rightarrow> u64) \<Rightarrow> name \<Rightarrow> nametree \<Rightarrow> name option" where
  "NameTree_findExactMatch city pfx nt =
     (let hashValue = computeHash city pfx;
          loc = unat hashValue mod nt_nBuckets nt
      in find (\<lambda>k. hashValue = ent_hash (nt_entry_of nt k) \<and> Name_equals pfx k) (nt_buckets nt ! loc))"

text \<open>The loop of \<open>findLongestPrefixMatch\<close> from \<open>i\<close> down to zero.\<close>

fun lpm_loop :: "u64 list \<Rightarrow> name \<Rightarrow> (name \<Rightarrow> nt_entry \<Rightarrow> bool) \<Rightarrow> nametree \<Rightarrow> nat \<Rightarrow> name option" where
  "lpm_loop hashValueSet pfx entrySelector nt i =
     (let hashValue = hashValueSet ! i;
          loc = unat hashValue mod nt_nBuckets nt
      in case find (\<lambda>k. hashValue = ent_hash (nt_entry_of nt k) \<and> Name_isPrefixOf k pfx
                        \<and> entrySelector k (nt_entry_of nt k)) (nt_buckets nt ! loc) of
           Some k \<Rightarrow> Some k
         | None \<Rightarrow> if i = 0 then None else lpm_loop hashValueSet pfx entrySelector nt (i - 1))"

declare lpm_loop.simps [simp del]

definition NameTree_findLongestPrefixMatch ::
    "(bytes \<Rightarrow> u64) \<Rightarrow> name \<Rightarrow> (name \<Rightarrow> nt_entry \<Rightarrow> bool) \<Rightarrow> nametree \<Rightarrow> name option" where
  "NameTree_findLongestPrefixMatch city pfx entrySelector nt =
     lpm_loop (computeHashSet city pfx) pfx entrySelector nt (length pfx)"

text \<open>The overload that walks up from an entry. An entry at depth \<open>d\<close> has \<open>d\<close> ancestors, so \<open>d + 1\<close>
  rounds are enough; the fuel only bounds the walk in a corrupted tree.\<close>

fun lpm_walk :: "nat \<Rightarrow> name option \<Rightarrow> (name \<Rightarrow> nt_entry \<Rightarrow> bool) \<Rightarrow> nametree \<Rightarrow> name option" where
  "lpm_walk 0 entry sel nt = None"
| "lpm_walk (Suc fuel) None sel nt = None"
| "lpm_walk (Suc fuel) (Some k) sel nt =
     (if sel k (nt_entry_of nt k) then Some k
      else lpm_walk fuel (ent_parent (nt_entry_of nt k)) sel nt)"

definition NameTree_findLongestPrefixMatch_entry ::
    "name \<Rightarrow> (name \<Rightarrow> nt_entry \<Rightarrow> bool) \<Rightarrow> nametree \<Rightarrow> name option" where
  "NameTree_findLongestPrefixMatch_entry k sel nt = lpm_walk (length k + 1) (Some k) sel nt"

text \<open>Removal of a child: the last child takes its place.\<close>

fun swap_remove :: "'a \<Rightarrow> 'a list \<Rightarrow> 'a list" where
  "swap_remove x [] = []"
| "swap_remove x (y # ys) =
     (if y = x then (if ys = [] then [] else last ys # butlast ys) else y # swap_remove x ys)"

text \<open>Unlinking a node: through its predecessor if it has one, else by storing its successor in the
  bucket its hash selects (where the chain it heads is expected to be).\<close>

definition unlink_node :: "name \<Rightarrow> nametree \<Rightarrow> name list list" where
  "unlink_node k nt =
     (let bs = nt_buckets nt;
          loc = unat (ent_hash (nt_entry_of nt k)) mod nt_nBuckets nt;
          i = length (takeWhile (\<lambda>chain. k \<notin> set chain) bs);
          chain = bs ! i
      in if i \<ge> length bs then bs
         else if hd chain \<noteq> k then bs[i := remove1 k chain]
         else bs[i := [k], loc := tl chain])"

fun eraseEntry_loop :: "nat \<Rightarrow> name \<Rightarrow> nametree \<Rightarrow> bool \<times> nametree" where
  "eraseEntry_loop 0 k nt = (False, nt)"
| "eraseEntry_loop (Suc fuel) k nt =
     (if NtEntry_isEmpty (nt_entry_of nt k) then
        let parent = ent_parent (nt_entry_of nt k);
            nt1 = (case parent of
                     None \<Rightarrow> nt
                   | Some p \<Rightarrow> nt_update p (\<lambda>e. e\<lparr>ent_children := swap_remove k (ent_children e)\<rparr>) nt);
            nt2 = nt1\<lparr>nt_buckets := unlink_node k nt1, nt_store := (nt_store nt1)(k := None),
                      nt_nItems := nt_nItems nt1 - 1\<rparr>;
            nt3 = (case parent of None \<Rightarrow> nt2 | Some p \<Rightarrow> snd (eraseEntry_loop fuel p nt2));
            newNBuckets = nt_nBuckets nt3 div 2;
            nt4 = (if newNBuckets \<ge> nt_minNBuckets nt3 \<and> nt_nItems nt3 < nt_shrinkThreshold nt3
                   then NameTree_resize newNBuckets nt3 else nt3)
        in (True, nt4)
      else (False, nt))"

definition NameTree_eraseEntryIfEmpty :: "name \<Rightarrow> nametree \<Rightarrow> bool \<times> nametree" where
  "NameTree_eraseEntryIfEmpty k nt = eraseEntry_loop (length k + 1) k nt"

section \<open>Enumeration\<close>

text \<open>\<open>fullEnumerate\<close> finds the first entry, \<open>operator++\<close> the next: the rest of the chain the entry
  is in, then the buckets after the one its hash selects.\<close>

definition NameTree_fullEnumerate :: "(name \<Rightarrow> nt_entry \<Rightarrow> bool) \<Rightarrow> nametree \<Rightarrow> name option" where
  "NameTree_fullEnumerate sel nt = find (\<lambda>k. sel k (nt_entry_of nt k)) (concat (nt_buckets nt))"

definition chain_after :: "name \<Rightarrow> nametree \<Rightarrow> name list" where
  "chain_after k nt =
     (case find (\<lambda>chain. k \<in> set chain) (nt_buckets nt) of
        None \<Rightarrow> []
      | Some chain \<Rightarrow> tl (dropWhile (\<lambda>x. x \<noteq> k) chain))"

definition full_next :: "(name \<Rightarrow> nt_entry \<Rightarrow> bool) \<Rightarrow> nametree \<Rightarrow> name \<Rightarrow> name option" where
  "full_next sel nt k =
     (case find (\<lambda>k. sel k (nt_entry_of nt k)) (chain_after k nt) of
        Some k' \<Rightarrow> Some k'
      | None \<Rightarrow>
          (let lastInChain = (if chain_after k nt = [] then k else last (chain_after k nt));
               newLocation = unat (ent_hash (nt_entry_of nt lastInChain)) mod nt_nBuckets nt + 1
           in find (\<lambda>k. sel k (nt_entry_of nt k)) (concat (drop newLocation (nt_buckets nt)))))"

text \<open>The range between an iterator and \<open>end()\<close>, in the order \<open>operator++\<close> visits it.\<close>

fun enumerate_from :: "(name \<Rightarrow> name option) \<Rightarrow> nat \<Rightarrow> name option \<Rightarrow> name list" where
  "enumerate_from nxt 0 it = []"
| "enumerate_from nxt (Suc fuel) None = []"
| "enumerate_from nxt (Suc fuel) (Some k) = k # enumerate_from nxt fuel (nxt k)"

definition NameTree_enumerateAll :: "(name \<Rightarrow> nt_entry \<Rightarrow> bool) \<Rightarrow> nametree \<Rightarrow> name list" where
  "NameTree_enumerateAll sel nt =
     enumerate_from (full_next sel nt) (nt_nItems nt) (NameTree_fullEnumerate sel nt)"

text \<open>\<open>operator++\<close> of \<open>findAllMatches\<close>: the next ancestor that satisfies the selector.\<close>

definition matches_next :: "(name \<Rightarrow> nt_entry \<Rightarrow> bool) \<Rightarrow> nametree \<Rightarrow> name \<Rightarrow> name option" where
  "matches_next sel nt k = lpm_walk (length k) (ent_parent (nt_entry_of nt k)) sel nt"

definition NameTree_findAllMatches ::
    "(bytes \<Rightarrow> u64) \<Rightarrow> name \<Rightarrow> (name \<Rightarrow> nt_entry \<Rightarrow> bool) \<Rightarrow> nametree \<Rightarrow> name list" where
  "NameTree_findAllMatches city pfx sel nt =
     enumerate_from (matches_next sel nt) (length pfx + 1)
       (NameTree_findLongestPrefixMatch city pfx sel nt)"

section \<open>Invariant\<close>

definition bucket_of :: "(bytes \<Rightarrow> u64) \<Rightarrow> nat \<Rightarrow> name \<Rightarrow> nat" where
  "bucket_of city n k = unat (computeHash city k) mod n"

text \<open>The hash table: every bucket holds, once, the keys that hash to it. The table size is a power
  of two up to \<open>2 ^ 32\<close>, as it is for the default size and every doubling and halving of it.\<close>

definition nt_table_inv :: "(bytes \<Rightarrow> u64) \<Rightarrow> (bytes \<Rightarrow> u32) \<Rightarrow> nametree \<Rightarrow> bool" where
  "nt_table_inv city \<tau> nt \<longleftrightarrow>
     (\<exists>j \<le> 32. nt_nBuckets nt = 2 ^ j) \<and> nt_minNBuckets nt \<ge> 1 \<and>
     length (nt_buckets nt) = nt_nBuckets nt \<and>
     (\<forall>i < nt_nBuckets nt. distinct (nt_buckets nt ! i) \<and>
        set (nt_buckets nt ! i) = {k \<in> dom (nt_store nt). bucket_of city (nt_nBuckets nt) k = i}) \<and>
     (\<forall>k \<in> dom (nt_store nt). typed \<tau> k \<and> ent_hash (nt_entry_of nt k) = computeHash city k) \<and>
     finite (dom (nt_store nt)) \<and> nt_nItems nt = card (dom (nt_store nt)) \<and>
     nt_enlargeThreshold nt = nt_nBuckets nt div 2 \<and> nt_shrinkThreshold nt = nt_nBuckets nt div 10"

text \<open>The links: the store is closed under parents, and the children of an entry are the entries
  one component longer.\<close>

definition nt_links_inv :: "(name \<Rightarrow> nt_entry option) \<Rightarrow> bool" where
  "nt_links_inv st \<longleftrightarrow>
     (\<forall>k e. st k = Some e \<longrightarrow>
        ent_parent e = (if k = [] then None else Some (butlast k)) \<and>
        (k \<noteq> [] \<longrightarrow> butlast k \<in> dom st) \<and>
        distinct (ent_children e) \<and> set (ent_children e) = {c \<in> dom st. c \<noteq> [] \<and> butlast c = k})"

definition nt_inv :: "(bytes \<Rightarrow> u64) \<Rightarrow> (bytes \<Rightarrow> u32) \<Rightarrow> nametree \<Rightarrow> bool" where
  "nt_inv city \<tau> nt \<longleftrightarrow> nt_table_inv city \<tau> nt \<and> nt_links_inv (nt_store nt)"

lemma nt_entry_of_Some: "nt_store nt k = Some e \<Longrightarrow> nt_entry_of nt k = e"
  by (simp add: nt_entry_of_def)

lemma nt_store_entry_of: "k \<in> dom (nt_store nt) \<Longrightarrow> nt_store nt k = Some (nt_entry_of nt k)"
  by (auto simp: nt_entry_of_def)

lemma nt_inv_ctor:
  assumes "j \<le> 32"
  shows "nt_inv city \<tau> (NameTree_ctor (2 ^ j))"
  using assms by (auto simp: nt_inv_def nt_table_inv_def nt_links_inv_def NameTree_ctor_def
      enlargeThreshold_for_def shrinkThreshold_for_def)

lemma table_bucket:
  assumes "nt_table_inv city \<tau> nt" "i < nt_nBuckets nt"
  shows "distinct (nt_buckets nt ! i)"
    and "set (nt_buckets nt ! i) = {k \<in> dom (nt_store nt). bucket_of city (nt_nBuckets nt) k = i}"
  using assms by (auto simp: nt_table_inv_def)

lemma table_facts:
  assumes "nt_table_inv city \<tau> nt"
  shows "nt_nBuckets nt > 0" "length (nt_buckets nt) = nt_nBuckets nt"
    and "bucket_of city (nt_nBuckets nt) k < nt_nBuckets nt"
    and "k \<in> dom (nt_store nt) \<Longrightarrow> typed \<tau> k"
    and "k \<in> dom (nt_store nt) \<Longrightarrow> ent_hash (nt_entry_of nt k) = computeHash city k"
    and "finite (dom (nt_store nt))" "nt_nItems nt = card (dom (nt_store nt))"
  using assms by (auto simp: nt_table_inv_def bucket_of_def)

lemma find_unique:
  assumes "\<And>x. x \<in> set xs \<Longrightarrow> P x \<longleftrightarrow> x = a"
  shows "find P xs = (if a \<in> set xs then Some a else None)"
  using assms by (induction xs) (auto split: if_splits)

text \<open>The key itself is what a chain search finds.\<close>

lemma chain_find:
  assumes "nt_table_inv city \<tau> nt" "typed \<tau> p"
  shows "find (Name_equals p) (nt_buckets nt ! bucket_of city (nt_nBuckets nt) p)
         = (if p \<in> dom (nt_store nt) then Some p else None)"
proof -
  let ?b = "nt_buckets nt ! bucket_of city (nt_nBuckets nt) p"
  have b: "set ?b = {k \<in> dom (nt_store nt). bucket_of city (nt_nBuckets nt) k = bucket_of city (nt_nBuckets nt) p}"
    using table_bucket(2)[OF assms(1)] table_facts(3)[OF assms(1)] by simp
  have "find (Name_equals p) ?b = (if p \<in> set ?b then Some p else None)"
    using table_facts(4)[OF assms(1)] assms(2) by (intro find_unique) (auto simp: b Name_equals_typed)
  then show ?thesis by (simp add: b)
qed

lemma findExactMatch_correct:
  assumes "nt_inv city \<tau> nt" "typed \<tau> p"
  shows "NameTree_findExactMatch city p nt = (if p \<in> dom (nt_store nt) then Some p else None)"
proof -
  have t: "nt_table_inv city \<tau> nt" using assms(1) by (simp add: nt_inv_def)
  let ?b = "nt_buckets nt ! bucket_of city (nt_nBuckets nt) p"
  have b: "set ?b = {k \<in> dom (nt_store nt). bucket_of city (nt_nBuckets nt) k = bucket_of city (nt_nBuckets nt) p}"
    using table_bucket(2)[OF t] table_facts(3)[OF t] by simp
  have "find (\<lambda>k. computeHash city p = ent_hash (nt_entry_of nt k) \<and> Name_equals p k) ?b
      = (if p \<in> set ?b then Some p else None)"
    using table_facts(4,5)[OF t] assms(2) by (intro find_unique) (auto simp: b Name_equals_typed)
  then show ?thesis
    by (simp add: NameTree_findExactMatch_def b flip: bucket_of_def)
qed

section \<open>Resizing\<close>

lemma fold_into_buckets:
  assumes "\<And>p. p \<in> set ps \<Longrightarrow> f p < n" "length bs = n"
  shows "length (fold (\<lambda>p bs. bs[f p := bs ! f p @ [p]]) ps bs) = n
    \<and> (\<forall>i < n. fold (\<lambda>p bs. bs[f p := bs ! f p @ [p]]) ps bs ! i = bs ! i @ filter (\<lambda>p. f p = i) ps)"
  using assms
proof (induction ps arbitrary: bs)
  case (Cons p ps)
  have "f p < n" using Cons.prems(1) by simp
  then show ?case
    using Cons.IH [of "bs[f p := bs ! f p @ [p]]"] Cons.prems by (auto simp: nth_list_update)
qed simp

lemma distinct_concat_index:
  assumes "\<forall>i < length bs. distinct (bs ! i)"
    and "\<forall>i < length bs. \<forall>j < length bs. i \<noteq> j \<longrightarrow> set (bs ! i) \<inter> set (bs ! j) = {}"
  shows "distinct (concat bs)"
  using assms
proof (induction bs)
  case (Cons b bs)
  have "set b \<inter> set b' = {}" if "b' \<in> set bs" for b'
    using that Cons.prems(2)[rule_format, of 0 "Suc _"] by (auto simp: in_set_conv_nth)
  moreover have "distinct (concat bs)"
  proof (rule Cons.IH)
    show "\<forall>i < length bs. distinct (bs ! i)" using Cons.prems(1) by force
    show "\<forall>i < length bs. \<forall>j < length bs. i \<noteq> j \<longrightarrow> set (bs ! i) \<inter> set (bs ! j) = {}"
      using Cons.prems(2)[rule_format, of "Suc _" "Suc _"] by simp
  qed
  moreover have "distinct b" using Cons.prems(1) by force
  ultimately show ?case by auto
qed simp

lemma table_concat:
  assumes "nt_table_inv city \<tau> nt"
  shows "set (concat (nt_buckets nt)) = dom (nt_store nt)" "distinct (concat (nt_buckets nt))"
proof -
  note f = table_facts [OF assms] and b = table_bucket [OF assms]
  show "set (concat (nt_buckets nt)) = dom (nt_store nt)"
  proof
    show "set (concat (nt_buckets nt)) \<subseteq> dom (nt_store nt)"
    proof
      fix k assume "k \<in> set (concat (nt_buckets nt))"
      then obtain i where "i < nt_nBuckets nt" "k \<in> set (nt_buckets nt ! i)"
        using f(2) by (auto simp: in_set_conv_nth [of _ "nt_buckets nt"])
      then show "k \<in> dom (nt_store nt)" using b(2) by blast
    qed
    show "dom (nt_store nt) \<subseteq> set (concat (nt_buckets nt))"
    proof
      fix k assume "k \<in> dom (nt_store nt)"
      then have "k \<in> set (nt_buckets nt ! bucket_of city (nt_nBuckets nt) k)"
        using b(2)[OF f(3)] by simp
      then show "k \<in> set (concat (nt_buckets nt))"
        using nth_mem [of "bucket_of city (nt_nBuckets nt) k" "nt_buckets nt"] f(2) f(3)[of k] by auto
    qed
  qed
  show "distinct (concat (nt_buckets nt))"
  proof (rule distinct_concat_index)
    show "\<forall>i < length (nt_buckets nt). distinct (nt_buckets nt ! i)" using b(1) f(2) by simp
    show "\<forall>i < length (nt_buckets nt). \<forall>j < length (nt_buckets nt).
        i \<noteq> j \<longrightarrow> set (nt_buckets nt ! i) \<inter> set (nt_buckets nt ! j) = {}"
      using b(2) f(2) by auto
  qed
qed

lemma low_bits_mod:
  assumes "j \<le> 32"
  shows "unat (ucast (h :: u64) :: u32) mod 2 ^ j mod 2 ^ 32 = unat h mod 2 ^ j"
proof -
  have "unat (ucast h :: u32) = unat h mod 2 ^ 32"
    by (simp add: unsigned_ucast_eq take_bit_eq_mod)
  moreover have "(2 :: nat) ^ j dvd 2 ^ 32" using assms by (rule le_imp_power_dvd)
  moreover have "unat h mod 2 ^ j < 2 ^ j" by simp
  then have "unat h mod 2 ^ j < 2 ^ 32"
    using power_increasing [OF assms, of "2 :: nat"] by linarith
  ultimately show ?thesis by (simp add: mod_mod_cancel)
qed

lemma resize_table_inv:
  assumes t: "nt_table_inv city \<tau> nt" and j: "j \<le> 32"
  shows "nt_table_inv city \<tau> (NameTree_resize (2 ^ j) nt)"
proof -
  note f = table_facts [OF t]
  let ?ps = "concat (nt_buckets nt)" and ?f = "\<lambda>p. unat (ucast (ent_hash (nt_entry_of nt p)) :: u32) mod 2 ^ j mod 2 ^ 32"
  have b: "?f p = bucket_of city (2 ^ j) p" if "p \<in> dom (nt_store nt)" for p
    using low_bits_mod [OF j] f(5)[OF that] by (simp add: bucket_of_def)
  have lt: "?f p < 2 ^ j" if "p \<in> set ?ps" for p
  proof -
    have "p \<in> dom (nt_store nt)" using that table_concat(1)[OF t] by blast
    from b [OF this] show ?thesis unfolding bucket_of_def by simp
  qed
  have step: "resize_step nt (2 ^ j) = (\<lambda>p bs. bs[?f p := bs ! ?f p @ [p]])"
    by (simp add: resize_step_def Let_def fun_eq_iff)
  let ?nb = "fold (resize_step nt (2 ^ j)) ?ps (replicate (2 ^ j) [])"
  have nb: "length ?nb = 2 ^ j" "\<And>i. i < 2 ^ j \<Longrightarrow> ?nb ! i = filter (\<lambda>p. ?f p = i) ?ps"
    using fold_into_buckets [of ?ps ?f "2 ^ j" "replicate (2 ^ j) []", OF lt] unfolding step by simp_all
  have "set (?nb ! i) = {k \<in> dom (nt_store nt). bucket_of city (2 ^ j) k = i}" "distinct (?nb ! i)"
    if "i < 2 ^ j" for i
  proof -
    have "filter (\<lambda>p. ?f p = i) ?ps = filter (\<lambda>p. bucket_of city (2 ^ j) p = i) ?ps"
      using table_concat(1)[OF t] b by (intro filter_cong) auto
    then have e: "?nb ! i = filter (\<lambda>p. bucket_of city (2 ^ j) p = i) ?ps" using nb(2)[OF that] by simp
    show "distinct (?nb ! i)" unfolding e using table_concat(2)[OF t] by simp
    show "set (?nb ! i) = {k \<in> dom (nt_store nt). bucket_of city (2 ^ j) k = i}"
      unfolding e set_filter table_concat(1)[OF t] ..
  qed
  moreover have "ent_hash (nt_entry_of (NameTree_resize (2 ^ j) nt) k) = ent_hash (nt_entry_of nt k)" for k
    by (simp add: NameTree_resize_def Let_def nt_entry_of_def)
  ultimately show ?thesis
    using t nb(1) j unfolding nt_table_inv_def
    by (auto simp: NameTree_resize_def Let_def enlargeThreshold_for_def shrinkThreshold_for_def)
qed

lemma resize_store [simp]: "nt_store (NameTree_resize n nt) = nt_store nt"
  by (simp add: NameTree_resize_def Let_def)

lemma resize_nItems [simp]: "nt_nItems (NameTree_resize n nt) = nt_nItems nt"
  by (simp add: NameTree_resize_def Let_def)

lemma resize_inv: "nt_inv city \<tau> nt \<Longrightarrow> j \<le> 32 \<Longrightarrow> nt_inv city \<tau> (NameTree_resize (2 ^ j) nt)"
  by (simp add: nt_inv_def resize_table_inv)

section \<open>Lookup\<close>

text \<open>What the other tables have attached to a name; nothing where there is no entry.\<close>

definition nt_tables ::
    "nametree \<Rightarrow> name \<Rightarrow>
     fib_entry option \<times> pit_entry list \<times> measurements_entry option \<times> strategy_choice_entry option" where
  "nt_tables nt k = (case nt_store nt k of
       None \<Rightarrow> (None, [], None, None)
     | Some e \<Rightarrow> (ent_fib e, ent_pit e, ent_measurements e, ent_strategy e))"

lemma butlast_neq [simp]: "p \<noteq> [] \<Longrightarrow> butlast p \<noteq> p"
  by (metis append_butlast_last_id not_Cons_self2 self_append_conv)

lemma nt_tables_resize [simp]: "nt_tables (NameTree_resize n nt) = nt_tables nt"
  by (simp add: nt_tables_def fun_eq_iff)

lemma insert_present:
  "nt_table_inv city \<tau> nt \<Longrightarrow> typed \<tau> p \<Longrightarrow> p \<in> dom (nt_store nt) \<Longrightarrow>
   NameTree_insert city p nt = ((p, False), nt)"
  using chain_find [of city \<tau> nt p] by (simp add: NameTree_insert_def Let_def flip: bucket_of_def)

lemma insert_absent:
  "nt_table_inv city \<tau> nt \<Longrightarrow> typed \<tau> p \<Longrightarrow> p \<notin> dom (nt_store nt) \<Longrightarrow>
   NameTree_insert city p nt = ((p, True),
     nt\<lparr>nt_store := (nt_store nt)(p \<mapsto> NtEntry_ctor (computeHash city p)),
        nt_buckets := (nt_buckets nt)[bucket_of city (nt_nBuckets nt) p :=
          nt_buckets nt ! bucket_of city (nt_nBuckets nt) p @ [p]]\<rparr>)"
  using chain_find [of city \<tau> nt p] by (simp add: NameTree_insert_def Let_def flip: bucket_of_def)

text \<open>Adding an entry below its parent.\<close>

definition nt_add :: "(bytes \<Rightarrow> u64) \<Rightarrow> name \<Rightarrow> name option \<Rightarrow> nametree \<Rightarrow> nametree" where
  "nt_add city p par nt =
     (let a = nt_update p (\<lambda>e. e\<lparr>ent_parent := par\<rparr>) ((snd (NameTree_insert city p nt))\<lparr>nt_nItems := nt_nItems nt + 1\<rparr>)
      in case par of None \<Rightarrow> a
         | Some q \<Rightarrow> nt_update q (\<lambda>e. e\<lparr>ent_children := ent_children e @ [p]\<rparr>) a)"

lemma nt_add_store:
  assumes "nt_table_inv city \<tau> nt" "typed \<tau> p" "p \<notin> dom (nt_store nt)" "par \<noteq> Some p"
  shows "nt_store (nt_add city p par nt) k =
    (if k = p then Some ((NtEntry_ctor (computeHash city p))\<lparr>ent_parent := par\<rparr>)
     else if par = Some k then map_option (\<lambda>e. e\<lparr>ent_children := ent_children e @ [p]\<rparr>) (nt_store nt k)
     else nt_store nt k)"
  using insert_absent [OF assms(1-3)] assms(4)
  by (auto simp: nt_add_def Let_def nt_update_def split: option.splits)

lemma nt_add_fields:
  assumes "nt_table_inv city \<tau> nt" "typed \<tau> p" "p \<notin> dom (nt_store nt)"
  shows "nt_buckets (nt_add city p par nt) = (nt_buckets nt)[bucket_of city (nt_nBuckets nt) p :=
          nt_buckets nt ! bucket_of city (nt_nBuckets nt) p @ [p]]"
    and "nt_nItems (nt_add city p par nt) = nt_nItems nt + 1"
    and "nt_nBuckets (nt_add city p par nt) = nt_nBuckets nt"
    and "nt_minNBuckets (nt_add city p par nt) = nt_minNBuckets nt"
    and "nt_enlargeThreshold (nt_add city p par nt) = nt_enlargeThreshold nt"
    and "nt_shrinkThreshold (nt_add city p par nt) = nt_shrinkThreshold nt"
  using insert_absent [OF assms]
  by (simp_all add: nt_add_def Let_def nt_update_def split: option.splits)

lemma nt_add_dom:
  assumes "nt_table_inv city \<tau> nt" "typed \<tau> p" "p \<notin> dom (nt_store nt)" "par \<noteq> Some p"
  shows "dom (nt_store (nt_add city p par nt)) = insert p (dom (nt_store nt))"
  using nt_add_store [OF assms] by (auto simp: dom_def split: if_splits)

lemma nt_add_tables:
  assumes "nt_table_inv city \<tau> nt" "typed \<tau> p" "p \<notin> dom (nt_store nt)" "par \<noteq> Some p"
  shows "nt_tables (nt_add city p par nt) k = nt_tables nt k"
  using assms(3) by (auto simp: nt_tables_def nt_add_store [OF assms] NtEntry_ctor_def split: option.splits)

lemma nt_add_table_inv:
  assumes t: "nt_table_inv city \<tau> nt" and p: "typed \<tau> p" "p \<notin> dom (nt_store nt)" "par \<noteq> Some p"
  shows "nt_table_inv city \<tau> (nt_add city p par nt)"
proof -
  let ?n = "nt_add city p par nt"
  note d = nt_add_dom [OF t p] and s = nt_add_store [OF t p] and f = nt_add_fields [OF t p(1,2)]
  note tf = table_facts [OF t]
  have h: "ent_hash (nt_entry_of ?n k) = computeHash city k" if "k \<in> dom (nt_store ?n)" for k
  proof (cases "k = p")
    case True
    then show ?thesis by (simp add: nt_entry_of_def s NtEntry_ctor_def)
  next
    case False
    then have "k \<in> dom (nt_store nt)" using that unfolding d by simp
    then obtain e where "nt_store nt k = Some e" by auto
    then show ?thesis
      using False tf(5)[of k] by (auto simp: nt_entry_of_def s)
  qed
  have b: "distinct (nt_buckets ?n ! i) \<and>
     set (nt_buckets ?n ! i) = {k \<in> dom (nt_store ?n). bucket_of city (nt_nBuckets ?n) k = i}"
    if "i < nt_nBuckets ?n" for i
    using that table_bucket [OF t, of i] tf(2) tf(3)[of p] p(2) by (auto simp: d f nth_list_update)
  have c: "card (dom (nt_store ?n)) = card (dom (nt_store nt)) + 1" using tf(6) p(2) by (simp add: d)
  show ?thesis
    using t b h c p(1) unfolding nt_table_inv_def d by (simp add: f d)
qed

lemma nt_add_links_inv:
  assumes t: "nt_table_inv city \<tau> nt" and l: "nt_links_inv (nt_store nt)"
    and p: "typed \<tau> p" "p \<notin> dom (nt_store nt)"
    and par: "par = (if p = [] then None else Some (butlast p))" "p \<noteq> [] \<Longrightarrow> butlast p \<in> dom (nt_store nt)"
  shows "nt_links_inv (nt_store (nt_add city p par nt))"
proof -
  have np: "par \<noteq> Some p" using par(1) by auto
  note d = nt_add_dom [OF t p np] and s = nt_add_store [OF t p np]
  have noc: "{c \<in> dom (nt_store nt). c \<noteq> [] \<and> butlast c = p} = {}"
    using l p(2) unfolding nt_links_inv_def by blast
  show ?thesis
    unfolding nt_links_inv_def
  proof (intro allI impI)
    fix k e assume e: "nt_store (nt_add city p par nt) k = Some e"
    show "ent_parent e = (if k = [] then None else Some (butlast k)) \<and>
        (k \<noteq> [] \<longrightarrow> butlast k \<in> dom (nt_store (nt_add city p par nt))) \<and>
        distinct (ent_children e) \<and>
        set (ent_children e) = {c \<in> dom (nt_store (nt_add city p par nt)). c \<noteq> [] \<and> butlast c = k}"
    proof (cases "k = p")
      case True
      then have "e = (NtEntry_ctor (computeHash city p))\<lparr>ent_parent := par\<rparr>" using e s by simp
      moreover have "\<not> (p \<noteq> [] \<and> butlast p = p)" by auto
      ultimately show ?thesis
        unfolding d using True par noc by (auto simp: NtEntry_ctor_def)
    next
      case False
      then obtain e0 where e0: "nt_store nt k = Some e0" using e s by (auto split: if_splits)
      have old: "ent_parent e0 = (if k = [] then None else Some (butlast k))"
        "k \<noteq> [] \<longrightarrow> butlast k \<in> dom (nt_store nt)" "distinct (ent_children e0)"
        "set (ent_children e0) = {c \<in> dom (nt_store nt). c \<noteq> [] \<and> butlast c = k}"
        using l e0 unfolding nt_links_inv_def by blast+
      have e1: "e = (if par = Some k then e0\<lparr>ent_children := ent_children e0 @ [p]\<rparr> else e0)"
        using e e0 False by (auto simp: s split: if_splits)
      have "ent_parent e = ent_parent e0" by (simp add: e1)
      moreover have "distinct (ent_children e)" using old(3,4) p(2) by (auto simp: e1)
      moreover have "set (ent_children e) = {c \<in> insert p (dom (nt_store nt)). c \<noteq> [] \<and> butlast c = k}"
        using old(4) par(1) by (auto simp: e1 split: if_splits)
      ultimately show ?thesis unfolding d using old(1,2) by simp
    qed
  qed
qed

lemma nt_add_inv:
  assumes "nt_inv city \<tau> nt" "typed \<tau> p" "p \<notin> dom (nt_store nt)"
    and "par = (if p = [] then None else Some (butlast p))" "p \<noteq> [] \<Longrightarrow> butlast p \<in> dom (nt_store nt)"
  shows "nt_inv city \<tau> (nt_add city p par nt)"
proof -
  have "par \<noteq> Some p" using assms(4) by auto
  then show ?thesis
    using assms nt_add_table_inv nt_add_links_inv unfolding nt_inv_def by blast
qed

text \<open>One round of \<open>lookup\<close>.\<close>

definition enlarge :: "nametree \<Rightarrow> nametree" where
  "enlarge nt = (if nt_nItems nt > nt_enlargeThreshold nt
                 then NameTree_resize (2 * nt_nBuckets nt) nt else nt)"

lemma enlarge_inv:
  assumes "nt_inv city \<tau> nt" "nt_nItems nt \<le> 2 ^ 31"
  shows "nt_inv city \<tau> (enlarge nt)" "nt_store (enlarge nt) = nt_store nt"
    "nt_tables (enlarge nt) = nt_tables nt"
proof -
  obtain j where j: "j \<le> 32" "nt_nBuckets nt = 2 ^ j"
    using assms(1) by (auto simp: nt_inv_def nt_table_inv_def)
  have "nt_inv city \<tau> (NameTree_resize (2 * nt_nBuckets nt) nt)" if "nt_nItems nt > nt_enlargeThreshold nt"
  proof -
    have "2 ^ j div 2 < (2 :: nat) ^ 31"
      using that assms j(2) by (auto simp: nt_inv_def nt_table_inv_def)
    then have "j \<noteq> 32" by auto
    then have "Suc j \<le> 32" using j(1) by simp
    from resize_inv [OF assms(1) this] show ?thesis by (simp add: j(2))
  qed
  then show "nt_inv city \<tau> (enlarge nt)" "nt_store (enlarge nt) = nt_store nt"
    "nt_tables (enlarge nt) = nt_tables nt"
    using assms(1) by (simp_all add: enlarge_def)
qed

lemma lookup_step_eq:
  assumes "nt_table_inv city \<tau> nt" "typed \<tau> p" "Name_getPrefix pfx (int i) = p"
  shows "lookup_step city pfx i (par, nt)
    = (Some p, enlarge (if p \<in> dom (nt_store nt) then nt else nt_add city p par nt))"
proof (cases "p \<in> dom (nt_store nt)")
  case True
  then show ?thesis
    using insert_present [OF assms(1,2) True] assms(3) by (simp add: lookup_step_def enlarge_def Let_def)
next
  case False
  have "nt_nItems (snd (NameTree_insert city p nt)) = nt_nItems nt"
    using insert_absent [OF assms(1,2) False] by simp
  then show ?thesis
    using insert_absent [OF assms(1,2) False] assms(3) False
    by (cases par) (simp_all add: lookup_step_def enlarge_def nt_add_def Let_def)
qed

lemma typed_Name_getPrefix:
  assumes "typed \<tau> pfx" "length pfx < npos" "i \<le> length pfx"
  shows "Name_getPrefix pfx (int i) = take i pfx" "typed \<tau> (take i pfx)"
  using assms by (simp_all add: Name_getPrefix_nonneg)

lemma butlast_take_Suc: "i < length xs \<Longrightarrow> butlast (take (Suc i) xs) = take i xs"
  by (simp add: take_Suc_conv_app_nth)

lemma lookup_fold:
  assumes inv: "nt_inv city \<tau> nt" and p: "typed \<tau> pfx" and n: "n \<le> length pfx + 1"
    and bound: "card (dom (nt_store nt)) + n \<le> 2 ^ 31" "length pfx < npos"
  shows "\<exists>nt'. fold (lookup_step city pfx) [0 ..< n] (None, nt)
      = (if n = 0 then None else Some (take (n - 1) pfx), nt') \<and> nt_inv city \<tau> nt' \<and>
    dom (nt_store nt') = dom (nt_store nt) \<union> {take i pfx | i. i < n} \<and>
    card (dom (nt_store nt')) \<le> card (dom (nt_store nt)) + n \<and> (\<forall>k. nt_tables nt' k = nt_tables nt k)"
  using n bound
proof (induction n)
  case 0
  then show ?case using inv by simp
next
  case (Suc n)
  then obtain nt' where IH: "fold (lookup_step city pfx) [0 ..< n] (None, nt)
      = (if n = 0 then None else Some (take (n - 1) pfx), nt')" "nt_inv city \<tau> nt'"
    "dom (nt_store nt') = dom (nt_store nt) \<union> {take i pfx | i. i < n}"
    "card (dom (nt_store nt')) \<le> card (dom (nt_store nt)) + n" "\<forall>k. nt_tables nt' k = nt_tables nt k"
    by auto
  let ?p = "take n pfx" and ?par = "if n = 0 then None else Some (take (n - 1) pfx)"
  have t: "nt_table_inv city \<tau> nt'" using IH(2) by (simp add: nt_inv_def)
  note tp = typed_Name_getPrefix [OF p Suc.prems(3), of n]
  have gp: "Name_getPrefix pfx (int n) = ?p" "typed \<tau> ?p" using tp Suc.prems by auto
  have e: "?p = [] \<longleftrightarrow> n = 0" using Suc.prems by auto
  have bl: "butlast ?p = take (n - 1) pfx" if "n \<noteq> 0"
    using that Suc.prems by (cases n) (auto simp: butlast_take_Suc)
  have par: "?par = (if ?p = [] then None else Some (butlast ?p))"
    "?p \<noteq> [] \<Longrightarrow> butlast ?p \<in> dom (nt_store nt')"
    using bl e IH(3) by auto
  have np: "?par \<noteq> Some ?p" using par(1) by auto
  define nt1 where "nt1 = (if ?p \<in> dom (nt_store nt') then nt' else nt_add city ?p ?par nt')"
  have n1: "nt_inv city \<tau> nt1" "dom (nt_store nt1) = insert ?p (dom (nt_store nt'))"
    "\<forall>k. nt_tables nt1 k = nt_tables nt' k"
    using IH(2) nt_add_inv [OF IH(2) gp(2) _ par] nt_add_dom [OF t gp(2) _ np]
      nt_add_tables [OF t gp(2) _ np] unfolding nt1_def by (simp_all add: insert_absorb)
  have c: "card (dom (nt_store nt1)) \<le> card (dom (nt_store nt)) + Suc n"
    using IH(4) n1(2) card_insert_le_m1 table_facts(6)[OF t] by (simp add: card_insert_if)
  then have c31: "nt_nItems nt1 \<le> 2 ^ 31"
    using Suc.prems(2) n1(1) by (simp add: nt_inv_def nt_table_inv_def)
  have "lookup_step city pfx n (?par, nt') = (Some ?p, enlarge nt1)"
    unfolding nt1_def by (rule lookup_step_eq [OF t gp(2,1)])
  then have "fold (lookup_step city pfx) [0 ..< Suc n] (None, nt) = (Some (take n pfx), enlarge nt1)"
    using IH(1) by simp
  moreover have "dom (nt_store nt1) = dom (nt_store nt) \<union> {take i pfx | i. i < Suc n}"
    using n1(2) IH(3) by (auto simp: less_Suc_eq)
  ultimately show ?case
    using enlarge_inv [OF n1(1) c31] c n1(3) IH(5) by simp
qed

lemma prefixes_take: "{take i xs | i. i < length xs + 1} = {k. prefix k xs}"
proof
  show "{k. prefix k xs} \<subseteq> {take i xs | i. i < length xs + 1}"
  proof
    fix k assume "k \<in> {k. prefix k xs}"
    then obtain ys where "xs = k @ ys" by (auto simp: prefix_def)
    then have "k = take (length k) xs" "length k < length xs + 1" by auto
    then show "k \<in> {take i xs | i. i < length xs + 1}" by blast
  qed
qed (auto simp: take_is_prefix)

lemma lookup_correct:
  assumes "nt_inv city \<tau> nt" "typed \<tau> pfx"
    and "card (dom (nt_store nt)) + length pfx < 2 ^ 31"
  shows "\<exists>nt'. NameTree_lookup city pfx nt = (pfx, nt') \<and> nt_inv city \<tau> nt' \<and>
    dom (nt_store nt') = dom (nt_store nt) \<union> {k. prefix k pfx} \<and>
    (\<forall>k. nt_tables nt' k = nt_tables nt k)"
proof -
  have "length pfx < npos" using assms(3) by (simp add: npos_def)
  from lookup_fold [OF assms(1,2) order.refl _ this] assms(3) obtain nt' where
    "fold (lookup_step city pfx) [0 ..< length pfx + 1] (None, nt) = (Some (take (length pfx) pfx), nt')"
    "nt_inv city \<tau> nt'" "dom (nt_store nt') = dom (nt_store nt) \<union> {take i pfx | i. i < length pfx + 1}"
    "\<forall>k. nt_tables nt' k = nt_tables nt k" by auto
  moreover have "{take i pfx | i. i < length pfx + 1} = {k. prefix k pfx}"
    by (rule prefixes_take)
  ultimately show ?thesis by (simp add: NameTree_lookup_def)
qed

section \<open>Longest prefix match\<close>

lemma hashSet_loop_nth:
  "i < length cs \<Longrightarrow> hashSet_loop city h cs ! i
     = fold (\<lambda>c v. v XOR city (component_wire c)) (take (Suc i) cs) h"
proof (induction cs arbitrary: h i)
  case (Cons c cs)
  then show ?case by (cases i) (simp_all add: Let_def)
qed simp

lemma computeHashSet_nth:
  assumes "i \<le> length p"
  shows "computeHashSet city p ! i = computeHash city (take i p)"
proof (cases i)
  case 0
  then show ?thesis by (simp add: computeHashSet_def computeHash_def)
next
  case (Suc m)
  then show ?thesis
    using assms hashSet_loop_nth [of m p city 0] by (simp add: computeHashSet_def computeHash_def)
qed

definition lpm_match :: "(name \<Rightarrow> nt_entry \<Rightarrow> bool) \<Rightarrow> nametree \<Rightarrow> name \<Rightarrow> name \<Rightarrow> bool" where
  "lpm_match sel nt p k \<longleftrightarrow> k \<in> dom (nt_store nt) \<and> prefix k p \<and> sel k (nt_entry_of nt k)"

text \<open>One round: it finds an entry with the hash of the prefix of length \<open>i\<close>, if there is one.\<close>

lemma lpm_round:
  assumes t: "nt_table_inv city \<tau> nt" and p: "typed \<tau> p" and i: "i \<le> length p"
  shows "case find (\<lambda>k. computeHashSet city p ! i = ent_hash (nt_entry_of nt k) \<and> Name_isPrefixOf k p
                        \<and> sel k (nt_entry_of nt k))
             (nt_buckets nt ! (unat (computeHashSet city p ! i) mod nt_nBuckets nt)) of
      None \<Rightarrow> \<not> lpm_match sel nt p (take i p)
    | Some k \<Rightarrow> lpm_match sel nt p k \<and> computeHash city k = computeHash city (take i p)"
proof -
  let ?b = "nt_buckets nt ! bucket_of city (nt_nBuckets nt) (take i p)"
  have b: "set ?b = {k \<in> dom (nt_store nt).
      bucket_of city (nt_nBuckets nt) k = bucket_of city (nt_nBuckets nt) (take i p)}"
    using table_bucket(2)[OF t] table_facts(3)[OF t] by simp
  have pre: "Name_isPrefixOf k p \<longleftrightarrow> prefix k p" if "k \<in> set ?b" for k
    using Name_isPrefixOf_typed [OF _ p] table_facts(4)[OF t] that b by blast
  have hash: "ent_hash (nt_entry_of nt k) = computeHash city k" if "k \<in> set ?b" for k
    using table_facts(5)[OF t] that b by blast
  have eq: "nt_buckets nt ! (unat (computeHashSet city p ! i) mod nt_nBuckets nt) = ?b"
    "computeHashSet city p ! i = computeHash city (take i p)"
    by (simp_all add: computeHashSet_nth [OF i] bucket_of_def)
  have fc: "find (\<lambda>k. computeHashSet city p ! i = ent_hash (nt_entry_of nt k) \<and> Name_isPrefixOf k p
      \<and> sel k (nt_entry_of nt k)) ?b
    = find (\<lambda>k. computeHash city (take i p) = computeHash city k \<and> prefix k p \<and> sel k (nt_entry_of nt k)) ?b"
    by (rule find_cong [OF refl]) (simp add: eq(2) pre hash)
  show ?thesis
  proof (cases "find (\<lambda>k. computeHash city (take i p) = computeHash city k \<and> prefix k p
      \<and> sel k (nt_entry_of nt k)) ?b")
    case None
    have "\<not> lpm_match sel nt p (take i p)"
    proof
      assume m: "lpm_match sel nt p (take i p)"
      then have "take i p \<in> set ?b" using b by (simp add: lpm_match_def)
      with m None show False by (auto simp: find_None_set lpm_match_def)
    qed
    then show ?thesis unfolding eq(1) fc None by simp
  next
    case (Some k)
    then show ?thesis unfolding eq(1) fc Some using find_Some_set [OF Some] b by (simp add: lpm_match_def)
  qed
qed

lemma lpm_loop_sound:
  assumes "nt_table_inv city \<tau> nt" "typed \<tau> p" "i \<le> length p"
    and "lpm_loop (computeHashSet city p) p sel nt i = Some k"
  shows "lpm_match sel nt p k \<and> (\<exists>m \<le> i. computeHash city k = computeHash city (take m p)
     \<and> (\<forall>l. m < l \<and> l \<le> i \<longrightarrow> \<not> lpm_match sel nt p (take l p)))"
  using assms(3,4)
proof (induction i)
  case 0
  then show ?case
    using lpm_round [OF assms(1,2), of 0 sel]
    by (subst (asm) lpm_loop.simps) (auto simp: Let_def split: option.splits)
next
  case (Suc i)
  show ?case
  proof (cases "find (\<lambda>k. computeHashSet city p ! Suc i = ent_hash (nt_entry_of nt k) \<and> Name_isPrefixOf k p
                        \<and> sel k (nt_entry_of nt k))
             (nt_buckets nt ! (unat (computeHashSet city p ! Suc i) mod nt_nBuckets nt))")
    case None
    then have "lpm_loop (computeHashSet city p) p sel nt i = Some k"
      using Suc.prems(2) by (subst (asm) lpm_loop.simps) (simp add: Let_def)
    with Suc.IH Suc.prems(1) obtain m where m: "lpm_match sel nt p k" "m \<le> i"
      "computeHash city k = computeHash city (take m p)"
      "\<forall>l. m < l \<and> l \<le> i \<longrightarrow> \<not> lpm_match sel nt p (take l p)" by auto
    moreover have "\<not> lpm_match sel nt p (take (Suc i) p)"
      using lpm_round [OF assms(1,2) Suc.prems(1), of sel] None by simp
    ultimately show ?thesis by (metis le_SucE le_SucI)
  next
    case (Some k')
    then have "k' = k" using Suc.prems(2) by (subst (asm) lpm_loop.simps) (simp add: Let_def)
    then show ?thesis
      using lpm_round [OF assms(1,2) Suc.prems(1), of sel] Some by auto
  qed
qed

lemma lpm_loop_complete:
  assumes "nt_table_inv city \<tau> nt" "typed \<tau> p" "i \<le> length p"
    and "lpm_loop (computeHashSet city p) p sel nt i = None" "m \<le> i"
  shows "\<not> lpm_match sel nt p (take m p)"
  using assms(3-)
proof (induction i)
  case 0
  then show ?case
    using lpm_round [OF assms(1,2), of 0 sel]
    by (subst (asm) lpm_loop.simps) (auto simp: Let_def split: option.splits)
next
  case (Suc i)
  have none: "find (\<lambda>k. computeHashSet city p ! Suc i = ent_hash (nt_entry_of nt k) \<and> Name_isPrefixOf k p
                        \<and> sel k (nt_entry_of nt k))
             (nt_buckets nt ! (unat (computeHashSet city p ! Suc i) mod nt_nBuckets nt)) = None"
    and rest: "lpm_loop (computeHashSet city p) p sel nt i = None"
    using Suc.prems(2) by (subst (asm) lpm_loop.simps, simp add: Let_def split: option.splits)+
  show ?case
  proof (cases "m = Suc i")
    case True
    then show ?thesis using lpm_round [OF assms(1,2) Suc.prems(1), of sel] none by simp
  next
    case False
    then show ?thesis using Suc.IH rest Suc.prems by simp
  qed
qed

text \<open>The search finds an entry exactly if some prefix has one that the selector accepts.\<close>

lemma findLongestPrefixMatch_some:
  assumes "nt_inv city \<tau> nt" "typed \<tau> p"
  shows "(case NameTree_findLongestPrefixMatch city p sel nt of
            None \<Rightarrow> \<forall>k. \<not> lpm_match sel nt p k
          | Some k \<Rightarrow> lpm_match sel nt p k)"
proof -
  have t: "nt_table_inv city \<tau> nt" using assms(1) by (simp add: nt_inv_def)
  show ?thesis
  proof (cases "NameTree_findLongestPrefixMatch city p sel nt")
    case None
    have "\<not> lpm_match sel nt p k" for k
    proof
      assume k: "lpm_match sel nt p k"
      then have "prefix k p" by (simp add: lpm_match_def)
      then have "k = take (length k) p" "length k \<le> length p" by (auto simp: prefix_def)
      then show False
        using lpm_loop_complete [OF t assms(2) order.refl, of sel "length k"] None k
        by (simp add: NameTree_findLongestPrefixMatch_def)
    qed
    then show ?thesis by (simp add: None)
  next
    case (Some k)
    then show ?thesis
      using lpm_loop_sound [OF t assms(2) order.refl, of sel k] by (simp add: NameTree_findLongestPrefixMatch_def)
  qed
qed

definition prefix_hashes_distinct :: "(bytes \<Rightarrow> u64) \<Rightarrow> name \<Rightarrow> bool" where
  "prefix_hashes_distinct city p \<longleftrightarrow> distinct (computeHashSet city p)"

lemma prefix_hashes_inj:
  assumes "prefix_hashes_distinct city p" "computeHash city (take a p) = computeHash city (take b p)"
    "a \<le> length p" "b \<le> length p"
  shows "a = b"
proof -
  have "length (hashSet_loop city h cs) = length cs" for h cs
    by (induction cs arbitrary: h) (simp_all add: Let_def)
  then have len: "length (computeHashSet city p) = length p + 1" by (simp add: computeHashSet_def)
  have "computeHashSet city p ! a = computeHashSet city p ! b"
    using assms by (simp add: computeHashSet_nth)
  then show ?thesis
    using assms len by (simp add: prefix_hashes_distinct_def nth_eq_iff_index_eq)
qed

text \<open>If no two prefixes of the name have the same hash, it is the longest one.\<close>

lemma findLongestPrefixMatch_longest:
  assumes "nt_inv city \<tau> nt" "typed \<tau> p" "prefix_hashes_distinct city p"
    and "NameTree_findLongestPrefixMatch city p sel nt = Some k" "lpm_match sel nt p k'"
  shows "length k' \<le> length k"
proof -
  have t: "nt_table_inv city \<tau> nt" using assms(1) by (simp add: nt_inv_def)
  obtain m where m: "lpm_match sel nt p k" "m \<le> length p" "computeHash city k = computeHash city (take m p)"
      "\<forall>l. m < l \<and> l \<le> length p \<longrightarrow> \<not> lpm_match sel nt p (take l p)"
    using lpm_loop_sound [OF t assms(2) order.refl, of sel k] assms(4)
    by (auto simp: NameTree_findLongestPrefixMatch_def)
  have k: "k = take (length k) p" "length k \<le> length p" using m(1) by (auto simp: lpm_match_def prefix_def)
  have k': "k' = take (length k') p" "length k' \<le> length p" using assms(5) by (auto simp: lpm_match_def prefix_def)
  have "length k = m"
    using prefix_hashes_inj [OF assms(3), of "length k" m] m(2,3) k by metis
  moreover have "\<not> m < length k'" using m(4) assms(5) k' by metis
  ultimately show ?thesis by simp
qed

text \<open>The overload that starts at an entry always finds the longest one.\<close>

lemma lpm_walk_correct:
  assumes l: "nt_links_inv (nt_store nt)" and "k \<in> dom (nt_store nt)" "length k < fuel"
  shows "case lpm_walk fuel (Some k) sel nt of
      None \<Rightarrow> \<forall>k'. \<not> lpm_match sel nt k k'
    | Some m \<Rightarrow> lpm_match sel nt k m \<and> (\<forall>k'. lpm_match sel nt k k' \<longrightarrow> prefix k' m)"
  using assms(2,3)
proof (induction fuel arbitrary: k)
  case (Suc fuel)
  obtain e where e: "nt_store nt k = Some e" using Suc.prems(1) by blast
  have ee: "nt_entry_of nt k = e" using e by (simp add: nt_entry_of_def)
  have par: "ent_parent e = (if k = [] then None else Some (butlast k))" "k \<noteq> [] \<Longrightarrow> butlast k \<in> dom (nt_store nt)"
    using l e unfolding nt_links_inv_def by blast+
  show ?case
  proof (cases "sel k e")
    case True
    then show ?thesis using Suc.prems(1) ee by (auto simp: lpm_match_def)
  next
    case F: False
    show ?thesis
    proof (cases "k = []")
      case True
      then show ?thesis
        using F ee par by (cases fuel) (auto simp: lpm_match_def)
    next
      case False
      have m: "lpm_match sel nt k k' \<longleftrightarrow> lpm_match sel nt (butlast k) k'" for k'
        using F ee False prefix_snoc [of k' "butlast k" "last k"] by (auto simp: lpm_match_def)
      have "length (butlast k) < fuel" using Suc.prems(2) False by (cases k) auto
      from Suc.IH [OF par(2)[OF False] this] show ?thesis
        using F ee par(1) False m by (simp split: option.split_asm option.split)
    qed
  qed
qed simp

lemma findLongestPrefixMatch_entry_correct:
  assumes "nt_inv city \<tau> nt" "k \<in> dom (nt_store nt)"
  shows "case NameTree_findLongestPrefixMatch_entry k sel nt of
      None \<Rightarrow> \<forall>k'. \<not> lpm_match sel nt k k'
    | Some m \<Rightarrow> lpm_match sel nt k m \<and> (\<forall>k'. lpm_match sel nt k k' \<longrightarrow> prefix k' m)"
  using lpm_walk_correct [of nt k "length k + 1" sel] assms
  by (simp add: nt_inv_def NameTree_findLongestPrefixMatch_entry_def)

section \<open>Erasing\<close>

lemma neq_butlast [simp]: "p = butlast p \<longleftrightarrow> p = []"
  by (cases "p = []") (auto dest: sym)

lemma swap_remove_set:
  assumes "distinct xs"
  shows "set (swap_remove x xs) = set xs - {x}" and "distinct (swap_remove x xs)"
proof -
  have "set (swap_remove x xs) = set xs - {x} \<and> distinct (swap_remove x xs)"
    using assms
  proof (induction xs)
    case (Cons y ys)
    show ?case
    proof (cases "y = x \<and> ys \<noteq> []")
      case True
      then obtain zs z where "ys = zs @ [z]" by (metis rev_exhaust)
      then show ?thesis using True Cons.prems by auto
    qed (use Cons in auto)
  qed simp
  then show "set (swap_remove x xs) = set xs - {x}" and "distinct (swap_remove x xs)" by auto
qed

text \<open>The first half of \<open>eraseEntryIfEmpty\<close>: one entry leaves the tree.\<close>

definition nt_remove :: "name \<Rightarrow> nametree \<Rightarrow> nametree" where
  "nt_remove k nt =
     (let nt1 = (case ent_parent (nt_entry_of nt k) of
                   None \<Rightarrow> nt
                 | Some p \<Rightarrow> nt_update p (\<lambda>e. e\<lparr>ent_children := swap_remove k (ent_children e)\<rparr>) nt)
      in nt1\<lparr>nt_buckets := unlink_node k nt1, nt_store := (nt_store nt1)(k := None),
             nt_nItems := nt_nItems nt1 - 1\<rparr>)"

lemma unlink_node_eq:
  assumes t: "nt_table_inv city \<tau> nt" and k: "k \<in> dom (nt_store nt)"
    and b: "nt_buckets nt' = nt_buckets nt" "nt_nBuckets nt' = nt_nBuckets nt"
      "ent_hash (nt_entry_of nt' k) = ent_hash (nt_entry_of nt k)"
  defines "loc \<equiv> bucket_of city (nt_nBuckets nt) k"
  shows "unlink_node k nt' = (nt_buckets nt)[loc := remove1 k (nt_buckets nt ! loc)]"
proof -
  note tf = table_facts [OF t] and tb = table_bucket [OF t]
  have loc: "loc < nt_nBuckets nt" using tf(3) by (simp add: loc_def)
  have mem: "k \<in> set (nt_buckets nt ! i) \<longleftrightarrow> i = loc" if "i < nt_nBuckets nt" for i
    using tb(2)[OF that] k by (auto simp: loc_def)
  have "takeWhile (\<lambda>chain. k \<notin> set chain) (nt_buckets nt) = take loc (nt_buckets nt)"
    using mem loc tf(2) by (intro takeWhile_eq_take_P_nth) auto
  then have i: "length (takeWhile (\<lambda>chain. k \<notin> set chain) (nt_buckets nt)) = loc"
    using loc tf(2) by simp
  have l2: "unat (ent_hash (nt_entry_of nt' k)) mod nt_nBuckets nt' = loc"
    using tf(5)[OF k] b by (simp add: loc_def bucket_of_def)
  obtain x xs where ch: "nt_buckets nt ! loc = x # xs" using mem [OF loc] by (cases "nt_buckets nt ! loc") auto
  show ?thesis
    using loc tf(2) by (simp add: unlink_node_def Let_def b(1) i l2 ch)
qed

lemma nt_remove_fields:
  assumes inv: "nt_inv city \<tau> nt" and k: "k \<in> dom (nt_store nt)"
  shows "nt_store (nt_remove k nt) a = (if a = k then None
      else if k \<noteq> [] \<and> a = butlast k then map_option (\<lambda>e. e\<lparr>ent_children := swap_remove k (ent_children e)\<rparr>) (nt_store nt a)
      else nt_store nt a)"
    and "nt_buckets (nt_remove k nt) = (nt_buckets nt)[bucket_of city (nt_nBuckets nt) k :=
          remove1 k (nt_buckets nt ! bucket_of city (nt_nBuckets nt) k)]"
    and "nt_nItems (nt_remove k nt) = nt_nItems nt - 1"
    and "nt_nBuckets (nt_remove k nt) = nt_nBuckets nt"
    and "nt_minNBuckets (nt_remove k nt) = nt_minNBuckets nt"
    and "nt_enlargeThreshold (nt_remove k nt) = nt_enlargeThreshold nt"
    and "nt_shrinkThreshold (nt_remove k nt) = nt_shrinkThreshold nt"
proof -
  have t: "nt_table_inv city \<tau> nt" and l: "nt_links_inv (nt_store nt)" using inv by (auto simp: nt_inv_def)
  obtain e where e: "nt_store nt k = Some e" using k by blast
  have par: "ent_parent (nt_entry_of nt k) = (if k = [] then None else Some (butlast k))"
    using l e unfolding nt_links_inv_def by (simp add: nt_entry_of_def)
  define nt1 where "nt1 = (if k = [] then nt
     else nt_update (butlast k) (\<lambda>e. e\<lparr>ent_children := swap_remove k (ent_children e)\<rparr>) nt)"
  have nr: "nt_remove k nt = nt1\<lparr>nt_buckets := unlink_node k nt1, nt_store := (nt_store nt1)(k := None),
             nt_nItems := nt_nItems nt1 - 1\<rparr>"
    by (simp add: nt_remove_def par nt1_def Let_def)
  have n1: "nt_buckets nt1 = nt_buckets nt" "nt_nBuckets nt1 = nt_nBuckets nt"
    "ent_hash (nt_entry_of nt1 k) = ent_hash (nt_entry_of nt k)"
    by (auto simp: nt1_def nt_update_def nt_entry_of_def)
  show "nt_store (nt_remove k nt) a = (if a = k then None
      else if k \<noteq> [] \<and> a = butlast k then map_option (\<lambda>e. e\<lparr>ent_children := swap_remove k (ent_children e)\<rparr>) (nt_store nt a)
      else nt_store nt a)"
    by (simp add: nr nt1_def nt_update_def)
  show "nt_buckets (nt_remove k nt) = (nt_buckets nt)[bucket_of city (nt_nBuckets nt) k :=
          remove1 k (nt_buckets nt ! bucket_of city (nt_nBuckets nt) k)]"
    using unlink_node_eq [OF t k n1] by (simp add: nr)
  show "nt_nItems (nt_remove k nt) = nt_nItems nt - 1" "nt_nBuckets (nt_remove k nt) = nt_nBuckets nt"
    "nt_minNBuckets (nt_remove k nt) = nt_minNBuckets nt"
    "nt_enlargeThreshold (nt_remove k nt) = nt_enlargeThreshold nt"
    "nt_shrinkThreshold (nt_remove k nt) = nt_shrinkThreshold nt"
    by (simp_all add: nr nt1_def nt_update_def)
qed

lemma nt_remove_dom:
  assumes "nt_inv city \<tau> nt" "k \<in> dom (nt_store nt)"
  shows "dom (nt_store (nt_remove k nt)) = dom (nt_store nt) - {k}"
  using butlast_neq [of k] by (auto simp: dom_def nt_remove_fields(1)[OF assms] split: if_splits)

lemma nt_remove_table_inv:
  assumes inv: "nt_inv city \<tau> nt" and k: "k \<in> dom (nt_store nt)"
  shows "nt_table_inv city \<tau> (nt_remove k nt)"
proof -
  let ?n = "nt_remove k nt"
  have t: "nt_table_inv city \<tau> nt" using inv by (simp add: nt_inv_def)
  note f = nt_remove_fields [OF inv k] and d = nt_remove_dom [OF inv k] and tf = table_facts [OF t]
  have h: "ent_hash (nt_entry_of ?n a) = computeHash city a" if "a \<in> dom (nt_store nt) - {k}" for a
    using tf(5)[of a] that by (auto simp: nt_entry_of_def f(1))
  have b: "distinct (nt_buckets ?n ! i) \<and>
     set (nt_buckets ?n ! i) = {a \<in> dom (nt_store nt) - {k}. bucket_of city (nt_nBuckets nt) a = i}"
    if "i < nt_nBuckets nt" for i
    using that table_bucket [OF t that] tf(2) tf(3)[of k]
    by (cases "i = bucket_of city (nt_nBuckets nt) k") (auto simp: f nth_list_update)
  have c: "card (dom (nt_store nt) - {k}) = card (dom (nt_store nt)) - 1" using tf(6) k by simp
  show ?thesis
    using t b h c unfolding nt_table_inv_def d by (simp add: f d)
qed

lemma nt_remove_links_inv:
  assumes inv: "nt_inv city \<tau> nt" and k: "nt_store nt k = Some ek" and em: "ent_children ek = []"
  shows "nt_links_inv (nt_store (nt_remove k nt))"
proof -
  have l: "nt_links_inv (nt_store nt)" using inv by (simp add: nt_inv_def)
  have kd: "k \<in> dom (nt_store nt)" using k by blast
  note s = nt_remove_fields(1)[OF inv kd] and d = nt_remove_dom [OF inv kd]
  have "set (ent_children ek) = {c \<in> dom (nt_store nt). c \<noteq> [] \<and> butlast c = k}"
    using l k unfolding nt_links_inv_def by blast
  then have noc: "c \<in> dom (nt_store nt) \<Longrightarrow> c \<noteq> [] \<Longrightarrow> butlast c \<noteq> k" for c
    using em by auto
  show ?thesis
    unfolding nt_links_inv_def
  proof (intro allI impI)
    fix a e assume e: "nt_store (nt_remove k nt) a = Some e"
    then have ak: "a \<noteq> k" by (auto simp: s)
    obtain e0 where e0: "nt_store nt a = Some e0" using e by (auto simp: s split: if_splits)
    have old: "ent_parent e0 = (if a = [] then None else Some (butlast a))"
        "a \<noteq> [] \<longrightarrow> butlast a \<in> dom (nt_store nt)" "distinct (ent_children e0)"
        "set (ent_children e0) = {c \<in> dom (nt_store nt). c \<noteq> [] \<and> butlast c = a}"
      using l e0 unfolding nt_links_inv_def by blast+
    have e1: "e = (if k \<noteq> [] \<and> a = butlast k then e0\<lparr>ent_children := swap_remove k (ent_children e0)\<rparr> else e0)"
      using e e0 ak by (auto simp: s split: if_splits)
    have "ent_parent e = ent_parent e0" by (simp add: e1)
    moreover have "a \<noteq> [] \<longrightarrow> butlast a \<in> dom (nt_store nt) - {k}"
      using old(2) noc [of a] e0 by auto
    moreover have "distinct (ent_children e)" using old(3) swap_remove_set(2) by (auto simp: e1)
    moreover have "set (ent_children e) = {c \<in> dom (nt_store nt) - {k}. c \<noteq> [] \<and> butlast c = a}"
      using old(4) swap_remove_set(1)[OF old(3), of k] by (auto simp: e1 split: if_splits)
    ultimately show "ent_parent e = (if a = [] then None else Some (butlast a)) \<and>
        (a \<noteq> [] \<longrightarrow> butlast a \<in> dom (nt_store (nt_remove k nt))) \<and> distinct (ent_children e) \<and>
        set (ent_children e) = {c \<in> dom (nt_store (nt_remove k nt)). c \<noteq> [] \<and> butlast c = a}"
      unfolding d using old(1) by simp
  qed
qed

lemma nt_remove_tables:
  assumes "nt_inv city \<tau> nt" "nt_store nt k = Some e" "NtEntry_isEmpty e"
  shows "nt_tables (nt_remove k nt) a = nt_tables nt a"
proof -
  have "k \<in> dom (nt_store nt)" using assms(2) by blast
  then show ?thesis
    using assms(2,3) by (auto simp: nt_tables_def nt_remove_fields(1)[OF assms(1)] NtEntry_isEmpty_def
        split: option.splits)
qed

text \<open>Every entry is there for a reason, except possibly those in \<open>K\<close>.\<close>

definition pruned_except :: "name set \<Rightarrow> nametree \<Rightarrow> bool" where
  "pruned_except K nt \<longleftrightarrow> (\<forall>k \<in> dom (nt_store nt) - K. \<not> NtEntry_isEmpty (nt_entry_of nt k))"

lemma nt_remove_pruned:
  assumes "nt_inv city \<tau> nt" "k \<in> dom (nt_store nt)" "pruned_except {k} nt"
  shows "pruned_except (if k = [] then {} else {butlast k}) (nt_remove k nt)"
  unfolding pruned_except_def
proof
  fix a assume "a \<in> dom (nt_store (nt_remove k nt)) - (if k = [] then {} else {butlast k})"
  then have a: "a \<in> dom (nt_store nt) - {k}" "k \<noteq> [] \<Longrightarrow> a \<noteq> butlast k"
    using nt_remove_dom [OF assms(1,2)] by (auto split: if_splits)
  then have "nt_entry_of (nt_remove k nt) a = nt_entry_of nt a"
    by (auto simp: nt_entry_of_def nt_remove_fields(1)[OF assms(1,2)])
  then show "\<not> NtEntry_isEmpty (nt_entry_of (nt_remove k nt) a)"
    using assms(3) a(1) by (simp add: pruned_except_def)
qed

definition shrink :: "nametree \<Rightarrow> nametree" where
  "shrink nt = (if nt_nBuckets nt div 2 \<ge> nt_minNBuckets nt \<and> nt_nItems nt < nt_shrinkThreshold nt
                then NameTree_resize (nt_nBuckets nt div 2) nt else nt)"

lemma shrink_inv:
  assumes "nt_inv city \<tau> nt"
  shows "nt_inv city \<tau> (shrink nt)" "nt_store (shrink nt) = nt_store nt"
proof -
  obtain j where j: "j \<le> 32" "nt_nBuckets nt = 2 ^ j" "nt_minNBuckets nt \<ge> 1"
    using assms(1) by (auto simp: nt_inv_def nt_table_inv_def)
  have "nt_inv city \<tau> (NameTree_resize (nt_nBuckets nt div 2) nt)" if "nt_nBuckets nt div 2 \<ge> nt_minNBuckets nt"
  proof -
    have "j \<noteq> 0" using that j by (cases j) auto
    then obtain i where "j = Suc i" by (cases j) auto
    then show ?thesis using resize_inv [OF assms, of i] j(1,2) by simp
  qed
  then show "nt_inv city \<tau> (shrink nt)" "nt_store (shrink nt) = nt_store nt"
    using assms(1) by (simp_all add: shrink_def)
qed

lemma nt_entry_of_store_cong: "nt_store a = nt_store b \<Longrightarrow> nt_entry_of a = nt_entry_of b"
  by (simp add: nt_entry_of_def fun_eq_iff)

lemma eraseEntry_loop_eq:
  "eraseEntry_loop (Suc fuel) k nt =
     (if NtEntry_isEmpty (nt_entry_of nt k) then
        (True, shrink (case ent_parent (nt_entry_of nt k) of
            None \<Rightarrow> nt_remove k nt
          | Some p \<Rightarrow> snd (eraseEntry_loop fuel p (nt_remove k nt))))
      else (False, nt))"
  by (cases "ent_parent (nt_entry_of nt k)") (simp_all add: shrink_def nt_remove_def Let_def)

declare eraseEntry_loop.simps(2) [simp del]

lemma eraseEntry_loop_correct:
  assumes "nt_inv city \<tau> nt" "k \<in> dom (nt_store nt)" "length k < fuel"
  shows "nt_inv city \<tau> (snd (eraseEntry_loop fuel k nt)) \<and>
    (\<forall>a. nt_tables (snd (eraseEntry_loop fuel k nt)) a = nt_tables nt a) \<and>
    dom (nt_store (snd (eraseEntry_loop fuel k nt))) \<subseteq> dom (nt_store nt) \<and>
    (pruned_except {k} nt \<longrightarrow> pruned_except {} (snd (eraseEntry_loop fuel k nt)))"
  using assms
proof (induction fuel arbitrary: k nt)
  case (Suc fuel)
  obtain e where e: "nt_store nt k = Some e" using Suc.prems(2) by blast
  have ee: "nt_entry_of nt k = e" using e by (simp add: nt_entry_of_def)
  have par: "ent_parent e = (if k = [] then None else Some (butlast k))"
    "k \<noteq> [] \<longrightarrow> butlast k \<in> dom (nt_store nt)"
    using Suc.prems(1) e unfolding nt_inv_def nt_links_inv_def by blast+
  show ?case
  proof (cases "NtEntry_isEmpty e")
    case False
    then have "pruned_except {k} nt \<longrightarrow> pruned_except {} nt"
      using ee by (auto simp: pruned_except_def)
    then show ?thesis using False Suc.prems by (simp add: eraseEntry_loop_eq ee)
  next
    case True
    then have ch: "ent_children e = []" by (simp add: NtEntry_isEmpty_def)
    let ?r = "nt_remove k nt"
    have r: "nt_inv city \<tau> ?r" "\<forall>a. nt_tables ?r a = nt_tables nt a"
      "dom (nt_store ?r) = dom (nt_store nt) - {k}"
      "pruned_except {k} nt \<longrightarrow> pruned_except (if k = [] then {} else {butlast k}) ?r"
      using nt_remove_table_inv [OF Suc.prems(1,2)] nt_remove_links_inv [OF Suc.prems(1) e ch]
        nt_remove_tables [OF Suc.prems(1) e True] nt_remove_dom [OF Suc.prems(1,2)]
        nt_remove_pruned [OF Suc.prems(1,2)] by (auto simp: nt_inv_def)
    define m where "m = (if k = [] then ?r else snd (eraseEntry_loop fuel (butlast k) ?r))"
    have m: "nt_inv city \<tau> m \<and> (\<forall>a. nt_tables m a = nt_tables nt a) \<and>
      dom (nt_store m) \<subseteq> dom (nt_store nt) \<and> (pruned_except {k} nt \<longrightarrow> pruned_except {} m)"
    proof (cases "k = []")
      case True
      then show ?thesis using r by (auto simp: m_def)
    next
      case False
      have "butlast k \<in> dom (nt_store ?r)" using False par(2) r(3) butlast_neq [OF False] by auto
      moreover have "length (butlast k) < fuel" using Suc.prems(3) False by (cases k) auto
      ultimately show ?thesis
        using Suc.IH [OF r(1), of "butlast k"] r False by (auto simp: m_def)
    qed
    have loop: "snd (eraseEntry_loop (Suc fuel) k nt) = shrink m"
      using True ee par(1) by (simp add: eraseEntry_loop_eq m_def)
    note sh = shrink_inv [OF conjunct1 [OF m]]
    have tb: "nt_tables (shrink m) = nt_tables m" by (simp add: nt_tables_def fun_eq_iff sh(2))
    have pr: "pruned_except {} (shrink m) = pruned_except {} m"
      by (simp add: pruned_except_def sh(2) nt_entry_of_store_cong [OF sh(2)])
    show ?thesis
      unfolding loop tb pr sh(2) using m sh(1) by blast
  qed
qed simp

lemma eraseEntryIfEmpty_correct:
  assumes "nt_inv city \<tau> nt" "k \<in> dom (nt_store nt)"
  defines "r \<equiv> NameTree_eraseEntryIfEmpty k nt"
  shows "fst r = NtEntry_isEmpty (nt_entry_of nt k)" "nt_inv city \<tau> (snd r)"
    "nt_tables (snd r) a = nt_tables nt a" "dom (nt_store (snd r)) \<subseteq> dom (nt_store nt)"
    "pruned_except {k} nt \<Longrightarrow> pruned_except {} (snd r)"
  using eraseEntry_loop_correct [OF assms(1,2), of "Suc (length k)"]
  unfolding r_def NameTree_eraseEntryIfEmpty_def by (simp_all add: eraseEntry_loop_eq)

section \<open>Enumeration\<close>

lemma find_split:
  "find P ys = Some k \<Longrightarrow> \<exists>ys1 ys2. ys = ys1 @ k # ys2 \<and> P k \<and> filter P ys1 = []"
proof (induction ys)
  case (Cons y ys)
  show ?case
  proof (cases "P y")
    case True
    then show ?thesis using Cons.prems by (intro exI [of _ "[]"] exI [of _ ys]) simp
  next
    case False
    then obtain ys1 ys2 where "ys = ys1 @ k # ys2" "P k" "filter P ys1 = []" using Cons by auto
    then show ?thesis using False by (intro exI [of _ "y # ys1"] exI [of _ ys2]) simp
  qed
qed simp

text \<open>Stepping from each element to the next one accepted visits the accepted ones in order.\<close>

lemma enumerate_from_find:
  assumes nxt: "\<And>xs k ys. L = xs @ k # ys \<Longrightarrow> nxt k = find P ys"
  shows "L = xs @ ys \<Longrightarrow> length (filter P ys) \<le> fuel \<Longrightarrow> enumerate_from nxt fuel (find P ys) = filter P ys"
proof (induction fuel arbitrary: xs ys)
  case 0
  then show ?case by simp
next
  case (Suc fuel)
  show ?case
  proof (cases "find P ys")
    case None
    then have "filter P ys = []" by (simp add: find_None_set filter_empty_conv)
    with None show ?thesis by simp
  next
    case (Some k)
    from find_split [OF this] obtain ys1 ys2 where y: "ys = ys1 @ k # ys2" "P k" "filter P ys1 = []"
      by (elim exE conjE)
    have "enumerate_from nxt fuel (find P ys2) = filter P ys2"
      using Suc.prems y by (intro Suc.IH [of "xs @ ys1 @ [k]"]) auto
    moreover have "nxt k = find P ys2" using nxt [of "xs @ ys1" k ys2] Suc.prems(1) y(1) by simp
    ultimately show ?thesis using Some y by simp
  qed
qed

lemma append_Cons_distinct:
  assumes "xs @ k # ys = as @ k # bs" "distinct (as @ k # bs)"
  shows "xs = as \<and> ys = bs"
proof -
  have "takeWhile (\<lambda>x. x \<noteq> k) (xs @ k # ys) = xs" "takeWhile (\<lambda>x. x \<noteq> k) (as @ k # bs) = as"
    using assms(2) assms(2)[folded assms(1)] by (auto simp: takeWhile_append)
  then show ?thesis using assms(1) by simp
qed

lemma full_next_eq:
  assumes inv: "nt_inv city \<tau> nt" and L: "concat (nt_buckets nt) = xs @ k # ys"
  shows "full_next sel nt k = find (\<lambda>k. sel k (nt_entry_of nt k)) ys"
proof -
  have t: "nt_table_inv city \<tau> nt" using inv by (simp add: nt_inv_def)
  note tf = table_facts [OF t] and tb = table_bucket [OF t] and tc = table_concat [OF t]
  define i where "i = bucket_of city (nt_nBuckets nt) k"
  have i: "i < nt_nBuckets nt" using tf(3) by (simp add: i_def)
  have kd: "k \<in> dom (nt_store nt)" using L tc(1) by (metis in_set_conv_decomp)
  have mem: "k \<in> set (nt_buckets nt ! a) \<longleftrightarrow> a = i" if "a < nt_nBuckets nt" for a
    using tb(2)[OF that] kd by (auto simp: i_def)
  obtain c1 c2 where ch: "nt_buckets nt ! i = c1 @ k # c2" using mem [OF i] by (metis split_list)
  have bs: "nt_buckets nt = take i (nt_buckets nt) @ (c1 @ k # c2) # drop (Suc i) (nt_buckets nt)"
    using id_take_nth_drop [of i "nt_buckets nt"] i tf(2) ch by simp
  have cc: "concat (nt_buckets nt) = (concat (take i (nt_buckets nt)) @ c1) @ k # c2 @ concat (drop (Suc i) (nt_buckets nt))"
    by (subst bs) simp
  have ys: "ys = c2 @ concat (drop (Suc i) (nt_buckets nt))"
    using append_Cons_distinct [of xs k ys] L cc tc(2) by metis
  have fnd: "find (\<lambda>chain. k \<in> set chain) (nt_buckets nt) = Some (c1 @ k # c2)"
  proof -
    have "find (\<lambda>chain. k \<in> set chain) (take i (nt_buckets nt)) = None"
    proof -
      have "k \<notin> set chain" if ch: "chain \<in> set (take i (nt_buckets nt))" for chain
      proof -
        obtain a where "a < i" "chain = nt_buckets nt ! a"
          using ch by (auto simp: in_set_conv_nth [of chain])
        then show ?thesis using mem [of a] i by simp
      qed
      then show ?thesis by (simp add: find_None_set)
    qed
    then show ?thesis by (subst bs) (simp add: find_append)
  qed
  have "k \<notin> set c1" using tb(1)[OF i] ch by simp
  then have ca: "chain_after k nt = c2" by (auto simp: chain_after_def fnd dropWhile_append)
  have last: "unat (ent_hash (nt_entry_of nt (if c2 = [] then k else last c2))) mod nt_nBuckets nt = i"
  proof -
    have "(if c2 = [] then k else last c2) \<in> set (nt_buckets nt ! i)" by (simp add: ch)
    then show ?thesis using tb(2)[OF i] tf(5) by (auto simp: bucket_of_def)
  qed
  show ?thesis
    unfolding full_next_def ca ys find_append Let_def last by (simp split: option.split)
qed

lemma enumerateAll_eq:
  assumes "nt_inv city \<tau> nt"
  shows "NameTree_enumerateAll sel nt = filter (\<lambda>k. sel k (nt_entry_of nt k)) (concat (nt_buckets nt))"
proof -
  have t: "nt_table_inv city \<tau> nt" using assms by (simp add: nt_inv_def)
  have "length (concat (nt_buckets nt)) = nt_nItems nt"
    using table_concat [OF t] table_facts(7)[OF t] distinct_card by metis
  then have "length (filter (\<lambda>k. sel k (nt_entry_of nt k)) (concat (nt_buckets nt))) \<le> nt_nItems nt"
    using length_filter_le by metis
  then show ?thesis
    unfolding NameTree_enumerateAll_def NameTree_fullEnumerate_def
    by (intro enumerate_from_find [where L = "concat (nt_buckets nt)" and xs = "[]"])
      (simp_all add: full_next_eq [OF assms])
qed

lemma enumerateAll_set:
  assumes "nt_inv city \<tau> nt"
  shows "set (NameTree_enumerateAll sel nt) = {k \<in> dom (nt_store nt). sel k (nt_entry_of nt k)}"
    and "distinct (NameTree_enumerateAll sel nt)"
proof -
  have t: "nt_table_inv city \<tau> nt" using assms by (simp add: nt_inv_def)
  show "set (NameTree_enumerateAll sel nt) = {k \<in> dom (nt_store nt). sel k (nt_entry_of nt k)}"
    and "distinct (NameTree_enumerateAll sel nt)"
    unfolding enumerateAll_eq [OF assms] set_filter table_concat(1)[OF t]
    using table_concat(2)[OF t] by simp_all
qed

section \<open>All matches\<close>

lemma lpm_match_trans:
  assumes "lpm_match sel nt b m" "\<forall>k'. lpm_match sel nt b k' \<longrightarrow> prefix k' m"
  shows "lpm_match sel nt b a \<longleftrightarrow> lpm_match sel nt m a"
  using assms by (auto simp: lpm_match_def dest: prefix_order.trans)

lemma matches_enumerate:
  assumes l: "nt_links_inv (nt_store nt)" and "k \<in> dom (nt_store nt)" "sel k (nt_entry_of nt k)" "length k < fuel"
  shows "set (enumerate_from (matches_next sel nt) fuel (Some k)) = {a. lpm_match sel nt k a} \<and>
    sorted_wrt (\<lambda>a b. length b < length a) (enumerate_from (matches_next sel nt) fuel (Some k))"
  using assms(2-)
proof (induction fuel arbitrary: k)
  case (Suc fuel)
  obtain e where e: "nt_store nt k = Some e" using Suc.prems(1) by blast
  have par: "ent_parent (nt_entry_of nt k) = (if k = [] then None else Some (butlast k))"
    "k \<noteq> [] \<Longrightarrow> butlast k \<in> dom (nt_store nt)"
    using l e unfolding nt_links_inv_def by (auto simp: nt_entry_of_def)
  show ?case
  proof (cases "k = []")
    case True
    then have "matches_next sel nt k = None" by (simp add: matches_next_def)
    then show ?thesis
      using True Suc.prems by (cases fuel) (auto simp: lpm_match_def)
  next
    case False
    have km: "lpm_match sel nt k a \<longleftrightarrow> a = k \<or> lpm_match sel nt (butlast k) a" for a
      using Suc.prems(1,2) prefix_snoc [of a "butlast k" "last k"] False by (auto simp: lpm_match_def)
    have "length (butlast k) < length k" using False by simp
    note walk = lpm_walk_correct [OF l par(2)[OF False] this, of sel]
    show ?thesis
    proof (cases "lpm_walk (length k) (Some (butlast k)) sel nt")
      case None
      then have n: "matches_next sel nt k = None" "\<And>a. \<not> lpm_match sel nt (butlast k) a"
        using walk par(1) False by (auto simp: matches_next_def)
      then show ?thesis by (cases fuel) (auto simp: km)
    next
      case (Some m)
      then have n: "matches_next sel nt k = Some m" "lpm_match sel nt (butlast k) m"
        "\<forall>k'. lpm_match sel nt (butlast k) k' \<longrightarrow> prefix k' m"
        using walk par(1) False by (auto simp: matches_next_def)
      have lm: "length m < length k"
      proof -
        have "length m \<le> length (butlast k)" using n(2) prefix_length_le unfolding lpm_match_def by blast
        also have "\<dots> < length k" using False by simp
        finally show ?thesis .
      qed
      have IH: "set (enumerate_from (matches_next sel nt) fuel (Some m)) = {a. lpm_match sel nt m a}"
        "sorted_wrt (\<lambda>a b. length b < length a) (enumerate_from (matches_next sel nt) fuel (Some m))"
        using Suc.IH [of m] n(2) lm Suc.prems(3) by (auto simp: lpm_match_def)
      have "length a < length k" if "lpm_match sel nt m a" for a
        using that lm by (auto simp: lpm_match_def dest!: prefix_length_le)
      then show ?thesis
        using IH km lpm_match_trans [OF n(2,3)] by (auto simp: n(1))
    qed
  qed
qed simp

lemma findAllMatches_correct:
  assumes "nt_inv city \<tau> nt" "typed \<tau> p" "prefix_hashes_distinct city p"
  shows "set (NameTree_findAllMatches city p sel nt) = {k. lpm_match sel nt p k}"
    and "sorted_wrt (\<lambda>a b. length b < length a) (NameTree_findAllMatches city p sel nt)"
proof -
  have l: "nt_links_inv (nt_store nt)" using assms(1) by (simp add: nt_inv_def)
  have "set (NameTree_findAllMatches city p sel nt) = {k. lpm_match sel nt p k} \<and>
    sorted_wrt (\<lambda>a b. length b < length a) (NameTree_findAllMatches city p sel nt)"
  proof (cases "NameTree_findLongestPrefixMatch city p sel nt")
    case None
    then show ?thesis
      using findLongestPrefixMatch_some [OF assms(1,2), of sel] by (simp add: NameTree_findAllMatches_def)
  next
    case (Some k)
    then have k: "lpm_match sel nt p k"
      using findLongestPrefixMatch_some [OF assms(1,2), of sel] by simp
    have "prefix k' k" if "lpm_match sel nt p k'" for k'
      using findLongestPrefixMatch_longest [OF assms Some that] that k
      by (auto simp: lpm_match_def intro: prefix_length_prefix)
    then have "lpm_match sel nt p a \<longleftrightarrow> lpm_match sel nt k a" for a
      using lpm_match_trans [OF k] by blast
    moreover have "length k < length p + 1"
      using k by (auto simp: lpm_match_def dest: prefix_length_le)
    ultimately show ?thesis
      using matches_enumerate [OF l, of k sel "length p + 1"] k Some
      by (simp add: NameTree_findAllMatches_def lpm_match_def)
  qed
  then show "set (NameTree_findAllMatches city p sel nt) = {k. lpm_match sel nt p k}"
    and "sorted_wrt (\<lambda>a b. length b < length a) (NameTree_findAllMatches city p sel nt)" by auto
qed

text \<open>Whatever the hash function, repeating a component cancels it: \<open>/a/b/b\<close> hashes like \<open>/a\<close>, and
  the search for it stops at \<open>/a\<close> although \<open>/a/b\<close> is a longer match.\<close>

lemma computeHash_cancel: "computeHash city (p @ [b, b]) = computeHash city p"
  by (simp add: computeHash_def xor.assoc)

lemma lpm_not_longest:
  assumes "nt_inv city \<tau> nt" "typed \<tau> [a, b]" "city (component_wire b) \<noteq> 0"
    and "lpm_match sel nt [a, b, b] [a]" "lpm_match sel nt [a, b, b] [a, b]"
    and "\<not> lpm_match sel nt [a, b, b] [a, b, b]" "\<not> lpm_match sel nt [a, b, b] []"
  shows "NameTree_findLongestPrefixMatch city [a, b, b] sel nt = Some [a]"
proof -
  let ?p = "[a, b, b]"
  have t: "nt_table_inv city \<tau> nt" using assms(1) by (simp add: nt_inv_def)
  have p: "typed \<tau> ?p" using assms(2) by (simp add: typed_def)
  have h: "computeHash city ?p = computeHash city [a]" using computeHash_cancel [of city "[a]" b] by simp
  have ab: "computeHash city [a, b] \<noteq> computeHash city ?p"
  proof
    assume "computeHash city [a, b] = computeHash city ?p"
    then have "city (component_wire a) XOR city (component_wire b) = city (component_wire a)"
      by (simp only: h) (simp add: computeHash_def)
    then have "city (component_wire a) XOR (city (component_wire a) XOR city (component_wire b)) = 0" by simp
    then have "city (component_wire b) = 0" by (simp flip: xor.assoc)
    with assms(3) show False by simp
  qed
  let ?f = "find (\<lambda>k. computeHashSet city ?p ! 3 = ent_hash (nt_entry_of nt k) \<and> Name_isPrefixOf k ?p
                        \<and> sel k (nt_entry_of nt k))
             (nt_buckets nt ! (unat (computeHashSet city ?p ! 3) mod nt_nBuckets nt))"
  have r: "case ?f of None \<Rightarrow> False | Some k \<Rightarrow> lpm_match sel nt ?p k \<and> computeHash city k = computeHash city ?p"
  proof (cases ?f)
    case None
    have hs: "computeHashSet city ?p ! 3 = computeHash city [a]"
      using computeHashSet_nth [of 3 ?p city] h by simp
    have d: "[a] \<in> dom (nt_store nt)" using assms(4) by (simp add: lpm_match_def)
    have "[a] \<in> set (nt_buckets nt ! bucket_of city (nt_nBuckets nt) [a])"
      using table_bucket(2)[OF t table_facts(3)[OF t]] d by simp
    moreover have "Name_isPrefixOf [a] ?p" by (simp add: Name_isPrefixOf_iff)
    ultimately show ?thesis
      using None assms(4) table_facts(5)[OF t d]
      by (auto simp: find_None_set hs lpm_match_def bucket_of_def)
  next
    case (Some k)
    then show ?thesis using lpm_round [OF t p, of 3 sel] by simp
  qed
  then obtain k where k: "?f = Some k" "lpm_match sel nt ?p k" "computeHash city k = computeHash city ?p"
    by (auto split: option.splits)
  have "k = [] \<or> k = [a] \<or> k = [a, b] \<or> k = ?p"
    using k(2) by (auto simp: lpm_match_def prefix_Cons)
  then have "k = [a]" using k assms ab by auto
  then show ?thesis
    using k(1) by (simp add: NameTree_findLongestPrefixMatch_def)
      (subst lpm_loop.simps, simp add: numeral_3_eq_3)
qed

end
