(* ===== verification/PitFib.thy ===== *)
theory PitFib
  imports NameTree
begin

text \<open>
  The Pending Interest Table and the Forwarding Information Base, from \<open>NFD/daemon/table/pit.cpp\<close>
  and \<open>fib.cpp\<close>. Both live in the name tree and keep a counter of their own. A
  \<open>shared_ptr<pit::Entry>\<close> is the name of the tree entry it is attached to and its selectors.
\<close>

section \<open>Attached entries\<close>

definition setFibEntry :: "name \<Rightarrow> fib_entry option \<Rightarrow> nametree \<Rightarrow> nametree" where
  "setFibEntry k fe nt = nt_update k (\<lambda>e. e\<lparr>ent_fib := fe\<rparr>) nt"

definition insertPitEntry :: "name \<Rightarrow> pit_entry \<Rightarrow> nametree \<Rightarrow> nametree" where
  "insertPitEntry k pe nt = nt_update k (\<lambda>e. e\<lparr>ent_pit := ent_pit e @ [pe]\<rparr>) nt"

type_synonym pit_ref = "name \<times> selectors"

definition pit_at :: "pit_ref \<Rightarrow> nametree \<Rightarrow> pit_entry option" where
  "pit_at = (\<lambda>(k, s) nt. find (\<lambda>pe. int_selectors (pit_interest pe) = s) (ent_pit (nt_entry_of nt k)))"

definition erasePitEntry :: "pit_ref \<Rightarrow> nametree \<Rightarrow> nametree" where
  "erasePitEntry = (\<lambda>(k, s) nt. nt_update k (\<lambda>e.
     case find (\<lambda>pe. int_selectors (pit_interest pe) = s) (ent_pit e) of
       None \<Rightarrow> e
     | Some pe \<Rightarrow> e\<lparr>ent_pit := swap_remove pe (ent_pit e)\<rparr>) nt)"

text \<open>A change of the PIT entry behind a reference.\<close>

definition pit_modify :: "pit_ref \<Rightarrow> (pit_entry \<Rightarrow> pit_entry) \<Rightarrow> nametree \<Rightarrow> nametree" where
  "pit_modify = (\<lambda>(k, s) f nt. nt_update k (\<lambda>e.
     e\<lparr>ent_pit := update_first (\<lambda>pe. int_selectors (pit_interest pe) = s) f (ent_pit e)\<rparr>) nt)"

definition setMeasurementsEntry :: "name \<Rightarrow> measurements_entry option \<Rightarrow> nametree \<Rightarrow> nametree" where
  "setMeasurementsEntry k me nt = nt_update k (\<lambda>e. e\<lparr>ent_measurements := me\<rparr>) nt"

definition setStrategyChoiceEntry :: "name \<Rightarrow> strategy_choice_entry option \<Rightarrow> nametree \<Rightarrow> nametree" where
  "setStrategyChoiceEntry k se nt = nt_update k (\<lambda>e. e\<lparr>ent_strategy := se\<rparr>) nt"

section \<open>PIT\<close>

definition selectors_same :: "selectors \<Rightarrow> selectors \<Rightarrow> bool" where
  "selectors_same a b = (case Selectors_equals a b of Inl _ \<Rightarrow> False | Inr eq \<Rightarrow> eq)"

definition Pit_insert ::
    "(bytes \<Rightarrow> u64) \<Rightarrow> interest \<Rightarrow> nametree \<times> nat \<Rightarrow> (pit_ref \<times> bool) \<times> nametree \<times> nat" where
  "Pit_insert city i = (\<lambda>(nt, nItems).
     let (k, nt1) = NameTree_lookup city (int_name i) nt
     in case find (\<lambda>pe. Name_equals (int_name (pit_interest pe)) (int_name i)
                        \<and> selectors_same (int_selectors (pit_interest pe)) (int_selectors i))
               (ent_pit (nt_entry_of nt1 k)) of
          Some pe \<Rightarrow> (((k, int_selectors (pit_interest pe)), False), nt1, nItems)
        | None \<Rightarrow> (((k, int_selectors i), True), insertPitEntry k (PitEntry_ctor i) nt1, nItems + 1))"

definition Pit_findAllDataMatches ::
    "(bytes \<Rightarrow> u64) \<Rightarrow> (bytes \<Rightarrow> bytes) \<Rightarrow> data \<Rightarrow> nametree \<Rightarrow> pit_ref list" where
  "Pit_findAllDataMatches city sha256 d nt =
     concat (map (\<lambda>k. map (\<lambda>pe. (k, int_selectors (pit_interest pe)))
                        (filter (\<lambda>pe. Interest_matchesData sha256 (pit_interest pe) d)
                           (ent_pit (nt_entry_of nt k))))
       (NameTree_findAllMatches city (data_name d) (\<lambda>_ e. ent_pit e \<noteq> []) nt))"

definition Pit_erase :: "pit_ref \<Rightarrow> nametree \<times> nat \<Rightarrow> nametree \<times> nat" where
  "Pit_erase r = (\<lambda>(nt, nItems).
     (snd (NameTree_eraseEntryIfEmpty (fst r) (erasePitEntry r nt)), nItems - 1))"

section \<open>FIB\<close>

definition hasFibEntry :: "name \<Rightarrow> nt_entry \<Rightarrow> bool" where
  "hasFibEntry k e \<longleftrightarrow> ent_fib e \<noteq> None"

definition s_emptyEntry :: fib_entry where "s_emptyEntry = FibEntry_ctor []"

definition fib_of :: "nametree \<Rightarrow> name option \<Rightarrow> fib_entry" where
  "fib_of nt k = (case k of
       None \<Rightarrow> s_emptyEntry
     | Some k \<Rightarrow> (case ent_fib (nt_entry_of nt k) of Some fe \<Rightarrow> fe | None \<Rightarrow> s_emptyEntry))"

definition Fib_findLongestPrefixMatch :: "(bytes \<Rightarrow> u64) \<Rightarrow> name \<Rightarrow> nametree \<Rightarrow> fib_entry" where
  "Fib_findLongestPrefixMatch city p nt =
     fib_of nt (NameTree_findLongestPrefixMatch city p hasFibEntry nt)"

definition Fib_findLongestPrefixMatch_nte :: "name \<Rightarrow> nametree \<Rightarrow> fib_entry" where
  "Fib_findLongestPrefixMatch_nte k nt =
     (case ent_fib (nt_entry_of nt k) of
        Some fe \<Rightarrow> fe
      | None \<Rightarrow> fib_of nt (NameTree_findLongestPrefixMatch_entry k hasFibEntry nt))"

definition Fib_findLongestPrefixMatch_pit :: "pit_ref \<Rightarrow> nametree \<Rightarrow> fib_entry" where
  "Fib_findLongestPrefixMatch_pit r nt = Fib_findLongestPrefixMatch_nte (fst r) nt"

definition Fib_findExactMatch :: "(bytes \<Rightarrow> u64) \<Rightarrow> name \<Rightarrow> nametree \<Rightarrow> fib_entry option" where
  "Fib_findExactMatch city p nt =
     (case NameTree_findExactMatch city p nt of
        Some k \<Rightarrow> ent_fib (nt_entry_of nt k)
      | None \<Rightarrow> None)"

definition Fib_insert ::
    "(bytes \<Rightarrow> u64) \<Rightarrow> name \<Rightarrow> nametree \<times> nat \<Rightarrow> (fib_entry \<times> bool) \<times> nametree \<times> nat" where
  "Fib_insert city p = (\<lambda>(nt, nItems).
     let (k, nt1) = NameTree_lookup city p nt
     in case ent_fib (nt_entry_of nt1 k) of
          Some fe \<Rightarrow> ((fe, False), nt1, nItems)
        | None \<Rightarrow> ((FibEntry_ctor p, True), setFibEntry k (Some (FibEntry_ctor p)) nt1, nItems + 1))"

text \<open>The counter \<open>m_nItems\<close> of the code is a \<open>size_t\<close> that would wrap around below 0; the number here stays 0. Both are the
  number of entries as long as the entry that is erased was counted.\<close>

definition Fib_erase_nte :: "name \<Rightarrow> nametree \<times> nat \<Rightarrow> nametree \<times> nat" where
  "Fib_erase_nte k = (\<lambda>(nt, nItems).
     (snd (NameTree_eraseEntryIfEmpty k (setFibEntry k None nt)), nItems - 1))"

definition Fib_erase :: "(bytes \<Rightarrow> u64) \<Rightarrow> name \<Rightarrow> nametree \<times> nat \<Rightarrow> nametree \<times> nat" where
  "Fib_erase city p s =
     (case NameTree_findExactMatch city p (fst s) of Some k \<Rightarrow> Fib_erase_nte k s | None \<Rightarrow> s)"

text \<open>The first loop removes the next hop everywhere and remembers the entries left without one;
  the second erases those.\<close>

definition Fib_removeNextHopFromAllEntries :: "face \<Rightarrow> nametree \<times> nat \<Rightarrow> nametree \<times> nat" where
  "Fib_removeNextHopFromAllEntries f = (\<lambda>(nt, nItems).
     let ks = NameTree_enumerateAll hasFibEntry nt;
         nt1 = fold (\<lambda>k t. nt_update k (\<lambda>e. e\<lparr>ent_fib := map_option (FibEntry_removeNextHop f) (ent_fib e)\<rparr>) t) ks nt;
         toErase = filter (\<lambda>k. fib_nextHops (fib_of nt1 (Some k)) = []) ks
     in fold Fib_erase_nte toErase (nt1, nItems))"

section \<open>Changing the attached entries\<close>

definition keeps_links :: "(nt_entry \<Rightarrow> nt_entry) \<Rightarrow> bool" where
  "keeps_links f \<longleftrightarrow> (\<forall>e. ent_hash (f e) = ent_hash e \<and> ent_parent (f e) = ent_parent e
     \<and> ent_children (f e) = ent_children e)"

lemma nt_update_store:
  "nt_store (nt_update k f nt) a = (if a = k then map_option f (nt_store nt a) else nt_store nt a)"
  by (simp add: nt_update_def)

lemma nt_update_dom [simp]: "dom (nt_store (nt_update k f nt)) = dom (nt_store nt)"
  by (auto simp: nt_update_store dom_def)

lemma nt_update_entry_of:
  "k \<in> dom (nt_store nt) \<Longrightarrow> nt_entry_of (nt_update k f nt) a = (if a = k then f (nt_entry_of nt a) else nt_entry_of nt a)"
  by (auto simp: nt_entry_of_def nt_update_store)

lemma nt_update_inv:
  assumes "nt_inv city \<tau> nt" "keeps_links f"
  shows "nt_inv city \<tau> (nt_update k f nt)"
proof -
  have h: "ent_hash (nt_entry_of (nt_update k f nt) a) = ent_hash (nt_entry_of nt a)" for a
    using assms(2) by (auto simp: nt_entry_of_def nt_update_store keeps_links_def split: option.splits)
  have "nt_table_inv city \<tau> (nt_update k f nt)"
    using assms(1) unfolding nt_inv_def nt_table_inv_def nt_update_dom h
    by (simp add: nt_update_def)
  moreover have "nt_links_inv (nt_store (nt_update k f nt))"
    unfolding nt_links_inv_def nt_update_dom
  proof (intro allI impI)
    fix a e assume "nt_store (nt_update k f nt) a = Some e"
    then obtain e0 where e0: "nt_store nt a = Some e0" "ent_parent e = ent_parent e0"
        "ent_children e = ent_children e0"
      using assms(2) by (auto simp: nt_update_store keeps_links_def split: if_splits)
    have "ent_parent e0 = (if a = [] then None else Some (butlast a)) \<and>
        (a \<noteq> [] \<longrightarrow> butlast a \<in> dom (nt_store nt)) \<and> distinct (ent_children e0) \<and>
        set (ent_children e0) = {c \<in> dom (nt_store nt). c \<noteq> [] \<and> butlast c = a}"
      using assms(1) e0(1) unfolding nt_inv_def nt_links_inv_def by blast
    then show "ent_parent e = (if a = [] then None else Some (butlast a)) \<and>
        (a \<noteq> [] \<longrightarrow> butlast a \<in> dom (nt_store nt)) \<and> distinct (ent_children e) \<and>
        set (ent_children e) = {c \<in> dom (nt_store nt). c \<noteq> [] \<and> butlast c = a}"
      unfolding e0(2,3) .
  qed
  ultimately show ?thesis by (simp add: nt_inv_def)
qed

lemma keeps_links_attach [simp]:
  "keeps_links (\<lambda>e. e\<lparr>ent_fib := fe e\<rparr>)" "keeps_links (\<lambda>e. e\<lparr>ent_pit := pe e\<rparr>)"
  "keeps_links (\<lambda>e. e\<lparr>ent_measurements := me e\<rparr>)" "keeps_links (\<lambda>e. e\<lparr>ent_strategy := se e\<rparr>)"
  by (simp_all add: keeps_links_def)

section \<open>What the tables rely on\<close>

text \<open>The contract between the name tree and a table that attaches a value to names: \<open>get\<close> is the
  attached value, \<open>dflt\<close> the value of a name that has none, \<open>other\<close> what the remaining tables see.\<close>

locale name_index =
  fixes invar :: "'nt \<Rightarrow> bool" and has :: "'nt \<Rightarrow> name \<Rightarrow> bool"
    and okname :: "name \<Rightarrow> bool" and room :: "'nt \<Rightarrow> name \<Rightarrow> bool"
    and lookup :: "name \<Rightarrow> 'nt \<Rightarrow> name \<times> 'nt" and erase :: "name \<Rightarrow> 'nt \<Rightarrow> 'nt"
    and get :: "'nt \<Rightarrow> name \<Rightarrow> 'v" and put :: "name \<Rightarrow> ('v \<Rightarrow> 'v) \<Rightarrow> 'nt \<Rightarrow> 'nt"
    and dflt :: 'v and other :: "'nt \<Rightarrow> 'o"
  assumes lookup_law: "invar nt \<Longrightarrow> okname p \<Longrightarrow> room nt p \<Longrightarrow>
      fst (lookup p nt) = p \<and> invar (snd (lookup p nt)) \<and> has (snd (lookup p nt)) p
      \<and> get (snd (lookup p nt)) = get nt \<and> other (snd (lookup p nt)) = other nt"
    and erase_law: "invar nt \<Longrightarrow> has nt k \<Longrightarrow>
      invar (erase k nt) \<and> get (erase k nt) = get nt \<and> other (erase k nt) = other nt"
    and put_law: "invar nt \<Longrightarrow> has nt k \<Longrightarrow>
      invar (put k f nt) \<and> has (put k f nt) k \<and> get (put k f nt) = (get nt)(k := f (get nt k))
      \<and> other (put k f nt) = other nt"
    and get_law: "get nt k \<noteq> dflt \<Longrightarrow> has nt k"
begin

lemma put_at:
  assumes "invar nt" "okname p" "room nt p"
  shows "invar (put p f (snd (lookup p nt)))"
    and "get (put p f (snd (lookup p nt))) = (get nt)(p := f (get nt p))"
    and "other (put p f (snd (lookup p nt))) = other nt"
    and "has (put p f (snd (lookup p nt))) p"
  using lookup_law [OF assms] put_law [of "snd (lookup p nt)" p f] by auto

lemma clear_at:
  assumes "invar nt" "has nt k"
  shows "invar (erase k (put k f nt))"
    and "get (erase k (put k f nt)) = (get nt)(k := f (get nt k))"
    and "other (erase k (put k f nt)) = other nt"
  using put_law [OF assms, of f] erase_law [of "put k f nt" k] by auto

lemma put_present:
  assumes "invar nt" "get nt k \<noteq> dflt"
  shows "invar (put k f nt)" "get (put k f nt) = (get nt)(k := f (get nt k))" "other (put k f nt) = other nt"
  using put_law [OF assms(1) get_law [OF assms(2)], of f] by auto

end

definition nt_erase :: "name \<Rightarrow> nametree \<Rightarrow> nametree" where
  "nt_erase k nt = snd (NameTree_eraseEntryIfEmpty k nt)"

definition nt_has :: "nametree \<Rightarrow> name \<Rightarrow> bool" where
  "nt_has nt k \<longleftrightarrow> k \<in> dom (nt_store nt)"

definition nt_room :: "nametree \<Rightarrow> name \<Rightarrow> bool" where
  "nt_room nt p \<longleftrightarrow> card (dom (nt_store nt)) + length p < 2 ^ 31"

definition fib_map :: "nametree \<Rightarrow> name \<Rightarrow> fib_entry option" where
  "fib_map nt k = fst (nt_tables nt k)"

definition pit_map :: "nametree \<Rightarrow> name \<Rightarrow> pit_entry list" where
  "pit_map nt k = fst (snd (nt_tables nt k))"

definition measurements_map :: "nametree \<Rightarrow> name \<Rightarrow> measurements_entry option" where
  "measurements_map nt k = fst (snd (snd (nt_tables nt k)))"

definition strategy_map :: "nametree \<Rightarrow> name \<Rightarrow> strategy_choice_entry option" where
  "strategy_map nt k = snd (snd (snd (nt_tables nt k)))"

lemmas table_maps = fib_map_def pit_map_def measurements_map_def strategy_map_def

lemma table_maps_cong:
  assumes "\<forall>k. nt_tables a k = nt_tables b k"
  shows "fib_map a = fib_map b" "pit_map a = pit_map b" "measurements_map a = measurements_map b"
    "strategy_map a = strategy_map b"
  using assms by (simp_all add: table_maps fun_eq_iff)

lemma table_maps_entry:
  assumes "k \<in> dom (nt_store nt)"
  shows "fib_map nt k = ent_fib (nt_entry_of nt k)" "pit_map nt k = ent_pit (nt_entry_of nt k)"
    "measurements_map nt k = ent_measurements (nt_entry_of nt k)"
    "strategy_map nt k = ent_strategy (nt_entry_of nt k)"
  using assms by (auto simp: table_maps nt_tables_def nt_entry_of_def)

lemma table_maps_absent:
  assumes "k \<notin> dom (nt_store nt)"
  shows "fib_map nt k = None" "pit_map nt k = []" "measurements_map nt k = None" "strategy_map nt k = None"
  using assms by (auto simp: table_maps nt_tables_def split: option.splits)

lemma table_maps_update:
  assumes "nt_has nt k"
  shows "fib_map (nt_update k (\<lambda>e. e\<lparr>ent_fib := f (ent_fib e)\<rparr>) nt) = (fib_map nt)(k := f (fib_map nt k))"
    and "pit_map (nt_update k (\<lambda>e. e\<lparr>ent_pit := g (ent_pit e)\<rparr>) nt) = (pit_map nt)(k := g (pit_map nt k))"
    and "measurements_map (nt_update k (\<lambda>e. e\<lparr>ent_measurements := m (ent_measurements e)\<rparr>) nt)
         = (measurements_map nt)(k := m (measurements_map nt k))"
    and "strategy_map (nt_update k (\<lambda>e. e\<lparr>ent_strategy := s (ent_strategy e)\<rparr>) nt)
         = (strategy_map nt)(k := s (strategy_map nt k))"
  using assms by (auto simp: table_maps nt_tables_def nt_update_store nt_has_def fun_eq_iff
      split: option.splits)

lemma table_maps_update_other:
  "pit_map (nt_update k (\<lambda>e. e\<lparr>ent_fib := f (ent_fib e)\<rparr>) nt) = pit_map nt"
  "measurements_map (nt_update k (\<lambda>e. e\<lparr>ent_fib := f (ent_fib e)\<rparr>) nt) = measurements_map nt"
  "strategy_map (nt_update k (\<lambda>e. e\<lparr>ent_fib := f (ent_fib e)\<rparr>) nt) = strategy_map nt"
  "fib_map (nt_update k (\<lambda>e. e\<lparr>ent_pit := g (ent_pit e)\<rparr>) nt) = fib_map nt"
  "measurements_map (nt_update k (\<lambda>e. e\<lparr>ent_pit := g (ent_pit e)\<rparr>) nt) = measurements_map nt"
  "strategy_map (nt_update k (\<lambda>e. e\<lparr>ent_pit := g (ent_pit e)\<rparr>) nt) = strategy_map nt"
  "fib_map (nt_update k (\<lambda>e. e\<lparr>ent_measurements := m (ent_measurements e)\<rparr>) nt) = fib_map nt"
  "pit_map (nt_update k (\<lambda>e. e\<lparr>ent_measurements := m (ent_measurements e)\<rparr>) nt) = pit_map nt"
  "strategy_map (nt_update k (\<lambda>e. e\<lparr>ent_measurements := m (ent_measurements e)\<rparr>) nt) = strategy_map nt"
  "fib_map (nt_update k (\<lambda>e. e\<lparr>ent_strategy := s (ent_strategy e)\<rparr>) nt) = fib_map nt"
  "pit_map (nt_update k (\<lambda>e. e\<lparr>ent_strategy := s (ent_strategy e)\<rparr>) nt) = pit_map nt"
  "measurements_map (nt_update k (\<lambda>e. e\<lparr>ent_strategy := s (ent_strategy e)\<rparr>) nt) = measurements_map nt"
  by (auto simp: table_maps nt_tables_def nt_update_store fun_eq_iff split: option.splits)

definition same_tables :: "nametree \<Rightarrow> nametree \<Rightarrow> bool" where
  "same_tables a b \<longleftrightarrow> fib_map a = fib_map b \<and> pit_map a = pit_map b
     \<and> measurements_map a = measurements_map b \<and> strategy_map a = strategy_map b"

lemma lookup_contract:
  assumes "nt_inv city \<tau> nt" "typed \<tau> p" "nt_room nt p"
  shows "fst (NameTree_lookup city p nt) = p" "nt_inv city \<tau> (snd (NameTree_lookup city p nt))"
    "nt_has (snd (NameTree_lookup city p nt)) p" "same_tables (snd (NameTree_lookup city p nt)) nt"
proof -
  from lookup_correct [OF assms(1,2)] assms(3) obtain nt' where
    l: "NameTree_lookup city p nt = (p, nt')" "nt_inv city \<tau> nt'"
    "dom (nt_store nt') = dom (nt_store nt) \<union> {k. prefix k p}" "\<forall>k. nt_tables nt' k = nt_tables nt k"
    by (auto simp: nt_room_def)
  have "p \<in> dom (nt_store nt')" unfolding l(3) by simp
  then show "fst (NameTree_lookup city p nt) = p" "nt_inv city \<tau> (snd (NameTree_lookup city p nt))"
    "nt_has (snd (NameTree_lookup city p nt)) p" "same_tables (snd (NameTree_lookup city p nt)) nt"
    using l(1,2) table_maps_cong [OF l(4)] by (simp_all add: nt_has_def same_tables_def)
qed

lemma erase_contract:
  assumes "nt_inv city \<tau> nt" "nt_has nt k"
  shows "nt_inv city \<tau> (nt_erase k nt)" "same_tables (nt_erase k nt) nt"
proof -
  note e = eraseEntryIfEmpty_correct [OF assms(1) assms(2)[unfolded nt_has_def]]
  have "\<forall>a. nt_tables (nt_erase k nt) a = nt_tables nt a" using e(3) by (simp add: nt_erase_def)
  from table_maps_cong [OF this] e(2)
  show "nt_inv city \<tau> (nt_erase k nt)" "same_tables (nt_erase k nt) nt"
    by (simp_all add: nt_erase_def same_tables_def)
qed

lemma has_contract:
  "fib_map nt k \<noteq> None \<Longrightarrow> nt_has nt k" "pit_map nt k \<noteq> [] \<Longrightarrow> nt_has nt k"
  "measurements_map nt k \<noteq> None \<Longrightarrow> nt_has nt k" "strategy_map nt k \<noteq> None \<Longrightarrow> nt_has nt k"
  by (rule ccontr, simp add: nt_has_def table_maps_absent)+

lemma nt_has_update [simp]: "nt_has (nt_update k f nt) = nt_has nt"
  by (simp add: nt_has_def fun_eq_iff)

lemmas index_laws = lookup_contract erase_contract same_tables_def table_maps_update
  table_maps_update_other nt_update_inv

interpretation fibs: name_index "nt_inv city \<tau>" nt_has "typed \<tau>" nt_room "NameTree_lookup city" nt_erase
    fib_map "\<lambda>k f. nt_update k (\<lambda>e. e\<lparr>ent_fib := f (ent_fib e)\<rparr>)" None
    "\<lambda>nt. (pit_map nt, measurements_map nt, strategy_map nt)" for city \<tau>
  using lookup_contract [of city \<tau>] erase_contract [of city \<tau>] has_contract
  by unfold_locales (simp_all add: index_laws)

interpretation pits: name_index "nt_inv city \<tau>" nt_has "typed \<tau>" nt_room "NameTree_lookup city" nt_erase
    pit_map "\<lambda>k f. nt_update k (\<lambda>e. e\<lparr>ent_pit := f (ent_pit e)\<rparr>)" "[]"
    "\<lambda>nt. (fib_map nt, measurements_map nt, strategy_map nt)" for city \<tau>
  using lookup_contract [of city \<tau>] erase_contract [of city \<tau>] has_contract
  by unfold_locales (simp_all add: index_laws)

interpretation strategies: name_index "nt_inv city \<tau>" nt_has "typed \<tau>" nt_room "NameTree_lookup city" nt_erase
    strategy_map "\<lambda>k f. nt_update k (\<lambda>e. e\<lparr>ent_strategy := f (ent_strategy e)\<rparr>)" None
    "\<lambda>nt. (fib_map nt, pit_map nt, measurements_map nt)" for city \<tau>
  using lookup_contract [of city \<tau>] erase_contract [of city \<tau>] has_contract
  by unfold_locales (simp_all add: index_laws)

interpretation measurements: name_index "nt_inv city \<tau>" nt_has "typed \<tau>" nt_room "NameTree_lookup city" nt_erase
    measurements_map "\<lambda>k f. nt_update k (\<lambda>e. e\<lparr>ent_measurements := f (ent_measurements e)\<rparr>)" None
    "\<lambda>nt. (fib_map nt, pit_map nt, strategy_map nt)" for city \<tau>
  using lookup_contract [of city \<tau>] erase_contract [of city \<tau>] has_contract
  by unfold_locales (simp_all add: index_laws)

section \<open>FIB operations\<close>

lemma Fib_insert_correct:
  assumes "nt_inv city \<tau> nt" "typed \<tau> p" "nt_room nt p"
  shows "\<exists>nt'. Fib_insert city p (nt, n) =
      (case fib_map nt p of
         Some fe \<Rightarrow> ((fe, False), nt', n)
       | None \<Rightarrow> ((FibEntry_ctor p, True), nt', n + 1)) \<and>
    nt_inv city \<tau> nt' \<and> pit_map nt' = pit_map nt \<and> strategy_map nt' = strategy_map nt \<and>
    fib_map nt' = (case fib_map nt p of Some _ \<Rightarrow> fib_map nt | None \<Rightarrow> (fib_map nt)(p \<mapsto> FibEntry_ctor p))"
proof -
  obtain nt1 where lk: "NameTree_lookup city p nt = (p, nt1)"
    using lookup_contract(1)[OF assms] by (metis prod.collapse)
  note l = lookup_contract(2-4)[OF assms, unfolded lk snd_conv]
  have e: "ent_fib (nt_entry_of nt1 p) = fib_map nt p"
    using l(2,3) table_maps_entry(1)[of p nt1] by (simp add: nt_has_def same_tables_def)
  show ?thesis
  proof (cases "fib_map nt p")
    case None
    then show ?thesis
      using fibs.put_at [OF assms, of "\<lambda>_. Some (FibEntry_ctor p)", unfolded lk snd_conv] e lk
      by (simp add: Fib_insert_def setFibEntry_def)
  next
    case (Some fe)
    then show ?thesis using e lk l by (simp add: Fib_insert_def same_tables_def)
  qed
qed

lemma Fib_erase_nte_correct:
  assumes "nt_inv city \<tau> nt" "nt_has nt k"
  shows "\<exists>nt'. Fib_erase_nte k (nt, n) = (nt', n - 1) \<and> nt_inv city \<tau> nt' \<and>
    fib_map nt' = (fib_map nt)(k := None) \<and> pit_map nt' = pit_map nt \<and> strategy_map nt' = strategy_map nt"
  using fibs.clear_at [OF assms, of "\<lambda>_. None"]
  by (simp add: Fib_erase_nte_def setFibEntry_def nt_erase_def)

lemma findExactMatch_has:
  assumes "nt_inv city \<tau> nt" "typed \<tau> p"
  shows "NameTree_findExactMatch city p nt = (if nt_has nt p then Some p else None)"
  using findExactMatch_correct [OF assms] by (simp add: nt_has_def)

lemma Fib_erase_correct:
  assumes "nt_inv city \<tau> nt" "typed \<tau> p"
  shows "nt_inv city \<tau> (fst (Fib_erase city p (nt, n)))"
    and "fib_map (fst (Fib_erase city p (nt, n))) = (fib_map nt)(p := None)"
    and "pit_map (fst (Fib_erase city p (nt, n))) = pit_map nt"
proof -
  have "nt_inv city \<tau> (fst (Fib_erase city p (nt, n))) \<and>
    fib_map (fst (Fib_erase city p (nt, n))) = (fib_map nt)(p := None) \<and>
    pit_map (fst (Fib_erase city p (nt, n))) = pit_map nt"
  proof (cases "nt_has nt p")
    case True
    then show ?thesis
      using Fib_erase_nte_correct [OF assms(1) True, of n] findExactMatch_has [OF assms]
      by (auto simp: Fib_erase_def)
  next
    case False
    then have "fib_map nt p = None" using has_contract(1)[of nt p] by blast
    then show ?thesis
      using False findExactMatch_has [OF assms] assms(1) by (auto simp: Fib_erase_def)
  qed
  then show "nt_inv city \<tau> (fst (Fib_erase city p (nt, n)))"
    and "fib_map (fst (Fib_erase city p (nt, n))) = (fib_map nt)(p := None)"
    and "pit_map (fst (Fib_erase city p (nt, n))) = pit_map nt" by auto
qed

text \<open>The specification of longest prefix match over the abstract FIB.\<close>

definition fib_lpm :: "(name \<Rightarrow> fib_entry option) \<Rightarrow> name \<Rightarrow> fib_entry" where
  "fib_lpm m p = (case find (\<lambda>k. m k \<noteq> None) (rev (prefixes p)) of
      None \<Rightarrow> s_emptyEntry | Some k \<Rightarrow> the (m k))"

lemma find_longest:
  assumes "P k" "prefix k p" "\<And>k'. prefix k' p \<Longrightarrow> P k' \<Longrightarrow> prefix k' k"
  shows "find P (rev (prefixes p)) = Some k"
proof -
  have "find P (rev (prefixes p)) \<noteq> None"
    using assms(1,2) by (auto simp: find_None_iff)
  then obtain k' where k': "find P (rev (prefixes p)) = Some k'" by blast
  from find_split [OF this] obtain as bs where s: "rev (prefixes p) = as @ k' # bs" "P k'" "filter P as = []"
    by (elim exE conjE)
  have "prefix k' p" using s(1) by (metis in_set_conv_decomp in_set_prefixes set_rev)
  then have kk: "prefix k' k" using assms(3) s(2) by blast
  have "k \<in> set (rev (prefixes p))" using assms(2) by simp
  then have "k \<in> set as \<or> k = k' \<or> k \<in> set bs" unfolding s(1) by auto
  moreover have "k \<notin> set as" using s(3) assms(1) by (auto simp: filter_empty_conv)
  moreover have "k = k'" if "k \<in> set bs"
  proof -
    have "prefixes p = rev bs @ k' # rev as" using s(1) by (metis append.assoc append_Cons append_Nil rev.simps(2) rev_append rev_rev_ident)
    moreover have "sorted_wrt strict_prefix (prefixes p)" by (induction p rule: rev_induct) (auto simp: sorted_wrt_append prefixes_snoc prefix_def strict_prefix_def)
    ultimately have "strict_prefix k k'" using that by (auto simp: sorted_wrt_append)
    with kk show ?thesis by auto
  qed
  ultimately have "k = k'" by blast
  with k' show ?thesis by simp
qed

lemma fib_match: "lpm_match hasFibEntry nt p k \<longleftrightarrow> prefix k p \<and> fib_map nt k \<noteq> None"
  by (auto simp: lpm_match_def hasFibEntry_def fib_map_def nt_tables_def nt_entry_of_def split: option.splits)

lemma fib_of_match: "fib_map nt k = Some fe \<Longrightarrow> fib_of nt (Some k) = fe"
  using has_contract(1)[of nt k] table_maps_entry(1)[of k nt]
  by (auto simp: fib_of_def nt_has_def split: option.split)

lemma fib_lpm_unique:
  assumes "case r of None \<Rightarrow> \<forall>k. \<not> lpm_match hasFibEntry nt p k
    | Some k \<Rightarrow> lpm_match hasFibEntry nt p k \<and> (\<forall>k'. lpm_match hasFibEntry nt p k' \<longrightarrow> prefix k' k)"
  shows "fib_of nt r = fib_lpm (fib_map nt) p"
proof (cases r)
  case None
  then have "find (\<lambda>k. fib_map nt k \<noteq> None) (rev (prefixes p)) = None"
    using assms by (auto simp: fib_match find_None_iff)
  then show ?thesis by (simp add: fib_lpm_def None fib_of_def)
next
  case (Some k)
  then have "find (\<lambda>k. fib_map nt k \<noteq> None) (rev (prefixes p)) = Some k"
    using assms by (intro find_longest) (auto simp: fib_match)
  then show ?thesis
    using Some assms fib_of_match by (auto simp: fib_lpm_def fib_match)
qed

lemma Fib_findLongestPrefixMatch_spec:
  assumes "nt_inv city \<tau> nt" "typed \<tau> p" "prefix_hashes_distinct city p"
  shows "Fib_findLongestPrefixMatch city p nt = fib_lpm (fib_map nt) p"
  unfolding Fib_findLongestPrefixMatch_def
proof (rule fib_lpm_unique)
  show "case NameTree_findLongestPrefixMatch city p hasFibEntry nt of
      None \<Rightarrow> \<forall>k. \<not> lpm_match hasFibEntry nt p k
    | Some k \<Rightarrow> lpm_match hasFibEntry nt p k \<and> (\<forall>k'. lpm_match hasFibEntry nt p k' \<longrightarrow> prefix k' k)"
  proof (cases "NameTree_findLongestPrefixMatch city p hasFibEntry nt")
    case None
    then show ?thesis using findLongestPrefixMatch_some [OF assms(1,2), of hasFibEntry] by simp
  next
    case (Some k)
    then have k: "lpm_match hasFibEntry nt p k"
      using findLongestPrefixMatch_some [OF assms(1,2), of hasFibEntry] by simp
    have "prefix k' k" if "lpm_match hasFibEntry nt p k'" for k'
      using findLongestPrefixMatch_longest [OF assms Some that] that k
      by (auto simp: lpm_match_def intro: prefix_length_prefix)
    with k Some show ?thesis by simp
  qed
qed

lemma Fib_findLongestPrefixMatch_pit_spec:
  assumes "nt_inv city \<tau> nt" "nt_has nt (fst r)"
  shows "Fib_findLongestPrefixMatch_pit r nt = fib_lpm (fib_map nt) (fst r)"
proof -
  let ?k = "fst r"
  have u: "fib_of nt (NameTree_findLongestPrefixMatch_entry ?k hasFibEntry nt) = fib_lpm (fib_map nt) ?k"
    using findLongestPrefixMatch_entry_correct [OF assms(1), of ?k hasFibEntry] assms(2)
    by (intro fib_lpm_unique) (simp add: nt_has_def)
  have e: "fib_map nt ?k = ent_fib (nt_entry_of nt ?k)"
    using assms(2) table_maps_entry(1)[of ?k nt] by (simp add: nt_has_def)
  show ?thesis
  proof (cases "ent_fib (nt_entry_of nt ?k)")
    case None
    then show ?thesis using u by (simp add: Fib_findLongestPrefixMatch_pit_def Fib_findLongestPrefixMatch_nte_def)
  next
    case (Some fe)
    then have "find (\<lambda>k. fib_map nt k \<noteq> None) (rev (prefixes ?k)) = Some ?k"
      using e by (intro find_longest) auto
    then show ?thesis
      using Some e by (simp add: Fib_findLongestPrefixMatch_pit_def Fib_findLongestPrefixMatch_nte_def fib_lpm_def)
  qed
qed

section \<open>Removing a face from the FIB\<close>

lemma fold_fib_update:
  fixes g :: "fib_entry option \<Rightarrow> fib_entry option"
  assumes "nt_inv city \<tau> nt" "distinct ks" "\<forall>k \<in> set ks. nt_has nt k"
  shows "let nt' = fold (\<lambda>k t. nt_update k (\<lambda>e. e\<lparr>ent_fib := g (ent_fib e)\<rparr>) t) ks nt in
    nt_inv city \<tau> nt' \<and> nt_has nt' = nt_has nt \<and> pit_map nt' = pit_map nt \<and> strategy_map nt' = strategy_map nt \<and>
    fib_map nt' = (\<lambda>k. if k \<in> set ks then g (fib_map nt k) else fib_map nt k)"
  using assms unfolding Let_def
proof (induction ks arbitrary: nt)
  case (Cons k ks)
  let ?n = "nt_update k (\<lambda>e. e\<lparr>ent_fib := g (ent_fib e)\<rparr>) nt"
  have k: "nt_has nt k" using Cons.prems by simp
  have n: "nt_inv city \<tau> ?n" "fib_map ?n = (fib_map nt)(k := g (fib_map nt k))" "pit_map ?n = pit_map nt"
    "strategy_map ?n = strategy_map nt"
    using fibs.put_law [OF Cons.prems(1) k, of g] by auto
  show ?case
    using Cons.IH [OF n(1)] Cons.prems(2,3) n(2-4) by (auto simp: fun_eq_iff)
qed simp

lemma fold_fib_erase:
  assumes "nt_inv city \<tau> nt" "distinct ks" "\<forall>k \<in> set ks. fib_map nt k \<noteq> None"
  shows "\<exists>nt'. fold Fib_erase_nte ks (nt, n) = (nt', n - length ks) \<and> nt_inv city \<tau> nt' \<and>
    pit_map nt' = pit_map nt \<and> strategy_map nt' = strategy_map nt \<and>
    fib_map nt' = (\<lambda>k. if k \<in> set ks then None else fib_map nt k)"
  using assms
proof (induction ks arbitrary: nt n)
  case (Cons k ks)
  have "nt_has nt k" using Cons.prems(3) has_contract(1) by simp
  from Fib_erase_nte_correct [OF Cons.prems(1) this, of n] obtain nt1 where
    n1: "Fib_erase_nte k (nt, n) = (nt1, n - 1)" "nt_inv city \<tau> nt1"
      "fib_map nt1 = (fib_map nt)(k := None)" "pit_map nt1 = pit_map nt" "strategy_map nt1 = strategy_map nt" by blast
  have "\<forall>a \<in> set ks. fib_map nt1 a \<noteq> None" using Cons.prems(2,3) n1(3) by auto
  from Cons.IH [OF n1(2) _ this, of "n - 1"] Cons.prems(2) obtain nt' where
    "fold Fib_erase_nte ks (nt1, n - 1) = (nt', n - 1 - length ks)" "nt_inv city \<tau> nt'"
    "pit_map nt' = pit_map nt1" "strategy_map nt' = strategy_map nt1"
    "fib_map nt' = (\<lambda>k. if k \<in> set ks then None else fib_map nt1 k)" by auto
  then show ?case using n1 by (auto simp: fun_eq_iff)
qed simp

definition fib_remove_face :: "face \<Rightarrow> fib_entry option \<Rightarrow> fib_entry option" where
  "fib_remove_face f m = (case m of None \<Rightarrow> None
     | Some fe \<Rightarrow> (let fe' = FibEntry_removeNextHop f fe in if fib_nextHops fe' = [] then None else Some fe'))"

text \<open>Afterwards no next hop uses the face, the entries left without next hop are gone, and nothing
  else changed.\<close>

lemma removeNextHopFromAllEntries_correct:
  assumes "nt_inv city \<tau> nt"
  shows "\<exists>nt' n'. Fib_removeNextHopFromAllEntries f (nt, n) = (nt', n') \<and> nt_inv city \<tau> nt' \<and>
    pit_map nt' = pit_map nt \<and> strategy_map nt' = strategy_map nt \<and> fib_map nt' = (\<lambda>k. fib_remove_face f (fib_map nt k))"
proof -
  define ks where "ks = NameTree_enumerateAll hasFibEntry nt"
  have ks: "set ks = {k. fib_map nt k \<noteq> None}" "distinct ks"
    using enumerateAll_set [OF assms, of hasFibEntry]
    by (auto simp: ks_def hasFibEntry_def fib_map_def nt_tables_def nt_entry_of_def split: option.splits)
  define nt1 where "nt1 = fold (\<lambda>k t. nt_update k
     (\<lambda>e. e\<lparr>ent_fib := map_option (FibEntry_removeNextHop f) (ent_fib e)\<rparr>) t) ks nt"
  have "\<forall>k \<in> set ks. nt_has nt k" using ks(1) has_contract(1) by auto
  from fold_fib_update [OF assms ks(2) this, of "map_option (FibEntry_removeNextHop f)"]
  have n1: "nt_inv city \<tau> nt1" "pit_map nt1 = pit_map nt \<and> strategy_map nt1 = strategy_map nt"
    "fib_map nt1 = (\<lambda>k. map_option (FibEntry_removeNextHop f) (fib_map nt k))"
    by (auto simp: nt1_def ks(1) fun_eq_iff Let_def)
  define er where "er = filter (\<lambda>k. fib_nextHops (fib_of nt1 (Some k)) = []) ks"
  have er: "k \<in> set er \<longleftrightarrow> (\<exists>fe. fib_map nt k = Some fe \<and> fib_nextHops (FibEntry_removeNextHop f fe) = [])" for k
    using fib_of_match [of nt1 k] by (auto simp: er_def ks(1) n1(3))
  have "\<forall>k \<in> set er. fib_map nt1 k \<noteq> None" by (auto simp: er n1(3))
  moreover have "distinct er" using ks(2) by (simp add: er_def)
  ultimately obtain nt' where nt': "fold Fib_erase_nte er (nt1, n) = (nt', n - length er)" "nt_inv city \<tau> nt'"
    "pit_map nt' = pit_map nt1 \<and> strategy_map nt' = strategy_map nt1"
    "fib_map nt' = (\<lambda>k. if k \<in> set er then None else fib_map nt1 k)"
    using fold_fib_erase [OF n1(1)] by blast
  have "fib_map nt' k = fib_remove_face f (fib_map nt k)" for k
    by (auto simp: nt'(4) er n1(3) fib_remove_face_def Let_def split: option.split)
  then show ?thesis
    using nt' n1(2) by (simp add: Fib_removeNextHopFromAllEntries_def flip: ks_def nt1_def er_def)
qed

section \<open>PIT operations\<close>

definition pit_selectors :: "pit_entry \<Rightarrow> selectors" where
  "pit_selectors pe = int_selectors (pit_interest pe)"

text \<open>The PIT entries at a name are for that name, and their selectors tell them apart.\<close>

definition pit_inv :: "nametree \<Rightarrow> bool" where
  "pit_inv nt \<longleftrightarrow> (\<forall>k. distinct (map pit_selectors (pit_map nt k)) \<and>
     (\<forall>pe \<in> set (pit_map nt k). int_name (pit_interest pe) = k \<and> selectors_wf (pit_selectors pe)
        \<and> pit_entry_inv pe))"

lemma selectors_same_iff: "selectors_wf a \<Longrightarrow> selectors_wf b \<Longrightarrow> selectors_same a b \<longleftrightarrow> a = b"
  by (simp add: selectors_same_def Selectors_equals_iff)

lemma pit_at_map: "pit_at (k, s) nt = find (\<lambda>pe. pit_selectors pe = s) (pit_map nt k)"
  by (auto simp: pit_at_def pit_selectors_def pit_map_def nt_tables_def nt_entry_of_def NtEntry_ctor_def
      split: option.splits)

lemma PitEntry_ctor_selectors [simp]:
  "pit_selectors (PitEntry_ctor i) = int_selectors i" "pit_interest (PitEntry_ctor i) = i"
  by (simp_all add: pit_selectors_def PitEntry_ctor_def)

lemma Pit_insert_correct:
  assumes inv: "nt_inv city \<tau> nt" "pit_inv nt"
    and i: "typed \<tau> (int_name i)" "nt_room nt (int_name i)" "selectors_wf (int_selectors i)"
  defines "r \<equiv> (int_name i, int_selectors i)"
  shows "\<exists>nt'. Pit_insert city i (nt, n) =
      (if pit_at r nt = None then ((r, True), nt', n + 1) else ((r, False), nt', n)) \<and>
    nt_inv city \<tau> nt' \<and> pit_inv nt' \<and> fib_map nt' = fib_map nt \<and> strategy_map nt' = strategy_map nt \<and>
    pit_map nt' = (if pit_at r nt = None then (pit_map nt)(int_name i := pit_map nt (int_name i) @ [PitEntry_ctor i])
                   else pit_map nt)"
proof -
  let ?p = "int_name i"
  obtain nt1 where lk: "NameTree_lookup city ?p nt = (?p, nt1)"
    using lookup_contract(1)[OF inv(1) i(1,2)] by (metis prod.collapse)
  note l = lookup_contract(2-4)[OF inv(1) i(1,2), unfolded lk snd_conv]
  have e: "ent_pit (nt_entry_of nt1 ?p) = pit_map nt ?p"
    using l(2,3) table_maps_entry(2)[of ?p nt1] by (simp add: nt_has_def same_tables_def)
  have fnd: "find (\<lambda>pe. Name_equals (int_name (pit_interest pe)) ?p
        \<and> selectors_same (int_selectors (pit_interest pe)) (int_selectors i)) (pit_map nt ?p) = pit_at r nt"
    unfolding r_def pit_at_map
  proof (rule find_cong [OF refl])
    fix pe assume "pe \<in> set (pit_map nt ?p)"
    then have "int_name (pit_interest pe) = ?p" "selectors_wf (pit_selectors pe)" using inv(2) by (auto simp: pit_inv_def)
    then show "(Name_equals (int_name (pit_interest pe)) ?p \<and> selectors_same (int_selectors (pit_interest pe)) (int_selectors i))
      = (pit_selectors pe = int_selectors i)"
      using i(3) by (simp add: Name_equals_iff selectors_same_iff pit_selectors_def)
  qed
  show ?thesis
  proof (cases "pit_at r nt")
    case None
    let ?f = "\<lambda>es. es @ [PitEntry_ctor i]"
    note p = pits.put_at [OF inv(1) i(1,2), of ?f, unfolded lk snd_conv]
    have "int_selectors i \<notin> pit_selectors ` set (pit_map nt ?p)"
      using None unfolding r_def pit_at_map by (auto simp: find_None_iff)
    then have "pit_inv (nt_update ?p (\<lambda>e. e\<lparr>ent_pit := ent_pit e @ [PitEntry_ctor i]\<rparr>) nt1)"
      using inv(2) i(3) by (auto simp: pit_inv_def p(2))
    then show ?thesis
      using None p e lk fnd by (simp add: Pit_insert_def insertPitEntry_def r_def)
  next
    case (Some pe)
    then have "pit_selectors pe = int_selectors i" unfolding r_def pit_at_map by (auto dest: find_Some_set)
    moreover have "pit_inv nt1" using inv(2) l(3) by (simp add: pit_inv_def same_tables_def)
    ultimately show ?thesis
      using Some e lk l fnd by (simp add: Pit_insert_def r_def same_tables_def pit_selectors_def)
  qed
qed

lemma Pit_erase_correct:
  assumes inv: "nt_inv city \<tau> nt" "pit_inv nt" and pe: "pit_at (k, s) nt = Some pe"
  shows "\<exists>nt'. Pit_erase (k, s) (nt, n) = (nt', n - 1) \<and> nt_inv city \<tau> nt' \<and> pit_inv nt' \<and>
    fib_map nt' = fib_map nt \<and> strategy_map nt' = strategy_map nt \<and>
    pit_map nt' = (pit_map nt)(k := swap_remove pe (pit_map nt k))"
proof -
  have mem: "pe \<in> set (pit_map nt k)" "pit_selectors pe = s"
    using pe unfolding pit_at_map by (auto dest: find_Some_set)
  then have has: "nt_has nt k" by (intro has_contract(2)) auto
  let ?g = "\<lambda>es. case find (\<lambda>pe. pit_selectors pe = s) es of None \<Rightarrow> es | Some pe \<Rightarrow> swap_remove pe es"
  have f: "(\<lambda>e. case find (\<lambda>pe. int_selectors (pit_interest pe) = s) (ent_pit e) of
       None \<Rightarrow> e | Some pe \<Rightarrow> e\<lparr>ent_pit := swap_remove pe (ent_pit e)\<rparr>)
    = (\<lambda>e. e\<lparr>ent_pit := ?g (ent_pit e)\<rparr>)"
    by (auto simp: fun_eq_iff pit_selectors_def split: option.split)
  note c = pits.clear_at [OF inv(1) has, of ?g]
  have pm: "pit_map (nt_erase k (nt_update k (\<lambda>e. e\<lparr>ent_pit := ?g (ent_pit e)\<rparr>) nt))
      = (pit_map nt)(k := swap_remove pe (pit_map nt k))"
    using c(2) pe unfolding pit_at_map by simp
  have d: "distinct (pit_map nt k)" using inv(2) by (auto simp: pit_inv_def distinct_map)
  have "distinct (map pit_selectors (swap_remove pe (pit_map nt k)))"
    using inv(2) swap_remove_set [OF d, of pe] by (auto simp: pit_inv_def distinct_map inj_on_def)
  then have "pit_inv (nt_erase k (nt_update k (\<lambda>e. e\<lparr>ent_pit := ?g (ent_pit e)\<rparr>) nt))"
    using inv(2) swap_remove_set(1)[OF d, of pe] unfolding pit_inv_def pm by auto
  then show ?thesis
    using c pm by (simp add: Pit_erase_def erasePitEntry_def f nt_erase_def)
qed

lemma find_same:
  assumes "\<And>x y. x \<in> set ys \<Longrightarrow> P x \<Longrightarrow> y \<in> set ys \<Longrightarrow> P y \<Longrightarrow> x = y"
    and "\<And>x. P x \<Longrightarrow> x \<in> set xs \<longleftrightarrow> x \<in> set ys"
  shows "find P xs = find P ys"
proof (cases "find P xs")
  case None
  then have "find P ys = None" using assms(2) by (auto simp: find_None_set)
  with None show ?thesis by simp
next
  case (Some x)
  then have x: "x \<in> set xs" "P x" by (auto dest: find_Some_set)
  then obtain y where y: "find P ys = Some y" using assms(2) by (cases "find P ys") (auto simp: find_None_set)
  then have "x = y" using x assms find_Some_set [OF y] by auto
  then show ?thesis using Some y by simp
qed

lemma pit_at_erase:
  assumes "pit_inv nt" "pit_at (k, s) nt = Some pe" "pit_map nt' = (pit_map nt)(k := swap_remove pe (pit_map nt k))"
  shows "pit_at r nt' = (if r = (k, s) then None else pit_at r nt)"
proof -
  obtain k' s' where r: "r = (k', s')" by (cases r)
  have d: "distinct (map pit_selectors (pit_map nt k))" "distinct (pit_map nt k)"
    using assms(1) by (auto simp: pit_inv_def distinct_map)
  have mem: "pe \<in> set (pit_map nt k)" "pit_selectors pe = s"
    using assms(2) unfolding pit_at_map by (auto dest: find_Some_set)
  note sr = swap_remove_set [OF d(2), of pe]
  have uniq: "x = pe" if "x \<in> set (pit_map nt k)" "pit_selectors x = s" for x
    using d(1) mem that by (auto simp: distinct_map inj_on_def)
  have "find (\<lambda>pe. pit_selectors pe = s') (swap_remove pe (pit_map nt k))
      = (if s' = s then None else find (\<lambda>pe. pit_selectors pe = s') (pit_map nt k))"
  proof (cases "s' = s")
    case True
    then show ?thesis using sr(1) uniq by (auto simp: find_None_set)
  next
    case False
    have "find (\<lambda>pe. pit_selectors pe = s') (swap_remove pe (pit_map nt k))
        = find (\<lambda>pe. pit_selectors pe = s') (pit_map nt k)"
      using d(1) sr(1) mem False by (intro find_same) (auto simp: distinct_map inj_on_def)
    then show ?thesis using False by simp
  qed
  then show ?thesis
    unfolding r pit_at_map assms(3) by (auto simp: fun_upd_def)
qed

section \<open>Matching Data\<close>

lemma pit_match: "lpm_match (\<lambda>_ e. ent_pit e \<noteq> []) nt p k \<longleftrightarrow> prefix k p \<and> pit_map nt k \<noteq> []"
  by (auto simp: lpm_match_def pit_map_def nt_tables_def nt_entry_of_def split: option.splits)

lemma findAllDataMatches_mem:
  assumes "nt_inv city \<tau> nt" "typed \<tau> (data_name d)" "prefix_hashes_distinct city (data_name d)"
  shows "(k, s) \<in> set (Pit_findAllDataMatches city sha256 d nt) \<longleftrightarrow>
    prefix k (data_name d) \<and>
    (\<exists>pe \<in> set (pit_map nt k). pit_selectors pe = s \<and> Interest_matchesData sha256 (pit_interest pe) d)"
proof -
  note m = findAllMatches_correct(1)[OF assms, of "\<lambda>_ e. ent_pit e \<noteq> []"]
  have e: "ent_pit (nt_entry_of nt a) = pit_map nt a" for a
    by (auto simp: pit_map_def nt_tables_def nt_entry_of_def NtEntry_ctor_def split: option.splits)
  show ?thesis
    unfolding Pit_findAllDataMatches_def set_concat set_map m pit_match e
    by (auto simp: pit_selectors_def)
qed

lemma matchesData_prefix:
  assumes "Interest_matchesData sha256 i d" "typed \<tau> (int_name i)" "typed \<tau> (data_name d)"
  shows "prefix (int_name i) (data_name d) \<or> length (int_name i) = length (data_name d) + 1"
  using assms Name_isPrefixOf_typed [OF assms(2,3)]
  by (auto simp: Interest_matchesData_def Let_def split: if_splits)

text \<open>Every matching entry is found, except those whose name ends with the implicit digest.\<close>

lemma findAllDataMatches_complete:
  assumes "nt_inv city \<tau> nt" "pit_inv nt" "typed \<tau> (data_name d)" "prefix_hashes_distinct city (data_name d)"
    and "pe \<in> set (pit_map nt k)" "Interest_matchesData sha256 (pit_interest pe) d"
  shows "(k, pit_selectors pe) \<in> set (Pit_findAllDataMatches city sha256 d nt)
    \<longleftrightarrow> length k \<noteq> length (data_name d) + 1"
proof -
  have n: "int_name (pit_interest pe) = k" using assms(2,5) by (auto simp: pit_inv_def)
  have "nt_has nt k" using assms(5) by (intro has_contract(2)) auto
  then have "typed \<tau> k" using assms(1) table_facts(4)[of city \<tau> nt k] unfolding nt_inv_def nt_has_def by blast
  then have "prefix k (data_name d) \<or> length k = length (data_name d) + 1"
    using matchesData_prefix [OF assms(6), of \<tau>] assms(3) n by simp
  moreover have "\<not> (prefix k (data_name d) \<and> length k = length (data_name d) + 1)"
    by (auto dest: prefix_length_le)
  ultimately show ?thesis
    using findAllDataMatches_mem [OF assms(1,3,4), of k "pit_selectors pe" sha256] assms(5,6) by auto
qed

end
