(* ===== verification/SubTree.thy ===== *)
theory SubTree
  imports PitFib "HOL-Library.Monad_Syntax"
begin

text \<open>
  The traversal of a part of the name tree, \<open>NameTree::partialEnumerate\<close> of
  \<open>NFD/daemon/table/name-tree.cpp\<close>, which climbs back through siblings and parents without a stack.
  Its loops are partial functions; they are shown to end and to visit the selected entries in
  pre-order.
\<close>

section \<open>Traversing a subtree\<close>

text \<open>An iterator is the entry it is at and whether its children are to be visited. A selector says
  whether to accept an entry and whether to visit its children.\<close>

type_synonym subtree_selector = "name \<Rightarrow> nt_entry \<Rightarrow> bool \<times> bool"

abbreviation children_of :: "nametree \<Rightarrow> name \<Rightarrow> name list" where
  "children_of nt k \<equiv> ent_children (nt_entry_of nt k)"

definition partial_visit :: "subtree_selector \<Rightarrow> nametree \<Rightarrow> name \<Rightarrow> (name \<times> bool) \<times> bool" where
  "partial_visit sel nt c =
     (let result = sel c (nt_entry_of nt c)
      in ((c, snd result \<and> children_of nt c \<noteq> []), fst result))"

partial_function (option) partial_loop ::
    "subtree_selector \<Rightarrow> nametree \<Rightarrow> name \<Rightarrow> name \<times> bool \<Rightarrow> (name \<times> bool) option option" where
  "partial_loop sel nt subTreeRoot s =
     (let (k, shouldVisitChildren) = s
      in if k = subTreeRoot then Some None
         else if shouldVisitChildren then
           (let (s', accepted) = partial_visit sel nt (hd (children_of nt k))
            in if accepted then Some (Some s') else partial_loop sel nt subTreeRoot s')
         else
           (let parent = (case ent_parent (nt_entry_of nt k) of Some p \<Rightarrow> p | None \<Rightarrow> k);
                siblings = children_of nt parent;
                i = length (takeWhile (\<lambda>x. x \<noteq> k) siblings)
            in if i < length siblings - 1 then
                 (let (s', accepted) = partial_visit sel nt (siblings ! (i + 1))
                  in if accepted then Some (Some s') else partial_loop sel nt subTreeRoot s')
               else partial_loop sel nt subTreeRoot (parent, False)))"

definition partial_next ::
    "subtree_selector \<Rightarrow> nametree \<Rightarrow> name \<Rightarrow> name \<times> bool \<Rightarrow> (name \<times> bool) option option" where
  "partial_next sel nt subTreeRoot s =
     (let (k, shouldVisitChildren) = s
      in if k = subTreeRoot \<and> shouldVisitChildren then
           (let (s', accepted) = partial_visit sel nt (hd (children_of nt k))
            in if accepted then Some (Some s') else partial_loop sel nt subTreeRoot s')
         else partial_loop sel nt subTreeRoot s)"

text \<open>The range from an iterator to \<open>end()\<close>.\<close>

partial_function (option) partial_range ::
    "subtree_selector \<Rightarrow> nametree \<Rightarrow> name \<Rightarrow> (name \<times> bool) option \<Rightarrow> name list option" where
  "partial_range sel nt subTreeRoot it =
     (if it = None then Some []
      else do { it' \<leftarrow> partial_next sel nt subTreeRoot (the it);
                ks \<leftarrow> partial_range sel nt subTreeRoot it';
                Some (fst (the it) # ks) })"

definition NameTree_partialEnumerate ::
    "(bytes \<Rightarrow> u64) \<Rightarrow> name \<Rightarrow> subtree_selector \<Rightarrow> nametree \<Rightarrow> name list option" where
  "NameTree_partialEnumerate city pfx sel nt =
     (case NameTree_findExactMatch city pfx nt of
        None \<Rightarrow> Some []
      | Some entry \<Rightarrow>
          (let (s, accepted) = partial_visit sel nt entry
           in if accepted then partial_range sel nt entry (Some s)
              else do { it \<leftarrow> partial_next sel nt entry s; partial_range sel nt entry it }))"

section \<open>Pre-order\<close>

text \<open>The selected entries of a subtree in pre-order; the number bounds the depth.\<close>

fun preorder :: "nat \<Rightarrow> subtree_selector \<Rightarrow> nametree \<Rightarrow> name \<Rightarrow> name list" where
  "preorder 0 sel nt k = []"
| "preorder (Suc d) sel nt k =
     (if fst (sel k (nt_entry_of nt k)) then [k] else []) @
     (if snd (sel k (nt_entry_of nt k)) then concat (map (preorder d sel nt) (children_of nt k)) else [])"

fun subtree_size :: "nat \<Rightarrow> nametree \<Rightarrow> name \<Rightarrow> nat" where
  "subtree_size 0 nt k = 0"
| "subtree_size (Suc d) nt k = Suc (sum_list (map (subtree_size d nt) (children_of nt k)))"

definition nt_depth :: "nametree \<Rightarrow> nat" where
  "nt_depth nt = Suc (Max (insert 0 (length ` dom (nt_store nt))))"

definition pre :: "subtree_selector \<Rightarrow> nametree \<Rightarrow> name \<Rightarrow> name list" where
  "pre sel nt k = preorder (nt_depth nt - length k) sel nt k"

definition tree_size :: "nametree \<Rightarrow> name \<Rightarrow> nat" where
  "tree_size nt k = subtree_size (nt_depth nt - length k) nt k"

lemma links:
  assumes "nt_inv city \<tau> nt" "k \<in> dom (nt_store nt)"
  shows "ent_parent (nt_entry_of nt k) = (if k = [] then None else Some (butlast k))"
    "k \<noteq> [] \<Longrightarrow> butlast k \<in> dom (nt_store nt)" "distinct (children_of nt k)"
    "set (children_of nt k) = {c \<in> dom (nt_store nt). c \<noteq> [] \<and> butlast c = k}"
  using assms nt_store_entry_of [OF assms(2)] unfolding nt_inv_def nt_links_inv_def by blast+

lemma depth_less:
  assumes "nt_inv city \<tau> nt" "k \<in> dom (nt_store nt)"
  shows "length k < nt_depth nt"
proof -
  have "finite (dom (nt_store nt))" using assms(1) by (simp add: nt_inv_def nt_table_inv_def)
  then show ?thesis using assms(2) unfolding nt_depth_def by (intro le_imp_less_Suc Max_ge) auto
qed

lemma child_length:
  assumes "nt_inv city \<tau> nt" "k \<in> dom (nt_store nt)" "c \<in> set (children_of nt k)"
  shows "length c = Suc (length k)" "c \<in> dom (nt_store nt)" "butlast c = k" "c \<noteq> []"
  using assms(3) unfolding links(4) [OF assms(1,2)] by auto

lemma pre_unfold:
  assumes "nt_inv city \<tau> nt" "k \<in> dom (nt_store nt)"
  shows "pre sel nt k = (if fst (sel k (nt_entry_of nt k)) then [k] else []) @
     (if snd (sel k (nt_entry_of nt k)) then concat (map (pre sel nt) (children_of nt k)) else [])"
    and "tree_size nt k = Suc (sum_list (map (tree_size nt) (children_of nt k)))"
proof -
  obtain d where d: "nt_depth nt - length k = Suc d" using depth_less [OF assms] by (metis Suc_diff_Suc)
  then have eq: "nt_depth nt - length c = d" if "c \<in> set (children_of nt k)" for c
    using child_length(1) [OF assms that] by simp
  have "map (pre sel nt) (children_of nt k) = map (preorder d sel nt) (children_of nt k)"
    using eq by (auto simp: pre_def)
  note m = this
  show "pre sel nt k = (if fst (sel k (nt_entry_of nt k)) then [k] else []) @
     (if snd (sel k (nt_entry_of nt k)) then concat (map (pre sel nt) (children_of nt k)) else [])"
    unfolding m by (simp add: pre_def d)
  have "map (tree_size nt) (children_of nt k) = map (subtree_size d nt) (children_of nt k)"
    using eq by (auto simp: tree_size_def)
  note m2 = this
  show "tree_size nt k = Suc (sum_list (map (tree_size nt) (children_of nt k)))"
    unfolding m2 by (simp add: tree_size_def d)
qed

text \<open>What an iterator at \<open>k\<close> has still to visit: the children of \<open>k\<close> if asked for, then the
  subtrees of the later siblings of \<open>k\<close> and of its ancestors below the root.\<close>

definition later_siblings :: "nametree \<Rightarrow> name \<Rightarrow> name list" where
  "later_siblings nt k = tl (dropWhile (\<lambda>x. x \<noteq> k) (children_of nt (butlast k)))"

fun rest_of :: "(name \<Rightarrow> 'a list) \<Rightarrow> nametree \<Rightarrow> nat \<Rightarrow> name \<Rightarrow> 'a list" where
  "rest_of f nt 0 k = []"
| "rest_of f nt (Suc n) k = concat (map f (later_siblings nt k)) @ rest_of f nt n (butlast k)"

definition pending :: "(name \<Rightarrow> 'a list) \<Rightarrow> nametree \<Rightarrow> name \<Rightarrow> name \<times> bool \<Rightarrow> 'a list" where
  "pending f nt root s = (if snd s then concat (map f (children_of nt (fst s))) else []) @
     rest_of f nt (length (fst s) - length root) (fst s)"

definition it_ok :: "nametree \<Rightarrow> name \<Rightarrow> name \<times> bool \<Rightarrow> bool" where
  "it_ok nt root s \<longleftrightarrow> fst s \<in> dom (nt_store nt) \<and> prefix root (fst s) \<and>
     (snd s \<longrightarrow> children_of nt (fst s) \<noteq> [])"

lemma prefix_child: "prefix root k \<Longrightarrow> butlast c = k \<Longrightarrow> c \<noteq> [] \<Longrightarrow> prefix root c"
  by (metis append_butlast_last_id prefix_prefix)

text \<open>Going to the next entry: the first child, or the next sibling.\<close>

lemma pending_child:
  assumes "nt_inv city \<tau> nt" "it_ok nt root (k, True)" "c = hd (children_of nt k)"
  shows "pending f nt root (k, True) = f c @ rest_of f nt (length c - length root) c"
    "c \<in> dom (nt_store nt)" "prefix root c" "c \<noteq> root"
proof -
  have k: "k \<in> dom (nt_store nt)" "prefix root k" "children_of nt k \<noteq> []" using assms(2) by (auto simp: it_ok_def)
  then have c: "c \<in> set (children_of nt k)" using assms(3) by simp
  note cl = child_length [OF assms(1) k(1) c]
  have le: "length root \<le> length k" using k(2) by (simp add: prefix_length_le)
  show "c \<in> dom (nt_store nt)" "prefix root c" "c \<noteq> root"
    using cl(1,2) le prefix_child [OF k(2) cl(3,4)] by auto
  obtain cs where cs: "children_of nt k = c # cs" using k(3) assms(3) by (cases "children_of nt k") auto
  have n: "length c - length root = Suc (length k - length root)" using cl(1) le by simp
  show "pending f nt root (k, True) = f c @ rest_of f nt (length c - length root) c"
    by (simp add: pending_def cs n later_siblings_def cl(3))
qed

lemma while_until:
  "x \<notin> set xs \<Longrightarrow> takeWhile (\<lambda>y. y \<noteq> x) (xs @ x # zs) = xs"
  "x \<notin> set xs \<Longrightarrow> dropWhile (\<lambda>y. y \<noteq> x) (xs @ x # zs) = x # zs"
  by (induction xs) auto

lemma split_siblings:
  assumes "nt_inv city \<tau> nt" "k \<in> dom (nt_store nt)" "k \<noteq> []" "cs = children_of nt (butlast k)"
    and "i = length (takeWhile (\<lambda>x. x \<noteq> k) cs)"
  shows "i < length cs" "i < length cs - 1 \<Longrightarrow> later_siblings nt k = cs ! (i + 1) # later_siblings nt (cs ! (i + 1))"
    "\<not> i < length cs - 1 \<Longrightarrow> later_siblings nt k = []" "i < length cs - 1 \<Longrightarrow> cs ! (i + 1) \<in> set cs"
proof -
  have p: "butlast k \<in> dom (nt_store nt)" using links(2) [OF assms(1,2,3)] .
  have "k \<in> set cs" unfolding assms(4) links(4) [OF assms(1) p] using assms(2,3) by simp
  then obtain as bs where ab: "cs = as @ k # bs" "k \<notin> set as" by (meson split_list_first)
  have d: "distinct cs" unfolding assms(4) by (rule links(3) [OF assms(1) p])
  note tw = while_until [OF ab(2)]
  have i: "i = length as" using assms(5) by (simp add: ab(1) tw)
  have ls: "later_siblings nt k = bs" by (simp add: later_siblings_def assms(4) [symmetric] ab(1) tw)
  show "i < length cs" by (simp add: ab(1) i)
  show "later_siblings nt k = []" if "\<not> i < length cs - 1" using that by (simp add: ls i ab(1))
  show mem: "cs ! (i + 1) \<in> set cs" if "i < length cs - 1" using that by simp
  show "later_siblings nt k = cs ! (i + 1) # later_siblings nt (cs ! (i + 1))" if lt: "i < length cs - 1"
  proof -
    obtain b bs' where bs: "bs = b # bs'" using lt i ab(1) by (cases bs) auto
    have nth: "cs ! (i + 1) = b" by (simp add: i ab(1) bs nth_append)
    have "butlast b = butlast k" using mem [OF lt] nth links(4) [OF assms(1) p] assms(4) by auto
    moreover have "dropWhile (\<lambda>x. x \<noteq> b) cs = b # bs'"
      using while_until(2) [of b "as @ [k]" bs'] d by (auto simp: ab(1) bs)
    ultimately have "later_siblings nt b = bs'" by (simp add: later_siblings_def assms(4) [symmetric])
    then show ?thesis by (simp only: ls bs nth)
  qed
qed

abbreviation units :: "nametree \<Rightarrow> name \<Rightarrow> unit list" where
  "units nt k \<equiv> replicate (tree_size nt k) ()"

definition it_measure :: "nametree \<Rightarrow> name \<Rightarrow> name \<times> bool \<Rightarrow> nat" where
  "it_measure nt root s = 2 * length (pending (units nt) nt root s) + (length (fst s) - length root)"

lemma pending_visit:
  assumes "nt_inv city \<tau> nt" "c \<in> dom (nt_store nt)" "prefix root c"
    and "partial_visit sel nt c = (s, accepted)"
  shows "pre sel nt c @ rest_of (pre sel nt) nt (length c - length root) c
      = (if accepted then [c] else []) @ pending (pre sel nt) nt root s"
    and "length (pending (units nt) nt root s)
      < length (units nt c @ rest_of (units nt) nt (length c - length root) c)"
    and "it_ok nt root s" "fst s = c"
proof -
  have s: "s = (c, snd (sel c (nt_entry_of nt c)) \<and> children_of nt c \<noteq> [])" "accepted = fst (sel c (nt_entry_of nt c))"
    using assms(4) by (auto simp: partial_visit_def Let_def)
  show "pre sel nt c @ rest_of (pre sel nt) nt (length c - length root) c
      = (if accepted then [c] else []) @ pending (pre sel nt) nt root s"
    using pre_unfold(1) [OF assms(1,2), of sel] by (auto simp: s pending_def)
  have "length (concat (map (units nt) (children_of nt c))) < tree_size nt c"
    using pre_unfold(2) [OF assms(1,2)] by (simp add: length_concat comp_def)
  then show "length (pending (units nt) nt root s)
      < length (units nt c @ rest_of (units nt) nt (length c - length root) c)"
    by (auto simp: s pending_def)
  show "it_ok nt root s" "fst s = c" using assms(2,3) by (auto simp: it_ok_def s)
qed

lemma pending_sibling:
  assumes "nt_inv city \<tau> nt" "it_ok nt root (k, False)" "k \<noteq> root" "cs = children_of nt (butlast k)"
    and "i = length (takeWhile (\<lambda>x. x \<noteq> k) cs)" "i < length cs - 1"
  shows "pending f nt root (k, False) = f (cs ! (i + 1)) @ rest_of f nt (length (cs ! (i + 1)) - length root) (cs ! (i + 1))"
    and "cs ! (i + 1) \<in> dom (nt_store nt)" "prefix root (cs ! (i + 1))" "length (cs ! (i + 1)) = length k"
proof -
  have k: "k \<in> dom (nt_store nt)" "prefix root k" "k \<noteq> []" using assms(2,3) by (auto simp: it_ok_def)
  have pd: "butlast k \<in> dom (nt_store nt)" using links(2) [OF assms(1) k(1,3)] .
  note sp = split_siblings [OF assms(1) k(1,3) assms(4,5)]
  note cl = child_length [OF assms(1) pd sp(4) [OF assms(6), unfolded assms(4)], folded assms(4)]
  have pr: "prefix root (butlast k)" using k(2) assms(3) by (metis append_butlast_last_id k(3) prefix_snoc)
  then have len: "length k - length root = Suc (length (butlast k) - length root)"
    using k(3) prefix_length_le [OF pr] by (cases k rule: rev_cases) simp_all
  show "length (cs ! (i + 1)) = length k" using cl(1) k(3) by simp
  then show "pending f nt root (k, False) = f (cs ! (i + 1)) @ rest_of f nt (length (cs ! (i + 1)) - length root) (cs ! (i + 1))"
    using sp(2) [OF assms(6)] cl(3) by (simp add: pending_def len)
  show "cs ! (i + 1) \<in> dom (nt_store nt)" "prefix root (cs ! (i + 1))" using cl(2-4) pr prefix_child by auto
qed

lemma pending_parent:
  assumes "nt_inv city \<tau> nt" "it_ok nt root (k, False)" "k \<noteq> root" "cs = children_of nt (butlast k)"
    and "\<not> length (takeWhile (\<lambda>x. x \<noteq> k) cs) < length cs - 1"
  shows "pending f nt root (k, False) = pending f nt root (butlast k, False)"
    and "it_ok nt root (butlast k, False)" "length (butlast k) - length root < length k - length root"
proof -
  have k: "k \<in> dom (nt_store nt)" "prefix root k" "k \<noteq> []" using assms(2,3) by (auto simp: it_ok_def)
  have pr: "prefix root (butlast k)" using k(2) assms(3) by (metis append_butlast_last_id k(3) prefix_snoc)
  then have len: "length k - length root = Suc (length (butlast k) - length root)"
    using k(3) prefix_length_le [OF pr] by (cases k rule: rev_cases) simp_all
  then show "length (butlast k) - length root < length k - length root" by simp
  show "it_ok nt root (butlast k, False)" using pr links(2) [OF assms(1) k(1,3)] by (simp add: it_ok_def)
  show "pending f nt root (k, False) = pending f nt root (butlast k, False)"
    using split_siblings(3) [OF assms(1) k(1,3) assms(4) refl assms(5)] by (simp add: pending_def len)
qed

text \<open>One round of the loop either ends it, moves to an entry or moves up.\<close>

definition it_next :: "(name \<Rightarrow> name list) \<Rightarrow> nametree \<Rightarrow> name \<Rightarrow> (name \<times> bool) option \<Rightarrow> name list \<Rightarrow> bool" where
  "it_next f nt root r ks \<longleftrightarrow> (case r of
      None \<Rightarrow> ks = []
    | Some s \<Rightarrow> it_ok nt root s \<and> ks = fst s # pending f nt root s)"

lemma visit_next:
  assumes "nt_inv city \<tau> nt" "c \<in> dom (nt_store nt)" "prefix root c"
    and "partial_visit sel nt c = (s, accepted)"
    and "ks = pre sel nt c @ rest_of (pre sel nt) nt (length c - length root) c"
    and "\<exists>r. l = Some r \<and> it_next (pre sel nt) nt root r (pending (pre sel nt) nt root s)"
  shows "\<exists>r. (if accepted then Some (Some s) else l) = Some r \<and> it_next (pre sel nt) nt root r ks"
  using pending_visit [OF assms(1-4)] assms(5,6) by (cases accepted) (auto simp: it_next_def)

lemma visit_measure:
  assumes "nt_inv city \<tau> nt" "c \<in> dom (nt_store nt)" "prefix root c" "partial_visit sel nt c = (s, accepted)"
    and "pending (units nt) nt root s0 = units nt c @ rest_of (units nt) nt (length c - length root) c"
    and "length c \<le> Suc (length (fst s0))"
  shows "it_measure nt root s < it_measure nt root s0"
  using pending_visit(2,4) [OF assms(1-4)] assms(5,6) by (simp add: it_measure_def)

lemma partial_loop_correct:
  assumes "nt_inv city \<tau> nt" "it_ok nt root s" "fst s = root \<Longrightarrow> \<not> snd s"
  shows "\<exists>r. partial_loop sel nt root s = Some r \<and> it_next (pre sel nt) nt root r (pending (pre sel nt) nt root s)"
  using assms(2,3)
proof (induction "it_measure nt root s" arbitrary: s rule: less_induct)
  case less
  obtain k v where s: "s = (k, v)" by fastforce
  consider "k = root" | "k \<noteq> root" "v"
    | "k \<noteq> root" "\<not> v" "length (takeWhile (\<lambda>x. x \<noteq> k) (children_of nt (butlast k))) < length (children_of nt (butlast k)) - 1"
    | "k \<noteq> root" "\<not> v" "\<not> length (takeWhile (\<lambda>x. x \<noteq> k) (children_of nt (butlast k))) < length (children_of nt (butlast k)) - 1"
    by blast
  then show ?case
  proof cases
    case 1
    then show ?thesis using less.prems(2) by (subst partial_loop.simps) (simp add: s it_next_def pending_def)
  next
    case 2
    let ?c = "hd (children_of nt k)"
    obtain s' acc where vis: "partial_visit sel nt ?c = (s', acc)" by fastforce
    have okT: "it_ok nt root (k, True)" and kd: "k \<in> dom (nt_store nt)" "children_of nt k \<noteq> []"
      using less.prems(1) 2 by (auto simp: s it_ok_def)
    note ch = pending_child [OF assms(1) okT refl]
    have "length ?c = Suc (length k)" using child_length(1) [OF assms(1) kd(1)] kd(2) by simp
    then have lt: "it_measure nt root s' < it_measure nt root s"
      using 2 by (intro visit_measure [OF assms(1) ch(2,3) vis]) (simp_all add: s ch(1))
    have "\<exists>r. partial_loop sel nt root s' = Some r \<and> it_next (pre sel nt) nt root r (pending (pre sel nt) nt root s')"
      using pending_visit(3,4) [OF assms(1) ch(2,3) vis] ch(4) by (intro less.hyps [OF lt]) auto
    from visit_next [OF assms(1) ch(2,3) vis refl this] show ?thesis
      using 2 ch(1) [of "pre sel nt"] vis by (subst partial_loop.simps) (simp add: s)
  next
    case 3
    let ?cs = "children_of nt (butlast k)" and ?i = "length (takeWhile (\<lambda>x. x \<noteq> k) (children_of nt (butlast k)))"
    obtain s' acc where vis: "partial_visit sel nt (?cs ! (?i + 1)) = (s', acc)" by fastforce
    have okF: "it_ok nt root (k, False)" and kd: "k \<in> dom (nt_store nt)" "k \<noteq> []"
      using less.prems(1) 3 by (auto simp: s it_ok_def)
    note sib = pending_sibling [OF assms(1) okF 3(1) refl refl 3(3)]
    have lt: "it_measure nt root s' < it_measure nt root s"
      using 3 sib(1,4) by (intro visit_measure [OF assms(1) sib(2,3) vis]) (simp_all add: s)
    have "length root < length k" using less.prems(1) 3(1) by (auto simp: s it_ok_def prefix_def)
    then have "?cs ! (?i + 1) \<noteq> root" using sib(4) by auto
    then have "\<exists>r. partial_loop sel nt root s' = Some r \<and> it_next (pre sel nt) nt root r (pending (pre sel nt) nt root s')"
      using pending_visit(3,4) [OF assms(1) sib(2,3) vis] by (intro less.hyps [OF lt]) auto
    from visit_next [OF assms(1) sib(2,3) vis refl this] show ?thesis
      using 3 sib(1) [of "pre sel nt"] vis links(1) [OF assms(1) kd(1)] kd(2)
      by (subst partial_loop.simps) (simp add: s)
  next
    case 4
    have okF: "it_ok nt root (k, False)" and kd: "k \<in> dom (nt_store nt)" "k \<noteq> []"
      using less.prems(1) 4 by (auto simp: s it_ok_def)
    note up = pending_parent [OF assms(1) okF 4(1) refl 4(3)]
    have lt: "it_measure nt root (butlast k, False) < it_measure nt root s"
      using up(1) [of "units nt"] up(3) 4(2) by (simp add: s it_measure_def)
    show ?thesis
      using less.hyps [OF lt up(2)] up(1) [of "pre sel nt"] 4 links(1) [OF assms(1) kd(1)] kd(2)
      by (subst partial_loop.simps) (simp add: s)
  qed
qed

lemma partial_next_correct:
  assumes "nt_inv city \<tau> nt" "it_ok nt root s"
  shows "\<exists>r. partial_next sel nt root s = Some r \<and> it_next (pre sel nt) nt root r (pending (pre sel nt) nt root s)"
proof (cases "fst s = root \<and> snd s")
  case True
  then have s: "s = (root, True)" by (cases s) auto
  let ?c = "hd (children_of nt root)"
  obtain s' acc where vis: "partial_visit sel nt ?c = (s', acc)" by fastforce
  note ch = pending_child [OF assms(1) assms(2) [unfolded s] refl]
  note pv = pending_visit [OF assms(1) ch(2,3) vis]
  have "\<exists>r. partial_loop sel nt root s' = Some r \<and> it_next (pre sel nt) nt root r (pending (pre sel nt) nt root s')"
    using pv(3,4) ch(4) by (intro partial_loop_correct [OF assms(1)]) auto
  from visit_next [OF assms(1) ch(2,3) vis refl this] show ?thesis
    using ch(1) [of "pre sel nt"] vis by (simp add: partial_next_def s)
next
  case False
  then show ?thesis using partial_loop_correct [OF assms, of sel] by (cases s) (auto simp: partial_next_def)
qed

lemma partial_range_correct:
  assumes "nt_inv city \<tau> nt" "it_next (pre sel nt) nt root it ks"
  shows "partial_range sel nt root it = Some ks"
  using assms(2)
proof (induction ks arbitrary: it)
  case Nil
  then show ?case by (subst partial_range.simps) (auto simp: it_next_def split: option.splits)
next
  case (Cons k ks)
  then obtain s where s: "it = Some s" "it_ok nt root s" "fst s = k" "ks = pending (pre sel nt) nt root s"
    by (auto simp: it_next_def split: option.splits)
  from partial_next_correct [OF assms(1) s(2), of sel] obtain r where
    "partial_next sel nt root s = Some r" "it_next (pre sel nt) nt root r ks" using s(4) by blast
  then show ?case using Cons.IH [of r] s by (subst partial_range.simps) simp
qed

lemma partialEnumerate_correct:
  assumes "nt_inv city \<tau> nt" "typed \<tau> p"
  shows "NameTree_partialEnumerate city p sel nt = Some (if p \<in> dom (nt_store nt) then pre sel nt p else [])"
proof (cases "p \<in> dom (nt_store nt)")
  case True
  obtain s acc where vis: "partial_visit sel nt p = (s, acc)" by fastforce
  note pv = pending_visit [OF assms(1) True prefix_order.refl vis]
  have p: "pre sel nt p = (if acc then [p] else []) @ pending (pre sel nt) nt p s" using pv(1) by simp
  from partial_next_correct [OF assms(1) pv(3), of sel] obtain r where
    r: "partial_next sel nt p s = Some r" "it_next (pre sel nt) nt p r (pending (pre sel nt) nt p s)" by blast
  have "it_next (pre sel nt) nt p (Some s) (p # pending (pre sel nt) nt p s)" using pv(3,4) by (simp add: it_next_def)
  then show ?thesis
    using partial_range_correct [OF assms(1)] r True p findExactMatch_correct [OF assms]
    by (simp add: NameTree_partialEnumerate_def vis)
qed (use findExactMatch_correct [OF assms] in \<open>simp add: NameTree_partialEnumerate_def\<close>)

lemma child_on_path:
  assumes "prefix k x" "k \<noteq> x"
  shows "prefix (take (Suc (length k)) x) x" "butlast (take (Suc (length k)) x) = k" "take (Suc (length k)) x \<noteq> []"
proof -
  obtain z zs where "x = k @ z # zs" using assms by (metis append_Nil2 neq_Nil_conv prefix_def)
  then show "prefix (take (Suc (length k)) x) x" "butlast (take (Suc (length k)) x) = k" "take (Suc (length k)) x \<noteq> []"
    by simp_all
qed

lemma store_prefix_closed:
  assumes "nt_inv city \<tau> nt" "x \<in> dom (nt_store nt)" "prefix k x"
  shows "k \<in> dom (nt_store nt)"
  using assms(2,3)
proof (induction x rule: rev_induct)
  case (snoc c x)
  then show ?case using links(2) [OF assms(1) snoc.prems(1)] by (auto simp: prefix_snoc)
qed simp

definition selected_below :: "subtree_selector \<Rightarrow> nametree \<Rightarrow> name \<Rightarrow> name set" where
  "selected_below sel nt k = {x \<in> dom (nt_store nt). prefix k x \<and> fst (sel x (nt_entry_of nt x)) \<and>
      (\<forall>a. prefix k a \<and> strict_prefix a x \<longrightarrow> snd (sel a (nt_entry_of nt a)))}"

lemma selected_below_step:
  assumes "nt_inv city \<tau> nt" "k \<in> dom (nt_store nt)"
  shows "selected_below sel nt k - {k}
    = (if snd (sel k (nt_entry_of nt k)) then \<Union>c \<in> set (children_of nt k). selected_below sel nt c else {})"
proof (intro equalityI subsetI)
  fix x assume x: "x \<in> selected_below sel nt k - {k}"
  then have "prefix k x" "k \<noteq> x" "x \<in> dom (nt_store nt)" by (auto simp: selected_below_def)
  note c = child_on_path [OF this(1,2)]
  have "take (Suc (length k)) x \<in> set (children_of nt k)"
    unfolding links(4) [OF assms(1) assms(2)]
    using c store_prefix_closed [OF assms(1) \<open>x \<in> dom (nt_store nt)\<close> c(1)] by blast
  moreover have "prefix k (take (Suc (length k)) x)" by (metis c(2) prefixeq_butlast)
  then have "x \<in> selected_below sel nt (take (Suc (length k)) x)"
    using x c(1) prefix_order.trans [of k "take (Suc (length k)) x"] unfolding selected_below_def by blast
  moreover have "snd (sel k (nt_entry_of nt k))" using x \<open>prefix k x\<close> \<open>k \<noteq> x\<close> by (auto simp: strict_prefix_def selected_below_def)
  ultimately show "x \<in> (if snd (sel k (nt_entry_of nt k)) then \<Union>c \<in> set (children_of nt k). selected_below sel nt c else {})"
    by auto
next
  fix x assume "x \<in> (if snd (sel k (nt_entry_of nt k)) then \<Union>c \<in> set (children_of nt k). selected_below sel nt c else {})"
  then obtain c where c: "c \<in> set (children_of nt k)" "x \<in> selected_below sel nt c" and k: "snd (sel k (nt_entry_of nt k))"
    by (auto split: if_splits)
  note cl = child_length [OF assms(1) assms(2) c(1)]
  have kc: "prefix k c" using cl(3) prefixeq_butlast [of c] by simp
  have "snd (sel a (nt_entry_of nt a))" if a: "prefix k a" "strict_prefix a x" for a
  proof (cases "a = k")
    case False
    then have "length c \<le> length a" using a(1) cl(1) by (auto simp: prefix_def Suc_le_eq)
    then have "prefix c a" using a(2) c(2) by (auto simp: strict_prefix_def selected_below_def intro: prefix_length_prefix)
    then show ?thesis using c(2) a(2) unfolding selected_below_def by blast
  qed (use k in simp)
  moreover have "prefix k x" "x \<noteq> k" using kc c(2) cl(1) prefix_order.trans [of k c x] prefix_length_le [of c x]
    by (auto simp: selected_below_def)
  ultimately show "x \<in> selected_below sel nt k - {k}" using c(2) unfolding selected_below_def by blast
qed

lemma pre_set:
  assumes "nt_inv city \<tau> nt" "k \<in> dom (nt_store nt)"
  shows "set (pre sel nt k) = selected_below sel nt k"
  using assms(2)
proof (induction "nt_depth nt - length k" arbitrary: k rule: less_induct)
  case less
  have IH: "set (pre sel nt c) = selected_below sel nt c" if "c \<in> set (children_of nt k)" for c
    using child_length(1,2) [OF assms(1) less.prems that] depth_less [OF assms(1) less.prems] by (intro less.hyps) auto
  have eq: "set (pre sel nt k) = (if fst (sel k (nt_entry_of nt k)) then {k} else {}) \<union>
      (if snd (sel k (nt_entry_of nt k)) then \<Union>c \<in> set (children_of nt k). selected_below sel nt c else {})"
    using pre_unfold(1) [OF assms(1) less.prems, of sel] IH by auto
  have kk: "selected_below sel nt k \<inter> {k} = (if fst (sel k (nt_entry_of nt k)) then {k} else {})"
    using less.prems by (auto simp: strict_prefix_def selected_below_def)
  show ?case unfolding eq kk [symmetric] selected_below_step [OF assms(1) less.prems, symmetric] by blast
qed

end
