(* ===== verification/StrategyChoice.thy ===== *)
theory StrategyChoice
  imports SubTree
begin

text \<open>
  The Strategy Choice table, from \<open>NFD/daemon/table/strategy-choice.cpp\<close>. A strategy object is its name,
  which is unique among the installed ones; \<open>m_strategyInstances\<close>, a \<open>std::map\<close>, is the list of the names
  in order. A table entry that has been created but has no strategy yet (a null pointer in the code)
  has the empty name. The operations that change a strategy traverse a part of the name tree and return
  an option, \<open>None\<close> if that did not end; it always does. The lemmas show which strategy is effective for a
  name, and that changing the strategy of a prefix resets the strategy information of exactly the PIT entries,
  with their in- and out-records, and measurements entries for which that prefix decides.
\<close>

section \<open>Installed strategies\<close>

record strategy_choice =
  sc_instances :: "name list"
  sc_nItems :: nat

text \<open>The loop of \<open>getStrategy\<close>, from the lower bound on.\<close>

fun getStrategy_loop :: "name \<Rightarrow> name option \<Rightarrow> name list \<Rightarrow> name option" where
  "getStrategy_loop strategyName candidate [] = candidate"
| "getStrategy_loop strategyName candidate (s # ss) =
     (if \<not> Name_isPrefixOf strategyName s then candidate
      else if length s - length strategyName = 0 then Some s
      else if length s - length strategyName = 1 then getStrategy_loop strategyName (Some s) ss
      else getStrategy_loop strategyName candidate ss)"

definition StrategyChoice_getStrategy :: "name \<Rightarrow> strategy_choice \<Rightarrow> name option" where
  "StrategyChoice_getStrategy strategyName sc =
     getStrategy_loop strategyName None
       (dropWhile (\<lambda>s. Name_compare s strategyName < 0) (sc_instances sc))"

definition StrategyChoice_hasStrategy :: "name \<Rightarrow> bool \<Rightarrow> strategy_choice \<Rightarrow> bool" where
  "StrategyChoice_hasStrategy strategyName isExact sc =
     (if isExact then list_ex (\<lambda>s. Name_compare s strategyName = 0) (sc_instances sc)
      else StrategyChoice_getStrategy strategyName sc \<noteq> None)"

definition StrategyChoice_install :: "name \<Rightarrow> strategy_choice \<Rightarrow> bool \<times> strategy_choice" where
  "StrategyChoice_install strategyName sc =
     (if StrategyChoice_hasStrategy strategyName True sc then (False, sc)
      else (True, sc\<lparr>sc_instances := takeWhile (\<lambda>s. Name_compare s strategyName < 0) (sc_instances sc) @
                       strategyName # dropWhile (\<lambda>s. Name_compare s strategyName < 0) (sc_instances sc)\<rparr>))"

section \<open>Effective strategy\<close>

definition hasStrategyChoiceEntry :: "name \<Rightarrow> nt_entry \<Rightarrow> bool" where
  "hasStrategyChoiceEntry k e \<longleftrightarrow> ent_strategy e \<noteq> None"

definition strategy_of :: "nametree \<Rightarrow> name option \<Rightarrow> name option" where
  "strategy_of nt k = (case k of
       None \<Rightarrow> None
     | Some k \<Rightarrow> map_option sc_strategy (ent_strategy (nt_entry_of nt k)))"

definition StrategyChoice_findEffectiveStrategy :: "(bytes \<Rightarrow> u64) \<Rightarrow> name \<Rightarrow> nametree \<Rightarrow> name option" where
  "StrategyChoice_findEffectiveStrategy city pfx nt =
     strategy_of nt (NameTree_findLongestPrefixMatch city pfx hasStrategyChoiceEntry nt)"

definition StrategyChoice_findEffectiveStrategy_nte :: "name \<Rightarrow> nametree \<Rightarrow> name option" where
  "StrategyChoice_findEffectiveStrategy_nte k nt =
     (case ent_strategy (nt_entry_of nt k) of
        Some se \<Rightarrow> Some (sc_strategy se)
      | None \<Rightarrow> strategy_of nt (NameTree_findLongestPrefixMatch_entry k hasStrategyChoiceEntry nt))"

definition StrategyChoice_findEffectiveStrategy_pit :: "pit_ref \<Rightarrow> nametree \<Rightarrow> name option" where
  "StrategyChoice_findEffectiveStrategy_pit r nt = StrategyChoice_findEffectiveStrategy_nte (fst r) nt"

section \<open>Changing strategies\<close>

definition FaceRecord_clearStrategyInfo :: "'a face_record_scheme \<Rightarrow> 'a face_record_scheme" where
  "FaceRecord_clearStrategyInfo rec = rec\<lparr>rec_strategyInfo := []\<rparr>"

text \<open>The information of a PIT entry and that of its records.\<close>

definition PitEntry_clearStrategyInfo :: "pit_entry \<Rightarrow> pit_entry" where
  "PitEntry_clearStrategyInfo pe = pe\<lparr>pit_suppressionInterval := None,
     pit_inRecords := map FaceRecord_clearStrategyInfo (pit_inRecords pe),
     pit_outRecords := map FaceRecord_clearStrategyInfo (pit_outRecords pe)\<rparr>"

definition MeasurementsEntry_clearStrategyInfo :: "measurements_entry \<Rightarrow> measurements_entry" where
  "MeasurementsEntry_clearStrategyInfo me = me\<lparr>me_strategyInfo := []\<rparr>"

definition clearStrategyInfo :: "name \<Rightarrow> nametree \<Rightarrow> nametree" where
  "clearStrategyInfo k nt =
     nt_update k (\<lambda>e. e\<lparr>ent_measurements := map_option MeasurementsEntry_clearStrategyInfo (ent_measurements e)\<rparr>)
       (nt_update k (\<lambda>e. e\<lparr>ent_pit := map PitEntry_clearStrategyInfo (ent_pit e)\<rparr>) nt)"

definition changeStrategy_selector :: "name \<Rightarrow> subtree_selector" where
  "changeStrategy_selector rootNte k e =
     (if k = rootNte then (True, True)
      else if ent_strategy e \<noteq> None then (False, False)
      else (True, True))"

definition StrategyChoice_changeStrategy ::
    "(bytes \<Rightarrow> u64) \<Rightarrow> name \<Rightarrow> name option \<Rightarrow> name option \<Rightarrow> nametree \<Rightarrow> nametree option" where
  "StrategyChoice_changeStrategy city pfx oldStrategy newStrategy nt =
     (if oldStrategy = newStrategy then Some nt
      else do { ntChanged \<leftarrow> NameTree_partialEnumerate city pfx (changeStrategy_selector pfx) nt;
                Some (fold clearStrategyInfo ntChanged nt) })"

definition setStrategy :: "name \<Rightarrow> name \<Rightarrow> nametree \<Rightarrow> nametree" where
  "setStrategy k s nt = nt_update k (\<lambda>e. e\<lparr>ent_strategy := map_option (\<lambda>se. se\<lparr>sc_strategy := s\<rparr>) (ent_strategy e)\<rparr>) nt"

definition StrategyChoice_insert ::
    "(bytes \<Rightarrow> u64) \<Rightarrow> name \<Rightarrow> name \<Rightarrow> nametree \<times> strategy_choice \<Rightarrow> (bool \<times> nametree \<times> strategy_choice) option" where
  "StrategyChoice_insert city pfx strategyName = (\<lambda>(nt, sc).
     case StrategyChoice_getStrategy strategyName sc of
       None \<Rightarrow> Some (False, nt, sc)
     | Some strategy \<Rightarrow>
         (let (k, nt1) = NameTree_lookup city pfx nt
          in case ent_strategy (nt_entry_of nt1 k) of
               Some se \<Rightarrow>
                 if Name_equals (sc_strategy se) strategy then Some (True, nt1, sc)
                 else do { nt2 \<leftarrow> StrategyChoice_changeStrategy city pfx (Some (sc_strategy se)) (Some strategy) nt1;
                           Some (True, setStrategy k strategy nt2, sc) }
             | None \<Rightarrow>
                 let oldStrategy = StrategyChoice_findEffectiveStrategy city pfx nt1;
                     nt2 = setStrategyChoiceEntry k (Some \<lparr>sc_prefix = pfx, sc_strategy = []\<rparr>) nt1
                 in do { nt3 \<leftarrow> StrategyChoice_changeStrategy city pfx oldStrategy (Some strategy) nt2;
                         Some (True, setStrategy k strategy nt3, sc\<lparr>sc_nItems := sc_nItems sc + 1\<rparr>) }))"

definition StrategyChoice_erase ::
    "(bytes \<Rightarrow> u64) \<Rightarrow> name \<Rightarrow> nametree \<times> strategy_choice \<Rightarrow> (nametree \<times> strategy_choice) option" where
  "StrategyChoice_erase city pfx = (\<lambda>(nt, sc).
     case NameTree_findExactMatch city pfx nt of
       None \<Rightarrow> Some (nt, sc)
     | Some k \<Rightarrow>
         (case ent_strategy (nt_entry_of nt k) of
            None \<Rightarrow> Some (nt, sc)
          | Some se \<Rightarrow>
              let parentStrategy = StrategyChoice_findEffectiveStrategy city (Name_getPrefix pfx (-1)) nt
              in do { nt1 \<leftarrow> StrategyChoice_changeStrategy city pfx (Some (sc_strategy se)) parentStrategy nt;
                      Some (snd (NameTree_eraseEntryIfEmpty k (setStrategyChoiceEntry k None nt1)),
                            sc\<lparr>sc_nItems := sc_nItems sc - 1\<rparr>) }))"

definition StrategyChoice_get :: "(bytes \<Rightarrow> u64) \<Rightarrow> name \<Rightarrow> nametree \<Rightarrow> bool \<times> name" where
  "StrategyChoice_get city pfx nt =
     (case NameTree_findExactMatch city pfx nt of
        None \<Rightarrow> (False, [])
      | Some k \<Rightarrow> (case ent_strategy (nt_entry_of nt k) of
                    None \<Rightarrow> (False, [])
                  | Some se \<Rightarrow> (True, sc_strategy se)))"

definition StrategyChoice_setDefaultStrategy ::
    "(bytes \<Rightarrow> u64) \<Rightarrow> name \<Rightarrow> nametree \<times> strategy_choice \<Rightarrow> nametree \<times> strategy_choice" where
  "StrategyChoice_setDefaultStrategy city s = (\<lambda>(nt, sc).
     let sc1 = snd (StrategyChoice_install s sc);
         (k, nt1) = NameTree_lookup city [] nt;
         nt2 = setStrategyChoiceEntry k (Some \<lparr>sc_prefix = [], sc_strategy = []\<rparr>) nt1
     in (setStrategy k s nt2, sc1\<lparr>sc_nItems := sc_nItems sc1 + 1\<rparr>))"

definition StrategyChoice_ctor :: "(bytes \<Rightarrow> u64) \<Rightarrow> name \<Rightarrow> nametree \<Rightarrow> nametree \<times> strategy_choice" where
  "StrategyChoice_ctor city defaultStrategy nt =
     StrategyChoice_setDefaultStrategy city defaultStrategy (nt, \<lparr>sc_instances = [], sc_nItems = 0\<rparr>)"

section \<open>Which strategy is effective\<close>

text \<open>The prefix that decides for a name, and the strategy it has chosen.\<close>

definition sc_governor :: "nametree \<Rightarrow> name \<Rightarrow> name option" where
  "sc_governor nt p = find (\<lambda>k. strategy_map nt k \<noteq> None) (rev (prefixes p))"

definition sc_effective :: "nametree \<Rightarrow> name \<Rightarrow> name option" where
  "sc_effective nt p = (case sc_governor nt p of None \<Rightarrow> None | Some k \<Rightarrow> map_option sc_strategy (strategy_map nt k))"

lemma find_longest_iff:
  "find P (rev (prefixes p)) = Some k \<longleftrightarrow> P k \<and> prefix k p \<and> (\<forall>k'. prefix k' p \<longrightarrow> P k' \<longrightarrow> prefix k' k)"
proof (induction p rule: rev_induct)
  case (snoc x p)
  show ?case
    using prefix_length_le [of "p @ [x]" k] prefix_length_le [of k p]
    by (cases "P (p @ [x])") (auto simp: prefixes_snoc snoc.IH prefix_snoc)
qed auto

lemma governor_iff:
  "sc_governor nt p = Some k \<longleftrightarrow> strategy_map nt k \<noteq> None \<and> prefix k p \<and>
     (\<forall>k'. prefix k' p \<longrightarrow> strategy_map nt k' \<noteq> None \<longrightarrow> prefix k' k)"
  unfolding sc_governor_def by (rule find_longest_iff)

lemma governor_none: "sc_governor nt p = None \<longleftrightarrow> (\<forall>k. prefix k p \<longrightarrow> strategy_map nt k = None)"
  by (auto simp: sc_governor_def find_None_iff)

lemma effective_cong: "strategy_map nt = strategy_map nt' \<Longrightarrow> sc_effective nt = sc_effective nt'"
  by (intro ext) (simp add: sc_effective_def sc_governor_def split: option.split)

lemma strategy_match: "lpm_match hasStrategyChoiceEntry nt p k \<longleftrightarrow> prefix k p \<and> strategy_map nt k \<noteq> None"
  by (auto simp: lpm_match_def hasStrategyChoiceEntry_def strategy_map_def nt_tables_def nt_entry_of_def
      split: option.splits)

lemma ent_strategy_map [simp]: "ent_strategy (nt_entry_of nt k) = strategy_map nt k"
  by (auto simp: strategy_map_def nt_tables_def nt_entry_of_def NtEntry_ctor_def split: option.splits)

lemma strategy_of_effective:
  assumes "case r of None \<Rightarrow> \<forall>k. \<not> lpm_match hasStrategyChoiceEntry nt p k
    | Some k \<Rightarrow> lpm_match hasStrategyChoiceEntry nt p k \<and>
        (\<forall>k'. lpm_match hasStrategyChoiceEntry nt p k' \<longrightarrow> prefix k' k)"
  shows "strategy_of nt r = sc_effective nt p"
proof -
  have "r = sc_governor nt p"
    using assms governor_none [of nt p] governor_iff [of nt p]
    by (cases r) (simp_all add: strategy_match, metis)
  then show ?thesis by (simp add: sc_effective_def strategy_of_def split: option.split)
qed

lemma findEffectiveStrategy_pit:
  assumes "nt_inv city \<tau> nt" "nt_has nt (fst r)"
  shows "StrategyChoice_findEffectiveStrategy_pit r nt = sc_effective nt (fst r)"
proof (cases "strategy_map nt (fst r)")
  case None
  then show ?thesis
    using strategy_of_effective [OF findLongestPrefixMatch_entry_correct [OF assms [unfolded nt_has_def]]]
    by (simp add: StrategyChoice_findEffectiveStrategy_pit_def StrategyChoice_findEffectiveStrategy_nte_def)
next
  case (Some se)
  then have "sc_governor nt (fst r) = Some (fst r)" by (simp add: governor_iff)
  then show ?thesis
    by (simp add: StrategyChoice_findEffectiveStrategy_pit_def StrategyChoice_findEffectiveStrategy_nte_def Some
        sc_effective_def)
qed

lemma findEffectiveStrategy_name:
  assumes "nt_inv city \<tau> nt" "typed \<tau> p" "prefix_hashes_distinct city p"
  shows "StrategyChoice_findEffectiveStrategy city p nt = sc_effective nt p"
  unfolding StrategyChoice_findEffectiveStrategy_def
proof (rule strategy_of_effective)
  let ?m = "lpm_match hasStrategyChoiceEntry nt p"
  note s = findLongestPrefixMatch_some [OF assms(1,2), of hasStrategyChoiceEntry]
    and l = findLongestPrefixMatch_longest [OF assms, of hasStrategyChoiceEntry]
  have "prefix k' k" if "?m k" "?m k'" "length k' \<le> length k" for k k'
    using that prefix_length_prefix by (auto simp: strategy_match)
  then show "case NameTree_findLongestPrefixMatch city p hasStrategyChoiceEntry nt of None \<Rightarrow> \<forall>k. \<not> ?m k
      | Some k \<Rightarrow> ?m k \<and> (\<forall>k'. ?m k' \<longrightarrow> prefix k' k)"
    using s l by (auto split: option.splits)
qed

section \<open>What a change resets\<close>

lemma clear_clear [simp]: "PitEntry_clearStrategyInfo (PitEntry_clearStrategyInfo pe) = PitEntry_clearStrategyInfo pe"
  by (simp add: PitEntry_clearStrategyInfo_def FaceRecord_clearStrategyInfo_def)

lemma clear_clear_measurements [simp]:
  "MeasurementsEntry_clearStrategyInfo (MeasurementsEntry_clearStrategyInfo me) = MeasurementsEntry_clearStrategyInfo me"
  by (simp add: MeasurementsEntry_clearStrategyInfo_def)

lemma map_clear_clear [simp]:
  "map_option MeasurementsEntry_clearStrategyInfo (map_option MeasurementsEntry_clearStrategyInfo me)
     = map_option MeasurementsEntry_clearStrategyInfo me"
  by (cases me) simp_all

lemma clearStrategyInfo_maps:
  assumes "nt_inv city \<tau> nt" "nt_has nt k"
  shows "nt_inv city \<tau> (clearStrategyInfo k nt)" "nt_has (clearStrategyInfo k nt) = nt_has nt"
    "pit_map (clearStrategyInfo k nt) = (pit_map nt)(k := map PitEntry_clearStrategyInfo (pit_map nt k))"
    "fib_map (clearStrategyInfo k nt) = fib_map nt"
    "measurements_map (clearStrategyInfo k nt) =
       (measurements_map nt)(k := map_option MeasurementsEntry_clearStrategyInfo (measurements_map nt k))"
    "strategy_map (clearStrategyInfo k nt) = strategy_map nt"
  using assms nt_update_inv [OF nt_update_inv [OF assms(1)]] unfolding clearStrategyInfo_def
  by (simp_all add: table_maps_update table_maps_update_other)

text \<open>An entry of the PIT and one of the measurements without strategy information, all else kept.\<close>

definition pit_without_info :: "pit_entry \<Rightarrow> pit_entry" where
  "pit_without_info pe = \<lparr>pit_interest = pit_interest pe,
     pit_inRecords = map (\<lambda>r. r\<lparr>rec_strategyInfo := []\<rparr>) (pit_inRecords pe),
     pit_outRecords = map (\<lambda>r. r\<lparr>rec_strategyInfo := []\<rparr>) (pit_outRecords pe),
     pit_unsatisfyTimer = pit_unsatisfyTimer pe, pit_stragglerTimer = pit_stragglerTimer pe, pit_suppressionInterval = None\<rparr>"

definition measurements_without_info :: "measurements_entry \<Rightarrow> measurements_entry" where
  "measurements_without_info me = \<lparr>me_name = me_name me, me_expiry = me_expiry me, me_strategyInfo = []\<rparr>"

lemma without_info:
  "PitEntry_clearStrategyInfo = pit_without_info" "MeasurementsEntry_clearStrategyInfo = measurements_without_info"
  by (simp_all add: fun_eq_iff PitEntry_clearStrategyInfo_def FaceRecord_clearStrategyInfo_def pit_without_info_def
      MeasurementsEntry_clearStrategyInfo_def measurements_without_info_def)

text \<open>The strategy information is reset for the names of a set, and nowhere else.\<close>

definition sc_cleared :: "(name \<Rightarrow> bool) \<Rightarrow> nametree \<Rightarrow> nametree \<Rightarrow> bool" where
  "sc_cleared Z nt nt' \<longleftrightarrow>
     (\<forall>k. pit_map nt' k = (if Z k then map pit_without_info (pit_map nt k) else pit_map nt k)) \<and>
     (\<forall>k. measurements_map nt' k =
        (if Z k then map_option measurements_without_info (measurements_map nt k) else measurements_map nt k))"

lemma sc_cleared_iff:
  "sc_cleared Z nt nt' \<longleftrightarrow>
     (\<forall>k. pit_map nt' k = (if Z k then map PitEntry_clearStrategyInfo (pit_map nt k) else pit_map nt k)) \<and>
     (\<forall>k. measurements_map nt' k =
        (if Z k then map_option MeasurementsEntry_clearStrategyInfo (measurements_map nt k) else measurements_map nt k))"
  by (simp add: sc_cleared_def without_info)

lemma sc_cleared_cong:
  assumes "sc_cleared Z nt nt1" "pit_map nt2 = pit_map nt1" "measurements_map nt2 = measurements_map nt1"
    and "pit_map nt0 = pit_map nt" "measurements_map nt0 = measurements_map nt" "\<And>k. Z' k = Z k"
  shows "sc_cleared Z' nt0 nt2"
  using assms by (simp add: sc_cleared_iff)

lemma fold_clearStrategyInfo:
  assumes "nt_inv city \<tau> nt" "\<forall>k \<in> set ks. nt_has nt k" "nt' = fold clearStrategyInfo ks nt"
  shows "nt_inv city \<tau> nt' \<and> nt_has nt' = nt_has nt \<and> sc_cleared (\<lambda>k. k \<in> set ks) nt nt' \<and>
    fib_map nt' = fib_map nt \<and> strategy_map nt' = strategy_map nt"
  using assms
proof (induction ks arbitrary: nt)
  case (Cons k ks)
  have "nt_has nt k" using Cons.prems(2) by simp
  note c = clearStrategyInfo_maps [OF Cons.prems(1) this]
  show ?case using Cons.IH [OF c(1)] Cons.prems(2,3) c(2-6) by (auto simp: sc_cleared_iff)
qed (simp add: sc_cleared_iff)

lemma selected_governor:
  assumes "nt_inv city \<tau> nt" "strategy_map nt p \<noteq> None"
  shows "selected_below (changeStrategy_selector p) nt p = {k \<in> dom (nt_store nt). sc_governor nt k = Some p}"
proof -
  have "(\<forall>a. prefix p a \<longrightarrow> prefix a k \<longrightarrow> a = p \<or> strategy_map nt a = None)
      \<longleftrightarrow> (\<forall>k'. prefix k' k \<longrightarrow> strategy_map nt k' \<noteq> None \<longrightarrow> prefix k' p)" if "prefix p k" for k
    using that prefix_same_cases [of p k] by (metis prefix_order.antisym prefix_order.refl)
  moreover have "k \<in> selected_below (changeStrategy_selector p) nt p \<longleftrightarrow> k \<in> dom (nt_store nt) \<and> prefix p k \<and>
      (\<forall>a. prefix p a \<longrightarrow> prefix a k \<longrightarrow> a = p \<or> strategy_map nt a = None)" for k
    by (auto simp: selected_below_def changeStrategy_selector_def strict_prefix_def split: if_splits)
  ultimately show ?thesis using assms(2) by (auto simp: governor_iff)
qed

lemma changeStrategy_correct:
  assumes "nt_inv city \<tau> nt" "typed \<tau> p" "strategy_map nt p \<noteq> None"
  shows "\<exists>nt'. StrategyChoice_changeStrategy city p old new nt = Some nt' \<and> nt_inv city \<tau> nt' \<and>
    nt_has nt' = nt_has nt \<and> sc_cleared (\<lambda>k. old \<noteq> new \<and> sc_governor nt k = Some p) nt nt' \<and>
    fib_map nt' = fib_map nt \<and> strategy_map nt' = strategy_map nt"
proof (cases "old = new")
  case True
  then show ?thesis using assms(1) by (simp add: StrategyChoice_changeStrategy_def sc_cleared_iff)
next
  case False
  let ?sel = "changeStrategy_selector p"
  have p: "p \<in> dom (nt_store nt)" using has_contract(4) [OF assms(3)] by (simp add: nt_has_def)
  have set: "set (pre ?sel nt p) = {k \<in> dom (nt_store nt). sc_governor nt k = Some p}"
    using pre_set [OF assms(1) p] selected_governor [OF assms(1,3)] by simp
  have "sc_cleared (\<lambda>k. old \<noteq> new \<and> sc_governor nt k = Some p) nt nt'" if "sc_cleared (\<lambda>k. k \<in> set (pre ?sel nt p)) nt nt'" for nt'
    using that False table_maps_absent(2,3) [of _ nt] unfolding sc_cleared_iff set by (auto simp: domIff)
  then show ?thesis
    using fold_clearStrategyInfo [OF assms(1), of "pre ?sel nt p"] set False p partialEnumerate_correct [OF assms(1,2), of ?sel]
    by (simp add: StrategyChoice_changeStrategy_def nt_has_def)
qed

section \<open>Insertion and erasure\<close>

text \<open>The table is well-formed: the instances are in order, every entry of the table has an installed
  strategy, and the root has an entry, so that some strategy is effective everywhere.\<close>

definition sc_inv :: "(bytes \<Rightarrow> u32) \<Rightarrow> nametree \<Rightarrow> strategy_choice \<Rightarrow> bool" where
  "sc_inv \<tau> nt sc \<longleftrightarrow> sorted_wrt (<) (sc_instances sc) \<and> (\<forall>s \<in> set (sc_instances sc). typed \<tau> s \<and> length s \<le> npos)
     \<and> (\<forall>k se. strategy_map nt k = Some se \<longrightarrow> sc_strategy se \<in> set (sc_instances sc)) \<and> strategy_map nt [] \<noteq> None"

lemma getStrategy_loop_mem:
  "getStrategy_loop q c ss = Some s \<Longrightarrow> s \<in> set ss \<or> c = Some s"
  by (induction q c ss rule: getStrategy_loop.induct) (auto split: if_splits)

lemma getStrategy_mem: "StrategyChoice_getStrategy q sc = Some s \<Longrightarrow> s \<in> set (sc_instances sc)"
  unfolding StrategyChoice_getStrategy_def by (auto dest!: getStrategy_loop_mem set_dropWhileD)

text \<open>The loop scans the instances under the name it is given, in order.\<close>

lemma getStrategy_loop_filter:
  assumes "sorted_wrt (<) ss" "\<forall>s \<in> set ss. q \<le> s \<and> typed \<tau> s" "typed \<tau> q"
  shows "getStrategy_loop q c ss = (if q \<in> set ss then Some q else
    case rev (filter (\<lambda>s. s \<noteq> [] \<and> butlast s = q) ss) of [] \<Rightarrow> c | s # _ \<Rightarrow> Some s)"
  using assms
proof (induction ss arbitrary: c)
  case (Cons s ss)
  have IH: "getStrategy_loop q c ss = (if q \<in> set ss then Some q else
      case rev (filter (\<lambda>s. s \<noteq> [] \<and> butlast s = q) ss) of [] \<Rightarrow> c | s # _ \<Rightarrow> Some s)" for c
    using Cons by simp
  have pre: "Name_isPrefixOf q s \<longleftrightarrow> prefix q s" using Cons.prems by (simp add: Name_isPrefixOf_typed)
  have child: "(s \<noteq> [] \<and> butlast s = q) \<longleftrightarrow> length s - length q = 1" if "prefix q s"
  proof -
    from that obtain zs where "s = q @ zs" by (auto simp: prefix_def)
    then show ?thesis by (cases zs rule: rev_cases) (auto simp: butlast_append)
  qed
  show ?case
  proof (cases "prefix q s")
    case False
    have "\<not> prefix q x" if "x \<in> set (s # ss)" for x
      using that False Cons.prems prefix_between [of q x s] by fastforce
    then have "q \<notin> set (s # ss)" "filter (\<lambda>s. s \<noteq> [] \<and> butlast s = q) (s # ss) = []"
      using prefixeq_butlast by (auto simp: filter_empty_conv simp del: filter.simps)
    then show ?thesis using False pre by simp
  next
    case True
    have "q \<notin> set ss" if "q = s" using that Cons.prems by auto
    moreover have "q = s \<longleftrightarrow> length s - length q = 0" using True by (auto simp: prefix_def)
    ultimately show ?thesis using True pre child IH
      by (cases "q = s") (auto split: list.split)
  qed
qed simp

text \<open>\<open>getStrategy\<close> prefers the instance with exactly the name; without one it takes the greatest, and so
  the latest, version.\<close>

lemma getStrategy_correct:
  assumes "sc_inv \<tau> nt sc" "typed \<tau> q" "length q \<le> npos"
  shows "case StrategyChoice_getStrategy q sc of
      None \<Rightarrow> q \<notin> set (sc_instances sc) \<and> (\<forall>s \<in> set (sc_instances sc). s \<noteq> [] \<longrightarrow> butlast s \<noteq> q)
    | Some s \<Rightarrow> s \<in> set (sc_instances sc) \<and> (q \<in> set (sc_instances sc) \<longrightarrow> s = q) \<and>
        (q \<notin> set (sc_instances sc) \<longrightarrow> s \<noteq> [] \<and> butlast s = q \<and>
           (\<forall>s' \<in> set (sc_instances sc). s' \<noteq> [] \<and> butlast s' = q \<longrightarrow> s' \<le> s))"
proof -
  let ?I = "sc_instances sc"
  have srt: "sorted_wrt (<) ?I" and ty: "\<forall>s \<in> set ?I. typed \<tau> s \<and> length s \<le> npos" using assms(1) by (auto simp: sc_inv_def)
  have "dropWhile (\<lambda>s. Name_compare s q < 0) ?I = dropWhile (\<lambda>s. s < q) ?I"
    using ty assms(3) by (intro dropWhile_cong) (auto simp: Name_compare_lex)
  also have "\<dots> = filter (\<lambda>s. q \<le> s) ?I" using sorted_dropWhile_filter(1) [of "\<lambda>s. s" ?I q] srt by simp
  finally have "StrategyChoice_getStrategy q sc = getStrategy_loop q None (filter (\<lambda>s. q \<le> s) ?I)"
    by (simp only: StrategyChoice_getStrategy_def)
  also have "\<dots> = (if q \<in> set (filter (\<lambda>s. q \<le> s) ?I) then Some q else
      case rev (filter (\<lambda>s. s \<noteq> [] \<and> butlast s = q) (filter (\<lambda>s. q \<le> s) ?I)) of [] \<Rightarrow> None | s # _ \<Rightarrow> Some s)"
    by (rule getStrategy_loop_filter) (use srt ty assms(2) in \<open>auto intro: sorted_wrt_filter\<close>)
  finally have g: "StrategyChoice_getStrategy q sc = (if q \<in> set ?I then Some q else
      case rev (filter (\<lambda>s. s \<noteq> [] \<and> butlast s = q) (filter (\<lambda>s. q \<le> s) ?I)) of [] \<Rightarrow> None | s # _ \<Rightarrow> Some s)"
    by (simp only: set_filter mem_Collect_eq order.refl simp_thms)
  have "q \<le> s" if "s \<noteq> []" "butlast s = q" for s
    using take_le [of "length s - 1" s] that by (simp add: butlast_conv_take)
  then have f: "filter (\<lambda>s. s \<noteq> [] \<and> butlast s = q) (filter (\<lambda>s. q \<le> s) ?I) = filter (\<lambda>s. s \<noteq> [] \<and> butlast s = q) ?I"
    by (auto intro!: filter_cong)
  show ?thesis
  proof (cases "q \<in> set ?I \<or> filter (\<lambda>s. s \<noteq> [] \<and> butlast s = q) ?I = []")
    case True
    then show ?thesis
    proof
      assume "filter (\<lambda>s. s \<noteq> [] \<and> butlast s = q) ?I = []"
      moreover from this have "\<forall>s \<in> set ?I. s \<noteq> [] \<longrightarrow> butlast s \<noteq> q" by (auto simp: filter_empty_conv)
      ultimately show ?thesis unfolding g f by simp
    qed (simp add: g)
  next
    case False
    then obtain xs s where s: "filter (\<lambda>s. s \<noteq> [] \<and> butlast s = q) ?I = xs @ [s]" by (metis rev_exhaust)
    have "sorted_wrt (<) (xs @ [s])" unfolding s [symmetric] using srt by (rule sorted_wrt_filter)
    then have le: "\<forall>s' \<in> set (xs @ [s]). s' \<le> s" by (auto simp: sorted_wrt_append)
    have mem: "s' \<in> set (xs @ [s]) \<longleftrightarrow> s' \<in> set ?I \<and> s' \<noteq> [] \<and> butlast s' = q" for s' unfolding s [symmetric] by auto
    have "\<forall>s' \<in> set ?I. s' \<noteq> [] \<and> butlast s' = q \<longrightarrow> s' \<le> s" using le mem by blast
    moreover have "s \<in> set ?I" "s \<noteq> []" "butlast s = q" using mem [of s] by simp_all
    moreover have "StrategyChoice_getStrategy q sc = Some s" unfolding g f s using False by simp
    ultimately show ?thesis using False by simp
  qed
qed

text \<open>The names for which a prefix decides if it has an entry.\<close>

definition sc_zone :: "nametree \<Rightarrow> name \<Rightarrow> name \<Rightarrow> bool" where
  "sc_zone nt p k \<longleftrightarrow> prefix p k \<and> (\<forall>a. strict_prefix p a \<longrightarrow> prefix a k \<longrightarrow> strategy_map nt a = None)"

lemma zone_governor: "strategy_map nt p \<noteq> None \<Longrightarrow> sc_governor nt k = Some p \<longleftrightarrow> sc_zone nt p k"
  unfolding governor_iff sc_zone_def strict_prefix_def
  using prefix_same_cases [of p k] by (auto dest: prefix_order.antisym) (metis option.distinct(1) prefix_order.refl)

lemma zone_below: "sc_zone nt p k \<Longrightarrow> sc_effective nt k = sc_effective nt p"
proof -
  assume z: "sc_zone nt p k"
  then obtain zs where k: "k = p @ zs" by (auto simp: sc_zone_def prefix_def)
  have "sc_governor nt (p @ zs) = sc_governor nt p"
    using z unfolding k
  proof (induction zs rule: rev_induct)
    case (snoc z zs)
    have "strategy_map nt (p @ zs @ [z]) = None" using snoc.prems by (simp add: sc_zone_def strict_prefix_def)
    moreover have "sc_zone nt p (p @ zs)"
      using snoc.prems by (auto simp: sc_zone_def) (metis append.assoc prefix_snoc)
    ultimately show ?case using snoc.IH by (simp add: sc_governor_def prefixes_snoc flip: append_assoc)
  qed simp
  then show ?thesis by (simp add: sc_effective_def k)
qed

lemma effective_prefix_cong:
  assumes "\<And>a. prefix a k \<Longrightarrow> strategy_map nt' a = strategy_map nt a"
  shows "sc_effective nt' k = sc_effective nt k"
proof -
  have "sc_governor nt' k = sc_governor nt k"
    unfolding sc_governor_def using assms by (intro find_cong) auto
  moreover have "strategy_map nt' g = strategy_map nt g" if "sc_governor nt k = Some g" for g
    using that assms by (simp add: governor_iff)
  ultimately show ?thesis by (simp add: sc_effective_def split: option.split)
qed

lemma zone_outside:
  assumes "strategy_map nt' = (strategy_map nt)(p := x)" "\<not> sc_zone nt p k"
  shows "sc_effective nt' k = sc_effective nt k"
proof (cases "prefix p k")
  case True
  then obtain a where a: "strict_prefix p a" "prefix a k" "strategy_map nt a \<noteq> None"
    using assms(2) by (auto simp: sc_zone_def)
  then obtain g where g: "sc_governor nt k = Some g" using governor_none [of nt k] by fastforce
  have "prefix a g" using g a by (auto simp: governor_iff)
  then have "strict_prefix p g" using a(1) by (rule prefix_order.less_le_trans [rotated])
  then have "sc_governor nt' k = Some g" using g assms(1) by (auto simp: governor_iff)
  then show ?thesis using g assms(1) \<open>strict_prefix p g\<close> by (auto simp: sc_effective_def)
qed (use assms(1) in \<open>auto intro!: effective_prefix_cong\<close>)

lemma zone_cong: "strategy_map nt' = (strategy_map nt)(p := x) \<Longrightarrow> sc_zone nt' p k = sc_zone nt p k"
  by (auto simp: sc_zone_def)

text \<open>What a change of one entry, with the reset, does to all names: exactly where the effective strategy
  changes the strategy information is reset.\<close>

lemma reset_exact:
  assumes "strategy_map nt' = (strategy_map nt)(p := x)" "sc_effective nt p = old" "sc_effective nt' p = new"
  shows "(old \<noteq> new \<and> sc_zone nt p k) \<longleftrightarrow> sc_effective nt' k \<noteq> sc_effective nt k"
proof (cases "sc_zone nt p k")
  case True
  then have "sc_zone nt' p k" using zone_cong [OF assms(1)] by simp
  with True show ?thesis using zone_below [of nt p k] zone_below [of nt' p k] assms(2,3) by auto
next
  case False
  then show ?thesis using zone_outside [OF assms(1)] by simp
qed

text \<open>What a change of the entry of a prefix to a strategy, or to none, does as a whole.\<close>

definition sc_changed :: "nametree \<Rightarrow> name \<Rightarrow> name option \<Rightarrow> nametree \<Rightarrow> bool" where
  "sc_changed nt p s nt' \<longleftrightarrow> fib_map nt' = fib_map nt \<and>
     (\<forall>k. map_option sc_strategy (strategy_map nt' k) = (if k = p then s else map_option sc_strategy (strategy_map nt k))) \<and>
     sc_cleared (\<lambda>k. sc_effective nt' k \<noteq> sc_effective nt k) nt nt'"

lemma sc_changed_cong:
  assumes "same_tables nt nt0" "sc_changed nt p s nt'"
  shows "sc_changed nt0 p s nt'"
  using assms effective_cong [of nt nt0] by (simp add: sc_changed_def same_tables_def sc_cleared_iff)

lemma effective_at: "strategy_map nt p = Some se \<Longrightarrow> sc_effective nt p = Some (sc_strategy se)"
  using governor_iff [of nt p p] by (simp add: sc_effective_def)

lemma changed_entry:
  assumes "nt_inv city \<tau> nt" "typed \<tau> p" "strategy_map nt p = Some se" "sc_strategy se = old"
  shows "\<exists>nt2. StrategyChoice_changeStrategy city p (Some old) (Some s) nt = Some nt2 \<and> nt_inv city \<tau> (setStrategy p s nt2) \<and>
    strategy_map (setStrategy p s nt2) = (strategy_map nt)(p \<mapsto> se\<lparr>sc_strategy := s\<rparr>) \<and>
    sc_changed nt p (Some s) (setStrategy p s nt2)"
proof -
  have sp: "strategy_map nt p \<noteq> None" using assms(3) by simp
  from changeStrategy_correct [OF assms(1,2) sp, of "Some old" "Some s"] obtain nt2 where
    nt2: "StrategyChoice_changeStrategy city p (Some old) (Some s) nt = Some nt2" "nt_inv city \<tau> nt2" "nt_has nt2 = nt_has nt"
      "sc_cleared (\<lambda>k. Some old \<noteq> Some s \<and> sc_governor nt k = Some p) nt nt2"
      "fib_map nt2 = fib_map nt" "strategy_map nt2 = strategy_map nt" by blast
  have "nt_has nt2 p" using nt2(3) has_contract(4) [OF sp] by simp
  then have maps: "nt_inv city \<tau> (setStrategy p s nt2)"
    "strategy_map (setStrategy p s nt2) = (strategy_map nt)(p := Some (se\<lparr>sc_strategy := s\<rparr>))"
    "pit_map (setStrategy p s nt2) = pit_map nt2" "fib_map (setStrategy p s nt2) = fib_map nt"
    "measurements_map (setStrategy p s nt2) = measurements_map nt2"
    using nt2 assms(3) nt_update_inv [OF nt2(2)] by (simp_all add: setStrategy_def table_maps_update table_maps_update_other)
  have "sc_effective nt p = Some old" "sc_effective (setStrategy p s nt2) p = Some s"
    using effective_at [OF assms(3)] effective_at [of "setStrategy p s nt2" p] maps(2) assms(4) by simp_all
  note r = reset_exact [OF maps(2) this]
  have "sc_cleared (\<lambda>k. sc_effective (setStrategy p s nt2) k \<noteq> sc_effective nt k) nt (setStrategy p s nt2)"
    by (rule sc_cleared_cong [OF nt2(4) maps(3,5) refl refl]) (simp only: r [symmetric] zone_governor [OF sp])
  then have "sc_changed nt p (Some s) (setStrategy p s nt2)" using maps(2,4) by (simp add: sc_changed_def)
  then show ?thesis using nt2(1) maps(1,2) by blast
qed

lemma sc_changed_same:
  assumes "same_tables nt' nt" "map_option sc_strategy (strategy_map nt p) = s"
  shows "sc_changed nt p s nt'"
  using assms effective_cong [of nt' nt] by (simp add: sc_changed_def same_tables_def sc_cleared_iff)

lemma sc_inv_changed:
  assumes "sc_inv \<tau> nt sc" "sc_changed nt p s nt'" "\<forall>x. s = Some x \<longrightarrow> x \<in> set (sc_instances sc)"
    and "p = [] \<longrightarrow> s \<noteq> None" "sc_instances sc' = sc_instances sc"
  shows "sc_inv \<tau> nt' sc'"
proof -
  have m: "map_option sc_strategy (strategy_map nt' k) = (if k = p then s else map_option sc_strategy (strategy_map nt k))" for k
    using assms(2) by (simp add: sc_changed_def)
  have "sc_strategy se \<in> set (sc_instances sc)" if "strategy_map nt' k = Some se" for k se
    using m [of k] that assms(1,3) by (cases "strategy_map nt k") (auto simp: sc_inv_def split: if_splits)
  moreover have "strategy_map nt' [] \<noteq> None" using m [of "[]"] assms(1,4) by (auto simp: sc_inv_def split: if_splits)
  ultimately show ?thesis using assms(1,5) by (simp add: sc_inv_def)
qed

lemma setStrategyChoiceEntry_maps:
  assumes "nt_inv city \<tau> nt" "nt_has nt p"
  shows "nt_inv city \<tau> (setStrategyChoiceEntry p x nt)" "nt_has (setStrategyChoiceEntry p x nt) = nt_has nt"
    "strategy_map (setStrategyChoiceEntry p x nt) = (strategy_map nt)(p := x)"
    "pit_map (setStrategyChoiceEntry p x nt) = pit_map nt" "fib_map (setStrategyChoiceEntry p x nt) = fib_map nt"
    "measurements_map (setStrategyChoiceEntry p x nt) = measurements_map nt"
  using nt_update_inv [OF assms(1)] table_maps_update(4) [OF assms(2), of "\<lambda>_. x"]
    table_maps_update_other(10-12) [of p "\<lambda>_. x" nt]
  by (simp_all add: setStrategyChoiceEntry_def)

text \<open>A new entry, which takes effect where the entry of a shorter prefix has decided.\<close>

lemma changed_new:
  assumes "nt_inv city \<tau> nt" "typed \<tau> p" "strategy_map nt p = None" "nt_has nt p" "sc_effective nt p = old"
    and "nt1 = setStrategyChoiceEntry p (Some \<lparr>sc_prefix = p, sc_strategy = []\<rparr>) nt"
  shows "\<exists>nt2. StrategyChoice_changeStrategy city p old (Some s) nt1 = Some nt2 \<and> nt_inv city \<tau> (setStrategy p s nt2) \<and>
    sc_changed nt p (Some s) (setStrategy p s nt2)"
proof -
  have n1: "nt_inv city \<tau> nt1" "strategy_map nt1 = (strategy_map nt)(p \<mapsto> \<lparr>sc_prefix = p, sc_strategy = []\<rparr>)"
    "pit_map nt1 = pit_map nt" "fib_map nt1 = fib_map nt" "measurements_map nt1 = measurements_map nt" "nt_has nt1 = nt_has nt"
    unfolding assms(6) using setStrategyChoiceEntry_maps [OF assms(1,4)] by simp_all
  have sp: "strategy_map nt1 p \<noteq> None" using n1(2) by simp
  from changeStrategy_correct [OF n1(1) assms(2) sp, of old "Some s"] obtain nt2 where
    nt2: "StrategyChoice_changeStrategy city p old (Some s) nt1 = Some nt2" "nt_inv city \<tau> nt2" "nt_has nt2 = nt_has nt"
      "sc_cleared (\<lambda>k. old \<noteq> Some s \<and> sc_zone nt p k) nt1 nt2"
      "fib_map nt2 = fib_map nt" "strategy_map nt2 = strategy_map nt1"
    unfolding zone_governor [OF sp] zone_cong [OF n1(2)] n1(3-6) by blast
  have "nt_has nt2 p" using nt2(3) assms(4) by simp
  then have maps: "nt_inv city \<tau> (setStrategy p s nt2)"
    "strategy_map (setStrategy p s nt2) = (strategy_map nt)(p := Some \<lparr>sc_prefix = p, sc_strategy = s\<rparr>)"
    "pit_map (setStrategy p s nt2) = pit_map nt2" "fib_map (setStrategy p s nt2) = fib_map nt"
    "measurements_map (setStrategy p s nt2) = measurements_map nt2"
    using nt2 n1(2) nt_update_inv [OF nt2(2)] by (simp_all add: setStrategy_def table_maps_update table_maps_update_other)
  have "sc_effective (setStrategy p s nt2) p = Some s"
    using effective_at [of "setStrategy p s nt2" p] maps(2) by simp
  note r = reset_exact [OF maps(2) assms(5) this]
  have "sc_cleared (\<lambda>k. sc_effective (setStrategy p s nt2) k \<noteq> sc_effective nt k) nt (setStrategy p s nt2)"
    by (rule sc_cleared_cong [OF nt2(4) maps(3,5) n1(3,5) [symmetric]]) (simp only: r [symmetric])
  then have "sc_changed nt p (Some s) (setStrategy p s nt2)" using maps(2,4) by (simp add: sc_changed_def)
  then show ?thesis using nt2(1) maps(1) by blast
qed

lemma StrategyChoice_insert_correct:
  assumes "nt_inv city \<tau> nt" "sc_inv \<tau> nt sc" "typed \<tau> p" "nt_room nt p" "prefix_hashes_distinct city p"
    and "StrategyChoice_getStrategy q sc = Some s"
  shows "\<exists>nt' sc'. StrategyChoice_insert city p q (nt, sc) = Some (True, nt', sc') \<and> nt_inv city \<tau> nt' \<and>
    sc_inv \<tau> nt' sc' \<and> sc_changed nt p (Some s) nt'"
proof -
  obtain nt1 where lk: "NameTree_lookup city p nt = (p, nt1)"
    using lookup_contract(1) [OF assms(1,3,4)] by (metis prod.collapse)
  note l = lookup_contract(2-4) [OF assms(1,3,4), unfolded lk snd_conv]
  have sm: "strategy_map nt1 = strategy_map nt" using l(3) by (simp add: same_tables_def)
  have sI: "s \<in> set (sc_instances sc)" using getStrategy_mem [OF assms(6)] .
  note final = sc_inv_changed [OF assms(2), where s = "Some s" and p = p]
  show ?thesis
  proof (cases "strategy_map nt p")
    case None
    let ?nt2 = "setStrategyChoiceEntry p (Some \<lparr>sc_prefix = p, sc_strategy = []\<rparr>) nt1"
    have "sc_effective nt1 p = StrategyChoice_findEffectiveStrategy city p nt1"
      using findEffectiveStrategy_name [OF l(1) assms(3,5)] by simp
    from changed_new [OF l(1) assms(3) _ l(2) this refl, of s] obtain nt2 where
      c: "StrategyChoice_changeStrategy city p (StrategyChoice_findEffectiveStrategy city p nt1) (Some s) ?nt2 = Some nt2"
      "nt_inv city \<tau> (setStrategy p s nt2)" "sc_changed nt1 p (Some s) (setStrategy p s nt2)" using None sm by auto
    have "sc_changed nt p (Some s) (setStrategy p s nt2)" using sc_changed_cong [OF l(3) c(3)] .
    then show ?thesis using final [of "setStrategy p s nt2"] c(1,2) sI
      by (simp add: StrategyChoice_insert_def assms(6) lk sm None Let_def)
  next
    case (Some se)
    have ty: "typed \<tau> (sc_strategy se)" "typed \<tau> s" using Some assms(2) sI by (auto simp: sc_inv_def)
    show ?thesis
    proof (cases "sc_strategy se = s")
      case True
      then have "sc_changed nt p (Some s) nt1" using sc_changed_same [OF l(3), of p "Some s"] Some by simp
      moreover have "Name_equals s s" by (simp add: Name_equals_iff)
      ultimately show ?thesis using final [of nt1] l(1) sI True
        by (simp add: StrategyChoice_insert_def assms(6) lk sm Some)
    next
      case False
      from changed_entry [OF l(1) assms(3) _ refl, of se s] obtain nt2 where
        c: "StrategyChoice_changeStrategy city p (Some (sc_strategy se)) (Some s) nt1 = Some nt2"
        "nt_inv city \<tau> (setStrategy p s nt2)" "sc_changed nt1 p (Some s) (setStrategy p s nt2)" using Some sm by auto
      have "sc_changed nt p (Some s) (setStrategy p s nt2)" using sc_changed_cong [OF l(3) c(3)] .
      then show ?thesis using final [of "setStrategy p s nt2"] c(1,2) sI False
        by (simp add: StrategyChoice_insert_def assms(6) lk sm Some Name_equals_typed [OF ty])
    qed
  qed
qed

lemma effective_parent:
  assumes "strategy_map nt' = (strategy_map nt)(p := None)" "p \<noteq> []"
  shows "sc_effective nt' p = sc_effective nt (butlast p)"
proof -
  obtain p' c where p: "p = p' @ [c]" using assms(2) by (metis rev_exhaust)
  then have "sc_governor nt' p = sc_governor nt' p'" using assms(1) by (simp add: sc_governor_def prefixes_snoc)
  then have "sc_effective nt' p = sc_effective nt' p'" by (simp add: sc_effective_def)
  also have "\<dots> = sc_effective nt p'"
    using assms(1) p by (intro effective_prefix_cong) (auto dest: prefix_length_le)
  finally show ?thesis by (simp add: p)
qed

lemma StrategyChoice_erase_correct:
  assumes "nt_inv city \<tau> nt" "sc_inv \<tau> nt sc" "typed \<tau> p" "p \<noteq> []" "length p < npos" "prefix_hashes_distinct city (butlast p)"
  shows "\<exists>nt' sc'. StrategyChoice_erase city p (nt, sc) = Some (nt', sc') \<and> nt_inv city \<tau> nt' \<and>
    sc_inv \<tau> nt' sc' \<and> sc_changed nt p None nt'"
proof (cases "strategy_map nt p")
  case None
  then have "sc_changed nt p None nt" by (simp add: sc_changed_def sc_cleared_iff)
  then show ?thesis using assms(1,2) None findExactMatch_has [OF assms(1,3)] by (simp add: StrategyChoice_erase_def)
next
  case (Some se)
  then have sp: "strategy_map nt p \<noteq> None" and has: "nt_has nt p" using has_contract(4) [of nt p] by simp_all
  have tb: "typed \<tau> (butlast p)" using assms(3) by (auto simp: typed_def dest: in_set_butlastD)
  define new where "new = sc_effective nt (butlast p)"
  from changeStrategy_correct [OF assms(1,3) sp, of "Some (sc_strategy se)" new] obtain nt1 where
    nt1: "StrategyChoice_changeStrategy city p (Some (sc_strategy se)) new nt = Some nt1" "nt_inv city \<tau> nt1"
      "nt_has nt1 = nt_has nt"
      "sc_cleared (\<lambda>k. Some (sc_strategy se) \<noteq> new \<and> sc_zone nt p k) nt nt1"
      "fib_map nt1 = fib_map nt" "strategy_map nt1 = strategy_map nt"
    unfolding zone_governor [OF sp] by blast
  have h1: "nt_has nt1 p" using nt1(3) has by simp
  define nt2 where "nt2 = setStrategyChoiceEntry p None nt1"
  note m2 = setStrategyChoiceEntry_maps [OF nt1(2) h1, of None, folded nt2_def]
  have h2: "nt_has nt2 p" using m2(2) h1 by simp
  define nt' where "nt' = nt_erase p nt2"
  note e = erase_contract [OF m2(1) h2, folded nt'_def]
  have maps: "strategy_map nt' = (strategy_map nt)(p := None)" "pit_map nt' = pit_map nt1" "fib_map nt' = fib_map nt"
    "measurements_map nt' = measurements_map nt1" using e(2) m2(3-6) nt1(5,6) by (simp_all add: same_tables_def)
  have "sc_effective nt p = Some (sc_strategy se)" "sc_effective nt' p = new"
    using effective_at [OF Some] effective_parent [OF maps(1) assms(4)] by (simp_all add: new_def)
  note r = reset_exact [OF maps(1) this]
  have "sc_cleared (\<lambda>k. sc_effective nt' k \<noteq> sc_effective nt k) nt nt'"
    by (rule sc_cleared_cong [OF nt1(4) maps(2,4) refl refl]) (simp only: r [symmetric])
  then have ch: "sc_changed nt p None nt'" using maps(1,3) by (simp add: sc_changed_def)
  have "StrategyChoice_findEffectiveStrategy city (Name_getPrefix p (-1)) nt = new"
    using findEffectiveStrategy_name [OF assms(1) tb assms(6)] assms(4,5) by (simp add: Name_getPrefix_butlast new_def)
  then have "StrategyChoice_erase city p (nt, sc) = Some (nt', sc\<lparr>sc_nItems := sc_nItems sc - 1\<rparr>)"
    using nt1(1) has Some findExactMatch_has [OF assms(1,3)]
    by (simp add: StrategyChoice_erase_def nt'_def nt2_def nt_erase_def)
  then show ?thesis using e(1) ch sc_inv_changed [OF assms(2) ch, of "sc\<lparr>sc_nItems := sc_nItems sc - 1\<rparr>"] assms(4) by simp
qed

lemma StrategyChoice_ctor_correct:
  assumes "nt_inv city \<tau> nt" "nt_room nt []" "\<forall>k. strategy_map nt k = None" "typed \<tau> s" "length s \<le> npos"
    and "StrategyChoice_ctor city s nt = (nt', sc)"
  shows "nt_inv city \<tau> nt'" "sc_inv \<tau> nt' sc" "\<forall>k. sc_effective nt' k = Some s"
    "pit_map nt' = pit_map nt"
proof -
  have t: "typed \<tau> []" by (simp add: typed_def)
  obtain nt1 where lk: "NameTree_lookup city [] nt = ([], nt1)"
    using lookup_contract(1) [OF assms(1) t assms(2)] by (metis prod.collapse)
  note l = lookup_contract(2-4) [OF assms(1) t assms(2), unfolded lk snd_conv]
  define nt2 where "nt2 = setStrategyChoiceEntry [] (Some \<lparr>sc_prefix = [], sc_strategy = []\<rparr>) nt1"
  note m2 = setStrategyChoiceEntry_maps [OF l(1,2), of "Some \<lparr>sc_prefix = [], sc_strategy = []\<rparr>", folded nt2_def]
  have nt': "nt' = setStrategy [] s nt2" "sc_instances sc = [s]"
    using assms(6) by (auto simp: StrategyChoice_ctor_def StrategyChoice_setDefaultStrategy_def lk nt2_def
        StrategyChoice_install_def StrategyChoice_hasStrategy_def)
  have "nt_has nt2 []" using m2(2) l(2) by simp
  then have sm: "strategy_map nt' = (\<lambda>_. None)([] \<mapsto> \<lparr>sc_prefix = [], sc_strategy = s\<rparr>)"
    using m2(3) l(3) assms(3) by (auto simp: nt' setStrategy_def table_maps_update same_tables_def)
  show "nt_inv city \<tau> nt'" using nt_update_inv [OF m2(1)] by (simp add: nt' setStrategy_def)
  show "pit_map nt' = pit_map nt" using m2(4) l(3) by (simp add: nt' setStrategy_def table_maps_update_other same_tables_def)
  show "sc_inv \<tau> nt' sc" using assms(4,5) sm nt'(2) by (auto simp: sc_inv_def split: if_splits)
  have "sc_governor nt' k = Some []" for k using sm by (auto simp: governor_iff split: if_splits)
  then show "\<forall>k. sc_effective nt' k = Some s" using sm by (simp add: sc_effective_def)
qed

end
