(* ===== verification/DeadNonces.thy ===== *)
theory DeadNonces
  imports PitFib
begin

text \<open>
  The Dead Nonce List, from \<open>NFD/daemon/table/dead-nonce-list.cpp\<close>: a queue of 64-bit hash values of
  names and nonces, in which marks inserted at fixed intervals measure how long an entry stays, and
  a capacity that is adjusted so that it stays about the lifetime asked for. The hash function
  \<open>CityHash64WithSeed\<close> is an argument. The index over the same elements, \<open>m_ht\<close>, is the set of the
  queue. The two periodic events are operations; the state has the times at which they are due and the
  event identifiers the object remembers, an identifier being the time the event was scheduled for.
  The lemmas show the bounds of the capacity and how long an entry is guaranteed to stay.
\<close>

section \<open>State and operations\<close>

record dnl =
  dnl_lifetime :: int
  dnl_queue :: "u64 list"
  dnl_capacity :: nat
  dnl_markInterval :: int
  dnl_actualMarkCounts :: "nat multiset"
  dnl_markEvent :: timepoint
  dnl_markDue :: "timepoint option"
  dnl_adjustCapacityEvent :: timepoint
  dnl_adjustCapacityDue :: "timepoint option"

definition DEFAULT_LIFETIME :: int where "DEFAULT_LIFETIME = 6000000000"
definition MIN_LIFETIME :: int where "MIN_LIFETIME = 1000000"
definition INITIAL_CAPACITY :: nat where "INITIAL_CAPACITY = 2 ^ 7"
definition MIN_CAPACITY :: nat where "MIN_CAPACITY = 2 ^ 3"
definition MAX_CAPACITY :: nat where "MAX_CAPACITY = 2 ^ 24"
definition MARK :: u64 where "MARK = 0"
definition EXPECTED_MARK_COUNT :: nat where "EXPECTED_MARK_COUNT = 5"
definition EVICT_LIMIT :: nat where "EVICT_LIMIT = 2 ^ 6"

lemmas dnl_consts = INITIAL_CAPACITY_def MIN_CAPACITY_def MAX_CAPACITY_def MARK_def
  EXPECTED_MARK_COUNT_def EVICT_LIMIT_def MIN_LIFETIME_def DEFAULT_LIFETIME_def

text \<open>\<open>static_cast<size_t>(m_capacity * CAPACITY_DOWN)\<close> and \<open>CAPACITY_UP\<close>: the factors are 0.9 and 1.2;
  below \<open>2 ^ 24\<close> the rounding of the double product does not reach the next integer.\<close>

definition capacity_down :: "nat \<Rightarrow> nat" where "capacity_down c = c * 9 div 10"
definition capacity_up :: "nat \<Rightarrow> nat" where "capacity_up c = c * 12 div 10"

definition DeadNonceList_ctor :: "timepoint \<Rightarrow> int \<Rightarrow> dnl result" where
  "DeadNonceList_ctor now lifetime =
     (if lifetime < MIN_LIFETIME then Inl (InvalidArgument ''lifetime is less than MIN_LIFETIME'')
      else Inr \<lparr>dnl_lifetime = lifetime, dnl_queue = replicate EXPECTED_MARK_COUNT MARK,
        dnl_capacity = INITIAL_CAPACITY, dnl_markInterval = lifetime div int EXPECTED_MARK_COUNT,
        dnl_actualMarkCounts = {#}, dnl_markEvent = now + lifetime div int EXPECTED_MARK_COUNT,
        dnl_markDue = Some (now + lifetime div int EXPECTED_MARK_COUNT),
        dnl_adjustCapacityEvent = now + lifetime, dnl_adjustCapacityDue = Some (now + lifetime)\<rparr>)"

definition DeadNonceList_dtor :: "dnl \<Rightarrow> dnl" where
  "DeadNonceList_dtor d =
     d\<lparr>dnl_markDue := (if dnl_markDue d = Some (dnl_markEvent d) then None else dnl_markDue d),
       dnl_adjustCapacityDue := (if dnl_adjustCapacityDue d = Some (dnl_adjustCapacityEvent d) then None
                                 else dnl_adjustCapacityDue d)\<rparr>"

definition DeadNonceList_countMarks :: "dnl \<Rightarrow> nat" where
  "DeadNonceList_countMarks d = count_list (dnl_queue d) MARK"

definition DeadNonceList_size :: "dnl \<Rightarrow> nat" where
  "DeadNonceList_size d = length (dnl_queue d) - DeadNonceList_countMarks d"

definition DeadNonceList_makeEntry :: "(bytes \<Rightarrow> u64 \<Rightarrow> u64) \<Rightarrow> name \<Rightarrow> u32 \<Rightarrow> u64" where
  "DeadNonceList_makeEntry citySeed n nonce =
     citySeed (encodeBlock tlv_Name (name_payload n)) (ucast nonce)"

definition DeadNonceList_has :: "(bytes \<Rightarrow> u64 \<Rightarrow> u64) \<Rightarrow> name \<Rightarrow> u32 \<Rightarrow> dnl \<Rightarrow> bool" where
  "DeadNonceList_has citySeed n nonce d \<longleftrightarrow> DeadNonceList_makeEntry citySeed n nonce \<in> set (dnl_queue d)"

fun evict_loop :: "nat \<Rightarrow> u64 list \<Rightarrow> u64 list" where
  "evict_loop 0 q = q"
| "evict_loop (Suc nEvict) q = evict_loop nEvict (tl q)"

definition DeadNonceList_evictEntries :: "dnl \<Rightarrow> dnl" where
  "DeadNonceList_evictEntries d =
     (let nOverCapacity = int (length (dnl_queue d)) - int (dnl_capacity d)
      in if nOverCapacity \<le> 0 then d
         else d\<lparr>dnl_queue := evict_loop (min (nat nOverCapacity) EVICT_LIMIT) (dnl_queue d)\<rparr>)"

definition DeadNonceList_add :: "(bytes \<Rightarrow> u64 \<Rightarrow> u64) \<Rightarrow> name \<Rightarrow> u32 \<Rightarrow> dnl \<Rightarrow> dnl" where
  "DeadNonceList_add citySeed n nonce d =
     DeadNonceList_evictEntries (d\<lparr>dnl_queue := dnl_queue d @ [DeadNonceList_makeEntry citySeed n nonce]\<rparr>)"

definition DeadNonceList_mark :: "timepoint \<Rightarrow> dnl \<Rightarrow> dnl" where
  "DeadNonceList_mark now d =
     (let d1 = d\<lparr>dnl_queue := dnl_queue d @ [MARK]\<rparr>
      in d1\<lparr>dnl_actualMarkCounts := add_mset (DeadNonceList_countMarks d1) (dnl_actualMarkCounts d1),
            dnl_markDue := Some (now + dnl_markInterval d1)\<rparr>)"

text \<open>The ends of \<open>equal_range\<close>: its second iterator is at the beginning if no count is at most the
  expected one, its first at the end if none is at least that.\<close>

definition DeadNonceList_adjustCapacity :: "timepoint \<Rightarrow> dnl \<Rightarrow> dnl" where
  "DeadNonceList_adjustCapacity now d =
     (let c = (if \<forall>n \<in># dnl_actualMarkCounts d. EXPECTED_MARK_COUNT < n
               then max MIN_CAPACITY (capacity_down (dnl_capacity d))
               else if \<forall>n \<in># dnl_actualMarkCounts d. n < EXPECTED_MARK_COUNT
               then min MAX_CAPACITY (capacity_up (dnl_capacity d))
               else dnl_capacity d)
      in (DeadNonceList_evictEntries (d\<lparr>dnl_capacity := c, dnl_actualMarkCounts := {#}\<rparr>))
           \<lparr>dnl_adjustCapacityEvent := now + dnl_lifetime d,
             dnl_adjustCapacityDue := Some (now + dnl_lifetime d)\<rparr>)"


section \<open>Capacity\<close>

definition dnl_inv :: "dnl \<Rightarrow> bool" where
  [inv_simps]: "dnl_inv d \<longleftrightarrow> MIN_CAPACITY \<le> dnl_capacity d \<and> dnl_capacity d \<le> MAX_CAPACITY
     \<and> MIN_LIFETIME \<le> dnl_lifetime d \<and> dnl_markInterval d = dnl_lifetime d div int EXPECTED_MARK_COUNT"

datatype dnl_op = Add name u32 | Mark timepoint | AdjustCapacity timepoint

primrec dnl_apply :: "(bytes \<Rightarrow> u64 \<Rightarrow> u64) \<Rightarrow> dnl_op \<Rightarrow> dnl \<Rightarrow> dnl" where
  "dnl_apply citySeed (Add n nonce) d = DeadNonceList_add citySeed n nonce d"
| "dnl_apply citySeed (Mark now) d = DeadNonceList_mark now d"
| "dnl_apply citySeed (AdjustCapacity now) d = DeadNonceList_adjustCapacity now d"

lemma evict_loop_drop: "evict_loop n q = drop n q"
  by (induction n arbitrary: q) (simp_all add: drop_Suc)

lemma evictEntries_eq:
  "DeadNonceList_evictEntries d
     = d\<lparr>dnl_queue := drop (min (length (dnl_queue d) - dnl_capacity d) EVICT_LIMIT) (dnl_queue d)\<rparr>"
proof (cases "length (dnl_queue d) \<le> dnl_capacity d")
  case False
  then have "nat (int (length (dnl_queue d)) - int (dnl_capacity d)) = length (dnl_queue d) - dnl_capacity d"
    by simp
  with False show ?thesis by (simp add: DeadNonceList_evictEntries_def evict_loop_drop)
qed (simp add: DeadNonceList_evictEntries_def)

lemma dnl_inv_ctor: "DeadNonceList_ctor now lifetime = Inr d \<Longrightarrow> dnl_inv d"
  by (auto simp: DeadNonceList_ctor_def inv_simps dnl_consts split: if_splits)

lemma dnl_inv_apply: "dnl_inv d \<Longrightarrow> dnl_inv (dnl_apply c x d)"
  by (cases x) (auto simp: inv_simps DeadNonceList_add_def DeadNonceList_mark_def
      DeadNonceList_adjustCapacity_def evictEntries_eq Let_def dnl_consts capacity_up_def capacity_down_def)

lemma capacity_step:
  assumes "dnl_inv d"
  shows "dnl_capacity (DeadNonceList_adjustCapacity now d) \<le> dnl_capacity d + dnl_capacity d div 5"
    and "dnl_capacity d - dnl_capacity d div 10 - 1 \<le> dnl_capacity (DeadNonceList_adjustCapacity now d)"
  using assms by (auto simp: inv_simps DeadNonceList_adjustCapacity_def evictEntries_eq Let_def dnl_consts
      capacity_up_def capacity_down_def)

section \<open>How long an entry stays\<close>

text \<open>Eviction takes elements from the front and stops at the capacity, so what is followed by fewer
  elements than that is safe.\<close>

definition followed_by :: "u64 \<Rightarrow> nat \<Rightarrow> dnl \<Rightarrow> bool" where
  "followed_by e k d \<longleftrightarrow> (\<exists>ys zs. dnl_queue d = ys @ e # zs \<and> length zs \<le> k)"

lemma followed_by_mem: "followed_by e k d \<Longrightarrow> e \<in> set (dnl_queue d)"
  by (auto simp: followed_by_def)

lemma evict_followed_by:
  assumes "followed_by e k d" "k < dnl_capacity d"
  shows "followed_by e k (DeadNonceList_evictEntries d)"
proof -
  obtain ys zs where q: "dnl_queue d = ys @ e # zs" "length zs \<le> k"
    using assms(1) by (auto simp: followed_by_def)
  let ?n = "min (length (dnl_queue d) - dnl_capacity d) EVICT_LIMIT"
  have "?n \<le> length ys" using q assms(2) by simp
  then have "drop ?n (dnl_queue d) = drop ?n ys @ e # zs" by (simp add: q(1))
  then show ?thesis using q(2) by (auto simp: followed_by_def evictEntries_eq)
qed

lemma followed_by_push:
  "followed_by e k d \<Longrightarrow> followed_by e (Suc k) (d\<lparr>dnl_queue := dnl_queue d @ [x]\<rparr>)"
  by (auto simp: followed_by_def) (metis append_Cons append_assoc length_append_singleton Suc_le_mono)

lemma add_followed_by:
  assumes "0 < dnl_capacity d"
  shows "followed_by (DeadNonceList_makeEntry c n nonce) 0 (DeadNonceList_add c n nonce d)"
  unfolding DeadNonceList_add_def using assms
  by (intro evict_followed_by) (auto simp: followed_by_def)

primrec is_push :: "dnl_op \<Rightarrow> bool" where
  "is_push (Add n nonce) = True"
| "is_push (Mark now) = True"
| "is_push (AdjustCapacity now) = False"

abbreviation dnl_pushes :: "dnl_op list \<Rightarrow> nat" where
  "dnl_pushes xs \<equiv> length (filter is_push xs)"

lemma apply_followed_by:
  assumes "followed_by e k d" "k + dnl_pushes [x] < dnl_capacity (dnl_apply c x d)"
  shows "followed_by e (k + dnl_pushes [x]) (dnl_apply c x d)"
proof (cases x)
  case (Add n nonce)
  show ?thesis
    using evict_followed_by [OF followed_by_push [OF assms(1)]] assms(2)
    by (simp add: Add DeadNonceList_add_def) (simp add: evictEntries_eq)
next
  case (Mark now)
  then show ?thesis
    using followed_by_push [OF assms(1), of MARK] by (simp add: DeadNonceList_mark_def Let_def followed_by_def)
next
  case (AdjustCapacity now)
  let ?d = "d\<lparr>dnl_capacity := dnl_capacity (dnl_apply c x d), dnl_actualMarkCounts := {#}\<rparr>"
  have "followed_by e k (DeadNonceList_evictEntries ?d)"
    by (rule evict_followed_by) (use assms in \<open>simp_all add: AdjustCapacity followed_by_def\<close>)
  then show ?thesis
    by (simp add: AdjustCapacity DeadNonceList_adjustCapacity_def Let_def evictEntries_eq followed_by_def)
qed

lemma fold_followed_by:
  assumes "followed_by e k d"
    and "\<And>ys. prefix ys xs \<Longrightarrow> k + dnl_pushes ys < dnl_capacity (fold (dnl_apply c) ys d)"
  shows "followed_by e (k + dnl_pushes xs) (fold (dnl_apply c) xs d)"
  using assms
proof (induction xs arbitrary: k d)
  case (Cons x xs)
  have "followed_by e (k + dnl_pushes [x]) (dnl_apply c x d)"
    using apply_followed_by [OF Cons.prems(1), of x c] Cons.prems(2) [of "[x]"] by simp
  then show ?case
    using Cons.IH [of "k + dnl_pushes [x]" "dnl_apply c x d"] Cons.prems(2) [of "x # _"] by (simp split: if_splits)
qed simp

lemma dnl_inv_fold: "dnl_inv d \<Longrightarrow> dnl_inv (fold (dnl_apply c) xs d)"
  by (induction xs arbitrary: d) (simp_all add: dnl_inv_apply)

lemma add_capacity [simp]: "dnl_capacity (DeadNonceList_add c n nonce d) = dnl_capacity d"
  by (simp add: DeadNonceList_add_def evictEntries_eq)

lemma retention:
  assumes "0 < dnl_capacity d"
    and "\<And>ys. prefix ys xs \<Longrightarrow> dnl_pushes ys < dnl_capacity (fold (dnl_apply c) ys (DeadNonceList_add c n nonce d))"
  shows "DeadNonceList_has c n nonce (fold (dnl_apply c) xs (DeadNonceList_add c n nonce d))"
  unfolding DeadNonceList_has_def using assms(2)
  by (intro followed_by_mem [of _ "0 + dnl_pushes xs"] fold_followed_by add_followed_by [OF assms(1)]) simp_all

text \<open>Adding does not grow a list that is at its capacity.\<close>

lemma add_length:
  "length (dnl_queue (DeadNonceList_add c n nonce d)) \<le> max (length (dnl_queue d)) (dnl_capacity d)"
  by (auto simp: DeadNonceList_add_def evictEntries_eq EVICT_LIMIT_def)

lemma has_add_iff:
  "length (dnl_queue d) < dnl_capacity d \<Longrightarrow> DeadNonceList_has c m k (DeadNonceList_add c n nonce d) \<longleftrightarrow>
     DeadNonceList_has c m k d \<or> DeadNonceList_makeEntry c m k = DeadNonceList_makeEntry c n nonce"
  by (auto simp: DeadNonceList_add_def DeadNonceList_has_def evictEntries_eq)

text \<open>The identifier that \<open>mark\<close> gets when it schedules the next mark is lost: after the first mark the
  destructor no longer cancels the pending event.\<close>

lemma mark_not_cancelled:
  assumes "DeadNonceList_ctor now lifetime = Inr d" "0 < dnl_markInterval d" "dnl_markDue d = Some due"
  shows "dnl_markDue (DeadNonceList_dtor (DeadNonceList_mark due d)) = Some (due + dnl_markInterval d)"
  using assms by (auto simp: DeadNonceList_ctor_def DeadNonceList_dtor_def DeadNonceList_mark_def Let_def
      split: if_splits)

end
