(* ===== verification/ContentStore.thy ===== *)
theory ContentStore
  imports PitFib
begin

text \<open>
  The Content Store, from \<open>NFD/daemon/table/cs.cpp\<close>, \<open>cs-entry.cpp\<close>, \<open>cs-entry-impl.cpp\<close>, and its
  replacement policies \<open>cs-policy-lru.cpp\<close> and \<open>cs-policy-priority-fifo.cpp\<close>. The table, a
  \<open>std::set\<close>, is the list of its entries in order; an iterator is the full name of the Data it points
  to, or its position where the code compares iterators. A policy is a record of the virtual functions
  the store calls, on a state of its own; the signal by which it evicts is the call of \<open>Cs_evict\<close>.
  A lookup that has undefined behaviour in the code has the result \<open>None\<close>.
  The locale \<open>replacement_policy\<close> states what the store relies on, and both policies are shown to provide it.
\<close>

section \<open>Entries\<close>

definition TimePoint_max :: timepoint where "TimePoint_max = 2 ^ 63 - 1"

record cs_entry =
  cse_data :: data
  cse_isUnsolicited :: bool
  cse_staleTime :: timepoint

definition CsEntry_updateStaleTime :: "timepoint \<Rightarrow> cs_entry \<Rightarrow> cs_entry" where
  "CsEntry_updateStaleTime now e =
     e\<lparr>cse_staleTime := (if data_freshness (cse_data e) \<ge> 0
                        then now + milliseconds (data_freshness (cse_data e)) else TimePoint_max)\<rparr>"

definition CsEntry_setData :: "timepoint \<Rightarrow> data \<Rightarrow> bool \<Rightarrow> cs_entry" where
  "CsEntry_setData now d isUnsolicited =
     CsEntry_updateStaleTime now \<lparr>cse_data = d, cse_isUnsolicited = isUnsolicited, cse_staleTime = 0\<rparr>"

definition CsEntry_isStale :: "timepoint \<Rightarrow> cs_entry \<Rightarrow> bool" where
  "CsEntry_isStale now e \<longleftrightarrow> cse_staleTime e < now"

definition CsEntry_canStale :: "cs_entry \<Rightarrow> bool" where
  "CsEntry_canStale e \<longleftrightarrow> cse_staleTime e < TimePoint_max"

definition CsEntry_unsetUnsolicited :: "timepoint \<Rightarrow> cs_entry \<Rightarrow> cs_entry" where
  "CsEntry_unsetUnsolicited now e = CsEntry_setData now (cse_data e) False"

definition CsEntry_canSatisfy :: "(bytes \<Rightarrow> bytes) \<Rightarrow> timepoint \<Rightarrow> interest \<Rightarrow> cs_entry \<Rightarrow> bool" where
  "CsEntry_canSatisfy sha256 now i e =
     (if \<not> Interest_matchesData sha256 i (cse_data e) then False
      else if mustBeFresh (int_selectors i) \<and> CsEntry_isStale now e then False
      else True)"

definition compareQueryWithData :: "(bytes \<Rightarrow> bytes) \<Rightarrow> name \<Rightarrow> data \<Rightarrow> int" where
  "compareQueryWithData sha256 queryName d =
     (let queryIsFullName = queryName \<noteq> [] \<and> Component_isImplicitSha256Digest (last queryName);
          cmp = (if queryIsFullName
                 then Name_compare_range queryName 0 (length queryName - 1) (data_name d) 0 npos
                 else Name_compare queryName (data_name d))
      in if cmp \<noteq> 0 then cmp
         else if queryIsFullName
              then Component_compare (last queryName) (last (Data_getFullName sha256 d))
         else -1)"

definition compareDataWithData :: "(bytes \<Rightarrow> bytes) \<Rightarrow> data \<Rightarrow> data \<Rightarrow> int" where
  "compareDataWithData sha256 lhs rhs =
     (let cmp = Name_compare (data_name lhs) (data_name rhs)
      in if cmp \<noteq> 0 then cmp
         else Component_compare (last (Data_getFullName sha256 lhs)) (last (Data_getFullName sha256 rhs)))"

text \<open>\<open>operator<\<close> between two stored entries, and between a stored entry and a query.\<close>

definition EntryImpl_less :: "(bytes \<Rightarrow> bytes) \<Rightarrow> cs_entry \<Rightarrow> cs_entry \<Rightarrow> bool" where
  "EntryImpl_less sha256 a b \<longleftrightarrow> compareDataWithData sha256 (cse_data a) (cse_data b) < 0"

definition EntryImpl_less_query :: "(bytes \<Rightarrow> bytes) \<Rightarrow> cs_entry \<Rightarrow> name \<Rightarrow> bool" where
  "EntryImpl_less_query sha256 e queryName \<longleftrightarrow> compareQueryWithData sha256 queryName (cse_data e) > 0"

section \<open>Store\<close>

record 'p cs =
  cs_table :: "cs_entry list"
  cs_limit :: nat
  cs_policy :: 'p

abbreviation cs_key :: "(bytes \<Rightarrow> bytes) \<Rightarrow> cs_entry \<Rightarrow> name" where
  "cs_key sha256 e \<equiv> Data_getFullName sha256 (cse_data e)"

record 'p policy =
  doAfterInsert :: "timepoint \<Rightarrow> name \<Rightarrow> 'p cs \<Rightarrow> 'p cs"
  doAfterRefresh :: "timepoint \<Rightarrow> name \<Rightarrow> 'p cs \<Rightarrow> 'p cs"
  doBeforeErase :: "timepoint \<Rightarrow> name \<Rightarrow> 'p cs \<Rightarrow> 'p cs"
  doBeforeUse :: "timepoint \<Rightarrow> name \<Rightarrow> 'p cs \<Rightarrow> 'p cs"
  evictEntries :: "'p cs \<Rightarrow> 'p cs"

text \<open>The entry an iterator points to, and its change in place.\<close>

definition cs_get :: "(bytes \<Rightarrow> bytes) \<Rightarrow> name \<Rightarrow> cs_entry list \<Rightarrow> cs_entry option" where
  "cs_get sha256 k es = find (\<lambda>e. cs_key sha256 e = k) es"

definition cs_modify :: "(bytes \<Rightarrow> bytes) \<Rightarrow> name \<Rightarrow> (cs_entry \<Rightarrow> cs_entry) \<Rightarrow> cs_entry list \<Rightarrow> cs_entry list" where
  "cs_modify sha256 k f es = update_first (\<lambda>e. cs_key sha256 e = k) f es"

text \<open>The slot of the signal \<open>beforeEvict\<close>, connected in \<open>setPolicyImpl\<close>.\<close>

definition Cs_evict :: "(bytes \<Rightarrow> bytes) \<Rightarrow> name \<Rightarrow> 'p cs \<Rightarrow> 'p cs" where
  "Cs_evict sha256 k c = c\<lparr>cs_table := erase_first (\<lambda>e. cs_key sha256 e = k) (cs_table c)\<rparr>"

text \<open>The code asserts that the limit is positive; a limit of 0 is allowed here.\<close>

definition Policy_setLimit :: "'p policy \<Rightarrow> nat \<Rightarrow> 'p cs \<Rightarrow> 'p cs" where
  "Policy_setLimit pol nMaxEntries c = evictEntries pol (c\<lparr>cs_limit := nMaxEntries\<rparr>)"

definition Cs_setLimit :: "'p policy \<Rightarrow> nat \<Rightarrow> 'p cs \<Rightarrow> 'p cs" where
  "Cs_setLimit pol nMaxPackets c = Policy_setLimit pol nMaxPackets c"

text \<open>\<open>std::set::insert\<close>: nothing changes if an equivalent element is there.\<close>

fun set_insert :: "(bytes \<Rightarrow> bytes) \<Rightarrow> cs_entry \<Rightarrow> cs_entry list \<Rightarrow> cs_entry list \<times> name \<times> bool" where
  "set_insert sha256 e [] = ([e], cs_key sha256 e, True)"
| "set_insert sha256 e (x # xs) =
     (if EntryImpl_less sha256 x e then
        (let (xs', k, isNew) = set_insert sha256 e xs in (x # xs', k, isNew))
      else if EntryImpl_less sha256 e x then (e # x # xs, cs_key sha256 e, True)
      else (x # xs, cs_key sha256 x, False))"

definition Cs_insert ::
    "(bytes \<Rightarrow> bytes) \<Rightarrow> 'p policy \<Rightarrow> timepoint \<Rightarrow> data \<Rightarrow> bool \<Rightarrow> 'p cs \<Rightarrow> bool \<times> 'p cs" where
  "Cs_insert sha256 pol now d isUnsolicited c =
     (if data_noCache d then (False, c)
      else
        let (es1, it, isNewEntry) = set_insert sha256 (CsEntry_setData now d isUnsolicited) (cs_table c);
            es2 = cs_modify sha256 it (CsEntry_updateStaleTime now) es1
        in if \<not> isNewEntry then
             let es3 = cs_modify sha256 it (\<lambda>e. if cse_isUnsolicited e \<and> \<not> isUnsolicited
                                               then CsEntry_unsetUnsolicited now e else e) es2
             in (True, doAfterRefresh pol now it (c\<lparr>cs_table := es3\<rparr>))
           else (True, doAfterInsert pol now it (c\<lparr>cs_table := es2\<rparr>)))"

section \<open>Lookup\<close>

definition Cs_findLeftmost ::
    "(bytes \<Rightarrow> bytes) \<Rightarrow> timepoint \<Rightarrow> interest \<Rightarrow> cs_entry list \<Rightarrow> cs_entry option" where
  "Cs_findLeftmost sha256 now i es = find (CsEntry_canSatisfy sha256 now i) es"

definition Cs_findRightmostAmongExact ::
    "(bytes \<Rightarrow> bytes) \<Rightarrow> timepoint \<Rightarrow> interest \<Rightarrow> cs_entry list \<Rightarrow> cs_entry option" where
  "Cs_findRightmostAmongExact sha256 now i es = find (CsEntry_canSatisfy sha256 now i) (rev es)"

text \<open>Iterators are positions in the table. \<open>lower_bound\<close> is the first entry not below a query.\<close>

definition Cs_lower_bound :: "(bytes \<Rightarrow> bytes) \<Rightarrow> name \<Rightarrow> cs_entry list \<Rightarrow> nat" where
  "Cs_lower_bound sha256 q es = length (takeWhile (\<lambda>e. EntryImpl_less_query sha256 e q) es)"

text \<open>The loop of \<open>findRightmost\<close>, at the position \<open>right\<close>. The result is \<open>None\<close> where the code has undefined
  behaviour or does not end: it takes the predecessor of \<open>begin()\<close>, searches a range whose end is before its start, or
  makes no progress. The search
  for \<open>left\<close> is over the whole table, so \<open>right\<close> can get below \<open>first\<close>.\<close>

function Cs_findRightmost ::
    "(bytes \<Rightarrow> bytes) \<Rightarrow> timepoint \<Rightarrow> interest \<Rightarrow> cs_entry list \<Rightarrow> nat \<Rightarrow> nat \<Rightarrow> cs_entry option option" where
  "Cs_findRightmost sha256 now i es first right =
     (if right = first then Some None
      else if right = 0 then None
      else let prev = es ! (right - 1); interestNameLength = length (int_name i)
           in if length (data_name (cse_data prev)) = interestNameLength
              then (if right < first then None
                    else Some (Cs_findRightmostAmongExact sha256 now i (drop first (take right es))))
              else let pfx = take (interestNameLength + 1) (data_name (cse_data prev));
                       left = Cs_lower_bound sha256 pfx es
                   in if \<not> left < right then None
                      else case Cs_findLeftmost sha256 now i (drop left (take right es)) of
                             Some e \<Rightarrow> Some (Some e)
                           | None \<Rightarrow> Cs_findRightmost sha256 now i es first left)"
  by pat_completeness auto

termination by (relation "measure (\<lambda>(_, _, _, _, _, right). right)") auto

declare Cs_findRightmost.simps [simp del]

definition Cs_find ::
    "(bytes \<Rightarrow> bytes) \<Rightarrow> 'p policy \<Rightarrow> timepoint \<Rightarrow> interest \<Rightarrow> 'p cs \<Rightarrow> (data option \<times> 'p cs) option" where
  "Cs_find sha256 pol now i c =
     (let es = cs_table c; pfx = int_name i;
          isRightmost = childSelector (int_selectors i) = 1;
          first = Cs_lower_bound sha256 pfx es;
          last = (if length pfx > 0 then Cs_lower_bound sha256 (Name_getSuccessor pfx) es else length es);
          match = (if isRightmost then Cs_findRightmost sha256 now i es first last
                   else Some (Cs_findLeftmost sha256 now i (drop first (take last es))))
      in map_option (\<lambda>m. case m of
           None \<Rightarrow> (None, c)
         | Some e \<Rightarrow> (Some (cse_data e), doBeforeUse pol now (cs_key sha256 e) c)) match)"

section \<open>Policies\<close>

text \<open>The \<open>while\<close> loop of \<open>evictEntries\<close>: every round erases one entry, so the size of the table
  bounds the rounds.\<close>

fun evict_while :: "nat \<Rightarrow> ('p cs \<Rightarrow> 'p cs) \<Rightarrow> 'p cs \<Rightarrow> 'p cs" where
  "evict_while 0 evictOne c = c"
| "evict_while (Suc n) evictOne c =
     (if length (cs_table c) > cs_limit c then evict_while n evictOne (evictOne c) else c)"

subsection \<open>Least recently used\<close>

definition Lru_evictOne :: "(bytes \<Rightarrow> bytes) \<Rightarrow> name list cs \<Rightarrow> name list cs" where
  "Lru_evictOne sha256 c = (case cs_policy c of [] \<Rightarrow> c | i # q \<Rightarrow> Cs_evict sha256 i (c\<lparr>cs_policy := q\<rparr>))"

definition Lru_evictEntries :: "(bytes \<Rightarrow> bytes) \<Rightarrow> name list cs \<Rightarrow> name list cs" where
  "Lru_evictEntries sha256 c = evict_while (length (cs_table c)) (Lru_evictOne sha256) c"

text \<open>\<open>push_back\<close> does nothing if the iterator is in the queue already; \<open>relocate\<close> then moves it to the
  end.\<close>

definition Lru_insertToQueue :: "name \<Rightarrow> bool \<Rightarrow> name list cs \<Rightarrow> name list cs" where
  "Lru_insertToQueue i isNewEntry c =
     (let q = cs_policy c; q1 = (if i \<in> set q then q else q @ [i])
      in c\<lparr>cs_policy := (if \<not> isNewEntry then remove1 i q1 @ [i] else q1)\<rparr>)"

definition LruPolicy :: "(bytes \<Rightarrow> bytes) \<Rightarrow> name list policy" where
  "LruPolicy sha256 =
     \<lparr>doAfterInsert = \<lambda>now i c. Lru_evictEntries sha256 (Lru_insertToQueue i True c),
      doAfterRefresh = \<lambda>now i c. Lru_insertToQueue i False c,
      doBeforeErase = \<lambda>now i c. c\<lparr>cs_policy := remove1 i (cs_policy c)\<rparr>,
      doBeforeUse = \<lambda>now i c. Lru_insertToQueue i False c,
      evictEntries = Lru_evictEntries sha256\<rparr>"

subsection \<open>Priority FIFO\<close>

datatype queue_type = QUEUE_UNSOLICITED | QUEUE_STALE | QUEUE_FIFO

record fifo =
  fifo_queues :: "queue_type \<Rightarrow> name list"
  fifo_info :: "name \<Rightarrow> (queue_type \<times> timepoint option) option"

definition Fifo_attachQueue :: "(bytes \<Rightarrow> bytes) \<Rightarrow> timepoint \<Rightarrow> name \<Rightarrow> fifo cs \<Rightarrow> fifo cs" where
  "Fifo_attachQueue sha256 now i c =
     (case cs_get sha256 i (cs_table c) of
        None \<Rightarrow> c
      | Some e \<Rightarrow>
          let (queueType, moveStale) =
                (if cse_isUnsolicited e then (QUEUE_UNSOLICITED, None)
                 else if CsEntry_isStale now e then (QUEUE_STALE, None)
                 else (QUEUE_FIFO, if CsEntry_canStale e
                                   then Some (now + milliseconds (data_freshness (cse_data e))) else None));
              p = cs_policy c
          in c\<lparr>cs_policy := p\<lparr>fifo_queues := (fifo_queues p)(queueType := fifo_queues p queueType @ [i]),
                              fifo_info := (fifo_info p)(i \<mapsto> (queueType, moveStale))\<rparr>\<rparr>)"

definition Fifo_detachQueue :: "name \<Rightarrow> fifo cs \<Rightarrow> fifo cs" where
  "Fifo_detachQueue i c =
     (let p = cs_policy c
      in case fifo_info p i of
           None \<Rightarrow> c
         | Some (queueType, moveStale) \<Rightarrow>
             c\<lparr>cs_policy := p\<lparr>fifo_queues := (fifo_queues p)(queueType := remove1 i (fifo_queues p queueType)),
                             fifo_info := (fifo_info p)(i := None)\<rparr>\<rparr>)"

definition Fifo_evictOne :: "(bytes \<Rightarrow> bytes) \<Rightarrow> fifo cs \<Rightarrow> fifo cs" where
  "Fifo_evictOne sha256 c =
     (let qs = fifo_queues (cs_policy c);
          front = (if qs QUEUE_UNSOLICITED \<noteq> [] then Some (hd (qs QUEUE_UNSOLICITED))
                   else if qs QUEUE_STALE \<noteq> [] then Some (hd (qs QUEUE_STALE))
                   else if qs QUEUE_FIFO \<noteq> [] then Some (hd (qs QUEUE_FIFO)) else None)
      in case front of None \<Rightarrow> c | Some i \<Rightarrow> Cs_evict sha256 i (Fifo_detachQueue i c))"

definition Fifo_evictEntries :: "(bytes \<Rightarrow> bytes) \<Rightarrow> fifo cs \<Rightarrow> fifo cs" where
  "Fifo_evictEntries sha256 c = evict_while (length (cs_table c)) (Fifo_evictOne sha256) c"

definition Fifo_moveToStaleQueue :: "name \<Rightarrow> fifo cs \<Rightarrow> fifo cs" where
  "Fifo_moveToStaleQueue i c =
     (let p = cs_policy c;
          qs = (fifo_queues p)(QUEUE_FIFO := remove1 i (fifo_queues p QUEUE_FIFO))
      in c\<lparr>cs_policy := p\<lparr>fifo_queues := qs(QUEUE_STALE := qs QUEUE_STALE @ [i]),
                         fifo_info := (fifo_info p)(i \<mapsto> (QUEUE_STALE, None))\<rparr>\<rparr>)"

definition PriorityFifoPolicy :: "(bytes \<Rightarrow> bytes) \<Rightarrow> fifo policy" where
  "PriorityFifoPolicy sha256 =
     \<lparr>doAfterInsert = \<lambda>now i c. Fifo_evictEntries sha256 (Fifo_attachQueue sha256 now i c),
      doAfterRefresh = \<lambda>now i c. Fifo_attachQueue sha256 now i (Fifo_detachQueue i c),
      doBeforeErase = \<lambda>now i c. Fifo_detachQueue i c,
      doBeforeUse = \<lambda>now i c. c,
      evictEntries = Fifo_evictEntries sha256\<rparr>"

definition Cs_setPolicy :: "'q policy \<Rightarrow> 'q \<Rightarrow> 'p cs \<Rightarrow> 'q cs" where
  "Cs_setPolicy pol q c = Policy_setLimit pol (cs_limit c) \<lparr>cs_table = cs_table c, cs_limit = 0, cs_policy = q\<rparr>"

definition Cs_ctor :: "'p policy \<Rightarrow> 'p \<Rightarrow> nat \<Rightarrow> 'p cs" where
  "Cs_ctor pol p nMaxPackets = Policy_setLimit pol nMaxPackets \<lparr>cs_table = [], cs_limit = 0, cs_policy = p\<rparr>"

section \<open>Order\<close>

text \<open>The order of the table is the canonical order of full names. Names of Data have generic
  components only, so that no digest is inside one; queries may end with a digest.\<close>

definition generic :: "name \<Rightarrow> bool" where
  "generic n \<longleftrightarrow> (\<forall>c \<in> set n. comp_type c = tlv_NameComponent)"

definition cs_data_ok :: "(bytes \<Rightarrow> bytes) \<Rightarrow> data \<Rightarrow> bool" where
  "cs_data_ok sha256 d \<longleftrightarrow> generic (data_name d) \<and> length (data_name d) < npos - 1
     \<and> length (sha256 (data_wire d)) = SHA256_DIGEST_SIZE"

definition query_ok :: "name \<Rightarrow> bool" where
  "query_ok q \<longleftrightarrow> length q < npos \<and> (q \<noteq> [] \<longrightarrow> generic (butlast q) \<and>
     (comp_type (last q) = tlv_NameComponent \<or>
      comp_type (last q) = tlv_ImplicitSha256DigestComponent \<and> SHA256_DIGEST_SIZE \<le> length (comp_value (last q))))"

lemma cs_data_okD:
  assumes "cs_data_ok sha d"
  shows "length (data_name d) \<le> npos" "c \<in> set (data_name d) \<Longrightarrow> comp_type c = tlv_NameComponent"
    "length (sha (data_wire d)) = SHA256_DIGEST_SIZE"
  using assms by (auto simp: cs_data_ok_def generic_def)

lemma snoc_less_snoc:
  fixes x y :: "'a :: linorder"
  assumes "A \<noteq> B" "\<forall>c \<in> set A. y < c" "\<forall>c \<in> set B. x < c"
  shows "A @ [x] < B @ [y] \<longleftrightarrow> A < B"
  using assms
proof (induction A arbitrary: B)
  case Nil
  then show ?case by (cases B) auto
next
  case (Cons a A)
  then show ?case by (cases B) auto
qed

lemma less_snoc:
  fixes y :: "'a :: linorder"
  assumes "A \<noteq> B" "\<forall>c \<in> set A. y < c"
  shows "A < B @ [y] \<longleftrightarrow> A < B"
  using assms
proof (induction A arbitrary: B)
  case Nil
  then show ?case by (cases B) auto
next
  case (Cons a A)
  then show ?case by (cases B) auto
qed

lemma digest_less_generic:
  "comp_type a = tlv_ImplicitSha256DigestComponent \<Longrightarrow> comp_type b = tlv_NameComponent \<Longrightarrow> a < b"
  by (simp add: component_less_iff)

lemma digest_less_longer:
  "comp_type a = tlv_ImplicitSha256DigestComponent \<Longrightarrow> comp_type b = tlv_ImplicitSha256DigestComponent \<Longrightarrow>
   length (comp_value a) < length (comp_value b) \<Longrightarrow> a < b"
  by (simp add: component_less_iff)

lemma compareDataWithData_less:
  assumes "cs_data_ok sha a" "cs_data_ok sha b"
  shows "compareDataWithData sha a b < 0 \<longleftrightarrow> Data_getFullName sha a < Data_getFullName sha b"
proof (cases "data_name a = data_name b")
  case True
  moreover have "Name_compare (data_name a) (data_name b) = 0"
    using True Name_compare_lex(2) [of "data_name a" "data_name b"] cs_data_okD(1) [OF assms(1)] by simp
  ultimately show ?thesis by (simp add: compareDataWithData_def Data_getFullName_def less_component_def)
next
  case False
  have "Data_getFullName sha a < Data_getFullName sha b \<longleftrightarrow> data_name a < data_name b"
    unfolding Data_getFullName_def using False assms
    by (intro snoc_less_snoc) (auto simp: cs_data_ok_def generic_def intro!: digest_less_generic)
  then show ?thesis
    using False Name_compare_lex [OF assms [THEN cs_data_okD(1)]] by (simp add: compareDataWithData_def Let_def)
qed

lemma compareQuery_full:
  assumes "query_ok q" "cs_data_ok sha d" "q \<noteq> []" "Component_isImplicitSha256Digest (last q)"
  shows "compareQueryWithData sha q d > 0 \<longleftrightarrow> Data_getFullName sha d < q"
proof -
  let ?y = "Component tlv_ImplicitSha256DigestComponent (sha (data_wire d))"
  have q: "q = butlast q @ [last q]" using assms(3) by simp
  have y: "last (Data_getFullName sha d) = ?y" by (simp add: Data_getFullName_def)
  have tk: "butlast q = take (length q - 1) (drop 0 q)" "data_name d = take npos (drop 0 (data_name d))"
    using cs_data_okD(1) [OF assms(2)] by (simp_all add: butlast_conv_take)
  note cmp = Name_compare_range_lex [OF _ _ tk, simplified]
  show ?thesis
  proof (cases "butlast q = data_name d")
    case True
    have "Data_getFullName sha d < q \<longleftrightarrow> ?y < last q"
      by (subst q) (simp add: Data_getFullName_def True)
    moreover have "compareQueryWithData sha q d = Component_compare (last q) ?y"
      using cmp(2) True assms(3,4) by (simp add: compareQueryWithData_def y)
    ultimately show ?thesis using Component_compare_greater [of "last q" ?y] by (simp add: less_component_def)
  next
    case False
    have "Data_getFullName sha d < q \<longleftrightarrow> data_name d < butlast q"
      unfolding Data_getFullName_def using False assms
      by (subst q, intro snoc_less_snoc)
        (auto simp: cs_data_ok_def query_ok_def generic_def Component_isImplicitSha256Digest_def intro!: digest_less_generic)
    then show ?thesis using cmp(2,3) False assms(3,4) by (simp add: compareQueryWithData_def)
  qed
qed

lemma compareQuery_prefix:
  assumes "query_ok q" "cs_data_ok sha d" "q = [] \<or> \<not> Component_isImplicitSha256Digest (last q)"
  shows "compareQueryWithData sha q d > 0 \<longleftrightarrow> Data_getFullName sha d < q"
proof -
  let ?y = "Component tlv_ImplicitSha256DigestComponent (sha (data_wire d))"
  have "?y < c" if c: "c \<in> set q" for c
  proof (cases "c \<in> set (butlast q)")
    case True
    then show ?thesis using assms(1) c by (auto simp: query_ok_def generic_def intro!: digest_less_generic)
  next
    case False
    with c have "c = last q" by (metis append_butlast_last_id empty_iff list.set(1) rotate1.simps(2) set_ConsD set_rotate1)
    moreover have "q \<noteq> []" using c by auto
    ultimately show ?thesis using assms
      by (cases "comp_type (last q) = tlv_NameComponent")
        (auto simp: query_ok_def cs_data_ok_def Component_isImplicitSha256Digest_def component_less_iff)
  qed
  then have "q \<noteq> data_name d \<Longrightarrow> q < Data_getFullName sha d \<longleftrightarrow> q < data_name d"
    unfolding Data_getFullName_def by (intro less_snoc) auto
  moreover have "q \<noteq> Data_getFullName sha d"
    using assms(2,3) by (auto simp: Data_getFullName_def Component_isImplicitSha256Digest_def cs_data_ok_def)
  moreover have "q = data_name d \<Longrightarrow> q < Data_getFullName sha d" by (simp add: Data_getFullName_def)
  moreover have "compareQueryWithData sha q d = (if Name_compare q (data_name d) \<noteq> 0 then Name_compare q (data_name d) else -1)"
    using assms(3) by (auto simp: compareQueryWithData_def)
  moreover have "length q \<le> npos" using assms(1) by (simp add: query_ok_def)
  note lex = Name_compare_lex [OF this cs_data_okD(1) [OF assms(2)]]
  ultimately show ?thesis using lex by (cases "q = data_name d") (auto simp: not_less_iff_gr_or_eq)
qed

lemma less_query_iff:
  assumes "query_ok q" "cs_data_ok sha (cse_data e)"
  shows "EntryImpl_less_query sha e q \<longleftrightarrow> cs_key sha e < q"
  unfolding EntryImpl_less_query_def
  using compareQuery_full [OF assms] compareQuery_prefix [OF assms] by blast

section \<open>Ranges of the table\<close>

definition cs_sorted :: "(bytes \<Rightarrow> bytes) \<Rightarrow> cs_entry list \<Rightarrow> bool" where
  "cs_sorted sha256 es \<longleftrightarrow> sorted_wrt (\<lambda>a b. cs_key sha256 a < cs_key sha256 b) es
     \<and> (\<forall>e \<in> set es. cs_data_ok sha256 (cse_data e))"

lemma cs_sorted_filter: "cs_sorted sha es \<Longrightarrow> cs_sorted sha (filter P es)"
  by (auto simp: cs_sorted_def sorted_wrt_filter)

lemma split_at_query:
  assumes "cs_sorted sha es" "query_ok q"
  shows "dropWhile (\<lambda>e. EntryImpl_less_query sha e q) es = filter (\<lambda>e. q \<le> cs_key sha e) es"
    and "takeWhile (\<lambda>e. EntryImpl_less_query sha e q) es = filter (\<lambda>e. cs_key sha e < q) es"
proof -
  have eq: "EntryImpl_less_query sha e q = (cs_key sha e < q)" if "e \<in> set es" for e
    using less_query_iff [OF assms(2)] assms(1) that by (auto simp: cs_sorted_def)
  have srt: "sorted_wrt (\<lambda>a b. cs_key sha a < cs_key sha b) es" using assms(1) by (simp add: cs_sorted_def)
  show "dropWhile (\<lambda>e. EntryImpl_less_query sha e q) es = filter (\<lambda>e. q \<le> cs_key sha e) es"
    using sorted_dropWhile_filter(1) [OF srt, of q] eq by (simp cong: dropWhile_cong)
  show "takeWhile (\<lambda>e. EntryImpl_less_query sha e q) es = filter (\<lambda>e. cs_key sha e < q) es"
    using sorted_dropWhile_filter(2) [OF srt, of q] eq by (simp cong: takeWhile_cong)
qed

lemma query_ok_successor:
  assumes "query_ok q" "q \<noteq> []"
  shows "query_ok (Name_getSuccessor q)"
proof -
  obtain p c where q: "q = p @ [c]" using assms(2) by (metis rev_exhaust)
  have "length p < npos - 1" using assms(1) q by (auto simp: query_ok_def)
  moreover have "comp_type (Component_getSuccessor c) = comp_type c"
      "length (comp_value c) \<le> length (comp_value (Component_getSuccessor c))"
    using Component_getSuccessor_greater [of c]
    by (auto simp: component_less_iff Component_getSuccessor_def Let_def split: prod.splits)
  ultimately show ?thesis using assms(1) by (auto simp: q Name_getSuccessor_snoc query_ok_def)
qed

definition Cs_range :: "(bytes \<Rightarrow> bytes) \<Rightarrow> name \<Rightarrow> cs_entry list \<Rightarrow> cs_entry list" where
  "Cs_range sha256 pfx es =
     (let fromFirst = dropWhile (\<lambda>e. EntryImpl_less_query sha256 e pfx) es
      in if length pfx > 0
         then takeWhile (\<lambda>e. EntryImpl_less_query sha256 e (Name_getSuccessor pfx)) fromFirst
         else fromFirst)"

lemma Cs_range_eq:
  assumes "cs_sorted sha es" "query_ok q"
  shows "Cs_range sha q es = filter (\<lambda>e. prefix q (cs_key sha e)) es"
proof (cases "q = []")
  case True
  then show ?thesis using split_at_query(1) [OF assms] by (simp add: Cs_range_def filter_id_conv)
next
  case False
  then obtain p c where q: "q = p @ [c]" by (metis rev_exhaust)
  have "length p < npos - 1" using assms(2) q by (auto simp: query_ok_def)
  with q have succ: "Name_getSuccessor q = p @ [Component_getSuccessor c]" by (simp add: Name_getSuccessor_snoc)
  have "Cs_range sha q es = filter (\<lambda>e. cs_key sha e < Name_getSuccessor q) (filter (\<lambda>e. q \<le> cs_key sha e) es)"
    using False split_at_query(1) [OF assms]
      split_at_query(2) [OF cs_sorted_filter [OF assms(1)] query_ok_successor [OF assms(2) False]]
    by (simp add: Cs_range_def)
  also have "\<dots> = filter (\<lambda>e. p @ [c] \<le> cs_key sha e \<and> cs_key sha e < p @ [Component_getSuccessor c]) es"
    unfolding succ by (simp add: q)
  finally show ?thesis by (simp only: prefix_range q)
qed

section \<open>Insertion\<close>

lemma EntryImpl_less_iff:
  "cs_data_ok sha (cse_data a) \<Longrightarrow> cs_data_ok sha (cse_data b) \<Longrightarrow>
     EntryImpl_less sha a b \<longleftrightarrow> cs_key sha a < cs_key sha b"
  by (simp add: EntryImpl_less_def compareDataWithData_less)

lemma set_insert_correct:
  assumes "cs_sorted sha es" "cs_data_ok sha (cse_data e)" "set_insert sha e es = (es', k, isNew)"
  shows "cs_sorted sha es' \<and> k = cs_key sha e \<and> (isNew \<longleftrightarrow> k \<notin> cs_key sha ` set es)
    \<and> set es' = (if isNew then insert e (set es) else set es)
    \<and> length es' = (if isNew then Suc (length es) else length es)"
  using assms
proof (induction es arbitrary: es' k isNew)
  case Nil
  then show ?case by (auto simp: cs_sorted_def)
next
  case (Cons x xs)
  have ok: "cs_data_ok sha (cse_data x)" "cs_sorted sha xs" "\<forall>y \<in> set xs. cs_key sha x < cs_key sha y"
    using Cons.prems(1) by (auto simp: cs_sorted_def)
  note lt = EntryImpl_less_iff [OF ok(1) Cons.prems(2)] EntryImpl_less_iff [OF Cons.prems(2) ok(1)]
  consider "cs_key sha x < cs_key sha e" | "cs_key sha e < cs_key sha x" | "cs_key sha x = cs_key sha e"
    by (meson neqE)
  then show ?case
  proof cases
    case 1
    then obtain xs' where r: "set_insert sha e xs = (xs', k, isNew)" "es' = x # xs'"
      using Cons.prems(3) lt by (auto split: prod.splits)
    from Cons.IH [OF ok(2) Cons.prems(2) r(1)] show ?thesis
      using 1 ok r(2) by (auto simp: cs_sorted_def)
  next
    case 2
    then have "es' = e # x # xs" "k = cs_key sha e" "isNew" using Cons.prems(3) lt by auto
    moreover have "\<forall>y \<in> set xs. cs_key sha e < cs_key sha y" using 2 ok(3) by (meson order_less_trans)
    ultimately show ?thesis using 2 Cons.prems(1,2) by (auto simp: cs_sorted_def)
  next
    case 3
    then show ?thesis using Cons.prems(1,3) lt by auto
  qed
qed

section \<open>Lookup\<close>

lemma find_least:
  fixes f :: "'a \<Rightarrow> 'b :: linorder"
  assumes "sorted_wrt (\<lambda>a b. f a < f b) xs" "find P xs = Some x"
  shows "x \<in> set xs \<and> P x \<and> (\<forall>y \<in> set xs. P y \<longrightarrow> f x \<le> f y)"
  using assms by (induction xs) (auto split: if_splits intro: order.strict_implies_order)

lemma find_rev_greatest:
  fixes f :: "'a \<Rightarrow> 'b :: linorder"
  assumes "sorted_wrt (\<lambda>a b. f a < f b) xs" "find P (rev xs) = Some x"
  shows "x \<in> set xs \<and> P x \<and> (\<forall>y \<in> set xs. P y \<longrightarrow> f y \<le> f x)"
  using assms by (induction xs rule: rev_induct)
    (auto simp: sorted_wrt_append split: if_splits intro: order.strict_implies_order)

text \<open>The sub-namespace of an entry: its full name cut one component after the Interest name.\<close>

definition cs_child :: "(bytes \<Rightarrow> bytes) \<Rightarrow> name \<Rightarrow> cs_entry \<Rightarrow> name" where
  "cs_child sha256 q e = take (length q + 1) (cs_key sha256 e)"

definition rightmost_match ::
    "(bytes \<Rightarrow> bytes) \<Rightarrow> timepoint \<Rightarrow> interest \<Rightarrow> cs_entry list \<Rightarrow> cs_entry \<Rightarrow> bool" where
  "rightmost_match sha256 now i es e \<longleftrightarrow> e \<in> set es \<and> CsEntry_canSatisfy sha256 now i e \<and>
     (\<forall>e' \<in> set es. CsEntry_canSatisfy sha256 now i e' \<longrightarrow>
        cs_child sha256 (int_name i) e' \<le> cs_child sha256 (int_name i) e \<and>
        (cs_child sha256 (int_name i) e' = cs_child sha256 (int_name i) e \<longrightarrow> cs_key sha256 e \<le> cs_key sha256 e'))"

text \<open>If the last entry under a name has exactly that name without the digest, so have all.\<close>

lemma exact_below:
  assumes "cs_data_ok sha d" "cs_data_ok sha d'" "prefix q (Data_getFullName sha d')"
    "data_name d = q" "Data_getFullName sha d' \<le> Data_getFullName sha d"
  shows "data_name d' = q"
proof -
  let ?y = "Component tlv_ImplicitSha256DigestComponent (sha (data_wire d))"
  let ?z = "Component tlv_ImplicitSha256DigestComponent (sha (data_wire d'))"
  obtain r where r: "data_name d' @ [?z] = q @ r" using assms(3) by (auto simp: prefix_def Data_getFullName_def)
  show ?thesis
  proof (cases r rule: rev_cases)
    case Nil
    then have "?z \<in> set (data_name d)" using r assms(4) by (metis append_Nil2 in_set_conv_decomp)
    then show ?thesis using cs_data_okD(2) [OF assms(1)] by fastforce
  next
    case (snoc s x)
    then have d': "data_name d' = q @ s" using r by simp
    show ?thesis
    proof (cases s)
      case (Cons c cs)
      then have "?y < c" using cs_data_okD(2) [OF assms(2), of c] d' by (intro digest_less_generic) auto
      then show ?thesis using assms(4,5) d' Cons by (simp add: Data_getFullName_def)
    qed (use d' in simp)
  qed
qed

lemma rightmost_exact:
  assumes "cs_sorted sha es" "\<forall>e \<in> set es. prefix (int_name i) (cs_key sha e)" "es \<noteq> []"
    and "length (data_name (cse_data (last es))) = length (int_name i)"
  shows "case Cs_findRightmostAmongExact sha now i es of
      None \<Rightarrow> \<forall>e \<in> set es. \<not> CsEntry_canSatisfy sha now i e | Some e \<Rightarrow> rightmost_match sha now i es e"
proof -
  let ?q = "int_name i"
  have srt: "sorted_wrt (\<lambda>a b. cs_key sha a < cs_key sha b) es" and ok: "\<forall>e \<in> set es. cs_data_ok sha (cse_data e)"
    using assms(1) by (auto simp: cs_sorted_def)
  have lst: "last es \<in> set es" using assms(3) by simp
  have "prefix ?q (cs_key sha (last es))" using assms(2) lst by blast
  then have q: "data_name (cse_data (last es)) = ?q"
    using assms(4) by (auto simp: Data_getFullName_def prefix_def)
  have "cs_key sha e \<le> cs_key sha (last es)" if e: "e \<in> set es" for e
    using srt e assms(3) by (cases es rule: rev_cases) (auto simp: sorted_wrt_append)
  then have "data_name (cse_data e) = ?q" if "e \<in> set es" for e
    using exact_below [of sha "cse_data (last es)" "cse_data e" ?q] q ok lst assms(2) that by blast
  then have "cs_child sha ?q e = cs_key sha e" if "e \<in> set es" for e
    using that by (simp add: cs_child_def Data_getFullName_def)
  then show ?thesis
    using find_rev_greatest [OF srt, of "CsEntry_canSatisfy sha now i"]
    by (auto simp: Cs_findRightmostAmongExact_def rightmost_match_def find_None_iff split: option.splits)
qed

text \<open>The entries not below the prefix are those of the last sub-namespace.\<close>

lemma under_prefix:
  assumes "cs_sorted sha es" "\<forall>e \<in> set es. prefix q (cs_key sha e)" "es \<noteq> []"
    and "length q < length (data_name (cse_data (last es)))"
    and "pfx = take (length q + 1) (data_name (cse_data (last es)))"
  shows "query_ok pfx" "pfx = cs_child sha q (last es)"
    and "e \<in> set es \<Longrightarrow> pfx \<le> cs_key sha e \<Longrightarrow> cs_child sha q e = pfx"
    and "e \<in> set es \<Longrightarrow> cs_key sha e < pfx \<Longrightarrow> cs_child sha q e < pfx"
proof -
  have srt: "sorted_wrt (\<lambda>a b. cs_key sha a < cs_key sha b) es" and ok: "cs_data_ok sha (cse_data (last es))"
    using assms(1,3) by (auto simp: cs_sorted_def)
  have len: "length pfx = length q + 1" using assms(4,5) by simp
  have "set (butlast pfx) \<subseteq> set (data_name (cse_data (last es)))" "set pfx \<subseteq> set (data_name (cse_data (last es)))"
    unfolding assms(5) by (auto dest!: in_set_butlastD in_set_takeD)
  moreover have "last pfx \<in> set pfx" using len by (intro last_in_set) auto
  ultimately show "query_ok pfx"
    using ok assms(4) len by (auto simp: query_ok_def cs_data_ok_def generic_def)
  show child: "pfx = cs_child sha q (last es)"
    using assms(4,5) by (simp add: cs_child_def Data_getFullName_def)
  show "cs_child sha q e = pfx" if e: "e \<in> set es" "pfx \<le> cs_key sha e"
  proof -
    have "cs_key sha e \<le> cs_key sha (last es)"
      using srt e assms(3) by (cases es rule: rev_cases) (auto simp: sorted_wrt_append)
    moreover have "prefix pfx (cs_key sha (last es))" unfolding child cs_child_def by (rule take_is_prefix)
    ultimately have "prefix pfx (cs_key sha e)" using e(2) prefix_between by blast
    then show ?thesis using len by (auto simp: cs_child_def prefix_def)
  qed
  show "cs_child sha q e < pfx" if "cs_key sha e < pfx"
    using that take_le [of "length q + 1" "cs_key sha e"] by (simp add: cs_child_def)
qed

lemma full_name_single:
  assumes "cs_sorted sha es" "\<forall>e \<in> set es. prefix q (cs_key sha e)" "e0 \<in> set es"
    and "length (data_name (cse_data e0)) < length q" "e \<in> set es"
  shows "cs_key sha e = q"
proof -
  let ?y = "Component tlv_ImplicitSha256DigestComponent (sha (data_wire (cse_data e0)))"
  obtain r0 where r0: "data_name (cse_data e0) @ [?y] = q @ r0"
    using assms(2,3) by (auto simp: Data_getFullName_def prefix_def)
  then have "Suc (length (data_name (cse_data e0))) = length q + length r0" by (metis length_append length_append_singleton)
  with assms(4) have "length r0 = 0" by linarith
  with r0 have q: "q = data_name (cse_data e0) @ [?y]" by simp
  have ok: "cs_data_ok sha (cse_data e)" using assms(1,5) by (auto simp: cs_sorted_def)
  obtain r where r: "cs_key sha e = q @ r" using assms(2,5) by (auto simp: prefix_def)
  show ?thesis
  proof (cases r rule: rev_cases)
    case (snoc s x)
    then have "data_name (cse_data e) = q @ s" using r by (simp add: Data_getFullName_def)
    then have "?y \<in> set (data_name (cse_data e))" by (simp add: q)
    then show ?thesis using cs_data_okD(2) [OF ok] by fastforce
  qed (use r in simp)
qed

text \<open>The same loop on a range alone, to which the loop over the table is reduced.\<close>

function rightmost_in ::
    "(bytes \<Rightarrow> bytes) \<Rightarrow> timepoint \<Rightarrow> interest \<Rightarrow> cs_entry list \<Rightarrow> cs_entry option" where
  "rightmost_in sha256 now i es =
     (if es = [] then None
      else let prev = last es; n = length (int_name i)
           in if length (data_name (cse_data prev)) = n
              then Cs_findRightmostAmongExact sha256 now i es
              else let pfx = take (n + 1) (data_name (cse_data prev));
                       below = takeWhile (\<lambda>e. EntryImpl_less_query sha256 e pfx) es;
                       upper = dropWhile (\<lambda>e. EntryImpl_less_query sha256 e pfx) es
                   in case Cs_findLeftmost sha256 now i upper of
                        Some e \<Rightarrow> Some e
                      | None \<Rightarrow> if length below < length es then rightmost_in sha256 now i below else None)"
  by pat_completeness auto

termination by (relation "measure (\<lambda>(_, _, _, es). length es)") auto

declare rightmost_in.simps [simp del]

lemma findRightmost_step:
  assumes "es \<noteq> []" "length (data_name (cse_data (last es))) \<noteq> length (int_name i)"
    and "pfx = take (length (int_name i) + 1) (data_name (cse_data (last es)))"
    and "takeWhile (\<lambda>e. EntryImpl_less_query sha e pfx) es = below"
    and "dropWhile (\<lambda>e. EntryImpl_less_query sha e pfx) es = upper"
  shows "rightmost_in sha now i es = (case find (CsEntry_canSatisfy sha now i) upper of
      Some e \<Rightarrow> Some e
    | None \<Rightarrow> if length below < length es then rightmost_in sha now i below else None)"
  using assms(1,2) unfolding rightmost_in.simps [of sha now i es] Let_def assms(3) [symmetric] assms(4,5)
  by (simp add: Cs_findLeftmost_def)

definition rightmost_spec ::
    "(bytes \<Rightarrow> bytes) \<Rightarrow> timepoint \<Rightarrow> interest \<Rightarrow> cs_entry list \<Rightarrow> cs_entry option \<Rightarrow> bool" where
  "rightmost_spec sha256 now i es r \<longleftrightarrow> (case r of
      None \<Rightarrow> \<forall>e \<in> set es. \<not> CsEntry_canSatisfy sha256 now i e
    | Some e \<Rightarrow> rightmost_match sha256 now i es e)"

text \<open>Under a full name there is at most one entry.\<close>

lemma full_name_range:
  assumes "cs_sorted sha es" "\<forall>e \<in> set es. prefix q (cs_key sha e)" "e \<in> set es"
    and "length (data_name (cse_data e)) < length q"
  shows "es = [e]" "cs_key sha e = q"
proof -
  have key: "cs_key sha e' = q" if "e' \<in> set es" for e' using full_name_single [OF assms that] .
  show "cs_key sha e = q" by (rule key [OF assms(3)])
  have srt: "sorted_wrt (\<lambda>a b. cs_key sha a < cs_key sha b) es" using assms(1) by (simp add: cs_sorted_def)
  obtain x xs where xs: "es = x # xs" using assms(3) by (cases es) auto
  have "xs = []" using srt key by (cases xs) (auto simp: xs)
  then show "es = [e]" using assms(3) xs by simp
qed

lemma rightmost_normal:
  assumes "cs_sorted sha es" "\<forall>e \<in> set es. prefix (int_name i) (cs_key sha e)" "es \<noteq> []"
    and len: "length (int_name i) < length (data_name (cse_data (last es)))"
    and IH: "\<And>below. length below < length es \<Longrightarrow> set below \<subseteq> set es \<Longrightarrow> cs_sorted sha below \<Longrightarrow>
        rightmost_spec sha now i below (rightmost_in sha now i below)"
  shows "rightmost_spec sha now i es (rightmost_in sha now i es)"
proof -
  let ?q = "int_name i" and ?P = "CsEntry_canSatisfy sha now i"
  define pfx where "pfx = take (length ?q + 1) (data_name (cse_data (last es)))"
  note up = under_prefix [OF assms(1-3) len pfx_def]
  define below upper where "below = filter (\<lambda>e. cs_key sha e < pfx) es" and "upper = filter (\<lambda>e. pfx \<le> cs_key sha e) es"
  have "pfx \<le> cs_key sha (last es)" unfolding up(2) cs_child_def by (rule take_le)
  then have shorter: "length below < length es" unfolding below_def using assms(3)
    by (intro length_filter_less [of "last es"]) auto
  have split: "rightmost_in sha now i es
      = (case find ?P upper of Some e \<Rightarrow> Some e | None \<Rightarrow> rightmost_in sha now i below)"
    using findRightmost_step [OF assms(3) _ pfx_def, of sha below upper now] len shorter
      split_at_query [OF assms(1) up(1)]
    by (simp add: below_def upper_def split: option.splits)
  show ?thesis
  proof (cases "find ?P upper")
    case None
    have "rightmost_spec sha now i below (rightmost_in sha now i below)"
      by (rule IH [OF shorter]) (use assms(1) in \<open>auto simp: below_def cs_sorted_filter\<close>)
    moreover have "\<not> ?P e" if "e \<in> set es" "e \<notin> set below" for e
      using None that by (auto simp: find_None_iff upper_def below_def not_less)
    ultimately show ?thesis unfolding split None
      by (auto simp: rightmost_spec_def rightmost_match_def below_def split: option.splits)
  next
    case (Some e)
    have "sorted_wrt (\<lambda>a b. cs_key sha a < cs_key sha b) upper"
      using assms(1) by (simp add: upper_def cs_sorted_def sorted_wrt_filter)
    from find_least [OF this Some] have e: "e \<in> set es" "pfx \<le> cs_key sha e" "?P e"
        "\<forall>e' \<in> set upper. ?P e' \<longrightarrow> cs_key sha e \<le> cs_key sha e'" by (auto simp: upper_def)
    have "cs_child sha ?q e' \<le> cs_child sha ?q e \<and>
        (cs_child sha ?q e' = cs_child sha ?q e \<longrightarrow> cs_key sha e \<le> cs_key sha e')"
      if "e' \<in> set es" "?P e'" for e'
      using up(3,4) [OF that(1)] up(3) [OF e(1,2)] e(4) that by (cases "cs_key sha e' < pfx") (auto simp: upper_def not_less)
    then show ?thesis using e by (simp add: split Some rightmost_spec_def rightmost_match_def)
  qed
qed

lemma rightmost_correct:
  assumes "cs_sorted sha es"
    "\<forall>e \<in> set es. prefix (int_name i) (cs_key sha e) \<and> length (int_name i) \<le> length (data_name (cse_data e))"
  shows "rightmost_spec sha now i es (rightmost_in sha now i es)"
  using assms
proof (induction "length es" arbitrary: es rule: less_induct)
  case less
  have pre: "\<forall>e \<in> set es. prefix (int_name i) (cs_key sha e)" using less.prems(2) by blast
  consider "es = [] \<or> length (data_name (cse_data (last es))) = length (int_name i)"
    | "es \<noteq> []" "length (int_name i) < length (data_name (cse_data (last es)))"
    using less.prems(2) by (metis last_in_set le_neq_implies_less)
  then show ?case
  proof cases
    case 1
    then have "rightmost_in sha now i es = (if es = [] then None else Cs_findRightmostAmongExact sha now i es)"
      by (subst rightmost_in.simps) (auto simp: Let_def)
    then show ?thesis using 1 rightmost_exact [OF less.prems(1) pre, of now]
      by (cases "es = []") (simp_all add: rightmost_spec_def)
  next
    case 2
    show ?thesis
      by (rule rightmost_normal [OF less.prems(1) pre 2]) (use less in blast)
  qed
qed

section \<open>The loop over the table\<close>

lemma cs_lower_bound_split:
  assumes "cs_sorted sha es" "query_ok q"
  obtains A C where "es = A @ filter (\<lambda>e. prefix q (cs_key sha e)) es @ C" "\<forall>e \<in> set A. cs_key sha e < q"
    "Cs_lower_bound sha q es = length A"
    "(if length q > 0 then Cs_lower_bound sha (Name_getSuccessor q) es else length es)
       = length A + length (filter (\<lambda>e. prefix q (cs_key sha e)) es)"
proof -
  define A where "A = takeWhile (\<lambda>e. EntryImpl_less_query sha e q) es"
  define rest where "rest = dropWhile (\<lambda>e. EntryImpl_less_query sha e q) es"
  have es: "es = A @ rest" by (simp add: A_def rest_def)
  have less: "\<forall>e \<in> set A. cs_key sha e < q" unfolding A_def split_at_query(2) [OF assms] by simp
  have first: "Cs_lower_bound sha q es = length A" by (simp add: Cs_lower_bound_def A_def)
  note range = Cs_range_eq [OF assms, unfolded Cs_range_def, folded rest_def]
  show thesis
  proof (cases "q = []")
    case True
    then have "filter (\<lambda>e. prefix q (cs_key sha e)) es = rest" using range by simp
    then show thesis using True es less first by (intro that [of A "[]"]) auto
  next
    case False
    let ?Q = "\<lambda>e. EntryImpl_less_query sha e (Name_getSuccessor q)"
    have r: "takeWhile ?Q rest = filter (\<lambda>e. prefix q (cs_key sha e)) es" using range False by (simp add: Let_def)
    have "q < Name_getSuccessor q"
    proof -
      obtain p c where q: "q = p @ [c]" using False by (metis rev_exhaust)
      have "length p < npos - 1" using assms(2) q by (auto simp: query_ok_def)
      then show ?thesis using prefix_range [of p c q] by (simp add: q Name_getSuccessor_snoc)
    qed
    then have "?Q e" if "e \<in> set A" for e
      using that less es less_query_iff [OF query_ok_successor [OF assms(2) False]] assms(1) by (force simp: cs_sorted_def)
    then have "takeWhile ?Q es = A @ takeWhile ?Q rest" unfolding es by (rule takeWhile_append2)
    then show thesis
      using es less first False r takeWhile_dropWhile_id [of ?Q rest]
      by (intro that [of A "dropWhile ?Q rest"]) (simp_all add: Cs_lower_bound_def)
  qed
qed

lemma findRightmost_eq:
  assumes "cs_sorted sha es" "es = A @ R @ C" "\<forall>e \<in> set A. cs_key sha e < int_name i"
    and "\<forall>e \<in> set R. prefix (int_name i) (cs_key sha e) \<and> length (int_name i) \<le> length (data_name (cse_data e))"
  shows "Cs_findRightmost sha now i es (length A) (length A + length R) = Some (rightmost_in sha now i R)"
  using assms(2,4)
proof (induction "length R" arbitrary: R C rule: less_induct)
  case less
  let ?q = "int_name i"
  show ?case
  proof (cases "R = []")
    case True
    then show ?thesis by (simp add: Cs_findRightmost.simps [of _ _ _ _ "length A"] rightmost_in.simps [of _ _ _ "[]"])
  next
    case ne: False
    have prev: "es ! (length A + length R - Suc 0) = last R"
      using ne less.prems(1) by (cases R rule: rev_cases) (simp_all add: nth_append)
    have range: "drop (length A) (take (length A + length R) es) = R" by (simp add: less.prems(1))
    have pos: "length A + length R \<noteq> length A" "length A + length R \<noteq> 0" using ne by simp_all
    show ?thesis
    proof (cases "length (data_name (cse_data (last R))) = length ?q")
      case True
      then show ?thesis
        using ne pos by (subst Cs_findRightmost.simps, subst rightmost_in.simps) (simp add: prev range Let_def)
    next
      case False
      then have len: "length ?q < length (data_name (cse_data (last R)))"
        using less.prems(2) ne by (metis last_in_set le_neq_implies_less)
      define pfx where "pfx = take (length ?q + 1) (data_name (cse_data (last R)))"
      then have pfx: "take (Suc (length ?q)) (data_name (cse_data (last R))) = pfx" by simp
      let ?P = "\<lambda>e. EntryImpl_less_query sha e pfx"
      have srt: "cs_sorted sha R" using assms(1) less.prems(1) by (auto simp: cs_sorted_def sorted_wrt_append)
      have pre: "\<forall>e \<in> set R. prefix ?q (cs_key sha e)" using less.prems(2) by blast
      note up = under_prefix [OF srt pre ne len pfx_def]
      have P: "?P e \<longleftrightarrow> cs_key sha e < pfx" if "e \<in> set es" for e
        using less_query_iff [OF up(1)] assms(1) that by (auto simp: cs_sorted_def)
      have "?q \<le> pfx"
      proof -
        obtain r where r: "cs_key sha (last R) = ?q @ r" using bspec [OF pre last_in_set [OF ne]] by (auto simp: prefix_def)
        show ?thesis unfolding up(2) cs_child_def r using take_le [of "length ?q" "?q @ take 1 r"] by simp
      qed
      then have "?P e" if "e \<in> set A" for e using that P [of e] less.prems(1) assms(3) by fastforce
      moreover have lastP: "\<not> ?P (last R)"
        using P [of "last R"] ne less.prems(1) take_le [of "length ?q + 1" "cs_key sha (last R)"] up(2) by (auto simp: cs_child_def)
      ultimately have tw: "takeWhile ?P es = A @ takeWhile ?P R"
        using ne unfolding less.prems(1) by (simp add: takeWhile_append2 takeWhile_append1 [of "last R"])
      let ?below = "takeWhile ?P R" and ?upper = "dropWhile ?P R"
      have shorter: "length ?below < length R"
        using lastP ne length_takeWhile_le [of ?P R] takeWhile_eq_all_conv [of ?P R] takeWhile_eq_take [of ?P R]
        by (metis last_in_set le_neq_implies_less take_all order_refl)
      have left: "Cs_lower_bound sha pfx es = length A + length ?below" by (simp add: Cs_lower_bound_def tw)
      have up_range: "drop (length A + length ?below) (take (length A + length R) es) = ?upper"
        unfolding less.prems(1) by (simp add: drop_append take_append dropWhile_eq_drop)
      have "es = A @ ?below @ (?upper @ C)" by (simp add: less.prems(1))
      from less.hyps [OF shorter this] less.prems(2) have IH:
        "Cs_findRightmost sha now i es (length A) (length A + length ?below) = Some (rightmost_in sha now i ?below)"
        by (auto dest: set_takeWhileD)
      show ?thesis
        unfolding findRightmost_step [OF ne False pfx_def refl refl]
        using pos shorter False
        by (subst Cs_findRightmost.simps) (simp add: prev pfx left up_range IH Cs_findLeftmost_def Let_def split: option.split)
    qed
  qed
qed

text \<open>Below \<open>first\<close> the loop runs into undefined behaviour, since nothing there satisfies the Interest.\<close>

lemma findRightmost_overrun:
  assumes "right < first" "\<forall>e \<in> set (take right es). \<not> CsEntry_canSatisfy sha now i e"
  shows "Cs_findRightmost sha now i es first right = None"
  using assms
proof (induction right rule: less_induct)
  case (less right)
  have "find (CsEntry_canSatisfy sha now i) (drop left (take right es)) = None" for left
    using less.prems(2) by (auto simp: find_None_iff dest: in_set_dropD)
  moreover have "Cs_findRightmost sha now i es first left = None" if "left < right" for left
    using less.IH [OF that] that less.prems set_take_subset_set_take [of left right es] by auto
  ultimately show ?case
    using less.prems(1) by (subst Cs_findRightmost.simps) (simp add: Cs_findLeftmost_def Let_def)
qed

lemma satisfy_prefix:
  assumes "typed \<tau> (int_name i)" "typed \<tau> (cs_key sha e)" "cs_data_ok sha (cse_data e)"
    and "CsEntry_canSatisfy sha now i e"
  shows "prefix (int_name i) (cs_key sha e)"
proof -
  have "Interest_matchesData sha i (cse_data e)" using assms(4) by (simp add: CsEntry_canSatisfy_def split: if_splits)
  then have "Interest_matchesName i (cs_key sha e)"
    using matchesData_matchesName [OF assms(1,2)] cs_data_okD(3) [OF assms(3)] by blast
  then have "Name_isPrefixOf (int_name i) (cs_key sha e)"
    by (auto simp: Interest_matchesName_def Let_def split: if_splits)
  then show ?thesis using Name_isPrefixOf_typed [OF assms(1,2)] by simp
qed

text \<open>What \<open>find\<close> is to return: no Data if no entry satisfies the Interest; the leftmost one that does
  or, with the rightmost child selector, the leftmost one of the rightmost child.\<close>

definition leftmost_match ::
    "(bytes \<Rightarrow> bytes) \<Rightarrow> timepoint \<Rightarrow> interest \<Rightarrow> cs_entry list \<Rightarrow> cs_entry \<Rightarrow> bool" where
  "leftmost_match sha256 now i es e \<longleftrightarrow> e \<in> set es \<and> CsEntry_canSatisfy sha256 now i e \<and>
     (\<forall>e' \<in> set es. CsEntry_canSatisfy sha256 now i e' \<longrightarrow> cs_key sha256 e \<le> cs_key sha256 e')"

definition cs_match_spec ::
    "(bytes \<Rightarrow> bytes) \<Rightarrow> timepoint \<Rightarrow> interest \<Rightarrow> cs_entry list \<Rightarrow> data option \<Rightarrow> bool" where
  "cs_match_spec sha256 now i es r \<longleftrightarrow> (case r of
      None \<Rightarrow> \<forall>e \<in> set es. \<not> CsEntry_canSatisfy sha256 now i e
    | Some d \<Rightarrow> \<exists>e. cse_data e = d \<and>
        (if childSelector (int_selectors i) = 1 then rightmost_match sha256 now i es e
         else leftmost_match sha256 now i es e))"

text \<open>With the rightmost child selector and the full name of an entry the loop searches the entries from its name
  on, which start before \<open>first\<close> if another entry has this name and a smaller digest. If the entry does not satisfy
  the Interest, the loop goes on below \<open>first\<close> and past the begin of the table.\<close>

definition cs_overrun :: "(bytes \<Rightarrow> bytes) \<Rightarrow> timepoint \<Rightarrow> interest \<Rightarrow> cs_entry list \<Rightarrow> bool" where
  "cs_overrun sha256 now i es \<longleftrightarrow> childSelector (int_selectors i) = 1 \<and>
     (\<exists>e \<in> set es. cs_key sha256 e = int_name i \<and> \<not> CsEntry_canSatisfy sha256 now i e \<and>
        (\<exists>e' \<in> set es. data_name (cse_data e') = data_name (cse_data e) \<and> cs_key sha256 e' < cs_key sha256 e))"

lemma sibling_iff:
  assumes "cs_data_ok sha d" "cs_data_ok sha d'" "Data_getFullName sha d' < Data_getFullName sha d"
  shows "Data_getFullName sha d' < data_name d \<longleftrightarrow> data_name d' \<noteq> data_name d"
proof -
  have pre: "prefix (data_name d) (Data_getFullName sha d)" by (simp add: Data_getFullName_def)
  have "data_name d' = data_name d" if "data_name d \<le> Data_getFullName sha d'"
    using exact_below [OF assms(1,2) prefix_between [OF pre that]] assms(3) by simp
  moreover have "\<not> Data_getFullName sha d' < data_name d" if "data_name d' = data_name d"
    using take_le [of "length (data_name d')" "Data_getFullName sha d'"] that by (simp add: Data_getFullName_def)
  ultimately show ?thesis by (meson not_less)
qed

lemma findRightmost_full:
  assumes "cs_sorted sha es" "es = A @ e # C" "cs_key sha e = int_name i" "\<forall>e' \<in> set A. cs_key sha e' < int_name i"
    and "\<forall>e' \<in> set A. \<not> CsEntry_canSatisfy sha now i e'"
  shows "Cs_findRightmost sha now i es (length A) (length A + 1) =
    (if CsEntry_canSatisfy sha now i e then Some (Some e)
     else if \<exists>e' \<in> set A. data_name (cse_data e') = data_name (cse_data e) then None else Some None)"
proof -
  let ?d = "cse_data e" and ?P = "\<lambda>e'. cs_key sha e' < data_name (cse_data e)" and ?S = "CsEntry_canSatisfy sha now i"
  have srt: "sorted_wrt (\<lambda>a b. cs_key sha a < cs_key sha b) es" and ok: "\<forall>e \<in> set es. cs_data_ok sha (cse_data e)"
    using assms(1) by (auto simp: cs_sorted_def)
  have len: "length (int_name i) = Suc (length (data_name ?d))"
    unfolding assms(3) [symmetric] by (simp add: Data_getFullName_def)
  have q: "query_ok (data_name ?d)" using ok assms(2)
    by (auto simp: query_ok_def cs_data_ok_def generic_def dest: in_set_butlastD)
  have ge: "\<not> ?P e" using take_le [of "length (data_name ?d)" "cs_key sha e"] by (simp add: Data_getFullName_def not_less)
  moreover have "\<not> ?P e'" if "e' \<in> set C" for e'
    using ge srt that assms(2) by (auto simp: sorted_wrt_append)
  ultimately have tw: "takeWhile (\<lambda>e'. EntryImpl_less_query sha e' (data_name ?d)) es = filter ?P A"
    unfolding split_at_query(2) [OF assms(1) q] by (auto simp: assms(2) filter_empty_conv)
  define left where "left = length (filter ?P A)"
  have lb: "Cs_lower_bound sha (data_name ?d) es = left" by (simp add: Cs_lower_bound_def tw left_def)
  have le: "left \<le> length A" by (simp add: left_def)
  have find: "find ?S (drop left (take (Suc (length A)) es)) = (if ?S e then Some e else None)"
  proof -
    have "drop left (take (Suc (length A)) es) = drop left A @ [e]" using le by (simp add: assms(2))
    moreover have "find ?S (drop left A) = None" using assms(5) by (auto simp: find_None_iff dest: in_set_dropD)
    ultimately show ?thesis by (simp add: find_append)
  qed
  have "left = length A \<longleftrightarrow> (\<forall>e' \<in> set A. ?P e')"
    using filter_id_conv [of ?P A] length_filter_less [of _ A ?P] by (force simp: left_def)
  also have "\<dots> \<longleftrightarrow> \<not> (\<exists>e' \<in> set A. data_name (cse_data e') = data_name ?d)"
    using sibling_iff [of sha ?d] ok assms(2,3,4) by auto
  finally have iff: "left = length A \<longleftrightarrow> \<not> (\<exists>e' \<in> set A. data_name (cse_data e') = data_name ?d)" .
  have rec: "Cs_findRightmost sha now i es (length A) left = (if left = length A then Some None else None)"
  proof (cases "left = length A")
    case False
    then show ?thesis using le assms(2,5) findRightmost_overrun [of left "length A" es sha now i]
      by (auto dest: in_set_takeD)
  qed (simp add: Cs_findRightmost.simps [of _ _ _ _ "length A"])
  have prev: "es ! length A = e" by (simp add: assms(2))
  show ?thesis
    by (subst Cs_findRightmost.simps)
      (use le len in \<open>simp add: prev Let_def lb find rec iff Cs_findLeftmost_def\<close>)
qed

text \<open>The loop over the whole table.\<close>

lemma findRightmost_correct:
  assumes "cs_sorted sha es" "query_ok (int_name i)" "typed \<tau> (int_name i)" "\<forall>e \<in> set es. typed \<tau> (cs_key sha e)"
    and "childSelector (int_selectors i) = 1" "es = A @ R @ C" "\<forall>e \<in> set A. cs_key sha e < int_name i"
    and "R = filter (\<lambda>e. prefix (int_name i) (cs_key sha e)) es"
  shows "if cs_overrun sha now i es then Cs_findRightmost sha now i es (length A) (length A + length R) = None
    else \<exists>m. Cs_findRightmost sha now i es (length A) (length A + length R) = Some m \<and> rightmost_spec sha now i R m"
proof -
  let ?q = "int_name i" and ?S = "CsEntry_canSatisfy sha now i"
  have srt: "cs_sorted sha R" unfolding assms(8) by (rule cs_sorted_filter [OF assms(1)])
  have pre: "\<forall>e \<in> set R. prefix ?q (cs_key sha e)" by (simp add: assms(8))
  have R: "e \<in> set R \<longleftrightarrow> e \<in> set es \<and> prefix ?q (cs_key sha e)" for e by (auto simp: assms(8))
  show ?thesis
  proof (cases "\<exists>e \<in> set R. length (data_name (cse_data e)) < length ?q")
    case True
    then obtain e where e: "e \<in> set R" "length (data_name (cse_data e)) < length ?q" by blast
    note one = full_name_range [OF srt pre e]
    have es: "es = A @ e # C" using assms(6) one(1) by simp
    have "\<not> ?S e'" if "e' \<in> set A" for e'
    proof
      assume "?S e'"
      then have "prefix ?q (cs_key sha e')"
        using satisfy_prefix [OF assms(3)] assms(1,4) that es by (auto simp: cs_sorted_def)
      then have "?q \<le> cs_key sha e'" using take_le [of "length ?q" "cs_key sha e'"] by (auto simp: prefix_def)
      then show False using assms(7) that leD by blast
    qed
    then have *: "Cs_findRightmost sha now i es (length A) (length A + length R) =
        (if ?S e then Some (Some e) else if \<exists>e' \<in> set A. data_name (cse_data e') = data_name (cse_data e) then None else Some None)"
      using findRightmost_full [OF assms(1) es one(2) assms(7), of now] by (simp add: one(1))
    have unique: "e'' = e" if "e'' \<in> set es" "cs_key sha e'' = ?q" for e'' using that R [of e''] one(1) by simp
    have mem: "e' \<in> set A \<longleftrightarrow> e' \<in> set es \<and> cs_key sha e' < ?q" for e'
      using assms(1,7) es one(2) by (auto simp: cs_sorted_def sorted_wrt_append)
    have "cs_overrun sha now i es \<longleftrightarrow>
        \<not> ?S e \<and> (\<exists>e' \<in> set A. data_name (cse_data e') = data_name (cse_data e))"
    proof
      assume "cs_overrun sha now i es"
      then obtain e0 e' where "e0 \<in> set es" "cs_key sha e0 = ?q" "\<not> ?S e0" "e' \<in> set es"
          "data_name (cse_data e') = data_name (cse_data e0)" "cs_key sha e' < cs_key sha e0"
        unfolding cs_overrun_def by blast
      then show "\<not> ?S e \<and> (\<exists>e' \<in> set A. data_name (cse_data e') = data_name (cse_data e))"
        using unique mem by metis
    next
      assume "\<not> ?S e \<and> (\<exists>e' \<in> set A. data_name (cse_data e') = data_name (cse_data e))"
      then show "cs_overrun sha now i es"
        unfolding cs_overrun_def using assms(5) mem e(1) R one(2) by metis
    qed
    then show ?thesis unfolding * by (auto simp: rightmost_spec_def rightmost_match_def one(1))
  next
    case False
    then have R: "\<forall>e \<in> set R. prefix ?q (cs_key sha e) \<and> length ?q \<le> length (data_name (cse_data e))"
      using pre by (auto simp: not_less)
    moreover have "\<not> cs_overrun sha now i es"
    proof
      assume "cs_overrun sha now i es"
      then obtain e where "e \<in> set R" "cs_key sha e = ?q" by (auto simp: cs_overrun_def assms(8))
      then show False using R unfolding Data_getFullName_def by (metis length_append_singleton not_less_eq_eq order_refl)
    qed
    ultimately show ?thesis
      using findRightmost_eq [OF assms(1,6,7) R] rightmost_correct [OF srt R] by simp
  qed
qed

lemma find_entry:
  assumes "cs_sorted sha (cs_table c)" "query_ok (int_name i)" "typed \<tau> (int_name i)"
    and "\<forall>e \<in> set (cs_table c). typed \<tau> (cs_key sha e)"
  shows "if cs_overrun sha now i (cs_table c) then Cs_find sha pol now i c = None
    else \<exists>m. cs_match_spec sha now i (cs_table c) (map_option cse_data m) \<and> (\<forall>e. m = Some e \<longrightarrow> e \<in> set (cs_table c))
    \<and> Cs_find sha pol now i c = Some (map_option cse_data m, case m of None \<Rightarrow> c | Some e \<Rightarrow> doBeforeUse pol now (cs_key sha e) c)"
proof -
  let ?S = "CsEntry_canSatisfy sha now i" and ?es = "cs_table c" and ?q = "int_name i"
  define R where "R = filter (\<lambda>e. prefix ?q (cs_key sha e)) ?es"
  obtain A C where AC: "?es = A @ R @ C" "\<forall>e \<in> set A. cs_key sha e < ?q" "Cs_lower_bound sha ?q ?es = length A"
      "(if length ?q > 0 then Cs_lower_bound sha (Name_getSuccessor ?q) ?es else length ?es) = length A + length R"
    using cs_lower_bound_split [OF assms(1,2)] unfolding R_def by blast
  define f where "f = (if childSelector (int_selectors i) = 1 then Cs_findRightmost sha now i ?es (length A) (length A + length R)
    else Some (Cs_findLeftmost sha now i R))"
  have range: "drop (length A) (take (length A + length R) ?es) = R" by (simp add: AC(1))
  have find: "Cs_find sha pol now i c = map_option (\<lambda>m. case m of None \<Rightarrow> (None, c)
      | Some e \<Rightarrow> (Some (cse_data e), doBeforeUse pol now (cs_key sha e) c)) f"
    unfolding Cs_find_def Let_def AC(3,4) range f_def ..
  have srt: "cs_sorted sha R" unfolding R_def by (rule cs_sorted_filter [OF assms(1)])
  have sat: "e \<in> set R \<longleftrightarrow> e \<in> set ?es" if "?S e" for e
    using satisfy_prefix [OF assms(3) _ _ that] assms(1,4) by (auto simp: R_def cs_sorted_def)
  let ?spec = "\<lambda>m. case m of None \<Rightarrow> \<forall>e \<in> set R. \<not> ?S e
    | Some e \<Rightarrow> if childSelector (int_selectors i) = 1 then rightmost_match sha now i R e else leftmost_match sha now i R e"
  have left: "?spec (Cs_findLeftmost sha now i R)" if "childSelector (int_selectors i) \<noteq> 1"
    using find_least [of "cs_key sha" R ?S] srt that
    by (auto simp: Cs_findLeftmost_def leftmost_match_def cs_sorted_def find_None_iff split: option.splits)
  have f: "if cs_overrun sha now i ?es then f = None else \<exists>m. f = Some m \<and> ?spec m"
  proof (cases "childSelector (int_selectors i) = 1")
    case True
    have spec: "rightmost_spec sha now i R = ?spec"
      using True by (intro ext) (simp add: rightmost_spec_def split: option.split)
    have f: "Cs_findRightmost sha now i ?es (length A) (length A + length R) = f" using True by (simp add: f_def)
    show ?thesis by (rule findRightmost_correct [OF assms True AC(1,2) R_def, of now, unfolded spec f])
  next
    case False
    then show ?thesis using left by (simp add: f_def cs_overrun_def)
  qed
  have table: "cs_match_spec sha now i ?es (map_option cse_data m) \<and> (\<forall>e. m = Some e \<longrightarrow> e \<in> set ?es)" if "?spec m" for m
  proof (cases m)
    case None
    then show ?thesis using that sat by (auto simp: cs_match_spec_def)
  next
    case (Some e)
    then show ?thesis using that sat unfolding cs_match_spec_def rightmost_match_def leftmost_match_def
      by (auto split: if_splits intro!: exI [of _ e])
  qed
  show ?thesis
  proof (cases "cs_overrun sha now i ?es")
    case True
    then show ?thesis using f by (simp add: find)
  next
    case False
    then obtain m where m: "f = Some m" "?spec m" using f by auto
    show ?thesis using False table [OF m(2)] by (auto simp: find m(1) intro!: exI [of _ m] split: option.split)
  qed
qed

section \<open>What the store relies on\<close>

abbreviation cs_keys :: "(bytes \<Rightarrow> bytes) \<Rightarrow> 'p cs \<Rightarrow> name set" where
  "cs_keys sha256 c \<equiv> cs_key sha256 ` set (cs_table c)"

lemma cs_modify_keys:
  assumes "cs_sorted sha es" "\<And>e. cse_data (f e) = cse_data e"
  shows "cs_sorted sha (cs_modify sha k f es)"
    and "cs_key sha ` set (cs_modify sha k f es) = cs_key sha ` set es"
    and "length (cs_modify sha k f es) = length es"
proof -
  have d: "map cse_data (cs_modify sha k f es) = map cse_data es"
    unfolding cs_modify_def by (rule map_update_first) (rule assms(2))
  then have k: "map (cs_key sha) (cs_modify sha k f es) = map (cs_key sha) es"
    by (metis (mono_tags, lifting) List.map.compositionality comp_apply map_eq_conv)
  then show "cs_key sha ` set (cs_modify sha k f es) = cs_key sha ` set es" by (metis list.set_map)
  show "length (cs_modify sha k f es) = length es" by (simp add: cs_modify_def)
  have ds: "cse_data ` set (cs_modify sha k f es) = cse_data ` set es" using d by (metis list.set_map)
  have "sorted_wrt (<) (map (cs_key sha) es)" using assms(1) by (simp add: cs_sorted_def sorted_wrt_map)
  then show "cs_sorted sha (cs_modify sha k f es)"
    using assms(1) ds unfolding cs_sorted_def by (auto simp: k [symmetric] sorted_wrt_map) (metis imageE imageI)
qed

definition cs_inv :: "(bytes \<Rightarrow> bytes) \<Rightarrow> (name set \<Rightarrow> 'p \<Rightarrow> bool) \<Rightarrow> 'p cs \<Rightarrow> bool" where
  "cs_inv sha256 tracks c \<longleftrightarrow> cs_sorted sha256 (cs_table c) \<and> tracks (cs_keys sha256 c) (cs_policy c)
     \<and> length (cs_table c) \<le> cs_limit c"

text \<open>A policy keeps track of exactly the entries of the table: \<open>tracks K p\<close> says that it tracks \<open>K\<close>.\<close>

locale replacement_policy =
  fixes sha256 :: "bytes \<Rightarrow> bytes" and pol :: "'p policy" and tracks :: "name set \<Rightarrow> 'p \<Rightarrow> bool"
  assumes insert_law: "cs_sorted sha256 (cs_table c) \<Longrightarrow> k \<in> cs_keys sha256 c \<Longrightarrow>
      tracks (cs_keys sha256 c - {k}) (cs_policy c) \<Longrightarrow> c' = doAfterInsert pol now k c \<Longrightarrow>
      cs_sorted sha256 (cs_table c') \<and> set (cs_table c') \<subseteq> set (cs_table c) \<and> tracks (cs_keys sha256 c') (cs_policy c')
      \<and> cs_limit c' = cs_limit c \<and> length (cs_table c') = min (length (cs_table c)) (cs_limit c)"
    and refresh_law: "k \<in> cs_keys sha256 c \<Longrightarrow> tracks (cs_keys sha256 c) (cs_policy c) \<Longrightarrow>
      c' = doAfterRefresh pol now k c \<Longrightarrow>
      cs_table c' = cs_table c \<and> cs_limit c' = cs_limit c \<and> tracks (cs_keys sha256 c) (cs_policy c')"
    and use_law: "k \<in> cs_keys sha256 c \<Longrightarrow> tracks (cs_keys sha256 c) (cs_policy c) \<Longrightarrow>
      c' = doBeforeUse pol now k c \<Longrightarrow>
      cs_table c' = cs_table c \<and> cs_limit c' = cs_limit c \<and> tracks (cs_keys sha256 c) (cs_policy c')"
    and erase_law: "k \<in> cs_keys sha256 c \<Longrightarrow> tracks (cs_keys sha256 c) (cs_policy c) \<Longrightarrow>
      c' = doBeforeErase pol now k c \<Longrightarrow>
      cs_table c' = cs_table c \<and> cs_limit c' = cs_limit c \<and> tracks (cs_keys sha256 c - {k}) (cs_policy c')"
    and evict_law: "cs_sorted sha256 (cs_table c) \<Longrightarrow> tracks (cs_keys sha256 c) (cs_policy c) \<Longrightarrow>
      c' = evictEntries pol c \<Longrightarrow>
      cs_sorted sha256 (cs_table c') \<and> set (cs_table c') \<subseteq> set (cs_table c) \<and> tracks (cs_keys sha256 c') (cs_policy c')
      \<and> cs_limit c' = cs_limit c \<and> length (cs_table c') = min (length (cs_table c)) (cs_limit c)"
begin

lemma insert_inv:
  assumes "cs_inv sha256 tracks c" "cs_data_ok sha256 d" "Cs_insert sha256 pol now d u c = (r, c')"
  shows "cs_inv sha256 tracks c' \<and> cs_limit c' = cs_limit c
    \<and> cs_keys sha256 c' \<subseteq> insert (Data_getFullName sha256 d) (cs_keys sha256 c)"
proof (cases "data_noCache d")
  case True
  then show ?thesis using assms by (auto simp: Cs_insert_def)
next
  case False
  let ?e = "CsEntry_setData now d u"
  have e: "cse_data ?e = d" by (simp add: CsEntry_setData_def CsEntry_updateStaleTime_def)
  have srt: "cs_sorted sha256 (cs_table c)" and tr: "tracks (cs_keys sha256 c) (cs_policy c)"
    and le: "length (cs_table c) \<le> cs_limit c" using assms(1) by (auto simp: cs_inv_def)
  obtain es1 it isNew where ins: "set_insert sha256 ?e (cs_table c) = (es1, it, isNew)" by (metis prod_cases3)
  have ok: "cs_data_ok sha256 (cse_data ?e)" using assms(2) e by simp
  note ins1 = set_insert_correct [OF srt ok ins, unfolded e]
  have s1: "cs_sorted sha256 es1" using ins1 by blast
  define es2 where "es2 = cs_modify sha256 it (CsEntry_updateStaleTime now) es1"
  have es2: "cs_sorted sha256 es2" "cs_key sha256 ` set es2 = cs_key sha256 ` set es1" "length es2 = length es1"
    unfolding es2_def by (intro cs_modify_keys s1; simp add: CsEntry_updateStaleTime_def)+
  define es3 where "es3 = cs_modify sha256 it (\<lambda>e. if cse_isUnsolicited e \<and> \<not> u
      then CsEntry_unsetUnsolicited now e else e) es2"
  have es3: "cs_sorted sha256 es3" "cs_key sha256 ` set es3 = cs_key sha256 ` set es1" "length es3 = length es1"
    unfolding es3_def es2(2,3) [symmetric]
    by (intro cs_modify_keys es2(1); simp add: CsEntry_unsetUnsolicited_def CsEntry_setData_def CsEntry_updateStaleTime_def)+
  show ?thesis
  proof (cases isNew)
    case True
    let ?c1 = "c\<lparr>cs_table := es2\<rparr>"
    have c': "c' = doAfterInsert pol now it ?c1"
      using assms(3) False True ins by (simp add: Cs_insert_def es2_def)
    have keys: "cs_keys sha256 ?c1 = insert it (cs_keys sha256 c)" "it \<notin> cs_keys sha256 c"
      using True ins1 e by (auto simp: es2(2))
    then have "cs_keys sha256 ?c1 - {it} = cs_keys sha256 c" by auto
    with es2(1) keys(1) tr have law: "cs_sorted sha256 (cs_table c')" "set (cs_table c') \<subseteq> set (cs_table ?c1)"
      "tracks (cs_keys sha256 c') (cs_policy c')" "cs_limit c' = cs_limit c"
      "length (cs_table c') = min (length es2) (cs_limit c)"
      using insert_law [of ?c1 it, OF _ _ _ c'] by simp_all
    have "it = Data_getFullName sha256 d" using ins1 by blast
    moreover have "cs_keys sha256 c' \<subseteq> cs_keys sha256 ?c1" using law(2) by (rule image_mono)
    ultimately show ?thesis using law keys(1) by (simp add: cs_inv_def)
  next
    case isOld: False
    let ?c1 = "c\<lparr>cs_table := es3\<rparr>"
    have c': "c' = doAfterRefresh pol now it ?c1"
      using assms(3) False isOld ins by (simp add: Cs_insert_def es2_def es3_def)
    have keys: "cs_keys sha256 ?c1 = cs_keys sha256 c" "it \<in> cs_keys sha256 c"
      using isOld ins1 by (auto simp: es3(2))
    then show ?thesis
      using refresh_law [of it ?c1, OF _ _ c'] es3(1) tr le ins1 isOld
      by (auto simp: cs_inv_def es3(3))
  qed
qed

lemma find_correct:
  assumes "cs_inv sha256 tracks c" "query_ok (int_name i)" "typed \<tau> (int_name i)"
    and "\<forall>e \<in> set (cs_table c). typed \<tau> (cs_key sha256 e)"
  shows "case Cs_find sha256 pol now i c of
      None \<Rightarrow> cs_overrun sha256 now i (cs_table c)
    | Some (r, c') \<Rightarrow> \<not> cs_overrun sha256 now i (cs_table c) \<and> cs_match_spec sha256 now i (cs_table c) r
        \<and> cs_inv sha256 tracks c' \<and> cs_table c' = cs_table c"
proof (cases "cs_overrun sha256 now i (cs_table c)")
  case True
  then show ?thesis using find_entry [of sha256 c i \<tau> now pol] assms by (simp add: cs_inv_def)
next
  case False
  have "cs_sorted sha256 (cs_table c)" using assms(1) by (simp add: cs_inv_def)
  from find_entry [OF this assms(2-4), of now pol] False obtain m where m:
      "cs_match_spec sha256 now i (cs_table c) (map_option cse_data m)" "\<forall>e. m = Some e \<longrightarrow> e \<in> set (cs_table c)"
      "Cs_find sha256 pol now i c
         = Some (map_option cse_data m, case m of None \<Rightarrow> c | Some e \<Rightarrow> doBeforeUse pol now (cs_key sha256 e) c)"
    by auto
  show ?thesis
  proof (cases m)
    case (Some e)
    then have "cs_key sha256 e \<in> cs_keys sha256 c" using m(2) by auto
    then show ?thesis
      using use_law [of "cs_key sha256 e" c "doBeforeUse pol now (cs_key sha256 e) c" now] assms(1) m(1,3) Some False
      by (auto simp: cs_inv_def)
  qed (use m assms(1) False in simp)
qed

lemma setLimit_inv:
  assumes "cs_sorted sha256 (cs_table c)" "tracks (cs_keys sha256 c) (cs_policy c)" "c' = Cs_setLimit pol n c"
  shows "cs_inv sha256 tracks c' \<and> cs_limit c' = n \<and> length (cs_table c') = min (length (cs_table c)) n"
  using evict_law [of "c\<lparr>cs_limit := n\<rparr>" c'] assms
  by (simp add: Cs_setLimit_def Policy_setLimit_def cs_inv_def)

end

section \<open>The policies keep the contract\<close>

definition cs_tracked :: "(bytes \<Rightarrow> bytes) \<Rightarrow> (name set \<Rightarrow> 'p \<Rightarrow> bool) \<Rightarrow> 'p cs \<Rightarrow> bool" where
  "cs_tracked sha256 tracks c \<longleftrightarrow> cs_sorted sha256 (cs_table c) \<and> tracks (cs_keys sha256 c) (cs_policy c)"

lemma Cs_evict_correct:
  assumes "cs_sorted sha (cs_table c)" "k \<in> cs_keys sha c"
  shows "cs_sorted sha (cs_table (Cs_evict sha k c))" "cs_keys sha (Cs_evict sha k c) = cs_keys sha c - {k}"
    "set (cs_table (Cs_evict sha k c)) \<subseteq> set (cs_table c)"
    "length (cs_table (Cs_evict sha k c)) = length (cs_table c) - 1"
proof -
  have "sorted_wrt (<) (map (cs_key sha) (cs_table c))" using assms(1) by (simp add: cs_sorted_def sorted_wrt_map)
  then have d: "distinct (map (cs_key sha) (cs_table c))" by (simp add: strict_sorted_iff)
  have eq: "cs_table (Cs_evict sha k c) = filter (\<lambda>e. cs_key sha e \<noteq> k) (cs_table c)"
    by (simp add: Cs_evict_def erase_first_unique [OF d])
  then show "cs_sorted sha (cs_table (Cs_evict sha k c))" "cs_keys sha (Cs_evict sha k c) = cs_keys sha c - {k}"
    "set (cs_table (Cs_evict sha k c)) \<subseteq> set (cs_table c)"
    using assms(1) by (auto simp: cs_sorted_filter)
  have "length (filter (\<lambda>e. cs_key sha e \<noteq> k) (cs_table c)) = length (remove1 k (map (cs_key sha) (cs_table c)))"
    using distinct_remove1_removeAll [OF d, of k]
    by (simp add: removeAll_filter_not_eq filter_map comp_def eq_commute [of k])
  then show "length (cs_table (Cs_evict sha k c)) = length (cs_table c) - 1"
    using assms(2) eq by (simp add: length_remove1)
qed

lemma evict_while_correct:
  assumes step: "\<And>c. cs_tracked sha tracks c \<Longrightarrow> cs_table c \<noteq> [] \<Longrightarrow> cs_tracked sha tracks (one c)
      \<and> cs_limit (one c) = cs_limit c \<and> set (cs_table (one c)) \<subseteq> set (cs_table c)
      \<and> length (cs_table (one c)) = length (cs_table c) - 1"
    and "cs_tracked sha tracks c" "length (cs_table c) \<le> n + cs_limit c"
  shows "cs_tracked sha tracks (evict_while n one c) \<and> cs_limit (evict_while n one c) = cs_limit c
    \<and> set (cs_table (evict_while n one c)) \<subseteq> set (cs_table c)
    \<and> length (cs_table (evict_while n one c)) = min (length (cs_table c)) (cs_limit c)"
  using assms(2,3)
proof (induction n arbitrary: c)
  case (Suc n)
  show ?case
  proof (cases "length (cs_table c) > cs_limit c")
    case True
    then have "cs_table c \<noteq> []" by auto
    note one = step [OF Suc.prems(1) this]
    show ?thesis using Suc.IH [of "one c"] one Suc.prems(2) True by (fastforce simp: min_def)
  qed (use Suc.prems in simp)
qed simp

subsection \<open>Least recently used\<close>

definition lru_tracks :: "name set \<Rightarrow> name list \<Rightarrow> bool" where
  "lru_tracks K q \<longleftrightarrow> distinct q \<and> set q = K"

lemma Lru_evictOne_correct:
  assumes "cs_tracked sha lru_tracks c" "cs_table c \<noteq> []"
  shows "cs_tracked sha lru_tracks (Lru_evictOne sha c) \<and> cs_limit (Lru_evictOne sha c) = cs_limit c
    \<and> set (cs_table (Lru_evictOne sha c)) \<subseteq> set (cs_table c)
    \<and> length (cs_table (Lru_evictOne sha c)) = length (cs_table c) - 1"
proof -
  obtain k q where q: "cs_policy c = k # q"
    using assms by (cases "cs_policy c") (auto simp: cs_tracked_def lru_tracks_def)
  let ?c = "c\<lparr>cs_policy := q\<rparr>"
  have k: "k \<in> cs_keys sha ?c" "k \<notin> set q" "distinct q" "insert k (set q) = cs_keys sha c"
    using assms(1) q by (auto simp: cs_tracked_def lru_tracks_def)
  have "cs_sorted sha (cs_table ?c)" using assms(1) by (simp add: cs_tracked_def)
  note ev = Cs_evict_correct [OF this k(1)]
  have "set q = cs_keys sha c - {k}" using k by auto
  then show ?thesis using ev k q by (auto simp: Lru_evictOne_def cs_tracked_def lru_tracks_def Cs_evict_def)
qed

lemma Lru_evictEntries_correct:
  assumes "cs_tracked sha lru_tracks c" "c' = Lru_evictEntries sha c"
  shows "cs_tracked sha lru_tracks c' \<and> cs_limit c' = cs_limit c \<and> set (cs_table c') \<subseteq> set (cs_table c)
    \<and> length (cs_table c') = min (length (cs_table c)) (cs_limit c)"
  unfolding assms(2) Lru_evictEntries_def
  by (rule evict_while_correct [OF Lru_evictOne_correct]) (use assms(1) in simp_all)

lemma Lru_insertToQueue_correct:
  "cs_table (Lru_insertToQueue k b c) = cs_table c" "cs_limit (Lru_insertToQueue k b c) = cs_limit c"
  "k \<in> K \<Longrightarrow> lru_tracks (K - {k}) (cs_policy c) \<Longrightarrow> lru_tracks K (cs_policy (Lru_insertToQueue k True c))"
  "k \<in> K \<Longrightarrow> lru_tracks K (cs_policy c) \<Longrightarrow> lru_tracks K (cs_policy (Lru_insertToQueue k False c))"
  "lru_tracks K q \<Longrightarrow> lru_tracks (K - {k}) (remove1 k q)"
  by (auto simp: Lru_insertToQueue_def Let_def lru_tracks_def)

interpretation lru: replacement_policy sha256 "LruPolicy sha256" lru_tracks for sha256
proof
  show "cs_sorted sha256 (cs_table c') \<and> set (cs_table c') \<subseteq> set (cs_table c) \<and> lru_tracks (cs_keys sha256 c') (cs_policy c')
      \<and> cs_limit c' = cs_limit c \<and> length (cs_table c') = min (length (cs_table c)) (cs_limit c)"
    if "cs_sorted sha256 (cs_table c)" "k \<in> cs_keys sha256 c" "lru_tracks (cs_keys sha256 c - {k}) (cs_policy c)"
      "c' = doAfterInsert (LruPolicy sha256) now k c" for c c' k now
    using Lru_evictEntries_correct [of sha256 "Lru_insertToQueue k True c" c'] Lru_insertToQueue_correct(1-3) [of k _ c] that
    by (simp add: LruPolicy_def cs_tracked_def)
  show "cs_sorted sha256 (cs_table c') \<and> set (cs_table c') \<subseteq> set (cs_table c) \<and> lru_tracks (cs_keys sha256 c') (cs_policy c')
      \<and> cs_limit c' = cs_limit c \<and> length (cs_table c') = min (length (cs_table c)) (cs_limit c)"
    if "cs_sorted sha256 (cs_table c)" "lru_tracks (cs_keys sha256 c) (cs_policy c)"
      "c' = evictEntries (LruPolicy sha256) c" for c c'
    using Lru_evictEntries_correct [of sha256 c c'] that by (simp add: LruPolicy_def cs_tracked_def)
qed (simp_all add: LruPolicy_def Lru_insertToQueue_correct)

subsection \<open>Priority FIFO\<close>

definition fifo_tracks :: "name set \<Rightarrow> fifo \<Rightarrow> bool" where
  "fifo_tracks K p \<longleftrightarrow> dom (fifo_info p) = K \<and> (\<forall>t. distinct (fifo_queues p t))
     \<and> (\<forall>t k. k \<in> set (fifo_queues p t) \<longleftrightarrow> (\<exists>m. fifo_info p k = Some (t, m)))"

lemma Fifo_detachQueue_correct:
  assumes "fifo_tracks K (cs_policy c)"
  shows "fifo_tracks (K - {k}) (cs_policy (Fifo_detachQueue k c))"
    "cs_table (Fifo_detachQueue k c) = cs_table c" "cs_limit (Fifo_detachQueue k c) = cs_limit c"
proof -
  show "fifo_tracks (K - {k}) (cs_policy (Fifo_detachQueue k c))"
  proof (cases "fifo_info (cs_policy c) k")
    case None
    then show ?thesis using assms by (auto simp: Fifo_detachQueue_def fifo_tracks_def Let_def)
  next
    case (Some tm)
    then obtain t m where "fifo_info (cs_policy c) k = Some (t, m)" by (cases tm) auto
    then show ?thesis using assms by (auto simp: Fifo_detachQueue_def fifo_tracks_def Let_def split: if_splits)
  qed
  show "cs_table (Fifo_detachQueue k c) = cs_table c" "cs_limit (Fifo_detachQueue k c) = cs_limit c"
    by (simp_all add: Fifo_detachQueue_def Let_def split: option.splits prod.splits)
qed

lemma Fifo_attachQueue_correct:
  assumes "fifo_tracks (K - {k}) (cs_policy c)" "k \<in> K" "k \<in> cs_keys sha c"
  shows "fifo_tracks K (cs_policy (Fifo_attachQueue sha now k c))"
    "cs_table (Fifo_attachQueue sha now k c) = cs_table c" "cs_limit (Fifo_attachQueue sha now k c) = cs_limit c"
proof -
  have "find (\<lambda>e. cs_key sha e = k) (cs_table c) \<noteq> None" using assms(3) by (auto simp: find_None_iff)
  then obtain e where e: "cs_get sha k (cs_table c) = Some e" by (auto simp: cs_get_def)
  obtain t m where tm: "(if cse_isUnsolicited e then (QUEUE_UNSOLICITED, None)
      else if CsEntry_isStale now e then (QUEUE_STALE, None)
      else (QUEUE_FIFO, if CsEntry_canStale e
                        then Some (now + milliseconds (data_freshness (cse_data e))) else None)) = (t, m)"
    by (cases "(if cse_isUnsolicited e then (QUEUE_UNSOLICITED, None)
      else if CsEntry_isStale now e then (QUEUE_STALE, None)
      else (QUEUE_FIFO, if CsEntry_canStale e
                        then Some (now + milliseconds (data_freshness (cse_data e))) else None))") blast
  let ?p = "cs_policy c"
  have p: "Fifo_attachQueue sha now k c = c\<lparr>cs_policy := ?p\<lparr>fifo_queues := (fifo_queues ?p)(t := fifo_queues ?p t @ [k]),
      fifo_info := (fifo_info ?p)(k \<mapsto> (t, m))\<rparr>\<rparr>"
    by (simp only: Fifo_attachQueue_def e tm option.case prod.case Let_def)
  have "fifo_info ?p k = None" using assms(1) by (auto simp: fifo_tracks_def)
  then show "fifo_tracks K (cs_policy (Fifo_attachQueue sha now k c))"
    using assms(1,2) unfolding p by (auto simp: fifo_tracks_def split: if_splits)
  show "cs_table (Fifo_attachQueue sha now k c) = cs_table c" "cs_limit (Fifo_attachQueue sha now k c) = cs_limit c"
    by (simp_all add: p)
qed

lemma Fifo_moveToStaleQueue_correct:
  assumes "fifo_tracks K (cs_policy c)" "fifo_info (cs_policy c) k = Some (QUEUE_FIFO, m)"
  shows "fifo_tracks K (cs_policy (Fifo_moveToStaleQueue k c))"
    "cs_table (Fifo_moveToStaleQueue k c) = cs_table c" "cs_limit (Fifo_moveToStaleQueue k c) = cs_limit c"
proof -
  let ?p = "cs_policy c" and ?p' = "cs_policy (Fifo_moveToStaleQueue k c)"
  have p: "fifo_queues ?p' t = (case t of QUEUE_UNSOLICITED \<Rightarrow> fifo_queues ?p QUEUE_UNSOLICITED
      | QUEUE_STALE \<Rightarrow> fifo_queues ?p QUEUE_STALE @ [k] | QUEUE_FIFO \<Rightarrow> remove1 k (fifo_queues ?p QUEUE_FIFO))"
    "fifo_info ?p' = (fifo_info ?p)(k \<mapsto> (QUEUE_STALE, None))" for t
    by (cases t) (simp_all add: Fifo_moveToStaleQueue_def Let_def)
  have mem: "x \<in> set (fifo_queues ?p t) \<longleftrightarrow> (\<exists>m. fifo_info ?p x = Some (t, m))" and d: "distinct (fifo_queues ?p t)" for x t
    using assms(1) by (auto simp: fifo_tracks_def)
  have "distinct (fifo_queues ?p' t)" for t by (cases t) (simp_all add: p d mem assms(2))
  moreover have "x \<in> set (fifo_queues ?p' t) \<longleftrightarrow> (\<exists>m. fifo_info ?p' x = Some (t, m))" for x t
    by (cases t; cases "x = k") (simp_all add: p d mem assms(2))
  moreover have "dom (fifo_info ?p') = K" using assms by (auto simp: p fifo_tracks_def)
  ultimately show "fifo_tracks K ?p'" by (simp add: fifo_tracks_def)
qed (simp_all add: Fifo_moveToStaleQueue_def Let_def)

lemma Fifo_evictOne_correct:
  assumes "cs_tracked sha fifo_tracks c" "cs_table c \<noteq> []"
  shows "cs_tracked sha fifo_tracks (Fifo_evictOne sha c) \<and> cs_limit (Fifo_evictOne sha c) = cs_limit c
    \<and> set (cs_table (Fifo_evictOne sha c)) \<subseteq> set (cs_table c)
    \<and> length (cs_table (Fifo_evictOne sha c)) = length (cs_table c) - 1"
proof -
  let ?qs = "fifo_queues (cs_policy c)"
  have tr: "fifo_tracks (cs_keys sha c) (cs_policy c)" and srt: "cs_sorted sha (cs_table c)"
    using assms(1) by (auto simp: cs_tracked_def)
  obtain e where "e \<in> set (cs_table c)" using assms(2) by (cases "cs_table c") auto
  then have "cs_key sha e \<in> dom (fifo_info (cs_policy c))" using tr by (simp add: fifo_tracks_def)
  then obtain t m where "fifo_info (cs_policy c) (cs_key sha e) = Some (t, m)" by auto
  then have "cs_key sha e \<in> set (?qs t)" using tr by (auto simp: fifo_tracks_def)
  then consider "?qs QUEUE_UNSOLICITED \<noteq> []" | "?qs QUEUE_UNSOLICITED = []" "?qs QUEUE_STALE \<noteq> []"
    | "?qs QUEUE_UNSOLICITED = []" "?qs QUEUE_STALE = []" "?qs QUEUE_FIFO \<noteq> []"
    by (cases t) (metis empty_iff list.set(1))+
  then obtain t' where "?qs t' \<noteq> []"
      "Fifo_evictOne sha c = Cs_evict sha (hd (?qs t')) (Fifo_detachQueue (hd (?qs t')) c)"
    by cases (use that in \<open>simp_all add: Fifo_evictOne_def Let_def\<close>)
  then obtain k where k: "k \<in> set (?qs t')" "Fifo_evictOne sha c = Cs_evict sha k (Fifo_detachQueue k c)"
    by (meson hd_in_set)
  note det = Fifo_detachQueue_correct [OF tr, where k = k]
  have "k \<in> cs_keys sha c" using k(1) tr by (auto simp: fifo_tracks_def)
  then show ?thesis
    using Cs_evict_correct [of sha "Fifo_detachQueue k c" k] srt det k(2) by (auto simp: cs_tracked_def Cs_evict_def)
qed

lemma Fifo_evictEntries_correct:
  assumes "cs_tracked sha fifo_tracks c" "c' = Fifo_evictEntries sha c"
  shows "cs_tracked sha fifo_tracks c' \<and> cs_limit c' = cs_limit c \<and> set (cs_table c') \<subseteq> set (cs_table c)
    \<and> length (cs_table c') = min (length (cs_table c)) (cs_limit c)"
  unfolding assms(2) Fifo_evictEntries_def
  by (rule evict_while_correct [OF Fifo_evictOne_correct]) (use assms(1) in simp_all)

interpretation fifo: replacement_policy sha256 "PriorityFifoPolicy sha256" fifo_tracks for sha256
proof
  show "cs_sorted sha256 (cs_table c') \<and> set (cs_table c') \<subseteq> set (cs_table c) \<and> fifo_tracks (cs_keys sha256 c') (cs_policy c')
      \<and> cs_limit c' = cs_limit c \<and> length (cs_table c') = min (length (cs_table c)) (cs_limit c)"
    if "cs_sorted sha256 (cs_table c)" "k \<in> cs_keys sha256 c" "fifo_tracks (cs_keys sha256 c - {k}) (cs_policy c)"
      "c' = doAfterInsert (PriorityFifoPolicy sha256) now k c" for c c' k now
    using Fifo_evictEntries_correct [of sha256 "Fifo_attachQueue sha256 now k c" c']
      Fifo_attachQueue_correct [OF that(3,2,2), of now] that
    by (simp add: PriorityFifoPolicy_def cs_tracked_def)
  show "cs_table c' = cs_table c \<and> cs_limit c' = cs_limit c \<and> fifo_tracks (cs_keys sha256 c) (cs_policy c')"
    if "k \<in> cs_keys sha256 c" "fifo_tracks (cs_keys sha256 c) (cs_policy c)"
      "c' = doAfterRefresh (PriorityFifoPolicy sha256) now k c" for c c' k now
    using Fifo_detachQueue_correct [OF that(2), where k = k] that(1,3)
      Fifo_attachQueue_correct [of "cs_keys sha256 c" k "Fifo_detachQueue k c" sha256 now]
    by (simp add: PriorityFifoPolicy_def)
  show "cs_sorted sha256 (cs_table c') \<and> set (cs_table c') \<subseteq> set (cs_table c) \<and> fifo_tracks (cs_keys sha256 c') (cs_policy c')
      \<and> cs_limit c' = cs_limit c \<and> length (cs_table c') = min (length (cs_table c)) (cs_limit c)"
    if "cs_sorted sha256 (cs_table c)" "fifo_tracks (cs_keys sha256 c) (cs_policy c)"
      "c' = evictEntries (PriorityFifoPolicy sha256) c" for c c'
    using Fifo_evictEntries_correct [of sha256 c c'] that by (simp add: PriorityFifoPolicy_def cs_tracked_def)
qed (simp_all add: PriorityFifoPolicy_def Fifo_detachQueue_correct)

section \<open>Order of eviction\<close>

text \<open>A full store with the LRU policy makes room for a new entry by evicting the one whose last use is
  longest ago, which is at the front of the queue.\<close>

lemma evict_while_done: "length (cs_table c) \<le> cs_limit c \<Longrightarrow> evict_while n one c = c"
  by (cases n) simp_all

lemma lru_insert_full:
  assumes "cs_inv sha lru_tracks c" "cs_data_ok sha d" "\<not> data_noCache d"
    and "length (cs_table c) = cs_limit c" "0 < cs_limit c" "Data_getFullName sha d \<notin> cs_keys sha c"
    and "Cs_insert sha (LruPolicy sha) now d u c = (r, c')"
  shows "cs_policy c' = tl (cs_policy c) @ [Data_getFullName sha d]"
    and "cs_keys sha c' = insert (Data_getFullName sha d) (cs_keys sha c - {hd (cs_policy c)})"
proof -
  let ?k = "Data_getFullName sha d"
  have e: "cse_data (CsEntry_setData now d u) = d" by (simp add: CsEntry_setData_def CsEntry_updateStaleTime_def)
  have srt: "cs_sorted sha (cs_table c)" and q: "distinct (cs_policy c)" "set (cs_policy c) = cs_keys sha c"
    using assms(1) by (auto simp: cs_inv_def lru_tracks_def)
  obtain es1 it isNew where ins: "set_insert sha (CsEntry_setData now d u) (cs_table c) = (es1, it, isNew)"
    by (metis prod_cases3)
  have ok: "cs_data_ok sha (cse_data (CsEntry_setData now d u))" using assms(2) e by simp
  note ins1 = set_insert_correct [OF srt ok ins, unfolded e]
  have new: "isNew" "it = ?k" using ins1 assms(6) by auto
  have "cs_table c \<noteq> []" using assms(4,5) by auto
  then obtain h t where ht: "cs_policy c = h # t" using q(2) by (cases "cs_policy c") auto
  define es2 where "es2 = cs_modify sha it (CsEntry_updateStaleTime now) es1"
  have es2: "length es2 = Suc (cs_limit c)"
    using ins1 new(1) assms(4) by (simp add: es2_def cs_modify_def)
  have "c' = Lru_evictEntries sha (Lru_insertToQueue ?k True (c\<lparr>cs_table := es2\<rparr>))"
    using assms(3,7) ins new by (simp add: Cs_insert_def es2_def LruPolicy_def)
  also have "Lru_insertToQueue ?k True (c\<lparr>cs_table := es2\<rparr>) = c\<lparr>cs_table := es2, cs_policy := h # t @ [?k]\<rparr>"
    using q(2) assms(6) ht by (auto simp: Lru_insertToQueue_def Let_def)
  finally have c': "c' = Lru_evictEntries sha (c\<lparr>cs_table := es2, cs_policy := h # t @ [?k]\<rparr>)" .
  have "cs_sorted sha es2" "cs_key sha ` set es2 = cs_key sha ` set es1"
    unfolding es2_def by (rule cs_modify_keys; use ins1 in \<open>simp add: CsEntry_updateStaleTime_def\<close>)+
  moreover have "h \<in> cs_keys sha c" using q(2) ht by auto
  ultimately have "length (cs_table (Cs_evict sha h (c\<lparr>cs_table := es2, cs_policy := t @ [?k]\<rparr>))) = cs_limit c"
    using Cs_evict_correct(4) [of sha "c\<lparr>cs_table := es2, cs_policy := t @ [?k]\<rparr>" h] es2 ins1 new(1) by auto
  then have ev: "c' = Cs_evict sha h (c\<lparr>cs_table := es2, cs_policy := t @ [?k]\<rparr>)"
    unfolding c' Lru_evictEntries_def
    by (simp add: es2 Lru_evictOne_def, subst evict_while_done) (simp_all add: Cs_evict_def)
  then show pol: "cs_policy c' = tl (cs_policy c) @ [?k]" by (simp add: ht Cs_evict_def)
  have "cs_inv sha lru_tracks c'" using lru.insert_inv [OF assms(1,2,7)] by blast
  then have "set (cs_policy c') = cs_keys sha c'" by (auto simp: cs_inv_def lru_tracks_def)
  then show "cs_keys sha c' = insert ?k (cs_keys sha c - {hd (cs_policy c)})"
    using pol q ht by auto
qed

end
