(* ===== verification/ForwarderState.thy ===== *)
theory ForwarderState
  imports StrategyChoice DeadNonces ContentStore
begin

text \<open>
  The state of the forwarder and the operations that strategies use, from
  \<open>NFD/daemon/fw/forwarder.cpp\<close> and \<open>face-table.cpp\<close>. A face object is identified by the identifier the
  face table gave it; identifiers are not reused, and a removed face, whose \<open>getId\<close> is then invalid, is
  one the table no longer has. What faces send is recorded in order in \<open>fw_out\<close>. A \<open>shared_ptr\<close> to a PIT
  entry is the name and selectors of the entry. Code outside the forwarder that it depends on is gathered
  in a record: the hash functions and the content store of the simulator, of which the forwarder uses
  \<open>Lookup\<close> and \<open>Add\<close>. Where a lookup in the store of \<open>cs.cpp\<close> has undefined behaviour, the record says
  what it yields, an arbitrary answer; the theorems are about every such record. The random nonces are a stream of values. The copy that
  gets a new one is a value of its own here; that in the code it shares the buffer of the original is the subject
  of the theory \<open>InterestWire\<close>. Packet tags, the incoming face identifier
  set on packets, and the signals that only observers use are not part of the state.
\<close>

section \<open>State\<close>

datatype packet = InterestPacket interest | DataPacket data

record 'c env =
  env_city :: "bytes \<Rightarrow> u64"
  env_citySeed :: "bytes \<Rightarrow> u64 \<Rightarrow> u64"
  env_sha256 :: "bytes \<Rightarrow> bytes"
  env_csUndefined :: "interest \<Rightarrow> data option"
  NdnSim_Lookup :: "interest \<Rightarrow> 'c \<Rightarrow> data option \<times> 'c"
  NdnSim_Add :: "data \<Rightarrow> 'c \<Rightarrow> 'c"

record 'c forwarder =
  fw_nt :: nametree
  fw_nFib :: nat
  fw_nPit :: nat
  fw_cs :: "fifo cs"
  fw_csFromNdnSim :: "'c option"
  fw_sc :: strategy_choice
  fw_dnl :: dnl
  fw_faces :: "int \<Rightarrow> face option"
  fw_lastFaceId :: int
  fw_nInInterests :: u64
  fw_nOutInterests :: u64
  fw_nInDatas :: u64
  fw_nOutDatas :: u64
  fw_rng :: "nat \<Rightarrow> u32"
  fw_out :: "(face \<times> packet) list"

definition fw_entry :: "'c forwarder \<Rightarrow> pit_ref \<Rightarrow> pit_entry option" where
  "fw_entry fw r = pit_at r (fw_nt fw)"

definition fw_modify :: "pit_ref \<Rightarrow> (pit_entry \<Rightarrow> pit_entry) \<Rightarrow> 'c forwarder \<Rightarrow> 'c forwarder" where
  "fw_modify r f fw = fw\<lparr>fw_nt := pit_modify r f (fw_nt fw)\<rparr>"

section \<open>Face table\<close>

definition INVALID_FACEID :: int where "INVALID_FACEID = -1"
definition FACEID_CONTENT_STORE :: int where "FACEID_CONTENT_STORE = 254"
definition FACEID_RESERVED_MAX :: int where "FACEID_RESERVED_MAX = 255"

definition Face_getId :: "'c forwarder \<Rightarrow> face \<Rightarrow> int" where
  "Face_getId fw f = (if fw_faces fw (face_id f) = Some f then face_id f else INVALID_FACEID)"

definition FaceTable_get :: "int \<Rightarrow> 'c forwarder \<Rightarrow> face option" where
  "FaceTable_get i fw = fw_faces fw i"

definition FaceTable_addImpl :: "face \<Rightarrow> int \<Rightarrow> 'c forwarder \<Rightarrow> face \<times> 'c forwarder" where
  "FaceTable_addImpl f faceId fw =
     (let f' = f\<lparr>face_id := faceId\<rparr> in (f', fw\<lparr>fw_faces := (fw_faces fw)(faceId \<mapsto> f')\<rparr>))"

definition FaceTable_add :: "face \<Rightarrow> 'c forwarder \<Rightarrow> face \<times> 'c forwarder" where
  "FaceTable_add f fw =
     (if face_id f \<noteq> INVALID_FACEID \<and> fw_faces fw (face_id f) \<noteq> None then (f, fw)
      else let faceId = fw_lastFaceId fw + 1
           in FaceTable_addImpl f faceId (fw\<lparr>fw_lastFaceId := faceId\<rparr>))"

definition FaceTable_addReserved :: "face \<Rightarrow> int \<Rightarrow> 'c forwarder \<Rightarrow> face \<times> 'c forwarder" where
  "FaceTable_addReserved f faceId fw = FaceTable_addImpl f faceId fw"

definition FaceTable_remove :: "face \<Rightarrow> 'c forwarder \<Rightarrow> 'c forwarder" where
  "FaceTable_remove f fw =
     (let (nt, n) = Fib_removeNextHopFromAllEntries f (fw_nt fw, fw_nFib fw)
      in fw\<lparr>fw_faces := (fw_faces fw)(Face_getId fw f := None), fw_nt := nt, fw_nFib := n\<rparr>)"

section \<open>Timers\<close>

text \<open>\<open>std::max_element\<close>: the first of the greatest elements of a list that is not empty.\<close>

fun max_element :: "('a \<Rightarrow> 'a \<Rightarrow> bool) \<Rightarrow> 'a \<Rightarrow> 'a list \<Rightarrow> 'a" where
  "max_element lt x [] = x"
| "max_element lt x (y # ys) = max_element lt (if lt x y then y else x) ys"

definition compare_InRecord_expiry :: "in_record \<Rightarrow> in_record \<Rightarrow> bool" where
  "compare_InRecord_expiry a b \<longleftrightarrow> rec_expiry a < rec_expiry b"

definition unsatisfy_time :: "timepoint \<Rightarrow> pit_entry \<Rightarrow> timepoint option" where
  "unsatisfy_time now pe = (case pit_inRecords pe of
       [] \<Rightarrow> None
     | r # rs \<Rightarrow> let lastExpiryFromNow = rec_expiry (max_element compare_InRecord_expiry r rs) - now
                in Some (now + lastExpiryFromNow))"

definition Forwarder_setUnsatisfyTimer :: "timepoint \<Rightarrow> pit_ref \<Rightarrow> 'c forwarder \<Rightarrow> 'c forwarder" where
  "Forwarder_setUnsatisfyTimer now r fw =
     fw_modify r (\<lambda>pe. pe\<lparr>pit_unsatisfyTimer := unsatisfy_time now pe\<rparr>) fw"

definition Forwarder_setStragglerTimer ::
    "timepoint \<Rightarrow> pit_ref \<Rightarrow> bool \<Rightarrow> int \<Rightarrow> 'c forwarder \<Rightarrow> 'c forwarder" where
  "Forwarder_setStragglerTimer now r isSatisfied dataFreshnessPeriod fw =
     fw_modify r (\<lambda>pe. pe\<lparr>pit_stragglerTimer := Some (now + milliseconds 100, isSatisfied, dataFreshnessPeriod)\<rparr>) fw"

definition Forwarder_cancelUnsatisfyAndStragglerTimer :: "pit_ref \<Rightarrow> 'c forwarder \<Rightarrow> 'c forwarder" where
  "Forwarder_cancelUnsatisfyAndStragglerTimer r fw =
     fw_modify r (\<lambda>pe. pe\<lparr>pit_unsatisfyTimer := None, pit_stragglerTimer := None\<rparr>) fw"

section \<open>Dead nonces\<close>

definition insertNonceToDnl :: "'c env \<Rightarrow> pit_entry \<Rightarrow> face_record \<Rightarrow> 'c forwarder \<Rightarrow> 'c forwarder" where
  "insertNonceToDnl env pe outRecord fw =
     fw\<lparr>fw_dnl := DeadNonceList_add (env_citySeed env) (PitEntry_getName pe) (rec_lastNonce outRecord) (fw_dnl fw)\<rparr>"

definition Forwarder_insertDeadNonceList ::
    "'c env \<Rightarrow> pit_entry \<Rightarrow> bool \<Rightarrow> int \<Rightarrow> face option \<Rightarrow> 'c forwarder \<Rightarrow> 'c forwarder" where
  "Forwarder_insertDeadNonceList env pe isSatisfied dataFreshnessPeriod upstream fw =
     (let needDnl = (if isSatisfied then
            (let hasFreshnessPeriod = dataFreshnessPeriod \<ge> 0
             in mustBeFresh (int_selectors (pit_interest pe)) \<and>
                (hasFreshnessPeriod \<and> milliseconds dataFreshnessPeriod < dnl_lifetime (fw_dnl fw)))
          else True)
      in if \<not> needDnl then fw
         else case upstream of
                None \<Rightarrow> fold (insertNonceToDnl env pe) (pit_outRecords pe) fw
              | Some f \<Rightarrow> (case PitEntry_getOutRecord pe f of
                            None \<Rightarrow> fw
                          | Some outRecord \<Rightarrow> insertNonceToDnl env pe outRecord fw))"

section \<open>Actions of strategies\<close>

definition compare_pickInterest :: "face \<Rightarrow> in_record \<Rightarrow> in_record \<Rightarrow> bool" where
  "compare_pickInterest outFace a b =
     (let isOutFaceA = rec_face a = outFace; isOutFaceB = rec_face b = outFace
      in if \<not> isOutFaceA \<and> isOutFaceB then False
         else if isOutFaceA \<and> \<not> isOutFaceB then True
         else rec_lastRenewed a > rec_lastRenewed b)"

text \<open>An entry without in-records, which the code excludes with an assertion, is left as it is.\<close>

definition pick_interest :: "face \<Rightarrow> pit_entry \<Rightarrow> interest option" where
  "pick_interest outFace pe = (case pit_inRecords pe of
       [] \<Rightarrow> None
     | r # rs \<Rightarrow> rec_interest (max_element (compare_pickInterest outFace) r rs))"

definition Forwarder_onOutgoingInterest ::
    "timepoint \<Rightarrow> pit_ref \<Rightarrow> face \<Rightarrow> bool \<Rightarrow> 'c forwarder \<Rightarrow> 'c forwarder" where
  "Forwarder_onOutgoingInterest now r outFace wantNewNonce fw =
     (case fw_entry fw r of
        None \<Rightarrow> fw
      | Some pe \<Rightarrow>
          if Face_getId fw outFace = INVALID_FACEID then fw
          else if PitEntry_violatesScope pe outFace then fw
          else case pick_interest outFace pe of
                 None \<Rightarrow> fw
               | Some picked \<Rightarrow>
                   let (i, fw1) = (if wantNewNonce
                         then (picked\<lparr>int_nonce := fw_rng fw 0\<rparr>, fw\<lparr>fw_rng := \<lambda>n. fw_rng fw (Suc n)\<rparr>)
                         else (picked, fw));
                       fw2 = fw_modify r (PitEntry_insertOrUpdateOutRecord now outFace i) fw1
                   in fw2\<lparr>fw_out := fw_out fw2 @ [(outFace, InterestPacket i)],
                          fw_nOutInterests := fw_nOutInterests fw2 + 1\<rparr>)"

definition Forwarder_onInterestReject :: "timepoint \<Rightarrow> pit_ref \<Rightarrow> 'c forwarder \<Rightarrow> 'c forwarder" where
  "Forwarder_onInterestReject now r fw =
     (case fw_entry fw r of
        None \<Rightarrow> fw
      | Some pe \<Rightarrow>
          if PitEntry_hasUnexpiredOutRecords now pe then fw
          else Forwarder_setStragglerTimer now r False (-1) (Forwarder_cancelUnsatisfyAndStragglerTimer r fw))"

definition Forwarder_onOutgoingData :: "data \<Rightarrow> face \<Rightarrow> 'c forwarder \<Rightarrow> 'c forwarder" where
  "Forwarder_onOutgoingData d outFace fw =
     (if Face_getId fw outFace = INVALID_FACEID then fw
      else if \<not> face_isLocal outFace \<and> Name_isPrefixOf LOCALHOST_NAME (data_name d) then fw
      else fw\<lparr>fw_out := fw_out fw @ [(outFace, DataPacket d)], fw_nOutDatas := fw_nOutDatas fw + 1\<rparr>)"

section \<open>Invariant\<close>

text \<open>The in-records of an entry hold Interests of its name.\<close>

definition recs_ok :: "name \<Rightarrow> pit_entry \<Rightarrow> bool" where
  "recs_ok k pe \<longleftrightarrow> (\<forall>r \<in> set (pit_inRecords pe). \<exists>i. rec_interest r = Some i \<and> int_name i = k)"

definition fw_inv :: "'c env \<Rightarrow> (bytes \<Rightarrow> u32) \<Rightarrow> 'c forwarder \<Rightarrow> bool" where
  "fw_inv env \<tau> fw \<longleftrightarrow> nt_inv (env_city env) \<tau> (fw_nt fw) \<and> pit_inv (fw_nt fw) \<and> sc_inv \<tau> (fw_nt fw) (fw_sc fw) \<and>
     (\<forall>r pe. fw_entry fw r = Some pe \<longrightarrow> recs_ok (fst r) pe) \<and> dnl_inv (fw_dnl fw) \<and>
     cs_inv (env_sha256 env) fifo_tracks (fw_cs fw)"

text \<open>The packets a face may be given: nothing under \<open>/localhost\<close> for a face that is not local.\<close>

definition packet_name :: "packet \<Rightarrow> name" where
  "packet_name p = (case p of InterestPacket i \<Rightarrow> int_name i | DataPacket d \<Rightarrow> data_name d)"

definition scope_ok :: "face \<times> packet \<Rightarrow> bool" where
  "scope_ok = (\<lambda>(f, p). face_isLocal f \<or> \<not> Name_isPrefixOf LOCALHOST_NAME (packet_name p))"

text \<open>A change of a PIT entry that keeps the Interest it stands for.\<close>

definition keeps_interest :: "(pit_entry \<Rightarrow> pit_entry) \<Rightarrow> bool" where
  "keeps_interest f \<longleftrightarrow> (\<forall>pe. pit_interest (f pe) = pit_interest pe \<and> (pit_entry_inv pe \<longrightarrow> pit_entry_inv (f pe)))"

lemma pit_modify_maps [simp]:
  "fib_map (pit_modify r f nt) = fib_map nt" "measurements_map (pit_modify r f nt) = measurements_map nt"
  "strategy_map (pit_modify r f nt) = strategy_map nt" "nt_has (pit_modify r f nt) = nt_has nt"
  by (cases r; simp add: pit_modify_def table_maps_update_other)+

lemma pit_modify_nt_inv: "nt_inv city \<tau> nt \<Longrightarrow> nt_inv city \<tau> (pit_modify r f nt)"
  by (cases r) (simp add: pit_modify_def nt_update_inv)

lemma pit_modify_map:
  "pit_map (pit_modify (k, s) f nt) = (pit_map nt)(k := update_first (\<lambda>pe. pit_selectors pe = s) f (pit_map nt k))"
proof (cases "nt_has nt k")
  case True
  then show ?thesis by (simp add: pit_modify_def table_maps_update pit_selectors_def)
next
  case False
  then have "nt_store nt k = None" by (auto simp: nt_has_def)
  then have "nt_store (pit_modify (k, s) f nt) = nt_store nt" by (auto simp: pit_modify_def nt_update_def)
  moreover have "pit_map nt k = []" using False table_maps_absent(2) [of k nt] by (simp add: nt_has_def)
  ultimately show ?thesis by (auto simp: pit_map_def nt_tables_def fun_eq_iff)
qed

lemma pit_at_modify:
  assumes "keeps_interest f"
  shows "pit_at r' (pit_modify r f nt) = (if r' = r then map_option f (pit_at r nt) else pit_at r' nt)"
proof -
  have s: "pit_selectors (f pe) = pit_selectors pe" for pe using assms by (simp add: keeps_interest_def pit_selectors_def)
  obtain k s k' s' where r: "r = (k, s)" "r' = (k', s')" by (cases r; cases r')
  have "find (\<lambda>pe. pit_selectors pe = s') (update_first (\<lambda>pe. pit_selectors pe = s) f (pit_map nt k))
      = (if s' = s then map_option f (find (\<lambda>pe. pit_selectors pe = s) (pit_map nt k))
         else find (\<lambda>pe. pit_selectors pe = s') (pit_map nt k))"
    using s find_update_first [of "\<lambda>pe. pit_selectors pe = s" f]
      find_update_first_other [of "\<lambda>pe. pit_selectors pe = s" "\<lambda>pe. pit_selectors pe = s'" f] by auto
  then show ?thesis by (cases "k' = k"; cases "s' = s") (simp_all add: r pit_at_map pit_modify_map)
qed

lemma set_update_first: "set (update_first P f xs) \<subseteq> set xs \<union> f ` set xs"
  by (induction xs) auto

lemma pit_modify_inv:
  assumes "pit_inv nt" "keeps_interest f"
  shows "pit_inv (pit_modify r f nt)"
proof -
  obtain k s where r: "r = (k, s)" by (cases r)
  have f: "pit_selectors (f pe) = pit_selectors pe" "pit_interest (f pe) = pit_interest pe" "pit_entry_inv pe \<Longrightarrow> pit_entry_inv (f pe)" for pe
    using assms(2) by (simp_all add: keeps_interest_def pit_selectors_def)
  have "map pit_selectors (update_first (\<lambda>pe. pit_selectors pe = s) f (pit_map nt k)) = map pit_selectors (pit_map nt k)"
    using f(1) by (rule map_update_first)
  moreover have "int_name (pit_interest pe) = k \<and> selectors_wf (pit_selectors pe) \<and> pit_entry_inv pe"
    if "pe \<in> set (update_first (\<lambda>pe. pit_selectors pe = s) f (pit_map nt k))" for pe
    using that set_update_first [of "\<lambda>pe. pit_selectors pe = s" f "pit_map nt k"] assms(1) f by (auto simp: pit_inv_def)
  ultimately show ?thesis using assms(1) unfolding pit_inv_def r pit_modify_map by (auto simp: fun_upd_def)
qed

lemma sc_inv_cong: "strategy_map nt' = strategy_map nt \<Longrightarrow> sc_inv \<tau> nt' sc = sc_inv \<tau> nt sc"
  by (simp add: sc_inv_def)

lemma fw_entry_modify:
  "keeps_interest f \<Longrightarrow> fw_entry (fw_modify r f fw) r' = (if r' = r then map_option f (fw_entry fw r) else fw_entry fw r')"
  by (simp add: fw_entry_def fw_modify_def pit_at_modify)

lemma fw_modify_sel [simp]:
  "fw_cs (fw_modify r f fw) = fw_cs fw" "fw_csFromNdnSim (fw_modify r f fw) = fw_csFromNdnSim fw"
  "fw_sc (fw_modify r f fw) = fw_sc fw" "fw_dnl (fw_modify r f fw) = fw_dnl fw" "fw_faces (fw_modify r f fw) = fw_faces fw"
  "fw_out (fw_modify r f fw) = fw_out fw" "fw_rng (fw_modify r f fw) = fw_rng fw"
  by (simp_all add: fw_modify_def)

lemma fw_nt_modify: "fw_nt (fw_modify r f fw) = pit_modify r f (fw_nt fw)"
  by (simp add: fw_modify_def)

lemma fw_inv_recs: "fw_inv env \<tau> fw \<Longrightarrow> fw_entry fw r = Some pe \<Longrightarrow> recs_ok (fst r) pe"
  unfolding fw_inv_def by blast

lemma fw_modify_inv:
  assumes "fw_inv env \<tau> fw" "keeps_interest f" "\<And>pe. fw_entry fw r = Some pe \<Longrightarrow> recs_ok (fst r) pe \<Longrightarrow> recs_ok (fst r) (f pe)"
  shows "fw_inv env \<tau> (fw_modify r f fw)"
proof -
  have "recs_ok (fst r') pe" if "fw_entry (fw_modify r f fw) r' = Some pe" for r' pe
    using that assms(2,3) fw_inv_recs [OF assms(1)] by (auto simp: fw_entry_modify split: if_splits)
  then show ?thesis
    using assms(1,2) sc_inv_cong [of "pit_modify r f (fw_nt fw)" "fw_nt fw"] unfolding fw_inv_def
    by (simp add: pit_modify_nt_inv pit_modify_inv fw_nt_modify)
qed

text \<open>The changes the pipelines make.\<close>

lemma keeps_interest_ops [simp]:
  "keeps_interest (PitEntry_insertOrUpdateInRecord now f i)" "keeps_interest (PitEntry_insertOrUpdateOutRecord now f i)"
  "keeps_interest (PitEntry_deleteOutRecord f)" "keeps_interest PitEntry_deleteInRecords"
  "keeps_interest (\<lambda>pe. pe\<lparr>pit_unsatisfyTimer := a pe\<rparr>)" "keeps_interest (\<lambda>pe. pe\<lparr>pit_stragglerTimer := b pe\<rparr>)"
  "keeps_interest (\<lambda>pe. pe\<lparr>pit_unsatisfyTimer := a pe, pit_stragglerTimer := b pe\<rparr>)"
  "keeps_interest (\<lambda>pe. pe\<lparr>pit_suppressionInterval := x pe\<rparr>)"
  using pit_entry_inv_ops
  by (auto simp: keeps_interest_def inv_simps PitEntry_insertOrUpdateInRecord_def PitEntry_insertOrUpdateOutRecord_def
      PitEntry_deleteOutRecord_def PitEntry_deleteInRecords_def Let_def)

lemma max_element_mem: "max_element lt x xs \<in> set (x # xs)"
  by (induction xs arbitrary: x) auto

lemma pick_interest_name:
  assumes "recs_ok k pe" "pick_interest f pe = Some i"
  shows "int_name i = k"
proof -
  from assms(2) obtain r rs where rs: "pit_inRecords pe = r # rs" "rec_interest (max_element (compare_pickInterest f) r rs) = Some i"
    by (auto simp: pick_interest_def split: list.splits)
  then show ?thesis using assms(1) max_element_mem [of "compare_pickInterest f" r rs] by (force simp: recs_ok_def)
qed

lemma recs_ok_cong: "pit_inRecords pe' = pit_inRecords pe \<Longrightarrow> recs_ok k pe' = recs_ok k pe"
  by (simp add: recs_ok_def)

lemma insertOut_inRecords [simp]:
  "pit_inRecords (PitEntry_insertOrUpdateOutRecord now f i pe) = pit_inRecords pe"
  by (simp add: PitEntry_insertOrUpdateOutRecord_def Let_def)

lemma fw_inv_upd [simp]:
  "fw_inv env \<tau> (fw\<lparr>fw_out := a\<rparr>) = fw_inv env \<tau> fw" "fw_inv env \<tau> (fw\<lparr>fw_nOutInterests := b\<rparr>) = fw_inv env \<tau> fw"
  "fw_inv env \<tau> (fw\<lparr>fw_nOutDatas := b\<rparr>) = fw_inv env \<tau> fw" "fw_inv env \<tau> (fw\<lparr>fw_rng := c\<rparr>) = fw_inv env \<tau> fw"
  "fw_inv env \<tau> (fw\<lparr>fw_nInInterests := b\<rparr>) = fw_inv env \<tau> fw" "fw_inv env \<tau> (fw\<lparr>fw_nInDatas := b\<rparr>) = fw_inv env \<tau> fw"
  "fw_inv env \<tau> (fw\<lparr>fw_csFromNdnSim := d\<rparr>) = fw_inv env \<tau> fw"
  by (simp_all add: fw_inv_def fw_entry_def)

lemma fw_entry_upd [simp]:
  "fw_entry (fw\<lparr>fw_out := a\<rparr>) = fw_entry fw" "fw_entry (fw\<lparr>fw_nOutInterests := b\<rparr>) = fw_entry fw"
  "fw_entry (fw\<lparr>fw_nOutDatas := b\<rparr>) = fw_entry fw" "fw_entry (fw\<lparr>fw_rng := c\<rparr>) = fw_entry fw"
  "fw_entry (fw\<lparr>fw_nInInterests := b\<rparr>) = fw_entry fw" "fw_entry (fw\<lparr>fw_nInDatas := b\<rparr>) = fw_entry fw"
  "fw_entry (fw\<lparr>fw_dnl := e\<rparr>) = fw_entry fw" "fw_entry (fw\<lparr>fw_cs := g\<rparr>) = fw_entry fw"
  "fw_entry (fw\<lparr>fw_csFromNdnSim := d\<rparr>) = fw_entry fw"
  by (simp_all add: fw_entry_def fun_eq_iff)

text \<open>The actions, by what they do to the entry, to the log and to the invariant.\<close>

definition fw_frame :: "pit_ref \<Rightarrow> 'c forwarder \<Rightarrow> 'c forwarder \<Rightarrow> bool" where
  "fw_frame r fw fw' \<longleftrightarrow> (\<forall>r'. r' \<noteq> r \<longrightarrow> fw_entry fw' r' = fw_entry fw r') \<and>
     (fw_entry fw' r = None \<longleftrightarrow> fw_entry fw r = None) \<and> fib_map (fw_nt fw') = fib_map (fw_nt fw) \<and>
     strategy_map (fw_nt fw') = strategy_map (fw_nt fw) \<and> fw_dnl fw' = fw_dnl fw \<and> fw_cs fw' = fw_cs fw \<and>
     fw_csFromNdnSim fw' = fw_csFromNdnSim fw \<and> fw_faces fw' = fw_faces fw \<and> fw_sc fw' = fw_sc fw"

lemma fw_frame_refl [simp]: "fw_frame r fw fw"
  by (simp add: fw_frame_def)

lemma fw_frame_trans: "fw_frame r a b \<Longrightarrow> fw_frame r b c \<Longrightarrow> fw_frame r a c"
  by (simp add: fw_frame_def)

lemma fw_frame_modify: "keeps_interest f \<Longrightarrow> fw_frame r fw (fw_modify r f fw)"
  by (simp add: fw_frame_def fw_entry_modify fw_nt_modify)

lemma onOutgoingInterest_cases:
  "Forwarder_onOutgoingInterest now r f b fw = fw \<or>
   (\<exists>pe p i rng. fw_entry fw r = Some pe \<and> Face_getId fw f \<noteq> INVALID_FACEID \<and> \<not> PitEntry_violatesScope pe f \<and>
      pick_interest f pe = Some p \<and> int_name i = int_name p \<and> (\<not> b \<longrightarrow> i = p) \<and>
      Forwarder_onOutgoingInterest now r f b fw =
        (fw_modify r (PitEntry_insertOrUpdateOutRecord now f i) fw)\<lparr>fw_rng := rng,
           fw_out := fw_out fw @ [(f, InterestPacket i)], fw_nOutInterests := fw_nOutInterests fw + 1\<rparr>)"
proof (cases "fw_entry fw r")
  case (Some pe)
  show ?thesis
  proof (cases "Face_getId fw f = INVALID_FACEID \<or> PitEntry_violatesScope pe f \<or> pick_interest f pe = None")
    case True
    then show ?thesis using Some by (auto simp: Forwarder_onOutgoingInterest_def)
  next
    case False
    then obtain p where p: "pick_interest f pe = Some p" by auto
    show ?thesis
    proof (cases b)
      case True
      then show ?thesis using Some False p
        by (intro disjI2 exI [of _ pe] exI [of _ p] exI [of _ "p\<lparr>int_nonce := fw_rng fw 0\<rparr>"] exI [of _ "\<lambda>n. fw_rng fw (Suc n)"])
          (simp add: Forwarder_onOutgoingInterest_def fw_modify_def)
    next
      case nb: False
      then show ?thesis using Some False p
        by (intro disjI2 exI [of _ pe] exI [of _ p] exI [of _ p] exI [of _ "fw_rng fw"])
          (simp add: Forwarder_onOutgoingInterest_def fw_modify_def)
    qed
  qed
qed (simp add: Forwarder_onOutgoingInterest_def)

lemma violatesScope_localhost:
  "\<not> PitEntry_violatesScope pe f \<Longrightarrow> face_isLocal f \<or> \<not> Name_isPrefixOf LOCALHOST_NAME (PitEntry_getName pe)"
  by (auto simp: PitEntry_violatesScope_def split: if_splits)

lemma entry_name: "fw_inv env \<tau> fw \<Longrightarrow> fw_entry fw r = Some pe \<Longrightarrow> PitEntry_getName pe = fst r"
  by (cases r) (auto simp: fw_inv_def fw_entry_def pit_at_map pit_inv_def PitEntry_getName_def dest: find_Some_set)

lemma onOutgoingInterest_correct:
  assumes "fw_inv env \<tau> fw" "fw' = Forwarder_onOutgoingInterest now r f b fw"
  shows "fw_inv env \<tau> fw'" "fw_frame r fw fw'"
    "\<exists>ys. fw_out fw' = fw_out fw @ ys \<and> (\<forall>y \<in> set ys. scope_ok y \<and> fst y = f \<and> packet_name (snd y) = fst r)"
proof -
  have "fw_inv env \<tau> fw' \<and> fw_frame r fw fw' \<and>
    (\<exists>ys. fw_out fw' = fw_out fw @ ys \<and> (\<forall>y \<in> set ys. scope_ok y \<and> fst y = f \<and> packet_name (snd y) = fst r))"
    using onOutgoingInterest_cases [of now r f b fw]
  proof (elim disjE exE conjE)
    fix pe p i rng
    assume e: "fw_entry fw r = Some pe" "\<not> PitEntry_violatesScope pe f" "pick_interest f pe = Some p" "int_name i = int_name p"
      "Forwarder_onOutgoingInterest now r f b fw = (fw_modify r (PitEntry_insertOrUpdateOutRecord now f i) fw)\<lparr>fw_rng := rng,
           fw_out := fw_out fw @ [(f, InterestPacket i)], fw_nOutInterests := fw_nOutInterests fw + 1\<rparr>"
    have "int_name i = fst r" using pick_interest_name [OF fw_inv_recs [OF assms(1) e(1)] e(3)] e(4) by simp
    moreover have "scope_ok (f, InterestPacket i)"
      using violatesScope_localhost [OF e(2)] entry_name [OF assms(1) e(1)] calculation by (simp add: scope_ok_def packet_name_def)
    moreover have "fw_inv env \<tau> (fw_modify r (PitEntry_insertOrUpdateOutRecord now f i) fw)"
      using assms(1) by (rule fw_modify_inv) (simp_all add: recs_ok_def)
    ultimately show ?thesis
      using fw_frame_modify [of "PitEntry_insertOrUpdateOutRecord now f i" r fw]
      by (simp add: assms(2) e(5) fw_frame_def packet_name_def)
  qed (simp add: assms)
  then show "fw_inv env \<tau> fw'" "fw_frame r fw fw'"
    "\<exists>ys. fw_out fw' = fw_out fw @ ys \<and> (\<forall>y \<in> set ys. scope_ok y \<and> fst y = f \<and> packet_name (snd y) = fst r)" by blast+
qed

lemma setTimer_inv [intro]:
  assumes "fw_inv env \<tau> fw"
  shows "fw_inv env \<tau> (Forwarder_setUnsatisfyTimer now r fw)" "fw_inv env \<tau> (Forwarder_setStragglerTimer now r s p fw)"
    "fw_inv env \<tau> (Forwarder_cancelUnsatisfyAndStragglerTimer r fw)"
  unfolding Forwarder_setUnsatisfyTimer_def Forwarder_setStragglerTimer_def Forwarder_cancelUnsatisfyAndStragglerTimer_def
  using assms by (auto intro!: fw_modify_inv simp: recs_ok_def)

lemma setTimer_frame [intro]:
  "fw_frame r fw (Forwarder_setUnsatisfyTimer now r fw)" "fw_frame r fw (Forwarder_setStragglerTimer now r s p fw)"
  "fw_frame r fw (Forwarder_cancelUnsatisfyAndStragglerTimer r fw)"
  unfolding Forwarder_setUnsatisfyTimer_def Forwarder_setStragglerTimer_def Forwarder_cancelUnsatisfyAndStragglerTimer_def
  by (auto intro!: fw_frame_modify)

lemma setTimer_out [simp]:
  "fw_out (Forwarder_setUnsatisfyTimer now r fw) = fw_out fw" "fw_out (Forwarder_setStragglerTimer now r s p fw) = fw_out fw"
  "fw_out (Forwarder_cancelUnsatisfyAndStragglerTimer r fw) = fw_out fw"
  by (simp_all add: Forwarder_setUnsatisfyTimer_def Forwarder_setStragglerTimer_def Forwarder_cancelUnsatisfyAndStragglerTimer_def)

lemma setTimer_entry:
  "fw_entry (Forwarder_setUnsatisfyTimer now r fw) r' = (if r' = r then
     map_option (\<lambda>pe. pe\<lparr>pit_unsatisfyTimer := unsatisfy_time now pe\<rparr>) (fw_entry fw r) else fw_entry fw r')"
  "fw_entry (Forwarder_setStragglerTimer now r s p fw) r' = (if r' = r then
     map_option (\<lambda>pe. pe\<lparr>pit_stragglerTimer := Some (now + milliseconds 100, s, p)\<rparr>) (fw_entry fw r) else fw_entry fw r')"
  "fw_entry (Forwarder_cancelUnsatisfyAndStragglerTimer r fw) r' = (if r' = r then
     map_option (\<lambda>pe. pe\<lparr>pit_unsatisfyTimer := None, pit_stragglerTimer := None\<rparr>) (fw_entry fw r) else fw_entry fw r')"
  by (simp_all add: Forwarder_setUnsatisfyTimer_def Forwarder_setStragglerTimer_def
      Forwarder_cancelUnsatisfyAndStragglerTimer_def fw_entry_modify)

lemma onInterestReject_correct:
  assumes "fw' = Forwarder_onInterestReject now r fw"
  shows "fw_inv env \<tau> fw \<Longrightarrow> fw_inv env \<tau> fw'" "fw_frame r fw fw'" "fw_out fw' = fw_out fw"
  unfolding assms Forwarder_onInterestReject_def
  by (auto split: option.split intro: fw_frame_trans [OF setTimer_frame(3) setTimer_frame(2)])

end
