(* ===== verification/Strategies.thy ===== *)
theory Strategies
  imports ForwarderState
begin

text \<open>
  Forwarding strategies, from \<open>NFD/daemon/fw/strategy.cpp\<close>, \<open>best-route-strategy.cpp\<close>,
  \<open>best-route-strategy2.cpp\<close> with \<open>retx-suppression-exponential.cpp\<close>, \<open>multicast-strategy.cpp\<close>,
  \<open>broadcast-strategy.cpp\<close> and \<open>client-control-strategy.cpp\<close>. A strategy object is the record of its
  triggers; a trigger changes the state of the forwarder through the actions \<open>sendInterest\<close> and
  \<open>rejectPendingInterest\<close>. The suppression interval of a PIT entry is in microseconds; it is doubled and
  stays below \<open>2 ^ 24\<close>, so the single precision arithmetic of the code is exact.
\<close>

record 'c strategy =
  afterReceiveInterest :: "timepoint \<Rightarrow> face \<Rightarrow> interest \<Rightarrow> fib_entry \<Rightarrow> pit_ref \<Rightarrow> 'c forwarder \<Rightarrow> 'c forwarder"
  beforeSatisfyInterest :: "timepoint \<Rightarrow> pit_ref \<Rightarrow> face \<Rightarrow> data \<Rightarrow> 'c forwarder \<Rightarrow> 'c forwarder"
  beforeExpirePendingInterest :: "timepoint \<Rightarrow> pit_ref \<Rightarrow> 'c forwarder \<Rightarrow> 'c forwarder"

text \<open>The base class: its triggers, where it has them, do nothing.\<close>

definition Strategy_base ::
    "(timepoint \<Rightarrow> face \<Rightarrow> interest \<Rightarrow> fib_entry \<Rightarrow> pit_ref \<Rightarrow> 'c forwarder \<Rightarrow> 'c forwarder) \<Rightarrow> 'c strategy" where
  "Strategy_base receive = \<lparr>afterReceiveInterest = receive,
     beforeSatisfyInterest = \<lambda>now r inFace d fw. fw, beforeExpirePendingInterest = \<lambda>now r fw. fw\<rparr>"

definition Strategy_sendInterest :: "timepoint \<Rightarrow> pit_ref \<Rightarrow> face \<Rightarrow> bool \<Rightarrow> 'c forwarder \<Rightarrow> 'c forwarder" where
  "Strategy_sendInterest now r outFace wantNewNonce fw = Forwarder_onOutgoingInterest now r outFace wantNewNonce fw"

definition Strategy_rejectPendingInterest :: "timepoint \<Rightarrow> pit_ref \<Rightarrow> 'c forwarder \<Rightarrow> 'c forwarder" where
  "Strategy_rejectPendingInterest now r fw = Forwarder_onInterestReject now r fw"

section \<open>Best route\<close>

definition predicate_PitEntry_canForwardTo_NextHop :: "timepoint \<Rightarrow> pit_entry \<Rightarrow> nexthop \<Rightarrow> bool" where
  "predicate_PitEntry_canForwardTo_NextHop now pe nh = PitEntry_canForwardTo now pe (nh_face nh)"

definition BestRouteStrategy_afterReceiveInterest ::
    "timepoint \<Rightarrow> face \<Rightarrow> interest \<Rightarrow> fib_entry \<Rightarrow> pit_ref \<Rightarrow> 'c forwarder \<Rightarrow> 'c forwarder" where
  "BestRouteStrategy_afterReceiveInterest now inFace i fe r fw =
     (case fw_entry fw r of
        None \<Rightarrow> fw
      | Some pe \<Rightarrow>
          if PitEntry_hasUnexpiredOutRecords now pe then fw
          else case find (predicate_PitEntry_canForwardTo_NextHop now pe) (fib_nextHops fe) of
                 None \<Rightarrow> Strategy_rejectPendingInterest now r fw
               | Some nh \<Rightarrow> Strategy_sendInterest now r (nh_face nh) False fw)"

section \<open>Best route, version 3\<close>

datatype retx_result = NEW | FORWARD | SUPPRESS

definition DEFAULT_INITIAL_INTERVAL :: int where "DEFAULT_INITIAL_INTERVAL = 1000"
definition DEFAULT_MULTIPLIER :: int where "DEFAULT_MULTIPLIER = 2"
definition DEFAULT_MAX_INTERVAL :: int where "DEFAULT_MAX_INTERVAL = 250000"

definition microseconds :: "int \<Rightarrow> int" where "microseconds us = us * 1000"

definition RetxSuppression_getLastOutgoing :: "pit_entry \<Rightarrow> timepoint option" where
  "RetxSuppression_getLastOutgoing pe = (case pit_outRecords pe of
       [] \<Rightarrow> None
     | r # rs \<Rightarrow> Some (rec_lastRenewed (max_element (\<lambda>a b. rec_lastRenewed a < rec_lastRenewed b) r rs)))"

definition RetxSuppressionFixed_decide :: "int \<Rightarrow> timepoint \<Rightarrow> pit_entry \<Rightarrow> retx_result" where
  "RetxSuppressionFixed_decide minRetxInterval now pe =
     (if \<not> PitEntry_hasUnexpiredOutRecords now pe then NEW
      else case RetxSuppression_getLastOutgoing pe of
             None \<Rightarrow> NEW
           | Some lastOutgoing \<Rightarrow>
               if now - lastOutgoing < milliseconds minRetxInterval then SUPPRESS else FORWARD)"

text \<open>The decision, and the entry with its suppression interval created or doubled.\<close>

definition RetxSuppressionExponential_decide :: "timepoint \<Rightarrow> pit_entry \<Rightarrow> retx_result \<times> pit_entry" where
  "RetxSuppressionExponential_decide now pe =
     (if \<not> PitEntry_hasUnexpiredOutRecords now pe then (NEW, pe)
      else case RetxSuppression_getLastOutgoing pe of
             None \<Rightarrow> (NEW, pe)
           | Some lastOutgoing \<Rightarrow>
               let sinceLastOutgoing = now - lastOutgoing;
                   pi = (case pit_suppressionInterval pe of None \<Rightarrow> DEFAULT_INITIAL_INTERVAL | Some x \<Rightarrow> x)
               in if sinceLastOutgoing < microseconds pi
                  then (SUPPRESS, pe\<lparr>pit_suppressionInterval := Some pi\<rparr>)
                  else (FORWARD, pe\<lparr>pit_suppressionInterval :=
                          Some (min DEFAULT_MAX_INTERVAL (pi * DEFAULT_MULTIPLIER))\<rparr>))"

text \<open>The entry of a face that is not in the table has no valid identifier.\<close>

definition predicate_NextHop_eligible ::
    "'c forwarder \<Rightarrow> pit_entry \<Rightarrow> int \<Rightarrow> bool \<Rightarrow> timepoint \<Rightarrow> nexthop \<Rightarrow> bool" where
  "predicate_NextHop_eligible fw pe currentDownstream wantUnused now nh =
     (let upstream = nh_face nh
      in if Face_getId fw upstream = currentDownstream then False
         else if PitEntry_violatesScope pe upstream then False
         else if wantUnused then
           (case PitEntry_getOutRecord pe upstream of
              None \<Rightarrow> True
            | Some outRecord \<Rightarrow> \<not> rec_expiry outRecord > now)
         else True)"

definition earliest_step ::
    "'c forwarder \<Rightarrow> pit_entry \<Rightarrow> int \<Rightarrow> nexthop \<Rightarrow> nexthop option \<times> timepoint \<Rightarrow> nexthop option \<times> timepoint" where
  "earliest_step fw pe currentDownstream nh = (\<lambda>(found, earliestRenewed).
     if \<not> predicate_NextHop_eligible fw pe currentDownstream False TimePoint_min nh then (found, earliestRenewed)
     else case PitEntry_getOutRecord pe (nh_face nh) of
            None \<Rightarrow> (found, earliestRenewed)
          | Some outRecord \<Rightarrow>
              if rec_lastRenewed outRecord < earliestRenewed then (Some nh, rec_lastRenewed outRecord)
              else (found, earliestRenewed))"

definition findEligibleNextHopWithEarliestOutRecord ::
    "'c forwarder \<Rightarrow> pit_entry \<Rightarrow> nexthop list \<Rightarrow> int \<Rightarrow> nexthop option" where
  "findEligibleNextHopWithEarliestOutRecord fw pe nexthops currentDownstream =
     fst (fold (earliest_step fw pe currentDownstream) nexthops (None, TimePoint_max))"

definition BestRouteStrategy2_afterReceiveInterest ::
    "timepoint \<Rightarrow> face \<Rightarrow> interest \<Rightarrow> fib_entry \<Rightarrow> pit_ref \<Rightarrow> 'c forwarder \<Rightarrow> 'c forwarder" where
  "BestRouteStrategy2_afterReceiveInterest now inFace i fe r fw =
     (case fw_entry fw r of
        None \<Rightarrow> fw
      | Some pe0 \<Rightarrow>
          let nexthops = fib_nextHops fe;
              inFaceId = Face_getId fw inFace;
              (suppression, pe) = RetxSuppressionExponential_decide now pe0;
              fw1 = fw_modify r (\<lambda>pe. snd (RetxSuppressionExponential_decide now pe)) fw
          in case suppression of
               NEW \<Rightarrow>
                 (case find (predicate_NextHop_eligible fw1 pe inFaceId False TimePoint_min) nexthops of
                    None \<Rightarrow> Strategy_rejectPendingInterest now r fw1
                  | Some nh \<Rightarrow> Strategy_sendInterest now r (nh_face nh) False fw1)
             | SUPPRESS \<Rightarrow> fw1
             | FORWARD \<Rightarrow>
                 (case find (predicate_NextHop_eligible fw1 pe inFaceId True now) nexthops of
                    Some nh \<Rightarrow> Strategy_sendInterest now r (nh_face nh) False fw1
                  | None \<Rightarrow>
                      (case findEligibleNextHopWithEarliestOutRecord fw1 pe nexthops inFaceId of
                         None \<Rightarrow> fw1
                       | Some nh \<Rightarrow> Strategy_sendInterest now r (nh_face nh) False fw1)))"

section \<open>Multicast, broadcast and client control\<close>

definition multicast_step :: "timepoint \<Rightarrow> pit_ref \<Rightarrow> nexthop \<Rightarrow> 'c forwarder \<Rightarrow> 'c forwarder" where
  "multicast_step now r nh fw =
     (case fw_entry fw r of
        None \<Rightarrow> fw
      | Some pe \<Rightarrow> if PitEntry_canForwardTo now pe (nh_face nh)
                   then Strategy_sendInterest now r (nh_face nh) False fw else fw)"

definition MulticastStrategy_afterReceiveInterest ::
    "timepoint \<Rightarrow> face \<Rightarrow> interest \<Rightarrow> fib_entry \<Rightarrow> pit_ref \<Rightarrow> 'c forwarder \<Rightarrow> 'c forwarder" where
  "MulticastStrategy_afterReceiveInterest now inFace i fe r fw =
     (let fw1 = fold (multicast_step now r) (fib_nextHops fe) fw
      in case fw_entry fw1 r of
           None \<Rightarrow> fw1
         | Some pe \<Rightarrow> if \<not> PitEntry_hasUnexpiredOutRecords now pe
                     then Strategy_rejectPendingInterest now r fw1 else fw1)"

text \<open>The broadcast strategy logs a warning the first time and is the multicast strategy.\<close>

definition BroadcastStrategy_afterReceiveInterest ::
    "timepoint \<Rightarrow> face \<Rightarrow> interest \<Rightarrow> fib_entry \<Rightarrow> pit_ref \<Rightarrow> 'c forwarder \<Rightarrow> 'c forwarder" where
  "BroadcastStrategy_afterReceiveInterest = MulticastStrategy_afterReceiveInterest"

definition ClientControlStrategy_afterReceiveInterest ::
    "timepoint \<Rightarrow> face \<Rightarrow> interest \<Rightarrow> fib_entry \<Rightarrow> pit_ref \<Rightarrow> 'c forwarder \<Rightarrow> 'c forwarder" where
  "ClientControlStrategy_afterReceiveInterest now inFace i fe r fw =
     (case int_nextHopFaceId i of
        None \<Rightarrow> BestRouteStrategy_afterReceiveInterest now inFace i fe r fw
      | Some outFaceId \<Rightarrow>
          (case FaceTable_get outFaceId fw of
             None \<Rightarrow> Strategy_rejectPendingInterest now r fw
           | Some outFace \<Rightarrow> Strategy_sendInterest now r outFace False fw))"

section \<open>Registry\<close>

definition nfd_strategy_name :: "string \<Rightarrow> byte \<Rightarrow> name" where
  "nfd_strategy_name s version =
     map (Component tlv_NameComponent) [bytes_of ''localhost'', bytes_of ''nfd'', bytes_of ''strategy'', bytes_of s, [253, version]]"

definition BestRouteStrategy_STRATEGY_NAME :: name where
  "BestRouteStrategy_STRATEGY_NAME = nfd_strategy_name ''best-route'' 1"
definition BestRouteStrategy2_STRATEGY_NAME :: name where
  "BestRouteStrategy2_STRATEGY_NAME = nfd_strategy_name ''best-route'' 3"
definition MulticastStrategy_STRATEGY_NAME :: name where
  "MulticastStrategy_STRATEGY_NAME = nfd_strategy_name ''multicast'' 1"
definition BroadcastStrategy_STRATEGY_NAME :: name where
  "BroadcastStrategy_STRATEGY_NAME = nfd_strategy_name ''broadcast'' 2"
definition ClientControlStrategy_STRATEGY_NAME :: name where
  "ClientControlStrategy_STRATEGY_NAME = nfd_strategy_name ''client-control'' 1"

text \<open>The strategy object of a name; the argument stands for the strategies that are not in this theory.\<close>

definition strategy_object :: "(name \<Rightarrow> 'c strategy) \<Rightarrow> name \<Rightarrow> 'c strategy" where
  "strategy_object others s =
     (if s = BestRouteStrategy2_STRATEGY_NAME then Strategy_base BestRouteStrategy2_afterReceiveInterest
      else if s = BestRouteStrategy_STRATEGY_NAME then Strategy_base BestRouteStrategy_afterReceiveInterest
      else if s = MulticastStrategy_STRATEGY_NAME then Strategy_base MulticastStrategy_afterReceiveInterest
      else if s = BroadcastStrategy_STRATEGY_NAME then Strategy_base BroadcastStrategy_afterReceiveInterest
      else if s = ClientControlStrategy_STRATEGY_NAME then Strategy_base ClientControlStrategy_afterReceiveInterest
      else others s)"

definition makeDefaultStrategy :: name where
  "makeDefaultStrategy = BestRouteStrategy2_STRATEGY_NAME"

definition installStrategies :: "name list \<Rightarrow> 'c forwarder \<Rightarrow> 'c forwarder" where
  "installStrategies factories fw =
     fold (\<lambda>s fw. if \<not> StrategyChoice_hasStrategy s True (fw_sc fw)
                  then fw\<lparr>fw_sc := snd (StrategyChoice_install s (fw_sc fw))\<rparr> else fw) factories fw"

section \<open>What strategies may do\<close>

text \<open>A trigger acts on the forwarder through the actions of the base class, and on the information it keeps
  in the PIT entry it is called for.\<close>

inductive strat_acts :: "timepoint \<Rightarrow> pit_ref \<Rightarrow> 'c forwarder \<Rightarrow> 'c forwarder \<Rightarrow> bool" for now r fw where
  acts_refl: "strat_acts now r fw fw"
| acts_send: "strat_acts now r fw fw' \<Longrightarrow> strat_acts now r fw (Strategy_sendInterest now r f b fw')"
| acts_reject: "strat_acts now r fw fw' \<Longrightarrow> strat_acts now r fw (Strategy_rejectPendingInterest now r fw')"
| acts_info: "strat_acts now r fw fw' \<Longrightarrow> strat_acts now r fw (fw_modify r (\<lambda>pe. pe\<lparr>pit_suppressionInterval := x pe\<rparr>) fw')"

lemmas acts_one = acts_send [OF acts_refl] acts_reject [OF acts_refl] acts_info [OF acts_refl]

text \<open>The contract between the forwarder and the strategies. The triggers before an Interest is satisfied or
  expires do not send.\<close>

locale forwarding_strategies =
  fixes strategies :: "name \<Rightarrow> 'c strategy"
  assumes receive_law: "strat_acts now r fw (afterReceiveInterest (strategies s) now inFace i fe r fw)"
    and satisfy_law: "beforeSatisfyInterest (strategies s) now r f d fw = fw"
    and expire_law: "beforeExpirePendingInterest (strategies s) now r fw = fw"

text \<open>A scheduled timer will finalize the entry.\<close>

definition has_timer :: "pit_entry \<Rightarrow> bool" where
  "has_timer pe \<longleftrightarrow> pit_unsatisfyTimer pe \<noteq> None \<or> pit_stragglerTimer pe \<noteq> None"

text \<open>What any sequence of actions keeps.\<close>

definition acts_keep :: "pit_ref \<Rightarrow> 'c forwarder \<Rightarrow> 'c forwarder \<Rightarrow> bool" where
  "acts_keep r fw fw' \<longleftrightarrow> fw_frame r fw fw' \<and>
     (\<exists>ys. fw_out fw' = fw_out fw @ ys \<and> (\<forall>y \<in> set ys. scope_ok y \<and> packet_name (snd y) = fst r)) \<and>
     (\<forall>pe. fw_entry fw r = Some pe \<longrightarrow> (\<exists>pe'. fw_entry fw' r = Some pe' \<and> pit_interest pe' = pit_interest pe \<and>
        pit_inRecords pe' = pit_inRecords pe \<and> (has_timer pe \<longrightarrow> has_timer pe')))"

lemma acts_keep_refl [simp]: "acts_keep r fw fw"
  by (simp add: acts_keep_def)

lemma acts_keep_trans:
  assumes "acts_keep r a b" "acts_keep r b c"
  shows "acts_keep r a c"
  unfolding acts_keep_def
proof (intro conjI allI impI)
  show "fw_frame r a c" using assms fw_frame_trans unfolding acts_keep_def by blast
  obtain ys zs where "fw_out b = fw_out a @ ys" "\<forall>y \<in> set ys. scope_ok y \<and> packet_name (snd y) = fst r"
    "fw_out c = fw_out b @ zs" "\<forall>y \<in> set zs. scope_ok y \<and> packet_name (snd y) = fst r"
    using assms unfolding acts_keep_def by blast
  then show "\<exists>ys. fw_out c = fw_out a @ ys \<and> (\<forall>y \<in> set ys. scope_ok y \<and> packet_name (snd y) = fst r)"
    by (intro exI [of _ "ys @ zs"]) auto
next
  fix pe assume "fw_entry a r = Some pe"
  then obtain pb where b: "fw_entry b r = Some pb" "pit_interest pb = pit_interest pe"
      "pit_inRecords pb = pit_inRecords pe" "has_timer pe \<longrightarrow> has_timer pb" using assms(1) unfolding acts_keep_def by blast
  moreover obtain pc where "fw_entry c r = Some pc" "pit_interest pc = pit_interest pb"
      "pit_inRecords pc = pit_inRecords pb" "has_timer pb \<longrightarrow> has_timer pc" using assms(2) b(1) unfolding acts_keep_def by blast
  ultimately show "\<exists>pe'. fw_entry c r = Some pe' \<and> pit_interest pe' = pit_interest pe \<and>
        pit_inRecords pe' = pit_inRecords pe \<and> (has_timer pe \<longrightarrow> has_timer pe')" by auto
qed

lemma modify_keep:
  assumes "keeps_interest f" "\<And>pe. pit_inRecords (f pe) = pit_inRecords pe" "\<And>pe. has_timer pe \<Longrightarrow> has_timer (f pe)"
  shows "acts_keep r fw (fw_modify r f fw)"
  using assms fw_frame_modify [OF assms(1), of r fw] by (simp add: acts_keep_def fw_entry_modify keeps_interest_def)

lemma insertOut_keeps [simp]:
  "pit_interest (PitEntry_insertOrUpdateOutRecord now f i pe) = pit_interest pe"
  "pit_unsatisfyTimer (PitEntry_insertOrUpdateOutRecord now f i pe) = pit_unsatisfyTimer pe"
  "pit_stragglerTimer (PitEntry_insertOrUpdateOutRecord now f i pe) = pit_stragglerTimer pe"
  by (simp_all add: PitEntry_insertOrUpdateOutRecord_def Let_def)

lemma send_keep:
  assumes "fw_inv env \<tau> fw"
  shows "acts_keep r fw (Strategy_sendInterest now r f b fw)"
proof -
  let ?fw = "Strategy_sendInterest now r f b fw"
  note c = onOutgoingInterest_correct [OF assms, of ?fw now r f b]
  have "\<exists>pe'. fw_entry ?fw r = Some pe' \<and> pit_interest pe' = pit_interest pe \<and> pit_inRecords pe' = pit_inRecords pe \<and>
      (has_timer pe \<longrightarrow> has_timer pe')" if "fw_entry fw r = Some pe" for pe
    using onOutgoingInterest_cases [of now r f b fw] that
    by (auto simp: Strategy_sendInterest_def fw_entry_modify has_timer_def)
  then show ?thesis using c(2,3) by (fastforce simp: acts_keep_def Strategy_sendInterest_def)
qed

lemma reject_keep: "acts_keep r fw (Strategy_rejectPendingInterest now r fw)"
proof -
  let ?fw = "Strategy_rejectPendingInterest now r fw"
  note c = onInterestReject_correct [of ?fw now r fw]
  have "\<exists>pe'. fw_entry ?fw r = Some pe' \<and> pit_interest pe' = pit_interest pe \<and> pit_inRecords pe' = pit_inRecords pe \<and>
      (has_timer pe \<longrightarrow> has_timer pe')" if "fw_entry fw r = Some pe" for pe
    using that by (auto simp: Strategy_rejectPendingInterest_def Forwarder_onInterestReject_def setTimer_entry has_timer_def)
  then show ?thesis using c(2,3) by (simp add: acts_keep_def Strategy_rejectPendingInterest_def)
qed

lemma strat_acts_correct:
  assumes "strat_acts now r fw fw'" "fw_inv env \<tau> fw"
  shows "fw_inv env \<tau> fw' \<and> acts_keep r fw fw'"
  using assms
proof (induction rule: strat_acts.induct)
  case (acts_send fw' f b)
  then have "fw_inv env \<tau> fw'" "acts_keep r fw fw'" by auto
  then show ?case
    using acts_keep_trans [OF _ send_keep [of env \<tau>]] onOutgoingInterest_correct(1) [of env \<tau> fw' _ now r f b]
    unfolding Strategy_sendInterest_def by blast
next
  case (acts_reject fw')
  then show ?case
    using acts_keep_trans [OF _ reject_keep] onInterestReject_correct(1) [of _ now r fw' env \<tau>]
    unfolding Strategy_rejectPendingInterest_def by blast
next
  case (acts_info fw' x)
  then have i: "fw_inv env \<tau> fw'" "acts_keep r fw fw'" by auto
  let ?f = "\<lambda>pe. pe\<lparr>pit_suppressionInterval := x pe\<rparr>"
  have "fw_inv env \<tau> (fw_modify r ?f fw')" using i(1) by (rule fw_modify_inv) (simp_all add: recs_ok_def)
  moreover have "acts_keep r fw' (fw_modify r ?f fw')" by (rule modify_keep) (simp_all add: has_timer_def)
  ultimately show ?case using acts_keep_trans [OF i(2)] by blast
qed simp

section \<open>The strategies keep the contract\<close>

lemma decide_entry:
  "snd (RetxSuppressionExponential_decide now pe)
     = pe\<lparr>pit_suppressionInterval := pit_suppressionInterval (snd (RetxSuppressionExponential_decide now pe))\<rparr>"
  by (auto simp: RetxSuppressionExponential_decide_def Let_def split: option.split)

lemma decide_modify:
  "fw_modify r (\<lambda>pe. snd (RetxSuppressionExponential_decide now pe)) fw = fw_modify r (\<lambda>pe. pe\<lparr>pit_suppressionInterval :=
     pit_suppressionInterval (snd (RetxSuppressionExponential_decide now pe))\<rparr>) fw"
  using decide_entry [of now] by simp

lemma best_route_acts: "strat_acts now r fw (BestRouteStrategy_afterReceiveInterest now inFace i fe r fw)"
  by (auto simp: BestRouteStrategy_afterReceiveInterest_def intro: acts_refl acts_one split: option.split)

lemma best_route2_acts: "strat_acts now r fw (BestRouteStrategy2_afterReceiveInterest now inFace i fe r fw)"
proof -
  have a: "strat_acts now r fw (fw_modify r (\<lambda>pe. snd (RetxSuppressionExponential_decide now pe)) fw)"
    unfolding decide_modify by (rule acts_one)
  show ?thesis
    unfolding BestRouteStrategy2_afterReceiveInterest_def Let_def
    by (auto intro: a acts_refl acts_send [OF a] acts_reject [OF a] split: option.split retx_result.split prod.split)
qed

lemma multicast_fold: "strat_acts now r fw fw' \<Longrightarrow> strat_acts now r fw (fold (multicast_step now r) nhs fw')"
  by (induction nhs arbitrary: fw') (auto simp: multicast_step_def intro: acts_send split: option.split)

lemma multicast_acts: "strat_acts now r fw (MulticastStrategy_afterReceiveInterest now inFace i fe r fw)"
  using multicast_fold [OF acts_refl, of now r fw "fib_nextHops fe"]
  by (auto simp: MulticastStrategy_afterReceiveInterest_def Let_def intro: acts_reject split: option.split)

lemma client_control_acts: "strat_acts now r fw (ClientControlStrategy_afterReceiveInterest now inFace i fe r fw)"
  by (auto simp: ClientControlStrategy_afterReceiveInterest_def intro: best_route_acts acts_one split: option.split)

lemma strategy_object_contract:
  assumes "forwarding_strategies others"
  shows "forwarding_strategies (strategy_object others)"
proof -
  note o = forwarding_strategies.receive_law [OF assms] forwarding_strategies.satisfy_law [OF assms]
    forwarding_strategies.expire_law [OF assms]
  show ?thesis
    by unfold_locales (auto simp: strategy_object_def Strategy_base_def BroadcastStrategy_afterReceiveInterest_def o
        intro: best_route_acts best_route2_acts multicast_acts client_control_acts)
qed

interpretation default_strategy: forwarding_strategies "\<lambda>_. Strategy_base BestRouteStrategy2_afterReceiveInterest"
  by unfold_locales (simp_all add: Strategy_base_def best_route2_acts)

interpretation nfd: forwarding_strategies "strategy_object (\<lambda>_. Strategy_base BestRouteStrategy2_afterReceiveInterest)"
  by (rule strategy_object_contract) (rule default_strategy.forwarding_strategies_axioms)

section \<open>Where the best route strategy sends\<close>

lemma send_out:
  assumes "fw_entry fw r = Some pe"
  shows "fw_out (Strategy_sendInterest now r f False fw) = fw_out fw @
    (if Face_getId fw f \<noteq> INVALID_FACEID \<and> \<not> PitEntry_violatesScope pe f
     then (case pick_interest f pe of None \<Rightarrow> [] | Some i \<Rightarrow> [(f, InterestPacket i)]) else [])"
  using assms by (auto simp: Strategy_sendInterest_def Forwarder_onOutgoingInterest_def Let_def split: option.split)

lemma reject_out [simp]: "fw_out (Strategy_rejectPendingInterest now r fw) = fw_out fw"
  by (simp add: Strategy_rejectPendingInterest_def Forwarder_onInterestReject_def split: option.split)

lemma decide_cong:
  assumes "RetxSuppressionExponential_decide now pe = (dec, pe')"
  shows "pit_inRecords pe' = pit_inRecords pe" "pit_outRecords pe' = pit_outRecords pe" "pit_interest pe' = pit_interest pe"
    "pick_interest f pe' = pick_interest f pe" "PitEntry_violatesScope pe' f = PitEntry_violatesScope pe f"
proof -
  have pe': "pe' = pe\<lparr>pit_suppressionInterval := pit_suppressionInterval pe'\<rparr>" using decide_entry [of now pe] assms by simp
  show "pit_inRecords pe' = pit_inRecords pe" "pit_outRecords pe' = pit_outRecords pe" "pit_interest pe' = pit_interest pe"
    "pick_interest f pe' = pick_interest f pe" "PitEntry_violatesScope pe' f = PitEntry_violatesScope pe f"
    by (subst pe', simp add: pick_interest_def PitEntry_violatesScope_def PitEntry_getName_def PitEntry_hasLocalInRecord_def)+
qed

lemma earliest_found:
  assumes "fold (earliest_step fw pe down) nhs (a, t) = (Some nh, t')" "\<And>x. a = Some x \<Longrightarrow> predicate_NextHop_eligible fw pe down False TimePoint_min x \<and> x \<in> S"
  shows "predicate_NextHop_eligible fw pe down False TimePoint_min nh \<and> nh \<in> set nhs \<union> S"
  using assms
proof (induction nhs arbitrary: a t S)
  case (Cons x nhs)
  obtain a1 t1 where s: "earliest_step fw pe down x (a, t) = (a1, t1)" by fastforce
  have "predicate_NextHop_eligible fw pe down False TimePoint_min y \<and> y \<in> insert x S" if "a1 = Some y" for y
    using s that Cons.prems(2) by (auto simp: earliest_step_def split: if_splits option.splits)
  then show ?case using Cons.IH [of a1 t1 "insert x S"] Cons.prems(1) s by auto
qed simp

text \<open>The next hop chosen, if one is.\<close>

definition best_route2_choice :: "'c forwarder \<Rightarrow> timepoint \<Rightarrow> int \<Rightarrow> pit_entry \<Rightarrow> nexthop list \<Rightarrow> nexthop option" where
  "best_route2_choice fw now down pe nhs = (case fst (RetxSuppressionExponential_decide now pe) of
      NEW \<Rightarrow> find (predicate_NextHop_eligible fw pe down False TimePoint_min) nhs
    | SUPPRESS \<Rightarrow> None
    | FORWARD \<Rightarrow> (case find (predicate_NextHop_eligible fw pe down True now) nhs of
                   Some nh \<Rightarrow> Some nh | None \<Rightarrow> findEligibleNextHopWithEarliestOutRecord fw pe nhs down))"

lemma choice_eligible:
  assumes "best_route2_choice fw now down pe nhs = Some nh"
  shows "nh \<in> set nhs" "Face_getId fw (nh_face nh) \<noteq> down" "\<not> PitEntry_violatesScope pe (nh_face nh)"
proof -
  have "nh \<in> set nhs \<and> (\<exists>b t. predicate_NextHop_eligible fw pe down b t nh)"
    using assms earliest_found [of fw pe down nhs None TimePoint_max nh _ "{}"]
    by (auto simp: best_route2_choice_def findEligibleNextHopWithEarliestOutRecord_def split: retx_result.splits option.splits
        dest!: find_Some_set) (metis prod.collapse)+
  then show "nh \<in> set nhs" "Face_getId fw (nh_face nh) \<noteq> down" "\<not> PitEntry_violatesScope pe (nh_face nh)"
    by (auto simp: predicate_NextHop_eligible_def Let_def split: if_splits)
qed

lemma eligible_cong:
  assumes "fw_faces fw' = fw_faces fw" "pit_inRecords pe' = pit_inRecords pe" "pit_outRecords pe' = pit_outRecords pe"
    "pit_interest pe' = pit_interest pe"
  shows "predicate_NextHop_eligible fw' pe' down b t = predicate_NextHop_eligible fw pe down b t"
    "findEligibleNextHopWithEarliestOutRecord fw' pe' nhs down = findEligibleNextHopWithEarliestOutRecord fw pe nhs down"
proof -
  show e: "predicate_NextHop_eligible fw' pe' down b t = predicate_NextHop_eligible fw pe down b t" for b t
    using assms by (auto simp: predicate_NextHop_eligible_def Face_getId_def PitEntry_violatesScope_def PitEntry_getName_def
        PitEntry_hasLocalInRecord_def PitEntry_getOutRecord_def fun_eq_iff Let_def)
  have g: "PitEntry_getOutRecord pe' = PitEntry_getOutRecord pe" by (intro ext) (simp add: PitEntry_getOutRecord_def assms(3))
  have "earliest_step fw' pe' down = earliest_step fw pe down" unfolding earliest_step_def e g by (rule refl)
  then show "findEligibleNextHopWithEarliestOutRecord fw' pe' nhs down = findEligibleNextHopWithEarliestOutRecord fw pe nhs down"
    by (simp add: findEligibleNextHopWithEarliestOutRecord_def)
qed

lemma best_route2_out:
  assumes "fw_entry fw r = Some pe" "fw' = BestRouteStrategy2_afterReceiveInterest now inFace i fe r fw"
  shows "fw_out fw' = fw_out fw @ (case best_route2_choice fw now (Face_getId fw inFace) pe (fib_nextHops fe) of
      None \<Rightarrow> []
    | Some nh \<Rightarrow> if Face_getId fw (nh_face nh) \<noteq> INVALID_FACEID
        then (case pick_interest (nh_face nh) pe of None \<Rightarrow> [] | Some p \<Rightarrow> [(nh_face nh, InterestPacket p)]) else [])"
proof -
  obtain dec pe1 where d: "RetxSuppressionExponential_decide now pe = (dec, pe1)" by fastforce
  note c = decide_cong [OF d]
  define fw1 where "fw1 = fw_modify r (\<lambda>pe. snd (RetxSuppressionExponential_decide now pe)) fw"
  have e1: "fw_entry fw1 r = Some pe1"
    unfolding fw1_def decide_modify using assms(1) d decide_entry [of now pe] by (simp add: fw_entry_modify)
  have f1: "fw_faces fw1 = fw_faces fw" "fw_out fw1 = fw_out fw" by (simp_all add: fw1_def)
  have g1: "Face_getId fw1 = Face_getId fw" by (intro ext) (simp add: Face_getId_def f1)
  note el = eligible_cong [OF f1(1) c(1-3)]
  have ch: "best_route2_choice fw now (Face_getId fw inFace) pe (fib_nextHops fe) = (case dec of
      NEW \<Rightarrow> find (predicate_NextHop_eligible fw1 pe1 (Face_getId fw inFace) False TimePoint_min) (fib_nextHops fe)
    | SUPPRESS \<Rightarrow> None
    | FORWARD \<Rightarrow> (case find (predicate_NextHop_eligible fw1 pe1 (Face_getId fw inFace) True now) (fib_nextHops fe) of
                   Some nh \<Rightarrow> Some nh | None \<Rightarrow> findEligibleNextHopWithEarliestOutRecord fw1 pe1 (fib_nextHops fe) (Face_getId fw inFace)))"
    unfolding best_route2_choice_def d fst_conv el by (rule refl)
  have out: "fw_out fw' = (case best_route2_choice fw now (Face_getId fw inFace) pe (fib_nextHops fe) of
      None \<Rightarrow> fw_out fw | Some nh \<Rightarrow> fw_out (Strategy_sendInterest now r (nh_face nh) False fw1))"
    unfolding assms(2) BestRouteStrategy2_afterReceiveInterest_def Let_def assms(1) option.case d prod.case fw1_def [symmetric] ch
    using f1(2) by (simp split: retx_result.split option.split)
  show ?thesis
  proof (cases "best_route2_choice fw now (Face_getId fw inFace) pe (fib_nextHops fe)")
    case (Some nh)
    have "\<not> PitEntry_violatesScope pe1 (nh_face nh)" using choice_eligible(3) [OF Some] c(5) by simp
    then show ?thesis unfolding out Some option.case send_out [OF e1] g1 f1(2) c(4) by simp
  qed (simp add: out)
qed

end
