(* ===== verification/Forwarder.thy ===== *)
theory Forwarder
  imports Strategies
begin

text \<open>
  The forwarding pipelines, from \<open>NFD/daemon/fw/forwarder.cpp\<close>. The strategies are an argument, as the
  code calls them through virtual functions. The set of faces that wait for Data, ordered by address in the
  code, is a list without repetition.
\<close>

definition Forwarder_dispatchToStrategy ::
    "(name \<Rightarrow> 'c strategy) \<Rightarrow> pit_ref \<Rightarrow> ('c strategy \<Rightarrow> 'c forwarder \<Rightarrow> 'c forwarder) \<Rightarrow> 'c forwarder \<Rightarrow> 'c forwarder" where
  "Forwarder_dispatchToStrategy strategies r trigger fw =
     (case StrategyChoice_findEffectiveStrategy_pit r (fw_nt fw) of
        None \<Rightarrow> fw
      | Some s \<Rightarrow> trigger (strategies s) fw)"

definition m_csFace :: face where "m_csFace = \<lparr>face_id = FACEID_CONTENT_STORE, face_isLocal = True\<rparr>"

section \<open>Interest\<close>

definition Forwarder_onContentStoreMiss ::
    "(name \<Rightarrow> 'c strategy) \<Rightarrow> timepoint \<Rightarrow> face \<Rightarrow> pit_ref \<Rightarrow> interest \<Rightarrow> 'c forwarder \<Rightarrow> 'c forwarder" where
  "Forwarder_onContentStoreMiss strategies now inFace r i fw =
     (let fw1 = fw_modify r (PitEntry_insertOrUpdateInRecord now inFace i) fw;
          fw2 = Forwarder_setUnsatisfyTimer now r fw1;
          fibEntry = Fib_findLongestPrefixMatch_pit r (fw_nt fw2)
      in Forwarder_dispatchToStrategy strategies r (\<lambda>s. afterReceiveInterest s now inFace i fibEntry r) fw2)"

definition Forwarder_onContentStoreHit ::
    "(name \<Rightarrow> 'c strategy) \<Rightarrow> timepoint \<Rightarrow> face \<Rightarrow> pit_ref \<Rightarrow> interest \<Rightarrow> data \<Rightarrow> 'c forwarder \<Rightarrow> 'c forwarder" where
  "Forwarder_onContentStoreHit strategies now inFace r i d fw =
     (let fw1 = Forwarder_dispatchToStrategy strategies r (\<lambda>s. beforeSatisfyInterest s now r m_csFace d) fw;
          fw2 = Forwarder_setStragglerTimer now r True (data_freshness d) fw1
      in Forwarder_onOutgoingData d inFace fw2)"

definition Forwarder_onInterestLoop :: "face \<Rightarrow> interest \<Rightarrow> pit_ref \<Rightarrow> 'c forwarder \<Rightarrow> 'c forwarder" where
  "Forwarder_onInterestLoop inFace i r fw = fw"

definition Forwarder_lookupContent ::
    "'c env \<Rightarrow> timepoint \<Rightarrow> interest \<Rightarrow> 'c forwarder \<Rightarrow> data option \<times> 'c forwarder" where
  "Forwarder_lookupContent env now i fw =
     (case fw_csFromNdnSim fw of
        None \<Rightarrow> (case Cs_find (env_sha256 env) (PriorityFifoPolicy (env_sha256 env)) now i (fw_cs fw) of
                   Some (match, c) \<Rightarrow> (match, fw\<lparr>fw_cs := c\<rparr>)
                 | None \<Rightarrow> (env_csUndefined env i, fw))
      | Some c \<Rightarrow> let (match, c') = NdnSim_Lookup env i c in (match, fw\<lparr>fw_csFromNdnSim := Some c'\<rparr>))"

definition Forwarder_onIncomingInterest ::
    "'c env \<Rightarrow> (name \<Rightarrow> 'c strategy) \<Rightarrow> timepoint \<Rightarrow> face \<Rightarrow> interest \<Rightarrow> 'c forwarder \<Rightarrow> 'c forwarder" where
  "Forwarder_onIncomingInterest env strategies now inFace i fw0 =
     (let fw = fw0\<lparr>fw_nInInterests := fw_nInInterests fw0 + 1\<rparr>
      in if \<not> face_isLocal inFace \<and> Name_isPrefixOf LOCALHOST_NAME (int_name i) then fw
         else
           let ((r, isNew), nt, n) = Pit_insert (env_city env) i (fw_nt fw, fw_nPit fw);
               fw1 = fw\<lparr>fw_nt := nt, fw_nPit := n\<rparr>
           in case fw_entry fw1 r of
                None \<Rightarrow> fw1
              | Some pe \<Rightarrow>
                  let dnw = PitEntry_findNonce pe (int_nonce i) inFace;
                      hasDuplicateNonce = (dnw \<noteq> DUPLICATE_NONCE_NONE \<or>
                        DeadNonceList_has (env_citySeed env) (int_name i) (int_nonce i) (fw_dnl fw1))
                  in if hasDuplicateNonce then Forwarder_onInterestLoop inFace i r fw1
                     else
                       let fw2 = Forwarder_cancelUnsatisfyAndStragglerTimer r fw1;
                           isPending = (pit_inRecords pe \<noteq> [])
                       in if \<not> isPending then
                            (case Forwarder_lookupContent env now i fw2 of
                               (Some d, fw3) \<Rightarrow> Forwarder_onContentStoreHit strategies now inFace r i d fw3
                             | (None, fw3) \<Rightarrow> Forwarder_onContentStoreMiss strategies now inFace r i fw3)
                          else Forwarder_onContentStoreMiss strategies now inFace r i fw2)"

definition Forwarder_onInterestFinalize ::
    "'c env \<Rightarrow> pit_ref \<Rightarrow> bool \<Rightarrow> int \<Rightarrow> 'c forwarder \<Rightarrow> 'c forwarder" where
  "Forwarder_onInterestFinalize env r isSatisfied dataFreshnessPeriod fw =
     (case fw_entry fw r of
        None \<Rightarrow> fw
      | Some pe \<Rightarrow>
          let fw1 = Forwarder_insertDeadNonceList env pe isSatisfied dataFreshnessPeriod None fw;
              fw2 = Forwarder_cancelUnsatisfyAndStragglerTimer r fw1;
              (nt, n) = Pit_erase r (fw_nt fw2, fw_nPit fw2)
          in fw2\<lparr>fw_nt := nt, fw_nPit := n\<rparr>)"

definition Forwarder_onInterestUnsatisfied ::
    "'c env \<Rightarrow> (name \<Rightarrow> 'c strategy) \<Rightarrow> timepoint \<Rightarrow> pit_ref \<Rightarrow> 'c forwarder \<Rightarrow> 'c forwarder" where
  "Forwarder_onInterestUnsatisfied env strategies now r fw =
     Forwarder_onInterestFinalize env r False (-1)
       (Forwarder_dispatchToStrategy strategies r (\<lambda>s. beforeExpirePendingInterest s now r) fw)"

section \<open>Data\<close>

definition Forwarder_cacheData :: "'c env \<Rightarrow> timepoint \<Rightarrow> data \<Rightarrow> bool \<Rightarrow> 'c forwarder \<Rightarrow> 'c forwarder" where
  "Forwarder_cacheData env now d isUnsolicited fw =
     (case fw_csFromNdnSim fw of
        None \<Rightarrow> fw\<lparr>fw_cs := snd (Cs_insert (env_sha256 env) (PriorityFifoPolicy (env_sha256 env)) now d isUnsolicited (fw_cs fw))\<rparr>
      | Some c \<Rightarrow> fw\<lparr>fw_csFromNdnSim := Some (NdnSim_Add env d c)\<rparr>)"

definition Forwarder_onDataUnsolicited :: "'c env \<Rightarrow> timepoint \<Rightarrow> face \<Rightarrow> data \<Rightarrow> 'c forwarder \<Rightarrow> 'c forwarder" where
  "Forwarder_onDataUnsolicited env now inFace d fw =
     (let acceptToCache = face_isLocal inFace
      in if acceptToCache then Forwarder_cacheData env now d True fw else fw)"

text \<open>The faces of the in-records that have not expired, added to a set.\<close>

definition pending_faces :: "timepoint \<Rightarrow> pit_entry \<Rightarrow> face list \<Rightarrow> face list" where
  "pending_faces now pe fs =
     fold (\<lambda>r fs. if rec_expiry r > now then List.insert (rec_face r) fs else fs) (pit_inRecords pe) fs"

definition satisfy_entry ::
    "'c env \<Rightarrow> (name \<Rightarrow> 'c strategy) \<Rightarrow> timepoint \<Rightarrow> face \<Rightarrow> data \<Rightarrow> pit_ref \<Rightarrow>
     face list \<times> 'c forwarder \<Rightarrow> face list \<times> 'c forwarder" where
  "satisfy_entry env strategies now inFace d r = (\<lambda>(pendingDownstreams, fw).
     let fw1 = Forwarder_cancelUnsatisfyAndStragglerTimer r fw
     in case fw_entry fw1 r of
          None \<Rightarrow> (pendingDownstreams, fw1)
        | Some pe \<Rightarrow>
            let fw2 = Forwarder_dispatchToStrategy strategies r (\<lambda>s. beforeSatisfyInterest s now r inFace d) fw1
            in (pending_faces now pe pendingDownstreams,
                case fw_entry fw2 r of
                  None \<Rightarrow> fw2
                | Some pe2 \<Rightarrow>
                    let fw3 = Forwarder_insertDeadNonceList env pe2 True (data_freshness d) (Some inFace) fw2;
                        fw4 = fw_modify r PitEntry_deleteInRecords fw3;
                        fw5 = fw_modify r (PitEntry_deleteOutRecord inFace) fw4
                    in Forwarder_setStragglerTimer now r True (data_freshness d) fw5))"

definition Forwarder_onIncomingData ::
    "'c env \<Rightarrow> (name \<Rightarrow> 'c strategy) \<Rightarrow> timepoint \<Rightarrow> face \<Rightarrow> data \<Rightarrow> 'c forwarder \<Rightarrow> 'c forwarder" where
  "Forwarder_onIncomingData env strategies now inFace d fw0 =
     (let fw = fw0\<lparr>fw_nInDatas := fw_nInDatas fw0 + 1\<rparr>
      in if \<not> face_isLocal inFace \<and> Name_isPrefixOf LOCALHOST_NAME (data_name d) then fw
         else
           let pitMatches = Pit_findAllDataMatches (env_city env) (env_sha256 env) d (fw_nt fw)
           in if pitMatches = [] then Forwarder_onDataUnsolicited env now inFace d fw
              else
                let fw1 = Forwarder_cacheData env now d False fw;
                    (pendingDownstreams, fw2) = fold (satisfy_entry env strategies now inFace d) pitMatches ([], fw1)
                in fold (\<lambda>f fw. if f = inFace then fw else Forwarder_onOutgoingData d f fw) pendingDownstreams fw2)"

section \<open>Construction and events\<close>

definition Forwarder_ctor ::
    "'c env \<Rightarrow> name list \<Rightarrow> nat \<Rightarrow> nat \<Rightarrow> dnl \<Rightarrow> (nat \<Rightarrow> u32) \<Rightarrow> 'c option \<Rightarrow> 'c forwarder" where
  "Forwarder_ctor env factories nBuckets nMaxPackets dnl rng csFromNdnSim =
     (let (nt, sc) = StrategyChoice_ctor (env_city env) makeDefaultStrategy (NameTree_ctor nBuckets);
          fw = \<lparr>fw_nt = nt, fw_nFib = 0, fw_nPit = 0,
                fw_cs = Cs_ctor (PriorityFifoPolicy (env_sha256 env)) \<lparr>fifo_queues = \<lambda>_. [], fifo_info = \<lambda>_. None\<rparr> nMaxPackets,
                fw_csFromNdnSim = csFromNdnSim, fw_sc = sc, fw_dnl = dnl, fw_faces = \<lambda>_. None,
                fw_lastFaceId = FACEID_RESERVED_MAX, fw_nInInterests = 0, fw_nOutInterests = 0, fw_nInDatas = 0,
                fw_nOutDatas = 0, fw_rng = rng, fw_out = []\<rparr>
      in snd (FaceTable_addReserved (m_csFace\<lparr>face_id := INVALID_FACEID\<rparr>) FACEID_CONTENT_STORE (installStrategies factories fw)))"

section \<open>Invariant and timers\<close>

text \<open>Every entry with records will be finalized by a timer.\<close>

definition timers_ok :: "'c forwarder \<Rightarrow> bool" where
  "timers_ok fw \<longleftrightarrow> (\<forall>r pe. fw_entry fw r = Some pe \<longrightarrow> has_timer pe \<or> pit_inRecords pe = [] \<and> pit_outRecords pe = [])"

lemma timers_okD: "timers_ok fw \<Longrightarrow> fw_entry fw r = Some pe \<Longrightarrow> has_timer pe \<or> pit_inRecords pe = [] \<and> pit_outRecords pe = []"
  unfolding timers_ok_def by blast

lemma frame_other: "fw_frame r fw fw' \<Longrightarrow> r' \<noteq> r \<Longrightarrow> fw_entry fw' r' = fw_entry fw r'"
  unfolding fw_frame_def by blast

text \<open>It is enough to look at the entry a pipeline has worked on.\<close>

lemma timers_ok_frame:
  assumes "timers_ok fw" "\<And>r'. r' \<noteq> r \<Longrightarrow> fw_entry fw' r' = fw_entry fw r'" "\<And>pe. fw_entry fw' r = Some pe \<Longrightarrow> has_timer pe"
  shows "timers_ok fw'"
  unfolding timers_ok_def
proof (intro allI impI)
  fix r' pe assume e: "fw_entry fw' r' = Some pe"
  show "has_timer pe \<or> pit_inRecords pe = [] \<and> pit_outRecords pe = []"
  proof (cases "r' = r")
    case False
    then have "fw_entry fw r' = Some pe" using e assms(2) by simp
    then show ?thesis by (rule timers_okD [OF assms(1)])
  qed (use e assms(3) in simp)
qed

lemma timers_ok_upd [simp]:
  "timers_ok (fw\<lparr>fw_out := a\<rparr>) = timers_ok fw" "timers_ok (fw\<lparr>fw_nOutDatas := b\<rparr>) = timers_ok fw"
  "timers_ok (fw\<lparr>fw_nInInterests := b\<rparr>) = timers_ok fw" "timers_ok (fw\<lparr>fw_nInDatas := b\<rparr>) = timers_ok fw"
  "timers_ok (fw\<lparr>fw_dnl := e\<rparr>) = timers_ok fw" "timers_ok (fw\<lparr>fw_cs := g\<rparr>) = timers_ok fw"
  "timers_ok (fw\<lparr>fw_csFromNdnSim := d\<rparr>) = timers_ok fw"
  by (simp_all add: timers_ok_def)

lemma onOutgoingData_correct:
  assumes "fw' = Forwarder_onOutgoingData d f fw"
  shows "fw_inv env \<tau> fw' = fw_inv env \<tau> fw" "fw_entry fw' = fw_entry fw" "timers_ok fw' = timers_ok fw"
    "fw_out fw' = fw_out fw @ (if Face_getId fw f \<noteq> INVALID_FACEID \<and> scope_ok (f, DataPacket d) then [(f, DataPacket d)] else [])"
    "fw_faces fw' = fw_faces fw"
  by (auto simp: assms Forwarder_onOutgoingData_def scope_ok_def packet_name_def)

lemma insertIn_keeps [simp]:
  "pit_interest (PitEntry_insertOrUpdateInRecord now f i pe) = pit_interest pe"
  "pit_outRecords (PitEntry_insertOrUpdateInRecord now f i pe) = pit_outRecords pe"
  "pit_inRecords (PitEntry_insertOrUpdateInRecord now f i pe) \<noteq> []"
  by (simp_all add: PitEntry_insertOrUpdateInRecord_def Let_def find_None_iff) (cases "pit_inRecords pe"; simp)

lemma insertIn_recs_ok:
  assumes "recs_ok k pe" "int_name i = k"
  shows "recs_ok k (PitEntry_insertOrUpdateInRecord now f i pe)"
proof (cases "find (\<lambda>r. rec_face r = f) (pit_inRecords pe)")
  case None
  then show ?thesis using assms by (simp add: PitEntry_insertOrUpdateInRecord_def recs_ok_def InRecord_update_def)
next
  case (Some r)
  then show ?thesis
    using assms set_update_first [of "\<lambda>r. rec_face r = f" "InRecord_update now i" "pit_inRecords pe"]
    by (auto simp: PitEntry_insertOrUpdateInRecord_def recs_ok_def InRecord_update_def)
qed

lemma unsatisfy_time_some: "pit_inRecords pe \<noteq> [] \<Longrightarrow> unsatisfy_time now pe \<noteq> None"
  by (auto simp: unsatisfy_time_def Let_def split: list.splits)

section \<open>Incoming Interest\<close>

text \<open>What a pipeline does that works on one PIT entry: the invariant is kept, the other entries are not
  changed, and what is sent is in scope.\<close>

definition pipeline_ok :: "'c env \<Rightarrow> (bytes \<Rightarrow> u32) \<Rightarrow> 'c forwarder \<Rightarrow> 'c forwarder \<Rightarrow> bool" where
  "pipeline_ok env \<tau> fw fw' \<longleftrightarrow> fw_inv env \<tau> fw' \<and> timers_ok fw' \<and>
     (\<exists>ys. fw_out fw' = fw_out fw @ ys \<and> list_all scope_ok ys)"

lemma pipeline_ok_scope: "pipeline_ok env \<tau> fw fw' \<Longrightarrow> list_all scope_ok (fw_out fw) \<Longrightarrow> list_all scope_ok (fw_out fw')"
  by (auto simp: pipeline_ok_def)

lemma fw_frame_out [simp]: "fw_frame r fw (fw'\<lparr>fw_out := a\<rparr>) = fw_frame r fw fw'"
  "fw_frame r fw (fw'\<lparr>fw_nOutDatas := b\<rparr>) = fw_frame r fw fw'"
  by (simp_all add: fw_frame_def)

text \<open>The entry an Interest gets from the PIT.\<close>

abbreviation ref_of :: "interest \<Rightarrow> pit_ref" where
  "ref_of i \<equiv> (int_name i, int_selectors i)"

abbreviation entry_for :: "interest \<Rightarrow> 'c forwarder \<Rightarrow> pit_entry" where
  "entry_for i fw \<equiv> (case fw_entry fw (ref_of i) of None \<Rightarrow> PitEntry_ctor i | Some pe \<Rightarrow> pe)"

definition interest_ok :: "(bytes \<Rightarrow> u32) \<Rightarrow> interest \<Rightarrow> 'c forwarder \<Rightarrow> bool" where
  "interest_ok \<tau> i fw \<longleftrightarrow> typed \<tau> (int_name i) \<and> nt_room (fw_nt fw) (int_name i) \<and> selectors_wf (int_selectors i)"

definition known_nonce :: "'c env \<Rightarrow> interest \<Rightarrow> 'c forwarder \<Rightarrow> bool" where
  "known_nonce env i fw \<longleftrightarrow> (\<exists>r \<in> set (pit_inRecords (entry_for i fw)). rec_lastNonce r = int_nonce i) \<or>
     (\<exists>r \<in> set (pit_outRecords (entry_for i fw)). rec_lastNonce r = int_nonce i) \<or>
     DeadNonceList_has (env_citySeed env) (int_name i) (int_nonce i) (fw_dnl fw)"

lemma insert_entry:
  assumes "fw_inv env \<tau> fw" "interest_ok \<tau> i fw"
  shows "\<exists>isNew nt n. Pit_insert (env_city env) i (fw_nt fw, fw_nPit fw) = ((ref_of i, isNew), nt, n) \<and>
    isNew = (fw_entry fw (ref_of i) = None) \<and> fw_inv env \<tau> (fw\<lparr>fw_nt := nt, fw_nPit := n\<rparr>) \<and>
    fw_entry (fw\<lparr>fw_nt := nt, fw_nPit := n\<rparr>) = (fw_entry fw)(ref_of i \<mapsto> entry_for i fw)"
proof -
  let ?r = "ref_of i"
  have "nt_inv (env_city env) \<tau> (fw_nt fw)" "pit_inv (fw_nt fw)" using assms(1) by (simp_all add: fw_inv_def)
  from Pit_insert_correct [OF this] assms(2) obtain nt' where nt':
    "Pit_insert (env_city env) i (fw_nt fw, fw_nPit fw) = (if pit_at ?r (fw_nt fw) = None then ((?r, True), nt', fw_nPit fw + 1)
       else ((?r, False), nt', fw_nPit fw))"
    "nt_inv (env_city env) \<tau> nt'" "pit_inv nt'" "strategy_map nt' = strategy_map (fw_nt fw)"
    "pit_map nt' = (if pit_at ?r (fw_nt fw) = None then (pit_map (fw_nt fw))(int_name i := pit_map (fw_nt fw) (int_name i) @ [PitEntry_ctor i])
       else pit_map (fw_nt fw))"
    unfolding interest_ok_def by blast
  have app: "find P (xs @ [x]) = (case find P xs of Some y \<Rightarrow> Some y | None \<Rightarrow> if P x then Some x else None)" for P xs and x :: pit_entry
    by (induction xs) auto
  have at: "pit_at r nt' = (if r = ?r then Some (entry_for i fw) else pit_at r (fw_nt fw))" for r
  proof (cases "pit_at ?r (fw_nt fw)")
    case None
    then show ?thesis using nt'(5) by (cases r) (auto simp: pit_at_map app fw_entry_def split: option.splits)
  next
    case (Some pe)
    then show ?thesis using nt'(5) by (cases r) (auto simp: pit_at_map fw_entry_def)
  qed
  obtain n where n: "Pit_insert (env_city env) i (fw_nt fw, fw_nPit fw) = ((?r, fw_entry fw ?r = None), nt', n)"
    using nt'(1) by (cases "pit_at ?r (fw_nt fw)") (simp_all add: fw_entry_def)
  let ?fw = "fw\<lparr>fw_nt := nt', fw_nPit := n\<rparr>"
  have ent: "fw_entry ?fw = (fw_entry fw)(?r \<mapsto> entry_for i fw)"
    by (intro ext) (simp add: fw_entry_def at)
  have "recs_ok (fst r) pe" if "fw_entry ?fw r = Some pe" for r pe
  proof (cases "r = ?r")
    case True
    then have "pe = entry_for i fw" using that ent by simp
    then show ?thesis using True fw_inv_recs [OF assms(1), of ?r]
      by (cases "fw_entry fw ?r") (auto simp: recs_ok_def PitEntry_ctor_def)
  next
    case False
    then have "fw_entry fw r = Some pe" using that ent by simp
    then show ?thesis by (rule fw_inv_recs [OF assms(1)])
  qed
  then have "fw_inv env \<tau> ?fw" using assms(1) nt'(2-4) sc_inv_cong [OF nt'(4)] by (simp add: fw_inv_def)
  then show ?thesis using n ent by blast
qed

context forwarding_strategies
begin

lemma dispatch_satisfy [simp]:
  "Forwarder_dispatchToStrategy strategies r (\<lambda>s. beforeSatisfyInterest s now r f d) fw = fw"
  "Forwarder_dispatchToStrategy strategies r (\<lambda>s. beforeExpirePendingInterest s now r) fw = fw"
  by (simp_all add: Forwarder_dispatchToStrategy_def satisfy_law expire_law split: option.split)

lemma dispatch_receive:
  "strat_acts now r fw (Forwarder_dispatchToStrategy strategies r (\<lambda>s. afterReceiveInterest s now inFace i fe r) fw)"
  by (simp add: Forwarder_dispatchToStrategy_def receive_law acts_refl split: option.split)

lemma onContentStoreMiss_correct:
  assumes "fw_inv env \<tau> fw" "fw_entry fw r = Some pe" "int_name i = fst r"
    and "fw' = Forwarder_onContentStoreMiss strategies now inFace r i fw"
  shows "fw_inv env \<tau> fw'" "fw_frame r fw fw'" "\<exists>ys. fw_out fw' = fw_out fw @ ys \<and> list_all scope_ok ys"
    "\<exists>pe'. fw_entry fw' r = Some pe' \<and> has_timer pe' \<and>
       pit_inRecords pe' = pit_inRecords (PitEntry_insertOrUpdateInRecord now inFace i pe)"
proof -
  let ?f = "PitEntry_insertOrUpdateInRecord now inFace i"
  define fw1 where "fw1 = fw_modify r ?f fw"
  define fw2 where "fw2 = Forwarder_setUnsatisfyTimer now r fw1"
  have acts: "strat_acts now r fw2 fw'"
    unfolding assms(4) Forwarder_onContentStoreMiss_def Let_def fw2_def fw1_def by (rule dispatch_receive)
  have "fw_inv env \<tau> fw1" unfolding fw1_def
    by (rule fw_modify_inv [OF assms(1)]) (simp_all add: insertIn_recs_ok assms(3))
  then have i2: "fw_inv env \<tau> fw2" unfolding fw2_def by (rule setTimer_inv)
  have e2: "fw_entry fw2 r = Some ((?f pe)\<lparr>pit_unsatisfyTimer := unsatisfy_time now (?f pe)\<rparr>)"
    by (simp add: fw2_def fw1_def setTimer_entry fw_entry_modify assms(2))
  note a = strat_acts_correct [OF acts i2]
  have "fw_frame r fw fw1" unfolding fw1_def by (rule fw_frame_modify) simp
  then have "fw_frame r fw fw2" using fw_frame_trans setTimer_frame(1) unfolding fw2_def by blast
  moreover have "fw_frame r fw2 fw'" using a by (simp add: acts_keep_def)
  ultimately show "fw_frame r fw fw'" by (rule fw_frame_trans)
  show "fw_inv env \<tau> fw'" using a by simp
  show "\<exists>ys. fw_out fw' = fw_out fw @ ys \<and> list_all scope_ok ys"
    using a by (auto simp: acts_keep_def fw2_def fw1_def list_all_iff)
  obtain pe' where "fw_entry fw' r = Some pe'" "pit_inRecords pe' = pit_inRecords (?f pe)"
      "has_timer ((?f pe)\<lparr>pit_unsatisfyTimer := unsatisfy_time now (?f pe)\<rparr>) \<longrightarrow> has_timer pe'"
    using a e2 unfolding acts_keep_def by fastforce
  then show "\<exists>pe'. fw_entry fw' r = Some pe' \<and> has_timer pe' \<and> pit_inRecords pe' = pit_inRecords (?f pe)"
    using unsatisfy_time_some [of "?f pe" now] by (simp add: has_timer_def)
qed

lemma onContentStoreHit_correct:
  assumes "fw_inv env \<tau> fw" "fw_entry fw r = Some pe" "fw' = Forwarder_onContentStoreHit strategies now inFace r i d fw"
  shows "fw_inv env \<tau> fw'" "fw_frame r fw fw'" "\<exists>ys. fw_out fw' = fw_out fw @ ys \<and> list_all scope_ok ys"
    "fw_entry fw' r = Some (pe\<lparr>pit_stragglerTimer := Some (now + milliseconds 100, True, data_freshness d)\<rparr>)"
proof -
  define fw1 where "fw1 = Forwarder_setStragglerTimer now r True (data_freshness d) fw"
  have fw': "fw' = Forwarder_onOutgoingData d inFace fw1"
    by (simp add: assms(3) Forwarder_onContentStoreHit_def fw1_def Let_def)
  note o = onOutgoingData_correct [OF fw']
  have "fw_frame r fw fw1" unfolding fw1_def by (rule setTimer_frame)
  then show "fw_frame r fw fw'" using fw' by (simp add: Forwarder_onOutgoingData_def)
  show "fw_inv env \<tau> fw'" unfolding o fw1_def by (rule setTimer_inv [OF assms(1)])
  show "\<exists>ys. fw_out fw' = fw_out fw @ ys \<and> list_all scope_ok ys" unfolding o(4) by (simp add: fw1_def)
  show "fw_entry fw' r = Some (pe\<lparr>pit_stragglerTimer := Some (now + milliseconds 100, True, data_freshness d)\<rparr>)"
    unfolding o by (simp add: fw1_def setTimer_entry assms(2))
qed

lemma lookupContent_correct:
  assumes "fw_inv env \<tau> fw" "Forwarder_lookupContent env now i fw = (m, fw')"
  shows "fw_inv env \<tau> fw'" "fw_entry fw' = fw_entry fw" "fw_out fw' = fw_out fw"
    "fib_map (fw_nt fw') = fib_map (fw_nt fw)" "strategy_map (fw_nt fw') = strategy_map (fw_nt fw)" "fw_dnl fw' = fw_dnl fw"
proof -
  have same: "Cs_find sha (PriorityFifoPolicy sha) now i c = Some (m, c') \<Longrightarrow> c' = c" for sha c c' m
    by (auto simp: Cs_find_def PriorityFifoPolicy_def Let_def split: option.splits)
  have "fw_inv env \<tau> fw' \<and> fw_entry fw' = fw_entry fw \<and> fw_out fw' = fw_out fw \<and> fw_nt fw' = fw_nt fw \<and> fw_dnl fw' = fw_dnl fw"
    using assms by (auto simp: Forwarder_lookupContent_def fw_inv_def fw_entry_def dest!: same split: option.splits prod.splits)
  then show "fw_inv env \<tau> fw'" "fw_entry fw' = fw_entry fw" "fw_out fw' = fw_out fw"
    "fib_map (fw_nt fw') = fib_map (fw_nt fw)" "strategy_map (fw_nt fw') = strategy_map (fw_nt fw)" "fw_dnl fw' = fw_dnl fw" by auto
qed

text \<open>The pipeline after the PIT entry has been found or made.\<close>

lemma onIncomingInterest_unfold:
  assumes "fw_inv env \<tau> fw" "interest_ok \<tau> i fw" "face_isLocal inFace \<or> \<not> Name_isPrefixOf LOCALHOST_NAME (int_name i)"
  shows "\<exists>fw1. fw_inv env \<tau> fw1 \<and> fw_entry fw1 = (fw_entry fw)(ref_of i \<mapsto> entry_for i fw) \<and> fw_out fw1 = fw_out fw \<and>
    fw_dnl fw1 = fw_dnl fw \<and> fw_faces fw1 = fw_faces fw \<and> fw_csFromNdnSim fw1 = fw_csFromNdnSim fw \<and>
    Forwarder_onIncomingInterest env strategies now inFace i fw =
      (if known_nonce env i fw then fw1
       else let fw2 = Forwarder_cancelUnsatisfyAndStragglerTimer (ref_of i) fw1
            in if pit_inRecords (entry_for i fw) = [] then
                 (case Forwarder_lookupContent env now i fw2 of
                    (Some d, fw3) \<Rightarrow> Forwarder_onContentStoreHit strategies now inFace (ref_of i) i d fw3
                  | (None, fw3) \<Rightarrow> Forwarder_onContentStoreMiss strategies now inFace (ref_of i) i fw3)
               else Forwarder_onContentStoreMiss strategies now inFace (ref_of i) i fw2)"
proof -
  let ?fw = "fw\<lparr>fw_nInInterests := fw_nInInterests fw + 1\<rparr>"
  have "fw_inv env \<tau> ?fw" "interest_ok \<tau> i ?fw" using assms(1,2) by (simp_all add: interest_ok_def)
  from insert_entry [OF this] obtain isNew nt n where p:
    "Pit_insert (env_city env) i (fw_nt ?fw, fw_nPit ?fw) = ((ref_of i, isNew), nt, n)"
    "fw_inv env \<tau> (?fw\<lparr>fw_nt := nt, fw_nPit := n\<rparr>)"
    "fw_entry (?fw\<lparr>fw_nt := nt, fw_nPit := n\<rparr>) = (fw_entry fw)(ref_of i \<mapsto> entry_for i fw)"
    unfolding fw_entry_upd by blast
  define fw1 where "fw1 = ?fw\<lparr>fw_nt := nt, fw_nPit := n\<rparr>"
  have e: "fw_entry fw1 (ref_of i) = Some (entry_for i fw)" using p(3) by (simp add: fw1_def)
  have k: "(PitEntry_findNonce (entry_for i fw) (int_nonce i) inFace \<noteq> DUPLICATE_NONCE_NONE \<or>
      DeadNonceList_has (env_citySeed env) (int_name i) (int_nonce i) (fw_dnl fw1)) = known_nonce env i fw"
    by (auto simp: findNonce_none known_nonce_def fw1_def)
  have f: "(\<not> face_isLocal inFace \<and> Name_isPrefixOf LOCALHOST_NAME (int_name i)) = False" using assms(3) by auto
  have "Forwarder_onIncomingInterest env strategies now inFace i fw =
      (if known_nonce env i fw then fw1
       else let fw2 = Forwarder_cancelUnsatisfyAndStragglerTimer (ref_of i) fw1
            in if pit_inRecords (entry_for i fw) = [] then
                 (case Forwarder_lookupContent env now i fw2 of
                    (Some d, fw3) \<Rightarrow> Forwarder_onContentStoreHit strategies now inFace (ref_of i) i d fw3
                  | (None, fw3) \<Rightarrow> Forwarder_onContentStoreMiss strategies now inFace (ref_of i) i fw3)
               else Forwarder_onContentStoreMiss strategies now inFace (ref_of i) i fw2)"
    unfolding Forwarder_onIncomingInterest_def Let_def f if_False p(1) prod.case fw1_def [symmetric] e option.case k
      Forwarder_onInterestLoop_def not_not by (rule refl)
  then show ?thesis using p(2,3) by (intro exI [of _ fw1]) (simp add: fw1_def)
qed

lemma forward_interest:
  assumes "fw_inv env \<tau> fw" "timers_ok fw" "fw_entry fw (ref_of i) = Some pe"
    and "fw2 = Forwarder_cancelUnsatisfyAndStragglerTimer (ref_of i) fw"
  shows "pipeline_ok env \<tau> fw (Forwarder_onContentStoreMiss strategies now inFace (ref_of i) i fw2)"
    and "pipeline_ok env \<tau> fw (case Forwarder_lookupContent env now i fw2 of
           (Some d, fw3) \<Rightarrow> Forwarder_onContentStoreHit strategies now inFace (ref_of i) i d fw3
         | (None, fw3) \<Rightarrow> Forwarder_onContentStoreMiss strategies now inFace (ref_of i) i fw3)"
proof -
  let ?r = "ref_of i"
  have i2: "fw_inv env \<tau> fw2" unfolding assms(4) by (rule setTimer_inv [OF assms(1)])
  have o2: "fw_entry fw2 r' = fw_entry fw r'" if "r' \<noteq> ?r" for r' using that by (simp add: assms(4) setTimer_entry)
  obtain pe2 where e2: "fw_entry fw2 ?r = Some pe2" using assms(3) by (simp add: assms(4) setTimer_entry)
  have out2: "fw_out fw2 = fw_out fw" by (simp add: assms(4))
  have miss: "pipeline_ok env \<tau> fw (Forwarder_onContentStoreMiss strategies now inFace ?r i fw3)"
    if f3: "fw_inv env \<tau> fw3" "fw_entry fw3 = fw_entry fw2" "fw_out fw3 = fw_out fw2" for fw3
  proof -
    have "fw_entry fw3 ?r = Some pe2" using f3(2) e2 by simp
    note m = onContentStoreMiss_correct [OF f3(1) this _ refl, where now = now and inFace = inFace and i = i]
    show ?thesis
      unfolding pipeline_ok_def
    proof (intro conjI)
      show "timers_ok (Forwarder_onContentStoreMiss strategies now inFace ?r i fw3)"
        using m(4) by (intro timers_ok_frame [OF assms(2), of ?r]) (auto simp: frame_other [OF m(2)] f3(2) o2)
    qed (use m out2 f3(3) in auto)
  qed
  show "pipeline_ok env \<tau> fw (Forwarder_onContentStoreMiss strategies now inFace ?r i fw2)" using i2 by (rule miss) simp_all
  obtain m fw3 where l: "Forwarder_lookupContent env now i fw2 = (m, fw3)" by fastforce
  note l3 = lookupContent_correct [OF i2 l]
  show "pipeline_ok env \<tau> fw (case Forwarder_lookupContent env now i fw2 of
           (Some d, fw3) \<Rightarrow> Forwarder_onContentStoreHit strategies now inFace (ref_of i) i d fw3
         | (None, fw3) \<Rightarrow> Forwarder_onContentStoreMiss strategies now inFace (ref_of i) i fw3)"
  proof (cases m)
    case None
    then show ?thesis using miss l3 l by simp
  next
    case (Some d)
    let ?fw = "Forwarder_onContentStoreHit strategies now inFace ?r i d fw3"
    have "fw_entry fw3 ?r = Some pe2" using l3(2) e2 by simp
    note h = onContentStoreHit_correct [OF l3(1) this refl, where now = now and inFace = inFace and i = i and d = d]
    have "timers_ok ?fw"
      using h(4) by (intro timers_ok_frame [OF assms(2), of ?r]) (auto simp: frame_other [OF h(2)] l3(2) o2 has_timer_def)
    then show ?thesis using h l l3(3) out2 Some by (simp add: pipeline_ok_def)
  qed
qed

theorem onIncomingInterest_ok:
  assumes "fw_inv env \<tau> fw" "timers_ok fw" "interest_ok \<tau> i fw"
  shows "pipeline_ok env \<tau> fw (Forwarder_onIncomingInterest env strategies now inFace i fw)"
proof (cases "\<not> face_isLocal inFace \<and> Name_isPrefixOf LOCALHOST_NAME (int_name i)")
  case True
  then show ?thesis using assms by (simp add: Forwarder_onIncomingInterest_def pipeline_ok_def)
next
  case False
  then obtain fw1 where fw1: "fw_inv env \<tau> fw1" "fw_entry fw1 = (fw_entry fw)(ref_of i \<mapsto> entry_for i fw)" "fw_out fw1 = fw_out fw"
    and u: "Forwarder_onIncomingInterest env strategies now inFace i fw =
      (if known_nonce env i fw then fw1
       else let fw2 = Forwarder_cancelUnsatisfyAndStragglerTimer (ref_of i) fw1
            in if pit_inRecords (entry_for i fw) = [] then
                 (case Forwarder_lookupContent env now i fw2 of
                    (Some d, fw3) \<Rightarrow> Forwarder_onContentStoreHit strategies now inFace (ref_of i) i d fw3
                  | (None, fw3) \<Rightarrow> Forwarder_onContentStoreMiss strategies now inFace (ref_of i) i fw3)
               else Forwarder_onContentStoreMiss strategies now inFace (ref_of i) i fw2)"
    using onIncomingInterest_unfold [OF assms(1,3), of inFace now] by blast
  have t1: "timers_ok fw1"
    unfolding timers_ok_def
  proof (intro allI impI)
    fix r pe assume "fw_entry fw1 r = Some pe"
    then have "fw_entry fw r = Some pe \<or> pe = PitEntry_ctor i" unfolding fw1(2) by (auto split: if_splits option.splits)
    then show "has_timer pe \<or> pit_inRecords pe = [] \<and> pit_outRecords pe = []"
      using timers_okD [OF assms(2), of r pe] by (auto simp: PitEntry_ctor_def)
  qed
  have "fw_entry fw1 (ref_of i) = Some (entry_for i fw)" using fw1(2) by simp
  note f = forward_interest [OF fw1(1) t1 this refl, where now = now and inFace = inFace]
  show ?thesis
    using f fw1(1) t1 fw1(3) unfolding u Let_def by (simp add: pipeline_ok_def split: if_split)
qed

text \<open>An Interest with a known nonce is not answered and not forwarded, and changes nothing but the PIT entry
  it finds or makes.\<close>

lemma onIncomingInterest_loop:
  assumes "fw_inv env \<tau> fw" "interest_ok \<tau> i fw" "known_nonce env i fw"
    and "fw' = Forwarder_onIncomingInterest env strategies now inFace i fw"
  shows "fw_out fw' = fw_out fw" "fw_dnl fw' = fw_dnl fw"
    "fw_entry fw' = fw_entry fw \<or> fw_entry fw' = (fw_entry fw)(ref_of i \<mapsto> entry_for i fw)"
proof -
  have "fw_out fw' = fw_out fw \<and> fw_dnl fw' = fw_dnl fw \<and>
      (fw_entry fw' = fw_entry fw \<or> fw_entry fw' = (fw_entry fw)(ref_of i \<mapsto> entry_for i fw))"
  proof (cases "\<not> face_isLocal inFace \<and> Name_isPrefixOf LOCALHOST_NAME (int_name i)")
    case True
    then show ?thesis by (simp add: Forwarder_onIncomingInterest_def assms(4))
  next
    case False
    then show ?thesis using onIncomingInterest_unfold [OF assms(1,2), of inFace now] assms(3) unfolding assms(4) by auto
  qed
  then show "fw_out fw' = fw_out fw" "fw_dnl fw' = fw_dnl fw"
    "fw_entry fw' = fw_entry fw \<or> fw_entry fw' = (fw_entry fw)(ref_of i \<mapsto> entry_for i fw)" by blast+
qed

end

section \<open>Incoming Data\<close>

text \<open>The nonces that are put on the Dead Nonce List.\<close>

definition dead_nonces :: "pit_entry \<Rightarrow> bool \<Rightarrow> int \<Rightarrow> face option \<Rightarrow> int \<Rightarrow> u32 list" where
  "dead_nonces pe isSatisfied fresh up lifetime =
     (if isSatisfied \<and> \<not> (mustBeFresh (int_selectors (pit_interest pe)) \<and> 0 \<le> fresh \<and> milliseconds fresh < lifetime) then []
      else map rec_lastNonce (case up of None \<Rightarrow> pit_outRecords pe
             | Some f \<Rightarrow> (case PitEntry_getOutRecord pe f of None \<Rightarrow> [] | Some r \<Rightarrow> [r])))"

lemma fold_insertNonce:
  "fold (insertNonceToDnl env pe) rs fw = fw\<lparr>fw_dnl := fold (DeadNonceList_add (env_citySeed env) (PitEntry_getName pe))
     (map rec_lastNonce rs) (fw_dnl fw)\<rparr>"
  by (induction rs arbitrary: fw) (simp_all add: insertNonceToDnl_def)

lemma insertDeadNonceList_eq:
  "Forwarder_insertDeadNonceList env pe s p up fw = fw\<lparr>fw_dnl := fold (DeadNonceList_add (env_citySeed env) (PitEntry_getName pe))
     (dead_nonces pe s p up (dnl_lifetime (fw_dnl fw))) (fw_dnl fw)\<rparr>"
  by (auto simp: Forwarder_insertDeadNonceList_def dead_nonces_def fold_insertNonce Let_def insertNonceToDnl_def split: option.split)

lemma fold_add_inv: "dnl_inv d \<Longrightarrow> dnl_inv (fold (DeadNonceList_add c n) ns d)"
proof (induction ns arbitrary: d)
  case (Cons a ns)
  then show ?case using dnl_inv_apply [OF Cons.prems, of c "Add n a"] by simp
qed simp

lemma fw_inv_dnl: "fw_inv env \<tau> fw \<Longrightarrow> dnl_inv d \<Longrightarrow> fw_inv env \<tau> (fw\<lparr>fw_dnl := d\<rparr>)"
  by (simp add: fw_inv_def fw_entry_def)

text \<open>What becomes of an entry when Data satisfies it.\<close>

definition satisfied :: "timepoint \<Rightarrow> face \<Rightarrow> data \<Rightarrow> pit_entry \<Rightarrow> pit_entry" where
  "satisfied now inFace d pe = (PitEntry_deleteOutRecord inFace (PitEntry_deleteInRecords
     (pe\<lparr>pit_unsatisfyTimer := None, pit_stragglerTimer := None\<rparr>)))
       \<lparr>pit_stragglerTimer := Some (now + milliseconds 100, True, data_freshness d)\<rparr>"

lemma satisfied_simps [simp]:
  "pit_inRecords (satisfied now inFace d pe) = []" "pit_interest (satisfied now inFace d pe) = pit_interest pe"
  "has_timer (satisfied now inFace d pe)" "recs_ok k (satisfied now inFace d pe)"
  by (simp_all add: satisfied_def PitEntry_deleteOutRecord_def PitEntry_deleteInRecords_def has_timer_def recs_ok_def)

lemma pending_faces_correct:
  "set (pending_faces now pe fs) = set fs \<union> {rec_face r | r. r \<in> set (pit_inRecords pe) \<and> rec_expiry r > now}"
  "distinct fs \<Longrightarrow> distinct (pending_faces now pe fs)"
proof -
  have "set (fold (\<lambda>r fs. if rec_expiry r > now then List.insert (rec_face r) fs else fs) rs fs)
      = set fs \<union> {rec_face r | r. r \<in> set rs \<and> rec_expiry r > now}" for rs :: "in_record list" and fs
    by (induction rs arbitrary: fs) auto
  then show "set (pending_faces now pe fs) = set fs \<union> {rec_face r | r. r \<in> set (pit_inRecords pe) \<and> rec_expiry r > now}"
    by (simp add: pending_faces_def)
  have "distinct fs \<Longrightarrow> distinct (fold (\<lambda>r fs. if rec_expiry r > now then List.insert (rec_face r) fs else fs) rs fs)"
    for rs :: "in_record list" and fs
    by (induction rs arbitrary: fs) auto
  then show "distinct fs \<Longrightarrow> distinct (pending_faces now pe fs)" by (simp add: pending_faces_def)
qed

definition waiting :: "timepoint \<Rightarrow> 'c forwarder \<Rightarrow> pit_ref \<Rightarrow> face \<Rightarrow> bool" where
  "waiting now fw r f \<longleftrightarrow> (\<exists>pe ir. fw_entry fw r = Some pe \<and> ir \<in> set (pit_inRecords pe) \<and> rec_expiry ir > now \<and> rec_face ir = f)"

context forwarding_strategies
begin

lemma satisfy_entry_correct:
  assumes "fw_inv env \<tau> fw" "fw_entry fw r = Some pe" "satisfy_entry env strategies now inFace d r (ps, fw) = (ps', fw')"
  shows "ps' = pending_faces now pe ps" "fw_inv env \<tau> fw'" "fw_entry fw' = (fw_entry fw)(r \<mapsto> satisfied now inFace d pe)"
    "fw_out fw' = fw_out fw" "fw_faces fw' = fw_faces fw"
proof -
  define fw1 where "fw1 = Forwarder_cancelUnsatisfyAndStragglerTimer r fw"
  let ?pe1 = "pe\<lparr>pit_unsatisfyTimer := None, pit_stragglerTimer := None\<rparr>"
  have e1: "fw_entry fw1 r = Some ?pe1" by (simp add: fw1_def setTimer_entry assms(2))
  define fw3 where "fw3 = Forwarder_insertDeadNonceList env ?pe1 True (data_freshness d) (Some inFace) fw1"
  define fw4 where "fw4 = fw_modify r PitEntry_deleteInRecords fw3"
  define fw5 where "fw5 = fw_modify r (PitEntry_deleteOutRecord inFace) fw4"
  have fw': "ps' = pending_faces now ?pe1 ps" "fw' = Forwarder_setStragglerTimer now r True (data_freshness d) fw5"
    using assms(3) e1 by (simp_all add: satisfy_entry_def Let_def fw1_def [symmetric] fw3_def fw4_def fw5_def)
  then show "ps' = pending_faces now pe ps" by (simp add: pending_faces_def)
  have i1: "fw_inv env \<tau> fw1" unfolding fw1_def by (rule setTimer_inv [OF assms(1)])
  have "dnl_inv (fw_dnl fw1)" using i1 by (simp add: fw_inv_def)
  then have i3: "fw_inv env \<tau> fw3" unfolding fw3_def insertDeadNonceList_eq by (intro fw_inv_dnl [OF i1] fold_add_inv)
  have i4: "fw_inv env \<tau> fw4" unfolding fw4_def by (rule fw_modify_inv [OF i3]) (simp_all add: recs_ok_def PitEntry_deleteInRecords_def)
  have "fw_inv env \<tau> fw5" unfolding fw5_def by (rule fw_modify_inv [OF i4]) (simp_all add: recs_ok_def PitEntry_deleteOutRecord_def)
  then show "fw_inv env \<tau> fw'" unfolding fw' by (rule setTimer_inv)
  show "fw_entry fw' = (fw_entry fw)(r \<mapsto> satisfied now inFace d pe)"
    by (intro ext) (simp add: fw' setTimer_entry fw5_def fw_entry_modify fw4_def fw3_def insertDeadNonceList_eq fw1_def assms(2) satisfied_def)
  show "fw_out fw' = fw_out fw" by (simp add: fw' fw5_def fw4_def fw3_def insertDeadNonceList_eq fw1_def)
  show "fw_faces fw' = fw_faces fw"
    by (simp add: fw' fw5_def fw4_def fw3_def insertDeadNonceList_eq fw1_def Forwarder_setStragglerTimer_def
        Forwarder_cancelUnsatisfyAndStragglerTimer_def)
qed

text \<open>The faces that wait for Data at the entries of a list.\<close>

lemma satisfy_fold_correct:
  assumes "fw_inv env \<tau> fw" "\<forall>r \<in> set rs. fw_entry fw r \<noteq> None" "distinct ps"
    and "fold (satisfy_entry env strategies now inFace d) rs (ps, fw) = (ps', fw')"
  shows "fw_inv env \<tau> fw' \<and> fw_out fw' = fw_out fw \<and> fw_faces fw' = fw_faces fw \<and> distinct ps' \<and>
    set ps' = set ps \<union> {f. \<exists>r \<in> set rs. waiting now fw r f} \<and>
    (\<forall>r. r \<notin> set rs \<longrightarrow> fw_entry fw' r = fw_entry fw r) \<and>
    (\<forall>r \<in> set rs. \<exists>pe. fw_entry fw' r = Some pe \<and> pit_inRecords pe = [] \<and> has_timer pe)"
  using assms
proof (induction rs arbitrary: ps fw)
  case (Cons r rs)
  obtain pe where pe: "fw_entry fw r = Some pe" using Cons.prems(2) by auto
  obtain ps1 fw1 where s: "satisfy_entry env strategies now inFace d r (ps, fw) = (ps1, fw1)" by fastforce
  note c = satisfy_entry_correct [OF Cons.prems(1) pe s]
  have dom: "\<forall>r' \<in> set rs. fw_entry fw1 r' \<noteq> None" using Cons.prems(2) c(3) by auto
  have d1: "distinct ps1" using Cons.prems(3) pending_faces_correct(2) c(1) by simp
  have "fold (satisfy_entry env strategies now inFace d) rs (ps1, fw1) = (ps', fw')" using Cons.prems(4) s by simp
  note IH = Cons.IH [OF c(2) dom d1 this]
  have oth: "fw_entry fw' r' = fw_entry fw1 r'" if "r' \<notin> set rs" for r' using IH that by blast
  have w: "waiting now fw1 r' f \<longleftrightarrow> r' \<noteq> r \<and> waiting now fw r' f" for r' f
    using c(3) by (auto simp: waiting_def)
  have p1: "set ps1 = set ps \<union> {f. waiting now fw r f}"
    using c(1) pending_faces_correct(1) [of now pe ps] pe by (auto simp: waiting_def)
  have "set ps' = set ps \<union> {f. \<exists>r' \<in> set (r # rs). waiting now fw r' f}" using IH p1 w by auto
  moreover have "\<exists>pe. fw_entry fw' r' = Some pe \<and> pit_inRecords pe = [] \<and> has_timer pe" if "r' \<in> set (r # rs)" for r'
  proof (cases "r' \<in> set rs")
    case False
    then have "r' = r" "fw_entry fw' r' = fw_entry fw1 r'" using that oth by auto
    then show ?thesis using c(3) by simp
  qed (use IH in blast)
  moreover have "fw_entry fw' r' = fw_entry fw r'" if "r' \<notin> set (r # rs)" for r' using that oth c(3) by auto
  ultimately show ?case using IH c(4,5) by simp
qed auto

end

text \<open>Sending to all but the face the Data came from.\<close>

lemma fold_onOutgoingData:
  assumes "fw' = fold (\<lambda>f fw. if f = inFace then fw else Forwarder_onOutgoingData d f fw) fs fw"
  shows "fw_inv env \<tau> fw' = fw_inv env \<tau> fw \<and> fw_entry fw' = fw_entry fw \<and>
    fw_out fw' = fw_out fw @ map (\<lambda>f. (f, DataPacket d)) (filter (\<lambda>f. f \<noteq> inFace \<and> Face_getId fw f \<noteq> INVALID_FACEID \<and>
      scope_ok (f, DataPacket d)) fs)"
  using assms
proof (induction fs arbitrary: fw)
  case (Cons f fs)
  show ?case
  proof (cases "f = inFace")
    case False
    define fw1 where "fw1 = Forwarder_onOutgoingData d f fw"
    note o = onOutgoingData_correct [OF fw1_def]
    have "Face_getId fw1 = Face_getId fw" by (intro ext) (simp add: Face_getId_def o(5))
    then show ?thesis using Cons.IH [of fw1] Cons.prems False o by (simp add: fw1_def)
  qed (use Cons in simp)
qed simp

lemma pit_at_iff: "pit_inv nt \<Longrightarrow> pit_at (k, s) nt = Some pe \<longleftrightarrow> pe \<in> set (pit_map nt k) \<and> pit_selectors pe = s"
proof -
  assume inv: "pit_inv nt"
  have "inj_on pit_selectors (set (pit_map nt k))" using inv by (simp add: pit_inv_def distinct_map)
  then have u: "x = y" if "x \<in> set (pit_map nt k)" "y \<in> set (pit_map nt k)" "pit_selectors x = s" "pit_selectors y = s" for x y
    using that by (auto simp: inj_on_def)
  show ?thesis
  proof (cases "pit_at (k, s) nt")
    case None
    then have "\<forall>x \<in> set (pit_map nt k). pit_selectors x \<noteq> s" unfolding pit_at_map find_None_set .
    then show ?thesis using None by auto
  next
    case (Some pe')
    then have "pe' \<in> set (pit_map nt k) \<and> pit_selectors pe' = s" unfolding pit_at_map by (auto dest: find_Some_set)
    then show ?thesis using Some u by auto
  qed
qed

lemma cacheData_correct:
  assumes "fw_inv env \<tau> fw" "cs_data_ok (env_sha256 env) d" "fw' = Forwarder_cacheData env now d u fw"
  shows "fw_inv env \<tau> fw'" "fw_entry fw' = fw_entry fw" "fw_out fw' = fw_out fw" "fw_faces fw' = fw_faces fw"
    "fw_nt fw' = fw_nt fw"
proof -
  have c: "cs_inv (env_sha256 env) fifo_tracks (fw_cs fw)" using assms(1) by (simp add: fw_inv_def)
  have "cs_inv (env_sha256 env) fifo_tracks (snd (Cs_insert (env_sha256 env) (PriorityFifoPolicy (env_sha256 env)) now d u (fw_cs fw)))"
    using fifo.insert_inv [OF c assms(2) prod.collapse [symmetric]] by blast
  then show "fw_inv env \<tau> fw'" "fw_entry fw' = fw_entry fw" "fw_out fw' = fw_out fw" "fw_faces fw' = fw_faces fw"
    "fw_nt fw' = fw_nt fw"
    using assms(1) by (simp_all add: assms(3) Forwarder_cacheData_def fw_inv_def fw_entry_def fun_eq_iff split: option.split)
qed

lemma matches_exist: "r \<in> set (Pit_findAllDataMatches city sha d nt) \<Longrightarrow> pit_at r nt \<noteq> None"
proof -
  assume "r \<in> set (Pit_findAllDataMatches city sha d nt)"
  then obtain k pe where "r = (k, int_selectors (pit_interest pe))" "pe \<in> set (ent_pit (nt_entry_of nt k))"
    by (auto simp: Pit_findAllDataMatches_def)
  then show ?thesis unfolding pit_at_def prod.case by (simp add: find_None_set del: not_None_eq) blast
qed

definition accepts_data :: "face \<Rightarrow> data \<Rightarrow> bool" where
  "accepts_data inFace d \<longleftrightarrow> face_isLocal inFace \<or> \<not> Name_isPrefixOf LOCALHOST_NAME (data_name d)"

context forwarding_strategies
begin

lemma onIncomingData_matched:
  assumes "fw_inv env \<tau> fw" "cs_data_ok (env_sha256 env) d" "accepts_data inFace d"
    and rs: "rs = Pit_findAllDataMatches (env_city env) (env_sha256 env) d (fw_nt fw)" "rs \<noteq> []"
    and "fw' = Forwarder_onIncomingData env strategies now inFace d fw"
  shows "fw_inv env \<tau> fw'" "\<And>r. r \<notin> set rs \<Longrightarrow> fw_entry fw' r = fw_entry fw r"
    "\<And>r. r \<in> set rs \<Longrightarrow> \<exists>pe. fw_entry fw' r = Some pe \<and> pit_inRecords pe = [] \<and> has_timer pe"
    "\<exists>fs. fw_out fw' = fw_out fw @ map (\<lambda>f. (f, DataPacket d)) fs \<and> distinct fs \<and>
       (\<forall>f. f \<in> set fs \<longleftrightarrow> f \<noteq> inFace \<and> Face_getId fw f \<noteq> INVALID_FACEID \<and> scope_ok (f, DataPacket d) \<and>
          (\<exists>r \<in> set rs. waiting now fw r f))"
proof -
  let ?fw = "fw\<lparr>fw_nInDatas := fw_nInDatas fw + 1\<rparr>"
  define fw1 where "fw1 = Forwarder_cacheData env now d False ?fw"
  have i0: "fw_inv env \<tau> ?fw" using assms(1) by simp
  note c = cacheData_correct [OF i0 assms(2) fw1_def]
  obtain ps fw2 where f: "fold (satisfy_entry env strategies now inFace d) rs ([], fw1) = (ps, fw2)" by fastforce
  have "\<forall>r \<in> set rs. fw_entry fw1 r \<noteq> None" using matches_exist rs(1) c(2) by (auto simp: fw_entry_def)
  note s = satisfy_fold_correct [OF c(1) this distinct.simps(1) [THEN iffD2, OF TrueI] f]
  have viol: "(\<not> face_isLocal inFace \<and> Name_isPrefixOf LOCALHOST_NAME (data_name d)) = False"
    using assms(3) by (auto simp: accepts_data_def)
  have "fw' = fold (\<lambda>f fw. if f = inFace then fw else Forwarder_onOutgoingData d f fw) ps fw2"
    using rs f by (simp add: assms(6) Forwarder_onIncomingData_def viol Let_def fw1_def)
  note o = fold_onOutgoingData [OF this, of env \<tau>]
  show "fw_inv env \<tau> fw'" using o s by blast
  have e: "fw_entry fw' = fw_entry fw2" using o by blast
  show "fw_entry fw' r = fw_entry fw r" if "r \<notin> set rs" for r
  proof -
    have "fw_entry fw2 r = fw_entry fw1 r" using that s by blast
    then show ?thesis using c(2) unfolding e by simp
  qed
  show "\<exists>pe. fw_entry fw' r = Some pe \<and> pit_inRecords pe = [] \<and> has_timer pe" if "r \<in> set rs" for r
    using that s unfolding e by blast
  have w: "waiting now fw1 = waiting now fw" using c(2) by (auto simp: waiting_def fun_eq_iff)
  have g: "Face_getId fw2 = Face_getId fw" using s c(4) by (auto simp: Face_getId_def fun_eq_iff)
  have "set ps = {f. \<exists>r \<in> set rs. waiting now fw r f}" "distinct ps" using s w by auto
  moreover have "fw_out fw2 = fw_out fw" using s c(3) by simp
  ultimately show "\<exists>fs. fw_out fw' = fw_out fw @ map (\<lambda>f. (f, DataPacket d)) fs \<and> distinct fs \<and>
       (\<forall>f. f \<in> set fs \<longleftrightarrow> f \<noteq> inFace \<and> Face_getId fw f \<noteq> INVALID_FACEID \<and> scope_ok (f, DataPacket d) \<and>
          (\<exists>r \<in> set rs. waiting now fw r f))"
    using o unfolding g by (intro exI [of _ "filter (\<lambda>f. f \<noteq> inFace \<and> Face_getId fw f \<noteq> INVALID_FACEID \<and> scope_ok (f, DataPacket d)) ps"]) auto
qed

lemma onIncomingData_unmatched:
  assumes "fw_inv env \<tau> fw" "cs_data_ok (env_sha256 env) d" "accepts_data inFace d"
    and "Pit_findAllDataMatches (env_city env) (env_sha256 env) d (fw_nt fw) = []"
    and "fw' = Forwarder_onIncomingData env strategies now inFace d fw"
  shows "fw_inv env \<tau> fw'" "fw_entry fw' = fw_entry fw" "fw_out fw' = fw_out fw"
proof -
  let ?fw = "fw\<lparr>fw_nInDatas := fw_nInDatas fw + 1\<rparr>"
  have i0: "fw_inv env \<tau> ?fw" using assms(1) by simp
  note c = cacheData_correct [OF i0 assms(2) refl, of now True]
  have viol: "(\<not> face_isLocal inFace \<and> Name_isPrefixOf LOCALHOST_NAME (data_name d)) = False"
    using assms(3) by (auto simp: accepts_data_def)
  have d: "Forwarder_onIncomingData env strategies now inFace d fw =
      (if face_isLocal inFace then Forwarder_cacheData env now d True ?fw else ?fw)"
    using assms(4) by (simp add: Forwarder_onIncomingData_def viol Forwarder_onDataUnsolicited_def Let_def)
  show "fw_inv env \<tau> fw'" "fw_entry fw' = fw_entry fw" "fw_out fw' = fw_out fw"
    using c(1-3) i0 unfolding assms(5) d by simp_all
qed

lemma onIncomingData_ok:
  assumes "fw_inv env \<tau> fw" "timers_ok fw" "cs_data_ok (env_sha256 env) d"
  shows "pipeline_ok env \<tau> fw (Forwarder_onIncomingData env strategies now inFace d fw)"
proof -
  let ?rs = "Pit_findAllDataMatches (env_city env) (env_sha256 env) d (fw_nt fw)"
  let ?fw = "fw\<lparr>fw_nInDatas := fw_nInDatas fw + 1\<rparr>"
  consider "\<not> accepts_data inFace d" | "accepts_data inFace d" "?rs = []" | "accepts_data inFace d" "?rs \<noteq> []" by blast
  then show ?thesis
  proof cases
    case 1
    then show ?thesis using assms by (simp add: Forwarder_onIncomingData_def accepts_data_def pipeline_ok_def)
  next
    case 2
    have i0: "fw_inv env \<tau> ?fw" using assms(1) by simp
    note c = cacheData_correct [OF i0 assms(3) refl, of now True]
    have "timers_ok (Forwarder_cacheData env now d True ?fw)" using assms(2) c(2) unfolding timers_ok_def by simp
    moreover have viol: "(\<not> face_isLocal inFace \<and> Name_isPrefixOf LOCALHOST_NAME (data_name d)) = False"
      using 2 by (auto simp: accepts_data_def)
    ultimately show ?thesis
      using assms c(1,3) 2(2) by (simp add: Forwarder_onIncomingData_def viol Forwarder_onDataUnsolicited_def pipeline_ok_def Let_def)
  next
    case 3
    note m = onIncomingData_matched [OF assms(1,3) 3(1) refl 3(2) refl, where now = now]
    have "timers_ok (Forwarder_onIncomingData env strategies now inFace d fw)"
      unfolding timers_ok_def using m(2,3) timers_okD [OF assms(2)] by (metis option.inject)
    then show ?thesis using m(1,4) by (auto simp: pipeline_ok_def list_all_iff)
  qed
qed

end

end
