(* ===== verification/Events.thy ===== *)
theory Events
  imports Forwarder
begin

text \<open>
  Runs of the forwarder: packets that arrive, timers and scheduled events that fire, faces that come and go, and
  the changes of the FIB and of the strategy choice that management makes (\<open>NFD/daemon/mgmt/fib-manager.cpp\<close>
  and \<open>strategy-choice-manager.cpp\<close>, after a command has been validated). The lemmas are invariants of the
  reachable states by rule induction.
\<close>

section \<open>Management\<close>

text \<open>The commands, after their parameters were found complete, with the code of the response.\<close>

definition FibManager_addNextHop :: "'c env \<Rightarrow> name \<Rightarrow> int \<Rightarrow> u64 \<Rightarrow> 'c forwarder \<Rightarrow> nat \<times> 'c forwarder" where
  "FibManager_addNextHop env pfx faceId cost fw =
     (case FaceTable_get faceId fw of
        None \<Rightarrow> (410, fw)
      | Some nextHopFace \<Rightarrow>
          let ((entry, isNew), nt, n) = Fib_insert (env_city env) pfx (fw_nt fw, fw_nFib fw);
              nt' = nt_update pfx (\<lambda>e. e\<lparr>ent_fib := map_option (FibEntry_addNextHop nextHopFace cost) (ent_fib e)\<rparr>) nt
          in (200, fw\<lparr>fw_nt := nt', fw_nFib := n\<rparr>))"

definition FibManager_removeNextHop :: "'c env \<Rightarrow> name \<Rightarrow> int \<Rightarrow> 'c forwarder \<Rightarrow> nat \<times> 'c forwarder" where
  "FibManager_removeNextHop env pfx faceId fw =
     (case FaceTable_get faceId fw of
        None \<Rightarrow> (200, fw)
      | Some faceToRemove \<Rightarrow>
          (case Fib_findExactMatch (env_city env) pfx (fw_nt fw) of
             None \<Rightarrow> (200, fw)
           | Some entry \<Rightarrow>
               let nt = nt_update pfx (\<lambda>e. e\<lparr>ent_fib := map_option (FibEntry_removeNextHop faceToRemove) (ent_fib e)\<rparr>) (fw_nt fw);
                   (nt', n) = (if fib_nextHops (FibEntry_removeNextHop faceToRemove entry) = []
                               then Fib_erase_nte pfx (nt, fw_nFib fw) else (nt, fw_nFib fw))
               in (200, fw\<lparr>fw_nt := nt', fw_nFib := n\<rparr>)))"

definition StrategyChoiceManager_setStrategy ::
    "'c env \<Rightarrow> name \<Rightarrow> name \<Rightarrow> 'c forwarder \<Rightarrow> (nat \<times> 'c forwarder) option" where
  "StrategyChoiceManager_setStrategy env pfx selectedStrategy fw =
     (if \<not> StrategyChoice_hasStrategy selectedStrategy False (fw_sc fw) then Some (504, fw)
      else do { (ok, nt, sc) \<leftarrow> StrategyChoice_insert (env_city env) pfx selectedStrategy (fw_nt fw, fw_sc fw);
                Some (if ok then 200 else 405, fw\<lparr>fw_nt := nt, fw_sc := sc\<rparr>) })"

definition StrategyChoiceManager_unsetStrategy :: "'c env \<Rightarrow> name \<Rightarrow> 'c forwarder \<Rightarrow> (nat \<times> 'c forwarder) option" where
  "StrategyChoiceManager_unsetStrategy env pfx fw =
     (if pfx = [] then Some (403, fw)
      else do { (nt, sc) \<leftarrow> StrategyChoice_erase (env_city env) pfx (fw_nt fw, fw_sc fw);
                Some (200, fw\<lparr>fw_nt := nt, fw_sc := sc\<rparr>) })"

section \<open>Runs\<close>

definition prefix_ok :: "'c env \<Rightarrow> (bytes \<Rightarrow> u32) \<Rightarrow> name \<Rightarrow> 'c forwarder \<Rightarrow> bool" where
  "prefix_ok env \<tau> p fw \<longleftrightarrow> typed \<tau> p \<and> nt_room (fw_nt fw) p \<and> length p < npos \<and>
     prefix_hashes_distinct (env_city env) p \<and> prefix_hashes_distinct (env_city env) (butlast p)"

inductive fw_step :: "'c env \<Rightarrow> (name \<Rightarrow> 'c strategy) \<Rightarrow> (bytes \<Rightarrow> u32) \<Rightarrow> 'c forwarder \<Rightarrow> 'c forwarder \<Rightarrow> bool"
  for env strategies \<tau> where
  step_interest: "interest_ok \<tau> i fw \<Longrightarrow>
    fw_step env strategies \<tau> fw (Forwarder_onIncomingInterest env strategies now inFace i fw)"
| step_data: "cs_data_ok (env_sha256 env) d \<Longrightarrow>
    fw_step env strategies \<tau> fw (Forwarder_onIncomingData env strategies now inFace d fw)"
| step_unsatisfied: "fw_entry fw r = Some pe \<Longrightarrow> pit_unsatisfyTimer pe = Some now \<Longrightarrow>
    fw_step env strategies \<tau> fw (Forwarder_onInterestUnsatisfied env strategies now r fw)"
| step_straggler: "fw_entry fw r = Some pe \<Longrightarrow> pit_stragglerTimer pe = Some (now, isSatisfied, dataFreshnessPeriod) \<Longrightarrow>
    fw_step env strategies \<tau> fw (Forwarder_onInterestFinalize env r isSatisfied dataFreshnessPeriod fw)"
| step_dnl: "fw_step env strategies \<tau> fw (fw\<lparr>fw_dnl := dnl_apply (env_citySeed env) x (fw_dnl fw)\<rparr>)"
| step_stale: "fifo_info (cs_policy (fw_cs fw)) k = Some (QUEUE_FIFO, Some now) \<Longrightarrow>
    fw_step env strategies \<tau> fw (fw\<lparr>fw_cs := Fifo_moveToStaleQueue k (fw_cs fw)\<rparr>)"
| step_addFace: "fw_step env strategies \<tau> fw (snd (FaceTable_add f fw))"
| step_removeFace: "fw_step env strategies \<tau> fw (FaceTable_remove f fw)"
| step_addNextHop: "prefix_ok env \<tau> p fw \<Longrightarrow>
    fw_step env strategies \<tau> fw (snd (FibManager_addNextHop env p faceId cost fw))"
| step_removeNextHop: "prefix_ok env \<tau> p fw \<Longrightarrow>
    fw_step env strategies \<tau> fw (snd (FibManager_removeNextHop env p faceId fw))"
| step_setStrategy: "prefix_ok env \<tau> p fw \<Longrightarrow> StrategyChoiceManager_setStrategy env p s fw = Some (code, fw') \<Longrightarrow>
    fw_step env strategies \<tau> fw fw'"
| step_unsetStrategy: "prefix_ok env \<tau> p fw \<Longrightarrow> StrategyChoiceManager_unsetStrategy env p fw = Some (code, fw') \<Longrightarrow>
    fw_step env strategies \<tau> fw fw'"

inductive fw_reach :: "'c env \<Rightarrow> (name \<Rightarrow> 'c strategy) \<Rightarrow> (bytes \<Rightarrow> u32) \<Rightarrow> 'c forwarder \<Rightarrow> 'c forwarder \<Rightarrow> bool"
  for env strategies \<tau> fw where
  reach_start: "fw_reach env strategies \<tau> fw fw"
| reach_step: "fw_reach env strategies \<tau> fw fw' \<Longrightarrow> fw_step env strategies \<tau> fw' fw'' \<Longrightarrow> fw_reach env strategies \<tau> fw fw''"

section \<open>Finalizing an entry\<close>

lemma finalize_correct:
  assumes "fw_inv env \<tau> fw" "fw_entry fw r = Some pe" "fw' = Forwarder_onInterestFinalize env r s p fw"
  shows "fw_inv env \<tau> fw'" "fw_entry fw' = (fw_entry fw)(r := None)" "fw_out fw' = fw_out fw"
    "fw_dnl fw' = fold (DeadNonceList_add (env_citySeed env) (fst r)) (dead_nonces pe s p None (dnl_lifetime (fw_dnl fw))) (fw_dnl fw)"
proof -
  define fw1 where "fw1 = Forwarder_insertDeadNonceList env pe s p None fw"
  define fw2 where "fw2 = Forwarder_cancelUnsatisfyAndStragglerTimer r fw1"
  have dnl1: "fw_dnl fw1 = fold (DeadNonceList_add (env_citySeed env) (fst r)) (dead_nonces pe s p None (dnl_lifetime (fw_dnl fw))) (fw_dnl fw)"
    unfolding fw1_def insertDeadNonceList_eq using entry_name [OF assms(1,2)] by simp
  have "dnl_inv (fw_dnl fw)" using assms(1) by (simp add: fw_inv_def)
  then have "fw_inv env \<tau> fw1" unfolding fw1_def insertDeadNonceList_eq by (intro fw_inv_dnl [OF assms(1)] fold_add_inv)
  then have i2: "fw_inv env \<tau> fw2" unfolding fw2_def by (rule setTimer_inv)
  obtain pe2 where e2: "pit_at r (fw_nt fw2) = Some pe2"
    using assms(2) by (simp add: fw2_def fw1_def insertDeadNonceList_eq flip: fw_entry_def) (simp add: setTimer_entry)
  have o2: "fw_entry fw2 r' = fw_entry fw r'" if "r' \<noteq> r" for r'
    using that by (simp add: fw2_def fw1_def insertDeadNonceList_eq setTimer_entry)
  obtain k sel where r: "r = (k, sel)" by (cases r)
  have inv2: "nt_inv (env_city env) \<tau> (fw_nt fw2)" "pit_inv (fw_nt fw2)" using i2 by (simp_all add: fw_inv_def)
  from Pit_erase_correct [OF inv2 e2 [unfolded r], of "fw_nPit fw2"] obtain nt' where nt':
    "Pit_erase r (fw_nt fw2, fw_nPit fw2) = (nt', fw_nPit fw2 - 1)" "nt_inv (env_city env) \<tau> nt'" "pit_inv nt'"
    "strategy_map nt' = strategy_map (fw_nt fw2)" "pit_map nt' = (pit_map (fw_nt fw2))(k := swap_remove pe2 (pit_map (fw_nt fw2) k))"
    unfolding r by blast
  have fw': "fw' = fw2\<lparr>fw_nt := nt', fw_nPit := fw_nPit fw2 - 1\<rparr>"
    by (simp add: assms(2,3) Forwarder_onInterestFinalize_def fw1_def [symmetric] fw2_def [symmetric] nt'(1))
  have at: "pit_at r' nt' = (if r' = r then None else pit_at r' (fw_nt fw2))" for r'
    using pit_at_erase [OF inv2(2) e2 [unfolded r] nt'(5)] by (simp add: r)
  show ent: "fw_entry fw' = (fw_entry fw)(r := None)"
  proof
    fix r' show "fw_entry fw' r' = ((fw_entry fw)(r := None)) r'"
      using o2 [of r'] at [of r'] by (cases "r' = r") (simp_all add: fw' fw_entry_def)
  qed
  have "recs_ok (fst r') pe'" if "fw_entry fw' r' = Some pe'" for r' pe'
    using that fw_inv_recs [OF assms(1), of r' pe'] unfolding ent by (cases "r' = r") simp_all
  then show "fw_inv env \<tau> fw'" using i2 nt'(2,3) sc_inv_cong [OF nt'(4)] by (simp add: fw_inv_def fw')
  show "fw_out fw' = fw_out fw" by (simp add: fw' fw2_def fw1_def insertDeadNonceList_eq)
  show "fw_dnl fw' = fold (DeadNonceList_add (env_citySeed env) (fst r)) (dead_nonces pe s p None (dnl_lifetime (fw_dnl fw))) (fw_dnl fw)"
    using dnl1 by (simp add: fw' fw2_def Forwarder_cancelUnsatisfyAndStragglerTimer_def)
qed

lemma finalize_ok:
  assumes "fw_inv env \<tau> fw" "timers_ok fw"
  shows "pipeline_ok env \<tau> fw (Forwarder_onInterestFinalize env r s p fw)"
proof (cases "fw_entry fw r")
  case None
  then show ?thesis using assms by (simp add: Forwarder_onInterestFinalize_def pipeline_ok_def)
next
  case (Some pe)
  note f = finalize_correct [OF assms(1) Some refl, of s p]
  have "timers_ok (Forwarder_onInterestFinalize env r s p fw)"
    by (rule timers_ok_frame [OF assms(2), of r]) (simp_all add: f(2))
  then show ?thesis using f(1,3) by (simp add: pipeline_ok_def)
qed

text \<open>Finalizing an entry makes no name tree entry.\<close>

lemma Pit_erase_dom:
  assumes "nt_inv city \<tau> nt" "pit_at r nt \<noteq> None"
  shows "dom (nt_store (fst (Pit_erase r (nt, n)))) \<subseteq> dom (nt_store nt)"
proof -
  have k: "fst r \<in> dom (nt_store nt)"
    using assms(2) by (auto simp: pit_at_def nt_entry_of_def NtEntry_ctor_def split: prod.splits option.splits)
  have e: "erasePitEntry r nt = nt_update (fst r) f nt" if "f = (\<lambda>e. case find (\<lambda>pe. int_selectors (pit_interest pe) = snd r) (ent_pit e) of
       None \<Rightarrow> e | Some pe \<Rightarrow> e\<lparr>ent_pit := swap_remove pe (ent_pit e)\<rparr>)" for f
    unfolding that by (cases r) (simp add: erasePitEntry_def)
  have d: "dom (nt_store (erasePitEntry r nt)) = dom (nt_store nt)"
    unfolding e [OF refl] by (auto simp: nt_update_def)
  have "nt_inv city \<tau> (erasePitEntry r nt)" 
    unfolding e [OF refl] by (rule nt_update_inv [OF assms(1)]) (auto simp: keeps_links_def split: option.split)
  from eraseEntryIfEmpty_correct(4) [OF this, of "fst r"] k show ?thesis by (simp add: Pit_erase_def d)
qed

lemma fw_modify_dom: "dom (nt_store (fw_nt (fw_modify r f fw))) = dom (nt_store (fw_nt fw))"
  by (cases r) (auto simp: fw_modify_def pit_modify_def nt_update_def)

lemma finalize_dom:
  assumes "fw_inv env \<tau> fw" "fw_entry fw r = Some pe"
  shows "dom (nt_store (fw_nt (Forwarder_onInterestFinalize env r s p fw))) \<subseteq> dom (nt_store (fw_nt fw))"
proof -
  define fw1 where "fw1 = Forwarder_cancelUnsatisfyAndStragglerTimer r (Forwarder_insertDeadNonceList env pe s p None fw)"
  have "fw_nt fw1 = fw_nt (Forwarder_cancelUnsatisfyAndStragglerTimer r fw)"
    by (simp add: fw1_def insertDeadNonceList_eq Forwarder_cancelUnsatisfyAndStragglerTimer_def fw_modify_def)
  then have d: "dom (nt_store (fw_nt fw1)) = dom (nt_store (fw_nt fw))" 
     "nt_inv (env_city env) \<tau> (fw_nt fw1)" "pit_at r (fw_nt fw1) \<noteq> None"
    using setTimer_inv(3) [OF assms(1), of r] setTimer_entry(3) [of r fw r] assms(2)
    by (simp_all add: Forwarder_cancelUnsatisfyAndStragglerTimer_def fw_modify_dom fw_inv_def fw_entry_def del: not_None_eq)
  have "Forwarder_onInterestFinalize env r s p fw = (case Pit_erase r (fw_nt fw1, fw_nPit fw1) of (nt, n) \<Rightarrow> fw1\<lparr>fw_nt := nt, fw_nPit := n\<rparr>)"
    by (simp add: Forwarder_onInterestFinalize_def assms(2) fw1_def Let_def)
  then show ?thesis using Pit_erase_dom [OF d(2,3), of "fw_nPit fw1"] d(1) by (cases "Pit_erase r (fw_nt fw1, fw_nPit fw1)") simp
qed

lemma finalize_interest_ok:
  assumes "fw_inv env \<tau> fw" "fw_entry fw r = Some pe" "interest_ok \<tau> i fw"
  shows "interest_ok \<tau> i (Forwarder_onInterestFinalize env r s p fw)"
proof -
  have "finite (dom (nt_store (fw_nt fw)))" using assms(1) by (simp add: fw_inv_def nt_inv_def nt_table_inv_def)
  then show ?thesis
    using card_mono [OF _ finalize_dom [OF assms(1,2), of s p]] assms(3) by (simp add: interest_ok_def nt_room_def)
qed

text \<open>The nonces of an entry that expired stay known while the list has room for them.\<close>

lemma fold_add_has:
  assumes "x \<in> set ns" "length ns \<le> dnl_capacity d"
  shows "DeadNonceList_has c n x (fold (DeadNonceList_add c n) ns d)"
proof -
  obtain as bs where ns: "ns = as @ x # bs" using assms(1) by (metis split_list)
  have cap: "dnl_capacity (fold (DeadNonceList_add c n) us d) = dnl_capacity d" for us d
    by (induction us arbitrary: d) simp_all
  let ?d = "fold (DeadNonceList_add c n) as d"
  have "dnl_apply c \<circ> Add n = DeadNonceList_add c n" by (intro ext) simp
  then have adds: "fold (dnl_apply c) (map (Add n) us) = fold (DeadNonceList_add c n) us" for us by (simp add: fold_map)
  have "dnl_pushes ys < dnl_capacity (fold (dnl_apply c) ys (DeadNonceList_add c n x ?d))"
    if ys: "prefix ys (map (Add n) bs)" for ys
  proof -
    obtain us vs where "ys = map (Add n) us" "bs = us @ vs"
      using ys by (auto simp: prefix_def map_eq_append_conv)
    then show ?thesis using assms(2) by (simp add: ns adds cap comp_def)
  qed
  then show ?thesis
    using retention [of ?d "map (Add n) bs" c n x] assms(2) by (auto simp: ns cap adds)
qed

context forwarding_strategies
begin

lemma unsatisfied_eq: "Forwarder_onInterestUnsatisfied env strategies now r fw = Forwarder_onInterestFinalize env r False (-1) fw"
  by (simp add: Forwarder_onInterestUnsatisfied_def)

lemma no_loop_after_expiry:
  assumes "fw_inv env \<tau> fw" "fw_entry fw r = Some pe" "ur \<in> set (pit_outRecords pe)"
    and "length (pit_outRecords pe) \<le> dnl_capacity (fw_dnl fw)"
    and "fw1 = Forwarder_onInterestUnsatisfied env strategies now r fw"
    and "int_name i = fst r" "int_nonce i = rec_lastNonce ur" "interest_ok \<tau> i fw"
    and "fw2 = Forwarder_onIncomingInterest env strategies now' inFace i fw1"
  shows "fw_entry fw1 r = None" "fw_out fw2 = fw_out fw"
proof -
  note f = finalize_correct [OF assms(1,2), of fw1 False "-1"]
  have fw1: "fw1 = Forwarder_onInterestFinalize env r False (-1) fw" using assms(5) unsatisfied_eq by simp
  show "fw_entry fw1 r = None" using f(2) fw1 by simp
  have "dead_nonces pe False (-1) None (dnl_lifetime (fw_dnl fw)) = map rec_lastNonce (pit_outRecords pe)" by (simp add: dead_nonces_def)
  then have "DeadNonceList_has (env_citySeed env) (fst r) (rec_lastNonce ur) (fw_dnl fw1)"
    using f(4) fw1 fold_add_has [of "rec_lastNonce ur" "map rec_lastNonce (pit_outRecords pe)"] assms(3,4) by simp
  then have "known_nonce env i fw1" by (simp add: known_nonce_def assms(6,7))
  then show "fw_out fw2 = fw_out fw"
    using onIncomingInterest_loop(1) [OF f(1) finalize_interest_ok [OF assms(1,2,8), of False "-1", folded fw1] _ assms(9)] f(3) fw1 by simp
qed

text \<open>An Interest for a new name whose nonce is on the Dead Nonce List leaves an entry behind that no timer
  will remove.\<close>

lemma loop_leaves_entry:
  assumes "fw_inv env \<tau> fw" "interest_ok \<tau> i fw" "fw_entry fw (ref_of i) = None"
    and "DeadNonceList_has (env_citySeed env) (int_name i) (int_nonce i) (fw_dnl fw)"
    and "face_isLocal inFace \<or> \<not> Name_isPrefixOf LOCALHOST_NAME (int_name i)"
  shows "fw_entry (Forwarder_onIncomingInterest env strategies now inFace i fw) (ref_of i) = Some (PitEntry_ctor i)"
    "\<not> has_timer (PitEntry_ctor i)"
proof -
  have "known_nonce env i fw" using assms(4) by (simp add: known_nonce_def)
  then show "fw_entry (Forwarder_onIncomingInterest env strategies now inFace i fw) (ref_of i) = Some (PitEntry_ctor i)"
    using onIncomingInterest_unfold [OF assms(1,2,5), of now] assms(3) by auto
  show "\<not> has_timer (PitEntry_ctor i)" by (simp add: has_timer_def PitEntry_ctor_def)
qed

end

section \<open>Changes of the tables\<close>

text \<open>A change of the name tree that touches the PIT entries only in what strategies keep there.\<close>

lemma tables_ok:
  assumes "fw_inv env \<tau> fw" "timers_ok fw" "nt_inv (env_city env) \<tau> nt" "sc_inv \<tau> nt sc"
    and "\<And>k. pit_map nt k = pit_map (fw_nt fw) k \<or> pit_map nt k = map PitEntry_clearStrategyInfo (pit_map (fw_nt fw) k)"
    and "fw_nt fw' = nt" "fw_sc fw' = sc" "fw_dnl fw' = fw_dnl fw" "fw_cs fw' = fw_cs fw" "fw_out fw' = fw_out fw"
  shows "pipeline_ok env \<tau> fw fw'"
proof -
  let ?c = PitEntry_clearStrategyInfo
  have c: "pit_selectors (?c pe) = pit_selectors pe" "pit_interest (?c pe) = pit_interest pe" "pit_entry_inv (?c pe) = pit_entry_inv pe"
    "recs_ok k (?c pe) = recs_ok k pe" "pit_inRecords (?c pe) = [] \<longleftrightarrow> pit_inRecords pe = []"
    "pit_outRecords (?c pe) = [] \<longleftrightarrow> pit_outRecords pe = []" "has_timer (?c pe) = has_timer pe" for k pe
    by (simp_all add: PitEntry_clearStrategyInfo_def FaceRecord_clearStrategyInfo_def pit_selectors_def inv_simps has_timer_def
        recs_ok_def comp_def)
  have inv: "pit_inv (fw_nt fw)" using assms(1) by (simp add: fw_inv_def)
  have "pit_inv nt"
    unfolding pit_inv_def
  proof
    fix k
    show "distinct (map pit_selectors (pit_map nt k)) \<and> (\<forall>pe \<in> set (pit_map nt k). int_name (pit_interest pe) = k \<and>
        selectors_wf (pit_selectors pe) \<and> pit_entry_inv pe)"
      using assms(5) [of k] inv by (auto simp: pit_inv_def c comp_def)
  qed
  moreover have ent: "\<exists>pe0. fw_entry fw r = Some pe0 \<and> (pe = pe0 \<or> pe = ?c pe0)" if "fw_entry fw' r = Some pe" for r pe
  proof -
    obtain k s where r: "r = (k, s)" by (cases r)
    have "pe \<in> set (pit_map nt k)" "pit_selectors pe = s"
      using that \<open>pit_inv nt\<close> assms(6) pit_at_iff [of nt k s pe] by (auto simp: fw_entry_def r)
    then obtain pe0 where "pe0 \<in> set (pit_map (fw_nt fw) k)" "pit_selectors pe0 = s" "pe = pe0 \<or> pe = ?c pe0"
      using assms(5) [of k] by (auto simp: c)
    then show ?thesis using pit_at_iff [OF inv, of k s pe0] by (auto simp: fw_entry_def r)
  qed
  have "recs_ok (fst r) pe" if "fw_entry fw' r = Some pe" for r pe
    using ent [OF that] fw_inv_recs [OF assms(1), of r] by (auto simp: c)
  moreover have "timers_ok fw'"
    unfolding timers_ok_def
  proof (intro allI impI)
    fix r pe assume "fw_entry fw' r = Some pe"
    from ent [OF this] obtain pe0 where "fw_entry fw r = Some pe0" "pe = pe0 \<or> pe = ?c pe0" by blast
    then show "has_timer pe \<or> pit_inRecords pe = [] \<and> pit_outRecords pe = []"
      using timers_okD [OF assms(2), of r pe0] by (auto simp: c)
  qed
  ultimately show ?thesis using assms(1,3,4,6-10) by (simp add: pipeline_ok_def fw_inv_def)
qed

lemma fib_update_maps:
  assumes "nt_inv city \<tau> nt"
  shows "nt_inv city \<tau> (nt_update p (\<lambda>e. e\<lparr>ent_fib := g (ent_fib e)\<rparr>) nt)"
    "pit_map (nt_update p (\<lambda>e. e\<lparr>ent_fib := g (ent_fib e)\<rparr>) nt) = pit_map nt"
    "strategy_map (nt_update p (\<lambda>e. e\<lparr>ent_fib := g (ent_fib e)\<rparr>) nt) = strategy_map nt"
  using nt_update_inv [OF assms] by (simp_all add: table_maps_update_other)

lemma pipeline_ok_refl: "fw_inv env \<tau> fw \<Longrightarrow> timers_ok fw \<Longrightarrow> pipeline_ok env \<tau> fw fw"
  by (simp add: pipeline_ok_def)

text \<open>Changes that leave the PIT and the strategy choice alone.\<close>

lemma fib_change_ok:
  assumes "fw_inv env \<tau> fw" "timers_ok fw" "nt_inv (env_city env) \<tau> nt" "pit_map nt = pit_map (fw_nt fw)"
    "strategy_map nt = strategy_map (fw_nt fw)"
    and "fw_nt fw' = nt" "fw_sc fw' = fw_sc fw" "fw_dnl fw' = fw_dnl fw" "fw_cs fw' = fw_cs fw" "fw_out fw' = fw_out fw"
  shows "pipeline_ok env \<tau> fw fw'"
proof (rule tables_ok [OF assms(1-3) _ _ assms(6-10)])
  show "sc_inv \<tau> nt (fw_sc fw)" using assms(1) sc_inv_cong [OF assms(5)] by (simp add: fw_inv_def)
qed (simp add: assms(4))

lemma addNextHop_ok:
  assumes "fw_inv env \<tau> fw" "timers_ok fw" "prefix_ok env \<tau> p fw"
  shows "pipeline_ok env \<tau> fw (snd (FibManager_addNextHop env p faceId cost fw))"
proof (cases "FaceTable_get faceId fw")
  case (Some f)
  have "nt_inv (env_city env) \<tau> (fw_nt fw)" "typed \<tau> p" "nt_room (fw_nt fw) p" using assms(1,3) by (auto simp: fw_inv_def prefix_ok_def)
  from Fib_insert_correct [OF this, of "fw_nFib fw"] obtain nt fe new n where
    i: "Fib_insert (env_city env) p (fw_nt fw, fw_nFib fw) = ((fe, new), nt, n)" "nt_inv (env_city env) \<tau> nt"
      "pit_map nt = pit_map (fw_nt fw)" "strategy_map nt = strategy_map (fw_nt fw)"
    by (auto split: option.splits)
  note u = fib_update_maps [OF i(2), of p "map_option (FibEntry_addNextHop f cost)"]
  show ?thesis
    using u i(3,4) by (intro fib_change_ok [OF assms(1,2) u(1)]) (simp_all add: FibManager_addNextHop_def Some i(1))
qed (use pipeline_ok_refl [OF assms(1,2)] in \<open>simp add: FibManager_addNextHop_def\<close>)

lemma removeNextHop_ok:
  assumes "fw_inv env \<tau> fw" "timers_ok fw" "prefix_ok env \<tau> p fw"
  shows "pipeline_ok env \<tau> fw (snd (FibManager_removeNextHop env p faceId fw))"
proof (cases "FaceTable_get faceId fw = None \<or> Fib_findExactMatch (env_city env) p (fw_nt fw) = None")
  case False
  then obtain f fe where f: "FaceTable_get faceId fw = Some f" "Fib_findExactMatch (env_city env) p (fw_nt fw) = Some fe" by auto
  have inv: "nt_inv (env_city env) \<tau> (fw_nt fw)" "typed \<tau> p" using assms(1,3) by (auto simp: fw_inv_def prefix_ok_def)
  have has: "nt_has (fw_nt fw) p"
    using f(2) findExactMatch_has [OF inv] by (auto simp: Fib_findExactMatch_def split: if_splits)
  define nt where "nt = nt_update p (\<lambda>e. e\<lparr>ent_fib := map_option (FibEntry_removeNextHop f) (ent_fib e)\<rparr>) (fw_nt fw)"
  note u = fib_update_maps [OF inv(1), of p "map_option (FibEntry_removeNextHop f)", folded nt_def]
  have "nt_has nt p" using has by (simp add: nt_def)
  from Fib_erase_nte_correct [OF u(1) this, of "fw_nFib fw"] obtain nt2 where
    e: "Fib_erase_nte p (nt, fw_nFib fw) = (nt2, fw_nFib fw - 1)" "nt_inv (env_city env) \<tau> nt2" "pit_map nt2 = pit_map nt"
      "strategy_map nt2 = strategy_map nt" by blast
  show ?thesis
  proof (cases "fib_nextHops (FibEntry_removeNextHop f fe) = []")
    case True
    show ?thesis
      using u e by (intro fib_change_ok [OF assms(1,2) e(2)])
        (simp_all add: FibManager_removeNextHop_def f True nt_def [symmetric])
  next
    case False
    show ?thesis
      using u by (intro fib_change_ok [OF assms(1,2) u(1)])
        (simp_all add: FibManager_removeNextHop_def f False nt_def [symmetric])
  qed
qed (use pipeline_ok_refl [OF assms(1,2)] in \<open>auto simp: FibManager_removeNextHop_def split: option.split\<close>)

lemma face_ok:
  assumes "fw_inv env \<tau> fw" "timers_ok fw"
  shows "pipeline_ok env \<tau> fw (snd (FaceTable_add f fw))" "pipeline_ok env \<tau> fw (FaceTable_remove f fw)"
proof -
  show "pipeline_ok env \<tau> fw (snd (FaceTable_add f fw))"
    using assms by (simp add: FaceTable_add_def FaceTable_addImpl_def Let_def pipeline_ok_def fw_inv_def timers_ok_def fw_entry_def)
  have "nt_inv (env_city env) \<tau> (fw_nt fw)" using assms(1) by (simp add: fw_inv_def)
  from removeNextHopFromAllEntries_correct [OF this, of f "fw_nFib fw"] obtain nt n where
    r: "Fib_removeNextHopFromAllEntries f (fw_nt fw, fw_nFib fw) = (nt, n)" "nt_inv (env_city env) \<tau> nt"
      "pit_map nt = pit_map (fw_nt fw)" "strategy_map nt = strategy_map (fw_nt fw)" by blast
  then show "pipeline_ok env \<tau> fw (FaceTable_remove f fw)"
    by (intro fib_change_ok [OF assms r(2)]) (simp_all add: FaceTable_remove_def)
qed

lemma sc_changed_pit:
  "sc_changed nt p s nt' \<Longrightarrow> pit_map nt' k = pit_map nt k \<or> pit_map nt' k = map PitEntry_clearStrategyInfo (pit_map nt k)"
  by (simp add: sc_changed_def sc_cleared_iff)

lemma setStrategy_ok:
  assumes "fw_inv env \<tau> fw" "timers_ok fw" "prefix_ok env \<tau> p fw"
  shows "\<exists>code fw'. StrategyChoiceManager_setStrategy env p s fw = Some (code, fw') \<and> pipeline_ok env \<tau> fw fw'"
proof (cases "StrategyChoice_getStrategy s (fw_sc fw)")
  case None
  then show ?thesis using pipeline_ok_refl [OF assms(1,2)]
    by (simp add: StrategyChoiceManager_setStrategy_def StrategyChoice_hasStrategy_def)
next
  case (Some q)
  have "nt_inv (env_city env) \<tau> (fw_nt fw)" "sc_inv \<tau> (fw_nt fw) (fw_sc fw)" "typed \<tau> p" "nt_room (fw_nt fw) p"
    "prefix_hashes_distinct (env_city env) p" using assms(1,3) by (auto simp: fw_inv_def prefix_ok_def)
  from StrategyChoice_insert_correct [OF this Some] obtain nt sc where
    i: "StrategyChoice_insert (env_city env) p s (fw_nt fw, fw_sc fw) = Some (True, nt, sc)" "nt_inv (env_city env) \<tau> nt"
      "sc_inv \<tau> nt sc" "sc_changed (fw_nt fw) p (Some q) nt" by blast
  have "pipeline_ok env \<tau> fw (fw\<lparr>fw_nt := nt, fw_sc := sc\<rparr>)"
    by (rule tables_ok [OF assms(1,2) i(2,3) sc_changed_pit [OF i(4)]]) simp_all
  then show ?thesis by (simp add: StrategyChoiceManager_setStrategy_def StrategyChoice_hasStrategy_def Some i(1))
qed

lemma unsetStrategy_ok:
  assumes "fw_inv env \<tau> fw" "timers_ok fw" "prefix_ok env \<tau> p fw"
  shows "\<exists>code fw'. StrategyChoiceManager_unsetStrategy env p fw = Some (code, fw') \<and> pipeline_ok env \<tau> fw fw'"
proof (cases "p = []")
  case True
  then show ?thesis using pipeline_ok_refl [OF assms(1,2)] by (simp add: StrategyChoiceManager_unsetStrategy_def)
next
  case False
  have "nt_inv (env_city env) \<tau> (fw_nt fw)" "sc_inv \<tau> (fw_nt fw) (fw_sc fw)" "typed \<tau> p" "length p < npos"
    "prefix_hashes_distinct (env_city env) (butlast p)" using assms(1,3) by (auto simp: fw_inv_def prefix_ok_def)
  from StrategyChoice_erase_correct [OF this(1-3) False this(4,5)] obtain nt sc where
    i: "StrategyChoice_erase (env_city env) p (fw_nt fw, fw_sc fw) = Some (nt, sc)" "nt_inv (env_city env) \<tau> nt"
      "sc_inv \<tau> nt sc" "sc_changed (fw_nt fw) p None nt" by blast
  have "pipeline_ok env \<tau> fw (fw\<lparr>fw_nt := nt, fw_sc := sc\<rparr>)"
    by (rule tables_ok [OF assms(1,2) i(2,3) sc_changed_pit [OF i(4)]]) simp_all
  then show ?thesis by (simp add: StrategyChoiceManager_unsetStrategy_def False i(1))
qed

section \<open>Reachable states\<close>

lemma stale_ok:
  assumes "fw_inv env \<tau> fw" "timers_ok fw" "fifo_info (cs_policy (fw_cs fw)) k = Some (QUEUE_FIFO, m)"
  shows "pipeline_ok env \<tau> fw (fw\<lparr>fw_cs := Fifo_moveToStaleQueue k (fw_cs fw)\<rparr>)"
proof -
  have "cs_inv (env_sha256 env) fifo_tracks (fw_cs fw)" using assms(1) by (simp add: fw_inv_def)
  then have "cs_inv (env_sha256 env) fifo_tracks (Fifo_moveToStaleQueue k (fw_cs fw))"
    using Fifo_moveToStaleQueue_correct [OF _ assms(3), of "cs_keys (env_sha256 env) (fw_cs fw)"] by (auto simp: cs_inv_def)
  then show ?thesis using assms(1,2) by (simp add: pipeline_ok_def fw_inv_def fw_entry_def)
qed

context forwarding_strategies
begin

lemma step_ok:
  assumes "fw_step env strategies \<tau> fw fw'" "fw_inv env \<tau> fw" "timers_ok fw"
  shows "pipeline_ok env \<tau> fw fw'"
  using assms
proof (induction rule: fw_step.induct)
  case (step_interest i fw now inFace)
  then show ?case by (intro onIncomingInterest_ok)
next
  case (step_data d fw now inFace)
  then show ?case by (intro onIncomingData_ok)
next
  case (step_unsatisfied fw r pe now)
  then show ?case unfolding unsatisfied_eq by (intro finalize_ok)
next
  case (step_dnl fw x)
  have "dnl_inv (fw_dnl fw)" using step_dnl.prems(1) by (simp add: fw_inv_def)
  then show ?case using step_dnl.prems fw_inv_dnl [OF step_dnl.prems(1) dnl_inv_apply] by (simp add: pipeline_ok_def)
next
  case (step_stale fw k now)
  then show ?case using stale_ok by blast
next
  case (step_setStrategy p fw s code fw')
  then show ?case using setStrategy_ok [OF step_setStrategy.prems step_setStrategy.hyps(1), of s] by auto
next
  case (step_unsetStrategy p fw code fw')
  then show ?case using unsetStrategy_ok [OF step_unsetStrategy.prems step_unsetStrategy.hyps(1)] by auto
qed (blast intro: finalize_ok face_ok addNextHop_ok removeNextHop_ok)+

lemma reach_ok:
  assumes "fw_reach env strategies \<tau> fw fw'" "fw_inv env \<tau> fw" "timers_ok fw" "list_all scope_ok (fw_out fw)"
  shows "fw_inv env \<tau> fw' \<and> timers_ok fw' \<and> list_all scope_ok (fw_out fw')"
  using assms
proof (induction rule: fw_reach.induct)
  case (reach_step fw' fw'')
  then have p: "pipeline_ok env \<tau> fw' fw''" using step_ok by blast
  then show ?case using reach_step pipeline_ok_scope [OF p] by (simp add: pipeline_ok_def)
qed simp

end

section \<open>The initial state\<close>

lemma install_inv:
  assumes "sc_inv \<tau> nt sc" "typed \<tau> s" "length s \<le> npos"
  shows "sc_inv \<tau> nt (snd (StrategyChoice_install s sc))"
proof (cases "StrategyChoice_hasStrategy s True sc")
  case False
  let ?I = "sc_instances sc"
  have srt: "sorted_wrt (<) ?I" and len: "\<forall>x \<in> set ?I. length x \<le> npos" using assms(1) by (auto simp: sc_inv_def)
  have cmp: "Name_compare x s < 0 \<longleftrightarrow> x < s" if "x \<in> set ?I" for x using len assms(3) that by (simp add: Name_compare_lex)
  have tk: "takeWhile (\<lambda>x. Name_compare x s < 0) ?I = filter (\<lambda>x. x < s) ?I"
    and dr: "dropWhile (\<lambda>x. Name_compare x s < 0) ?I = filter (\<lambda>x. s \<le> x) ?I"
    using sorted_dropWhile_filter [of "\<lambda>x. x" ?I s] srt cmp
      takeWhile_cong [OF refl, of ?I "\<lambda>x. Name_compare x s < 0" "\<lambda>x. x < s"]
      dropWhile_cong [OF refl, of ?I "\<lambda>x. Name_compare x s < 0" "\<lambda>x. x < s"] by simp_all
  have "s \<notin> set ?I" using False len assms(3) by (auto simp: StrategyChoice_hasStrategy_def list_ex_iff Name_compare_lex)
  then have "sorted_wrt (<) (filter (\<lambda>x. x < s) ?I @ s # filter (\<lambda>x. s \<le> x) ?I)"
    using sorted_wrt_filter [OF srt] by (auto simp: sorted_wrt_append order.strict_iff_order)
  then show ?thesis
    using assms False unfolding StrategyChoice_install_def tk dr by (auto simp: sc_inv_def)
qed (use assms(1) in \<open>simp add: StrategyChoice_install_def\<close>)

lemma installStrategies_inv:
  assumes "sc_inv \<tau> nt (fw_sc fw)" "\<forall>s \<in> set factories. typed \<tau> s \<and> length s \<le> npos"
  shows "\<exists>sc. installStrategies factories fw = fw\<lparr>fw_sc := sc\<rparr> \<and> sc_inv \<tau> nt sc"
  using assms
proof (induction factories arbitrary: fw)
  case Nil
  then show ?case by (intro exI [of _ "fw_sc fw"]) (simp add: installStrategies_def)
next
  case (Cons s ss)
  let ?fw = "if \<not> StrategyChoice_hasStrategy s True (fw_sc fw) then fw\<lparr>fw_sc := snd (StrategyChoice_install s (fw_sc fw))\<rparr> else fw"
  have i: "installStrategies (s # ss) fw = installStrategies ss ?fw" by (simp add: installStrategies_def)
  have "sc_inv \<tau> nt (fw_sc ?fw)" using Cons.prems install_inv [of \<tau> nt "fw_sc fw" s] by auto
  from Cons.IH [OF this] Cons.prems(2) obtain sc where "installStrategies ss ?fw = ?fw\<lparr>fw_sc := sc\<rparr>" "sc_inv \<tau> nt sc" by auto
  then show ?case unfolding i by (intro exI [of _ sc]) (simp split: if_split)
qed

lemma ctor_maps:
  "pit_map (NameTree_ctor n) k = []" "strategy_map (NameTree_ctor n) k = None" "nt_room (NameTree_ctor n) []"
  by (simp_all add: pit_map_def strategy_map_def nt_tables_def NameTree_ctor_def nt_room_def)

lemma ctor_ok:
  assumes "\<forall>s \<in> set factories. typed \<tau> s \<and> length s \<le> npos" "typed \<tau> makeDefaultStrategy"
    and "DeadNonceList_ctor now lifetime = Inr d" "b \<le> 32"
    and "fw = Forwarder_ctor env factories (2 ^ b) nMaxPackets d rng c"
  shows "fw_inv env \<tau> fw \<and> timers_ok fw \<and> fw_out fw = []"
proof -
  obtain nt sc where sc: "StrategyChoice_ctor (env_city env) makeDefaultStrategy (NameTree_ctor (2 ^ b)) = (nt, sc)" by fastforce
  have "length makeDefaultStrategy \<le> npos"
    by (simp add: makeDefaultStrategy_def BestRouteStrategy2_STRATEGY_NAME_def nfd_strategy_name_def npos_def)
  note s = StrategyChoice_ctor_correct [OF nt_inv_ctor [OF assms(4)] ctor_maps(3) _ assms(2) this sc]
  have pit: "pit_map nt k = []" for k using s(4) ctor_maps by (simp add: ctor_maps)
  let ?cs = "Cs_ctor (PriorityFifoPolicy (env_sha256 env)) \<lparr>fifo_queues = \<lambda>_. [], fifo_info = \<lambda>_. None\<rparr> nMaxPackets"
  have cs: "cs_inv (env_sha256 env) fifo_tracks ?cs"
    by (simp add: Cs_ctor_def Policy_setLimit_def PriorityFifoPolicy_def Fifo_evictEntries_def cs_inv_def cs_sorted_def fifo_tracks_def)
  let ?fw = "\<lparr>fw_nt = nt, fw_nFib = 0, fw_nPit = 0, fw_cs = ?cs, fw_csFromNdnSim = c, fw_sc = sc, fw_dnl = d, fw_faces = \<lambda>_. None,
      fw_lastFaceId = FACEID_RESERVED_MAX, fw_nInInterests = 0, fw_nOutInterests = 0, fw_nInDatas = 0, fw_nOutDatas = 0,
      fw_rng = rng, fw_out = []\<rparr>"
  have "sc_inv \<tau> nt (fw_sc ?fw)" using s(2) ctor_maps(2) by simp
  from installStrategies_inv [OF this assms(1)] obtain sc' where
    i: "installStrategies factories ?fw = ?fw\<lparr>fw_sc := sc'\<rparr>" "sc_inv \<tau> nt sc'" by blast
  have fw: "\<exists>faces. fw = ?fw\<lparr>fw_sc := sc', fw_faces := faces\<rparr>"
    unfolding assms(5) Forwarder_ctor_def Let_def sc prod.case i(1)
    by (simp add: FaceTable_addReserved_def FaceTable_addImpl_def Let_def)
  then have e: "fw_nt fw = nt" "fw_sc fw = sc'" "fw_dnl fw = d" "fw_cs fw = ?cs" "fw_out fw = []" by auto
  have none: "fw_entry fw r = None" for r by (cases r) (simp add: fw_entry_def e pit_at_map pit)
  have "nt_inv (env_city env) \<tau> nt" using s(1) ctor_maps(2) by simp
  then have "fw_inv env \<tau> fw"
    using i(2) cs dnl_inv_ctor [OF assms(3)] by (simp add: fw_inv_def e none pit_inv_def pit)
  then show ?thesis by (simp add: timers_ok_def none e)
qed

end
