(* ===== verification/RttEstimators.thy ===== *)
theory RttEstimators
  imports TableEntries Complex_Main
begin

text \<open>
  Round trip time estimation of the simulator applications, from \<open>utils/ndn-rtt-estimator.cpp\<close> and
  \<open>ndn-rtt-mean-deviation.cpp\<close>. Floating point numbers are a type parameter, and the operations on them
  that the code uses, with the conversions \<open>ToDouble\<close> and \<open>FromDouble\<close> of \<open>ns3::Time\<close> to and from seconds,
  are a record: the lemmas hold for every arithmetic that is monotone as the locale \<open>double_arith\<close> says, of which
  exact arithmetic is an instance. A time is an integer number of nanoseconds. The comparison operators of \<open>ns3::SequenceNumber32\<close>
  that the base class uses are arguments.
\<close>

section \<open>Floating point\<close>

record 'd double_ops =
  d_ToDouble :: "int \<Rightarrow> 'd"
  d_FromDouble :: "'d \<Rightarrow> int"
  d_of_int :: "int \<Rightarrow> 'd"
  d_add :: "'d \<Rightarrow> 'd \<Rightarrow> 'd"
  d_mult :: "'d \<Rightarrow> 'd \<Rightarrow> 'd"
  d_div :: "'d \<Rightarrow> 'd \<Rightarrow> 'd"
  d_less :: "'d \<Rightarrow> 'd \<Rightarrow> bool"

text \<open>\<open>std::min\<close> and \<open>std::max\<close>.\<close>

definition d_min :: "('d, 'z) double_ops_scheme \<Rightarrow> 'd \<Rightarrow> 'd \<Rightarrow> 'd" where
  "d_min D a b = (if d_less D b a then b else a)"

definition d_max :: "('d, 'z) double_ops_scheme \<Rightarrow> 'd \<Rightarrow> 'd \<Rightarrow> 'd" where
  "d_max D a b = (if d_less D a b then b else a)"

section \<open>State\<close>

record rtt_history =
  hist_seq :: u32
  hist_count :: u32
  hist_time :: timepoint
  hist_retx :: bool

definition RttHistory_ctor :: "u32 \<Rightarrow> u32 \<Rightarrow> timepoint \<Rightarrow> rtt_history" where
  "RttHistory_ctor s c t = \<lparr>hist_seq = s, hist_count = c, hist_time = t, hist_retx = False\<rparr>"

record 'd rtt =
  rtt_next :: u32
  rtt_maxMultiplier :: u16
  rtt_initialEstimatedRtt :: int
  rtt_currentEstimatedRtt :: int
  rtt_minRto :: int
  rtt_maxRto :: int
  rtt_nSamples :: u32
  rtt_multiplier :: u16
  rtt_history :: "rtt_history list"
  rtt_gain :: 'd
  rtt_gain2 :: 'd
  rtt_variance :: int

definition seconds :: "int \<Rightarrow> int" where "seconds s = s * 1000000000"

text \<open>The attributes have their default values, except for the gains, which are the literals 0.125 and 0.25.\<close>

definition RttMeanDeviation_ctor :: "('d, 'z) double_ops_scheme \<Rightarrow> 'd rtt" where
  "RttMeanDeviation_ctor D = \<lparr>rtt_next = 1, rtt_maxMultiplier = 64, rtt_initialEstimatedRtt = seconds 4,
     rtt_currentEstimatedRtt = seconds 4, rtt_minRto = milliseconds 200, rtt_maxRto = seconds 200,
     rtt_nSamples = 0, rtt_multiplier = 1, rtt_history = [],
     rtt_gain = d_div D (d_of_int D 1) (d_of_int D 8), rtt_gain2 = d_div D (d_of_int D 1) (d_of_int D 4),
     rtt_variance = 0\<rparr>"

section \<open>The base class\<close>

definition RttEstimator_SetMinRto :: "int \<Rightarrow> 'd rtt \<Rightarrow> 'd rtt" where
  "RttEstimator_SetMinRto minRto r = r\<lparr>rtt_minRto := minRto\<rparr>"

definition RttEstimator_SetMaxRto :: "int \<Rightarrow> 'd rtt \<Rightarrow> 'd rtt" where
  "RttEstimator_SetMaxRto maxRto r = r\<lparr>rtt_maxRto := maxRto\<rparr>"

definition RttEstimator_SetCurrentEstimate :: "int \<Rightarrow> 'd rtt \<Rightarrow> 'd rtt" where
  "RttEstimator_SetCurrentEstimate estimate r = r\<lparr>rtt_currentEstimatedRtt := estimate\<rparr>"

record seq_ops =
  seq_ge :: "u32 \<Rightarrow> u32 \<Rightarrow> bool"
  seq_less :: "u32 \<Rightarrow> u32 \<Rightarrow> bool"
  seq_gt :: "u32 \<Rightarrow> u32 \<Rightarrow> bool"

text \<open>The search for the packet that is sent again: the history with the first entry that covers it marked, and the next
  sequence number expected.\<close>

fun mark_retx :: "seq_ops \<Rightarrow> u32 \<Rightarrow> u32 \<Rightarrow> u32 \<Rightarrow> rtt_history list \<Rightarrow> u32 \<times> rtt_history list" where
  "mark_retx Q sq sz nxt [] = (nxt, [])"
| "mark_retx Q sq sz nxt (i # is) =
     (if seq_ge Q sq (hist_seq i) \<and> seq_less Q sq (hist_seq i + hist_count i) then
        (if seq_gt Q (sq + sz) nxt
         then (sq + sz, i\<lparr>hist_retx := True, hist_count := (sq + sz) - hist_seq i\<rparr> # is)
         else (nxt, i\<lparr>hist_retx := True\<rparr> # is))
      else let (nxt', is') = mark_retx Q sq sz nxt is in (nxt', i # is'))"

definition RttEstimator_SentSeq :: "seq_ops \<Rightarrow> timepoint \<Rightarrow> u32 \<Rightarrow> u32 \<Rightarrow> 'd rtt \<Rightarrow> 'd rtt" where
  "RttEstimator_SentSeq Q now sq sz r =
     (if sq = rtt_next r
      then r\<lparr>rtt_history := rtt_history r @ [RttHistory_ctor sq sz now], rtt_next := sq + sz\<rparr>
      else let (nxt, hs) = mark_retx Q sq sz (rtt_next r) (rtt_history r)
           in r\<lparr>rtt_next := nxt, rtt_history := hs\<rparr>)"

definition RttEstimator_ResetMultiplier :: "'d rtt \<Rightarrow> 'd rtt" where
  "RttEstimator_ResetMultiplier r = r\<lparr>rtt_multiplier := 1\<rparr>"

text \<open>\<open>Measurement\<close> is virtual.\<close>

definition RttEstimator_AckSeq ::
    "seq_ops \<Rightarrow> (int \<Rightarrow> 'd rtt \<Rightarrow> 'd rtt) \<Rightarrow> timepoint \<Rightarrow> u32 \<Rightarrow> 'd rtt \<Rightarrow> int \<times> 'd rtt" where
  "RttEstimator_AckSeq Q measurement now ackSeq r =
     (case rtt_history r of
        [] \<Rightarrow> (0, r)
      | h # hs \<Rightarrow>
          let (m, r1) = (if \<not> hist_retx h \<and> seq_ge Q ackSeq (hist_seq h + hist_count h)
                         then (now - hist_time h, RttEstimator_ResetMultiplier (measurement (now - hist_time h) r))
                         else (0, r))
          in (m, r1\<lparr>rtt_history := dropWhile (\<lambda>h. \<not> seq_gt Q (hist_seq h + hist_count h) ackSeq) (rtt_history r1)\<rparr>))"

definition RttEstimator_ClearSent :: "'d rtt \<Rightarrow> 'd rtt" where
  "RttEstimator_ClearSent r = r\<lparr>rtt_next := 1, rtt_history := []\<rparr>"

text \<open>The product is computed in \<open>int\<close>, so it does not wrap around.\<close>

definition RttEstimator_IncreaseMultiplier :: "'d rtt \<Rightarrow> 'd rtt" where
  "RttEstimator_IncreaseMultiplier r =
     r\<lparr>rtt_multiplier := (if unat (rtt_multiplier r) * 2 < unat (rtt_maxMultiplier r)
                          then of_nat (unat (rtt_multiplier r) * 2) else rtt_maxMultiplier r)\<rparr>"

definition RttEstimator_Reset :: "'d rtt \<Rightarrow> 'd rtt" where
  "RttEstimator_Reset r = RttEstimator_ResetMultiplier
     (r\<lparr>rtt_next := 1, rtt_currentEstimatedRtt := rtt_initialEstimatedRtt r, rtt_history := [], rtt_nSamples := 0\<rparr>)"

section \<open>Mean and deviation\<close>

definition RttMeanDeviation_Measurement :: "('d, 'z) double_ops_scheme \<Rightarrow> int \<Rightarrow> 'd rtt \<Rightarrow> 'd rtt" where
  "RttMeanDeviation_Measurement D m r =
     (let r' = (if rtt_nSamples r \<noteq> 0 then
                  (let err = m - rtt_currentEstimatedRtt r;
                       gErr = d_mult D (d_ToDouble D err) (rtt_gain r);
                       difference = \<bar>err\<bar> - rtt_variance r
                   in r\<lparr>rtt_currentEstimatedRtt := rtt_currentEstimatedRtt r + d_FromDouble D gErr,
                        rtt_variance := rtt_variance r + d_FromDouble D (d_mult D (d_ToDouble D difference) (rtt_gain2 r))\<rparr>)
                else r\<lparr>rtt_currentEstimatedRtt := m,
                       rtt_variance := d_FromDouble D (d_div D (d_ToDouble D m) (d_of_int D 2))\<rparr>)
      in r'\<lparr>rtt_nSamples := rtt_nSamples r + 1\<rparr>)"

definition RttMeanDeviation_RetransmitTimeout :: "('d, 'z) double_ops_scheme \<Rightarrow> 'd rtt \<Rightarrow> int" where
  "RttMeanDeviation_RetransmitTimeout D r =
     (let mult = d_of_int D (uint (rtt_multiplier r));
          retval = d_min D (d_ToDouble D (rtt_maxRto r))
                     (d_max D (d_mult D mult (d_ToDouble D (rtt_minRto r)))
                        (d_mult D mult (d_add D (d_ToDouble D (rtt_currentEstimatedRtt r))
                                          (d_mult D (d_of_int D 4) (d_ToDouble D (rtt_variance r))))))
      in d_FromDouble D retval)"

definition RttMeanDeviation_Reset :: "'d rtt \<Rightarrow> 'd rtt" where
  "RttMeanDeviation_Reset r = RttEstimator_Reset (r\<lparr>rtt_variance := 0\<rparr>)"

definition RttMeanDeviation_Gain :: "'d \<Rightarrow> 'd rtt \<Rightarrow> 'd rtt" where
  "RttMeanDeviation_Gain g r = r\<lparr>rtt_gain := g\<rparr>"

definition RttMeanDeviation_SentSeq :: "timepoint \<Rightarrow> u32 \<Rightarrow> u32 \<Rightarrow> 'd rtt \<Rightarrow> 'd rtt" where
  "RttMeanDeviation_SentSeq now sq sz r =
     (if \<exists>h \<in> set (rtt_history r). hist_seq h = sq
      then r\<lparr>rtt_history := update_first (\<lambda>h. hist_seq h = sq) (\<lambda>h. h\<lparr>hist_retx := True\<rparr>) (rtt_history r)\<rparr>
      else r\<lparr>rtt_history := rtt_history r @ [RttHistory_ctor sq sz now]\<rparr>)"

text \<open>The history without its first entry for a sequence number.\<close>

fun erase_seq :: "u32 \<Rightarrow> rtt_history list \<Rightarrow> rtt_history list" where
  "erase_seq sq [] = []"
| "erase_seq sq (h # hs) = (if hist_seq h = sq then hs else h # erase_seq sq hs)"

definition RttMeanDeviation_AckSeq ::
    "('d, 'z) double_ops_scheme \<Rightarrow> timepoint \<Rightarrow> u32 \<Rightarrow> 'd rtt \<Rightarrow> int \<times> 'd rtt" where
  "RttMeanDeviation_AckSeq D now ackSeq r =
     (case find (\<lambda>h. hist_seq h = ackSeq) (rtt_history r) of
        None \<Rightarrow> (0, r)
      | Some i \<Rightarrow>
          let (m, r1) = (if \<not> hist_retx i
                         then (now - hist_time i, RttEstimator_ResetMultiplier (RttMeanDeviation_Measurement D (now - hist_time i) r))
                         else (0, r))
          in (m, r1\<lparr>rtt_history := erase_seq ackSeq (rtt_history r1)\<rparr>))"

section \<open>The history\<close>

text \<open>At most one entry per sequence number, and a multiplier from 1 to the maximum.\<close>

definition rtt_inv :: "'d rtt \<Rightarrow> bool" where
  "rtt_inv r \<longleftrightarrow> distinct (map hist_seq (rtt_history r)) \<and> 1 \<le> rtt_multiplier r \<and> rtt_multiplier r \<le> rtt_maxMultiplier r"

lemma erase_seq_filter: "distinct (map hist_seq hs) \<Longrightarrow> erase_seq sq hs = filter (\<lambda>h. hist_seq h \<noteq> sq) hs"
  by (induction hs) (auto intro!: filter_True [symmetric] simp: image_iff)

lemma map_seq_update [simp]:
  "map hist_seq (update_first P (\<lambda>h. h\<lparr>hist_retx := True\<rparr>) hs) = map hist_seq hs"
  by (rule map_update_first) simp

lemma Measurement_keeps [simp]:
  "rtt_history (RttMeanDeviation_Measurement D m r) = rtt_history r"
  "rtt_multiplier (RttMeanDeviation_Measurement D m r) = rtt_multiplier r"
  "rtt_maxMultiplier (RttMeanDeviation_Measurement D m r) = rtt_maxMultiplier r"
  by (simp_all add: RttMeanDeviation_Measurement_def Let_def)

lemma rtt_inv_ctor: "rtt_inv (RttMeanDeviation_ctor D)"
  by (simp add: rtt_inv_def RttMeanDeviation_ctor_def)

lemma SentSeq_inv: "rtt_inv r \<Longrightarrow> rtt_inv (RttMeanDeviation_SentSeq now sq sz r)"
  by (auto simp: rtt_inv_def RttMeanDeviation_SentSeq_def RttHistory_ctor_def)

lemma IncreaseMultiplier_inv:
  assumes "rtt_inv r"
  shows "rtt_inv (RttEstimator_IncreaseMultiplier r)"
    "unat (rtt_multiplier (RttEstimator_IncreaseMultiplier r)) = min (unat (rtt_maxMultiplier r)) (2 * unat (rtt_multiplier r))"
proof -
  have "unat (of_nat (unat (rtt_multiplier r) * 2) :: u16) = unat (rtt_multiplier r) * 2"
    if "unat (rtt_multiplier r) * 2 < unat (rtt_maxMultiplier r)"
    using that unsigned_less [of "rtt_maxMultiplier r", where 'a = nat] by (simp add: unat_of_nat del: of_nat_mult)
  moreover have "1 \<le> unat (rtt_multiplier r)" using assms by (simp add: rtt_inv_def word_le_nat_alt)
  ultimately show "rtt_inv (RttEstimator_IncreaseMultiplier r)"
    "unat (rtt_multiplier (RttEstimator_IncreaseMultiplier r)) = min (unat (rtt_maxMultiplier r)) (2 * unat (rtt_multiplier r))"
    using assms by (auto simp: rtt_inv_def RttEstimator_IncreaseMultiplier_def word_le_nat_alt min_def)
qed

lemma AckSeq_inv: "rtt_inv r \<Longrightarrow> rtt_inv (snd (RttMeanDeviation_AckSeq D now sq r))"
  by (auto simp: rtt_inv_def RttMeanDeviation_AckSeq_def RttEstimator_ResetMultiplier_def erase_seq_filter distinct_map_filter
      split: option.split)

lemma Reset_inv: "1 \<le> rtt_maxMultiplier r \<Longrightarrow> rtt_inv (RttMeanDeviation_Reset r)"
  by (simp add: rtt_inv_def RttMeanDeviation_Reset_def RttEstimator_Reset_def RttEstimator_ResetMultiplier_def)

text \<open>Karn's rule: a sample is taken from the packet acknowledged if it was sent once, and the packet leaves the history.\<close>

lemma AckSeq_correct:
  assumes "rtt_inv r" "RttMeanDeviation_AckSeq D now sq r = (m, r')"
  shows "rtt_history r' = filter (\<lambda>h. hist_seq h \<noteq> sq) (rtt_history r)"
    "\<And>h. h \<in> set (rtt_history r) \<Longrightarrow> hist_seq h = sq \<Longrightarrow> \<not> hist_retx h \<Longrightarrow>
       m = now - hist_time h \<and> rtt_multiplier r' = 1 \<and>
       rtt_currentEstimatedRtt r' = rtt_currentEstimatedRtt (RttMeanDeviation_Measurement D m r)"
    "\<forall>h \<in> set (rtt_history r). hist_seq h = sq \<longrightarrow> hist_retx h \<Longrightarrow>
       rtt_currentEstimatedRtt r' = rtt_currentEstimatedRtt r \<and> rtt_variance r' = rtt_variance r \<and> rtt_multiplier r' = rtt_multiplier r"
proof -
  have d: "distinct (map hist_seq (rtt_history r))" using assms(1) by (simp add: rtt_inv_def)
  show h': "rtt_history r' = filter (\<lambda>h. hist_seq h \<noteq> sq) (rtt_history r)"
    using assms(2) d by (auto simp: RttMeanDeviation_AckSeq_def RttEstimator_ResetMultiplier_def erase_seq_filter find_None_iff
        split: option.splits if_splits intro!: filter_True [symmetric])
  have f: "find (\<lambda>h. hist_seq h = sq) (rtt_history r) = Some h" if h: "h \<in> set (rtt_history r)" "hist_seq h = sq" for h
  proof -
    obtain i where i: "find (\<lambda>h. hist_seq h = sq) (rtt_history r) = Some i"
      using h by (cases "find (\<lambda>h. hist_seq h = sq) (rtt_history r)") (auto simp: find_None_set)
    then have "i \<in> set (rtt_history r)" "hist_seq i = sq" by (auto dest: find_Some_set)
    then show ?thesis using i h d by (auto simp: distinct_map inj_on_def)
  qed
  show "m = now - hist_time h \<and> rtt_multiplier r' = 1 \<and>
       rtt_currentEstimatedRtt r' = rtt_currentEstimatedRtt (RttMeanDeviation_Measurement D m r)"
    if "h \<in> set (rtt_history r)" "hist_seq h = sq" "\<not> hist_retx h" for h
    using assms(2) f [OF that(1,2)] that(3) by (auto simp: RttMeanDeviation_AckSeq_def RttEstimator_ResetMultiplier_def)
  assume a: "\<forall>h \<in> set (rtt_history r). hist_seq h = sq \<longrightarrow> hist_retx h"
  show "rtt_currentEstimatedRtt r' = rtt_currentEstimatedRtt r \<and> rtt_variance r' = rtt_variance r \<and> rtt_multiplier r' = rtt_multiplier r"
    using assms(2) a by (auto simp: RttMeanDeviation_AckSeq_def split: option.splits if_splits dest!: find_Some_set)
qed

lemma AckSeq_absent: "\<forall>h \<in> set (rtt_history r). hist_seq h \<noteq> sq \<Longrightarrow> RttMeanDeviation_AckSeq D now sq r = (0, r)"
  by (simp add: RttMeanDeviation_AckSeq_def find_None_set split: option.split) (auto dest: find_Some_set)

section \<open>The retransmission timeout\<close>

locale double_arith =
  fixes D :: "('d, 'z) double_ops_scheme"
  assumes from_less: "d_less D a b \<Longrightarrow> d_FromDouble D a \<le> d_FromDouble D b"
    and from_not_less: "\<not> d_less D a b \<Longrightarrow> d_FromDouble D b \<le> d_FromDouble D a"
begin

lemma from_min: "d_FromDouble D (d_min D a b) = min (d_FromDouble D a) (d_FromDouble D b)"
  using from_less [of b a] from_not_less [of b a] by (auto simp: d_min_def min_def)

lemma from_max: "d_FromDouble D (d_max D a b) = max (d_FromDouble D a) (d_FromDouble D b)"
  using from_less [of a b] from_not_less [of a b] by (auto simp: d_max_def max_def)

lemma rto_bounds:
  assumes "minimum = d_FromDouble D (d_mult D (d_of_int D (uint (rtt_multiplier r))) (d_ToDouble D (rtt_minRto r)))"
    and "maximum = d_FromDouble D (d_ToDouble D (rtt_maxRto r))"
  shows "min minimum maximum \<le> RttMeanDeviation_RetransmitTimeout D r" "RttMeanDeviation_RetransmitTimeout D r \<le> maximum"
  unfolding assms RttMeanDeviation_RetransmitTimeout_def Let_def from_min from_max by auto

end

definition exact_double :: "real double_ops" where
  "exact_double = \<lparr>d_ToDouble = \<lambda>t. real_of_int t / 10 ^ 9, d_FromDouble = \<lambda>x. \<lfloor>x * 10 ^ 9\<rfloor>, d_of_int = real_of_int,
     d_add = (+), d_mult = (*), d_div = (/), d_less = (<)\<rparr>"

interpretation exact: double_arith exact_double
  by unfold_locales (simp_all add: exact_double_def floor_mono)

end
