(* ===== verification/Consumers.thy ===== *)
theory Consumers
  imports RttEstimators Packets "HOL-Library.Monad_Syntax"
begin

text \<open>
  The consumer applications of the simulator: \<open>apps/ndn-consumer.cpp\<close> with its subclasses \<open>ndn-consumer-window.cpp\<close>,
  \<open>FullyDistributed.cpp\<close> (the NCFCC consumer), \<open>ndn-consumer-cbr.cpp\<close>, \<open>ndn-consumer-batches.cpp\<close> and
  \<open>ndn-consumer-zipf-mandelbrot.cpp\<close>, and the base class \<open>ndn-app.cpp\<close>. A subclass extends the record of its
  base class; its virtual functions are a record that the functions of the base class are given. The scheduler of ns-3 is
  a record of its operations on a state of its own, and floating point is one as in \<open>RttEstimators\<close>. A
  \<open>std::set\<close> is the list of its elements in order, and the multi-index container of sequence numbers and times is the list in the
  order of its time index. What is sent through the face is recorded in \<open>con_out\<close>; the trace sources are not part of the state.
\<close>

section \<open>The environment\<close>

datatype app_event = Ev_SendPacket | Ev_CheckRetxTimeout | Ev_AddBatch u32

record 's simulator =
  sim_Now :: "'s \<Rightarrow> timepoint"
  sim_Schedule :: "int \<Rightarrow> app_event \<Rightarrow> 's \<Rightarrow> nat \<times> 's"
  sim_Remove :: "nat \<Rightarrow> 's \<Rightarrow> 's"
  sim_Cancel :: "nat \<Rightarrow> 's \<Rightarrow> 's"
  sim_IsRunning :: "nat \<Rightarrow> 's \<Rightarrow> bool"

record 'd app_double = "'d double_ops" +
  d_le :: "'d \<Rightarrow> 'd \<Rightarrow> bool"
  d_eq :: "'d \<Rightarrow> 'd \<Rightarrow> bool"
  d_pow :: "'d \<Rightarrow> 'd \<Rightarrow> 'd"
  d_Floor :: "'d \<Rightarrow> u32"

record ('d, 's) app_env =
  env_dbl :: "'d app_double"
  env_sim :: "'s simulator"
  env_uniform :: "'d \<Rightarrow> 'd \<Rightarrow> nat \<Rightarrow> 'd"
  env_exponential :: "'d \<Rightarrow> 'd \<Rightarrow> nat \<Rightarrow> 'd"

section \<open>Containers\<close>

definition set_insert :: "u32 \<Rightarrow> u32 list \<Rightarrow> u32 list" where
  "set_insert x xs = (if x \<in> set xs then xs else insort x xs)"

definition set_erase :: "u32 \<Rightarrow> u32 list \<Rightarrow> u32 list" where
  "set_erase x xs = removeAll x xs"

type_synonym seq_timeouts = "(u32 \<times> timepoint) list"

text \<open>An element whose sequence number is present is not inserted; one with the time of others goes after them.\<close>

definition st_insert :: "u32 \<Rightarrow> timepoint \<Rightarrow> seq_timeouts \<Rightarrow> seq_timeouts" where
  "st_insert sq t m = (if sq \<in> fst ` set m then m
     else takeWhile (\<lambda>e. snd e \<le> t) m @ (sq, t) # dropWhile (\<lambda>e. snd e \<le> t) m)"

definition st_erase :: "u32 \<Rightarrow> seq_timeouts \<Rightarrow> seq_timeouts" where
  "st_erase sq m = filter (\<lambda>e. fst e \<noteq> sq) m"

section \<open>Consumer\<close>

record ('d, 's) consumer =
  con_active :: bool
  con_seq :: u32
  con_seqMax :: u32
  con_sendEvent :: "nat option"
  con_retxTimer :: int
  con_retxEvent :: "nat option"
  con_rtt :: "'d rtt"
  con_interestName :: name
  con_interestLifeTime :: int
  con_retxSeqs :: "u32 list"
  con_seqTimeouts :: seq_timeouts
  con_seqLastDelay :: seq_timeouts
  con_seqFullDelay :: seq_timeouts
  con_seqRetxCounts :: "u32 \<Rightarrow> u32 option"
  con_rng :: "nat \<Rightarrow> u32"
  con_sim :: 's
  con_out :: "interest list"

definition max_u32 :: u32 where "max_u32 = - 1"

text \<open>The virtual functions.\<close>

record ('d, 's, 'z) consumer_vt =
  vt_ScheduleNextPacket :: "('d, 's, 'z) consumer_scheme \<Rightarrow> ('d, 's, 'z) consumer_scheme"
  vt_OnTimeout :: "u32 \<Rightarrow> ('d, 's, 'z) consumer_scheme \<Rightarrow> ('d, 's, 'z) consumer_scheme"
  vt_WillSendOutInterest :: "u32 \<Rightarrow> ('d, 's, 'z) consumer_scheme \<Rightarrow> ('d, 's, 'z) consumer_scheme"
  vt_OnData :: "data \<Rightarrow> ('d, 's, 'z) consumer_scheme \<Rightarrow> ('d, 's, 'z) consumer_scheme result"

text \<open>Calls of the simulator. An event identifier that was never set is not running, and removing it does nothing.\<close>

definition app_now :: "('d, 's) app_env \<Rightarrow> ('d, 's, 'z) consumer_scheme \<Rightarrow> timepoint" where
  "app_now env c = sim_Now (env_sim env) (con_sim c)"

definition app_IsRunning :: "('d, 's) app_env \<Rightarrow> nat option \<Rightarrow> ('d, 's, 'z) consumer_scheme \<Rightarrow> bool" where
  "app_IsRunning env ev c = (case ev of None \<Rightarrow> False | Some e \<Rightarrow> sim_IsRunning (env_sim env) e (con_sim c))"

definition app_Remove ::
    "('d, 's) app_env \<Rightarrow> nat option \<Rightarrow> ('d, 's, 'z) consumer_scheme \<Rightarrow> ('d, 's, 'z) consumer_scheme" where
  "app_Remove env ev c = (case ev of None \<Rightarrow> c | Some e \<Rightarrow> c\<lparr>con_sim := sim_Remove (env_sim env) e (con_sim c)\<rparr>)"

definition app_scheduleSend ::
    "('d, 's) app_env \<Rightarrow> int \<Rightarrow> ('d, 's, 'z) consumer_scheme \<Rightarrow> ('d, 's, 'z) consumer_scheme" where
  "app_scheduleSend env delay c =
     (let (e, s) = sim_Schedule (env_sim env) delay Ev_SendPacket (con_sim c) in c\<lparr>con_sendEvent := Some e, con_sim := s\<rparr>)"

definition app_scheduleCheck ::
    "('d, 's) app_env \<Rightarrow> int \<Rightarrow> ('d, 's, 'z) consumer_scheme \<Rightarrow> ('d, 's, 'z) consumer_scheme" where
  "app_scheduleCheck env delay c =
     (let (e, s) = sim_Schedule (env_sim env) delay Ev_CheckRetxTimeout (con_sim c) in c\<lparr>con_retxEvent := Some e, con_sim := s\<rparr>)"

definition Consumer_rto :: "('d, 's) app_env \<Rightarrow> ('d, 's, 'z) consumer_scheme \<Rightarrow> int" where
  "Consumer_rto env c = RttMeanDeviation_RetransmitTimeout (env_dbl env) (con_rtt c)"

definition Consumer_SetRetxTimer ::
    "('d, 's) app_env \<Rightarrow> int \<Rightarrow> ('d, 's, 'z) consumer_scheme \<Rightarrow> ('d, 's, 'z) consumer_scheme" where
  "Consumer_SetRetxTimer env retxTimer c =
     (let c1 = c\<lparr>con_retxTimer := retxTimer\<rparr>;
          c2 = (if app_IsRunning env (con_retxEvent c1) c1 then app_Remove env (con_retxEvent c1) c1 else c1)
      in app_scheduleCheck env (con_retxTimer c2) c2)"

text \<open>The loop over the packets in the order of their times.\<close>

partial_function (option) retx_loop ::
    "('d, 's, 'z) consumer_vt \<Rightarrow> int \<Rightarrow> timepoint \<Rightarrow> ('d, 's, 'z) consumer_scheme \<Rightarrow> ('d, 's, 'z) consumer_scheme option" where
  "retx_loop vt rto now c = (case con_seqTimeouts c of
       [] \<Rightarrow> Some c
     | entry # rest \<Rightarrow>
         if snd entry + rto \<le> now
         then retx_loop vt rto now (vt_OnTimeout vt (fst entry) (c\<lparr>con_seqTimeouts := rest\<rparr>))
         else Some c)"

definition Consumer_CheckRetxTimeout ::
    "('d, 's) app_env \<Rightarrow> ('d, 's, 'z) consumer_vt \<Rightarrow> ('d, 's, 'z) consumer_scheme \<Rightarrow> ('d, 's, 'z) consumer_scheme option" where
  "Consumer_CheckRetxTimeout env vt c =
     do { c1 \<leftarrow> retx_loop vt (Consumer_rto env c) (app_now env c) c;
          Some (app_scheduleCheck env (con_retxTimer c1) c1) }"

definition App_StartApplication :: "('d, 's, 'z) consumer_scheme \<Rightarrow> ('d, 's, 'z) consumer_scheme" where
  "App_StartApplication c = c\<lparr>con_active := True\<rparr>"

definition App_StopApplication :: "('d, 's, 'z) consumer_scheme \<Rightarrow> ('d, 's, 'z) consumer_scheme" where
  "App_StopApplication c = (if \<not> con_active c then c else c\<lparr>con_active := False\<rparr>)"

definition Consumer_StartApplication ::
    "('d, 's, 'z) consumer_vt \<Rightarrow> ('d, 's, 'z) consumer_scheme \<Rightarrow> ('d, 's, 'z) consumer_scheme" where
  "Consumer_StartApplication vt c = vt_ScheduleNextPacket vt (App_StartApplication c)"

definition Consumer_StopApplication ::
    "('d, 's) app_env \<Rightarrow> ('d, 's, 'z) consumer_scheme \<Rightarrow> ('d, 's, 'z) consumer_scheme" where
  "Consumer_StopApplication env c = App_StopApplication
     (case con_sendEvent c of None \<Rightarrow> c | Some e \<Rightarrow> c\<lparr>con_sim := sim_Cancel (env_sim env) e (con_sim c)\<rparr>)"

text \<open>The Interest for a sequence number, with a nonce from the random number generator.\<close>

definition Consumer_makeInterest :: "u32 \<Rightarrow> ('d, 's, 'z) consumer_scheme \<Rightarrow> interest result" where
  "Consumer_makeInterest sq c =
     bind_result (Component_fromSequenceNumber (ucast sq)) (\<lambda>comp.
       Inr \<lparr>int_name = con_interestName c @ [comp], int_selectors = Selectors_ctor, int_nonce = con_rng c 0,
            int_lifetime = con_interestLifeTime c div 1000000, int_nextHopFaceId = None\<rparr>)"

definition Consumer_sendInterest ::
    "('d, 's, 'z) consumer_vt \<Rightarrow> u32 \<Rightarrow> ('d, 's, 'z) consumer_scheme \<Rightarrow> ('d, 's, 'z) consumer_scheme result" where
  "Consumer_sendInterest vt sq c =
     bind_result (Consumer_makeInterest sq c) (\<lambda>i.
       let c1 = c\<lparr>con_rng := \<lambda>n. con_rng c (Suc n)\<rparr>;
           c2 = vt_WillSendOutInterest vt sq c1;
           c3 = c2\<lparr>con_out := con_out c2 @ [i]\<rparr>
       in Inr (vt_ScheduleNextPacket vt c3))"

definition Consumer_takeRetx :: "('d, 's, 'z) consumer_scheme \<Rightarrow> u32 \<times> ('d, 's, 'z) consumer_scheme" where
  "Consumer_takeRetx c = (case con_retxSeqs c of
       [] \<Rightarrow> (max_u32, c)
     | sq # rest \<Rightarrow> (sq, c\<lparr>con_retxSeqs := rest\<rparr>))"

definition Consumer_SendPacket ::
    "('d, 's, 'z) consumer_vt \<Rightarrow> ('d, 's, 'z) consumer_scheme \<Rightarrow> ('d, 's, 'z) consumer_scheme result" where
  "Consumer_SendPacket vt c =
     (if \<not> con_active c then Inr c
      else let (sq, c1) = Consumer_takeRetx c
           in if sq = max_u32 then
                (if con_seqMax c1 \<noteq> max_u32 \<and> con_seq c1 \<ge> con_seqMax c1 then Inr c1
                 else Consumer_sendInterest vt (con_seq c1) (c1\<lparr>con_seq := con_seq c1 + 1\<rparr>))
              else Consumer_sendInterest vt sq c1)"

text \<open>The second \<open>AckSeq\<close> is the one of the code that computes an unused timeout.\<close>

definition Consumer_OnData ::
    "('d, 's) app_env \<Rightarrow> data \<Rightarrow> ('d, 's, 'z) consumer_scheme \<Rightarrow> ('d, 's, 'z) consumer_scheme result" where
  "Consumer_OnData env d c =
     (if \<not> con_active c then Inr c
      else bind_result (bind_result (Name_at (data_name d) (-1)) Component_toSequenceNumber) (\<lambda>n.
        let sq = ucast n;
            now = app_now env c;
            rtt1 = snd (RttMeanDeviation_AckSeq (env_dbl env) now sq (con_rtt c));
            rtt2 = snd (RttMeanDeviation_AckSeq (env_dbl env) now sq rtt1)
        in Inr (c\<lparr>con_seqRetxCounts := (con_seqRetxCounts c)(sq := None),
                  con_seqFullDelay := st_erase sq (con_seqFullDelay c),
                  con_seqLastDelay := st_erase sq (con_seqLastDelay c),
                  con_seqTimeouts := st_erase sq (con_seqTimeouts c),
                  con_retxSeqs := set_erase sq (con_retxSeqs c),
                  con_rtt := rtt2\<rparr>)))"

definition RSR_NAME :: name where "RSR_NAME = [Component tlv_NameComponent (bytes_of ''RSR'')]"

definition Consumer_OnRsr ::
    "('d, 's, 'z) consumer_vt \<Rightarrow> interest \<Rightarrow> ('d, 's, 'z) consumer_scheme \<Rightarrow> ('d, 's, 'z) consumer_scheme" where
  "Consumer_OnRsr vt i c = (if Name_equals (int_name i) RSR_NAME then vt_ScheduleNextPacket vt c else c)"

definition Consumer_OnTimeout ::
    "('d, 's) app_env \<Rightarrow> ('d, 's, 'z) consumer_vt \<Rightarrow> u32 \<Rightarrow> ('d, 's, 'z) consumer_scheme \<Rightarrow> ('d, 's, 'z) consumer_scheme" where
  "Consumer_OnTimeout env vt sq c =
     (let r1 = RttEstimator_IncreaseMultiplier (con_rtt c);
          r2 = RttMeanDeviation_SentSeq (app_now env c) sq 1 r1
      in vt_ScheduleNextPacket vt (c\<lparr>con_rtt := r2, con_retxSeqs := set_insert sq (con_retxSeqs c)\<rparr>))"

definition Consumer_OnTimeout1 ::
    "('d, 's) app_env \<Rightarrow> ('d, 's, 'z) consumer_vt \<Rightarrow> u32 \<Rightarrow> ('d, 's, 'z) consumer_scheme \<Rightarrow> ('d, 's, 'z) consumer_scheme" where
  "Consumer_OnTimeout1 env vt sq c =
     (let r1 = RttEstimator_IncreaseMultiplier (con_rtt c);
          r2 = RttMeanDeviation_SentSeq (app_now env c) sq 1 r1
      in vt_ScheduleNextPacket vt (c\<lparr>con_rtt := r2, con_retxSeqs := set_insert sq (con_retxSeqs c)\<rparr>))"

definition Consumer_fast_retransmission ::
    "('d, 's) app_env \<Rightarrow> ('d, 's, 'z) consumer_vt \<Rightarrow> u32 \<Rightarrow> ('d, 's, 'z) consumer_scheme \<Rightarrow> ('d, 's, 'z) consumer_scheme" where
  "Consumer_fast_retransmission env vt sq c =
     (let rto = 3 * Consumer_rto env c;
          c1 = c\<lparr>con_rtt := RttMeanDeviation_SentSeq (app_now env c) sq 1 (con_rtt c),
                 con_retxSeqs := set_insert sq (con_retxSeqs c)\<rparr>
      in app_scheduleCheck env rto (vt_ScheduleNextPacket vt c1))"

definition Consumer_WillSendOutInterest ::
    "('d, 's) app_env \<Rightarrow> u32 \<Rightarrow> ('d, 's, 'z) consumer_scheme \<Rightarrow> ('d, 's, 'z) consumer_scheme" where
  "Consumer_WillSendOutInterest env sq c =
     (let now = app_now env c
      in c\<lparr>con_seqTimeouts := st_insert sq now (con_seqTimeouts c),
           con_seqFullDelay := st_insert sq now (con_seqFullDelay c),
           con_seqLastDelay := st_insert sq now (st_erase sq (con_seqLastDelay c)),
           con_seqRetxCounts := (con_seqRetxCounts c)(sq \<mapsto> (case con_seqRetxCounts c sq of None \<Rightarrow> 0 | Some n \<Rightarrow> n) + 1),
           con_rtt := RttMeanDeviation_SentSeq now sq 1 (con_rtt c)\<rparr>)"

lemma max_u32_greater [simp]: "0 < max_u32" "1 < max_u32"
  by (simp_all add: max_u32_def word_less_def uint_word_ariths)

section \<open>What a class of consumers keeps\<close>

text \<open>The part of the state that decides what is requested.\<close>

record core =
  co_active :: bool
  co_seq :: u32
  co_seqMax :: u32
  co_name :: name
  co_retx :: "u32 list"
  co_timeouts :: seq_timeouts
  co_out :: "interest list"

definition core_of :: "('d, 's, 'z) consumer_scheme \<Rightarrow> core" where
  "core_of c = \<lparr>co_active = con_active c, co_seq = con_seq c, co_seqMax = con_seqMax c, co_name = con_interestName c,
     co_retx = con_retxSeqs c, co_timeouts = con_seqTimeouts c, co_out = con_out c\<rparr>"

lemma core_of_simps [simp]:
  "co_active (core_of c) = con_active c" "co_seq (core_of c) = con_seq c" "co_seqMax (core_of c) = con_seqMax c"
  "co_name (core_of c) = con_interestName c" "co_retx (core_of c) = con_retxSeqs c" "co_timeouts (core_of c) = con_seqTimeouts c"
  "co_out (core_of c) = con_out c"
  by (simp_all add: core_of_def)

lemma core_of_update [simp]:
  "core_of (c\<lparr>con_retxSeqs := a\<rparr>) = (core_of c)\<lparr>co_retx := a\<rparr>" "core_of (c\<lparr>con_seqTimeouts := b\<rparr>) = (core_of c)\<lparr>co_timeouts := b\<rparr>"
  "core_of (c\<lparr>con_seq := k\<rparr>) = (core_of c)\<lparr>co_seq := k\<rparr>" "core_of (c\<lparr>con_out := os\<rparr>) = (core_of c)\<lparr>co_out := os\<rparr>"
  "core_of (c\<lparr>con_active := x\<rparr>) = (core_of c)\<lparr>co_active := x\<rparr>"
  "core_of (c\<lparr>con_rtt := r\<rparr>) = core_of c" "core_of (c\<lparr>con_sim := sm\<rparr>) = core_of c" "core_of (c\<lparr>con_sendEvent := e\<rparr>) = core_of c"
  "core_of (c\<lparr>con_retxEvent := f\<rparr>) = core_of c" "core_of (c\<lparr>con_retxTimer := tm\<rparr>) = core_of c" "core_of (c\<lparr>con_rng := g\<rparr>) = core_of c"
  "core_of (c\<lparr>con_seqLastDelay := l\<rparr>) = core_of c" "core_of (c\<lparr>con_seqFullDelay := l\<rparr>) = core_of c"
  "core_of (c\<lparr>con_seqRetxCounts := rc\<rparr>) = core_of c"
  by (simp_all add: core_of_def)

lemma core_of_app [simp]:
  "core_of (app_Remove env ev c) = core_of c" "core_of (app_scheduleSend env delay c) = core_of c"
  "core_of (app_scheduleCheck env delay c) = core_of c"
  by (simp_all add: app_Remove_def app_scheduleSend_def app_scheduleCheck_def split: option.split prod.split)

text \<open>The sequence number of a Data packet.\<close>

definition data_seq :: "data \<Rightarrow> u32 result" where
  "data_seq d = bind_result (bind_result (Name_at (data_name d) (-1)) Component_toSequenceNumber) (\<lambda>n. Inr (ucast n))"

text \<open>What one call of \<open>SendPacket\<close> requests: the least number to be sent again, else the next new one, as long as there is one.\<close>

definition next_request :: "core \<Rightarrow> u32 option" where
  "next_request k = (if \<not> co_active k then None
     else case co_retx k of
            sq # _ \<Rightarrow> Some sq
          | [] \<Rightarrow> if co_seqMax k \<noteq> max_u32 \<and> co_seq k \<ge> co_seqMax k then None else Some (co_seq k))"

locale consumer_class =
  fixes vt :: "('d, 's, 'z) consumer_vt"
  assumes schedule_law: "core_of (vt_ScheduleNextPacket vt c) = core_of c"
    and timeout_law: "core_of (vt_OnTimeout vt sq c) = (core_of c)\<lparr>co_retx := set_insert sq (con_retxSeqs c)\<rparr>"
    and will_send_law: "\<exists>t. core_of (vt_WillSendOutInterest vt sq c) = (core_of c)\<lparr>co_timeouts := st_insert sq t (con_seqTimeouts c)\<rparr>"
    and data_law: "vt_OnData vt d c = Inr c' \<Longrightarrow> if con_active c
       then \<exists>sq. data_seq d = Inr sq \<and>
              core_of c' = (core_of c)\<lparr>co_timeouts := st_erase sq (con_seqTimeouts c), co_retx := set_erase sq (con_retxSeqs c)\<rparr>
       else core_of c' = core_of c"

text \<open>The base class provides what its subclasses add to.\<close>

lemma Consumer_core:
  assumes "\<And>c. core_of (vt_ScheduleNextPacket vt c) = core_of c"
  shows "core_of (Consumer_OnTimeout env vt sq c) = (core_of c)\<lparr>co_retx := set_insert sq (con_retxSeqs c)\<rparr>"
    "core_of (Consumer_OnTimeout1 env vt sq c) = (core_of c)\<lparr>co_retx := set_insert sq (con_retxSeqs c)\<rparr>"
    "core_of (Consumer_fast_retransmission env vt sq c) = (core_of c)\<lparr>co_retx := set_insert sq (con_retxSeqs c)\<rparr>"
    "core_of (Consumer_OnRsr vt i c) = core_of c"
  by (simp_all add: Consumer_OnTimeout_def Consumer_OnTimeout1_def Consumer_fast_retransmission_def Consumer_OnRsr_def Let_def assms)

lemma Consumer_will_core:
  "core_of (Consumer_WillSendOutInterest env sq c) = (core_of c)\<lparr>co_timeouts := st_insert sq (app_now env c) (con_seqTimeouts c)\<rparr>"
  by (simp add: Consumer_WillSendOutInterest_def Let_def)

lemma Consumer_data_core:
  assumes "Consumer_OnData env d c = Inr c'"
  shows "if con_active c then \<exists>sq. data_seq d = Inr sq \<and>
      core_of c' = (core_of c)\<lparr>co_timeouts := st_erase sq (con_seqTimeouts c), co_retx := set_erase sq (con_retxSeqs c)\<rparr>
    else c' = c"
  using assms by (auto simp: Consumer_OnData_def data_seq_def Let_def)

section \<open>No sequence number is lost\<close>

definition open_seqs :: "core \<Rightarrow> u32 set" where
  "open_seqs k = fst ` set (co_timeouts k) \<union> set (co_retx k)"

definition core_inv :: "u32 set \<Rightarrow> core \<Rightarrow> bool" where
  "core_inv received k \<longleftrightarrow> (\<forall>s < co_seq k. s \<in> received \<or> s \<in> open_seqs k) \<and> (\<forall>s \<in> open_seqs k. s < co_seq k) \<and>
     distinct (map fst (co_timeouts k)) \<and> sorted (map snd (co_timeouts k)) \<and> sorted (co_retx k) \<and> distinct (co_retx k) \<and>
     fst ` set (co_timeouts k) \<inter> set (co_retx k) = {}"

lemma set_insert_simps [simp]:
  "set (set_insert x xs) = insert x (set xs)" "sorted xs \<Longrightarrow> sorted (set_insert x xs)"
  "distinct xs \<Longrightarrow> distinct (set_insert x xs)"
  by (auto simp: set_insert_def set_insort_key sorted_insort distinct_insort)

lemma set_erase_simps [simp]:
  "set (set_erase x xs) = set xs - {x}" "sorted xs \<Longrightarrow> sorted (set_erase x xs)" "distinct xs \<Longrightarrow> distinct (set_erase x xs)"
  by (auto simp: set_erase_def removeAll_filter_not_eq sorted_filter [of id, simplified] distinct_removeAll)

lemma st_erase_simps [simp]:
  "fst ` set (st_erase x m) = fst ` set m - {x}" "distinct (map fst m) \<Longrightarrow> distinct (map fst (st_erase x m))"
  "sorted (map snd m) \<Longrightarrow> sorted (map snd (st_erase x m))"
  by (auto simp: st_erase_def distinct_map_filter sorted_filter)

lemma st_insert_split:
  obtains a b where "m = a @ b" "\<forall>e \<in> set a. snd e \<le> t" "b \<noteq> [] \<Longrightarrow> t < snd (hd b)"
    "st_insert x t m = (if x \<in> fst ` set m then m else a @ (x, t) # b)"
proof
  show "m = takeWhile (\<lambda>e. snd e \<le> t) m @ dropWhile (\<lambda>e. snd e \<le> t) m" by simp
  show "\<forall>e \<in> set (takeWhile (\<lambda>e. snd e \<le> t) m). snd e \<le> t" by (auto dest: set_takeWhileD)
  show "t < snd (hd (dropWhile (\<lambda>e. snd e \<le> t) m))" if "dropWhile (\<lambda>e. snd e \<le> t) m \<noteq> []"
    using hd_dropWhile [OF that] by simp
qed (simp add: st_insert_def)

lemma st_insert_keys [simp]:
  "fst ` set (st_insert x t m) = insert x (fst ` set m)" "distinct (map fst m) \<Longrightarrow> distinct (map fst (st_insert x t m))"
proof -
  obtain a b where m: "m = a @ b" "st_insert x t m = (if x \<in> fst ` set m then m else a @ (x, t) # b)"
    by (rule st_insert_split [of m t x])
  show "fst ` set (st_insert x t m) = insert x (fst ` set m)" "distinct (map fst m) \<Longrightarrow> distinct (map fst (st_insert x t m))"
    unfolding m(2) by (auto simp: m(1))
qed

lemma st_insert_sorted [simp]:
  assumes "sorted (map snd m)"
  shows "sorted (map snd (st_insert x t m))"
proof (rule st_insert_split [of m t x])
  fix a b
  assume m: "m = a @ b" and a: "\<forall>e \<in> set a. snd e \<le> t" and b: "b \<noteq> [] \<Longrightarrow> t < snd (hd b)"
    and i: "st_insert x t m = (if x \<in> fst ` set m then m else a @ (x, t) # b)"
  have "\<forall>e \<in> set b. t \<le> snd e" using b assms by (cases b) (auto simp: m sorted_append)
  then show ?thesis using assms a unfolding i by (auto simp: m sorted_append)
qed

lemma sorted_takeWhile_le:
  assumes "sorted (map snd (es :: seq_timeouts))"
  shows "takeWhile (\<lambda>e. snd e + d \<le> t) es = filter (\<lambda>e. snd e + d \<le> t) es"
    "dropWhile (\<lambda>e. snd e + d \<le> t) es = filter (\<lambda>e. t < snd e + d) es"
proof -
  have "sorted_wrt (\<lambda>a b. snd a \<le> snd b) es" using assms by (simp add: sorted_wrt_map)
  then have "takeWhile (\<lambda>e. snd e + d \<le> t) es = filter (\<lambda>e. snd e + d \<le> t) es \<and>
      dropWhile (\<lambda>e. snd e + d \<le> t) es = filter (\<lambda>e. t < snd e + d) es"
  proof (induction es)
    case (Cons e es)
    show ?case
    proof (cases "snd e + d \<le> t")
      case False
      then have "\<forall>x \<in> set (e # es). t < snd x + d" using Cons.prems by fastforce
      then show ?thesis using False by (auto simp: filter_empty_conv not_le)
    qed (use Cons in auto)
  qed simp
  then show "takeWhile (\<lambda>e. snd e + d \<le> t) es = filter (\<lambda>e. snd e + d \<le> t) es"
    "dropWhile (\<lambda>e. snd e + d \<le> t) es = filter (\<lambda>e. t < snd e + d) es" by auto
qed

context consumer_class
begin

text \<open>The loop ends, and moves exactly the packets that timed out.\<close>

lemma retx_loop_correct:
  "\<exists>c'. retx_loop vt rto now c = Some c' \<and>
     core_of c' = (core_of c)\<lparr>co_timeouts := dropWhile (\<lambda>e. snd e + rto \<le> now) (con_seqTimeouts c),
       co_retx := fold set_insert (map fst (takeWhile (\<lambda>e. snd e + rto \<le> now) (con_seqTimeouts c))) (con_retxSeqs c)\<rparr>"
proof (induction "con_seqTimeouts c" arbitrary: c)
  case Nil
  then show ?case by (subst retx_loop.simps) (simp add: core_of_def)
next
  case (Cons e es)
  have c: "con_seqTimeouts c = e # es" using Cons.hyps(2) by simp
  show ?case
  proof (cases "snd e + rto \<le> now")
    case False
    then show ?thesis by (subst retx_loop.simps) (simp add: c core_of_def)
  next
    case True
    let ?c1 = "vt_OnTimeout vt (fst e) (c\<lparr>con_seqTimeouts := es\<rparr>)"
    have k: "core_of ?c1 = (core_of c)\<lparr>co_timeouts := es, co_retx := set_insert (fst e) (con_retxSeqs c)\<rparr>"
      using timeout_law [of "fst e" "c\<lparr>con_seqTimeouts := es\<rparr>"] by simp
    then have f: "con_seqTimeouts ?c1 = es" "con_retxSeqs ?c1 = set_insert (fst e) (con_retxSeqs c)"
      using core_of_simps(5,6) [of ?c1] by simp_all
    have r: "retx_loop vt rto now c = retx_loop vt rto now ?c1" using True by (subst retx_loop.simps) (simp add: c)
    show ?thesis unfolding r using Cons.hyps(1) [of ?c1] True by (simp add: f k c)
  qed
qed

lemma CheckRetxTimeout_correct:
  assumes "sorted (map snd (con_seqTimeouts c))"
  shows "\<exists>c'. Consumer_CheckRetxTimeout env vt c = Some c' \<and>
     core_of c' = (core_of c)\<lparr>co_timeouts := filter (\<lambda>e. app_now env c < snd e + Consumer_rto env c) (con_seqTimeouts c),
       co_retx := fold set_insert (map fst (filter (\<lambda>e. snd e + Consumer_rto env c \<le> app_now env c) (con_seqTimeouts c))) (con_retxSeqs c)\<rparr>"
proof -
  note w = sorted_takeWhile_le [OF assms, of "Consumer_rto env c" "app_now env c"]
  show ?thesis
    using retx_loop_correct [of "Consumer_rto env c" "app_now env c" c] by (auto simp: Consumer_CheckRetxTimeout_def w)
qed

lemma ucast_id64: "ucast (ucast (sq :: u32) :: u64) = sq"
  by transfer simp

lemma makeInterest_total:
  "\<exists>i. Consumer_makeInterest sq c = Inr i \<and> butlast (int_name i) = con_interestName c \<and> int_name i \<noteq> [] \<and>
     (\<forall>d. data_name d = int_name i \<longrightarrow> data_seq d = Inr sq)"
proof -
  obtain comp where comp: "Component_fromSequenceNumber (ucast sq) = Inr comp" "Component_toSequenceNumber comp = Inr (ucast sq)"
    using toNumberWithMarker_from [of SEQUENCE_NUMBER_MARKER "ucast sq"]
    by (auto simp: Component_fromSequenceNumber_def Component_toSequenceNumber_def)
  have "Name_at (ns @ [comp]) (-1) = Inr comp" for ns by (simp add: Name_at_def)
  then show ?thesis by (auto simp: Consumer_makeInterest_def comp data_seq_def ucast_id64)
qed

lemma sendInterest_correct:
  obtains c' i t where "Consumer_sendInterest vt sq c = Inr c'" "Consumer_makeInterest sq c = Inr i"
    "core_of c' = (core_of c)\<lparr>co_timeouts := st_insert sq t (con_seqTimeouts c), co_out := con_out c @ [i]\<rparr>"
proof -
  obtain i where i: "Consumer_makeInterest sq c = Inr i" using makeInterest_total by blast
  let ?c1 = "c\<lparr>con_rng := \<lambda>n. con_rng c (Suc n)\<rparr>"
  let ?c2 = "vt_WillSendOutInterest vt sq ?c1"
  obtain t where t: "core_of ?c2 = (core_of c)\<lparr>co_timeouts := st_insert sq t (con_seqTimeouts c)\<rparr>"
    using will_send_law [of sq ?c1] by auto
  then have o: "con_out ?c2 = con_out c" using core_of_simps(7) [of ?c2] by simp
  show thesis
    by (rule that [OF _ i, of "vt_ScheduleNextPacket vt (?c2\<lparr>con_out := con_out ?c2 @ [i]\<rparr>)" t])
      (simp_all add: Consumer_sendInterest_def i Let_def schedule_law t o)
qed

lemma SendPacket_correct:
  assumes "core_inv received (core_of c)" "con_seq c < max_u32"
  obtains (idle) "next_request (core_of c) = None" "Consumer_SendPacket vt c = Inr c"
  | (sent) sq c' i t where "next_request (core_of c) = Some sq" "Consumer_SendPacket vt c = Inr c'"
      "Consumer_makeInterest sq c = Inr i" "sq \<in> set (con_retxSeqs c) \<or> con_retxSeqs c = [] \<and> sq = con_seq c"
      "core_of c' = (core_of c)\<lparr>co_seq := (if con_retxSeqs c = [] then con_seq c + 1 else con_seq c),
         co_retx := set_erase sq (con_retxSeqs c), co_timeouts := st_insert sq t (con_seqTimeouts c), co_out := con_out c @ [i]\<rparr>"
proof (cases "con_active c \<and> next_request (core_of c) \<noteq> None")
  case False
  then have "next_request (core_of c) = None" by (auto simp: next_request_def)
  moreover have "Consumer_SendPacket vt c = Inr c"
    using False by (auto simp: next_request_def Consumer_SendPacket_def Consumer_takeRetx_def split: list.splits if_splits)
  ultimately show thesis by (rule idle)
next
  case True
  then obtain sq where sq: "next_request (core_of c) = Some sq" "con_active c" by auto
  show thesis
  proof (cases "con_retxSeqs c")
    case Nil
    then have "sq = con_seq c" "\<not> (con_seqMax c \<noteq> max_u32 \<and> con_seq c \<ge> con_seqMax c)"
      using sq by (auto simp: next_request_def split: if_splits)
    then have s: "Consumer_SendPacket vt c = Consumer_sendInterest vt sq (c\<lparr>con_seq := con_seq c + 1\<rparr>)"
      using sq(2) Nil by (auto simp: Consumer_SendPacket_def Consumer_takeRetx_def)
    obtain c' i t where c': "Consumer_sendInterest vt sq (c\<lparr>con_seq := con_seq c + 1\<rparr>) = Inr c'"
      "Consumer_makeInterest sq (c\<lparr>con_seq := con_seq c + 1\<rparr>) = Inr i"
      "core_of c' = (core_of c)\<lparr>co_seq := con_seq c + 1, co_timeouts := st_insert sq t (con_seqTimeouts c), co_out := con_out c @ [i]\<rparr>"
      by (rule sendInterest_correct [of sq "c\<lparr>con_seq := con_seq c + 1\<rparr>"]) simp
    have "Consumer_makeInterest sq c = Inr i" using c'(2) by (simp add: Consumer_makeInterest_def)
    moreover have "(core_of c)\<lparr>co_retx := set_erase sq (con_retxSeqs c)\<rparr> = core_of c" by (simp add: Nil set_erase_def core_of_def)
    ultimately show thesis
      using sent [OF sq(1), of c' i t] c' s \<open>sq = con_seq c\<close> Nil by (simp add: core_of_def)
  next
    case (Cons x xs)
    then have x: "x = sq" using sq by (simp add: next_request_def)
    have "x < con_seq c" "x \<notin> set xs" using assms(1) Cons by (auto simp: core_inv_def open_seqs_def)
    then have "x \<noteq> max_u32" using assms(2) by auto
    then have s: "Consumer_SendPacket vt c = Consumer_sendInterest vt sq (c\<lparr>con_retxSeqs := xs\<rparr>)"
      using sq(2) Cons x by (simp add: Consumer_SendPacket_def Consumer_takeRetx_def)
    obtain c' i t where c': "Consumer_sendInterest vt sq (c\<lparr>con_retxSeqs := xs\<rparr>) = Inr c'"
      "Consumer_makeInterest sq (c\<lparr>con_retxSeqs := xs\<rparr>) = Inr i"
      "core_of c' = (core_of c)\<lparr>co_retx := xs, co_timeouts := st_insert sq t (con_seqTimeouts c), co_out := con_out c @ [i]\<rparr>"
      by (rule sendInterest_correct [of sq "c\<lparr>con_retxSeqs := xs\<rparr>"]) simp
    have "Consumer_makeInterest sq c = Inr i" using c'(2) by (simp add: Consumer_makeInterest_def)
    moreover have "set_erase sq (con_retxSeqs c) = xs" using Cons x \<open>x \<notin> set xs\<close> by (simp add: set_erase_def)
    ultimately show thesis
      using sent [OF sq(1), of c' i t] c' s x Cons by (simp add: core_of_def)
  qed
qed

end

section \<open>Runs\<close>

text \<open>The application is started and stopped, its events fire, and Data arrives. The first component is the set of the sequence
  numbers for which Data has arrived. Sequence numbers do not wrap around.\<close>

inductive con_step :: "('d, 's) app_env \<Rightarrow> ('d, 's, 'z) consumer_vt \<Rightarrow> u32 set \<times> ('d, 's, 'z) consumer_scheme \<Rightarrow>
    u32 set \<times> ('d, 's, 'z) consumer_scheme \<Rightarrow> bool" for env vt where
  con_start: "\<not> con_active c \<Longrightarrow> con_step env vt (R, c) (R, Consumer_StartApplication vt c)"
| con_stop: "con_step env vt (R, c) (R, Consumer_StopApplication env c)"
| con_send: "con_seq c < max_u32 \<Longrightarrow> Consumer_SendPacket vt c = Inr c' \<Longrightarrow> con_step env vt (R, c) (R, c')"
| con_data: "con_active c \<Longrightarrow> vt_OnData vt d c = Inr c' \<Longrightarrow> data_seq d = Inr sq \<Longrightarrow> con_step env vt (R, c) (insert sq R, c')"
| con_data_inactive: "\<not> con_active c \<Longrightarrow> vt_OnData vt d c = Inr c' \<Longrightarrow> con_step env vt (R, c) (R, c')"
| con_check: "Consumer_CheckRetxTimeout env vt c = Some c' \<Longrightarrow> con_step env vt (R, c) (R, c')"
| con_timer: "con_step env vt (R, c) (R, Consumer_SetRetxTimer env tm c)"

inductive con_reach :: "('d, 's) app_env \<Rightarrow> ('d, 's, 'z) consumer_vt \<Rightarrow> ('d, 's, 'z) consumer_scheme \<Rightarrow>
    u32 set \<times> ('d, 's, 'z) consumer_scheme \<Rightarrow> bool" for env vt c where
  con_init: "con_reach env vt c ({}, c)"
| con_more: "con_reach env vt c s \<Longrightarrow> con_step env vt s s' \<Longrightarrow> con_reach env vt c s'"

lemma fold_set_insert [simp]: "set (fold set_insert ys xs) = set ys \<union> set xs"
  "sorted xs \<Longrightarrow> sorted (fold set_insert ys xs)" "distinct xs \<Longrightarrow> distinct (fold set_insert ys xs)"
  by (induction ys arbitrary: xs) auto

lemma core_inv_data:
  assumes "core_inv R k"
  shows "core_inv (insert sq R) (k\<lparr>co_timeouts := st_erase sq (co_timeouts k), co_retx := set_erase sq (co_retx k)\<rparr>)"
  using assms by (auto simp: core_inv_def open_seqs_def)

lemma core_inv_check:
  assumes "core_inv R k"
  shows "core_inv R (k\<lparr>co_timeouts := filter (\<lambda>e. now < snd e + rto) (co_timeouts k),
    co_retx := fold set_insert (map fst (filter (\<lambda>e. snd e + rto \<le> now) (co_timeouts k))) (co_retx k)\<rparr>)"
proof -
  let ?T = "co_timeouts k"
  have d: "distinct (map fst ?T)" using assms by (simp add: core_inv_def)
  then have inj: "inj_on fst (set ?T)" by (simp add: distinct_map)
  have u: "fst ` set (filter (\<lambda>e. now < snd e + rto) ?T) \<union> fst ` set (filter (\<lambda>e. snd e + rto \<le> now) ?T) = fst ` set ?T"
    by (auto simp: image_iff not_le)
  have n: "fst ` set (filter (\<lambda>e. now < snd e + rto) ?T) \<inter> fst ` set (filter (\<lambda>e. snd e + rto \<le> now) ?T) = {}"
    using inj by (fastforce simp: inj_on_def)
  have o: "open_seqs (k\<lparr>co_timeouts := filter (\<lambda>e. now < snd e + rto) ?T,
      co_retx := fold set_insert (map fst (filter (\<lambda>e. snd e + rto \<le> now) ?T)) (co_retx k)\<rparr>) = open_seqs k"
    using u by (simp add: open_seqs_def) blast
  have s: "sorted (map snd ?T)" using assms by (simp add: core_inv_def)
  show ?thesis
    unfolding core_inv_def o using assms n sorted_filter [OF s, of "\<lambda>e. now < snd e + rto"] d
    by (auto simp: core_inv_def distinct_map_filter)
qed

lemma core_inv_send:
  assumes "core_inv R k" "co_seq k < max_u32" "sq \<in> set (co_retx k) \<or> co_retx k = [] \<and> sq = co_seq k"
  shows "core_inv R (k\<lparr>co_seq := (if co_retx k = [] then co_seq k + 1 else co_seq k),
    co_retx := set_erase sq (co_retx k), co_timeouts := st_insert sq t (co_timeouts k), co_out := os\<rparr>)"
proof -
  have "1 + co_seq k \<noteq> 0" using assms(2) by (auto simp: max_u32_def add_eq_0_iff)
  then have "unat (co_seq k + 1) = Suc (unat (co_seq k))" using unatSuc [of "co_seq k"] by (simp add: add.commute)
  then have less: "s < co_seq k + 1 \<longleftrightarrow> s < co_seq k \<or> s = co_seq k" for s
    by (auto simp: word_less_nat_alt word_unat_eq_iff)
  show ?thesis using assms(1,3) by (auto simp: core_inv_def open_seqs_def less)
qed

context consumer_class
begin

lemma step_inv:
  assumes "con_step env vt s s'" "core_inv (fst s) (core_of (snd s))"
  shows "core_inv (fst s') (core_of (snd s'))"
  using assms
proof (induction rule: con_step.induct)
  case (con_start c R)
  then show ?case by (simp add: Consumer_StartApplication_def schedule_law App_StartApplication_def core_inv_def open_seqs_def)
next
  case (con_stop R c)
  then show ?case
    by (simp add: Consumer_StopApplication_def App_StopApplication_def core_inv_def open_seqs_def split: option.split)
next
  case (con_send c c' R)
  then have i: "core_inv R (core_of c)" by simp
  show ?case
    by (rule SendPacket_correct [OF i con_send.hyps(1)])
      (use con_send.hyps i core_inv_send [OF i] in auto)
next
  case (con_data c d c' sq R)
  then show ?case using data_law [OF con_data.hyps(2)] core_inv_data [of R "core_of c" sq] by auto
next
  case (con_data_inactive c d c' R)
  then show ?case using data_law [OF con_data_inactive.hyps(2)] by simp
next
  case (con_check c c' R)
  then have "core_inv R (core_of c)" by simp
  moreover from this have "sorted (map snd (con_seqTimeouts c))" by (simp add: core_inv_def)
  ultimately show ?case
    using CheckRetxTimeout_correct [of c env] con_check.hyps core_inv_check [of R "core_of c" "Consumer_rto env c" "app_now env c"] by auto
next
  case (con_timer R c tm)
  then show ?case by (simp add: Consumer_SetRetxTimer_def Let_def)
qed

lemma reach_inv:
  assumes "con_reach env vt c s" "con_seq c = 0" "con_seqTimeouts c = []" "con_retxSeqs c = []"
  shows "core_inv (fst s) (core_of (snd s))"
  using assms
proof (induction rule: con_reach.induct)
  case con_init
  then show ?case by (simp add: core_inv_def open_seqs_def)
next
  case (con_more s s')
  then show ?case using step_inv [OF con_more.hyps(2)] by blast
qed

end

section \<open>What subclasses add\<close>

lemma core_timeouts: "core_of c = k \<Longrightarrow> con_seqTimeouts c = co_timeouts k"
  by auto

lemma app_timeouts [simp]:
  "con_seqTimeouts (app_Remove env ev c) = con_seqTimeouts c" "con_seqTimeouts (app_scheduleCheck env delay c) = con_seqTimeouts c"
  by (simp_all add: app_Remove_def app_scheduleCheck_def split: option.split prod.split)

text \<open>A quantity that a subclass keeps in the fields it adds, and a bound on it that may depend on the packets under way.\<close>

locale consumer_quantity = consumer_class vt for vt :: "('d, 's, 'z) consumer_vt" +
  fixes obs :: "('d, 's, 'z) consumer_scheme \<Rightarrow> 'o" and ok :: "seq_timeouts \<Rightarrow> 'o \<Rightarrow> bool"
  assumes obs_law: "consumer.more c = consumer.more c' \<Longrightarrow> obs c = obs c'"
    and schedule_ok: "ok T (obs c) \<Longrightarrow> ok T (obs (vt_ScheduleNextPacket vt c))"
    and timeout_ok: "ok (e # T) (obs c) \<Longrightarrow> ok T (obs (vt_OnTimeout vt sq c))"
    and will_send_ok: "ok T (obs c) \<Longrightarrow> sq \<notin> fst ` set T \<Longrightarrow> ok (st_insert sq t T) (obs (vt_WillSendOutInterest vt sq c))"
    and data_ok: "vt_OnData vt d c = Inr c' \<Longrightarrow> distinct (map fst T) \<Longrightarrow> ok T (obs c) \<Longrightarrow>
      ok T (obs c') \<and> ok (st_erase sq T) (obs c')"
begin

lemma obs_update [simp]:
  "obs (c\<lparr>con_retxSeqs := a\<rparr>) = obs c" "obs (c\<lparr>con_seqTimeouts := b\<rparr>) = obs c" "obs (c\<lparr>con_seq := k\<rparr>) = obs c"
  "obs (c\<lparr>con_out := os\<rparr>) = obs c" "obs (c\<lparr>con_active := x\<rparr>) = obs c" "obs (c\<lparr>con_sim := sm\<rparr>) = obs c"
  "obs (c\<lparr>con_retxTimer := tm\<rparr>) = obs c" "obs (c\<lparr>con_rng := g\<rparr>) = obs c"
  "obs (app_scheduleCheck env delay c) = obs c" "obs (app_Remove env ev c) = obs c"
  by (rule obs_law; simp add: app_scheduleCheck_def app_Remove_def split: option.split prod.split)+

lemma retx_loop_ok:
  assumes "retx_loop vt rto now c = Some c'" "ok (con_seqTimeouts c) (obs c)"
  shows "ok (con_seqTimeouts c') (obs c')"
  using assms
proof (induction "con_seqTimeouts c" arbitrary: c)
  case Nil
  then have "retx_loop vt rto now c = Some c" by (subst retx_loop.simps) simp
  then show ?case using Nil.prems by simp
next
  case (Cons e es)
  have c: "con_seqTimeouts c = e # es" using Cons.hyps(2) by simp
  show ?case
  proof (cases "snd e + rto \<le> now")
    case False
    then have "retx_loop vt rto now c = Some c" by (subst retx_loop.simps) (simp add: c)
    then show ?thesis using Cons.prems by simp
  next
    case True
    let ?c0 = "c\<lparr>con_seqTimeouts := es\<rparr>"
    let ?c1 = "vt_OnTimeout vt (fst e) ?c0"
    have t: "con_seqTimeouts ?c1 = es" using timeout_law [of "fst e" ?c0] core_of_simps(6) [of ?c1] by simp
    have "ok (e # es) (obs ?c0)" using Cons.prems(2) c by simp
    then have "ok es (obs ?c1)" by (rule timeout_ok)
    moreover have "retx_loop vt rto now c = retx_loop vt rto now ?c1" using True by (subst retx_loop.simps) (simp add: c)
    ultimately show ?thesis using Cons.hyps(1) [of ?c1] Cons.prems(1) t by simp
  qed
qed

lemma sendInterest_ok:
  assumes "Consumer_sendInterest vt sq c = Inr c'" "ok (con_seqTimeouts c) (obs c)" "sq \<notin> fst ` set (con_seqTimeouts c)"
  shows "ok (con_seqTimeouts c') (obs c')"
proof -
  obtain i where i: "Consumer_makeInterest sq c = Inr i" using makeInterest_total by blast
  let ?c1 = "c\<lparr>con_rng := \<lambda>n. con_rng c (Suc n)\<rparr>"
  let ?c2 = "vt_WillSendOutInterest vt sq ?c1"
  let ?c3 = "?c2\<lparr>con_out := con_out ?c2 @ [i]\<rparr>"
  have c': "c' = vt_ScheduleNextPacket vt ?c3" using assms(1) by (simp add: Consumer_sendInterest_def i Let_def)
  obtain t where "con_seqTimeouts ?c2 = st_insert sq t (con_seqTimeouts c)"
    using will_send_law [of sq ?c1] core_timeouts [of ?c2] by fastforce
  then have "con_seqTimeouts c' = st_insert sq t (con_seqTimeouts c)"
    using schedule_law [of ?c3] core_of_simps(6) [of c'] core_of_simps(6) [of ?c3] by (simp add: c')
  moreover have "ok (st_insert sq t (con_seqTimeouts c)) (obs ?c2)" using assms(2,3) by (intro will_send_ok) simp_all
  ultimately show ?thesis using schedule_ok [of _ ?c3] by (simp add: c')
qed

lemma step_ok:
  assumes "con_step env vt s s'" "core_inv (fst s) (core_of (snd s))" "ok (con_seqTimeouts (snd s)) (obs (snd s))"
  shows "ok (con_seqTimeouts (snd s')) (obs (snd s'))"
  using assms
proof (induction rule: con_step.induct)
  case (con_start c R)
  have "con_seqTimeouts (vt_ScheduleNextPacket vt (c\<lparr>con_active := True\<rparr>)) = con_seqTimeouts c"
    using schedule_law [of "c\<lparr>con_active := True\<rparr>"] core_of_simps(6) [of "vt_ScheduleNextPacket vt (c\<lparr>con_active := True\<rparr>)"] by simp
  then show ?case
    using con_start.prems schedule_ok [of "con_seqTimeouts c" "c\<lparr>con_active := True\<rparr>"]
    by (simp add: Consumer_StartApplication_def App_StartApplication_def)
next
  case (con_stop R c)
  then show ?case by (simp add: Consumer_StopApplication_def App_StopApplication_def split: option.split)
next
  case (con_send c c' R)
  have inv: "core_inv R (core_of c)" using con_send.prems by simp
  obtain sq c1 where c1: "Consumer_takeRetx c = (sq, c1)" by fastforce
  show ?case
  proof (cases "con_retxSeqs c")
    case Nil
    then have c1: "Consumer_takeRetx c = (max_u32, c)" by (simp add: Consumer_takeRetx_def)
    have "con_seq c \<notin> fst ` set (con_seqTimeouts c)" using inv by (force simp: core_inv_def open_seqs_def)
    then show ?thesis
      using con_send.hyps(2) con_send.prems(2) sendInterest_ok [of "con_seq c" "c\<lparr>con_seq := con_seq c + 1\<rparr>" c']
      by (auto simp: Consumer_SendPacket_def c1 split: if_splits)
  next
    case (Cons x xs)
    have "x < con_seq c" "x \<notin> fst ` set (con_seqTimeouts c)" using inv Cons by (auto simp: core_inv_def open_seqs_def)
    moreover from this have "x \<noteq> max_u32" using con_send.hyps(1) by auto
    ultimately show ?thesis
      using con_send.hyps(2) con_send.prems(2) sendInterest_ok [of x "c\<lparr>con_retxSeqs := xs\<rparr>" c'] Cons
      by (auto simp: Consumer_SendPacket_def Consumer_takeRetx_def split: if_splits)
  qed
next
  case (con_data c d c' sq R)
  have "distinct (map fst (con_seqTimeouts c))" using con_data.prems(1) by (simp add: core_inv_def)
  from data_ok [OF con_data.hyps(2) this] con_data.prems(2) have "ok (st_erase sq (con_seqTimeouts c)) (obs c')" by simp
  moreover have "con_seqTimeouts c' = st_erase sq (con_seqTimeouts c)"
    using data_law [OF con_data.hyps(2)] con_data.hyps(1,3) core_of_simps(6) [of c'] by auto
  ultimately show ?case by simp
next
  case (con_data_inactive c d c' R)
  have "distinct (map fst (con_seqTimeouts c))" using con_data_inactive.prems(1) by (simp add: core_inv_def)
  from data_ok [OF con_data_inactive.hyps(2) this] con_data_inactive.prems(2) have "ok (con_seqTimeouts c) (obs c')" by simp
  moreover have "con_seqTimeouts c' = con_seqTimeouts c"
    using data_law [OF con_data_inactive.hyps(2)] con_data_inactive.hyps(1) core_of_simps(6) [of c'] by auto
  ultimately show ?case by simp
next
  case (con_check c c' R)
  then obtain c1 where "retx_loop vt (Consumer_rto env c) (app_now env c) c = Some c1" "c' = app_scheduleCheck env (con_retxTimer c1) c1"
    by (auto simp: Consumer_CheckRetxTimeout_def split: bind_splits)
  then show ?case
    using retx_loop_ok [of _ _ c c1] con_check.prems(2) core_of_simps(6) [of c'] core_of_simps(6) [of c1] by simp
next
  case (con_timer R c tm)
  then show ?case
    by (simp add: Consumer_SetRetxTimer_def Let_def)
qed

lemma reach_ok:
  assumes "con_reach env vt c s" "con_seq c = 0" "con_seqTimeouts c = []" "con_retxSeqs c = []" "ok [] (obs c)"
  shows "ok (con_seqTimeouts (snd s)) (obs (snd s))"
  using assms
proof (induction rule: con_reach.induct)
  case (con_more s s')
  then show ?case using step_ok [OF con_more.hyps(2)] reach_inv [OF con_more.hyps(1)] by blast
qed simp

end

end
