(* ===== verification/WindowConsumers.thy ===== *)
theory WindowConsumers
  imports Consumers
begin

text \<open>
  The window-based consumers: \<open>apps/ndn-consumer-window.cpp\<close> and \<open>apps/FullyDistributed.cpp\<close>, the consumer of NCFCC, with the
  notifications that ask it to reduce its rate. Their classes are instances of the locale \<open>consumer_class\<close>, so no
  sequence number is lost; the lemmas here are about the window and the number of Interests in flight.
\<close>

section \<open>ConsumerWindow\<close>

record ('d, 's) consumer_window = "('d, 's) consumer" +
  win_payloadSize :: u32
  win_maxSize :: 'd
  win_initialWindow :: u32
  win_setInitialWindowOnTimeout :: bool
  win_window :: u32
  win_inFlight :: u32

definition ConsumerWindow_SetWindow :: "u32 \<Rightarrow> ('d, 's) consumer_window \<Rightarrow> ('d, 's) consumer_window" where
  "ConsumerWindow_SetWindow window c = c\<lparr>win_initialWindow := window, win_window := window\<rparr>"

definition ConsumerWindow_SetPayloadSize :: "u32 \<Rightarrow> ('d, 's) consumer_window \<Rightarrow> ('d, 's) consumer_window" where
  "ConsumerWindow_SetPayloadSize payload c = c\<lparr>win_payloadSize := payload\<rparr>"

definition seqs_of_size :: "'d app_double \<Rightarrow> 'd \<Rightarrow> u32 \<Rightarrow> u32" where
  "seqs_of_size D sz payloadSize =
     d_Floor D (d_add D (d_of_int D 1)
       (d_div D (d_mult D (d_mult D sz (d_of_int D 1024)) (d_of_int D 1024)) (d_of_int D (uint payloadSize))))"

definition ConsumerWindow_GetMaxSize :: "('d, 's) app_env \<Rightarrow> ('d, 's) consumer_window \<Rightarrow> 'd" where
  "ConsumerWindow_GetMaxSize env c = (if con_seqMax c = 0 then d_of_int (env_dbl env) (-1) else win_maxSize c)"

definition ConsumerWindow_SetMaxSize :: "('d, 's) app_env \<Rightarrow> 'd \<Rightarrow> ('d, 's) consumer_window \<Rightarrow> ('d, 's) consumer_window" where
  "ConsumerWindow_SetMaxSize env sz c =
     (let c1 = c\<lparr>win_maxSize := sz\<rparr>
      in if d_less (env_dbl env) (win_maxSize c1) (d_of_int (env_dbl env) 0) then c1\<lparr>con_seqMax := 0\<rparr>
         else c1\<lparr>con_seqMax := seqs_of_size (env_dbl env) (win_maxSize c1) (win_payloadSize c1)\<rparr>)"

definition ConsumerWindow_SetSeqMax :: "('d, 's) app_env \<Rightarrow> u32 \<Rightarrow> ('d, 's) consumer_window \<Rightarrow> ('d, 's) consumer_window" where
  "ConsumerWindow_SetSeqMax env seqMax c =
     (if d_less (env_dbl env) (win_maxSize c) (d_of_int (env_dbl env) 0) then c\<lparr>con_seqMax := seqMax\<rparr> else c)"

text \<open>The delay \<open>Seconds(std::min<double>(limit, RTO))\<close>, the limit being given as a fraction.\<close>

definition limited_rto :: "('d, 's) app_env \<Rightarrow> int \<Rightarrow> int \<Rightarrow> ('d, 's, 'z) consumer_scheme \<Rightarrow> int" where
  "limited_rto env num den c =
     (let D = env_dbl env
      in d_FromDouble D (d_min D (d_div D (d_of_int D num) (d_of_int D den)) (d_ToDouble D (Consumer_rto env c))))"

definition ConsumerWindow_ScheduleNextPacket ::
    "('d, 's) app_env \<Rightarrow> ('d, 's) consumer_window \<Rightarrow> ('d, 's) consumer_window" where
  "ConsumerWindow_ScheduleNextPacket env c =
     (if win_window c = 0 then
        (let c1 = app_Remove env (con_sendEvent c) c in app_scheduleSend env (limited_rto env 1 2 c1) c1)
      else if win_inFlight c \<ge> win_window c then c
      else let c1 = (if app_IsRunning env (con_sendEvent c) c then app_Remove env (con_sendEvent c) c else c)
           in app_scheduleSend env 0 c1)"

definition ConsumerWindow_OnData ::
    "('d, 's) app_env \<Rightarrow> data \<Rightarrow> ('d, 's) consumer_window \<Rightarrow> ('d, 's) consumer_window result" where
  "ConsumerWindow_OnData env d c =
     bind_result (Consumer_OnData env d c) (\<lambda>c1.
       let c2 = c1\<lparr>win_window := win_window c1 + 1\<rparr>;
           c3 = (if win_inFlight c2 > 0 then c2\<lparr>win_inFlight := win_inFlight c2 - 1\<rparr> else c2)
       in Inr (ConsumerWindow_ScheduleNextPacket env c3))"

definition ConsumerWindow_WillSendOutInterest ::
    "('d, 's) app_env \<Rightarrow> u32 \<Rightarrow> ('d, 's) consumer_window \<Rightarrow> ('d, 's) consumer_window" where
  "ConsumerWindow_WillSendOutInterest env sq c =
     Consumer_WillSendOutInterest env sq (c\<lparr>win_inFlight := win_inFlight c + 1\<rparr>)"

text \<open>The base class function that \<open>OnTimeout\<close> ends with calls \<open>ScheduleNextPacket\<close> only, so the table it is given has that one.\<close>

definition schedule_only :: "(('d, 's, 'z) consumer_scheme \<Rightarrow> ('d, 's, 'z) consumer_scheme) \<Rightarrow> ('d, 's, 'z) consumer_vt" where
  "schedule_only sched = \<lparr>vt_ScheduleNextPacket = sched, vt_OnTimeout = \<lambda>_ c. c, vt_WillSendOutInterest = \<lambda>_ c. c,
     vt_OnData = \<lambda>_. Inr\<rparr>"

definition ConsumerWindow_OnTimeout ::
    "('d, 's) app_env \<Rightarrow> u32 \<Rightarrow> ('d, 's) consumer_window \<Rightarrow> ('d, 's) consumer_window" where
  "ConsumerWindow_OnTimeout env sq c =
     (let c1 = (if win_inFlight c > 0 then c\<lparr>win_inFlight := win_inFlight c - 1\<rparr> else c);
          c2 = (if win_setInitialWindowOnTimeout c1 then c1\<lparr>win_window := win_initialWindow c1\<rparr> else c1)
      in Consumer_OnTimeout env (schedule_only (ConsumerWindow_ScheduleNextPacket env)) sq c2)"

definition ConsumerWindow_class :: "('d, 's) app_env \<Rightarrow> ('d, 's, _) consumer_vt" where
  "ConsumerWindow_class env = \<lparr>vt_ScheduleNextPacket = ConsumerWindow_ScheduleNextPacket env,
     vt_OnTimeout = ConsumerWindow_OnTimeout env, vt_WillSendOutInterest = ConsumerWindow_WillSendOutInterest env,
     vt_OnData = ConsumerWindow_OnData env\<rparr>"

section \<open>FullyDistributed\<close>

record ('d, 's) fully_distributed = "('d, 's) consumer" +
  fd_payloadSize :: u32
  fd_maxSize :: 'd
  fd_initialWindow :: u32
  fd_setInitialWindowOnTimeout :: bool
  fd_ssthresh :: u32
  fd_window :: u32
  fd_inFlight :: u32

definition FullyDistributed_SetWindow :: "u32 \<Rightarrow> ('d, 's) fully_distributed \<Rightarrow> ('d, 's) fully_distributed" where
  "FullyDistributed_SetWindow window c = c\<lparr>fd_initialWindow := window, fd_window := window, fd_ssthresh := max_u32\<rparr>"

definition FullyDistributed_SetPayloadSize :: "u32 \<Rightarrow> ('d, 's) fully_distributed \<Rightarrow> ('d, 's) fully_distributed" where
  "FullyDistributed_SetPayloadSize payload c = c\<lparr>fd_payloadSize := payload\<rparr>"

definition FullyDistributed_GetMaxSize :: "('d, 's) app_env \<Rightarrow> ('d, 's) fully_distributed \<Rightarrow> 'd" where
  "FullyDistributed_GetMaxSize env c = (if con_seqMax c = 0 then d_of_int (env_dbl env) (-1) else fd_maxSize c)"

definition FullyDistributed_SetMaxSize ::
    "('d, 's) app_env \<Rightarrow> 'd \<Rightarrow> ('d, 's) fully_distributed \<Rightarrow> ('d, 's) fully_distributed" where
  "FullyDistributed_SetMaxSize env sz c =
     (let c1 = c\<lparr>fd_maxSize := sz\<rparr>
      in if d_less (env_dbl env) (fd_maxSize c1) (d_of_int (env_dbl env) 0) then c1\<lparr>con_seqMax := 0\<rparr>
         else c1\<lparr>con_seqMax := seqs_of_size (env_dbl env) (fd_maxSize c1) (fd_payloadSize c1)\<rparr>)"

definition FullyDistributed_SetSeqMax ::
    "('d, 's) app_env \<Rightarrow> u32 \<Rightarrow> ('d, 's) fully_distributed \<Rightarrow> ('d, 's) fully_distributed" where
  "FullyDistributed_SetSeqMax env seqMax c =
     (if d_less (env_dbl env) (fd_maxSize c) (d_of_int (env_dbl env) 0) then c\<lparr>con_seqMax := seqMax\<rparr> else c)"

definition FullyDistributed_ScheduleNextPacket ::
    "('d, 's) app_env \<Rightarrow> ('d, 's) fully_distributed \<Rightarrow> ('d, 's) fully_distributed" where
  "FullyDistributed_ScheduleNextPacket env c =
     (if fd_window c = 0 then
        (let c1 = app_Remove env (con_sendEvent c) c in app_scheduleSend env (limited_rto env 1 2 c1) c1)
      else if fd_inFlight c \<ge> fd_window c then app_scheduleSend env (limited_rto env 1 1 c) c
      else let c1 = (if app_IsRunning env (con_sendEvent c) c then app_Remove env (con_sendEvent c) c else c)
           in app_scheduleSend env 0 c1)"

definition FullyDistributed_OnData ::
    "('d, 's) app_env \<Rightarrow> data \<Rightarrow> ('d, 's) fully_distributed \<Rightarrow> ('d, 's) fully_distributed result" where
  "FullyDistributed_OnData env d c =
     bind_result (Consumer_OnData env d c) (\<lambda>c1.
       let c2 = c1\<lparr>fd_ssthresh := fd_window c1\<rparr>
       in if fd_window c2 < 150 then
            (let c3 = c2\<lparr>fd_window := fd_window c2 + 1\<rparr>;
                 c4 = (if fd_inFlight c3 > 0 then c3\<lparr>fd_inFlight := fd_inFlight c3 - 1\<rparr> else c3)
             in Inr (FullyDistributed_ScheduleNextPacket env c4))
          else Inr (c2\<lparr>fd_ssthresh := 150\<rparr>))"

abbreviation fd_vt :: "('d, 's) app_env \<Rightarrow> ('d, 's, _) consumer_vt" where
  "fd_vt env \<equiv> schedule_only (FullyDistributed_ScheduleNextPacket env)"

text \<open>The factors \<open>(1/2)\<close> and \<open>(1/3)\<close> are divisions of integers.\<close>

definition FullyDistributed_OnRsr ::
    "('d, 's) app_env \<Rightarrow> interest \<Rightarrow> ('d, 's) fully_distributed \<Rightarrow> ('d, 's) fully_distributed" where
  "FullyDistributed_OnRsr env i c =
     (let c1 = Consumer_OnRsr (fd_vt env) i c
      in if Name_equals (int_name i) RSR_NAME
         then c1\<lparr>fd_ssthresh := fd_window c1, fd_window := fd_window c1 * of_int (1 div 2)\<rparr>
         else c1)"

definition FullyDistributed_OnTimeout ::
    "('d, 's) app_env \<Rightarrow> u32 \<Rightarrow> ('d, 's) fully_distributed \<Rightarrow> ('d, 's) fully_distributed" where
  "FullyDistributed_OnTimeout env sq c =
     (let c1 = (if fd_inFlight c > 0 then c\<lparr>fd_inFlight := fd_inFlight c - 1\<rparr> else c);
          c2 = (if fd_setInitialWindowOnTimeout c1
                then c1\<lparr>fd_ssthresh := fd_window c1, fd_window := fd_window c1 * of_int (1 div 3)\<rparr> else c1);
          c3 = FullyDistributed_ScheduleNextPacket env c2
      in Consumer_OnTimeout env (fd_vt env) sq c3)"

definition FullyDistributed_OnTimeout1 ::
    "('d, 's) app_env \<Rightarrow> u32 \<Rightarrow> ('d, 's) fully_distributed \<Rightarrow> ('d, 's) fully_distributed" where
  "FullyDistributed_OnTimeout1 env sq c =
     (let c1 = (if fd_inFlight c > 0 then c\<lparr>fd_inFlight := fd_inFlight c - 1\<rparr> else c);
          c2 = (if fd_setInitialWindowOnTimeout c1
                then c1\<lparr>fd_ssthresh := fd_window c1, fd_window := fd_initialWindow c1\<rparr> else c1)
      in Consumer_OnTimeout1 env (fd_vt env) sq c2)"

definition FullyDistributed_fast_retransmission ::
    "('d, 's) app_env \<Rightarrow> u32 \<Rightarrow> ('d, 's) fully_distributed \<Rightarrow> ('d, 's) fully_distributed" where
  "FullyDistributed_fast_retransmission env sq c = Consumer_fast_retransmission env (fd_vt env) sq c"

definition FullyDistributed_WillSendOutInterest ::
    "('d, 's) app_env \<Rightarrow> u32 \<Rightarrow> ('d, 's) fully_distributed \<Rightarrow> ('d, 's) fully_distributed" where
  "FullyDistributed_WillSendOutInterest env sq c =
     Consumer_WillSendOutInterest env sq (c\<lparr>fd_inFlight := fd_inFlight c + 1\<rparr>)"

definition FullyDistributed_class :: "('d, 's) app_env \<Rightarrow> ('d, 's, _) consumer_vt" where
  "FullyDistributed_class env = \<lparr>vt_ScheduleNextPacket = FullyDistributed_ScheduleNextPacket env,
     vt_OnTimeout = FullyDistributed_OnTimeout env, vt_WillSendOutInterest = FullyDistributed_WillSendOutInterest env,
     vt_OnData = FullyDistributed_OnData env\<rparr>"

section \<open>The classes\<close>

lemma window_core [simp]:
  "core_of (c\<lparr>win_window := a\<rparr>) = core_of c" "core_of (c\<lparr>win_inFlight := a\<rparr>) = core_of c"
  "con_seqTimeouts (c\<lparr>win_inFlight := a\<rparr>) = con_seqTimeouts c" "con_retxSeqs (c\<lparr>win_inFlight := a\<rparr>) = con_retxSeqs c"
  "con_retxSeqs (c\<lparr>win_window := a\<rparr>) = con_retxSeqs c"
  by (simp_all add: core_of_def)

lemma window_schedule_core [simp]: "core_of (ConsumerWindow_ScheduleNextPacket env c) = core_of c"
  by (simp add: ConsumerWindow_ScheduleNextPacket_def Let_def)

lemma fd_core [simp]:
  "core_of (c\<lparr>fd_window := a\<rparr>) = core_of c" "core_of (c\<lparr>fd_inFlight := a\<rparr>) = core_of c" "core_of (c\<lparr>fd_ssthresh := a\<rparr>) = core_of c"
  "con_seqTimeouts (c\<lparr>fd_inFlight := a\<rparr>) = con_seqTimeouts c"
  by (simp_all add: core_of_def)

lemma fd_schedule_core [simp]: "core_of (FullyDistributed_ScheduleNextPacket env c) = core_of c"
  by (simp add: FullyDistributed_ScheduleNextPacket_def Let_def)

lemma schedule_only_simps [simp]: "vt_ScheduleNextPacket (schedule_only sched) = sched"
  by (simp add: schedule_only_def)

lemma core_retx: "core_of c = core_of c' \<Longrightarrow> con_retxSeqs c = con_retxSeqs c'"
  using core_of_simps(5) by metis

interpretation window: consumer_class "ConsumerWindow_class env" for env
proof
  fix c :: "('a, 'b) consumer_window" and sq d c'
  show "core_of (vt_ScheduleNextPacket (ConsumerWindow_class env) c) = core_of c" by (simp add: ConsumerWindow_class_def)
  show "core_of (vt_OnTimeout (ConsumerWindow_class env) sq c) = (core_of c)\<lparr>co_retx := set_insert sq (con_retxSeqs c)\<rparr>"
    by (simp add: ConsumerWindow_class_def ConsumerWindow_OnTimeout_def Let_def Consumer_core)
  show "\<exists>t. core_of (vt_WillSendOutInterest (ConsumerWindow_class env) sq c) = (core_of c)\<lparr>co_timeouts := st_insert sq t (con_seqTimeouts c)\<rparr>"
    by (auto simp: ConsumerWindow_class_def ConsumerWindow_WillSendOutInterest_def Consumer_will_core)
  assume "vt_OnData (ConsumerWindow_class env) d c = Inr c'"
  then obtain c1 where c1: "Consumer_OnData env d c = Inr c1" "core_of c' = core_of c1"
    by (auto simp: ConsumerWindow_class_def ConsumerWindow_OnData_def Let_def)
  then show "if con_active c then \<exists>sq. data_seq d = Inr sq \<and>
      core_of c' = (core_of c)\<lparr>co_timeouts := st_erase sq (con_seqTimeouts c), co_retx := set_erase sq (con_retxSeqs c)\<rparr>
    else core_of c' = core_of c"
    using Consumer_data_core [OF c1(1)] by (auto split: if_splits)
qed

interpretation fd: consumer_class "FullyDistributed_class env" for env
proof
  fix c :: "('a, 'b) fully_distributed" and sq d c'
  show "core_of (vt_ScheduleNextPacket (FullyDistributed_class env) c) = core_of c" by (simp add: FullyDistributed_class_def)
  have r: "con_retxSeqs (FullyDistributed_ScheduleNextPacket env c) = con_retxSeqs c" for c :: "('a, 'b) fully_distributed"
    by (rule core_retx) simp
  show "core_of (vt_OnTimeout (FullyDistributed_class env) sq c) = (core_of c)\<lparr>co_retx := set_insert sq (con_retxSeqs c)\<rparr>"
    by (simp add: FullyDistributed_class_def FullyDistributed_OnTimeout_def Let_def Consumer_core r)
  show "\<exists>t. core_of (vt_WillSendOutInterest (FullyDistributed_class env) sq c) = (core_of c)\<lparr>co_timeouts := st_insert sq t (con_seqTimeouts c)\<rparr>"
    by (auto simp: FullyDistributed_class_def FullyDistributed_WillSendOutInterest_def Consumer_will_core)
  assume "vt_OnData (FullyDistributed_class env) d c = Inr c'"
  then obtain c1 where c1: "Consumer_OnData env d c = Inr c1" "core_of c' = core_of c1"
    by (auto simp: FullyDistributed_class_def FullyDistributed_OnData_def Let_def split: if_splits)
  then show "if con_active c then \<exists>sq. data_seq d = Inr sq \<and>
      core_of c' = (core_of c)\<lparr>co_timeouts := st_erase sq (con_seqTimeouts c), co_retx := set_erase sq (con_retxSeqs c)\<rparr>
    else core_of c' = core_of c"
    using Consumer_data_core [OF c1(1)] by (auto split: if_splits)
qed

section \<open>Interests in flight and the window\<close>

lemma app_more [simp]:
  "consumer.more (app_Remove env ev c) = consumer.more c" "consumer.more (app_scheduleSend env delay c) = consumer.more c"
  "consumer.more (app_scheduleCheck env delay c) = consumer.more c" "consumer.more (Consumer_WillSendOutInterest env sq c) = consumer.more c"
  by (simp_all add: app_Remove_def app_scheduleSend_def app_scheduleCheck_def Consumer_WillSendOutInterest_def Let_def
      split: option.split prod.split)

lemma OnData_more: "Consumer_OnData env d c = Inr c' \<Longrightarrow> consumer.more c' = consumer.more c"
  by (auto simp: Consumer_OnData_def Let_def split: if_splits)

lemma window_fields:
  assumes "consumer.more c = consumer.more (c' :: ('d, 's) consumer_window)"
  shows "win_inFlight c = win_inFlight c'" "win_window c = win_window c'" "win_initialWindow c = win_initialWindow c'"
  using assms by (cases c; cases c'; simp)+

lemma fd_fields:
  assumes "consumer.more c = consumer.more (c' :: ('d, 's) fully_distributed)"
  shows "fd_inFlight c = fd_inFlight c'" "fd_window c = fd_window c'" "fd_initialWindow c = fd_initialWindow c'"
    "fd_ssthresh c = fd_ssthresh c'"
  using assms by (cases c; cases c'; simp)+

lemma window_schedule_more [simp]: "consumer.more (ConsumerWindow_ScheduleNextPacket env c) = consumer.more c"
  by (simp add: ConsumerWindow_ScheduleNextPacket_def Let_def)

lemma fd_schedule_more [simp]: "consumer.more (FullyDistributed_ScheduleNextPacket env c) = consumer.more c"
  by (simp add: FullyDistributed_ScheduleNextPacket_def Let_def)

lemma timeout_more:
  assumes "\<And>c. consumer.more (sched c) = consumer.more c"
  shows "consumer.more (Consumer_OnTimeout env (schedule_only sched) sq c) = consumer.more c"
    "consumer.more (Consumer_OnTimeout1 env (schedule_only sched) sq c) = consumer.more c"
    "consumer.more (Consumer_fast_retransmission env (schedule_only sched) sq c) = consumer.more c"
    "consumer.more (Consumer_OnRsr (schedule_only sched) i c) = consumer.more c"
  by (simp_all add: Consumer_OnTimeout_def Consumer_OnTimeout1_def Consumer_fast_retransmission_def Consumer_OnRsr_def Let_def assms)

lemma length_st_insert: "sq \<notin> fst ` set T \<Longrightarrow> length (st_insert sq t T) = Suc (length T)"
  by (rule st_insert_split [of T t sq]) simp

lemma length_st_erase: "distinct (map fst T) \<Longrightarrow> length T \<le> Suc (length (st_erase sq T))"
proof -
  assume d: "distinct (map fst T)"
  have "distinct (map fst (st_erase sq T))" using d by simp
  then have "length (st_erase sq T) = card (fst ` set T - {sq})" by (metis distinct_card length_map set_map st_erase_simps(1))
  moreover have "length T = card (fst ` set T)" using d by (metis distinct_card length_map set_map)
  ultimately show ?thesis by (simp add: card_Diff_singleton_if) linarith
qed

lemma unat_pred: "0 < (n :: u32) \<Longrightarrow> unat (n - 1) = unat n - 1"
  by (simp add: unat_minus_one word_greater_zero_iff)

lemma unat_succ_le: "unat (n + 1 :: u32) \<le> Suc (unat n)"
  using unat_add_lem [of n 1] by (cases "n + 1 = 0") (simp_all add: unatSuc add.commute [of n])

text \<open>The Interests in flight of a window consumer are at most the packets under way.\<close>

lemma window_OnTimeout_inFlight:
  "win_inFlight (ConsumerWindow_OnTimeout env sq c) = (if win_inFlight c > 0 then win_inFlight c - 1 else win_inFlight c)"
proof -
  let ?c1 = "if win_inFlight c > 0 then c\<lparr>win_inFlight := win_inFlight c - 1\<rparr> else c"
  let ?c2 = "if win_setInitialWindowOnTimeout ?c1 then ?c1\<lparr>win_window := win_initialWindow ?c1\<rparr> else ?c1"
  have "consumer.more (ConsumerWindow_OnTimeout env sq c) = consumer.more ?c2"
    unfolding ConsumerWindow_OnTimeout_def Let_def by (rule timeout_more) simp
  from window_fields(1) [OF this] show ?thesis by simp
qed

lemma window_OnData_inFlight:
  assumes "ConsumerWindow_OnData env d c = Inr c'"
  shows "win_inFlight c' = (if win_inFlight c > 0 then win_inFlight c - 1 else win_inFlight c)"
proof -
  obtain c1 where c1: "Consumer_OnData env d c = Inr c1" using assms by (auto simp: ConsumerWindow_OnData_def)
  let ?c2 = "c1\<lparr>win_window := win_window c1 + 1\<rparr>"
  let ?c3 = "if win_inFlight ?c2 > 0 then ?c2\<lparr>win_inFlight := win_inFlight ?c2 - 1\<rparr> else ?c2"
  have "c' = ConsumerWindow_ScheduleNextPacket env ?c3" using assms by (simp add: ConsumerWindow_OnData_def c1 Let_def)
  then have "consumer.more c' = consumer.more ?c3" by simp
  from window_fields(1) [OF this] show ?thesis using window_fields(1) [OF OnData_more [OF c1]] by simp
qed

interpretation window_flight: consumer_quantity "ConsumerWindow_class env" win_inFlight "\<lambda>T n. unat n \<le> length T" for env
proof
  fix c c' :: "('a, 'b) consumer_window" and T :: seq_timeouts and sq t e d
  show "consumer.more c = consumer.more c' \<Longrightarrow> win_inFlight c = win_inFlight c'" by (rule window_fields)
  show "unat (win_inFlight (vt_ScheduleNextPacket (ConsumerWindow_class env) c)) \<le> length T" if "unat (win_inFlight c) \<le> length T"
    using that window_fields(1) [OF window_schedule_more [of env c]] by (simp add: ConsumerWindow_class_def)
  show "unat (win_inFlight (vt_OnTimeout (ConsumerWindow_class env) sq c)) \<le> length T" if "unat (win_inFlight c) \<le> length (e # T)"
    using that unat_pred [of "win_inFlight c"] by (auto simp: ConsumerWindow_class_def window_OnTimeout_inFlight word_greater_zero_iff)
  show "unat (win_inFlight (vt_WillSendOutInterest (ConsumerWindow_class env) sq c)) \<le> length (st_insert sq t T)"
    if "unat (win_inFlight c) \<le> length T" "sq \<notin> fst ` set T"
  proof -
    have "consumer.more (ConsumerWindow_WillSendOutInterest env sq c) = consumer.more (c\<lparr>win_inFlight := win_inFlight c + 1\<rparr>)"
      by (simp add: ConsumerWindow_WillSendOutInterest_def)
    from window_fields(1) [OF this] show ?thesis
      using that unat_succ_le [of "win_inFlight c"] by (simp add: ConsumerWindow_class_def length_st_insert)
  qed
  show "unat (win_inFlight c') \<le> length T \<and> unat (win_inFlight c') \<le> length (st_erase sq T)"
    if "vt_OnData (ConsumerWindow_class env) d c = Inr c'" "distinct (map fst T)" "unat (win_inFlight c) \<le> length T"
  proof -
    have "ConsumerWindow_OnData env d c = Inr c'" using that(1) by (simp add: ConsumerWindow_class_def)
    from window_OnData_inFlight [OF this] show ?thesis
      using that(2,3) length_st_erase [of T sq] unat_pred [of "win_inFlight c"] by (auto simp: word_greater_zero_iff)
  qed
qed

section \<open>The window of FullyDistributed\<close>

lemma fd_OnTimeout_window:
  "fd_window (FullyDistributed_OnTimeout env sq c) = (if fd_setInitialWindowOnTimeout c then 0 else fd_window c)"
  "fd_initialWindow (FullyDistributed_OnTimeout env sq c) = fd_initialWindow c"
  "fd_ssthresh (FullyDistributed_OnTimeout env sq c) = (if fd_setInitialWindowOnTimeout c then fd_window c else fd_ssthresh c)"
proof -
  let ?c1 = "if fd_inFlight c > 0 then c\<lparr>fd_inFlight := fd_inFlight c - 1\<rparr> else c"
  let ?c2 = "if fd_setInitialWindowOnTimeout ?c1
    then ?c1\<lparr>fd_ssthresh := fd_window ?c1, fd_window := fd_window ?c1 * of_int (1 div 3)\<rparr> else ?c1"
  have m: "consumer.more (FullyDistributed_OnTimeout env sq c) = consumer.more ?c2"
    unfolding FullyDistributed_OnTimeout_def Let_def by (subst timeout_more) simp_all
  show "fd_window (FullyDistributed_OnTimeout env sq c) = (if fd_setInitialWindowOnTimeout c then 0 else fd_window c)"
    "fd_initialWindow (FullyDistributed_OnTimeout env sq c) = fd_initialWindow c"
    "fd_ssthresh (FullyDistributed_OnTimeout env sq c) = (if fd_setInitialWindowOnTimeout c then fd_window c else fd_ssthresh c)"
    using fd_fields [OF m] by simp_all
qed

lemma fd_OnTimeout1_window:
  "fd_window (FullyDistributed_OnTimeout1 env sq c) = (if fd_setInitialWindowOnTimeout c then fd_initialWindow c else fd_window c)"
  "fd_initialWindow (FullyDistributed_OnTimeout1 env sq c) = fd_initialWindow c"
proof -
  let ?c1 = "if fd_inFlight c > 0 then c\<lparr>fd_inFlight := fd_inFlight c - 1\<rparr> else c"
  let ?c2 = "if fd_setInitialWindowOnTimeout ?c1 then ?c1\<lparr>fd_ssthresh := fd_window ?c1, fd_window := fd_initialWindow ?c1\<rparr> else ?c1"
  have m: "consumer.more (FullyDistributed_OnTimeout1 env sq c) = consumer.more ?c2"
    unfolding FullyDistributed_OnTimeout1_def Let_def by (rule timeout_more) simp
  show "fd_window (FullyDistributed_OnTimeout1 env sq c) = (if fd_setInitialWindowOnTimeout c then fd_initialWindow c else fd_window c)"
    "fd_initialWindow (FullyDistributed_OnTimeout1 env sq c) = fd_initialWindow c"
    using fd_fields [OF m] by simp_all
qed

lemma fd_OnRsr_window:
  "fd_window (FullyDistributed_OnRsr env i c) = (if Name_equals (int_name i) RSR_NAME then 0 else fd_window c)"
  "fd_ssthresh (FullyDistributed_OnRsr env i c) = (if Name_equals (int_name i) RSR_NAME then fd_window c else fd_ssthresh c)"
  "fd_initialWindow (FullyDistributed_OnRsr env i c) = fd_initialWindow c"
  "fd_inFlight (FullyDistributed_OnRsr env i c) = fd_inFlight c"
proof -
  have m: "consumer.more (Consumer_OnRsr (fd_vt env) i c) = consumer.more c" by (rule timeout_more) simp
  show "fd_window (FullyDistributed_OnRsr env i c) = (if Name_equals (int_name i) RSR_NAME then 0 else fd_window c)"
    "fd_ssthresh (FullyDistributed_OnRsr env i c) = (if Name_equals (int_name i) RSR_NAME then fd_window c else fd_ssthresh c)"
    "fd_initialWindow (FullyDistributed_OnRsr env i c) = fd_initialWindow c"
    "fd_inFlight (FullyDistributed_OnRsr env i c) = fd_inFlight c"
    using fd_fields [OF m] by (simp_all add: FullyDistributed_OnRsr_def Let_def)
qed

lemma fd_OnData_window:
  assumes "FullyDistributed_OnData env d c = Inr c'"
  shows "fd_window c' = (if fd_window c < 150 then fd_window c + 1 else fd_window c)" "fd_initialWindow c' = fd_initialWindow c"
    "fd_inFlight c' = (if fd_window c < 150 \<and> fd_inFlight c > 0 then fd_inFlight c - 1 else fd_inFlight c)"
proof -
  obtain c1 where c1: "Consumer_OnData env d c = Inr c1" using assms by (auto simp: FullyDistributed_OnData_def)
  note f1 = fd_fields [OF OnData_more [OF c1]]
  let ?c2 = "c1\<lparr>fd_ssthresh := fd_window c1\<rparr>"
  let ?c3 = "?c2\<lparr>fd_window := fd_window ?c2 + 1\<rparr>"
  let ?c4 = "if fd_inFlight ?c3 > 0 then ?c3\<lparr>fd_inFlight := fd_inFlight ?c3 - 1\<rparr> else ?c3"
  have c': "c' = (if fd_window c < 150 then FullyDistributed_ScheduleNextPacket env ?c4 else ?c2\<lparr>fd_ssthresh := 150\<rparr>)"
    using assms f1 by (auto simp: FullyDistributed_OnData_def c1 Let_def)
  have m: "consumer.more c' = consumer.more (if fd_window c < 150 then ?c4 else ?c2\<lparr>fd_ssthresh := 150\<rparr>)" by (simp add: c')
  show "fd_window c' = (if fd_window c < 150 then fd_window c + 1 else fd_window c)" "fd_initialWindow c' = fd_initialWindow c"
    "fd_inFlight c' = (if fd_window c < 150 \<and> fd_inFlight c > 0 then fd_inFlight c - 1 else fd_inFlight c)"
    using fd_fields [OF m] f1 by simp_all
qed

definition fd_bound :: "u32 \<times> u32 \<Rightarrow> bool" where
  "fd_bound = (\<lambda>(window, initial). window \<le> max 150 initial)"

lemma fd_bound_data: "fd_bound (w, i) \<Longrightarrow> fd_bound (if w < 150 then w + 1 else w, i)"
proof -
  assume b: "fd_bound (w, i)"
  have "w + 1 \<le> 150" if "w < 150" using that by (rule inc_le)
  then show ?thesis using b by (auto simp: fd_bound_def max_def)
qed

interpretation fd_window: consumer_quantity "FullyDistributed_class env" "\<lambda>c. (fd_window c, fd_initialWindow c)" "\<lambda>_. fd_bound" for env
proof
  fix c c' :: "('a, 'b) fully_distributed" and T :: seq_timeouts and sq t e d
  show "consumer.more c = consumer.more c' \<Longrightarrow> (fd_window c, fd_initialWindow c) = (fd_window c', fd_initialWindow c')"
    using fd_fields [of c c'] by simp
  assume b: "fd_bound (fd_window c, fd_initialWindow c)"
  show "fd_bound (fd_window (vt_ScheduleNextPacket (FullyDistributed_class env) c),
      fd_initialWindow (vt_ScheduleNextPacket (FullyDistributed_class env) c))"
    using b fd_fields [OF fd_schedule_more [of env c]] by (simp add: FullyDistributed_class_def)
  show "fd_bound (fd_window (vt_OnTimeout (FullyDistributed_class env) sq c), fd_initialWindow (vt_OnTimeout (FullyDistributed_class env) sq c))"
    using b by (auto simp: FullyDistributed_class_def fd_OnTimeout_window fd_bound_def)
  have "consumer.more (FullyDistributed_WillSendOutInterest env sq c) = consumer.more (c\<lparr>fd_inFlight := fd_inFlight c + 1\<rparr>)"
    by (simp add: FullyDistributed_WillSendOutInterest_def)
  from fd_fields [OF this] show "fd_bound (fd_window (vt_WillSendOutInterest (FullyDistributed_class env) sq c),
      fd_initialWindow (vt_WillSendOutInterest (FullyDistributed_class env) sq c))"
    using b by (simp add: FullyDistributed_class_def)
  show "fd_bound (fd_window c', fd_initialWindow c') \<and> fd_bound (fd_window c', fd_initialWindow c')"
    if "vt_OnData (FullyDistributed_class env) d c = Inr c'"
    using that fd_OnData_window [of env d c c'] fd_bound_data [OF b] by (simp add: FullyDistributed_class_def)
qed

end
