(* ===== verification/OtherApps.thy ===== *)
theory OtherApps
  imports WindowConsumers
begin

text \<open>
  The other applications of the simulator: consumers with a constant rate (\<open>apps/ndn-consumer-cbr.cpp\<close>), with batches
  (\<open>ndn-consumer-batches.cpp\<close>) and with contents drawn from a Zipf-Mandelbrot distribution
  (\<open>ndn-consumer-zipf-mandelbrot.cpp\<close>); the application that announces a reduced sending rate (\<open>apps/rsr.cpp\<close>) and the
  queue sizes per flow of \<open>model/nacc.cpp\<close>. A random variable of ns-3 is the stream of its values.
\<close>

section \<open>Constant rate\<close>

record ('d, 's) consumer_cbr = "('d, 's) consumer" +
  cbr_frequency :: 'd
  cbr_firstTime :: bool
  cbr_random :: "(nat \<Rightarrow> 'd) option"
  cbr_randomType :: string

definition cbr_delay ::
    "('d, 's) app_env \<Rightarrow> ('d, 's, 'z) consumer_cbr_scheme \<Rightarrow> int \<times> ('d, 's, 'z) consumer_cbr_scheme" where
  "cbr_delay env c =
     (let D = env_dbl env
      in case cbr_random c of
           None \<Rightarrow> (d_FromDouble D (d_div D (d_of_int D 1) (cbr_frequency c)), c)
         | Some rv \<Rightarrow> (d_FromDouble D (rv 0), c\<lparr>cbr_random := Some (\<lambda>n. rv (Suc n))\<rparr>))"

definition ConsumerCbr_ScheduleNextPacket ::
    "('d, 's) app_env \<Rightarrow> ('d, 's, 'z) consumer_cbr_scheme \<Rightarrow> ('d, 's, 'z) consumer_cbr_scheme" where
  "ConsumerCbr_ScheduleNextPacket env c =
     (if cbr_firstTime c then (app_scheduleSend env 0 c)\<lparr>cbr_firstTime := False\<rparr>
      else if \<not> app_IsRunning env (con_sendEvent c) c then
        (let (delay, c1) = cbr_delay env c in app_scheduleSend env delay c1)
      else c)"

definition ConsumerCbr_SetRandomize ::
    "('d, 's) app_env \<Rightarrow> string \<Rightarrow> ('d, 's, 'z) consumer_cbr_scheme \<Rightarrow> ('d, 's, 'z) consumer_cbr_scheme" where
  "ConsumerCbr_SetRandomize env v c =
     (let D = env_dbl env;
          rv = (if v = ''uniform'' then
                  Some (env_uniform env (d_of_int D 0) (d_div D (d_mult D (d_of_int D 2) (d_of_int D 1)) (cbr_frequency c)))
                else if v = ''exponential'' then
                  Some (env_exponential env (d_div D (d_of_int D 1) (cbr_frequency c))
                         (d_div D (d_mult D (d_of_int D 50) (d_of_int D 1)) (cbr_frequency c)))
                else None)
      in c\<lparr>cbr_random := rv, cbr_randomType := v\<rparr>)"

definition ConsumerCbr_class :: "('d, 's) app_env \<Rightarrow> ('d, 's, ('d, 'z) consumer_cbr_ext) consumer_vt" where
  "ConsumerCbr_class env = \<lparr>vt_ScheduleNextPacket = ConsumerCbr_ScheduleNextPacket env,
     vt_OnTimeout = Consumer_OnTimeout env (schedule_only (ConsumerCbr_ScheduleNextPacket env)),
     vt_WillSendOutInterest = Consumer_WillSendOutInterest env, vt_OnData = Consumer_OnData env\<rparr>"

section \<open>Batches\<close>

record ('d, 's) consumer_batches = "('d, 's) consumer" +
  bat_initial :: bool
  bat_batches :: "(int \<times> u32) list"

definition Batches_Add :: "int \<Rightarrow> u32 \<Rightarrow> (int \<times> u32) list \<Rightarrow> (int \<times> u32) list" where
  "Batches_Add t amount b = b @ [(t, amount)]"

definition ConsumerBatches_ScheduleNextPacket ::
    "('d, 's) app_env \<Rightarrow> ('d, 's) consumer_batches \<Rightarrow> ('d, 's) consumer_batches" where
  "ConsumerBatches_ScheduleNextPacket env c =
     (if \<not> app_IsRunning env (con_sendEvent c) c then
        (let delay = (if \<not> bat_initial c then Consumer_rto env c else 0)
         in app_scheduleSend env delay (c\<lparr>bat_initial := False\<rparr>))
      else c)"

definition ConsumerBatches_AddBatch ::
    "('d, 's) app_env \<Rightarrow> u32 \<Rightarrow> ('d, 's) consumer_batches \<Rightarrow> ('d, 's) consumer_batches" where
  "ConsumerBatches_AddBatch env amount c =
     ConsumerBatches_ScheduleNextPacket env
       (c\<lparr>con_seqMax := con_seqMax c + amount, con_rtt := RttEstimator_ClearSent (con_rtt c), bat_initial := True\<rparr>)"

definition ConsumerBatches_class :: "('d, 's) app_env \<Rightarrow> ('d, 's, _) consumer_vt" where
  "ConsumerBatches_class env = \<lparr>vt_ScheduleNextPacket = ConsumerBatches_ScheduleNextPacket env,
     vt_OnTimeout = Consumer_OnTimeout env (schedule_only (ConsumerBatches_ScheduleNextPacket env)),
     vt_WillSendOutInterest = Consumer_WillSendOutInterest env, vt_OnData = Consumer_OnData env\<rparr>"

definition ConsumerBatches_StartApplication ::
    "('d, 's) app_env \<Rightarrow> ('d, 's) consumer_batches \<Rightarrow> ('d, 's) consumer_batches" where
  "ConsumerBatches_StartApplication env c =
     (let c1 = Consumer_StartApplication (ConsumerBatches_class env) c
      in fold (\<lambda>(t, amount) c. c\<lparr>con_sim := snd (sim_Schedule (env_sim env) t (Ev_AddBatch amount) (con_sim c))\<rparr>)
           (bat_batches c1) c1)"

section \<open>Zipf-Mandelbrot\<close>

record ('d, 's) consumer_zipf = "('d, 's) consumer_cbr" +
  zip_N :: u32
  zip_q :: 'd
  zip_s :: 'd
  zip_seqRng :: "nat \<Rightarrow> 'd"
  zip_Pcum :: "'d list"

text \<open>The sums from index \<open>i\<close> on, \<open>n\<close> of them, after the sum so far.\<close>

fun pcum_loop :: "'d app_double \<Rightarrow> 'd \<Rightarrow> 'd \<Rightarrow> nat \<Rightarrow> nat \<Rightarrow> 'd \<Rightarrow> 'd list" where
  "pcum_loop D q s i 0 acc = []"
| "pcum_loop D q s i (Suc n) acc =
     (let p = d_add D acc (d_div D (d_of_int D 1) (d_pow D (d_add D (d_of_int D (int i)) q) s))
      in p # pcum_loop D q s (Suc i) n p)"

definition ConsumerZipfMandelbrot_SetNumberOfContents ::
    "('d, 's) app_env \<Rightarrow> u32 \<Rightarrow> ('d, 's) consumer_zipf \<Rightarrow> ('d, 's) consumer_zipf" where
  "ConsumerZipfMandelbrot_SetNumberOfContents env numOfContents c =
     (let D = env_dbl env;
          cum = d_of_int D 0 # pcum_loop D (zip_q c) (zip_s c) 1 (unat numOfContents) (d_of_int D 0);
          total = last cum
      in c\<lparr>zip_N := numOfContents, zip_Pcum := hd cum # map (\<lambda>p. d_div D p total) (tl cum)\<rparr>)"

definition ConsumerZipfMandelbrot_SetQ :: "('d, 's) app_env \<Rightarrow> 'd \<Rightarrow> ('d, 's) consumer_zipf \<Rightarrow> ('d, 's) consumer_zipf" where
  "ConsumerZipfMandelbrot_SetQ env q c = ConsumerZipfMandelbrot_SetNumberOfContents env (zip_N c) (c\<lparr>zip_q := q\<rparr>)"

definition ConsumerZipfMandelbrot_SetS :: "('d, 's) app_env \<Rightarrow> 'd \<Rightarrow> ('d, 's) consumer_zipf \<Rightarrow> ('d, 's) consumer_zipf" where
  "ConsumerZipfMandelbrot_SetS env s c = ConsumerZipfMandelbrot_SetNumberOfContents env (zip_N c) (c\<lparr>zip_s := s\<rparr>)"

text \<open>The first value of the stream that is not zero, and the stream after it.\<close>

partial_function (option) zipf_draw :: "'d app_double \<Rightarrow> (nat \<Rightarrow> 'd) \<Rightarrow> ('d \<times> (nat \<Rightarrow> 'd)) option" where
  "zipf_draw D rv = (if d_eq D (rv 0) (d_of_int D 0) then zipf_draw D (\<lambda>n. rv (Suc n)) else Some (rv 0, \<lambda>n. rv (Suc n)))"

fun zipf_index :: "'d app_double \<Rightarrow> 'd \<Rightarrow> nat \<Rightarrow> 'd list \<Rightarrow> nat" where
  "zipf_index D p_random i [] = 1"
| "zipf_index D p_random i (p_sum # ps) = (if d_le D p_random p_sum then i else zipf_index D p_random (Suc i) ps)"

definition ConsumerZipfMandelbrot_GetNextSeq ::
    "('d, 's) app_env \<Rightarrow> ('d, 's) consumer_zipf \<Rightarrow> (u32 \<times> ('d, 's) consumer_zipf) option" where
  "ConsumerZipfMandelbrot_GetNextSeq env c =
     do { (p_random, rv) \<leftarrow> zipf_draw (env_dbl env) (zip_seqRng c);
          Some (of_nat (zipf_index (env_dbl env) p_random 1 (tl (zip_Pcum c))), c\<lparr>zip_seqRng := rv\<rparr>) }"

text \<open>The Interest is sent without a lifetime; the bookkeeping is that of \<open>WillSendOutInterest\<close> of the base class.\<close>

definition zipf_sendInterest ::
    "('d, 's) app_env \<Rightarrow> u32 \<Rightarrow> ('d, 's) consumer_zipf \<Rightarrow> ('d, 's) consumer_zipf result" where
  "zipf_sendInterest env sq c =
     bind_result (Consumer_makeInterest sq c) (\<lambda>i.
       let c1 = c\<lparr>con_rng := \<lambda>n. con_rng c (Suc n)\<rparr>;
           c2 = Consumer_WillSendOutInterest env sq c1;
           c3 = c2\<lparr>con_out := con_out c2 @ [i\<lparr>int_lifetime := - 1\<rparr>]\<rparr>
       in Inr (ConsumerCbr_ScheduleNextPacket env c3))"

definition ConsumerZipfMandelbrot_SendPacket ::
    "('d, 's) app_env \<Rightarrow> ('d, 's) consumer_zipf \<Rightarrow> ('d, 's) consumer_zipf result option" where
  "ConsumerZipfMandelbrot_SendPacket env c =
     (if \<not> con_active c then Some (Inr c)
      else let (sq, c1) = Consumer_takeRetx c
           in if sq = max_u32 then
                (if con_seqMax c1 \<noteq> max_u32 \<and> con_seq c1 \<ge> con_seqMax c1 then Some (Inr c1)
                 else do { (sq', c2) \<leftarrow> ConsumerZipfMandelbrot_GetNextSeq env c1;
                           Some (zipf_sendInterest env sq' (c2\<lparr>con_seq := con_seq c2 + 1\<rparr>)) })
              else Some (zipf_sendInterest env sq c1))"

section \<open>Rate notifications and queues\<close>

text \<open>The notification sent by \<open>NaccApp\<close>, with a nonce from the random number generator.\<close>

definition NaccApp_SendInterest :: "u32 \<Rightarrow> interest" where
  "NaccApp_SendInterest nonce = \<lparr>int_name = RSR_NAME, int_selectors = Selectors_ctor, int_nonce = nonce, int_lifetime = 15,
     int_nextHopFaceId = None\<rparr>"

record nacc =
  nacc_buffer :: u32
  nacc_Nflows :: int
  nacc_queueSizes :: "(name \<times> u32) list"

definition NaccMecIcn_GetIntQueueSizePerFlow :: "name \<Rightarrow> nacc \<Rightarrow> u32 \<times> nacc" where
  "NaccMecIcn_GetIntQueueSizePerFlow pfx n =
     (let n1 = n\<lparr>nacc_Nflows := int (length (nacc_queueSizes n))\<rparr>
      in case find (\<lambda>e. Name_compare (fst e) pfx = 0) (nacc_queueSizes n1) of
           None \<Rightarrow> (0, n1)
         | Some (k, ql) \<Rightarrow>
             (ql, if ql + 1 \<le> nacc_buffer n1
                  then n1\<lparr>nacc_queueSizes := update_first (\<lambda>e. Name_compare (fst e) pfx = 0) (\<lambda>(k, q). (k, q + 1)) (nacc_queueSizes n1)\<rparr>
                  else n1))"

section \<open>The classes\<close>

lemma cbr_core [simp]:
  "core_of (c\<lparr>cbr_firstTime := a\<rparr>) = core_of c" "core_of (c\<lparr>cbr_random := b\<rparr>) = core_of c"
  by (simp_all add: core_of_def)

lemma cbr_schedule_core [simp]: "core_of (ConsumerCbr_ScheduleNextPacket env c) = core_of c"
  by (simp add: ConsumerCbr_ScheduleNextPacket_def cbr_delay_def Let_def split: option.split)

lemma batches_schedule_core [simp]: "core_of (ConsumerBatches_ScheduleNextPacket env c) = core_of c"
  by (simp add: ConsumerBatches_ScheduleNextPacket_def Let_def core_of_def [of "c\<lparr>bat_initial := False\<rparr>"] core_of_def [of c])

text \<open>A class that overrides \<open>ScheduleNextPacket\<close> only.\<close>

lemma plain_class:
  assumes "\<And>c. core_of (sched c) = core_of c"
    and "vt = \<lparr>vt_ScheduleNextPacket = sched, vt_OnTimeout = Consumer_OnTimeout env (schedule_only sched),
      vt_WillSendOutInterest = Consumer_WillSendOutInterest env, vt_OnData = Consumer_OnData env\<rparr>"
  shows "consumer_class vt"
proof
  fix c d c' sq
  show "core_of (vt_ScheduleNextPacket vt c) = core_of c" by (simp add: assms)
  show "core_of (vt_OnTimeout vt sq c) = (core_of c)\<lparr>co_retx := set_insert sq (con_retxSeqs c)\<rparr>"
    by (simp add: assms Consumer_core)
  show "\<exists>t. core_of (vt_WillSendOutInterest vt sq c) = (core_of c)\<lparr>co_timeouts := st_insert sq t (con_seqTimeouts c)\<rparr>"
    by (auto simp: assms(2) Consumer_will_core)
  show "if con_active c then \<exists>sq. data_seq d = Inr sq \<and>
      core_of c' = (core_of c)\<lparr>co_timeouts := st_erase sq (con_seqTimeouts c), co_retx := set_erase sq (con_retxSeqs c)\<rparr>
    else core_of c' = core_of c" if "vt_OnData vt d c = Inr c'"
    using that Consumer_data_core [of env d c c'] by (auto simp: assms(2) split: if_splits)
qed

interpretation cbr: consumer_class "ConsumerCbr_class env" for env
  by (rule plain_class [OF cbr_schedule_core ConsumerCbr_class_def])

interpretation batches: consumer_class "ConsumerBatches_class env" for env
  by (rule plain_class [OF batches_schedule_core ConsumerBatches_class_def])

section \<open>Zipf-Mandelbrot draws\<close>

lemma pcum_loop_length [simp]: "length (pcum_loop D q s i n acc) = n"
  by (induction n arbitrary: i acc) (simp_all add: Let_def)

lemma zipf_draw_ends:
  assumes "\<not> d_eq D (rv k) (d_of_int D 0)"
  shows "\<exists>p rv'. zipf_draw D rv = Some (p, rv') \<and> \<not> d_eq D p (d_of_int D 0)"
  using assms
proof (induction k arbitrary: rv)
  case 0
  then show ?case by (subst zipf_draw.simps) simp
next
  case (Suc k)
  show ?case
  proof (cases "d_eq D (rv 0) (d_of_int D 0)")
    case True
    then have "zipf_draw D rv = zipf_draw D (\<lambda>n. rv (Suc n))" by (subst zipf_draw.simps) simp
    then show ?thesis using Suc.IH [of "\<lambda>n. rv (Suc n)"] Suc.prems by simp
  qed (subst zipf_draw.simps, simp)
qed

text \<open>The index drawn is that of the first sum not below the random number.\<close>

lemma zipf_index_correct:
  assumes "j < length ps" "d_le D p (ps ! j)"
  shows "\<exists>k \<le> j. zipf_index D p i ps = i + k \<and> d_le D p (ps ! k) \<and> (\<forall>l < k. \<not> d_le D p (ps ! l))"
  using assms
proof (induction ps arbitrary: i j)
  case (Cons x ps)
  show ?case
  proof (cases "d_le D p x")
    case False
    then obtain j' where j: "j = Suc j'" "j' < length ps" "d_le D p (ps ! j')" using Cons.prems by (cases j) auto
    from Cons.IH [OF j(2,3), of "Suc i"] obtain k where k: "k \<le> j'" "zipf_index D p (Suc i) ps = Suc i + k" "d_le D p (ps ! k)"
      "\<forall>l < k. \<not> d_le D p (ps ! l)" by blast
    then have "\<forall>l < Suc k. \<not> d_le D p ((x # ps) ! l)" using False by (auto simp: less_Suc_eq_0_disj)
    then show ?thesis using k j False by (intro exI [of _ "Suc k"]) simp
  qed (intro exI [of _ 0], simp)
qed simp

lemma zipf_index_range: "1 \<le> i \<Longrightarrow> ps \<noteq> [] \<Longrightarrow> 1 \<le> zipf_index D p i ps \<and> zipf_index D p i ps < i + length ps"
proof (induction ps arbitrary: i)
  case (Cons x ps)
  then show ?case using Cons.IH [of "Suc i"] by (cases "ps = []") auto
qed simp

section \<open>Queue sizes\<close>

lemma queue_size_bound:
  assumes "\<forall>e \<in> set (nacc_queueSizes n). snd e \<le> nacc_buffer n" "NaccMecIcn_GetIntQueueSizePerFlow pfx n = (ql, n')"
  shows "\<forall>e \<in> set (nacc_queueSizes n'). snd e \<le> nacc_buffer n'" "ql \<le> nacc_buffer n'"
proof -
  let ?P = "\<lambda>e :: name \<times> u32. Name_compare (fst e) pfx = 0"
  have u: "\<forall>e \<in> set (update_first P f es). snd e \<le> b"
    if "\<forall>e \<in> set es. snd e \<le> b" "\<And>e. find P es = Some e \<Longrightarrow> snd (f e) \<le> b" for P f and es :: "(name \<times> u32) list" and b
    using that by (induction es) auto
  let ?f = "\<lambda>(k, q). (k, q + 1) :: name \<times> u32"
  have "\<forall>e \<in> set (update_first ?P ?f (nacc_queueSizes n)). snd e \<le> nacc_buffer n"
    if "find ?P (nacc_queueSizes n) = Some (k, ql)" "ql + 1 \<le> nacc_buffer n" for k ql
    by (rule u [OF assms(1)]) (use that in auto)
  then show "\<forall>e \<in> set (nacc_queueSizes n'). snd e \<le> nacc_buffer n'"
    using assms(1) assms(2) [symmetric] unfolding NaccMecIcn_GetIntQueueSizePerFlow_def Let_def
    by (cases "find ?P (nacc_queueSizes n)") (simp_all split: prod.splits if_splits)
  show "ql \<le> nacc_buffer n'"
    using assms by (auto simp: NaccMecIcn_GetIntQueueSizePerFlow_def Let_def split: option.splits if_splits dest!: find_Some_set)
qed

end
