(* ===== verification/Rib.thy ===== *)
theory Rib
  imports TableEntries
begin

text \<open>
  The routing information base: \<open>NFD/rib/route.hpp\<close>, \<open>rib-entry.cpp\<close> and \<open>rib.cpp\<close> without its queue of updates, which
  is in \<open>RibDaemon\<close>. The table \<open>m_rib\<close>, a \<open>std::map\<close>, is the list of its pairs in the order of the names; the shared pointers
  between entries are the names of the entries. Identifiers of events that are cancelled and signals that are emitted are
  recorded in the order of the calls.
\<close>

section \<open>Routes\<close>

record route =
  rt_faceId :: u64
  rt_origin :: u64
  rt_flags :: u64
  rt_cost :: u64
  rt_expires :: timepoint
  rt_expirationEvent :: "nat option"

definition steady_clock_min :: timepoint where "steady_clock_min = - 9223372036854775808"

definition Route_ctor :: route where
  "Route_ctor = \<lparr>rt_faceId = 0, rt_origin = 0, rt_flags = 0, rt_cost = 0, rt_expires = steady_clock_min, rt_expirationEvent = None\<rparr>"

definition ROUTE_FLAG_CHILD_INHERIT :: u64 where "ROUTE_FLAG_CHILD_INHERIT = 1"

definition ROUTE_FLAG_CAPTURE :: u64 where "ROUTE_FLAG_CAPTURE = 2"

definition Route_isChildInherit :: "route \<Rightarrow> bool" where
  "Route_isChildInherit r \<longleftrightarrow> rt_flags r AND ROUTE_FLAG_CHILD_INHERIT \<noteq> 0"

definition Route_isCapture :: "route \<Rightarrow> bool" where
  "Route_isCapture r \<longleftrightarrow> rt_flags r AND ROUTE_FLAG_CAPTURE \<noteq> 0"

definition Route_equals :: "route \<Rightarrow> route \<Rightarrow> bool" where
  "Route_equals a b \<longleftrightarrow> rt_faceId a = rt_faceId b \<and> rt_origin a = rt_origin b \<and> rt_flags a = rt_flags b \<and>
     rt_cost a = rt_cost b \<and> rt_expires a = rt_expires b"

definition compareFaceIdAndOrigin :: "route \<Rightarrow> route \<Rightarrow> bool" where
  "compareFaceIdAndOrigin a b \<longleftrightarrow> rt_faceId a = rt_faceId b \<and> rt_origin a = rt_origin b"

definition compareFaceId :: "route \<Rightarrow> u64 \<Rightarrow> bool" where
  "compareFaceId a f \<longleftrightarrow> rt_faceId a = f"

section \<open>Entries\<close>

record rib_entry =
  re_name :: name
  re_children :: "name list"
  re_parent :: "name option"
  re_routes :: "route list"
  re_inheritedRoutes :: "route list"
  re_nRoutesWithCaptureSet :: u64

definition RibEntry_ctor :: rib_entry where
  "RibEntry_ctor = \<lparr>re_name = [], re_children = [], re_parent = None, re_routes = [], re_inheritedRoutes = [],
     re_nRoutesWithCaptureSet = 0\<rparr>"

definition RibEntry_findRoute :: "route \<Rightarrow> rib_entry \<Rightarrow> route option" where
  "RibEntry_findRoute r e = find (\<lambda>x. compareFaceIdAndOrigin x r) (re_routes e)"

definition RibEntry_insertRoute :: "route \<Rightarrow> rib_entry \<Rightarrow> bool \<times> rib_entry" where
  "RibEntry_insertRoute r e = (case RibEntry_findRoute r e of
       None \<Rightarrow>
         let e1 = (if rt_flags r AND ROUTE_FLAG_CAPTURE \<noteq> 0
                   then e\<lparr>re_nRoutesWithCaptureSet := re_nRoutesWithCaptureSet e + 1\<rparr> else e)
         in (True, e1\<lparr>re_routes := re_routes e1 @ [r]\<rparr>)
     | Some _ \<Rightarrow> (False, e))"

text \<open>The event that is cancelled, if any, and the entry.\<close>

definition RibEntry_eraseRoute :: "route \<Rightarrow> rib_entry \<Rightarrow> nat option \<times> rib_entry" where
  "RibEntry_eraseRoute r e = (case RibEntry_findRoute r e of
       None \<Rightarrow> (None, e)
     | Some x \<Rightarrow>
         let e1 = (if rt_flags x AND ROUTE_FLAG_CAPTURE \<noteq> 0
                   then e\<lparr>re_nRoutesWithCaptureSet := re_nRoutesWithCaptureSet e - 1\<rparr> else e)
         in (rt_expirationEvent x, e1\<lparr>re_routes := erase_first (\<lambda>x. compareFaceIdAndOrigin x r) (re_routes e1)\<rparr>))"

definition RibEntry_hasRoute :: "route \<Rightarrow> rib_entry \<Rightarrow> bool" where
  "RibEntry_hasRoute r e \<longleftrightarrow> RibEntry_findRoute r e \<noteq> None"

definition RibEntry_hasFaceId :: "u64 \<Rightarrow> rib_entry \<Rightarrow> bool" where
  "RibEntry_hasFaceId f e \<longleftrightarrow> find (\<lambda>x. compareFaceId x f) (re_routes e) \<noteq> None"

definition RibEntry_getNRoutes :: "rib_entry \<Rightarrow> nat" where
  "RibEntry_getNRoutes e = length (re_routes e)"

definition RibEntry_addInheritedRoute :: "route \<Rightarrow> rib_entry \<Rightarrow> rib_entry" where
  "RibEntry_addInheritedRoute r e = e\<lparr>re_inheritedRoutes := re_inheritedRoutes e @ [r]\<rparr>"

definition RibEntry_findInheritedRoute :: "route \<Rightarrow> rib_entry \<Rightarrow> route option" where
  "RibEntry_findInheritedRoute r e = find (\<lambda>x. compareFaceId x (rt_faceId r)) (re_inheritedRoutes e)"

definition RibEntry_hasInheritedRoute :: "route \<Rightarrow> rib_entry \<Rightarrow> bool" where
  "RibEntry_hasInheritedRoute r e \<longleftrightarrow> RibEntry_findInheritedRoute r e \<noteq> None"

text \<open>Erasing the end of the list is undefined.\<close>

definition RibEntry_removeInheritedRoute :: "route \<Rightarrow> rib_entry \<Rightarrow> rib_entry option" where
  "RibEntry_removeInheritedRoute r e = (case RibEntry_findInheritedRoute r e of
       None \<Rightarrow> None
     | Some _ \<Rightarrow> Some (e\<lparr>re_inheritedRoutes := erase_first (\<lambda>x. compareFaceId x (rt_faceId r)) (re_inheritedRoutes e)\<rparr>))"

definition RibEntry_hasCapture :: "rib_entry \<Rightarrow> bool" where
  "RibEntry_hasCapture e \<longleftrightarrow> re_nRoutesWithCaptureSet e > 0"

definition RibEntry_hasChildInheritOnFaceId :: "u64 \<Rightarrow> rib_entry \<Rightarrow> bool" where
  "RibEntry_hasChildInheritOnFaceId f e \<longleftrightarrow>
     list_ex (\<lambda>r. rt_faceId r = f \<and> rt_flags r AND ROUTE_FLAG_CHILD_INHERIT \<noteq> 0) (re_routes e)"

text \<open>The first of the routes with the lowest cost among those that satisfy a condition.\<close>

definition lowest_cost :: "(route \<Rightarrow> bool) \<Rightarrow> route list \<Rightarrow> route option" where
  "lowest_cost P rs = fold (\<lambda>r candidate.
     if P r then (case candidate of None \<Rightarrow> Some r | Some c \<Rightarrow> if rt_cost r < rt_cost c then Some r else Some c)
     else candidate) rs None"

definition RibEntry_getRouteWithLowestCostByFaceId :: "u64 \<Rightarrow> rib_entry \<Rightarrow> route option" where
  "RibEntry_getRouteWithLowestCostByFaceId f e = lowest_cost (\<lambda>r. rt_faceId r = f) (re_routes e)"

text \<open>The function returns a pointer into a vector of its own, which it has put in order with \<open>std::nth_element\<close>. What reading through the
  pointer gives is a parameter.\<close>

definition RibEntry_getRouteWithSecondLowestCostByFaceId :: "(route list \<Rightarrow> route) \<Rightarrow> u64 \<Rightarrow> rib_entry \<Rightarrow> route option" where
  "RibEntry_getRouteWithSecondLowestCostByFaceId second f e =
     (let matches = filter (\<lambda>r. rt_faceId r = f) (re_routes e)
      in if length matches < 2 then None else Some (second matches))"

definition RibEntry_getRouteWithLowestCostAndChildInheritByFaceId :: "u64 \<Rightarrow> rib_entry \<Rightarrow> route option" where
  "RibEntry_getRouteWithLowestCostAndChildInheritByFaceId f e =
     lowest_cost (\<lambda>r. rt_faceId r = f \<and> rt_flags r AND ROUTE_FLAG_CHILD_INHERIT = ROUTE_FLAG_CHILD_INHERIT) (re_routes e)"

section \<open>Sets of routes\<close>

text \<open>A \<open>RouteSet\<close> is ordered by the face; an element whose face is present is not inserted.\<close>

definition RouteSet_insert :: "route \<Rightarrow> route list \<Rightarrow> route list" where
  "RouteSet_insert r rs = (if rt_faceId r \<in> rt_faceId ` set rs then rs else insort_key rt_faceId r rs)"

definition RouteSet_find :: "route \<Rightarrow> route list \<Rightarrow> route option" where
  "RouteSet_find r rs = find (\<lambda>x. rt_faceId x = rt_faceId r) rs"

definition RouteSet_erase :: "route \<Rightarrow> route list \<Rightarrow> route list" where
  "RouteSet_erase r rs = filter (\<lambda>x. rt_faceId x \<noteq> rt_faceId r) rs"

section \<open>The table\<close>

type_synonym rib_table = "(name \<times> rib_entry) list"

datatype rib_signal = AfterInsertEntry name | AfterEraseEntry name

record rib =
  rib_table :: rib_table
  rib_faceMap :: "u64 \<Rightarrow> name list"
  rib_nItems :: nat
  rib_cancelled :: "nat list"
  rib_signals :: "rib_signal list"

definition Rib_ctor :: rib where
  "Rib_ctor = \<lparr>rib_table = [], rib_faceMap = \<lambda>_. [], rib_nItems = 0, rib_cancelled = [], rib_signals = []\<rparr>"

text \<open>Change the entry that a pointer points to.\<close>

definition rt_modify :: "name \<Rightarrow> (rib_entry \<Rightarrow> rib_entry) \<Rightarrow> rib_table \<Rightarrow> rib_table" where
  "rt_modify k f t = map (\<lambda>(n, e). if n = k then (n, f e) else (n, e)) t"

definition rt_parent :: "rib_table \<Rightarrow> name \<Rightarrow> name option" where
  "rt_parent t k = (case map_of t k of None \<Rightarrow> None | Some e \<Rightarrow> re_parent e)"

definition RibEntry_addChild :: "name \<Rightarrow> name \<Rightarrow> rib_table \<Rightarrow> rib_table" where
  "RibEntry_addChild this child t =
     rt_modify this (\<lambda>e. e\<lparr>re_children := re_children e @ [child]\<rparr>) (rt_modify child (\<lambda>e. e\<lparr>re_parent := Some this\<rparr>) t)"

definition RibEntry_removeChild :: "name \<Rightarrow> name \<Rightarrow> rib_table \<Rightarrow> rib_table" where
  "RibEntry_removeChild this child t =
     rt_modify this (\<lambda>e. e\<lparr>re_children := removeAll child (re_children e)\<rparr>) (rt_modify child (\<lambda>e. e\<lparr>re_parent := None\<rparr>) t)"

definition Rib_find :: "name \<Rightarrow> rib \<Rightarrow> rib_entry option" where
  "Rib_find p rib = map_of (rib_table rib) p"

definition Rib_find_route :: "name \<Rightarrow> route \<Rightarrow> rib \<Rightarrow> route option" where
  "Rib_find_route p r rib = (case map_of (rib_table rib) p of None \<Rightarrow> None | Some e \<Rightarrow> RibEntry_findRoute r e)"

definition Rib_findParent :: "name \<Rightarrow> rib_table \<Rightarrow> name option" where
  "Rib_findParent p t = find (\<lambda>k. map_of t k \<noteq> None) (map (\<lambda>i. Name_getPrefix p (int i)) (rev [0 ..< length p]))"

definition Rib_findDescendants :: "name \<Rightarrow> rib_table \<Rightarrow> name list" where
  "Rib_findDescendants p t = (case dropWhile (\<lambda>k. k \<noteq> p) (map fst t) of
       [] \<Rightarrow> []
     | _ # rest \<Rightarrow> takeWhile (Name_isPrefixOf p) rest)"

definition Rib_findDescendantsForNonInsertedName :: "name \<Rightarrow> rib_table \<Rightarrow> name list" where
  "Rib_findDescendantsForNonInsertedName p t = filter (Name_isPrefixOf p) (map fst t)"

text \<open>The loop of \<open>insert\<close> over the descendants of the new entry.\<close>

definition adopt_child :: "name \<Rightarrow> name option \<Rightarrow> name \<Rightarrow> rib_table \<Rightarrow> rib_table" where
  "adopt_child p parent child t =
     (if rt_parent t child = parent
      then RibEntry_addChild p child (case parent of None \<Rightarrow> t | Some q \<Rightarrow> RibEntry_removeChild q child t)
      else t)"

definition Rib_insert :: "name \<Rightarrow> route \<Rightarrow> rib \<Rightarrow> rib" where
  "Rib_insert p r rib = (case map_of (rib_table rib) p of
       Some e \<Rightarrow>
         (case RibEntry_findRoute r e of
            None \<Rightarrow>
              rib\<lparr>rib_table := rt_modify p (\<lambda>e. snd (RibEntry_insertRoute r e)) (rib_table rib),
                  rib_nItems := rib_nItems rib + 1,
                  rib_faceMap := (rib_faceMap rib)(rt_faceId r := rib_faceMap rib (rt_faceId r) @ [p])\<rparr>
          | Some x \<Rightarrow>
              rib\<lparr>rib_cancelled := rib_cancelled rib @ (case rt_expirationEvent x of None \<Rightarrow> [] | Some ev \<Rightarrow> [ev]),
                  rib_table := rt_modify p (\<lambda>e. e\<lparr>re_routes := update_first (\<lambda>x. compareFaceIdAndOrigin x r)
                     (\<lambda>x. x\<lparr>rt_expirationEvent := rt_expirationEvent r, rt_flags := rt_flags r, rt_cost := rt_cost r,
                            rt_expires := rt_expires r\<rparr>) (re_routes e)\<rparr>) (rib_table rib)\<rparr>)
     | None \<Rightarrow>
         let e = snd (RibEntry_insertRoute r (RibEntry_ctor\<lparr>re_name := p\<rparr>));
             t1 = insort_key fst (p, e) (rib_table rib);
             parent = Rib_findParent p t1;
             t2 = (case parent of None \<Rightarrow> t1 | Some q \<Rightarrow> RibEntry_addChild q p t1);
             t3 = fold (adopt_child p parent) (Rib_findDescendants p t2) t2
         in rib\<lparr>rib_table := t3, rib_nItems := rib_nItems rib + 1,
                rib_faceMap := (rib_faceMap rib)(rt_faceId r := rib_faceMap rib (rt_faceId r) @ [p]),
                rib_signals := rib_signals rib @ [AfterInsertEntry p]\<rparr>)"

text \<open>The loop of \<open>eraseEntry\<close> over the children, which are given to the parent.\<close>

definition release_child :: "name \<Rightarrow> name option \<Rightarrow> name \<Rightarrow> rib_table \<Rightarrow> rib_table" where
  "release_child p parent child t =
     (let t1 = RibEntry_removeChild p child t in case parent of None \<Rightarrow> t1 | Some q \<Rightarrow> RibEntry_addChild q child t1)"

definition Rib_eraseEntry :: "name \<Rightarrow> rib \<Rightarrow> rib" where
  "Rib_eraseEntry p rib = (case map_of (rib_table rib) p of
       None \<Rightarrow> rib
     | Some e \<Rightarrow>
         let parent = re_parent e;
             t1 = (case parent of None \<Rightarrow> rib_table rib | Some q \<Rightarrow> RibEntry_removeChild q p (rib_table rib));
             t2 = fold (release_child p parent) (re_children e) t1
         in rib\<lparr>rib_table := filter (\<lambda>x. fst x \<noteq> p) t2, rib_signals := rib_signals rib @ [AfterEraseEntry p]\<rparr>)"

definition Rib_erase :: "name \<Rightarrow> route \<Rightarrow> rib \<Rightarrow> rib" where
  "Rib_erase p r rib = (case map_of (rib_table rib) p of
       None \<Rightarrow> rib
     | Some e \<Rightarrow>
         (case RibEntry_findRoute r e of
            None \<Rightarrow> rib
          | Some _ \<Rightarrow>
              let (ev, e1) = RibEntry_eraseRoute r e;
                  rib1 = rib\<lparr>rib_table := rt_modify p (\<lambda>_. e1) (rib_table rib), rib_nItems := rib_nItems rib - 1,
                             rib_cancelled := rib_cancelled rib @ (case ev of None \<Rightarrow> [] | Some i \<Rightarrow> [i])\<rparr>;
                  rib2 = (if \<not> RibEntry_hasFaceId (rt_faceId r) e1
                          then rib1\<lparr>rib_faceMap := (rib_faceMap rib1)(rt_faceId r := removeAll p (rib_faceMap rib1 (rt_faceId r)))\<rparr>
                          else rib1)
              in if RibEntry_getNRoutes e1 = 0 then Rib_eraseEntry p rib2 else rib2))"

text \<open>The routes that an entry gets from its ancestors: the walk up from a first ancestor, which ends at one that captures.
  A walk takes at most one step for each entry of the table.\<close>

definition insert_inheritable :: "route list \<Rightarrow> route list \<Rightarrow> route list" where
  "insert_inheritable rs acc = fold (\<lambda>r acc. if Route_isChildInherit r then RouteSet_insert r acc else acc) rs acc"

fun ancestor_walk :: "nat \<Rightarrow> rib_table \<Rightarrow> name option \<Rightarrow> route list \<Rightarrow> route list" where
  "ancestor_walk n t None acc = acc"
| "ancestor_walk 0 t (Some q) acc = acc"
| "ancestor_walk (Suc n) t (Some q) acc = (case map_of t q of
       None \<Rightarrow> acc
     | Some e \<Rightarrow>
         let acc1 = insert_inheritable (re_routes e) acc
         in if RibEntry_hasCapture e then acc1 else ancestor_walk n t (re_parent e) acc1)"

definition Rib_getAncestorRoutes_entry :: "rib_entry \<Rightarrow> rib_table \<Rightarrow> route list" where
  "Rib_getAncestorRoutes_entry e t = ancestor_walk (length t) t (re_parent e) []"

definition Rib_getAncestorRoutes_name :: "name \<Rightarrow> rib_table \<Rightarrow> route list" where
  "Rib_getAncestorRoutes_name p t = ancestor_walk (length t) t (Rib_findParent p t) []"

definition Rib_findRoutesWithFaceId :: "u64 \<Rightarrow> rib \<Rightarrow> (name \<times> route) list" where
  "Rib_findRoutesWithFaceId f rib = concat (map (\<lambda>k. case map_of (rib_table rib) k of
       None \<Rightarrow> []
     | Some e \<Rightarrow> map (Pair k) (filter (\<lambda>r. rt_faceId r = f) (re_routes e))) (rib_faceMap rib f))"

section \<open>The nearest prefix in a set of names\<close>

definition nearest :: "name set \<Rightarrow> name \<Rightarrow> name option" where
  "nearest D k = find (\<lambda>q. q \<in> D) (map (\<lambda>i. take i k) (rev [0 ..< length k]))"

lemma strict_prefix_iff_take: "strict_prefix q k \<longleftrightarrow> (\<exists>i < length k. q = take i k)"
proof
  assume s: "strict_prefix q k"
  then have "q = take (length q) k" by (auto simp: strict_prefix_def prefix_def)
  then show "\<exists>i < length k. q = take i k" using prefix_length_less [OF s] by blast
qed (auto simp: strict_prefix_def take_is_prefix)

lemma nearest_cong:
  assumes "\<And>q. strict_prefix q k \<Longrightarrow> q \<in> D \<longleftrightarrow> q \<in> D'"
  shows "nearest D k = nearest D' k"
proof -
  have "take i k \<in> D \<longleftrightarrow> take i k \<in> D'" if "i < length k" for i
    using assms [of "take i k"] that strict_prefix_iff_take by blast
  then show ?thesis unfolding nearest_def by (intro find_cong [OF refl]) auto
qed

lemma nearest_None: "nearest D k = None \<longleftrightarrow> (\<forall>q \<in> D. \<not> strict_prefix q k)"
proof -
  have "set (map (\<lambda>i. take i k) (rev [0 ..< length k])) = {q. strict_prefix q k}"
    by (auto simp: strict_prefix_iff_take image_iff)
  then show ?thesis unfolding nearest_def find_None_set by auto
qed

lemma nearest_Some_iff:
  "nearest D k = Some q \<longleftrightarrow> q \<in> D \<and> strict_prefix q k \<and> (\<forall>q' \<in> D. strict_prefix q' k \<longrightarrow> prefix q' q)"
proof -
  have "nearest D k = Some q \<Longrightarrow> q \<in> D \<and> strict_prefix q k \<and> (\<forall>q' \<in> D. strict_prefix q' k \<longrightarrow> prefix q' q)" for q
  proof -
    assume "nearest D k = Some q"
    then obtain i where i: "i < length k" "take (length k - Suc i) k \<in> D" "q = take (length k - Suc i) k"
      "\<forall>j < i. take (length k - Suc j) k \<notin> D"
      by (auto simp: nearest_def find_Some_iff rev_nth)
    have "prefix q' q" if "q' \<in> D" "strict_prefix q' k" for q'
    proof (rule ccontr)
      assume "\<not> prefix q' q"
      have l: "length q' < length k" using that(2) by (rule prefix_length_less)
      have t: "q' = take (length q') k" using that(2) by (auto simp: strict_prefix_def prefix_def)
      have "length k - Suc i < length q'"
      proof (rule ccontr)
        assume "\<not> length k - Suc i < length q'"
        then have "q' = take (length q') q" using t i(3) by (simp add: min_def)
        then show False using \<open>\<not> prefix q' q\<close> take_is_prefix by metis
      qed
      moreover define j where "j = length k - Suc (length q')"
      ultimately have "j < i" "length k - Suc j = length q'" using l i(1) by auto
      then show False using i(4) t that(1) by metis
    qed
    moreover have "strict_prefix q k" using i by (auto simp: strict_prefix_def take_is_prefix)
    ultimately show ?thesis using i by auto
  qed
  moreover have "nearest D k = Some q" if "q \<in> D" "strict_prefix q k" "\<forall>q' \<in> D. strict_prefix q' k \<longrightarrow> prefix q' q"
  proof (cases "nearest D k")
    case None
    then show ?thesis using that nearest_None by blast
  next
    case (Some q')
    then show ?thesis using calculation [OF Some] that by (metis prefix_order.antisym)
  qed
  ultimately show ?thesis by blast
qed

lemma nearest_insert:
  assumes "p \<notin> D"
  shows "nearest (insert p D) k = (if strict_prefix p k \<and> nearest D k = nearest D p then Some p else nearest D k)"
proof (cases "strict_prefix p k")
  case False
  then have "nearest (insert p D) k = nearest D k" by (intro nearest_cong) auto
  then show ?thesis using False by simp
next
  case True
  have strict: "strict_prefix q p" if "q \<in> D" "prefix q p" for q using that assms by (auto simp: strict_prefix_def)
  show ?thesis
  proof (cases "\<forall>q \<in> D. strict_prefix q k \<longrightarrow> prefix q p")
    case t: True
    then have "nearest (insert p D) k = Some p" using True by (auto simp: nearest_Some_iff)
    moreover have sp: "q \<in> D \<Longrightarrow> strict_prefix q k \<longleftrightarrow> strict_prefix q p" for q
      using t strict True prefix_order.less_trans by blast
    have "nearest D k = nearest D p"
    proof (cases "nearest D p")
      case None
      then show ?thesis using sp nearest_None by metis
    next
      case (Some q)
      then have "nearest D k = Some q" using sp unfolding nearest_Some_iff by blast
      then show ?thesis using Some by simp
    qed
    ultimately show ?thesis using True by simp
  next
    case False
    then obtain q where q: "q \<in> D" "strict_prefix q k" "\<not> prefix q p" by blast
    then have pq: "strict_prefix p q" using True by (metis prefix_order.less_imp_le prefix_same_cases strict_prefix_def)
    obtain q' where q': "nearest D k = Some q'" using q nearest_None [of D k] by (cases "nearest D k") auto
    then have "prefix q q'" using q by (simp add: nearest_Some_iff)
    then have "strict_prefix p q'" using pq prefix_order.less_le_trans by blast
    then have "nearest D p \<noteq> Some q'" by (auto simp: nearest_Some_iff)
    moreover have "nearest (insert p D) k = Some q'"
      using q' True \<open>strict_prefix p q'\<close> by (auto simp: nearest_Some_iff)
    ultimately show ?thesis using q' by simp
  qed
qed

lemma nearest_strict: "nearest D k = Some q \<Longrightarrow> q \<in> D \<and> strict_prefix q k"
  by (simp add: nearest_Some_iff)

lemma nearest_remove:
  assumes "p \<in> D"
  shows "nearest (D - {p}) k = (if nearest D k = Some p then nearest D p else nearest D k)"
proof -
  let ?E = "D - {p}"
  have D: "D = insert p ?E" using assms by auto
  have k: "nearest D k = (if strict_prefix p k \<and> nearest ?E k = nearest ?E p then Some p else nearest ?E k)"
    by (subst D, rule nearest_insert) simp
  have pp: "nearest D p = nearest ?E p" by (subst D, subst nearest_insert) simp_all
  have n: "nearest ?E k \<noteq> Some p" using nearest_strict [of ?E k p] by blast
  show ?thesis
  proof (cases "strict_prefix p k \<and> nearest ?E k = nearest ?E p")
    case True
    then show ?thesis using k pp by simp
  next
    case False
    then have "nearest D k = nearest ?E k" using k by (simp only: if_False)
    then show ?thesis using n by simp
  qed
qed

lemma findParent_nearest:
  assumes "length p < npos"
  shows "Rib_findParent p t = nearest (dom (map_of t)) p"
proof -
  have "map (\<lambda>i. Name_getPrefix p (int i)) (rev [0 ..< length p]) = map (\<lambda>i. take i p) (rev [0 ..< length p])"
    using assms by (intro map_cong [OF refl]) (simp add: Name_getPrefix_nonneg)
  then show ?thesis unfolding Rib_findParent_def nearest_def by (simp only: domIff)
qed

lemma prefix_le: "prefix p b \<Longrightarrow> p \<le> (b :: name)"
proof (induction p arbitrary: b)
  case (Cons x p)
  then show ?case by (cases b) auto
qed simp

section \<open>Tables\<close>

lemma map_of_rt_modify [simp]: "map_of (rt_modify k f t) n = (if n = k then map_option f (map_of t n) else map_of t n)"
  by (induction t) (auto simp: rt_modify_def)

lemma fst_rt_modify [simp]: "map fst (rt_modify k f t) = map fst t"
  by (induction t) (auto simp: rt_modify_def)

lemma fst_addChild [simp]: "map fst (RibEntry_addChild q c t) = map fst t" "map fst (RibEntry_removeChild q c t) = map fst t"
  by (simp_all add: RibEntry_addChild_def RibEntry_removeChild_def)

lemma fst_adopt [simp]: "map fst (adopt_child p parent c t) = map fst t" "map fst (release_child p parent c t) = map fst t"
  by (simp_all add: adopt_child_def release_child_def Let_def split: option.split)

lemma fst_adopt_fold [simp]: "map fst (fold (adopt_child p parent) cs t) = map fst t" "map fst (fold (release_child p parent) cs t) = map fst t"
  by (induction cs arbitrary: t) auto

text \<open>What a step of the loops does to an entry.\<close>

definition relink :: "name set \<Rightarrow> name option \<Rightarrow> (name list \<Rightarrow> name list) \<Rightarrow> name \<Rightarrow> rib_entry \<Rightarrow> rib_entry" where
  "relink A parent f k e = e\<lparr>re_parent := (if k \<in> A then parent else re_parent e), re_children := f (re_children e)\<rparr>"

lemma relink_eqI: "(k \<in> A \<longleftrightarrow> k \<in> B) \<Longrightarrow> f (re_children e) = g (re_children e) \<Longrightarrow> relink A q f k e = relink B q g k e"
  by (simp add: relink_def)

lemma relink_relink: "relink A q f k (relink B q g k e) = relink (A \<union> B) q (\<lambda>cs. f (g cs)) k e"
  by (simp add: relink_def)

lemma adopt_child_of:
  assumes "c \<noteq> p" "parent \<noteq> Some p" "parent \<noteq> Some c"
  shows "map_of (adopt_child p parent c t) k = map_option (\<lambda>e. if rt_parent t c = parent then
      relink {c} (Some p) (\<lambda>cs. if k = p then cs @ [c] else if Some k = parent then removeAll c cs else cs) k e else e) (map_of t k)"
  using assms by (cases "map_of t k")
    (auto simp: adopt_child_def RibEntry_addChild_def RibEntry_removeChild_def relink_def split: option.split)

lemma release_child_of:
  assumes "c \<noteq> p" "parent \<noteq> Some p" "parent \<noteq> Some c"
  shows "map_of (release_child p parent c t) k = map_option (
      relink {c} parent (\<lambda>cs. if k = p then removeAll c cs else if Some k = parent then cs @ [c] else cs) k) (map_of t k)"
  using assms by (cases "map_of t k")
    (auto simp: release_child_def RibEntry_addChild_def RibEntry_removeChild_def relink_def Let_def split: option.split)

lemma adopt_fold_of:
  assumes "distinct cs" "p \<notin> set cs" "parent \<noteq> Some p" "\<forall>c \<in> set cs. parent \<noteq> Some c"
  shows "map_of (fold (adopt_child p parent) cs t) k =
    map_option (relink {c \<in> set cs. rt_parent t c = parent} (Some p)
      (\<lambda>ds. if k = p then ds @ filter (\<lambda>c. rt_parent t c = parent) cs
            else if Some k = parent then filter (\<lambda>d. \<not> (d \<in> set cs \<and> rt_parent t d = parent)) ds else ds) k) (map_of t k)"
  using assms
proof (induction cs arbitrary: t)
  case Nil
  then show ?case by (cases "map_of t k") (auto simp: relink_def)
next
  case (Cons c cs)
  let ?t = "adopt_child p parent c t"
  have c: "c \<noteq> p" "parent \<noteq> Some p" "parent \<noteq> Some c" "c \<notin> set cs" using Cons.prems by auto
  have par: "rt_parent ?t d = rt_parent t d" if "d \<in> set cs" for d
    using that Cons.prems c by (cases "map_of t d") (auto simp: rt_parent_def adopt_child_of relink_def)
  then have f: "filter (\<lambda>d. rt_parent ?t d = parent) cs = filter (\<lambda>d. rt_parent t d = parent) cs" by (intro filter_cong) auto
  have A: "{d \<in> set cs. rt_parent ?t d = parent} = {d \<in> set cs. rt_parent t d = parent}" using par by auto
  have g: "(\<lambda>d. \<not> (d \<in> set cs \<and> rt_parent ?t d = parent)) = (\<lambda>d. \<not> (d \<in> set cs \<and> rt_parent t d = parent))" using par by auto
  have IH: "map_of (fold (adopt_child p parent) cs ?t) k =
      map_option (relink {c \<in> set cs. rt_parent t c = parent} (Some p)
      (\<lambda>ds. if k = p then ds @ filter (\<lambda>c. rt_parent t c = parent) cs
            else if Some k = parent then filter (\<lambda>d. \<not> (d \<in> set cs \<and> rt_parent t d = parent)) ds else ds) k) (map_of ?t k)"
    using Cons.IH [of ?t] Cons.prems unfolding f A g by simp
  show ?case
  proof (cases "map_of t k")
    case None
    then show ?thesis using IH c by (simp add: adopt_child_of)
  next
    case (Some e)
    show ?thesis
    proof (cases "rt_parent t c = parent")
      case True
      then show ?thesis
        using c by (simp add: IH adopt_child_of Some relink_relink) (auto simp: removeAll_filter_not_eq intro!: relink_eqI filter_cong)
    next
      case False
      then show ?thesis
        using c by (simp add: IH adopt_child_of Some) (auto intro!: relink_eqI filter_cong)
    qed
  qed
qed

lemma release_fold_of:
  assumes "distinct cs" "p \<notin> set cs" "parent \<noteq> Some p" "\<forall>c \<in> set cs. parent \<noteq> Some c"
  shows "map_of (fold (release_child p parent) cs t) k =
    map_option (relink (set cs) parent (\<lambda>ds. if k = p then filter (\<lambda>d. d \<notin> set cs) ds
      else if Some k = parent then ds @ cs else ds) k) (map_of t k)"
  using assms
proof (induction cs arbitrary: t)
  case Nil
  then show ?case by (cases "map_of t k") (auto simp: relink_def)
next
  case (Cons c cs)
  have c: "c \<noteq> p" "parent \<noteq> Some p" "parent \<noteq> Some c" "c \<notin> set cs" using Cons.prems by auto
  have IH: "map_of (fold (release_child p parent) cs (release_child p parent c t)) k =
    map_option (relink (set cs) parent (\<lambda>ds. if k = p then filter (\<lambda>d. d \<notin> set cs) ds
      else if Some k = parent then ds @ cs else ds) k) (map_of (release_child p parent c t) k)"
    using Cons.IH [of "release_child p parent c t"] Cons.prems by simp
  show ?case
    using c by (cases "map_of t k") (simp_all add: IH release_child_of relink_relink, auto simp: removeAll_filter_not_eq intro!: relink_eqI filter_cong)
qed

section \<open>Descendants\<close>

lemma sorted_after:
  assumes "sorted_wrt (<) ks" "p \<in> set ks"
  shows "dropWhile (\<lambda>k. k \<noteq> p) ks = p # filter (\<lambda>k. p < k) (ks :: 'a :: linorder list)"
  using assms
proof (induction ks)
  case (Cons x ks)
  show ?case
  proof (cases "x = p")
    case True
    then show ?thesis using Cons.prems by (auto intro!: filter_True [symmetric])
  next
    case False
    then have "p \<in> set ks" "x < p" using Cons.prems by auto
    then show ?thesis using Cons False by (simp add: less_not_sym)
  qed
qed simp

lemma takeWhile_prefix:
  assumes "sorted_wrt (<) ks" "\<forall>k \<in> set ks. p < (k :: name)"
  shows "takeWhile (prefix p) ks = filter (prefix p) ks"
  using assms
proof (induction ks)
  case (Cons x ks)
  show ?case
  proof (cases "prefix p x")
    case False
    have "\<not> prefix p k" if "k \<in> set ks" for k
      using False prefix_between [of p k x] Cons.prems that by (auto dest: less_imp_le)
    then show ?thesis using False by (simp add: filter_empty_conv)
  qed (use Cons in simp)
qed simp

lemma findDescendants_correct:
  assumes "sorted_wrt (<) (map fst t)" "p \<in> fst ` set t" "\<forall>k \<in> fst ` set t. typed \<tau> k"
  shows "Rib_findDescendants p t = filter (strict_prefix p) (map fst t)"
proof -
  have typed: "typed \<tau> p" using assms(2,3) by blast
  let ?ks = "filter (\<lambda>k. p < k) (map fst t)"
  have d: "dropWhile (\<lambda>k. k \<noteq> p) (map fst t) = p # ?ks" using sorted_after [OF assms(1)] assms(2) by simp
  have "takeWhile (Name_isPrefixOf p) ?ks = takeWhile (prefix p) ?ks"
    using assms(3) Name_isPrefixOf_typed [OF typed] by (intro takeWhile_cong) auto
  also have "\<dots> = filter (prefix p) ?ks" using assms(1) by (intro takeWhile_prefix) (auto intro: sorted_wrt_filter)
  also have "\<dots> = filter (strict_prefix p) (map fst t)"
    unfolding filter_filter using prefix_le [of p] by (intro filter_cong) (auto simp: strict_prefix_def less_le)
  finally show ?thesis by (simp add: Rib_findDescendants_def d)
qed

section \<open>Invariant\<close>

definition links_ok :: "rib_table \<Rightarrow> bool" where
  "links_ok t \<longleftrightarrow> (\<forall>k e. map_of t k = Some e \<longrightarrow> re_name e = k \<and> re_parent e = nearest (dom (map_of t)) k \<and>
     distinct (re_children e) \<and> set (re_children e) = {c \<in> dom (map_of t). nearest (dom (map_of t)) c = Some k})"

definition routes_ok :: "rib_entry \<Rightarrow> bool" where
  "routes_ok e \<longleftrightarrow> re_routes e \<noteq> [] \<and> distinct (map (\<lambda>r. (rt_faceId r, rt_origin r)) (re_routes e))"

definition route_count :: "name \<times> rib_entry \<Rightarrow> nat" where
  "route_count = (\<lambda>(k, e). length (re_routes e))"

definition rib_inv :: "(bytes \<Rightarrow> u32) \<Rightarrow> rib \<Rightarrow> bool" where
  "rib_inv \<tau> rib \<longleftrightarrow> sorted_wrt (<) (map fst (rib_table rib)) \<and> (\<forall>k \<in> fst ` set (rib_table rib). typed \<tau> k \<and> length k < npos) \<and>
     links_ok (rib_table rib) \<and> (\<forall>k e. map_of (rib_table rib) k = Some e \<longrightarrow> routes_ok e) \<and>
     (\<forall>f. set (rib_faceMap rib f) = {k. \<exists>e. map_of (rib_table rib) k = Some e \<and> RibEntry_hasFaceId f e}) \<and>
     rib_nItems rib = sum_list (map route_count (rib_table rib))"

lemma sorted_distinct: "sorted_wrt (<) ks \<Longrightarrow> distinct (ks :: 'a :: linorder list)"
  by (induction ks) auto

lemma map_of_insort: "p \<notin> fst ` set t \<Longrightarrow> map_of (insort_key fst (p, e) t) = (map_of t)(p \<mapsto> e)"
  by (induction t) (auto simp: fun_eq_iff)

lemma sorted_insort_fst: "sorted_wrt (<) (map fst t) \<Longrightarrow> p \<notin> fst ` set t \<Longrightarrow> sorted_wrt (<) (map fst (insort_key fst (p, e) t))"
  by (induction t) (auto simp: set_insort_key)

lemma sum_insort: "sum_list (map g (insort_key f x xs)) = (g x :: nat) + sum_list (map g xs)"
  by (induction xs) auto

lemma sum_rt_modify:
  assumes "distinct (map fst t)" "map_of t k = Some e"
  shows "sum_list (map route_count (rt_modify k f t)) + length (re_routes e) = sum_list (map route_count t) + length (re_routes (f e))"
  using assms
proof (induction t)
  case (Cons y t)
  obtain n d where y: "y = (n, d)" by fastforce
  show ?case
  proof (cases "n = k")
    case True
    then have "rt_modify k f t = t" using Cons.prems(1) y by (auto simp: rt_modify_def image_iff intro!: map_idI)
    then show ?thesis using True Cons.prems y by (auto simp: rt_modify_def route_count_def)
  next
    case False
    then show ?thesis using Cons y by (auto simp: rt_modify_def route_count_def)
  qed
qed simp

lemma count_rt_modify: "(\<And>e. re_routes (f e) = re_routes e) \<Longrightarrow> map route_count (rt_modify k f t) = map route_count t"
  by (induction t) (auto simp: rt_modify_def route_count_def)

lemma count_links [simp]:
  "map route_count (RibEntry_addChild q c t) = map route_count t" "map route_count (RibEntry_removeChild q c t) = map route_count t"
  by (simp_all add: RibEntry_addChild_def RibEntry_removeChild_def count_rt_modify)

lemma count_adopt [simp]:
  "map route_count (adopt_child p parent c t) = map route_count t" "map route_count (release_child p parent c t) = map route_count t"
  by (simp_all add: adopt_child_def release_child_def Let_def split: option.split)

lemma count_adopt_fold [simp]:
  "map route_count (fold (adopt_child p parent) cs t) = map route_count t"
  "map route_count (fold (release_child p parent) cs t) = map route_count t"
  by (induction cs arbitrary: t) auto

lemma dom_fst: "map fst t = map fst t' \<Longrightarrow> dom (map_of t) = dom (map_of t')"
  by (metis dom_map_of_conv_image_fst set_map)

lemma relink_fields [simp]:
  "re_name (relink A q f k e) = re_name e" "re_routes (relink A q f k e) = re_routes e"
  "re_inheritedRoutes (relink A q f k e) = re_inheritedRoutes e" "re_nRoutesWithCaptureSet (relink A q f k e) = re_nRoutesWithCaptureSet e"
  "re_children (relink A q f k e) = f (re_children e)" "re_parent (relink A q f k e) = (if k \<in> A then q else re_parent e)"
  by (simp_all add: relink_def)

text \<open>The table after a new entry has been linked in.\<close>

definition rt_link :: "name \<Rightarrow> rib_entry \<Rightarrow> rib_table \<Rightarrow> rib_table" where
  "rt_link p e t = (let t1 = insort_key fst (p, e) t;
             parent = Rib_findParent p t1;
             t2 = (case parent of None \<Rightarrow> t1 | Some q \<Rightarrow> RibEntry_addChild q p t1)
         in fold (adopt_child p parent) (Rib_findDescendants p t2) t2)"

lemma rt_link_correct:
  assumes "sorted_wrt (<) (map fst t)" "\<forall>k \<in> fst ` set t. typed \<tau> k" "p \<notin> fst ` set t" "typed \<tau> p" "length p < npos" "links_ok t"
    and e: "re_name e = p" "re_children e = []" "re_parent e = None"
  shows "map fst (rt_link p e t) = map fst (insort_key fst (p, e) t)"
    "map route_count (rt_link p e t) = map route_count (insort_key fst (p, e) t)" "links_ok (rt_link p e t)"
    "\<And>k. map_option (\<lambda>x. (re_routes x, re_inheritedRoutes x, re_nRoutesWithCaptureSet x)) (map_of (rt_link p e t) k) =
      (if k = p then Some (re_routes e, re_inheritedRoutes e, re_nRoutesWithCaptureSet e)
       else map_option (\<lambda>x. (re_routes x, re_inheritedRoutes x, re_nRoutesWithCaptureSet x)) (map_of t k))"
proof -
  let ?t1 = "insort_key fst (p, e) t"
  let ?D = "dom (map_of t)"
  have p: "p \<notin> ?D" using assms(3) by (simp add: dom_map_of_conv_image_fst)
  have m1: "map_of ?t1 = (map_of t)(p \<mapsto> e)" using assms(3) by (rule map_of_insort)
  define parent where "parent = nearest ?D p"
  have parent: "Rib_findParent p ?t1 = parent"
    by (simp add: findParent_nearest assms(5) m1 nearest_insert p parent_def)
  have not_p: "parent \<noteq> Some p" unfolding parent_def using nearest_strict [of ?D p p] by auto
  define t2 where "t2 = (case parent of None \<Rightarrow> ?t1 | Some q \<Rightarrow> RibEntry_addChild q p ?t1)"
  have f2: "map fst t2 = map fst ?t1" by (simp add: t2_def split: option.split)
  have c2: "map route_count t2 = map route_count ?t1" by (simp add: t2_def split: option.split)
  have m2: "map_of t2 k = (if k = p then Some (e\<lparr>re_parent := parent\<rparr>)
      else map_option (\<lambda>x. x\<lparr>re_children := (if Some k = parent then re_children x @ [p] else re_children x)\<rparr>) (map_of t k))" for k
    using not_p by (cases parent; cases "map_of t k") (auto simp: t2_def m1 RibEntry_addChild_def e)
  let ?cs = "Rib_findDescendants p t2"
  have "set (map fst t2) = insert p (fst ` set t)" unfolding f2 by (simp add: set_insort_key)
  then have s2: "fst ` set t2 = insert p (fst ` set t)" by simp
  have cs: "?cs = filter (strict_prefix p) (map fst ?t1)"
    unfolding f2 [symmetric]
  proof (rule findDescendants_correct)
    show "sorted_wrt (<) (map fst t2)" unfolding f2 by (rule sorted_insort_fst [OF assms(1,3)])
    show "p \<in> fst ` set t2" "\<forall>k \<in> fst ` set t2. typed \<tau> k" unfolding s2 using assms(2,4) by simp_all
  qed
  have D2: "dom (map_of t2) = insert p ?D" using dom_fst [OF f2] m1 by simp
  have d: "distinct ?cs" unfolding cs using sorted_distinct [OF sorted_insort_fst [OF assms(1,3), of e]] by simp
  have set_cs: "set ?cs = {c \<in> ?D. strict_prefix p c}"
    unfolding cs by (auto simp: set_insort_key dom_map_of_conv_image_fst image_iff)
  have np: "p \<notin> set ?cs" using p set_cs by auto
  have nq: "\<forall>c \<in> set ?cs. parent \<noteq> Some c"
  proof
    fix c assume "c \<in> set ?cs"
    then have "strict_prefix p c" using set_cs by simp
    moreover have "strict_prefix c p" if "parent = Some c" using nearest_strict that unfolding parent_def by blast
    ultimately show "parent \<noteq> Some c" using prefix_order.less_asym by blast
  qed
  let ?A = "{c \<in> set ?cs. rt_parent t2 c = parent}"
  have par: "rt_parent t2 c = nearest ?D c" if "c \<in> ?D" for c
    using assms(6) p that by (auto simp: links_ok_def rt_parent_def m2)
  have A: "?A = {c \<in> ?D. strict_prefix p c \<and> nearest ?D c = parent}" by (auto simp: set_cs par [OF domI])
  have link: "rt_link p e t = fold (adopt_child p parent) ?cs t2" by (simp add: rt_link_def Let_def parent t2_def)
  have fl: "filter (\<lambda>c. rt_parent t2 c = parent) ?cs = filter (\<lambda>c. c \<in> ?A) ?cs" by (intro filter_cong) auto
  have m3: "map_of (rt_link p e t) k = map_option (relink ?A (Some p)
      (\<lambda>ds. if k = p then ds @ filter (\<lambda>c. c \<in> ?A) ?cs else if Some k = parent then filter (\<lambda>d. d \<notin> ?A) ds else ds) k) (map_of t2 k)" for k
    unfolding link adopt_fold_of [OF d np not_p nq] fl by (auto intro!: option.map_cong relink_eqI)
  show "map fst (rt_link p e t) = map fst ?t1" unfolding link by (simp add: f2)
  then have D3: "dom (map_of (rt_link p e t)) = insert p ?D" using dom_fst f2 D2 by metis
  show "map route_count (rt_link p e t) = map route_count ?t1" unfolding link by (simp add: c2)
  show "map_option (\<lambda>x. (re_routes x, re_inheritedRoutes x, re_nRoutesWithCaptureSet x)) (map_of (rt_link p e t) k) =
      (if k = p then Some (re_routes e, re_inheritedRoutes e, re_nRoutesWithCaptureSet e)
       else map_option (\<lambda>x. (re_routes x, re_inheritedRoutes x, re_nRoutesWithCaptureSet x)) (map_of t k))" for k
    unfolding m3 m2 by (simp add: option.map_comp comp_def)
  have near: "nearest (insert p ?D) k = (if strict_prefix p k \<and> nearest ?D k = parent then Some p else nearest ?D k)" for k
    unfolding parent_def by (rule nearest_insert [OF p])
  have np2: "nearest ?D c \<noteq> Some p" for c using nearest_strict [of ?D c p] p by blast
  show "links_ok (rt_link p e t)"
    unfolding links_ok_def D3
  proof (intro allI impI)
    fix k x assume x: "map_of (rt_link p e t) k = Some x"
    show "re_name x = k \<and> re_parent x = nearest (insert p ?D) k \<and> distinct (re_children x) \<and>
      set (re_children x) = {c \<in> insert p ?D. nearest (insert p ?D) c = Some k}"
    proof (cases "k = p")
      case True
      then have "x = relink ?A (Some p) (\<lambda>ds. ds @ filter (\<lambda>c. c \<in> ?A) ?cs) k (e\<lparr>re_parent := parent\<rparr>)" using x by (simp add: m3 m2)
      then show ?thesis using True d np near np2 e by (auto simp: parent_def set_cs par [OF domI])
    next
      case False
      then obtain y where y: "map_of t k = Some y" using x by (auto simp: m3 m2)
      then have "k \<in> ?D" by blast
      have ly: "re_name y = k" "re_parent y = nearest ?D k" "distinct (re_children y)" "set (re_children y) = {c \<in> ?D. nearest ?D c = Some k}"
        using assms(6) y by (auto simp: links_ok_def)
      then have pn: "p \<notin> set (re_children y)" using p by auto
      let ?ch = "if Some k = parent then filter (\<lambda>d. d \<notin> ?A) (re_children y @ [p]) else re_children y"
      have x': "re_name x = k" "re_parent x = (if k \<in> ?A then Some p else nearest ?D k)" "re_children x = ?ch"
        using x False y by (auto simp: m3 m2 ly)
      have "set ?ch = {c \<in> insert p ?D. nearest (insert p ?D) c = Some k}"
        using ly(4) near np2 p False unfolding A by (auto simp: parent_def)
      moreover have "re_parent x = nearest (insert p ?D) k" using x'(2) near \<open>k \<in> ?D\<close> unfolding A by auto
      ultimately show ?thesis using x' ly(3) pn by auto
    qed
  qed
qed

text \<open>The table after an entry has been taken out.\<close>

definition rt_unlink :: "name \<Rightarrow> rib_entry \<Rightarrow> rib_table \<Rightarrow> rib_table" where
  "rt_unlink p e t = (let t1 = (case re_parent e of None \<Rightarrow> t | Some q \<Rightarrow> RibEntry_removeChild q p t);
             t2 = fold (release_child p (re_parent e)) (re_children e) t1
         in filter (\<lambda>x. fst x \<noteq> p) t2)"

lemma map_of_filter_fst: "map_of (filter (\<lambda>x. fst x \<noteq> p) t) k = (if k = p then None else map_of t k)"
  by (induction t) auto

lemma map_fst_filter: "map fst (filter (\<lambda>x. fst x \<noteq> p) t) = filter (\<lambda>k. k \<noteq> p) (map fst t)"
  by (simp add: filter_map comp_def)

lemma count_filter:
  "distinct (map fst t) \<Longrightarrow> map_of t p = Some e \<Longrightarrow>
    sum_list (map route_count (filter (\<lambda>x. fst x \<noteq> p) t)) + length (re_routes e) = sum_list (map route_count t)"
proof (induction t)
  case (Cons y t)
  obtain n d where y: "y = (n, d)" by fastforce
  show ?case
  proof (cases "n = p")
    case True
    then have "filter (\<lambda>x. fst x \<noteq> p) t = t" using Cons.prems(1) y by (auto simp: filter_id_conv)
    then show ?thesis using True Cons.prems y by (simp add: route_count_def)
  next
    case False
    then show ?thesis using Cons y by (simp add: route_count_def)
  qed
qed simp

lemma rt_unlink_correct:
  assumes "distinct (map fst t)" "links_ok t" "map_of t p = Some e"
  shows "map fst (rt_unlink p e t) = filter (\<lambda>k. k \<noteq> p) (map fst t)"
    "sum_list (map route_count (rt_unlink p e t)) + length (re_routes e) = sum_list (map route_count t)" "links_ok (rt_unlink p e t)"
    "\<And>k. map_option (\<lambda>x. (re_routes x, re_inheritedRoutes x, re_nRoutesWithCaptureSet x)) (map_of (rt_unlink p e t) k) =
      (if k = p then None else map_option (\<lambda>x. (re_routes x, re_inheritedRoutes x, re_nRoutesWithCaptureSet x)) (map_of t k))"
proof -
  let ?D = "dom (map_of t)"
  let ?cs = "re_children e"
  define parent where "parent = re_parent e"
  have le: "re_name e = p" "parent = nearest ?D p" "distinct ?cs" "set ?cs = {c \<in> ?D. nearest ?D c = Some p}"
    using assms(2,3) by (auto simp: links_ok_def parent_def)
  have pe: "re_parent e = parent" by (simp add: parent_def)
  have pD: "p \<in> ?D" using assms(3) by blast
  have not_p: "parent \<noteq> Some p" unfolding le(2) using nearest_strict [of ?D p p] by auto
  have np: "p \<notin> set ?cs" using not_p by (auto simp: le)
  have nq: "\<forall>c \<in> set ?cs. parent \<noteq> Some c"
  proof
    fix c assume "c \<in> set ?cs"
    then have "strict_prefix p c" using nearest_strict [of ?D c p] le(4) by simp
    moreover have "strict_prefix c p" if "parent = Some c" using nearest_strict that unfolding le(2) by blast
    ultimately show "parent \<noteq> Some c" using prefix_order.less_asym by blast
  qed
  define t1 where "t1 = (case parent of None \<Rightarrow> t | Some q \<Rightarrow> RibEntry_removeChild q p t)"
  have f1: "map fst t1 = map fst t" "map route_count t1 = map route_count t" by (simp_all add: t1_def split: option.split)
  have m1: "map_of t1 k = map_option (\<lambda>x. x\<lparr>re_parent := (if k = p then None else re_parent x),
      re_children := (if Some k = parent then removeAll p (re_children x) else re_children x)\<rparr>) (map_of t k)" for k
    using not_p pe assms(3) by (cases parent; cases "map_of t k"; cases e) (auto simp: t1_def RibEntry_removeChild_def)
  let ?t2 = "fold (release_child p parent) ?cs t1"
  have u: "rt_unlink p e t = filter (\<lambda>x. fst x \<noteq> p) ?t2" by (simp add: rt_unlink_def Let_def parent_def t1_def)
  have m: "map_of (rt_unlink p e t) k = (if k = p then None else
      map_option (relink (set ?cs) parent (\<lambda>ds. if Some k = parent then removeAll p ds @ ?cs else ds) k) (map_of t k))" for k
    unfolding u map_of_filter_fst release_fold_of [OF le(3) np not_p nq] m1
    by (cases "map_of t k") (auto simp: relink_def)
  show f: "map fst (rt_unlink p e t) = filter (\<lambda>k. k \<noteq> p) (map fst t)" unfolding u map_fst_filter by (simp add: f1)
  then have D: "dom (map_of (rt_unlink p e t)) = ?D - {p}" by (auto simp: dom_map_of_conv_image_fst simp flip: set_map)
  obtain e2 where e2: "map_of ?t2 p = Some e2" "re_routes e2 = re_routes e"
    unfolding release_fold_of [OF le(3) np not_p nq] m1 using assms(3) by (auto simp: relink_def)
  show "sum_list (map route_count (rt_unlink p e t)) + length (re_routes e) = sum_list (map route_count t)"
    unfolding u e2(2) [symmetric] using assms(1) by (subst count_filter [OF _ e2(1)]) (simp_all add: f1)
  show "map_option (\<lambda>x. (re_routes x, re_inheritedRoutes x, re_nRoutesWithCaptureSet x)) (map_of (rt_unlink p e t) k) =
      (if k = p then None else map_option (\<lambda>x. (re_routes x, re_inheritedRoutes x, re_nRoutesWithCaptureSet x)) (map_of t k))" for k
    unfolding m by (simp add: option.map_comp comp_def)
  have near: "nearest (?D - {p}) k = (if nearest ?D k = Some p then parent else nearest ?D k)" for k
    unfolding le(2) by (rule nearest_remove [OF pD])
  show "links_ok (rt_unlink p e t)"
    unfolding links_ok_def D
  proof (intro allI impI)
    fix k x assume x: "map_of (rt_unlink p e t) k = Some x"
    then obtain y where y: "map_of t k = Some y" "k \<noteq> p"
      "x = relink (set ?cs) parent (\<lambda>ds. if Some k = parent then removeAll p ds @ ?cs else ds) k y" by (auto simp: m split: if_splits)
    have ly: "re_name y = k" "re_parent y = nearest ?D k" "distinct (re_children y)" "set (re_children y) = {c \<in> ?D. nearest ?D c = Some k}"
      using assms(2) y(1) by (auto simp: links_ok_def)
    have "k \<in> ?D" using y(1) by blast
    have "re_parent x = nearest (?D - {p}) k" using \<open>k \<in> ?D\<close> by (simp add: y(3) ly near le(4))
    moreover have "distinct (re_children x)" using y(2) ly(3) le(3) by (auto simp: y(3) distinct_removeAll ly(4) le(4))
    moreover have "set (re_children x) = {c \<in> ?D - {p}. nearest (?D - {p}) c = Some k}"
      using y(2) not_p le(2) unfolding near by (auto simp: y(3) ly(4) le(4))
    ultimately show "re_name x = k \<and> re_parent x = nearest (?D - {p}) k \<and> distinct (re_children x) \<and>
      set (re_children x) = {c \<in> ?D - {p}. nearest (?D - {p}) c = Some k}" by (simp add: y(3) ly(1))
  qed
qed

section \<open>Insertion and removal of routes\<close>

definition rib_routes :: "rib \<Rightarrow> name \<Rightarrow> route list" where
  "rib_routes rib k = (case map_of (rib_table rib) k of None \<Rightarrow> [] | Some e \<Rightarrow> re_routes e)"

definition upsert :: "route \<Rightarrow> route list \<Rightarrow> route list" where
  "upsert r rs = (if \<exists>x \<in> set rs. compareFaceIdAndOrigin x r
     then update_first (\<lambda>x. compareFaceIdAndOrigin x r) (\<lambda>x. x\<lparr>rt_expirationEvent := rt_expirationEvent r, rt_flags := rt_flags r,
       rt_cost := rt_cost r, rt_expires := rt_expires r\<rparr>) rs
     else rs @ [r])"

lemma hasFaceId_iff: "RibEntry_hasFaceId f e \<longleftrightarrow> f \<in> rt_faceId ` set (re_routes e)"
  by (auto simp: RibEntry_hasFaceId_def find_None_set compareFaceId_def image_iff)

lemma findRoute_None: "RibEntry_findRoute r e = None \<longleftrightarrow> (\<forall>x \<in> set (re_routes e). \<not> compareFaceIdAndOrigin x r)"
  by (simp add: RibEntry_findRoute_def find_None_set)

lemma findRoute_Some: "RibEntry_findRoute r e = Some x \<Longrightarrow> x \<in> set (re_routes e) \<and> compareFaceIdAndOrigin x r"
  unfolding RibEntry_findRoute_def by (rule find_Some_set)

lemma findRoute_face: "RibEntry_findRoute r e = Some x \<Longrightarrow> RibEntry_hasFaceId (rt_faceId r) e"
  using findRoute_Some [of r e x] by (metis compareFaceIdAndOrigin_def hasFaceId_iff imageI)

lemma insertRoute_fields [simp]:
  "re_name (snd (RibEntry_insertRoute r e)) = re_name e" "re_children (snd (RibEntry_insertRoute r e)) = re_children e"
  "re_parent (snd (RibEntry_insertRoute r e)) = re_parent e" "re_inheritedRoutes (snd (RibEntry_insertRoute r e)) = re_inheritedRoutes e"
  "re_routes (snd (RibEntry_insertRoute r e)) = (if RibEntry_findRoute r e = None then re_routes e @ [r] else re_routes e)"
  by (simp_all add: RibEntry_insertRoute_def Let_def split: option.split)

lemma eraseRoute_fields [simp]:
  "re_name (snd (RibEntry_eraseRoute r e)) = re_name e" "re_children (snd (RibEntry_eraseRoute r e)) = re_children e"
  "re_parent (snd (RibEntry_eraseRoute r e)) = re_parent e" "re_inheritedRoutes (snd (RibEntry_eraseRoute r e)) = re_inheritedRoutes e"
  by (simp_all add: RibEntry_eraseRoute_def Let_def split: option.split)

lemma erase_first_id: "\<forall>x \<in> set xs. \<not> P x \<Longrightarrow> erase_first P xs = xs"
  by (induction xs) auto

lemma eraseRoute_routes [simp]:
  "re_routes (snd (RibEntry_eraseRoute r e)) = erase_first (\<lambda>x. compareFaceIdAndOrigin x r) (re_routes e)"
  using findRoute_None [of r e] by (simp add: RibEntry_eraseRoute_def Let_def erase_first_id split: option.split)

lemma links_modify:
  assumes "links_ok t" "map_of t k = Some e" "re_name (f e) = re_name e" "re_parent (f e) = re_parent e" "re_children (f e) = re_children e"
  shows "links_ok (rt_modify k f t)"
proof -
  have D: "dom (map_of (rt_modify k f t)) = dom (map_of t)" by (rule dom_fst) simp
  show ?thesis using assms unfolding links_ok_def D by (auto split: if_splits)
qed

lemma upsert_keys: "map (\<lambda>r. (rt_faceId r, rt_origin r)) (upsert r rs) = map (\<lambda>r. (rt_faceId r, rt_origin r)) rs @
    (if (rt_faceId r, rt_origin r) \<in> (\<lambda>r. (rt_faceId r, rt_origin r)) ` set rs then [] else [(rt_faceId r, rt_origin r)])"
proof (cases "\<exists>x \<in> set rs. compareFaceIdAndOrigin x r")
  case True
  then have "(rt_faceId r, rt_origin r) \<in> (\<lambda>r. (rt_faceId r, rt_origin r)) ` set rs"
    by (auto simp: compareFaceIdAndOrigin_def image_iff) metis
  then show ?thesis using True by (simp add: upsert_def map_update_first)
next
  case False
  then have "(rt_faceId r, rt_origin r) \<notin> (\<lambda>r. (rt_faceId r, rt_origin r)) ` set rs"
    by (auto simp: compareFaceIdAndOrigin_def)
  then show ?thesis using False by (simp add: upsert_def)
qed

lemma upsert_faces: "rt_faceId ` set (upsert r rs) = insert (rt_faceId r) (rt_faceId ` set rs)"
proof -
  have "fst ` set (map (\<lambda>r. (rt_faceId r, rt_origin r)) (upsert r rs)) = insert (rt_faceId r) (fst ` set (map (\<lambda>r. (rt_faceId r, rt_origin r)) rs))"
    unfolding upsert_keys by (auto simp: image_iff)
  then show ?thesis by (simp add: image_image)
qed

lemma routes_ok_upsert: "re_routes e' = upsert r (re_routes e) \<Longrightarrow> routes_ok e \<or> re_routes e = [] \<Longrightarrow> routes_ok e'"
  using upsert_keys [of r "re_routes e"] upsert_faces [of r "re_routes e"] by (auto simp: routes_ok_def)

text \<open>A change of one entry to one with other routes.\<close>

lemma rib_inv_modify:
  assumes "rib_inv \<tau> rib" "map_of (rib_table rib) p = Some e" "routes_ok (f e)"
    and "re_name (f e) = re_name e" "re_parent (f e) = re_parent e" "re_children (f e) = re_children e"
    and "rib_table rib' = rt_modify p f (rib_table rib)"
    and "\<And>g. set (rib_faceMap rib' g) = (if RibEntry_hasFaceId g (f e) then insert p else (\<lambda>A. A - {p})) (set (rib_faceMap rib g))"
    and "rib_nItems rib' + length (re_routes e) = rib_nItems rib + length (re_routes (f e))"
  shows "rib_inv \<tau> rib'"
proof -
  have s: "sorted_wrt (<) (map fst (rib_table rib))" using assms(1) by (simp add: rib_inv_def)
  have "fst ` set (rib_table rib') = fst ` set (rib_table rib)" unfolding assms(7) using fst_rt_modify by (metis set_map)
  moreover have "rib_nItems rib' = sum_list (map route_count (rib_table rib'))"
    using sum_rt_modify [OF sorted_distinct [OF s] assms(2), of f] assms(1,9) unfolding assms(7) by (simp add: rib_inv_def)
  moreover have "set (rib_faceMap rib' g) = {k. \<exists>e. map_of (rib_table rib') k = Some e \<and> RibEntry_hasFaceId g e}" for g
    using assms(1,2) unfolding assms(7,8) by (auto simp: rib_inv_def)
  moreover have "\<forall>k x. map_of (rib_table rib') k = Some x \<longrightarrow> routes_ok x"
    using assms(1-3) unfolding assms(7) by (auto simp: rib_inv_def split: if_splits)
  moreover have "links_ok (rib_table rib')" unfolding assms(7) using assms(1,2,4-6) by (intro links_modify) (simp_all add: rib_inv_def)
  ultimately show ?thesis using assms(1) by (simp add: rib_inv_def assms(7))
qed

lemma findRoute_ctor [simp]: "RibEntry_findRoute r (RibEntry_ctor\<lparr>re_name := p\<rparr>) = None"
  by (simp add: RibEntry_findRoute_def RibEntry_ctor_def)

lemma Rib_insert_new:
  assumes "rib_inv \<tau> rib" "typed \<tau> p" "length p < npos" "map_of (rib_table rib) p = None"
  shows "map_option re_routes (map_of (rib_table (Rib_insert p r rib)) k) =
    (if k = p then Some [r] else map_option re_routes (map_of (rib_table rib) k))"
proof -
  define e where "e = snd (RibEntry_insertRoute r (RibEntry_ctor\<lparr>re_name := p\<rparr>))"
  have e: "re_name e = p" "re_children e = []" "re_parent e = None" "re_routes e = [r]"
    by (simp_all add: e_def) (simp_all add: RibEntry_ctor_def)
  have p: "p \<notin> fst ` set (rib_table rib)" using assms(4) by (simp add: map_of_eq_None_iff)
  have t: "rib_table (Rib_insert p r rib) = rt_link p e (rib_table rib)"
    by (simp add: Rib_insert_def assms(4) rt_link_def e_def Let_def)
  have s: "sorted_wrt (<) (map fst (rib_table rib))" "\<forall>k \<in> fst ` set (rib_table rib). typed \<tau> k" "links_ok (rib_table rib)"
    using assms(1) by (auto simp: rib_inv_def)
  show ?thesis
    using arg_cong [OF rt_link_correct(4) [OF s(1,2) p assms(2,3) s(3) e(1-3), of k], of "map_option fst"]
    by (simp add: t option.map_comp comp_def e if_distrib split: if_splits)
qed

lemma Rib_insert_inv:
  assumes "rib_inv \<tau> rib" "typed \<tau> p" "length p < npos"
  shows "rib_inv \<tau> (Rib_insert p r rib)"
proof -
  have fm: "set (rib_faceMap rib g) = {k. \<exists>e. map_of (rib_table rib) k = Some e \<and> RibEntry_hasFaceId g e}" for g
    using assms(1) by (simp add: rib_inv_def)
  show "rib_inv \<tau> (Rib_insert p r rib)"
  proof (cases "map_of (rib_table rib) p")
    case (Some e)
    have e: "routes_ok e" using assms(1) Some by (simp add: rib_inv_def)
    show ?thesis
    proof (cases "RibEntry_findRoute r e")
      case None
      then have u: "re_routes (snd (RibEntry_insertRoute r e)) = upsert r (re_routes e)" by (auto simp: upsert_def findRoute_None)
      show ?thesis
        by (rule rib_inv_modify [OF assms(1) Some, of "\<lambda>e. snd (RibEntry_insertRoute r e)"])
          (use routes_ok_upsert [OF u] e u fm Some upsert_faces [of r "re_routes e"]
           in \<open>auto simp: Rib_insert_def None hasFaceId_iff upsert_def findRoute_None [symmetric]\<close>)
    next
      case x: (Some x)
      let ?f = "\<lambda>e. e\<lparr>re_routes := update_first (\<lambda>x. compareFaceIdAndOrigin x r)
                     (\<lambda>x. x\<lparr>rt_expirationEvent := rt_expirationEvent r, rt_flags := rt_flags r, rt_cost := rt_cost r,
                            rt_expires := rt_expires r\<rparr>) (re_routes e)\<rparr>"
      have u: "re_routes (?f e) = upsert r (re_routes e)" using findRoute_Some [OF x] by (auto simp: upsert_def)
      have "rt_faceId r \<in> rt_faceId ` set (re_routes e)" using findRoute_face [OF x] by (simp add: hasFaceId_iff)
      then have "rt_faceId ` set (re_routes (?f e)) = rt_faceId ` set (re_routes e)" unfolding u upsert_faces by auto
      then show ?thesis
        by (intro rib_inv_modify [OF assms(1) Some, of ?f])
          (use routes_ok_upsert [OF u] e fm Some in \<open>auto simp: Rib_insert_def x hasFaceId_iff\<close>)
    qed
  next
    case None
    define e where "e = snd (RibEntry_insertRoute r (RibEntry_ctor\<lparr>re_name := p\<rparr>))"
    have e: "re_name e = p" "re_children e = []" "re_parent e = None" "re_routes e = [r]"
      by (simp_all add: e_def) (simp_all add: RibEntry_ctor_def)
    have p: "p \<notin> fst ` set (rib_table rib)" using None by (simp add: map_of_eq_None_iff)
    have t: "rib_table (Rib_insert p r rib) = rt_link p e (rib_table rib)"
      by (simp add: Rib_insert_def None rt_link_def e_def Let_def)
    have s: "sorted_wrt (<) (map fst (rib_table rib))" "\<forall>k \<in> fst ` set (rib_table rib). typed \<tau> k" "links_ok (rib_table rib)"
      using assms(1) by (auto simp: rib_inv_def)
    note link = rt_link_correct [OF s(1,2) p assms(2,3) s(3) e(1-3)]
    have ro: "map_option re_routes (map_of (rt_link p e (rib_table rib)) k) = (if k = p then Some [r] else map_option re_routes (map_of (rib_table rib) k))" for k
      using Rib_insert_new [OF assms None, of r k] t by simp
    have "fst ` set (rt_link p e (rib_table rib)) = insert p (fst ` set (rib_table rib))"
      using arg_cong [OF link(1), of set] by (simp add: set_insort_key)
    moreover have "sorted_wrt (<) (map fst (rt_link p e (rib_table rib)))" unfolding link(1) by (rule sorted_insort_fst [OF s(1) p])
    moreover have "routes_ok x" if x: "map_of (rt_link p e (rib_table rib)) k = Some x" for k x
      using ro [of k] x assms(1) by (cases "map_of (rib_table rib) k") (auto simp: rib_inv_def routes_ok_def split: if_splits)
    moreover have "set (rib_faceMap (Rib_insert p r rib) g) =
        {k. \<exists>x. map_of (rt_link p e (rib_table rib)) k = Some x \<and> RibEntry_hasFaceId g x}" for g
    proof -
      have "(\<exists>x. map_of (rt_link p e (rib_table rib)) k = Some x \<and> RibEntry_hasFaceId g x) \<longleftrightarrow>
          (if k = p then g = rt_faceId r else k \<in> set (rib_faceMap rib g))" for k
        using ro [of k] by (cases "map_of (rt_link p e (rib_table rib)) k"; cases "map_of (rib_table rib) k")
          (auto simp: hasFaceId_iff fm split: if_splits)
      moreover have "p \<notin> set (rib_faceMap rib g)" using fm None by auto
      ultimately show ?thesis by (auto simp: Rib_insert_def None Let_def)
    qed
    moreover have "rib_nItems (Rib_insert p r rib) = sum_list (map route_count (rt_link p e (rib_table rib)))"
      unfolding link(2) sum_insort using assms(1) e by (simp add: Rib_insert_def None Let_def rib_inv_def route_count_def)
    ultimately show ?thesis using assms link(3) by (auto simp: rib_inv_def t)
  qed
qed

lemma Rib_insert_routes:
  assumes "rib_inv \<tau> rib" "typed \<tau> p" "length p < npos"
  shows "rib_routes (Rib_insert p r rib) = (rib_routes rib)(p := upsert r (rib_routes rib p))"
proof
  fix k
  show "rib_routes (Rib_insert p r rib) k = ((rib_routes rib)(p := upsert r (rib_routes rib p))) k"
  proof (cases "map_of (rib_table rib) p")
    case None
    have "rib_routes (Rib_insert p r rib) k = (case map_option re_routes (map_of (rib_table (Rib_insert p r rib)) k) of None \<Rightarrow> [] | Some rs \<Rightarrow> rs)"
      by (simp add: rib_routes_def split: option.split)
    then show ?thesis using Rib_insert_new [OF assms None, of r k] None by (auto simp: rib_routes_def upsert_def split: option.split)
  next
    case (Some e)
    show ?thesis
    proof (cases "RibEntry_findRoute r e")
      case None
      then have "\<not> (\<exists>x \<in> set (re_routes e). compareFaceIdAndOrigin x r)" by (simp add: findRoute_None)
      then show ?thesis by (simp add: Rib_insert_def rib_routes_def upsert_def Some None)
    next
      case x: (Some x)
      then show ?thesis using Some findRoute_Some [OF x] by (auto simp: Rib_insert_def rib_routes_def upsert_def)
    qed
  qed
qed

lemma erase_keys:
  assumes "distinct (map (\<lambda>r. (rt_faceId r, rt_origin r)) rs)"
  shows "erase_first (\<lambda>x. compareFaceIdAndOrigin x r) rs = filter (\<lambda>x. \<not> compareFaceIdAndOrigin x r) rs"
  using erase_first_unique [OF assms, of "(rt_faceId r, rt_origin r)"] by (simp add: compareFaceIdAndOrigin_def [abs_def])

text \<open>The table with the route erased, before an entry without routes is taken out.\<close>

definition rib_erased :: "name \<Rightarrow> route \<Rightarrow> rib_entry \<Rightarrow> rib \<Rightarrow> rib" where
  "rib_erased p r e rib =
     (let (ev, e1) = RibEntry_eraseRoute r e;
          rib1 = rib\<lparr>rib_table := rt_modify p (\<lambda>_. e1) (rib_table rib), rib_nItems := rib_nItems rib - 1,
                     rib_cancelled := rib_cancelled rib @ (case ev of None \<Rightarrow> [] | Some i \<Rightarrow> [i])\<rparr>
      in if \<not> RibEntry_hasFaceId (rt_faceId r) e1
         then rib1\<lparr>rib_faceMap := (rib_faceMap rib1)(rt_faceId r := removeAll p (rib_faceMap rib1 (rt_faceId r)))\<rparr> else rib1)"

lemma Rib_erase_split:
  assumes "map_of (rib_table rib) p = Some e" "RibEntry_findRoute r e = Some x"
  shows "Rib_erase p r rib = (if erase_first (\<lambda>x. compareFaceIdAndOrigin x r) (re_routes e) = []
    then Rib_eraseEntry p (rib_erased p r e rib) else rib_erased p r e rib)"
  using eraseRoute_routes [of r e] by (cases "RibEntry_eraseRoute r e") (simp add: Rib_erase_def rib_erased_def assms RibEntry_getNRoutes_def Let_def)

lemma rib_erased_fields:
  "rib_table (rib_erased p r e rib) = rt_modify p (\<lambda>_. snd (RibEntry_eraseRoute r e)) (rib_table rib)"
  "rib_nItems (rib_erased p r e rib) = rib_nItems rib - 1"
  "set (rib_faceMap (rib_erased p r e rib) g) = (if g = rt_faceId r \<and> \<not> RibEntry_hasFaceId g (snd (RibEntry_eraseRoute r e))
     then set (rib_faceMap rib g) - {p} else set (rib_faceMap rib g))"
  by (auto simp: rib_erased_def Let_def case_prod_unfold)

lemma erased_faces:
  assumes "routes_ok e" "RibEntry_findRoute r e = Some x" "g \<noteq> rt_faceId r"
  shows "RibEntry_hasFaceId g (snd (RibEntry_eraseRoute r e)) \<longleftrightarrow> RibEntry_hasFaceId g e"
proof -
  have "distinct (map (\<lambda>r. (rt_faceId r, rt_origin r)) (re_routes e))" using assms(1) by (simp add: routes_ok_def)
  note k = erase_keys [OF this, of r]
  have "rt_faceId ` set (filter (\<lambda>x. \<not> compareFaceIdAndOrigin x r) (re_routes e)) - {rt_faceId r} = rt_faceId ` set (re_routes e) - {rt_faceId r}"
    by (auto simp: compareFaceIdAndOrigin_def)
  then show ?thesis using assms(3) unfolding hasFaceId_iff eraseRoute_routes k by blast
qed

lemma erased_length:
  assumes "RibEntry_findRoute r e = Some x"
  shows "length (re_routes (snd (RibEntry_eraseRoute r e))) = length (re_routes e) - 1" "re_routes e \<noteq> []"
proof -
  have e: "length (erase_first P xs) = length xs - 1" if "\<exists>x \<in> set xs. P x" for P and xs :: "route list"
    using that
  proof (induction xs)
    case (Cons y ys)
    show ?case
    proof (cases "P y")
      case False
      then have "ys \<noteq> []" "\<exists>x \<in> set ys. P x" using Cons.prems by auto
      then show ?thesis using Cons.IH False by (cases ys) auto
    qed simp
  qed simp
  show "length (re_routes (snd (RibEntry_eraseRoute r e))) = length (re_routes e) - 1" "re_routes e \<noteq> []"
    using findRoute_Some [OF assms] e [where P = "\<lambda>x. compareFaceIdAndOrigin x r" and xs = "re_routes e"] by auto
qed

lemma Rib_erase_inv:
  assumes "rib_inv \<tau> rib"
  shows "rib_inv \<tau> (Rib_erase p r rib)" and "rib_routes (Rib_erase p r rib) =
    (rib_routes rib)(p := filter (\<lambda>x. \<not> compareFaceIdAndOrigin x r) (rib_routes rib p))"
proof -
  have "rib_inv \<tau> (Rib_erase p r rib) \<and> rib_routes (Rib_erase p r rib) =
    (rib_routes rib)(p := filter (\<lambda>x. \<not> compareFaceIdAndOrigin x r) (rib_routes rib p))"
  proof (cases "map_of (rib_table rib) p")
    case None
    then show ?thesis using assms by (auto simp: Rib_erase_def rib_routes_def)
  next
    case e: (Some e)
    have eok: "routes_ok e" using assms e by (simp add: rib_inv_def)
    show ?thesis
    proof (cases "RibEntry_findRoute r e")
      case None
      then have "filter (\<lambda>x. \<not> compareFaceIdAndOrigin x r) (re_routes e) = re_routes e" by (simp add: findRoute_None)
      then show ?thesis using assms e None by (auto simp: Rib_erase_def rib_routes_def)
    next
      case x: (Some x)
      let ?e1 = "snd (RibEntry_eraseRoute r e)"
      let ?rib1 = "rib_erased p r e rib"
      have r1: "re_routes ?e1 = filter (\<lambda>x. \<not> compareFaceIdAndOrigin x r) (re_routes e)"
        using eok by (simp add: routes_ok_def erase_keys)
      note len = erased_length [OF x]
      have fm: "set (rib_faceMap rib g) = {k. \<exists>e. map_of (rib_table rib) k = Some e \<and> RibEntry_hasFaceId g e}" for g
        using assms by (simp add: rib_inv_def)
      have pfm: "p \<in> set (rib_faceMap rib g) \<longleftrightarrow> RibEntry_hasFaceId g e" for g using fm e by auto
      have ni: "rib_nItems rib = sum_list (map route_count (rib_table rib))" using assms by (simp add: rib_inv_def)
      have s: "sorted_wrt (<) (map fst (rib_table rib))" using assms by (simp add: rib_inv_def)
      have "length (re_routes e) \<le> rib_nItems rib"
        using count_filter [OF sorted_distinct [OF s] e] ni by simp
      then have n1: "rib_nItems ?rib1 + length (re_routes e) = rib_nItems rib + length (re_routes ?e1)"
        using len by (cases "re_routes e") (auto simp: rib_erased_fields)
      have fm1: "set (rib_faceMap ?rib1 g) = (if RibEntry_hasFaceId g ?e1 then insert p else (\<lambda>A. A - {p})) (set (rib_faceMap rib g))" for g
      proof (cases "g = rt_faceId r")
        case True
        have "RibEntry_hasFaceId g e" using findRoute_face [OF x] True by simp
        then show ?thesis using True pfm [of g] by (auto simp: rib_erased_fields)
      next
        case False
        then show ?thesis using pfm [of g] erased_faces [OF eok x False] by (auto simp: rib_erased_fields)
      qed
      have ro: "rib_routes ?rib1 = (rib_routes rib)(p := filter (\<lambda>x. \<not> compareFaceIdAndOrigin x r) (rib_routes rib p))"
        using e r1 by (auto simp: rib_routes_def rib_erased_fields)
      show ?thesis
      proof (cases "re_routes ?e1 = []")
        case False
        then have "Rib_erase p r rib = ?rib1" using Rib_erase_split [OF e x] by simp
        moreover have "rib_inv \<tau> ?rib1"
          by (rule rib_inv_modify [OF assms e, of "\<lambda>_. ?e1"])
            (use False eok r1 fm1 n1 in \<open>auto simp: routes_ok_def rib_erased_fields intro: distinct_map_filter\<close>)
        ultimately show ?thesis using ro by simp
      next
        case True
        let ?t1 = "rib_table ?rib1"
        have e1: "map_of ?t1 p = Some ?e1" using e by (simp add: rib_erased_fields)
        have f1: "map fst ?t1 = map fst (rib_table rib)" by (simp add: rib_erased_fields)
        have l1: "links_ok ?t1"
          unfolding rib_erased_fields using assms e by (intro links_modify) (simp_all add: rib_inv_def)
        have er: "rib_table (Rib_erase p r rib) = rt_unlink p ?e1 ?t1" "rib_nItems (Rib_erase p r rib) = rib_nItems ?rib1"
          "rib_faceMap (Rib_erase p r rib) = rib_faceMap ?rib1"
          using Rib_erase_split [OF e x] True e1 by (simp_all add: Rib_eraseEntry_def rt_unlink_def Let_def)
        have "distinct (map fst ?t1)" using s f1 by (simp add: sorted_distinct)
        note u = rt_unlink_correct [OF this l1 e1]
        have ro2: "map_option re_routes (map_of (rt_unlink p ?e1 ?t1) k) = (if k = p then None else map_option re_routes (map_of (rib_table rib) k))" for k
          using arg_cong [OF u(4) [of k], of "map_option fst"] by (simp add: option.map_comp comp_def rib_erased_fields split: if_splits)
        have fs: "fst ` set (rt_unlink p ?e1 ?t1) = fst ` set (rib_table rib) - {p}"
          using arg_cong [OF u(1), of set] f1 by (auto simp: image_iff simp flip: set_map)
        have "rib_inv \<tau> (Rib_erase p r rib)"
          unfolding rib_inv_def er
        proof (intro conjI allI impI)
          show "sorted_wrt (<) (map fst (rt_unlink p ?e1 ?t1))" unfolding u(1) f1 using s by (rule sorted_wrt_filter)
          show "\<forall>k \<in> fst ` set (rt_unlink p ?e1 ?t1). typed \<tau> k \<and> length k < npos" unfolding fs using assms by (auto simp: rib_inv_def)
          show "links_ok (rt_unlink p ?e1 ?t1)" by (rule u(3))
          show "routes_ok y" if "map_of (rt_unlink p ?e1 ?t1) k = Some y" for k y
            using ro2 [of k] that assms by (cases "map_of (rib_table rib) k") (auto simp: rib_inv_def routes_ok_def split: if_splits)
          show "set (rib_faceMap ?rib1 g) = {k. \<exists>y. map_of (rt_unlink p ?e1 ?t1) k = Some y \<and> RibEntry_hasFaceId g y}" for g
          proof -
            have "(\<exists>y. map_of (rt_unlink p ?e1 ?t1) k = Some y \<and> RibEntry_hasFaceId g y) \<longleftrightarrow> k \<noteq> p \<and> k \<in> set (rib_faceMap rib g)" for k
              using ro2 [of k] by (cases "map_of (rt_unlink p ?e1 ?t1) k"; cases "map_of (rib_table rib) k") (auto simp: hasFaceId_iff fm split: if_splits)
            moreover have "\<not> RibEntry_hasFaceId g ?e1" using True by (simp add: hasFaceId_iff)
            ultimately show ?thesis unfolding fm1 by auto
          qed
          show "rib_nItems ?rib1 = sum_list (map route_count (rt_unlink p ?e1 ?t1))"
          proof -
            have "length (re_routes ?e1) = 0" using True by simp
            then show ?thesis
              using u(2) sum_rt_modify [OF sorted_distinct [OF s] e, of "\<lambda>_. ?e1"] n1 ni unfolding rib_erased_fields(1) by linarith
          qed
        qed
        moreover have "rib_routes (Rib_erase p r rib) = (rib_routes rib)(p := filter (\<lambda>x. \<not> compareFaceIdAndOrigin x r) (rib_routes rib p))"
        proof
          fix k
          have "rib_routes (Rib_erase p r rib) k = (case map_option re_routes (map_of (rt_unlink p ?e1 ?t1) k) of None \<Rightarrow> [] | Some rs \<Rightarrow> rs)"
            by (simp add: rib_routes_def er split: option.split)
          then show "rib_routes (Rib_erase p r rib) k = ((rib_routes rib)(p := filter (\<lambda>x. \<not> compareFaceIdAndOrigin x r) (rib_routes rib p))) k"
            unfolding ro2 using e r1 True by (auto simp: rib_routes_def split: option.split)
        qed
        ultimately show ?thesis by blast
      qed
    qed
  qed
  then show "rib_inv \<tau> (Rib_erase p r rib)" and "rib_routes (Rib_erase p r rib) =
    (rib_routes rib)(p := filter (\<lambda>x. \<not> compareFaceIdAndOrigin x r) (rib_routes rib p))" by simp_all
qed

section \<open>Lookups\<close>

lemma findRoutesWithFaceId_correct:
  assumes "rib_inv \<tau> rib"
  shows "set (Rib_findRoutesWithFaceId f rib) = {(k, r). r \<in> set (rib_routes rib k) \<and> rt_faceId r = f}"
proof -
  have "set (rib_faceMap rib f) = {k. \<exists>e. map_of (rib_table rib) k = Some e \<and> RibEntry_hasFaceId f e}"
    using assms by (simp add: rib_inv_def)
  then show ?thesis
    by (auto simp: Rib_findRoutesWithFaceId_def rib_routes_def hasFaceId_iff split: option.splits) (force split: option.splits)
qed

text \<open>The route on a face that a name inherits: the first inheritable one of the nearest ancestor that has one, if no ancestor before
  that one captures.\<close>

definition inheritable_on :: "u64 \<Rightarrow> route list \<Rightarrow> route option" where
  "inheritable_on f rs = find (\<lambda>r. rt_faceId r = f \<and> Route_isChildInherit r) rs"

definition ancestor_route :: "rib_table \<Rightarrow> name \<Rightarrow> u64 \<Rightarrow> route \<Rightarrow> bool" where
  "ancestor_route t k f r \<longleftrightarrow> (\<exists>q e. map_of t q = Some e \<and> strict_prefix q k \<and> inheritable_on f (re_routes e) = Some r \<and>
     (\<forall>q' e'. map_of t q' = Some e' \<and> strict_prefix q q' \<and> strict_prefix q' k \<longrightarrow>
        \<not> RibEntry_hasCapture e' \<and> inheritable_on f (re_routes e') = None))"

lemma find_RouteSet_insert:
  "find (\<lambda>x. rt_faceId x = f) (RouteSet_insert r rs) = (case find (\<lambda>x. rt_faceId x = f) rs of
     None \<Rightarrow> if rt_faceId r = f then Some r else None | Some x \<Rightarrow> Some x)"
proof (cases "rt_faceId r \<in> rt_faceId ` set rs")
  case True
  then show ?thesis by (auto simp: RouteSet_insert_def find_None_set split: option.split)
next
  case False
  have "find (\<lambda>x. rt_faceId x = f) (insort_key rt_faceId r rs) = (if rt_faceId r = f then Some r else find (\<lambda>x. rt_faceId x = f) rs)"
    using False by (induction rs) auto
  moreover have "find (\<lambda>x. rt_faceId x = f) rs = None" if "rt_faceId r = f" using False that unfolding find_None_set by (metis imageI)
  ultimately show ?thesis using False by (auto simp: RouteSet_insert_def split: option.split)
qed

lemma find_insert_inheritable:
  "find (\<lambda>x. rt_faceId x = f) (insert_inheritable rs acc) = (case find (\<lambda>x. rt_faceId x = f) acc of
     None \<Rightarrow> inheritable_on f rs | Some x \<Rightarrow> Some x)"
  unfolding insert_inheritable_def inheritable_on_def
  by (induction rs arbitrary: acc) (auto simp: find_RouteSet_insert split: option.split)

lemma RouteSet_sorted: "sorted (map rt_faceId rs) \<Longrightarrow> sorted (map rt_faceId (RouteSet_insert r rs))"
  "distinct (map rt_faceId rs) \<Longrightarrow> distinct (map rt_faceId (RouteSet_insert r rs))"
  by (auto simp: RouteSet_insert_def sorted_insort_key distinct_insort_key) 

lemma insert_inheritable_sorted:
  assumes "sorted (map rt_faceId acc)" "distinct (map rt_faceId acc)"
  shows "sorted (map rt_faceId (insert_inheritable rs acc))" "distinct (map rt_faceId (insert_inheritable rs acc))"
  using assms unfolding insert_inheritable_def by (induction rs arbitrary: acc) (auto simp: RouteSet_sorted)

lemma ancestor_walk_sorted:
  assumes "sorted (map rt_faceId acc)" "distinct (map rt_faceId acc)"
  shows "sorted (map rt_faceId (ancestor_walk n t q acc)) \<and> distinct (map rt_faceId (ancestor_walk n t q acc))"
  using assms by (induction n t q acc rule: ancestor_walk.induct) (auto simp: Let_def insert_inheritable_sorted split: option.split)

lemma ancestor_route_step:
  assumes "nearest (dom (map_of t)) k = Some q" "map_of t q = Some e"
  shows "ancestor_route t k f r \<longleftrightarrow> inheritable_on f (re_routes e) = Some r \<or>
    inheritable_on f (re_routes e) = None \<and> \<not> RibEntry_hasCapture e \<and> ancestor_route t q f r"
proof -
  have q: "strict_prefix q k" "\<And>q'. map_of t q' \<noteq> None \<Longrightarrow> strict_prefix q' k \<Longrightarrow> prefix q' q"
    using assms(1) by (auto simp: nearest_Some_iff domIff)
  have s: "strict_prefix q' k \<longleftrightarrow> q' = q \<or> strict_prefix q' q" if "map_of t q' = Some e'" for q' e'
    using q that by (metis option.distinct(1) prefix_order.le_less prefix_order.less_trans)
  show ?thesis
  proof
    assume "ancestor_route t k f r"
    then obtain q0 e0 where q0: "map_of t q0 = Some e0" "strict_prefix q0 k" "inheritable_on f (re_routes e0) = Some r"
      "\<forall>q' e'. map_of t q' = Some e' \<and> strict_prefix q0 q' \<and> strict_prefix q' k \<longrightarrow>
        \<not> RibEntry_hasCapture e' \<and> inheritable_on f (re_routes e') = None" by (auto simp: ancestor_route_def)
    show "inheritable_on f (re_routes e) = Some r \<or>
        inheritable_on f (re_routes e) = None \<and> \<not> RibEntry_hasCapture e \<and> ancestor_route t q f r"
    proof (cases "q0 = q")
      case True
      then show ?thesis using q0 assms(2) by simp
    next
      case False
      then have "strict_prefix q0 q" using s q0(1,2) by blast
      then show ?thesis using q0 assms(2) q(1) s unfolding ancestor_route_def by blast
    qed
  next
    assume "inheritable_on f (re_routes e) = Some r \<or>
      inheritable_on f (re_routes e) = None \<and> \<not> RibEntry_hasCapture e \<and> ancestor_route t q f r"
    then show "ancestor_route t k f r"
    proof
      assume "inheritable_on f (re_routes e) = Some r"
      moreover have "\<not> (strict_prefix q q' \<and> strict_prefix q' k)" if "map_of t q' = Some e'" for q' e'
        using s [OF that] by (metis prefix_order.less_asym prefix_order.less_irrefl)
      ultimately show ?thesis using assms(2) q(1) unfolding ancestor_route_def by blast
    next
      assume a: "inheritable_on f (re_routes e) = None \<and> \<not> RibEntry_hasCapture e \<and> ancestor_route t q f r"
      then obtain q0 e0 where q0: "map_of t q0 = Some e0" "strict_prefix q0 q" "inheritable_on f (re_routes e0) = Some r"
        "\<forall>q' e'. map_of t q' = Some e' \<and> strict_prefix q0 q' \<and> strict_prefix q' q \<longrightarrow>
          \<not> RibEntry_hasCapture e' \<and> inheritable_on f (re_routes e') = None" by (auto simp: ancestor_route_def)
      have "strict_prefix q0 k" using q0(2) q(1) prefix_order.less_trans by blast
      moreover have "\<not> RibEntry_hasCapture e' \<and> inheritable_on f (re_routes e') = None"
        if "map_of t q' = Some e'" "strict_prefix q0 q'" "strict_prefix q' k" for q' e'
        using s [OF that(1)] that q0(4) a assms(2) by auto
      ultimately show ?thesis using q0(1,3) unfolding ancestor_route_def by blast
    qed
  qed
qed

text \<open>A walk with as much fuel as there are ancestors finds them all.\<close>

lemma ancestor_walk_correct:
  assumes "links_ok t" "card {q \<in> dom (map_of t). strict_prefix q k} \<le> n"
  shows "find (\<lambda>x. rt_faceId x = f) (ancestor_walk n t (nearest (dom (map_of t)) k) acc) = Some r \<longleftrightarrow>
    find (\<lambda>x. rt_faceId x = f) acc = Some r \<or> find (\<lambda>x. rt_faceId x = f) acc = None \<and> ancestor_route t k f r"
  using assms(2)
proof (induction n arbitrary: k acc)
  case 0
  have "finite {q \<in> dom (map_of t). strict_prefix q k}" by (simp add: finite_dom_map_of)
  then have no: "{q \<in> dom (map_of t). strict_prefix q k} = {}" using 0 by (metis card_0_eq le_zero_eq)
  then have "nearest (dom (map_of t)) k = None" by (auto simp: nearest_None)
  moreover have "\<not> ancestor_route t k f r" using no by (auto simp: ancestor_route_def)
  ultimately show ?case by simp
next
  case (Suc n)
  show ?case
  proof (cases "nearest (dom (map_of t)) k")
    case None
    then have "\<not> ancestor_route t k f r" by (auto simp: ancestor_route_def nearest_None)
    then show ?thesis using None by simp
  next
    case (Some q)
    then obtain e where e: "map_of t q = Some e" by (auto simp: nearest_Some_iff)
    have par: "re_parent e = nearest (dom (map_of t)) q" using assms(1) e by (simp add: links_ok_def)
    have "{q' \<in> dom (map_of t). strict_prefix q' q} \<subset> {q' \<in> dom (map_of t). strict_prefix q' k}"
      using nearest_strict [OF Some] prefix_order.less_trans by blast
    then have "card {q' \<in> dom (map_of t). strict_prefix q' q} < card {q' \<in> dom (map_of t). strict_prefix q' k}"
      by (intro psubset_card_mono) (simp_all add: finite_dom_map_of)
    then have IH: "find (\<lambda>x. rt_faceId x = f) (ancestor_walk n t (re_parent e) acc') = Some r \<longleftrightarrow>
      find (\<lambda>x. rt_faceId x = f) acc' = Some r \<or> find (\<lambda>x. rt_faceId x = f) acc' = None \<and> ancestor_route t q f r" for acc'
      unfolding par using Suc.IH [of q acc'] Suc.prems by linarith
    show ?thesis
      using ancestor_route_step [OF Some e, of f r] IH [of "insert_inheritable (re_routes e) acc"]
      by (auto simp: Some e Let_def find_insert_inheritable split: option.splits)
  qed
qed

lemma ancestors_fuel: "distinct (map fst t) \<Longrightarrow> card {q \<in> dom (map_of t). strict_prefix q k} \<le> length t"
proof -
  assume d: "distinct (map fst t)"
  have "card {q \<in> dom (map_of t). strict_prefix q k} \<le> card (fst ` set t)"
    by (intro card_mono) (auto simp: dom_map_of_conv_image_fst)
  also have "\<dots> \<le> length t" by (metis card_length length_map set_map)
  finally show ?thesis .
qed

lemma getAncestorRoutes_correct:
  assumes "rib_inv \<tau> rib"
  shows "map_of (rib_table rib) k = Some e \<Longrightarrow>
      RouteSet_find x (Rib_getAncestorRoutes_entry e (rib_table rib)) = Some r \<longleftrightarrow> ancestor_route (rib_table rib) k (rt_faceId x) r"
    "length k < npos \<Longrightarrow>
      RouteSet_find x (Rib_getAncestorRoutes_name k (rib_table rib)) = Some r \<longleftrightarrow> ancestor_route (rib_table rib) k (rt_faceId x) r"
proof -
  have l: "links_ok (rib_table rib)" "distinct (map fst (rib_table rib))" using assms by (auto simp: rib_inv_def sorted_distinct)
  note w = ancestor_walk_correct [OF l(1) ancestors_fuel [OF l(2)], of "rt_faceId x" k "[]" r]
  show "RouteSet_find x (Rib_getAncestorRoutes_entry e (rib_table rib)) = Some r \<longleftrightarrow> ancestor_route (rib_table rib) k (rt_faceId x) r"
    if "map_of (rib_table rib) k = Some e"
    using w l(1) that by (simp add: RouteSet_find_def Rib_getAncestorRoutes_entry_def links_ok_def)
  show "RouteSet_find x (Rib_getAncestorRoutes_name k (rib_table rib)) = Some r \<longleftrightarrow> ancestor_route (rib_table rib) k (rt_faceId x) r"
    if "length k < npos"
    using w that by (simp add: RouteSet_find_def Rib_getAncestorRoutes_name_def findParent_nearest)
qed

section \<open>The count of capturing routes\<close>

definition capture_ok :: "rib_entry \<Rightarrow> bool" where
  "capture_ok e \<longleftrightarrow> re_nRoutesWithCaptureSet e = of_nat (length (filter Route_isCapture (re_routes e)))"

definition capture_inv :: "rib \<Rightarrow> bool" where
  "capture_inv rib \<longleftrightarrow> (\<forall>k e. map_of (rib_table rib) k = Some e \<longrightarrow> capture_ok e)"

lemma hasCapture_iff:
  assumes "capture_ok e" "length (re_routes e) < 2 ^ 64"
  shows "RibEntry_hasCapture e \<longleftrightarrow> (\<exists>r \<in> set (re_routes e). Route_isCapture r)"
proof -
  have "length (filter Route_isCapture (re_routes e)) < 2 ^ 64" using assms(2) le_less_trans [OF length_filter_le] by blast
  then have "unat (re_nRoutesWithCaptureSet e) = length (filter Route_isCapture (re_routes e))"
    using assms(1) by (simp add: capture_ok_def unat_of_nat)
  then have "RibEntry_hasCapture e \<longleftrightarrow> filter Route_isCapture (re_routes e) \<noteq> []"
    by (simp add: RibEntry_hasCapture_def word_greater_zero_iff unat_eq_zero flip: length_greater_0_conv unat_gt_0)
  then show ?thesis by (simp add: filter_empty_conv)
qed

lemma capture_insertRoute: "capture_ok e \<Longrightarrow> capture_ok (snd (RibEntry_insertRoute r e))"
  by (auto simp: capture_ok_def RibEntry_insertRoute_def Route_isCapture_def Let_def split: option.split)

lemma filter_erase_first:
  assumes "find P xs = Some x"
  shows "length (filter Q xs) = (if Q x then Suc (length (filter Q (erase_first P xs))) else length (filter Q (erase_first P xs)))"
  using assms by (induction xs) auto

lemma capture_eraseRoute: "capture_ok e \<Longrightarrow> capture_ok (snd (RibEntry_eraseRoute r e))"
  by (auto simp: capture_ok_def RibEntry_eraseRoute_def Route_isCapture_def [abs_def] Let_def RibEntry_findRoute_def
      dest: filter_erase_first [where Q = "\<lambda>r. rt_flags r AND ROUTE_FLAG_CAPTURE \<noteq> 0"] split: option.split)

lemma filter_update_first:
  assumes "find P xs = Some x" "Q (f x) = Q x"
  shows "length (filter Q (update_first P f xs)) = length (filter Q xs)"
  using assms by (induction xs) (auto split: if_splits)

lemma capture_insert:
  assumes "rib_inv \<tau> rib" "typed \<tau> p" "length p < npos" "capture_inv rib"
    and "\<And>x. Rib_find_route p r rib = Some x \<Longrightarrow> Route_isCapture x = Route_isCapture r"
  shows "capture_inv (Rib_insert p r rib)"
proof (cases "map_of (rib_table rib) p")
  case (Some e)
  show ?thesis
  proof (cases "RibEntry_findRoute r e")
    case None
    then show ?thesis using assms(4) Some by (auto simp: capture_inv_def Rib_insert_def capture_insertRoute)
  next
    case x: (Some x)
    then have "Route_isCapture x = Route_isCapture r" using assms(5) Some by (simp add: Rib_find_route_def)
    then show ?thesis
      using assms(4) Some x filter_update_first [of "\<lambda>x. compareFaceIdAndOrigin x r" "re_routes e" x Route_isCapture]
      by (auto simp: capture_inv_def Rib_insert_def capture_ok_def RibEntry_findRoute_def Route_isCapture_def)
  qed
next
  case None
  define e where "e = snd (RibEntry_insertRoute r (RibEntry_ctor\<lparr>re_name := p\<rparr>))"
  have e: "re_name e = p" "re_children e = []" "re_parent e = None"
    by (simp_all add: e_def) (simp_all add: RibEntry_ctor_def)
  have p: "p \<notin> fst ` set (rib_table rib)" using None by (simp add: map_of_eq_None_iff)
  have t: "rib_table (Rib_insert p r rib) = rt_link p e (rib_table rib)"
    by (simp add: Rib_insert_def None rt_link_def e_def Let_def)
  have s: "sorted_wrt (<) (map fst (rib_table rib))" "\<forall>k \<in> fst ` set (rib_table rib). typed \<tau> k" "links_ok (rib_table rib)"
    using assms(1) by (auto simp: rib_inv_def)
  have c: "capture_ok e" unfolding e_def by (rule capture_insertRoute) (simp add: capture_ok_def RibEntry_ctor_def)
  have "capture_ok x" if x: "map_of (rt_link p e (rib_table rib)) k = Some x" for k x
    using rt_link_correct(4) [OF s(1,2) p assms(2,3) s(3) e, of k] x assms(4) c
    by (cases "map_of (rib_table rib) k") (auto simp: capture_inv_def capture_ok_def split: if_splits)
  then show ?thesis by (simp add: capture_inv_def t)
qed

lemma capture_erase:
  assumes "rib_inv \<tau> rib" "capture_inv rib"
  shows "capture_inv (Rib_erase p r rib)"
proof (cases "map_of (rib_table rib) p")
  case None
  then show ?thesis using assms(2) by (simp add: Rib_erase_def)
next
  case e: (Some e)
  show ?thesis
  proof (cases "RibEntry_findRoute r e")
    case None
    then show ?thesis using assms(2) e by (simp add: Rib_erase_def)
  next
    case x: (Some x)
    let ?rib1 = "rib_erased p r e rib"
    let ?e1 = "snd (RibEntry_eraseRoute r e)"
    have c: "capture_inv ?rib1" using assms(2) e by (auto simp: capture_inv_def rib_erased_fields capture_eraseRoute)
    have e1: "map_of (rib_table ?rib1) p = Some ?e1" using e by (simp add: rib_erased_fields)
    have s: "distinct (map fst (rib_table ?rib1))" using assms(1) by (simp add: rib_inv_def rib_erased_fields sorted_distinct)
    have l: "links_ok (rib_table ?rib1)" unfolding rib_erased_fields using assms(1) e by (intro links_modify) (simp_all add: rib_inv_def)
    have "rib_table (Rib_eraseEntry p ?rib1) = rt_unlink p ?e1 (rib_table ?rib1)" by (simp add: Rib_eraseEntry_def e1 rt_unlink_def Let_def)
    moreover have "capture_ok y" if y: "map_of (rt_unlink p ?e1 (rib_table ?rib1)) k = Some y" for k y
      using rt_unlink_correct(4) [OF s l e1, of k] y c
      by (cases "map_of (rib_table ?rib1) k") (auto simp: capture_inv_def capture_ok_def split: if_splits)
    ultimately have "capture_inv (Rib_eraseEntry p ?rib1)" by (simp add: capture_inv_def)
    then show ?thesis using c by (simp add: Rib_erase_split [OF e x])
  qed
qed

end
