(* ===== verification/FibUpdater.thy ===== *)
theory FibUpdater
  imports Rib "HOL-Library.Monad_Syntax"
begin

text \<open>
  The computation of FIB updates from changes of the RIB: \<open>NFD/rib/fib-update.cpp\<close>, \<open>rib-update.hpp\<close> and the part of
  \<open>fib-updater.cpp\<close> that computes; the part that sends is in \<open>RibDaemon\<close>. The recursion over the children of an entry is a partial function,
  shown to end on tables with well-formed links; dereferencing a null pointer and erasing what is not there have no result.
\<close>

section \<open>Updates\<close>

datatype fib_action = ADD_NEXTHOP | REMOVE_NEXTHOP

record fib_update =
  fu_name :: name
  fu_faceId :: u64
  fu_cost :: u64
  fu_action :: fib_action

definition FibUpdate_createAddUpdate :: "name \<Rightarrow> u64 \<Rightarrow> u64 \<Rightarrow> fib_update" where
  "FibUpdate_createAddUpdate n f c = \<lparr>fu_name = n, fu_faceId = f, fu_cost = c, fu_action = ADD_NEXTHOP\<rparr>"

definition FibUpdate_createRemoveUpdate :: "name \<Rightarrow> u64 \<Rightarrow> fib_update" where
  "FibUpdate_createRemoveUpdate n f = \<lparr>fu_name = n, fu_faceId = f, fu_cost = 0, fu_action = REMOVE_NEXTHOP\<rparr>"

definition FibUpdate_equals :: "fib_update \<Rightarrow> fib_update \<Rightarrow> bool" where
  "FibUpdate_equals a b \<longleftrightarrow> Name_equals (fu_name a) (fu_name b) \<and> fu_faceId a = fu_faceId b \<and> fu_cost a = fu_cost b \<and>
     fu_action a = fu_action b"

datatype rib_action = REGISTER | UNREGISTER | REMOVE_FACE

record rib_update =
  ru_action :: rib_action
  ru_name :: name
  ru_route :: route

record fib_updater =
  fup_batchFaceId :: u64
  fup_updatesForBatchFaceId :: "fib_update list"
  fup_updatesForNonBatchFaceId :: "fib_update list"
  fup_inheritedRoutes :: "rib_update list"

definition put_update :: "fib_update \<Rightarrow> fib_update list \<Rightarrow> fib_update list" where
  "put_update u us =
     (let same = (\<lambda>other. Name_equals (fu_name u) (fu_name other) \<and> fu_faceId u = fu_faceId other)
      in if list_ex same us
         then update_first same (\<lambda>x. x\<lparr>fu_action := fu_action u, fu_cost := fu_cost u\<rparr>) us
         else us @ [u])"

definition FibUpdater_addFibUpdate :: "fib_update \<Rightarrow> fib_updater \<Rightarrow> fib_updater" where
  "FibUpdater_addFibUpdate u fup =
     (if fu_faceId u = fup_batchFaceId fup
      then fup\<lparr>fup_updatesForBatchFaceId := put_update u (fup_updatesForBatchFaceId fup)\<rparr>
      else fup\<lparr>fup_updatesForNonBatchFaceId := put_update u (fup_updatesForNonBatchFaceId fup)\<rparr>)"

definition FibUpdater_addInheritedRoute :: "name \<Rightarrow> route \<Rightarrow> fib_updater \<Rightarrow> fib_updater" where
  "FibUpdater_addInheritedRoute n r fup =
     fup\<lparr>fup_inheritedRoutes := fup_inheritedRoutes fup @ [\<lparr>ru_action = REGISTER, ru_name = n, ru_route = r\<rparr>]\<rparr>"

definition FibUpdater_removeInheritedRoute :: "name \<Rightarrow> route \<Rightarrow> fib_updater \<Rightarrow> fib_updater" where
  "FibUpdater_removeInheritedRoute n r fup =
     fup\<lparr>fup_inheritedRoutes := fup_inheritedRoutes fup @ [\<lparr>ru_action = UNREGISTER, ru_name = n, ru_route = r\<rparr>]\<rparr>"

definition FibUpdater_addInheritedRoutes :: "rib_entry \<Rightarrow> route list \<Rightarrow> fib_updater \<Rightarrow> fib_updater" where
  "FibUpdater_addInheritedRoutes e routesToAdd fup =
     fold (\<lambda>r fup. if \<not> RibEntry_hasFaceId (rt_faceId r) e
       then FibUpdater_addFibUpdate (FibUpdate_createAddUpdate (re_name e) (rt_faceId r) (rt_cost r))
              (FibUpdater_addInheritedRoute (re_name e) r fup)
       else fup) routesToAdd fup"

definition FibUpdater_addInheritedRoutes_name :: "name \<Rightarrow> route list \<Rightarrow> route \<Rightarrow> fib_updater \<Rightarrow> fib_updater" where
  "FibUpdater_addInheritedRoutes_name n routesToAdd ignore fup =
     fold (\<lambda>r fup. if rt_faceId r \<noteq> rt_faceId ignore
       then FibUpdater_addFibUpdate (FibUpdate_createAddUpdate n (rt_faceId r) (rt_cost r)) (FibUpdater_addInheritedRoute n r fup)
       else fup) routesToAdd fup"

definition FibUpdater_removeInheritedRoutes :: "rib_entry \<Rightarrow> route list \<Rightarrow> fib_updater \<Rightarrow> fib_updater" where
  "FibUpdater_removeInheritedRoutes e routesToRemove fup =
     fold (\<lambda>r fup. if RibEntry_hasInheritedRoute r e
       then FibUpdater_addFibUpdate (FibUpdate_createRemoveUpdate (re_name e) (rt_faceId r))
              (FibUpdater_removeInheritedRoute (re_name e) r fup)
       else fup) routesToRemove fup"

section \<open>Subtrees\<close>

text \<open>The two loops of \<open>traverseSubTree\<close>: the routes that remain in the set, and the updates.\<close>

fun traverse_remove :: "rib_entry \<Rightarrow> route list \<Rightarrow> fib_updater \<Rightarrow> route list \<times> fib_updater" where
  "traverse_remove e [] fup = ([], fup)"
| "traverse_remove e (r # rs) fup =
     (if RibEntry_hasChildInheritOnFaceId (rt_faceId r) e then traverse_remove e rs fup
      else let fup1 = (if RibEntry_hasInheritedRoute r e
                       then FibUpdater_addFibUpdate (FibUpdate_createRemoveUpdate (re_name e) (rt_faceId r))
                              (FibUpdater_removeInheritedRoute (re_name e) r fup)
                       else fup);
               (rs', fup2) = traverse_remove e rs fup1
           in (r # rs', fup2))"

fun traverse_add :: "rib_entry \<Rightarrow> route list \<Rightarrow> fib_updater \<Rightarrow> route list \<times> fib_updater" where
  "traverse_add e [] fup = ([], fup)"
| "traverse_add e (r # rs) fup =
     (if RibEntry_hasChildInheritOnFaceId (rt_faceId r) e then traverse_add e rs fup
      else let fup1 = (if \<not> RibEntry_hasFaceId (rt_faceId r) e
                       then FibUpdater_addFibUpdate (FibUpdate_createAddUpdate (re_name e) (rt_faceId r) (rt_cost r))
                              (FibUpdater_addInheritedRoute (re_name e) r fup)
                       else fup);
               (rs', fup2) = traverse_add e rs fup1
           in (r # rs', fup2))"

text \<open>\<open>modifyChildrensInheritedRoutes\<close> and \<open>traverseSubTree\<close> call each other; the second is the body of the first here.\<close>

partial_function (option) FibUpdater_modifyChildrensInheritedRoutes ::
    "rib_table \<Rightarrow> name list \<Rightarrow> route list \<Rightarrow> route list \<Rightarrow> fib_updater \<Rightarrow> fib_updater option" where
  "FibUpdater_modifyChildrensInheritedRoutes t children routesToAdd routesToRemove fup =
     (case children of
        [] \<Rightarrow> Some fup
      | child # rest \<Rightarrow>
          do { e \<leftarrow> map_of t child;
               fup1 \<leftarrow> (if RibEntry_hasCapture e then Some fup
                        else let (toRemove, fupr) = traverse_remove e routesToRemove fup;
                                 (toAdd, fupa) = traverse_add e routesToAdd fupr
                             in FibUpdater_modifyChildrensInheritedRoutes t (re_children e) toAdd toRemove fupa);
               FibUpdater_modifyChildrensInheritedRoutes t rest routesToAdd routesToRemove fup1 })"

definition FibUpdater_traverseSubTree ::
    "rib_table \<Rightarrow> rib_entry \<Rightarrow> route list \<Rightarrow> route list \<Rightarrow> fib_updater \<Rightarrow> fib_updater option" where
  "FibUpdater_traverseSubTree t e routesToAdd routesToRemove fup =
     (if RibEntry_hasCapture e then Some fup
      else let (toRemove, fupr) = traverse_remove e routesToRemove fup;
               (toAdd, fupa) = traverse_add e routesToAdd fupr
           in FibUpdater_modifyChildrensInheritedRoutes t (re_children e) toAdd toRemove fupa)"

section \<open>Changes of the RIB\<close>

definition FibUpdater_createFibUpdatesForNewRibEntry ::
    "rib_table \<Rightarrow> name \<Rightarrow> route \<Rightarrow> name list \<Rightarrow> fib_updater \<Rightarrow> fib_updater option" where
  "FibUpdater_createFibUpdatesForNewRibEntry t n r children fup =
     (let fup1 = FibUpdater_addFibUpdate (FibUpdate_createAddUpdate n (rt_faceId r) (rt_cost r)) fup;
          ancestorRoutes = Rib_getAncestorRoutes_name n t
      in if \<not> Route_isChildInherit r \<and> \<not> Route_isCapture r then
           Some (FibUpdater_addInheritedRoutes_name n ancestorRoutes r fup1)
         else if Route_isChildInherit r \<and> Route_isCapture r then
           FibUpdater_modifyChildrensInheritedRoutes t children (RouteSet_insert r []) ancestorRoutes fup1
         else if Route_isChildInherit r then
           (let fup2 = FibUpdater_addInheritedRoutes_name n ancestorRoutes r fup1;
                routes1 = (case RouteSet_find r ancestorRoutes of None \<Rightarrow> ancestorRoutes | Some _ \<Rightarrow> RouteSet_erase r ancestorRoutes);
                routes2 = RouteSet_insert r routes1
            in FibUpdater_modifyChildrensInheritedRoutes t children routes2 [] fup2)
         else if Route_isCapture r then
           FibUpdater_modifyChildrensInheritedRoutes t children [] ancestorRoutes fup1
         else Some fup1)"

definition FibUpdater_createFibUpdatesForNewRoute ::
    "rib_table \<Rightarrow> rib_entry \<Rightarrow> route \<Rightarrow> bool \<Rightarrow> fib_updater \<Rightarrow> fib_updater option" where
  "FibUpdater_createFibUpdatesForNewRoute t e r captureWasTurnedOn fup =
     (let prevRoute = RibEntry_getRouteWithLowestCostAndChildInheritByFaceId (rt_faceId r) e;
          routesToAdd = (if Route_isChildInherit r \<and> (case prevRoute of None \<Rightarrow> True | Some p \<Rightarrow> rt_cost r \<le> rt_cost p)
                         then RouteSet_insert r [] else []);
          routesToRemove = (if captureWasTurnedOn then Rib_getAncestorRoutes_entry e t else []);
          fup1 = (if captureWasTurnedOn then FibUpdater_removeInheritedRoutes e routesToRemove fup else fup)
      in do { fup2 \<leftarrow> FibUpdater_modifyChildrensInheritedRoutes t (re_children e) routesToAdd routesToRemove fup1;
              Some (if (case RibEntry_getRouteWithLowestCostByFaceId (rt_faceId r) e of None \<Rightarrow> True
                        | Some other \<Rightarrow> rt_cost r \<le> rt_cost other)
                    then FibUpdater_addFibUpdate (FibUpdate_createAddUpdate (re_name e) (rt_faceId r) (rt_cost r)) fup2
                    else fup2) })"

text \<open>The update of the entry itself when the cost has changed. A null pointer may be dereferenced.\<close>

definition updated_route_self ::
    "rib_entry \<Rightarrow> route \<Rightarrow> route \<Rightarrow> fib_updater \<Rightarrow> fib_updater option" where
  "updated_route_self e r existing fup =
     do { lowest \<leftarrow> RibEntry_getRouteWithLowestCostByFaceId (rt_faceId r) e;
          if rt_cost r \<le> rt_cost lowest then
            Some (FibUpdater_addFibUpdate (FibUpdate_createAddUpdate (re_name e) (rt_faceId r) (rt_cost r)) fup)
          else if rt_cost existing < rt_cost lowest then
            do { prevRoute \<leftarrow> RibEntry_getRouteWithLowestCostAndChildInheritByFaceId (rt_faceId r) e;
                 Some (FibUpdater_addFibUpdate (FibUpdate_createAddUpdate (re_name e) (rt_faceId prevRoute) (rt_cost prevRoute)) fup) }
          else Some fup }"

text \<open>What is done when child inheritance, and when capture is turned on or off.\<close>

definition updated_route_inherit ::
    "rib_table \<Rightarrow> rib_entry \<Rightarrow> route \<Rightarrow> route \<Rightarrow> route option \<Rightarrow> fib_updater \<Rightarrow> fib_updater option" where
  "updated_route_inherit t e r existing prevRoute fup =
     (if \<not> Route_isChildInherit existing \<and> Route_isChildInherit r then
        (if case prevRoute of None \<Rightarrow> True | Some p \<Rightarrow> rt_cost r \<le> rt_cost p
         then FibUpdater_modifyChildrensInheritedRoutes t (re_children e) (RouteSet_insert r []) [] fup
         else Some fup)
      else if Route_isChildInherit existing \<and> \<not> Route_isChildInherit r then
        (let routesToRemove = RouteSet_insert r [];
             routesToAdd = (case prevRoute of
                 Some p \<Rightarrow> RouteSet_insert p []
               | None \<Rightarrow> (case RouteSet_find r (Rib_getAncestorRoutes_entry e t) of
                            None \<Rightarrow> [] | Some x \<Rightarrow> RouteSet_insert x []))
         in FibUpdater_modifyChildrensInheritedRoutes t (re_children e) routesToAdd routesToRemove fup)
      else Some fup)"

definition updated_route_capture ::
    "rib_table \<Rightarrow> rib_entry \<Rightarrow> route \<Rightarrow> route \<Rightarrow> fib_updater \<Rightarrow> fib_updater option" where
  "updated_route_capture t e r existing fup =
     (if \<not> Route_isCapture existing \<and> Route_isCapture r then
        (let ancestorRoutes = Rib_getAncestorRoutes_entry e t
         in FibUpdater_modifyChildrensInheritedRoutes t (re_children e) [] ancestorRoutes
              (FibUpdater_removeInheritedRoutes e ancestorRoutes fup))
      else if Route_isCapture existing \<and> \<not> Route_isCapture r then
        (let ancestorRoutes = Rib_getAncestorRoutes_entry e t
         in FibUpdater_modifyChildrensInheritedRoutes t (re_children e) ancestorRoutes []
              (FibUpdater_addInheritedRoutes e ancestorRoutes fup))
      else Some fup)"

definition FibUpdater_createFibUpdatesForUpdatedRoute ::
    "rib_table \<Rightarrow> rib_entry \<Rightarrow> route \<Rightarrow> route \<Rightarrow> fib_updater \<Rightarrow> fib_updater option" where
  "FibUpdater_createFibUpdatesForUpdatedRoute t e r existing fup =
     (let costDidChange = (rt_cost r \<noteq> rt_cost existing);
          prevRoute = RibEntry_getRouteWithLowestCostAndChildInheritByFaceId (rt_faceId r) e
      in if rt_flags r = rt_flags existing \<and> \<not> costDidChange then Some fup
         else do {
           fup1 \<leftarrow> (if costDidChange then updated_route_self e r existing fup else Some fup);
           if costDidChange \<and> (case prevRoute of None \<Rightarrow> True | Some p \<Rightarrow> rt_cost r \<le> rt_cost p) \<and>
              rt_flags r = rt_flags existing \<and> Route_isChildInherit r
           then FibUpdater_modifyChildrensInheritedRoutes t (re_children e) (RouteSet_insert r []) [] fup1
           else do {
             fup2 \<leftarrow> updated_route_inherit t e r existing prevRoute fup1;
             updated_route_capture t e r existing fup2 } })"

text \<open>The three cases of \<open>createFibUpdatesForErasedRoute\<close>.\<close>

definition erased_route_children ::
    "rib_table \<Rightarrow> rib_entry \<Rightarrow> route \<Rightarrow> bool \<Rightarrow> fib_updater \<Rightarrow> fib_updater option" where
  "erased_route_children t e r captureWasTurnedOff fup =
     (let ancestorRoutes = Rib_getAncestorRoutes_entry e t
      in if Route_isChildInherit r \<and> Route_isCapture r then
           (let routesToAdd = (if captureWasTurnedOff then ancestorRoutes else []);
                fup1 = (if captureWasTurnedOff then FibUpdater_addInheritedRoutes e routesToAdd fup else fup)
            in FibUpdater_modifyChildrensInheritedRoutes t (re_children e) routesToAdd (RouteSet_insert r []) fup1)
         else if Route_isChildInherit r then
           (let routesToAdd = (if \<not> RibEntry_hasCapture e then ancestorRoutes else [])
            in FibUpdater_modifyChildrensInheritedRoutes t (re_children e) routesToAdd (RouteSet_insert r []) fup)
         else if Route_isCapture r then
           (let routesToAdd = (if captureWasTurnedOff then ancestorRoutes else []);
                fup1 = (if captureWasTurnedOff then FibUpdater_addInheritedRoutes e routesToAdd fup else fup)
            in FibUpdater_modifyChildrensInheritedRoutes t (re_children e) routesToAdd [] fup1)
         else Some fup)"

definition FibUpdater_createFibUpdatesForErasedRoute ::
    "rib_table \<Rightarrow> rib_entry \<Rightarrow> route \<Rightarrow> bool \<Rightarrow> fib_updater \<Rightarrow> fib_updater option" where
  "FibUpdater_createFibUpdatesForErasedRoute t e r captureWasTurnedOff fup =
     do { fup2 \<leftarrow> erased_route_children t e r captureWasTurnedOff
                    (FibUpdater_addFibUpdate (FibUpdate_createRemoveUpdate (re_name e) (rt_faceId r)) fup);
          Some (if \<not> RibEntry_hasCapture e \<and> RibEntry_getNRoutes e \<noteq> 0
                then (case RouteSet_find r (Rib_getAncestorRoutes_entry e t) of
                        None \<Rightarrow> fup2
                      | Some it \<Rightarrow> FibUpdater_addFibUpdate (FibUpdate_createAddUpdate (re_name e) (rt_faceId it) (rt_cost it))
                                    (FibUpdater_addInheritedRoute (re_name e) it fup2))
                else fup2) }"

definition FibUpdater_createFibUpdatesForErasedRibEntry :: "rib_entry \<Rightarrow> fib_updater \<Rightarrow> fib_updater" where
  "FibUpdater_createFibUpdatesForErasedRibEntry e fup =
     fold (\<lambda>r. FibUpdater_addFibUpdate (FibUpdate_createRemoveUpdate (re_name e) (rt_faceId r))) (re_inheritedRoutes e) fup"

section \<open>Updates of the RIB\<close>

definition FibUpdater_computeUpdatesForRegistration :: "rib_update \<Rightarrow> rib_table \<Rightarrow> fib_updater \<Rightarrow> fib_updater option" where
  "FibUpdater_computeUpdatesForRegistration u t fup =
     (let p = ru_name u; r = ru_route u
      in case map_of t p of
           Some e \<Rightarrow>
             (case RibEntry_findRoute r e of
                None \<Rightarrow> FibUpdater_createFibUpdatesForNewRoute t e r (\<not> RibEntry_hasCapture e \<and> Route_isCapture r) fup
              | Some existing \<Rightarrow>
                  let entryCopy = e\<lparr>re_routes := update_first (\<lambda>x. compareFaceIdAndOrigin x r)
                        (\<lambda>x. x\<lparr>rt_flags := rt_flags r, rt_cost := rt_cost r, rt_expires := rt_expires r\<rparr>) (re_routes e)\<rparr>
                  in FibUpdater_createFibUpdatesForUpdatedRoute t entryCopy r existing fup)
         | None \<Rightarrow>
             let parent = Rib_findParent p t;
                 children = filter (\<lambda>d. rt_parent t d = parent) (Rib_findDescendantsForNonInsertedName p t)
             in FibUpdater_createFibUpdatesForNewRibEntry t p r children fup)"

text \<open>The event that is cancelled when the route is erased from a copy of the entry, and the updates.\<close>

definition FibUpdater_computeUpdatesForUnregistration ::
    "(route list \<Rightarrow> route) \<Rightarrow> rib_update \<Rightarrow> rib_table \<Rightarrow> fib_updater \<Rightarrow> (nat option \<times> fib_updater) option" where
  "FibUpdater_computeUpdatesForUnregistration second u t fup =
     (let p = ru_name u; r = ru_route u
      in case map_of t p of
           None \<Rightarrow> Some (None, fup)
         | Some e \<Rightarrow>
             (case RibEntry_findRoute r e of
                None \<Rightarrow> Some (None, fup)
              | Some existing \<Rightarrow>
                  let (ev, temp) = RibEntry_eraseRoute r e;
                      captureWasTurnedOff = (RibEntry_hasCapture e \<and> \<not> RibEntry_hasCapture temp)
                  in do {
                       fup1 \<leftarrow> FibUpdater_createFibUpdatesForErasedRoute t temp existing captureWasTurnedOff fup;
                       fup2 \<leftarrow> (case RibEntry_getRouteWithSecondLowestCostByFaceId second (rt_faceId r) e of
                                  None \<Rightarrow> Some fup1
                                | Some nxt \<Rightarrow> FibUpdater_createFibUpdatesForNewRoute t temp nxt False fup1);
                       Some (ev, if RibEntry_getNRoutes e = 1 then FibUpdater_createFibUpdatesForErasedRibEntry e fup2 else fup2) }))"

text \<open>One update of a batch.\<close>

definition FibUpdater_computeUpdate ::
    "(route list \<Rightarrow> route) \<Rightarrow> rib_table \<Rightarrow> rib_update \<Rightarrow> nat list \<times> fib_updater \<Rightarrow> (nat list \<times> fib_updater) option" where
  "FibUpdater_computeUpdate second t u = (\<lambda>(cancelled, fup). case ru_action u of
       REGISTER \<Rightarrow> do { fup1 \<leftarrow> FibUpdater_computeUpdatesForRegistration u t fup; Some (cancelled, fup1) }
     | UNREGISTER \<Rightarrow>
         do { (ev, fup1) \<leftarrow> FibUpdater_computeUpdatesForUnregistration second u t fup;
              Some (cancelled @ (case ev of None \<Rightarrow> [] | Some i \<Rightarrow> [i]), fup1) }
     | REMOVE_FACE \<Rightarrow>
         do { (ev, fup1) \<leftarrow> FibUpdater_computeUpdatesForUnregistration second u t fup;
              Some (cancelled @ (case ev of None \<Rightarrow> [] | Some i \<Rightarrow> [i]), fup1\<lparr>fup_updatesForBatchFaceId := []\<rparr>) })"

fun FibUpdater_computeUpdates ::
    "(route list \<Rightarrow> route) \<Rightarrow> rib_table \<Rightarrow> rib_update list \<Rightarrow> nat list \<times> fib_updater \<Rightarrow> (nat list \<times> fib_updater) option" where
  "FibUpdater_computeUpdates second t [] st = Some st"
| "FibUpdater_computeUpdates second t (u # us) st =
     do { st1 \<leftarrow> FibUpdater_computeUpdate second t u st; FibUpdater_computeUpdates second t us st1 }"

section \<open>What every computation keeps\<close>

text \<open>A property of the updates that the three elementary steps keep is kept by the computations.\<close>

locale fup_closed =
  fixes P :: "fib_updater \<Rightarrow> bool"
  assumes add_law: "P fup \<Longrightarrow> P (FibUpdater_addFibUpdate u fup)"
    and inherit_law: "P fup \<Longrightarrow> P (FibUpdater_addInheritedRoute n r fup)"
    and disinherit_law: "P fup \<Longrightarrow> P (FibUpdater_removeInheritedRoute n r fup)"
    and clear_law: "P fup \<Longrightarrow> P (fup\<lparr>fup_updatesForBatchFaceId := []\<rparr>)"
begin

lemma fold_law: "(\<And>x fup. P fup \<Longrightarrow> P (g x fup)) \<Longrightarrow> P fup \<Longrightarrow> P (fold g xs fup)"
  by (induction xs arbitrary: fup) auto

lemma inherited_routes_law:
  assumes "P fup"
  shows "P (FibUpdater_addInheritedRoutes e rs fup)" "P (FibUpdater_addInheritedRoutes_name n rs r fup)"
    "P (FibUpdater_removeInheritedRoutes e rs fup)" "P (FibUpdater_createFibUpdatesForErasedRibEntry e fup)"
  unfolding FibUpdater_addInheritedRoutes_def FibUpdater_addInheritedRoutes_name_def FibUpdater_removeInheritedRoutes_def
    FibUpdater_createFibUpdatesForErasedRibEntry_def
  using assms by (auto intro!: fold_law add_law inherit_law disinherit_law)

lemma traverse_law:
  "P fup \<Longrightarrow> P (snd (traverse_remove e rs fup))" "P fup \<Longrightarrow> P (snd (traverse_add e rs fup))"
  by (induction rs arbitrary: fup) (auto simp: Let_def case_prod_unfold add_law inherit_law disinherit_law)

lemma modify_law:
  assumes "FibUpdater_modifyChildrensInheritedRoutes t cs toAdd toRemove fup = Some fup'" "P fup"
  shows "P fup'"
proof -
  have "P fup \<longrightarrow> P fup'"
  proof (rule FibUpdater_modifyChildrensInheritedRoutes.raw_induct [OF _ assms(1), of "\<lambda>t cs toAdd toRemove fup fup'. P fup \<longrightarrow> P fup'"])
    fix rec t cs toAdd toRemove fup fup'
    assume rec: "\<And>t cs toAdd toRemove fup fup'. rec t cs toAdd toRemove fup = Some fup' \<Longrightarrow> P fup \<longrightarrow> P fup'"
      and step: "(case cs of [] \<Rightarrow> Some fup
      | child # rest \<Rightarrow>
          do { e \<leftarrow> map_of t child;
               fup1 \<leftarrow> (if RibEntry_hasCapture e then Some fup
                        else let (toRemove, fupr) = traverse_remove e toRemove fup;
                                 (toAdd, fupa) = traverse_add e toAdd fupr
                             in rec t (re_children e) toAdd toRemove fupa);
               rec t rest toAdd toRemove fup1 }) = Some fup'"
    show "P fup \<longrightarrow> P fup'"
    proof
      assume p: "P fup"
      show "P fup'"
      proof (cases cs)
        case Nil
        then show ?thesis using step p by simp
      next
        case (Cons c rest)
        then obtain e fup1 where e: "map_of t c = Some e" "rec t rest toAdd toRemove fup1 = Some fup'"
          "(if RibEntry_hasCapture e then Some fup
            else let (toRemove, fupr) = traverse_remove e toRemove fup;
                     (toAdd, fupa) = traverse_add e toAdd fupr
                 in rec t (re_children e) toAdd toRemove fupa) = Some fup1"
          using step by (auto simp: bind_eq_Some_conv)
        have "P fup1"
        proof (cases "RibEntry_hasCapture e")
          case False
          obtain toRemove' fupr toAdd' fupa where t: "traverse_remove e toRemove fup = (toRemove', fupr)"
            "traverse_add e toAdd fupr = (toAdd', fupa)" by fastforce
          then have "P fupa" using traverse_law p by (metis snd_conv)
          then show ?thesis using e(3) False t rec [of t "re_children e" toAdd' toRemove' fupa fup1] by simp
        qed (use e(3) p in simp)
        then show ?thesis using rec [OF e(2)] by blast
      qed
    qed
  qed
  then show ?thesis using assms(2) by blast
qed

lemma created_law:
  assumes "P fup"
  shows "FibUpdater_createFibUpdatesForNewRibEntry t n r cs fup = Some fup' \<Longrightarrow> P fup'"
    "FibUpdater_createFibUpdatesForNewRoute t e r b fup = Some fup' \<Longrightarrow> P fup'"
    "FibUpdater_createFibUpdatesForUpdatedRoute t e r x fup = Some fup' \<Longrightarrow> P fup'"
    "FibUpdater_createFibUpdatesForErasedRoute t e r b fup = Some fup' \<Longrightarrow> P fup'"
proof -
  show "P fup'" if "FibUpdater_createFibUpdatesForNewRibEntry t n r cs fup = Some fup'"
    using that assms unfolding FibUpdater_createFibUpdatesForNewRibEntry_def Let_def
    by (auto split: if_splits intro: add_law inherited_routes_law elim!: modify_law)
  show "P fup'" if "FibUpdater_createFibUpdatesForNewRoute t e r b fup = Some fup'"
    using that assms unfolding FibUpdater_createFibUpdatesForNewRoute_def Let_def
    by (auto simp: bind_eq_Some_conv split: if_splits option.splits intro!: add_law inherited_routes_law elim!: modify_law)
  have self: "updated_route_self e r x fup = Some fup1 \<Longrightarrow> P fup1" for fup1
    using assms by (auto simp: updated_route_self_def bind_eq_Some_conv add_law split: if_splits)
  have inherit: "updated_route_inherit t e r x prev fup1 = Some fup2 \<Longrightarrow> P fup1 \<Longrightarrow> P fup2" for prev fup1 fup2
    unfolding updated_route_inherit_def Let_def by (auto split: if_splits elim: modify_law)
  have capture: "updated_route_capture t e r x fup1 = Some fup2 \<Longrightarrow> P fup1 \<Longrightarrow> P fup2" for fup1 fup2
    unfolding updated_route_capture_def Let_def by (auto split: if_splits intro: inherited_routes_law elim!: modify_law)
  show "P fup'" if "FibUpdater_createFibUpdatesForUpdatedRoute t e r x fup = Some fup'"
    using that assms self unfolding FibUpdater_createFibUpdatesForUpdatedRoute_def Let_def
    by (auto simp: bind_eq_Some_conv split: if_splits elim!: modify_law dest: inherit capture)
  have children: "erased_route_children t e r b fup1 = Some fup2 \<Longrightarrow> P fup1 \<Longrightarrow> P fup2" for fup1 fup2
    unfolding erased_route_children_def Let_def by (auto split: if_splits intro: inherited_routes_law elim!: modify_law)
  show "P fup'" if h: "FibUpdater_createFibUpdatesForErasedRoute t e r b fup = Some fup'"
  proof -
    obtain fup2 where fup2: "erased_route_children t e r b (FibUpdater_addFibUpdate (FibUpdate_createRemoveUpdate (re_name e) (rt_faceId r)) fup) = Some fup2"
      using h by (auto simp: FibUpdater_createFibUpdatesForErasedRoute_def bind_eq_Some_conv)
    then have "P fup2" using children add_law [OF assms] by blast
    then show ?thesis
      using h fup2 add_law inherit_law by (auto simp: FibUpdater_createFibUpdatesForErasedRoute_def split: option.splits)
  qed
qed

lemma compute_law:
  assumes "FibUpdater_computeUpdate second t u (cs, fup) = Some (cs', fup')" "P fup"
  shows "P fup'"
proof -
  have reg: "FibUpdater_computeUpdatesForRegistration u t fup = Some fup1 \<Longrightarrow> P fup1" for fup1
    using assms(2) unfolding FibUpdater_computeUpdatesForRegistration_def Let_def by (auto split: option.splits elim: created_law)
  have unreg: "FibUpdater_computeUpdatesForUnregistration second u t fup = Some (ev, fup1) \<Longrightarrow> P fup1" for ev fup1
    using assms(2) unfolding FibUpdater_computeUpdatesForUnregistration_def Let_def
    by (auto simp: bind_eq_Some_conv split: option.splits if_splits prod.splits intro!: inherited_routes_law dest: created_law(2) [OF created_law(4)] created_law(4))
  show ?thesis
    using assms(1) reg unreg clear_law unfolding FibUpdater_computeUpdate_def
    by (auto simp: bind_eq_Some_conv split: rib_action.splits)
qed

lemma computeUpdates_law: "FibUpdater_computeUpdates second t us st = Some st' \<Longrightarrow> P (snd st) \<Longrightarrow> P (snd st')"
proof (induction us arbitrary: st)
  case (Cons u us)
  then obtain st1 where "FibUpdater_computeUpdate second t u st = Some st1" "FibUpdater_computeUpdates second t us st1 = Some st'"
    by (auto simp: bind_eq_Some_conv)
  then show ?case using Cons compute_law [of second t u "fst st" "snd st" "fst st1" "snd st1"] by auto
qed simp

end

section \<open>One update for each name and face\<close>

definition update_key :: "fib_update \<Rightarrow> bytes list \<times> u64" where
  "update_key u = (map comp_value (fu_name u), fu_faceId u)"

definition fup_inv :: "fib_updater \<Rightarrow> bool" where
  "fup_inv fup \<longleftrightarrow> distinct (map update_key (fup_updatesForBatchFaceId fup)) \<and> distinct (map update_key (fup_updatesForNonBatchFaceId fup)) \<and>
     (\<forall>u \<in> set (fup_updatesForBatchFaceId fup). fu_faceId u = fup_batchFaceId fup) \<and>
     (\<forall>u \<in> set (fup_updatesForNonBatchFaceId fup). fu_faceId u \<noteq> fup_batchFaceId fup)"

lemma put_update_key:
  "put_update u us = (if update_key u \<in> update_key ` set us
     then update_first (\<lambda>x. update_key u = update_key x) (\<lambda>x. x\<lparr>fu_action := fu_action u, fu_cost := fu_cost u\<rparr>) us else us @ [u])"
proof -
  have "(\<lambda>other. Name_equals (fu_name u) (fu_name other) \<and> fu_faceId u = fu_faceId other) = (\<lambda>other. update_key u = update_key other)"
    by (auto simp: Name_equals_iff update_key_def)
  moreover have "list_ex (\<lambda>other. update_key u = update_key other) us \<longleftrightarrow> update_key u \<in> update_key ` set us" by (auto simp: list_ex_iff)
  ultimately show ?thesis by (simp add: put_update_def Let_def)
qed

lemma put_update_map: "map update_key (put_update u us) =
    (if update_key u \<in> update_key ` set us then map update_key us else map update_key us @ [update_key u])"
  by (simp add: put_update_key map_update_first update_key_def)

lemma put_update_faces: "fu_faceId ` set (put_update u us) = insert (fu_faceId u) (fu_faceId ` set us)"
proof -
  have f: "fu_faceId ` set us = snd ` set (map update_key us)" for us by (auto simp: update_key_def image_image)
  show ?thesis unfolding f put_update_map by (auto simp: update_key_def image_iff)
qed

lemma put_update_face: "x \<in> set (put_update u us) \<Longrightarrow> fu_faceId x = fu_faceId u \<or> fu_faceId x \<in> fu_faceId ` set us"
  using put_update_faces [of u us] imageI [of x "set (put_update u us)" fu_faceId] by simp

interpretation keyed: fup_closed "\<lambda>fup. fup_batchFaceId fup = b \<and> fup_inv fup" for b
proof
  fix fup u n r
  assume f: "fup_batchFaceId fup = b \<and> fup_inv fup"
  have d: "distinct (map update_key (put_update u us))" if "distinct (map update_key us)" for us
    using that by (auto simp: put_update_map)
  have q: "\<forall>x \<in> set (put_update u us). Q (fu_faceId x)" if "\<forall>x \<in> set us. Q (fu_faceId x)" "Q (fu_faceId u)" for us Q
  proof
    fix x assume "x \<in> set (put_update u us)"
    from put_update_face [OF this] show "Q (fu_faceId x)" using that by auto
  qed
  have i: "distinct (map update_key (fup_updatesForBatchFaceId fup))" "distinct (map update_key (fup_updatesForNonBatchFaceId fup))"
    "\<forall>u \<in> set (fup_updatesForBatchFaceId fup). fu_faceId u = b" "\<forall>u \<in> set (fup_updatesForNonBatchFaceId fup). fu_faceId u \<noteq> b"
    using f by (auto simp: fup_inv_def)
  show "fup_batchFaceId (FibUpdater_addFibUpdate u fup) = b \<and> fup_inv (FibUpdater_addFibUpdate u fup)"
  proof (cases "fu_faceId u = b")
    case True
    then show ?thesis using f i d [OF i(1)] q [OF i(3)] by (simp add: FibUpdater_addFibUpdate_def fup_inv_def)
  next
    case False
    then show ?thesis using f i d [OF i(2)] q [OF i(4)] by (simp add: FibUpdater_addFibUpdate_def fup_inv_def)
  qed
  show "fup_batchFaceId (FibUpdater_addInheritedRoute n r fup) = b \<and> fup_inv (FibUpdater_addInheritedRoute n r fup)"
    "fup_batchFaceId (FibUpdater_removeInheritedRoute n r fup) = b \<and> fup_inv (FibUpdater_removeInheritedRoute n r fup)"
    "fup_batchFaceId (fup\<lparr>fup_updatesForBatchFaceId := []\<rparr>) = b \<and> fup_inv (fup\<lparr>fup_updatesForBatchFaceId := []\<rparr>)"
    using f by (auto simp: FibUpdater_addInheritedRoute_def FibUpdater_removeInheritedRoute_def fup_inv_def)
qed

section \<open>The computations end\<close>

lemma modify_children_total:
  assumes "links_ok t" "\<forall>c \<in> set cs. map_of t c \<noteq> None"
  shows "\<exists>fup'. FibUpdater_modifyChildrensInheritedRoutes t cs toAdd toRemove fup = Some fup'"
proof -
  define depth where "depth c = card {d \<in> dom (map_of t). strict_prefix c d}" for c
  have "\<exists>fup'. FibUpdater_modifyChildrensInheritedRoutes t cs toAdd toRemove fup = Some fup'"
    if "\<forall>c \<in> set cs. map_of t c \<noteq> None \<and> depth c < n" for n
    using that
  proof (induction n arbitrary: cs toAdd toRemove fup)
    case 0
    then have "cs = []" by (cases cs) auto
    then show ?case by (subst FibUpdater_modifyChildrensInheritedRoutes.simps) simp
  next
    case (Suc n)
    show ?case
      using Suc.prems
    proof (induction cs arbitrary: fup)
      case Nil
      then show ?case by (subst FibUpdater_modifyChildrensInheritedRoutes.simps) simp
    next
      case (Cons c rest)
      then obtain e where e: "map_of t c = Some e" "depth c < Suc n" by auto
      have ch: "map_of t d \<noteq> None \<and> depth d < n" if "d \<in> set (re_children e)" for d
      proof -
        have d: "d \<in> dom (map_of t)" "strict_prefix c d" using assms(1) e(1) that nearest_strict by (auto simp: links_ok_def)
        then have "{x \<in> dom (map_of t). strict_prefix d x} \<subset> {x \<in> dom (map_of t). strict_prefix c x}"
          using prefix_order.less_trans by blast
        then have "depth d < depth c" unfolding depth_def by (intro psubset_card_mono) (simp_all add: finite_dom_map_of)
        then show ?thesis using d(1) e(2) by auto
      qed
      obtain toRemove' fupr toAdd' fupa where tr: "traverse_remove e toRemove fup = (toRemove', fupr)"
        "traverse_add e toAdd fupr = (toAdd', fupa)" by fastforce
      obtain fup1 where "(if RibEntry_hasCapture e then Some fup
          else FibUpdater_modifyChildrensInheritedRoutes t (re_children e) toAdd' toRemove' fupa) = Some fup1"
        using Suc.IH [of "re_children e" toAdd' toRemove' fupa] ch by (cases "RibEntry_hasCapture e") auto
      moreover obtain fup2 where "FibUpdater_modifyChildrensInheritedRoutes t rest toAdd toRemove fup1 = Some fup2"
        using Cons.IH [of fup1] Cons.prems by auto
      ultimately show ?case
        by (cases "RibEntry_hasCapture e") (simp_all add: FibUpdater_modifyChildrensInheritedRoutes.simps [of t "c # rest"] e(1) tr)
    qed
  qed
  then show ?thesis using assms(2) by (metis less_Suc_eq_le Max_ge finite_imageI finite_set imageI)
qed

lemma children_in_table: "links_ok t \<Longrightarrow> map_of t k = Some e \<Longrightarrow> \<forall>c \<in> set (re_children e). map_of t c \<noteq> None"
  by (auto simp: links_ok_def)

lemma created_total:
  assumes "links_ok t" "\<forall>c \<in> set (re_children e). map_of t c \<noteq> None" "\<forall>c \<in> set cs. map_of t c \<noteq> None"
  shows "\<exists>fup'. FibUpdater_createFibUpdatesForNewRibEntry t n r cs fup = Some fup'"
    "\<exists>fup'. FibUpdater_createFibUpdatesForNewRoute t e r b fup = Some fup'"
    "\<exists>fup'. FibUpdater_createFibUpdatesForErasedRoute t e r b fup = Some fup'"
    "updated_route_self e r x fup \<noteq> None \<Longrightarrow> \<exists>fup'. FibUpdater_createFibUpdatesForUpdatedRoute t e r x fup = Some fup'"
proof -
  have m: "\<exists>fup'. FibUpdater_modifyChildrensInheritedRoutes t (re_children e) toAdd toRemove fup1 = Some fup'" for toAdd toRemove fup1
    using modify_children_total [OF assms(1,2)] by blast
  have m2: "\<exists>fup'. FibUpdater_modifyChildrensInheritedRoutes t cs toAdd toRemove fup1 = Some fup'" for toAdd toRemove fup1
    using modify_children_total [OF assms(1,3)] by blast
  show "\<exists>fup'. FibUpdater_createFibUpdatesForNewRibEntry t n r cs fup = Some fup'"
    unfolding FibUpdater_createFibUpdatesForNewRibEntry_def Let_def using m2 by simp
  show "\<exists>fup'. FibUpdater_createFibUpdatesForNewRoute t e r b fup = Some fup'"
    unfolding FibUpdater_createFibUpdatesForNewRoute_def Let_def bind_eq_Some_conv using m by blast
  have "\<exists>fup'. erased_route_children t e r b fup1 = Some fup'" for fup1
    unfolding erased_route_children_def Let_def using m by simp
  then show "\<exists>fup'. FibUpdater_createFibUpdatesForErasedRoute t e r b fup = Some fup'"
    unfolding FibUpdater_createFibUpdatesForErasedRoute_def bind_eq_Some_conv by blast
  have i: "\<exists>fup'. updated_route_inherit t e r x prev fup1 = Some fup'" for prev fup1
    unfolding updated_route_inherit_def Let_def using m by simp
  have c: "\<exists>fup'. updated_route_capture t e r x fup1 = Some fup'" for fup1
    unfolding updated_route_capture_def Let_def using m by simp
  have i2: "\<exists>fup'. updated_route_inherit t e r x prev fup1 \<bind> updated_route_capture t e r x = Some fup'" for prev fup1
    using i [of prev fup1] c by (auto simp: bind_eq_Some_conv)
  show "\<exists>fup'. FibUpdater_createFibUpdatesForUpdatedRoute t e r x fup = Some fup'" if "updated_route_self e r x fup \<noteq> None"
  proof -
    obtain fup1 where f: "(if rt_cost r \<noteq> rt_cost x then updated_route_self e r x fup else Some fup) = Some fup1"
      using \<open>updated_route_self e r x fup \<noteq> None\<close> by (cases "rt_cost r \<noteq> rt_cost x") auto
    show ?thesis unfolding FibUpdater_createFibUpdatesForUpdatedRoute_def Let_def f using m i2 by simp
  qed
qed

text \<open>A change of a route whose cost was the lowest on its face, to a cost that is not, dereferences a null pointer unless the routes on the
  face are inherited.\<close>

definition null_free :: "rib_update \<Rightarrow> rib_table \<Rightarrow> bool" where
  "null_free u t \<longleftrightarrow> (\<forall>e. map_of t (ru_name u) = Some e \<longrightarrow>
     (\<forall>x \<in> set (re_routes e). rt_faceId x = rt_faceId (ru_route u) \<longrightarrow> rt_origin x = rt_origin (ru_route u)))"

lemma lowest_cost_snoc: "lowest_cost P (rs @ [r]) = (if P r then (case lowest_cost P rs of None \<Rightarrow> Some r
    | Some c \<Rightarrow> if rt_cost r < rt_cost c then Some r else Some c) else lowest_cost P rs)"
  by (simp add: lowest_cost_def)

lemma lowest_cost_correct:
  "case lowest_cost P rs of None \<Rightarrow> \<forall>r \<in> set rs. \<not> P r
   | Some c \<Rightarrow> c \<in> set rs \<and> P c \<and> (\<forall>r \<in> set rs. P r \<longrightarrow> rt_cost c \<le> rt_cost r)"
proof (induction rs rule: rev_induct)
  case Nil
  then show ?case by (simp add: lowest_cost_def)
next
  case (snoc r rs)
  then show ?case by (auto simp: lowest_cost_snoc split: option.splits)
qed

lemma update_first_map:
  "distinct (map k xs) \<Longrightarrow> update_first (\<lambda>x. k x = a) f xs = map (\<lambda>x. if k x = a then f x else x) xs"
  by (induction xs) (auto simp: image_iff intro!: map_idI [symmetric])

lemma registration_total:
  assumes "rib_inv \<tau> rib" "null_free u (rib_table rib)"
  shows "\<exists>fup'. FibUpdater_computeUpdatesForRegistration u (rib_table rib) fup = Some fup'"
proof (cases "map_of (rib_table rib) (ru_name u)")
  case None
  have "\<forall>c \<in> set (Rib_findDescendantsForNonInsertedName (ru_name u) (rib_table rib)). map_of (rib_table rib) c \<noteq> None"
    by (auto simp: Rib_findDescendantsForNonInsertedName_def map_of_eq_None_iff)
  then show ?thesis
    using created_total(1) [of "rib_table rib" RibEntry_ctor] assms(1)
    by (simp add: FibUpdater_computeUpdatesForRegistration_def None Let_def rib_inv_def RibEntry_ctor_def)
next
  case (Some e)
  have l: "links_ok (rib_table rib)" "\<forall>c \<in> set (re_children e). map_of (rib_table rib) c \<noteq> None"
    using assms(1) children_in_table Some by (auto simp: rib_inv_def)
  show ?thesis
  proof (cases "RibEntry_findRoute (ru_route u) e")
    case None
    then show ?thesis using created_total(2) [OF l, of "[]"] Some by (simp add: FibUpdater_computeUpdatesForRegistration_def Let_def)
  next
    case x: (Some x)
    let ?r = "ru_route u"
    let ?e = "e\<lparr>re_routes := update_first (\<lambda>x. compareFaceIdAndOrigin x ?r)
      (\<lambda>x. x\<lparr>rt_flags := rt_flags ?r, rt_cost := rt_cost ?r, rt_expires := rt_expires ?r\<rparr>) (re_routes e)\<rparr>"
    have "updated_route_self ?e ?r x fup \<noteq> None"
    proof -
      let ?k = "\<lambda>x. (rt_faceId x, rt_origin x)"
      have d: "distinct (map ?k (re_routes e))" using assms(1) Some by (simp add: rib_inv_def routes_ok_def)
      let ?f = "\<lambda>x. x\<lparr>rt_flags := rt_flags ?r, rt_cost := rt_cost ?r, rt_expires := rt_expires ?r\<rparr>"
      have m: "re_routes ?e = map (\<lambda>x. if ?k x = ?k ?r then ?f x else x) (re_routes e)"
        using update_first_map [OF d, of "?k ?r" ?f] by (simp add: compareFaceIdAndOrigin_def [abs_def])
      have same: "rt_cost y = rt_cost ?r" if "y \<in> set (re_routes ?e)" "rt_faceId y = rt_faceId ?r" for y
        using that assms(2) Some unfolding m by (auto simp: null_free_def split: if_splits)
      have "?f x \<in> set (re_routes ?e)" unfolding m using findRoute_Some [OF x] by (auto simp: compareFaceIdAndOrigin_def image_iff)
      moreover have "rt_faceId (?f x) = rt_faceId ?r" using findRoute_Some [OF x] by (simp add: compareFaceIdAndOrigin_def)
      ultimately obtain l where l: "RibEntry_getRouteWithLowestCostByFaceId (rt_faceId ?r) ?e = Some l" "l \<in> set (re_routes ?e)" "rt_faceId l = rt_faceId ?r"
        using lowest_cost_correct [of "re_routes ?e" "\<lambda>r. rt_faceId r = rt_faceId ?r"]
        by (auto simp: RibEntry_getRouteWithLowestCostByFaceId_def split: option.splits)
      then have "rt_cost ?r \<le> rt_cost l" using same [of l] by simp
      then show ?thesis using l(1) by (simp add: updated_route_self_def)
    qed
    then show ?thesis
      using created_total(4) [of "rib_table rib" ?e "[]"] l Some x by (simp add: FibUpdater_computeUpdatesForRegistration_def Let_def)
  qed
qed

lemma unregistration_total:
  assumes "rib_inv \<tau> rib"
  shows "\<exists>ev fup'. FibUpdater_computeUpdatesForUnregistration second u (rib_table rib) fup = Some (ev, fup')"
proof (cases "map_of (rib_table rib) (ru_name u)")
  case None
  then show ?thesis by (simp add: FibUpdater_computeUpdatesForUnregistration_def Let_def)
next
  case (Some e)
  show ?thesis
  proof (cases "RibEntry_findRoute (ru_route u) e")
    case None
    then show ?thesis using Some by (simp add: FibUpdater_computeUpdatesForUnregistration_def Let_def)
  next
    case x: (Some x)
    obtain ev temp where t: "RibEntry_eraseRoute (ru_route u) e = (ev, temp)" by fastforce
    have l: "links_ok (rib_table rib)" "\<forall>c \<in> set (re_children temp). map_of (rib_table rib) c \<noteq> None"
      using assms children_in_table Some eraseRoute_fields(2) [of "ru_route u" e] t by (auto simp: rib_inv_def)
    have "\<forall>c \<in> set []. map_of (rib_table rib) c \<noteq> None" by simp
    note c = created_total [OF l this]
    obtain fup1 where f1: "FibUpdater_createFibUpdatesForErasedRoute (rib_table rib) temp x (RibEntry_hasCapture e \<and> \<not> RibEntry_hasCapture temp) fup = Some fup1"
      using c(3) [of x "RibEntry_hasCapture e \<and> \<not> RibEntry_hasCapture temp" fup] by blast
    have "\<exists>fup2. (case RibEntry_getRouteWithSecondLowestCostByFaceId second (rt_faceId (ru_route u)) e of
        None \<Rightarrow> Some fup1 | Some nxt \<Rightarrow> FibUpdater_createFibUpdatesForNewRoute (rib_table rib) temp nxt False fup1) = Some fup2"
      using c(2) by (auto split: option.split)
    then show ?thesis
      using f1 by (auto simp: FibUpdater_computeUpdatesForUnregistration_def Let_def Some x t bind_eq_Some_conv)
  qed
qed

end
