(* ===== verification/RibDaemon.thy ===== *)
theory RibDaemon
  imports FibUpdater "HOL-Library.Multiset"
begin

text \<open>
  The routing daemon: the queue of updates of \<open>NFD/rib/rib.cpp\<close>, the part of \<open>fib-updater.cpp\<close> that sends commands to the
  forwarder and handles its answers, and the operations of \<open>rib-manager.cpp\<close> after a command has been validated. A command that was sent and
  not answered is a value of the state, with the callbacks bound to it: they are given by the item of the queue they belong to.
  An answer takes a command from the state. Events of the scheduler are values of the state too.
\<close>

section \<open>State\<close>

datatype rib_error = FibUpdater_Error u32

text \<open>A batch has exactly one update. The flag says whether the callbacks are those of the manager or null.\<close>

record queue_item =
  qi_faceId :: u64
  qi_updates :: "rib_update list"
  qi_manager :: bool

record fib_command =
  cmd_action :: fib_action
  cmd_update :: fib_update
  cmd_item :: queue_item
  cmd_nTimeouts :: nat

datatype rib_event = RouteExpiration name route | FaceDestroyedEvent u64 | FetchActiveFaces

record rib_daemon =
  rd_rib :: rib
  rd_fup :: fib_updater
  rd_updateBatches :: "queue_item list"
  rd_isUpdateInProgress :: bool
  rd_commands :: "fib_command list"
  rd_registeredFaces :: "u64 set"
  rd_events :: "(nat \<times> rib_event) list"
  rd_nEvents :: nat
  rd_activeFaceFetchEvent :: "nat option"

definition rib_daemon_ctor :: rib_daemon where
  "rib_daemon_ctor = \<lparr>rd_rib = Rib_ctor,
     rd_fup = \<lparr>fup_batchFaceId = 0, fup_updatesForBatchFaceId = [], fup_updatesForNonBatchFaceId = [], fup_inheritedRoutes = []\<rparr>,
     rd_updateBatches = [], rd_isUpdateInProgress = False, rd_commands = [], rd_registeredFaces = {}, rd_events = [], rd_nEvents = 0,
     rd_activeFaceFetchEvent = None\<rparr>"

definition MAX_NUM_TIMEOUTS :: nat where "MAX_NUM_TIMEOUTS = 10"

definition ERROR_FACE_NOT_FOUND :: u32 where "ERROR_FACE_NOT_FOUND = 410"

definition ERROR_TIMEOUT :: u32 where "ERROR_TIMEOUT = 10060"

definition rd_schedule :: "rib_event \<Rightarrow> rib_daemon \<Rightarrow> nat \<times> rib_daemon" where
  "rd_schedule ev rd = (rd_nEvents rd, rd\<lparr>rd_events := rd_events rd @ [(rd_nEvents rd, ev)], rd_nEvents := rd_nEvents rd + 1\<rparr>)"

text \<open>The events that will fire: those that were not cancelled.\<close>

definition rd_pending :: "rib_daemon \<Rightarrow> (nat \<times> rib_event) list" where
  "rd_pending rd = filter (\<lambda>(i, ev). i \<notin> set (rib_cancelled (rd_rib rd))) (rd_events rd)"

definition RibManager_scheduleActiveFaceFetch :: "rib_daemon \<Rightarrow> rib_daemon" where
  "RibManager_scheduleActiveFaceFetch rd =
     (let rd1 = (case rd_activeFaceFetchEvent rd of None \<Rightarrow> rd
                 | Some i \<Rightarrow> rd\<lparr>rd_events := filter (\<lambda>x. fst x \<noteq> i) (rd_events rd)\<rparr>);
          (i, rd2) = rd_schedule FetchActiveFaces rd1
      in rd2\<lparr>rd_activeFaceFetchEvent := Some i\<rparr>)"

section \<open>Sending\<close>

definition FibUpdater_sendAddNextHopUpdate :: "fib_update \<Rightarrow> queue_item \<Rightarrow> nat \<Rightarrow> rib_daemon \<Rightarrow> rib_daemon" where
  "FibUpdater_sendAddNextHopUpdate u item nTimeouts rd =
     rd\<lparr>rd_commands := rd_commands rd @ [\<lparr>cmd_action = ADD_NEXTHOP, cmd_update = u, cmd_item = item, cmd_nTimeouts = nTimeouts\<rparr>]\<rparr>"

definition FibUpdater_sendRemoveNextHopUpdate :: "fib_update \<Rightarrow> queue_item \<Rightarrow> nat \<Rightarrow> rib_daemon \<Rightarrow> rib_daemon" where
  "FibUpdater_sendRemoveNextHopUpdate u item nTimeouts rd =
     rd\<lparr>rd_commands := rd_commands rd @ [\<lparr>cmd_action = REMOVE_NEXTHOP, cmd_update = u, cmd_item = item, cmd_nTimeouts = nTimeouts\<rparr>]\<rparr>"

definition FibUpdater_sendUpdates :: "fib_update list \<Rightarrow> queue_item \<Rightarrow> rib_daemon \<Rightarrow> rib_daemon" where
  "FibUpdater_sendUpdates us item rd =
     fold (\<lambda>u. case fu_action u of ADD_NEXTHOP \<Rightarrow> FibUpdater_sendAddNextHopUpdate u item 0
                | REMOVE_NEXTHOP \<Rightarrow> FibUpdater_sendRemoveNextHopUpdate u item 0) us rd"

text \<open>The flag says whether the callback for success is called.\<close>

definition FibUpdater_sendUpdatesForNonBatchFaceId :: "queue_item \<Rightarrow> rib_daemon \<Rightarrow> bool \<times> rib_daemon" where
  "FibUpdater_sendUpdatesForNonBatchFaceId item rd =
     (if fup_updatesForNonBatchFaceId (rd_fup rd) \<noteq> []
      then (False, FibUpdater_sendUpdates (fup_updatesForNonBatchFaceId (rd_fup rd)) item rd)
      else (True, rd))"

definition FibUpdater_sendUpdatesForBatchFaceId :: "queue_item \<Rightarrow> rib_daemon \<Rightarrow> bool \<times> rib_daemon" where
  "FibUpdater_sendUpdatesForBatchFaceId item rd =
     (if fup_updatesForBatchFaceId (rd_fup rd) \<noteq> []
      then (False, FibUpdater_sendUpdates (fup_updatesForBatchFaceId (rd_fup rd)) item rd)
      else FibUpdater_sendUpdatesForNonBatchFaceId item rd)"

definition FibUpdater_computeAndSendFibUpdates ::
    "(route list \<Rightarrow> route) \<Rightarrow> queue_item \<Rightarrow> rib_daemon \<Rightarrow> (bool \<times> rib_daemon) option" where
  "FibUpdater_computeAndSendFibUpdates second item rd =
     (let fup = \<lparr>fup_batchFaceId = qi_faceId item, fup_updatesForBatchFaceId = [], fup_updatesForNonBatchFaceId = [],
                 fup_inheritedRoutes = []\<rparr>
      in do { (cancelled, fup1) \<leftarrow> FibUpdater_computeUpdates second (rib_table (rd_rib rd)) (qi_updates item) ([], fup);
              Some (FibUpdater_sendUpdatesForBatchFaceId item
                (rd\<lparr>rd_fup := fup1, rd_rib := (rd_rib rd)\<lparr>rib_cancelled := rib_cancelled (rd_rib rd) @ cancelled\<rparr>\<rparr>)) })"

section \<open>Applying\<close>

definition Rib_modifyInheritedRoute :: "rib_update \<Rightarrow> rib_table \<Rightarrow> rib_table option" where
  "Rib_modifyInheritedRoute u t =
     do { e \<leftarrow> map_of t (ru_name u);
          case ru_action u of
            REGISTER \<Rightarrow> Some (rt_modify (ru_name u) (RibEntry_addInheritedRoute (ru_route u)) t)
          | UNREGISTER \<Rightarrow> do { e' \<leftarrow> RibEntry_removeInheritedRoute (ru_route u) e; Some (rt_modify (ru_name u) (\<lambda>_. e') t) }
          | REMOVE_FACE \<Rightarrow> Some t }"

fun Rib_modifyInheritedRoutes :: "rib_update list \<Rightarrow> rib_table \<Rightarrow> rib_table option" where
  "Rib_modifyInheritedRoutes [] t = Some t"
| "Rib_modifyInheritedRoutes (u # us) t = do { t1 \<leftarrow> Rib_modifyInheritedRoute u t; Rib_modifyInheritedRoutes us t1 }"

definition apply_rib_update :: "rib_update \<Rightarrow> rib \<Rightarrow> rib" where
  "apply_rib_update u rib = (case ru_action u of
       REGISTER \<Rightarrow> Rib_insert (ru_name u) (ru_route u) rib
     | UNREGISTER \<Rightarrow> Rib_erase (ru_name u) (ru_route u) rib
     | REMOVE_FACE \<Rightarrow> Rib_erase (ru_name u) (ru_route u) rib)"

text \<open>\<open>onFibUpdateSuccess\<close> up to the call that goes on with the queue. The manager's callback only writes to the log.\<close>

definition Rib_applyBatch :: "queue_item \<Rightarrow> rib_daemon \<Rightarrow> rib_daemon option" where
  "Rib_applyBatch item rd =
     (let rib1 = fold apply_rib_update (qi_updates item) (rd_rib rd)
      in do { t \<leftarrow> Rib_modifyInheritedRoutes (fup_inheritedRoutes (rd_fup rd)) (rib_table rib1);
              Some (rd\<lparr>rd_rib := rib1\<lparr>rib_table := t\<rparr>, rd_isUpdateInProgress := False\<rparr>) })"

text \<open>\<open>sendBatchFromQueue\<close> goes on with the next item at once when an item needs no commands. The loop is over the queue.\<close>

fun send_batches :: "(route list \<Rightarrow> route) \<Rightarrow> queue_item list \<Rightarrow> rib_daemon \<Rightarrow> rib_daemon option" where
  "send_batches second [] rd = Some (rd\<lparr>rd_updateBatches := []\<rparr>)"
| "send_batches second (item # rest) rd =
     do { (finished, rd1) \<leftarrow> FibUpdater_computeAndSendFibUpdates second item (rd\<lparr>rd_isUpdateInProgress := True, rd_updateBatches := rest\<rparr>);
          if finished then do { rd2 \<leftarrow> Rib_applyBatch item rd1; send_batches second rest rd2 }
          else Some rd1 }"

definition Rib_sendBatchFromQueue :: "(route list \<Rightarrow> route) \<Rightarrow> rib_daemon \<Rightarrow> rib_daemon option" where
  "Rib_sendBatchFromQueue second rd =
     (if rd_updateBatches rd = [] \<or> rd_isUpdateInProgress rd then Some rd else send_batches second (rd_updateBatches rd) rd)"

definition Rib_onFibUpdateSuccess :: "(route list \<Rightarrow> route) \<Rightarrow> queue_item \<Rightarrow> rib_daemon \<Rightarrow> rib_daemon option" where
  "Rib_onFibUpdateSuccess second item rd = do { rd1 \<leftarrow> Rib_applyBatch item rd; Rib_sendBatchFromQueue second rd1 }"

definition Rib_onFibUpdateFailure :: "(route list \<Rightarrow> route) \<Rightarrow> queue_item \<Rightarrow> rib_daemon \<Rightarrow> rib_daemon option" where
  "Rib_onFibUpdateFailure second item rd =
     (let rd1 = rd\<lparr>rd_isUpdateInProgress := False\<rparr>;
          rd2 = (if qi_manager item then RibManager_scheduleActiveFaceFetch rd1 else rd1)
      in Rib_sendBatchFromQueue second rd2)"

section \<open>Answers\<close>

text \<open>Removal of the updates that are equal to one.\<close>

definition remove_updates :: "fib_update \<Rightarrow> fib_update list \<Rightarrow> fib_update list" where
  "remove_updates u us = filter (\<lambda>x. \<not> FibUpdate_equals x u) us"

definition FibUpdater_onUpdateSuccess :: "(route list \<Rightarrow> route) \<Rightarrow> fib_command \<Rightarrow> rib_daemon \<Rightarrow> rib_daemon option" where
  "FibUpdater_onUpdateSuccess second cmd rd =
     (let u = cmd_update cmd; item = cmd_item cmd; fup = rd_fup rd
      in if fu_faceId u = fup_batchFaceId fup then
           (let us = remove_updates u (fup_updatesForBatchFaceId fup);
                rd1 = rd\<lparr>rd_fup := fup\<lparr>fup_updatesForBatchFaceId := us\<rparr>\<rparr>
            in if us = [] then
                 (case FibUpdater_sendUpdatesForNonBatchFaceId item rd1 of
                    (finished, rd2) \<Rightarrow> if finished then Rib_onFibUpdateSuccess second item rd2 else Some rd2)
               else Some rd1)
         else
           (let us = remove_updates u (fup_updatesForNonBatchFaceId fup);
                rd1 = rd\<lparr>rd_fup := fup\<lparr>fup_updatesForNonBatchFaceId := us\<rparr>\<rparr>
            in if us = [] then Rib_onFibUpdateSuccess second item rd1 else Some rd1))"

definition FibUpdater_onUpdateError ::
    "(route list \<Rightarrow> route) \<Rightarrow> fib_command \<Rightarrow> u32 \<Rightarrow> rib_daemon \<Rightarrow> (rib_error + rib_daemon) option" where
  "FibUpdater_onUpdateError second cmd code rd =
     (let u = cmd_update cmd; item = cmd_item cmd; fup = rd_fup rd
      in if code = ERROR_TIMEOUT \<and> cmd_nTimeouts cmd < MAX_NUM_TIMEOUTS then
           Some (Inr (FibUpdater_sendAddNextHopUpdate u item (cmd_nTimeouts cmd + 1) rd))
         else if code = ERROR_FACE_NOT_FOUND then
           (if fu_faceId u = fup_batchFaceId fup then
              map_option Inr (Rib_onFibUpdateFailure second item rd)
            else
              (let us = remove_updates u (fup_updatesForNonBatchFaceId fup);
                   rd1 = rd\<lparr>rd_fup := fup\<lparr>fup_updatesForNonBatchFaceId := us\<rparr>\<rparr>
               in if us = [] then map_option Inr (Rib_onFibUpdateSuccess second item rd1) else Some (Inr rd1)))
         else Some (Inl (FibUpdater_Error code)))"

section \<open>Requests\<close>

definition Rib_addUpdateToQueue :: "rib_update \<Rightarrow> bool \<Rightarrow> rib_daemon \<Rightarrow> rib_daemon" where
  "Rib_addUpdateToQueue u manager rd =
     rd\<lparr>rd_updateBatches := rd_updateBatches rd @ [\<lparr>qi_faceId = rt_faceId (ru_route u), qi_updates = [u], qi_manager = manager\<rparr>]\<rparr>"

definition Rib_beginApplyUpdate :: "(route list \<Rightarrow> route) \<Rightarrow> rib_update \<Rightarrow> bool \<Rightarrow> rib_daemon \<Rightarrow> rib_daemon option" where
  "Rib_beginApplyUpdate second u manager rd = Rib_sendBatchFromQueue second (Rib_addUpdateToQueue u manager rd)"

definition Rib_beginRemoveFace :: "(route list \<Rightarrow> route) \<Rightarrow> u64 \<Rightarrow> rib_daemon \<Rightarrow> rib_daemon option" where
  "Rib_beginRemoveFace second faceId rd =
     Rib_sendBatchFromQueue second
       (fold (\<lambda>(n, r). Rib_addUpdateToQueue \<lparr>ru_action = REMOVE_FACE, ru_name = n, ru_route = r\<rparr> False)
          (Rib_findRoutesWithFaceId faceId (rd_rib rd)) rd)"

definition Rib_onRouteExpiration :: "(route list \<Rightarrow> route) \<Rightarrow> name \<Rightarrow> route \<Rightarrow> rib_daemon \<Rightarrow> rib_daemon option" where
  "Rib_onRouteExpiration second n r rd =
     Rib_beginApplyUpdate second \<lparr>ru_action = UNREGISTER, ru_name = n, ru_route = r\<rparr> False rd"

text \<open>The parameters of a command, present or absent, with their defaults.\<close>

record control_parameters =
  cp_name :: name
  cp_faceId :: "u64 option"
  cp_origin :: "u64 option"
  cp_cost :: "u64 option"
  cp_flags :: "u64 option"
  cp_expirationPeriod :: "int option"

definition cp_default :: "'a \<Rightarrow> 'a option \<Rightarrow> 'a" where
  "cp_default d x = (case x of None \<Rightarrow> d | Some v \<Rightarrow> v)"

definition RibManager_faceId :: "control_parameters \<Rightarrow> u64 \<Rightarrow> u64" where
  "RibManager_faceId ps incomingFaceId =
     (let faceId = cp_default 0 (cp_faceId ps) in if faceId = 0 then incomingFaceId else faceId)"

definition steady_clock_max :: timepoint where "steady_clock_max = 9223372036854775807"

definition milliseconds_max :: int where "milliseconds_max = 9223372036854775807"

text \<open>The route of a command to register, with the event that will remove it.\<close>

definition RibManager_makeRoute ::
    "timepoint \<Rightarrow> control_parameters \<Rightarrow> u64 \<Rightarrow> rib_daemon \<Rightarrow> route \<times> rib_daemon" where
  "RibManager_makeRoute now ps incomingFaceId rd =
     (let r0 = Route_ctor\<lparr>rt_faceId := RibManager_faceId ps incomingFaceId, rt_origin := cp_default 0 (cp_origin ps),
                rt_cost := cp_default 0 (cp_cost ps), rt_flags := cp_default ROUTE_FLAG_CHILD_INHERIT (cp_flags ps)\<rparr>;
          period = cp_default milliseconds_max (cp_expirationPeriod ps)
      in if period \<noteq> milliseconds_max then
           (let r1 = r0\<lparr>rt_expires := now + milliseconds period\<rparr>;
                (i, rd1) = rd_schedule (RouteExpiration (cp_name ps) r1) rd
            in (r1\<lparr>rt_expirationEvent := Some i\<rparr>, rd1))
         else (r0\<lparr>rt_expires := steady_clock_max\<rparr>, rd))"

definition RibManager_registerEntry ::
    "(route list \<Rightarrow> route) \<Rightarrow> timepoint \<Rightarrow> control_parameters \<Rightarrow> u64 \<Rightarrow> rib_daemon \<Rightarrow> rib_daemon option" where
  "RibManager_registerEntry second now ps incomingFaceId rd =
     (let (r, rd1) = RibManager_makeRoute now ps incomingFaceId rd
      in do { rd2 \<leftarrow> Rib_beginApplyUpdate second \<lparr>ru_action = REGISTER, ru_name = cp_name ps, ru_route = r\<rparr> True rd1;
              Some (rd2\<lparr>rd_registeredFaces := insert (rt_faceId r) (rd_registeredFaces rd2)\<rparr>) })"

definition RibManager_unregisterEntry ::
    "(route list \<Rightarrow> route) \<Rightarrow> control_parameters \<Rightarrow> u64 \<Rightarrow> rib_daemon \<Rightarrow> rib_daemon option" where
  "RibManager_unregisterEntry second ps incomingFaceId rd =
     (let r = Route_ctor\<lparr>rt_faceId := RibManager_faceId ps incomingFaceId, rt_origin := cp_default 0 (cp_origin ps)\<rparr>
      in Rib_beginApplyUpdate second \<lparr>ru_action = UNREGISTER, ru_name = cp_name ps, ru_route = r\<rparr> True rd)"

datatype face_event_kind = FACE_EVENT_CREATED | FACE_EVENT_DESTROYED

definition RibManager_onNotification :: "face_event_kind \<Rightarrow> u64 \<Rightarrow> rib_daemon \<Rightarrow> rib_daemon" where
  "RibManager_onNotification kind faceId rd =
     (if kind = FACE_EVENT_DESTROYED then snd (rd_schedule (FaceDestroyedEvent faceId) rd) else rd)"

definition RibManager_onFaceDestroyedEvent :: "(route list \<Rightarrow> route) \<Rightarrow> u64 \<Rightarrow> rib_daemon \<Rightarrow> rib_daemon option" where
  "RibManager_onFaceDestroyedEvent second faceId rd =
     do { rd1 \<leftarrow> Rib_beginRemoveFace second faceId rd;
          Some (rd1\<lparr>rd_registeredFaces := rd_registeredFaces rd1 - {faceId}\<rparr>) }"

text \<open>The faces that are active are those decoded from the data set that the forwarder sends. The registered faces are visited in order.\<close>

definition RibManager_removeInvalidFaces :: "u64 set \<Rightarrow> rib_daemon \<Rightarrow> rib_daemon" where
  "RibManager_removeInvalidFaces activeFaces rd =
     RibManager_scheduleActiveFaceFetch
       (fold (\<lambda>faceId rd. snd (rd_schedule (FaceDestroyedEvent faceId) rd))
          (sorted_list_of_set (rd_registeredFaces rd - activeFaces)) rd)"

definition RibManager_commandPrefixRoute :: "u64 \<Rightarrow> route" where
  "RibManager_commandPrefixRoute faceId =
     Route_ctor\<lparr>rt_faceId := faceId, rt_origin := 0, rt_expires := steady_clock_max, rt_flags := ROUTE_FLAG_CHILD_INHERIT\<rparr>"

definition RibManager_onNrdCommandPrefixAddNextHopSuccess :: "name \<Rightarrow> u64 \<Rightarrow> rib_daemon \<Rightarrow> rib_daemon" where
  "RibManager_onNrdCommandPrefixAddNextHopSuccess n faceId rd =
     (let r = RibManager_commandPrefixRoute faceId
      in rd\<lparr>rd_rib := Rib_insert n r (rd_rib rd), rd_registeredFaces := insert faceId (rd_registeredFaces rd)\<rparr>)"

section \<open>The RIB that the queue leads to\<close>

definition abs_apply :: "rib_update \<Rightarrow> (name \<Rightarrow> route list) \<Rightarrow> name \<Rightarrow> route list" where
  "abs_apply u R = (case ru_action u of
       REGISTER \<Rightarrow> R(ru_name u := upsert (ru_route u) (R (ru_name u)))
     | _ \<Rightarrow> R(ru_name u := filter (\<lambda>x. \<not> compareFaceIdAndOrigin x (ru_route u)) (R (ru_name u))))"

definition update_ok :: "(bytes \<Rightarrow> u32) \<Rightarrow> rib_update \<Rightarrow> bool" where
  "update_ok \<tau> u \<longleftrightarrow> typed \<tau> (ru_name u) \<and> length (ru_name u) < npos"

definition item_ok :: "(bytes \<Rightarrow> u32) \<Rightarrow> queue_item \<Rightarrow> bool" where
  "item_ok \<tau> item \<longleftrightarrow> (\<forall>u \<in> set (qi_updates item). update_ok \<tau> u)"

lemma apply_rib_update_correct:
  assumes "rib_inv \<tau> rib" "update_ok \<tau> u"
  shows "rib_inv \<tau> (apply_rib_update u rib)" "rib_routes (apply_rib_update u rib) = abs_apply u (rib_routes rib)"
  using assms Rib_insert_inv [of \<tau> rib "ru_name u"] Rib_insert_routes [of \<tau> rib "ru_name u"] Rib_erase_inv [of \<tau> rib]
  by (auto simp: apply_rib_update_def abs_apply_def update_ok_def split: rib_action.split)

lemma fold_apply_correct:
  assumes "rib_inv \<tau> rib" "\<forall>u \<in> set us. update_ok \<tau> u"
  shows "rib_inv \<tau> (fold apply_rib_update us rib) \<and> rib_routes (fold apply_rib_update us rib) = fold abs_apply us (rib_routes rib)"
  using assms
proof (induction us arbitrary: rib)
  case (Cons u us)
  then show ?case using Cons.IH [of "apply_rib_update u rib"] apply_rib_update_correct [of \<tau> rib u] by simp
qed simp

lemma rib_inv_keep:
  assumes "rib_inv \<tau> rib" "map_of (rib_table rib) k = Some e" "re_name (f e) = re_name e" "re_parent (f e) = re_parent e"
    "re_children (f e) = re_children e" "re_routes (f e) = re_routes e"
  shows "rib_inv \<tau> (rib\<lparr>rib_table := rt_modify k f (rib_table rib)\<rparr>)" "rib_routes (rib\<lparr>rib_table := rt_modify k f (rib_table rib)\<rparr>) = rib_routes rib"
proof -
  have r: "routes_ok e" "\<And>g. k \<in> set (rib_faceMap rib g) \<longleftrightarrow> RibEntry_hasFaceId g e" using assms(1,2) by (auto simp: rib_inv_def)
  show "rib_inv \<tau> (rib\<lparr>rib_table := rt_modify k f (rib_table rib)\<rparr>)"
    by (rule rib_inv_modify [OF assms(1,2), of f]) (use assms(3-6) r in \<open>auto simp: routes_ok_def hasFaceId_iff\<close>)
  show "rib_routes (rib\<lparr>rib_table := rt_modify k f (rib_table rib)\<rparr>) = rib_routes rib"
    using assms(2,6) by (auto simp: rib_routes_def)
qed

lemma table_self: "rib_table rib = t \<Longrightarrow> rib\<lparr>rib_table := t\<rparr> = rib"
  by (cases rib) simp

lemma modifyInheritedRoute_keep:
  assumes "rib_inv \<tau> rib" "Rib_modifyInheritedRoute u (rib_table rib) = Some t"
  shows "rib_inv \<tau> (rib\<lparr>rib_table := t\<rparr>)" "rib_routes (rib\<lparr>rib_table := t\<rparr>) = rib_routes rib"
proof -
  obtain e where e: "map_of (rib_table rib) (ru_name u) = Some e"
    using assms(2) by (auto simp: Rib_modifyInheritedRoute_def bind_eq_Some_conv)
  have "rib_inv \<tau> (rib\<lparr>rib_table := t\<rparr>) \<and> rib_routes (rib\<lparr>rib_table := t\<rparr>) = rib_routes rib"
  proof (cases "ru_action u")
    case REGISTER
    then have "t = rt_modify (ru_name u) (RibEntry_addInheritedRoute (ru_route u)) (rib_table rib)"
      using assms(2) e by (simp add: Rib_modifyInheritedRoute_def)
    then show ?thesis using rib_inv_keep [OF assms(1) e] by (simp add: RibEntry_addInheritedRoute_def)
  next
    case UNREGISTER
    then obtain e' where "RibEntry_removeInheritedRoute (ru_route u) e = Some e'" "t = rt_modify (ru_name u) (\<lambda>_. e') (rib_table rib)"
      using assms(2) e by (auto simp: Rib_modifyInheritedRoute_def bind_eq_Some_conv)
    then show ?thesis
      using rib_inv_keep [OF assms(1) e, of "\<lambda>_. e'"] by (auto simp: RibEntry_removeInheritedRoute_def split: option.splits)
  next
    case REMOVE_FACE
    then show ?thesis using assms e by (simp add: Rib_modifyInheritedRoute_def table_self)
  qed
  then show "rib_inv \<tau> (rib\<lparr>rib_table := t\<rparr>)" "rib_routes (rib\<lparr>rib_table := t\<rparr>) = rib_routes rib" by simp_all
qed

lemma modifyInheritedRoutes_keep:
  assumes "rib_inv \<tau> rib" "Rib_modifyInheritedRoutes us (rib_table rib) = Some t"
  shows "rib_inv \<tau> (rib\<lparr>rib_table := t\<rparr>) \<and> rib_routes (rib\<lparr>rib_table := t\<rparr>) = rib_routes rib"
  using assms
proof (induction us arbitrary: rib)
  case (Cons u us)
  then obtain t1 where t1: "Rib_modifyInheritedRoute u (rib_table rib) = Some t1" "Rib_modifyInheritedRoutes us t1 = Some t"
    by (auto simp: bind_eq_Some_conv)
  show ?case
    using Cons.IH [of "rib\<lparr>rib_table := t1\<rparr>"] modifyInheritedRoute_keep [OF Cons.prems(1) t1(1)] t1(2) by simp
qed (simp add: table_self)

lemma applyBatch_correct:
  assumes "rib_inv \<tau> (rd_rib rd)" "item_ok \<tau> item" "Rib_applyBatch item rd = Some rd'"
  shows "rib_inv \<tau> (rd_rib rd')" "rib_routes (rd_rib rd') = fold abs_apply (qi_updates item) (rib_routes (rd_rib rd))"
    "\<not> rd_isUpdateInProgress rd'" "rd_updateBatches rd' = rd_updateBatches rd" "rd_commands rd' = rd_commands rd"
proof -
  let ?rib1 = "fold apply_rib_update (qi_updates item) (rd_rib rd)"
  obtain t where t: "Rib_modifyInheritedRoutes (fup_inheritedRoutes (rd_fup rd)) (rib_table ?rib1) = Some t"
    "rd' = rd\<lparr>rd_rib := ?rib1\<lparr>rib_table := t\<rparr>, rd_isUpdateInProgress := False\<rparr>"
    using assms(3) by (auto simp: Rib_applyBatch_def Let_def bind_eq_Some_conv)
  have f: "rib_inv \<tau> ?rib1" "rib_routes ?rib1 = fold abs_apply (qi_updates item) (rib_routes (rd_rib rd))"
    using fold_apply_correct [OF assms(1)] assms(2) by (auto simp: item_ok_def)
  show "rib_inv \<tau> (rd_rib rd')" "rib_routes (rd_rib rd') = fold abs_apply (qi_updates item) (rib_routes (rd_rib rd))"
    "\<not> rd_isUpdateInProgress rd'" "rd_updateBatches rd' = rd_updateBatches rd" "rd_commands rd' = rd_commands rd"
    using modifyInheritedRoutes_keep [OF f(1) t(1)] f(2) by (simp_all add: t(2))
qed

section \<open>Batches and commands\<close>

text \<open>The commands that are not answered are those of one batch, one for each update that is left of the present phase.\<close>

definition phase_updates :: "fib_updater \<Rightarrow> fib_update list" where
  "phase_updates fup = (if fup_updatesForBatchFaceId fup \<noteq> [] then fup_updatesForBatchFaceId fup else fup_updatesForNonBatchFaceId fup)"

definition batch_ok :: "(bytes \<Rightarrow> u32) \<Rightarrow> rib_daemon \<Rightarrow> queue_item \<Rightarrow> bool" where
  "batch_ok \<tau> rd item \<longleftrightarrow> item_ok \<tau> item \<and> fup_inv (rd_fup rd) \<and> rd_commands rd \<noteq> [] \<and> (\<forall>c \<in> set (rd_commands rd). cmd_item c = item) \<and>
     mset (map cmd_update (rd_commands rd)) = mset (phase_updates (rd_fup rd))"

definition rd_inv :: "(bytes \<Rightarrow> u32) \<Rightarrow> rib_daemon \<Rightarrow> bool" where
  "rd_inv \<tau> rd \<longleftrightarrow> rib_inv \<tau> (rd_rib rd) \<and> (\<forall>item \<in> set (rd_updateBatches rd). item_ok \<tau> item) \<and>
     (if rd_isUpdateInProgress rd then \<exists>item. batch_ok \<tau> rd item else rd_updateBatches rd = [] \<and> rd_commands rd = [])"

definition outstanding :: "rib_daemon \<Rightarrow> rib_update list" where
  "outstanding rd = (if rd_isUpdateInProgress rd then qi_updates (cmd_item (hd (rd_commands rd))) else []) @
     concat (map qi_updates (rd_updateBatches rd))"

text \<open>From a state with the routes \<open>R\<close> and the updates \<open>us\<close> to do: the first of them are done, the others are still to do.\<close>

definition advances :: "rib_update list \<Rightarrow> (name \<Rightarrow> route list) \<Rightarrow> rib_daemon \<Rightarrow> bool" where
  "advances us R rd \<longleftrightarrow> (\<exists>done. us = done @ outstanding rd \<and> rib_routes (rd_rib rd) = fold abs_apply done R)"

lemma advances_append: "advances us (fold abs_apply ds R) rd \<Longrightarrow> advances (ds @ us) R rd"
  unfolding advances_def by (metis append_assoc fold_append comp_apply)

lemma advances_refl: "outstanding rd = us \<Longrightarrow> rib_routes (rd_rib rd) = R \<Longrightarrow> advances us R rd"
  by (simp add: advances_def)

lemma sendUpdates_commands:
  "\<exists>cs. FibUpdater_sendUpdates us item rd = rd\<lparr>rd_commands := rd_commands rd @ cs\<rparr> \<and> map cmd_update cs = us \<and> (\<forall>c \<in> set cs. cmd_item c = item)"
proof (induction us arbitrary: rd)
  case Nil
  then show ?case by (auto simp: FibUpdater_sendUpdates_def intro!: exI [of _ "[]"])
next
  case (Cons u us)
  let ?c = "\<lparr>cmd_action = fu_action u, cmd_update = u, cmd_item = item, cmd_nTimeouts = 0\<rparr>"
  let ?rd = "rd\<lparr>rd_commands := rd_commands rd @ [?c]\<rparr>"
  have "FibUpdater_sendUpdates (u # us) item rd = FibUpdater_sendUpdates us item ?rd"
    by (simp add: FibUpdater_sendUpdates_def FibUpdater_sendAddNextHopUpdate_def FibUpdater_sendRemoveNextHopUpdate_def split: fib_action.split)
  moreover obtain cs where "FibUpdater_sendUpdates us item ?rd = ?rd\<lparr>rd_commands := rd_commands ?rd @ cs\<rparr>" "map cmd_update cs = us"
    "\<forall>c \<in> set cs. cmd_item c = item" using Cons.IH [of ?rd] by blast
  ultimately show ?case by (intro exI [of _ "?c # cs"]) simp
qed

lemma sendUpdates_batch:
  assumes "item_ok \<tau> item" "fup_inv (rd_fup rd)" "phase_updates (rd_fup rd) = us" "us \<noteq> []" "rd_commands rd = []"
  shows "\<exists>cs. FibUpdater_sendUpdates us item rd = rd\<lparr>rd_commands := cs\<rparr> \<and> batch_ok \<tau> (rd\<lparr>rd_commands := cs\<rparr>) item"
proof -
  obtain cs where cs: "FibUpdater_sendUpdates us item rd = rd\<lparr>rd_commands := rd_commands rd @ cs\<rparr>" "map cmd_update cs = us"
    "\<forall>c \<in> set cs. cmd_item c = item"
    using sendUpdates_commands [of us item rd] by blast
  have "batch_ok \<tau> (rd\<lparr>rd_commands := cs\<rparr>) item"
    using assms cs(2,3) unfolding batch_ok_def by auto
  then show ?thesis using cs(1) assms(5) by auto
qed

lemma sendNonBatch_correct:
  assumes "item_ok \<tau> item" "fup_inv (rd_fup rd)" "fup_updatesForBatchFaceId (rd_fup rd) = []" "rd_commands rd = []"
    and "FibUpdater_sendUpdatesForNonBatchFaceId item rd = (finished, rd')"
  shows "if finished then rd' = rd
    else \<exists>cs. rd' = rd\<lparr>rd_commands := cs\<rparr> \<and> batch_ok \<tau> rd' item"
proof (cases "fup_updatesForNonBatchFaceId (rd_fup rd) = []")
  case True
  then show ?thesis using assms(5) by (simp add: FibUpdater_sendUpdatesForNonBatchFaceId_def)
next
  case False
  have "phase_updates (rd_fup rd) = fup_updatesForNonBatchFaceId (rd_fup rd)" using assms(3) by (simp add: phase_updates_def)
  from sendUpdates_batch [OF assms(1,2) this False assms(4)] show ?thesis
    using assms(5) False unfolding FibUpdater_sendUpdatesForNonBatchFaceId_def by auto
qed

lemma sendBatch_correct:
  assumes "item_ok \<tau> item" "fup_inv (rd_fup rd)" "rd_commands rd = []"
    and "FibUpdater_sendUpdatesForBatchFaceId item rd = (finished, rd')"
  shows "if finished then rd' = rd
    else \<exists>cs. rd' = rd\<lparr>rd_commands := cs\<rparr> \<and> batch_ok \<tau> rd' item"
proof (cases "fup_updatesForBatchFaceId (rd_fup rd) = []")
  case True
  then show ?thesis using sendNonBatch_correct [OF assms(1,2) True assms(3)] assms(4) by (simp add: FibUpdater_sendUpdatesForBatchFaceId_def)
next
  case False
  then have "phase_updates (rd_fup rd) = fup_updatesForBatchFaceId (rd_fup rd)" by (simp add: phase_updates_def)
  from sendUpdates_batch [OF assms(1,2) this False assms(3)] show ?thesis
    using assms(4) False unfolding FibUpdater_sendUpdatesForBatchFaceId_def by auto
qed

lemma rib_inv_cancelled: "rib_inv \<tau> (rib\<lparr>rib_cancelled := x\<rparr>) \<longleftrightarrow> rib_inv \<tau> rib" "rib_routes (rib\<lparr>rib_cancelled := x\<rparr>) = rib_routes rib"
  by (simp_all add: rib_inv_def rib_routes_def fun_eq_iff)

lemma computeAndSend_correct:
  assumes "rib_inv \<tau> (rd_rib rd)" "item_ok \<tau> item" "rd_commands rd = []"
    and "FibUpdater_computeAndSendFibUpdates second item rd = Some (finished, rd')"
  shows "rib_inv \<tau> (rd_rib rd')" "rib_routes (rd_rib rd') = rib_routes (rd_rib rd)" "rd_updateBatches rd' = rd_updateBatches rd"
    "rd_isUpdateInProgress rd' = rd_isUpdateInProgress rd" "if finished then rd_commands rd' = [] else batch_ok \<tau> rd' item"
proof -
  let ?fup = "\<lparr>fup_batchFaceId = qi_faceId item, fup_updatesForBatchFaceId = [], fup_updatesForNonBatchFaceId = [], fup_inheritedRoutes = []\<rparr>"
  obtain cancelled fup1 where c: "FibUpdater_computeUpdates second (rib_table (rd_rib rd)) (qi_updates item) ([], ?fup) = Some (cancelled, fup1)"
    and s: "FibUpdater_sendUpdatesForBatchFaceId item
      (rd\<lparr>rd_fup := fup1, rd_rib := (rd_rib rd)\<lparr>rib_cancelled := rib_cancelled (rd_rib rd) @ cancelled\<rparr>\<rparr>) = (finished, rd')"
    using assms(4) by (auto simp: FibUpdater_computeAndSendFibUpdates_def Let_def bind_eq_Some_conv)
  have "fup_inv fup1"
    using keyed.computeUpdates_law [OF c, of "qi_faceId item"] by (auto simp: fup_inv_def)
  then have "if finished then rd' = rd\<lparr>rd_fup := fup1, rd_rib := (rd_rib rd)\<lparr>rib_cancelled := rib_cancelled (rd_rib rd) @ cancelled\<rparr>\<rparr>
    else \<exists>cs. rd' = rd\<lparr>rd_fup := fup1, rd_rib := (rd_rib rd)\<lparr>rib_cancelled := rib_cancelled (rd_rib rd) @ cancelled\<rparr>, rd_commands := cs\<rparr> \<and> batch_ok \<tau> rd' item"
    using sendBatch_correct [OF assms(2) _ _ s] assms(3) by simp
  then show "rib_inv \<tau> (rd_rib rd')" "rib_routes (rd_rib rd') = rib_routes (rd_rib rd)" "rd_updateBatches rd' = rd_updateBatches rd"
    "rd_isUpdateInProgress rd' = rd_isUpdateInProgress rd" "if finished then rd_commands rd' = [] else batch_ok \<tau> rd' item"
    using assms(1,3) by (auto simp: rib_inv_cancelled split: if_splits)
qed

lemma send_batches_correct:
  assumes "rib_inv \<tau> (rd_rib rd)" "\<forall>item \<in> set items. item_ok \<tau> item" "rd_commands rd = []" "\<not> rd_isUpdateInProgress rd"
    and "send_batches second items rd = Some rd'"
  shows "rd_inv \<tau> rd' \<and> advances (concat (map qi_updates items)) (rib_routes (rd_rib rd)) rd'"
  using assms
proof (induction items arbitrary: rd)
  case Nil
  then show ?case by (auto simp: rd_inv_def outstanding_def intro!: advances_refl)
next
  case (Cons item rest)
  let ?rd0 = "rd\<lparr>rd_isUpdateInProgress := True, rd_updateBatches := rest\<rparr>"
  obtain finished rd1 where c: "FibUpdater_computeAndSendFibUpdates second item ?rd0 = Some (finished, rd1)"
    and s: "(if finished then do { rd2 \<leftarrow> Rib_applyBatch item rd1; send_batches second rest rd2 } else Some rd1) = Some rd'"
    using Cons.prems(5) by (auto simp: bind_eq_Some_conv)
  have i: "item_ok \<tau> item" "\<forall>item \<in> set rest. item_ok \<tau> item" using Cons.prems(2) by auto
  note k = computeAndSend_correct [OF _ i(1) _ c, simplified, OF Cons.prems(1,3)]
  show ?case
  proof (cases finished)
    case True
    then obtain rd2 where rd2: "Rib_applyBatch item rd1 = Some rd2" "send_batches second rest rd2 = Some rd'"
      using s by (auto simp: bind_eq_Some_conv)
    note a = applyBatch_correct [OF k(1) i(1) rd2(1)]
    have "rd_commands rd2 = []" using a(5) k(5) True by simp
    from Cons.IH [OF a(1) i(2) this a(3) rd2(2)] show ?thesis using a(2) k(2) by (simp add: advances_append)
  next
    case False
    then have b: "rd' = rd1" "batch_ok \<tau> rd1 item" using s k(5) by simp_all
    then have "cmd_item (hd (rd_commands rd1)) = item" by (simp add: batch_ok_def)
    then have "advances (concat (map qi_updates (item # rest))) (rib_routes (rd_rib rd)) rd1"
      using k by (intro advances_refl) (simp_all add: outstanding_def)
    moreover have "rd_inv \<tau> rd1" using b(2) k i(2) by (auto simp: rd_inv_def)
    ultimately show ?thesis by (simp add: b(1))
  qed
qed

lemma onSuccess_correct:
  assumes "rib_inv \<tau> (rd_rib rd)" "item_ok \<tau> item" "\<forall>item \<in> set (rd_updateBatches rd). item_ok \<tau> item" "rd_commands rd = []"
    and "Rib_onFibUpdateSuccess second item rd = Some rd'"
  shows "rd_inv \<tau> rd' \<and> advances (qi_updates item @ concat (map qi_updates (rd_updateBatches rd))) (rib_routes (rd_rib rd)) rd'"
proof -
  obtain rd1 where rd1: "Rib_applyBatch item rd = Some rd1" "Rib_sendBatchFromQueue second rd1 = Some rd'"
    using assms(5) by (auto simp: Rib_onFibUpdateSuccess_def bind_eq_Some_conv)
  note a = applyBatch_correct [OF assms(1,2) rd1(1)]
  show ?thesis
  proof (cases "rd_updateBatches rd = []")
    case True
    then have "rd' = rd1" using rd1(2) a by (simp add: Rib_sendBatchFromQueue_def)
    then show ?thesis using a True assms(4) by (auto simp: rd_inv_def outstanding_def advances_def)
  next
    case False
    then have "send_batches second (rd_updateBatches rd) rd1 = Some rd'" using rd1(2) a by (simp add: Rib_sendBatchFromQueue_def)
    from send_batches_correct [OF a(1) assms(3) _ a(3) this] show ?thesis using a(2,5) assms(4) by (simp add: advances_append)
  qed
qed

lemma remove_updates_keyed:
  assumes "distinct (map update_key us)" "u \<in> set us"
  shows "remove_updates u us = remove1 u us"
proof -
  have "FibUpdate_equals x u \<longleftrightarrow> x = u" if "x \<in> set us" for x
  proof
    assume "FibUpdate_equals x u"
    then have "update_key x = update_key u" by (simp add: FibUpdate_equals_def update_key_def Name_equals_iff)
    then show "x = u" using assms that by (auto simp: distinct_map inj_on_def)
  qed (simp add: FibUpdate_equals_def Name_equals_iff)
  then have "remove_updates u us = filter (\<lambda>x. x \<noteq> u) us" unfolding remove_updates_def by (intro filter_cong) auto
  also have "\<dots> = remove1 u us" using assms(1) by (simp add: distinct_remove1_removeAll distinct_map removeAll_filter_not_eq neq_commute)
  finally show ?thesis .
qed

text \<open>An answer that counts as success takes the command and its update away.\<close>

lemma answer_facts:
  assumes "rd_inv \<tau> rd" "c \<in> set (rd_commands rd)" "us = remove_updates (cmd_update c) (phase_updates (rd_fup rd))"
  obtains item where "batch_ok \<tau> rd item" "cmd_item c = item" "rd_isUpdateInProgress rd" "cmd_update c \<in> set (phase_updates (rd_fup rd))"
    "us = remove1 (cmd_update c) (phase_updates (rd_fup rd))" "mset (map cmd_update (remove1 c (rd_commands rd))) = mset us"
    "outstanding rd = qi_updates item @ concat (map qi_updates (rd_updateBatches rd))"
proof -
  have p: "rd_isUpdateInProgress rd" using assms(1,2) by (auto simp: rd_inv_def split: if_splits)
  then obtain item where b: "batch_ok \<tau> rd item" using assms(1) by (auto simp: rd_inv_def)
  then have b': "fup_inv (rd_fup rd)" "cmd_item c = item" "cmd_item (hd (rd_commands rd)) = item"
    "mset (map cmd_update (rd_commands rd)) = mset (phase_updates (rd_fup rd))"
    using assms(2) by (auto simp: batch_ok_def)
  have u: "cmd_update c \<in> set (phase_updates (rd_fup rd))" using b'(4) assms(2) by (metis imageI image_set set_mset_mset)
  have us: "us = remove1 (cmd_update c) (phase_updates (rd_fup rd))"
    unfolding assms(3) using b'(1) u by (intro remove_updates_keyed) (simp_all add: fup_inv_def phase_updates_def)
  have "mset (map cmd_update (remove1 c (rd_commands rd))) = mset us"
    unfolding us using b'(4) assms(2) by (simp add: image_mset_Diff)
  moreover have "outstanding rd = qi_updates item @ concat (map qi_updates (rd_updateBatches rd))"
    using p b'(3) by (simp add: outstanding_def)
  ultimately show thesis using that b b'(2) p u us by blast
qed

lemma commands_left: "mset (map f xs) = mset us \<Longrightarrow> xs = [] \<longleftrightarrow> us = []"
  by (metis length_0_conv length_map size_mset)

lemma answer_continues:
  assumes "rd_inv \<tau> rd" "batch_ok \<tau> rd item" "rd_isUpdateInProgress rd" "us \<noteq> []" "mset (map cmd_update (remove1 c (rd_commands rd))) = mset us"
    and "fup_inv fup1" "phase_updates fup1 = us" "rd' = rd\<lparr>rd_commands := remove1 c (rd_commands rd), rd_fup := fup1\<rparr>"
  shows "rd_inv \<tau> rd' \<and> advances (outstanding rd) (rib_routes (rd_rib rd)) rd'"
proof -
  have ne: "remove1 c (rd_commands rd) \<noteq> []" using assms(4) commands_left [OF assms(5)] by simp
  have item: "cmd_item (hd (remove1 c (rd_commands rd))) = item" "cmd_item (hd (rd_commands rd)) = item"
    using ne assms(2) notin_set_remove1 hd_in_set unfolding batch_ok_def by metis+
  have "batch_ok \<tau> rd' item" using assms ne by (auto simp: batch_ok_def dest: notin_set_remove1)
  moreover have "advances (outstanding rd) (rib_routes (rd_rib rd)) rd'"
    using assms(3,8) item by (intro advances_refl) (simp_all add: outstanding_def)
  ultimately show ?thesis using assms(1,3,8) by (auto simp: rd_inv_def)
qed

lemma fup_inv_remove:
  assumes "fup_inv fup"
  shows "fup_inv (fup\<lparr>fup_updatesForBatchFaceId := remove1 u (fup_updatesForBatchFaceId fup)\<rparr>)"
    "fup_inv (fup\<lparr>fup_updatesForNonBatchFaceId := remove1 u (fup_updatesForNonBatchFaceId fup)\<rparr>)"
  using assms by (auto simp: fup_inv_def distinct_map set_remove1_eq dest: inj_on_subset notin_set_remove1)

lemma answer_other:
  assumes "rd_inv \<tau> rd" "c \<in> set (rd_commands rd)" "fu_faceId (cmd_update c) \<noteq> fup_batchFaceId (rd_fup rd)"
    and "us = remove_updates (cmd_update c) (fup_updatesForNonBatchFaceId (rd_fup rd))"
    and "rd1 = rd\<lparr>rd_commands := remove1 c (rd_commands rd), rd_fup := (rd_fup rd)\<lparr>fup_updatesForNonBatchFaceId := us\<rparr>\<rparr>"
    and "(if us = [] then Rib_onFibUpdateSuccess second (cmd_item c) rd1 else Some rd1) = Some rd'"
  shows "rd_inv \<tau> rd' \<and> advances (outstanding rd) (rib_routes (rd_rib rd)) rd'"
proof -
  let ?us = "remove_updates (cmd_update c) (phase_updates (rd_fup rd))"
  obtain item where f: "batch_ok \<tau> rd item" "cmd_item c = item" "rd_isUpdateInProgress rd" "cmd_update c \<in> set (phase_updates (rd_fup rd))"
    "?us = remove1 (cmd_update c) (phase_updates (rd_fup rd))" "mset (map cmd_update (remove1 c (rd_commands rd))) = mset ?us"
    "outstanding rd = qi_updates item @ concat (map qi_updates (rd_updateBatches rd))"
    by (rule answer_facts [OF assms(1,2) refl])
  then have fup: "fup_inv (rd_fup rd)" "item_ok \<tau> item" by (simp_all add: batch_ok_def)
  have ph: "phase_updates (rd_fup rd) = fup_updatesForNonBatchFaceId (rd_fup rd)" "fup_updatesForBatchFaceId (rd_fup rd) = []"
    using assms(3) f(4) fup(1) by (auto simp: phase_updates_def fup_inv_def split: if_splits)
  have us: "us = ?us" by (simp add: assms(4) ph)
  show ?thesis
  proof (cases "us = []")
    case True
    then have "rd_commands rd1 = []" using commands_left [OF f(6)] us by (simp add: assms(5))
    moreover have "Rib_onFibUpdateSuccess second item rd1 = Some rd'" using assms(6) True f(2) by simp
    ultimately show ?thesis using onSuccess_correct [of \<tau> rd1 item second rd'] assms(1) fup(2) f(7) by (simp add: assms(5) rd_inv_def)
  next
    case False
    have "rd' = rd1" using assms(6) False by simp
    then show ?thesis
      by (intro answer_continues [OF assms(1) f(1,3) False, of c "(rd_fup rd)\<lparr>fup_updatesForNonBatchFaceId := us\<rparr>"])
        (use f(6) us ph fup_inv_remove(2) [OF fup(1)] f(5) in \<open>simp_all add: phase_updates_def assms(5)\<close>)
  qed
qed

lemma answer_success:
  assumes "rd_inv \<tau> rd" "c \<in> set (rd_commands rd)"
    and "FibUpdater_onUpdateSuccess second c (rd\<lparr>rd_commands := remove1 c (rd_commands rd)\<rparr>) = Some rd'"
  shows "rd_inv \<tau> rd' \<and> advances (outstanding rd) (rib_routes (rd_rib rd)) rd'"
proof (cases "fu_faceId (cmd_update c) = fup_batchFaceId (rd_fup rd)")
  case False
  then show ?thesis
    using assms(3) by (intro answer_other [OF assms(1,2) False refl refl]) (auto simp: FibUpdater_onUpdateSuccess_def Let_def)
next
  case True
  define us where "us = remove_updates (cmd_update c) (fup_updatesForBatchFaceId (rd_fup rd))"
  define rd1 where "rd1 = rd\<lparr>rd_commands := remove1 c (rd_commands rd), rd_fup := (rd_fup rd)\<lparr>fup_updatesForBatchFaceId := us\<rparr>\<rparr>"
  let ?us = "remove_updates (cmd_update c) (phase_updates (rd_fup rd))"
  obtain item where f: "batch_ok \<tau> rd item" "cmd_item c = item" "rd_isUpdateInProgress rd" "cmd_update c \<in> set (phase_updates (rd_fup rd))"
    "?us = remove1 (cmd_update c) (phase_updates (rd_fup rd))" "mset (map cmd_update (remove1 c (rd_commands rd))) = mset ?us"
    "outstanding rd = qi_updates item @ concat (map qi_updates (rd_updateBatches rd))"
    by (rule answer_facts [OF assms(1,2) refl])
  then have fup: "fup_inv (rd_fup rd)" "item_ok \<tau> item" by (simp_all add: batch_ok_def)
  have ph: "phase_updates (rd_fup rd) = fup_updatesForBatchFaceId (rd_fup rd)"
    using True f(4) fup(1) by (auto simp: phase_updates_def fup_inv_def split: if_splits)
  have us: "us = ?us" by (simp add: us_def ph)
  have inv1: "fup_inv (rd_fup rd1)" using fup_inv_remove(1) [OF fup(1)] f(5) us ph by (simp add: rd1_def)
  show ?thesis
  proof (cases "us = []")
    case Nil: True
    then have cs: "rd_commands rd1 = []" using commands_left [OF f(6)] us by (simp add: rd1_def)
    obtain finished rd2 where s: "FibUpdater_sendUpdatesForNonBatchFaceId item rd1 = (finished, rd2)" by fastforce
    then have r: "(if finished then Rib_onFibUpdateSuccess second item rd2 else Some rd2) = Some rd'"
      using assms(3) True Nil f(2) by (simp add: FibUpdater_onUpdateSuccess_def Let_def us_def rd1_def)
    have n: "if finished then rd2 = rd1 else \<exists>cs. rd2 = rd1\<lparr>rd_commands := cs\<rparr> \<and> batch_ok \<tau> rd2 item"
      using Nil by (intro sendNonBatch_correct [OF fup(2) inv1 _ cs s]) (simp add: rd1_def)
    show ?thesis
    proof (cases finished)
      case True
      then show ?thesis using onSuccess_correct [of \<tau> rd1 item second rd'] r n cs assms(1) fup(2) f(7) by (simp add: rd1_def rd_inv_def)
    next
      case False
      then obtain cs where rd': "rd' = rd1\<lparr>rd_commands := cs\<rparr>" "batch_ok \<tau> rd' item" using r n by auto
      then have "cmd_item (hd cs) = item" by (simp add: batch_ok_def)
      then have "advances (outstanding rd) (rib_routes (rd_rib rd)) rd'"
        using f(3,7) by (intro advances_refl) (simp_all add: outstanding_def rd'(1) rd1_def)
      moreover have "rd_inv \<tau> rd'" using assms(1) f(3) rd' by (auto simp: rd_inv_def rd1_def)
      ultimately show ?thesis by simp
    qed
  next
    case False
    have "rd' = rd1" using assms(3) True False by (simp add: FibUpdater_onUpdateSuccess_def Let_def us_def rd1_def)
    then show ?thesis
      by (intro answer_continues [OF assms(1) f(1,3) False, of c "(rd_fup rd)\<lparr>fup_updatesForBatchFaceId := us\<rparr>"])
        (use f(6) us inv1 False in \<open>simp_all add: phase_updates_def rd1_def\<close>)
  qed
qed

lemma answer_gone:
  assumes "rd_inv \<tau> rd" "c \<in> set (rd_commands rd)" "fu_faceId (cmd_update c) \<noteq> fup_batchFaceId (rd_fup rd)"
    and "FibUpdater_onUpdateError second c ERROR_FACE_NOT_FOUND (rd\<lparr>rd_commands := remove1 c (rd_commands rd)\<rparr>) = Some (Inr rd')"
  shows "rd_inv \<tau> rd' \<and> advances (outstanding rd) (rib_routes (rd_rib rd)) rd'"
  using assms(3,4) by (intro answer_other [OF assms(1-3) refl refl])
    (auto simp: FibUpdater_onUpdateError_def Let_def ERROR_TIMEOUT_def ERROR_FACE_NOT_FOUND_def split: if_splits)

lemma answer_timeout:
  assumes "rd_inv \<tau> rd" "c \<in> set (rd_commands rd)"
    and "FibUpdater_onUpdateError second c ERROR_TIMEOUT (rd\<lparr>rd_commands := remove1 c (rd_commands rd)\<rparr>) = Some (Inr rd')"
  shows "rd_inv \<tau> rd' \<and> advances (outstanding rd) (rib_routes (rd_rib rd)) rd'"
proof -
  have rd': "rd' = rd\<lparr>rd_commands := remove1 c (rd_commands rd) @
      [\<lparr>cmd_action = ADD_NEXTHOP, cmd_update = cmd_update c, cmd_item = cmd_item c, cmd_nTimeouts = cmd_nTimeouts c + 1\<rparr>]\<rparr>"
    using assms(3) by (auto simp: FibUpdater_onUpdateError_def Let_def ERROR_TIMEOUT_def ERROR_FACE_NOT_FOUND_def
        FibUpdater_sendAddNextHopUpdate_def split: if_splits)
  obtain item where f: "batch_ok \<tau> rd item" "cmd_item c = item" "rd_isUpdateInProgress rd"
    by (rule answer_facts [OF assms(1,2) refl])
  have "mset (map cmd_update (rd_commands rd')) = mset (map cmd_update (rd_commands rd))"
  proof -
    have "mset (rd_commands rd) = add_mset c (mset (remove1 c (rd_commands rd)))" using assms(2) by simp
    then show ?thesis unfolding rd' by (simp del: mset_remove1)
  qed
  moreover have "\<forall>d \<in> set (rd_commands rd'). cmd_item d = item" using f by (auto simp: rd' batch_ok_def dest: notin_set_remove1)
  ultimately have "batch_ok \<tau> rd' item" using f by (simp add: batch_ok_def rd')
  moreover from this have "cmd_item (hd (rd_commands rd')) = item" "cmd_item (hd (rd_commands rd)) = item"
    using f by (simp_all add: batch_ok_def)
  ultimately show ?thesis using assms(1) f(3) by (auto simp: rd_inv_def outstanding_def rd' intro!: advances_refl)
qed

lemma answer_failure:
  assumes "rd_inv \<tau> rd" "rd_commands rd = [c]" "fu_faceId (cmd_update c) = fup_batchFaceId (rd_fup rd)"
    and "FibUpdater_onUpdateError second c ERROR_FACE_NOT_FOUND (rd\<lparr>rd_commands := []\<rparr>) = Some (Inr rd')"
  shows "rd_inv \<tau> rd' \<and> advances (concat (map qi_updates (rd_updateBatches rd))) (rib_routes (rd_rib rd)) rd'"
proof -
  define rd1 where "rd1 = (if qi_manager (cmd_item c) then RibManager_scheduleActiveFaceFetch (rd\<lparr>rd_commands := [], rd_isUpdateInProgress := False\<rparr>)
    else rd\<lparr>rd_commands := [], rd_isUpdateInProgress := False\<rparr>)"
  have rd1: "rd_rib rd1 = rd_rib rd" "rd_updateBatches rd1 = rd_updateBatches rd" "rd_commands rd1 = []" "\<not> rd_isUpdateInProgress rd1"
    by (simp_all add: rd1_def RibManager_scheduleActiveFaceFetch_def rd_schedule_def Let_def split: option.split)
  have s: "Rib_sendBatchFromQueue second rd1 = Some rd'"
    using assms(3,4) by (auto simp: FibUpdater_onUpdateError_def Let_def ERROR_TIMEOUT_def ERROR_FACE_NOT_FOUND_def
        Rib_onFibUpdateFailure_def rd1_def split: if_splits)
  show ?thesis
  proof (cases "rd_updateBatches rd = []")
    case True
    then show ?thesis using s rd1 assms(1) by (auto simp: Rib_sendBatchFromQueue_def rd_inv_def outstanding_def intro!: advances_refl)
  next
    case False
    then have "send_batches second (rd_updateBatches rd) rd1 = Some rd'" using s rd1 by (simp add: Rib_sendBatchFromQueue_def)
    then show ?thesis using send_batches_correct [of \<tau> rd1 "rd_updateBatches rd" second rd'] rd1 assms(1) by (simp add: rd_inv_def)
  qed
qed

section \<open>Requests\<close>

lemma addUpdates_fields:
  "rd_rib (fold (\<lambda>(u, m). Rib_addUpdateToQueue u m) ums rd) = rd_rib rd"
  "rd_commands (fold (\<lambda>(u, m). Rib_addUpdateToQueue u m) ums rd) = rd_commands rd"
  "rd_fup (fold (\<lambda>(u, m). Rib_addUpdateToQueue u m) ums rd) = rd_fup rd"
  "rd_events (fold (\<lambda>(u, m). Rib_addUpdateToQueue u m) ums rd) = rd_events rd"
  "rd_isUpdateInProgress (fold (\<lambda>(u, m). Rib_addUpdateToQueue u m) ums rd) = rd_isUpdateInProgress rd"
  "concat (map qi_updates (rd_updateBatches (fold (\<lambda>(u, m). Rib_addUpdateToQueue u m) ums rd))) =
    concat (map qi_updates (rd_updateBatches rd)) @ map fst ums"
  "(\<forall>item \<in> set (rd_updateBatches (fold (\<lambda>(u, m). Rib_addUpdateToQueue u m) ums rd)). item_ok \<tau> item) \<longleftrightarrow>
    (\<forall>item \<in> set (rd_updateBatches rd). item_ok \<tau> item) \<and> (\<forall>u \<in> fst ` set ums. update_ok \<tau> u)"
  "rd_updateBatches (fold (\<lambda>(u, m). Rib_addUpdateToQueue u m) ums rd) = [] \<longleftrightarrow> rd_updateBatches rd = [] \<and> ums = []"
  by (induction ums arbitrary: rd) (auto simp: Rib_addUpdateToQueue_def item_ok_def)

lemma requests_correct:
  assumes "rd_inv \<tau> rd" "\<forall>u \<in> fst ` set ums. update_ok \<tau> u"
    and "Rib_sendBatchFromQueue second (fold (\<lambda>(u, m). Rib_addUpdateToQueue u m) ums rd) = Some rd'"
  shows "rd_inv \<tau> rd' \<and> advances (outstanding rd @ map fst ums) (rib_routes (rd_rib rd)) rd'"
proof -
  let ?rd = "fold (\<lambda>(u, m). Rib_addUpdateToQueue u m) ums rd"
  note f = addUpdates_fields [of ums rd]
  show ?thesis
  proof (cases "rd_isUpdateInProgress rd")
    case True
    then have rd': "rd' = ?rd" using assms(3) f(5) by (simp add: Rib_sendBatchFromQueue_def)
    have "batch_ok \<tau> ?rd item \<longleftrightarrow> batch_ok \<tau> rd item" for item by (simp add: batch_ok_def f)
    then show ?thesis unfolding rd' using assms(1,2) True by (auto simp: rd_inv_def f outstanding_def intro!: advances_refl)
  next
    case False
    then have i: "rd_updateBatches rd = []" "rd_commands rd = []" "rib_inv \<tau> (rd_rib rd)" using assms(1) by (simp_all add: rd_inv_def)
    show ?thesis
    proof (cases "ums = []")
      case True
      then have "rd' = rd" using assms(3) i by (simp add: Rib_sendBatchFromQueue_def)
      then show ?thesis using assms(1) True by (simp add: advances_refl)
    next
      case ums: False
      then have "send_batches second (rd_updateBatches ?rd) ?rd = Some rd'" using assms(3) False f by (simp add: Rib_sendBatchFromQueue_def)
      from send_batches_correct [OF _ _ _ _ this, of \<tau>] show ?thesis using f i False assms(2) by (simp add: outstanding_def)
    qed
  qed
qed

lemma rd_inv_cong:
  assumes "rd_rib rd' = rd_rib rd" "rd_fup rd' = rd_fup rd" "rd_updateBatches rd' = rd_updateBatches rd"
    "rd_isUpdateInProgress rd' = rd_isUpdateInProgress rd" "rd_commands rd' = rd_commands rd"
  shows "rd_inv \<tau> rd' \<longleftrightarrow> rd_inv \<tau> rd" "outstanding rd' = outstanding rd" "advances us R rd' \<longleftrightarrow> advances us R rd"
proof -
  have "batch_ok \<tau> rd' = batch_ok \<tau> rd" using assms by (simp add: batch_ok_def fun_eq_iff)
  then show "rd_inv \<tau> rd' \<longleftrightarrow> rd_inv \<tau> rd" using assms by (simp add: rd_inv_def)
  show "outstanding rd' = outstanding rd" using assms by (simp add: outstanding_def)
  then show "advances us R rd' \<longleftrightarrow> advances us R rd" using assms by (simp add: advances_def)
qed

section \<open>Events\<close>

fun event_ok :: "(bytes \<Rightarrow> u32) \<Rightarrow> rib_event \<Rightarrow> bool" where
  "event_ok \<tau> (RouteExpiration n r) \<longleftrightarrow> typed \<tau> n \<and> length n < npos"
| "event_ok \<tau> _ \<longleftrightarrow> True"

definition events_ok :: "(bytes \<Rightarrow> u32) \<Rightarrow> rib_daemon \<Rightarrow> bool" where
  "events_ok \<tau> rd \<longleftrightarrow> (\<forall>x \<in> set (rd_events rd). event_ok \<tau> (snd x))"

lemma sendUpdates_events [simp]: "rd_events (FibUpdater_sendUpdates us item rd) = rd_events rd"
  using sendUpdates_commands [of us item rd] by auto

lemma send_events [simp]:
  "rd_events (snd (FibUpdater_sendUpdatesForNonBatchFaceId item rd)) = rd_events rd"
  "rd_events (snd (FibUpdater_sendUpdatesForBatchFaceId item rd)) = rd_events rd"
  by (simp_all add: FibUpdater_sendUpdatesForNonBatchFaceId_def FibUpdater_sendUpdatesForBatchFaceId_def)

lemma computeAndSend_events:
  "FibUpdater_computeAndSendFibUpdates second item rd = Some (finished, rd') \<Longrightarrow> rd_events rd' = rd_events rd"
  by (auto simp: FibUpdater_computeAndSendFibUpdates_def Let_def bind_eq_Some_conv dest: arg_cong [where f = "\<lambda>x. rd_events (snd x)"])

lemma applyBatch_events: "Rib_applyBatch item rd = Some rd' \<Longrightarrow> rd_events rd' = rd_events rd"
  by (auto simp: Rib_applyBatch_def Let_def bind_eq_Some_conv)

lemma send_batches_events: "send_batches second items rd = Some rd' \<Longrightarrow> rd_events rd' = rd_events rd"
proof (induction items arbitrary: rd)
  case (Cons item rest)
  then obtain finished rd1 where c: "FibUpdater_computeAndSendFibUpdates second item
      (rd\<lparr>rd_isUpdateInProgress := True, rd_updateBatches := rest\<rparr>) = Some (finished, rd1)"
    and s: "(if finished then do { rd2 \<leftarrow> Rib_applyBatch item rd1; send_batches second rest rd2 } else Some rd1) = Some rd'"
    by (auto simp: bind_eq_Some_conv)
  have "rd_events rd1 = rd_events rd" using computeAndSend_events [OF c] by simp
  moreover have "rd_events rd' = rd_events rd1"
  proof (cases finished)
    case True
    then obtain rd2 where "Rib_applyBatch item rd1 = Some rd2" "send_batches second rest rd2 = Some rd'"
      using s by (auto simp: bind_eq_Some_conv)
    then show ?thesis using Cons.IH [of rd2] applyBatch_events [of item rd1 rd2] by simp
  qed (use s in simp)
  ultimately show ?case by simp
qed auto

lemma sendBatchFromQueue_events: "Rib_sendBatchFromQueue second rd = Some rd' \<Longrightarrow> rd_events rd' = rd_events rd"
  by (auto simp: Rib_sendBatchFromQueue_def dest: send_batches_events split: if_splits)

lemma onSuccess_events: "Rib_onFibUpdateSuccess second item rd = Some rd' \<Longrightarrow> rd_events rd' = rd_events rd"
  by (auto simp: Rib_onFibUpdateSuccess_def bind_eq_Some_conv dest!: sendBatchFromQueue_events applyBatch_events)

lemma success_events: "FibUpdater_onUpdateSuccess second c rd = Some rd' \<Longrightarrow> rd_events rd' = rd_events rd"
  by (auto simp: FibUpdater_onUpdateSuccess_def FibUpdater_sendUpdatesForNonBatchFaceId_def Let_def dest!: onSuccess_events split: if_splits)

lemma schedule_events_ok:
  "events_ok \<tau> rd \<Longrightarrow> event_ok \<tau> ev \<Longrightarrow> events_ok \<tau> (snd (rd_schedule ev rd))"
  "events_ok \<tau> rd \<Longrightarrow> events_ok \<tau> (RibManager_scheduleActiveFaceFetch rd)"
  by (auto simp: events_ok_def rd_schedule_def RibManager_scheduleActiveFaceFetch_def Let_def split: option.splits)

lemma error_events:
  assumes "FibUpdater_onUpdateError second c code rd = Some (Inr rd')" "events_ok \<tau> rd"
  shows "events_ok \<tau> rd'"
proof -
  have failure: "events_ok \<tau> rd'" if h: "Rib_onFibUpdateFailure second (cmd_item c) rd = Some rd'"
  proof -
    let ?rd = "if qi_manager (cmd_item c) then RibManager_scheduleActiveFaceFetch (rd\<lparr>rd_isUpdateInProgress := False\<rparr>)
      else rd\<lparr>rd_isUpdateInProgress := False\<rparr>"
    have "events_ok \<tau> (rd\<lparr>rd_isUpdateInProgress := False\<rparr>)" using assms(2) by (simp add: events_ok_def)
    then have "events_ok \<tau> ?rd" by (simp add: schedule_events_ok(2))
    moreover have "rd_events rd' = rd_events ?rd"
      using h by (intro sendBatchFromQueue_events) (simp add: Rib_onFibUpdateFailure_def Let_def)
    ultimately show ?thesis by (simp add: events_ok_def)
  qed
  show ?thesis
    using assms failure by (auto simp: FibUpdater_onUpdateError_def Let_def FibUpdater_sendAddNextHopUpdate_def events_ok_def
        dest!: onSuccess_events split: if_splits)
qed

section \<open>Runs\<close>

text \<open>
  The runs of the daemon, with the updates that were requested so far and did not fail. Requests come from commands, from the
  expiration of a route and from the end of a face. The route for the prefix of the daemon's own commands is put into the RIB at once when
  the forwarder has accepted it: its update comes after those that are applied and before those that are outstanding. An answer is success,
  a timeout, or that the face does not exist. If that is the face of the batch the batch has failed, its updates are dropped and the daemon
  goes on with the queue. A run is orderly if a batch fails only when none of its other commands is without an answer. In the other runs the
  answers to those come while a later batch is in progress.
\<close>

inductive rd_run :: "bool \<Rightarrow> (bytes \<Rightarrow> u32) \<Rightarrow> (route list \<Rightarrow> route) \<Rightarrow> rib_update list \<Rightarrow> rib_daemon \<Rightarrow> bool" for orderly \<tau> second where
  run_start: "rd_run orderly \<tau> second [] rib_daemon_ctor"
| run_register: "rd_run orderly \<tau> second H rd \<Longrightarrow> typed \<tau> (cp_name ps) \<Longrightarrow> length (cp_name ps) < npos \<Longrightarrow>
    RibManager_registerEntry second now ps faceId rd = Some rd' \<Longrightarrow>
    rd_run orderly \<tau> second (H @ [\<lparr>ru_action = REGISTER, ru_name = cp_name ps, ru_route = fst (RibManager_makeRoute now ps faceId rd)\<rparr>]) rd'"
| run_unregister: "rd_run orderly \<tau> second H rd \<Longrightarrow> typed \<tau> (cp_name ps) \<Longrightarrow> length (cp_name ps) < npos \<Longrightarrow>
    RibManager_unregisterEntry second ps faceId rd = Some rd' \<Longrightarrow>
    r = Route_ctor\<lparr>rt_faceId := RibManager_faceId ps faceId, rt_origin := cp_default 0 (cp_origin ps)\<rparr> \<Longrightarrow>
    rd_run orderly \<tau> second (H @ [\<lparr>ru_action = UNREGISTER, ru_name = cp_name ps, ru_route = r\<rparr>]) rd'"
| run_expire: "rd_run orderly \<tau> second H rd \<Longrightarrow> (i, RouteExpiration n r) \<in> set (rd_pending rd) \<Longrightarrow>
    Rib_onRouteExpiration second n r (rd\<lparr>rd_events := filter (\<lambda>x. fst x \<noteq> i) (rd_events rd)\<rparr>) = Some rd' \<Longrightarrow>
    rd_run orderly \<tau> second (H @ [\<lparr>ru_action = UNREGISTER, ru_name = n, ru_route = r\<rparr>]) rd'"
| run_face: "rd_run orderly \<tau> second H rd \<Longrightarrow> (i, FaceDestroyedEvent faceId) \<in> set (rd_pending rd) \<Longrightarrow>
    RibManager_onFaceDestroyedEvent second faceId (rd\<lparr>rd_events := filter (\<lambda>x. fst x \<noteq> i) (rd_events rd)\<rparr>) = Some rd' \<Longrightarrow>
    rd_run orderly \<tau> second (H @ map (\<lambda>(n, r). \<lparr>ru_action = REMOVE_FACE, ru_name = n, ru_route = r\<rparr>) (Rib_findRoutesWithFaceId faceId (rd_rib rd))) rd'"
| run_notification: "rd_run orderly \<tau> second H rd \<Longrightarrow> rd_run orderly \<tau> second H (RibManager_onNotification kind faceId rd)"
| run_fetch: "rd_run orderly \<tau> second H rd \<Longrightarrow> rd_run orderly \<tau> second H (RibManager_removeInvalidFaces faces rd)"
| run_startup: "rd_run orderly \<tau> second (H @ outstanding rd) rd \<Longrightarrow> typed \<tau> n \<Longrightarrow> length n < npos \<Longrightarrow>
    rd_run orderly \<tau> second
      (H @ \<lparr>ru_action = REGISTER, ru_name = n, ru_route = RibManager_commandPrefixRoute faceId\<rparr> # outstanding rd)
      (RibManager_onNrdCommandPrefixAddNextHopSuccess n faceId rd)"
| run_success: "rd_run orderly \<tau> second H rd \<Longrightarrow> c \<in> set (rd_commands rd) \<Longrightarrow>
    FibUpdater_onUpdateSuccess second c (rd\<lparr>rd_commands := remove1 c (rd_commands rd)\<rparr>) = Some rd' \<Longrightarrow> rd_run orderly \<tau> second H rd'"
| run_timeout: "rd_run orderly \<tau> second H rd \<Longrightarrow> c \<in> set (rd_commands rd) \<Longrightarrow>
    FibUpdater_onUpdateError second c ERROR_TIMEOUT (rd\<lparr>rd_commands := remove1 c (rd_commands rd)\<rparr>) = Some (Inr rd') \<Longrightarrow> rd_run orderly \<tau> second H rd'"
| run_gone: "rd_run orderly \<tau> second H rd \<Longrightarrow> c \<in> set (rd_commands rd) \<Longrightarrow> fu_faceId (cmd_update c) \<noteq> fup_batchFaceId (rd_fup rd) \<Longrightarrow>
    FibUpdater_onUpdateError second c ERROR_FACE_NOT_FOUND (rd\<lparr>rd_commands := remove1 c (rd_commands rd)\<rparr>) = Some (Inr rd') \<Longrightarrow>
    rd_run orderly \<tau> second H rd'"
| run_failed: "rd_run orderly \<tau> second (H @ qi_updates (cmd_item c) @ K) rd \<Longrightarrow> rd_commands rd = [c] \<Longrightarrow>
    fu_faceId (cmd_update c) = fup_batchFaceId (rd_fup rd) \<Longrightarrow> K = concat (map qi_updates (rd_updateBatches rd)) \<Longrightarrow>
    FibUpdater_onUpdateError second c ERROR_FACE_NOT_FOUND (rd\<lparr>rd_commands := []\<rparr>) = Some (Inr rd') \<Longrightarrow> rd_run orderly \<tau> second (H @ K) rd'"
| run_failed_early: "rd_run orderly \<tau> second H rd \<Longrightarrow> \<not> orderly \<Longrightarrow> c \<in> set (rd_commands rd) \<Longrightarrow> rd_commands rd \<noteq> [c] \<Longrightarrow>
    fu_faceId (cmd_update c) = fup_batchFaceId (rd_fup rd) \<Longrightarrow>
    FibUpdater_onUpdateError second c ERROR_FACE_NOT_FOUND (rd\<lparr>rd_commands := remove1 c (rd_commands rd)\<rparr>) = Some (Inr rd') \<Longrightarrow>
    rd_run orderly \<tau> second (fold remove1 (qi_updates (cmd_item c)) H) rd'"

lemma advances_trans:
  "advances H R rd \<Longrightarrow> advances (outstanding rd @ us) (rib_routes (rd_rib rd)) rd' \<Longrightarrow> advances (H @ us) R rd'"
  unfolding advances_def by (metis append.assoc fold_append comp_apply)

definition rd_good :: "(bytes \<Rightarrow> u32) \<Rightarrow> rib_update list \<Rightarrow> rib_daemon \<Rightarrow> bool" where
  "rd_good \<tau> H rd \<longleftrightarrow> rd_inv \<tau> rd \<and> events_ok \<tau> rd \<and> advances H (\<lambda>_. []) rd"

lemma good_step:
  assumes "rd_good \<tau> H rd" "rd_inv \<tau> rd' \<and> advances (outstanding rd @ us) (rib_routes (rd_rib rd)) rd'" "events_ok \<tau> rd'"
  shows "rd_good \<tau> (H @ us) rd'"
  using assms advances_trans [of H "\<lambda>_. []" rd us rd'] by (simp add: rd_good_def)

lemma good_cong:
  assumes "rd_good \<tau> H rd" "rd_rib rd' = rd_rib rd" "rd_fup rd' = rd_fup rd" "rd_updateBatches rd' = rd_updateBatches rd"
    "rd_isUpdateInProgress rd' = rd_isUpdateInProgress rd" "rd_commands rd' = rd_commands rd" "events_ok \<tau> rd'"
  shows "rd_good \<tau> H rd'"
  using assms rd_inv_cong [OF assms(2-6)] by (simp add: rd_good_def)

lemma good_requests:
  assumes "rd_good \<tau> H rd" "\<forall>u \<in> fst ` set ums. update_ok \<tau> u"
    and "Rib_sendBatchFromQueue second (fold (\<lambda>(u, m). Rib_addUpdateToQueue u m) ums rd) = Some rd'"
  shows "rd_good \<tau> (H @ map fst ums) rd'"
proof (rule good_step [OF assms(1)])
  show "rd_inv \<tau> rd' \<and> advances (outstanding rd @ map fst ums) (rib_routes (rd_rib rd)) rd'"
    using requests_correct [OF _ assms(2,3)] assms(1) by (simp add: rd_good_def)
  show "events_ok \<tau> rd'"
    using sendBatchFromQueue_events [OF assms(3)] assms(1) by (simp add: rd_good_def events_ok_def addUpdates_fields)
qed

lemma good_update:
  assumes "rd_good \<tau> H rd" "update_ok \<tau> u" "Rib_beginApplyUpdate second u m rd = Some rd'"
  shows "rd_good \<tau> (H @ [u]) rd'"
  using good_requests [OF assms(1), of "[(u, m)]" second rd'] assms(2,3) by (simp add: Rib_beginApplyUpdate_def)

lemma good_faces:
  assumes "rd_good \<tau> H rd"
  shows "rd_good \<tau> H (snd (rd_schedule (FaceDestroyedEvent faceId) rd))" "rd_good \<tau> H (RibManager_scheduleActiveFaceFetch rd)"
proof -
  have e: "events_ok \<tau> (snd (rd_schedule (FaceDestroyedEvent faceId) rd))" "events_ok \<tau> (RibManager_scheduleActiveFaceFetch rd)"
    using assms by (auto simp: rd_good_def intro: schedule_events_ok)
  show "rd_good \<tau> H (snd (rd_schedule (FaceDestroyedEvent faceId) rd))"
    by (rule good_cong [OF assms _ _ _ _ _ e(1)]) (simp_all add: rd_schedule_def)
  show "rd_good \<tau> H (RibManager_scheduleActiveFaceFetch rd)"
    by (rule good_cong [OF assms _ _ _ _ _ e(2)])
      (simp_all add: rd_schedule_def RibManager_scheduleActiveFaceFetch_def Let_def split: option.split)
qed

lemma good_filter:
  assumes "rd_good \<tau> H rd"
  shows "rd_good \<tau> H (rd\<lparr>rd_events := filter P (rd_events rd)\<rparr>)"
proof -
  have "events_ok \<tau> (rd\<lparr>rd_events := filter P (rd_events rd)\<rparr>)" using assms by (simp add: rd_good_def events_ok_def)
  then show ?thesis by (intro good_cong [OF assms]) simp_all
qed

lemma routes_typed:
  assumes "rib_inv \<tau> rib" "(n, r) \<in> set (Rib_findRoutesWithFaceId faceId rib)"
  shows "typed \<tau> n \<and> length n < npos"
proof -
  have "rib_routes rib n \<noteq> []" using findRoutesWithFaceId_correct [OF assms(1)] assms(2) by auto
  then have "n \<in> fst ` set (rib_table rib)" by (auto simp: rib_routes_def dest!: map_of_SomeD intro: rev_image_eqI split: option.splits)
  then show ?thesis using assms(1) unfolding rib_inv_def by blast
qed

lemma good_register:
  assumes "rd_good \<tau> H rd" "typed \<tau> (cp_name ps)" "length (cp_name ps) < npos" "RibManager_registerEntry second now ps faceId rd = Some rd'"
  shows "rd_good \<tau> (H @ [\<lparr>ru_action = REGISTER, ru_name = cp_name ps, ru_route = fst (RibManager_makeRoute now ps faceId rd)\<rparr>]) rd'"
proof -
  obtain r rd1 where m: "RibManager_makeRoute now ps faceId rd = (r, rd1)" by fastforce
  let ?u = "\<lparr>ru_action = REGISTER, ru_name = cp_name ps, ru_route = r\<rparr>"
  obtain rd2 where b: "Rib_beginApplyUpdate second ?u True rd1 = Some rd2" "rd' = rd2\<lparr>rd_registeredFaces := insert (rt_faceId r) (rd_registeredFaces rd2)\<rparr>"
    using assms(4) m by (auto simp: RibManager_registerEntry_def bind_eq_Some_conv)
  have "rd_rib rd1 = rd_rib rd" "rd_fup rd1 = rd_fup rd" "rd_updateBatches rd1 = rd_updateBatches rd"
    "rd_isUpdateInProgress rd1 = rd_isUpdateInProgress rd" "rd_commands rd1 = rd_commands rd"
    using m by (auto simp: RibManager_makeRoute_def rd_schedule_def Let_def split: if_splits)
  moreover have "events_ok \<tau> rd1"
    using m assms(1-3) by (auto simp: RibManager_makeRoute_def rd_schedule_def Let_def rd_good_def events_ok_def split: if_splits)
  ultimately have "rd_good \<tau> H rd1" by (rule good_cong [OF assms(1)])
  then have g: "rd_good \<tau> (H @ [?u]) rd2" using assms(2,3) b(1) by (intro good_update) (simp_all add: update_ok_def)
  then have "events_ok \<tau> rd'" by (simp add: rd_good_def events_ok_def b(2))
  then have "rd_good \<tau> (H @ [?u]) rd'" by (intro good_cong [OF g]) (simp_all add: b(2))
  then show ?thesis by (simp add: m)
qed

lemma good_face:
  assumes "rd_good \<tau> H rd" "RibManager_onFaceDestroyedEvent second faceId rd = Some rd'"
  shows "rd_good \<tau> (H @ map (\<lambda>(n, r). \<lparr>ru_action = REMOVE_FACE, ru_name = n, ru_route = r\<rparr>) (Rib_findRoutesWithFaceId faceId (rd_rib rd))) rd'"
proof -
  let ?us = "map (\<lambda>(n, r). \<lparr>ru_action = REMOVE_FACE, ru_name = n, ru_route = r\<rparr>) (Rib_findRoutesWithFaceId faceId (rd_rib rd))"
  obtain rd1 where b: "Rib_beginRemoveFace second faceId rd = Some rd1" "rd' = rd1\<lparr>rd_registeredFaces := rd_registeredFaces rd1 - {faceId}\<rparr>"
    using assms(2) by (auto simp: RibManager_onFaceDestroyedEvent_def bind_eq_Some_conv)
  have "fold (\<lambda>(u, m). Rib_addUpdateToQueue u m) (map (\<lambda>u. (u, False)) ?us) rd =
      fold (\<lambda>(n, r). Rib_addUpdateToQueue \<lparr>ru_action = REMOVE_FACE, ru_name = n, ru_route = r\<rparr> False) (Rib_findRoutesWithFaceId faceId (rd_rib rd)) rd"
    by (simp add: fold_map comp_def case_prod_unfold)
  then have s: "Rib_sendBatchFromQueue second (fold (\<lambda>(u, m). Rib_addUpdateToQueue u m) (map (\<lambda>u. (u, False)) ?us) rd) = Some rd1"
    using b(1) by (simp add: Rib_beginRemoveFace_def)
  have "\<forall>u \<in> fst ` set (map (\<lambda>u. (u, False)) ?us). update_ok \<tau> u"
    using assms(1) by (auto simp: update_ok_def rd_good_def rd_inv_def dest: routes_typed)
  from good_requests [OF assms(1) this s] have g: "rd_good \<tau> (H @ ?us) rd1" by (simp add: comp_def)
  then have "events_ok \<tau> rd'" by (simp add: rd_good_def events_ok_def b(2))
  then show ?thesis by (intro good_cong [OF g]) (simp_all add: b(2))
qed

lemma good_failed:
  assumes "rd_good \<tau> (H @ qi_updates (cmd_item c) @ K) rd" "rd_commands rd = [c]" "fu_faceId (cmd_update c) = fup_batchFaceId (rd_fup rd)"
    "K = concat (map qi_updates (rd_updateBatches rd))"
    "FibUpdater_onUpdateError second c ERROR_FACE_NOT_FOUND (rd\<lparr>rd_commands := []\<rparr>) = Some (Inr rd')"
  shows "rd_good \<tau> (H @ K) rd'"
proof -
  have i: "rd_inv \<tau> rd" "advances (H @ qi_updates (cmd_item c) @ K) (\<lambda>_. []) rd" "events_ok \<tau> (rd\<lparr>rd_commands := []\<rparr>)"
    using assms(1) by (simp_all add: rd_good_def events_ok_def)
  have "outstanding rd = qi_updates (cmd_item c) @ K" using i(1) assms(2,4) by (auto simp: outstanding_def rd_inv_def split: if_splits)
  then have "rib_routes (rd_rib rd) = fold abs_apply H (\<lambda>_. [])" using i(2) by (auto simp: advances_def)
  then show ?thesis
    using answer_failure [OF i(1) assms(2,3,5)] error_events [OF assms(5) i(3)] advances_append [of K H "\<lambda>_. []" rd'] assms(4)
    by (simp add: rd_good_def)
qed

lemma good_startup:
  assumes "rd_good \<tau> (H @ outstanding rd) rd" "typed \<tau> n" "length n < npos"
  shows "rd_good \<tau> (H @ \<lparr>ru_action = REGISTER, ru_name = n, ru_route = RibManager_commandPrefixRoute faceId\<rparr> # outstanding rd)
    (RibManager_onNrdCommandPrefixAddNextHopSuccess n faceId rd)"
proof -
  let ?u = "\<lparr>ru_action = REGISTER, ru_name = n, ru_route = RibManager_commandPrefixRoute faceId\<rparr>"
  let ?rd = "RibManager_onNrdCommandPrefixAddNextHopSuccess n faceId rd"
  have i: "rib_inv \<tau> (rd_rib rd)" "rib_routes (rd_rib rd) = fold abs_apply H (\<lambda>_. [])"
    using assms(1) by (auto simp: rd_good_def rd_inv_def advances_def)
  have f: "rd_rib ?rd = apply_rib_update ?u (rd_rib rd)" "rd_fup ?rd = rd_fup rd" "rd_updateBatches ?rd = rd_updateBatches rd"
    "rd_isUpdateInProgress ?rd = rd_isUpdateInProgress rd" "rd_commands ?rd = rd_commands rd" "rd_events ?rd = rd_events rd"
    by (simp_all add: RibManager_onNrdCommandPrefixAddNextHopSuccess_def apply_rib_update_def Let_def)
  have o: "outstanding ?rd = outstanding rd" by (simp add: outstanding_def f)
  note a = apply_rib_update_correct [OF i(1), of ?u]
  have "advances (H @ ?u # outstanding rd) (\<lambda>_. []) ?rd"
    unfolding advances_def o using a(2) assms(2,3) by (intro exI [of _ "H @ [?u]"]) (simp add: f i(2) update_ok_def)
  moreover have "batch_ok \<tau> ?rd = batch_ok \<tau> rd" by (simp add: batch_ok_def f fun_eq_iff)
  then have "rd_inv \<tau> ?rd" using assms a(1) by (auto simp: rd_good_def rd_inv_def f update_ok_def)
  ultimately show ?thesis using assms(1) by (simp add: rd_good_def events_ok_def f)
qed

text \<open>What is shown of the orderly runs.\<close>

theorem rd_run_good: "rd_run True \<tau> second H rd \<Longrightarrow> rd_good \<tau> H rd"
proof (induction rule: rd_run.induct)
  case run_start
  then show ?case
    by (auto simp: rd_good_def rd_inv_def events_ok_def rib_daemon_ctor_def outstanding_def rib_inv_def links_ok_def Rib_ctor_def rib_routes_def intro!: advances_refl)
next
  case (run_register H rd ps now faceId rd')
  then show ?case by (intro good_register)
next
  case (run_unregister H rd ps faceId rd' r)
  then show ?case by (intro good_update) (simp_all add: update_ok_def RibManager_unregisterEntry_def Let_def)
next
  case (run_expire H rd i n r rd')
  have "update_ok \<tau> \<lparr>ru_action = UNREGISTER, ru_name = n, ru_route = r\<rparr>"
    using run_expire.IH run_expire.hyps(2) by (auto simp: update_ok_def rd_good_def events_ok_def rd_pending_def)
  then show ?case using run_expire.hyps(3) by (intro good_update [OF good_filter [OF run_expire.IH]]) (simp_all add: Rib_onRouteExpiration_def)
next
  case (run_face H rd i faceId rd')
  then show ?case using good_face [OF good_filter [OF run_face.IH] run_face.hyps(3)] by simp
next
  case (run_notification H rd kind faceId)
  then show ?case by (simp add: RibManager_onNotification_def good_faces(1))
next
  case (run_fetch H rd faces)
  have "rd_good \<tau> H (fold (\<lambda>faceId rd. snd (rd_schedule (FaceDestroyedEvent faceId) rd)) ids rd)" for ids
    using run_fetch.IH by (induction ids arbitrary: rd) (simp_all add: good_faces(1))
  then show ?case by (simp add: RibManager_removeInvalidFaces_def good_faces(2))
next
  case (run_startup H rd n faceId)
  then show ?case by (intro good_startup)
next
  case (run_success H rd c rd')
  then have "events_ok \<tau> rd'" using success_events [OF run_success.hyps(3)] by (simp add: rd_good_def events_ok_def)
  then show ?case using good_step [OF run_success.IH, of rd' "[]"] answer_success [OF _ run_success.hyps(2,3), of \<tau>] run_success.IH
    by (simp add: rd_good_def)
next
  case (run_timeout H rd c rd')
  then have "events_ok \<tau> rd'" using error_events [OF run_timeout.hyps(3), of \<tau>] by (simp add: rd_good_def events_ok_def)
  then show ?case using good_step [OF run_timeout.IH, of rd' "[]"] answer_timeout [OF _ run_timeout.hyps(2,3), of \<tau>] run_timeout.IH
    by (simp add: rd_good_def)
next
  case (run_gone H rd c rd')
  then have "events_ok \<tau> rd'" using error_events [OF run_gone.hyps(4), of \<tau>] by (simp add: rd_good_def events_ok_def)
  then show ?case using good_step [OF run_gone.IH, of rd' "[]"] answer_gone [OF _ run_gone.hyps(2-4), of \<tau>] run_gone.IH
    by (simp add: rd_good_def)
next
  case (run_failed H c K rd rd')
  show ?case by (rule good_failed [OF run_failed.IH run_failed.hyps(2-5)])
qed simp

end
