(* ===== verification/Ndnlp.thy ===== *)
theory Ndnlp
  imports Packets
begin

text \<open>
  The link protocol that cuts packets to the size of an Ethernet frame: the slicer of \<open>NFD/daemon/face/ndnlp-slicer.cpp\<close> with its sequence
  numbers, the fragments of \<open>ndnlp-data.cpp\<close>, and the reassembly of \<open>ndnlp-partial-message-store.cpp\<close>. The events of the scheduler
  that give up a message are kept with the message; the signal \<open>onReceive\<close> adds to a list of delivered packets.
\<close>

section \<open>Fragments\<close>

definition tlv_NdnlpData :: u32 where "tlv_NdnlpData = 80"
definition tlv_NdnlpSequence :: u32 where "tlv_NdnlpSequence = 81"
definition tlv_NdnlpFragIndex :: u32 where "tlv_NdnlpFragIndex = 82"
definition tlv_NdnlpFragCount :: u32 where "tlv_NdnlpFragCount = 83"
definition tlv_NdnlpPayload :: u32 where "tlv_NdnlpPayload = 84"

lemmas ndnlp_types = tlv_NdnlpData_def tlv_NdnlpSequence_def tlv_NdnlpFragIndex_def tlv_NdnlpFragCount_def tlv_NdnlpPayload_def

record ndnlp_data =
  lp_seq :: u64
  lp_fragIndex :: u16
  lp_fragCount :: u16
  lp_payload :: block

definition max_u16 :: u64 where "max_u16 = 65535"

text \<open>The part of \<open>fromBlock\<close> that reads the index and the number of fragments.\<close>

definition NdnlpData_fragment :: "u64 \<Rightarrow> block \<Rightarrow> block \<Rightarrow> block \<Rightarrow> ndnlp_data option result" where
  "NdnlpData_fragment sq fragIndexElement fragCountElement payload =
     (if blk_type fragIndexElement \<noteq> tlv_NdnlpFragIndex then Inr None
      else bind_result (readNonNegativeInteger_block fragIndexElement) (\<lambda>fragIndex.
        if fragIndex > max_u16 then Inr None
        else if blk_type fragCountElement \<noteq> tlv_NdnlpFragCount then Inr None
        else bind_result (readNonNegativeInteger_block fragCountElement) (\<lambda>fragCount.
          if fragCount > max_u16 then Inr None
          else if (ucast fragIndex :: u16) \<ge> ucast fragCount then Inr None
          else Inr (Some \<lparr>lp_seq = sq, lp_fragIndex = ucast fragIndex, lp_fragCount = ucast fragCount, lp_payload = payload\<rparr>))))"

definition NdnlpData_fromBlock :: "block \<Rightarrow> ndnlp_data option result" where
  "NdnlpData_fromBlock wire =
     (if blk_type wire \<noteq> tlv_NdnlpData then Inr None
      else bind_result (Block_parse (blk_payload wire)) (\<lambda>els.
        if length els < 2 then Inr None
        else if blk_type (hd els) \<noteq> tlv_NdnlpSequence then Inr None
        else if length (blk_payload (hd els)) \<noteq> 8 then Inr None
        else
          let sq = of_nat (be_val (blk_payload (hd els))); payload = last els
          in if blk_type payload \<noteq> tlv_NdnlpPayload then Inr None
             else if length els = 2 then Inr (Some \<lparr>lp_seq = sq, lp_fragIndex = 0, lp_fragCount = 1, lp_payload = payload\<rparr>)
             else if length els \<noteq> 4 then Inr None
             else NdnlpData_fragment sq (els ! 1) (els ! 2) payload))"

section \<open>The slicer\<close>

text \<open>Sizes are of type \<open>size_t\<close>.\<close>

record slicer =
  sl_mtu :: u64
  sl_maxPayload :: u64
  sl_next :: u64

record sequence_block =
  sb_start :: u64
  sb_count :: u64

definition SequenceGenerator_nextBlock :: "u64 \<Rightarrow> slicer \<Rightarrow> sequence_block \<times> slicer" where
  "SequenceGenerator_nextBlock count sl = (\<lparr>sb_start = sl_next sl, sb_count = count\<rparr>, sl\<lparr>sl_next := sl_next sl + count\<rparr>)"

text \<open>A position out of range throws: no result.\<close>

definition SequenceBlock_at :: "sequence_block \<Rightarrow> u64 \<Rightarrow> u64 option" where
  "SequenceBlock_at sb pos = (if pos \<ge> sb_count sb then None else Some (sb_start sb + pos))"

text \<open>The length and the type put before a value of \<open>n\<close> octets that has been written; the new length.\<close>

definition prepend_header :: "'e encoding_impl \<Rightarrow> u32 \<Rightarrow> nat \<times> 'e \<Rightarrow> nat \<times> 'e" where
  "prepend_header impl type = (\<lambda>(n, e).
     let (n1, e1) = prependVarNumber impl (of_nat n) e; (n2, e2) = prependVarNumber impl (ucast type) e1 in (n + n1 + n2, e2))"

definition Slicer_encodeFragment ::
    "'e encoding_impl \<Rightarrow> u64 \<Rightarrow> u16 \<Rightarrow> u16 \<Rightarrow> bytes \<Rightarrow> 'e \<Rightarrow> nat \<times> 'e" where
  "Slicer_encodeFragment impl sq fragIndex fragCount payload e0 =
     (let (n1, e1) = prepend_header impl tlv_NdnlpPayload (prependByteArray impl payload e0);
          (n2, e2) = (if fragCount > 1 then
              let (m1, f1) = prepend_header impl tlv_NdnlpFragCount (prependNonNegativeInteger impl (ucast fragCount) e1);
                  (m2, f2) = prepend_header impl tlv_NdnlpFragIndex (prependNonNegativeInteger impl (ucast fragIndex) f1)
              in (m1 + m2, f2)
            else (0, e1));
          (n3, e3) = prepend_header impl tlv_NdnlpSequence (prependByteArray impl (be_bytes 8 (unat sq)) e2)
      in prepend_header impl tlv_NdnlpData (n1 + n2 + n3, e3))"

text \<open>The estimator does not read the payload, which is a null pointer in the code.\<close>

definition Slicer_estimateOverhead :: "u64 \<Rightarrow> u64" where
  "Slicer_estimateOverhead mtu =
     (let estimatedSize = of_nat (fst (Slicer_encodeFragment EstimatorTag (- 1) 65534 65535 (replicate (unat mtu) 0) ()));
          overhead = estimatedSize - mtu
      in mtu - overhead)"

definition Slicer_ctor :: "u64 \<Rightarrow> slicer" where
  "Slicer_ctor mtu = \<lparr>sl_mtu = mtu, sl_maxPayload = Slicer_estimateOverhead mtu, sl_next = 0\<rparr>"

text \<open>One turn of the loop: no result if the fragment is larger than a frame.\<close>

definition Slicer_fragment :: "slicer \<Rightarrow> sequence_block \<Rightarrow> u16 \<Rightarrow> bytes \<Rightarrow> u16 \<Rightarrow> block option" where
  "Slicer_fragment sl seqBlock fragCount networkPacket fragIndex =
     (let payloadOffset = ucast fragIndex * sl_maxPayload sl;
          payloadSize = min (sl_maxPayload sl) (of_nat (length networkPacket) - payloadOffset);
          payload = take (unat payloadSize) (drop (unat payloadOffset) networkPacket)
      in case SequenceBlock_at seqBlock (ucast fragIndex) of
           None \<Rightarrow> None
         | Some sq \<Rightarrow>
             (let (pktSize, buffer) = Slicer_encodeFragment EncoderTag sq fragIndex fragCount payload (Encoder_ctor (unat (sl_mtu sl)) 0)
              in if pktSize \<le> unat (sl_mtu sl)
                 then (case Encoder_block buffer of Inl _ \<Rightarrow> None | Inr b \<Rightarrow> Some b)
                 else None))"

text \<open>Division by zero has no result either.\<close>

definition Slicer_slice :: "bytes \<Rightarrow> slicer \<Rightarrow> (block list \<times> slicer) option" where
  "Slicer_slice networkPacket sl =
     (if sl_maxPayload sl = 0 then None
      else
        let networkPacketSize = of_nat (length networkPacket) :: u64;
            fragCount = ucast (networkPacketSize div sl_maxPayload sl +
              (if networkPacketSize mod sl_maxPayload sl = 0 then 0 else 1)) :: u16;
            (seqBlock, sl1) = SequenceGenerator_nextBlock (ucast fragCount) sl
        in map_option (\<lambda>pa. (pa, sl1))
             (those (map (\<lambda>i. Slicer_fragment sl seqBlock fragCount networkPacket (of_nat i)) [0 ..< unat fragCount])))"

section \<open>Reassembly\<close>

text \<open>An empty block is a place where no fragment has been received.\<close>

record partial_message =
  pm_fragCount :: nat
  pm_received :: nat
  pm_payloads :: "block option list"
  pm_totalLength :: nat
  pm_expiry :: int

definition PartialMessage_ctor :: partial_message where
  "PartialMessage_ctor = \<lparr>pm_fragCount = 0, pm_received = 0, pm_payloads = [], pm_totalLength = 0, pm_expiry = 0\<rparr>"

definition vec_resize :: "nat \<Rightarrow> 'a \<Rightarrow> 'a list \<Rightarrow> 'a list" where
  "vec_resize n x xs = take n xs @ replicate (n - length xs) x"

definition PartialMessage_add :: "u16 \<Rightarrow> u16 \<Rightarrow> block \<Rightarrow> partial_message \<Rightarrow> bool \<times> partial_message" where
  "PartialMessage_add fragIndex fragCount payload pm0 =
     (let pm = (if pm_received pm0 = 0
                then pm0\<lparr>pm_fragCount := unat fragCount, pm_payloads := vec_resize (unat fragCount) None (pm_payloads pm0)\<rparr>
                else pm0)
      in if pm_fragCount pm \<noteq> unat fragCount \<or> unat fragIndex \<ge> pm_fragCount pm then (False, pm)
         else if pm_payloads pm ! unat fragIndex \<noteq> None then (False, pm)
         else (True, pm\<lparr>pm_payloads := (pm_payloads pm)[unat fragIndex := Some payload], pm_received := pm_received pm + 1,
                        pm_totalLength := pm_totalLength pm + length (blk_payload payload)\<rparr>))"

definition PartialMessage_isComplete :: "partial_message \<Rightarrow> bool" where
  "PartialMessage_isComplete pm \<longleftrightarrow> pm_received pm = pm_fragCount pm"

definition PartialMessage_reassemble :: "partial_message \<Rightarrow> block option" where
  "PartialMessage_reassemble pm =
     Block_fromBuffer (concat (map (\<lambda>p. case p of None \<Rightarrow> [] | Some b \<Rightarrow> blk_payload b) (pm_payloads pm)))"

definition Block_blockFromValue :: "block \<Rightarrow> block result" where
  "Block_blockFromValue b =
     (if blk_payload b = [] then Inl (BlockError ''Underlying value buffer is empty'')
      else bind_result (readType_throw (blk_payload b)) (\<lambda>(type, rest).
        bind_result (readVarNumber_throw rest) (\<lambda>(len, rest').
          if unat len \<noteq> length rest' then Inl (TlvError ''TLV length mismatches buffer length'')
          else Inr \<lparr>blk_type = type, blk_payload = rest', blk_wire = blk_payload b\<rparr>)))"

definition PartialMessage_reassembleSingle :: "ndnlp_data \<Rightarrow> block option" where
  "PartialMessage_reassembleSingle fragment =
     (case Block_blockFromValue (lp_payload fragment) of Inl _ \<Rightarrow> None | Inr b \<Rightarrow> Some b)"

record message_store =
  pms_partialMessages :: "u64 \<Rightarrow> partial_message option"
  pms_idleDuration :: int
  pms_delivered :: "block list"

definition PartialMessageStore_ctor :: "int \<Rightarrow> message_store" where
  "PartialMessageStore_ctor idleDuration =
     \<lparr>pms_partialMessages = \<lambda>_. None, pms_idleDuration = idleDuration, pms_delivered = []\<rparr>"

text \<open>A message has one event to give it up, at the time kept with it: a new one replaces the old one, which is cancelled.\<close>

definition PartialMessageStore_scheduleCleanup :: "int \<Rightarrow> message_store \<Rightarrow> partial_message \<Rightarrow> partial_message" where
  "PartialMessageStore_scheduleCleanup now st pm = pm\<lparr>pm_expiry := now + pms_idleDuration st\<rparr>"

definition PartialMessageStore_cleanup :: "u64 \<Rightarrow> message_store \<Rightarrow> message_store" where
  "PartialMessageStore_cleanup messageIdentifier st =
     st\<lparr>pms_partialMessages := (pms_partialMessages st)(messageIdentifier := None)\<rparr>"

definition deliver :: "block option \<Rightarrow> message_store \<Rightarrow> message_store" where
  "deliver reassembled st = (case reassembled of None \<Rightarrow> st | Some b \<Rightarrow> st\<lparr>pms_delivered := pms_delivered st @ [b]\<rparr>)"

definition messageIdentifier :: "ndnlp_data \<Rightarrow> u64" where
  "messageIdentifier pkt = lp_seq pkt - ucast (lp_fragIndex pkt)"

definition PartialMessageStore_receive :: "int \<Rightarrow> ndnlp_data \<Rightarrow> message_store \<Rightarrow> message_store" where
  "PartialMessageStore_receive now pkt st =
     (if lp_fragCount pkt = 1 then deliver (PartialMessage_reassembleSingle pkt) st
      else
        let i = messageIdentifier pkt;
            pm0 = (case pms_partialMessages st i of None \<Rightarrow> PartialMessage_ctor | Some pm \<Rightarrow> pm);
            pm1 = PartialMessageStore_scheduleCleanup now st pm0;
            pm = snd (PartialMessage_add (lp_fragIndex pkt) (lp_fragCount pkt) (lp_payload pkt) pm1);
            st1 = st\<lparr>pms_partialMessages := (pms_partialMessages st)(i \<mapsto> pm)\<rparr>
        in if PartialMessage_isComplete pm
           then deliver (PartialMessage_reassemble pm) (st1\<lparr>pms_partialMessages := (pms_partialMessages st1)(i := None)\<rparr>)
           else st1)"

section \<open>Encoding a fragment\<close>

definition fragment_value :: "u64 \<Rightarrow> u16 \<Rightarrow> u16 \<Rightarrow> bytes \<Rightarrow> bytes" where
  "fragment_value sq fragIndex fragCount payload = encodeBlock tlv_NdnlpSequence (be_bytes 8 (unat sq)) @
     (if fragCount > 1
      then encodeBlock tlv_NdnlpFragIndex (encodeNonNegativeInteger (ucast fragIndex)) @
           encodeBlock tlv_NdnlpFragCount (encodeNonNegativeInteger (ucast fragCount))
      else []) @ encodeBlock tlv_NdnlpPayload payload"

context encoding_sizes
begin

lemma header_size:
  assumes "fst ne = length v" "invar (snd ne)"
  shows "invar (snd (prepend_header impl t ne))" "fst (prepend_header impl t ne) = length (encodeBlock t v)"
  using assms by (simp_all add: prepend_header_def Let_def case_prod_beta sizes length_encodeBlock)

lemma bytes_header_size:
  assumes "invar e"
  shows "invar (snd (prepend_header impl t (prependByteArray impl xs e)))"
    "fst (prepend_header impl t (prependByteArray impl xs e)) = length (encodeBlock t xs)"
  using header_size [of "prependByteArray impl xs e" xs t] assms by (simp_all add: sizes)

lemma nni_header_size:
  assumes "invar e"
  shows "invar (snd (prepend_header impl t (prependNonNegativeInteger impl n e)))"
    "fst (prepend_header impl t (prependNonNegativeInteger impl n e)) = length (encodeBlock t (encodeNonNegativeInteger n))"
  using header_size [of "prependNonNegativeInteger impl n e" "encodeNonNegativeInteger n" t] assms by (simp_all add: sizes)

lemma fragment_size:
  assumes "invar e"
  shows "invar (snd (Slicer_encodeFragment impl sq i n payload e)) \<and>
    fst (Slicer_encodeFragment impl sq i n payload e) = length (encodeBlock tlv_NdnlpData (fragment_value sq i n payload))"
proof -
  obtain n1 e1 where 1: "prepend_header impl tlv_NdnlpPayload (prependByteArray impl payload e) = (n1, e1)" by fastforce
  have i1: "invar e1" "n1 = length (encodeBlock tlv_NdnlpPayload payload)"
    using bytes_header_size [OF assms, of tlv_NdnlpPayload payload] 1 by simp_all
  obtain m1 f1 where 2: "prepend_header impl tlv_NdnlpFragCount (prependNonNegativeInteger impl (ucast n) e1) = (m1, f1)" by fastforce
  have i2: "invar f1" "m1 = length (encodeBlock tlv_NdnlpFragCount (encodeNonNegativeInteger (ucast n)))"
    using nni_header_size [OF i1(1), of tlv_NdnlpFragCount "ucast n"] 2 by simp_all
  obtain m2 f2 where 3: "prepend_header impl tlv_NdnlpFragIndex (prependNonNegativeInteger impl (ucast i) f1) = (m2, f2)" by fastforce
  have i3: "invar f2" "m2 = length (encodeBlock tlv_NdnlpFragIndex (encodeNonNegativeInteger (ucast i)))"
    using nni_header_size [OF i2(1), of tlv_NdnlpFragIndex "ucast i"] 3 by simp_all
  define e2 where "e2 = (if n > 1 then f2 else e1)"
  have i4: "invar e2" using i1(1) i3(1) by (simp add: e2_def)
  obtain n3 e3 where 4: "prepend_header impl tlv_NdnlpSequence (prependByteArray impl (be_bytes 8 (unat sq)) e2) = (n3, e3)" by fastforce
  have i5: "invar e3" "n3 = length (encodeBlock tlv_NdnlpSequence (be_bytes 8 (unat sq)))"
    using bytes_header_size [OF i4, of tlv_NdnlpSequence "be_bytes 8 (unat sq)"] 4 by simp_all
  let ?n = "n1 + (if n > 1 then m1 + m2 else 0) + n3"
  have "Slicer_encodeFragment impl sq i n payload e = prepend_header impl tlv_NdnlpData (?n, e3)"
    using 4 by (simp add: Slicer_encodeFragment_def 1 2 3 e2_def split: if_splits)
  moreover have "?n = length (fragment_value sq i n payload)" by (simp add: i1 i2 i3 i5 fragment_value_def)
  ultimately show ?thesis using header_size [of "(?n, e3)" "fragment_value sq i n payload" tlv_NdnlpData] i5(1) by simp
qed

end

context encoding_buffer
begin

text \<open>A value has been written before what the buffer held.\<close>

definition written :: "bytes \<Rightarrow> 'e \<Rightarrow> nat \<times> 'e \<Rightarrow> bool" where
  "written v e ne \<longleftrightarrow> fst ne = length v \<and> invar (snd ne) \<and> content (snd ne) = v @ content e"

lemma header_written: "written v e ne \<Longrightarrow> written (encodeBlock t v) e (prepend_header impl t ne)"
  by (simp add: written_def prepend_header_def Let_def case_prod_beta sizes conts encodeBlock_def)

lemma written_step: "written v e (n, e1) \<Longrightarrow> written w e1 (m, e2) \<Longrightarrow> written (w @ v) e (n + m, e2)"
  by (simp add: written_def)

lemma written_bytes: "invar e \<Longrightarrow> written xs e (prependByteArray impl xs e)"
  by (simp add: written_def sizes conts)

lemma written_nni: "invar e \<Longrightarrow> written (encodeNonNegativeInteger n) e (prependNonNegativeInteger impl n e)"
  by (simp add: written_def sizes conts)

lemma fragment_written:
  assumes "invar e"
  shows "written (encodeBlock tlv_NdnlpData (fragment_value sq i n payload)) e (Slicer_encodeFragment impl sq i n payload e)"
proof -
  obtain n1 e1 where 1: "prepend_header impl tlv_NdnlpPayload (prependByteArray impl payload e) = (n1, e1)" by fastforce
  have w1: "written (encodeBlock tlv_NdnlpPayload payload) e (n1, e1)" using header_written [OF written_bytes [OF assms]] 1 by metis
  then have i1: "invar e1" by (simp add: written_def)
  obtain m1 f1 where 2: "prepend_header impl tlv_NdnlpFragCount (prependNonNegativeInteger impl (ucast n) e1) = (m1, f1)" by fastforce
  have w2: "written (encodeBlock tlv_NdnlpFragCount (encodeNonNegativeInteger (ucast n))) e1 (m1, f1)"
    using header_written [OF written_nni [OF i1]] 2 by metis
  then have i2: "invar f1" by (simp add: written_def)
  obtain m2 f2 where 3: "prepend_header impl tlv_NdnlpFragIndex (prependNonNegativeInteger impl (ucast i) f1) = (m2, f2)" by fastforce
  have w3: "written (encodeBlock tlv_NdnlpFragIndex (encodeNonNegativeInteger (ucast i))) f1 (m2, f2)"
    using header_written [OF written_nni [OF i2]] 3 by metis
  define e2 n2 where e2: "e2 = (if n > 1 then f2 else e1)" "n2 = (if n > 1 then m1 + m2 else 0)"
  define opt where "opt = (if n > 1 then encodeBlock tlv_NdnlpFragIndex (encodeNonNegativeInteger (ucast i)) @
    encodeBlock tlv_NdnlpFragCount (encodeNonNegativeInteger (ucast n)) else [])"
  have w4: "written opt e1 (n2, e2)" using written_step [OF w2 w3] i1 by (simp add: e2 opt_def) (simp add: written_def)
  then have i4: "invar e2" by (simp add: written_def)
  obtain n3 e3 where 4: "prepend_header impl tlv_NdnlpSequence (prependByteArray impl (be_bytes 8 (unat sq)) e2) = (n3, e3)" by fastforce
  have w5: "written (encodeBlock tlv_NdnlpSequence (be_bytes 8 (unat sq))) e2 (n3, e3)"
    using header_written [OF written_bytes [OF i4]] 4 by metis
  have "written (fragment_value sq i n payload) e (n1 + n2 + n3, e3)"
    using written_step [OF written_step [OF w1 w4] w5] by (simp add: fragment_value_def opt_def)
  moreover have "Slicer_encodeFragment impl sq i n payload e = prepend_header impl tlv_NdnlpData (n1 + n2 + n3, e3)"
    using 4 by (simp add: Slicer_encodeFragment_def 1 2 3 e2 split: if_splits)
  ultimately show ?thesis using header_written by simp
qed

end

lemma encode_fragment:
  assumes "length (fragment_value sq i n payload) < 2 ^ 64"
  shows "fst (Slicer_encodeFragment EncoderTag sq i n payload (Encoder_ctor k 0)) = length (encodeBlock tlv_NdnlpData (fragment_value sq i n payload))"
    "Encoder_block (snd (Slicer_encodeFragment EncoderTag sq i n payload (Encoder_ctor k 0))) = Inr (mk_block (tlv_NdnlpData, fragment_value sq i n payload))"
  using encoder.fragment_written [of "Encoder_ctor k 0" sq i n payload] assms
  by (simp_all add: encoder.written_def Encoder_block_def Block_ctor_encodeBlock mk_block_def)

section \<open>Decoding a fragment\<close>

lemma unat_ucast_u16 [simp]: "unat (ucast (i :: u16) :: u64) = unat i"
proof -
  have "unat i < 2 ^ 64" using unsigned_less [of i] by (rule less_trans) simp
  then show ?thesis by (simp add: unsigned_ucast_eq take_bit_nat_eq_self)
qed

lemma unat_u16_less: "unat (i :: u16) < 65536"
  using unsigned_less [of i, where ?'a = nat] by simp

lemma ucast_ucast_u16 [simp]: "ucast (ucast (i :: u16) :: u64) = i"
  using unat_u16_less [of i] by (simp add: word_unat_eq_iff unat_ucast_small)

lemma read_nni_u16: "readNonNegativeInteger_block (mk_block (t, encodeNonNegativeInteger n)) = Inr n"
  using readNonNegativeInteger_encode [of n "[]"] by (simp add: readNonNegativeInteger_block_def mk_block_def)

lemma length_nni: "length (encodeNonNegativeInteger n) \<le> 8"
  by (simp add: encodeNonNegativeInteger_def del: be_bytes.simps)

lemma fromBlock_fragment:
  assumes "length payload < 2 ^ 64" "if n > 1 then i < n else n = 1 \<and> i = 0"
  shows "NdnlpData_fromBlock (mk_block (tlv_NdnlpData, fragment_value sq i n payload)) =
    Inr (Some \<lparr>lp_seq = sq, lp_fragIndex = i, lp_fragCount = n, lp_payload = mk_block (tlv_NdnlpPayload, payload)\<rparr>)"
proof -
  let ?els = "(tlv_NdnlpSequence, be_bytes 8 (unat sq)) #
    (if n > 1 then [(tlv_NdnlpFragIndex, encodeNonNegativeInteger (ucast i)), (tlv_NdnlpFragCount, encodeNonNegativeInteger (ucast n))] else []) @
    [(tlv_NdnlpPayload, payload)]"
  have "length (encodeNonNegativeInteger m) < 2 ^ 64" for m using length_nni [of m] by (rule le_less_trans) simp
  then have "Block_parse (concat (map (\<lambda>(t, v). encodeBlock t v) ?els)) = Inr (map mk_block ?els)"
    using assms(1) unfolding mk_block_def by (intro Block_parse_encode) auto
  moreover have "concat (map (\<lambda>(t, v). encodeBlock t v) ?els) = fragment_value sq i n payload" by (simp add: fragment_value_def)
  ultimately have p: "Block_parse (fragment_value sq i n payload) = Inr (map mk_block ?els)" by simp
  have b: "of_nat (be_val (be_bytes 8 (unat sq))) = sq" by (rule of_nat_be_val_be_bytes) simp
  have u: "\<not> (max_u16 < ucast (j :: u16))" for j using unat_u16_less [of j] by (simp add: max_u16_def word_less_nat_alt)
  have f: "NdnlpData_fragment sq (mk_block (tlv_NdnlpFragIndex, encodeNonNegativeInteger (ucast i)))
      (mk_block (tlv_NdnlpFragCount, encodeNonNegativeInteger (ucast n))) pl =
    Inr (Some \<lparr>lp_seq = sq, lp_fragIndex = i, lp_fragCount = n, lp_payload = pl\<rparr>)" if "n > 1" for pl
    using that assms(2) by (simp add: NdnlpData_fragment_def read_nni_u16 u) (simp add: mk_block_def)
  have t: "blk_type (mk_block (a, v)) = a" "blk_payload (mk_block (a, v)) = v" for a v by (simp_all add: mk_block_def)
  show ?thesis
  proof (cases "n > 1")
    case True
    then show ?thesis using p f b by (simp add: NdnlpData_fromBlock_def t Let_def)
  next
    case False
    then show ?thesis using p b assms(2) by (simp add: NdnlpData_fromBlock_def t Let_def)
  qed
qed

section \<open>Slicing\<close>

abbreviation var_size :: "nat \<Rightarrow> nat" where
  "var_size n \<equiv> sizeOfVarNumber (of_nat n)"

text \<open>What a fragment adds to its payload at most, in frames of a given size.\<close>

definition ndnlp_overhead :: "nat \<Rightarrow> nat" where
  "ndnlp_overhead mtu = 20 + var_size mtu + var_size (19 + var_size mtu + mtu)"

lemma var_size_mono: "a \<le> b \<Longrightarrow> b < 2 ^ 64 \<Longrightarrow> var_size a \<le> var_size b"
  by (auto simp: sizeOfVarNumber_def word_less_nat_alt word_le_nat_alt unat_of_nat)

lemma var_size_le: "sizeOfVarNumber n \<le> 9"
  by (simp add: sizeOfVarNumber_def)

lemma type_size: "sizeOfVarNumber (ucast tlv_NdnlpData) = 1" "sizeOfVarNumber (ucast tlv_NdnlpSequence) = 1"
  "sizeOfVarNumber (ucast tlv_NdnlpFragIndex) = 1" "sizeOfVarNumber (ucast tlv_NdnlpFragCount) = 1" "sizeOfVarNumber (ucast tlv_NdnlpPayload) = 1"
  by (simp_all add: ndnlp_types sizeOfVarNumber_def)

lemma var_size_small: "n < 253 \<Longrightarrow> var_size n = 1"
  by (simp add: sizeOfVarNumber_def word_less_nat_alt unat_of_nat)

lemma length_fragment_value:
  "length (fragment_value sq i n payload) = 11 + var_size (length payload) + length payload +
     (if n > 1 then 4 + length (encodeNonNegativeInteger (ucast i)) + length (encodeNonNegativeInteger (ucast n)) else 0)"
proof -
  have "var_size (length (encodeNonNegativeInteger m)) = 1" for m using length_nni [of m] by (simp add: var_size_small)
  moreover have "sizeOfVarNumber 8 = 1" by (simp add: sizeOfVarNumber_def)
  ultimately show ?thesis by (simp add: fragment_value_def length_encodeBlock type_size)
qed

lemma length_nni_u16: "length (encodeNonNegativeInteger (ucast (i :: u16))) = (if i \<le> 255 then 1 else 2)"
  using unat_u16_less [of i] by (simp add: encodeNonNegativeInteger_def word_le_nat_alt del: be_bytes.simps)

lemma unat_of_nat_u64: "n < 2 ^ 64 \<Longrightarrow> unat (of_nat n :: u64) = n"
  by (simp add: unat_of_nat)

lemma overhead_correct:
  assumes "unat mtu < 2 ^ 32" "ndnlp_overhead (unat mtu) \<le> unat mtu"
  shows "unat (Slicer_estimateOverhead mtu) = unat mtu - ndnlp_overhead (unat mtu)"
proof -
  let ?m = "unat mtu"
  have l: "length (fragment_value (- 1) 65534 65535 (replicate ?m 0)) = 19 + var_size ?m + ?m"
    using length_nni_u16 [of 65534] length_nni_u16 [of 65535] unfolding length_fragment_value by simp
  have "fst (Slicer_encodeFragment EstimatorTag (- 1) 65534 65535 (replicate ?m 0) ()) = ?m + ndnlp_overhead ?m"
    using estimator.fragment_size [OF TrueI, THEN conjunct2, of "- 1" 65534 65535 "replicate ?m 0" "()"] unfolding length_encodeBlock type_size l ndnlp_overhead_def
    by linarith
  moreover have "of_nat (?m + ndnlp_overhead ?m) - mtu = (of_nat (ndnlp_overhead ?m) :: u64)" by simp
  ultimately have "Slicer_estimateOverhead mtu = mtu - of_nat (ndnlp_overhead ?m)" by (simp add: Slicer_estimateOverhead_def Let_def)
  also have "\<dots> = of_nat (?m - ndnlp_overhead ?m)" using assms(2) by (simp add: of_nat_diff)
  finally have "Slicer_estimateOverhead mtu = of_nat (?m - ndnlp_overhead ?m)" .
  then show ?thesis using unat_of_nat_u64 [of "?m - ndnlp_overhead ?m"] assms(1) by (simp del: of_nat_diff)
qed

lemma fragment_fits:
  assumes "mtu < 2 ^ 32" "ndnlp_overhead mtu + length payload \<le> mtu"
  shows "length (encodeBlock tlv_NdnlpData (fragment_value sq i n payload)) \<le> mtu"
proof -
  have l: "length (fragment_value sq i n payload) \<le> 19 + var_size mtu + length payload"
    using var_size_mono [of "length payload" mtu] assms length_nni_u16 [of i] length_nni_u16 [of n] by (simp add: length_fragment_value)
  have "var_size (length (fragment_value sq i n payload)) \<le> var_size (19 + var_size mtu + mtu)"
    using l assms var_size_le [of "of_nat mtu"] by (intro var_size_mono) simp_all
  then show ?thesis using l assms(2) unfolding length_encodeBlock type_size ndnlp_overhead_def by linarith
qed

text \<open>The pieces of a packet.\<close>

definition pieces :: "nat \<Rightarrow> bytes \<Rightarrow> nat" where
  "pieces m p = length p div m + (if length p mod m = 0 then 0 else 1)"

definition piece :: "nat \<Rightarrow> bytes \<Rightarrow> nat \<Rightarrow> bytes" where
  "piece m p i = take m (drop (i * m) p)"

lemma pieces_le: "0 < m \<Longrightarrow> length p \<le> pieces m p * m"
proof -
  assume "0 < m"
  then have "length p mod m \<le> (if length p mod m = 0 then 0 else 1) * m" by (simp add: less_imp_le)
  then have "length p div m * m + length p mod m \<le> length p div m * m + (if length p mod m = 0 then 0 else 1) * m" by (rule add_left_mono)
  then show ?thesis unfolding pieces_def add_mult_distrib div_mult_mod_eq .
qed

lemma pieces_less: "0 < m \<Longrightarrow> i < pieces m p \<Longrightarrow> i * m < length p"
proof -
  assume m: "0 < m" and i: "i < pieces m p"
  have "i * m \<le> length p div m * m" using i by (intro mult_le_mono1) (auto simp: pieces_def split: if_splits)
  moreover have "length p div m * m + length p mod m = length p" by simp
  moreover have "i * m < length p div m * m \<or> length p mod m \<noteq> 0" using m i by (auto simp: pieces_def split: if_splits)
  ultimately show ?thesis by linarith
qed

lemma concat_pieces: "concat (map (piece m p) [0 ..< k]) = take (k * m) p"
proof (induction k)
  case (Suc k)
  then show ?case by (simp add: piece_def add.commute [of m] take_add)
qed simp

definition slicer_ok :: "slicer \<Rightarrow> bool" where
  "slicer_ok sl \<longleftrightarrow> unat (sl_mtu sl) < 2 ^ 32 \<and> ndnlp_overhead (unat (sl_mtu sl)) < unat (sl_mtu sl) \<and>
     unat (sl_maxPayload sl) = unat (sl_mtu sl) - ndnlp_overhead (unat (sl_mtu sl))"

lemma Slicer_ctor_ok: "unat mtu < 2 ^ 32 \<Longrightarrow> ndnlp_overhead (unat mtu) < unat mtu \<Longrightarrow> slicer_ok (Slicer_ctor mtu)"
  by (simp add: slicer_ok_def Slicer_ctor_def overhead_correct)

definition slice_of :: "slicer \<Rightarrow> bytes \<Rightarrow> nat \<Rightarrow> ndnlp_data" where
  "slice_of sl p i = \<lparr>lp_seq = sl_next sl + of_nat i, lp_fragIndex = of_nat i, lp_fragCount = of_nat (pieces (unat (sl_maxPayload sl)) p),
     lp_payload = mk_block (tlv_NdnlpPayload, piece (unat (sl_maxPayload sl)) p i)\<rparr>"

definition slice_wire :: "slicer \<Rightarrow> bytes \<Rightarrow> nat \<Rightarrow> block" where
  "slice_wire sl p i = mk_block (tlv_NdnlpData, fragment_value (sl_next sl + of_nat i) (of_nat i)
     (of_nat (pieces (unat (sl_maxPayload sl)) p)) (piece (unat (sl_maxPayload sl)) p i))"

lemma unat_of_nat_u16: "i < 65536 \<Longrightarrow> unat (of_nat i :: u16) = i"
  by (simp add: unat_of_nat)

lemma ucast_of_nat_u16: "i < 65536 \<Longrightarrow> ucast (of_nat i :: u16) = (of_nat i :: u64)"
  by (simp add: word_unat_eq_iff unat_of_nat_u16 unat_of_nat)

lemma length_piece: "length (piece m p i) \<le> m"
  by (simp add: piece_def)

lemma fragment_correct:
  assumes "slicer_ok sl" "length p < 2 ^ 64" "i < pieces (unat (sl_maxPayload sl)) p" "pieces (unat (sl_maxPayload sl)) p < 65536"
  shows "Slicer_fragment sl \<lparr>sb_start = sl_next sl, sb_count = of_nat (pieces (unat (sl_maxPayload sl)) p)\<rparr> (of_nat (pieces (unat (sl_maxPayload sl)) p)) p
    (of_nat i) = Some (slice_wire sl p i)"
proof -
  let ?m = "unat (sl_maxPayload sl)"
  have m: "0 < ?m" "?m \<le> unat (sl_mtu sl)" using assms(1) by (simp_all add: slicer_ok_def)
  have o: "i * ?m < length p" by (rule pieces_less [OF m(1) assms(3)])
  have off: "ucast (of_nat i :: u16) * sl_maxPayload sl = of_nat (i * ?m)"
    using assms(3,4) by (simp add: ucast_of_nat_u16)
  have u: "unat (of_nat (i * ?m) :: u64) = i * ?m" using o assms(2) by (intro unat_of_nat_u64) linarith
  have sz: "unat (of_nat (length p) - of_nat (i * ?m) :: u64) = length p - i * ?m"
  proof -
    have "(of_nat (length p) - of_nat (i * ?m) :: u64) = of_nat (length p - i * ?m)" using o by (intro of_nat_diff [symmetric]) simp
    moreover have "unat (of_nat (length p - i * ?m) :: u64) = length p - i * ?m" using assms(2) by (intro unat_of_nat_u64) linarith
    ultimately show ?thesis by (rule ssubst)
  qed
  have "unat (min (sl_maxPayload sl) (of_nat (length p) - of_nat (i * ?m))) = min ?m (length p - i * ?m)"
    using sz by (simp add: min_def word_le_nat_alt)
  then have pl: "take (unat (min (sl_maxPayload sl) (of_nat (length p) - of_nat (i * ?m)))) (drop (i * ?m) p) = piece ?m p i"
    by (simp add: piece_def min_def split: if_splits)
  have fit: "length (encodeBlock tlv_NdnlpData (fragment_value sq j n (piece ?m p i))) \<le> unat (sl_mtu sl)" for sq j n
    by (intro fragment_fits) (use assms(1) length_piece [of ?m p i] in \<open>unfold slicer_ok_def, linarith+\<close>)
  have v: "length (fragment_value sq j n (piece ?m p i)) < 2 ^ 64" for sq j n
  proof -
    have "length (fragment_value sq j n (piece ?m p i)) \<le> unat (sl_mtu sl)" using fit [of sq j n] unfolding length_encodeBlock by linarith
    also have "\<dots> < 2 ^ 64" by simp
    finally show ?thesis .
  qed
  have sq: "SequenceBlock_at \<lparr>sb_start = sl_next sl, sb_count = of_nat (pieces ?m p)\<rparr> (ucast (of_nat i :: u16)) = Some (sl_next sl + of_nat i)"
    using assms(3,4) by (simp add: SequenceBlock_at_def ucast_of_nat_u16 word_le_nat_alt unat_of_nat_u64)
  show ?thesis
    unfolding Slicer_fragment_def Let_def off u pl sq option.case case_prod_beta encode_fragment [OF v] slice_wire_def using fit by simp
qed

lemma those_map_Some: "(\<And>x. x \<in> set xs \<Longrightarrow> f x = Some (g x)) \<Longrightarrow> those (map f xs) = Some (map g xs)"
  by (induction xs) auto

lemma slice_correct:
  assumes "slicer_ok sl" "length p < 2 ^ 64" "pieces (unat (sl_maxPayload sl)) p < 65536"
  shows "Slicer_slice p sl = Some (map (slice_wire sl p) [0 ..< pieces (unat (sl_maxPayload sl)) p],
    sl\<lparr>sl_next := sl_next sl + of_nat (pieces (unat (sl_maxPayload sl)) p)\<rparr>)"
proof -
  let ?m = "unat (sl_maxPayload sl)" and ?n = "of_nat (length p) :: u64"
  have m: "0 < ?m" "sl_maxPayload sl \<noteq> 0" using assms(1) by (auto simp: slicer_ok_def)
  have n: "unat ?n = length p" using assms(2) by (simp add: unat_of_nat)
  have "?n div sl_maxPayload sl = of_nat (length p div ?m)" "?n mod sl_maxPayload sl = of_nat (length p mod ?m)"
    using n by (simp_all add: word_arith_nat_div word_arith_nat_mod)
  moreover have "(of_nat (length p mod ?m) :: u64) = 0 \<longleftrightarrow> length p mod ?m = 0"
  proof -
    have "length p mod ?m < 2 ^ 64" using assms(2) by (rule le_less_trans [OF mod_less_eq_dividend])
    then show ?thesis by (simp add: word_unat_eq_iff unat_of_nat)
  qed
  ultimately have k: "?n div sl_maxPayload sl + (if ?n mod sl_maxPayload sl = 0 then 0 else 1) = of_nat (pieces ?m p)"
    by (simp add: pieces_def)
  have c: "ucast (of_nat (pieces ?m p) :: u64) = (of_nat (pieces ?m p) :: u16)" using assms(3) by (simp add: word_unat_eq_iff unat_ucast_small unat_of_nat)
  have f: "those (map (\<lambda>i. Slicer_fragment sl \<lparr>sb_start = sl_next sl, sb_count = of_nat (pieces ?m p)\<rparr> (of_nat (pieces ?m p)) p (of_nat i))
      [0 ..< pieces ?m p]) =
      Some (map (slice_wire sl p) [0 ..< pieces ?m p])"
    using fragment_correct [OF assms(1,2) _ assms(3)] by (intro those_map_Some) simp
  show ?thesis
    unfolding Slicer_slice_def Let_def k c SequenceGenerator_nextBlock_def using m f assms(3) by (simp add: unat_of_nat_u16 ucast_of_nat_u16)
qed

section \<open>Reassembly\<close>

text \<open>Some of the pieces of a message have been received.\<close>

definition pm_of :: "nat \<Rightarrow> (nat \<Rightarrow> block) \<Rightarrow> nat set \<Rightarrow> partial_message \<Rightarrow> bool" where
  "pm_of k f R pm \<longleftrightarrow> pm_received pm = card R \<and> pm_totalLength pm = (\<Sum>i \<in> R. length (blk_payload (f i))) \<and> R \<subseteq> {..<k} \<and>
     (R \<noteq> {} \<longrightarrow> pm_fragCount pm = k \<and> pm_payloads pm = map (\<lambda>i. if i \<in> R then Some (f i) else None) [0 ..< k]) \<and>
     (R = {} \<longrightarrow> pm_payloads pm = [])"

lemma pm_of_ctor: "pm_of k f {} PartialMessage_ctor"
  by (simp add: pm_of_def PartialMessage_ctor_def)

lemma pm_of_expiry [simp]: "pm_of k f R (pm\<lparr>pm_expiry := t\<rparr>) \<longleftrightarrow> pm_of k f R pm"
  by (simp add: pm_of_def)

lemma pm_of_add:
  assumes "pm_of k f R pm" "i < k" "k < 65536"
  shows "pm_of k f (insert i R) (snd (PartialMessage_add (of_nat i) (of_nat k) (f i) pm))"
proof -
  have fin: "finite R" using assms(1) finite_subset by (auto simp: pm_of_def)
  have u: "unat (of_nat i :: u16) = i" "unat (of_nat k :: u16) = k" using assms(2,3) by (simp_all add: unat_of_nat_u16)
  define pm1 where "pm1 = (if pm_received pm = 0 then pm\<lparr>pm_fragCount := k, pm_payloads := vec_resize k None (pm_payloads pm)\<rparr> else pm)"
  have r: "pm_received pm = 0 \<longleftrightarrow> R = {}" using assms(1) fin by (simp add: pm_of_def)
  have pm1: "pm_fragCount pm1 = k" "pm_payloads pm1 = map (\<lambda>j. if j \<in> R then Some (f j) else None) [0 ..< k]"
    "pm_received pm1 = card R" "pm_totalLength pm1 = (\<Sum>j \<in> R. length (blk_payload (f j)))" "R \<subseteq> {..<k}"
    using assms(1) r by (auto simp: pm1_def pm_of_def vec_resize_def map_replicate_const)
  have add: "snd (PartialMessage_add (of_nat i) (of_nat k) (f i) pm) =
      (if i \<in> R then pm1 else pm1\<lparr>pm_payloads := (pm_payloads pm1)[i := Some (f i)], pm_received := card R + 1,
         pm_totalLength := pm_totalLength pm1 + length (blk_payload (f i))\<rparr>)"
    unfolding PartialMessage_add_def Let_def u pm1_def [symmetric] using pm1 assms(2) by simp
  show ?thesis
  proof (cases "i \<in> R")
    case True
    then have "insert i R = R" by blast
    then show ?thesis using True pm1 by (auto simp: add pm_of_def)
  next
    case False
    have "(pm_payloads pm1)[i := Some (f i)] = map (\<lambda>j. if j \<in> insert i R then Some (f j) else None) [0 ..< k]"
      unfolding pm1(2) using assms(2) by (auto simp: list_eq_iff_nth_eq nth_list_update)
    then show ?thesis using False pm1 fin assms(2) by (auto simp: add pm_of_def)
  qed
qed

lemma pm_of_complete:
  assumes "pm_of k f R pm" "R \<noteq> {}"
  shows "PartialMessage_isComplete pm \<longleftrightarrow> R = {..<k}"
    and "R = {..<k} \<Longrightarrow> PartialMessage_reassemble pm = Block_fromBuffer (concat (map (\<lambda>i. blk_payload (f i)) [0 ..< k]))"
proof -
  have "R \<subseteq> {..<k}" "pm_received pm = card R" "pm_fragCount pm = k" using assms by (simp_all add: pm_of_def)
  then show "PartialMessage_isComplete pm \<longleftrightarrow> R = {..<k}"
    using card_subset_eq [of "{..<k}" R] by (auto simp: PartialMessage_isComplete_def)
  assume "R = {..<k}"
  then have "pm_payloads pm = map (\<lambda>i. Some (f i)) [0 ..< k]" using assms by (simp add: pm_of_def)
  then show "PartialMessage_reassemble pm = Block_fromBuffer (concat (map (\<lambda>i. blk_payload (f i)) [0 ..< k]))"
    by (simp add: PartialMessage_reassemble_def comp_def)
qed

text \<open>A packet arrives, or the time for a message is over.\<close>

datatype link_event = Arrive int ndnlp_data | Expire u64

fun link_step :: "link_event \<Rightarrow> message_store \<Rightarrow> message_store" where
  "link_step (Arrive now pkt) st = PartialMessageStore_receive now pkt st"
| "link_step (Expire i) st = PartialMessageStore_cleanup i st"

text \<open>The events that concern a message that is sent in more than one piece.\<close>

fun concerns :: "u64 \<Rightarrow> link_event \<Rightarrow> bool" where
  "concerns m (Arrive now pkt) \<longleftrightarrow> messageIdentifier pkt = m \<and> lp_fragCount pkt \<noteq> 1"
| "concerns m (Expire i) \<longleftrightarrow> i = m"

lemma deliver_messages [simp]: "pms_partialMessages (deliver r st) = pms_partialMessages st"
  by (simp add: deliver_def split: option.split)

lemma link_step_other: "\<not> concerns m ev \<Longrightarrow> pms_partialMessages (link_step ev st) m = pms_partialMessages st m"
  by (cases ev) (auto simp: PartialMessageStore_receive_def PartialMessageStore_cleanup_def Let_def)

lemma receive_piece:
  assumes "pms_partialMessages st m = None \<and> R = {} \<or> (\<exists>pm. pms_partialMessages st m = Some pm \<and> pm_of k f R pm \<and> R \<noteq> {})"
    and "messageIdentifier pkt = m" "lp_fragIndex pkt = of_nat i" "lp_fragCount pkt = of_nat k" "lp_payload pkt = f i" "i < k" "1 < k" "k < 65536"
  shows "insert i R \<noteq> {..<k} \<Longrightarrow> (\<exists>pm. pms_partialMessages (PartialMessageStore_receive now pkt st) m = Some pm \<and> pm_of k f (insert i R) pm) \<and>
      pms_delivered (PartialMessageStore_receive now pkt st) = pms_delivered st"
    and "insert i R = {..<k} \<Longrightarrow> pms_partialMessages (PartialMessageStore_receive now pkt st) m = None \<and>
      pms_delivered (PartialMessageStore_receive now pkt st) =
        pms_delivered st @ (case Block_fromBuffer (concat (map (\<lambda>i. blk_payload (f i)) [0 ..< k])) of None \<Rightarrow> [] | Some b \<Rightarrow> [b])"
proof -
  define pm0 where "pm0 = (case pms_partialMessages st m of None \<Rightarrow> PartialMessage_ctor | Some pm \<Rightarrow> pm)"
  define pm where "pm = snd (PartialMessage_add (of_nat i) (of_nat k) (f i) (PartialMessageStore_scheduleCleanup now st pm0))"
  have "pm_of k f R pm0" using assms(1) pm_of_ctor by (auto simp: pm0_def)
  then have pm: "pm_of k f (insert i R) pm" unfolding pm_def using assms(6,8) by (intro pm_of_add) (simp_all add: PartialMessageStore_scheduleCleanup_def)
  have "(of_nat k :: u16) \<noteq> 1" using assms(7,8) unat_of_nat_u16 [of k] by auto
  then have r: "PartialMessageStore_receive now pkt st = (if PartialMessage_isComplete pm
      then deliver (PartialMessage_reassemble pm) (st\<lparr>pms_partialMessages := (pms_partialMessages st)(m := None)\<rparr>)
      else st\<lparr>pms_partialMessages := (pms_partialMessages st)(m \<mapsto> pm)\<rparr>)"
    using assms(2-5) by (simp add: PartialMessageStore_receive_def Let_def pm0_def [symmetric] pm_def [symmetric])
  note c = pm_of_complete [OF pm insert_not_empty]
  show "(\<exists>pm. pms_partialMessages (PartialMessageStore_receive now pkt st) m = Some pm \<and> pm_of k f (insert i R) pm) \<and>
      pms_delivered (PartialMessageStore_receive now pkt st) = pms_delivered st" if "insert i R \<noteq> {..<k}"
    using that c(1) pm by (simp add: r)
  show "pms_partialMessages (PartialMessageStore_receive now pkt st) m = None \<and>
      pms_delivered (PartialMessageStore_receive now pkt st) =
        pms_delivered st @ (case Block_fromBuffer (concat (map (\<lambda>i. blk_payload (f i)) [0 ..< k])) of None \<Rightarrow> [] | Some b \<Rightarrow> [b])"
    if "insert i R = {..<k}"
    using that c by (simp add: r deliver_def split: option.split)
qed

section \<open>Messages do not interfere\<close>

definition same_except :: "u64 \<Rightarrow> message_store \<Rightarrow> message_store \<Rightarrow> bool" where
  "same_except m st st' \<longleftrightarrow> (\<forall>j. j \<noteq> m \<longrightarrow> pms_partialMessages st j = pms_partialMessages st' j) \<and>
     pms_idleDuration st = pms_idleDuration st' \<and> pms_delivered st = pms_delivered st'"

lemma same_except_other: "\<not> concerns m ev \<Longrightarrow> same_except m st st' \<Longrightarrow> same_except m (link_step ev st) (link_step ev st')"
  by (cases ev) (auto simp: same_except_def PartialMessageStore_receive_def PartialMessageStore_cleanup_def Let_def deliver_def
      PartialMessageStore_scheduleCleanup_def split: option.split)

lemma same_except_piece:
  "messageIdentifier pkt = m \<Longrightarrow> lp_fragCount pkt \<noteq> 1 \<Longrightarrow> pms_delivered (PartialMessageStore_receive now pkt st) = pms_delivered st \<Longrightarrow>
    same_except m st st' \<Longrightarrow> same_except m (PartialMessageStore_receive now pkt st) st'"
  by (auto simp: same_except_def PartialMessageStore_receive_def Let_def deliver_def split: option.split)

text \<open>The pieces \<open>g 0, \<dots>, g (k - 1)\<close> of a message, and which of them have arrived.\<close>

definition pieces_ok :: "u64 \<Rightarrow> nat \<Rightarrow> (nat \<Rightarrow> ndnlp_data) \<Rightarrow> bool" where
  "pieces_ok m k g \<longleftrightarrow> 1 < k \<and> k < 65536 \<and>
     (\<forall>i < k. messageIdentifier (g i) = m \<and> lp_fragIndex (g i) = of_nat i \<and> lp_fragCount (g i) = of_nat k)"

definition arrived :: "nat \<Rightarrow> (nat \<Rightarrow> ndnlp_data) \<Rightarrow> link_event list \<Rightarrow> nat set" where
  "arrived k g evs = {i. i < k \<and> (\<exists>now. Arrive now (g i) \<in> set evs)}"

lemma pieces_count: "pieces_ok m k g \<Longrightarrow> i < k \<Longrightarrow> lp_fragCount (g i) \<noteq> 1"
  using unat_of_nat_u16 [of k] by (auto simp: pieces_ok_def)

lemma pieces_inj: "pieces_ok m k g \<Longrightarrow> i < k \<Longrightarrow> j < k \<Longrightarrow> g i = g j \<Longrightarrow> i = j"
proof -
  assume a: "pieces_ok m k g" "i < k" "j < k" "g i = g j"
  have "of_nat i = lp_fragIndex (g i)" "of_nat j = lp_fragIndex (g j)" "k < 65536" using a(1-3) by (simp_all add: pieces_ok_def)
  note k = this
  have "unat (of_nat i :: u16) = unat (of_nat j :: u16)" unfolding k(1,2) a(4) ..
  moreover have "unat (of_nat i :: u16) = i" "unat (of_nat j :: u16) = j" using a(2,3) k(3) by (simp_all add: unat_of_nat_u16)
  ultimately show "i = j" by linarith
qed

lemma arrived_snoc:
  assumes "pieces_ok m k g"
  shows "i < k \<Longrightarrow> arrived k g (evs @ [Arrive now (g i)]) = insert i (arrived k g evs)"
    and "\<not> concerns m ev \<Longrightarrow> arrived k g (evs @ [ev]) = arrived k g evs"
proof -
  show "arrived k g (evs @ [Arrive now (g i)]) = insert i (arrived k g evs)" if "i < k"
    using that pieces_inj [OF assms] by (auto simp: arrived_def)
  show "arrived k g (evs @ [ev]) = arrived k g evs" if "\<not> concerns m ev"
  proof -
    have "ev \<noteq> Arrive now (g i)" if h: "i < k" for i now
    proof
      assume "ev = Arrive now (g i)"
      then show False using h assms pieces_count [OF assms h] \<open>\<not> concerns m ev\<close> by (simp add: pieces_ok_def)
    qed
    then show ?thesis by (auto simp: arrived_def)
  qed
qed

lemma arrived_mono: "arrived k g evs \<subseteq> arrived k g (evs @ es)"
  by (auto simp: arrived_def)

lemma arrived_sub: "arrived k g evs \<subseteq> {..<k}"
  by (auto simp: arrived_def)

lemma pieces_pending:
  assumes "pieces_ok m k g" "\<forall>ev \<in> set evs. concerns m ev \<longrightarrow> (\<exists>now. \<exists>i < k. ev = Arrive now (g i))"
    and "pms_partialMessages st m = None" "arrived k g evs \<noteq> {..<k}"
  defines "st' \<equiv> fold link_step evs st"
  shows "(pms_partialMessages st' m = None \<and> arrived k g evs = {} \<or>
      (\<exists>pm. pms_partialMessages st' m = Some pm \<and> pm_of k (\<lambda>i. lp_payload (g i)) (arrived k g evs) pm \<and> arrived k g evs \<noteq> {})) \<and>
    same_except m st' (fold link_step (filter (\<lambda>ev. \<not> concerns m ev) evs) st)"
  unfolding st'_def using assms(2,4)
proof (induction evs rule: rev_induct)
  case Nil
  then show ?case using assms(3) by (simp add: arrived_def same_except_def)
next
  case (snoc ev evs)
  have n: "arrived k g evs \<noteq> {..<k}" using snoc.prems(2) arrived_mono [of k g evs "[ev]"] arrived_sub [of k g "evs @ [ev]"] by auto
  have p: "\<forall>ev \<in> set evs. concerns m ev \<longrightarrow> (\<exists>now. \<exists>i < k. ev = Arrive now (g i))" using snoc.prems(1) by simp
  note IH = snoc.IH [OF p n]
  show ?case
  proof (cases "concerns m ev")
    case False
    then show ?thesis using IH same_except_other link_step_other [OF False] arrived_snoc(2) [OF assms(1) False] by simp
  next
    case True
    then obtain now i where i: "i < k" "ev = Arrive now (g i)" using snoc.prems(1) by auto
    note a = arrived_snoc(1) [OF assms(1) i(1), of evs now]
    have k: "messageIdentifier (g i) = m" "lp_fragIndex (g i) = of_nat i" "lp_fragCount (g i) = of_nat k" "1 < k" "k < 65536"
      using assms(1) i(1) by (auto simp: pieces_ok_def)
    have "insert i (arrived k g evs) \<noteq> {..<k}" using snoc.prems(2) a i(2) by simp
    note r = receive_piece(1) [OF IH [THEN conjunct1] k(1-3) refl i(1) k(4,5) this, of now]
    have "same_except m (PartialMessageStore_receive now (g i) (fold link_step evs st)) (fold link_step (filter (\<lambda>ev. \<not> concerns m ev) evs) st)"
      using IH r by (intro same_except_piece [OF k(1) pieces_count [OF assms(1) i(1)]]) simp_all
    then show ?thesis using r True a by (simp add: i(2))
  qed
qed

lemma pieces_complete:
  assumes "pieces_ok m k g" "\<forall>ev \<in> set evs. concerns m ev \<longrightarrow> (\<exists>now. \<exists>i < k. ev = Arrive now (g i))"
    and "pms_partialMessages st m = None" "arrived k g evs \<noteq> {..<k}" "i < k" "insert i (arrived k g evs) = {..<k}"
    and "Block_fromBuffer (concat (map (\<lambda>i. blk_payload (lp_payload (g i))) [0 ..< k])) = Some b"
    and "st' = fold link_step (evs @ [Arrive now (g i)]) st"
  shows "pms_delivered st' = pms_delivered (fold link_step (filter (\<lambda>ev. \<not> concerns m ev) evs) st) @ [b] \<and> pms_partialMessages st' m = None"
proof -
  note p = pieces_pending [OF assms(1-4)]
  have k: "messageIdentifier (g i) = m" "lp_fragIndex (g i) = of_nat i" "lp_fragCount (g i) = of_nat k" "1 < k" "k < 65536"
    using assms(1,5) by (auto simp: pieces_ok_def)
  show ?thesis
    using receive_piece(2) [OF p [THEN conjunct1] k(1-3) refl assms(5) k(4,5) assms(6), of now] p assms(7)
    by (simp add: assms(8) same_except_def)
qed

section \<open>From the slicer to the store\<close>

lemma slice_fromBlock:
  assumes "i < pieces (unat (sl_maxPayload sl)) p" "pieces (unat (sl_maxPayload sl)) p < 65536"
  shows "NdnlpData_fromBlock (slice_wire sl p i) = Inr (Some (slice_of sl p i))"
proof -
  let ?k = "pieces (unat (sl_maxPayload sl)) p"
  have "length (piece (unat (sl_maxPayload sl)) p i) < 2 ^ 64"
    by (rule le_less_trans [OF length_piece]) simp
  moreover have "if 1 < (of_nat ?k :: u16) then (of_nat i :: u16) < of_nat ?k else (of_nat ?k :: u16) = 1 \<and> (of_nat i :: u16) = 0"
    using assms unat_of_nat_u16 [of ?k] unat_of_nat_u16 [of i] by (auto simp: word_less_nat_alt word_unat_eq_iff)
  ultimately show ?thesis unfolding slice_wire_def slice_of_def by (rule fromBlock_fragment)
qed

lemma slices_ok:
  assumes "1 < pieces (unat (sl_maxPayload sl)) p" "pieces (unat (sl_maxPayload sl)) p < 65536"
  shows "pieces_ok (sl_next sl) (pieces (unat (sl_maxPayload sl)) p) (slice_of sl p)"
  using assms by (auto simp: pieces_ok_def slice_of_def messageIdentifier_def ucast_of_nat_u16)

lemma payload_mk_block [simp]: "blk_payload (mk_block (t, v)) = v"
  by (simp add: mk_block_def)

lemma slices_payload:
  assumes "slicer_ok sl"
  shows "concat (map (\<lambda>i. blk_payload (lp_payload (slice_of sl p i))) [0 ..< pieces (unat (sl_maxPayload sl)) p]) = p"
proof -
  have "0 < unat (sl_maxPayload sl)" using assms by (simp add: slicer_ok_def)
  from pieces_le [OF this, of p] show ?thesis
    using concat_pieces [of "unat (sl_maxPayload sl)" p] by (simp add: slice_of_def)
qed

lemma fromBuffer_encodeBlock: "length v < 2 ^ 64 \<Longrightarrow> Block_fromBuffer (encodeBlock t v) = Some (mk_block (t, v))"
  by (simp add: Block_fromBuffer_def encodeBlock_def readType_write readVarNumber_write unat_of_nat mk_block_def)

lemma reassembleSingle_encodeBlock:
  "length v < 2 ^ 64 \<Longrightarrow> blk_payload (lp_payload pkt) = encodeBlock t v \<Longrightarrow> PartialMessage_reassembleSingle pkt = Some (mk_block (t, v))"
  by (simp add: PartialMessage_reassembleSingle_def Block_blockFromValue_def) (simp add: encodeBlock_def unat_of_nat mk_block_def)

end
