(* ===== verification/DataWire.thy ===== *)
theory DataWire
  imports Ndnlp
begin

text \<open>
  The wire format of Data: MetaInfo (\<open>ndn-cxx/src/meta-info.cpp\<close>), SignatureInfo and Signature
  (\<open>signature-info.cpp\<close>, \<open>signature.cpp\<close>) and Data (\<open>data.cpp\<close>). A \<open>Block\<close> without
  wire has an empty \<open>blk_wire\<close>. \<open>m_wire\<close> of SignatureInfo and Data is kept, because later operations read
  it; that of MetaInfo is not, because Data encodes its MetaInfo through the template, which ignores it.
  A \<open>wireDecode\<close> takes the object it overwrites, since some members keep what they had.
\<close>

definition tlv_MetaInfo :: u32 where "tlv_MetaInfo = 20"
definition tlv_Content :: u32 where "tlv_Content = 21"
definition tlv_SignatureInfo :: u32 where "tlv_SignatureInfo = 22"
definition tlv_SignatureValue :: u32 where "tlv_SignatureValue = 23"
definition tlv_ContentType :: u32 where "tlv_ContentType = 24"
definition tlv_FreshnessPeriod :: u32 where "tlv_FreshnessPeriod = 25"
definition tlv_FinalBlockId :: u32 where "tlv_FinalBlockId = 26"
definition tlv_SignatureType :: u32 where "tlv_SignatureType = 27"
definition tlv_LinkPreference :: u32 where "tlv_LinkPreference = 30"
definition tlv_LinkDelegation :: u32 where "tlv_LinkDelegation = 31"
definition tlv_ValidityPeriod :: u32 where "tlv_ValidityPeriod = 253"
definition ContentType_Blob :: u32 where "ContentType_Blob = 0"
definition ContentType_Link :: u32 where "ContentType_Link = 1"

lemmas data_types = tlv_MetaInfo_def tlv_Content_def tlv_SignatureInfo_def tlv_SignatureValue_def
  tlv_ContentType_def tlv_FreshnessPeriod_def tlv_FinalBlockId_def tlv_SignatureType_def
  tlv_LinkPreference_def tlv_LinkDelegation_def tlv_ValidityPeriod_def

section \<open>Blocks\<close>

definition Block_default :: block where
  "Block_default = \<lparr>blk_type = - 1, blk_payload = [], blk_wire = []\<rparr>"

definition Block_empty :: "block \<Rightarrow> bool" where
  "Block_empty b \<longleftrightarrow> blk_type b = - 1"

definition Block_hasWire :: "block \<Rightarrow> bool" where
  "Block_hasWire b \<longleftrightarrow> blk_wire b \<noteq> []"

definition Block_encode :: "block \<Rightarrow> block" where
  "Block_encode b =
     (if Block_hasWire b then b
      else b\<lparr>blk_wire := snd (writeVarNumber (snd (writeVarNumber [] (ucast (blk_type b)))) (of_nat (length (blk_payload b))))
               @ blk_payload b\<rparr>)"

definition Block_get :: "block list \<Rightarrow> u32 \<Rightarrow> block result" where
  "Block_get els t =
     (case Block_find els t of
        None \<Rightarrow> Inl (BlockError ''(Block::get) Requested a non-existed type from Block'')
      | Some b \<Rightarrow> Inr b)"

definition prependBlock :: "'e encoding_impl \<Rightarrow> block \<Rightarrow> 'e \<Rightarrow> nat \<times> 'e" where
  "prependBlock impl b e =
     (if Block_hasWire b then prependByteArray impl (blk_wire b) e
      else prependByteArrayBlock impl (blk_type b) (blk_payload b) e)"

definition Encoder_appendBlock :: "block \<Rightarrow> encoder \<Rightarrow> nat \<times> encoder" where
  "Encoder_appendBlock b e =
     (if Block_hasWire b then Encoder_appendByteArray (blk_wire b) e
      else Encoder_appendByteArrayBlock (blk_type b) (blk_payload b) e)"

definition Estimator_appendBlock :: "block \<Rightarrow> unit \<Rightarrow> nat \<times> unit" where
  "Estimator_appendBlock b e = prependBlock EstimatorTag b e"

definition prependNestedBlock ::
    "'e encoding_impl \<Rightarrow> u32 \<Rightarrow> ('e \<Rightarrow> nat \<times> 'e) \<Rightarrow> 'e \<Rightarrow> nat \<times> 'e" where
  "prependNestedBlock impl type wireEncode e = prepend_header impl type (wireEncode e)"

text \<open>The loop \<open>totalLength += encoder.prependBlock(*i)\<close> (or \<open>appendBlock\<close>) over a list.\<close>

fun add_blocks :: "(block \<Rightarrow> 'e \<Rightarrow> nat \<times> 'e) \<Rightarrow> block list \<Rightarrow> nat \<times> 'e \<Rightarrow> nat \<times> 'e" where
  "add_blocks op [] r = r"
| "add_blocks op (b # bs) (len, e) = add_blocks op bs (len + fst (op b e), snd (op b e))"

text \<open>An element read by position: if the next one has the type it is decoded and passed, otherwise the
  iterator stays.\<close>

definition next_if :: "u32 \<Rightarrow> (block \<Rightarrow> 'a result) \<Rightarrow> 'a \<Rightarrow> block list \<Rightarrow> ('a \<times> block list) result" where
  "next_if t dec dflt els =
     (case els of
        [] \<Rightarrow> Inr (dflt, [])
      | b # rest \<Rightarrow> if blk_type b = t then bind_result (dec b) (\<lambda>v. Inr (v, rest)) else Inr (dflt, els))"

text \<open>\<open>time::milliseconds\<close> counts in an \<open>int64_t\<close>.\<close>

definition ms_of_u64 :: "u64 \<Rightarrow> int" where
  "ms_of_u64 n = sint n"

definition milliseconds_min :: int where
  "milliseconds_min = - (2 ^ 63)"

section \<open>MetaInfo\<close>

record meta_info =
  mi_type :: u32
  mi_freshnessPeriod :: int
  mi_finalBlockId :: "component option"
  mi_appMetaInfo :: "block list"

definition MetaInfo_ctor :: meta_info where
  "MetaInfo_ctor = \<lparr>mi_type = ContentType_Blob, mi_freshnessPeriod = -1, mi_finalBlockId = None, mi_appMetaInfo = []\<rparr>"

definition MetaInfo_setType :: "u32 \<Rightarrow> meta_info \<Rightarrow> meta_info" where
  "MetaInfo_setType type mi = mi\<lparr>mi_type := type\<rparr>"

definition MetaInfo_setFreshnessPeriod :: "int \<Rightarrow> meta_info \<Rightarrow> meta_info" where
  "MetaInfo_setFreshnessPeriod t mi = mi\<lparr>mi_freshnessPeriod := t\<rparr>"

definition MetaInfo_setFinalBlockId :: "component \<Rightarrow> meta_info \<Rightarrow> meta_info" where
  "MetaInfo_setFinalBlockId c mi = mi\<lparr>mi_finalBlockId := Some c\<rparr>"

definition app_range :: "block \<Rightarrow> bool" where
  "app_range b \<longleftrightarrow> 128 \<le> blk_type b \<and> blk_type b \<le> 252"

definition MetaInfo_setAppMetaInfo :: "block list \<Rightarrow> meta_info \<Rightarrow> meta_info result" where
  "MetaInfo_setAppMetaInfo info mi =
     (if list_all app_range info then Inr (mi\<lparr>mi_appMetaInfo := info\<rparr>)
      else Inl (TlvError ''AppMetaInfo block has type outside the application range [128, 252]''))"

definition MetaInfo_addAppMetaInfo :: "block \<Rightarrow> meta_info \<Rightarrow> meta_info result" where
  "MetaInfo_addAppMetaInfo b mi =
     (if app_range b then Inr (mi\<lparr>mi_appMetaInfo := mi_appMetaInfo mi @ [b]\<rparr>)
      else Inl (TlvError ''AppMetaInfo block has type outside the application range [128, 252]''))"

fun erase_first_block :: "(block \<Rightarrow> bool) \<Rightarrow> block list \<Rightarrow> block list option" where
  "erase_first_block P [] = None"
| "erase_first_block P (b # bs) = (if P b then Some bs else map_option ((#) b) (erase_first_block P bs))"

definition MetaInfo_removeAppMetaInfo :: "u32 \<Rightarrow> meta_info \<Rightarrow> bool \<times> meta_info" where
  "MetaInfo_removeAppMetaInfo tlvType mi =
     (case erase_first_block (\<lambda>b. blk_type b = tlvType) (mi_appMetaInfo mi) of
        Some bs \<Rightarrow> (True, mi\<lparr>mi_appMetaInfo := bs\<rparr>)
      | None \<Rightarrow> (False, mi))"

definition MetaInfo_findAppMetaInfo :: "u32 \<Rightarrow> meta_info \<Rightarrow> block option" where
  "MetaInfo_findAppMetaInfo tlvType mi = find (\<lambda>b. blk_type b = tlvType) (mi_appMetaInfo mi)"

definition hasFinalBlockId :: "meta_info \<Rightarrow> bool" where
  "hasFinalBlockId mi \<longleftrightarrow> (case mi_finalBlockId mi of None \<Rightarrow> False | Some c \<Rightarrow> \<not> Component_empty c)"

definition MetaInfo_wireEncode :: "'e encoding_impl \<Rightarrow> meta_info \<Rightarrow> 'e \<Rightarrow> (nat \<times> 'e) result" where
  "MetaInfo_wireEncode impl mi e =
     bind_result (add_part (hasFinalBlockId mi)
       (Inr \<circ> prependNestedBlock impl tlv_FinalBlockId (Component_wireEncode impl (the (mi_finalBlockId mi))))
       (add_blocks (prependBlock impl) (rev (mi_appMetaInfo mi)) (0, e))) (\<lambda>r1.
     bind_result (add_part (mi_freshnessPeriod mi \<ge> 0)
       (Inr \<circ> prependNonNegativeIntegerBlock impl tlv_FreshnessPeriod (of_int (mi_freshnessPeriod mi))) r1) (\<lambda>r2.
     bind_result (add_part (mi_type mi \<noteq> ContentType_Blob)
       (Inr \<circ> prependNonNegativeIntegerBlock impl tlv_ContentType (ucast (mi_type mi))) r2) (\<lambda>r3.
       Inr (prepend_header impl tlv_MetaInfo r3))))"

definition decode_finalBlockId :: "block \<Rightarrow> component option result" where
  "decode_finalBlockId b =
     bind_result (Block_blockFromValue b) (\<lambda>v.
       bind_result (Component_ofBlock v) (\<lambda>c.
         Inr (if comp_type c \<noteq> tlv_NameComponent then None else Some c)))"

definition MetaInfo_wireDecode :: "block \<Rightarrow> meta_info \<Rightarrow> meta_info result" where
  "MetaInfo_wireDecode wire mi =
     bind_result (Block_parse (blk_payload wire)) (\<lambda>els.
     bind_result (next_if tlv_ContentType
       (\<lambda>b. bind_result (readNonNegativeInteger_block b) (\<lambda>n. Inr (ucast n))) ContentType_Blob els) (\<lambda>(type, els1).
     bind_result (next_if tlv_FreshnessPeriod
       (\<lambda>b. bind_result (readNonNegativeInteger_block b) (\<lambda>n. Inr (ms_of_u64 n))) milliseconds_min els1) (\<lambda>(fresh, els2).
     bind_result (next_if tlv_FinalBlockId decode_finalBlockId None els2) (\<lambda>(final, els3).
       Inr \<lparr>mi_type = type, mi_freshnessPeriod = fresh, mi_finalBlockId = final,
            mi_appMetaInfo = mi_appMetaInfo mi @ els3\<rparr>))))"

section \<open>SignatureInfo and Signature\<close>

text \<open>\<open>security::ValidityPeriod\<close> enters as the block its \<open>wireEncode\<close> returns.\<close>

record signature_info =
  si_type :: int
  si_hasKeyLocator :: bool
  si_keyLocator :: key_locator
  si_otherTlvs :: "block list"
  si_wire :: "block option"

definition SignatureInfo_ctor :: signature_info where
  "SignatureInfo_ctor = \<lparr>si_type = -1, si_hasKeyLocator = False, si_keyLocator = KeyLocator_None,
     si_otherTlvs = [], si_wire = None\<rparr>"

definition SignatureInfo_setSignatureType :: "int \<Rightarrow> signature_info \<Rightarrow> signature_info" where
  "SignatureInfo_setSignatureType type si = si\<lparr>si_wire := None, si_type := type\<rparr>"

definition SignatureInfo_setKeyLocator :: "key_locator \<Rightarrow> signature_info \<Rightarrow> signature_info" where
  "SignatureInfo_setKeyLocator kl si = si\<lparr>si_wire := None, si_keyLocator := kl, si_hasKeyLocator := True\<rparr>"

definition SignatureInfo_unsetKeyLocator :: "signature_info \<Rightarrow> signature_info" where
  "SignatureInfo_unsetKeyLocator si = si\<lparr>si_wire := None, si_keyLocator := KeyLocator_None, si_hasKeyLocator := False\<rparr>"

definition SignatureInfo_getKeyLocator :: "signature_info \<Rightarrow> key_locator result" where
  "SignatureInfo_getKeyLocator si =
     (if si_hasKeyLocator si then Inr (si_keyLocator si) else Inl (TlvError ''KeyLocator does not exist''))"

definition SignatureInfo_unsetValidityPeriod :: "signature_info \<Rightarrow> signature_info" where
  "SignatureInfo_unsetValidityPeriod si =
     si\<lparr>si_wire := None,
        si_otherTlvs := (case si_otherTlvs si of
            [] \<Rightarrow> []
          | b # bs \<Rightarrow> if blk_type b = tlv_ValidityPeriod then bs else b # bs)\<rparr>"

definition SignatureInfo_setValidityPeriod :: "block \<Rightarrow> signature_info \<Rightarrow> signature_info" where
  "SignatureInfo_setValidityPeriod validityPeriod si =
     (let si1 = SignatureInfo_unsetValidityPeriod si
      in si1\<lparr>si_otherTlvs := validityPeriod # si_otherTlvs si1\<rparr>)"

definition SignatureInfo_appendTypeSpecificTlv :: "block \<Rightarrow> signature_info \<Rightarrow> signature_info" where
  "SignatureInfo_appendTypeSpecificTlv b si = si\<lparr>si_otherTlvs := si_otherTlvs si @ [b]\<rparr>"

definition SignatureInfo_getTypeSpecificTlv :: "u32 \<Rightarrow> signature_info \<Rightarrow> block result" where
  "SignatureInfo_getTypeSpecificTlv type si =
     (case find (\<lambda>b. blk_type b = type) (si_otherTlvs si) of
        Some b \<Rightarrow> Inr b
      | None \<Rightarrow> Inl (TlvError ''(SignatureInfo::getTypeSpecificTlv) Requested a non-existed type from SignatureInfo''))"

text \<open>\<open>appendBlock\<close> is not an operation of the record of prepending operations; it is passed beside it.\<close>

definition SignatureInfo_wireEncode ::
    "'e encoding_impl \<Rightarrow> (block \<Rightarrow> 'e \<Rightarrow> nat \<times> 'e) \<Rightarrow> signature_info \<Rightarrow> 'e \<Rightarrow> (nat \<times> 'e) result" where
  "SignatureInfo_wireEncode impl appendBlock si e =
     bind_result (add_part (si_hasKeyLocator si) (KeyLocator_wireEncode impl (si_keyLocator si))
       (add_blocks appendBlock (rev (si_otherTlvs si)) (0, e))) (\<lambda>r1.
     bind_result (add_part True
       (Inr \<circ> prependNonNegativeIntegerBlock impl tlv_SignatureType (of_int (si_type si))) r1) (\<lambda>r2.
       Inr (prepend_header impl tlv_SignatureInfo r2)))"

definition SignatureInfo_toWire :: "signature_info \<Rightarrow> (block \<times> signature_info) result" where
  "SignatureInfo_toWire si =
     (case si_wire si of
        Some w \<Rightarrow> Inr (w, si)
      | None \<Rightarrow>
          bind_result (SignatureInfo_wireEncode EstimatorTag Estimator_appendBlock si ()) (\<lambda>(estimatedSize, _).
          bind_result (SignatureInfo_wireEncode EncoderTag Encoder_appendBlock si (Encoder_ctor estimatedSize 0)) (\<lambda>(_, buffer).
          bind_result (Encoder_block buffer) (\<lambda>w. Inr (w, si\<lparr>si_wire := Some w\<rparr>)))))"

definition SignatureInfo_wireDecode :: "block \<Rightarrow> signature_info \<Rightarrow> signature_info result" where
  "SignatureInfo_wireDecode wire si =
     (if \<not> Block_hasWire wire then Inl (TlvError ''The supplied block does not contain wire format'')
      else bind_result (Block_parse (blk_payload wire)) (\<lambda>els.
        if blk_type wire \<noteq> tlv_SignatureInfo then Inl (TlvError ''Unexpected TLV type when decoding Name'')
        else case els of
          [] \<Rightarrow> Inl (TlvError ''SignatureInfo does not have sub-TLV or the first sub-TLV is not SignatureType'')
        | b # els1 \<Rightarrow>
            if blk_type b \<noteq> tlv_SignatureType
            then Inl (TlvError ''SignatureInfo does not have sub-TLV or the first sub-TLV is not SignatureType'')
            else bind_result (decode_int b) (\<lambda>type.
              bind_result (next_if tlv_KeyLocator (\<lambda>k. bind_result (KeyLocator_wireDecode k) (Inr \<circ> Some)) None els1) (\<lambda>(kl, els2).
                Inr \<lparr>si_type = type, si_hasKeyLocator = (kl \<noteq> None),
                     si_keyLocator = (case kl of Some k \<Rightarrow> k | None \<Rightarrow> si_keyLocator si),
                     si_otherTlvs = si_otherTlvs si @ els2, si_wire = Some wire\<rparr>))))"

record signature =
  sg_info :: signature_info
  sg_value :: block

definition Signature_ctor :: signature where
  "Signature_ctor = \<lparr>sg_info = SignatureInfo_ctor, sg_value = Block_default\<rparr>"

definition Signature_isSet :: "signature \<Rightarrow> bool" where
  "Signature_isSet s \<longleftrightarrow> si_type (sg_info s) \<noteq> -1"

definition Signature_getInfo :: "signature \<Rightarrow> (block \<times> signature) result" where
  "Signature_getInfo s = bind_result (SignatureInfo_toWire (sg_info s)) (\<lambda>(w, si). Inr (w, s\<lparr>sg_info := si\<rparr>))"

definition Signature_getValue :: "signature \<Rightarrow> block" where
  "Signature_getValue s = Block_encode (sg_value s)"

definition Signature_setInfo :: "block \<Rightarrow> signature \<Rightarrow> signature result" where
  "Signature_setInfo info s =
     bind_result (SignatureInfo_wireDecode info SignatureInfo_ctor) (\<lambda>si. Inr (s\<lparr>sg_info := si\<rparr>))"

definition Signature_setValue :: "block \<Rightarrow> signature \<Rightarrow> signature result" where
  "Signature_setValue v s =
     (if blk_type v \<noteq> tlv_SignatureValue then Inl (TlvError ''The supplied block is not SignatureValue'')
      else Inr (s\<lparr>sg_value := v\<rparr>))"

section \<open>Data\<close>

record data_packet =
  dp_name :: name
  dp_metaInfo :: meta_info
  dp_content :: block
  dp_signature :: signature
  dp_wire :: "block option"
  dp_fullName :: name

definition Data_ctor :: data_packet where
  "Data_ctor = \<lparr>dp_name = [], dp_metaInfo = MetaInfo_ctor,
     dp_content = \<lparr>blk_type = tlv_Content, blk_payload = [], blk_wire = []\<rparr>,
     dp_signature = Signature_ctor, dp_wire = None, dp_fullName = []\<rparr>"

definition Data_ctor_name :: "name \<Rightarrow> data_packet" where
  "Data_ctor_name n = \<lparr>dp_name = n, dp_metaInfo = MetaInfo_ctor, dp_content = Block_default,
     dp_signature = Signature_ctor, dp_wire = None, dp_fullName = []\<rparr>"

definition Data_onChanged :: "data_packet \<Rightarrow> data_packet" where
  "Data_onChanged d = d\<lparr>dp_wire := None, dp_fullName := []\<rparr>"

definition Data_getContent :: "data_packet \<Rightarrow> block result" where
  "Data_getContent d =
     bind_result (if Block_empty (dp_content d) then makeEmptyBlock tlv_Content else Inr (dp_content d))
       (Inr \<circ> Block_encode)"

definition Data_wireEncode :: "'e encoding_impl \<Rightarrow> bool \<Rightarrow> data_packet \<Rightarrow> 'e \<Rightarrow> (nat \<times> 'e) result" where
  "Data_wireEncode impl unsignedPortion d e =
     (if \<not> unsignedPortion \<and> \<not> Signature_isSet (dp_signature d)
      then Inl (TlvError ''Requested wire format, but data packet has not been signed yet'')
      else
        bind_result (add_part (\<not> unsignedPortion)
          (Inr \<circ> prependBlock impl (Signature_getValue (dp_signature d))) (0, e)) (\<lambda>r1.
        bind_result (Signature_getInfo (dp_signature d)) (\<lambda>(info, _).
        bind_result (add_part True (Inr \<circ> prependBlock impl info) r1) (\<lambda>r2.
        bind_result (Data_getContent d) (\<lambda>content.
        bind_result (add_part True (Inr \<circ> prependBlock impl content) r2) (\<lambda>r3.
        bind_result (add_part True (MetaInfo_wireEncode impl (dp_metaInfo d)) r3) (\<lambda>r4.
        bind_result (add_part True (Inr \<circ> Name_wireEncode impl (dp_name d)) r4) (\<lambda>r5.
          Inr (if \<not> unsignedPortion then prepend_header impl tlv_Data r5 else r5)))))))))"

definition Data_wireDecode :: "block \<Rightarrow> data_packet \<Rightarrow> data_packet result" where
  "Data_wireDecode wire d =
     bind_result (Block_parse (blk_payload wire)) (\<lambda>els.
     bind_result (bind_result (Block_get els tlv_Name) Name_wireDecode) (\<lambda>n.
     bind_result (bind_result (Block_get els tlv_MetaInfo) (\<lambda>b. MetaInfo_wireDecode b (dp_metaInfo d))) (\<lambda>mi.
     bind_result (Block_get els tlv_Content) (\<lambda>content.
     bind_result (bind_result (Block_get els tlv_SignatureInfo) (\<lambda>b. Signature_setInfo b (dp_signature d))) (\<lambda>sg.
     bind_result (decode_part els tlv_SignatureValue (\<lambda>v. Signature_setValue v sg) sg) (\<lambda>sg'.
       Inr \<lparr>dp_name = n, dp_metaInfo = mi, dp_content = content, dp_signature = sg',
            dp_wire = Some wire, dp_fullName = []\<rparr>))))))"

definition Data_toWire :: "data_packet \<Rightarrow> (block \<times> data_packet) result" where
  "Data_toWire d =
     (case dp_wire d of
        Some w \<Rightarrow> Inr (w, d)
      | None \<Rightarrow>
          bind_result (Data_wireEncode EstimatorTag False d ()) (\<lambda>(estimatedSize, _).
          bind_result (Data_wireEncode EncoderTag False d (Encoder_ctor estimatedSize 0)) (\<lambda>(_, buffer).
          bind_result (Encoder_block buffer) (\<lambda>w.
          bind_result (Data_wireDecode w d) (\<lambda>d'. Inr (w, d'))))))"

text \<open>The variant a signer uses: the encoder already holds the unsigned portion.\<close>

definition Data_wireEncode_signed :: "encoder \<Rightarrow> block \<Rightarrow> data_packet \<Rightarrow> (block \<times> data_packet) result" where
  "Data_wireEncode_signed encoder signatureValue d =
     (let (n, e1) = Encoder_appendBlock signatureValue encoder;
          (_, e2) = prepend_header EncoderTag tlv_Data (length (enc_content encoder) + n, e1)
      in bind_result (Encoder_block e2) (\<lambda>w. bind_result (Data_wireDecode w d) (\<lambda>d'. Inr (w, d'))))"

definition DataPacket_getFullName :: "(bytes \<Rightarrow> bytes) \<Rightarrow> data_packet \<Rightarrow> (name \<times> data_packet) result" where
  "DataPacket_getFullName sha256 d =
     (if dp_fullName d = [] then
        (case dp_wire d of
           None \<Rightarrow> Inl (TlvError ''Full name requested, but Data packet does not have wire format (e.g., not signed)'')
         | Some w \<Rightarrow>
             bind_result (Component_fromImplicitSha256Digest (sha256 (blk_wire w))) (\<lambda>c.
               Inr (dp_name d @ [c], d\<lparr>dp_fullName := dp_name d @ [c]\<rparr>)))
      else Inr (dp_fullName d, d))"

definition Data_setName :: "name \<Rightarrow> data_packet \<Rightarrow> data_packet" where
  "Data_setName n d = (Data_onChanged d)\<lparr>dp_name := n\<rparr>"

definition Data_setMetaInfo :: "meta_info \<Rightarrow> data_packet \<Rightarrow> data_packet" where
  "Data_setMetaInfo mi d = (Data_onChanged d)\<lparr>dp_metaInfo := mi\<rparr>"

definition Data_setContentType :: "u32 \<Rightarrow> data_packet \<Rightarrow> data_packet" where
  "Data_setContentType type d = (Data_onChanged d)\<lparr>dp_metaInfo := MetaInfo_setType type (dp_metaInfo d)\<rparr>"

definition Data_setFreshnessPeriod :: "int \<Rightarrow> data_packet \<Rightarrow> data_packet" where
  "Data_setFreshnessPeriod t d = (Data_onChanged d)\<lparr>dp_metaInfo := MetaInfo_setFreshnessPeriod t (dp_metaInfo d)\<rparr>"

definition Data_setFinalBlockId :: "component \<Rightarrow> data_packet \<Rightarrow> data_packet" where
  "Data_setFinalBlockId c d = (Data_onChanged d)\<lparr>dp_metaInfo := MetaInfo_setFinalBlockId c (dp_metaInfo d)\<rparr>"

definition Data_setContent_bytes :: "bytes \<Rightarrow> data_packet \<Rightarrow> data_packet result" where
  "Data_setContent_bytes content d =
     bind_result (makeBinaryBlock tlv_Content content) (\<lambda>b. Inr ((Data_onChanged d)\<lparr>dp_content := b\<rparr>))"

definition Data_setContent_buffer :: "bytes \<Rightarrow> data_packet \<Rightarrow> data_packet" where
  "Data_setContent_buffer contentValue d =
     (Data_onChanged d)\<lparr>dp_content := \<lparr>blk_type = tlv_Content, blk_payload = contentValue, blk_wire = []\<rparr>\<rparr>"

definition Data_setContent_block :: "block \<Rightarrow> data_packet \<Rightarrow> data_packet result" where
  "Data_setContent_block content d =
     (if blk_type content = tlv_Content then Inr ((Data_onChanged d)\<lparr>dp_content := content\<rparr>)
      else if \<not> Block_hasWire content then Inl (BlockError ''Underlying wire buffer is empty'')
      else Inr ((Data_onChanged d)\<lparr>dp_content := \<lparr>blk_type = tlv_Content, blk_payload = blk_wire content, blk_wire = []\<rparr>\<rparr>))"

definition Data_setSignature :: "signature \<Rightarrow> data_packet \<Rightarrow> data_packet" where
  "Data_setSignature sg d = (Data_onChanged d)\<lparr>dp_signature := sg\<rparr>"

definition Data_setSignatureValue :: "block \<Rightarrow> data_packet \<Rightarrow> data_packet result" where
  "Data_setSignatureValue v d =
     bind_result (Signature_setValue v (dp_signature d)) (\<lambda>sg. Inr ((Data_onChanged d)\<lparr>dp_signature := sg\<rparr>))"

section \<open>What the encoders write\<close>

definition wire_of :: "block \<Rightarrow> bytes" where
  "wire_of b = blk_wire (Block_encode b)"

lemma wire_of_eq: "wire_of b = (if Block_hasWire b then blk_wire b else encodeBlock (blk_type b) (blk_payload b))"
  by (simp add: wire_of_def Block_encode_def Block_hasWire_def encodeBlock_def writeVarNumber_append [of "encodeVarNumber _"])

definition nni_block :: "u32 \<Rightarrow> u64 \<Rightarrow> bytes" where
  "nni_block t n = encodeBlock t (encodeNonNegativeInteger n)"

definition metaInfo_parts :: "meta_info \<Rightarrow> bytes" where
  "metaInfo_parts mi =
     (if mi_type mi \<noteq> ContentType_Blob then nni_block tlv_ContentType (ucast (mi_type mi)) else []) @
     (if mi_freshnessPeriod mi \<ge> 0 then nni_block tlv_FreshnessPeriod (of_int (mi_freshnessPeriod mi)) else []) @
     (if hasFinalBlockId mi then encodeBlock tlv_FinalBlockId (component_wire (the (mi_finalBlockId mi))) else [])"

definition metaInfo_payload :: "meta_info \<Rightarrow> bytes" where
  "metaInfo_payload mi = metaInfo_parts mi @ concat (map wire_of (mi_appMetaInfo mi))"

definition sigInfo_payload :: "signature_info \<Rightarrow> bytes" where
  "sigInfo_payload si =
     nni_block tlv_SignatureType (of_int (si_type si)) @
     (if si_hasKeyLocator si then encodeBlock tlv_KeyLocator (keyLocator_payload (si_keyLocator si)) else []) @
     concat (map wire_of (rev (si_otherTlvs si)))"

locale packet_rel = encoding_rel +
  fixes append :: "block \<Rightarrow> 'a \<Rightarrow> nat \<times> 'a"
  assumes rel_blk: "R e b0 \<Longrightarrow> R (snd (prependByteArrayBlock impl t xs e)) (encodeBlock t xs @ b0)
      \<and> fst (prependByteArrayBlock impl t xs e) = length (encodeBlock t xs)"
    and rel_append: "R e b0 \<Longrightarrow> R (snd (append b e)) (b0 @ wire_of b) \<and> fst (append b e) = length (wire_of b)"
begin

lemma rel_header:
  assumes "R e (v @ b0)" "len = length v"
  shows "R (snd (prepend_header impl t (len, e))) (encodeBlock t v @ b0) \<and>
    fst (prepend_header impl t (len, e)) = length (encodeBlock t v)"
  using rel_frame [OF assms, of t] by (auto simp: prepend_header_def yields_def Let_def case_prod_beta)

lemma rel_block: "R e b0 \<Longrightarrow> R (snd (prependBlock impl b e)) (wire_of b @ b0) \<and>
    fst (prependBlock impl b e) = length (wire_of b)"
  using rel_bytes [of e b0 "blk_wire b"] rel_blk [of e b0 "blk_type b" "blk_payload b"]
  by (simp add: prependBlock_def wire_of_eq)

lemma rel_blocks: "R e b0 \<Longrightarrow>
    \<exists>e'. add_blocks (prependBlock impl) bs (len, e) = (len + length (concat (map wire_of (rev bs))), e')
       \<and> R e' (concat (map wire_of (rev bs)) @ b0)"
proof (induction bs arbitrary: e b0 len)
  case (Cons b bs)
  from rel_block [OF Cons.prems, of b]
  obtain e' where "add_blocks (prependBlock impl) bs (len + length (wire_of b), snd (prependBlock impl b e))
      = (len + length (wire_of b) + length (concat (map wire_of (rev bs))), e')"
      "R e' (concat (map wire_of (rev bs)) @ wire_of b @ b0)"
    using Cons.IH by blast
  then show ?case using rel_block [OF Cons.prems, of b] by simp
qed simp

lemma rel_appends: "R e b0 \<Longrightarrow>
    \<exists>e'. add_blocks append bs (len, e) = (len + length (concat (map wire_of bs)), e')
       \<and> R e' (b0 @ concat (map wire_of bs))"
proof (induction bs arbitrary: e b0 len)
  case (Cons b bs)
  from rel_append [OF Cons.prems, of b]
  obtain e' where "add_blocks append bs (len + length (wire_of b), snd (append b e))
      = (len + length (wire_of b) + length (concat (map wire_of bs)), e')"
      "R e' ((b0 @ wire_of b) @ concat (map wire_of bs))"
    using Cons.IH by blast
  then show ?case using rel_append [OF Cons.prems, of b] by simp
qed simp

lemma rel_component:
  assumes "R e b0"
  shows "R (snd (Component_wireEncode impl c e)) (component_wire c @ b0) \<and>
    fst (Component_wireEncode impl c e) = length (component_wire c)"
proof -
  have "Component_wireEncode impl c e = prepend_header impl (comp_type c)
      (if length (comp_value c) > 0 then prependByteArray impl (comp_value c) e else (0, e))
    \<or> Component_wireEncode impl c e = prepend_header impl (comp_type c) (length (comp_value c),
         snd (if length (comp_value c) > 0 then prependByteArray impl (comp_value c) e else (0, e)))"
    using rel_bytes [OF assms, of "comp_value c"]
    by (simp add: Component_wireEncode_def prepend_header_def Let_def case_prod_beta)
  then show ?thesis
    using rel_header [of e "comp_value c" b0 "length (comp_value c)" "comp_type c"]
      rel_header [of "snd (prependByteArray impl (comp_value c) e)" "comp_value c" b0 "length (comp_value c)" "comp_type c"]
      rel_bytes [OF assms, of "comp_value c"] assms
    by (cases "prependByteArray impl (comp_value c) e") (auto simp: component_wire_def split: if_splits)
qed

lemma rel_nested:
  "writes R (Inr \<circ> prependNestedBlock impl t (Component_wireEncode impl c)) (encodeBlock t (component_wire c))"
proof (rule writes_total)
  fix e b0 assume "R e b0"
  from rel_component [OF this, of c] rel_header [of "snd (Component_wireEncode impl c e)" "component_wire c" b0]
  show "R (snd (prependNestedBlock impl t (Component_wireEncode impl c) e)) (encodeBlock t (component_wire c) @ b0) \<and>
      fst (prependNestedBlock impl t (Component_wireEncode impl c) e) = length (encodeBlock t (component_wire c))"
    by (cases "Component_wireEncode impl c e") (simp add: prependNestedBlock_def)
qed

lemma writes_block: "writes R (Inr \<circ> prependBlock impl b) (wire_of b)"
  by (rule writes_total) (rule rel_block)

lemma writes_name: "writes R (Inr \<circ> Name_wireEncode impl n) (encodeBlock tlv_Name (name_payload n))"
  by (rule writes_total) (rule rel_name)

lemma yields_header:
  assumes "R e (v @ b0)" "len = length v"
  shows "yields R (Inr (prepend_header impl t (len, e))) (length (encodeBlock t v)) (encodeBlock t v @ b0)"
  using rel_header [OF assms, of t] by (cases "prepend_header impl t (len, e)") (simp add: yields_def)

lemma rel_metaInfo: "writes R (MetaInfo_wireEncode impl mi) (encodeBlock tlv_MetaInfo (metaInfo_payload mi))"
proof (rule writesI)
  fix e b0 assume "R e b0"
  from rel_blocks [OF this, of "rev (mi_appMetaInfo mi)" 0] obtain e' where
    e': "add_blocks (prependBlock impl) (rev (mi_appMetaInfo mi)) (0, e)
        = (length (concat (map wire_of (mi_appMetaInfo mi))), e')"
      "R e' (concat (map wire_of (mi_appMetaInfo mi)) @ b0)" by auto
  show "yields R (MetaInfo_wireEncode impl mi e) (length (encodeBlock tlv_MetaInfo (metaInfo_payload mi)))
      (encodeBlock tlv_MetaInfo (metaInfo_payload mi) @ b0)"
    unfolding MetaInfo_wireEncode_def e'(1)
    apply (rule yields_add_part [OF rel_nested e'(2)])
    apply (erule yields_add_part [OF rel_nniBlock])
    apply (erule yields_add_part [OF rel_nniBlock])
    apply (rule yields_header)
     apply (simp only: metaInfo_payload_def metaInfo_parts_def nni_block_def append_assoc)
    apply (simp add: metaInfo_payload_def metaInfo_parts_def nni_block_def)
    done
qed

lemma rel_signatureInfo:
  assumes "si_hasKeyLocator si \<Longrightarrow> keyLocator_known (si_keyLocator si)" "R e []"
  shows "yields R (SignatureInfo_wireEncode impl append si e)
    (length (encodeBlock tlv_SignatureInfo (sigInfo_payload si))) (encodeBlock tlv_SignatureInfo (sigInfo_payload si))"
proof -
  from rel_appends [OF assms(2), of "rev (si_otherTlvs si)" 0] obtain e' where
    e': "add_blocks append (rev (si_otherTlvs si)) (0, e)
        = (length (concat (map wire_of (rev (si_otherTlvs si)))), e')"
      "R e' (concat (map wire_of (rev (si_otherTlvs si))) @ [])" by auto
  have "yields R (SignatureInfo_wireEncode impl append si e)
    (length (encodeBlock tlv_SignatureInfo (sigInfo_payload si))) (encodeBlock tlv_SignatureInfo (sigInfo_payload si) @ [])"
    unfolding SignatureInfo_wireEncode_def e'(1)
    apply (rule yields_add_part [OF rel_keyLocator e'(2)], erule assms(1))
    apply (erule yields_add_part [OF rel_nniBlock])
    apply (rule yields_header)
     apply (simp only: sigInfo_payload_def nni_block_def append_assoc if_True)
    apply (simp add: sigInfo_payload_def nni_block_def)
    done
  then show ?thesis by simp
qed

end

interpretation penc: packet_rel EncoderTag "\<lambda>e bs. enc_inv e \<and> enc_content e = bs" Encoder_appendBlock
proof unfold_locales
  fix e b0 b assume "enc_inv e \<and> enc_content e = b0"
  then show "(enc_inv (snd (Encoder_appendBlock b e)) \<and> enc_content (snd (Encoder_appendBlock b e)) = b0 @ wire_of b)
      \<and> fst (Encoder_appendBlock b e) = length (wire_of b)"
    by (auto simp: Encoder_appendBlock_def wire_of_eq appendByteArray_spec appendByteArrayBlock_spec)
qed (simp_all add: EncoderTag_def prependByteArrayBlock_spec)

interpretation pest: packet_rel EstimatorTag "\<lambda>_ _. True" Estimator_appendBlock
proof unfold_locales
  fix b :: block and e :: unit
  show "True \<and> fst (Estimator_appendBlock b e) = length (wire_of b)"
    by (simp add: Estimator_appendBlock_def prependBlock_def wire_of_eq estimator.sizes)
qed (simp_all add: estimator.sizes)

section \<open>Decoding what was encoded\<close>

lemma mk_block_simps [simp]:
  "blk_type (mk_block (t, v)) = t" "blk_payload (mk_block (t, v)) = v" "blk_wire (mk_block (t, v)) = encodeBlock t v"
  by (simp_all add: mk_block_def)

text \<open>A block as the interface builds it: its wire, if it has one, is the shortest encoding.\<close>

definition blk_ok :: "block \<Rightarrow> bool" where
  "blk_ok b \<longleftrightarrow> (Block_hasWire b \<longrightarrow> blk_wire b = encodeBlock (blk_type b) (blk_payload b)) \<and> length (blk_payload b) < 2 ^ 64"

lemma wire_of_ok: "blk_ok b \<Longrightarrow> wire_of b = encodeBlock (blk_type b) (blk_payload b)"
  by (simp add: blk_ok_def wire_of_eq)

lemma Block_encode_ok: "blk_ok b \<Longrightarrow> Block_encode b = mk_block (blk_type b, blk_payload b)"
  using wire_of_ok [of b] by (cases b) (auto simp: Block_encode_def mk_block_def wire_of_def split: if_splits)

lemma Block_encode_simps [simp]: "blk_type (Block_encode b) = blk_type b" "blk_payload (Block_encode b) = blk_payload b"
  by (simp_all add: Block_encode_def)

lemma parse_wires: "list_all blk_ok bs \<Longrightarrow> Block_parse (concat (map wire_of bs)) = Inr (map Block_encode bs)"
  by (induction bs) (auto simp: wire_of_ok Block_parse_Cons blk_ok_def mk_block_def Block_encode_ok)

lemma parse_part:
  assumes "Block_parse rest = Inr bs" "p \<Longrightarrow> length v < 2 ^ 64"
  shows "Block_parse ((if p then encodeBlock t v else []) @ rest) = Inr ((if p then [mk_block (t, v)] else []) @ bs)"
  using assms by (simp add: Block_parse_Cons mk_block_def)

definition starts_not :: "u32 \<Rightarrow> block list \<Rightarrow> bool" where
  "starts_not t bs \<longleftrightarrow> (case bs of [] \<Rightarrow> True | b # _ \<Rightarrow> blk_type b \<noteq> t)"

lemma starts_not_append: "starts_not t ((if p then [mk_block (t', v)] else []) @ bs) \<longleftrightarrow>
    (if p then t' \<noteq> t else starts_not t bs)"
  by (simp add: starts_not_def mk_block_def)

lemma next_if_part:
  assumes "starts_not t rest"
  shows "next_if t dec dflt ((if p then [mk_block (t, v)] else []) @ rest) =
    bind_result (if p then dec (mk_block (t, v)) else Inr dflt) (\<lambda>x. Inr (x, rest))"
  using assms by (auto simp: next_if_def starts_not_def mk_block_def split: list.splits)

lemma read_nni_block: "readNonNegativeInteger_block (mk_block (t, encodeNonNegativeInteger n)) = Inr n"
  by (rule read_nni_u16)

lemma nni_small: "length (encodeNonNegativeInteger n) < 2 ^ 64"
  using length_nni [of n] by simp

lemma ms_encode: "0 \<le> t \<Longrightarrow> t < 2 ^ 63 \<Longrightarrow> ms_of_u64 (of_int t) = t"
  by (simp add: ms_of_u64_def signed_of_int signed_take_bit_int_eq_self)

lemma blockFromValue_encode:
  "length v < 2 ^ 64 \<Longrightarrow> Block_blockFromValue (mk_block (t', encodeBlock t v)) = Inr (mk_block (t, v))"
  by (simp add: Block_blockFromValue_def del: bind_result_Inr)
    (simp add: encodeBlock_def unat_of_nat mk_block_def del: bind_result_Inr)

lemma decode_finalBlockId_encode:
  assumes "Component_isGeneric c" "length (comp_value c) < 2 ^ 64"
  shows "decode_finalBlockId (mk_block (t, component_wire c)) = Inr (Some c)"
  using assms by (cases c)
    (simp add: decode_finalBlockId_def component_wire_def blockFromValue_encode Component_ofBlock_def
      Component_isGeneric_def del: bind_result_Inr)

definition metaInfo_wf :: "meta_info \<Rightarrow> bool" where
  "metaInfo_wf mi \<longleftrightarrow>
     mi_freshnessPeriod mi < 2 ^ 63 \<and>
     (hasFinalBlockId mi \<longrightarrow> Component_isGeneric (the (mi_finalBlockId mi))) \<and>
     list_all blk_ok (mi_appMetaInfo mi) \<and> list_all app_range (mi_appMetaInfo mi) \<and>
     length (metaInfo_payload mi) < 2 ^ 64"

text \<open>What decoding leaves in an object whose list of application elements was \<open>app0\<close>.\<close>

definition metaInfo_decoded :: "block list \<Rightarrow> meta_info \<Rightarrow> meta_info" where
  "metaInfo_decoded app0 mi =
     \<lparr>mi_type = mi_type mi,
      mi_freshnessPeriod = (if mi_freshnessPeriod mi \<ge> 0 then mi_freshnessPeriod mi else milliseconds_min),
      mi_finalBlockId = (if hasFinalBlockId mi then mi_finalBlockId mi else None),
      mi_appMetaInfo = app0 @ map Block_encode (mi_appMetaInfo mi)\<rparr>"

lemma app_starts_not:
  assumes "list_all app_range bs" "t < 128"
  shows "starts_not t (map Block_encode bs)"
proof (cases bs)
  case (Cons b bs')
  with assms have "t < 128" "128 \<le> blk_type b" by (simp_all add: app_range_def)
  then have "t < blk_type b" by (rule less_le_trans)
  with Cons show ?thesis by (simp add: starts_not_def)
qed (simp add: starts_not_def)

lemma MetaInfo_wireDecode_payload:
  assumes wf: "metaInfo_wf mi"
  shows "MetaInfo_wireDecode (mk_block (tlv_MetaInfo, metaInfo_payload mi)) mi0
    = Inr (metaInfo_decoded (mi_appMetaInfo mi0) mi)"
proof -
  let ?app = "map Block_encode (mi_appMetaInfo mi)"
  let ?part = "\<lambda>p t v. (if p then [mk_block (t, v)] else [])"
  let ?final = "?part (hasFinalBlockId mi) tlv_FinalBlockId (component_wire (the (mi_finalBlockId mi)))"
  let ?fresh = "?part (mi_freshnessPeriod mi \<ge> 0) tlv_FreshnessPeriod (encodeNonNegativeInteger (of_int (mi_freshnessPeriod mi)))"
  let ?type = "?part (mi_type mi \<noteq> ContentType_Blob) tlv_ContentType (encodeNonNegativeInteger (ucast (mi_type mi)))"
  have len: "length (component_wire (the (mi_finalBlockId mi))) < 2 ^ 64" if "hasFinalBlockId mi"
    using wf that by (simp add: metaInfo_wf_def metaInfo_payload_def metaInfo_parts_def length_encodeBlock)
  have parse: "Block_parse (metaInfo_payload mi) = Inr (?type @ ?fresh @ ?final @ ?app)"
    unfolding metaInfo_payload_def metaInfo_parts_def nni_block_def append_assoc
    by (intro parse_part parse_wires nni_small len) (use wf in \<open>simp_all add: metaInfo_wf_def\<close>)
  have app: "starts_not t ?app" if "t < 128" for t
    using wf that by (intro app_starts_not) (simp_all add: metaInfo_wf_def)
  have 3: "starts_not tlv_FinalBlockId ?app" and 2: "starts_not tlv_FreshnessPeriod (?final @ ?app)"
    and 1: "starts_not tlv_ContentType (?fresh @ ?final @ ?app)"
    by (simp_all add: starts_not_append app data_types)
  have final: "(if hasFinalBlockId mi then decode_finalBlockId (mk_block (tlv_FinalBlockId, component_wire (the (mi_finalBlockId mi)))) else Inr None)
      = Inr (if hasFinalBlockId mi then mi_finalBlockId mi else None)"
    using wf len decode_finalBlockId_encode [of "the (mi_finalBlockId mi)" tlv_FinalBlockId]
    by (auto simp: metaInfo_wf_def component_wire_def length_encodeBlock hasFinalBlockId_def split: option.splits)
  show ?thesis
    using wf ms_encode [of "mi_freshnessPeriod mi"]
    unfolding MetaInfo_wireDecode_def mk_block_simps parse bind_result.simps next_if_part [OF 1] prod.case
    by (simp add: next_if_part [OF 2] next_if_part [OF 3] final read_nni_block ucast_ucast_u32 metaInfo_wf_def
        metaInfo_decoded_def ms_encode if_distrib [of "\<lambda>r. bind_result r _"] del: bind_result_Inr cong: if_cong)
qed

definition sigInfo_wf :: "signature_info \<Rightarrow> bool" where
  "sigInfo_wf si \<longleftrightarrow>
     0 \<le> si_type si \<and> si_type si < 2 ^ 31 \<and> si_wire si = None \<and>
     (if si_hasKeyLocator si then keyLocator_wf (si_keyLocator si)
      else starts_not tlv_KeyLocator (rev (si_otherTlvs si))) \<and>
     list_all blk_ok (si_otherTlvs si) \<and> length (sigInfo_payload si) < 2 ^ 64"

abbreviation sigInfo_block :: "signature_info \<Rightarrow> block" where
  "sigInfo_block si \<equiv> mk_block (tlv_SignatureInfo, sigInfo_payload si)"

text \<open>Decoding gives the type-specific elements back in the opposite order.\<close>

definition sigInfo_decoded :: "signature_info \<Rightarrow> signature_info" where
  "sigInfo_decoded si =
     \<lparr>si_type = si_type si, si_hasKeyLocator = si_hasKeyLocator si,
      si_keyLocator = (if si_hasKeyLocator si then si_keyLocator si else KeyLocator_None),
      si_otherTlvs = map Block_encode (rev (si_otherTlvs si)), si_wire = Some (sigInfo_block si)\<rparr>"

lemma starts_not_encode [simp]: "starts_not t (map Block_encode bs) \<longleftrightarrow> starts_not t bs"
  by (simp add: starts_not_def split: list.splits)

lemma SignatureInfo_wireDecode_payload:
  assumes wf: "sigInfo_wf si"
  shows "SignatureInfo_wireDecode (sigInfo_block si) SignatureInfo_ctor = Inr (sigInfo_decoded si)"
proof -
  let ?others = "map Block_encode (rev (si_otherTlvs si))"
  let ?kl = "if si_hasKeyLocator si then [mk_block (tlv_KeyLocator, keyLocator_payload (si_keyLocator si))] else []"
  let ?type = "mk_block (tlv_SignatureType, encodeNonNegativeInteger (of_int (si_type si)))"
  have len: "length (keyLocator_payload (si_keyLocator si)) < 2 ^ 64" if "si_hasKeyLocator si"
    using wf that by (simp add: sigInfo_wf_def sigInfo_payload_def length_encodeBlock)
  have parse: "Block_parse (sigInfo_payload si) = Inr (?type # ?kl @ ?others)"
    using parse_part [of _ _ True "encodeNonNegativeInteger (of_int (si_type si))" tlv_SignatureType,
        OF parse_part [of _ _ "si_hasKeyLocator si", OF parse_wires len] nni_small, of "rev (si_otherTlvs si)"] wf
    by (simp add: sigInfo_payload_def nni_block_def sigInfo_wf_def)
  have type: "decode_int ?type = Inr (si_type si)"
    using wf by (intro decode_int_encode) (simp_all add: sigInfo_wf_def)
  have kl: "next_if tlv_KeyLocator (\<lambda>k. bind_result (KeyLocator_wireDecode k) (Inr \<circ> Some)) None (?kl @ ?others)
      = Inr (if si_hasKeyLocator si then Some (si_keyLocator si) else None, ?others)"
    using wf KeyLocator_wireDecode_payload [OF _ len]
    by (cases "si_hasKeyLocator si")
      (auto simp: next_if_def sigInfo_wf_def starts_not_def rev_map [symmetric] simp del: bind_result_Inr split: list.splits)
  show ?thesis
    unfolding SignatureInfo_wireDecode_def mk_block_simps parse bind_result.simps
    by (simp add: Block_hasWire_def type kl sigInfo_decoded_def SignatureInfo_ctor_def del: bind_result_Inr packet_types)
qed

lemma SignatureInfo_toWire_eq:
  assumes "sigInfo_wf si"
  shows "SignatureInfo_toWire si = Inr (sigInfo_block si, si\<lparr>si_wire := Some (sigInfo_block si)\<rparr>)"
proof -
  have k: "si_hasKeyLocator si \<Longrightarrow> keyLocator_known (si_keyLocator si)"
    using assms by (simp add: sigInfo_wf_def keyLocator_wf_known)
  obtain u where u: "SignatureInfo_wireEncode EstimatorTag Estimator_appendBlock si () = Inr (length (encodeBlock tlv_SignatureInfo (sigInfo_payload si)), u)"
    using pest.rel_signatureInfo [OF k] by (auto simp: yields_def)
  obtain e' where e': "SignatureInfo_wireEncode EncoderTag Encoder_appendBlock si (Encoder_ctor (length (encodeBlock tlv_SignatureInfo (sigInfo_payload si))) 0)
      = Inr (length (encodeBlock tlv_SignatureInfo (sigInfo_payload si)), e')" "enc_content e' = encodeBlock tlv_SignatureInfo (sigInfo_payload si)"
    using penc.rel_signatureInfo [OF k, of "Encoder_ctor (length (encodeBlock tlv_SignatureInfo (sigInfo_payload si))) 0"]
    by (auto simp: yields_def)
  show ?thesis
    using assms u e' Block_ctor_encodeBlock [of "sigInfo_payload si" tlv_SignatureInfo]
    by (simp add: SignatureInfo_toWire_def sigInfo_wf_def Encoder_block_def mk_block_def del: bind_result_Inr)
qed

definition content_block :: "data_packet \<Rightarrow> block" where
  "content_block d = (if Block_empty (dp_content d) then mk_block (tlv_Content, []) else Block_encode (dp_content d))"

lemma Data_getContent_eq: "Data_getContent d = Inr (content_block d)"
proof -
  have "makeEmptyBlock tlv_Content = Inr (mk_block (tlv_Content, []))"
    by (simp add: makeEmptyBlock_eq mk_block_def)
  moreover have "Block_encode (mk_block (tlv_Content, [])) = mk_block (tlv_Content, [])"
    by (simp add: Block_encode_def Block_hasWire_def)
  ultimately show ?thesis by (simp add: Data_getContent_def content_block_def)
qed

definition data_payload :: "data_packet \<Rightarrow> bytes" where
  "data_payload d =
     encodeBlock tlv_Name (name_payload (dp_name d)) @
     encodeBlock tlv_MetaInfo (metaInfo_payload (dp_metaInfo d)) @
     wire_of (content_block d) @
     encodeBlock tlv_SignatureInfo (sigInfo_payload (sg_info (dp_signature d))) @
     wire_of (sg_value (dp_signature d))"

definition data_wf :: "data_packet \<Rightarrow> bool" where
  "data_wf d \<longleftrightarrow>
     metaInfo_wf (dp_metaInfo d) \<and> sigInfo_wf (sg_info (dp_signature d)) \<and>
     (Block_empty (dp_content d) \<or> blk_type (dp_content d) = tlv_Content \<and> blk_ok (dp_content d)) \<and>
     blk_type (sg_value (dp_signature d)) = tlv_SignatureValue \<and> blk_ok (sg_value (dp_signature d)) \<and>
     dp_wire d = None \<and> length (data_payload d) < 2 ^ 64"

abbreviation data_block :: "data_packet \<Rightarrow> block" where
  "data_block d \<equiv> mk_block (tlv_Data, data_payload d)"

text \<open>The object after decoding, when its MetaInfo held the application elements \<open>app0\<close> before.\<close>

definition data_decoded :: "block list \<Rightarrow> data_packet \<Rightarrow> data_packet" where
  "data_decoded app0 d =
     \<lparr>dp_name = dp_name d, dp_metaInfo = metaInfo_decoded app0 (dp_metaInfo d), dp_content = content_block d,
      dp_signature = \<lparr>sg_info = sigInfo_decoded (sg_info (dp_signature d)),
                      sg_value = Block_encode (sg_value (dp_signature d))\<rparr>,
      dp_wire = Some (data_block d), dp_fullName = []\<rparr>"

lemma wire_of_encode [simp]: "wire_of (Block_encode b) = wire_of b"
  by (simp add: wire_of_def Block_encode_def Block_hasWire_def)

context packet_rel
begin

lemma rel_data:
  assumes wf: "data_wf d"
  shows "writes R (Data_wireEncode impl False d) (encodeBlock tlv_Data (data_payload d))"
proof (rule writesI)
  fix e b0 assume e: "R e b0"
  have sig: "Signature_isSet (dp_signature d)"
    using wf by (auto simp: Signature_isSet_def data_wf_def sigInfo_wf_def)
  have info: "Signature_getInfo (dp_signature d) = Inr (sigInfo_block (sg_info (dp_signature d)),
      (dp_signature d)\<lparr>sg_info := (sg_info (dp_signature d))\<lparr>si_wire := Some (sigInfo_block (sg_info (dp_signature d)))\<rparr>\<rparr>)"
    using wf by (simp add: Signature_getInfo_def SignatureInfo_toWire_eq data_wf_def)
  have w: "wire_of (sigInfo_block si) = encodeBlock tlv_SignatureInfo (sigInfo_payload si)" for si
    by (simp add: wire_of_eq Block_hasWire_def)
  show "yields R (Data_wireEncode impl False d e) (length (encodeBlock tlv_Data (data_payload d)))
      (encodeBlock tlv_Data (data_payload d) @ b0)"
    unfolding Data_wireEncode_def info Data_getContent_eq bind_result.simps prod.case
    apply (simp only: sig not_False_eq_True not_True_eq_False simp_thms if_True if_False)
    apply (rule yields_add_part [OF writes_block e])
    apply (erule yields_add_part [OF writes_block])
    apply (erule yields_add_part [OF writes_block])
    apply (erule yields_add_part [OF rel_metaInfo])
    apply (erule yields_add_part [OF writes_name])
    apply (rule yields_header)
     apply (simp only: data_payload_def append_assoc if_True Signature_getValue_def wire_of_encode w)
    apply (simp add: data_payload_def Signature_getValue_def w del: tlv_types)
    done
qed

end

lemma blk_ok_mk: "length v < 2 ^ 64 \<Longrightarrow> blk_ok (mk_block (t, v))"
  by (simp add: blk_ok_def)

lemma Block_encode_mk [simp]: "Block_encode (mk_block (t, v)) = mk_block (t, v)"
  by (simp add: Block_encode_def Block_hasWire_def)

lemma Block_encode_idem [simp]: "Block_encode (Block_encode b) = Block_encode b"
  by (simp add: Block_encode_def Block_hasWire_def)

lemma blk_ok_encode: "blk_ok b \<Longrightarrow> blk_ok (Block_encode b)"
  by (simp add: Block_encode_ok blk_ok_mk) (simp add: blk_ok_def)

lemma wire_of_mk [simp]: "wire_of (mk_block (t, v)) = encodeBlock t v"
  by (simp add: wire_of_eq Block_hasWire_def)

definition data_elements :: "data_packet \<Rightarrow> block list" where
  "data_elements d =
     [mk_block (tlv_Name, name_payload (dp_name d)), mk_block (tlv_MetaInfo, metaInfo_payload (dp_metaInfo d)),
      content_block d, sigInfo_block (sg_info (dp_signature d)), Block_encode (sg_value (dp_signature d))]"

lemma content_block_ok:
  assumes "data_wf d"
  shows "blk_type (content_block d) = tlv_Content" "blk_ok (content_block d)" "Block_encode (content_block d) = content_block d"
  using assms by (auto simp: content_block_def data_wf_def blk_ok_mk blk_ok_encode)

lemma Block_parse_data:
  assumes wf: "data_wf d"
  shows "Block_parse (data_payload d) = Inr (data_elements d)"
proof -
  have len: "length (data_payload d) < 2 ^ 64" using wf by (simp add: data_wf_def)
  have "list_all blk_ok (data_elements d)"
    using len wf content_block_ok [OF wf]
    by (simp add: data_elements_def data_payload_def length_encodeBlock blk_ok_mk blk_ok_encode data_wf_def)
  from parse_wires [OF this] show ?thesis
    using content_block_ok [OF wf] by (simp add: data_elements_def data_payload_def)
qed

lemma Block_get_data:
  assumes "data_wf d"
  shows "Block_get (data_elements d) tlv_Name = Inr (mk_block (tlv_Name, name_payload (dp_name d)))"
    and "Block_get (data_elements d) tlv_MetaInfo = Inr (mk_block (tlv_MetaInfo, metaInfo_payload (dp_metaInfo d)))"
    and "Block_get (data_elements d) tlv_Content = Inr (content_block d)"
    and "Block_get (data_elements d) tlv_SignatureInfo = Inr (sigInfo_block (sg_info (dp_signature d)))"
    and "Block_find (data_elements d) tlv_SignatureValue = Some (Block_encode (sg_value (dp_signature d)))"
  using assms content_block_ok(1) [OF assms]
  by (simp_all add: data_elements_def Block_get_def Block_find_def data_types data_wf_def)

lemma Data_wireDecode_payload:
  assumes wf: "data_wf d"
  shows "Data_wireDecode (data_block d) d0 = Inr (data_decoded (mi_appMetaInfo (dp_metaInfo d0)) d)"
proof -
  have "length (name_payload (dp_name d)) < 2 ^ 64"
    using wf by (simp add: data_wf_def data_payload_def length_encodeBlock)
  from Name_wireDecode_payload [OF this, of "mk_block (tlv_Name, name_payload (dp_name d))"]
  have name: "Name_wireDecode (mk_block (tlv_Name, name_payload (dp_name d))) = Inr (dp_name d)" by simp
  have meta: "MetaInfo_wireDecode (mk_block (tlv_MetaInfo, metaInfo_payload (dp_metaInfo d))) (dp_metaInfo d0)
      = Inr (metaInfo_decoded (mi_appMetaInfo (dp_metaInfo d0)) (dp_metaInfo d))"
    using wf by (intro MetaInfo_wireDecode_payload) (simp add: data_wf_def)
  have sig: "Signature_setInfo (sigInfo_block (sg_info (dp_signature d))) sg
      = Inr (sg\<lparr>sg_info := sigInfo_decoded (sg_info (dp_signature d))\<rparr>)" for sg
    using wf by (simp add: Signature_setInfo_def SignatureInfo_wireDecode_payload data_wf_def)
  have val: "Signature_setValue (Block_encode (sg_value (dp_signature d))) sg = Inr (sg\<lparr>sg_value := Block_encode (sg_value (dp_signature d))\<rparr>)" for sg
    using wf by (simp add: Signature_setValue_def data_wf_def)
  show ?thesis
    unfolding Data_wireDecode_def mk_block_simps Block_parse_data [OF wf] bind_result.simps Block_get_data [OF wf]
      name meta sig decode_part_def option.case val
    by (simp add: data_decoded_def)
qed

lemma Data_toWire_eq:
  assumes wf: "data_wf d"
  shows "Data_toWire d = Inr (data_block d, data_decoded (mi_appMetaInfo (dp_metaInfo d)) d)"
proof -
  have len: "length (data_payload d) < 2 ^ 64" using wf by (simp add: data_wf_def)
  have "bind_result (Data_wireEncode EstimatorTag False d ()) (\<lambda>(estimatedSize, _).
          bind_result (Data_wireEncode EncoderTag False d (Encoder_ctor estimatedSize 0)) (\<lambda>(_, buffer). Encoder_block buffer))
      = Inr (data_block d)"
    using toWire_of_writes [OF pest.rel_data [OF wf] penc.rel_data [OF wf] refl len] by (simp only: mk_block_def prod.case)
  with wf Data_wireDecode_payload [OF wf, of d] show ?thesis
    by (fastforce simp: Data_toWire_def data_wf_def)
qed

text \<open>Signing: the unsigned portion is encoded first, and the value is appended to it.\<close>

definition data_unsigned :: "data_packet \<Rightarrow> bytes" where
  "data_unsigned d =
     encodeBlock tlv_Name (name_payload (dp_name d)) @
     encodeBlock tlv_MetaInfo (metaInfo_payload (dp_metaInfo d)) @
     wire_of (content_block d) @
     encodeBlock tlv_SignatureInfo (sigInfo_payload (sg_info (dp_signature d)))"

lemma data_payload_unsigned: "data_payload d = data_unsigned d @ wire_of (sg_value (dp_signature d))"
  by (simp add: data_payload_def data_unsigned_def)

context packet_rel
begin

lemma rel_unsigned:
  assumes wf: "sigInfo_wf (sg_info (dp_signature d))"
  shows "writes R (Data_wireEncode impl True d) (data_unsigned d)"
proof (rule writesI)
  fix e b0 assume e: "R e b0"
  have info: "Signature_getInfo (dp_signature d) = Inr (sigInfo_block (sg_info (dp_signature d)),
      (dp_signature d)\<lparr>sg_info := (sg_info (dp_signature d))\<lparr>si_wire := Some (sigInfo_block (sg_info (dp_signature d)))\<rparr>\<rparr>)"
    using wf by (simp add: Signature_getInfo_def SignatureInfo_toWire_eq)
  show "yields R (Data_wireEncode impl True d e) (length (data_unsigned d)) (data_unsigned d @ b0)"
    unfolding Data_wireEncode_def info Data_getContent_eq bind_result.simps prod.case
    apply (simp only: not_False_eq_True not_True_eq_False simp_thms if_True if_False)
    apply (rule yields_add_part [OF writes_block e], simp only: if_False append_Nil list.size)
    apply (erule yields_add_part [OF writes_block])
    apply (erule yields_add_part [OF writes_block])
    apply (erule yields_add_part [OF rel_metaInfo])
    apply (erule yields_add_part [OF writes_name])
    apply (simp add: yields_def data_unsigned_def del: tlv_types)
    done
qed

end

text \<open>Signing: the unsigned portion is encoded first, and the signature value appended to it. The packet is
  the one that encoding the signed Data at once gives.\<close>

lemma Data_wireEncode_signed_eq:
  assumes wf: "data_wf d"
  shows "bind_result (Data_wireEncode EncoderTag True d (Encoder_ctor n k))
       (\<lambda>(_, e). Data_wireEncode_signed e (sg_value (dp_signature d)) d0)
     = Inr (data_block d, data_decoded (mi_appMetaInfo (dp_metaInfo d0)) d)"
proof -
  have "sigInfo_wf (sg_info (dp_signature d))" using wf by (simp add: data_wf_def)
  from penc.rel_unsigned [OF this] obtain e where e: "enc_inv e" "enc_content e = data_unsigned d"
    "Data_wireEncode EncoderTag True d (Encoder_ctor n k) = Inr (length (data_unsigned d), e)"
    unfolding writes_def yields_def by (metis append_Nil2 enc_content_ctor enc_inv_ctor)
  let ?v = "sg_value (dp_signature d)"
  obtain m e1 where e1: "Encoder_appendBlock ?v e = (m, e1)" by fastforce
  have r1: "enc_inv e1" "enc_content e1 = data_payload d" "m = length (wire_of ?v)"
    using penc.rel_append [of e "data_unsigned d" ?v] e e1 by (simp_all add: data_payload_unsigned)
  obtain n2 e2 where e2: "prepend_header EncoderTag tlv_Data (length (data_payload d), e1) = (n2, e2)" by fastforce
  have "enc_content e2 = encodeBlock tlv_Data (data_payload d)"
    using penc.rel_header [of e1 "data_payload d" "[]" "length (data_payload d)" tlv_Data] r1 e2 by (simp del: tlv_types)
  then have "Encoder_block e2 = Inr (data_block d)"
    using wf by (simp add: Encoder_block_def Block_ctor_encodeBlock mk_block_def data_wf_def del: tlv_types)
  moreover have "length (data_unsigned d) + m = length (data_payload d)" using r1 by (simp add: data_payload_unsigned)
  ultimately show ?thesis
    using e e1 e2 Data_wireDecode_payload [OF wf, of d0]
    by (simp add: Data_wireEncode_signed_def del: bind_result_Inr tlv_types)
qed

text \<open>\<open>MetaInfo::wireDecode\<close> appends to the list of application elements. \<open>Data::wireEncode()\<close> decodes
  its own buffer into the same object, so the elements are in it twice, and the next encoding carries
  them twice.\<close>

lemma Data_toWire_doubles:
  assumes "data_wf d" "Data_toWire d = Inr (w, d')"
  shows "mi_appMetaInfo (dp_metaInfo d') = mi_appMetaInfo (dp_metaInfo d) @ map Block_encode (mi_appMetaInfo (dp_metaInfo d))"
  using assms by (auto simp: Data_toWire_eq data_decoded_def metaInfo_decoded_def)

text \<open>\<open>SignatureInfo::appendTypeSpecificTlv\<close> leaves \<open>m_wire\<close> alone: once there is a wire image, what is
  appended never reaches the network.\<close>

lemma appendTypeSpecificTlv_ignored:
  assumes "si_wire si = Some w"
  shows "SignatureInfo_toWire (SignatureInfo_appendTypeSpecificTlv b si)
    = Inr (w, SignatureInfo_appendTypeSpecificTlv b si)"
  using assms by (simp add: SignatureInfo_toWire_def SignatureInfo_appendTypeSpecificTlv_def)

end
