(* ===== verification/LinkWire.thy ===== *)
theory LinkWire
  imports DataWire
begin

text \<open>
  Link (\<open>ndn-cxx/src/link.cpp\<close>): Data whose content is an ordered set of delegations, with the static
  readers that work on a wire image. The set keeps its order, and the readers give back what
  \<open>encodeContent\<close> wrote.
\<close>

section \<open>Link\<close>

type_synonym delegation = "u32 \<times> name"

definition delegation_less :: "delegation \<Rightarrow> delegation \<Rightarrow> bool" where
  "delegation_less a b \<longleftrightarrow> fst a < fst b \<or> \<not> fst b < fst a \<and> Name_compare (snd a) (snd b) < 0"

text \<open>\<open>std::set<std::pair<uint32_t, Name>>\<close> in iteration order.\<close>

fun DelegationSet_insert :: "delegation \<Rightarrow> delegation list \<Rightarrow> delegation list" where
  "DelegationSet_insert x [] = [x]"
| "DelegationSet_insert x (y # ys) =
     (if delegation_less x y then x # y # ys
      else if delegation_less y x then y # DelegationSet_insert x ys else y # ys)"

record link =
  lk_data :: data_packet
  lk_delegations :: "delegation list"

definition Link_ctor :: "name \<Rightarrow> link" where
  "Link_ctor n = \<lparr>lk_data = Data_ctor_name n, lk_delegations = []\<rparr>"

definition encodeDelegation :: "'e encoding_impl \<Rightarrow> delegation \<Rightarrow> 'e \<Rightarrow> nat \<times> 'e" where
  "encodeDelegation impl d e =
     (let (n1, e1) = Name_wireEncode impl (snd d) e;
          (n2, e2) = prependNonNegativeIntegerBlock impl tlv_LinkPreference (ucast (fst d)) e1
      in prepend_header impl tlv_LinkDelegation (n1 + n2, e2))"

fun encodeDelegations :: "'e encoding_impl \<Rightarrow> delegation list \<Rightarrow> nat \<times> 'e \<Rightarrow> nat \<times> 'e" where
  "encodeDelegations impl [] r = r"
| "encodeDelegations impl (d # ds) (totalLength, e) =
     encodeDelegations impl ds (totalLength + fst (encodeDelegation impl d e), snd (encodeDelegation impl d e))"

definition Link_encodeContent_impl :: "'e encoding_impl \<Rightarrow> delegation list \<Rightarrow> 'e \<Rightarrow> nat \<times> 'e" where
  "Link_encodeContent_impl impl ds e = prepend_header impl tlv_Content (encodeDelegations impl (rev ds) (0, e))"

definition Link_encodeContent :: "link \<Rightarrow> link result" where
  "Link_encodeContent l =
     bind_result (Encoder_block (encode_with (Link_encodeContent_impl EstimatorTag (lk_delegations l))
                                             (Link_encodeContent_impl EncoderTag (lk_delegations l)))) (\<lambda>content.
     bind_result (Data_setContent_block content (Data_setContentType ContentType_Link (Data_onChanged (lk_data l)))) (\<lambda>d.
       Inr (l\<lparr>lk_data := d\<rparr>)))"

definition Link_removeDelegationNoEncode :: "name \<Rightarrow> link \<Rightarrow> bool \<times> link" where
  "Link_removeDelegationNoEncode n l =
     (let ds = filter (\<lambda>d. \<not> Name_equals (snd d) n) (lk_delegations l)
      in (length ds \<noteq> length (lk_delegations l), l\<lparr>lk_delegations := ds\<rparr>))"

definition Link_addDelegation :: "u32 \<Rightarrow> name \<Rightarrow> link \<Rightarrow> link result" where
  "Link_addDelegation preference n l =
     (let l1 = snd (Link_removeDelegationNoEncode n l)
      in Link_encodeContent (l1\<lparr>lk_delegations := DelegationSet_insert (preference, n) (lk_delegations l1)\<rparr>))"

definition Link_removeDelegation :: "name \<Rightarrow> link \<Rightarrow> (bool \<times> link) result" where
  "Link_removeDelegation n l =
     (let (hasRemovedDelegation, l1) = Link_removeDelegationNoEncode n l
      in if hasRemovedDelegation then bind_result (Link_encodeContent l1) (\<lambda>l2. Inr (True, l2)) else Inr (False, l1))"

text \<open>The constructor of a name from a block does not check the TLV type of the block, while \<open>Name_wireDecode\<close> does: a delegation
  whose second element has another type is an error here.\<close>

definition decodeDelegation :: "block \<Rightarrow> delegation result" where
  "decodeDelegation b =
     bind_result (Block_parse (blk_payload b)) (\<lambda>els.
       case els of
         [] \<Rightarrow> Inl (TlvError ''Unexpected Link Encoding'')
       | v # rest \<Rightarrow>
           (case readNonNegativeInteger_block v of
              Inl _ \<Rightarrow> Inl (TlvError ''Missing preference field in Link Encoding'')
            | Inr preference \<Rightarrow>
                (case rest of
                   [] \<Rightarrow> Inl (TlvError ''Missing name field in Link Encoding'')
                 | nb # _ \<Rightarrow> bind_result (Name_wireDecode nb) (\<lambda>n. Inr (ucast preference, n)))))"

fun decodeDelegations :: "block list \<Rightarrow> delegation list \<Rightarrow> delegation list result" where
  "decodeDelegations [] ds = Inr ds"
| "decodeDelegations (b # bs) ds =
     bind_result (decodeDelegation b) (\<lambda>d. decodeDelegations bs (DelegationSet_insert d ds))"

definition Link_decodeContent :: "link \<Rightarrow> link result" where
  "Link_decodeContent l =
     (if mi_type (dp_metaInfo (lk_data l)) \<noteq> ContentType_Link then Inl (TlvError ''Expected Content Type Link'')
      else bind_result (Data_getContent (lk_data l)) (\<lambda>content.
        bind_result (Block_parse (blk_payload content)) (\<lambda>els.
        bind_result (decodeDelegations els (lk_delegations l)) (\<lambda>ds. Inr (l\<lparr>lk_delegations := ds\<rparr>)))))"

definition Link_wireDecode :: "block \<Rightarrow> link \<Rightarrow> link result" where
  "Link_wireDecode wire l =
     bind_result (Data_wireDecode wire (lk_data l)) (\<lambda>d. Link_decodeContent (l\<lparr>lk_data := d\<rparr>))"

definition link_elements :: "block \<Rightarrow> block list result" where
  "link_elements b =
     bind_result (Block_parse (blk_payload b)) (\<lambda>els.
       bind_result (Block_get els tlv_Content) (\<lambda>content. Block_parse (blk_payload content)))"

definition Link_getDelegationFromWire :: "block \<Rightarrow> nat \<Rightarrow> delegation result" where
  "Link_getDelegationFromWire b index =
     bind_result (link_elements b) (\<lambda>els.
       if index \<ge> length els then Inl (InvalidArgument ''std::out_of_range'')
       else bind_result (Block_parse (blk_payload (els ! index))) (\<lambda>parts.
         if blk_type (els ! index) \<noteq> tlv_LinkDelegation
         then Inl (TlvError ''Unexpected TLV-TYPE, expecting LinkDelegation'')
         else bind_result (bind_result (Block_get parts tlv_LinkPreference) readNonNegativeInteger_block) (\<lambda>preference.
           bind_result (bind_result (Block_get parts tlv_Name) Name_wireDecode) (\<lambda>n. Inr (ucast preference, n)))))"

definition INVALID_SELECTED_DELEGATION_INDEX :: u64 where
  "INVALID_SELECTED_DELEGATION_INDEX = - 1"

fun findDelegation :: "u64 \<Rightarrow> name \<Rightarrow> block list \<Rightarrow> u64 result" where
  "findDelegation counter n [] = Inr INVALID_SELECTED_DELEGATION_INDEX"
| "findDelegation counter n (b # bs) =
     bind_result (Block_parse (blk_payload b)) (\<lambda>parts.
       if blk_type b \<noteq> tlv_LinkDelegation
       then Inl (TlvError ''Unexpected TLV-TYPE, expecting LinkDelegation'')
       else bind_result (bind_result (Block_get parts tlv_Name) Name_wireDecode) (\<lambda>m.
         if Name_equals m n then Inr counter else findDelegation (counter + 1) n bs))"

definition Link_findDelegationFromWire :: "block \<Rightarrow> name \<Rightarrow> u64 result" where
  "Link_findDelegationFromWire b n = bind_result (link_elements b) (findDelegation 0 n)"

definition Link_countDelegationsFromWire :: "block \<Rightarrow> nat result" where
  "Link_countDelegationsFromWire b = bind_result (link_elements b) (Inr \<circ> length)"

section \<open>Delegations\<close>

definition short_name :: "delegation \<Rightarrow> bool" where
  "short_name d \<longleftrightarrow> length (snd d) \<le> npos"

lemma delegation_less_iff:
  "short_name a \<Longrightarrow> short_name b \<Longrightarrow> delegation_less a b \<longleftrightarrow> fst a < fst b \<or> fst a = fst b \<and> snd a < snd b"
  by (auto simp: delegation_less_def short_name_def Name_compare_lex)

lemma delegation_less_trans:
  "short_name a \<Longrightarrow> short_name b \<Longrightarrow> short_name c \<Longrightarrow> delegation_less a b \<Longrightarrow> delegation_less b c \<Longrightarrow> delegation_less a c"
  by (auto simp: delegation_less_iff intro: less_trans)

lemma delegation_less_asym: "short_name a \<Longrightarrow> short_name b \<Longrightarrow> delegation_less a b \<Longrightarrow> \<not> delegation_less b a"
  by (auto simp: delegation_less_iff dest: less_not_sym)

lemma delegation_less_total:
  "short_name a \<Longrightarrow> short_name b \<Longrightarrow> \<not> delegation_less a b \<Longrightarrow> \<not> delegation_less b a \<Longrightarrow> a = b"
  by (cases a; cases b) (auto simp: delegation_less_iff)

definition delegations_inv :: "delegation list \<Rightarrow> bool" where
  [inv_simps]: "delegations_inv ds \<longleftrightarrow> sorted_wrt delegation_less ds \<and> list_all short_name ds"

text \<open>The set keeps its order, and an insertion adds exactly the element.\<close>

lemma DelegationSet_insert:
  assumes "delegations_inv ds" "short_name x"
  shows "delegations_inv (DelegationSet_insert x ds) \<and> set (DelegationSet_insert x ds) = insert x (set ds)"
  using assms(1)
proof (induction ds)
  case (Cons y ys)
  have y: "short_name y" and ys: "delegations_inv ys" "\<forall>z \<in> set ys. delegation_less y z" "\<forall>z \<in> set ys. short_name z"
    using Cons.prems by (auto simp: delegations_inv_def list_all_iff)
  have "\<forall>z \<in> set ys. delegation_less x z" if "delegation_less x y"
    using that ys y assms(2) delegation_less_trans by blast
  moreover have "x = y" if "\<not> delegation_less x y" "\<not> delegation_less y x"
    using that y assms(2) delegation_less_total by blast
  ultimately show ?case
    using Cons.IH [OF ys(1)] Cons.prems assms(2) by (auto simp: delegations_inv_def list_all_iff)
qed (use assms in \<open>simp add: delegations_inv_def\<close>)

lemma DelegationSet_insert_last:
  assumes "delegations_inv (ds @ [x])"
  shows "DelegationSet_insert x ds = ds @ [x]"
  using assms
proof (induction ds)
  case (Cons y ys)
  then have "delegation_less y x" "short_name y" "short_name x" "delegations_inv (ys @ [x])"
    by (auto simp: delegations_inv_def)
  with Cons.IH delegation_less_asym show ?case by auto
qed simp

lemma writesD: "writes R f bs \<Longrightarrow> R e b0 \<Longrightarrow> yields R (f e) (length bs) (bs @ b0)"
  by (simp add: writes_def)

definition delegation_value :: "delegation \<Rightarrow> bytes" where
  "delegation_value d = nni_block tlv_LinkPreference (ucast (fst d)) @ encodeBlock tlv_Name (name_payload (snd d))"

definition delegation_block :: "delegation \<Rightarrow> block" where
  "delegation_block d = mk_block (tlv_LinkDelegation, delegation_value d)"

definition delegations_payload :: "delegation list \<Rightarrow> bytes" where
  "delegations_payload ds = concat (map (\<lambda>d. wire_of (delegation_block d)) ds)"

context packet_rel
begin

lemma rel_delegation:
  assumes "R e b0"
  shows "R (snd (encodeDelegation impl d e)) (wire_of (delegation_block d) @ b0) \<and>
    fst (encodeDelegation impl d e) = length (wire_of (delegation_block d))"
proof -
  obtain n1 e1 where 1: "Name_wireEncode impl (snd d) e = (n1, e1)" by fastforce
  with rel_name [OF assms, of "snd d"] have r1: "R e1 (encodeBlock tlv_Name (name_payload (snd d)) @ b0)"
      "n1 = length (encodeBlock tlv_Name (name_payload (snd d)))" by (simp_all del: tlv_types)
  obtain n2 e2 where 2: "prependNonNegativeIntegerBlock impl tlv_LinkPreference (ucast (fst d)) e1 = (n2, e2)" by fastforce
  with writesD [OF rel_nniBlock [of tlv_LinkPreference "ucast (fst d)"] r1(1)]
  have r2: "R e2 (delegation_value d @ b0)" "n1 + n2 = length (delegation_value d)"
    using r1(2) by (auto simp: yields_def delegation_value_def nni_block_def simp del: tlv_types)
  show ?thesis
    using rel_header [OF r2, of tlv_LinkDelegation] by (simp add: encodeDelegation_def 1 2 delegation_block_def)
qed

lemma rel_delegations: "R e b0 \<Longrightarrow>
    \<exists>e'. encodeDelegations impl ds (len, e) = (len + length (delegations_payload (rev ds)), e')
       \<and> R e' (delegations_payload (rev ds) @ b0)"
proof (induction ds arbitrary: e b0 len)
  case (Cons d ds)
  note r = rel_delegation [OF Cons.prems, of d]
  from Cons.IH [OF conjunct1 [OF r], of "len + length (wire_of (delegation_block d))"] r show ?case
    by (auto simp: delegations_payload_def)
qed (simp add: delegations_payload_def)

lemma rel_linkContent:
  assumes "R e b0"
  shows "R (snd (Link_encodeContent_impl impl ds e)) (encodeBlock tlv_Content (delegations_payload ds) @ b0) \<and>
    fst (Link_encodeContent_impl impl ds e) = length (encodeBlock tlv_Content (delegations_payload ds))"
proof -
  from rel_delegations [OF assms, of "rev ds" 0] obtain e' where
    e': "encodeDelegations impl (rev ds) (0, e) = (length (delegations_payload ds), e')" "R e' (delegations_payload ds @ b0)"
    by auto
  show ?thesis using rel_header [OF e'(2) refl, of tlv_Content] by (simp add: Link_encodeContent_impl_def e'(1))
qed

end

lemma Link_encodeContent_eq:
  assumes "length (delegations_payload (lk_delegations l)) < 2 ^ 64"
  shows "Link_encodeContent l = Inr (l\<lparr>lk_data := (Data_setContentType ContentType_Link (Data_onChanged (lk_data l)))
    \<lparr>dp_content := mk_block (tlv_Content, delegations_payload (lk_delegations l))\<rparr>\<rparr>)"
proof -
  have "enc_content (encode_with (Link_encodeContent_impl EstimatorTag (lk_delegations l)) (Link_encodeContent_impl EncoderTag (lk_delegations l)))
      = encodeBlock tlv_Content (delegations_payload (lk_delegations l))"
    using penc.rel_linkContent [of "Encoder_ctor _ 0" "[]" "lk_delegations l"] by (simp add: encode_with_def)
  then have "Encoder_block (encode_with (Link_encodeContent_impl EstimatorTag (lk_delegations l)) (Link_encodeContent_impl EncoderTag (lk_delegations l)))
      = Inr (mk_block (tlv_Content, delegations_payload (lk_delegations l)))"
    using assms by (simp add: Encoder_block_def Block_ctor_encodeBlock mk_block_def)
  then show ?thesis
    by (simp add: Link_encodeContent_def Data_setContent_block_def Data_setContentType_def Data_onChanged_def del: bind_result_Inr)
qed

lemma delegation_small:
  assumes "d \<in> set ds" "length (delegations_payload ds) < 2 ^ 64"
  shows "length (delegation_value d) < 2 ^ 64" "length (name_payload (snd d)) < 2 ^ 64"
proof -
  have "length (delegation_value d) \<le> length (delegations_payload ds)"
    using assms(1) by (induction ds) (auto simp: delegations_payload_def delegation_block_def length_encodeBlock)
  with assms(2) show "length (delegation_value d) < 2 ^ 64" by simp
  then show "length (name_payload (snd d)) < 2 ^ 64" by (simp add: delegation_value_def length_encodeBlock)
qed

lemma parse_delegation:
  assumes "length (name_payload (snd d)) < 2 ^ 64"
  shows "Block_parse (delegation_value d) =
    Inr [mk_block (tlv_LinkPreference, encodeNonNegativeInteger (ucast (fst d))), mk_block (tlv_Name, name_payload (snd d))]"
proof -
  have "list_all blk_ok [mk_block (tlv_LinkPreference, encodeNonNegativeInteger (ucast (fst d))), mk_block (tlv_Name, name_payload (snd d))]"
    using assms nni_small by (simp add: blk_ok_mk)
  from parse_wires [OF this] show ?thesis by (simp add: delegation_value_def nni_block_def)
qed

lemma parse_delegations:
  assumes "length (delegations_payload ds) < 2 ^ 64"
  shows "Block_parse (delegations_payload ds) = Inr (map delegation_block ds)"
proof -
  have "list_all blk_ok (map delegation_block ds)"
    using delegation_small(1) [OF _ assms] by (simp add: list_all_iff delegation_block_def blk_ok_mk)
  from parse_wires [OF this] show ?thesis by (simp add: delegations_payload_def comp_def delegation_block_def)
qed

text \<open>A Data whose content is the one \<open>Link::encodeContent\<close> wrote.\<close>

definition carries :: "delegation list \<Rightarrow> data_packet \<Rightarrow> bool" where
  "carries ds d \<longleftrightarrow> data_wf d \<and> dp_content d = mk_block (tlv_Content, delegations_payload ds) \<and>
     length (delegations_payload ds) < 2 ^ 64"

lemma carries_content: "carries ds d \<Longrightarrow> content_block d = mk_block (tlv_Content, delegations_payload ds)"
  by (simp add: carries_def content_block_def Block_empty_def data_types)

lemma link_elements_eq: "carries ds d \<Longrightarrow> link_elements (data_block d) = Inr (map delegation_block ds)"
  using carries_content [of ds d]
  by (simp add: link_elements_def Block_parse_data Block_get_data carries_def parse_delegations del: bind_result_Inr)

lemma countDelegations_eq: "carries ds d \<Longrightarrow> Link_countDelegationsFromWire (data_block d) = Inr (length ds)"
  by (simp add: Link_countDelegationsFromWire_def link_elements_eq del: bind_result_Inr tlv_types)

lemma Name_wireDecode_mk: "length (name_payload n) < 2 ^ 64 \<Longrightarrow> Name_wireDecode (mk_block (tlv_Name, name_payload n)) = Inr n"
  by (rule Name_wireDecode_payload) simp_all

lemma delegation_name:
  "Block_get [mk_block (tlv_LinkPreference, p), mk_block (tlv_Name, n)] tlv_Name = Inr (mk_block (tlv_Name, n))"
  "Block_get [mk_block (tlv_LinkPreference, p), mk_block (tlv_Name, n)] tlv_LinkPreference = Inr (mk_block (tlv_LinkPreference, p))"
  by (simp_all add: Block_get_def Block_find_def data_types)

lemma getDelegation_eq:
  assumes c: "carries ds d" and i: "i < length ds"
  shows "Link_getDelegationFromWire (data_block d) i = Inr (ds ! i)"
proof -
  have len: "length (name_payload (snd (ds ! i))) < 2 ^ 64"
    using delegation_small(2) [OF nth_mem [OF i]] c by (simp add: carries_def)
  show ?thesis
    using i unfolding Link_getDelegationFromWire_def link_elements_eq [OF c] bind_result.simps
    by (simp add: delegation_block_def parse_delegation [OF len] delegation_name read_nni_block Name_wireDecode_mk [OF len]
        ucast_ucast_u32 del: bind_result_Inr tlv_types)
qed

lemma findDelegation_eq:
  assumes "\<forall>d \<in> set ds. length (name_payload (snd d)) < 2 ^ 64"
  shows "findDelegation k n (map delegation_block ds) =
    Inr (case find (\<lambda>i. Name_equals (snd (ds ! i)) n) [0 ..< length ds] of
           None \<Rightarrow> INVALID_SELECTED_DELEGATION_INDEX | Some i \<Rightarrow> k + of_nat i)"
  using assms
proof (induction ds arbitrary: k)
  case (Cons d ds)
  have len: "length (name_payload (snd d)) < 2 ^ 64" using Cons.prems by simp
  have up: "[0 ..< length (d # ds)] = 0 # map Suc [0 ..< length ds]"
    by (simp add: upt_conv_Cons map_Suc_upt del: upt_Suc)
  have shift: "find (\<lambda>i. Name_equals (snd ((d # ds) ! i)) n) (map Suc xs) = map_option Suc (find (\<lambda>i. Name_equals (snd (ds ! i)) n) xs)" for xs
    by (induction xs) simp_all
  have step: "findDelegation k n (map delegation_block (d # ds))
      = (if Name_equals (snd d) n then Inr k else findDelegation (k + 1) n (map delegation_block ds))"
    using len by (simp add: parse_delegation [OF len] delegation_name Name_wireDecode_mk delegation_block_def del: bind_result_Inr tlv_types)
  have find: "find (\<lambda>i. Name_equals (snd ((d # ds) ! i)) n) [0 ..< length (d # ds)] =
      (if Name_equals (snd d) n then Some 0 else map_option Suc (find (\<lambda>i. Name_equals (snd (ds ! i)) n) [0 ..< length ds]))"
    unfolding up find.simps shift by simp
  show ?case
    unfolding step find using Cons.IH [of "k + 1"] Cons.prems by (auto split: option.split)
qed simp

lemma decodeDelegation_eq: "length (name_payload (snd d)) < 2 ^ 64 \<Longrightarrow> decodeDelegation (delegation_block d) = Inr d"
  by (simp add: decodeDelegation_def delegation_block_def parse_delegation read_nni_block Name_wireDecode_mk
      ucast_ucast_u32 del: bind_result_Inr tlv_types)

lemma decodeDelegations_eq:
  assumes "\<forall>d \<in> set ds. length (name_payload (snd d)) < 2 ^ 64" "delegations_inv (ds0 @ ds)"
  shows "decodeDelegations (map delegation_block ds) ds0 = Inr (ds0 @ ds)"
  using assms
proof (induction ds arbitrary: ds0)
  case (Cons d ds)
  have "delegations_inv (ds0 @ [d])" using Cons.prems(2) by (auto simp: delegations_inv_def sorted_wrt_append)
  from DelegationSet_insert_last [OF this] show ?case
    using Cons.IH [of "ds0 @ [d]"] Cons.prems by (simp add: decodeDelegation_eq)
qed simp

lemma Link_wireDecode_eq:
  assumes c: "carries ds d" and "delegations_inv ds" "mi_type (dp_metaInfo d) = ContentType_Link"
  shows "Link_wireDecode (data_block d) \<lparr>lk_data = Data_ctor, lk_delegations = []\<rparr>
    = Inr \<lparr>lk_data = data_decoded [] d, lk_delegations = ds\<rparr>"
proof -
  have wf: "data_wf d" and len: "length (delegations_payload ds) < 2 ^ 64" using c by (simp_all add: carries_def)
  have dec: "Data_wireDecode (data_block d) Data_ctor = Inr (data_decoded [] d)"
    using Data_wireDecode_payload [OF wf, of Data_ctor] by (simp add: Data_ctor_def MetaInfo_ctor_def)
  have type: "mi_type (dp_metaInfo (data_decoded [] d)) = ContentType_Link"
    using assms(3) by (simp add: data_decoded_def metaInfo_decoded_def)
  have content: "Data_getContent (data_decoded [] d) = Inr (mk_block (tlv_Content, delegations_payload ds))"
    using carries_content [OF c] by (simp add: Data_getContent_eq content_block_def data_decoded_def Block_empty_def data_types)
  have ds: "decodeDelegations (map delegation_block ds) [] = Inr ds"
    using decodeDelegations_eq [of ds "[]"] assms(2) delegation_small(2) [OF _ len] by simp
  show ?thesis
    by (simp add: Link_wireDecode_def dec Link_decodeContent_def type content parse_delegations [OF len] ds
        del: bind_result_Inr tlv_types)
qed

end
