(* ===== verification/InterestWire.thy ===== *)
theory InterestWire
  imports LinkWire
begin

text \<open>
  The Interest object of \<open>ndn-cxx/src/interest.cpp\<close> with its wire image: Nonce, lifetime, Link and selected
  delegation, encoding and decoding, and the buffers that copies share. \<open>random::generateWord32\<close> is a parameter:
  the word, or the words, it returns. A throw gives the exception only, not the half-decoded object. The Nonce is stored in host order, which is little-endian here.
\<close>

definition tlv_Nonce :: u32 where "tlv_Nonce = 10"
definition tlv_InterestLifetime :: u32 where "tlv_InterestLifetime = 12"
definition tlv_SelectedDelegation :: u32 where "tlv_SelectedDelegation = 32"

lemmas interest_types = tlv_Nonce_def tlv_InterestLifetime_def tlv_SelectedDelegation_def

section \<open>Interest\<close>

text \<open>\<open>m_nonce\<close> of a decoded Interest lies inside \<open>m_wire\<close>; \<open>ip_nonceAt\<close> is where its value starts there.\<close>

record interest_packet =
  ip_name :: name
  ip_selectors :: selectors
  ip_nonce :: block
  ip_lifetime :: int
  ip_link :: block
  ip_selectedDelegation :: u64
  ip_wire :: "block option"
  ip_nonceAt :: nat

definition Interest_ctor :: interest_packet where
  "Interest_ctor = \<lparr>ip_name = [], ip_selectors = Selectors_ctor, ip_nonce = Block_default,
     ip_lifetime = milliseconds_min, ip_link = Block_default,
     ip_selectedDelegation = INVALID_SELECTED_DELEGATION_INDEX, ip_wire = None, ip_nonceAt = 0\<rparr>"

definition Interest_ctor_name :: "name \<Rightarrow> int \<Rightarrow> interest_packet" where
  "Interest_ctor_name n lifetime = Interest_ctor\<lparr>ip_name := n, ip_lifetime := lifetime\<rparr>"

definition Interest_hasLink :: "interest_packet \<Rightarrow> bool" where
  "Interest_hasLink ip \<longleftrightarrow> Block_hasWire (ip_link ip)"

definition Interest_hasSelectedDelegation :: "interest_packet \<Rightarrow> bool" where
  "Interest_hasSelectedDelegation ip \<longleftrightarrow> ip_selectedDelegation ip \<noteq> INVALID_SELECTED_DELEGATION_INDEX"

definition Interest_hasNonce :: "interest_packet \<Rightarrow> bool" where
  "Interest_hasNonce ip \<longleftrightarrow> Block_hasWire (ip_nonce ip)"

subsection \<open>Nonce\<close>

definition host_bytes :: "u32 \<Rightarrow> bytes" where
  "host_bytes n = rev (be_bytes 4 (unat n))"

definition host_u32 :: "bytes \<Rightarrow> u32" where
  "host_u32 bs = of_nat (be_val (rev bs))"

text \<open>\<open>std::memcpy\<close> over the octets from position \<open>i\<close>; the value of a block is the end of its wire.\<close>

definition overwrite :: "nat \<Rightarrow> bytes \<Rightarrow> bytes \<Rightarrow> bytes" where
  "overwrite i xs bs = take i bs @ xs @ drop (i + length xs) bs"

definition Block_overwrite :: "nat \<Rightarrow> bytes \<Rightarrow> block \<Rightarrow> block" where
  "Block_overwrite i xs b =
     (let w = overwrite i xs (blk_wire b)
      in b\<lparr>blk_wire := w, blk_payload := drop (length (blk_wire b) - length (blk_payload b)) w\<rparr>)"

definition Interest_setNonce :: "u32 \<Rightarrow> interest_packet \<Rightarrow> interest_packet result" where
  "Interest_setNonce nonce ip =
     (case ip_wire ip of
        Some w \<Rightarrow>
          if length (blk_payload (ip_nonce ip)) = 4
          then Inr (ip\<lparr>ip_wire := Some (Block_overwrite (ip_nonceAt ip) (host_bytes nonce) w),
                       ip_nonce := Block_overwrite (length (blk_wire (ip_nonce ip)) - 4) (host_bytes nonce) (ip_nonce ip)\<rparr>)
          else bind_result (makeBinaryBlock tlv_Nonce (host_bytes nonce)) (\<lambda>b. Inr (ip\<lparr>ip_nonce := b, ip_wire := None\<rparr>))
      | None \<Rightarrow> bind_result (makeBinaryBlock tlv_Nonce (host_bytes nonce)) (\<lambda>b. Inr (ip\<lparr>ip_nonce := b, ip_wire := None\<rparr>)))"

text \<open>The first statement of \<open>getNonce\<close>.\<close>

definition Interest_ensureNonce :: "u32 \<Rightarrow> interest_packet \<Rightarrow> interest_packet result" where
  "Interest_ensureNonce rand ip = (if \<not> Interest_hasNonce ip then Interest_setNonce rand ip else Inr ip)"

definition Interest_getNonce :: "u32 \<Rightarrow> interest_packet \<Rightarrow> (u32 \<times> interest_packet) result" where
  "Interest_getNonce rand ip =
     bind_result (Interest_ensureNonce rand ip) (\<lambda>ip1.
       if length (blk_payload (ip_nonce ip1)) = 4 then Inr (host_u32 (blk_payload (ip_nonce ip1)), ip1)
       else bind_result (readNonNegativeInteger_block (ip_nonce ip1)) (\<lambda>n. Inr (ucast n, ip1)))"

text \<open>The loop of \<open>refreshNonce\<close> draws until it gets another word. It is given the words the generator
  returns; the outer \<open>None\<close> says that they all equal the old Nonce.\<close>

definition Interest_refreshNonce :: "u32 list \<Rightarrow> interest_packet \<Rightarrow> interest_packet result option" where
  "Interest_refreshNonce rands ip =
     (if \<not> Interest_hasNonce ip then Some (Inr ip)
      else case Interest_getNonce 0 ip of
        Inl err \<Rightarrow> Some (Inl err)
      | Inr (oldNonce, ip1) \<Rightarrow>
          (case dropWhile (\<lambda>newNonce. newNonce = oldNonce) rands of
             [] \<Rightarrow> None
           | newNonce # _ \<Rightarrow> Some (Interest_setNonce newNonce ip1)))"

subsection \<open>Encoding and decoding\<close>

definition hasLifetime :: "interest_packet \<Rightarrow> bool" where
  "hasLifetime ip \<longleftrightarrow> ip_lifetime ip \<ge> 0 \<and> ip_lifetime ip \<noteq> DEFAULT_INTEREST_LIFETIME"

definition encodeLink :: "'e encoding_impl \<Rightarrow> interest_packet \<Rightarrow> 'e \<Rightarrow> (nat \<times> 'e) result" where
  "encodeLink impl ip e =
     (if Interest_hasLink ip then
        bind_result (add_part (Interest_hasSelectedDelegation ip)
          (Inr \<circ> prependNonNegativeIntegerBlock impl tlv_SelectedDelegation (ip_selectedDelegation ip)) (0, e))
          (add_part True (Inr \<circ> prependBlock impl (ip_link ip)))
      else if Interest_hasSelectedDelegation ip
      then Inl (InvalidArgument ''BOOST_ASSERT(!hasSelectedDelegation())'')
      else Inr (0, e))"

definition Interest_wireEncode :: "'e encoding_impl \<Rightarrow> u32 \<Rightarrow> interest_packet \<Rightarrow> 'e \<Rightarrow> (nat \<times> 'e) result" where
  "Interest_wireEncode impl rand ip e =
     bind_result (encodeLink impl ip e) (\<lambda>r1.
     bind_result (add_part (hasLifetime ip)
       (Inr \<circ> prependNonNegativeIntegerBlock impl tlv_InterestLifetime (of_int (ip_lifetime ip))) r1) (\<lambda>r2.
     bind_result (Interest_ensureNonce rand ip) (\<lambda>ip1.
     bind_result (add_part True (Inr \<circ> prependBlock impl (ip_nonce ip1)) r2) (\<lambda>r3.
     bind_result (add_part (\<not> Selectors_empty (ip_selectors ip)) (Selectors_wireEncode impl (ip_selectors ip)) r3) (\<lambda>r4.
     bind_result (add_part True (Inr \<circ> Name_wireEncode impl (ip_name ip)) r4) (\<lambda>r5.
       Inr (prepend_header impl tlv_Interest r5)))))))"

text \<open>Where the value of the first element of type \<open>t\<close> starts among the elements.\<close>

fun value_offset :: "u32 \<Rightarrow> block list \<Rightarrow> nat" where
  "value_offset t [] = 0"
| "value_offset t (b # bs) =
     (if blk_type b = t then length (blk_wire b) - length (blk_payload b)
      else length (blk_wire b) + value_offset t bs)"

definition decodeSelectedDelegation :: "block list \<Rightarrow> block \<Rightarrow> u64 \<Rightarrow> u64 result" where
  "decodeSelectedDelegation els m_link old =
     decode_part els tlv_SelectedDelegation (\<lambda>b.
       if \<not> Block_hasWire m_link then Inl (TlvError ''Interest contains selectedDelegation, but no LINK object'')
       else bind_result (readNonNegativeInteger_block b) (\<lambda>selectedDelegation.
         bind_result (Link_countDelegationsFromWire m_link) (\<lambda>count.
           if selectedDelegation < of_nat count then Inr selectedDelegation
           else Inl (TlvError ''Invalid selected delegation index when decoding Interest'')))) old"

definition Interest_wireDecode :: "block \<Rightarrow> interest_packet \<Rightarrow> interest_packet result" where
  "Interest_wireDecode wire ip =
     bind_result (Block_parse (blk_payload wire)) (\<lambda>els.
       if blk_type wire \<noteq> tlv_Interest then Inl (TlvError ''Unexpected TLV number when decoding Interest'')
       else
         bind_result (bind_result (Block_get els tlv_Name) Name_wireDecode) (\<lambda>n.
         bind_result (decode_part els tlv_Selectors Selectors_wireDecode Selectors_ctor) (\<lambda>s.
         bind_result (Block_get els tlv_Nonce) (\<lambda>nonce.
         bind_result (decode_part els tlv_InterestLifetime
           (\<lambda>b. bind_result (readNonNegativeInteger_block b) (\<lambda>t. Inr (ms_of_u64 t))) DEFAULT_INTEREST_LIFETIME) (\<lambda>lifetime.
         bind_result (decode_part els tlv_Data Inr (ip_link ip)) (\<lambda>m_link.
         bind_result (decodeSelectedDelegation els m_link (ip_selectedDelegation ip)) (\<lambda>sel.
           Inr \<lparr>ip_name = n, ip_selectors = s, ip_nonce = nonce, ip_lifetime = lifetime, ip_link = m_link,
                ip_selectedDelegation = sel, ip_wire = Some wire,
                ip_nonceAt = length (blk_wire wire) - length (blk_payload wire) + value_offset tlv_Nonce els\<rparr>)))))))"

text \<open>\<open>Interest(const Block&)\<close> initialises neither the lifetime, which decoding sets, nor the index of the
  selected delegation, which decoding sets only if the element is there: \<open>uninit\<close> is what the storage held.\<close>

definition Interest_ctor_block :: "u64 \<Rightarrow> block \<Rightarrow> interest_packet result" where
  "Interest_ctor_block uninit wire = Interest_wireDecode wire (Interest_ctor\<lparr>ip_selectedDelegation := uninit\<rparr>)"

definition Interest_toWire :: "u32 \<Rightarrow> interest_packet \<Rightarrow> (block \<times> interest_packet) result" where
  "Interest_toWire rand ip =
     (case ip_wire ip of
        Some w \<Rightarrow> Inr (w, ip)
      | None \<Rightarrow>
          bind_result (Interest_wireEncode EstimatorTag rand ip ()) (\<lambda>(estimatedSize, _).
          bind_result (Interest_ensureNonce rand ip) (\<lambda>ip1.
          bind_result (Interest_wireEncode EncoderTag rand ip1 (Encoder_ctor estimatedSize 0)) (\<lambda>(_, buffer).
          bind_result (Encoder_block buffer) (\<lambda>w.
          bind_result (Interest_wireDecode w ip1) (\<lambda>ip2. Inr (w, ip2)))))))"

subsection \<open>Setters\<close>

definition Interest_setName :: "name \<Rightarrow> interest_packet \<Rightarrow> interest_packet" where
  "Interest_setName n ip = ip\<lparr>ip_name := n, ip_wire := None\<rparr>"

definition Interest_setInterestLifetime :: "int \<Rightarrow> interest_packet \<Rightarrow> interest_packet" where
  "Interest_setInterestLifetime t ip = ip\<lparr>ip_lifetime := t, ip_wire := None\<rparr>"

definition Interest_setSelectors :: "selectors \<Rightarrow> interest_packet \<Rightarrow> interest_packet" where
  "Interest_setSelectors s ip = ip\<lparr>ip_selectors := s, ip_wire := None\<rparr>"

definition Interest_unsetSelectedDelegation :: "interest_packet \<Rightarrow> interest_packet" where
  "Interest_unsetSelectedDelegation ip =
     ip\<lparr>ip_selectedDelegation := INVALID_SELECTED_DELEGATION_INDEX, ip_wire := None\<rparr>"

definition Interest_setLink :: "block \<Rightarrow> interest_packet \<Rightarrow> interest_packet result" where
  "Interest_setLink l ip =
     (if \<not> Block_hasWire l then Inl (TlvError ''The given link does not have a wire format'')
      else Inr (Interest_unsetSelectedDelegation (ip\<lparr>ip_link := l, ip_wire := None\<rparr>)))"

definition Interest_unsetLink :: "interest_packet \<Rightarrow> interest_packet" where
  "Interest_unsetLink ip = Interest_unsetSelectedDelegation (ip\<lparr>ip_link := Block_default, ip_wire := None\<rparr>)"

definition Interest_getLink :: "interest_packet \<Rightarrow> link result" where
  "Interest_getLink ip =
     (if Interest_hasLink ip then Link_wireDecode (ip_link ip) \<lparr>lk_data = Data_ctor, lk_delegations = []\<rparr>
      else Inl (TlvError ''There is no encapsulated link object''))"

definition Interest_getSelectedDelegation :: "interest_packet \<Rightarrow> name result" where
  "Interest_getSelectedDelegation ip =
     (if \<not> Interest_hasSelectedDelegation ip then Inl (TlvError ''There is no encapsulated selected delegation'')
      else bind_result (Link_getDelegationFromWire (ip_link ip) (unat (ip_selectedDelegation ip))) (Inr \<circ> snd))"

definition Interest_setSelectedDelegation_name :: "name \<Rightarrow> interest_packet \<Rightarrow> interest_packet result" where
  "Interest_setSelectedDelegation_name n ip =
     bind_result (Link_findDelegationFromWire (ip_link ip) n) (\<lambda>delegationIndex.
       if delegationIndex \<noteq> INVALID_SELECTED_DELEGATION_INDEX
       then Inr (ip\<lparr>ip_selectedDelegation := delegationIndex, ip_wire := None\<rparr>)
       else Inl (InvalidArgument ''Invalid selected delegation name''))"

definition Interest_setSelectedDelegation :: "u64 \<Rightarrow> interest_packet \<Rightarrow> interest_packet result" where
  "Interest_setSelectedDelegation delegationIndex ip =
     bind_result (Link_wireDecode (ip_link ip) \<lparr>lk_data = Data_ctor, lk_delegations = []\<rparr>) (\<lambda>l.
       if unat delegationIndex \<ge> length (lk_delegations l) then Inl (TlvError ''Invalid selected delegation index'')
       else Inr (ip\<lparr>ip_selectedDelegation := delegationIndex, ip_wire := None\<rparr>))"

section \<open>Round trip\<close>

text \<open>The elements in wire order: present or not, type, value.\<close>

definition interest_parts :: "interest_packet \<Rightarrow> (bool \<times> u32 \<times> bytes) list" where
  "interest_parts ip =
    [(True, tlv_Name, name_payload (ip_name ip)),
     (\<not> Selectors_empty (ip_selectors ip), tlv_Selectors, selectors_payload (ip_selectors ip)),
     (True, tlv_Nonce, blk_payload (ip_nonce ip)),
     (hasLifetime ip, tlv_InterestLifetime, encodeNonNegativeInteger (of_int (ip_lifetime ip))),
     (Interest_hasLink ip, tlv_Data, blk_payload (ip_link ip)),
     (Interest_hasSelectedDelegation ip, tlv_SelectedDelegation, encodeNonNegativeInteger (ip_selectedDelegation ip))]"

definition parts_wire :: "(bool \<times> u32 \<times> bytes) list \<Rightarrow> bytes" where
  "parts_wire parts = concat (map (\<lambda>(p, t, v). if p then encodeBlock t v else []) parts)"

definition parts_blocks :: "(bool \<times> u32 \<times> bytes) list \<Rightarrow> block list" where
  "parts_blocks parts = map (mk_block \<circ> snd) (filter fst parts)"

definition interest_payload :: "interest_packet \<Rightarrow> bytes" where
  "interest_payload ip = parts_wire (interest_parts ip)"

abbreviation interest_block :: "interest_packet \<Rightarrow> block" where
  "interest_block ip \<equiv> mk_block (tlv_Interest, interest_payload ip)"

text \<open>An Interest built through the interface: a selected delegation is one of those of its Link.\<close>

definition interest_wf :: "interest_packet \<Rightarrow> bool" where
  "interest_wf ip \<longleftrightarrow>
     selectors_wf (ip_selectors ip) \<and>
     blk_type (ip_nonce ip) = tlv_Nonce \<and> Interest_hasNonce ip \<and> blk_ok (ip_nonce ip) \<and>
     ip_lifetime ip < 2 ^ 63 \<and>
     (Interest_hasLink ip \<longrightarrow> blk_type (ip_link ip) = tlv_Data \<and> blk_ok (ip_link ip)) \<and>
     (Interest_hasSelectedDelegation ip \<longrightarrow> Interest_hasLink ip \<and>
        (case Link_countDelegationsFromWire (ip_link ip) of
           Inl _ \<Rightarrow> False | Inr count \<Rightarrow> ip_selectedDelegation ip < of_nat count)) \<and>
     ip_wire ip = None \<and> length (interest_payload ip) < 2 ^ 64"

definition interest_decoded :: "interest_packet \<Rightarrow> interest_packet \<Rightarrow> interest_packet" where
  "interest_decoded ip0 ip =
     \<lparr>ip_name = ip_name ip, ip_selectors = ip_selectors ip, ip_nonce = ip_nonce ip,
      ip_lifetime = (if ip_lifetime ip \<ge> 0 then ip_lifetime ip else DEFAULT_INTEREST_LIFETIME),
      ip_link = (if Interest_hasLink ip then ip_link ip else ip_link ip0),
      ip_selectedDelegation =
        (if Interest_hasSelectedDelegation ip then ip_selectedDelegation ip else ip_selectedDelegation ip0),
      ip_wire = Some (interest_block ip),
      ip_nonceAt = length (encodeBlock tlv_Interest (interest_payload ip)) - length (interest_payload ip)
        + value_offset tlv_Nonce (parts_blocks (interest_parts ip))\<rparr>"

lemma ok_block_eq: "Block_hasWire b \<Longrightarrow> blk_ok b \<Longrightarrow> blk_type b = t \<Longrightarrow> mk_block (t, blk_payload b) = b"
  by (cases b) (auto simp: blk_ok_def mk_block_def)

lemma Selectors_empty_ctor: "selectors_wf s \<Longrightarrow> Selectors_empty s \<Longrightarrow> s = Selectors_ctor"
  by (cases s) (auto simp: selectors_wf_def selector_int_def Selectors_empty_def Selectors_ctor_def
      KeyLocator_empty_def Exclude_empty_def)

lemma bind_result_unit: "bind_result r Inr = r"
  by (cases r) simp_all

context packet_rel
begin

lemma rel_interest:
  assumes wf: "interest_wf ip"
  shows "writes R (Interest_wireEncode impl rand ip) (encodeBlock tlv_Interest (interest_payload ip))"
proof (rule writesI)
  fix e b0 assume e: "R e b0"
  have known: "keyLocator_known (publisherPublicKeyLocator (ip_selectors ip))"
    using wf by (simp add: interest_wf_def selectors_wf_def keyLocator_wf_known)
  have nonce: "Interest_ensureNonce rand ip = Inr ip" using wf by (simp add: Interest_ensureNonce_def interest_wf_def)
  have wn: "wire_of (ip_nonce ip) = encodeBlock tlv_Nonce (blk_payload (ip_nonce ip))"
    using wf by (simp add: interest_wf_def wire_of_ok)
  define l where "l = (if Interest_hasLink ip then encodeBlock tlv_Data (blk_payload (ip_link ip)) else []) @
      (if Interest_hasSelectedDelegation ip then encodeBlock tlv_SelectedDelegation (encodeNonNegativeInteger (ip_selectedDelegation ip)) else [])"
  have link: "yields R (encodeLink impl ip e) (length l) (l @ b0)"
  proof (cases "Interest_hasLink ip")
    case True
    then have w: "wire_of (ip_link ip) = encodeBlock tlv_Data (blk_payload (ip_link ip))"
      using wf by (simp add: interest_wf_def wire_of_ok)
    have "yields R (bind_result (add_part (Interest_hasSelectedDelegation ip)
          (Inr \<circ> prependNonNegativeIntegerBlock impl tlv_SelectedDelegation (ip_selectedDelegation ip)) (0, e)) (\<lambda>r1.
          bind_result (add_part True (Inr \<circ> prependBlock impl (ip_link ip)) r1) Inr)) (length l) (l @ b0)"
      apply (rule yields_add_part [OF rel_nniBlock e])
      apply (erule yields_add_part [OF writes_block])
      apply (use True w in \<open>simp add: yields_def l_def del: tlv_types\<close>)
      done
    then show ?thesis using True by (simp add: encodeLink_def bind_result_unit)
  next
    case False
    then show ?thesis using wf e by (simp add: encodeLink_def yields_def l_def interest_wf_def)
  qed
  then obtain e1 where e1: "encodeLink impl ip e = Inr (length l, e1)" "R e1 (l @ b0)" by (auto simp: yields_def)
  show "yields R (Interest_wireEncode impl rand ip e) (length (encodeBlock tlv_Interest (interest_payload ip)))
      (encodeBlock tlv_Interest (interest_payload ip) @ b0)"
    unfolding Interest_wireEncode_def e1(1) nonce bind_result.simps
    apply (rule yields_add_part [OF rel_nniBlock e1(2)])
    apply (erule yields_add_part [OF writes_block])
    apply (erule yields_add_part [OF rel_selectors [OF known]])
    apply (erule yields_add_part [OF writes_name])
    apply (rule yields_header)
     apply (simp only: interest_payload_def parts_wire_def interest_parts_def list.map concat.simps prod.case
        append_assoc append_Nil2 if_True wn l_def)
    apply (simp add: interest_payload_def parts_wire_def interest_parts_def wn l_def del: tlv_types)
    done
qed

end

lemma interest_parts_part:
  assumes "(p, t, v) \<in> set (interest_parts ip)"
  shows "Block_find (parts_blocks (interest_parts ip)) t = (if p then Some (mk_block (t, v)) else None)"
proof -
  have "distinct (map (fst \<circ> snd) (interest_parts ip))" by (simp add: interest_parts_def interest_types)
  from find_part [OF this assms] show ?thesis by (simp add: parts_blocks_def)
qed

lemma interest_parts_mem:
  "(True, tlv_Name, name_payload (ip_name ip)) \<in> set (interest_parts ip)"
  "(\<not> Selectors_empty (ip_selectors ip), tlv_Selectors, selectors_payload (ip_selectors ip)) \<in> set (interest_parts ip)"
  "(True, tlv_Nonce, blk_payload (ip_nonce ip)) \<in> set (interest_parts ip)"
  "(hasLifetime ip, tlv_InterestLifetime, encodeNonNegativeInteger (of_int (ip_lifetime ip))) \<in> set (interest_parts ip)"
  "(Interest_hasLink ip, tlv_Data, blk_payload (ip_link ip)) \<in> set (interest_parts ip)"
  "(Interest_hasSelectedDelegation ip, tlv_SelectedDelegation, encodeNonNegativeInteger (ip_selectedDelegation ip)) \<in> set (interest_parts ip)"
  unfolding interest_parts_def list.set by blast+

lemmas interest_find = interest_parts_mem [THEN interest_parts_part]

lemma Interest_wireDecode_payload:
  assumes wf: "interest_wf ip"
  shows "Interest_wireDecode (interest_block ip) ip0 = Inr (interest_decoded ip0 ip)"
proof -
  note find = interest_find [of ip]
  let ?els = "parts_blocks (interest_parts ip)"
  have parse: "Block_parse (interest_payload ip) = Inr ?els"
    unfolding interest_payload_def parts_wire_def parts_blocks_def
    by (rule parse_parts) (use wf in \<open>simp add: interest_wf_def interest_payload_def parts_wire_def\<close>)
  have len: "length (name_payload (ip_name ip)) < 2 ^ 64"
    using wf by (simp add: interest_wf_def interest_payload_def parts_wire_def interest_parts_def length_encodeBlock)
  have name: "bind_result (Block_get ?els tlv_Name) Name_wireDecode = Inr (ip_name ip)"
    using Name_wireDecode_payload [OF len, of "mk_block (tlv_Name, name_payload (ip_name ip))"]
    by (simp add: Block_get_def find(1) del: bind_result_Inr tlv_types)
  have sel: "decode_part ?els tlv_Selectors Selectors_wireDecode Selectors_ctor = Inr (ip_selectors ip)"
    using wf Selectors_wireDecode_payload [of "ip_selectors ip" "mk_block (tlv_Selectors, selectors_payload (ip_selectors ip))"]
      Selectors_empty_ctor [of "ip_selectors ip"]
    by (auto simp: decode_part_def find(2) interest_wf_def simp del: tlv_types)
  have nonce: "Block_get ?els tlv_Nonce = Inr (ip_nonce ip)"
    using wf ok_block_eq [of "ip_nonce ip" tlv_Nonce]
    by (simp add: Block_get_def find(3) interest_wf_def Interest_hasNonce_def)
  have life: "decode_part ?els tlv_InterestLifetime
      (\<lambda>b. bind_result (readNonNegativeInteger_block b) (\<lambda>t. Inr (ms_of_u64 t))) DEFAULT_INTEREST_LIFETIME
      = Inr (if ip_lifetime ip \<ge> 0 then ip_lifetime ip else DEFAULT_INTEREST_LIFETIME)"
    using wf ms_encode [of "ip_lifetime ip"]
    by (auto simp: decode_part_def find(4) read_nni_block interest_wf_def hasLifetime_def)
  have link: "decode_part ?els tlv_Data Inr (ip_link ip0) = Inr (if Interest_hasLink ip then ip_link ip else ip_link ip0)"
    using wf ok_block_eq [of "ip_link ip" tlv_Data]
    by (simp add: decode_part_def find(5) interest_wf_def Interest_hasLink_def del: tlv_types)
  have deleg: "decodeSelectedDelegation ?els (if Interest_hasLink ip then ip_link ip else ip_link ip0) (ip_selectedDelegation ip0)
      = Inr (if Interest_hasSelectedDelegation ip then ip_selectedDelegation ip else ip_selectedDelegation ip0)"
    using wf
    by (auto simp: decodeSelectedDelegation_def decode_part_def find(6) interest_wf_def Interest_hasLink_def read_nni_block
        split: sum.splits)
  show ?thesis
    unfolding Interest_wireDecode_def mk_block_simps parse bind_result.simps
    by (simp add: name sel nonce life link deleg interest_decoded_def del: bind_result_Inr tlv_types)
qed

lemma Interest_toWire_eq:
  assumes wf: "interest_wf ip"
  shows "Interest_toWire rand ip = Inr (interest_block ip, interest_decoded ip ip)"
proof -
  have len: "length (interest_payload ip) < 2 ^ 64" and nonce: "Interest_ensureNonce rand ip = Inr ip"
    using wf by (simp_all add: Interest_ensureNonce_def interest_wf_def)
  have "bind_result (Interest_wireEncode EstimatorTag rand ip ()) (\<lambda>(estimatedSize, _).
          bind_result (Interest_wireEncode EncoderTag rand ip (Encoder_ctor estimatedSize 0)) (\<lambda>(_, buffer). Encoder_block buffer))
      = Inr (interest_block ip)"
    using toWire_of_writes [OF pest.rel_interest [OF wf] penc.rel_interest [OF wf] refl len] by (simp only: mk_block_def prod.case)
  with wf Interest_wireDecode_payload [OF wf, of ip] show ?thesis
    by (fastforce simp: Interest_toWire_def interest_wf_def nonce)
qed

section \<open>Replacing the Nonce in place\<close>

definition nonce_block :: "u32 \<Rightarrow> block" where
  "nonce_block n = mk_block (tlv_Nonce, host_bytes n)"

lemma length_host_bytes [simp]: "length (host_bytes n) = 4"
  by (simp add: host_bytes_def del: be_bytes.simps)

lemma host_u32_bytes [simp]: "host_u32 (host_bytes n) = n"
  using unat_u32_less [of n] by (simp add: host_u32_def host_bytes_def be_simps del: be_bytes.simps)

definition block_header :: "u32 \<Rightarrow> nat \<Rightarrow> bytes" where
  "block_header t n = encodeVarNumber (ucast t) @ encodeVarNumber (of_nat n)"

lemma encodeBlock_header: "encodeBlock t v = block_header t (length v) @ v"
  by (simp add: encodeBlock_def block_header_def)

lemma overwrite_mid: "length xs = length ys \<Longrightarrow> i = length a \<Longrightarrow> overwrite i xs (a @ ys @ b) = a @ xs @ b"
  by (simp add: overwrite_def)

text \<open>The octets before and after the Nonce.\<close>

definition before_nonce :: "interest_packet \<Rightarrow> bytes" where
  "before_nonce ip = encodeBlock tlv_Name (name_payload (ip_name ip)) @
     (if \<not> Selectors_empty (ip_selectors ip) then encodeBlock tlv_Selectors (selectors_payload (ip_selectors ip)) else [])"

definition after_nonce :: "interest_packet \<Rightarrow> bytes" where
  "after_nonce ip = parts_wire (drop 3 (interest_parts ip))"

lemma interest_payload_split:
  "interest_payload ip = before_nonce ip @ block_header tlv_Nonce (length (blk_payload (ip_nonce ip)))
     @ blk_payload (ip_nonce ip) @ after_nonce ip"
  by (simp add: interest_payload_def after_nonce_def before_nonce_def parts_wire_def interest_parts_def
      encodeBlock_header [of tlv_Nonce])

lemma nonce_offset: "value_offset tlv_Nonce (parts_blocks (interest_parts ip))
    = length (before_nonce ip) + length (block_header tlv_Nonce (length (blk_payload (ip_nonce ip))))"
  by (simp add: parts_blocks_def interest_parts_def before_nonce_def interest_types)
    (simp add: encodeBlock_header)

lemma nonce_block_simps [simp]:
  "blk_type (nonce_block n) = tlv_Nonce" "blk_payload (nonce_block n) = host_bytes n"
  "blk_wire (nonce_block n) = encodeBlock tlv_Nonce (host_bytes n)" "blk_ok (nonce_block n)"
  by (simp_all add: nonce_block_def blk_ok_mk)

lemma other_parts [simp]:
  "hasLifetime (ip\<lparr>ip_nonce := b\<rparr>) = hasLifetime ip" "Interest_hasLink (ip\<lparr>ip_nonce := b\<rparr>) = Interest_hasLink ip"
  "Interest_hasSelectedDelegation (ip\<lparr>ip_nonce := b\<rparr>) = Interest_hasSelectedDelegation ip"
  "before_nonce (ip\<lparr>ip_nonce := b\<rparr>) = before_nonce ip" "after_nonce (ip\<lparr>ip_nonce := b\<rparr>) = after_nonce ip"
  by (simp_all add: hasLifetime_def Interest_hasLink_def Interest_hasSelectedDelegation_def before_nonce_def)
    (simp add: after_nonce_def interest_parts_def hasLifetime_def Interest_hasLink_def Interest_hasSelectedDelegation_def)

lemma nonce_wf:
  assumes "interest_wf ip" "length (blk_payload (ip_nonce ip)) = 4"
  shows "interest_wf (ip\<lparr>ip_nonce := nonce_block n\<rparr>)"
proof -
  have "length (interest_payload (ip\<lparr>ip_nonce := nonce_block n\<rparr>)) = length (interest_payload ip)"
    using assms(2) by (simp add: interest_payload_split)
  with assms(1) show ?thesis
    by (auto simp: interest_wf_def Interest_hasNonce_def Block_hasWire_def split: sum.splits)
qed

lemma setNonce_in_place:
  assumes wf: "interest_wf ip" and four: "length (blk_payload (ip_nonce ip)) = 4"
  shows "Interest_setNonce n (interest_decoded ip0 ip) = Inr (interest_decoded ip0 (ip\<lparr>ip_nonce := nonce_block n\<rparr>))"
proof -
  let ?ip = "ip\<lparr>ip_nonce := nonce_block n\<rparr>"
  let ?h = "block_header tlv_Interest (length (interest_payload ip))" and ?nh = "block_header tlv_Nonce 4"
  have pay: "interest_payload ip = before_nonce ip @ ?nh @ blk_payload (ip_nonce ip) @ after_nonce ip"
    and pay': "interest_payload ?ip = before_nonce ip @ ?nh @ host_bytes n @ after_nonce ip"
    using four by (simp_all add: interest_payload_split)
  have len: "length (interest_payload ?ip) = length (interest_payload ip)" using four by (simp add: pay pay')
  have at: "ip_nonceAt (interest_decoded ip0 ip) = length (?h @ before_nonce ip @ ?nh)"
    using four by (simp add: interest_decoded_def nonce_offset encodeBlock_header)
  have at': "ip_nonceAt (interest_decoded ip0 ?ip) = ip_nonceAt (interest_decoded ip0 ip)"
    using four len by (simp add: interest_decoded_def nonce_offset encodeBlock_header)
  have w: "overwrite (ip_nonceAt (interest_decoded ip0 ip)) (host_bytes n) (encodeBlock tlv_Interest (interest_payload ip))
      = encodeBlock tlv_Interest (interest_payload ?ip)"
    using overwrite_mid [OF _ at, of "host_bytes n" "blk_payload (ip_nonce ip)" "after_nonce ip"] four
    by (simp add: encodeBlock_header len pay pay')
  have wire: "Block_overwrite (ip_nonceAt (interest_decoded ip0 ip)) (host_bytes n) (interest_block ip) = interest_block ?ip"
    using len by (simp add: Block_overwrite_def w del: tlv_types) (simp add: mk_block_def encodeBlock_header)
  have nw: "blk_wire (ip_nonce ip) = ?nh @ blk_payload (ip_nonce ip)" "blk_type (ip_nonce ip) = tlv_Nonce"
    using wf four by (auto simp: interest_wf_def blk_ok_def Interest_hasNonce_def encodeBlock_header)
  have nonce: "Block_overwrite (length (blk_wire (ip_nonce ip)) - 4) (host_bytes n) (ip_nonce ip) = nonce_block n"
    using four nw overwrite_mid [of "host_bytes n" "blk_payload (ip_nonce ip)" _ ?nh "[]"]
    by (cases "ip_nonce ip") (simp add: Block_overwrite_def nonce_block_def mk_block_def encodeBlock_header)
  have d: "ip_wire (interest_decoded ip0 ip) = Some (interest_block ip)" "ip_nonce (interest_decoded ip0 ip) = ip_nonce ip"
    by (simp_all add: interest_decoded_def)
  have "Interest_setNonce n (interest_decoded ip0 ip)
      = Inr ((interest_decoded ip0 ip)\<lparr>ip_wire := Some (interest_block ?ip), ip_nonce := nonce_block n\<rparr>)"
    using four by (simp add: Interest_setNonce_def d wire nonce del: bind_result_Inr tlv_types)
  also have "\<dots> = Inr (interest_decoded ip0 ?ip)"
    using at' by (simp add: interest_decoded_def)
  finally show ?thesis .
qed

lemma getNonce_decoded:
  "interest_wf ip \<Longrightarrow> length (blk_payload (ip_nonce ip)) = 4 \<Longrightarrow>
   Interest_getNonce rand (interest_decoded ip0 ip) = Inr (host_u32 (blk_payload (ip_nonce ip)), interest_decoded ip0 ip)"
  by (simp add: Interest_getNonce_def Interest_ensureNonce_def Interest_hasNonce_def interest_decoded_def interest_wf_def)

text \<open>The loop of \<open>refreshNonce\<close> ends as soon as the generator returns another word, and the Nonce has then changed.\<close>

lemma refreshNonce_decoded:
  assumes wf: "interest_wf ip" and four: "length (blk_payload (ip_nonce ip)) = 4"
    and r: "r \<in> set rands" "r \<noteq> host_u32 (blk_payload (ip_nonce ip))"
  shows "\<exists>n. n \<noteq> host_u32 (blk_payload (ip_nonce ip)) \<and>
    Interest_refreshNonce rands (interest_decoded ip0 ip) = Some (Inr (interest_decoded ip0 (ip\<lparr>ip_nonce := nonce_block n\<rparr>)))"
proof -
  let ?old = "host_u32 (blk_payload (ip_nonce ip))"
  have "dropWhile (\<lambda>n. n = ?old) rands \<noteq> []" using r by (auto simp: dropWhile_eq_Nil_conv)
  then obtain n ns where n: "dropWhile (\<lambda>n. n = ?old) rands = n # ns" by (meson neq_Nil_conv)
  then have "n \<noteq> ?old" using hd_dropWhile [of "\<lambda>n. n = ?old" rands] by auto
  moreover have "Interest_hasNonce (interest_decoded ip0 ip)"
    using wf by (simp add: Interest_hasNonce_def interest_decoded_def interest_wf_def)
  ultimately show ?thesis
    using n by (intro exI [of _ n]) (simp add: Interest_refreshNonce_def getNonce_decoded [OF wf four] setNonce_in_place [OF wf four])
qed

section \<open>Copies share the buffer\<close>

text \<open>A copied \<open>Block\<close> points into the same \<open>Buffer\<close>. The pool holds the Interest objects, each with the
  identity of the buffer its Nonce lies in, and the next identity to use. \<open>setNonce\<close> on an encoded
  Interest writes into the buffer, and so into every object that shares it.\<close>

record interest_pool =
  pl_objects :: "(nat \<times> interest_packet) list"
  pl_next :: nat

definition nonce_memcpy :: "u32 \<Rightarrow> interest_packet \<Rightarrow> interest_packet" where
  "nonce_memcpy nonce ip =
     ip\<lparr>ip_wire := map_option (Block_overwrite (ip_nonceAt ip) (host_bytes nonce)) (ip_wire ip),
        ip_nonce := Block_overwrite (length (blk_wire (ip_nonce ip)) - 4) (host_bytes nonce) (ip_nonce ip)\<rparr>"

definition pool_copy :: "nat \<Rightarrow> interest_pool \<Rightarrow> interest_pool" where
  "pool_copy i pl = pl\<lparr>pl_objects := pl_objects pl @ [pl_objects pl ! i]\<rparr>"

definition pool_setNonce :: "nat \<Rightarrow> u32 \<Rightarrow> interest_pool \<Rightarrow> interest_pool result" where
  "pool_setNonce i nonce pl =
     (let (buf, ip) = pl_objects pl ! i
      in if ip_wire ip \<noteq> None \<and> length (blk_payload (ip_nonce ip)) = 4
         then Inr (pl\<lparr>pl_objects := map (\<lambda>(b, q). (b, if b = buf then nonce_memcpy nonce q else q)) (pl_objects pl)\<rparr>)
         else bind_result (Interest_setNonce nonce ip) (\<lambda>ip'.
           Inr \<lparr>pl_objects = (pl_objects pl)[i := (pl_next pl, ip')], pl_next = pl_next pl + 1\<rparr>))"

text \<open>What \<open>Forwarder::onOutgoingInterest\<close> does when the strategy wants a new Nonce: it copies the Interest
  of the in-record and sets the Nonce of the copy, which is the last object of the pool.\<close>

definition copy_with_new_nonce :: "nat \<Rightarrow> u32 \<Rightarrow> interest_pool \<Rightarrow> interest_pool result" where
  "copy_with_new_nonce i nonce pl = pool_setNonce (length (pl_objects pl)) nonce (pool_copy i pl)"

lemma memcpy_setNonce:
  "ip_wire ip = Some w \<Longrightarrow> length (blk_payload (ip_nonce ip)) = 4 \<Longrightarrow> Interest_setNonce n ip = Inr (nonce_memcpy n ip)"
  by (simp add: Interest_setNonce_def nonce_memcpy_def)

lemma copy_alters_original:
  assumes i: "i < length (pl_objects pl)" "pl_objects pl ! i = (buf, interest_decoded ip0 ip)"
    and wf: "interest_wf ip" and four: "length (blk_payload (ip_nonce ip)) = 4"
  shows "\<exists>pl'. copy_with_new_nonce i n pl = Inr pl' \<and>
    pl_objects pl' ! i = (buf, interest_decoded ip0 (ip\<lparr>ip_nonce := nonce_block n\<rparr>)) \<and>
    pl_objects pl' ! length (pl_objects pl) = pl_objects pl' ! i"
proof -
  let ?d = "interest_decoded ip0 ip"
  have d: "ip_wire ?d = Some (interest_block ip)" "length (blk_payload (ip_nonce ?d)) = 4"
    using four by (simp_all add: interest_decoded_def)
  have "nonce_memcpy n ?d = interest_decoded ip0 (ip\<lparr>ip_nonce := nonce_block n\<rparr>)"
    using memcpy_setNonce [OF d] setNonce_in_place [OF wf four] by simp
  with i d show ?thesis
    by (simp add: copy_with_new_nonce_def pool_copy_def pool_setNonce_def nth_append)
qed

section \<open>What decoding guarantees\<close>

lemma Block_find_type: "Block_find els t = Some b \<Longrightarrow> blk_type b = t"
  by (auto simp: Block_find_def find_Some_iff)

lemma Block_get_type: "Block_get els t = Inr b \<Longrightarrow> blk_type b = t"
  by (auto simp: Block_get_def dest: Block_find_type split: option.splits)

text \<open>Whatever the octets were: the Nonce and the Link have their types, and the index of the selected
  delegation is the one the object had before, or that of a delegation of the Link.\<close>

definition delegation_in_range :: "interest_packet \<Rightarrow> bool" where
  "delegation_in_range ip \<longleftrightarrow> Block_hasWire (ip_link ip) \<and>
     (case Link_countDelegationsFromWire (ip_link ip) of
        Inl _ \<Rightarrow> False | Inr count \<Rightarrow> ip_selectedDelegation ip < of_nat count)"

lemma Interest_wireDecode_typed:
  assumes "Interest_wireDecode wire ip0 = Inr ip"
  shows "blk_type (ip_nonce ip) = tlv_Nonce"
    and "ip_link ip = ip_link ip0 \<or> blk_type (ip_link ip) = tlv_Data"
    and "ip_selectedDelegation ip = ip_selectedDelegation ip0 \<or> delegation_in_range ip"
    and "ip_wire ip = Some wire"
  using assms
  by (auto simp: Interest_wireDecode_def decode_part_def decodeSelectedDelegation_def delegation_in_range_def
      dest: Block_get_type Block_find_type split: if_splits option.splits simp del: tlv_types)

section \<open>Selected delegation\<close>

text \<open>Selecting a delegation by its name, and reading it back.\<close>

lemma setSelectedDelegation_eq:
  assumes c: "carries ds d" and link: "ip_link ip = data_block d" and len: "length ds < 2 ^ 64 - 1"
  shows "if \<exists>x \<in> set ds. Name_equals (snd x) n
    then \<exists>ip' x. Interest_setSelectedDelegation_name n ip = Inr ip' \<and> x \<in> set ds \<and> Name_equals (snd x) n \<and>
           Interest_getSelectedDelegation ip' = Inr (snd x)
    else Interest_setSelectedDelegation_name n ip = Inl (InvalidArgument ''Invalid selected delegation name'')"
proof -
  have small: "\<forall>x \<in> set ds. length (name_payload (snd x)) < 2 ^ 64"
    using c delegation_small(2) by (auto simp: carries_def)
  note find = findDelegation_eq [OF small, of 0 n]
  let ?f = "find (\<lambda>i. Name_equals (snd (ds ! i)) n) [0 ..< length ds]"
  have idx: "Link_findDelegationFromWire (data_block d) n
      = Inr (case ?f of None \<Rightarrow> INVALID_SELECTED_DELEGATION_INDEX | Some i \<Rightarrow> 0 + of_nat i)"
    by (simp only: Link_findDelegationFromWire_def link_elements_eq [OF c] bind_result.simps find)
  show ?thesis
  proof (cases ?f)
    case None
    then have "\<not> (\<exists>x \<in> set ds. Name_equals (snd x) n)" by (fastforce simp: find_None_iff in_set_conv_nth)
    then show ?thesis using None idx link by (simp add: Interest_setSelectedDelegation_name_def del: bind_result_Inr tlv_types)
  next
    case (Some i)
    then have i: "i < length ds" "Name_equals (snd (ds ! i)) n" by (auto simp: find_Some_iff)
    have u: "unat (of_nat i :: u64) = i" using i(1) len by (intro unat_of_nat_u64) simp
    have "(of_nat i :: u64) \<noteq> INVALID_SELECTED_DELEGATION_INDEX"
    proof
      assume "(of_nat i :: u64) = INVALID_SELECTED_DELEGATION_INDEX"
      then have "unat (of_nat i :: u64) = 2 ^ 64 - 1" by (simp add: INVALID_SELECTED_DELEGATION_INDEX_def unsigned_minus_1_eq_mask mask_eq_exp_minus_1)
      with u i(1) len show False by simp
    qed
    then show ?thesis
      using Some idx link i getDelegation_eq [OF c i(1)] u
      by (auto simp: Interest_setSelectedDelegation_name_def Interest_getSelectedDelegation_def
          Interest_hasSelectedDelegation_def simp del: bind_result_Inr tlv_types intro!: exI [of _ "fst (ds ! i)"] nth_mem)
  qed
qed

end
