(* ===== verification/MeasurementsTable.thy ===== *)
theory MeasurementsTable
  imports StrategyChoice
begin

text \<open>
  The Measurements table of \<open>NFD/daemon/table/measurements.cpp\<close> and the accessor that strategies get
  (\<open>measurements-accessor.cpp\<close>). It is attached to the name tree that it shares with the other tables. An
  \<open>Entry&\<close> is the name it is for and the number of its creation, so that a reference to an entry that is
  gone differs from one to its successor. The pending clean-ups of the scheduler are part of the state.
\<close>

type_synonym measurements_ref = "name \<times> nat"

record measurements_table =
  ms_nt :: nametree
  ms_nItems :: nat
  ms_ids :: "name \<Rightarrow> nat"
  ms_nextId :: nat
  ms_events :: "(timepoint \<times> measurements_ref) list"

definition Measurements_ctor :: "nametree \<Rightarrow> measurements_table" where
  "Measurements_ctor nt = \<lparr>ms_nt = nt, ms_nItems = 0, ms_ids = (\<lambda>_. 0), ms_nextId = 0, ms_events = []\<rparr>"

definition getInitialLifetime :: int where
  "getInitialLifetime = milliseconds 4000"

definition Measurements_get_nte :: "timepoint \<Rightarrow> name \<Rightarrow> measurements_table \<Rightarrow> measurements_ref \<times> measurements_table" where
  "Measurements_get_nte now k ms =
     (case ent_measurements (nt_entry_of (ms_nt ms) k) of
        Some _ \<Rightarrow> ((k, ms_ids ms k), ms)
      | None \<Rightarrow>
          let r = (k, ms_nextId ms); expiry = now + getInitialLifetime
          in (r, ms\<lparr>ms_nt := setMeasurementsEntry k (Some \<lparr>me_name = k, me_expiry = expiry, me_strategyInfo = []\<rparr>) (ms_nt ms),
                    ms_nItems := ms_nItems ms + 1,
                    ms_ids := (ms_ids ms)(k := ms_nextId ms), ms_nextId := ms_nextId ms + 1,
                    ms_events := ms_events ms @ [(expiry, r)]\<rparr>))"

definition Measurements_get :: "(bytes \<Rightarrow> u64) \<Rightarrow> timepoint \<Rightarrow> name \<Rightarrow> measurements_table \<Rightarrow> measurements_ref \<times> measurements_table" where
  "Measurements_get city now n ms =
     (let (k, nt) = NameTree_lookup city n (ms_nt ms) in Measurements_get_nte now k (ms\<lparr>ms_nt := nt\<rparr>))"

text \<open>\<open>NameTree::get\<close> of a FIB or PIT entry is the tree entry it is attached to.\<close>

definition Measurements_get_fib :: "timepoint \<Rightarrow> fib_entry \<Rightarrow> measurements_table \<Rightarrow> measurements_ref \<times> measurements_table" where
  "Measurements_get_fib now fe ms = Measurements_get_nte now (fib_prefix fe) ms"

definition Measurements_get_pit :: "timepoint \<Rightarrow> pit_ref \<Rightarrow> measurements_table \<Rightarrow> measurements_ref \<times> measurements_table" where
  "Measurements_get_pit now r ms = Measurements_get_nte now (fst r) ms"

text \<open>The reference is live if the tree has this very entry.\<close>

definition ms_live :: "measurements_ref \<Rightarrow> measurements_table \<Rightarrow> bool" where
  "ms_live r ms \<longleftrightarrow> ent_measurements (nt_entry_of (ms_nt ms) (fst r)) \<noteq> None \<and> ms_ids ms (fst r) = snd r"

text \<open>\<open>getParent\<close> of a live child: no entry for the root; otherwise the parent in the tree, which \<open>BOOST_ASSERT\<close>
  expects.\<close>

definition Measurements_getParent ::
    "timepoint \<Rightarrow> measurements_ref \<Rightarrow> measurements_table \<Rightarrow> (measurements_ref \<times> measurements_table) option" where
  "Measurements_getParent now child ms =
     (if length (fst child) = 0 then None
      else map_option (\<lambda>k. Measurements_get_nte now k ms) (ent_parent (nt_entry_of (ms_nt ms) (fst child))))"

definition measurements_selector :: "(measurements_entry \<Rightarrow> bool) \<Rightarrow> name \<Rightarrow> nt_entry \<Rightarrow> bool" where
  "measurements_selector pred k e \<longleftrightarrow> (case ent_measurements e of None \<Rightarrow> False | Some me \<Rightarrow> pred me)"

definition ms_entry_at :: "name \<Rightarrow> measurements_table \<Rightarrow> measurements_ref option" where
  "ms_entry_at k ms = map_option (\<lambda>_. (k, ms_ids ms k)) (ent_measurements (nt_entry_of (ms_nt ms) k))"

definition Measurements_findLongestPrefixMatch ::
    "(bytes \<Rightarrow> u64) \<Rightarrow> name \<Rightarrow> (measurements_entry \<Rightarrow> bool) \<Rightarrow> measurements_table \<Rightarrow> measurements_ref option" where
  "Measurements_findLongestPrefixMatch city n pred ms =
     (case NameTree_findLongestPrefixMatch city n (measurements_selector pred) (ms_nt ms) of
        Some k \<Rightarrow> ms_entry_at k ms
      | None \<Rightarrow> None)"

definition Measurements_findLongestPrefixMatch_pit ::
    "pit_ref \<Rightarrow> (measurements_entry \<Rightarrow> bool) \<Rightarrow> measurements_table \<Rightarrow> measurements_ref option" where
  "Measurements_findLongestPrefixMatch_pit r pred ms =
     (case NameTree_findLongestPrefixMatch_entry (fst r) (measurements_selector pred) (ms_nt ms) of
        Some k \<Rightarrow> ms_entry_at k ms
      | None \<Rightarrow> None)"

text \<open>\<open>findExactMatch\<close> calls \<open>lookup\<close>, which adds the name to the tree if it is not there.\<close>

definition Measurements_findExactMatch ::
    "(bytes \<Rightarrow> u64) \<Rightarrow> name \<Rightarrow> measurements_table \<Rightarrow> measurements_ref option \<times> measurements_table" where
  "Measurements_findExactMatch city n ms =
     (let (k, nt) = NameTree_lookup city n (ms_nt ms); ms1 = ms\<lparr>ms_nt := nt\<rparr> in (ms_entry_at k ms1, ms1))"

definition Measurements_extendLifetime :: "timepoint \<Rightarrow> measurements_ref \<Rightarrow> int \<Rightarrow> measurements_table \<Rightarrow> measurements_table" where
  "Measurements_extendLifetime now r lifetime ms =
     (if \<not> ms_live r ms then ms
      else case ent_measurements (nt_entry_of (ms_nt ms) (fst r)) of
        None \<Rightarrow> ms
      | Some me \<Rightarrow>
          let expiry = now + lifetime
          in if me_expiry me \<ge> expiry then ms
             else ms\<lparr>ms_nt := setMeasurementsEntry (fst r) (Some (me\<lparr>me_expiry := expiry\<rparr>)) (ms_nt ms),
                     ms_events := filter (\<lambda>ev. snd ev \<noteq> r) (ms_events ms) @ [(expiry, r)]\<rparr>)"

text \<open>The entry that a pending clean-up refers to is live, by the invariant shown below; the code tests only whether its node is there.\<close>

definition Measurements_cleanup :: "measurements_ref \<Rightarrow> measurements_table \<Rightarrow> measurements_table" where
  "Measurements_cleanup r ms =
     (if \<not> ms_live r ms then ms
      else ms\<lparr>ms_nt := snd (NameTree_eraseEntryIfEmpty (fst r) (setMeasurementsEntry (fst r) None (ms_nt ms))),
              ms_nItems := ms_nItems ms - 1\<rparr>)"

text \<open>The scheduler runs a pending clean-up.\<close>

definition ms_fire :: "timepoint \<times> measurements_ref \<Rightarrow> measurements_table \<Rightarrow> measurements_table" where
  "ms_fire ev ms = Measurements_cleanup (snd ev) (ms\<lparr>ms_events := remove1 ev (ms_events ms)\<rparr>)"

text \<open>The accessor of a strategy hides the entries of names under another strategy.\<close>

definition MeasurementsAccessor_filter :: "name \<Rightarrow> measurements_ref option \<Rightarrow> measurements_table \<Rightarrow> measurements_ref option" where
  "MeasurementsAccessor_filter strategy r ms =
     (case r of
        None \<Rightarrow> None
      | Some e \<Rightarrow> if StrategyChoice_findEffectiveStrategy_nte (fst e) (ms_nt ms) = Some strategy then Some e else None)"

definition MeasurementsAccessor_get ::
    "(bytes \<Rightarrow> u64) \<Rightarrow> timepoint \<Rightarrow> name \<Rightarrow> name \<Rightarrow> measurements_table \<Rightarrow> measurements_ref option \<times> measurements_table" where
  "MeasurementsAccessor_get city now strategy n ms =
     (let (r, ms1) = Measurements_get city now n ms in (MeasurementsAccessor_filter strategy (Some r) ms1, ms1))"

definition MeasurementsAccessor_get_fib ::
    "timepoint \<Rightarrow> name \<Rightarrow> fib_entry \<Rightarrow> measurements_table \<Rightarrow> measurements_ref option \<times> measurements_table" where
  "MeasurementsAccessor_get_fib now strategy fe ms =
     (let (r, ms1) = Measurements_get_fib now fe ms in (MeasurementsAccessor_filter strategy (Some r) ms1, ms1))"

definition MeasurementsAccessor_get_pit ::
    "timepoint \<Rightarrow> name \<Rightarrow> pit_ref \<Rightarrow> measurements_table \<Rightarrow> measurements_ref option \<times> measurements_table" where
  "MeasurementsAccessor_get_pit now strategy r ms =
     (let (e, ms1) = Measurements_get_pit now r ms in (MeasurementsAccessor_filter strategy (Some e) ms1, ms1))"

definition MeasurementsAccessor_getParent ::
    "timepoint \<Rightarrow> name \<Rightarrow> measurements_ref \<Rightarrow> measurements_table \<Rightarrow> measurements_ref option \<times> measurements_table" where
  "MeasurementsAccessor_getParent now strategy child ms =
     (case Measurements_getParent now child ms of
        None \<Rightarrow> (MeasurementsAccessor_filter strategy None ms, ms)
      | Some (r, ms1) \<Rightarrow> (MeasurementsAccessor_filter strategy (Some r) ms1, ms1))"

definition MeasurementsAccessor_findLongestPrefixMatch ::
    "(bytes \<Rightarrow> u64) \<Rightarrow> name \<Rightarrow> name \<Rightarrow> (measurements_entry \<Rightarrow> bool) \<Rightarrow> measurements_table \<Rightarrow> measurements_ref option" where
  "MeasurementsAccessor_findLongestPrefixMatch city strategy n pred ms =
     MeasurementsAccessor_filter strategy (Measurements_findLongestPrefixMatch city n pred ms) ms"

definition MeasurementsAccessor_findLongestPrefixMatch_pit ::
    "name \<Rightarrow> pit_ref \<Rightarrow> (measurements_entry \<Rightarrow> bool) \<Rightarrow> measurements_table \<Rightarrow> measurements_ref option" where
  "MeasurementsAccessor_findLongestPrefixMatch_pit strategy r pred ms =
     MeasurementsAccessor_filter strategy (Measurements_findLongestPrefixMatch_pit r pred ms) ms"

definition MeasurementsAccessor_findExactMatch ::
    "(bytes \<Rightarrow> u64) \<Rightarrow> name \<Rightarrow> name \<Rightarrow> measurements_table \<Rightarrow> measurements_ref option \<times> measurements_table" where
  "MeasurementsAccessor_findExactMatch city strategy n ms =
     (let (r, ms1) = Measurements_findExactMatch city n ms in (MeasurementsAccessor_filter strategy r ms1, ms1))"

definition MeasurementsAccessor_extendLifetime ::
    "timepoint \<Rightarrow> measurements_ref \<Rightarrow> int \<Rightarrow> measurements_table \<Rightarrow> measurements_table" where
  "MeasurementsAccessor_extendLifetime now r lifetime ms = Measurements_extendLifetime now r lifetime ms"

section \<open>Runs\<close>

text \<open>What can happen to the table: its own operations, the passage of time, the clean-ups that are due, and any
  change that the other tables make to the tree. These leave the entries alone, but a change of strategy clears the
  information that strategies keep on them.\<close>

definition same_entries :: "nametree \<Rightarrow> nametree \<Rightarrow> bool" where
  "same_entries nt nt' \<longleftrightarrow> (\<forall>k. map_option (\<lambda>me. (me_name me, me_expiry me)) (measurements_map nt k)
     = map_option (\<lambda>me. (me_name me, me_expiry me)) (measurements_map nt' k))"

inductive ms_step :: "(bytes \<Rightarrow> u64) \<Rightarrow> (bytes \<Rightarrow> u32) \<Rightarrow> timepoint \<times> measurements_table \<Rightarrow> timepoint \<times> measurements_table \<Rightarrow> bool"
  for city \<tau> where
  step_time: "now \<le> now' \<Longrightarrow> ms_step city \<tau> (now, ms) (now', ms)"
| step_get: "typed \<tau> n \<Longrightarrow> nt_room (ms_nt ms) n \<Longrightarrow> ms_step city \<tau> (now, ms) (now, snd (Measurements_get city now n ms))"
| step_get_nte: "nt_has (ms_nt ms) k \<Longrightarrow> ms_step city \<tau> (now, ms) (now, snd (Measurements_get_nte now k ms))"
| step_find: "typed \<tau> n \<Longrightarrow> nt_room (ms_nt ms) n \<Longrightarrow> ms_step city \<tau> (now, ms) (now, snd (Measurements_findExactMatch city n ms))"
| step_extend: "ms_step city \<tau> (now, ms) (now, Measurements_extendLifetime now r lifetime ms)"
| step_fire: "ev \<in> set (ms_events ms) \<Longrightarrow> fst ev \<le> now \<Longrightarrow> ms_step city \<tau> (now, ms) (now, ms_fire ev ms)"
| step_other: "nt_inv city \<tau> nt \<Longrightarrow> same_entries nt (ms_nt ms) \<Longrightarrow>
    ms_step city \<tau> (now, ms) (now, ms\<lparr>ms_nt := nt\<rparr>)"

inductive ms_run :: "(bytes \<Rightarrow> u64) \<Rightarrow> (bytes \<Rightarrow> u32) \<Rightarrow> timepoint \<times> measurements_table \<Rightarrow> timepoint \<times> measurements_table \<Rightarrow> bool"
  for city \<tau> where
  run_refl: "ms_run city \<tau> s s"
| run_step: "ms_run city \<tau> s t \<Longrightarrow> ms_step city \<tau> t u \<Longrightarrow> ms_run city \<tau> s u"

text \<open>Every entry has exactly one clean-up, at its expiry; nothing else is scheduled; the counter counts.\<close>

definition ms_inv :: "(bytes \<Rightarrow> u64) \<Rightarrow> (bytes \<Rightarrow> u32) \<Rightarrow> measurements_table \<Rightarrow> bool" where
  [inv_simps]: "ms_inv city \<tau> ms \<longleftrightarrow>
     nt_inv city \<tau> (ms_nt ms) \<and> distinct (map (fst \<circ> snd) (ms_events ms)) \<and>
     (\<forall>t k i. (t, k, i) \<in> set (ms_events ms) \<longleftrightarrow>
        (\<exists>me. measurements_map (ms_nt ms) k = Some me \<and> me_expiry me = t \<and> ms_ids ms k = i)) \<and>
     ms_nItems ms = length (ms_events ms)"

section \<open>Every entry has its clean-up\<close>

lemma measurements_of_entry [simp]: "ent_measurements (nt_entry_of nt k) = measurements_map nt k"
  by (cases "k \<in> dom (nt_store nt)")
    (simp_all add: table_maps_entry table_maps_absent nt_entry_of_def NtEntry_ctor_def domIff)

definition events_for :: "(name \<Rightarrow> measurements_entry option) \<Rightarrow> (name \<Rightarrow> nat) \<Rightarrow> (timepoint \<times> measurements_ref) list \<Rightarrow> bool" where
  "events_for M ids evs \<longleftrightarrow> distinct (map (fst \<circ> snd) evs) \<and>
     (\<forall>t k i. (t, k, i) \<in> set evs \<longleftrightarrow> (\<exists>me. M k = Some me \<and> me_expiry me = t \<and> ids k = i))"

lemma ms_inv_events: "ms_inv city \<tau> ms \<longleftrightarrow> nt_inv city \<tau> (ms_nt ms) \<and>
    events_for (measurements_map (ms_nt ms)) (ms_ids ms) (ms_events ms) \<and> ms_nItems ms = length (ms_events ms)"
  by (auto simp: ms_inv_def events_for_def)

lemma same_entries_some:
  assumes "same_entries nt nt'" "measurements_map nt' k = Some me'"
  obtains me where "measurements_map nt k = Some me" "me_expiry me = me_expiry me'"
proof -
  have "map_option (\<lambda>me. (me_name me, me_expiry me)) (measurements_map nt k) = Some (me_name me', me_expiry me')"
    using assms by (simp add: same_entries_def)
  then show thesis using that by auto
qed

lemma events_for_same:
  assumes "same_entries nt nt'" "events_for (measurements_map nt') ids evs"
  shows "events_for (measurements_map nt) ids evs"
proof -
  have "same_entries nt' nt" using assms(1) by (simp add: same_entries_def)
  then have "(\<exists>me. measurements_map nt k = Some me \<and> me_expiry me = t) \<longleftrightarrow> (\<exists>me. measurements_map nt' k = Some me \<and> me_expiry me = t)" for k t
    using assms(1) by (metis same_entries_some)
  then show ?thesis using assms(2) unfolding events_for_def by blast
qed

lemma events_add:
  assumes "events_for M ids evs" "M k = None"
  shows "events_for (M(k \<mapsto> me)) (ids(k := i)) (evs @ [(me_expiry me, k, i)])"
proof -
  have "k \<notin> set (map (fst \<circ> snd) evs)" using assms by (auto simp: events_for_def)
  then show ?thesis using assms by (auto simp: events_for_def)
qed

lemma events_split:
  assumes "events_for M ids evs" "M k = Some me"
  obtains as bs where "evs = as @ (me_expiry me, k, ids k) # bs" "k \<notin> fst ` snd ` set as" "k \<notin> fst ` snd ` set bs"
proof -
  have "(me_expiry me, k, ids k) \<in> set evs" using assms by (auto simp: events_for_def)
  then obtain as bs where s: "evs = as @ (me_expiry me, k, ids k) # bs" by (auto simp: in_set_conv_decomp)
  with assms(1) have "k \<notin> fst ` snd ` set as" "k \<notin> fst ` snd ` set bs"
    by (auto simp: events_for_def image_image comp_def)
  with s that show thesis by blast
qed

lemma events_remove:
  assumes "events_for M ids evs" "M k = Some me"
  shows "events_for (M(k := None)) ids (filter (\<lambda>ev. snd ev \<noteq> (k, ids k)) evs)"
    and "filter (\<lambda>ev. snd ev \<noteq> (k, ids k)) evs = remove1 (me_expiry me, k, ids k) evs"
    and "length (filter (\<lambda>ev. snd ev \<noteq> (k, ids k)) evs) = length evs - 1" "evs \<noteq> []"
proof -
  obtain as bs where s: "evs = as @ (me_expiry me, k, ids k) # bs" "k \<notin> fst ` snd ` set as" "k \<notin> fst ` snd ` set bs"
    by (rule events_split [OF assms])
  have ids: "filter (\<lambda>ev. snd ev \<noteq> (k, ids k)) as = as" "filter (\<lambda>ev. snd ev \<noteq> (k, ids k)) bs = bs"
    using s(2,3) by (force simp: filter_id_conv)+
  then have f: "filter (\<lambda>ev. snd ev \<noteq> (k, ids k)) evs = as @ bs" by (simp add: s(1))
  have "(me_expiry me, k, ids k) \<notin> set as" using s(2) by force
  then show "filter (\<lambda>ev. snd ev \<noteq> (k, ids k)) evs = remove1 (me_expiry me, k, ids k) evs"
    unfolding f unfolding s(1) by (simp add: remove1_append)
  show "length (filter (\<lambda>ev. snd ev \<noteq> (k, ids k)) evs) = length evs - 1" unfolding f unfolding s(1) by simp
  show "evs \<noteq> []" by (simp add: s(1))
  show "events_for (M(k := None)) ids (filter (\<lambda>ev. snd ev \<noteq> (k, ids k)) evs)"
    unfolding events_for_def f
  proof (intro conjI allI)
    show "distinct (map (fst \<circ> snd) (as @ bs))" using assms(1) by (simp add: events_for_def s(1))
    fix t k' i
    have "(t, k', i) \<in> set evs \<longleftrightarrow> (\<exists>me. M k' = Some me \<and> me_expiry me = t \<and> ids k' = i)"
      using assms(1) by (simp add: events_for_def)
    moreover have "(t, k, i) \<notin> set (as @ bs)" using s(2,3) by force
    ultimately show "(t, k', i) \<in> set (as @ bs) \<longleftrightarrow> (\<exists>me. (M(k := None)) k' = Some me \<and> me_expiry me = t \<and> ids k' = i)"
      by (cases "k' = k") (simp_all add: s(1))
  qed
qed

lemma events_update:
  assumes "events_for M ids evs" "M k = Some me"
  shows "events_for (M(k \<mapsto> me')) ids (filter (\<lambda>ev. snd ev \<noteq> (k, ids k)) evs @ [(me_expiry me', k, ids k)])"
  using events_add [OF events_remove(1) [OF assms], of k me' "ids k"] by simp

lemma get_nte_inv:
  assumes "ms_inv city \<tau> ms" "nt_has (ms_nt ms) k"
  shows "ms_inv city \<tau> (snd (Measurements_get_nte now k ms)) \<and>
    measurements_map (ms_nt (snd (Measurements_get_nte now k ms))) =
      (case measurements_map (ms_nt ms) k of
         Some _ \<Rightarrow> measurements_map (ms_nt ms)
       | None \<Rightarrow> (measurements_map (ms_nt ms))(k \<mapsto> \<lparr>me_name = k, me_expiry = now + getInitialLifetime, me_strategyInfo = []\<rparr>)) \<and>
    ms_live (fst (Measurements_get_nte now k ms)) (snd (Measurements_get_nte now k ms))"
proof (cases "measurements_map (ms_nt ms) k")
  case None
  let ?me = "\<lparr>me_name = k, me_expiry = now + getInitialLifetime, me_strategyInfo = []\<rparr>"
  have inv: "nt_inv city \<tau> (ms_nt ms)" and ev: "events_for (measurements_map (ms_nt ms)) (ms_ids ms) (ms_events ms)"
    using assms(1) by (simp_all add: ms_inv_events)
  note p = measurements.put_law [OF inv assms(2), of "\<lambda>_. Some ?me"]
  show ?thesis
    using assms(1) p events_add [OF ev None, of ?me "ms_nextId ms"] None
    by (simp add: Measurements_get_nte_def setMeasurementsEntry_def ms_inv_events ms_live_def Let_def)
next
  case (Some me)
  then show ?thesis using assms by (simp add: Measurements_get_nte_def ms_live_def)
qed

lemma lookup_inv:
  assumes "ms_inv city \<tau> ms" "typed \<tau> n" "nt_room (ms_nt ms) n" "NameTree_lookup city n (ms_nt ms) = (k, nt)"
  shows "k = n" "ms_inv city \<tau> (ms\<lparr>ms_nt := nt\<rparr>)" "measurements_map nt = measurements_map (ms_nt ms)" "nt_has nt n"
  using measurements.lookup_law [of city \<tau> "ms_nt ms" n] assms by (simp_all add: ms_inv_events)

lemma extendLifetime_inv:
  assumes "ms_inv city \<tau> ms"
  shows "ms_inv city \<tau> (Measurements_extendLifetime now r lifetime ms)"
proof (cases "\<exists>me. measurements_map (ms_nt ms) (fst r) = Some me \<and> ms_ids ms (fst r) = snd r \<and> me_expiry me < now + lifetime")
  case True
  then obtain me where me: "measurements_map (ms_nt ms) (fst r) = Some me" "ms_ids ms (fst r) = snd r" "me_expiry me < now + lifetime" by blast
  let ?me = "me\<lparr>me_expiry := now + lifetime\<rparr>"
  have r: "(fst r, ms_ids ms (fst r)) = r" by (simp add: me(2))
  have inv: "nt_inv city \<tau> (ms_nt ms)" and ev: "events_for (measurements_map (ms_nt ms)) (ms_ids ms) (ms_events ms)"
    using assms by (simp_all add: ms_inv_events)
  have p: "measurements_map (ms_nt ms) (fst r) \<noteq> None" using me(1) by simp
  note p = measurements.put_present [OF inv p, of "\<lambda>_. Some ?me"]
  show ?thesis
    using assms p events_update [OF ev me(1), of ?me] events_remove(3,4) [OF ev me(1)] me r
    by (cases "ms_events ms") (simp_all add: Measurements_extendLifetime_def setMeasurementsEntry_def ms_inv_events ms_live_def Let_def)
next
  case False
  then have "Measurements_extendLifetime now r lifetime ms = ms"
    by (auto simp: Measurements_extendLifetime_def ms_live_def Let_def split: option.split)
  then show ?thesis using assms by simp
qed

lemma fire_inv:
  assumes "ms_inv city \<tau> ms" "ev \<in> set (ms_events ms)"
  shows "ms_inv city \<tau> (ms_fire ev ms) \<and>
    measurements_map (ms_nt (ms_fire ev ms)) = (measurements_map (ms_nt ms))(fst (snd ev) := None) \<and> ms_ids (ms_fire ev ms) = ms_ids ms"
proof -
  obtain t k i where e: "ev = (t, k, i)" by (cases ev) auto
  have inv: "nt_inv city \<tau> (ms_nt ms)" and ev: "events_for (measurements_map (ms_nt ms)) (ms_ids ms) (ms_events ms)"
    using assms(1) by (simp_all add: ms_inv_events)
  then obtain me where me: "measurements_map (ms_nt ms) k = Some me" "me_expiry me = t" "ms_ids ms k = i"
    using assms(2) e by (auto simp: events_for_def)
  have "nt_has (ms_nt ms) k" using me(1) by (intro has_contract(3)) simp
  note c = measurements.clear_at [OF inv this, of "\<lambda>_. None", unfolded nt_erase_def]
  note rm = events_remove [OF ev me(1), unfolded me(2,3)]
  show ?thesis
    using assms(1) c rm me
    by (simp add: e ms_fire_def Measurements_cleanup_def setMeasurementsEntry_def ms_inv_events ms_live_def)
qed

lemma ms_step_inv: "ms_step city \<tau> s t \<Longrightarrow> ms_inv city \<tau> (snd s) \<Longrightarrow> ms_inv city \<tau> (snd t)"
proof (induction rule: ms_step.induct)
  case (step_get n ms now)
  obtain k nt where l: "NameTree_lookup city n (ms_nt ms) = (k, nt)" by fastforce
  from lookup_inv [OF _ step_get(1,2) l] get_nte_inv [of city \<tau> "ms\<lparr>ms_nt := nt\<rparr>" n now] step_get show ?case
    by (simp add: Measurements_get_def l)
next
  case (step_find n ms now)
  obtain k nt where l: "NameTree_lookup city n (ms_nt ms) = (k, nt)" by fastforce
  from lookup_inv [OF _ step_find(1,2) l] step_find show ?case by (simp add: Measurements_findExactMatch_def l Let_def)
next
  case (step_other nt ms now)
  then show ?case using events_for_same [OF step_other(2)] by (simp add: ms_inv_events)
qed (simp_all add: get_nte_inv extendLifetime_inv fire_inv)

lemma event_entry:
  assumes "ms_inv city \<tau> ms" "ev \<in> set (ms_events ms)"
  shows "\<exists>m. measurements_map (ms_nt ms) (fst (snd ev)) = Some m \<and> me_expiry m = fst ev"
proof -
  obtain t k i where "ev = (t, k, i)" by (cases ev) auto
  with assms show ?thesis by (auto simp: ms_inv_def)
qed

text \<open>No step removes an entry before its expiry, and none brings the expiry forward.\<close>

lemma ms_step_kept:
  assumes "ms_step city \<tau> s t" "ms_inv city \<tau> (snd s)" "measurements_map (ms_nt (snd s)) k = Some me" "fst s < me_expiry me"
  shows "\<exists>me'. measurements_map (ms_nt (snd t)) k = Some me' \<and> me_expiry me \<le> me_expiry me' \<and> ms_ids (snd t) k = ms_ids (snd s) k"
  using assms
proof (induction rule: ms_step.induct)
  case (step_get n ms now)
  obtain k' nt where l: "NameTree_lookup city n (ms_nt ms) = (k', nt)" by fastforce
  note li = lookup_inv [OF _ step_get(1,2) l]
  have "measurements_map (ms_nt (snd (Measurements_get_nte now n (ms\<lparr>ms_nt := nt\<rparr>)))) k = Some me"
    using get_nte_inv [of city \<tau> "ms\<lparr>ms_nt := nt\<rparr>" n now] li step_get by (auto split: option.splits)
  moreover have "ms_ids (snd (Measurements_get_nte now n (ms\<lparr>ms_nt := nt\<rparr>))) k = ms_ids ms k"
    using li step_get by (auto simp: Measurements_get_nte_def Let_def split: option.splits)
  ultimately show ?case using li step_get by (simp add: Measurements_get_def l)
next
  case (step_get_nte ms k' now)
  then show ?case
    using get_nte_inv [of city \<tau> ms k' now] by (auto simp: Measurements_get_nte_def Let_def split: option.splits)
next
  case (step_find n ms now)
  obtain k' nt where l: "NameTree_lookup city n (ms_nt ms) = (k', nt)" by fastforce
  from lookup_inv [OF _ step_find(1,2) l] step_find show ?case by (simp add: Measurements_findExactMatch_def l Let_def)
next
  case (step_extend now ms r lifetime)
  have inv: "nt_inv city \<tau> (ms_nt ms)" using step_extend by (simp add: ms_inv_events)
  show ?case
  proof (cases "\<exists>m. measurements_map (ms_nt ms) (fst r) = Some m \<and> ms_ids ms (fst r) = snd r \<and> me_expiry m < now + lifetime")
    case True
    then obtain m where m: "measurements_map (ms_nt ms) (fst r) = Some m" "ms_ids ms (fst r) = snd r" "me_expiry m < now + lifetime" by blast
    have "measurements_map (ms_nt ms) (fst r) \<noteq> None" using m(1) by simp
    note p = measurements.put_present [OF inv this, of "\<lambda>_. Some (m\<lparr>me_expiry := now + lifetime\<rparr>)"]
    show ?thesis
      using p m step_extend by (auto simp: Measurements_extendLifetime_def setMeasurementsEntry_def ms_live_def Let_def)
  next
    case False
    then have "Measurements_extendLifetime now r lifetime ms = ms"
      by (auto simp: Measurements_extendLifetime_def ms_live_def Let_def split: option.split)
    then show ?thesis using step_extend by simp
  qed
next
  case (step_fire ev ms now)
  have "fst (snd ev) \<noteq> k"
  proof
    assume "fst (snd ev) = k"
    moreover have "\<exists>m. measurements_map (ms_nt ms) (fst (snd ev)) = Some m \<and> me_expiry m = fst ev"
      using event_entry step_fire(1,3) by auto
    ultimately show False using step_fire by auto
  qed
  then show ?case using fire_inv [OF _ step_fire(1), of city \<tau>] step_fire by simp
next
  case (step_other nt ms now)
  obtain m where "measurements_map nt k = Some m" "me_expiry m = me_expiry me"
    using same_entries_some [OF step_other(2)] step_other(4) by auto
  then show ?case by simp
qed simp_all

lemma ms_step_time: "ms_step city \<tau> s t \<Longrightarrow> fst s \<le> fst t"
  by (induction rule: ms_step.induct) simp_all

lemma ms_run_inv: "ms_run city \<tau> s t \<Longrightarrow> ms_inv city \<tau> (snd s) \<Longrightarrow> ms_inv city \<tau> (snd t)"
  by (induction rule: ms_run.induct) (auto intro: ms_step_inv)

lemma ms_run_kept:
  assumes "ms_run city \<tau> s t" "ms_inv city \<tau> (snd s)" "measurements_map (ms_nt (snd s)) k = Some me" "fst t < me_expiry me"
  shows "\<exists>me'. measurements_map (ms_nt (snd t)) k = Some me' \<and> me_expiry me \<le> me_expiry me' \<and> ms_ids (snd t) k = ms_ids (snd s) k"
  using assms
proof (induction rule: ms_run.induct)
  case (run_step s t u)
  note le = ms_step_time [OF run_step(2)]
  with run_step obtain m where m: "measurements_map (ms_nt (snd t)) k = Some m" "me_expiry me \<le> me_expiry m" "ms_ids (snd t) k = ms_ids (snd s) k"
    by fastforce
  with le run_step(6) have "fst t < me_expiry m" by simp
  from ms_step_kept [OF run_step(2) ms_run_inv [OF run_step(1,4)] m(1) this] m(2,3) show ?case by fastforce
qed auto

lemma ms_inv_ctor: "nt_inv city \<tau> nt \<Longrightarrow> measurements_map nt = (\<lambda>_. None) \<Longrightarrow> ms_inv city \<tau> (Measurements_ctor nt)"
  by (simp add: ms_inv_def Measurements_ctor_def)

lemma ms_inv_count: "ms_inv city \<tau> ms \<Longrightarrow> ms_nItems ms = card (dom (measurements_map (ms_nt ms)))"
proof -
  assume inv: "ms_inv city \<tau> ms"
  have "(fst \<circ> snd) ` set (ms_events ms) = dom (measurements_map (ms_nt ms))"
  proof (intro equalityI subsetI)
    fix k assume "k \<in> (fst \<circ> snd) ` set (ms_events ms)"
    then show "k \<in> dom (measurements_map (ms_nt ms))" using event_entry [OF inv] by fastforce
  next
    fix k assume "k \<in> dom (measurements_map (ms_nt ms))"
    then obtain me where "measurements_map (ms_nt ms) k = Some me" by blast
    with inv have "(me_expiry me, k, ms_ids ms k) \<in> set (ms_events ms)" by (simp add: ms_inv_def)
    then show "k \<in> (fst \<circ> snd) ` set (ms_events ms)" by force
  qed
  with inv show ?thesis
    using distinct_card [of "map (fst \<circ> snd) (ms_events ms)"] by (simp add: ms_inv_def)
qed

lemma extendLifetime_live:
  assumes inv: "ms_inv city \<tau> ms" and live: "ms_live r ms"
  shows "\<exists>me. measurements_map (ms_nt (Measurements_extendLifetime now r lifetime ms)) (fst r) = Some me \<and> now + lifetime \<le> me_expiry me"
    and "ms_ids (Measurements_extendLifetime now r lifetime ms) = ms_ids ms"
proof -
  obtain m where m: "measurements_map (ms_nt ms) (fst r) = Some m" using live by (auto simp: ms_live_def)
  then have "measurements_map (ms_nt ms) (fst r) \<noteq> None" by simp
  note p = measurements.put_present [OF _ this, of city \<tau> "\<lambda>_. Some (m\<lparr>me_expiry := now + lifetime\<rparr>)"]
  show "\<exists>me. measurements_map (ms_nt (Measurements_extendLifetime now r lifetime ms)) (fst r) = Some me \<and> now + lifetime \<le> me_expiry me"
    using p inv live m by (auto simp: Measurements_extendLifetime_def setMeasurementsEntry_def ms_inv_events Let_def)
  show "ms_ids (Measurements_extendLifetime now r lifetime ms) = ms_ids ms"
    by (auto simp: Measurements_extendLifetime_def Let_def split: option.split)
qed

lemma one_cleanup:
  assumes "ms_inv city \<tau> ms"
  shows "\<forall>k me. measurements_map (ms_nt ms) k = Some me \<longrightarrow>
    filter (\<lambda>ev. fst (snd ev) = k) (ms_events ms) = [(me_expiry me, k, ms_ids ms k)]"
proof (intro allI impI)
  fix k me assume me: "measurements_map (ms_nt ms) k = Some me"
  have ev: "events_for (measurements_map (ms_nt ms)) (ms_ids ms) (ms_events ms)" using assms by (simp add: ms_inv_events)
  obtain as bs where s: "ms_events ms = as @ (me_expiry me, k, ms_ids ms k) # bs"
    "k \<notin> fst ` snd ` set as" "k \<notin> fst ` snd ` set bs" by (rule events_split [OF ev me])
  then have "filter (\<lambda>ev. fst (snd ev) = k) as = []" "filter (\<lambda>ev. fst (snd ev) = k) bs = []"
    by (force simp: filter_empty_conv)+
  then show "filter (\<lambda>ev. fst (snd ev) = k) (ms_events ms) = [(me_expiry me, k, ms_ids ms k)]" by (simp add: s(1))
qed

text \<open>\<open>get\<close> returns a live entry, and a new one if the name had none.\<close>

lemma get_live:
  assumes "ms_inv city \<tau> ms" "typed \<tau> n" "nt_room (ms_nt ms) n"
  shows "ms_live (n, if measurements_map (ms_nt ms) n = None then ms_nextId ms else ms_ids ms n) (snd (Measurements_get city now n ms))"
proof -
  obtain k nt where l: "NameTree_lookup city n (ms_nt ms) = (k, nt)" by fastforce
  note li = lookup_inv [OF assms l]
  have "fst (Measurements_get_nte now n (ms\<lparr>ms_nt := nt\<rparr>))
      = (n, if measurements_map (ms_nt ms) n = None then ms_nextId ms else ms_ids ms n)"
    using li(3) by (auto simp: Measurements_get_nte_def Let_def split: option.split)
  with get_nte_inv [of city \<tau> "ms\<lparr>ms_nt := nt\<rparr>" n now] li show ?thesis by (simp add: Measurements_get_def l)
qed

text \<open>\<open>findExactMatch\<close> is declared const and returns the entry of the name. For a name that the tree does not
  have it adds one that carries nothing, and nothing erases it.\<close>

lemma findExactMatch_grows:
  assumes inv: "ms_inv city \<tau> ms" and n: "typed \<tau> n" "nt_room (ms_nt ms) n"
  shows "fst (Measurements_findExactMatch city n ms) = map_option (\<lambda>_. (n, ms_ids ms n)) (measurements_map (ms_nt ms) n)"
    and "nt_has (ms_nt (snd (Measurements_findExactMatch city n ms))) n"
    and "same_tables (ms_nt (snd (Measurements_findExactMatch city n ms))) (ms_nt ms)"
proof -
  obtain k nt where l: "NameTree_lookup city n (ms_nt ms) = (k, nt)" by fastforce
  note li = lookup_inv [OF inv n l]
  have "same_tables nt (ms_nt ms)" using lookup_contract(4) [of city \<tau> "ms_nt ms" n] inv n l by (simp add: ms_inv_def)
  with li show "fst (Measurements_findExactMatch city n ms) = map_option (\<lambda>_. (n, ms_ids ms n)) (measurements_map (ms_nt ms) n)"
    "nt_has (ms_nt (snd (Measurements_findExactMatch city n ms))) n"
    "same_tables (ms_nt (snd (Measurements_findExactMatch city n ms))) (ms_nt ms)"
    by (simp_all add: Measurements_findExactMatch_def ms_entry_at_def l Let_def)
qed

text \<open>A strategy gets no entry of a name that another strategy is chosen for, and every entry it gets is live. Asking for
  such a name creates the entry nevertheless.\<close>

lemma filter_effective:
  "MeasurementsAccessor_filter strategy r ms = Some e \<longleftrightarrow>
     r = Some e \<and> StrategyChoice_findEffectiveStrategy_nte (fst e) (ms_nt ms) = Some strategy"
  by (auto simp: MeasurementsAccessor_filter_def split: option.splits if_splits)

lemma accessor_get:
  assumes "ms_inv city \<tau> ms" "typed \<tau> n" "nt_room (ms_nt ms) n" "MeasurementsAccessor_get city now strategy n ms = (r, ms1)"
  shows "measurements_map (ms_nt ms1) n \<noteq> None"
    and "r = Some e \<Longrightarrow> fst e = n \<and> ms_live e ms1 \<and> StrategyChoice_findEffectiveStrategy_nte n (ms_nt ms1) = Some strategy"
proof -
  obtain k nt where l: "NameTree_lookup city n (ms_nt ms) = (k, nt)" by fastforce
  note li = lookup_inv [OF assms(1-3) l]
  note g = get_nte_inv [OF li(2), of n now]
  have n: "fst (fst (Measurements_get_nte now n (ms\<lparr>ms_nt := nt\<rparr>))) = n"
    by (simp add: Measurements_get_nte_def Let_def split: option.split)
  have ms1: "ms1 = snd (Measurements_get_nte now n (ms\<lparr>ms_nt := nt\<rparr>))"
    and r: "r = MeasurementsAccessor_filter strategy (Some (fst (Measurements_get_nte now n (ms\<lparr>ms_nt := nt\<rparr>)))) ms1"
    using assms(4) li(1) by (auto simp: MeasurementsAccessor_get_def Measurements_get_def l Let_def split: prod.splits)
  have live: "ms_live (fst (Measurements_get_nte now n (ms\<lparr>ms_nt := nt\<rparr>))) ms1" using g li(4) by (simp add: ms1)
  then show "measurements_map (ms_nt ms1) n \<noteq> None" by (simp add: ms_live_def n)
  show "fst e = n \<and> ms_live e ms1 \<and> StrategyChoice_findEffectiveStrategy_nte n (ms_nt ms1) = Some strategy" if "r = Some e"
    using that live n by (auto simp: r filter_effective)
qed

end
