(* ===== verification/ProducerApp.thy ===== *)
theory ProducerApp
  imports DataWire ContentStore
begin

text \<open>
  The producer of \<open>apps/ndn-producer.cpp\<close>: it answers an Interest with Data of the same name, a zero-filled
  content, and a fake signature. Its Data is built, encoded and decoded with the operations of \<open>DataWire\<close>, and what
  the forwarder and the Content Store read of it is the record \<open>data\<close> of \<open>Packets\<close>. The simulated time
  \<open>m_freshness\<close> is its value in milliseconds; the postfix is never used; the trace source is not part of the state, and the route that
  \<open>StartApplication\<close> adds is the name it is added for.
\<close>

record producer =
  pr_active :: bool
  pr_prefix :: name
  pr_postfix :: name
  pr_virtualPayloadSize :: u32
  pr_freshness :: int
  pr_signature :: u32
  pr_keyLocator :: name

text \<open>Starting asserts that the application was not active; the face and the route live in the node.\<close>

definition Producer_StartApplication :: "producer \<Rightarrow> producer \<times> name" where
  "Producer_StartApplication p = (p\<lparr>pr_active := True\<rparr>, pr_prefix p)"

definition Producer_StopApplication :: "producer \<Rightarrow> producer" where
  "Producer_StopApplication p = (if \<not> pr_active p then p else p\<lparr>pr_active := False\<rparr>)"

definition Producer_signatureInfo :: "producer \<Rightarrow> signature_info" where
  "Producer_signatureInfo p =
     (let signatureInfo = SignatureInfo_ctor\<lparr>si_type := 255\<rparr>
      in if length (pr_keyLocator p) > 0
         then SignatureInfo_setKeyLocator (KeyLocator_Name (pr_keyLocator p)) signatureInfo else signatureInfo)"

definition Producer_data :: "producer \<Rightarrow> name \<Rightarrow> data_packet" where
  "Producer_data p dataName =
     Data_setContent_buffer (replicate (unat (pr_virtualPayloadSize p)) 0)
       (Data_setFreshnessPeriod (pr_freshness p) (Data_setName dataName Data_ctor))"

text \<open>The Data handed to the face, with its wire image; \<open>None\<close> when the application is not active.\<close>

definition Producer_OnInterest :: "producer \<Rightarrow> interest \<Rightarrow> (block \<times> data_packet) result option" where
  "Producer_OnInterest p i =
     (if \<not> pr_active p then None
      else Some (
        let d = Producer_data p (int_name i); signature = Signature_ctor\<lparr>sg_info := Producer_signatureInfo p\<rparr>
        in bind_result (makeNonNegativeIntegerBlock tlv_SignatureValue (ucast (pr_signature p))) (\<lambda>v.
           bind_result (Signature_setValue v signature) (\<lambda>signature'.
             Data_toWire (Data_setSignature signature' d)))))"

text \<open>What the tables read of a Data packet.\<close>

definition data_of :: "block \<times> data_packet \<Rightarrow> data result" where
  "data_of = (\<lambda>(w, d).
     bind_result (Signature_getInfo (dp_signature d)) (\<lambda>(info, _).
     bind_result (Block_parse (blk_payload info)) (\<lambda>els.
       Inr \<lparr>data_name = dp_name d, data_freshness = mi_freshnessPeriod (dp_metaInfo d), data_sigInfo = els,
            data_wire = blk_wire w, data_noCache = False\<rparr>)))"

section \<open>The answer\<close>

definition Producer_signed :: "producer \<Rightarrow> name \<Rightarrow> data_packet" where
  "Producer_signed p n = (Producer_data p n)\<lparr>dp_signature :=
     \<lparr>sg_info = Producer_signatureInfo p,
      sg_value = mk_block (tlv_SignatureValue, encodeNonNegativeInteger (ucast (pr_signature p)))\<rparr>\<rparr>"

definition producer_ok :: "producer \<Rightarrow> name \<Rightarrow> bool" where
  "producer_ok p n \<longleftrightarrow> pr_freshness p < 2 ^ 63 \<and> length (data_payload (Producer_signed p n)) < 2 ^ 64"

lemma Producer_OnInterest_eq:
  assumes "pr_active p"
  shows "Producer_OnInterest p i = Some (Data_toWire (Producer_signed p (int_name i)))"
proof -
  have v: "makeNonNegativeIntegerBlock tlv_SignatureValue (ucast (pr_signature p))
      = Inr (mk_block (tlv_SignatureValue, encodeNonNegativeInteger (ucast (pr_signature p))))"
    by (simp add: makeNonNegativeIntegerBlock_eq mk_block_def)
  show ?thesis
    using assms by (simp add: Producer_OnInterest_def v Signature_setValue_def Signature_ctor_def Data_setSignature_def
        Producer_signed_def Data_onChanged_def Producer_data_def Data_setContent_buffer_def Data_setFreshnessPeriod_def
        Data_setName_def Data_ctor_def Let_def del: bind_result_Inr)
qed

lemma Producer_signed_parts [simp]:
  "dp_name (Producer_signed p n) = n"
  "dp_metaInfo (Producer_signed p n) = MetaInfo_ctor\<lparr>mi_freshnessPeriod := pr_freshness p\<rparr>"
  "dp_signature (Producer_signed p n) = \<lparr>sg_info = Producer_signatureInfo p,
     sg_value = mk_block (tlv_SignatureValue, encodeNonNegativeInteger (ucast (pr_signature p)))\<rparr>"
  "dp_content (Producer_signed p n) =
     \<lparr>blk_type = tlv_Content, blk_payload = replicate (unat (pr_virtualPayloadSize p)) 0, blk_wire = []\<rparr>"
  "dp_wire (Producer_signed p n) = None"
  by (simp_all add: Producer_signed_def Producer_data_def Data_setContent_buffer_def Data_setFreshnessPeriod_def
      MetaInfo_setFreshnessPeriod_def Data_setName_def Data_ctor_def Data_onChanged_def)

lemma Producer_signed_wf:
  assumes "producer_ok p n"
  shows "data_wf (Producer_signed p n)"
proof -
  have len: "length (data_payload (Producer_signed p n)) < 2 ^ 64" using assms by (simp add: producer_ok_def)
  have parts: "length (metaInfo_payload (dp_metaInfo (Producer_signed p n))) < 2 ^ 64"
    "length (sigInfo_payload (sg_info (dp_signature (Producer_signed p n)))) < 2 ^ 64"
    using len by (simp_all add: data_payload_def length_encodeBlock)
  have "metaInfo_wf (dp_metaInfo (Producer_signed p n))"
    using assms parts(1) by (simp add: metaInfo_wf_def producer_ok_def MetaInfo_ctor_def hasFinalBlockId_def)
  moreover have "sigInfo_wf (sg_info (dp_signature (Producer_signed p n)))"
    using parts(2) by (auto simp: sigInfo_wf_def Producer_signatureInfo_def SignatureInfo_ctor_def
        SignatureInfo_setKeyLocator_def keyLocator_wf_def starts_not_def Let_def)
  moreover have "blk_ok (dp_content (Producer_signed p n))"
    using less_trans [OF unat_u32_less [of "pr_virtualPayloadSize p"], of "2 ^ 64"]
    by (simp add: blk_ok_def Block_hasWire_def)
  ultimately show ?thesis
    using len nni_small by (simp add: data_wf_def blk_ok_mk)
qed

lemma sigInfo_parse:
  assumes "sigInfo_wf si"
  shows "Block_parse (sigInfo_payload si) = Inr (mk_block (tlv_SignatureType, encodeNonNegativeInteger (of_int (si_type si))) #
    (if si_hasKeyLocator si then [mk_block (tlv_KeyLocator, keyLocator_payload (si_keyLocator si))] else []) @
    map Block_encode (rev (si_otherTlvs si)))"
proof -
  have len: "length (keyLocator_payload (si_keyLocator si)) < 2 ^ 64" if "si_hasKeyLocator si"
    using assms that by (simp add: sigInfo_wf_def sigInfo_payload_def length_encodeBlock)
  show ?thesis
    using parse_part [of _ _ True "encodeNonNegativeInteger (of_int (si_type si))" tlv_SignatureType,
        OF parse_part [of _ _ "si_hasKeyLocator si", OF parse_wires len] nni_small, of "rev (si_otherTlvs si)"] assms
    by (simp add: sigInfo_payload_def nni_block_def sigInfo_wf_def)
qed

text \<open>What a node that decoded the answer stores and matches.\<close>

definition producer_els :: "producer \<Rightarrow> block list" where
  "producer_els p = mk_block (tlv_SignatureType, encodeNonNegativeInteger 255) #
     (if pr_keyLocator p \<noteq> [] then [mk_block (tlv_KeyLocator, keyLocator_payload (KeyLocator_Name (pr_keyLocator p)))] else [])"

definition producer_stored :: "producer \<Rightarrow> name \<Rightarrow> data" where
  "producer_stored p n = \<lparr>data_name = n, data_freshness = (if pr_freshness p \<ge> 0 then pr_freshness p else milliseconds_min),
     data_sigInfo = producer_els p, data_wire = blk_wire (data_block (Producer_signed p n)), data_noCache = False\<rparr>"

lemma producer_decoded:
  assumes "producer_ok p n"
  shows "data_of (data_block (Producer_signed p n), data_decoded app (Producer_signed p n)) = Inr (producer_stored p n)"
proof -
  have wf: "sigInfo_wf (Producer_signatureInfo p)" using Producer_signed_wf [OF assms] by (simp add: data_wf_def)
  have "blk_payload (sigInfo_block (Producer_signatureInfo p)) = sigInfo_payload (Producer_signatureInfo p)"
    by (simp add: mk_block_def)
  moreover have "Block_parse (sigInfo_payload (Producer_signatureInfo p)) = Inr (producer_els p)"
    using sigInfo_parse [OF wf]
    by (simp add: producer_els_def Producer_signatureInfo_def SignatureInfo_ctor_def SignatureInfo_setKeyLocator_def Let_def del: tlv_types)
  ultimately show ?thesis
    by (simp add: data_of_def Signature_getInfo_def SignatureInfo_toWire_def sigInfo_decoded_def producer_stored_def data_decoded_def metaInfo_decoded_def MetaInfo_ctor_def
        del: bind_result_Inr)
qed

lemma producer_wire: "blk_wire (data_block (Producer_signed p n)) = data_wire (producer_stored p n)"
  by (simp add: producer_stored_def)

lemma producer_decoded_parts:
  "dp_name (data_decoded app (Producer_signed p n)) = n"
  "mi_freshnessPeriod (dp_metaInfo (data_decoded app (Producer_signed p n))) =
     (if pr_freshness p \<ge> 0 then pr_freshness p else milliseconds_min)"
  "blk_payload (dp_content (data_decoded app (Producer_signed p n))) = replicate (unat (pr_virtualPayloadSize p)) 0"
  "si_type (sg_info (dp_signature (data_decoded app (Producer_signed p n)))) = 255"
  "pr_keyLocator p \<noteq> [] \<longrightarrow> SignatureInfo_getKeyLocator (sg_info (dp_signature (data_decoded app (Producer_signed p n))))
     = Inr (KeyLocator_Name (pr_keyLocator p))"
  by (simp_all add: data_decoded_def metaInfo_decoded_def sigInfo_decoded_def content_block_def Block_empty_def
      Block_encode_def Block_hasWire_def SignatureInfo_getKeyLocator_def Producer_signatureInfo_def SignatureInfo_ctor_def
      SignatureInfo_setKeyLocator_def MetaInfo_ctor_def data_types Let_def)

text \<open>The publishers that a producer satisfies: none and, if it has a key locator, its own.\<close>

lemma producer_publisher:
  assumes "producer_ok p n" "keyLocator_wf k" "length (keyLocator_payload k) < 2 ^ 64"
  shows "keyLocator_ok k (producer_els p) \<longleftrightarrow> k = KeyLocator_None \<or> k = KeyLocator_Name (pr_keyLocator p) \<and> pr_keyLocator p \<noteq> []"
proof (cases "k = KeyLocator_None \<or> pr_keyLocator p = []")
  case True
  then show ?thesis by (auto simp: keyLocator_ok_def KeyLocator_empty_def producer_els_def Block_find_def mk_block_def data_types)
next
  case False
  let ?k = "KeyLocator_Name (pr_keyLocator p)"
  have si: "si_hasKeyLocator (Producer_signatureInfo p)" "si_keyLocator (Producer_signatureInfo p) = ?k"
    using False by (simp_all add: Producer_signatureInfo_def SignatureInfo_setKeyLocator_def Let_def)
  have "length (sigInfo_payload (Producer_signatureInfo p)) < 2 ^ 64"
    using Producer_signed_wf [OF assms(1)] by (simp add: data_wf_def sigInfo_wf_def)
  then have len: "length (keyLocator_payload ?k) < 2 ^ 64" by (simp add: sigInfo_payload_def si length_encodeBlock)
  have "keyLocator_ok k (producer_els p) \<longleftrightarrow>
      encodeBlock tlv_KeyLocator (keyLocator_payload k) = encodeBlock tlv_KeyLocator (keyLocator_payload ?k)"
    using False KeyLocator_toWire_eq [OF keyLocator_wf_known [OF assms(2)] assms(3)]
    by (auto simp: keyLocator_ok_def KeyLocator_empty_def producer_els_def Block_find_def mk_block_def Block_equals_def data_types)
  also have "\<dots> \<longleftrightarrow> k = ?k"
  proof
    assume "encodeBlock tlv_KeyLocator (keyLocator_payload k) = encodeBlock tlv_KeyLocator (keyLocator_payload ?k)"
    then have "keyLocator_payload k = keyLocator_payload ?k" by (rule encodeBlock_inj [OF _ assms(3) len])
    then show "k = ?k"
      using KeyLocator_wireDecode_payload [OF assms(2,3)] KeyLocator_wireDecode_payload [OF _ len] by (simp add: keyLocator_wf_def)
  qed simp
  finally show ?thesis using False by simp
qed

lemma producer_matches:
  assumes "int_name i = n" "producer_ok p n" "keyLocator_wf (publisherPublicKeyLocator (int_selectors i))"
    and "length (keyLocator_payload (publisherPublicKeyLocator (int_selectors i))) < 2 ^ 64"
  shows "Interest_matchesData sha256 i (producer_stored p n) \<longleftrightarrow>
    minSuffixComponents (int_selectors i) \<le> 1 \<and>
    (maxSuffixComponents (int_selectors i) \<ge> 0 \<longrightarrow> maxSuffixComponents (int_selectors i) \<ge> 1) \<and>
    (sel_exclude (int_selectors i) \<noteq> [] \<longrightarrow> \<not> Exclude_isExcluded (sel_exclude (int_selectors i))
       (Component tlv_ImplicitSha256DigestComponent (sha256 (data_wire (producer_stored p n))))) \<and>
    (publisherPublicKeyLocator (int_selectors i) = KeyLocator_None \<or>
     publisherPublicKeyLocator (int_selectors i) = KeyLocator_Name (pr_keyLocator p) \<and> pr_keyLocator p \<noteq> [])"
proof -
  have pre: "Name_isPrefixOf n n" by (simp add: Name_isPrefixOf_iff)
  have full: "Data_getFullName sha256 (producer_stored p n) ! length n
      = Component tlv_ImplicitSha256DigestComponent (sha256 (data_wire (producer_stored p n)))"
    by (simp add: Data_getFullName_def producer_stored_def nth_append)
  have st: "data_name (producer_stored p n) = n" "data_sigInfo (producer_stored p n) = producer_els p"
    by (simp_all add: producer_stored_def)
  show ?thesis
    unfolding Interest_matchesData_def Let_def st assms(1) producer_publisher [OF assms(2-4)]
    using pre full by (auto simp: Exclude_empty_def simp del: tlv_types packet_types)
qed

lemma producer_stale:
  "CsEntry_isStale now' (CsEntry_setData now (producer_stored p n) u) \<longleftrightarrow>
     (if pr_freshness p \<ge> 0 then now + milliseconds (pr_freshness p) else TimePoint_max) < now'"
  by (simp add: CsEntry_isStale_def CsEntry_setData_def CsEntry_updateStaleTime_def producer_stored_def milliseconds_min_def)

end
