(* ===== verification/Spec2Isabelle.thy ===== *)
theory Spec2Isabelle
  imports Events OtherApps RibDaemon InterestWire MeasurementsTable ProducerApp
begin

text \<open>
  Verification of the named-data networking code of the NCFCC simulator: the packet library \<open>ndn-cxx\<close>, the forwarding
  daemon \<open>NFD\<close>, and the simulator applications on top of them.

  \<^bold>\<open>The program.\<close> Packets are encoded in a type-length-value format. An Interest carries a name and selectors; the
  forwarder looks for Data in its Content Store, else records the Interest in the Pending Interest Table and hands it
  to the forwarding strategy chosen for the name, which picks next hops from the Forwarding Information Base. Data that
  comes back is stored, matched with the pending Interests and sent to the faces they came from. Nonces of Interests
  that are gone are remembered in the Dead Nonce List. The routing daemon keeps routes, which names below may inherit, and tells the forwarder
  which next hops to add and to remove. PIT, FIB, strategy choice and measurements share one name tree.

  \<^bold>\<open>Theories and sources\<close> (paths under \<open>src/\<close>).
  \<^item> \<open>Prelude\<close>: types of octets and words, the result type of code that throws, lemmas on lists, words and sums.
  \<^item> \<open>Tlv\<close>: \<open>ndn-cxx/src/encoding/tlv.hpp\<close>, \<open>block.cpp\<close>. Numbers, the two families of readers, one-level parsing.
  \<^item> \<open>Encoding\<close>: \<open>encoder.cpp\<close>, \<open>estimator.cpp\<close>, \<open>block-helpers.cpp\<close>. A locale states what the \<open>wireEncode\<close> functions
    use of either; it is interpreted for both.
  \<^item> \<open>Names\<close>: \<open>name-component.cpp\<close>, \<open>name.cpp\<close>, \<open>util/string-helper.cpp\<close>. Order, successor, URI and wire formats, numbers.
  \<^item> \<open>Exclude\<close>: \<open>exclude.cpp\<close>. \<open>Packets\<close>: \<open>key-locator.cpp\<close>, \<open>selectors.cpp\<close>, and the matching of \<open>interest.cpp\<close>, \<open>data.cpp\<close>.
  \<^item> \<open>TableEntries\<close>: \<open>NFD/daemon/table/pit-entry.cpp\<close>, \<open>pit-face-record.cpp\<close>, \<open>fib-entry.cpp\<close> and their kin.
  \<^item> \<open>NameTree\<close>, \<open>SubTree\<close>: \<open>name-tree.cpp\<close>, \<open>name-tree-entry.cpp\<close>. The hash table, the links, the searches and traversals.
  \<^item> \<open>PitFib\<close>: \<open>pit.cpp\<close>, \<open>fib.cpp\<close>. A locale of a table attached to the name tree carries their proofs.
  \<^item> \<open>DeadNonces\<close>: \<open>dead-nonce-list.cpp\<close>. \<open>ContentStore\<close>: \<open>cs.cpp\<close> and the policies; a locale of replacement policies.
  \<^item> \<open>StrategyChoice\<close>: \<open>strategy-choice.cpp\<close>. \<open>ForwarderState\<close>, \<open>Forwarder\<close>: \<open>NFD/daemon/fw/forwarder.cpp\<close>, \<open>face-table.cpp\<close>.
  \<^item> \<open>Strategies\<close>: the strategies of \<open>NFD/daemon/fw\<close>; a locale states what the forwarder relies on.
  \<^item> \<open>Events\<close>: runs of the forwarder, with \<open>NFD/daemon/mgmt/fib-manager.cpp\<close> and \<open>strategy-choice-manager.cpp\<close>.
  \<^item> \<open>RttEstimators\<close>: \<open>utils/ndn-rtt-estimator.cpp\<close>, \<open>ndn-rtt-mean-deviation.cpp\<close>. A locale states what is used of floating point.
  \<^item> \<open>Consumers\<close>: \<open>apps/ndn-app.cpp\<close>, \<open>ndn-consumer.cpp\<close>. A locale states what a class of consumers may override how; a second one
    carries bounds on the fields that a subclass adds. Runs of a consumer are a step relation.
  \<^item> \<open>WindowConsumers\<close>: \<open>apps/ndn-consumer-window.cpp\<close>, \<open>FullyDistributed.cpp\<close>, both interpretations of these locales.
  \<^item> \<open>Rib\<close>: \<open>NFD/rib/route.cpp\<close>, \<open>rib-entry.cpp\<close> and the table of \<open>rib.cpp\<close>. \<open>FibUpdater\<close>: the computation of FIB updates in
    \<open>fib-updater.cpp\<close>; a locale carries what its elementary steps keep through all of it. \<open>RibDaemon\<close>: the queue of updates of \<open>rib.cpp\<close>, the commands and
    answers of \<open>fib-updater.cpp\<close> and \<open>rib-manager.cpp\<close>; runs of the daemon are an inductive relation.
  \<^item> \<open>Ndnlp\<close>: \<open>NFD/daemon/face/ndnlp-slicer.cpp\<close>, \<open>ndnlp-data.cpp\<close>, \<open>ndnlp-partial-message-store.cpp\<close>. The encoding of a fragment is shown once in the
    locales of \<open>Encoding\<close>.
  \<^item> \<open>DataWire\<close>: \<open>meta-info.cpp\<close>, \<open>signature-info.cpp\<close>, \<open>signature.cpp\<close>, \<open>data.cpp\<close>. \<open>LinkWire\<close>: \<open>link.cpp\<close>. \<open>InterestWire\<close>: \<open>interest.cpp\<close>.
    A locale that extends the one of \<open>Packets\<close> says what each encoder writes, for the encoder and the estimator. Objects that share a buffer form a pool.
    The forwarder itself works on the fields of \<open>Packets\<close>; there a new Nonce changes the copy only, and \<open>interest_nonce_shared\<close> shows what the code does besides.
  \<^item> \<open>MeasurementsTable\<close>: \<open>NFD/daemon/table/measurements.cpp\<close>, \<open>measurements-accessor.cpp\<close>, an instance of the locale of tables of
    \<open>PitFib\<close>; runs with the scheduler and the other tables are a step relation. \<open>ProducerApp\<close>: \<open>apps/ndn-producer.cpp\<close>, on the packets of \<open>DataWire\<close>.
  \<^item> \<open>OtherApps\<close>: the other consumers, \<open>apps/rsr.cpp\<close> and the queue sizes of \<open>model/nacc.cpp\<close>.

  \<^bold>\<open>How the code is rendered.\<close> Classes are records and their methods functions on them; exceptions are the left side of
  a sum; a \<open>std::map\<close> or \<open>std::set\<close> whose order matters is a sorted list, and one that does not matter is a function; a
  pointer to a table entry is its key. Machine integers are words where they can wrap around. Time points are integers in
  nanoseconds and the present is an argument; the events of the scheduler are values of the state and steps of the run.
  Undefined behaviour that a theorem is about is the value \<open>None\<close>; what the forwarder gets from a lookup with undefined
  behaviour is a parameter, the field \<open>env_csUndefined\<close>.
  Code that is not in the repository or only called (SHA-256, CityHash, the hex decoder, random numbers, the
  content store of the simulator, the scheduler of ns-3, floating point) is an argument of the definitions that use it. An object
  of a subclass is an extended record, and the virtual functions that a base class calls are a record given to its functions.

  \<^bold>\<open>What is shown.\<close> Encoding and decoding are inverse, on words of the sizes the code uses; names and components are
  ordered canonically, and the successor bounds the names below a prefix, contrary to its documentation; matching, exclusion and key locators; the name
  tree is well-formed through insertion, growth, shrinking and removal, and its searches find what is stored; PIT, FIB and
  strategy choice refine maps from names; the Content Store keeps its order and limits under both policies and
  finds the best match, except in the lookups with undefined behaviour that are determined exactly; a dead nonce is kept as long as fewer additions
  than the capacity, which is adjusted up and down, have followed it; a change of strategy resets what strategies keep on exactly the entries concerned; the pipelines keep every invariant, deliver Data exactly where it is awaited,
  keep packets of the local host in it, time out every pending Interest and stop loops. A consumer loses no sequence number, its check for timeouts ends, and its
  window and its count of Interests in flight are bounded; round trips are measured by Karn's rule. The tree of the RIB is well-formed, what a name inherits is
  determined by its nearest ancestors, the computation of FIB updates ends, and the RIB applies the requests in their order, in runs without stray answers.
  Fragments of the link protocol fit into frames, and the receiver puts packets together in whatever order they arrive.
  Interests, Data and Links are decoded to what was encoded, up to the exceptions stated; a Nonce can be replaced in place.
  A measurements entry lives until it expires. A producer answers every Interest, and the Data satisfies it unless its selectors or the publisher it asks for rule that out.

  \<^bold>\<open>Hypotheses.\<close> \<open>typed\<close>: the components compared have their TLV type determined by their value, since \<open>equals\<close> ignores the
  type and the order does not. \<open>prefix_hashes_distinct\<close>: the prefixes of a name hash differently, without which the
  searches of the name tree can miss the longest prefix, as \<open>nametree_lpm_collision\<close> shows. \<open>nt_room\<close>: fewer than
  \<open>2 ^ 31\<close> entries. Names are shorter than \<open>npos\<close>. The strategies that are not modelled obey the locale
  \<open>forwarding_strategies\<close>. Runs of a consumer do not use up the sequence numbers of 32 bits. \<open>null_free\<close>: a changed route
  is the only one of its entry on its face, without which the FIB updater can dereference a null pointer. What is read through the dangling pointer of
  \<open>getRouteWithSecondLowestCostByFaceId\<close> is a parameter. \<open>interest_wf\<close>, \<open>data_wf\<close>, \<open>carries\<close>: packets as the setters build them, with blocks in their
  shortest encoding and fewer than \<open>2 ^ 64\<close> octets. The runs of the routing daemon of which \<open>rib_sequential\<close> speaks
  are orderly: a batch fails only when its other commands are answered; \<open>rib_stray_answer\<close> shows what happens otherwise.
  \<open>query_ok\<close>, \<open>cs_data_ok\<close>: names of Data have generic components only, those of queries may end with a digest of the length of SHA-256.
  \<open>producer_ok\<close>: the answer of a producer can be encoded.

  \<^bold>\<open>Fuel and partiality.\<close> The traversal of a subtree, the recursion over the children of a RIB entry, the loop over timed-out packets and the draw of a random number are partial functions shown to end; walks
  up the name tree have the depth of the name as fuel, and walks up the RIB the size of the table; everything else is total.

  \<^bold>\<open>Not modelled.\<close> Sockets and transports, signatures and key chains, configuration files, logging and tracing, the vendored
  WebSocket library, and the glue to the ns-3 simulator, which is not in the repository: these are calls of code that
  cannot be read here. Cached wire images of names, selectors and MetaInfo: these values are encoded
  afresh. The local control header of packets and the objects left behind by a decoder that throws.
  The signatures, responses and data sets of the routing daemon and its registration with remote gateways.
  Trace sources of the applications; the traffic shaping of \<open>model/nacc.cpp\<close>, which works on
  pointers that are never set.
\<close>

section \<open>Wire format\<close>

text \<open>A TLV-VAR-NUMBER written by \<open>writeVarNumber\<close> is read back by both readers, the one over
  memory and the one over a stream, which leave what followed it; it takes exactly the octets
  \<open>sizeOfVarNumber\<close> announces.\<close>

theorem tlv_number_roundtrip:
  "readVarNumber (snd (writeVarNumber [] n) @ rest) = Some (n, rest)
   \<and> readVarNumber_stream (snd (writeVarNumber [] n) @ rest) = Some (n, rest)
   \<and> length (snd (writeVarNumber [] n)) = sizeOfVarNumber n \<and> fst (writeVarNumber [] n) = sizeOfVarNumber n"
  using readVarNumber_write [of n rest] length_encodeVarNumber [of n] writeVarNumber_size [of "[]" n]
  by (simp add: readVarNumber_stream_eq)

text \<open>The readers specialised to input streams, which shift octet by octet, agree with the
  generic ones on every input, errors and insufficient data included.\<close>

theorem stream_readers_agree:
  "readVarNumber_stream bs = readVarNumber bs
   \<and> readNonNegativeInteger_stream k bs = readNonNegativeInteger k bs"
  by (simp add: readVarNumber_stream_eq readNonNegativeInteger_stream_eq)

text \<open>Whatever value \<open>Block::parse\<close> accepts, the wire images of the elements put together are
  the value again: no octet is lost, duplicated or reordered.\<close>

theorem block_parse_partition:
  assumes "Block_parse bs = Inr bks"
  shows "concat (map blk_wire bks) = bs"
  using assms by (rule Block_parse_partition)

theorem block_parse_partition_witness:
  "concat (map blk_wire (map (\<lambda>(t, v). \<lparr>blk_type = t, blk_payload = v, blk_wire = encodeBlock t v\<rparr>)
      [(8, [97]), (19, [])])) = encodeBlock 8 [97] @ encodeBlock 19 []"
proof (rule block_parse_partition)
  show "Block_parse (encodeBlock 8 [97] @ encodeBlock 19 []) =
      Inr (map (\<lambda>(t, v). \<lparr>blk_type = t, blk_payload = v, blk_wire = encodeBlock t v\<rparr>) [(8, [97]), (19, [])])"
    using Block_parse_encode [of "[(8, [97]), (19, [])]"] by simp
qed

text \<open>For every name the size the estimator computes is the number of octets the encoder then
  writes in front of what the buffer already held, whatever buffer it writes to.\<close>

theorem name_estimate_exact:
  assumes "enc_inv e"
  shows "fst (Name_wireEncode EstimatorTag n ()) = fst (Name_wireEncode EncoderTag n e)
    \<and> length (enc_content (snd (Name_wireEncode EncoderTag n e)))
      = fst (Name_wireEncode EstimatorTag n ()) + length (enc_content e)"
  using encoder.name_size(2)[OF assms] encoder.name_content [OF assms] estimator.name_size(2)[where e = "()" and n = n] by simp

theorem name_estimate_exact_witness:
  "fst (Name_wireEncode EstimatorTag [Component 8 [97]] ())
     = fst (Name_wireEncode EncoderTag [Component 8 [97]] (Encoder_ctor 3 0))"
  using name_estimate_exact [of "Encoder_ctor 3 0" "[Component 8 [97]]"] by simp

text \<open>Numbers in name components: \<open>fromNumber\<close> and \<open>fromNumberWithMarker\<close> never fail, and \<open>toNumber\<close>
  and \<open>toNumberWithMarker\<close> read back exactly the number, for all 64-bit values and markers; in
  particular for sequence numbers.\<close>

theorem number_roundtrip:
  "bind_result (Component_fromNumber n) Component_toNumber = Inr n
   \<and> bind_result (Component_fromNumberWithMarker m n) (Component_toNumberWithMarker m) = Inr n
   \<and> bind_result (Component_fromSequenceNumber n) Component_toSequenceNumber = Inr n"
  by (simp add: toNumber_fromNumber toNumberWithMarker_from Component_fromSequenceNumber_def
      Component_toSequenceNumber_def [abs_def] del: bind_result_Inr)

section \<open>Names\<close>

text \<open>Decoding the wire encoding of a name gives the name back.\<close>

theorem name_wire_roundtrip:
  assumes "length (name_payload n) < 2 ^ 64"
  shows "bind_result (Name_toWire n) Name_wireDecode = Inr n"
  using Name_toWire_eq [OF assms] Name_wireDecode_payload [OF assms] by simp

theorem name_wire_roundtrip_witness:
  "bind_result (Name_toWire [Component 8 [97, 98], Component 8 []]) Name_wireDecode
     = Inr [Component 8 [97, 98], Component 8 []]"
  using name_wire_roundtrip [of "[Component 8 [97, 98], Component 8 []]"]
  by (simp add: name_payload_def component_wire_def length_encodeBlock sizeOfVarNumber_def)

text \<open>C35. Parsing the URI of a name gives the name back, for names of generic components (any octets,
  the dot-only and the empty ones included) and SHA-256 digest components, given a hex decoder that
  decodes what \<open>printHex\<close> prints.\<close>

theorem name_uri_roundtrip:
  assumes "\<forall>bs. hexDecode (printHex False bs) = bs"
    and "\<forall>c \<in> set n. Component_isGeneric c \<or> Component_isImplicitSha256Digest c"
  shows "Name_construct hexDecode (Name_toUri n) = Inr n"
  using assms by (intro Name_construct_uri) (auto simp: uri_component_def)

fun hexDecode_model :: "bytes \<Rightarrow> bytes" where
  "hexDecode_model (a # b # rest) =
     word_of_int (push_bit 4 (fromHexChar a) OR fromHexChar b) # hexDecode_model rest"
| "hexDecode_model _ = []"

lemma fromHexChar_lower: "d < 16 \<Longrightarrow> fromHexChar (hexDigit False d) = uint d"
  by (rule nibble_all [of "\<lambda>d. fromHexChar (hexDigit False d) = uint d"]) code_simp

lemma hexDecode_model_printHex: "hexDecode_model (printHex False bs) = bs"
  by (induction bs) (simp_all add: printHex_def fromHexChar_lower nibble_bounds nibbles_join)

theorem name_uri_roundtrip_witness:
  "Name_construct hexDecode_model (Name_toUri [Component 8 [46, 46], Component 8 [], Component 1 (replicate 32 7)])
     = Inr [Component 8 [46, 46], Component 8 [], Component 1 (replicate 32 7)]"
  by (rule name_uri_roundtrip)
    (simp_all add: hexDecode_model_printHex Component_isGeneric_def Component_isImplicitSha256Digest_def
      SHA256_DIGEST_SIZE_def)

text \<open>\<open>Name::compare\<close> is the canonical order: its sign is the lexicographic comparison of the
  components, which \<open>Component::compare\<close> orders totally by type, then length, then octets.\<close>

theorem name_order:
  assumes "length a \<le> npos" "length b \<le> npos"
  shows "(Name_compare a b < 0 \<longleftrightarrow> a < b) \<and> (Name_compare a b = 0 \<longleftrightarrow> a = b) \<and> (Name_compare a b > 0 \<longleftrightarrow> b < a)"
  using Name_compare_lex [OF assms] by blast

theorem name_order_witness:
  "Name_compare [Component 8 [98]] [Component 8 [97, 97]] < 0 \<longleftrightarrow> [Component 8 [98]] < [Component 8 [97, 97]]"
  using name_order [of "[Component 8 [98]]" "[Component 8 [97, 97]]"] by (simp add: npos_def)

text \<open>C34. \<open>Name::getSuccessor\<close> closes the range of a prefix: in the canonical order the names from a non-empty
  name up to, not including, its successor are exactly the names it is a prefix of, in the sense of \<open>isPrefixOf\<close> if
  the type of a component is determined by its value. The documentation defines the successor \<open>Y\<close> of \<open>X\<close> by
  there being no name \<open>Z\<close> with \<open>X < Z < Y\<close>; that is not what the code gives: every name longer by a component is such a \<open>Z\<close>.\<close>

theorem successor_range:
  assumes "n \<noteq> []" "length n < npos" "length z \<le> npos"
  shows "(Name_compare n z \<le> 0 \<and> Name_compare z (Name_getSuccessor n) < 0 \<longleftrightarrow> prefix n z) \<and>
    (typed \<tau> n \<and> typed \<tau> z \<longrightarrow>
       (Name_compare n z \<le> 0 \<and> Name_compare z (Name_getSuccessor n) < 0 \<longleftrightarrow> Name_isPrefixOf n z)) \<and>
    Name_compare n (n @ [c]) < 0 \<and> Name_compare (n @ [c]) (Name_getSuccessor n) < 0"
proof -
  obtain p d where n: "n = p @ [d]" using assms(1) by (metis rev_exhaust)
  then have "length p < npos - 1" using assms(2) by simp
  from Name_getSuccessor_snoc [OF this, of d] have succ: "Name_getSuccessor n = p @ [Component_getSuccessor d]" using n by simp
  have len: "length (Name_getSuccessor n) \<le> npos" "length n \<le> npos" using assms(2) succ n by simp_all
  have range: "Name_compare n z \<le> 0 \<and> Name_compare z (Name_getSuccessor n) < 0 \<longleftrightarrow> prefix n z" if "length z \<le> npos" for z
    using Name_compare_lex [OF len(2) that] Name_compare_lex [OF that len(1)] prefix_range [of p d z] n succ
    by (auto simp: not_less [symmetric])
  have snoc: "length (n @ [c]) \<le> npos" using assms(2) by simp
  have "Name_compare n (n @ [c]) \<noteq> 0" using Name_compare_lex(2) [OF len(2) snoc] by simp
  then show ?thesis using range [OF assms(3)] range [OF snoc] Name_isPrefixOf_typed [of \<tau> n z] by auto
qed

theorem successor_range_witness:
  "Name_compare [Component 8 [255]] [Component 8 [255], Component 8 []] \<le> 0 \<and>
   Name_compare [Component 8 [255], Component 8 []] (Name_getSuccessor [Component 8 [255]]) < 0"
  using successor_range [of "[Component 8 [255]]" "[Component 8 [255], Component 8 []]"] by (simp add: npos_def)

section \<open>Exclude, Selectors and matching\<close>

text \<open>\<open>excludeRange\<close> adds exactly the components between its bounds to the excluded ones, and keeps the
  map ordered, unless the range lies inside one that is already excluded with ANY.\<close>

theorem exclude_range_adds:
  assumes "excl_inv m" "from < to" "\<not> range_covered from to m" "typed \<tau> (from # to # x # map fst m)"
  shows "\<exists>m'. Exclude_excludeRange from to m = Inr m' \<and> excl_inv m' \<and>
    (Exclude_isExcluded m' x \<longleftrightarrow> Exclude_isExcluded m x \<or> from \<le> x \<and> x \<le> to)"
  using isExcluded_excludeRange [OF assms] by blast

theorem exclude_range_adds_witness:
  "\<exists>m'. Exclude_excludeRange (Component 8 [98]) (Component 8 [100]) [(Component 8 [99], False)] = Inr m' \<and>
    excl_inv m' \<and> (Exclude_isExcluded m' (Component 8 [99]) \<longleftrightarrow>
      Exclude_isExcluded [(Component 8 [99], False)] (Component 8 [99])
      \<or> Component 8 [98] \<le> Component 8 [99] \<and> Component 8 [99] \<le> Component 8 [100])"
proof (rule exclude_range_adds [where \<tau> = "\<lambda>_. 8"])
  show "Component 8 [98] < Component 8 [100]" by (simp add: less_component_def Component_compare_less)
  show "\<not> range_covered (Component 8 [98]) (Component 8 [100]) [(Component 8 [99], False)]"
    by (simp add: range_covered_def map_lower_bound_def Component_compare_def)
qed (simp_all add: excl_inv_def typed_def)

text \<open>\<open>excludeOne\<close> adds exactly its component, and \<open>excludeAfter\<close> exactly the components from its
  argument on; both keep the map ordered.\<close>

theorem exclude_one_and_after:
  assumes "excl_inv m" "typed \<tau> (c # x # map fst m)"
  shows "excl_inv (Exclude_excludeOne c m) \<and> excl_inv (Exclude_excludeAfter c m)
    \<and> (Exclude_isExcluded (Exclude_excludeOne c m) x \<longleftrightarrow> Exclude_isExcluded m x \<or> x = c)
    \<and> (Exclude_isExcluded (Exclude_excludeAfter c m) x \<longleftrightarrow> Exclude_isExcluded m x \<or> c \<le> x)"
  using excludeOne_inv [OF assms(1)] isExcluded_excludeOne [OF assms] isExcluded_excludeAfter [OF assms] by blast

theorem exclude_one_and_after_witness:
  "Exclude_isExcluded (Exclude_excludeOne (Component 8 [97]) []) (Component 8 [97])"
  using exclude_one_and_after [of "[]" "\<lambda>_. 8" "Component 8 [97]" "Component 8 [97]"]
  by (simp add: typed_def excl_inv_def)

text \<open>Inside a range that already has ANY, \<open>excludeRange\<close> removes exclusions: after
  \<open>excludeAfter(a)\<close>, asking for the range from \<open>b\<close> to \<open>d\<close> as well makes every later component
  acceptable again.\<close>

theorem exclude_range_loses:
  assumes "a < b" "b < d" "d < x" "typed \<tau> [d, x]"
  shows "Exclude_isExcluded (Exclude_excludeAfter a []) x
    \<and> (\<exists>m'. Exclude_excludeRange b d (Exclude_excludeAfter a []) = Inr m' \<and> \<not> Exclude_isExcluded m' x)"
proof -
  have af: "Exclude_excludeAfter a [] = [(a, True)]"
    by (simp add: Exclude_excludeAfter_def Exclude_rangeStart_def)
  have lt: "a < d" "a < x" "\<not> d \<le> b" "d \<noteq> x" using assms by auto
  have "Exclude_excludeRange b d [(a, True)] = Inr [(d, False), (a, True)]"
    using assms lt by (auto simp: Exclude_excludeRange_def Exclude_rangeStart_def map_lower_bound_def
        map_erase_def compare_simps)
  moreover have "\<not> Component_equals d x" using Component_equals_typed [OF assms(4)] lt by simp
  ultimately show ?thesis
    using assms lt by (auto simp: af isExcluded_Cons)
qed

theorem exclude_range_loses_witness:
  "Exclude_isExcluded (Exclude_excludeAfter (Component 8 [97]) []) (Component 8 [101])
    \<and> (\<exists>m'. Exclude_excludeRange (Component 8 [98]) (Component 8 [100])
              (Exclude_excludeAfter (Component 8 [97]) []) = Inr m'
            \<and> \<not> Exclude_isExcluded m' (Component 8 [101]))"
  by (rule exclude_range_loses [where \<tau> = "\<lambda>_. 8"])
    (simp_all add: typed_def less_component_def Component_compare_less)

text \<open>Decoding the wire encoding of a non-empty Exclude of generic components gives it back, and
  \<open>operator==\<close>, which compares encodings, is equality on them.\<close>

theorem exclude_wire_roundtrip:
  assumes "excl_inv m" "m \<noteq> []" "\<forall>e \<in> set m. Component_isGeneric (fst e)" "length (exclude_payload m) < 2 ^ 64"
  shows "bind_result (Exclude_toWire m) Exclude_wireDecode = Inr m"
  using Exclude_toWire_eq [OF assms(2,4)] Exclude_wireDecode_payload [OF assms] by simp

theorem exclude_wire_roundtrip_witness:
  "bind_result (Exclude_toWire [(Component 8 [98], True), (Component 8 [], True)]) Exclude_wireDecode
     = Inr [(Component 8 [98], True), (Component 8 [], True)]"
  by (rule exclude_wire_roundtrip)
    (auto simp: excl_inv_def less_component_def Component_compare_less Component_isGeneric_def exclude_payload_def
      entry_blocks_def any_block_def component_block_def component_wire_def length_encodeBlock sizeOfVarNumber_def
      Component_empty_def)

text \<open>Selectors set through the interface survive encoding and decoding, and \<open>operator==\<close>, by which the
  PIT tells entries apart, is equality on them.\<close>

theorem selectors_wire_roundtrip:
  assumes "selectors_wf s" "selectors_wf s'"
  shows "bind_result (Selectors_toWire s) Selectors_wireDecode = Inr s \<and> Selectors_equals s s' = Inr (s = s')"
proof -
  have "keyLocator_known (publisherPublicKeyLocator s)" "length (selectors_payload s) < 2 ^ 64"
    using assms(1) by (auto simp: selectors_wf_def keyLocator_wf_known)
  then show ?thesis
    using Selectors_toWire_eq [of s] Selectors_wireDecode_payload [OF assms(1)] Selectors_equals_iff [OF assms] by simp
qed

definition sample_selectors :: selectors where
  "sample_selectors = Selectors_ctor\<lparr>minSuffixComponents := 1, childSelector := 300, mustBeFresh := True\<rparr>"

lemma selectors_wf_ctor: "selectors_wf Selectors_ctor"
  by (simp add: selectors_wf_def selector_int_def Selectors_ctor_def keyLocator_wf_def selectors_payload_def
      selectors_parts_def KeyLocator_empty_def Exclude_empty_def)

lemma selectors_wf_sample: "selectors_wf sample_selectors"
  by (simp add: sample_selectors_def selectors_wf_def selector_int_def Selectors_ctor_def keyLocator_wf_def
      selectors_payload_def selectors_parts_def KeyLocator_empty_def Exclude_empty_def length_encodeBlock
      sizeOfVarNumber_def encodeNonNegativeInteger_def)

theorem selectors_wire_roundtrip_witness:
  "bind_result (Selectors_toWire sample_selectors) Selectors_wireDecode = Inr sample_selectors
   \<and> Selectors_equals sample_selectors Selectors_ctor = Inr (sample_selectors = Selectors_ctor)"
  by (rule selectors_wire_roundtrip [OF selectors_wf_sample selectors_wf_ctor])

text \<open>An Interest matches a Data packet exactly if it matches the full name of the packet, the implicit
  digest included, and its key locator, if any, is the one in the signature.\<close>

theorem match_data_full_name:
  assumes "typed \<tau> (int_name i)" "typed \<tau> (Data_getFullName sha256 d)"
    and "length (sha256 (data_wire d)) = SHA256_DIGEST_SIZE"
  shows "Interest_matchesData sha256 i d \<longleftrightarrow>
    Interest_matchesName i (Data_getFullName sha256 d) \<and>
    keyLocator_ok (publisherPublicKeyLocator (int_selectors i)) (data_sigInfo d)"
  using assms by (rule matchesData_matchesName)

definition sample_type :: "bytes \<Rightarrow> u32" where
  "sample_type v = (if length v = 32 then 1 else 8)"

definition sample_data :: data where
  "sample_data = \<lparr>data_name = [Component 8 [97]], data_freshness = -1, data_sigInfo = [], data_wire = [1],
     data_noCache = False\<rparr>"

definition sample_interest :: interest where
  "sample_interest = \<lparr>int_name = [Component 8 [97]], int_selectors = Selectors_ctor, int_nonce = 7, int_lifetime = -1,
     int_nextHopFaceId = None\<rparr>"

theorem match_data_full_name_witness:
  "Interest_matchesData (\<lambda>_. replicate 32 0) sample_interest sample_data \<longleftrightarrow>
    Interest_matchesName sample_interest (Data_getFullName (\<lambda>_. replicate 32 0) sample_data) \<and>
    keyLocator_ok (publisherPublicKeyLocator (int_selectors sample_interest)) (data_sigInfo sample_data)"
  by (rule match_data_full_name [where \<tau> = sample_type])
    (simp_all add: typed_def sample_type_def sample_interest_def sample_data_def Data_getFullName_def SHA256_DIGEST_SIZE_def)

section \<open>Name tree, FIB and PIT\<close>

text \<open>C16. \<open>NameTree::lookup\<close> returns the entry of the name it is given, having created it and the entries of
  all its prefixes, and nothing else: the hash table and the links stay well-formed, through the
  resizing too, and what the tables had attached to names is unchanged. The bound keeps the table
  below the \<open>2 ^ 32\<close> buckets that \<open>resize\<close> can address.\<close>

theorem nametree_lookup:
  assumes "nt_inv city \<tau> nt" "typed \<tau> pfx" "card (dom (nt_store nt)) + length pfx < 2 ^ 31"
  shows "\<exists>nt'. NameTree_lookup city pfx nt = (pfx, nt') \<and> nt_inv city \<tau> nt' \<and>
    dom (nt_store nt') = dom (nt_store nt) \<union> {k. prefix k pfx} \<and>
    (\<forall>k. nt_tables nt' k = nt_tables nt k)"
  using assms by (rule lookup_correct)

lemma nt_store_ctor [simp]: "nt_store (NameTree_ctor n) = (\<lambda>_. None)"
  by (simp add: NameTree_ctor_def)

lemma nt_inv_sample: "nt_inv city \<tau> (NameTree_ctor 16)"
  using nt_inv_ctor [of 4 city \<tau>] by simp

theorem nametree_lookup_witness:
  "\<exists>nt'. NameTree_lookup (\<lambda>bs. of_nat (be_val bs)) [Component 8 [97], Component 8 [98]] (NameTree_ctor 16)
     = ([Component 8 [97], Component 8 [98]], nt') \<and> nt_inv (\<lambda>bs. of_nat (be_val bs)) (\<lambda>_. 8) nt' \<and>
    dom (nt_store nt') = dom (nt_store (NameTree_ctor 16)) \<union> {k. prefix k [Component 8 [97], Component 8 [98]]} \<and>
    (\<forall>k. nt_tables nt' k = nt_tables (NameTree_ctor 16) k)"
  by (rule nametree_lookup [OF nt_inv_sample]) (simp_all add: typed_def)

text \<open>\<open>findLongestPrefixMatch\<close> finds an entry exactly if some prefix of the name has one that the selector
  accepts; the one it returns is such an entry, and if no two prefixes of the name have equal hash
  values it is the longest.\<close>

theorem nametree_lpm:
  assumes "nt_inv city \<tau> nt" "typed \<tau> p"
  shows "(case NameTree_findLongestPrefixMatch city p sel nt of
            None \<Rightarrow> \<forall>k. \<not> lpm_match sel nt p k
          | Some k \<Rightarrow> lpm_match sel nt p k \<and>
              (prefix_hashes_distinct city p \<longrightarrow> (\<forall>k'. lpm_match sel nt p k' \<longrightarrow> length k' \<le> length k)))"
  using findLongestPrefixMatch_some [OF assms, of sel] findLongestPrefixMatch_longest [OF assms, of sel]
  by (auto split: option.splits)

theorem nametree_lpm_witness:
  "(case NameTree_findLongestPrefixMatch (\<lambda>_. 5) [Component 8 [97]] (\<lambda>_ _. True) (NameTree_ctor 16) of
            None \<Rightarrow> \<forall>k. \<not> lpm_match (\<lambda>_ _. True) (NameTree_ctor 16) [Component 8 [97]] k
          | Some k \<Rightarrow> lpm_match (\<lambda>_ _. True) (NameTree_ctor 16) [Component 8 [97]] k \<and>
              (prefix_hashes_distinct (\<lambda>_. 5) [Component 8 [97]] \<longrightarrow>
                (\<forall>k'. lpm_match (\<lambda>_ _. True) (NameTree_ctor 16) [Component 8 [97]] k' \<longrightarrow> length k' \<le> length k)))"
  by (rule nametree_lpm [OF nt_inv_sample [of "\<lambda>_. 5" "\<lambda>_. 8"]]) (simp add: typed_def)

text \<open>C36. With equal components repeated it may return a shorter one: whatever the hash function, as long as
  it does not map the component to zero, the search for \<open>/a/b/b\<close> stops at \<open>/a\<close> although \<open>/a/b\<close> is
  accepted too, because the hash values of the components are combined by exclusive or.\<close>

theorem nametree_lpm_collision:
  assumes "nt_inv city \<tau> nt" "typed \<tau> [a, b]" "city (component_wire b) \<noteq> 0"
    and "lpm_match sel nt [a, b, b] [a]" "lpm_match sel nt [a, b, b] [a, b]"
    and "\<not> lpm_match sel nt [a, b, b] [a, b, b]" "\<not> lpm_match sel nt [a, b, b] []"
  shows "NameTree_findLongestPrefixMatch city [a, b, b] sel nt = Some [a]"
  using assms by (rule lpm_not_longest)

definition sample_tree :: nametree where
  "sample_tree = snd (NameTree_lookup (\<lambda>_. 5) [Component 8 [97], Component 8 [98]] (NameTree_ctor 16))"

lemma sample_tree_facts:
  "nt_inv (\<lambda>_. 5) (\<lambda>_. 8) sample_tree"
  "dom (nt_store sample_tree) = {k. prefix k [Component 8 [97], Component 8 [98]]}"
proof -
  have "typed (\<lambda>_. 8) [Component 8 [97], Component 8 [98]]" by (simp add: typed_def)
  from lookup_correct [OF nt_inv_sample [of "\<lambda>_. 5"] this] obtain nt' where
    "NameTree_lookup (\<lambda>_. 5) [Component 8 [97], Component 8 [98]] (NameTree_ctor 16)
       = ([Component 8 [97], Component 8 [98]], nt')"
    "nt_inv (\<lambda>_. 5) (\<lambda>_. 8) nt'" "dom (nt_store nt') = {k. prefix k [Component 8 [97], Component 8 [98]]}"
    by auto
  then show "nt_inv (\<lambda>_. 5) (\<lambda>_. 8) sample_tree"
    "dom (nt_store sample_tree) = {k. prefix k [Component 8 [97], Component 8 [98]]}"
    by (simp_all only: sample_tree_def snd_conv)
qed

theorem nametree_lpm_collision_witness:
  "NameTree_findLongestPrefixMatch (\<lambda>_. 5) [Component 8 [97], Component 8 [98], Component 8 [98]]
     (\<lambda>k _. k \<noteq> []) sample_tree = Some [Component 8 [97]]"
  by (rule nametree_lpm_collision [OF sample_tree_facts(1)])
    (simp_all add: typed_def lpm_match_def sample_tree_facts(2))

text \<open>C15. \<open>eraseEntryIfEmpty\<close> says whether the entry was empty, keeps the tree well-formed and every table
  entry in place, and leaves no entry without a reason: if all entries but the one given were needed,
  all that remain are.\<close>

theorem nametree_erase:
  assumes "nt_inv city \<tau> nt" "k \<in> dom (nt_store nt)"
  shows "fst (NameTree_eraseEntryIfEmpty k nt) = NtEntry_isEmpty (nt_entry_of nt k)
    \<and> nt_inv city \<tau> (snd (NameTree_eraseEntryIfEmpty k nt))
    \<and> (\<forall>a. nt_tables (snd (NameTree_eraseEntryIfEmpty k nt)) a = nt_tables nt a)
    \<and> (pruned_except {k} nt \<longrightarrow> pruned_except {} (snd (NameTree_eraseEntryIfEmpty k nt)))"
  using eraseEntryIfEmpty_correct [OF assms] by blast

theorem nametree_erase_witness:
  "fst (NameTree_eraseEntryIfEmpty [Component 8 [97]] sample_tree)
      = NtEntry_isEmpty (nt_entry_of sample_tree [Component 8 [97]])
    \<and> nt_inv (\<lambda>_. 5) (\<lambda>_. 8) (snd (NameTree_eraseEntryIfEmpty [Component 8 [97]] sample_tree))"
  using nametree_erase [OF sample_tree_facts(1), of "[Component 8 [97]]"] by (simp add: sample_tree_facts(2))

text \<open>\<open>fullEnumerate\<close> and \<open>operator++\<close> visit every entry the selector accepts exactly once, and
  \<open>findAllMatches\<close> visits the accepted entries of all prefixes, the longest first, if no two prefixes
  have equal hash values.\<close>

theorem nametree_enumerate:
  assumes "nt_inv city \<tau> nt" "typed \<tau> p" "prefix_hashes_distinct city p"
  shows "set (NameTree_enumerateAll sel nt) = {k \<in> dom (nt_store nt). sel k (nt_entry_of nt k)}
    \<and> distinct (NameTree_enumerateAll sel nt)
    \<and> set (NameTree_findAllMatches city p sel nt) = {k. lpm_match sel nt p k}
    \<and> sorted_wrt (\<lambda>a b. length b < length a) (NameTree_findAllMatches city p sel nt)"
  using enumerateAll_set [OF assms(1)] findAllMatches_correct [OF assms] by blast

theorem nametree_enumerate_witness:
  "set (NameTree_findAllMatches (\<lambda>_. 5) [Component 8 [97]] (\<lambda>_ _. True) sample_tree)
     = {k. lpm_match (\<lambda>_ _. True) sample_tree [Component 8 [97]] k}"
  using nametree_enumerate [OF sample_tree_facts(1), of "[Component 8 [97]]" "\<lambda>_ _. True"]
  by (simp add: typed_def prefix_hashes_distinct_def computeHashSet_def)

text \<open>C18. The FIB is a map from names to next hops: \<open>insert\<close> adds an empty entry where there was none,
  \<open>erase\<close> removes the entry of its name, and neither touches any other entry or the PIT.\<close>

theorem fib_refines_map:
  assumes "nt_inv city \<tau> nt" "typed \<tau> p" "nt_room nt p"
  shows "nt_inv city \<tau> (fst (snd (Fib_insert city p (nt, n))))
    \<and> fib_map (fst (snd (Fib_insert city p (nt, n))))
        = (case fib_map nt p of Some _ \<Rightarrow> fib_map nt | None \<Rightarrow> (fib_map nt)(p \<mapsto> FibEntry_ctor p))
    \<and> pit_map (fst (snd (Fib_insert city p (nt, n)))) = pit_map nt
    \<and> nt_inv city \<tau> (fst (Fib_erase city p (nt, n)))
    \<and> fib_map (fst (Fib_erase city p (nt, n))) = (fib_map nt)(p := None)
    \<and> pit_map (fst (Fib_erase city p (nt, n))) = pit_map nt"
  using Fib_insert_correct [OF assms, of n] Fib_erase_correct [OF assms(1,2), of n]
  by (cases "fib_map nt p") auto

lemma nt_room_sample: "length p < 2 ^ 31 \<Longrightarrow> nt_room (NameTree_ctor 16) p"
  by (simp add: nt_room_def)

theorem fib_refines_map_witness:
  "fib_map (fst (snd (Fib_insert (\<lambda>_. 5) [Component 8 [97]] (NameTree_ctor 16, 0)))) [Component 8 [97]]
     = Some (FibEntry_ctor [Component 8 [97]])"
  using fib_refines_map [OF nt_inv_sample [of "\<lambda>_. 5" "\<lambda>_. 8"] _ nt_room_sample, of "[Component 8 [97]]" 0]
  by (simp add: typed_def fib_map_def nt_tables_def)

text \<open>A FIB lookup by name gives the entry of the longest prefix that has one, or the empty entry, if no two
  prefixes of the name have equal hash values; the lookup that starts at a PIT entry always does.\<close>

theorem fib_lpm_correct:
  assumes "nt_inv city \<tau> nt" "typed \<tau> p" "prefix_hashes_distinct city p" "nt_has nt (fst r)"
  shows "Fib_findLongestPrefixMatch city p nt = fib_lpm (fib_map nt) p
    \<and> Fib_findLongestPrefixMatch_pit r nt = fib_lpm (fib_map nt) (fst r)"
  using Fib_findLongestPrefixMatch_spec [OF assms(1-3)] Fib_findLongestPrefixMatch_pit_spec [OF assms(1,4)] by blast

theorem fib_lpm_correct_witness:
  "Fib_findLongestPrefixMatch (\<lambda>_. 5) [Component 8 [97]] sample_tree = fib_lpm (fib_map sample_tree) [Component 8 [97]]"
  using fib_lpm_correct [OF sample_tree_facts(1), of "[Component 8 [97]]" "([Component 8 [97]], Selectors_ctor)"]
  by (simp add: typed_def prefix_hashes_distinct_def computeHashSet_def nt_has_def sample_tree_facts(2))

text \<open>C19. \<open>removeNextHopFromAllEntries\<close>, run when a face goes down, removes the face from every entry and
  erases exactly the entries left without next hop, although it erases while it walks the list it
  collected.\<close>

theorem fib_remove_nexthop:
  assumes "nt_inv city \<tau> nt"
  shows "nt_inv city \<tau> (fst (Fib_removeNextHopFromAllEntries f (nt, n)))
    \<and> fib_map (fst (Fib_removeNextHopFromAllEntries f (nt, n))) = (\<lambda>k. fib_remove_face f (fib_map nt k))
    \<and> pit_map (fst (Fib_removeNextHopFromAllEntries f (nt, n))) = pit_map nt"
  using removeNextHopFromAllEntries_correct [OF assms, of f n] by auto

theorem fib_remove_nexthop_witness:
  "fib_map (fst (Fib_removeNextHopFromAllEntries \<lparr>face_id = 1, face_isLocal = False\<rparr> (sample_tree, 0)))
     = (\<lambda>k. fib_remove_face \<lparr>face_id = 1, face_isLocal = False\<rparr> (fib_map sample_tree k))"
  using fib_remove_nexthop [OF sample_tree_facts(1)] by blast

text \<open>C6. \<open>Pit::insert\<close> returns the entry for the name and selectors of the Interest: the one that is there,
  or a new one appended to those of the name, counting it; no other entry changes.\<close>

theorem pit_insert_correct:
  assumes "nt_inv city \<tau> nt" "pit_inv nt"
    and "typed \<tau> (int_name i)" "nt_room nt (int_name i)" "selectors_wf (int_selectors i)"
  shows "\<exists>nt'. Pit_insert city i (nt, n) =
      (if pit_at (int_name i, int_selectors i) nt = None then (((int_name i, int_selectors i), True), nt', n + 1)
       else (((int_name i, int_selectors i), False), nt', n)) \<and>
    nt_inv city \<tau> nt' \<and> pit_inv nt' \<and> fib_map nt' = fib_map nt \<and>
    pit_map nt' = (if pit_at (int_name i, int_selectors i) nt = None
                   then (pit_map nt)(int_name i := pit_map nt (int_name i) @ [PitEntry_ctor i]) else pit_map nt)"
  using Pit_insert_correct [OF assms, of n] by blast

lemma pit_map_ctor: "pit_map (NameTree_ctor n) k = []"
  by (simp add: pit_map_def nt_tables_def)

lemma pit_inv_sample: "pit_inv (NameTree_ctor n)"
  by (simp add: pit_inv_def pit_map_ctor)

theorem pit_insert_correct_witness:
  "\<exists>nt'. Pit_insert (\<lambda>_. 5) sample_interest (NameTree_ctor 16, 0) =
      ((([Component 8 [97]], Selectors_ctor), True), nt', 1)
    \<and> pit_map nt' [Component 8 [97]] = [PitEntry_ctor sample_interest]"
  using pit_insert_correct [OF nt_inv_sample [of "\<lambda>_. 5" "\<lambda>_. 8"] pit_inv_sample, of sample_interest 0]
  by (auto simp: sample_interest_def typed_def selectors_wf_ctor nt_room_sample pit_at_map pit_map_ctor)

text \<open>\<open>Pit::erase\<close> removes the entry it is given and no other, and keeps the tree well-formed.\<close>

theorem pit_erase_correct:
  assumes "nt_inv city \<tau> nt" "pit_inv nt" "pit_at r nt \<noteq> None"
  shows "nt_inv city \<tau> (fst (Pit_erase r (nt, n))) \<and> pit_inv (fst (Pit_erase r (nt, n)))
    \<and> (\<forall>r'. pit_at r' (fst (Pit_erase r (nt, n))) = (if r' = r then None else pit_at r' nt))
    \<and> fib_map (fst (Pit_erase r (nt, n))) = fib_map nt"
proof -
  obtain k s pe where r: "r = (k, s)" "pit_at (k, s) nt = Some pe" using assms(3) by (cases r) auto
  show ?thesis
    using Pit_erase_correct [OF assms(1,2) r(2), of n] pit_at_erase [OF assms(2) r(2)] r(1) by auto
qed

definition sample_pit :: nametree where
  "sample_pit = fst (snd (Pit_insert (\<lambda>_. 5) sample_interest (NameTree_ctor 16, 0)))"

lemma sample_pit_facts:
  "nt_inv (\<lambda>_. 5) (\<lambda>_. 8) sample_pit" "pit_inv sample_pit"
  "pit_map sample_pit = (\<lambda>k. if k = [Component 8 [97]] then [PitEntry_ctor sample_interest] else [])"
  using Pit_insert_correct [OF nt_inv_sample [of "\<lambda>_. 5" "\<lambda>_. 8"] pit_inv_sample, of sample_interest 0]
  by (auto simp: sample_pit_def sample_interest_def typed_def selectors_wf_ctor nt_room_sample pit_at_map
      pit_map_ctor fun_eq_iff)

theorem pit_erase_correct_witness:
  "pit_at ([Component 8 [97]], Selectors_ctor) (fst (Pit_erase ([Component 8 [97]], Selectors_ctor) (sample_pit, 1))) = None"
  using pit_erase_correct [OF sample_pit_facts(1,2), of "([Component 8 [97]], Selectors_ctor)" 1]
  by (simp add: pit_at_map sample_pit_facts(3) sample_interest_def)

text \<open>C17. \<open>findAllDataMatches\<close> finds every PIT entry whose Interest matches the Data and whose name is a prefix
  of the Data name, and only matching ones; if no two prefixes of the Data name have equal hash
  values.\<close>

theorem pit_data_matches:
  assumes "nt_inv city \<tau> nt" "typed \<tau> (data_name d)" "prefix_hashes_distinct city (data_name d)"
  shows "(k, s) \<in> set (Pit_findAllDataMatches city sha256 d nt) \<longleftrightarrow>
    prefix k (data_name d) \<and>
    (\<exists>pe \<in> set (pit_map nt k). pit_selectors pe = s \<and> Interest_matchesData sha256 (pit_interest pe) d)"
  using assms by (rule findAllDataMatches_mem)

theorem pit_data_matches_witness:
  "([Component 8 [97]], Selectors_ctor) \<in> set (Pit_findAllDataMatches (\<lambda>_. 5) (\<lambda>_. replicate 32 0) sample_data sample_pit)"
  using pit_data_matches [OF sample_pit_facts(1), of sample_data "[Component 8 [97]]" Selectors_ctor "\<lambda>_. replicate 32 0"]
  by (simp add: typed_def prefix_hashes_distinct_def computeHashSet_def sample_data_def sample_pit_facts(3)
      sample_interest_def Interest_matchesData_def Selectors_ctor_def Name_isPrefixOf_iff Exclude_empty_def
      keyLocator_ok_def KeyLocator_empty_def)


section \<open>Subtrees, the Dead Nonce List and the Content Store\<close>

text \<open>C22. \<open>partialEnumerate\<close> and \<open>operator++\<close> end, and visit exactly the entries under the given name that the
  selector accepts and whose ancestors up to that name all let it descend.\<close>

theorem nametree_partial_enumerate:
  assumes "nt_inv city \<tau> nt" "typed \<tau> p"
  shows "\<exists>ks. NameTree_partialEnumerate city p sel nt = Some ks \<and>
    set ks = (if p \<in> dom (nt_store nt) then selected_below sel nt p else {})"
  using partialEnumerate_correct [OF assms, of sel] pre_set [OF assms(1), of p sel] by auto

theorem nametree_partial_enumerate_witness:
  "\<exists>ks. NameTree_partialEnumerate (\<lambda>_. 5) [Component 8 [97]] (\<lambda>_ _. (True, True)) sample_tree = Some ks \<and>
    set ks = {[Component 8 [97]], [Component 8 [97], Component 8 [98]]}"
proof -
  have "selected_below (\<lambda>_ _. (True, True)) sample_tree [Component 8 [97]]
      = {[Component 8 [97]], [Component 8 [97], Component 8 [98]]}"
    by (auto simp: selected_below_def sample_tree_facts(2) prefix_Cons)
  then show ?thesis
    using nametree_partial_enumerate [OF sample_tree_facts(1), of "[Component 8 [97]]" "\<lambda>_ _. (True, True)"]
    by (simp add: typed_def sample_tree_facts(2))
qed

text \<open>C30. Whatever entries and marks are added and however often the capacity is adjusted, up or down, an entry
  added to the Dead Nonce List is found as long as at every moment since the number of entries and marks added after
  it has stayed below the capacity of that moment. The capacity stays between its limits, so fewer than
  \<open>MIN_CAPACITY\<close> additions never drop it.\<close>

theorem dnl_retention:
  assumes "dnl_inv d" "d' = DeadNonceList_add citySeed n nonce d"
  shows "(dnl_pushes xs < MIN_CAPACITY \<or> (\<forall>ys. prefix ys xs \<longrightarrow> dnl_pushes ys < dnl_capacity (fold (dnl_apply citySeed) ys d'))
      \<longrightarrow> DeadNonceList_has citySeed n nonce (fold (dnl_apply citySeed) xs d'))
    \<and> dnl_inv (fold (dnl_apply citySeed) xs d')"
proof -
  have inv: "dnl_inv (fold (dnl_apply citySeed) ys d')" for ys
    using dnl_inv_fold [OF assms(1), of citySeed "Add n nonce # ys"] by (simp add: assms(2))
  have "dnl_pushes ys < dnl_capacity (fold (dnl_apply citySeed) ys d')"
    if "dnl_pushes xs < MIN_CAPACITY" "prefix ys xs" for ys
    using inv [of ys] that by (auto simp: dnl_inv_def prefix_def)
  then show ?thesis
    using retention [of d xs citySeed n nonce] inv [of xs] assms by (auto simp: inv_simps MIN_CAPACITY_def)
qed

definition sample_dnl :: dnl where
  "sample_dnl = (case DeadNonceList_ctor 0 DEFAULT_LIFETIME of Inr d \<Rightarrow> d)"

lemma sample_dnl: "DeadNonceList_ctor 0 DEFAULT_LIFETIME = Inr sample_dnl"
  by (simp add: sample_dnl_def DeadNonceList_ctor_def DEFAULT_LIFETIME_def MIN_LIFETIME_def)

theorem dnl_retention_witness:
  "DeadNonceList_has (\<lambda>_ s. s + 1) [Component 8 [97]] 7
     (fold (dnl_apply (\<lambda>_ s. s + 1)) [Add [Component 8 [98]] 9, Mark 1200000000, AdjustCapacity 6000000000]
        (DeadNonceList_add (\<lambda>_ s. s + 1) [Component 8 [97]] 7 sample_dnl))"
  using dnl_retention [OF dnl_inv_ctor [OF sample_dnl] refl, of "[Add [Component 8 [98]] 9, Mark 1200000000, AdjustCapacity 6000000000]"]
  by (simp add: MIN_CAPACITY_def)

text \<open>C5. \<open>Cs::find\<close>, with either replacement policy, answers a miss only if no stored Data satisfies the
  Interest; else it returns the leftmost Data that does or, if the rightmost child is asked for, the leftmost of
  those in the rightmost child. The table is unchanged and the policy keeps tracking its entries. The only lookups
  without this result have undefined behaviour: exactly those that ask for the rightmost child with the full name of
  a stored Data which does not satisfy the Interest (it is stale, say) while another stored Data has the same name and
  a smaller digest. There the loop of \<open>findRightmost\<close> passes \<open>first\<close> and takes the predecessor of the begin of the table.\<close>

theorem cs_find_correct:
  assumes "query_ok (int_name i)" "typed \<tau> (int_name i)"
    and "\<forall>e \<in> set (cs_table c) \<union> set (cs_table f). typed \<tau> (cs_key sha256 e)"
    and "cs_inv sha256 lru_tracks c" "cs_inv sha256 fifo_tracks f"
  shows "(case Cs_find sha256 (LruPolicy sha256) now i c of
      None \<Rightarrow> cs_overrun sha256 now i (cs_table c)
    | Some (r, c') \<Rightarrow> \<not> cs_overrun sha256 now i (cs_table c) \<and> cs_match_spec sha256 now i (cs_table c) r
        \<and> cs_inv sha256 lru_tracks c' \<and> cs_table c' = cs_table c)
    \<and> (case Cs_find sha256 (PriorityFifoPolicy sha256) now i f of
      None \<Rightarrow> cs_overrun sha256 now i (cs_table f)
    | Some (s, f') \<Rightarrow> \<not> cs_overrun sha256 now i (cs_table f) \<and> cs_match_spec sha256 now i (cs_table f) s
        \<and> cs_inv sha256 fifo_tracks f' \<and> cs_table f' = cs_table f)"
  using lru.find_correct [OF assms(4,1,2), of now] fifo.find_correct [OF assms(5,1,2), of now] assms(3) by simp

abbreviation sample_sha :: "bytes \<Rightarrow> bytes" where "sample_sha \<equiv> \<lambda>_. replicate 32 0"

definition sample_lru :: "nat \<Rightarrow> name list cs" where
  "sample_lru n = Cs_ctor (LruPolicy sample_sha) [] n"

definition sample_fifo :: "nat \<Rightarrow> fifo cs" where
  "sample_fifo n = Cs_ctor (PriorityFifoPolicy sample_sha) \<lparr>fifo_queues = \<lambda>_. [], fifo_info = \<lambda>_. None\<rparr> n"

lemma sample_lru: "cs_inv sample_sha lru_tracks (sample_lru n)" "cs_table (sample_lru n) = []" "cs_limit (sample_lru n) = n"
  by (simp_all add: sample_lru_def Cs_ctor_def Policy_setLimit_def LruPolicy_def Lru_evictEntries_def cs_inv_def
      cs_sorted_def lru_tracks_def)

lemma sample_fifo: "cs_inv sample_sha fifo_tracks (sample_fifo n)" "cs_table (sample_fifo n) = []"
  by (simp_all add: sample_fifo_def Cs_ctor_def Policy_setLimit_def PriorityFifoPolicy_def Fifo_evictEntries_def cs_inv_def
      cs_sorted_def fifo_tracks_def)

lemma sample_data_ok: "cs_data_ok sample_sha (sample_data\<lparr>data_name := [Component 8 v]\<rparr>)"
  by (simp add: cs_data_ok_def sample_data_def generic_def tlv_NameComponent_def tlv_ImplicitSha256DigestComponent_def npos_def SHA256_DIGEST_SIZE_def)

text \<open>A store after the Data \<open>/a\<close> has been inserted.\<close>

definition sample_store :: "nat \<Rightarrow> name list cs" where
  "sample_store n = snd (Cs_insert sample_sha (LruPolicy sample_sha) 5 sample_data False (sample_lru n))"

lemma sample_store:
  "0 < n \<Longrightarrow> cs_inv sample_sha lru_tracks (sample_store n)"
  "0 < n \<Longrightarrow> map cse_data (cs_table (sample_store n)) = [sample_data]"
  "0 < n \<Longrightarrow> cs_limit (sample_store n) = n"
  "0 < n \<Longrightarrow> cs_policy (sample_store n) = [[Component 8 [97], Component 1 (replicate 32 0)]]"
proof -
  assume n: "0 < n"
  show "cs_inv sample_sha lru_tracks (sample_store n)"
    using lru.insert_inv [OF sample_lru(1) sample_data_ok [of "[97]"], where now = 5 and u = False]
    by (simp add: sample_store_def sample_data_def) (metis prod.collapse)
  show "map cse_data (cs_table (sample_store n)) = [sample_data]" "cs_limit (sample_store n) = n"
    "cs_policy (sample_store n) = [[Component 8 [97], Component 1 (replicate 32 0)]]"
    using n by (simp_all add: sample_store_def Cs_insert_def sample_lru sample_data_def cs_modify_def LruPolicy_def
        Lru_evictEntries_def Lru_insertToQueue_def CsEntry_setData_def CsEntry_updateStaleTime_def Data_getFullName_def
        sample_lru_def Cs_ctor_def Policy_setLimit_def tlv_NameComponent_def tlv_ImplicitSha256DigestComponent_def)
qed

text \<open>Two Data with the same name, the one with the greater digest stale, and an Interest for its full name.\<close>

abbreviation two_sha :: "bytes \<Rightarrow> bytes" where "two_sha \<equiv> \<lambda>w. replicate 32 (if w = [2] then 1 else 0)"

definition two_store :: "name list cs" where
  "two_store = \<lparr>cs_table = [\<lparr>cse_data = sample_data, cse_isUnsolicited = False, cse_staleTime = 9\<rparr>,
       \<lparr>cse_data = sample_data\<lparr>data_wire := [2]\<rparr>, cse_isUnsolicited = False, cse_staleTime = 1\<rparr>],
     cs_limit = 5, cs_policy = [Data_getFullName two_sha sample_data, Data_getFullName two_sha (sample_data\<lparr>data_wire := [2]\<rparr>)]\<rparr>"

definition two_interest :: interest where
  "two_interest = sample_interest\<lparr>int_name := Data_getFullName two_sha (sample_data\<lparr>data_wire := [2]\<rparr>),
     int_selectors := Selectors_ctor\<lparr>childSelector := 1, mustBeFresh := True\<rparr>\<rparr>"

lemma digests_less: "be_val (replicate 32 0) < be_val (replicate 32 1)"
proof -
  have "be_val (replicate n 0) = 0" for n by (induction n) (simp_all add: be_val_append1)
  moreover have "0 < be_val (replicate (Suc n) 1)" for n by (simp add: be_val_append1)
  from this [of 31] have "0 < be_val (replicate 32 1)" by (simp del: replicate_Suc)
  ultimately show ?thesis by simp
qed

lemma two_store:
  "cs_inv two_sha lru_tracks two_store" "query_ok (int_name two_interest)" "typed sample_type (int_name two_interest)"
  "\<forall>e \<in> set (cs_table two_store). typed sample_type (cs_key two_sha e)" "cs_overrun two_sha 6 two_interest (cs_table two_store)"
  by (auto simp: two_store_def two_interest_def cs_inv_def cs_sorted_def lru_tracks_def cs_data_ok_def generic_def query_ok_def
      typed_def sample_type_def sample_data_def Data_getFullName_def npos_def SHA256_DIGEST_SIZE_def component_less_iff
      tlv_NameComponent_def tlv_ImplicitSha256DigestComponent_def cs_overrun_def CsEntry_canSatisfy_def CsEntry_isStale_def digests_less)

theorem cs_find_correct_witness:
  "(\<exists>r c'. Cs_find sample_sha (LruPolicy sample_sha) 6 sample_interest (sample_store 3) = Some (r, c')
      \<and> cs_match_spec sample_sha 6 sample_interest (cs_table (sample_store 3)) r)
   \<and> Cs_find two_sha (LruPolicy two_sha) 6 two_interest two_store = None"
proof
  have q: "query_ok (int_name sample_interest)" "typed sample_type (int_name sample_interest)"
    by (simp_all add: query_ok_def generic_def sample_interest_def npos_def tlv_NameComponent_def tlv_ImplicitSha256DigestComponent_def typed_def sample_type_def)
  have "map cse_data (cs_table (sample_store 3)) = [sample_data]" by (rule sample_store) simp
  then have t: "\<forall>e \<in> set (cs_table (sample_store 3)) \<union> set (cs_table (sample_fifo 3)). typed sample_type (cs_key sample_sha e)"
    by (auto simp: map_eq_Cons_conv typed_def sample_type_def sample_data_def sample_fifo Data_getFullName_def tlv_NameComponent_def tlv_ImplicitSha256DigestComponent_def)
  have "\<not> cs_overrun sample_sha 6 sample_interest (cs_table (sample_store 3))"
    by (simp add: cs_overrun_def sample_interest_def Selectors_ctor_def)
  then show "\<exists>r c'. Cs_find sample_sha (LruPolicy sample_sha) 6 sample_interest (sample_store 3) = Some (r, c')
      \<and> cs_match_spec sample_sha 6 sample_interest (cs_table (sample_store 3)) r"
    using cs_find_correct [OF q t sample_store(1) sample_fifo(1), of 6] by (auto split: option.splits)
  have f: "cs_inv two_sha fifo_tracks (sample_fifo 3)"
    using sample_fifo [of 3] by (simp add: cs_inv_def cs_sorted_def)
  show "Cs_find two_sha (LruPolicy two_sha) 6 two_interest two_store = None"
    using cs_find_correct [OF two_store(2,3) _ two_store(1) f, of 6] two_store(4,5) by (auto simp: sample_fifo split: option.splits)
qed

text \<open>C7. \<open>Cs::insert\<close> keeps the table ordered by full name and within its limit, and the queues of either
  policy in step with it; the only new entry is that of the Data inserted.\<close>

theorem cs_insert_inv:
  assumes "cs_data_ok sha256 d"
    and "cs_inv sha256 lru_tracks c" "Cs_insert sha256 (LruPolicy sha256) now d u c = (r, c')"
    and "cs_inv sha256 fifo_tracks f" "Cs_insert sha256 (PriorityFifoPolicy sha256) now d u f = (s, f')"
  shows "cs_inv sha256 lru_tracks c' \<and> cs_keys sha256 c' \<subseteq> insert (Data_getFullName sha256 d) (cs_keys sha256 c)
    \<and> cs_inv sha256 fifo_tracks f' \<and> cs_keys sha256 f' \<subseteq> insert (Data_getFullName sha256 d) (cs_keys sha256 f)"
  using lru.insert_inv [OF assms(2,1,3)] fifo.insert_inv [OF assms(4,1,5)] by blast

theorem cs_insert_inv_witness:
  "cs_inv sample_sha lru_tracks (snd (Cs_insert sample_sha (LruPolicy sample_sha) 9
     (sample_data\<lparr>data_name := [Component 8 [98]]\<rparr>) False (sample_store 3)))"
  using cs_insert_inv [OF sample_data_ok sample_store(1) prod.collapse [symmetric] sample_fifo(1) prod.collapse [symmetric],
      of 3 9 "[98]" False 3] by simp

text \<open>A full store with the LRU policy makes room for new Data by evicting the entry whose last use is the
  longest ago, and nothing else.\<close>

theorem cs_lru_evicts_oldest:
  assumes "cs_inv sha256 lru_tracks c" "cs_data_ok sha256 d" "\<not> data_noCache d"
    and "length (cs_table c) = cs_limit c" "0 < cs_limit c" "Data_getFullName sha256 d \<notin> cs_keys sha256 c"
    and "Cs_insert sha256 (LruPolicy sha256) now d u c = (r, c')"
  shows "cs_policy c' = tl (cs_policy c) @ [Data_getFullName sha256 d]
    \<and> cs_keys sha256 c' = insert (Data_getFullName sha256 d) (cs_keys sha256 c - {hd (cs_policy c)})"
  using lru_insert_full [OF assms] by simp

theorem cs_lru_evicts_oldest_witness:
  "cs_policy (snd (Cs_insert sample_sha (LruPolicy sample_sha) 9 (sample_data\<lparr>data_name := [Component 8 [98]]\<rparr>)
     False (sample_store 1))) = [[Component 8 [98], Component 1 (replicate 32 0)]]"
proof -
  let ?d = "sample_data\<lparr>data_name := [Component 8 [98]]\<rparr>"
  have m: "map cse_data (cs_table (sample_store 1)) = [sample_data]" by (rule sample_store) simp
  have l: "length (cs_table (sample_store 1)) = cs_limit (sample_store 1)"
    using arg_cong [OF m, of length] sample_store(3) [of 1] by simp
  have k: "Data_getFullName sample_sha ?d \<notin> cs_keys sample_sha (sample_store 1)"
    using m by (auto simp: map_eq_Cons_conv Data_getFullName_def sample_data_def)
  show ?thesis
    using cs_lru_evicts_oldest [OF sample_store(1) sample_data_ok _ l _ k prod.collapse [symmetric]]
    by (simp add: sample_store Data_getFullName_def tlv_NameComponent_def tlv_ImplicitSha256DigestComponent_def sample_data_def)
qed

section \<open>Strategy choice\<close>

lemma typed_default: "typed sample_type makeDefaultStrategy" "length makeDefaultStrategy < npos"
  by (simp_all add: makeDefaultStrategy_def BestRouteStrategy2_STRATEGY_NAME_def nfd_strategy_name_def npos_def typed_def
      sample_type_def tlv_NameComponent_def bytes_of_def)

definition sample_choice :: "nametree \<times> strategy_choice" where
  "sample_choice = StrategyChoice_ctor (\<lambda>_. 5) makeDefaultStrategy (NameTree_ctor 16)"

lemma sample_choice:
  "nt_inv (\<lambda>_. 5) sample_type (fst sample_choice)" "sc_inv sample_type (fst sample_choice) (snd sample_choice)"
  "sc_instances (snd sample_choice) = [makeDefaultStrategy]"
proof -
  have "\<forall>k. strategy_map (NameTree_ctor 16) k = None" by (simp add: ctor_maps)
  note c = StrategyChoice_ctor_correct [OF nt_inv_sample [of "\<lambda>_. 5" sample_type] ctor_maps(3) this typed_default(1),
      of "fst sample_choice" "snd sample_choice"]
  show "nt_inv (\<lambda>_. 5) sample_type (fst sample_choice)" "sc_inv sample_type (fst sample_choice) (snd sample_choice)"
    using c typed_default(2) by (simp_all add: sample_choice_def)
  show "sc_instances (snd sample_choice) = [makeDefaultStrategy]"
    by (simp add: sample_choice_def StrategyChoice_ctor_def StrategyChoice_setDefaultStrategy_def StrategyChoice_install_def
        StrategyChoice_hasStrategy_def Let_def split: prod.split)
qed

text \<open>\<open>getStrategy\<close> returns the strategy of exactly the given name if it is installed, else the latest of
  the installed versions of it, and nothing only if there is none.\<close>

theorem strategy_lookup:
  assumes "sc_inv \<tau> nt sc" "typed \<tau> q" "length q \<le> npos"
  shows "case StrategyChoice_getStrategy q sc of
      None \<Rightarrow> q \<notin> set (sc_instances sc) \<and> (\<forall>s \<in> set (sc_instances sc). s \<noteq> [] \<longrightarrow> butlast s \<noteq> q)
    | Some s \<Rightarrow> s \<in> set (sc_instances sc) \<and> (q \<in> set (sc_instances sc) \<longrightarrow> s = q) \<and>
        (q \<notin> set (sc_instances sc) \<longrightarrow> s \<noteq> [] \<and> butlast s = q \<and>
           (\<forall>s' \<in> set (sc_instances sc). s' \<noteq> [] \<and> butlast s' = q \<longrightarrow> s' \<le> s))"
  using assms by (rule getStrategy_correct)

theorem strategy_lookup_witness:
  "StrategyChoice_getStrategy makeDefaultStrategy (snd sample_choice) = Some makeDefaultStrategy"
  using strategy_lookup [OF sample_choice(2) typed_default(1)] typed_default(2) sample_choice(3)
  by (auto split: option.splits)

text \<open>C20. \<open>insert\<close> and \<open>erase\<close> end, change the strategy of exactly the given prefix, keep the FIB, and reset the
  strategy information of exactly those PIT entries, with their in-records and out-records, and of exactly those
  measurements entries whose effective strategy is another one afterwards. The prefix has room in the tree and no
  two of its prefixes the same hash.\<close>

theorem strategy_choice_reset:
  assumes "nt_inv city \<tau> nt" "sc_inv \<tau> nt sc" "typed \<tau> p" "nt_room nt p" "length p < npos"
    and "prefix_hashes_distinct city p" "prefix_hashes_distinct city (butlast p)"
  shows "(\<forall>s. StrategyChoice_getStrategy q sc = Some s \<longrightarrow>
      (\<exists>nt' sc'. StrategyChoice_insert city p q (nt, sc) = Some (True, nt', sc') \<and> nt_inv city \<tau> nt' \<and> sc_inv \<tau> nt' sc' \<and>
         sc_changed nt p (Some s) nt')) \<and>
    (p \<noteq> [] \<longrightarrow> (\<exists>nt' sc'. StrategyChoice_erase city p (nt, sc) = Some (nt', sc') \<and> nt_inv city \<tau> nt' \<and> sc_inv \<tau> nt' sc' \<and>
         sc_changed nt p None nt'))"
  using StrategyChoice_insert_correct [OF assms(1-4,6)] StrategyChoice_erase_correct [OF assms(1-3) _ assms(5,7)] by blast

lemma sample_prefix:
  "prefix_hashes_distinct (\<lambda>_. 5) [Component 8 [97]]" "prefix_hashes_distinct (\<lambda>_. 5) []"
  "typed sample_type [Component 8 [97]]" "length [Component 8 [97]] < npos"
  by (simp_all add: prefix_hashes_distinct_def computeHashSet_def computeHash_def npos_def typed_def sample_type_def)

lemma sample_choice_dom: "dom (nt_store (fst sample_choice)) = {[]}"
proof -
  obtain nt where lk: "NameTree_lookup (\<lambda>_. 5) [] (NameTree_ctor 16) = ([], nt)" "dom (nt_store nt) = {[]}"
    using lookup_correct [OF nt_inv_sample [of "\<lambda>_. 5" sample_type], of "[]"] by (auto simp: typed_def)
  then show ?thesis
    by (simp add: sample_choice_def StrategyChoice_ctor_def StrategyChoice_setDefaultStrategy_def Let_def setStrategy_def
        setStrategyChoiceEntry_def)
qed

lemma sample_choice_map: "map_option sc_strategy (strategy_map (fst sample_choice) k) = (if k = [] then Some makeDefaultStrategy else None)"
proof (cases "k = []")
  case True
  then show ?thesis using sample_choice(2) unfolding sc_inv_def sample_choice(3) by auto
next
  case False
  then have "k \<notin> dom (nt_store (fst sample_choice))" by (simp add: sample_choice_dom)
  then show ?thesis using False by (simp add: table_maps_absent)
qed

lemma sample_room: "nt_room (fst sample_choice) [Component 8 [97]]"
  by (simp add: nt_room_def sample_choice_dom)

text \<open>A pending Interest for /a with strategy information on the entry, on its records and on the measurements of /a; another
  strategy is chosen for the root.\<close>

definition info_entry :: "strategy_items \<Rightarrow> int option \<Rightarrow> pit_entry" where
  "info_entry items interval = (PitEntry_ctor sample_interest)\<lparr>pit_suppressionInterval := interval,
     pit_inRecords := [\<lparr>rec_face = \<lparr>face_id = 300, face_isLocal = False\<rparr>, rec_lastNonce = 7, rec_lastRenewed = 5, rec_expiry = 9,
       rec_strategyInfo = items, rec_interest = Some sample_interest\<rparr>],
     pit_outRecords := [\<lparr>rec_face = \<lparr>face_id = 301, face_isLocal = False\<rparr>, rec_lastNonce = 7, rec_lastRenewed = 5, rec_expiry = 9,
       rec_strategyInfo = items\<rparr>]\<rparr>"

definition info_measurements :: "strategy_items \<Rightarrow> measurements_entry" where
  "info_measurements items = \<lparr>me_name = [Component 8 [97]], me_expiry = 9, me_strategyInfo = items\<rparr>"

definition info_tree :: nametree where
  "info_tree = nt_update [Component 8 [97]] (\<lambda>e. e\<lparr>ent_measurements := Some (info_measurements [(1000, 4)])\<rparr>)
     (nt_update [Component 8 [97]] (\<lambda>e. e\<lparr>ent_pit := [info_entry [(1000, 3)] (Some 10)]\<rparr>)
       (snd (NameTree_lookup (\<lambda>_. 5) [Component 8 [97]] (fst sample_choice))))"

definition two_strategies :: strategy_choice where
  "two_strategies = (snd sample_choice)\<lparr>sc_instances := [MulticastStrategy_STRATEGY_NAME, makeDefaultStrategy]\<rparr>"

lemma info_tree:
  "nt_inv (\<lambda>_. 5) sample_type info_tree" "strategy_map info_tree = strategy_map (fst sample_choice)" "nt_room info_tree []"
  "pit_map info_tree [Component 8 [97]] = [info_entry [(1000, 3)] (Some 10)]"
  "measurements_map info_tree [Component 8 [97]] = Some (info_measurements [(1000, 4)])"
proof -
  let ?a = "[Component 8 [97]]"
  let ?p = "\<lambda>e. e\<lparr>ent_pit := [info_entry [(1000, 3)] (Some 10)]\<rparr>" and ?m = "\<lambda>e. e\<lparr>ent_measurements := Some (info_measurements [(1000, 4)])\<rparr>"
  obtain nt where nt: "NameTree_lookup (\<lambda>_. 5) ?a (fst sample_choice) = (?a, nt)" "nt_inv (\<lambda>_. 5) sample_type nt"
      "dom (nt_store nt) = dom (nt_store (fst sample_choice)) \<union> {k. prefix k ?a}" "\<forall>k. nt_tables nt k = nt_tables (fst sample_choice) k"
    using lookup_correct [OF sample_choice(1) sample_prefix(3)] sample_room by (auto simp: nt_room_def)
  have dom: "dom (nt_store nt) = {[], ?a}" unfolding nt(3) sample_choice_dom by (auto simp: prefix_Cons)
  have k: "nt_has nt ?a" "nt_has (nt_update ?a ?p nt) ?a" by (simp_all add: nt_has_def dom nt_update_dom)
  have tree: "info_tree = nt_update ?a ?m (nt_update ?a ?p nt)" by (simp add: info_tree_def nt(1))
  show "nt_inv (\<lambda>_. 5) sample_type info_tree"
    unfolding tree by (intro nt_update_inv nt(2)) (simp_all add: keeps_links_def)
  show "strategy_map info_tree = strategy_map (fst sample_choice)"
    unfolding tree using nt(4) table_maps_update_other(6) [of ?a "\<lambda>_. [info_entry [(1000, 3)] (Some 10)]" nt]
      table_maps_update_other(9) [of ?a "\<lambda>_. Some (info_measurements [(1000, 4)])" "nt_update ?a ?p nt"]
    by (simp add: table_maps fun_eq_iff)
  show "nt_room info_tree []" by (simp add: nt_room_def tree nt_update_dom dom)
  show "pit_map info_tree ?a = [info_entry [(1000, 3)] (Some 10)]"
    unfolding tree using table_maps_update(2) [OF k(1), of "\<lambda>_. [info_entry [(1000, 3)] (Some 10)]"]
      table_maps_update_other(8) [of ?a "\<lambda>_. Some (info_measurements [(1000, 4)])" "nt_update ?a ?p nt"] by simp
  show "measurements_map info_tree ?a = Some (info_measurements [(1000, 4)])"
    unfolding tree using table_maps_update(3) [OF k(2), of "\<lambda>_. Some (info_measurements [(1000, 4)])"] by simp
qed

lemma two_strategies: "sc_inv sample_type info_tree two_strategies" "typed sample_type MulticastStrategy_STRATEGY_NAME"
  "MulticastStrategy_STRATEGY_NAME \<noteq> makeDefaultStrategy" "length MulticastStrategy_STRATEGY_NAME \<le> npos"
proof -
  note names = makeDefaultStrategy_def BestRouteStrategy2_STRATEGY_NAME_def MulticastStrategy_STRATEGY_NAME_def nfd_strategy_name_def
    npos_def typed_def sample_type_def tlv_NameComponent_def bytes_of_def
  show m: "typed sample_type MulticastStrategy_STRATEGY_NAME" "MulticastStrategy_STRATEGY_NAME \<noteq> makeDefaultStrategy"
    "length MulticastStrategy_STRATEGY_NAME \<le> npos" by (simp_all add: names)
  have "MulticastStrategy_STRATEGY_NAME < makeDefaultStrategy" by (simp add: names component_less_iff)
  then show "sc_inv sample_type info_tree two_strategies"
    using sample_choice(2) typed_default m unfolding sc_inv_def info_tree(2) sample_choice(3)
    by (auto simp: two_strategies_def)
qed

theorem strategy_choice_reset_witness:
  "\<exists>nt' sc'. StrategyChoice_insert (\<lambda>_. 5) [] MulticastStrategy_STRATEGY_NAME (info_tree, two_strategies) = Some (True, nt', sc') \<and>
     pit_map info_tree [Component 8 [97]] = [info_entry [(1000, 3)] (Some 10)] \<and> pit_map nt' [Component 8 [97]] = [info_entry [] None] \<and>
     measurements_map info_tree [Component 8 [97]] = Some (info_measurements [(1000, 4)]) \<and>
     measurements_map nt' [Component 8 [97]] = Some (info_measurements [])"
proof -
  let ?a = "[Component 8 [97]]" and ?q = MulticastStrategy_STRATEGY_NAME
  have q: "StrategyChoice_getStrategy ?q two_strategies = Some ?q"
    using getStrategy_correct [OF two_strategies(1,2,4)] by (auto simp: two_strategies_def split: option.splits)
  obtain nt' sc' where i: "StrategyChoice_insert (\<lambda>_. 5) [] ?q (info_tree, two_strategies) = Some (True, nt', sc')"
      "sc_changed info_tree [] (Some ?q) nt'"
    using strategy_choice_reset [OF info_tree(1) two_strategies(1) _ info_tree(3) _ sample_prefix(2), of ?q] q sample_prefix(2)
    by (auto simp: typed_def npos_def)
  have s: "map_option sc_strategy (strategy_map info_tree k) = (if k = [] then Some makeDefaultStrategy else None)" for k
    using sample_choice_map [of k] by (simp add: info_tree(2))
  have e: "sc_effective nt k = Some x" if "\<And>k. map_option sc_strategy (strategy_map nt k) = (if k = [] then Some x else None)" for nt k x
  proof -
    have "strategy_map nt k' \<noteq> None \<longleftrightarrow> k' = []" for k' using that [of k'] by (cases "strategy_map nt k'") (auto split: if_splits)
    then have "sc_governor nt k = Some []" by (auto simp: governor_iff)
    then show ?thesis using that by (simp add: sc_effective_def)
  qed
  have "sc_effective info_tree ?a = Some makeDefaultStrategy" by (rule e [OF s])
  moreover have "sc_effective nt' ?a = Some ?q" by (rule e) (use i(2) s in \<open>auto simp: sc_changed_def\<close>)
  ultimately have ne: "sc_effective nt' ?a \<noteq> sc_effective info_tree ?a" using two_strategies(3) by simp
  have "pit_map nt' ?a = [info_entry [] None]" "measurements_map nt' ?a = Some (info_measurements [])"
    using i(2) ne info_tree(4,5)
    by (simp_all add: sc_changed_def sc_cleared_iff info_entry_def info_measurements_def PitEntry_clearStrategyInfo_def
        FaceRecord_clearStrategyInfo_def MeasurementsEntry_clearStrategyInfo_def PitEntry_ctor_def)
  then show ?thesis using i(1) info_tree(4,5) by blast
qed


section \<open>The forwarder\<close>

definition sample_env :: "unit env" where
  "sample_env = \<lparr>env_city = \<lambda>_. 5, env_citySeed = \<lambda>_ s. s + 1, env_sha256 = sample_sha, env_csUndefined = \<lambda>_. None,
     NdnSim_Lookup = \<lambda>_ c. (None, c), NdnSim_Add = \<lambda>_ c. c\<rparr>"

definition sample_fw :: "unit forwarder" where
  "sample_fw = Forwarder_ctor sample_env [] (2 ^ 4) 10 sample_dnl (\<lambda>_. 0) (Some ())"

abbreviation sample_strategies :: "name \<Rightarrow> unit strategy" where
  "sample_strategies \<equiv> \<lambda>_. Strategy_base BestRouteStrategy2_afterReceiveInterest"

lemma sample_fw:
  "fw_inv sample_env sample_type sample_fw" "timers_ok sample_fw" "fw_out sample_fw = []" "fw_nt sample_fw = fst sample_choice"
  "fw_dnl sample_fw = sample_dnl" "fw_csFromNdnSim sample_fw = Some ()"
proof -
  show "fw_inv sample_env sample_type sample_fw" "timers_ok sample_fw" "fw_out sample_fw = []"
    using ctor_ok [OF _ typed_default(1) sample_dnl, of "[]" 4 sample_fw] by (simp_all add: sample_fw_def)
  show "fw_nt sample_fw = fst sample_choice" "fw_dnl sample_fw = sample_dnl" "fw_csFromNdnSim sample_fw = Some ()"
    by (simp_all add: sample_fw_def Forwarder_ctor_def sample_choice_def sample_env_def Let_def installStrategies_def
        FaceTable_addReserved_def FaceTable_addImpl_def split: prod.split)
qed

lemma sample_interest_ok: "interest_ok sample_type sample_interest sample_fw" "fw_entry sample_fw (ref_of sample_interest) = None"
proof -
  show "interest_ok sample_type sample_interest sample_fw"
    using sample_room sample_prefix(3) by (simp add: interest_ok_def sample_fw(4) sample_interest_def selectors_wf_ctor)
  have "pit_map (fst sample_choice) k = []" for k
    using StrategyChoice_ctor_correct(4) [OF nt_inv_sample [of "\<lambda>_. 5" sample_type] ctor_maps(3) _ typed_default(1), of "fst sample_choice" "snd sample_choice"]
      typed_default(2) by (simp add: sample_choice_def ctor_maps)
  then show "fw_entry sample_fw (ref_of sample_interest) = None" by (simp add: fw_entry_def sample_fw(4) pit_at_map)
qed

text \<open>C21. The default strategy sends at most one packet, the one the PIT entry has for the chosen face, to a next hop
  of the FIB entry that is another face than the Interest came from and that the scope of the Interest allows. It sends
  nothing while retransmissions are suppressed, and for an entry without unexpired out-records it chooses the first such
  next hop.\<close>

theorem best_route2_sends:
  assumes "fw_entry fw r = Some pe" "fw' = BestRouteStrategy2_afterReceiveInterest now inFace i fe r fw"
  shows "(fw_out fw' = fw_out fw \<or>
     (\<exists>nh p. fw_out fw' = fw_out fw @ [(nh_face nh, InterestPacket p)] \<and> nh \<in> set (fib_nextHops fe) \<and>
       Face_getId fw (nh_face nh) \<noteq> Face_getId fw inFace \<and> Face_getId fw (nh_face nh) \<noteq> INVALID_FACEID \<and>
       \<not> PitEntry_violatesScope pe (nh_face nh) \<and> pick_interest (nh_face nh) pe = Some p)) \<and>
    (fst (RetxSuppressionExponential_decide now pe) = SUPPRESS \<longrightarrow> fw_out fw' = fw_out fw) \<and>
    (\<not> PitEntry_hasUnexpiredOutRecords now pe \<longrightarrow> fw_out fw' = fw_out fw @
      (case find (predicate_NextHop_eligible fw pe (Face_getId fw inFace) False TimePoint_min) (fib_nextHops fe) of
         None \<Rightarrow> []
       | Some nh \<Rightarrow> if Face_getId fw (nh_face nh) = INVALID_FACEID then []
           else (case pick_interest (nh_face nh) pe of None \<Rightarrow> [] | Some p \<Rightarrow> [(nh_face nh, InterestPacket p)])))"
proof (intro conjI impI)
  let ?c = "best_route2_choice fw now (Face_getId fw inFace) pe (fib_nextHops fe)"
  note o = best_route2_out [OF assms]
  show "fw_out fw' = fw_out fw \<or>
    (\<exists>nh p. fw_out fw' = fw_out fw @ [(nh_face nh, InterestPacket p)] \<and> nh \<in> set (fib_nextHops fe) \<and>
       Face_getId fw (nh_face nh) \<noteq> Face_getId fw inFace \<and> Face_getId fw (nh_face nh) \<noteq> INVALID_FACEID \<and>
       \<not> PitEntry_violatesScope pe (nh_face nh) \<and> pick_interest (nh_face nh) pe = Some p)"
    using o choice_eligible [of fw now "Face_getId fw inFace" pe "fib_nextHops fe"]
    by (cases ?c) (auto split: option.splits)
  show "fw_out fw' = fw_out fw" if "fst (RetxSuppressionExponential_decide now pe) = SUPPRESS"
    using o that by (simp add: best_route2_choice_def)
  assume "\<not> PitEntry_hasUnexpiredOutRecords now pe"
  then have "?c = find (predicate_NextHop_eligible fw pe (Face_getId fw inFace) False TimePoint_min) (fib_nextHops fe)"
    by (simp add: best_route2_choice_def RetxSuppressionExponential_decide_def)
  then show "fw_out fw' = fw_out fw @
      (case find (predicate_NextHop_eligible fw pe (Face_getId fw inFace) False TimePoint_min) (fib_nextHops fe) of
         None \<Rightarrow> []
       | Some nh \<Rightarrow> if Face_getId fw (nh_face nh) = INVALID_FACEID then []
           else (case pick_interest (nh_face nh) pe of None \<Rightarrow> [] | Some p \<Rightarrow> [(nh_face nh, InterestPacket p)]))"
    using o by (simp split: option.split)
qed

text \<open>A state with one Interest that came from face 300 and is pending.\<close>

definition sample_face :: "int \<Rightarrow> face" where "sample_face n = \<lparr>face_id = n, face_isLocal = False\<rparr>"

definition sample_pending :: "unit forwarder" where
  "sample_pending = fw_modify (ref_of sample_interest) (PitEntry_insertOrUpdateInRecord 5 (sample_face 300) sample_interest)
     (case Pit_insert (\<lambda>_. 5) sample_interest (fw_nt sample_fw, fw_nPit sample_fw) of (_, nt, n) \<Rightarrow>
        sample_fw\<lparr>fw_nt := nt, fw_nPit := n\<rparr>)\<lparr>fw_faces := (\<lambda>n. if n \<in> {300, 301} then Some (sample_face n) else None)\<rparr>"

definition sample_entry :: pit_entry where
  "sample_entry = PitEntry_insertOrUpdateInRecord 5 (sample_face 300) sample_interest (PitEntry_ctor sample_interest)"

lemma sample_pending:
  "fw_inv sample_env sample_type sample_pending" "fw_out sample_pending = []"
  "fw_entry sample_pending (ref_of sample_interest) = Some sample_entry"
  "Face_getId sample_pending (sample_face 300) = 300" "Face_getId sample_pending (sample_face 301) = 301"
proof -
  obtain isNew nt n where p: "Pit_insert (\<lambda>_. 5) sample_interest (fw_nt sample_fw, fw_nPit sample_fw) = ((ref_of sample_interest, isNew), nt, n)"
    "fw_inv sample_env sample_type (sample_fw\<lparr>fw_nt := nt, fw_nPit := n\<rparr>)"
    "fw_entry (sample_fw\<lparr>fw_nt := nt, fw_nPit := n\<rparr>) = (fw_entry sample_fw)(ref_of sample_interest \<mapsto> entry_for sample_interest sample_fw)"
    using insert_entry [OF sample_fw(1) sample_interest_ok(1)] by (auto simp: sample_env_def)
  let ?fw = "sample_fw\<lparr>fw_nt := nt, fw_nPit := n, fw_faces := (\<lambda>n. if n \<in> {300, 301} then Some (sample_face n) else None)\<rparr>"
  have s: "sample_pending = fw_modify (ref_of sample_interest) (PitEntry_insertOrUpdateInRecord 5 (sample_face 300) sample_interest) ?fw"
    by (simp add: sample_pending_def p(1) fw_modify_def)
  have e: "fw_entry ?fw = (fw_entry sample_fw)(ref_of sample_interest \<mapsto> PitEntry_ctor sample_interest)"
    using p(3) sample_interest_ok(2) by (simp add: fw_entry_def fun_eq_iff)
  have "fw_inv sample_env sample_type ?fw" using p(2) by (simp add: fw_inv_def fw_entry_def)
  then show "fw_inv sample_env sample_type sample_pending"
    unfolding s by (rule fw_modify_inv) (simp_all add: insertIn_recs_ok)
  show "fw_entry sample_pending (ref_of sample_interest) = Some sample_entry"
    unfolding s sample_entry_def using e by (simp add: fw_entry_modify)
  show "fw_out sample_pending = []" "Face_getId sample_pending (sample_face 300) = 300" "Face_getId sample_pending (sample_face 301) = 301"
    by (simp_all add: s sample_fw(3) Face_getId_def fw_modify_def sample_face_def)
qed

lemma sample_entry_facts:
  "pick_interest f sample_entry = Some sample_interest" "\<not> PitEntry_violatesScope sample_entry f"
  "pit_outRecords sample_entry = []"
  by (simp_all add: sample_entry_def PitEntry_insertOrUpdateInRecord_def PitEntry_ctor_def InRecord_update_def pick_interest_def
      PitEntry_violatesScope_def PitEntry_getName_def sample_interest_def LOCALHOST_NAME_def LOCALHOP_NAME_def
      Name_isPrefixOf_iff bytes_of_def)

theorem best_route2_sends_witness:
  "fw_out (BestRouteStrategy2_afterReceiveInterest 6 (sample_face 300) sample_interest
     \<lparr>fib_prefix = [], fib_nextHops = [\<lparr>nh_face = sample_face 300, nh_cost = 1\<rparr>, \<lparr>nh_face = sample_face 301, nh_cost = 2\<rparr>]\<rparr>
     (ref_of sample_interest) sample_pending) = [(sample_face 301, InterestPacket sample_interest)]"
  using best_route2_sends [OF sample_pending(3) refl, of 6 "sample_face 300" sample_interest
     "\<lparr>fib_prefix = [], fib_nextHops = [\<lparr>nh_face = sample_face 300, nh_cost = 1\<rparr>, \<lparr>nh_face = sample_face 301, nh_cost = 2\<rparr>]\<rparr>"]
  by (simp add: sample_pending sample_entry_facts predicate_NextHop_eligible_def PitEntry_hasUnexpiredOutRecords_def INVALID_FACEID_def)

text \<open>C2. In every state the forwarder reaches, from its start with any strategies that act through the actions of the base
  class, no face that is not local has been given a packet whose name is under \<open>/localhost\<close>.\<close>

theorem forwarder_scope:
  assumes "forwarding_strategies others" "\<forall>s \<in> set factories. typed \<tau> s \<and> length s \<le> npos" "typed \<tau> makeDefaultStrategy"
    and "DeadNonceList_ctor now lifetime = Inr d" "b \<le> 32"
    and "fw_reach env (strategy_object others) \<tau> (Forwarder_ctor env factories (2 ^ b) nMaxPackets d rng c) fw"
  shows "\<forall>(f, p) \<in> set (fw_out fw). face_isLocal f \<or> \<not> Name_isPrefixOf LOCALHOST_NAME (packet_name p)"
proof -
  note i = ctor_ok [OF assms(2-5) refl, of env nMaxPackets rng c]
  then have "list_all scope_ok (fw_out fw)"
    using forwarding_strategies.reach_ok [OF strategy_object_contract [OF assms(1)] assms(6)] by simp
  then show ?thesis by (simp add: list_all_iff scope_ok_def)
qed

text \<open>The state after an Interest for \<open>/a\<close> has come from face 300.\<close>

definition sample_run :: "unit forwarder" where
  "sample_run = Forwarder_onIncomingInterest sample_env (strategy_object sample_strategies) 5 (sample_face 300) sample_interest sample_fw"

lemma sample_run: "fw_reach sample_env (strategy_object sample_strategies) sample_type
    (Forwarder_ctor sample_env [] (2 ^ 4) 10 sample_dnl (\<lambda>_. 0) (Some ())) sample_run"
  unfolding sample_run_def sample_fw_def [symmetric]
  by (rule reach_step [OF reach_start step_interest [OF sample_interest_ok(1)]])

theorem forwarder_scope_witness: "list_all scope_ok (fw_out sample_run)"
  using forwarder_scope [OF default_strategy.forwarding_strategies_axioms _ typed_default(1) sample_dnl _ sample_run]
  by (simp add: list_all_iff scope_ok_def)

text \<open>C3. In every reachable state, a PIT entry that has an in-record or an out-record has a timer scheduled that will
  finalize it: no Interest stays in the PIT forever.\<close>

theorem forwarder_timers:
  assumes "forwarding_strategies others" "\<forall>s \<in> set factories. typed \<tau> s \<and> length s \<le> npos" "typed \<tau> makeDefaultStrategy"
    and "DeadNonceList_ctor now lifetime = Inr d" "b \<le> 32"
    and "fw_reach env (strategy_object others) \<tau> (Forwarder_ctor env factories (2 ^ b) nMaxPackets d rng c) fw"
    and "fw_entry fw r = Some pe" "pit_inRecords pe \<noteq> [] \<or> pit_outRecords pe \<noteq> []"
  shows "pit_unsatisfyTimer pe \<noteq> None \<or> pit_stragglerTimer pe \<noteq> None"
proof -
  note i = ctor_ok [OF assms(2-5) refl, of env nMaxPackets rng c]
  then have "timers_ok fw"
    using forwarding_strategies.reach_ok [OF strategy_object_contract [OF assms(1)] assms(6)] by simp
  from timers_okD [OF this assms(7)] assms(8) show ?thesis by (auto simp: has_timer_def)
qed

lemma sample_run_entry:
  "\<exists>pe. fw_entry sample_run (ref_of sample_interest) = Some pe \<and> pit_inRecords pe \<noteq> []"
proof -
  let ?r = "ref_of sample_interest"
  have "\<not> DeadNonceList_has (env_citySeed sample_env) (int_name sample_interest) (int_nonce sample_interest) (fw_dnl sample_fw)"
    by (simp add: sample_fw(5) sample_dnl_def DeadNonceList_ctor_def sample_env_def sample_interest_def
        DEFAULT_LIFETIME_def MIN_LIFETIME_def DeadNonceList_has_def DeadNonceList_makeEntry_def MARK_def)
  then have k: "\<not> known_nonce sample_env sample_interest sample_fw"
    by (simp add: known_nonce_def sample_interest_ok(2) PitEntry_ctor_def)
  have "face_isLocal (sample_face 300) \<or> \<not> Name_isPrefixOf LOCALHOST_NAME (int_name sample_interest)"
    by (simp add: sample_interest_def LOCALHOST_NAME_def Name_isPrefixOf_iff bytes_of_def)
  from nfd.onIncomingInterest_unfold [OF sample_fw(1) sample_interest_ok(1) this, of 5] k obtain fw1 where
    fw1: "fw_inv sample_env sample_type fw1" "fw_entry fw1 ?r = Some (PitEntry_ctor sample_interest)" "fw_csFromNdnSim fw1 = Some ()"
    and run: "sample_run = (case Forwarder_lookupContent sample_env 5 sample_interest (Forwarder_cancelUnsatisfyAndStragglerTimer ?r fw1) of
         (Some d, fw3) \<Rightarrow> Forwarder_onContentStoreHit (strategy_object sample_strategies) 5 (sample_face 300) ?r sample_interest d fw3
       | (None, fw3) \<Rightarrow> Forwarder_onContentStoreMiss (strategy_object sample_strategies) 5 (sample_face 300) ?r sample_interest fw3)"
    by (auto simp: sample_run_def sample_interest_ok(2) sample_fw(6) PitEntry_ctor_def Let_def)
  define fw2 where "fw2 = Forwarder_cancelUnsatisfyAndStragglerTimer ?r fw1"
  have "Forwarder_lookupContent sample_env 5 sample_interest fw2 = (None, fw2)"
    using fw1(3) by (simp add: Forwarder_lookupContent_def sample_env_def fw2_def Forwarder_cancelUnsatisfyAndStragglerTimer_def fw_modify_def)
  then have run: "sample_run = Forwarder_onContentStoreMiss (strategy_object sample_strategies) 5 (sample_face 300) ?r sample_interest fw2"
    using run by (simp add: fw2_def)
  have i2: "fw_inv sample_env sample_type fw2" unfolding fw2_def by (rule setTimer_inv [OF fw1(1)])
  obtain pe where "fw_entry fw2 ?r = Some pe" using fw1(2) by (simp add: fw2_def setTimer_entry)
  from nfd.onContentStoreMiss_correct(4) [OF i2 this _ run] show ?thesis by auto
qed

theorem forwarder_timers_witness:
  "\<exists>pe. fw_entry sample_run (ref_of sample_interest) = Some pe \<and> (pit_unsatisfyTimer pe \<noteq> None \<or> pit_stragglerTimer pe \<noteq> None)"
proof -
  obtain pe where pe: "fw_entry sample_run (ref_of sample_interest) = Some pe" "pit_inRecords pe \<noteq> []" using sample_run_entry by blast
  show ?thesis
    using forwarder_timers [OF default_strategy.forwarding_strategies_axioms _ typed_default(1) sample_dnl _ sample_run pe(1)] pe by simp
qed

text \<open>C1. When Data arrives that is in scope, exactly the valid faces, other than the one it came from, that have an unexpired
  in-record in a PIT entry for a prefix of the Data name whose Interest the Data matches are sent it, each once; and these entries
  have no in-record left.\<close>

theorem forwarder_data_delivery:
  assumes "forwarding_strategies others" "fw_inv env \<tau> fw" "cs_data_ok (env_sha256 env) d" "accepts_data inFace d"
    and "typed \<tau> (data_name d)" "prefix_hashes_distinct (env_city env) (data_name d)"
    and "fw' = Forwarder_onIncomingData env (strategy_object others) now inFace d fw"
  defines "matched r \<equiv> prefix (fst r) (data_name d) \<and>
      (\<exists>pe. fw_entry fw r = Some pe \<and> Interest_matchesData (env_sha256 env) (pit_interest pe) d)"
  shows "(\<exists>fs. fw_out fw' = fw_out fw @ map (\<lambda>f. (f, DataPacket d)) fs \<and> distinct fs \<and>
       (\<forall>f. f \<in> set fs \<longleftrightarrow> f \<noteq> inFace \<and> Face_getId fw f \<noteq> INVALID_FACEID \<and> scope_ok (f, DataPacket d) \<and>
          (\<exists>r. matched r \<and> waiting now fw r f))) \<and>
    (\<forall>r. if matched r then \<exists>pe. fw_entry fw' r = Some pe \<and> pit_inRecords pe = [] else fw_entry fw' r = fw_entry fw r)"
proof -
  define rs where "rs = Pit_findAllDataMatches (env_city env) (env_sha256 env) d (fw_nt fw)"
  have inv: "nt_inv (env_city env) \<tau> (fw_nt fw)" "pit_inv (fw_nt fw)" using assms(2) by (simp_all add: fw_inv_def)
  have m: "r \<in> set rs \<longleftrightarrow> matched r" for r
  proof -
    obtain k s where r: "r = (k, s)" by (cases r)
    show ?thesis
      using findAllDataMatches_mem [OF inv(1) assms(5,6), of k s "env_sha256 env"] pit_at_iff [OF inv(2), of k s]
      unfolding matched_def rs_def r fw_entry_def by auto
  qed
  note contract = strategy_object_contract [OF assms(1)]
  show ?thesis
  proof (cases "rs = []")
    case False
    note c = forwarding_strategies.onIncomingData_matched [OF contract assms(2-4) rs_def False assms(7)]
    have "if matched r then \<exists>pe. fw_entry fw' r = Some pe \<and> pit_inRecords pe = [] else fw_entry fw' r = fw_entry fw r" for r
      using c(2) [of r] c(3) [of r] m [of r] by (cases "matched r") auto
    then show ?thesis using c(4) unfolding Bex_def m by (intro conjI allI)
  next
    case True
    then have no: "\<not> matched r" for r using m by auto
    note u = forwarding_strategies.onIncomingData_unmatched [OF contract assms(2-4) True [unfolded rs_def] assms(7)]
    show ?thesis using u(2,3) no by (intro conjI exI [of _ "[]"]) auto
  qed
qed

lemma sample_pending_data:
  "cs_data_ok sample_sha sample_data" "accepts_data (sample_face 301) sample_data" "typed sample_type (data_name sample_data)"
  "prefix_hashes_distinct (\<lambda>_. 5) (data_name sample_data)" "scope_ok (sample_face 300, DataPacket sample_data)"
  "waiting 6 sample_pending (ref_of sample_interest) (sample_face 300)" "pit_interest sample_entry = sample_interest"
  "Interest_matchesData sample_sha sample_interest sample_data"
proof -
  have n: "data_name sample_data = [Component 8 [97]]" by (simp add: sample_data_def)
  show "cs_data_ok sample_sha sample_data" using sample_data_ok [of "[97]"] by (simp add: sample_data_def)
  show "typed sample_type (data_name sample_data)" "prefix_hashes_distinct (\<lambda>_. 5) (data_name sample_data)"
    unfolding n by (rule sample_prefix)+
  show "accepts_data (sample_face 301) sample_data" "scope_ok (sample_face 300, DataPacket sample_data)"
    by (simp_all add: accepts_data_def scope_ok_def packet_name_def n LOCALHOST_NAME_def Name_isPrefixOf_iff bytes_of_def)
  show "pit_interest sample_entry = sample_interest" by (simp add: sample_entry_def PitEntry_ctor_def)
  show "waiting 6 sample_pending (ref_of sample_interest) (sample_face 300)"
    unfolding waiting_def sample_pending(3)
    by (simp add: sample_entry_def PitEntry_insertOrUpdateInRecord_def PitEntry_ctor_def InRecord_update_def FaceRecord_expiry_def sample_interest_def
        milliseconds_def DEFAULT_INTEREST_LIFETIME_def)
  show "Interest_matchesData sample_sha sample_interest sample_data"
    by (simp add: sample_data_def sample_interest_def Interest_matchesData_def Selectors_ctor_def Name_isPrefixOf_iff Exclude_empty_def
      keyLocator_ok_def KeyLocator_empty_def)
qed

theorem forwarder_data_delivery_witness:
  "(sample_face 300, DataPacket sample_data) \<in>
     set (fw_out (Forwarder_onIncomingData sample_env (strategy_object sample_strategies) 6 (sample_face 301) sample_data sample_pending))"
proof -
  let ?r = "ref_of sample_interest" and ?fw = "Forwarder_onIncomingData sample_env (strategy_object sample_strategies) 6 (sample_face 301) sample_data sample_pending"
  have e: "env_sha256 sample_env = sample_sha" "env_city sample_env = (\<lambda>_. 5)" by (simp_all add: sample_env_def)
  note d = sample_pending_data
  from forwarder_data_delivery [OF default_strategy.forwarding_strategies_axioms sample_pending(1) d(1-2)
      [folded e(1)] d(3) d(4) [folded e(2)] refl, of 6, THEN conjunct1]
  obtain fs where fs: "fw_out ?fw = fw_out sample_pending @ map (\<lambda>f. (f, DataPacket sample_data)) fs"
    "\<And>f. f \<in> set fs \<longleftrightarrow> f \<noteq> sample_face 301 \<and> Face_getId sample_pending f \<noteq> INVALID_FACEID \<and> scope_ok (f, DataPacket sample_data) \<and>
          (\<exists>r. (prefix (fst r) (data_name sample_data) \<and> (\<exists>pe. fw_entry sample_pending r = Some pe \<and>
             Interest_matchesData (env_sha256 sample_env) (pit_interest pe) sample_data)) \<and> waiting 6 sample_pending r f)"
    by blast
  have "prefix (fst ?r) (data_name sample_data)" by (simp add: sample_interest_def sample_data_def)
  then have "\<exists>r. (prefix (fst r) (data_name sample_data) \<and> (\<exists>pe. fw_entry sample_pending r = Some pe \<and>
      Interest_matchesData (env_sha256 sample_env) (pit_interest pe) sample_data)) \<and> waiting 6 sample_pending r (sample_face 300)"
    using d(6-8) sample_pending(3) e(1) by (intro exI [of _ ?r]) simp
  then have "sample_face 300 \<in> set fs"
    unfolding fs(2) using d(5) sample_pending(4) by (simp add: INVALID_FACEID_def sample_face_def)
  then show ?thesis unfolding fs(1) by simp
qed

text \<open>C4. When the unsatisfy timer of a PIT entry fires, the entry is gone, and an Interest that comes back later with the nonce of one
  of its out-records is found to loop: nothing is sent for it.\<close>

theorem forwarder_no_loop:
  assumes "forwarding_strategies others" "fw_inv env \<tau> fw" "fw_entry fw r = Some pe" "ur \<in> set (pit_outRecords pe)"
    and "length (pit_outRecords pe) \<le> dnl_capacity (fw_dnl fw)"
    and "fw1 = Forwarder_onInterestUnsatisfied env (strategy_object others) now r fw"
    and "int_name i = fst r" "int_nonce i = rec_lastNonce ur" "interest_ok \<tau> i fw"
  shows "fw_entry fw1 r = None \<and> fw_out (Forwarder_onIncomingInterest env (strategy_object others) now' inFace i fw1) = fw_out fw"
  using forwarding_strategies.no_loop_after_expiry [OF strategy_object_contract [OF assms(1)] assms(2-9) refl] by blast

text \<open>The Interest was forwarded to face 301.\<close>

definition sample_sent :: "unit forwarder" where
  "sample_sent = fw_modify (ref_of sample_interest) (PitEntry_insertOrUpdateOutRecord 5 (sample_face 301) sample_interest) sample_pending"

lemma sample_sent:
  "fw_inv sample_env sample_type sample_sent" "fw_out sample_sent = []" "fw_dnl sample_sent = sample_dnl"
  "interest_ok sample_type sample_interest sample_sent"
  "\<exists>pe ur. fw_entry sample_sent (ref_of sample_interest) = Some pe \<and> pit_outRecords pe = [ur] \<and> rec_lastNonce ur = int_nonce sample_interest"
proof -
  let ?r = "ref_of sample_interest"
  show "fw_inv sample_env sample_type sample_sent" unfolding sample_sent_def
    by (rule fw_modify_inv [OF sample_pending(1)]) (simp_all add: recs_ok_def PitEntry_insertOrUpdateOutRecord_def Let_def)
  show "fw_out sample_sent = []" using sample_pending(2) by (simp add: sample_sent_def)
  show "fw_dnl sample_sent = sample_dnl"
    by (simp add: sample_sent_def sample_pending_def fw_modify_def sample_fw(5) split: prod.split)
  show "\<exists>pe ur. fw_entry sample_sent ?r = Some pe \<and> pit_outRecords pe = [ur] \<and> rec_lastNonce ur = int_nonce sample_interest"
    using sample_entry_facts(3) sample_pending(3)
    by (simp add: sample_sent_def fw_entry_modify PitEntry_insertOrUpdateOutRecord_def OutRecord_update_def)
  have ok: "typed sample_type (int_name sample_interest)" "nt_room (fst sample_choice) (int_name sample_interest)"
    "selectors_wf (int_selectors sample_interest)"
    using sample_interest_ok(1) by (simp_all add: interest_ok_def sample_fw(4))
  obtain nt where lk: "NameTree_lookup (\<lambda>_. 5) (int_name sample_interest) (fst sample_choice) = (int_name sample_interest, nt)"
    "dom (nt_store nt) = dom (nt_store (fst sample_choice)) \<union> {k. prefix k (int_name sample_interest)}"
    using lookup_correct [OF sample_choice(1) ok(1) ok(2) [unfolded nt_room_def]] by blast
  have "dom (nt_store (fw_nt sample_sent)) = dom (nt_store nt)"
    by (simp add: sample_sent_def fw_modify_dom sample_pending_def Pit_insert_def lk(1) sample_fw(4) split: option.split prod.split)
      (auto simp: insertPitEntry_def nt_update_def)
  also have "\<dots> \<subseteq> {[], [Component 8 [97]]}"
    unfolding lk(2) sample_choice_dom by (auto simp: sample_interest_def prefix_Cons)
  finally have "card (dom (nt_store (fw_nt sample_sent))) \<le> card {[], [Component 8 [97]]}" by (intro card_mono) simp_all
  also have "card {[], [Component 8 [97]]} \<le> 2" by (simp add: card_insert_if)
  finally show "interest_ok sample_type sample_interest sample_sent"
    using ok by (simp add: interest_ok_def nt_room_def sample_interest_def)
qed

theorem forwarder_no_loop_witness:
  "fw_out (Forwarder_onIncomingInterest sample_env (strategy_object sample_strategies) 9 (sample_face 301) sample_interest
     (Forwarder_onInterestUnsatisfied sample_env (strategy_object sample_strategies) 8 (ref_of sample_interest) sample_sent)) = []"
proof -
  obtain pe ur where pe: "fw_entry sample_sent (ref_of sample_interest) = Some pe" "pit_outRecords pe = [ur]"
    "rec_lastNonce ur = int_nonce sample_interest" using sample_sent(5) by blast
  have "1 \<le> dnl_capacity (fw_dnl sample_sent)" using sample_sent(1) by (simp add: fw_inv_def dnl_inv_def MIN_CAPACITY_def)
  then show ?thesis
    using forwarder_no_loop [OF default_strategy.forwarding_strategies_axioms sample_sent(1) pe(1) _ _ refl _ _ sample_sent(4),
        of ur 8 9 "sample_face 301"] pe(2,3) sample_sent(2) by simp
qed

text \<open>C37. An Interest for which there is no PIT entry and whose nonce is on the Dead Nonce List is dropped, but the PIT
  entry made for it stays, and no timer is set that would remove it.\<close>

theorem forwarder_loop_leak:
  assumes "forwarding_strategies others" "fw_inv env \<tau> fw" "interest_ok \<tau> i fw" "fw_entry fw (ref_of i) = None"
    and "DeadNonceList_has (env_citySeed env) (int_name i) (int_nonce i) (fw_dnl fw)"
    and "face_isLocal inFace \<or> \<not> Name_isPrefixOf LOCALHOST_NAME (int_name i)"
  shows "\<exists>pe. fw_entry (Forwarder_onIncomingInterest env (strategy_object others) now inFace i fw) (ref_of i) = Some pe \<and>
    pit_unsatisfyTimer pe = None \<and> pit_stragglerTimer pe = None"
  using forwarding_strategies.loop_leaves_entry [OF strategy_object_contract [OF assms(1)] assms(2-6)] by (simp add: PitEntry_ctor_def)

text \<open>The nonce of the Interest for \<open>/a\<close> has died.\<close>

theorem forwarder_loop_leak_witness:
  "\<exists>pe. fw_entry (Forwarder_onIncomingInterest sample_env (strategy_object sample_strategies) 9 (sample_face 300) sample_interest
      (sample_fw\<lparr>fw_dnl := DeadNonceList_add (env_citySeed sample_env) (int_name sample_interest) (int_nonce sample_interest) sample_dnl\<rparr>))
      (ref_of sample_interest) = Some pe \<and> pit_unsatisfyTimer pe = None \<and> pit_stragglerTimer pe = None"
proof (rule forwarder_loop_leak [OF default_strategy.forwarding_strategies_axioms])
  let ?d = "DeadNonceList_add (env_citySeed sample_env) (int_name sample_interest) (int_nonce sample_interest) sample_dnl"
  have "dnl_inv sample_dnl" using sample_fw(1,5) by (simp add: fw_inv_def)
  then have "dnl_inv ?d" using dnl_inv_apply [of sample_dnl "env_citySeed sample_env" "Add (int_name sample_interest) (int_nonce sample_interest)"] by simp
  then show "fw_inv sample_env sample_type (sample_fw\<lparr>fw_dnl := ?d\<rparr>)" by (rule fw_inv_dnl [OF sample_fw(1)])
  show "interest_ok sample_type sample_interest (sample_fw\<lparr>fw_dnl := ?d\<rparr>)" using sample_interest_ok(1) by (simp add: interest_ok_def)
  show "fw_entry (sample_fw\<lparr>fw_dnl := ?d\<rparr>) (ref_of sample_interest) = None" using sample_interest_ok(2) by (simp add: fw_entry_def)
  have "1 \<le> dnl_capacity sample_dnl" using \<open>dnl_inv sample_dnl\<close> by (simp add: dnl_inv_def MIN_CAPACITY_def)
  then show "DeadNonceList_has (env_citySeed sample_env) (int_name sample_interest) (int_nonce sample_interest) (fw_dnl (sample_fw\<lparr>fw_dnl := ?d\<rparr>))"
    using fold_add_has [of _ "[int_nonce sample_interest]" sample_dnl "env_citySeed sample_env" "int_name sample_interest"] by simp
  show "face_isLocal (sample_face 300) \<or> \<not> Name_isPrefixOf LOCALHOST_NAME (int_name sample_interest)"
    by (simp add: sample_interest_def LOCALHOST_NAME_def Name_isPrefixOf_iff bytes_of_def)
qed

section \<open>Applications\<close>

text \<open>A scheduler whose state is the time, the number of events so far and the identifiers of the events that are pending; and
  doubles computed exactly.\<close>

definition sample_simulator :: "(timepoint \<times> nat \<times> nat list) simulator" where
  "sample_simulator = \<lparr>sim_Now = fst, sim_Schedule = \<lambda>delay ev (now, n, pending). (n, (now, Suc n, n # pending)),
     sim_Remove = \<lambda>e (now, n, pending). (now, n, removeAll e pending),
     sim_Cancel = \<lambda>e (now, n, pending). (now, n, removeAll e pending),
     sim_IsRunning = \<lambda>e (now, n, pending). e \<in> set pending\<rparr>"

definition sample_app_env :: "(real, timepoint \<times> nat \<times> nat list) app_env" where
  "sample_app_env = \<lparr>env_dbl = double_ops.extend exact_double
       \<lparr>d_le = (\<le>), d_eq = (=), d_pow = (powr), d_Floor = \<lambda>x. of_int \<lfloor>x\<rfloor>\<rparr>,
     env_sim = sample_simulator, env_uniform = \<lambda>a b n. a, env_exponential = \<lambda>a b n. a\<rparr>"

definition sample_consumer :: "(real, timepoint \<times> nat \<times> nat list) consumer" where
  "sample_consumer = \<lparr>con_active = False, con_seq = 0, con_seqMax = max_u32, con_sendEvent = None, con_retxTimer = 0,
     con_retxEvent = None, con_rtt = RttMeanDeviation_ctor exact_double, con_interestName = [Component 8 [97]],
     con_interestLifeTime = 2000000000, con_retxSeqs = [], con_seqTimeouts = [], con_seqLastDelay = [],
     con_seqFullDelay = [], con_seqRetxCounts = \<lambda>_. None, con_rng = of_nat, con_sim = (0, 0, []), con_out = []\<rparr>"

definition sample_fd :: "(real, timepoint \<times> nat \<times> nat list) fully_distributed" where
  "sample_fd = consumer.extend sample_consumer \<lparr>fd_payloadSize = 1040, fd_maxSize = - 1, fd_initialWindow = 1,
     fd_setInitialWindowOnTimeout = True, fd_ssthresh = max_u32, fd_window = 1, fd_inFlight = 0\<rparr>"

definition sample_win :: "(real, timepoint \<times> nat \<times> nat list) consumer_window" where
  "sample_win = consumer.extend sample_consumer \<lparr>win_payloadSize = 1040, win_maxSize = - 1, win_initialWindow = 1,
     win_setInitialWindowOnTimeout = True, win_window = 1, win_inFlight = 0\<rparr>"

lemma sample_fd_core: "core_of sample_fd = core_of sample_consumer" and sample_win_core: "core_of sample_win = core_of sample_consumer"
  by (simp_all add: core_of_def sample_fd_def sample_win_def sample_consumer_def consumer.defs)

text \<open>The application is started and its first packet is due.\<close>

lemma sample_start:
  assumes "consumer_class vt" "core_of c = core_of sample_consumer"
  shows "\<exists>c1 i. con_reach env vt c ({}, c1) \<and> con_seq c1 = 1 \<and> con_out c1 = [i] \<and> con_seqTimeouts c1 \<noteq> []"
proof -
  let ?c0 = "Consumer_StartApplication vt c"
  have k: "core_of ?c0 = (core_of sample_consumer)\<lparr>co_active := True\<rparr>"
    by (simp add: Consumer_StartApplication_def App_StartApplication_def consumer_class.schedule_law [OF assms(1)] assms(2))
  then have f: "con_active ?c0" "con_seq ?c0 = 0" "con_retxSeqs ?c0 = []" "con_seqTimeouts ?c0 = []" "con_seqMax ?c0 = max_u32"
    "con_out ?c0 = []"
    using core_of_simps [of ?c0] by (simp_all add: sample_consumer_def)
  have i: "core_inv {} (core_of ?c0)" by (simp add: core_inv_def open_seqs_def f)
  have m: "con_seq ?c0 < max_u32" by (simp add: f)
  have "con_step env vt ({}, c) ({}, ?c0)"
    using core_of_simps(1) [of c] by (intro con_start) (simp add: assms(2) sample_consumer_def)
  then have r: "con_reach env vt c ({}, ?c0)" by (blast intro: con_init con_more)
  show ?thesis
  proof (rule consumer_class.SendPacket_correct [OF assms(1) i m])
    assume "next_request (core_of ?c0) = None"
    then show ?thesis by (simp add: next_request_def f)
  next
    fix sq c' i t
    assume "Consumer_SendPacket vt ?c0 = Inr c'"
      and c': "core_of c' = (core_of ?c0)\<lparr>co_seq := (if con_retxSeqs ?c0 = [] then con_seq ?c0 + 1 else con_seq ?c0),
         co_retx := set_erase sq (con_retxSeqs ?c0), co_timeouts := st_insert sq t (con_seqTimeouts ?c0), co_out := con_out ?c0 @ [i]\<rparr>"
    then have "con_reach env vt c ({}, c')" using r m con_send by (blast intro: con_more)
    moreover have "con_seq c' = 1" "con_out c' = [i]" "con_seqTimeouts c' = [(sq, t)]"
      using c' core_of_simps(2,6,7) [of c'] by (simp_all add: f st_insert_def)
    ultimately show ?thesis by (intro exI [of _ c'] exI [of _ i]) simp
  qed
qed

text \<open>C10. In every state that the NCFCC consumer reaches, each sequence number below the next one was answered by
  Data, or is under way, or is to be sent again, and no number is both under way and to be sent again.\<close>

theorem consumer_reliable:
  assumes "con_reach env (FullyDistributed_class env) c (received, c')"
    and "con_seq c = 0" "con_seqTimeouts c = []" "con_retxSeqs c = []" "sq < con_seq c'"
  shows "(sq \<in> received \<or> sq \<in> fst ` set (con_seqTimeouts c') \<or> sq \<in> set (con_retxSeqs c')) \<and>
    \<not> (sq \<in> fst ` set (con_seqTimeouts c') \<and> sq \<in> set (con_retxSeqs c'))"
  using fd.reach_inv [OF assms(1-4)] assms(5) by (auto simp: core_inv_def open_seqs_def)

text \<open>The consumer was started and sent its first Interest.\<close>

theorem consumer_reliable_witness:
  "\<exists>c'. 0 < con_seq c' \<and> con_reach sample_app_env (FullyDistributed_class sample_app_env) sample_fd ({}, c') \<and>
     0 \<in> fst ` set (con_seqTimeouts c') \<union> set (con_retxSeqs c')"
proof -
  obtain c1 where c1: "con_reach sample_app_env (FullyDistributed_class sample_app_env) sample_fd ({}, c1)" "con_seq c1 = 1"
    using sample_start [OF fd.consumer_class_axioms sample_fd_core] by blast
  have "0 \<in> fst ` set (con_seqTimeouts c1) \<union> set (con_retxSeqs c1)"
    using consumer_reliable [OF c1(1), of 0] by (simp add: c1(2)) (simp add: sample_fd_def sample_consumer_def consumer.defs)
  moreover have "0 < con_seq c1" by (simp add: c1(2))
  ultimately show ?thesis using c1(1) by blast
qed

text \<open>C11. The check for timeouts of the NCFCC consumer ends in every state it reaches. It leaves under way exactly the
  packets whose retransmission timeout has not passed, and the others are to be sent again; then \<open>SendPacket\<close> requests the least
  number that is to be sent again before any new one.\<close>

theorem consumer_progress:
  assumes "con_reach env (FullyDistributed_class env) c (received, c1)"
    and "con_seq c = 0" "con_seqTimeouts c = []" "con_retxSeqs c = []" "con_seq c1 < max_u32"
  shows "\<exists>c2. Consumer_CheckRetxTimeout env (FullyDistributed_class env) c1 = Some c2 \<and>
    con_seqTimeouts c2 = filter (\<lambda>e. app_now env c1 < snd e + Consumer_rto env c1) (con_seqTimeouts c1) \<and>
    set (con_retxSeqs c2) = set (con_retxSeqs c1) \<union> {sq. \<exists>t. (sq, t) \<in> set (con_seqTimeouts c1) \<and> t + Consumer_rto env c1 \<le> app_now env c1} \<and>
    (con_active c2 \<and> con_retxSeqs c2 \<noteq> [] \<longrightarrow>
      (\<exists>c3 i. Consumer_SendPacket (FullyDistributed_class env) c2 = Inr c3 \<and> con_out c3 = con_out c2 @ [i] \<and>
        Consumer_makeInterest (Min (set (con_retxSeqs c2))) c2 = Inr i \<and> con_seq c3 = con_seq c2 \<and>
        set (con_retxSeqs c3) = set (con_retxSeqs c2) - {Min (set (con_retxSeqs c2))}))"
proof -
  have i: "core_inv received (core_of c1)" using fd.reach_inv [OF assms(1-4)] by simp
  then have "sorted (map snd (con_seqTimeouts c1))" by (simp add: core_inv_def)
  from fd.CheckRetxTimeout_correct [OF this, of env env] obtain c2 where
    c2: "Consumer_CheckRetxTimeout env (FullyDistributed_class env) c1 = Some c2"
    "core_of c2 = (core_of c1)\<lparr>co_timeouts := filter (\<lambda>e. app_now env c1 < snd e + Consumer_rto env c1) (con_seqTimeouts c1),
       co_retx := fold set_insert (map fst (filter (\<lambda>e. snd e + Consumer_rto env c1 \<le> app_now env c1) (con_seqTimeouts c1))) (con_retxSeqs c1)\<rparr>"
    by blast
  have f: "con_seqTimeouts c2 = filter (\<lambda>e. app_now env c1 < snd e + Consumer_rto env c1) (con_seqTimeouts c1)" "con_seq c2 = con_seq c1"
    "con_retxSeqs c2 = fold set_insert (map fst (filter (\<lambda>e. snd e + Consumer_rto env c1 \<le> app_now env c1) (con_seqTimeouts c1))) (con_retxSeqs c1)"
    using c2(2) core_of_simps [of c2] by simp_all
  then have s: "set (con_retxSeqs c2) = set (con_retxSeqs c1) \<union> {sq. \<exists>t. (sq, t) \<in> set (con_seqTimeouts c1) \<and> t + Consumer_rto env c1 \<le> app_now env c1}"
    by force
  have i2: "core_inv received (core_of c2)" using core_inv_check [OF i] c2(2) by simp
  have "\<exists>c3 i. Consumer_SendPacket (FullyDistributed_class env) c2 = Inr c3 \<and> con_out c3 = con_out c2 @ [i] \<and>
      Consumer_makeInterest (Min (set (con_retxSeqs c2))) c2 = Inr i \<and> con_seq c3 = con_seq c2 \<and>
      set (con_retxSeqs c3) = set (con_retxSeqs c2) - {Min (set (con_retxSeqs c2))}"
    if a: "con_active c2" "con_retxSeqs c2 \<noteq> []"
  proof -
    obtain x xs where x: "con_retxSeqs c2 = x # xs" using a(2) by (cases "con_retxSeqs c2") auto
    have "sorted (con_retxSeqs c2)" using i2 by (simp add: core_inv_def)
    then have min: "Min (set (con_retxSeqs c2)) = x" using x by (intro Min_eqI) auto
    have m: "con_seq c2 < max_u32" using f(2) assms(5) by simp
    show ?thesis
    proof (rule fd.SendPacket_correct [OF i2 m, of env])
      assume "next_request (core_of c2) = None"
      then show ?thesis using a x by (simp add: next_request_def)
    next
      fix sq c3 i t
      assume "next_request (core_of c2) = Some sq" "Consumer_SendPacket (FullyDistributed_class env) c2 = Inr c3"
        "Consumer_makeInterest sq c2 = Inr i"
        and c3: "core_of c3 = (core_of c2)\<lparr>co_seq := (if con_retxSeqs c2 = [] then con_seq c2 + 1 else con_seq c2),
         co_retx := set_erase sq (con_retxSeqs c2), co_timeouts := st_insert sq t (con_seqTimeouts c2), co_out := con_out c2 @ [i]\<rparr>"
      moreover from this have "sq = x" using a x by (simp add: next_request_def)
      moreover have "con_out c3 = con_out c2 @ [i]" "con_seq c3 = con_seq c2" "con_retxSeqs c3 = set_erase sq (con_retxSeqs c2)"
        using c3 a core_of_simps [of c3] by simp_all
      ultimately show ?thesis by (auto simp: min)
    qed
  qed
  then show ?thesis using c2(1) f(1) s by blast
qed

theorem consumer_progress_witness:
  "\<exists>c1 c2. con_seqTimeouts c1 \<noteq> [] \<and> Consumer_CheckRetxTimeout sample_app_env (FullyDistributed_class sample_app_env) c1 = Some c2 \<and>
     con_seqTimeouts c2 = filter (\<lambda>e. app_now sample_app_env c1 < snd e + Consumer_rto sample_app_env c1) (con_seqTimeouts c1)"
proof -
  obtain c1 where c1: "con_reach sample_app_env (FullyDistributed_class sample_app_env) sample_fd ({}, c1)" "con_seq c1 = 1"
    "con_seqTimeouts c1 \<noteq> []"
    using sample_start [OF fd.consumer_class_axioms sample_fd_core] by blast
  have "con_seq sample_fd = 0" "con_seqTimeouts sample_fd = []" "con_retxSeqs sample_fd = []" "con_seq c1 < max_u32"
    by (simp_all add: c1(2) sample_fd_def sample_consumer_def consumer.defs)
  from consumer_progress [OF c1(1) this] c1(3) show ?thesis by blast
qed

text \<open>The Interests that a window consumer counts as in flight are never more than the packets under way, and
  with each Data the count goes down by one unless it is zero, while the window grows by one.\<close>

theorem window_inflight:
  assumes "con_reach env (ConsumerWindow_class env) c (received, c')"
    and "con_seq c = 0" "con_seqTimeouts c = []" "con_retxSeqs c = []" "win_inFlight c = 0"
  shows "unat (win_inFlight c') \<le> length (con_seqTimeouts c') \<and>
    (ConsumerWindow_OnData env d c' = Inr c'' \<longrightarrow> unat (win_inFlight c'') = unat (win_inFlight c') - 1 \<and> win_window c'' = win_window c' + 1)"
proof (intro conjI [of "unat (win_inFlight c') \<le> length (con_seqTimeouts c')"] impI)
  show "unat (win_inFlight c') \<le> length (con_seqTimeouts c')" using window_flight.reach_ok [OF assms(1-4)] assms(5) by simp
  assume d: "ConsumerWindow_OnData env d c' = Inr c''"
  then obtain c1 where c1: "Consumer_OnData env d c' = Inr c1" by (auto simp: ConsumerWindow_OnData_def)
  let ?c2 = "c1\<lparr>win_window := win_window c1 + 1\<rparr>"
  have "consumer.more c'' = consumer.more (if win_inFlight ?c2 > 0 then ?c2\<lparr>win_inFlight := win_inFlight ?c2 - 1\<rparr> else ?c2)"
    using d by (auto simp: ConsumerWindow_OnData_def c1 Let_def)
  from window_fields(2) [OF this] have "win_window c'' = win_window c' + 1" using window_fields(2) [OF OnData_more [OF c1]] by simp
  then show "unat (win_inFlight c'') = unat (win_inFlight c') - 1 \<and> win_window c'' = win_window c' + 1"
    using window_OnData_inFlight [OF d] unat_pred [of "win_inFlight c'"] by (auto simp: word_greater_zero_iff)
qed

theorem window_inflight_witness:
  "\<exists>c'. con_seqTimeouts c' \<noteq> [] \<and> con_reach sample_app_env (ConsumerWindow_class sample_app_env) sample_win ({}, c') \<and>
     unat (win_inFlight c') \<le> length (con_seqTimeouts c')"
proof -
  obtain c1 where c1: "con_reach sample_app_env (ConsumerWindow_class sample_app_env) sample_win ({}, c1)" "con_seqTimeouts c1 \<noteq> []"
    using sample_start [OF window.consumer_class_axioms sample_win_core] by blast
  have "con_seq sample_win = 0" "con_seqTimeouts sample_win = []" "con_retxSeqs sample_win = []" "win_inFlight sample_win = 0"
    by (simp_all add: sample_win_def sample_consumer_def consumer.defs)
  from window_inflight [OF c1(1) this] c1 show ?thesis by blast
qed

text \<open>C33. The window of the NCFCC consumer stays at most 150, or at most the initial window if that is larger.\<close>

theorem fd_window_bound:
  assumes "con_reach env (FullyDistributed_class env) c (received, c')"
    and "con_seq c = 0" "con_seqTimeouts c = []" "con_retxSeqs c = []" "fd_window c = fd_initialWindow c"
  shows "fd_window c' \<le> max 150 (fd_initialWindow c')"
  using fd_window.reach_ok [OF assms(1-4)] assms(5) by (simp add: fd_bound_def)

theorem fd_window_bound_witness:
  "\<exists>c'. con_seqTimeouts c' \<noteq> [] \<and> con_reach sample_app_env (FullyDistributed_class sample_app_env) sample_fd ({}, c') \<and>
     fd_window c' \<le> max 150 (fd_initialWindow c')"
proof -
  obtain c1 where c1: "con_reach sample_app_env (FullyDistributed_class sample_app_env) sample_fd ({}, c1)" "con_seqTimeouts c1 \<noteq> []"
    using sample_start [OF fd.consumer_class_axioms sample_fd_core] by blast
  have "con_seq sample_fd = 0" "con_seqTimeouts sample_fd = []" "con_retxSeqs sample_fd = []" "fd_window sample_fd = fd_initialWindow sample_fd"
    by (simp_all add: sample_fd_def sample_consumer_def consumer.defs)
  from fd_window_bound [OF c1(1) this] c1 show ?thesis by blast
qed

text \<open>C38. The reduction of the window of the NCFCC consumer is by integer quotients, so a notification or a timeout
  does not take a half or a third of the window but sets it to zero. Data that arrives while the window is at its limit does not lower the
  number of Interests in flight.\<close>

theorem fd_window_collapse:
  "(Name_equals (int_name i) RSR_NAME \<longrightarrow> fd_window (FullyDistributed_OnRsr env i c) = 0) \<and>
   (fd_setInitialWindowOnTimeout c \<longrightarrow> fd_window (FullyDistributed_OnTimeout env sq c) = 0) \<and>
   (FullyDistributed_OnData env d c = Inr c' \<and> 150 \<le> fd_window c \<longrightarrow> fd_window c' = fd_window c \<and> fd_inFlight c' = fd_inFlight c)"
  using fd_OnData_window [of env d c c'] by (auto simp: fd_OnRsr_window fd_OnTimeout_window dest: leD)

theorem fd_window_collapse_witness:
  "fd_window (FullyDistributed_OnRsr sample_app_env (NaccApp_SendInterest 7) (sample_fd\<lparr>fd_window := 100\<rparr>)) = 0 \<and>
   fd_window (FullyDistributed_OnTimeout sample_app_env 3 (sample_fd\<lparr>fd_window := 100\<rparr>)) = 0"
proof -
  let ?c = "sample_fd\<lparr>fd_window := 100\<rparr>"
  have "Name_equals (int_name (NaccApp_SendInterest 7)) RSR_NAME" "fd_setInitialWindowOnTimeout ?c"
    by (simp_all add: NaccApp_SendInterest_def Name_equals_iff sample_fd_def consumer.defs sample_consumer_def)
  then show ?thesis
    using fd_window_collapse [where env = sample_app_env and i = "NaccApp_SendInterest 7" and c = ?c and sq = 3] by blast
qed

text \<open>A round trip is measured only on a packet that was sent once, and then the multiplier is reset; on a packet that was
  sent again nothing is measured and the multiplier stays. The packet leaves the history, whose sequence numbers stay distinct.\<close>

theorem rtt_karn:
  assumes "rtt_inv r" "RttMeanDeviation_AckSeq D now sq r = (m, r')" "h \<in> set (rtt_history r)" "hist_seq h = sq"
  shows "rtt_inv r' \<and> rtt_history r' = filter (\<lambda>h. hist_seq h \<noteq> sq) (rtt_history r) \<and>
    (if hist_retx h then rtt_multiplier r' = rtt_multiplier r \<and> rtt_currentEstimatedRtt r' = rtt_currentEstimatedRtt r \<and> rtt_variance r' = rtt_variance r
     else m = now - hist_time h \<and> rtt_multiplier r' = 1 \<and>
       rtt_currentEstimatedRtt r' = rtt_currentEstimatedRtt (RttMeanDeviation_Measurement D m r))"
proof -
  have "\<forall>h' \<in> set (rtt_history r). hist_seq h' = sq \<longrightarrow> hist_retx h'" if "hist_retx h"
    using assms(1,3,4) that by (auto simp: rtt_inv_def distinct_map inj_on_def)
  then show ?thesis using AckSeq_correct [OF assms(1,2)] AckSeq_inv [OF assms(1), of D now sq] assms(2-4) by auto
qed

text \<open>A packet was sent once at time 0 and acknowledged at time 9.\<close>

theorem rtt_karn_witness:
  "fst (RttMeanDeviation_AckSeq exact_double 9 5 (RttMeanDeviation_SentSeq 0 5 1 (RttMeanDeviation_ctor exact_double))) = 9"
proof -
  let ?r = "RttMeanDeviation_SentSeq 0 5 1 (RttMeanDeviation_ctor exact_double)"
  let ?h = "RttHistory_ctor 5 1 0"
  obtain m r' where a: "RttMeanDeviation_AckSeq exact_double 9 5 ?r = (m, r')" by fastforce
  have "?h \<in> set (rtt_history ?r)" "hist_seq ?h = 5"
    by (simp_all add: RttMeanDeviation_SentSeq_def RttMeanDeviation_ctor_def RttHistory_ctor_def)
  from rtt_karn [OF SentSeq_inv [OF rtt_inv_ctor] a this] show ?thesis by (simp add: a RttHistory_ctor_def)
qed

section \<open>The routing information base\<close>

text \<open>C9. Inserting and erasing routes keep the RIB well-formed: its entries have routes, one for each face and origin, are linked to the entry
  of the longest proper prefix in the table and from there, and are found by face. They refine a map from names to lists of routes: \<open>Rib::insert\<close> updates the
  route with the same face and origin or adds one at the end, \<open>Rib::erase\<close> removes it.\<close>

theorem rib_tree:
  assumes "rib_inv \<tau> rib" "typed \<tau> p" "length p < npos"
  shows "rib_inv \<tau> (Rib_insert p r rib) \<and> rib_routes (Rib_insert p r rib) = (rib_routes rib)(p := upsert r (rib_routes rib p)) \<and>
    rib_inv \<tau> (Rib_erase p r rib) \<and>
    rib_routes (Rib_erase p r rib) = (rib_routes rib)(p := filter (\<lambda>x. \<not> compareFaceIdAndOrigin x r) (rib_routes rib p))"
  using Rib_insert_inv [OF assms] Rib_insert_routes [OF assms] Rib_erase_inv [OF assms(1)] by simp

definition name_a :: name where "name_a = [Component 8 [97]]"

definition name_ab :: name where "name_ab = [Component 8 [97], Component 8 [98]]"

definition name_abc :: name where "name_abc = [Component 8 [97], Component 8 [98], Component 8 [99]]"

definition rib_route :: "u64 \<Rightarrow> u64 \<Rightarrow> route" where "rib_route faceId flags = Route_ctor\<lparr>rt_faceId := faceId, rt_flags := flags\<rparr>"

lemma rib_names: "typed sample_type name_a" "typed sample_type name_ab" "typed sample_type name_abc"
  "length name_a < npos" "length name_ab < npos" "length name_abc < npos"
  by (simp_all add: typed_def name_a_def name_ab_def name_abc_def sample_type_def npos_def)

text \<open>The entry for /a is put between the root and the entry for /a/b.\<close>

definition sample_rib :: rib where
  "sample_rib = Rib_insert name_a (rib_route 1 1) (Rib_insert name_ab (rib_route 2 0) Rib_ctor)"

lemma rib_ctor: "rib_inv \<tau> Rib_ctor" "rib_routes Rib_ctor = (\<lambda>_. [])"
  by (simp_all add: Rib_ctor_def rib_inv_def links_ok_def rib_routes_def fun_eq_iff)

lemma sample_rib: "rib_inv sample_type sample_rib" "rib_routes sample_rib = (\<lambda>_. [])(name_ab := [rib_route 2 0], name_a := [rib_route 1 1])"
proof -
  have i: "rib_inv sample_type (Rib_insert name_ab (rib_route 2 0) Rib_ctor)" by (rule Rib_insert_inv [OF rib_ctor(1) rib_names(2,5)])
  show "rib_inv sample_type sample_rib" unfolding sample_rib_def by (rule Rib_insert_inv [OF i rib_names(1,4)])
  have "name_a \<noteq> name_ab" by (simp add: name_a_def name_ab_def)
  then show "rib_routes sample_rib = (\<lambda>_. [])(name_ab := [rib_route 2 0], name_a := [rib_route 1 1])"
    unfolding sample_rib_def Rib_insert_routes [OF i rib_names(1,4)] Rib_insert_routes [OF rib_ctor(1) rib_names(2,5)] rib_ctor(2)
    by (simp add: upsert_def)
qed

theorem rib_tree_witness:
  "\<exists>e. Rib_find name_ab sample_rib = Some e \<and> re_parent e = Some name_a \<and> rib_routes (Rib_erase name_ab (rib_route 2 7) sample_rib) name_ab = []"
proof -
  have i: "rib_inv sample_type (Rib_insert name_ab (rib_route 2 0) Rib_ctor)" by (rule Rib_insert_inv [OF rib_ctor(1) rib_names(2,5)])
  have inv: "rib_inv sample_type sample_rib" unfolding sample_rib_def using rib_tree [OF i rib_names(1,4)] by blast
  have "rib_routes sample_rib name_ab \<noteq> []" "rib_routes sample_rib name_a \<noteq> []" by (simp_all add: sample_rib(2))
  then obtain e where e: "map_of (rib_table sample_rib) name_ab = Some e" "name_a \<in> dom (map_of (rib_table sample_rib))"
    by (auto simp: rib_routes_def split: option.splits)
  have "re_parent e = Some name_a"
    using inv e by (simp add: rib_inv_def links_ok_def nearest_def) (simp add: name_a_def name_ab_def)
  moreover have "rib_routes (Rib_erase name_ab (rib_route 2 7) sample_rib) name_ab = []"
    using rib_tree [OF inv rib_names(2,5), of "rib_route 2 7"]
    by (simp add: sample_rib(2) compareFaceIdAndOrigin_def rib_route_def Route_ctor_def name_a_def name_ab_def)
  ultimately show ?thesis using e(1) by (simp add: Rib_find_def)
qed

text \<open>C31. The routes that a name gets from its ancestors, for an entry of the table and for a name that is not in it: on each face, the
  first inheritable route of the nearest ancestor that has one on the face, unless an ancestor before that one captures.\<close>

theorem rib_ancestor_routes:
  assumes "rib_inv \<tau> rib" "length k < npos"
  shows "(RouteSet_find x (Rib_getAncestorRoutes_name k (rib_table rib)) = Some r \<longleftrightarrow> ancestor_route (rib_table rib) k (rt_faceId x) r) \<and>
    (\<forall>e. Rib_find k rib = Some e \<longrightarrow>
      (RouteSet_find x (Rib_getAncestorRoutes_entry e (rib_table rib)) = Some r \<longleftrightarrow> ancestor_route (rib_table rib) k (rt_faceId x) r)) \<and>
    sorted (map rt_faceId (Rib_getAncestorRoutes_name k (rib_table rib)))"
  using getAncestorRoutes_correct(1) [OF assms(1)] getAncestorRoutes_correct(2) [OF assms] ancestor_walk_sorted [of "[]"]
  by (simp add: Rib_find_def Rib_getAncestorRoutes_name_def)

text \<open>The inheritable route of /a reaches /a/b/c, past the route of /a/b that is not.\<close>

theorem rib_ancestor_routes_witness:
  "RouteSet_find (rib_route 1 0) (Rib_getAncestorRoutes_name name_abc (rib_table sample_rib)) = Some (rib_route 1 1) \<longleftrightarrow>
   ancestor_route (rib_table sample_rib) name_abc 1 (rib_route 1 1)"
  using rib_ancestor_routes [OF sample_rib(1) rib_names(6), of "rib_route 1 0" "rib_route 1 1"] by (simp add: rib_route_def)

text \<open>C32. The recursion over the children of an entry that computes the FIB updates ends, for every registration and every unregistration on a
  well-formed RIB. A registration that changes the cost of a route is excluded when other routes of the entry use its face: it can dereference a null
  pointer. The updates collected are at most one for each name and face, and are kept apart by the face of the batch.\<close>

theorem fib_updates_total:
  assumes "rib_inv \<tau> rib" "ru_action u = REGISTER \<longrightarrow> null_free u (rib_table rib)" "fup_inv fup"
  shows "\<exists>cancelled' fup'. FibUpdater_computeUpdate second (rib_table rib) u (cancelled, fup) = Some (cancelled', fup') \<and> fup_inv fup' \<and>
    fup_batchFaceId fup' = fup_batchFaceId fup"
proof -
  have "\<exists>cancelled' fup'. FibUpdater_computeUpdate second (rib_table rib) u (cancelled, fup) = Some (cancelled', fup')"
    using registration_total [OF assms(1), of u fup] unregistration_total [OF assms(1), of second u fup] assms(2)
    by (auto simp: FibUpdater_computeUpdate_def split: rib_action.split)
  then show ?thesis using keyed.compute_law [of second "rib_table rib" u cancelled fup _ _ "fup_batchFaceId fup"] assms(3) by blast
qed

text \<open>The route of /a/b/c is registered on a face that has none there.\<close>

theorem fib_updates_total_witness:
  "\<exists>cancelled fup. FibUpdater_computeUpdate hd (rib_table sample_rib) \<lparr>ru_action = REGISTER, ru_name = name_abc, ru_route = rib_route 3 1\<rparr>
     ([], \<lparr>fup_batchFaceId = 3, fup_updatesForBatchFaceId = [], fup_updatesForNonBatchFaceId = [], fup_inheritedRoutes = []\<rparr>) = Some (cancelled, fup) \<and>
     fup_batchFaceId fup = 3"
proof -
  let ?u = "\<lparr>ru_action = REGISTER, ru_name = name_abc, ru_route = rib_route 3 1\<rparr>"
  let ?fup = "\<lparr>fup_batchFaceId = 3, fup_updatesForBatchFaceId = [], fup_updatesForNonBatchFaceId = [], fup_inheritedRoutes = []\<rparr> :: fib_updater"
  have "rib_routes sample_rib name_abc = []" by (simp add: sample_rib(2) name_a_def name_ab_def name_abc_def)
  then have "null_free ?u (rib_table sample_rib)" by (auto simp: null_free_def rib_routes_def split: option.splits)
  moreover have "fup_inv ?fup" by (simp add: fup_inv_def)
  ultimately show ?thesis using fib_updates_total [OF sample_rib(1), of ?u ?fup hd "[]"] by auto
qed

text \<open>C8. In every orderly run of the routing daemon, that is, one in which a batch fails only when none of its other commands is
  without an answer, the RIB is well-formed and holds what the updates requested so far, except those that
  failed, give when they are applied one after the other in the order of the requests; the last ones are not applied yet: they are those of the batch whose
  commands are sent, then those of the queue. The route for the daemon's own command prefix, which is put into the RIB at once, counts as an
  update before those. When no update is in progress all are applied and no command is without an answer.\<close>

theorem rib_sequential:
  assumes "rd_run True \<tau> second H rd"
  shows "rib_inv \<tau> (rd_rib rd) \<and> (\<exists>applied. H = applied @ outstanding rd \<and> rib_routes (rd_rib rd) = fold abs_apply applied (\<lambda>_. [])) \<and>
    (\<not> rd_isUpdateInProgress rd \<longrightarrow> outstanding rd = [] \<and> rd_commands rd = []) \<and>
    (rd_isUpdateInProgress rd \<longrightarrow> rd_commands rd \<noteq> [])"
  using rd_run_good [OF assms] by (auto simp: rd_good_def rd_inv_def advances_def outstanding_def batch_ok_def split: if_splits)

text \<open>Commands on /a and /a/b, answered with success until none is left.\<close>

definition rib_params :: "name \<Rightarrow> u64 \<Rightarrow> u64 \<Rightarrow> control_parameters" where
  "rib_params n faceId flags = \<lparr>cp_name = n, cp_faceId = Some faceId, cp_origin = None, cp_cost = None, cp_flags = Some flags,
     cp_expirationPeriod = None\<rparr>"

fun rib_settle :: "(route list \<Rightarrow> route) \<Rightarrow> nat \<Rightarrow> rib_daemon \<Rightarrow> rib_daemon option" where
  "rib_settle second 0 rd = Some rd"
| "rib_settle second (Suc n) rd = (case rd_commands rd of [] \<Rightarrow> Some rd
     | c # cs \<Rightarrow> do { rd1 \<leftarrow> FibUpdater_onUpdateSuccess second c (rd\<lparr>rd_commands := cs\<rparr>); rib_settle second n rd1 })"

definition rib_register :: "(route list \<Rightarrow> route) \<Rightarrow> name \<Rightarrow> u64 \<Rightarrow> u64 \<Rightarrow> rib_daemon \<Rightarrow> rib_daemon option" where
  "rib_register second n faceId flags rd =
     do { rd1 \<leftarrow> RibManager_registerEntry second 0 (rib_params n faceId flags) faceId rd; rib_settle second 3 rd1 }"

lemma settle_run: "rd_run orderly \<tau> second H rd \<Longrightarrow> rib_settle second n rd = Some rd' \<Longrightarrow> rd_run orderly \<tau> second H rd'"
proof (induction second n rd rule: rib_settle.induct)
  case (2 second n rd)
  show ?case
  proof (cases "rd_commands rd")
    case (Cons c cs)
    then obtain rd1 where s: "FibUpdater_onUpdateSuccess second c (rd\<lparr>rd_commands := cs\<rparr>) = Some rd1" "rib_settle second n rd1 = Some rd'"
      using "2.prems"(2) by (auto simp: bind_eq_Some_conv)
    have "rd_run orderly \<tau> second H rd1" by (rule run_success [OF "2.prems"(1), of c]) (simp_all add: Cons s(1))
    then show ?thesis using "2.IH" [OF Cons] s by blast
  qed (use 2 in simp)
qed simp

lemma register_run:
  assumes "\<exists>H. rd_run orderly \<tau> second H rd" "typed \<tau> n" "length n < npos" "rib_register second n faceId flags rd = Some rd'"
  shows "\<exists>H. rd_run orderly \<tau> second H rd'"
proof -
  obtain rd1 where "RibManager_registerEntry second 0 (rib_params n faceId flags) faceId rd = Some rd1" "rib_settle second 3 rd1 = Some rd'"
    using assms(4) by (auto simp: rib_register_def bind_eq_Some_conv)
  moreover have "cp_name (rib_params n faceId flags) = n" by (simp add: rib_params_def)
  ultimately show ?thesis using assms(1-3) run_register [of orderly \<tau> second _ rd "rib_params n faceId flags"] settle_run by metis
qed

lemma findParent_eval:
  "Rib_findParent [c] t = (if map_of t [] = None then None else Some [])"
  "Rib_findParent [c, d] t = (if map_of t [c] \<noteq> None then Some [c] else if map_of t [] \<noteq> None then Some [] else None)"
  by (simp_all add: Rib_findParent_def Name_getPrefix_nonneg [of "[c]" 0, simplified npos_def, simplified] Name_getPrefix_nonneg [of "[c, d]" 0, simplified npos_def, simplified]
     Name_getPrefix_nonneg [of "[c, d]" 1, simplified npos_def, simplified] upt_conv_Cons)

lemmas rib_eval = Name_equals_iff
  steady_clock_min_def Route_ctor_def ROUTE_FLAG_CHILD_INHERIT_def ROUTE_FLAG_CAPTURE_def Route_isChildInherit_def
  Route_isCapture_def Route_equals_def compareFaceIdAndOrigin_def compareFaceId_def RibEntry_ctor_def
  RibEntry_findRoute_def RibEntry_insertRoute_def RibEntry_eraseRoute_def RibEntry_hasRoute_def RibEntry_hasFaceId_def
  RibEntry_getNRoutes_def RibEntry_addInheritedRoute_def RibEntry_findInheritedRoute_def RibEntry_hasInheritedRoute_def
  RibEntry_removeInheritedRoute_def RibEntry_hasCapture_def RibEntry_hasChildInheritOnFaceId_def lowest_cost_def
  RibEntry_getRouteWithLowestCostByFaceId_def RibEntry_getRouteWithSecondLowestCostByFaceId_def
  RibEntry_getRouteWithLowestCostAndChildInheritByFaceId_def RouteSet_insert_def RouteSet_find_def RouteSet_erase_def
  Rib_ctor_def rt_modify_def rt_parent_def RibEntry_addChild_def RibEntry_removeChild_def Rib_find_def Rib_find_route_def
  Rib_findDescendants_def Rib_findDescendantsForNonInsertedName_def adopt_child_def Rib_insert_def release_child_def
  Rib_eraseEntry_def Rib_erase_def insert_inheritable_def Rib_getAncestorRoutes_entry_def Rib_getAncestorRoutes_name_def
  Rib_findRoutesWithFaceId_def FibUpdate_createAddUpdate_def FibUpdate_createRemoveUpdate_def FibUpdate_equals_def
  put_update_def FibUpdater_addFibUpdate_def FibUpdater_addInheritedRoute_def FibUpdater_removeInheritedRoute_def
  FibUpdater_addInheritedRoutes_def FibUpdater_addInheritedRoutes_name_def FibUpdater_removeInheritedRoutes_def
  FibUpdater_traverseSubTree_def FibUpdater_createFibUpdatesForNewRibEntry_def FibUpdater_createFibUpdatesForNewRoute_def
  updated_route_self_def updated_route_inherit_def updated_route_capture_def
  FibUpdater_createFibUpdatesForUpdatedRoute_def erased_route_children_def FibUpdater_createFibUpdatesForErasedRoute_def
  FibUpdater_createFibUpdatesForErasedRibEntry_def FibUpdater_computeUpdatesForRegistration_def
  FibUpdater_computeUpdatesForUnregistration_def FibUpdater_computeUpdate_def rib_daemon_ctor_def MAX_NUM_TIMEOUTS_def
  ERROR_FACE_NOT_FOUND_def ERROR_TIMEOUT_def rd_schedule_def rd_pending_def RibManager_scheduleActiveFaceFetch_def
  FibUpdater_sendAddNextHopUpdate_def FibUpdater_sendRemoveNextHopUpdate_def FibUpdater_sendUpdates_def
  FibUpdater_sendUpdatesForNonBatchFaceId_def FibUpdater_sendUpdatesForBatchFaceId_def
  FibUpdater_computeAndSendFibUpdates_def Rib_modifyInheritedRoute_def apply_rib_update_def Rib_applyBatch_def
  Rib_sendBatchFromQueue_def Rib_onFibUpdateSuccess_def Rib_onFibUpdateFailure_def remove_updates_def
  FibUpdater_onUpdateSuccess_def FibUpdater_onUpdateError_def Rib_addUpdateToQueue_def Rib_beginApplyUpdate_def
  Rib_beginRemoveFace_def Rib_onRouteExpiration_def RibManager_commandPrefixRoute_def cp_default_def RibManager_faceId_def steady_clock_max_def
  milliseconds_max_def RibManager_makeRoute_def RibManager_registerEntry_def RibManager_unregisterEntry_def
  RibManager_onNotification_def RibManager_onFaceDestroyedEvent_def RibManager_removeInvalidFaces_def
  RibManager_onNrdCommandPrefixAddNextHopSuccess_def FibUpdater_modifyChildrensInheritedRoutes.simps name_a_def
  name_ab_def rib_params_def Let_def

theorem rib_sequential_witness:
  "\<exists>H rd. rd_run True sample_type hd H rd \<and> rd_isUpdateInProgress rd \<and> rd_commands rd \<noteq> [] \<and> (\<exists>applied. H = applied @ outstanding rd)"
proof -
  let ?ps = "rib_params name_a 1 1"
  have "map_option rd_isUpdateInProgress (RibManager_registerEntry hd 0 ?ps 1 rib_daemon_ctor) = Some True"
    by (simp add: rib_eval findParent_eval)
  then obtain rd where rd: "RibManager_registerEntry hd 0 ?ps 1 rib_daemon_ctor = Some rd" "rd_isUpdateInProgress rd" by auto
  have "rd_run True sample_type hd ([] @ [\<lparr>ru_action = REGISTER, ru_name = cp_name ?ps, ru_route = fst (RibManager_makeRoute 0 ?ps 1 rib_daemon_ctor)\<rparr>]) rd"
    by (rule run_register [OF run_start _ _ rd(1)]) (simp_all add: rib_params_def rib_names)
  from rib_sequential [OF this] this rd(2) show ?thesis by blast
qed









text \<open>A route that an entry has of its own can lose its next hop in the FIB when its ancestor loses a route on the same face. After
  the registration of /a on face 1, to be inherited, of /a/b on face 2 and of /a/b on face 1, the unregistration of /a on face 1 sends a command that removes
  face 1 from /a/b. The route of /a/b on face 1 stays in the RIB.\<close>

definition sample_rd :: "(route list \<Rightarrow> route) \<Rightarrow> rib_daemon option" where
  "sample_rd second = do { rd1 \<leftarrow> rib_register second name_a 1 1 rib_daemon_ctor; rd2 \<leftarrow> rib_register second name_ab 2 0 rd1;
     rib_register second name_ab 1 0 rd2 }"

theorem rib_shadowed_nexthop:
  "\<exists>H rd rd' r c. rd_run True sample_type second H rd \<and> \<not> rd_isUpdateInProgress rd \<and> r \<in> set (rib_routes (rd_rib rd) name_ab) \<and>
     RibManager_unregisterEntry second (rib_params name_a 1 0) 1 rd = Some rd' \<and> c \<in> set (rd_commands rd') \<and>
     cmd_action c = REMOVE_NEXTHOP \<and> fu_name (cmd_update c) = name_ab \<and> fu_faceId (cmd_update c) = rt_faceId r \<and>
     r \<in> set (fold abs_apply (outstanding rd') (rib_routes (rd_rib rd')) name_ab)"
proof -
  let ?un = "\<lambda>rd. RibManager_unregisterEntry second (rib_params name_a 1 0) 1 rd"
  let ?r = "(rib_route 1 0)\<lparr>rt_expires := steady_clock_max\<rparr>"
  have "map_option (\<lambda>rd. (rd_isUpdateInProgress rd, ?r \<in> set (rib_routes (rd_rib rd) name_ab))) (sample_rd second) = Some (False, True)"
    by (simp add: rib_eval findParent_eval rib_register_def rib_params_def numeral_3_eq_3 sample_rd_def rib_routes_def rib_route_def)
  then obtain rd where rd: "sample_rd second = Some rd" "\<not> rd_isUpdateInProgress rd" "?r \<in> set (rib_routes (rd_rib rd) name_ab)" by auto
  have "map_option (\<lambda>rd'. (list_ex (\<lambda>c. cmd_action c = REMOVE_NEXTHOP \<and> fu_name (cmd_update c) = name_ab \<and> fu_faceId (cmd_update c) = 1) (rd_commands rd'),
      ?r \<in> set (fold abs_apply (outstanding rd') (rib_routes (rd_rib rd')) name_ab))) (do { rd \<leftarrow> sample_rd second; ?un rd }) = Some (True, True)"
    by (simp add: rib_eval findParent_eval rib_register_def rib_params_def numeral_3_eq_3 sample_rd_def rib_routes_def rib_route_def outstanding_def abs_apply_def)
  then obtain rd' where rd': "?un rd = Some rd'"
    "list_ex (\<lambda>c. cmd_action c = REMOVE_NEXTHOP \<and> fu_name (cmd_update c) = name_ab \<and> fu_faceId (cmd_update c) = 1) (rd_commands rd')"
    "?r \<in> set (fold abs_apply (outstanding rd') (rib_routes (rd_rib rd')) name_ab)" using rd(1) by auto
  have "\<exists>H. rd_run True sample_type second H rd"
    using rd(1) register_run [of True sample_type second rib_daemon_ctor name_a] register_run [of True sample_type second _ name_ab] run_start [of True sample_type second] rib_names
    unfolding sample_rd_def bind_eq_Some_conv by metis
  moreover have "rt_faceId ?r = 1" by (simp add: rib_route_def)
  ultimately show ?thesis using rd rd' unfolding list_ex_iff by metis
qed

text \<open>After the registration of /a on face 1, to be inherited, and of /a/b on face 2 with the flag to capture, the
  unregistration of /a/b on face 2 records a route to be inherited by the entry for /a/b, whose last route is erased; the answer to the last of the two commands
  then makes \<open>modifyInheritedRoutes\<close> look for the entry and dereference what it does not find.\<close>

definition sample_capture :: "(route list \<Rightarrow> route) \<Rightarrow> rib_daemon option" where
  "sample_capture second = do { rd1 \<leftarrow> rib_register second name_a 1 1 rib_daemon_ctor; rib_register second name_ab 2 2 rd1 }"

theorem rib_capture_undefined:
  "\<exists>H rd rd' rd'' c c'. rd_run True sample_type second H rd \<and> \<not> rd_isUpdateInProgress rd \<and>
     RibManager_unregisterEntry second (rib_params name_ab 2 0) 2 rd = Some rd' \<and>
     rd_commands rd' = [c] \<and> FibUpdater_onUpdateSuccess second c (rd'\<lparr>rd_commands := []\<rparr>) = Some rd'' \<and>
     rd_commands rd'' = [c'] \<and> FibUpdater_onUpdateSuccess second c' (rd''\<lparr>rd_commands := []\<rparr>) = None"
proof -
  let ?un = "\<lambda>rd. RibManager_unregisterEntry second (rib_params name_ab 2 0) 2 rd"
  let ?answer = "\<lambda>rd. FibUpdater_onUpdateSuccess second (hd (rd_commands rd)) (rd\<lparr>rd_commands := []\<rparr>)"
  note eval = rib_eval findParent_eval rib_register_def rib_params_def numeral_3_eq_3 sample_capture_def
  have "map_option rd_isUpdateInProgress (sample_capture second) = Some False" by (simp add: eval)
  then obtain rd where rd: "sample_capture second = Some rd" "\<not> rd_isUpdateInProgress rd" by auto
  have "map_option (\<lambda>rd'. length (rd_commands rd')) (do { rd \<leftarrow> sample_capture second; ?un rd }) = Some 1" by (simp add: eval)
  then obtain rd' where rd': "?un rd = Some rd'" "length (rd_commands rd') = 1" using rd(1) by auto
  have "map_option (\<lambda>rd''. (length (rd_commands rd''), ?answer rd'')) (do { rd \<leftarrow> sample_capture second; rd' \<leftarrow> ?un rd; ?answer rd' }) = Some (1, None)"
    by (simp add: eval)
  then obtain rd'' where rd'': "?answer rd' = Some rd''" "length (rd_commands rd'') = 1" "?answer rd'' = None" using rd(1) rd'(1) by auto
  have "\<exists>H. rd_run True sample_type second H rd"
    using rd(1) register_run [of True sample_type second rib_daemon_ctor name_a] register_run [of True sample_type second _ name_ab] run_start [of True sample_type second] rib_names
    unfolding sample_capture_def bind_eq_Some_conv by metis
  moreover obtain c c' where "rd_commands rd' = [c]" "rd_commands rd'' = [c']"
    using rd'(2) rd''(2) by (cases "rd_commands rd'"; cases "rd_commands rd''") auto
  ultimately show ?thesis using rd(2) rd'(1) rd''(1,3) by (metis list.sel(1))
qed

section \<open>The link protocol\<close>

text \<open>C23. The slicer made for a frame size that has room for the headers cuts every packet of at most 65535 pieces: each piece fits into a
  frame, so the check in \<open>slice\<close> never fails; each is read back with its sequence number, its index and the number of pieces; the payloads
  joined are the packet; and the next packet gets the sequence numbers after those used.\<close>

theorem ndnlp_fits:
  assumes "unat mtu < 2 ^ 32" "ndnlp_overhead (unat mtu) < unat mtu" "length p < 2 ^ 64" "k < 65536"
    and "k = pieces (unat mtu - ndnlp_overhead (unat mtu)) p" "sl = (Slicer_ctor mtu)\<lparr>sl_next := start\<rparr>"
  shows "\<exists>pa. Slicer_slice p sl = Some (pa, sl\<lparr>sl_next := start + of_nat k\<rparr>) \<and> length pa = k \<and>
    (\<forall>i < k. length (blk_wire (pa ! i)) \<le> unat mtu \<and> (\<exists>pkt. NdnlpData_fromBlock (pa ! i) = Inr (Some pkt) \<and>
       lp_seq pkt = start + of_nat i \<and> unat (lp_fragIndex pkt) = i \<and> unat (lp_fragCount pkt) = k)) \<and>
    concat (map (\<lambda>i. blk_payload (lp_payload (slice_of sl p i))) [0 ..< k]) = p"
proof -
  have ok: "slicer_ok sl" and m: "unat (sl_maxPayload sl) = unat mtu - ndnlp_overhead (unat mtu)" "sl_next sl = start" "sl_mtu sl = mtu"
    using Slicer_ctor_ok [OF assms(1,2)] by (simp_all add: assms(6) slicer_ok_def Slicer_ctor_def)
  then have k: "k = pieces (unat (sl_maxPayload sl)) p" using assms(5) by simp
  have s: "Slicer_slice p sl = Some (map (slice_wire sl p) [0 ..< k], sl\<lparr>sl_next := start + of_nat k\<rparr>)"
    using slice_correct [OF ok assms(3)] assms(4) k m(2) by simp
  have w: "length (blk_wire (slice_wire sl p i)) \<le> unat mtu" for i
    using fragment_fits [OF assms(1), of "piece (unat (sl_maxPayload sl)) p i"] length_piece [of "unat (sl_maxPayload sl)" p i] m(1) assms(2)
    by (simp add: slice_wire_def mk_block_def)
  have f: "NdnlpData_fromBlock (slice_wire sl p i) = Inr (Some (slice_of sl p i)) \<and> lp_seq (slice_of sl p i) = start + of_nat i \<and>
      unat (lp_fragIndex (slice_of sl p i)) = i \<and> unat (lp_fragCount (slice_of sl p i)) = k" if "i < k" for i
    using slice_fromBlock [of i sl p] that assms(4) k m(2) by (simp add: slice_of_def unat_of_nat_u16)
  show ?thesis using s w f slices_payload [OF ok, of p] k by auto
qed

theorem ndnlp_fits_witness:
  "\<exists>pa sl. Slicer_slice (replicate 3000 0) (Slicer_ctor 1500) = Some (pa, sl) \<and> length pa = 3 \<and>
     (\<forall>i < 3. length (blk_wire (pa ! i)) \<le> 1500)"
proof -
  have o: "ndnlp_overhead (unat (1500 :: u64)) = 26" by (simp add: ndnlp_overhead_def sizeOfVarNumber_def)
  have k: "3 = pieces (unat (1500 :: u64) - ndnlp_overhead (unat (1500 :: u64))) (replicate 3000 (0 :: byte))"
    unfolding o by (simp add: pieces_def)
  have s: "Slicer_ctor 1500 = (Slicer_ctor 1500)\<lparr>sl_next := 0\<rparr>" by (simp add: Slicer_ctor_def)
  show ?thesis using ndnlp_fits [OF _ _ _ _ k s] o by auto
qed

text \<open>C12. A packet that was cut into pieces is delivered to the receiver exactly once, when the last missing piece arrives, in whatever order
  and however often the pieces arrived before, and whatever else arrives or expires in between: what has been delivered then is what the other events
  deliver without this message, and the packet. A packet of one piece is delivered at once.\<close>

theorem ndnlp_reassembly:
  assumes "slicer_ok sl" "length v < 2 ^ 32" "Slicer_slice (encodeBlock t v) sl = Some (pa, sl')" "length pa = k"
    and "k = pieces (unat (sl_maxPayload sl)) (encodeBlock t v)" "k < 65536"
  shows "(k = 1 \<longrightarrow> (\<forall>now pkt st. NdnlpData_fromBlock (pa ! 0) = Inr (Some pkt) \<longrightarrow>
      pms_delivered (PartialMessageStore_receive now pkt st) = pms_delivered st @ [mk_block (t, v)])) \<and>
    (1 < k \<longrightarrow> (\<forall>st evs now i pkt. pms_partialMessages st (sl_next sl) = None \<longrightarrow>
      (\<forall>ev \<in> set evs. concerns (sl_next sl) ev \<longrightarrow>
        (\<exists>now' j pkt'. j < k \<and> NdnlpData_fromBlock (pa ! j) = Inr (Some pkt') \<and> ev = Arrive now' pkt')) \<longrightarrow>
      i < k \<longrightarrow> NdnlpData_fromBlock (pa ! i) = Inr (Some pkt) \<longrightarrow> (\<forall>now'. Arrive now' pkt \<notin> set evs) \<longrightarrow>
      (\<forall>j pkt'. j < k \<and> j \<noteq> i \<and> NdnlpData_fromBlock (pa ! j) = Inr (Some pkt') \<longrightarrow> (\<exists>now'. Arrive now' pkt' \<in> set evs)) \<longrightarrow>
      pms_delivered (fold link_step (evs @ [Arrive now pkt]) st) =
        pms_delivered (fold link_step (filter (\<lambda>ev. \<not> concerns (sl_next sl) ev) evs) st) @ [mk_block (t, v)] \<and>
      pms_partialMessages (fold link_step (evs @ [Arrive now pkt]) st) (sl_next sl) = None))"
proof -
  let ?p = "encodeBlock t v" and ?g = "slice_of sl (encodeBlock t v)"
  have lp: "length ?p < 2 ^ 64" "length v < 2 ^ 64"
    using assms(2) var_size_le [of "ucast t"] var_size_le [of "of_nat (length v)"] by (simp_all add: length_encodeBlock)
  have pa: "pa = map (slice_wire sl ?p) [0 ..< k]" using slice_correct [OF assms(1) lp(1)] assms(3,5,6) by simp
  have g: "NdnlpData_fromBlock (pa ! j) = Inr (Some (?g j))" if "j < k" for j
    using slice_fromBlock [of j sl ?p] that assms(5,6) by (simp add: pa)
  have pl: "concat (map (\<lambda>i. blk_payload (lp_payload (?g i))) [0 ..< k]) = ?p" using slices_payload [OF assms(1), of ?p] assms(5) by simp
  show ?thesis
  proof (intro conjI impI allI)
    fix now pkt st assume k: "k = 1" and "NdnlpData_fromBlock (pa ! 0) = Inr (Some pkt)"
    then have pkt: "pkt = ?g 0" using g [of 0] by simp
    have "blk_payload (lp_payload (?g 0)) = ?p" using pl k by simp
    moreover have "lp_fragCount (?g 0) = of_nat k" by (simp add: slice_of_def assms(5))
    moreover have "of_nat k = (1 :: u16)" using k by simp
    ultimately show "pms_delivered (PartialMessageStore_receive now pkt st) = pms_delivered st @ [mk_block (t, v)]"
      using reassembleSingle_encodeBlock [OF lp(2), of pkt t] by (simp add: pkt PartialMessageStore_receive_def deliver_def)
  next
    fix st :: message_store and evs now i pkt
    assume k: "1 < k" and st: "pms_partialMessages st (sl_next sl) = None"
      and evs: "\<forall>ev \<in> set evs. concerns (sl_next sl) ev \<longrightarrow>
        (\<exists>now' j pkt'. j < k \<and> NdnlpData_fromBlock (pa ! j) = Inr (Some pkt') \<and> ev = Arrive now' pkt')"
      and i: "i < k" "NdnlpData_fromBlock (pa ! i) = Inr (Some pkt)" "\<forall>now'. Arrive now' pkt \<notin> set evs"
      and others: "\<forall>j pkt'. j < k \<and> j \<noteq> i \<and> NdnlpData_fromBlock (pa ! j) = Inr (Some pkt') \<longrightarrow> (\<exists>now'. Arrive now' pkt' \<in> set evs)"
    have ok: "pieces_ok (sl_next sl) k ?g" using slices_ok [of sl ?p] k assms(5,6) by simp
    have pkt: "pkt = ?g i" using g [OF i(1)] i(2) by simp
    have e: "\<forall>ev \<in> set evs. concerns (sl_next sl) ev \<longrightarrow> (\<exists>now. \<exists>j < k. ev = Arrive now (?g j))" using evs g by fastforce
    have n: "i \<notin> arrived k ?g evs" using i(3) by (simp add: arrived_def pkt)
    then have neq: "arrived k ?g evs \<noteq> {..<k}" using i(1) by auto
    have all: "insert i (arrived k ?g evs) = {..<k}" using others g i(1) by (auto simp: arrived_def)
    have "Block_fromBuffer (concat (map (\<lambda>i. blk_payload (lp_payload (?g i))) [0 ..< k])) = Some (mk_block (t, v))"
      unfolding pl by (rule fromBuffer_encodeBlock [OF lp(2)])
    then have "pms_delivered (fold link_step (evs @ [Arrive now (?g i)]) st) =
        pms_delivered (fold link_step (filter (\<lambda>ev. \<not> concerns (sl_next sl) ev) evs) st) @ [mk_block (t, v)] \<and>
        pms_partialMessages (fold link_step (evs @ [Arrive now (?g i)]) st) (sl_next sl) = None"
      by (rule pieces_complete [OF ok e st neq i(1) all]) simp
    then show
      "pms_delivered (fold link_step (evs @ [Arrive now pkt]) st) =
        pms_delivered (fold link_step (filter (\<lambda>ev. \<not> concerns (sl_next sl) ev) evs) st) @ [mk_block (t, v)]"
      "pms_partialMessages (fold link_step (evs @ [Arrive now pkt]) st) (sl_next sl) = None"
      unfolding pkt by blast+
  qed
qed

text \<open>Two pieces arrive in the wrong order.\<close>

definition sample_slicer :: slicer where "sample_slicer = Slicer_ctor 100"

definition sample_packet :: bytes where "sample_packet = encodeBlock 6 (replicate 80 7)"

theorem ndnlp_reassembly_witness:
  "\<exists>pa sl' p0 p1. Slicer_slice sample_packet sample_slicer = Some (pa, sl') \<and> length pa = 2 \<and>
     NdnlpData_fromBlock (pa ! 0) = Inr (Some p0) \<and> NdnlpData_fromBlock (pa ! 1) = Inr (Some p1) \<and>
     pms_delivered (fold link_step [Arrive 1 p1, Arrive 2 p1, Arrive 3 p0] (PartialMessageStore_ctor 100)) = [mk_block (6, replicate 80 7)]"
proof -
  have o: "ndnlp_overhead 100 = 22" by (simp add: ndnlp_overhead_def sizeOfVarNumber_def)
  have ok: "slicer_ok sample_slicer" unfolding sample_slicer_def by (rule Slicer_ctor_ok) (simp_all add: o)
  have m: "unat (sl_maxPayload sample_slicer) = 78" "sl_next sample_slicer = 0"
    using ok by (simp_all add: slicer_ok_def sample_slicer_def Slicer_ctor_def o)
  have l: "length sample_packet = 82" by (simp add: sample_packet_def length_encodeBlock sizeOfVarNumber_def)
  have k: "pieces (unat (sl_maxPayload sample_slicer)) sample_packet = 2" by (simp add: pieces_def m l)
  obtain pa sl' where s: "Slicer_slice sample_packet sample_slicer = Some (pa, sl')" "pa = map (slice_wire sample_slicer sample_packet) [0 ..< 2]"
    using slice_correct [OF ok, of sample_packet] k l by simp
  let ?p = "slice_of sample_slicer sample_packet"
  have g: "NdnlpData_fromBlock (pa ! 0) = Inr (Some (?p 0))" "NdnlpData_fromBlock (pa ! 1) = Inr (Some (?p 1))"
    using slice_fromBlock [of _ sample_slicer sample_packet] k by (simp_all add: s(2))
  have ne: "?p 0 \<noteq> ?p 1" by (simp add: slice_of_def)
  have st: "pms_partialMessages (PartialMessageStore_ctor 100) (sl_next sample_slicer) = None" "pms_delivered (PartialMessageStore_ctor 100) = []"
    by (simp_all add: PartialMessageStore_ctor_def)
  have c: "concerns (sl_next sample_slicer) (Arrive n (?p 1))" for n using slices_ok [of sample_slicer sample_packet] k pieces_count [of "sl_next sample_slicer" 2 ?p 1]
    by (simp add: pieces_ok_def)
  note r = ndnlp_reassembly [where v = "replicate 80 7" and t = 6, folded sample_packet_def, OF ok _ s(1) _ k [symmetric]]
  have "pms_delivered (fold link_step ([Arrive 1 (?p 1), Arrive 2 (?p 1)] @ [Arrive 3 (?p 0)]) (PartialMessageStore_ctor 100)) =
      pms_delivered (fold link_step (filter (\<lambda>ev. \<not> concerns (sl_next sample_slicer) ev) [Arrive 1 (?p 1), Arrive 2 (?p 1)]) (PartialMessageStore_ctor 100)) @
      [mk_block (6, replicate 80 7)]"
  proof (rule r [THEN conjunct2, rule_format, THEN conjunct1])
    show "NdnlpData_fromBlock (pa ! 0) = Inr (Some (?p 0))" by (rule g(1))
    show "\<exists>now' j pkt'. j < 2 \<and> NdnlpData_fromBlock (pa ! j) = Inr (Some pkt') \<and> ev = Arrive now' pkt'"
      if h: "ev \<in> set [Arrive 1 (?p 1), Arrive 2 (?p 1)]" for ev
    proof -
      obtain n where "ev = Arrive n (?p 1)" using h by auto
      then show ?thesis using g(2) by (intro exI [of _ n] exI [of _ 1] exI [of _ "?p 1"]) simp
    qed
    show "\<exists>now'. Arrive now' pkt' \<in> set [Arrive 1 (?p 1), Arrive 2 (?p 1)]"
      if "j < 2 \<and> j \<noteq> 0 \<and> NdnlpData_fromBlock (pa ! j) = Inr (Some pkt')" for j pkt'
    proof -
      have "j = 1" "NdnlpData_fromBlock (pa ! j) = Inr (Some pkt')" using that by simp_all
      then show ?thesis using g(2) by auto
    qed
  qed (use ne st(1) s(2) in auto)
  then show ?thesis using s g c st(2) by auto
qed


section \<open>Packet wire formats\<close>

text \<open>Sample packets for the witnesses.\<close>

definition wire_interest :: interest_packet where
  "wire_interest = Interest_ctor\<lparr>ip_name := [Component tlv_NameComponent [97]],
     ip_nonce := mk_block (tlv_Nonce, [1, 2, 3, 4]), ip_lifetime := 1000\<rparr>"

definition wire_data :: data_packet where
  "wire_data = Data_ctor\<lparr>dp_name := [Component tlv_NameComponent [97]],
     dp_metaInfo := MetaInfo_ctor\<lparr>mi_freshnessPeriod := 1000, mi_appMetaInfo := [mk_block (128, [5])]\<rparr>,
     dp_content := mk_block (tlv_Content, [1]),
     dp_signature := \<lparr>sg_info = SignatureInfo_ctor\<lparr>si_type := 1\<rparr>, sg_value = mk_block (tlv_SignatureValue, [9])\<rparr>\<rparr>"

definition wire_delegations :: "delegation list" where
  "wire_delegations = [(1, [Component tlv_NameComponent [97]]), (2, [Component tlv_NameComponent [98]])]"

definition wire_link :: data_packet where
  "wire_link = wire_data\<lparr>dp_metaInfo := MetaInfo_ctor\<lparr>mi_type := ContentType_Link\<rparr>, dp_content := mk_block (tlv_Content, delegations_payload wire_delegations)\<rparr>"

lemma wire_interest_wf: "interest_wf wire_interest" "length (blk_payload (ip_nonce wire_interest)) = 4"
  by (simp_all add: interest_wf_def wire_interest_def Interest_ctor_def selectors_wf_def Selectors_ctor_def selector_int_def
      keyLocator_wf_def excl_inv_def selectors_payload_def selectors_parts_def KeyLocator_empty_def Exclude_empty_def
      Interest_hasNonce_def Block_hasWire_def blk_ok_mk Interest_hasLink_def Block_default_def
      Interest_hasSelectedDelegation_def interest_payload_def parts_wire_def interest_parts_def hasLifetime_def
      DEFAULT_INTEREST_LIFETIME_def name_payload_def component_wire_def length_encodeBlock sizeOfVarNumber_def
      interest_types Selectors_empty_def encodeNonNegativeInteger_def)

lemmas wire_data_defs = wire_data_def Data_ctor_def MetaInfo_ctor_def SignatureInfo_ctor_def data_wf_def
  metaInfo_wf_def sigInfo_wf_def hasFinalBlockId_def blk_ok_mk app_range_def starts_not_def metaInfo_payload_def
  metaInfo_parts_def sigInfo_payload_def data_payload_def content_block_def Block_empty_def nni_block_def data_types
  name_payload_def component_wire_def length_encodeBlock sizeOfVarNumber_def encodeNonNegativeInteger_def

lemma wire_data_wf: "data_wf wire_data"
  by (simp add: wire_data_defs)

lemma wire_link_carries: "carries wire_delegations wire_link" "delegations_inv wire_delegations"
    "mi_type (dp_metaInfo wire_link) = ContentType_Link"
  by (simp_all add: carries_def wire_link_def wire_delegations_def delegations_payload_def delegation_block_def
      delegation_value_def wire_data_defs delegations_inv_def delegation_less_def short_name_def npos_def ContentType_Link_def)

text \<open>C14. \<^bold>\<open>Data on the wire.\<close> A signed Data built through the interface is encoded, and a
  fresh object decoded from the packet has its name, content type, FinalBlockId, application elements,
  content, signature type, key locator and signature value; a FreshnessPeriod that was not set becomes
  \<open>milliseconds::min()\<close>. Two things are not kept: the type-specific elements of the SignatureInfo come
  back in the opposite order, and the object that was encoded, which \<open>wireEncode\<close> decodes in place,
  afterwards holds its application elements twice.\<close>

theorem data_wire_roundtrip:
  assumes "data_wf d"
  shows "\<exists>w d' q. Data_toWire d = Inr (w, d') \<and> Data_wireDecode w Data_ctor = Inr q \<and>
    dp_name q = dp_name d \<and>
    dp_metaInfo q = \<lparr>mi_type = mi_type (dp_metaInfo d),
      mi_freshnessPeriod = (if mi_freshnessPeriod (dp_metaInfo d) \<ge> 0 then mi_freshnessPeriod (dp_metaInfo d) else milliseconds_min),
      mi_finalBlockId = (if hasFinalBlockId (dp_metaInfo d) then mi_finalBlockId (dp_metaInfo d) else None),
      mi_appMetaInfo = map Block_encode (mi_appMetaInfo (dp_metaInfo d))\<rparr> \<and>
    Data_getContent d = Inr (dp_content q) \<and>
    si_type (sg_info (dp_signature q)) = si_type (sg_info (dp_signature d)) \<and>
    SignatureInfo_getKeyLocator (sg_info (dp_signature q)) = SignatureInfo_getKeyLocator (sg_info (dp_signature d)) \<and>
    si_otherTlvs (sg_info (dp_signature q)) = map Block_encode (rev (si_otherTlvs (sg_info (dp_signature d)))) \<and>
    sg_value (dp_signature q) = Signature_getValue (dp_signature d) \<and>
    d' = q\<lparr>dp_metaInfo := (dp_metaInfo q)\<lparr>mi_appMetaInfo :=
            mi_appMetaInfo (dp_metaInfo d) @ map Block_encode (mi_appMetaInfo (dp_metaInfo d))\<rparr>\<rparr>"
  using Data_toWire_eq [OF assms] Data_wireDecode_payload [OF assms, of Data_ctor]
  by (intro exI [of _ "data_block d"] exI [of _ "data_decoded (mi_appMetaInfo (dp_metaInfo d)) d"] exI [of _ "data_decoded [] d"])
    (simp add: data_decoded_def metaInfo_decoded_def sigInfo_decoded_def Data_getContent_eq Signature_getValue_def
      SignatureInfo_getKeyLocator_def Data_ctor_def MetaInfo_ctor_def)

theorem data_wire_roundtrip_witness:
  "\<exists>w d'. Data_toWire wire_data = Inr (w, d') \<and>
     mi_appMetaInfo (dp_metaInfo d') = [mk_block (128, [5]), mk_block (128, [5])]"
proof -
  have "mi_appMetaInfo (dp_metaInfo wire_data) = [mk_block (128, [5])]" by (simp add: wire_data_def)
  with data_wire_roundtrip [OF wire_data_wf] show ?thesis by fastforce
qed

text \<open>C25. \<^bold>\<open>Signing in two steps.\<close> A signer encodes the unsigned portion of the Data into a
  buffer and then passes the buffer and the signature value to \<open>wireEncode\<close>, which appends the value and
  closes the packet. This succeeds, whatever the buffer reserved, and the packet is the one that encoding the
  Data with its signature at once gives.\<close>

theorem data_signing_equivalence:
  assumes "data_wf d"
  shows "\<exists>w q d'. bind_result (Data_wireEncode EncoderTag True d (Encoder_ctor totalReserve reserveFromBack))
        (\<lambda>(_, encoder). Data_wireEncode_signed encoder (sg_value (dp_signature d)) d0) = Inr (w, q) \<and>
      Data_toWire d = Inr (w, d') \<and> dp_wire q = Some w \<and> dp_signature q = dp_signature d'"
  by (intro exI [of _ "data_block d"] exI [of _ "data_decoded (mi_appMetaInfo (dp_metaInfo d0)) d"]
      exI [of _ "data_decoded (mi_appMetaInfo (dp_metaInfo d)) d"] conjI Data_wireEncode_signed_eq Data_toWire_eq assms)
    (simp_all add: data_decoded_def)

theorem data_signing_equivalence_witness:
  "\<exists>w q d'. bind_result (Data_wireEncode EncoderTag True wire_data (Encoder_ctor 8 4))
        (\<lambda>(_, encoder). Data_wireEncode_signed encoder (mk_block (tlv_SignatureValue, [9])) Data_ctor) = Inr (w, q) \<and>
      Data_toWire wire_data = Inr (w, d')"
proof -
  have "sg_value (dp_signature wire_data) = mk_block (tlv_SignatureValue, [9])" by (simp add: wire_data_def)
  with data_signing_equivalence [OF wire_data_wf, of 8 4 Data_ctor] show ?thesis by fastforce
qed



text \<open>C24. \<^bold>\<open>Replacing the Nonce of an encoded Interest.\<close> \<open>setNonce\<close> overwrites four octets of the
  existing packet. The packet is then the one that encoding the Interest with the new Nonce gives, and
  \<open>getNonce\<close> returns the new Nonce.\<close>

theorem interest_nonce_in_place:
  assumes "interest_wf ip" "length (blk_payload (ip_nonce ip)) = 4"
  shows "\<exists>w q w' q'. Interest_toWire rand ip = Inr (w, q) \<and> Interest_setNonce n q = Inr q' \<and>
    Interest_toWire rand (ip\<lparr>ip_nonce := nonce_block n\<rparr>) = Inr (w', q') \<and> ip_wire q' = Some w' \<and>
    Interest_getNonce rand q' = Inr (n, q')"
proof -
  let ?ip = "ip\<lparr>ip_nonce := nonce_block n\<rparr>"
  have wf: "interest_wf ?ip" by (rule nonce_wf [OF assms])
  have eq: "interest_decoded ip ?ip = interest_decoded ?ip ?ip" by (simp add: interest_decoded_def)
  have "Interest_getNonce rand (interest_decoded ip ?ip) = Inr (n, interest_decoded ip ?ip)"
    using getNonce_decoded [OF wf] by simp
  then show ?thesis
    using Interest_toWire_eq [OF assms(1)] Interest_toWire_eq [OF wf] setNonce_in_place [OF assms, of n ip] eq
    by (intro exI [of _ "interest_block ip"] exI [of _ "interest_decoded ip ip"] exI [of _ "interest_block ?ip"]
        exI [of _ "interest_decoded ip ?ip"]) (simp add: interest_decoded_def del: tlv_types)
qed

theorem interest_nonce_in_place_witness:
  "\<exists>w q q'. Interest_toWire 0 wire_interest = Inr (w, q) \<and> Interest_setNonce 7 q = Inr q' \<and> Interest_getNonce 0 q' = Inr (7, q')"
  using interest_nonce_in_place [OF wire_interest_wf, of 0 7] by blast

text \<open>C40. \<^bold>\<open>A copy that is not independent.\<close> A copied Interest shares the buffer of the original.
  When \<open>Forwarder::onOutgoingInterest\<close> copies the encoded Interest of an in-record and sets a new Nonce, the
  copy gets it, and so does the Interest of the in-record.\<close>

theorem interest_nonce_shared:
  assumes "interest_wf ip" "length (blk_payload (ip_nonce ip)) = 4" "Interest_toWire rand ip = Inr (w, q)"
    and "i < length (pl_objects pl)" "pl_objects pl ! i = (buf, q)"
  shows "\<exists>pl' original copy. copy_with_new_nonce i n pl = Inr pl' \<and>
    pl_objects pl' ! i = (buf, original) \<and> pl_objects pl' ! length (pl_objects pl) = (buf, copy) \<and>
    Interest_getNonce rand copy = Inr (n, copy) \<and> Interest_getNonce rand original = Inr (n, original)"
proof -
  have q: "q = interest_decoded ip ip" using assms(3) Interest_toWire_eq [OF assms(1)] by simp
  have "Interest_getNonce rand (interest_decoded ip (ip\<lparr>ip_nonce := nonce_block n\<rparr>)) =
      Inr (n, interest_decoded ip (ip\<lparr>ip_nonce := nonce_block n\<rparr>))"
    using getNonce_decoded [OF nonce_wf [OF assms(1,2)]] by simp
  with copy_alters_original [OF assms(4) assms(5) [unfolded q] assms(1,2), of n] show ?thesis by auto
qed

theorem interest_nonce_shared_witness:
  "\<exists>w q pl' original copy. Interest_toWire 0 wire_interest = Inr (w, q) \<and>
    copy_with_new_nonce 0 7 \<lparr>pl_objects = [(0, q)], pl_next = 1\<rparr> = Inr pl' \<and>
    pl_objects pl' = [(0, original), (0, copy)] \<and> Interest_getNonce 0 original = Inr (7, original)"
proof -
  obtain w q where t: "Interest_toWire 0 wire_interest = Inr (w, q)"
    using Interest_toWire_eq [OF wire_interest_wf(1)] by blast
  from interest_nonce_shared [OF wire_interest_wf t, of 0 "\<lparr>pl_objects = [(0, q)], pl_next = 1\<rparr>" 0 7]
  obtain pl' a b where p: "copy_with_new_nonce 0 7 \<lparr>pl_objects = [(0, q)], pl_next = 1\<rparr> = Inr pl'"
    "pl_objects pl' ! 0 = (0, a)" "pl_objects pl' ! 1 = (0, b)" "Interest_getNonce 0 a = Inr (7, a)" by auto
  moreover have "length (pl_objects pl') = 2"
    using p(1) by (auto simp: copy_with_new_nonce_def pool_copy_def pool_setNonce_def split: if_splits)
  then have "pl_objects pl' = [pl_objects pl' ! 0, pl_objects pl' ! 1]"
    by (auto simp: numeral_2_eq_2 length_Suc_conv)
  ultimately show ?thesis using t by metis
qed

text \<open>C26. \<^bold>\<open>What decoding establishes.\<close> Whatever the octets are, an Interest that
  \<open>Interest(const Block&)\<close> accepts has a Nonce element and no Link or a Data element as its Link, and keeps the
  block. The index of the selected delegation is below the number of delegations of the Link, or it is what
  the storage of the object held before, because the constructor does not initialise it.\<close>

theorem interest_decode_typed:
  assumes "Interest_ctor_block uninit wire = Inr ip"
  shows "blk_type (ip_nonce ip) = tlv_Nonce \<and> (ip_link ip = Block_default \<or> blk_type (ip_link ip) = tlv_Data) \<and>
    ip_wire ip = Some wire \<and> (ip_selectedDelegation ip = uninit \<or> delegation_in_range ip)"
  using Interest_wireDecode_typed [OF assms [unfolded Interest_ctor_block_def]] by (simp add: Interest_ctor_def)

theorem interest_decode_typed_witness:
  "\<exists>ip. Interest_ctor_block 3 (interest_block wire_interest) = Inr ip \<and> blk_type (ip_nonce ip) = tlv_Nonce"
proof -
  have "Interest_ctor_block 3 (interest_block wire_interest) = Inr (interest_decoded (Interest_ctor\<lparr>ip_selectedDelegation := 3\<rparr>) wire_interest)"
    by (simp only: Interest_ctor_block_def Interest_wireDecode_payload [OF wire_interest_wf(1)])
  from interest_decode_typed [OF this] this show ?thesis by blast
qed

text \<open>So an Interest received without Link may claim to have a selected delegation, and encoding it again,
  after any setter has dropped its wire image, fails the assertion.\<close>

theorem interest_uninitialised_delegation:
  assumes "interest_wf ip" "\<not> Interest_hasLink ip" "uninit \<noteq> INVALID_SELECTED_DELEGATION_INDEX"
  shows "\<exists>q. Interest_ctor_block uninit (interest_block ip) = Inr q \<and> Interest_hasSelectedDelegation q \<and>
    Interest_toWire rand (Interest_setInterestLifetime t q) = Inl (InvalidArgument ''BOOST_ASSERT(!hasSelectedDelegation())'')"
proof -
  let ?q = "interest_decoded (Interest_ctor\<lparr>ip_selectedDelegation := uninit\<rparr>) ip"
  have "\<not> Interest_hasSelectedDelegation ip" using assms(1,2) by (simp add: interest_wf_def)
  then have "ip_selectedDelegation ?q = uninit" "ip_link ?q = Block_default"
    using assms(2) by (simp_all add: interest_decoded_def Interest_ctor_def)
  moreover have "Interest_ctor_block uninit (interest_block ip) = Inr ?q"
    by (simp only: Interest_ctor_block_def Interest_wireDecode_payload [OF assms(1)])
  ultimately show ?thesis
    using assms(3) by (intro exI [of _ ?q]) (simp add: Interest_hasSelectedDelegation_def Interest_toWire_def Interest_setInterestLifetime_def Interest_wireEncode_def
        encodeLink_def Interest_hasLink_def Block_hasWire_def Block_default_def del: tlv_types)
qed

text \<open>C27. \<^bold>\<open>Delegations of a Link.\<close> From the packet of a Link whose content was encoded from a set of
  delegations: decoding gives the set in its order; the readers on the packet give the number of delegations and
  each delegation by index; and in an Interest that carries the packet, selecting a name succeeds exactly
  if one of the delegations has it, and the selected delegation is then one with this name.\<close>

theorem link_delegations:
  assumes "carries ds d" "delegations_inv ds" "mi_type (dp_metaInfo d) = ContentType_Link" "length ds < 2 ^ 64 - 1"
    and "Data_toWire d = Inr (w, d')" "ip_link ip = w"
  shows "(\<exists>l. Interest_getLink ip = Inr l \<and> lk_delegations l = ds) \<and>
    Link_countDelegationsFromWire w = Inr (length ds) \<and>
    (\<forall>i < length ds. Link_getDelegationFromWire w i = Inr (ds ! i)) \<and>
    (if \<exists>x \<in> set ds. Name_equals (snd x) n
     then \<exists>ip' x. Interest_setSelectedDelegation_name n ip = Inr ip' \<and> x \<in> set ds \<and> Name_equals (snd x) n \<and>
            Interest_getSelectedDelegation ip' = Inr (snd x)
     else Interest_setSelectedDelegation_name n ip = Inl (InvalidArgument ''Invalid selected delegation name''))"
proof -
  have wf: "data_wf d" using assms(1) by (simp add: carries_def)
  have w: "w = data_block d" using assms(5) Data_toWire_eq [OF wf] by simp
  have "Interest_hasLink ip" by (simp add: Interest_hasLink_def Block_hasWire_def assms(6) w)
  then have "Interest_getLink ip = Inr \<lparr>lk_data = data_decoded [] d, lk_delegations = ds\<rparr>"
    by (simp only: Interest_getLink_def if_True assms(6) w Link_wireDecode_eq [OF assms(1-3)])
  then have 1: "\<exists>l. Interest_getLink ip = Inr l \<and> lk_delegations l = ds" by simp
  show ?thesis
    by (intro conjI 1 setSelectedDelegation_eq [OF assms(1) assms(6) [unfolded w] assms(4)])
      (simp_all add: w countDelegations_eq [OF assms(1)] getDelegation_eq [OF assms(1)] del: tlv_types)
qed

theorem link_delegations_witness:
  "\<exists>w d' ip'. Data_toWire wire_link = Inr (w, d') \<and> Link_countDelegationsFromWire w = Inr 2 \<and>
     Interest_setSelectedDelegation_name [Component tlv_NameComponent [98]] (wire_interest\<lparr>ip_link := w\<rparr>) = Inr ip' \<and>
     Interest_getSelectedDelegation ip' = Inr [Component tlv_NameComponent [98]]"
proof -
  have wf: "data_wf wire_link" using wire_link_carries(1) by (simp add: carries_def)
  have t: "Data_toWire wire_link = Inr (data_block wire_link, data_decoded (mi_appMetaInfo (dp_metaInfo wire_link)) wire_link)"
    by (rule Data_toWire_eq [OF wf])
  let ?ip = "wire_interest\<lparr>ip_link := data_block wire_link\<rparr>"
  have len: "length wire_delegations = 2" by (simp add: wire_delegations_def)
  note l = link_delegations [OF wire_link_carries _ t, of ?ip "[Component tlv_NameComponent [98]]"]
  have ex: "\<exists>x \<in> set wire_delegations. Name_equals (snd x) [Component tlv_NameComponent [98]]"
    by (simp add: wire_delegations_def Name_equals_iff)
  have only: "snd x = [Component tlv_NameComponent [98]]"
    if "x \<in> set wire_delegations" "Name_equals (snd x) [Component tlv_NameComponent [98]]" for x
    using that by (auto simp: wire_delegations_def Name_equals_iff)
  from l len ex have "Link_countDelegationsFromWire (data_block wire_link) = Inr 2"
    "\<exists>ip' x. Interest_setSelectedDelegation_name [Component tlv_NameComponent [98]] ?ip = Inr ip' \<and> x \<in> set wire_delegations \<and>
       Name_equals (snd x) [Component tlv_NameComponent [98]] \<and> Interest_getSelectedDelegation ip' = Inr (snd x)"
    by (simp_all del: tlv_types)
  with t only show ?thesis by metis
qed


section \<open>Measurements and the producer\<close>

text \<open>C28. \<^bold>\<open>A measurements entry is kept until it expires.\<close> Whatever the table, the other
  tables of the tree and the scheduler do, once the lifetime of a live entry is extended the reference stays valid,
  that is, it is still this entry and not a successor of the same name, at every time before the lifetime is over.
  In every state each entry has one pending clean-up, at its expiry, and the counter is the number of entries.\<close>

theorem measurements_kept:
  assumes "nt_inv city \<tau> nt" "measurements_map nt = (\<lambda>_. None)"
    and "ms_run city \<tau> (t0, Measurements_ctor nt) (now, ms)" "ms_live r ms"
    and "ms_run city \<tau> (now, Measurements_extendLifetime now r lifetime ms) (now', ms')" "now' < now + lifetime"
  shows "ms_live r ms' \<and>
    (\<forall>k me. measurements_map (ms_nt ms') k = Some me \<longrightarrow>
       filter (\<lambda>ev. fst (snd ev) = k) (ms_events ms') = [(me_expiry me, k, ms_ids ms' k)]) \<and>
    ms_nItems ms' = card (dom (measurements_map (ms_nt ms')))"
proof -
  have inv: "ms_inv city \<tau> ms" using ms_run_inv [OF assms(3)] ms_inv_ctor [OF assms(1,2)] by simp
  let ?e = "Measurements_extendLifetime now r lifetime ms"
  have inve: "ms_inv city \<tau> ?e" by (rule extendLifetime_inv [OF inv])
  obtain me where me: "measurements_map (ms_nt ?e) (fst r) = Some me" "now + lifetime \<le> me_expiry me"
    using extendLifetime_live(1) [OF inv assms(4)] by blast
  with assms(6) have "now' < me_expiry me" by simp
  with ms_run_kept [OF assms(5) _ , of "fst r" me] inve me
  have "measurements_map (ms_nt ms') (fst r) \<noteq> None" "ms_ids ms' (fst r) = ms_ids ?e (fst r)" by auto
  then have live: "ms_live r ms'"
    using extendLifetime_live(2) [OF inv assms(4), of now lifetime] assms(4) by (simp add: ms_live_def)
  have inv': "ms_inv city \<tau> ms'" using ms_run_inv [OF assms(5)] inve by simp
  show ?thesis using live one_cleanup [OF inv'] ms_inv_count [OF inv'] by blast
qed

theorem measurements_kept_witness:
  "\<exists>ms'. ms_run (\<lambda>_. 5) (\<lambda>_. 8)
      (0, Measurements_extendLifetime 0 ([Component 8 [97]], 0) 9000000000
            (snd (Measurements_get (\<lambda>_. 5) 0 [Component 8 [97]] (Measurements_ctor (NameTree_ctor 16)))))
      (8000000000, ms') \<and>
    ms_live ([Component 8 [97]], 0) ms'"
proof -
  let ?n = "[Component 8 [97]]" and ?ms0 = "Measurements_ctor (NameTree_ctor 16)"
  let ?ms1 = "snd (Measurements_get (\<lambda>_. 5) 0 ?n ?ms0)"
  let ?ms2 = "Measurements_extendLifetime 0 (?n, 0) 9000000000 ?ms1"
  have none: "measurements_map (NameTree_ctor 16) = (\<lambda>_. None)"
    by (simp add: fun_eq_iff table_maps_absent)
  have n: "typed (\<lambda>_. 8) ?n" "nt_room (ms_nt ?ms0) ?n"
    by (simp_all add: Measurements_ctor_def nt_room_def typed_def)
  have inv0: "ms_inv (\<lambda>_. 5) (\<lambda>_. 8) ?ms0" by (rule ms_inv_ctor [OF nt_inv_sample none])
  have r1: "ms_run (\<lambda>_. 5) (\<lambda>_. 8) (0, ?ms0) (0, ?ms1)"
    by (rule ms_run.run_step [OF ms_run.run_refl]) (rule ms_step.step_get [OF n])
  have r2: "ms_run (\<lambda>_. 5) (\<lambda>_. 8) (0, ?ms2) (8000000000, ?ms2)"
    by (rule ms_run.run_step [OF ms_run.run_refl]) (simp add: ms_step.step_time)
  have live: "ms_live (?n, 0) ?ms1"
    using get_live [OF inv0 n, of 0] none by (simp add: Measurements_ctor_def)
  have "ms_live (?n, 0) ?ms2"
    using measurements_kept [OF nt_inv_sample none r1 live r2] by simp
  with r2 show ?thesis by blast
qed

text \<open>C29. \<^bold>\<open>What a producer answers.\<close> An active producer answers every Interest, whatever its
  selectors, provided the packet can be encoded (a FreshnessPeriod below \<open>2 ^ 63\<close> milliseconds and less than \<open>2 ^ 64\<close>
  octets), and every node decodes the
  same Data from the packet: it has the name of the Interest, the FreshnessPeriod of the attribute (none if that is negative), a content of
  \<open>PayloadSize\<close> zero octets, the signature type 255, and the key locator if one is set. The Data satisfies the Interest
  exactly when its selectors allow the implicit digest as the one component
  after the name and it names no publisher or this one. A Content Store that admits the Data at time \<open>now\<close> has it stale as soon as the FreshnessPeriod
  is over, never if there is none; a period of 0, which the attribute describes as unlimited, makes it stale at any later time.\<close>

theorem producer_answers:
  assumes "pr_active p" "producer_ok p (int_name i)"
  shows "\<exists>w d q dat. Producer_OnInterest p i = Some (Inr (w, d)) \<and> Data_wireDecode w Data_ctor = Inr q \<and>
    dp_name q = int_name i \<and>
    mi_freshnessPeriod (dp_metaInfo q) = (if pr_freshness p \<ge> 0 then pr_freshness p else milliseconds_min) \<and>
    blk_payload (dp_content q) = replicate (unat (pr_virtualPayloadSize p)) 0 \<and>
    si_type (sg_info (dp_signature q)) = 255 \<and>
    (pr_keyLocator p \<noteq> [] \<longrightarrow> SignatureInfo_getKeyLocator (sg_info (dp_signature q)) = Inr (KeyLocator_Name (pr_keyLocator p))) \<and>
    data_of (w, q) = Inr dat \<and> data_of (w, d) = Inr dat \<and>
    (keyLocator_wf (publisherPublicKeyLocator (int_selectors i)) \<and>
       length (keyLocator_payload (publisherPublicKeyLocator (int_selectors i))) < 2 ^ 64 \<longrightarrow>
     (Interest_matchesData sha256 i dat \<longleftrightarrow>
       minSuffixComponents (int_selectors i) \<le> 1 \<and>
       (maxSuffixComponents (int_selectors i) \<ge> 0 \<longrightarrow> maxSuffixComponents (int_selectors i) \<ge> 1) \<and>
       (sel_exclude (int_selectors i) \<noteq> [] \<longrightarrow> \<not> Exclude_isExcluded (sel_exclude (int_selectors i))
          (Component tlv_ImplicitSha256DigestComponent (sha256 (blk_wire w)))) \<and>
       (publisherPublicKeyLocator (int_selectors i) = KeyLocator_None \<or>
        publisherPublicKeyLocator (int_selectors i) = KeyLocator_Name (pr_keyLocator p) \<and> pr_keyLocator p \<noteq> []))) \<and>
    (\<forall>now now' u. CsEntry_isStale now' (CsEntry_setData now dat u) \<longleftrightarrow>
       (if pr_freshness p \<ge> 0 then now + milliseconds (pr_freshness p) else TimePoint_max) < now')"
proof -
  let ?n = "int_name i" and ?d = "Producer_signed p (int_name i)"
  note wf = Producer_signed_wf [OF assms(2)]
  have 1: "Producer_OnInterest p i = Some (Inr (data_block ?d, data_decoded (mi_appMetaInfo (dp_metaInfo ?d)) ?d))"
    by (simp only: Producer_OnInterest_eq [OF assms(1)] Data_toWire_eq [OF wf])
  have 2: "Data_wireDecode (data_block ?d) Data_ctor = Inr (data_decoded (mi_appMetaInfo (dp_metaInfo Data_ctor)) ?d)"
    by (rule Data_wireDecode_payload [OF wf])
  show ?thesis
    by (intro exI conjI impI allI, rule 1, rule 2, (rule producer_decoded_parts producer_decoded_parts(5) [THEN mp], assumption?)+,
        (rule producer_decoded [OF assms(2)])+,
        rule producer_matches [OF refl assms(2), of sha256, folded producer_wire], (erule conjE, assumption)+, rule producer_stale)
qed

definition sample_producer :: producer where
  "sample_producer = \<lparr>pr_active = True, pr_prefix = [], pr_postfix = [], pr_virtualPayloadSize = 2, pr_freshness = 0, pr_signature = 7,
     pr_keyLocator = [Component 8 [107]]\<rparr>"

definition sample_query :: interest where
  "sample_query = \<lparr>int_name = [Component 8 [97]],
     int_selectors = \<lparr>minSuffixComponents = -1, maxSuffixComponents = 1, publisherPublicKeyLocator = KeyLocator_Name [Component 8 [107]],
       sel_exclude = [], childSelector = 0, mustBeFresh = True\<rparr>, int_nonce = 1, int_lifetime = 1000, int_nextHopFaceId = None\<rparr>"

theorem producer_answers_witness:
  "\<exists>w d dat. Producer_OnInterest sample_producer sample_query = Some (Inr (w, d)) \<and> data_of (w, d) = Inr dat \<and>
     Interest_matchesData (\<lambda>_. replicate 32 0) sample_query dat \<and> CsEntry_isStale 1 (CsEntry_setData 0 dat False)"
proof -
  have c: "wire_of \<lparr>blk_type = 21, blk_payload = replicate 2 0, blk_wire = []\<rparr> = encodeBlock 21 (replicate 2 0)"
    by (simp add: wire_of_eq Block_hasWire_def)
  have p: "pr_active sample_producer" "producer_ok sample_producer (int_name sample_query)"
    by (simp_all add: sample_producer_def sample_query_def producer_ok_def Producer_signatureInfo_def SignatureInfo_ctor_def
        SignatureInfo_setKeyLocator_def keyLocator_payload_def c wire_data_defs)
  have k: "keyLocator_wf (publisherPublicKeyLocator (int_selectors sample_query))"
    "length (keyLocator_payload (publisherPublicKeyLocator (int_selectors sample_query))) < 2 ^ 64"
    by (simp_all add: sample_query_def keyLocator_wf_def keyLocator_payload_def wire_data_defs)
  from producer_answers [OF p, of "\<lambda>_. replicate 32 0"] k show ?thesis
    by (auto simp: sample_producer_def sample_query_def milliseconds_def)
qed



end
